(* ===== verification/BA_Prelude.thy ===== *)
theory BA_Prelude
  imports Main "HOL-Library.Word" "HOL-Library.Monad_Syntax"
begin

text \<open>
  Shared vocabulary of the development: bytes and byte strings, packets, the outcome type,
  the Click library containers (\<^verbatim>\<open>HashTable\<close> used as a set and as a map) and
  \<^verbatim>\<open>String::substring\<close>, iteration over a container, and the contracts (locales)
  the components are proved against.

  Outcomes. A definition that models code which can dereference a NULL pointer, read or write
  outside a buffer, read a byte that was never written, or recurse without end returns an
  \<^verbatim>\<open>option\<close>: \<open>None\<close> is ``the behaviour of the program is undefined from here on''.
  Errors the program itself reports (the return codes of the rendezvous element, the error codes
  of a configuration) are ordinary values.
\<close>

unbundle bit_operations_syntax

subsection \<open>Bytes, strings and packets\<close>

type_synonym byte = "8 word"
type_synonym bstr = "byte list"

text \<open>A memory cell of a packet: \<open>None\<close> is a byte that no code has written yet.\<close>

type_synonym cell = "byte option"

text \<open>A Click packet: its data and the 32-bit annotation at offset 0 (\<open>None\<close>: not set).\<close>

record packet =
  pk_data :: "cell list"
  pk_anno :: "32 word option"

definition cells :: "bstr \<Rightarrow> cell list" where
  "cells bs = map Some bs"

text \<open>Reading bytes: a read outside the data, or of an unwritten cell, is undefined.\<close>

definition rd8 :: "packet \<Rightarrow> nat \<Rightarrow> byte option" where
  "rd8 p i = (if i < length (pk_data p) then pk_data p ! i else None)"

fun all_some :: "'a option list \<Rightarrow> 'a list option" where
  "all_some [] = Some []"
| "all_some (None # xs) = None"
| "all_some (Some x # xs) = map_option (\<lambda>ys. x # ys) (all_some xs)"

definition rdn :: "packet \<Rightarrow> nat \<Rightarrow> nat \<Rightarrow> bstr option" where
  "rdn p i n = (if i + n \<le> length (pk_data p) then all_some (take n (drop i (pk_data p))) else None)"

text \<open>
  \<^verbatim>\<open>Packet::make(headroom, NULL, len, tailroom)\<close> followed by consecutive
  \<^verbatim>\<open>memcpy\<close>s that write \<open>bs\<close> from the start of the data: writing past the
  \<open>len\<close> bytes is undefined, bytes not reached stay unwritten.
\<close>

definition pk_make :: "nat \<Rightarrow> bstr \<Rightarrow> packet option" where
  "pk_make len bs = (if length bs \<le> len
     then Some \<lparr>pk_data = cells bs @ replicate (len - length bs) None, pk_anno = None\<rparr>
     else None)"

text \<open>\<^verbatim>\<open>p->push(n)\<close> and the \<^verbatim>\<open>memcpy\<close>s that fill the new header.\<close>

definition pk_push :: "nat \<Rightarrow> bstr \<Rightarrow> packet \<Rightarrow> packet option" where
  "pk_push n bs p = (if length bs \<le> n
     then Some (p\<lparr>pk_data := cells bs @ replicate (n - length bs) None @ pk_data p\<rparr>)
     else None)"

text \<open>\<^verbatim>\<open>p->pull(n)\<close>: removes \<open>n\<close> bytes from the front.\<close>

definition pk_pull :: "nat \<Rightarrow> packet \<Rightarrow> packet option" where
  "pk_pull n p = (if n \<le> length (pk_data p) then Some (p\<lparr>pk_data := drop n (pk_data p)\<rparr>) else None)"

text \<open>Overwriting bytes of a packet in place (\<^verbatim>\<open>memcpy(p->data() + i, bs, n)\<close>).\<close>

definition pk_poke :: "nat \<Rightarrow> bstr \<Rightarrow> packet \<Rightarrow> packet option" where
  "pk_poke i bs p = (if i + length bs \<le> length (pk_data p)
     then Some (p\<lparr>pk_data := take i (pk_data p) @ cells bs @ drop (i + length bs) (pk_data p)\<rparr>)
     else None)"

definition u8 :: "nat \<Rightarrow> byte" where
  "u8 n = word_of_nat n"

definition of_bytes :: "bstr \<Rightarrow> packet" where
  "of_bytes bs = \<lparr>pk_data = cells bs, pk_anno = None\<rparr>"

subsection \<open>Click's String::substring\<close>

text \<open>
  \<^verbatim>\<open>s.substring(pos, len)\<close>: a negative position counts from the end, and the
  result is clipped to the string (Click's documentation of \<^verbatim>\<open>String\<close>).
\<close>

definition substring :: "int \<Rightarrow> int \<Rightarrow> 'a list \<Rightarrow> 'a list" where
  "substring pos len s =
     (let n = int (length s);
          p = (if pos < 0 then pos + n else pos);
          e = min n (if len < 0 then n + len else p + len);
          b = max 0 p
      in if b \<ge> e then [] else take (nat (e - b)) (drop (nat b) s))"

subsection \<open>Click's HashTable\<close>

text \<open>
  A \<^verbatim>\<open>HashTable<T>\<close> used as a set is a list without duplicates and a
  \<^verbatim>\<open>HashTable<K, V>\<close> an association list without duplicate keys; the order of the
  list is the order in which an iterator visits the table. The order is Click's own affair: a new
  entry is put last here, and the properties are stated for tables in any order.
\<close>

definition hs_insert :: "'a \<Rightarrow> 'a list \<Rightarrow> 'a list" where
  "hs_insert x xs = (if x \<in> set xs then xs else xs @ [x])"

definition hs_erase :: "'a \<Rightarrow> 'a list \<Rightarrow> 'a list" where
  "hs_erase x xs = filter (\<lambda>y. y \<noteq> x) xs"

definition hs_union :: "'a list \<Rightarrow> 'a list \<Rightarrow> 'a list" where
  "hs_union xs ys = foldl (\<lambda>acc y. hs_insert y acc) xs ys"

type_synonym ('k, 'v) htab = "('k \<times> 'v) list"

definition hm_get :: "('k, 'v) htab \<Rightarrow> 'k \<Rightarrow> 'v option" where
  "hm_get m k = map_of m k"

fun hm_set :: "'k \<Rightarrow> 'v \<Rightarrow> ('k, 'v) htab \<Rightarrow> ('k, 'v) htab" where
  "hm_set k v [] = [(k, v)]"
| "hm_set k v ((k', v') # m) = (if k' = k then (k, v) # m else (k', v') # hm_set k v m)"

definition hm_erase :: "'k \<Rightarrow> ('k, 'v) htab \<Rightarrow> ('k, 'v) htab" where
  "hm_erase k m = filter (\<lambda>e. fst e \<noteq> k) m"

definition hm_find_insert :: "'k \<Rightarrow> 'v \<Rightarrow> ('k, 'v) htab \<Rightarrow> ('k, 'v) htab" where
  "hm_find_insert k v m = (case hm_get m k of Some _ \<Rightarrow> m | None \<Rightarrow> hm_set k v m)"

abbreviation hm_keys :: "('k, 'v) htab \<Rightarrow> 'k list" where
  "hm_keys m \<equiv> map fst m"

definition hm_wf :: "('k, 'v) htab \<Rightarrow> bool" where
  "hm_wf m = distinct (map fst m)"

subsection \<open>Loops over a container\<close>

text \<open>A loop whose body may be undefined.\<close>

fun fold_opt :: "('a \<Rightarrow> 's \<Rightarrow> 's option) \<Rightarrow> 'a list \<Rightarrow> 's \<Rightarrow> 's option" where
  "fold_opt f [] s = Some s"
| "fold_opt f (x # xs) s = (case f x s of None \<Rightarrow> None | Some s' \<Rightarrow> fold_opt f xs s')"

subsection \<open>Lemmas\<close>

named_theorems htab "laws of the hash tables"
named_theorems pkt "laws of the packet operations"

lemma set_hs_insert [simp, htab]: "set (hs_insert x xs) = insert x (set xs)"
  by (auto simp: hs_insert_def)

lemma distinct_hs_insert [simp, htab]: "distinct (hs_insert x xs) = distinct xs"
  by (auto simp: hs_insert_def)

lemma set_hs_erase [simp, htab]: "set (hs_erase x xs) = set xs - {x}"
  by (auto simp: hs_erase_def)

lemma distinct_hs_erase [simp, htab]: "distinct xs \<Longrightarrow> distinct (hs_erase x xs)"
  by (simp add: hs_erase_def)

lemma hs_erase_notin: "x \<notin> set xs \<Longrightarrow> hs_erase x xs = xs"
  by (induction xs) (auto simp: hs_erase_def)

lemma set_hs_union [simp, htab]: "set (hs_union xs ys) = set xs \<union> set ys"
  unfolding hs_union_def by (induction ys arbitrary: xs) auto

lemma distinct_hs_union [simp, htab]: "distinct (hs_union xs ys) = distinct xs"
  unfolding hs_union_def by (induction ys arbitrary: xs) auto

lemma hs_union_Nil [simp]: "hs_union xs [] = xs"
  by (simp add: hs_union_def)

lemma map_of_hm_set [htab]: "map_of (hm_set k v m) = (map_of m)(k \<mapsto> v)"
  by (induction k v m rule: hm_set.induct) (auto simp: fun_eq_iff)

lemma hm_get_Nil [simp, htab]: "hm_get [] k = None"
  by (simp add: hm_get_def)

lemma hm_get_set [simp, htab]: "hm_get (hm_set k v m) k' = (if k' = k then Some v else hm_get m k')"
  by (simp add: hm_get_def map_of_hm_set)

lemma hm_get_erase [simp, htab]: "hm_get (hm_erase k m) k' = (if k' = k then None else hm_get m k')"
  unfolding hm_get_def hm_erase_def by (induction m) auto

lemma keys_hm_set [htab]: "set (hm_keys (hm_set k v m)) = insert k (set (hm_keys m))"
  by (induction k v m rule: hm_set.induct) auto

lemma keys_hm_erase [htab]: "set (hm_keys (hm_erase k m)) = set (hm_keys m) - {k}"
  by (auto simp: hm_erase_def)

lemma hm_get_None_iff [htab]: "hm_get m k = None \<longleftrightarrow> k \<notin> set (hm_keys m)"
  by (simp add: hm_get_def map_of_eq_None_iff)

lemma hm_get_None_fst: "hm_get m k = None \<longleftrightarrow> k \<notin> fst ` set m"
  by (simp add: hm_get_def map_of_eq_None_iff)

lemma hm_get_Some_key: "hm_get m k = Some v \<Longrightarrow> k \<in> fst ` set m"
  using hm_get_None_fst [of m k] by auto

lemma hm_key_get: "k \<in> fst ` set m \<Longrightarrow> \<exists>v. hm_get m k = Some v"
  using hm_get_None_fst [of m k] by (cases "hm_get m k") auto

lemma hm_get_in: "hm_get m k = Some v \<Longrightarrow> (k, v) \<in> set m"
  by (simp add: hm_get_def map_of_SomeD)

lemma hm_in_get: "hm_wf m \<Longrightarrow> (k, v) \<in> set m \<Longrightarrow> hm_get m k = Some v"
  by (simp add: hm_wf_def hm_get_def)

lemma hm_wf_Nil [simp, htab]: "hm_wf []"
  by (simp add: hm_wf_def)

lemma hm_wf_set [simp, htab]: "hm_wf m \<Longrightarrow> hm_wf (hm_set k v m)"
proof (induction k v m rule: hm_set.induct)
  case (2 k v k' v' m)
  then show ?case using keys_hm_set [of k v m] by (auto simp: hm_wf_def)
qed (simp add: hm_wf_def)

lemma hm_wf_erase [simp, htab]: "hm_wf m \<Longrightarrow> hm_wf (hm_erase k m)"
  by (simp add: hm_wf_def hm_erase_def distinct_map_filter)

lemma hm_get_find_insert [simp, htab]:
  "hm_get (hm_find_insert k v m) k' =
     (if k' = k then Some (case hm_get m k of Some w \<Rightarrow> w | None \<Rightarrow> v) else hm_get m k')"
  by (simp add: hm_find_insert_def split: option.splits)

lemma hm_wf_find_insert [simp, htab]: "hm_wf m \<Longrightarrow> hm_wf (hm_find_insert k v m)"
  by (simp add: hm_find_insert_def split: option.splits)

lemma hm_empty_iff: "m = [] \<longleftrightarrow> (\<forall>k. hm_get m k = None)"
  by (cases m) (auto simp: hm_get_def split: prod.splits)

lemma all_some_map_Some [simp]: "all_some (map Some xs) = Some xs"
  by (induction xs) auto

lemma all_some_map_ex: "(\<And>x. x \<in> set xs \<Longrightarrow> \<exists>y. f x = Some y) \<Longrightarrow> \<exists>ys. all_some (map f xs) = Some ys"
proof (induction xs)
  case (Cons x xs)
  then obtain y ys where "f x = Some y" "all_some (map f xs) = Some ys" by fastforce
  then show ?case by simp
qed simp

lemma all_some_cells [simp]: "all_some (cells bs) = Some bs"
  by (simp add: cells_def)

lemma length_cells [simp]: "length (cells bs) = length bs"
  by (simp add: cells_def)

lemma cells_Nil [simp]: "cells [] = []"
  by (simp add: cells_def)

lemma cells_append [simp]: "cells (a @ b) = cells a @ cells b"
  by (simp add: cells_def)

lemma cells_Cons [simp]: "cells (b # bs) = Some b # cells bs"
  by (simp add: cells_def)

lemma take_cells: "take n (cells bs) = cells (take n bs)"
  by (simp add: cells_def take_map)

lemma drop_cells: "drop n (cells bs) = cells (drop n bs)"
  by (simp add: cells_def drop_map)

text \<open>Reading back what was laid out: a byte, or a run of bytes, after a known prefix.\<close>

lemma rd8_skip [pkt]:
  "pk_data p = cells xs @ Some b # ys \<Longrightarrow> i = length xs \<Longrightarrow> rd8 p i = Some b"
  by (simp add: rd8_def nth_append)

lemma rdn_skip [pkt]:
  "pk_data p = cells xs @ cells bs @ ys \<Longrightarrow> i = length xs \<Longrightarrow> n = length bs \<Longrightarrow> rdn p i n = Some bs"
  by (simp add: rdn_def)

lemma fold_opt_append: "fold_opt f (xs @ ys) s = Option.bind (fold_opt f xs s) (fold_opt f ys)"
  by (induction xs arbitrary: s) (auto split: option.splits)

text \<open>The Hoare rule of a loop: an invariant that the body keeps, indexed by what is still to do.\<close>

lemma fold_opt_inv:
  assumes "fold_opt f xs s = Some s'" and "I xs s"
    and "\<And>x ys s s'. I (x # ys) s \<Longrightarrow> f x s = Some s' \<Longrightarrow> I ys s'"
  shows "I [] s'"
  using assms(1,2)
proof (induction xs arbitrary: s)
  case Nil
  then show ?case by simp
next
  case (Cons x xs)
  then obtain s1 where "f x s = Some s1" "fold_opt f xs s1 = Some s'"
    by (auto split: option.splits)
  with Cons assms(3) show ?case by blast
qed

lemma fold_opt_total:
  assumes "I xs s" and "\<And>x ys s. I (x # ys) s \<Longrightarrow> \<exists>s'. f x s = Some s' \<and> I ys s'"
  shows "\<exists>s'. fold_opt f xs s = Some s' \<and> I [] s'"
  using assms(1)
proof (induction xs arbitrary: s)
  case Nil
  then show ?case by simp
next
  case (Cons x xs)
  then obtain s1 where "f x s = Some s1" "I xs s1" using assms(2) by blast
  with Cons.IH show ?case by simp
qed

lemma fold_opt_None:
  "x \<in> set xs \<Longrightarrow> (\<And>s. f x s = None) \<Longrightarrow> fold_opt f xs s = None"
  by (induction xs arbitrary: s) (auto split: option.splits)

subsection \<open>Contracts\<close>

text \<open>
  The contract of a Click \<^verbatim>\<open>HashTable\<close> as the components use it: lookup after an
  update and after an erasure, and iteration visiting every entry once.
\<close>

locale hash_table =
  fixes get :: "'m \<Rightarrow> 'k \<Rightarrow> 'v option"
    and upd :: "'k \<Rightarrow> 'v \<Rightarrow> 'm \<Rightarrow> 'm"
    and erase :: "'k \<Rightarrow> 'm \<Rightarrow> 'm"
    and entries :: "'m \<Rightarrow> ('k \<times> 'v) list"
    and wf :: "'m \<Rightarrow> bool"
  assumes get_upd: "get (upd k v m) k' = (if k' = k then Some v else get m k')"
    and get_erase: "get (erase k m) k' = (if k' = k then None else get m k')"
    and wf_upd: "wf m \<Longrightarrow> wf (upd k v m)"
    and wf_erase: "wf m \<Longrightarrow> wf (erase k m)"
    and entries_iff: "wf m \<Longrightarrow> (k, v) \<in> set (entries m) \<longleftrightarrow> get m k = Some v"
    and entries_distinct: "wf m \<Longrightarrow> distinct (map fst (entries m))"
begin

lemma get_upd_erase: "get (upd k v (erase k m)) k' = get (upd k v m) k'"
  by (simp add: get_upd get_erase)

lemma entries_upd:
  "wf m \<Longrightarrow> set (entries (upd k v m)) = insert (k, v) {e \<in> set (entries m). fst e \<noteq> k}"
  by (auto simp: entries_iff wf_upd get_upd split: if_splits)

lemma entries_erase:
  "wf m \<Longrightarrow> set (entries (erase k m)) = {e \<in> set (entries m). fst e \<noteq> k}"
  by (auto simp: entries_iff wf_erase get_erase split: if_splits)

lemma entries_empty_iff: "wf m \<Longrightarrow> entries m = [] \<longleftrightarrow> (\<forall>k. get m k = None)"
proof
  assume "wf m" and none: "\<forall>k. get m k = None"
  show "entries m = []"
  proof (cases "entries m")
    case (Cons e es)
    then have "e \<in> set (entries m)" by simp
    with \<open>wf m\<close> none show ?thesis by (cases e) (simp add: entries_iff)
  qed simp
next
  assume "wf m" and "entries m = []"
  then have "(k, v) \<notin> set (entries m)" for k v by simp
  with \<open>wf m\<close> have "get m k \<noteq> Some v" for k v by (simp add: entries_iff)
  then show "\<forall>k. get m k = None" by (metis not_None_eq)
qed

end

interpretation ht: hash_table hm_get hm_set hm_erase "\<lambda>m. m" hm_wf
  by unfold_locales (auto simp: hm_wf_def hm_get_def map_of_hm_set hm_wf_set [unfolded hm_wf_def]
      hm_get_erase [unfolded hm_get_def] hm_wf_erase [unfolded hm_wf_def] split: if_splits)

text \<open>
  The contract of an element of the router: an invariant that every acceptable event keeps, each
  such event being handled without undefined behaviour. What follows for whole runs is proved once
  here; the elements interpret it in their own theories.
\<close>

fun run_ok :: "('e \<Rightarrow> 's \<Rightarrow> 's option) \<Rightarrow> ('e \<Rightarrow> 's \<Rightarrow> bool) \<Rightarrow> 'e list \<Rightarrow> 's \<Rightarrow> bool" where
  "run_ok step ok [] s = True"
| "run_ok step ok (e # es) s =
     (ok e s \<and> (case step e s of None \<Rightarrow> True | Some s' \<Rightarrow> run_ok step ok es s'))"

locale element =
  fixes step :: "'e \<Rightarrow> 's \<Rightarrow> 's option"
    and ok :: "'e \<Rightarrow> 's \<Rightarrow> bool"
    and inv :: "'s \<Rightarrow> bool"
  assumes safe_step: "inv s \<Longrightarrow> ok e s \<Longrightarrow> \<exists>s'. step e s = Some s' \<and> inv s'"
begin

lemma safe_run: "inv s \<Longrightarrow> run_ok step ok es s \<Longrightarrow> \<exists>s'. fold_opt step es s = Some s' \<and> inv s'"
proof (induction es arbitrary: s)
  case Nil
  then show ?case by simp
next
  case (Cons e es)
  then obtain s1 where "step e s = Some s1" "inv s1" using safe_step by fastforce
  with Cons show ?case by simp
qed

lemma run_inv: "inv s \<Longrightarrow> run_ok step ok es s \<Longrightarrow> fold_opt step es s = Some s' \<Longrightarrow> inv s'"
  using safe_run by fastforce

end

end
