(* ===== verification/BA_Bitvector.thy ===== *)
theory BA_Bitvector
  imports BA_Prelude
begin

text \<open>
  The bit vectors of LIPSIN identifiers (\<^verbatim>\<open>src/ba_bitvector.hh\<close>,
  \<^verbatim>\<open>src/ba_bitvector.cc\<close>).

  \<open>bv_max\<close> is \<^verbatim>\<open>_max\<close> (the index of the last bit, -1 when empty) and
  \<open>bv_data\<close> the array \<^verbatim>\<open>_data\<close> points to: the two inline words
  \<^verbatim>\<open>_f0\<close>, \<^verbatim>\<open>_f1\<close>, or a heap array. Operations that check a
  precondition with \<^verbatim>\<open>assert\<close> are \<open>None\<close> where it fails. Every other
  operation computes on the words as the code does, stale bits included; \<open>bv_bits\<close> is the
  vector the words stand for.
\<close>

record bitvec =
  bv_max :: int
  bv_data :: "32 word list"

definition bv_size :: "bitvec \<Rightarrow> int" where
  "bv_size v = bv_max v + 1"

definition max_word :: "bitvec \<Rightarrow> int" where
  "max_word v = (if bv_max v < 0 then -1 else bv_max v div 32)"

text \<open>The number of words the loops \<^verbatim>\<open>for (i = 0; i <= max_word(); i++)\<close> visit.\<close>

definition nwords :: "bitvec \<Rightarrow> nat" where
  "nwords v = nat (max_word v + 1)"

abbreviation (input) MAX_INLINE_BIT :: int where "MAX_INLINE_BIT \<equiv> 63"
abbreviation (input) MAX_INLINE_WORD :: int where "MAX_INLINE_WORD \<equiv> 1"

definition bv_empty :: bitvec where
  "bv_empty = \<lparr>bv_max = -1, bv_data = [0, 0]\<rparr>"

definition resize_to_max :: "bitvec \<Rightarrow> int \<Rightarrow> bool \<Rightarrow> bitvec" where
  "resize_to_max v new_max valid_n =
     (let want_u = new_max div 32 + 1;
          have_u = max ((if valid_n then max_word v else MAX_INLINE_WORD) + 1) (MAX_INLINE_WORD + 1)
      in if want_u \<le> have_u then v
         else v\<lparr>bv_data := take (nat have_u) (bv_data v) @ replicate (nat (want_u - have_u)) 0\<rparr>)"

definition clear_last :: "bitvec \<Rightarrow> bitvec" where
  "clear_last v =
     (if bv_max v < 0 then v\<lparr>bv_data := (bv_data v)[0 := 0]\<rparr>
      else if bv_max v mod 32 \<noteq> 31 then
        (let i = nat (bv_max v div 32) in
         v\<lparr>bv_data := (bv_data v)[i := (bv_data v ! i) AND mask (nat (bv_max v mod 32) + 1)]\<rparr>)
      else v)"

definition bv_resize :: "int \<Rightarrow> bitvec \<Rightarrow> bitvec option" where
  "bv_resize n v = (if n \<ge> 0
     then Some ((if n - 1 > MAX_INLINE_BIT then resize_to_max v (n - 1) True else v)\<lparr>bv_max := n - 1\<rparr>)
     else None)"

definition bv_assign :: "int \<Rightarrow> bool \<Rightarrow> bitvec \<Rightarrow> bitvec option" where
  "bv_assign n value v = do {
     v \<leftarrow> bv_resize n v;
     let bits = (if value then 0xFFFFFFFF else 0);
     let copy = (if n > 32 then nat (max_word v) else 0);
     let v = v\<lparr>bv_data := replicate (Suc copy) bits @ drop (Suc copy) (bv_data v)\<rparr>;
     Some (if value then clear_last v else v)
   }"

text \<open>The constructors \<^verbatim>\<open>BABitvector(int n)\<close> and \<^verbatim>\<open>BABitvector(int n, bool bit)\<close>.\<close>

definition bv_new :: "int \<Rightarrow> bitvec option" where
  "bv_new n = (if n \<ge> 0
     then (let v = \<lparr>bv_max = n - 1, bv_data = [0, 0]\<rparr> in
           Some (if n - 1 > MAX_INLINE_BIT then resize_to_max v (n - 1) False else v))
     else None)"

definition bv_new_bit :: "int \<Rightarrow> bool \<Rightarrow> bitvec option" where
  "bv_new_bit n b = do { v \<leftarrow> bv_new n; if b then bv_assign n b v else Some v }"

text \<open>The copy constructor and the assignment operator.\<close>

definition bv_copy :: "bitvec \<Rightarrow> bitvec" where
  "bv_copy v = \<lparr>bv_max = bv_max v,
     bv_data = (if bv_max v > MAX_INLINE_BIT then take (nwords v) (bv_data v) else take 2 (bv_data v))\<rparr>"

definition bv_store :: "bitvec \<Rightarrow> bitvec \<Rightarrow> bitvec" where
  "bv_store this v = \<lparr>bv_max = bv_max v,
     bv_data = (if max_word v \<le> MAX_INLINE_WORD then take 2 (bv_data v) @ drop 2 (bv_data this)
                else take (nwords v) (bv_data v))\<rparr>"

text \<open>Reading and writing a bit (\<^verbatim>\<open>operator[]\<close> and \<^verbatim>\<open>Bit\<close>).\<close>

definition bv_get :: "int \<Rightarrow> bitvec \<Rightarrow> bool option" where
  "bv_get i v = (if 0 \<le> i \<and> i \<le> bv_max v
     then Some ((bv_data v ! nat (i div 32)) AND push_bit (nat (i mod 32)) 1 \<noteq> 0) else None)"

definition set_bit_at :: "int \<Rightarrow> bool \<Rightarrow> bitvec \<Rightarrow> bitvec" where
  "set_bit_at i x v =
     (let k = nat (i div 32); m = push_bit (nat (i mod 32)) 1 in
      v\<lparr>bv_data := (bv_data v)[k := (if x then bv_data v ! k OR m else bv_data v ! k AND NOT m)]\<rparr>)"

definition bv_set :: "int \<Rightarrow> bool \<Rightarrow> bitvec \<Rightarrow> bitvec option" where
  "bv_set i x v = (if 0 \<le> i \<and> i \<le> bv_max v then Some (set_bit_at i x v) else None)"

text \<open>\<^verbatim>\<open>force_bit(i) = x\<close>: extends the vector when necessary.\<close>

definition bv_force_set :: "int \<Rightarrow> bool \<Rightarrow> bitvec \<Rightarrow> bitvec option" where
  "bv_force_set i x v = (if i \<ge> 0
     then do { v \<leftarrow> (if i > bv_max v then bv_resize (i + 1) v else Some v); Some (set_bit_at i x v) }
     else None)"

definition bv_zero :: "bitvec \<Rightarrow> bool" where
  "bv_zero v = list_all (\<lambda>w. w = 0) (take (nwords v) (bv_data v))"

definition bv_clear :: "bitvec \<Rightarrow> bitvec" where
  "bv_clear v = v\<lparr>bv_data := replicate (nwords v) 0 @ drop (nwords v) (bv_data v)\<rparr>"

definition bv_eq :: "bitvec \<Rightarrow> bitvec \<Rightarrow> bool" where
  "bv_eq v x = (if bv_max v \<noteq> bv_max x then False
     else if bv_max v \<le> MAX_INLINE_BIT then take 2 (bv_data v) = take 2 (bv_data x)
     else take (nwords v) (bv_data v) = take (nwords v) (bv_data x))"

definition bv_negate :: "bitvec \<Rightarrow> bitvec" where
  "bv_negate v = clear_last (v\<lparr>bv_data := map NOT (take (nwords v) (bv_data v)) @ drop (nwords v) (bv_data v)\<rparr>)"

text \<open>
  The word loops of the compound operators: \<open>map2_words f n\<close> combines the first \<open>n\<close>
  words; reading a word the other operand does not have is undefined.
\<close>

definition map2_words :: "(32 word \<Rightarrow> 32 word \<Rightarrow> 32 word) \<Rightarrow> nat \<Rightarrow> 32 word list \<Rightarrow> 32 word list \<Rightarrow> 32 word list option" where
  "map2_words f n xs ys = (if n \<le> length xs \<and> n \<le> length ys
     then Some (map2 f (take n xs) (take n ys) @ drop n xs) else None)"

definition bv_and_eq :: "bitvec \<Rightarrow> bitvec \<Rightarrow> bitvec option" where
  "bv_and_eq v x = (if bv_max x = bv_max v
     then do { d \<leftarrow> map2_words (AND) (nwords v) (bv_data v) (bv_data x); Some (v\<lparr>bv_data := d\<rparr>) }
     else None)"

definition bv_or_eq :: "bitvec \<Rightarrow> bitvec \<Rightarrow> bitvec option" where
  "bv_or_eq v x = do {
     v \<leftarrow> (if bv_max x > bv_max v then bv_resize (bv_max x + 1) v else Some v);
     d \<leftarrow> map2_words (OR) (nwords v) (bv_data v) (bv_data x);
     Some (v\<lparr>bv_data := d\<rparr>)
   }"

definition bv_xor_eq :: "bitvec \<Rightarrow> bitvec \<Rightarrow> bitvec option" where
  "bv_xor_eq v x = (if bv_max x = bv_max v
     then do { d \<leftarrow> map2_words (XOR) (nwords v) (bv_data v) (bv_data x); Some (v\<lparr>bv_data := d\<rparr>) }
     else None)"

definition bv_not :: "bitvec \<Rightarrow> bitvec" where
  "bv_not v = bv_negate (bv_copy v)"

definition bv_sub_eq :: "bitvec \<Rightarrow> bitvec \<Rightarrow> bitvec option" where
  "bv_sub_eq v x = bv_and_eq v (bv_not x)"

definition bv_and :: "bitvec \<Rightarrow> bitvec \<Rightarrow> bitvec option" where
  "bv_and v x = bv_and_eq (bv_copy v) x"

definition bv_or :: "bitvec \<Rightarrow> bitvec \<Rightarrow> bitvec option" where
  "bv_or v x = bv_or_eq (bv_copy v) x"

definition bv_xor :: "bitvec \<Rightarrow> bitvec \<Rightarrow> bitvec option" where
  "bv_xor v x = bv_xor_eq (bv_copy v) x"

definition bv_sub :: "bitvec \<Rightarrow> bitvec \<Rightarrow> bitvec option" where
  "bv_sub v x = bv_and v (bv_not x)"

text \<open>
  \<^verbatim>\<open>offset_or\<close>: the \<^verbatim>\<open>while (true)\<close> loop that shifts the words of
  \<open>x\<close> into place. \<open>os\<close> is what is left of \<open>x\<close>'s words; the loop ends with
  \<open>x\<close>'s words or at the last word of the vector. The \<^verbatim>\<open>assert\<close> of
  \<^verbatim>\<open>offset_or\<close> shifts \<^verbatim>\<open>1U\<close> by \<^verbatim>\<open>(o._max & 0x1F) + 1\<close>,
  which is undefined when that is 32.
\<close>

fun offset_or_loop :: "nat \<Rightarrow> nat \<Rightarrow> nat \<Rightarrow> 32 word list \<Rightarrow> 32 word list \<Rightarrow> 32 word list" where
  "offset_or_loop bits_1st my_pos my_max_word [] d = d"
| "offset_or_loop bits_1st my_pos my_max_word (val # os) d =
     (let d = d[my_pos := (d ! my_pos) OR push_bit bits_1st val];
          my_pos = Suc my_pos
      in if my_pos > my_max_word then d
         else let d = (if bits_1st \<noteq> 0
                       then d[my_pos := (d ! my_pos) OR drop_bit (32 - bits_1st) val] else d)
              in offset_or_loop bits_1st my_pos my_max_word os d)"

definition bv_offset_or :: "bitvec \<Rightarrow> bitvec \<Rightarrow> int \<Rightarrow> bitvec option" where
  "bv_offset_or v x offset =
     (if offset \<ge> 0 \<and> offset + bv_max x \<le> bv_max v \<and>
         ((bv_max x < 0 \<and> bv_data x ! 0 = 0) \<or> bv_max x mod 32 = 0 \<or>
          bv_max x \<ge> 0 \<and> bv_max x mod 32 \<noteq> 31 \<and>
          (bv_data x ! nat (max_word x)) AND mask (nat (bv_max x mod 32) + 1) = bv_data x ! nat (max_word x))
      then Some (v\<lparr>bv_data := offset_or_loop (nat (offset mod 32)) (nat (offset div 32)) (nat (max_word v))
             (take (max 1 (nwords x)) (bv_data x)) (bv_data v)\<rparr>)
      else None)"

definition bv_or_with_difference :: "bitvec \<Rightarrow> bitvec \<Rightarrow> bitvec \<Rightarrow> (bitvec \<times> bitvec) option" where
  "bv_or_with_difference v x diff =
     (if bv_max x = bv_max v then do {
        diff \<leftarrow> (if bv_max diff \<noteq> bv_max v then bv_resize (bv_max v + 1) diff else Some diff);
        dd \<leftarrow> map2_words (\<lambda>o' d. o' AND NOT d) (nwords v) (bv_data x) (bv_data v);
        d \<leftarrow> map2_words (OR) (nwords v) (bv_data v) (bv_data x);
        Some (v\<lparr>bv_data := d\<rparr>,
              diff\<lparr>bv_data := take (nwords v) dd @ drop (nwords v) (bv_data diff)\<rparr>)
      } else None)"

definition bv_nonzero_intersection :: "bitvec \<Rightarrow> bitvec \<Rightarrow> bool" where
  "bv_nonzero_intersection v x =
     (let nn = min (nwords x) (nwords v) in
      list_ex (\<lambda>(a, b). a AND b \<noteq> 0) (zip (take nn (bv_data v)) (take nn (bv_data x))))"

definition bv_swap :: "bitvec \<Rightarrow> bitvec \<Rightarrow> bitvec \<times> bitvec" where
  "bv_swap v x = (x, v)"

text \<open>\<^verbatim>\<open>to_string\<close>: the most significant bit first.\<close>

definition bv_to_string :: "bitvec \<Rightarrow> string option" where
  "bv_to_string v = all_some (map (\<lambda>i. do {
      b \<leftarrow> bv_get (bv_size v - int i - 1) v; Some (if b then CHR ''1'' else CHR ''0'') })
    [0..<nat (bv_size v)])"

text \<open>
  The bytes of the words: \<^verbatim>\<open>memcpy\<close> from and to \<^verbatim>\<open>_data\<close>, on a
  little-endian machine.
\<close>

definition word_of_bytes :: "byte \<Rightarrow> byte \<Rightarrow> byte \<Rightarrow> byte \<Rightarrow> 32 word" where
  "word_of_bytes b0 b1 b2 b3 =
     ucast b0 OR push_bit 8 (ucast b1) OR push_bit 16 (ucast b2) OR push_bit 24 (ucast b3)"

fun words_of_bytes :: "bstr \<Rightarrow> 32 word list" where
  "words_of_bytes (b0 # b1 # b2 # b3 # bs) = word_of_bytes b0 b1 b2 b3 # words_of_bytes bs"
| "words_of_bytes _ = []"

definition bytes_of_word :: "32 word \<Rightarrow> bstr" where
  "bytes_of_word w = [ucast w, ucast (drop_bit 8 w), ucast (drop_bit 16 w), ucast (drop_bit 24 w)]"

definition bytes_of_words :: "32 word list \<Rightarrow> bstr" where
  "bytes_of_words ws = concat (map bytes_of_word ws)"

subsection \<open>The vector the words stand for\<close>

definition bv_bit :: "bitvec \<Rightarrow> nat \<Rightarrow> bool" where
  "bv_bit v i = bit (bv_data v ! (i div 32)) (i mod 32)"

definition bv_len :: "bitvec \<Rightarrow> nat" where
  "bv_len v = nat (bv_size v)"

definition bv_bits :: "bitvec \<Rightarrow> bool list" where
  "bv_bits v = map (bv_bit v) [0..<bv_len v]"

text \<open>Well-formed: the array holds the words; clean: the bits past the end are zero.\<close>

definition bv_wf :: "bitvec \<Rightarrow> bool" where
  "bv_wf v \<longleftrightarrow> -1 \<le> bv_max v \<and> 2 \<le> length (bv_data v) \<and> nwords v \<le> length (bv_data v)"

definition bv_clean :: "bitvec \<Rightarrow> bool" where
  "bv_clean v \<longleftrightarrow> (\<forall>i < 32 * max 2 (nwords v). bv_len v \<le> i \<longrightarrow> \<not> bv_bit v i)"

text \<open>A LIPSIN identifier of the system: \<^verbatim>\<open>FID_LEN * 8\<close> = 256 bits in eight words.\<close>

definition is_fid :: "bitvec \<Rightarrow> bool" where
  "is_fid v \<longleftrightarrow> bv_max v = 255 \<and> length (bv_data v) = 8"

lemma nwords_len: "nwords v = (bv_len v + 31) div 32"
  unfolding nwords_def max_word_def bv_len_def bv_size_def by (auto simp: nat_div_distrib)

lemma bv_len_le_words: "bv_len v \<le> 32 * nwords v"
  unfolding nwords_len by simp

lemma word_index: "i < bv_len v \<Longrightarrow> i div 32 < nwords v"
  using bv_len_le_words [of v] by (simp add: less_mult_imp_div_less mult.commute)

lemma bv_wf_index: "bv_wf v \<Longrightarrow> i < bv_len v \<Longrightarrow> i div 32 < length (bv_data v)"
  using word_index [of i v] by (simp add: bv_wf_def)

lemma word32_eqI: "(\<And>n. n < 32 \<Longrightarrow> bit a n = bit b n) \<Longrightarrow> a = (b :: 32 word)"
  by (rule bit_word_eqI) simp

text \<open>Arrays of words are equal when all their bits are.\<close>

lemma words_eqI:
  assumes "length xs = length ys"
    and "\<And>i. i < 32 * length xs \<Longrightarrow> bit (xs ! (i div 32)) (i mod 32) = bit (ys ! (i div 32)) (i mod 32)"
  shows "xs = (ys :: 32 word list)"
proof (rule nth_equalityI)
  show "length xs = length ys" by fact
  fix k assume k: "k < length xs"
  show "xs ! k = ys ! k"
  proof (rule word32_eqI)
    fix n :: nat assume "n < 32"
    with k have "32 * k + n < 32 * length xs" by simp
    from assms(2) [OF this] \<open>n < 32\<close> show "bit (xs ! k) n = bit (ys ! k) n" by simp
  qed
qed

lemma bv_bits_eq_iff: "bv_bits a = bv_bits b \<longleftrightarrow> bv_len a = bv_len b \<and> (\<forall>i < bv_len a. bv_bit a i = bv_bit b i)"
  by (auto simp: bv_bits_def list_eq_iff_nth_eq)

lemma length_bv_bits [simp]: "length (bv_bits v) = bv_len v"
  by (simp add: bv_bits_def)

lemma nth_bv_bits [simp]: "i < bv_len v \<Longrightarrow> bv_bits v ! i = bv_bit v i"
  by (simp add: bv_bits_def)

subsection \<open>Reading and writing bits\<close>

lemma bv_get_bit: "bv_get (int i) v = (if i < bv_len v then Some (bv_bit v i) else None)"
proof -
  have "int i \<le> bv_max v \<longleftrightarrow> i < bv_len v" by (auto simp: bv_len_def bv_size_def)
  moreover have "nat (int i div 32) = i div 32" "nat (int i mod 32) = i mod 32"
    by (simp_all add: nat_div_distrib nat_mod_distrib)
  ultimately show ?thesis
    by (simp add: bv_get_def bv_bit_def bit_iff_and_push_bit_not_eq_0)
qed

lemma set_bit_at_max [simp]: "bv_max (set_bit_at i x v) = bv_max v"
  by (simp add: set_bit_at_def Let_def)

lemma set_bit_at_length [simp]: "length (bv_data (set_bit_at i x v)) = length (bv_data v)"
  by (simp add: set_bit_at_def Let_def)

lemma bit_set_bit_at:
  assumes "i div 32 < length (bv_data v)" and "j div 32 < length (bv_data v)"
  shows "bv_bit (set_bit_at (int i) x v) j = (if j = i then x else bv_bit v j)"
proof -
  have ij: "j = i \<longleftrightarrow> j div 32 = i div 32 \<and> j mod 32 = i mod 32"
    by (metis mult_div_mod_eq)
  have "nat (int i div 32) = i div 32" "nat (int i mod 32) = i mod 32"
    by (simp_all add: nat_div_distrib nat_mod_distrib)
  with assms show ?thesis
    unfolding set_bit_at_def bv_bit_def Let_def
    by (auto simp: ij nth_list_update bit_simps)
qed

subsection \<open>The compound operators, bit by bit\<close>

lemma map2_words_ok:
  assumes "n \<le> length xs" and "n \<le> length ys"
  obtains d where "map2_words f n xs ys = Some d" "length d = length xs"
    and "\<And>k. k < n \<Longrightarrow> d ! k = f (xs ! k) (ys ! k)"
    and "\<And>k. n \<le> k \<Longrightarrow> k < length xs \<Longrightarrow> d ! k = xs ! k"
proof
  show "map2_words f n xs ys = Some (map2 f (take n xs) (take n ys) @ drop n xs)"
    using assms by (simp add: map2_words_def)
qed (use assms in \<open>auto simp: nth_append min_def\<close>)

lemma bv_copy_max [simp]: "bv_max (bv_copy v) = bv_max v"
  by (simp add: bv_copy_def)

lemma bv_copy_nwords [simp]: "nwords (bv_copy v) = nwords v"
  by (simp add: nwords_def max_word_def)

lemma bv_copy_len [simp]: "bv_len (bv_copy v) = bv_len v"
  by (simp add: bv_len_def bv_size_def)

lemma nwords_inline: "bv_max v \<le> 63 \<Longrightarrow> nwords v \<le> 2"
  unfolding nwords_def max_word_def by (auto split: if_splits)

lemma nwords_heap: "bv_max v > 63 \<Longrightarrow> 2 < nwords v"
  unfolding nwords_def max_word_def by auto

lemma bv_copy_data:
  assumes "bv_wf v"
  shows "length (bv_data (bv_copy v)) = max 2 (nwords v)"
    and "k < max 2 (nwords v) \<Longrightarrow> bv_data (bv_copy v) ! k = bv_data v ! k"
  using assms nwords_inline [of v] nwords_heap [of v]
  by (auto simp: bv_copy_def bv_wf_def max_def split: if_splits)

lemma bv_copy_wf: "bv_wf v \<Longrightarrow> bv_wf (bv_copy v)"
  using bv_copy_data(1) [of v] by (auto simp: bv_wf_def)

lemma bv_copy_bit: "bv_wf v \<Longrightarrow> i < 32 * max 2 (nwords v) \<Longrightarrow> bv_bit (bv_copy v) i = bv_bit v i"
  using bv_copy_data(2) [of v "i div 32"] by (simp add: bv_bit_def less_mult_imp_div_less mult.commute)

lemma bv_copy_bits: "bv_wf v \<Longrightarrow> bv_bits (bv_copy v) = bv_bits v"
  by (auto simp: bv_bits_eq_iff nwords_len intro!: bv_copy_bit)

lemma bv_copy_clean: "bv_wf v \<Longrightarrow> bv_clean v \<Longrightarrow> bv_clean (bv_copy v)"
  by (simp add: bv_clean_def bv_copy_bit)

lemma words_op_bits:
  assumes "bv_wf v" and "bv_wf x" and "bv_max x = bv_max v"
    and hom: "\<And>a b n. n < 32 \<Longrightarrow> bit (f a b) n = g (bit a n) (bit b n)"
  obtains d where "map2_words f (nwords v) (bv_data v) (bv_data x) = Some d"
    and "length d = length (bv_data v)"
    and "\<And>i. i < 32 * nwords v \<Longrightarrow> bv_bit (v\<lparr>bv_data := d\<rparr>) i = g (bv_bit v i) (bv_bit x i)"
    and "\<And>i. 32 * nwords v \<le> i \<Longrightarrow> i < 32 * length (bv_data v) \<Longrightarrow> bv_bit (v\<lparr>bv_data := d\<rparr>) i = bv_bit v i"
proof -
  have nx: "nwords x = nwords v" using assms(3) by (simp add: nwords_def max_word_def)
  have lens: "nwords v \<le> length (bv_data v)" "nwords v \<le> length (bv_data x)"
    using assms(1,2) nx by (auto simp: bv_wf_def)
  obtain d where d: "map2_words f (nwords v) (bv_data v) (bv_data x) = Some d"
    and len: "length d = length (bv_data v)"
    and lo: "\<And>k. k < nwords v \<Longrightarrow> d ! k = f (bv_data v ! k) (bv_data x ! k)"
    and hi: "\<And>k. nwords v \<le> k \<Longrightarrow> k < length (bv_data v) \<Longrightarrow> d ! k = bv_data v ! k"
    using map2_words_ok [OF lens] by metis
  show thesis
  proof
    show "map2_words f (nwords v) (bv_data v) (bv_data x) = Some d" "length d = length (bv_data v)"
      by fact+
    show "bv_bit (v\<lparr>bv_data := d\<rparr>) i = g (bv_bit v i) (bv_bit x i)" if "i < 32 * nwords v" for i
    proof -
      have "i div 32 < nwords v" using that by (simp add: less_mult_imp_div_less mult.commute)
      then show ?thesis by (simp add: bv_bit_def lo hom)
    qed
    show "bv_bit (v\<lparr>bv_data := d\<rparr>) i = bv_bit v i"
      if "32 * nwords v \<le> i" "i < 32 * length (bv_data v)" for i
    proof -
      have "nwords v \<le> i div 32" using that(1) by simp
      moreover have "i div 32 < length (bv_data v)"
        using that(2) by (simp add: less_mult_imp_div_less mult.commute)
      ultimately have "nwords v \<le> i div 32" "i div 32 < length (bv_data v)" by simp_all
      then show ?thesis by (simp add: bv_bit_def hi)
    qed
  qed
qed

subsection \<open>Cleaning the last word\<close>

lemma clear_last_max [simp]: "bv_max (clear_last v) = bv_max v"
  by (simp add: clear_last_def Let_def)

lemma clear_last_length [simp]: "length (bv_data (clear_last v)) = length (bv_data v)"
  by (simp add: clear_last_def Let_def)

lemma bv_len_Suc: "0 \<le> bv_max v \<Longrightarrow> bv_len v = Suc (nat (bv_max v))"
  by (simp add: bv_len_def bv_size_def nat_add_distrib)

lemma clear_last_bit:
  assumes "bv_wf v" and "0 \<le> bv_max v"
  shows "bv_bit (clear_last v) i = (bv_bit v i \<and> (i div 32 = nat (bv_max v) div 32 \<longrightarrow> i < bv_len v))"
proof -
  define m where "m = nat (bv_max v)"
  have m: "bv_max v = int m" using assms by (simp add: m_def)
  have len: "bv_len v = Suc m" using assms by (simp add: bv_len_Suc m)
  have md: "nat (bv_max v div 32) = m div 32" "nat (bv_max v mod 32) = m mod 32"
    "bv_max v mod 32 = int (m mod 32)" by (simp_all add: m nat_div_distrib nat_mod_distrib zmod_int)
  have idx: "m div 32 < length (bv_data v)" using bv_wf_index [OF assms(1), of m] by (simp add: len)
  have le: "i div 32 = m div 32 \<Longrightarrow> (i < Suc m \<longleftrightarrow> i mod 32 < Suc (m mod 32))"
    by (metis add_less_cancel_left less_Suc_eq_le mult_div_mod_eq nat_add_left_cancel_le)
  have i32: "i mod 32 < 32" by simp
  show ?thesis
  proof (cases "m mod 32 = 31")
    case True
    with md i32 le show ?thesis using assms by (auto simp: clear_last_def len m)
  next
    case False
    then have ne: "bv_max v mod 32 \<noteq> 31" using md by simp
    then show ?thesis
      using assms le md idx
      by (cases "i div 32 = m div 32") (auto simp: clear_last_def Let_def bv_bit_def bit_simps len m)
  qed
qed

lemma nwords_pos: "0 \<le> bv_max v \<Longrightarrow> nwords v = Suc (nat (bv_max v) div 32)"
  by (simp add: nwords_def max_word_def nat_add_distrib nat_div_distrib)

lemma nwords_neg: "bv_max v < 0 \<Longrightarrow> nwords v = 0"
  by (simp add: nwords_def max_word_def)

lemma bv_same_size: "bv_max x = bv_max v \<Longrightarrow> nwords x = nwords v \<and> bv_len x = bv_len v"
  by (simp add: nwords_def max_word_def bv_len_def bv_size_def)

lemma bv_clean_index: "i < 32 * nwords v \<Longrightarrow> i < 32 * max 2 (nwords v)"
  by (simp add: max_def)

text \<open>Two clean vectors of one size are \<^verbatim>\<open>==\<close> when they have the same bits.\<close>

lemma bv_eq_words: "bv_wf v \<Longrightarrow> bv_wf x \<Longrightarrow>
  bv_eq v x \<longleftrightarrow> bv_max v = bv_max x \<and>
    take (max 2 (nwords v)) (bv_data v) = take (max 2 (nwords v)) (bv_data x)"
  using nwords_inline [of v] nwords_heap [of v] by (auto simp: bv_eq_def max_def)

lemma bv_eq_bits:
  assumes "bv_wf v" and "bv_wf x" and "bv_clean v" and "bv_clean x"
  shows "bv_eq v x \<longleftrightarrow> bv_max v = bv_max x \<and> bv_bits v = bv_bits x"
proof (cases "bv_max v = bv_max x")
  case False
  then show ?thesis by (simp add: bv_eq_def)
next
  case True
  let ?n = "max 2 (nwords v)"
  have sz: "nwords x = nwords v" "bv_len x = bv_len v" using bv_same_size [of v x] True by simp_all
  have len: "?n \<le> length (bv_data v)" "?n \<le> length (bv_data x)"
    using assms(1,2) sz by (auto simp: bv_wf_def)
  have ltn: "i < 32 * ?n \<Longrightarrow> i div 32 < ?n" for i by (simp add: less_mult_imp_div_less mult.commute)
  have "take ?n (bv_data v) = take ?n (bv_data x) \<longleftrightarrow> (\<forall>i < 32 * ?n. bv_bit v i = bv_bit x i)"
  proof
    assume eq: "take ?n (bv_data v) = take ?n (bv_data x)"
    then have "k < ?n \<Longrightarrow> bv_data v ! k = bv_data x ! k" for k
      by (metis nth_take)
    with ltn show "\<forall>i < 32 * ?n. bv_bit v i = bv_bit x i" by (simp add: bv_bit_def)
  next
    assume b: "\<forall>i < 32 * ?n. bv_bit v i = bv_bit x i"
    show "take ?n (bv_data v) = take ?n (bv_data x)"
    proof (rule words_eqI)
      show "length (take ?n (bv_data v)) = length (take ?n (bv_data x))" using len by simp
      fix i assume "i < 32 * length (take ?n (bv_data v))"
      then have i: "i < 32 * ?n" using len by simp
      show "bit (take ?n (bv_data v) ! (i div 32)) (i mod 32) = bit (take ?n (bv_data x) ! (i div 32)) (i mod 32)"
        using b i ltn [OF i] by (simp only: bv_bit_def nth_take)
    qed
  qed
  also have "\<dots> \<longleftrightarrow> (\<forall>i < bv_len v. bv_bit v i = bv_bit x i)"
  proof -
    have "i < bv_len v \<Longrightarrow> i < 32 * ?n" for i
      using bv_len_le_words [of v] by (simp add: max_def)
    moreover have "i < 32 * ?n \<Longrightarrow> \<not> i < bv_len v \<Longrightarrow> bv_bit v i = bv_bit x i" for i
      using assms(3,4) sz by (simp add: bv_clean_def)
    ultimately show ?thesis by blast
  qed
  finally show ?thesis using True sz assms(1,2) by (simp add: bv_eq_words bv_bits_eq_iff)
qed

subsection \<open>The operators keep vectors well-formed and clean\<close>

text \<open>A binary word operator that maps zero bits to a zero bit, on operands of one size.\<close>

lemma binop_clean:
  assumes v: "bv_wf v" "bv_clean v" and x: "bv_wf x" "bv_clean x" and sz: "bv_max x = bv_max v"
    and hom: "\<And>a b n. n < 32 \<Longrightarrow> bit (f a b) n = g (bit a n) (bit b n)" and g0: "\<not> g False False"
  shows "\<exists>d. map2_words f (nwords v) (bv_data v) (bv_data x) = Some d \<and>
    bv_wf (v\<lparr>bv_data := d\<rparr>) \<and> bv_clean (v\<lparr>bv_data := d\<rparr>) \<and>
    bv_bits (v\<lparr>bv_data := d\<rparr>) = map2 g (bv_bits v) (bv_bits x)"
proof -
  obtain d where d: "map2_words f (nwords v) (bv_data v) (bv_data x) = Some d"
    "length d = length (bv_data v)"
    and lo: "\<And>i. i < 32 * nwords v \<Longrightarrow> bv_bit (v\<lparr>bv_data := d\<rparr>) i = g (bv_bit v i) (bv_bit x i)"
    and hi: "\<And>i. 32 * nwords v \<le> i \<Longrightarrow> i < 32 * length (bv_data v) \<Longrightarrow> bv_bit (v\<lparr>bv_data := d\<rparr>) i = bv_bit v i"
    using words_op_bits [OF v(1) x(1) sz, of f g] hom by metis
  let ?r = "v\<lparr>bv_data := d\<rparr>"
  have nr [simp]: "nwords ?r = nwords v" "bv_len ?r = bv_len v"
    by (simp_all add: nwords_def max_word_def bv_len_def bv_size_def)
  have nx: "nwords x = nwords v" "bv_len x = bv_len v" using bv_same_size [OF sz] by simp_all
  have wf: "bv_wf ?r" using v(1) d(2) by (simp add: bv_wf_def)
  have mx: "max 2 (nwords v) \<le> length (bv_data v)" using v(1) by (simp add: bv_wf_def)
  have clean: "bv_clean ?r"
    unfolding bv_clean_def
  proof (intro allI impI)
    fix i assume i: "i < 32 * max 2 (nwords ?r)" "bv_len ?r \<le> i"
    then have z: "\<not> bv_bit v i" "\<not> bv_bit x i" using v(2) x(2) nx by (simp_all add: bv_clean_def)
    show "\<not> bv_bit ?r i"
    proof (cases "i < 32 * nwords v")
      case True
      then show ?thesis using lo z g0 by simp
    next
      case False
      moreover have "i < 32 * length (bv_data v)"
        using i(1) mx by (metis less_le_trans mult_le_mono2 nr(1))
      ultimately show ?thesis using hi z by simp
    qed
  qed
  have "bv_bits ?r = map2 g (bv_bits v) (bv_bits x)"
  proof (rule nth_equalityI)
    fix i assume "i < length (bv_bits ?r)"
    then have i: "i < bv_len v" by simp
    then have "i < 32 * nwords v" using bv_len_le_words [of v] by simp
    with i lo nx show "bv_bits ?r ! i = map2 g (bv_bits v) (bv_bits x) ! i" by simp
  qed (simp add: nx)
  with d wf clean show ?thesis by blast
qed

lemma bv_and_correct:
  assumes "bv_wf v" "bv_clean v" "bv_wf x" "bv_clean x" "bv_max x = bv_max v"
  shows "\<exists>r. bv_and v x = Some r \<and> bv_max r = bv_max v \<and> bv_wf r \<and> bv_clean r \<and>
    bv_bits r = map2 (\<and>) (bv_bits v) (bv_bits x)"
  using binop_clean [OF bv_copy_wf [OF assms(1)] bv_copy_clean [OF assms(1,2)] assms(3,4), of "(AND)" "(\<and>)"] assms
  by (auto simp: bv_and_def bv_and_eq_def bit_simps bv_copy_bits)

lemma bv_xor_correct:
  assumes "bv_wf v" "bv_clean v" "bv_wf x" "bv_clean x" "bv_max x = bv_max v"
  shows "\<exists>r. bv_xor v x = Some r \<and> bv_max r = bv_max v \<and> bv_wf r \<and> bv_clean r \<and>
    bv_bits r = map2 (\<noteq>) (bv_bits v) (bv_bits x)"
  using binop_clean [OF bv_copy_wf [OF assms(1)] bv_copy_clean [OF assms(1,2)] assms(3,4), of "(XOR)" "(\<noteq>)"] assms
  by (auto simp: bv_xor_def bv_xor_eq_def bit_simps bv_copy_bits)

lemma bv_or_correct:
  assumes "bv_wf v" "bv_clean v" "bv_wf x" "bv_clean x" "bv_max x = bv_max v"
  shows "\<exists>r. bv_or v x = Some r \<and> bv_max r = bv_max v \<and> bv_wf r \<and> bv_clean r \<and>
    bv_bits r = map2 (\<or>) (bv_bits v) (bv_bits x)"
  using binop_clean [OF bv_copy_wf [OF assms(1)] bv_copy_clean [OF assms(1,2)] assms(3,4), of "(OR)" "(\<or>)"] assms
  by (auto simp: bv_or_def bv_or_eq_def bit_simps bv_copy_bits)

text \<open>Negation, with \<^verbatim>\<open>clear_last\<close> cleaning the bits it turned on past the end.\<close>

lemma bv_negate_correct:
  assumes "bv_wf v" "bv_clean v" "0 \<le> bv_max v"
  shows "bv_max (bv_negate v) = bv_max v" "bv_wf (bv_negate v)" "bv_clean (bv_negate v)"
    "bv_bits (bv_negate v) = map Not (bv_bits v)"
proof -
  define u where "u = v\<lparr>bv_data := map NOT (take (nwords v) (bv_data v)) @ drop (nwords v) (bv_data v)\<rparr>"
  have neg: "bv_negate v = clear_last u" by (simp add: bv_negate_def u_def)
  have um: "bv_max u = bv_max v" by (simp add: u_def)
  note sz = bv_same_size [OF um]
  have nl: "nwords v \<le> length (bv_data v)" using assms(1) by (simp add: bv_wf_def)
  have len: "length (bv_data u) = length (bv_data v)" using nl by (simp add: u_def)
  have uwf: "bv_wf u" using assms(1) len sz um by (simp add: bv_wf_def)
  have ubit: "i < 32 * length (bv_data v) \<Longrightarrow>
      bv_bit u i = (if i < 32 * nwords v then \<not> bv_bit v i else bv_bit v i)" for i
  proof -
    assume i: "i < 32 * length (bv_data v)"
    then have il: "i div 32 < length (bv_data v)" by (simp add: less_mult_imp_div_less mult.commute)
    have "i div 32 < nwords v \<longleftrightarrow> i < 32 * nwords v" by auto
    then show ?thesis using il nl by (simp add: u_def bv_bit_def nth_append bit_simps min_def)
  qed
  have rbit: "bv_bit (bv_negate v) i = (bv_bit u i \<and> (i div 32 = nat (bv_max v) div 32 \<longrightarrow> i < bv_len v))" for i
    using clear_last_bit [OF uwf, of i] assms(3) um sz by (simp add: neg)
  show m: "bv_max (bv_negate v) = bv_max v" by (simp add: neg um)
  note rsz = bv_same_size [OF m]
  show "bv_wf (bv_negate v)" using uwf rsz sz m um by (simp add: bv_wf_def neg)
  have small: "i < bv_len v \<Longrightarrow> bv_bit (bv_negate v) i = (\<not> bv_bit v i)" for i
  proof -
    assume i: "i < bv_len v"
    then have "i < 32 * nwords v" using bv_len_le_words [of v] by simp
    moreover then have "i < 32 * length (bv_data v)" using nl by simp
    ultimately show ?thesis using i by (simp add: rbit ubit)
  qed
  show "bv_bits (bv_negate v) = map Not (bv_bits v)"
    using small rsz by (simp add: bv_bits_def)
  show "bv_clean (bv_negate v)"
    unfolding bv_clean_def
  proof (intro allI impI)
    fix i assume "i < 32 * max 2 (nwords (bv_negate v))" "bv_len (bv_negate v) \<le> i"
    then have i: "i < 32 * max 2 (nwords v)" "bv_len v \<le> i" using rsz by simp_all
    have mx: "max 2 (nwords v) \<le> length (bv_data v)" using assms(1) by (simp add: bv_wf_def)
    then have il: "i < 32 * length (bv_data v)" using i(1) by (meson less_le_trans mult_le_mono2)
    have z: "\<not> bv_bit v i" using i assms(2) by (simp add: bv_clean_def)
    show "\<not> bv_bit (bv_negate v) i"
    proof (cases "i < 32 * nwords v")
      case True
      then have "i div 32 \<le> nat (bv_max v) div 32"
        by (simp add: nwords_pos [OF assms(3)] less_mult_imp_div_less mult.commute less_Suc_eq_le [symmetric])
      moreover have "nat (bv_max v) div 32 \<le> i div 32"
        using i(2) by (intro div_le_mono) (simp add: bv_len_Suc [OF assms(3)])
      ultimately show ?thesis using i(2) by (simp add: rbit)
    next
      case False
      then show ?thesis using z il by (simp add: rbit ubit)
    qed
  qed
qed

lemma list_all_const: "list_all (\<lambda>w. w = z) xs \<longleftrightarrow> xs = replicate (length xs) z"
  by (induction xs) auto

lemma bv_zero_bits:
  assumes "bv_wf v" "bv_clean v"
  shows "bv_zero v \<longleftrightarrow> (\<forall>i < bv_len v. \<not> bv_bit v i)"
proof -
  have nl: "nwords v \<le> length (bv_data v)" using assms(1) by (simp add: bv_wf_def)
  have "bv_zero v \<longleftrightarrow> take (nwords v) (bv_data v) = replicate (nwords v) 0"
    unfolding bv_zero_def
    by (subst list_all_const) (simp add: nl min_absorb2)
  also have "\<dots> \<longleftrightarrow> (\<forall>i < 32 * nwords v. \<not> bv_bit v i)"
  proof
    assume eq: "take (nwords v) (bv_data v) = replicate (nwords v) 0"
    show "\<forall>i < 32 * nwords v. \<not> bv_bit v i"
    proof (intro allI impI)
      fix i assume "i < 32 * nwords v"
      then have k: "i div 32 < nwords v" by (simp add: less_mult_imp_div_less mult.commute)
      then have "bv_data v ! (i div 32) = 0" using eq by (metis nth_replicate nth_take)
      then show "\<not> bv_bit v i" by (simp add: bv_bit_def)
    qed
  next
    assume b: "\<forall>i < 32 * nwords v. \<not> bv_bit v i"
    show "take (nwords v) (bv_data v) = replicate (nwords v) 0"
    proof (rule words_eqI)
      show "length (take (nwords v) (bv_data v)) = length (replicate (nwords v) (0 :: 32 word))"
        using nl by simp
      fix i assume "i < 32 * length (take (nwords v) (bv_data v))"
      then have i: "i < 32 * nwords v" using nl by simp
      then have "i div 32 < nwords v" by (simp add: less_mult_imp_div_less mult.commute)
      with b i show "bit (take (nwords v) (bv_data v) ! (i div 32)) (i mod 32) =
          bit (replicate (nwords v) (0 :: 32 word) ! (i div 32)) (i mod 32)"
        by (simp add: bv_bit_def)
    qed
  qed
  also have "\<dots> \<longleftrightarrow> (\<forall>i < bv_len v. \<not> bv_bit v i)"
  proof -
    have "\<not> bv_bit v i" if "i < 32 * nwords v" "\<not> i < bv_len v" for i
      using assms(2) that bv_clean_index [OF that(1)] by (simp add: bv_clean_def)
    moreover have "i < 32 * nwords v" if "i < bv_len v" for i
      using that bv_len_le_words [of v] by simp
    ultimately show ?thesis by blast
  qed
  finally show ?thesis .
qed
subsection \<open>Construction and resizing\<close>

lemma bv_new_wf:
  assumes "0 \<le> n"
  shows "\<exists>v. bv_new n = Some v \<and> bv_max v = n - 1 \<and> bv_wf v \<and> (\<forall>w \<in> set (bv_data v). w = 0)"
proof -
  have "(n - 1) div 32 + 1 \<le> 2 \<or> 63 < n - 1" by auto
  with assms show ?thesis
    by (auto simp: bv_new_def bv_wf_def resize_to_max_def nwords_def max_word_def Let_def)
qed

lemma bv_new_correct:
  assumes "0 \<le> n"
  shows "\<exists>v. bv_new n = Some v \<and> bv_max v = n - 1 \<and> bv_wf v \<and> bv_clean v \<and>
    bv_bits v = replicate (nat n) False"
proof -
  from bv_new_wf [OF assms] obtain v where v: "bv_new n = Some v" "bv_max v = n - 1" "bv_wf v"
    "\<forall>w \<in> set (bv_data v). w = 0" by blast
  have z: "i < 32 * length (bv_data v) \<Longrightarrow> \<not> bv_bit v i" for i
  proof -
    assume "i < 32 * length (bv_data v)"
    then have "i div 32 < length (bv_data v)" by (simp add: less_mult_imp_div_less mult.commute)
    with v(4) have "bv_data v ! (i div 32) = 0" using nth_mem by blast
    then show ?thesis by (simp add: bv_bit_def)
  qed
  have mx: "max 2 (nwords v) \<le> length (bv_data v)" using v(3) by (simp add: bv_wf_def)
  then have "i < 32 * max 2 (nwords v) \<Longrightarrow> \<not> bv_bit v i" for i
    using z by (meson less_le_trans mult_le_mono2)
  moreover have "i < bv_len v \<Longrightarrow> i < 32 * max 2 (nwords v)" for i
    using bv_len_le_words [of v] by (simp add: max_def)
  moreover have "bv_len v = nat n" using v(2) by (simp add: bv_len_def bv_size_def)
  ultimately have "bv_clean v" "bv_bits v = replicate (nat n) False"
    by (auto simp: bv_clean_def bv_bits_def list_eq_iff_nth_eq)
  with v show ?thesis by blast
qed

text \<open>
  \<^verbatim>\<open>resize\<close> within the inline words only moves \<^verbatim>\<open>_max\<close>: bits dropped by
  a shrink are still there after the vector grows again.
\<close>

lemma bv_resize_inline: "0 \<le> n \<Longrightarrow> n \<le> 64 \<Longrightarrow> bv_resize n v = Some (v\<lparr>bv_max := n - 1\<rparr>)"
  by (simp add: bv_resize_def)

lemma bv_shrink_grow_bits:
  assumes "0 \<le> m" "m \<le> bv_size v" "bv_size v \<le> 64"
  shows "Option.bind (bv_resize m v) (bv_resize (bv_size v)) = Some v"
  using assms by (cases v) (auto simp: bv_resize_inline bv_size_def)

subsection \<open>Identifiers of 256 bits\<close>

lemma fid_nwords: "is_fid v \<Longrightarrow> nwords v = 8"
  by (simp add: is_fid_def nwords_def max_word_def)

lemma fid_len: "is_fid v \<Longrightarrow> bv_len v = 256"
  by (simp add: is_fid_def bv_len_def bv_size_def)

lemma fid_wf: "is_fid v \<Longrightarrow> bv_wf v"
  using fid_nwords [of v] by (simp add: is_fid_def bv_wf_def)

lemma fid_clean: "is_fid v \<Longrightarrow> bv_clean v"
  by (simp add: bv_clean_def fid_nwords fid_len)

lemmas fid_facts = fid_nwords fid_len fid_wf fid_clean

lemma fid_max: "is_fid v \<Longrightarrow> bv_max v = 255"
  by (simp add: is_fid_def)

lemma fid_eq_bits: "is_fid a \<Longrightarrow> is_fid b \<Longrightarrow> bv_eq a b \<longleftrightarrow> (\<forall>i < 256. bv_bit a i = bv_bit b i)"
  by (simp add: bv_eq_bits fid_facts bv_bits_eq_iff fid_max)

lemma fid_eq_iff: "is_fid a \<Longrightarrow> is_fid b \<Longrightarrow> bv_eq a b \<longleftrightarrow> a = b"
  using fid_nwords [of a] by (auto simp: bv_eq_def is_fid_def)

lemma map2_words_length: "map2_words f n xs ys = Some d \<Longrightarrow> length d = length xs"
  by (auto simp: map2_words_def split: if_splits)

lemma fid_copy: "is_fid v \<Longrightarrow> is_fid (bv_copy v)"
  using fid_nwords [of v] by (simp add: is_fid_def bv_copy_def)

lemma fid_and: "is_fid a \<Longrightarrow> is_fid b \<Longrightarrow>
  \<exists>r. bv_and a b = Some r \<and> is_fid r \<and> (\<forall>i < 256. bv_bit r i = (bv_bit a i \<and> bv_bit b i))"
proof -
  assume a: "is_fid a" "is_fid b"
  then obtain r where r: "bv_and a b = Some r" "bv_max r = bv_max a"
    "bv_bits r = map2 (\<and>) (bv_bits a) (bv_bits b)"
    using bv_and_correct [of a b] by (auto simp: fid_facts fid_max)
  moreover have "length (bv_data r) = 8"
    using r(1) fid_copy [OF a(1)]
    by (auto simp: bv_and_def bv_and_eq_def is_fid_def bind_eq_Some_conv dest: map2_words_length split: if_splits)
  ultimately have f: "is_fid r" using a by (simp add: is_fid_def)
  have "bv_bit r i = (bv_bit a i \<and> bv_bit b i)" if "i < 256" for i
  proof -
    have "bv_bits r ! i = map2 (\<and>) (bv_bits a) (bv_bits b) ! i" using r(3) by simp
    with that a f show ?thesis by (simp add: fid_len)
  qed
  with r f show ?thesis by blast
qed

lemma fid_negate: "is_fid v \<Longrightarrow> is_fid (bv_negate v) \<and> (\<forall>i < 256. bv_bit (bv_negate v) i = (\<not> bv_bit v i))"
proof -
  assume v: "is_fid v"
  have m: "bv_max (bv_negate v) = 255"
    using bv_negate_correct(1) [OF fid_wf fid_clean] v by (simp add: fid_max)
  moreover have "length (bv_data (bv_negate v)) = 8"
    using v fid_nwords [OF v] by (simp add: bv_negate_def is_fid_def)
  ultimately have f: "is_fid (bv_negate v)" by (simp add: is_fid_def)
  have "bv_bit (bv_negate v) i = (\<not> bv_bit v i)" if "i < 256" for i
  proof -
    have "bv_bits (bv_negate v) ! i = map Not (bv_bits v) ! i"
      using bv_negate_correct(4) [OF fid_wf fid_clean] v by (simp add: fid_max)
    with that v f show ?thesis by (simp add: fid_len)
  qed
  with f show ?thesis by blast
qed

lemma fid_zero: "is_fid v \<Longrightarrow> bv_zero v \<longleftrightarrow> (\<forall>i < 256. \<not> bv_bit v i)"
  by (simp add: bv_zero_bits fid_facts)

text \<open>The LIPSIN test: every bit of the link identifier is set in the forwarding identifier.\<close>

definition lid_in_fid :: "bitvec \<Rightarrow> bitvec \<Rightarrow> bool" where
  "lid_in_fid lid fid \<longleftrightarrow> (\<forall>i < 256. bv_bit lid i \<longrightarrow> bv_bit fid i)"

lemma fid_and_eq:
  assumes "is_fid fid" "is_fid lid"
  shows "\<exists>r. bv_and fid lid = Some r \<and> is_fid r \<and> bv_eq r lid = lid_in_fid lid fid"
  using fid_and [OF assms] assms by (auto simp: fid_eq_bits lid_in_fid_def)

subsection \<open>Bytes and words\<close>

lemma word_of_bytes_of_word:
  "word_of_bytes (ucast w) (ucast (drop_bit 8 w)) (ucast (drop_bit 16 w)) (ucast (drop_bit 24 w)) = w"
proof (rule word32_eqI)
  fix n :: nat
  assume n: "n < 32"
  consider "n < 8" | "8 \<le> n" "n < 16" | "16 \<le> n" "n < 24" | "24 \<le> n" by linarith
  then show "bit (word_of_bytes (ucast w) (ucast (drop_bit 8 w)) (ucast (drop_bit 16 w)) (ucast (drop_bit 24 w))) n = bit w n"
    using n by cases (auto simp: word_of_bytes_def bit_simps)
qed

lemma words_bytes_words: "words_of_bytes (bytes_of_words ws) = ws"
  by (induction ws) (simp_all add: bytes_of_words_def bytes_of_word_def word_of_bytes_of_word)

lemma bytes_of_word_of_bytes: "bytes_of_word (word_of_bytes b0 b1 b2 b3) = [b0, b1, b2, b3]"
  unfolding bytes_of_word_def word_of_bytes_def
  by (simp; intro conjI; rule bit_word_eqI) (auto simp: bit_simps dest: bit_imp_le_length)

lemma bytes_words_bytes: "length bs = 4 * n \<Longrightarrow> bytes_of_words (words_of_bytes bs) = bs"
proof (induction bs arbitrary: n rule: words_of_bytes.induct)
  case (1 b0 b1 b2 b3 bs)
  then have "length bs = 4 * (n - 1)" by simp
  with 1 show ?case by (simp add: bytes_of_words_def bytes_of_word_of_bytes)
qed (auto simp: bytes_of_words_def; presburger)+

lemma length_words_of_bytes: "length (words_of_bytes bs) = length bs div 4"
  by (induction bs rule: words_of_bytes.induct) auto

lemma length_bytes_of_words [simp]: "length (bytes_of_words ws) = 4 * length ws"
  by (induction ws) (simp_all add: bytes_of_words_def bytes_of_word_def)

text \<open>\<^verbatim>\<open>memcpy\<close> between the words of an identifier and the 32 bytes of a packet.\<close>

definition fid_of_bytes :: "bstr \<Rightarrow> bitvec" where
  "fid_of_bytes bs = \<lparr>bv_max = 255, bv_data = words_of_bytes bs\<rparr>"

definition fid_bytes :: "bitvec \<Rightarrow> bstr" where
  "fid_bytes v = take 32 (bytes_of_words (bv_data v))"

lemma fid_of_bytes_fid: "length bs = 32 \<Longrightarrow> is_fid (fid_of_bytes bs)"
  by (simp add: fid_of_bytes_def is_fid_def length_words_of_bytes)

lemma length_fid_bytes: "is_fid v \<Longrightarrow> length (fid_bytes v) = 32"
  by (simp add: fid_bytes_def is_fid_def)

lemma fid_of_fid_bytes: "is_fid v \<Longrightarrow> fid_of_bytes (fid_bytes v) = v"
  by (cases v) (simp add: fid_of_bytes_def fid_bytes_def is_fid_def words_bytes_words)

lemma fid_bytes_of_bytes: "length bs = 32 \<Longrightarrow> fid_bytes (fid_of_bytes bs) = bs"
  by (simp add: fid_of_bytes_def fid_bytes_def bytes_words_bytes [of bs 8])

text \<open>
  \<^verbatim>\<open>memcpy(dst, v._data, FID_LEN)\<close> reads eight words: undefined when the array is shorter.
\<close>

definition fid_mem :: "bitvec \<Rightarrow> bstr option" where
  "fid_mem v = (if 8 \<le> length (bv_data v) then Some (fid_bytes v) else None)"

lemma fid_mem_fid: "is_fid v \<Longrightarrow> fid_mem v = Some (fid_bytes v)"
  by (simp add: fid_mem_def is_fid_def)

subsection \<open>Properties\<close>

text \<open>
  On vectors of the same size whose unused bits are clear, the bitwise operators compute bit by
  bit, whatever the size and however many words it takes, and two vectors compare equal exactly when
  their bits are equal.
\<close>

theorem bitvector_operators:
  assumes "bv_wf v" "bv_clean v" "bv_wf x" "bv_clean x" "bv_max x = bv_max v"
  shows "\<exists>a o' e. bv_and v x = Some a \<and> bv_bits a = map2 (\<and>) (bv_bits v) (bv_bits x) \<and>
    bv_or v x = Some o' \<and> bv_bits o' = map2 (\<or>) (bv_bits v) (bv_bits x) \<and>
    bv_xor v x = Some e \<and> bv_bits e = map2 (\<noteq>) (bv_bits v) (bv_bits x) \<and>
    (bv_eq v x \<longleftrightarrow> bv_bits v = bv_bits x)"
  using bv_and_correct [OF assms] bv_or_correct [OF assms] bv_xor_correct [OF assms] bv_eq_bits [OF assms(1,3,2,4)] assms(5)
  by auto

theorem bitvector_operators_witness:
  "\<exists>a. bv_and \<lparr>bv_max = 2, bv_data = [6, 0]\<rparr> \<lparr>bv_max = 2, bv_data = [3, 0]\<rparr> = Some a \<and> bv_bits a = [False, True, False]"
proof -
  let ?v = "\<lparr>bv_max = 2, bv_data = [6, 0]\<rparr>" and ?x = "\<lparr>bv_max = 2, bv_data = [3, 0]\<rparr>"
  have h: "bv_wf ?v" "bv_wf ?x" "bv_clean ?v" "bv_clean ?x" by code_simp+
  have b: "map2 (\<and>) (bv_bits ?v) (bv_bits ?x) = [False, True, False]" by code_simp
  show ?thesis using bitvector_operators [OF h(1,3,2,4)] b by auto
qed

text \<open>
  Negation flips every bit of the vector and keeps the unused bits of the last word clear.
\<close>

theorem bitvector_negate:
  assumes "bv_wf v" "bv_clean v" "0 \<le> bv_max v"
  shows "bv_bits (bv_negate v) = map Not (bv_bits v) \<and> bv_clean (bv_negate v) \<and> bv_wf (bv_negate v) \<and>
    bv_max (bv_negate v) = bv_max v"
  using bv_negate_correct [OF assms] by simp

theorem bitvector_negate_witness:
  "bv_bits (bv_negate \<lparr>bv_max = 2, bv_data = [6, 0]\<rparr>) = [True, False, False]"
proof -
  let ?v = "\<lparr>bv_max = 2, bv_data = [6, 0]\<rparr>"
  have h: "bv_wf ?v" "bv_clean ?v" by code_simp+
  have b: "map Not (bv_bits ?v) = [True, False, False]" by code_simp
  show ?thesis using bitvector_negate [OF h] b by simp
qed

text \<open>
  A vector that fits its inline words keeps, when it is shrunk and grown again, the bits it had:
  they do not come back cleared.
\<close>

theorem bitvector_resize_keeps_stale_bits:
  assumes "0 \<le> m" "m \<le> bv_size v" "bv_size v \<le> 64"
  shows "Option.bind (bv_resize m v) (bv_resize (bv_size v)) = Some v"
  by (rule bv_shrink_grow_bits [OF assms])

theorem bitvector_resize_keeps_stale_bits_witness:
  "Option.bind (bv_resize 1 \<lparr>bv_max = 2, bv_data = [6, 0]\<rparr>) (bv_resize 3) = Some \<lparr>bv_max = 2, bv_data = [6, 0]\<rparr>"
  using bitvector_resize_keeps_stale_bits [of 1 "\<lparr>bv_max = 2, bv_data = [6, 0]\<rparr>"] by (simp add: bv_size_def)

text \<open>
  A forwarding identifier of 256 bits copied into a packet and read back is the same identifier,
  and every 32 bytes of a packet are an identifier.
\<close>

theorem fid_bytes_roundtrip:
  assumes "is_fid v" and "length bs = 32"
  shows "fid_of_bytes (fid_bytes v) = v \<and> length (fid_bytes v) = 32 \<and> is_fid (fid_of_bytes bs) \<and> fid_bytes (fid_of_bytes bs) = bs"
  using assms fid_of_fid_bytes length_fid_bytes fid_bytes_of_bytes fid_of_bytes_fid by simp

theorem fid_bytes_roundtrip_witness:
  "fid_of_bytes (fid_bytes \<lparr>bv_max = 255, bv_data = [1, 2, 3, 4, 5, 6, 7, 8]\<rparr>) = \<lparr>bv_max = 255, bv_data = [1, 2, 3, 4, 5, 6, 7, 8]\<rparr>"
  using fid_bytes_roundtrip [of "\<lparr>bv_max = 255, bv_data = [1, 2, 3, 4, 5, 6, 7, 8]\<rparr>" "replicate 32 0"] by (simp add: is_fid_def)

end
