(* ===== verification/BA_GlobalConf.thy ===== *)
theory BA_GlobalConf
  imports BA_Bitvector
begin

text \<open>
  The constants of \<^verbatim>\<open>src/helper.hh\<close> and the configuration element
  \<^verbatim>\<open>src/globalconf.cc\<close>, whose fields the other elements share.
\<close>

subsection \<open>Constants\<close>

abbreviation (input) PURSUIT_ID_LEN :: nat where "PURSUIT_ID_LEN \<equiv> 8"
abbreviation (input) NODEID_LEN :: nat where "NODEID_LEN \<equiv> PURSUIT_ID_LEN"
abbreviation (input) FID_LEN :: nat where "FID_LEN \<equiv> 32"

abbreviation (input) NODE_LOCAL :: byte where "NODE_LOCAL \<equiv> 0"
abbreviation (input) LINK_LOCAL :: byte where "LINK_LOCAL \<equiv> 1"
abbreviation (input) DOMAIN_LOCAL :: byte where "DOMAIN_LOCAL \<equiv> 2"
abbreviation (input) IMPLICIT_RENDEZVOUS :: byte where "IMPLICIT_RENDEZVOUS \<equiv> 3"
abbreviation (input) BROADCAST_IF :: byte where "BROADCAST_IF \<equiv> 4"

abbreviation (input) LOCAL_PROCESS :: nat where "LOCAL_PROCESS \<equiv> 0"
abbreviation (input) CLICK_ELEMENT :: nat where "CLICK_ELEMENT \<equiv> 1"

abbreviation (input) PUBLISH_SCOPE :: byte where "PUBLISH_SCOPE \<equiv> 0"
abbreviation (input) PUBLISH_INFO :: byte where "PUBLISH_INFO \<equiv> 1"
abbreviation (input) UNPUBLISH_SCOPE :: byte where "UNPUBLISH_SCOPE \<equiv> 2"
abbreviation (input) UNPUBLISH_INFO :: byte where "UNPUBLISH_INFO \<equiv> 3"
abbreviation (input) SUBSCRIBE_SCOPE :: byte where "SUBSCRIBE_SCOPE \<equiv> 4"
abbreviation (input) SUBSCRIBE_INFO :: byte where "SUBSCRIBE_INFO \<equiv> 5"
abbreviation (input) UNSUBSCRIBE_SCOPE :: byte where "UNSUBSCRIBE_SCOPE \<equiv> 6"
abbreviation (input) UNSUBSCRIBE_INFO :: byte where "UNSUBSCRIBE_INFO \<equiv> 7"
abbreviation (input) PUBLISH_DATA :: byte where "PUBLISH_DATA \<equiv> 8"
abbreviation (input) DISCONNECT :: byte where "DISCONNECT \<equiv> 13"

abbreviation (input) START_PUBLISH :: byte where "START_PUBLISH \<equiv> 100"
abbreviation (input) STOP_PUBLISH :: byte where "STOP_PUBLISH \<equiv> 101"
abbreviation (input) SCOPE_PUBLISHED :: byte where "SCOPE_PUBLISHED \<equiv> 102"
abbreviation (input) SCOPE_UNPUBLISHED :: byte where "SCOPE_UNPUBLISHED \<equiv> 103"
abbreviation (input) PUBLISHED_DATA :: byte where "PUBLISHED_DATA \<equiv> 104"
abbreviation (input) MATCH_PUB_SUBS :: byte where "MATCH_PUB_SUBS \<equiv> 105"
abbreviation (input) UPDATE_BA :: byte where "UPDATE_BA \<equiv> 55"
abbreviation (input) RV_ELEMENT :: "32 word" where "RV_ELEMENT \<equiv> 1"

text \<open>The return codes of the rendezvous element.\<close>

datatype rv_ret =
    SUCCESS
  | WRONG_IDS
  | STRATEGY_MISMATCH
  | EXISTS
  | FATHER_DOES_NOT_EXIST
  | INFO_ITEM_WITH_SAME_ID
  | SCOPE_DOES_NOT_EXIST
  | SCOPE_WITH_SAME_ID
  | INFO_DOES_NOT_EXIST
  | DOES_NOT_EXIST
  | UNKNOWN_REQUEST_TYPE

subsection \<open>The configuration element\<close>

record globalconf =
  nodeID :: bstr
  defaultRV_dl :: bitvec
  iLID :: bitvec
  TMFID :: bitvec
  use_mac :: bool
  RVScope :: bstr
  TMScope :: bstr
  nodeRVScope :: bstr
  nodeTMScope :: bstr
  notificationIID :: bstr

text \<open>
  What \<^verbatim>\<open>cp_va_kparse\<close> (Click) reads from the configuration line: MODE, NODEID,
  DEFAULTRV, iLID and the optional TMFID (empty when absent). \<open>None\<close>: it returned an error.
\<close>

record conf_args =
  ca_mode :: string
  ca_nodeid :: bstr
  ca_defaultrv :: string
  ca_ilid :: string
  ca_tmfid :: string

datatype conf_error =
    Parse_Error
  | Wrong_Mode
  | Wrong_NodeID_Length nat
  | Wrong_DefaultRV_Length nat
  | Wrong_iLID_Length nat
  | Wrong_TMFID_Length nat

text \<open>
  The loop that turns a string of \<^verbatim>\<open>0\<close>s and \<^verbatim>\<open>1\<close>s into a vector,
  the first character being the highest bit.
\<close>

fun parse_bits_from :: "string \<Rightarrow> bitvec \<Rightarrow> bitvec option" where
  "parse_bits_from [] v = Some v"
| "parse_bits_from (c # cs) v = do {
     v \<leftarrow> bv_set (int (length cs)) (c = CHR ''1'') v;
     parse_bits_from cs v
   }"

definition parse_bits :: "string \<Rightarrow> bitvec option" where
  "parse_bits s = do { v \<leftarrow> bv_new (int (FID_LEN * 8)); parse_bits_from s v }"

definition GlobalConf_configure :: "conf_args option \<Rightarrow> (conf_error + globalconf) option" where
  "GlobalConf_configure conf = (case conf of
     None \<Rightarrow> Some (Inl Parse_Error)
   | Some c \<Rightarrow>
     if ca_mode c \<notin> {''mac'', ''mac_ml'', ''mac_qos'', ''ip''} then Some (Inl Wrong_Mode)
     else if length (ca_nodeid c) \<noteq> NODEID_LEN then Some (Inl (Wrong_NodeID_Length (length (ca_nodeid c))))
     else if length (ca_defaultrv c) \<noteq> FID_LEN * 8 then Some (Inl (Wrong_DefaultRV_Length (length (ca_defaultrv c))))
     else do {
       defrv \<leftarrow> parse_bits (ca_defaultrv c);
       if length (ca_ilid c) \<noteq> FID_LEN * 8 then Some (Inl (Wrong_iLID_Length (length (ca_ilid c))))
       else do {
         ilid \<leftarrow> parse_bits (ca_ilid c);
         let rvscope = replicate PURSUIT_ID_LEN 255;
         let tmscope = replicate (PURSUIT_ID_LEN - 1) 255 @ [254];
         let notif = replicate (PURSUIT_ID_LEN - 1) 255 @ [253] @ ca_nodeid c;
         let conf = (\<lambda>tmfid. \<lparr>nodeID = ca_nodeid c, defaultRV_dl = defrv, iLID = ilid, TMFID = tmfid,
              use_mac = (ca_mode c \<noteq> ''ip''), RVScope = rvscope, TMScope = tmscope,
              nodeRVScope = rvscope @ ca_nodeid c, nodeTMScope = tmscope @ ca_nodeid c,
              notificationIID = notif\<rparr>);
         if length (ca_tmfid c) = 0 then Some (Inr (conf bv_empty))
         else if length (ca_tmfid c) \<noteq> FID_LEN * 8 then Some (Inl (Wrong_TMFID_Length (length (ca_tmfid c))))
         else do { tmfid \<leftarrow> parse_bits (ca_tmfid c); Some (Inr (conf tmfid)) }
       }
     })"

subsection \<open>Reading a link or forwarding identifier\<close>

lemma bv_set_ok: "i < bv_len v \<Longrightarrow> bv_set (int i) x v = Some (set_bit_at (int i) x v)"
  by (auto simp: bv_set_def bv_len_def bv_size_def)

lemma fid_set_bit: "is_fid v \<Longrightarrow> is_fid (set_bit_at i x v)"
  by (simp add: is_fid_def)

text \<open>The loop sets exactly the positions of the characters it reads.\<close>

lemma parse_bits_from_ok:
  assumes "is_fid v" and "length s \<le> 256"
  shows "\<exists>r. parse_bits_from s v = Some r \<and> is_fid r \<and>
    (\<forall>i < 256. bv_bit r i = (if i < length s then s ! (length s - 1 - i) = CHR ''1'' else bv_bit v i))"
  using assms
proof (induction s arbitrary: v)
  case Nil
  then show ?case by simp
next
  case (Cons c cs)
  let ?v = "set_bit_at (int (length cs)) (c = CHR ''1'') v"
  have idx: "i < 256 \<Longrightarrow> i div 32 < length (bv_data v)" for i
    using Cons.prems(1) by (simp add: is_fid_def less_mult_imp_div_less)
  have bit: "i < 256 \<Longrightarrow> bv_bit ?v i = (if i = length cs then c = CHR ''1'' else bv_bit v i)" for i
    using bit_set_bit_at [of "length cs" v i] idx Cons.prems(2) by simp
  have "is_fid ?v" using Cons.prems(1) by (rule fid_set_bit)
  then obtain r where r: "parse_bits_from cs ?v = Some r" "is_fid r"
    "\<forall>i < 256. bv_bit r i = (if i < length cs then cs ! (length cs - 1 - i) = CHR ''1'' else bv_bit ?v i)"
    using Cons.IH [of ?v] Cons.prems(2) by auto
  have "parse_bits_from (c # cs) v = Some r"
    using r(1) Cons.prems by (simp add: bv_set_ok fid_len)
  moreover have "bv_bit r i = (if i < length (c # cs) then (c # cs) ! (length (c # cs) - 1 - i) = CHR ''1'' else bv_bit v i)"
    if "i < 256" for i
    using that r(3) bit [OF that] by (cases "i < length cs"; cases "i = length cs") (auto simp: nth_Cons')
  ultimately show ?case using r(2) by blast
qed

lemma bv_new_fid: "\<exists>v. bv_new 256 = Some v \<and> is_fid v \<and> (\<forall>i < 256. \<not> bv_bit v i)"
proof -
  have *: "bv_new 256 = Some \<lparr>bv_max = 255, bv_data = replicate 8 0\<rparr>"
    by (simp add: bv_new_def resize_to_max_def numeral_eq_Suc)
  have "\<not> bv_bit \<lparr>bv_max = 255, bv_data = replicate 8 0\<rparr> i" if "i < 256" for i
  proof -
    have "i div 32 < 8" using that by (simp add: less_mult_imp_div_less)
    then have "replicate 8 (0 :: 32 word) ! (i div 32) = 0" by (rule nth_replicate)
    then show ?thesis by (simp add: bv_bit_def)
  qed
  with * show ?thesis by (auto simp: is_fid_def)
qed

lemma parse_bits_correct:
  assumes "length s = 256"
  shows "\<exists>v. parse_bits s = Some v \<and> is_fid v \<and> (\<forall>i < 256. bv_bit v i = (s ! (255 - i) = CHR ''1''))"
proof -
  obtain z where "bv_new 256 = Some z" "is_fid z" using bv_new_fid by blast
  with parse_bits_from_ok [of z s] assms show ?thesis by (auto simp: parse_bits_def)
qed

text \<open>A string longer than the vector indexes past its end: the bit setter's assertion fails.\<close>

lemma parse_bits_too_long: "length s > 256 \<Longrightarrow> parse_bits s = None"
proof -
  assume l: "length s > 256"
  obtain z where z: "bv_new 256 = Some z" "is_fid z" using bv_new_fid by blast
  obtain c cs where "s = c # cs" using l by (cases s) auto
  moreover have "bv_set (int (length cs)) x z = None" if "s = c # cs" for x
    using l that fid_max [OF z(2)] by (simp add: bv_set_def)
  ultimately show ?thesis using z by (simp add: parse_bits_def)
qed

lemma all_some_map_conv: "(\<And>x. x \<in> set xs \<Longrightarrow> f x = Some (g x)) \<Longrightarrow> all_some (map f xs) = Some (map g xs)"
  by (induction xs) auto

lemma bv_to_string_fid:
  assumes "is_fid v"
  shows "bv_to_string v = Some (map (\<lambda>i. if bv_bit v (255 - i) then CHR ''1'' else CHR ''0'') [0..<256])"
proof -
  have sz: "bv_size v = 256" using assms by (simp add: bv_size_def fid_max)
  have get: "bv_get (bv_size v - int i - 1) v = Some (bv_bit v (255 - i))" if "i < 256" for i
  proof -
    have "bv_size v - int i - 1 = int (255 - i)" using that sz by simp
    then show ?thesis using that assms bv_get_bit [of "255 - i" v] by (simp add: fid_len)
  qed
  show ?thesis
    unfolding bv_to_string_def sz [symmetric]
    by (subst all_some_map_conv [where g = "\<lambda>i. if bv_bit v (255 - i) then CHR ''1'' else CHR ''0''"])
      (use get sz in auto)
qed

lemma parse_print_bits:
  assumes "length s = 256" and "set s \<subseteq> {CHR ''0'', CHR ''1''}" and "parse_bits s = Some v"
  shows "bv_to_string v = Some s"
proof -
  from parse_bits_correct [OF assms(1)] assms(3)
  have v: "is_fid v" "\<forall>i < 256. bv_bit v i = (s ! (255 - i) = CHR ''1'')" by auto
  have "map (\<lambda>i. if bv_bit v (255 - i) then CHR ''1'' else CHR ''0'') [0..<256] = s"
  proof (rule nth_equalityI)
    fix i assume "i < length (map (\<lambda>i. if bv_bit v (255 - i) then CHR ''1'' else CHR ''0'') [0..<256])"
    then have i: "i < 256" by simp
    then have "bv_bit v (255 - i) = (s ! i = CHR ''1'')" using v(2) by simp
    moreover have "s ! i \<in> {CHR ''0'', CHR ''1''}"
      using assms(2) nth_mem [of i s] i unfolding assms(1) by blast
    ultimately show "map (\<lambda>i. if bv_bit v (255 - i) then CHR ''1'' else CHR ''0'') [0..<256] ! i = s ! i"
      using i by auto
  qed (simp add: assms(1))
  with bv_to_string_fid [OF v(1)] show ?thesis by simp
qed

subsection \<open>The configuration\<close>

definition gc_wf :: "globalconf \<Rightarrow> bool" where
  "gc_wf gc \<longleftrightarrow> length (nodeID gc) = NODEID_LEN \<and> is_fid (defaultRV_dl gc) \<and> is_fid (iLID gc) \<and>
     (is_fid (TMFID gc) \<or> TMFID gc = bv_empty) \<and>
     RVScope gc = replicate 8 255 \<and> TMScope gc = replicate 7 255 @ [254] \<and>
     nodeRVScope gc = RVScope gc @ nodeID gc \<and> nodeTMScope gc = TMScope gc @ nodeID gc \<and>
     notificationIID gc = replicate 7 255 @ [253] @ nodeID gc"

definition conf_args_ok :: "conf_args \<Rightarrow> bool" where
  "conf_args_ok c \<longleftrightarrow> ca_mode c \<in> {''mac'', ''mac_ml'', ''mac_qos'', ''ip''} \<and>
     length (ca_nodeid c) = 8 \<and> length (ca_defaultrv c) = 256 \<and> length (ca_ilid c) = 256 \<and>
     length (ca_tmfid c) \<in> {0, 256}"

lemma GlobalConf_configure_ok:
  assumes "conf_args_ok c"
  shows "\<exists>gc. GlobalConf_configure (Some c) = Some (Inr gc) \<and> gc_wf gc \<and>
    nodeID gc = ca_nodeid c \<and> use_mac gc = (ca_mode c \<noteq> ''ip'') \<and>
    parse_bits (ca_defaultrv c) = Some (defaultRV_dl gc) \<and> parse_bits (ca_ilid c) = Some (iLID gc) \<and>
    (if ca_tmfid c = [] then TMFID gc = bv_empty else parse_bits (ca_tmfid c) = Some (TMFID gc))"
proof -
  from assms obtain a b where "parse_bits (ca_defaultrv c) = Some a" "is_fid a"
    "parse_bits (ca_ilid c) = Some b" "is_fid b"
    using parse_bits_correct [of "ca_defaultrv c"] parse_bits_correct [of "ca_ilid c"]
    by (auto simp: conf_args_ok_def)
  moreover have "ca_tmfid c \<noteq> [] \<Longrightarrow> \<exists>t. parse_bits (ca_tmfid c) = Some t \<and> is_fid t"
    using assms parse_bits_correct [of "ca_tmfid c"] by (auto simp: conf_args_ok_def)
  ultimately show ?thesis
    using assms
    by (cases "ca_tmfid c = []") (auto simp: GlobalConf_configure_def conf_args_ok_def gc_wf_def Let_def)
qed

lemma GlobalConf_configure_bad:
  assumes "\<not> conf_args_ok c"
  shows "\<exists>e. GlobalConf_configure (Some c) = Some (Inl e)"
proof -
  have p: "length s = 256 \<Longrightarrow> \<exists>v. parse_bits s = Some v" for s
    using parse_bits_correct by blast
  show ?thesis
    using assms p [of "ca_defaultrv c"] p [of "ca_ilid c"]
    by (auto simp: GlobalConf_configure_def conf_args_ok_def Let_def)
qed

lemma gc_wf_lengths:
  assumes "gc_wf gc"
  shows "length (RVScope gc) = 8" "length (TMScope gc) = 8" "length (nodeRVScope gc) = 16"
    "length (nodeTMScope gc) = 16" "length (notificationIID gc) = 16"
  using assms by (simp_all add: gc_wf_def)

subsection \<open>A concrete node\<close>

definition ex_fid :: "32 word \<Rightarrow> bitvec" where
  "ex_fid w = \<lparr>bv_max = 255, bv_data = [w, 0, 0, 0, 0, 0, 0, 0]\<rparr>"

definition ex_gc :: globalconf where
  "ex_gc = \<lparr>nodeID = [0, 0, 0, 0, 0, 0, 0, 1], defaultRV_dl = ex_fid 8, iLID = ex_fid 8, TMFID = ex_fid 4,
     use_mac = True, RVScope = replicate 8 255, TMScope = replicate 7 255 @ [254],
     nodeRVScope = replicate 8 255 @ [0, 0, 0, 0, 0, 0, 0, 1],
     nodeTMScope = replicate 7 255 @ [254] @ [0, 0, 0, 0, 0, 0, 0, 1],
     notificationIID = replicate 7 255 @ [253] @ [0, 0, 0, 0, 0, 0, 0, 1]\<rparr>"

lemma ex_fid_ok: "is_fid (ex_fid w)"
  by (simp add: ex_fid_def is_fid_def)

lemma ex_gc_wf: "gc_wf ex_gc"
  by (simp add: gc_wf_def ex_gc_def ex_fid_ok)

subsection \<open>Properties\<close>

text \<open>
  C40. Configuration succeeds exactly on the arguments it should (a known mode, a node label of eight
  characters, 256 bits for each identifier, the topology manager's being optional); it then holds the
  identifiers that were written and the derived names of the node; otherwise it returns an error. It
  never fails an assertion.
\<close>

theorem configure_checks_everything:
  "(if conf_args_ok c then \<exists>gc. GlobalConf_configure (Some c) = Some (Inr gc) \<and> gc_wf gc \<and>
      nodeID gc = ca_nodeid c \<and> use_mac gc = (ca_mode c \<noteq> ''ip'') \<and>
      parse_bits (ca_defaultrv c) = Some (defaultRV_dl gc) \<and> parse_bits (ca_ilid c) = Some (iLID gc) \<and>
      (if ca_tmfid c = [] then TMFID gc = bv_empty else parse_bits (ca_tmfid c) = Some (TMFID gc))
    else \<exists>e. GlobalConf_configure (Some c) = Some (Inl e))"
  using GlobalConf_configure_ok [of c] GlobalConf_configure_bad [of c] by simp

text \<open>
  Reading 256 characters \<open>0\<close> and \<open>1\<close> into an identifier and printing
  the identifier gives the same characters: the first one is the highest bit.
\<close>

theorem bit_string_roundtrip:
  assumes "length s = 256" and "set s \<subseteq> {CHR ''0'', CHR ''1''}"
  shows "\<exists>v. parse_bits s = Some v \<and> is_fid v \<and> bv_to_string v = Some s \<and> (\<forall>i < 256. bv_bit v i \<longleftrightarrow> s ! (255 - i) = CHR ''1'')"
proof -
  from parse_bits_correct [OF assms(1)] obtain v where v: "parse_bits s = Some v" "is_fid v"
    "\<forall>i < 256. bv_bit v i = (s ! (255 - i) = CHR ''1'')" by blast
  then show ?thesis using parse_print_bits [OF assms v(1)] by auto
qed

theorem bit_string_roundtrip_witness:
  "\<exists>v. parse_bits (replicate 255 (CHR ''0'') @ ''1'') = Some v \<and> bv_to_string v = Some (replicate 255 (CHR ''0'') @ ''1'')"
  using bit_string_roundtrip [of "replicate 255 (CHR ''0'') @ ''1''"] by auto

end
