(* ===== verification/BA_Wire.thy ===== *)
theory BA_Wire
  imports BA_GlobalConf
begin

text \<open>
  The messages the parts of a node exchange, as byte strings: identifiers behind their length in
  fragments, requests of applications, notifications of the rendezvous element, packets of the network.
  They are the formats the components agree on; that the code writes and reads them is proved
  with the components.
\<close>

definition short_id :: "bstr \<Rightarrow> bool" where
  "short_id x \<longleftrightarrow> 8 dvd length x \<and> length x < 2048"

lemma short_id_u8: "short_id x \<Longrightarrow> unat (u8 (length x div 8)) * 8 = length x"
proof -
  assume a: "short_id x"
  then have "length x div 8 < 256" by (auto simp: short_id_def)
  then have "unat (u8 (length x div 8)) = length x div 8" by (simp add: u8_def unat_of_nat)
  then show ?thesis using a by (simp add: short_id_def)
qed

lemma short_id_Nil [simp]: "short_id []"
  by (simp add: short_id_def)

lemma unat_u8: "n < 256 \<Longrightarrow> unat (u8 n) = n"
  by (simp add: u8_def unat_of_nat)

text \<open>An identifier behind its length, a list of them behind its size.\<close>

definition id_bytes :: "bstr \<Rightarrow> bstr" where
  "id_bytes x = u8 (length x div PURSUIT_ID_LEN) # x"

definition ids_bytes :: "bstr list \<Rightarrow> bstr" where
  "ids_bytes IDs = concat (map id_bytes IDs)"

definition ids_ok :: "bstr list \<Rightarrow> bool" where
  "ids_ok IDs \<longleftrightarrow> length IDs < 256 \<and> (\<forall>x \<in> set IDs. short_id x)"

text \<open>The front of a packet from the network, behind the forwarding identifier.\<close>

definition net_bytes :: "bstr list \<Rightarrow> bstr" where
  "net_bytes IDs = u8 (length IDs) # ids_bytes IDs"

text \<open>A notification of the rendezvous element or the topology manager.\<close>

definition note_bytes :: "byte \<Rightarrow> bstr list \<Rightarrow> bstr" where
  "note_bytes type IDs = [type, u8 (length IDs)] @ ids_bytes IDs"

text \<open>A request of an application, and the data it publishes.\<close>

definition app_request :: "byte \<Rightarrow> bstr \<Rightarrow> bstr \<Rightarrow> byte \<Rightarrow> bstr" where
  "app_request type ID prefixID strategy = [type] @ id_bytes ID @ id_bytes prefixID @ [strategy]"

definition app_data :: "bstr \<Rightarrow> byte \<Rightarrow> bstr \<Rightarrow> bstr" where
  "app_data x strategy fid = [PUBLISH_DATA] @ id_bytes x @ [strategy] @ fid"

text \<open>What an application or element is told: a notification, or data for an identifier.\<close>

definition event_bytes :: "byte \<Rightarrow> bstr \<Rightarrow> bstr" where
  "event_bytes type x = type # id_bytes x"

lemma length_id_bytes [simp]: "length (id_bytes x) = Suc (length x)"
  by (simp add: id_bytes_def)

lemma ids_bytes_Nil [simp]: "ids_bytes [] = []"
  by (simp add: ids_bytes_def)

lemma ids_bytes_Cons [simp]: "ids_bytes (x # xs) = id_bytes x @ ids_bytes xs"
  by (simp add: ids_bytes_def)

lemma ids_ok_Cons: "ids_ok (x # xs) \<Longrightarrow> short_id x \<and> ids_ok xs"
  by (simp add: ids_ok_def)

lemma ids_ok_u8: "ids_ok IDs \<Longrightarrow> unat (u8 (length IDs)) = length IDs"
  by (simp add: ids_ok_def unat_u8)

end
