(* ===== verification/BA_Netlink.thy ===== *)
theory BA_Netlink
  imports BA_Wire
begin

text \<open>
  The way between an application and the dispatcher: the netlink socket, and the elements
  \<^verbatim>\<open>src/fromnetlink.cc\<close> and \<^verbatim>\<open>src/tonetlink.cc\<close> at its ends, in the user-space build.
  A datagram is a list of cells: a sender may leave bytes of it unwritten. The socket itself
  (delivery, blocking) is the environment; a datagram arrives whole.
\<close>

subsection \<open>The header\<close>

text \<open>
  \<^verbatim>\<open>struct nlmsghdr\<close> on a little-endian machine: length, type, flags, sequence number and
  the sender's port. The sequence number is given as cells since one sender leaves it unwritten.
\<close>

definition bytes_of_half :: "16 word \<Rightarrow> bstr" where
  "bytes_of_half w = [ucast w, ucast (drop_bit 8 w)]"

definition nlmsghdr :: "32 word \<Rightarrow> 16 word \<Rightarrow> 16 word \<Rightarrow> cell list \<Rightarrow> 32 word \<Rightarrow> cell list" where
  "nlmsghdr len type flags seq pid =
     cells (bytes_of_word len @ bytes_of_half type @ bytes_of_half flags) @ seq @ cells (bytes_of_word pid)"

abbreviation (input) NLMSGHDR_LEN :: nat where "NLMSGHDR_LEN \<equiv> 16"

definition rd_u32 :: "packet \<Rightarrow> nat \<Rightarrow> 32 word option" where
  "rd_u32 p i = map_option (\<lambda>bs. hd (words_of_bytes bs)) (rdn p i 4)"

subsection \<open>Into the dispatcher\<close>

text \<open>
  \<^verbatim>\<open>FromNetlink::selected\<close>: the datagram becomes a packet, without its header and with
  the sender's port as annotation. Nothing compares its length with the header's: pulling more than
  there is, and reading a port that was not received, is undefined. An empty read is dropped.
\<close>

definition FromNetlink_selected :: "cell list \<Rightarrow> packet option option" where
  "FromNetlink_selected d = (if d = [] then Some None
     else do {
       let newPacket = \<lparr>pk_data = d, pk_anno = None\<rparr>;
       p \<leftarrow> pk_pull NLMSGHDR_LEN newPacket;
       pid \<leftarrow> rd_u32 newPacket 12;
       Some (Some (p\<lparr>pk_anno := Some pid\<rparr>))
     })"

subsection \<open>Out of the dispatcher\<close>

text \<open>
  \<^verbatim>\<open>ToNetlink::push\<close>: the header goes in front and the packet into the queue of the
  netlink element. The length written is \<^verbatim>\<open>sizeof (final_p->length())\<close>, four.
\<close>

definition ToNetlink_push :: "packet \<Rightarrow> packet list \<Rightarrow> packet list" where
  "ToNetlink_push p out_buf_queue =
     out_buf_queue @ [p\<lparr>pk_data := nlmsghdr 4 0 1 (cells (bytes_of_word 0)) 9999 @ pk_data p\<rparr>]"

text \<open>
  \<^verbatim>\<open>ToNetlink::selected\<close>: the front of the queue goes to the port in its annotation; the
  last component says whether the element still waits for the socket to be writable.
\<close>

definition ToNetlink_selected :: "packet list \<Rightarrow> (32 word \<times> cell list) option \<times> packet list \<times> bool" where
  "ToNetlink_selected out_buf_queue = (case out_buf_queue of
     [] \<Rightarrow> (None, [], False)
   | p # ps \<Rightarrow> (Some (case pk_anno p of Some i \<Rightarrow> i | None \<Rightarrow> 0, pk_data p), ps, ps \<noteq> []))"

text \<open>A queue is emptied by as many calls as it holds packets.\<close>

fun ToNetlink_drain :: "packet list \<Rightarrow> (32 word \<times> cell list) list" where
  "ToNetlink_drain [] = []"
| "ToNetlink_drain (p # ps) = (case ToNetlink_selected (p # ps) of
     (Some m, q, _) \<Rightarrow> m # ToNetlink_drain ps | (None, _, _) \<Rightarrow> [])"

subsection \<open>Laws\<close>

lemma length_bytes_of_word [simp]: "length (bytes_of_word w) = 4"
  by (simp add: bytes_of_word_def)

lemma length_bytes_of_half [simp]: "length (bytes_of_half w) = 2"
  by (simp add: bytes_of_half_def)

lemma length_nlmsghdr: "length seq = 4 \<Longrightarrow> length (nlmsghdr len type flags seq pid) = 16"
  by (simp add: nlmsghdr_def)

lemma hd_words_of_bytes: "hd (words_of_bytes (bytes_of_word w)) = w"
  using word_of_bytes_of_word [of w] by (simp add: bytes_of_word_def)

lemma FromNetlink_message:
  assumes "length seq = 4"
  shows "FromNetlink_selected (nlmsghdr len type flags seq pid @ body) = Some (Some \<lparr>pk_data = body, pk_anno = Some pid\<rparr>)"
proof -
  let ?h = "nlmsghdr len type flags seq pid"
  have l: "length ?h = 16" by (rule length_nlmsghdr [OF assms])
  have d: "take 4 (drop 12 (?h @ body)) = cells (bytes_of_word pid)"
    using assms by (simp add: nlmsghdr_def)
  have "?h @ body \<noteq> []" using l by auto
  then show ?thesis using l d
    by (simp add: FromNetlink_selected_def pk_pull_def rd_u32_def rdn_def hd_words_of_bytes)
qed

lemma drain_eq: "ToNetlink_drain ps = map (\<lambda>p. (case pk_anno p of Some i \<Rightarrow> i | None \<Rightarrow> 0, pk_data p)) ps"
  by (induction ps) (simp_all add: ToNetlink_selected_def)

lemma push_drain:
  "ToNetlink_drain (foldl (\<lambda>q p. ToNetlink_push p q) [] ps) =
     map (\<lambda>p. (case pk_anno p of Some i \<Rightarrow> i | None \<Rightarrow> 0, nlmsghdr 4 0 1 (cells (bytes_of_word 0)) 9999 @ pk_data p)) ps"
proof -
  have "foldl (\<lambda>q p. ToNetlink_push p q) qs ps =
      qs @ map (\<lambda>p. p\<lparr>pk_data := nlmsghdr 4 0 1 (cells (bytes_of_word 0)) 9999 @ pk_data p\<rparr>) ps" for qs
    by (induction ps arbitrary: qs) (simp_all add: ToNetlink_push_def)
  then show ?thesis by (simp add: drain_eq)
qed

end
