(* ===== verification/BA_Library.thy ===== *)
theory BA_Library
  imports BA_Netlink
begin

text \<open>
  The client library \<^verbatim>\<open>lib/blackadder.cpp\<close>: how an application's call becomes a datagram
  for the dispatcher, which calls are refused, and how a datagram from the dispatcher becomes an
  \<^verbatim>\<open>Event\<close>.

  The state is the socket and what was sent on it; a send the kernel refuses is
  \<open>Send_Failed\<close>, which is the case for a closed socket and otherwise left to the environment. The
  members \<^verbatim>\<open>str_opt\<close> and \<^verbatim>\<open>data\<close> are pointers: \<open>None\<close> is the null pointer.
\<close>

abbreviation (input) UNDEF_EVENT :: byte where "UNDEF_EVENT \<equiv> 0"

record blackadder =
  sock_fd :: int
  ba_pid :: "32 word"
  ba_sent :: "cell list list"

datatype lib_error =
    Wrong_ID_Size
  | Wrong_Prefix_Size
  | Empty_ID
  | Empty_Prefix
  | Several_Fragments
  | Already_Closed

datatype lib_outcome = Sent | Send_Failed | Refused lib_error

definition lib_sendmsg :: "cell list \<Rightarrow> blackadder \<Rightarrow> lib_outcome \<times> blackadder" where
  "lib_sendmsg d s = (if sock_fd s = -1 then (Send_Failed, s) else (Sent, s\<lparr>ba_sent := ba_sent s @ [d]\<rparr>))"

subsection \<open>Requests\<close>

definition opt_bytes :: "bstr option \<Rightarrow> bstr" where
  "opt_bytes str_opt = (case str_opt of None \<Rightarrow> [] | Some bs \<Rightarrow> bs)"

definition create_and_send_buffers :: "byte \<Rightarrow> bstr \<Rightarrow> bstr \<Rightarrow> byte \<Rightarrow> bstr option \<Rightarrow> blackadder \<Rightarrow> lib_outcome \<times> blackadder" where
  "create_and_send_buffers type ID prefixID strategy str_opt s =
     (let id_len = u8 (length ID div PURSUIT_ID_LEN);
          prefix_id_len = u8 (length prefixID div PURSUIT_ID_LEN);
          nlmsg_len = word_of_nat (NLMSGHDR_LEN + 1 + 1 + length ID + 1 + length prefixID + 1) +
            (case str_opt of None \<Rightarrow> 0 | Some bs \<Rightarrow> word_of_nat (length bs));
          nlh = nlmsghdr nlmsg_len 0 1 (cells (bytes_of_word 0)) (ba_pid s)
      in lib_sendmsg (nlh @ cells ([type, id_len] @ ID @ [prefix_id_len] @ prefixID @ [strategy] @ opt_bytes str_opt)) s)"

definition lib_publish_scope :: "bstr \<Rightarrow> bstr \<Rightarrow> byte \<Rightarrow> bstr option \<Rightarrow> blackadder \<Rightarrow> lib_outcome \<times> blackadder" where
  "lib_publish_scope ID prefixID strategy str_opt s =
     (if length ID mod PURSUIT_ID_LEN \<noteq> 0 then (Refused Wrong_ID_Size, s)
      else if length prefixID mod PURSUIT_ID_LEN \<noteq> 0 then (Refused Wrong_Prefix_Size, s)
      else if length ID = 0 then (Refused Empty_ID, s)
      else create_and_send_buffers PUBLISH_SCOPE ID prefixID strategy str_opt s)"

text \<open>\<^verbatim>\<open>publish_info\<close> tests the prefix twice, with the same message, and never the identifier.\<close>

definition lib_publish_info :: "bstr \<Rightarrow> bstr \<Rightarrow> byte \<Rightarrow> bstr option \<Rightarrow> blackadder \<Rightarrow> lib_outcome \<times> blackadder" where
  "lib_publish_info ID prefixID strategy str_opt s =
     (if length ID mod PURSUIT_ID_LEN \<noteq> 0 then (Refused Wrong_ID_Size, s)
      else if length prefixID mod PURSUIT_ID_LEN \<noteq> 0 then (Refused Wrong_Prefix_Size, s)
      else if length prefixID = 0 then (Refused Empty_Prefix, s)
      else if length prefixID = 0 then (Refused Empty_Prefix, s)
      else create_and_send_buffers PUBLISH_INFO ID prefixID strategy str_opt s)"

definition lib_unpublish_scope :: "bstr \<Rightarrow> bstr \<Rightarrow> byte \<Rightarrow> bstr option \<Rightarrow> blackadder \<Rightarrow> lib_outcome \<times> blackadder" where
  "lib_unpublish_scope ID prefixID strategy str_opt s =
     (if length ID mod PURSUIT_ID_LEN \<noteq> 0 then (Refused Wrong_ID_Size, s)
      else if length prefixID mod PURSUIT_ID_LEN \<noteq> 0 then (Refused Wrong_Prefix_Size, s)
      else if length ID = 0 then (Refused Empty_ID, s)
      else if length ID div PURSUIT_ID_LEN > 1 then (Refused Several_Fragments, s)
      else create_and_send_buffers UNPUBLISH_SCOPE ID prefixID strategy str_opt s)"

definition lib_unpublish_info :: "bstr \<Rightarrow> bstr \<Rightarrow> byte \<Rightarrow> bstr option \<Rightarrow> blackadder \<Rightarrow> lib_outcome \<times> blackadder" where
  "lib_unpublish_info ID prefixID strategy str_opt s =
     (if length ID mod PURSUIT_ID_LEN \<noteq> 0 then (Refused Wrong_ID_Size, s)
      else if length prefixID mod PURSUIT_ID_LEN \<noteq> 0 then (Refused Wrong_Prefix_Size, s)
      else if length ID = 0 then (Refused Empty_ID, s)
      else if length prefixID = 0 then (Refused Empty_Prefix, s)
      else if length ID div PURSUIT_ID_LEN > 1 then (Refused Several_Fragments, s)
      else create_and_send_buffers UNPUBLISH_INFO ID prefixID strategy str_opt s)"

definition lib_subscribe_scope :: "bstr \<Rightarrow> bstr \<Rightarrow> byte \<Rightarrow> bstr option \<Rightarrow> blackadder \<Rightarrow> lib_outcome \<times> blackadder" where
  "lib_subscribe_scope ID prefixID strategy str_opt s =
     (if length ID mod PURSUIT_ID_LEN \<noteq> 0 then (Refused Wrong_ID_Size, s)
      else if length prefixID mod PURSUIT_ID_LEN \<noteq> 0 then (Refused Wrong_Prefix_Size, s)
      else if length ID = 0 then (Refused Empty_ID, s)
      else if length ID div PURSUIT_ID_LEN > 1 then (Refused Several_Fragments, s)
      else create_and_send_buffers SUBSCRIBE_SCOPE ID prefixID strategy str_opt s)"

definition lib_subscribe_info :: "bstr \<Rightarrow> bstr \<Rightarrow> byte \<Rightarrow> bstr option \<Rightarrow> blackadder \<Rightarrow> lib_outcome \<times> blackadder" where
  "lib_subscribe_info ID prefixID strategy str_opt s =
     (if length ID mod PURSUIT_ID_LEN \<noteq> 0 then (Refused Wrong_ID_Size, s)
      else if length prefixID mod PURSUIT_ID_LEN \<noteq> 0 then (Refused Wrong_Prefix_Size, s)
      else if length ID = 0 then (Refused Empty_ID, s)
      else if length prefixID = 0 then (Refused Empty_Prefix, s)
      else if length ID div PURSUIT_ID_LEN > 1 then (Refused Several_Fragments, s)
      else create_and_send_buffers SUBSCRIBE_INFO ID prefixID strategy str_opt s)"

definition lib_unsubscribe_scope :: "bstr \<Rightarrow> bstr \<Rightarrow> byte \<Rightarrow> bstr option \<Rightarrow> blackadder \<Rightarrow> lib_outcome \<times> blackadder" where
  "lib_unsubscribe_scope ID prefixID strategy str_opt s =
     (if length ID mod PURSUIT_ID_LEN \<noteq> 0 then (Refused Wrong_ID_Size, s)
      else if length prefixID mod PURSUIT_ID_LEN \<noteq> 0 then (Refused Wrong_Prefix_Size, s)
      else if length ID = 0 then (Refused Empty_ID, s)
      else if length ID div PURSUIT_ID_LEN > 1 then (Refused Several_Fragments, s)
      else create_and_send_buffers UNSUBSCRIBE_SCOPE ID prefixID strategy str_opt s)"

definition lib_unsubscribe_info :: "bstr \<Rightarrow> bstr \<Rightarrow> byte \<Rightarrow> bstr option \<Rightarrow> blackadder \<Rightarrow> lib_outcome \<times> blackadder" where
  "lib_unsubscribe_info ID prefixID strategy str_opt s =
     (if length ID mod PURSUIT_ID_LEN \<noteq> 0 then (Refused Wrong_ID_Size, s)
      else if length prefixID mod PURSUIT_ID_LEN \<noteq> 0 then (Refused Wrong_Prefix_Size, s)
      else if length ID = 0 then (Refused Empty_ID, s)
      else if length prefixID = 0 then (Refused Empty_Prefix, s)
      else if length ID div PURSUIT_ID_LEN > 1 then (Refused Several_Fragments, s)
      else create_and_send_buffers UNSUBSCRIBE_INFO ID prefixID strategy str_opt s)"

text \<open>
  \<^verbatim>\<open>publish_data\<close>: for an identifier of the wrong size nothing is sent, and the result
  that is tested afterwards was never assigned: reading it is undefined. The data may hold unwritten bytes.
\<close>

definition lib_publish_data :: "bstr \<Rightarrow> byte \<Rightarrow> bstr option \<Rightarrow> cell list \<Rightarrow> blackadder \<Rightarrow> (lib_outcome \<times> blackadder) option" where
  "lib_publish_data ID strategy str_opt data s =
     (if length ID mod PURSUIT_ID_LEN \<noteq> 0 then None
      else (let id_len = u8 (length ID div PURSUIT_ID_LEN);
                nlmsg_len = word_of_nat (NLMSGHDR_LEN + 1 + 1 + length ID + 1) +
                  (case str_opt of None \<Rightarrow> 0 | Some bs \<Rightarrow> word_of_nat (length bs)) + word_of_nat (length data);
                nlh = nlmsghdr nlmsg_len 0 1 (cells (bytes_of_word 0)) (ba_pid s)
            in Some (lib_sendmsg (nlh @ cells ([PUBLISH_DATA, id_len] @ ID @ [strategy] @ opt_bytes str_opt) @ data) s)))"

definition lib_disconnect :: "blackadder \<Rightarrow> lib_outcome \<times> blackadder" where
  "lib_disconnect s = (if sock_fd s = -1 then (Refused Already_Closed, s)
     else (let nlh = nlmsghdr (word_of_nat (NLMSGHDR_LEN + 1)) 0 1 (cells (bytes_of_word 0)) (ba_pid s);
               (r, s) = lib_sendmsg (nlh @ cells [DISCONNECT]) s
           in (r, s\<lparr>sock_fd := -1\<rparr>)))"

subsection \<open>Events\<close>

record event =
  ev_type :: byte
  ev_id :: bstr
  ev_data :: "cell list option"
  ev_buffer :: "cell list option"

definition Event_new :: event where
  "Event_new = \<lparr>ev_type = 0, ev_id = [], ev_data = None, ev_buffer = None\<rparr>"

text \<open>
  \<^verbatim>\<open>getEventIntoBuf\<close> on a datagram: the buffer is the caller's (of the given size; what it
  held before is not known) or a new one of the datagram's size. A datagram shorter than a header frees
  the buffer, which is undefined when it is the caller's.
\<close>

definition getEventIntoBuf :: "nat option \<Rightarrow> cell list \<Rightarrow> event \<Rightarrow> event option" where
  "getEventIntoBuf data_len d ev =
     (let total_buf_size = length d in
      if total_buf_size > 0 then
        (let iov_len = (case data_len of None \<Rightarrow> total_buf_size | Some n \<Rightarrow> n);
             bytes_read = min iov_len total_buf_size;
             buffer = \<lparr>pk_data = take bytes_read d @ replicate (iov_len - bytes_read) None, pk_anno = None\<rparr>
         in if bytes_read < NLMSGHDR_LEN then
              (case data_len of None \<Rightarrow> Some (ev\<lparr>ev_type := UNDEF_EVENT\<rparr>) | Some _ \<Rightarrow> None)
            else do {
              type \<leftarrow> rd8 buffer NLMSGHDR_LEN;
              id_len \<leftarrow> rd8 buffer (NLMSGHDR_LEN + 1);
              ID \<leftarrow> rdn buffer (NLMSGHDR_LEN + 2) (unat id_len * PURSUIT_ID_LEN);
              Some \<lparr>ev_type = type, ev_id = ID,
                ev_data = (if type = PUBLISHED_DATA then Some (drop (NLMSGHDR_LEN + 2 + length ID) (take bytes_read d)) else None),
                ev_buffer = Some (pk_data buffer)\<rparr>
            })
      else Some (ev\<lparr>ev_type := UNDEF_EVENT\<rparr>))"

definition getEvent :: "cell list \<Rightarrow> event \<Rightarrow> event option" where
  "getEvent = getEventIntoBuf None"

text \<open>The copy constructor: it copies out of the buffer, which an event may not have.\<close>

definition Event_copy :: "event \<Rightarrow> event option" where
  "Event_copy ev = do {
     buffer \<leftarrow> ev_buffer ev;
     let data_len = (case ev_data ev of None \<Rightarrow> 0 | Some d \<Rightarrow> length d);
     let n = NLMSGHDR_LEN + 1 + 1 + length (ev_id ev) + data_len;
     if n \<le> length buffer
     then Some (ev\<lparr>ev_buffer := Some (take n buffer), ev_data := Some (drop (NLMSGHDR_LEN + 1 + 1 + length (ev_id ev)) (take n buffer))\<rparr>)
     else None
   }"

subsection \<open>Identifiers as hexadecimal text\<close>

definition hex_char :: "byte \<Rightarrow> byte" where
  "hex_char n = (if n < 10 then 48 + n else 87 + n)"

definition chararray_to_hex :: "bstr \<Rightarrow> bstr" where
  "chararray_to_hex str = concat (map (\<lambda>b.
     if b > 15 then [hex_char (drop_bit 4 b), hex_char (b AND 15)] else [48, hex_char b]) str)"

definition hex_value :: "byte \<Rightarrow> nat option" where
  "hex_value c = (if 48 \<le> c \<and> c \<le> 57 then Some (unat (c - 48))
     else if 97 \<le> c \<and> c \<le> 102 then Some (unat (c - 87))
     else if 65 \<le> c \<and> c \<le> 70 then Some (unat (c - 55)) else None)"

definition is_space :: "byte \<Rightarrow> bool" where
  "is_space c \<longleftrightarrow> c = 32 \<or> 9 \<le> c \<and> c \<le> 13"

text \<open>
  \<^verbatim>\<open>iss >> hex >> n\<close> on a stream of two characters: white space is skipped, a sign may
  come first, the digits end at the first other character; without digits the result is 0. A negative
  number wraps around; the cast keeps its low byte.
\<close>

definition read_hex2 :: "byte \<Rightarrow> byte \<Rightarrow> byte" where
  "read_hex2 a b =
     (case hex_value a of
        Some m \<Rightarrow> (case hex_value b of Some n \<Rightarrow> u8 (16 * m + n) | None \<Rightarrow> u8 m)
      | None \<Rightarrow> (case hex_value b of
          Some n \<Rightarrow> if is_space a \<or> a = 43 then u8 n else if a = 45 then - u8 n else 0
        | None \<Rightarrow> 0))"

fun hex_to_chararray :: "bstr \<Rightarrow> bstr" where
  "hex_to_chararray (a # b # hexstr) = read_hex2 a b # hex_to_chararray hexstr"
| "hex_to_chararray _ = []"

subsection \<open>What the library promises\<close>

text \<open>
  The eight requests as one function of the request's type, and the reference for their checks: which
  error comes first, if any.
\<close>

definition lib_request :: "byte \<Rightarrow> bstr \<Rightarrow> bstr \<Rightarrow> byte \<Rightarrow> bstr option \<Rightarrow> blackadder \<Rightarrow> lib_outcome \<times> blackadder" where
  "lib_request type = (if type = PUBLISH_SCOPE then lib_publish_scope else if type = PUBLISH_INFO then lib_publish_info
     else if type = UNPUBLISH_SCOPE then lib_unpublish_scope else if type = UNPUBLISH_INFO then lib_unpublish_info
     else if type = SUBSCRIBE_SCOPE then lib_subscribe_scope else if type = SUBSCRIBE_INFO then lib_subscribe_info
     else if type = UNSUBSCRIBE_SCOPE then lib_unsubscribe_scope else lib_unsubscribe_info)"

definition request_types :: "byte set" where
  "request_types = {PUBLISH_SCOPE, PUBLISH_INFO, UNPUBLISH_SCOPE, UNPUBLISH_INFO,
     SUBSCRIBE_SCOPE, SUBSCRIBE_INFO, UNSUBSCRIBE_SCOPE, UNSUBSCRIBE_INFO}"

definition about_item :: "byte \<Rightarrow> bool" where
  "about_item type \<longleftrightarrow> type \<in> {PUBLISH_INFO, UNPUBLISH_INFO, SUBSCRIBE_INFO, UNSUBSCRIBE_INFO}"

definition request_error :: "byte \<Rightarrow> bstr \<Rightarrow> bstr \<Rightarrow> lib_error option" where
  "request_error type ID prefixID =
     (if \<not> 8 dvd length ID then Some Wrong_ID_Size
      else if \<not> 8 dvd length prefixID then Some Wrong_Prefix_Size
      else if ID = [] \<and> type \<noteq> PUBLISH_INFO then Some Empty_ID
      else if prefixID = [] \<and> about_item type then Some Empty_Prefix
      else if 8 < length ID \<and> type \<notin> {PUBLISH_SCOPE, PUBLISH_INFO} then Some Several_Fragments
      else None)"

definition lib_header :: "nat \<Rightarrow> blackadder \<Rightarrow> cell list" where
  "lib_header n s = nlmsghdr (word_of_nat (16 + n)) 0 1 (cells (bytes_of_word 0)) (ba_pid s)"

lemma create_and_send_buffers_eq:
  "create_and_send_buffers type ID prefixID strategy str_opt s =
     lib_sendmsg (lib_header (length (app_request type ID prefixID strategy @ opt_bytes str_opt)) s @
       cells (app_request type ID prefixID strategy @ opt_bytes str_opt)) s"
  by (cases str_opt) (simp_all add: create_and_send_buffers_def lib_header_def app_request_def id_bytes_def opt_bytes_def add_ac)

lemmas lib_requests = lib_publish_scope_def lib_publish_info_def lib_unpublish_scope_def lib_unpublish_info_def
  lib_subscribe_scope_def lib_subscribe_info_def lib_unsubscribe_scope_def lib_unsubscribe_info_def

lemma lib_request_eq:
  assumes "type \<in> request_types"
  shows "lib_request type ID prefixID strategy str_opt s = (case request_error type ID prefixID of
     Some e \<Rightarrow> (Refused e, s)
   | None \<Rightarrow> lib_sendmsg (lib_header (length (app_request type ID prefixID strategy @ opt_bytes str_opt)) s @
       cells (app_request type ID prefixID strategy @ opt_bytes str_opt)) s)"
proof -
  have e: "length ID mod 8 = 0 \<longleftrightarrow> 8 dvd length ID" "length prefixID mod 8 = 0 \<longleftrightarrow> 8 dvd length prefixID"
    by (simp_all add: dvd_eq_mod_eq_0)
  have m: "8 dvd length ID \<Longrightarrow> Suc 0 < length ID div 8 \<longleftrightarrow> 8 < length ID" by auto
  note defs = lib_request_def lib_requests e request_error_def about_item_def create_and_send_buffers_eq
  from assms show ?thesis unfolding request_types_def insert_iff
    by (elim disjE emptyE; cases "8 dvd length ID"; simp add: defs m)
qed

text \<open>A datagram of the library arrives as its body, with the application's port.\<close>

lemma library_datagram:
  "FromNetlink_selected (lib_header n s @ body) = Some (Some \<lparr>pk_data = body, pk_anno = Some (ba_pid s)\<rparr>)"
  unfolding lib_header_def by (rule FromNetlink_message) simp

lemma lib_publish_data_eq:
  "8 dvd length ID \<Longrightarrow> lib_publish_data ID strategy str_opt data s =
     Some (lib_sendmsg (lib_header (length (app_data ID strategy (opt_bytes str_opt)) + length data) s @
       cells (app_data ID strategy (opt_bytes str_opt)) @ data) s)"
  by (cases str_opt) (simp_all add: lib_publish_data_def lib_header_def app_data_def id_bytes_def opt_bytes_def add_ac dvd_eq_mod_eq_0)

text \<open>What the dispatcher sends an application is read back.\<close>

lemma getEvent_message:
  assumes "short_id x" and "length h = 16"
  shows "getEvent (h @ cells (event_bytes type x) @ ys) ev = Some \<lparr>ev_type = type, ev_id = x,
     ev_data = (if type = PUBLISHED_DATA then Some ys else None), ev_buffer = Some (h @ cells (event_bytes type x) @ ys)\<rparr>"
proof -
  let ?d = "h @ cells (event_bytes type x) @ ys" and ?l = "u8 (length x div 8)"
  let ?b = "\<lparr>pk_data = ?d, pk_anno = None\<rparr>"
  have l: "unat ?l * 8 = length x" by (rule short_id_u8 [OF assms(1)])
  have e: "cells (event_bytes type x) = [Some type, Some ?l] @ cells x" by (simp add: event_bytes_def id_bytes_def)
  have r0: "rd8 ?b 16 = Some type" by (simp add: rd8_def nth_append assms(2) e)
  have r1: "rd8 ?b 17 = Some ?l" by (simp add: rd8_def nth_append assms(2) e)
  have r2: "rdn ?b 18 (length x) = Some x" by (simp add: rdn_def assms(2) e)
  have t: "drop (18 + length x) ?d = ys" by (simp add: assms(2) e)
  have n: "?d \<noteq> []" "\<not> length ?d < 16" using assms(2) by auto
  have g: "getEvent ?d ev = do { type \<leftarrow> rd8 ?b 16; l \<leftarrow> rd8 ?b 17; ID \<leftarrow> rdn ?b 18 (unat l * 8);
      Some \<lparr>ev_type = type, ev_id = ID, ev_data = (if type = PUBLISHED_DATA then Some (drop (18 + length ID) ?d) else None), ev_buffer = Some ?d\<rparr> }"
    using n by (simp add: getEvent_def getEventIntoBuf_def Let_def cong: if_cong)
  show ?thesis unfolding g r0 Option.bind.simps r1 l r2 t by simp
qed

subsection \<open>Properties\<close>

lemma hex_value_char: "hex_value (hex_char (n :: byte)) = (if n < 16 then Some (unat n) else hex_value (hex_char n))"
proof (cases "n < 16")
  case True
  have "\<forall>k < 16. hex_value (hex_char (word_of_nat k)) = Some k" by code_simp
  moreover have "unat n < 16" using True by (simp add: word_less_nat_alt)
  ultimately have "hex_value (hex_char (word_of_nat (unat n))) = Some (unat n)" by blast
  then show ?thesis using True by simp
qed simp

lemma nibbles: "16 * unat (drop_bit 4 b) + unat (b AND 15) = unat (b :: byte)" "drop_bit 4 b < 16" "b AND 15 < 16"
proof -
  have a: "unat (drop_bit 4 b) = unat b div 16" by (simp add: drop_bit_eq_div unat_div)
  have "b AND 15 = take_bit 4 b" by (simp add: take_bit_eq_mask mask_eq_exp_minus_1)
  then have c: "unat (b AND 15) = unat b mod 16" by (simp add: unat_mod take_bit_eq_mod)
  show "16 * unat (drop_bit 4 b) + unat (b AND 15) = unat b" unfolding a c by simp
  show "drop_bit 4 b < 16" using unsigned_less [of b, where ?'a = nat] by (simp add: word_less_nat_alt a less_mult_imp_div_less)
  show "b AND 15 < 16" by (simp add: word_less_nat_alt c)
qed

lemma read_hex_byte: "(if b > 15 then [hex_char (drop_bit 4 b), hex_char (b AND 15)] else [48, hex_char b]) =
    [hex_char (drop_bit 4 b), hex_char (b AND 15)]"
  and read_hex2_char: "read_hex2 (hex_char (drop_bit 4 b)) (hex_char (b AND 15)) = b"
proof -
  note n = nibbles [of b]
  show "read_hex2 (hex_char (drop_bit 4 b)) (hex_char (b AND 15)) = b"
    by (simp add: read_hex2_def hex_value_char n(2,3)) (simp add: n(1) u8_def)
  have "drop_bit 4 b = 0 \<and> b AND 15 = b" if "\<not> b > 15"
  proof -
    have u: "unat b < 16" using that by (simp add: word_less_nat_alt not_less word_le_nat_alt)
    then have "unat (drop_bit 4 b) = 0" "unat (b AND 15) = unat b"
      using n(1) by (simp_all add: drop_bit_eq_div unat_div)
    then show ?thesis by (simp_all add: word_unat_eq_iff)
  qed
  then show "(if b > 15 then [hex_char (drop_bit 4 b), hex_char (b AND 15)] else [48, hex_char b]) =
    [hex_char (drop_bit 4 b), hex_char (b AND 15)]" by (auto simp: hex_char_def)
qed

text \<open>
  Writing an identifier as hexadecimal text and reading it back gives the identifier, whatever its
  bytes are; the text has two characters for every byte.
\<close>

theorem hex_text_roundtrip: "hex_to_chararray (chararray_to_hex x) = x \<and> length (chararray_to_hex x) = 2 * length x"
  by (induction x) (simp_all only: chararray_to_hex_def read_hex_byte list.map concat.simps append.simps list.size
      hex_to_chararray.simps read_hex2_char, simp_all)

end
