(* ===== verification/BA_NBLibrary.thy ===== *)
theory BA_NBLibrary
  imports BA_Library
begin

text \<open>
  The non-blocking client library \<^verbatim>\<open>lib/nb_blackadder.cpp\<close>: the application's threads put
  messages into a queue, a selector thread moves them to the socket and events from the socket into
  a second queue, and a worker thread hands those to the application's callback.

  A critical section (between the lock and the unlock of a mutex, or a wait) is one step; the steps of
  the threads interleave freely. \<^verbatim>\<open>select\<close> overwrites the sets it is given with what is
  ready, and waits when nothing is. A condition variable wakes a thread that is waiting, and no other;
  spurious wake-ups are left out. A send may fail, which the environment decides. The logs \<open>nb_pushed\<close>,
  \<open>nb_received\<close>, \<open>nb_sent\<close> and \<open>nb_called\<close> record what the threads did and are read by no step.
  The checks of the eight requests are those of \<open>BA_Library\<close> word for word, and are not repeated.
\<close>

subsection \<open>State\<close>

text \<open>
  Where the selector is: at \<^verbatim>\<open>select\<close>, or behind it, with what it found readable (the
  pipe, the socket). Where the worker is: before the lock, waiting, before the test of its inner loop,
  or in the callback.
\<close>

datatype selector_pc = Selecting | Read_Pipe bool bool | Read_Socket bool | Write_Socket
datatype worker_pc = W_Start | W_Waiting | W_Testing | W_Calling event

record nb =
  nb_sock :: int
  nb_pid :: "32 word"
  output_queue :: "cell list list"
  pipe_bytes :: nat
  write_set :: bool
  overflow_waiting :: nat
  selector :: selector_pc
  event_queue :: "event list"
  worker :: worker_pc
  nb_socket_in :: "cell list list"
  nb_pushed :: "cell list list"
  nb_received :: "event list"
  nb_sent :: "cell list list"
  nb_called :: "event list"

definition NB_Blackadder_new :: "int \<Rightarrow> 32 word \<Rightarrow> nb" where
  "NB_Blackadder_new fd pid = \<lparr>nb_sock = fd, nb_pid = pid, output_queue = [], pipe_bytes = 0, write_set = False,
     overflow_waiting = 0, selector = Selecting, event_queue = [], worker = W_Start, nb_socket_in = [],
     nb_pushed = [], nb_received = [], nb_sent = [], nb_called = []\<rparr>"

subsection \<open>The application's threads\<close>

text \<open>The header's sequence number is not written: its memory comes from \<^verbatim>\<open>malloc\<close>.\<close>

definition nb_header :: "nat \<Rightarrow> 32 word \<Rightarrow> cell list" where
  "nb_header n pid = nlmsghdr (word_of_nat n) 0 1 (replicate 4 None) pid"

definition nb_enqueue :: "cell list \<Rightarrow> nb \<Rightarrow> nb" where
  "nb_enqueue msg s =
     (let q = output_queue s @ [msg] in
      s\<lparr>output_queue := q, nb_pushed := nb_pushed s @ [msg],
        pipe_bytes := (if length q = 1 then Suc (pipe_bytes s) else pipe_bytes s),
        overflow_waiting := (if length q = 1000 then Suc (overflow_waiting s) else overflow_waiting s)\<rparr>)"

definition nb_push :: "byte \<Rightarrow> bstr \<Rightarrow> bstr \<Rightarrow> byte \<Rightarrow> bstr option \<Rightarrow> nb \<Rightarrow> nb" where
  "nb_push type ID prefixID strategy str_opt s =
     (let id_len = u8 (length ID div PURSUIT_ID_LEN);
          prefix_id_len = u8 (length prefixID div PURSUIT_ID_LEN);
          buffer_length = NLMSGHDR_LEN + 1 + 1 + length ID + 1 + length prefixID + 1 +
            (case str_opt of None \<Rightarrow> 0 | Some bs \<Rightarrow> length bs)
      in nb_enqueue (nb_header buffer_length (nb_pid s) @
           cells ([type, id_len] @ ID @ [prefix_id_len] @ prefixID @ [strategy] @ opt_bytes str_opt)) s)"

definition nb_publish_data :: "bstr \<Rightarrow> byte \<Rightarrow> bstr option \<Rightarrow> cell list \<Rightarrow> nb \<Rightarrow> nb" where
  "nb_publish_data ID strategy str_opt data s =
     (let id_len = u8 (length ID div PURSUIT_ID_LEN);
          buffer_length = NLMSGHDR_LEN + 1 + 1 + length ID + 1 + (case str_opt of None \<Rightarrow> 0 | Some bs \<Rightarrow> length bs)
      in nb_enqueue (nb_header (buffer_length + length data) (nb_pid s) @
           cells ([PUBLISH_DATA, id_len] @ ID @ [strategy] @ opt_bytes str_opt) @ data) s)"

text \<open>\<^verbatim>\<open>disconnect\<close> sends past the queue, then closes the socket.\<close>

definition nb_disconnect :: "nb \<Rightarrow> nb" where
  "nb_disconnect s = (if nb_sock s = -1 then s
     else s\<lparr>nb_sent := nb_sent s @ [nlmsghdr (word_of_nat (NLMSGHDR_LEN + 1)) 0 1 (cells (bytes_of_word 0)) (nb_pid s) @
       cells [DISCONNECT]], nb_sock := -1\<rparr>)"

subsection \<open>The selector thread\<close>

definition nb_select :: "bool \<Rightarrow> nb \<Rightarrow> nb option" where
  "nb_select writable s =
     (let r_pipe = (pipe_bytes s > 0); r_sock = (nb_socket_in s \<noteq> []); w = (write_set s \<and> writable) in
      if r_pipe \<or> r_sock \<or> w then Some (s\<lparr>write_set := w, selector := Read_Pipe r_pipe r_sock\<rparr>) else None)"

definition nb_read_pipe :: "bool \<Rightarrow> bool \<Rightarrow> nb \<Rightarrow> nb" where
  "nb_read_pipe r_pipe r_sock s =
     (if r_pipe then s\<lparr>pipe_bytes := pipe_bytes s - 1, write_set := True, selector := Read_Socket r_sock\<rparr>
      else s\<lparr>selector := Read_Socket r_sock\<rparr>)"

text \<open>The event is parsed without a look at the length of the datagram.\<close>

definition nb_event :: "cell list \<Rightarrow> event option" where
  "nb_event d = (let buffer = \<lparr>pk_data = d, pk_anno = None\<rparr> in do {
     type \<leftarrow> rd8 buffer NLMSGHDR_LEN;
     id_len \<leftarrow> rd8 buffer (NLMSGHDR_LEN + 1);
     ID \<leftarrow> rdn buffer (NLMSGHDR_LEN + 2) (unat id_len * PURSUIT_ID_LEN);
     Some \<lparr>ev_type = type, ev_id = ID,
       ev_data = (if type = PUBLISHED_DATA then Some (drop (NLMSGHDR_LEN + 2 + length ID) d) else None), ev_buffer = Some d\<rparr>
   })"

definition nb_read_socket :: "bool \<Rightarrow> nb \<Rightarrow> nb option" where
  "nb_read_socket r_sock s = (case nb_socket_in s of
     d # ds \<Rightarrow>
       if r_sock \<and> d \<noteq> [] then do {
         ev \<leftarrow> nb_event d;
         Some (s\<lparr>nb_socket_in := ds, event_queue := event_queue s @ [ev], nb_received := nb_received s @ [ev],
           worker := (if worker s = W_Waiting then W_Testing else worker s), selector := Write_Socket\<rparr>)
       } else Some (s\<lparr>selector := Write_Socket\<rparr>)
   | [] \<Rightarrow> Some (s\<lparr>selector := Write_Socket\<rparr>))"

text \<open>Taking the front of an empty queue is undefined; \<open>ok\<close>: the send succeeded.\<close>

definition nb_write_socket :: "bool \<Rightarrow> nb \<Rightarrow> nb option" where
  "nb_write_socket ok s = (if write_set s then
     (case output_queue s of
        [] \<Rightarrow> None
      | msg # q \<Rightarrow>
          (let sent = (ok \<and> nb_sock s \<noteq> -1); q' = (if sent then q else msg # q) in
           Some (s\<lparr>output_queue := q', nb_sent := (if sent then nb_sent s @ [msg] else nb_sent s),
             write_set := (q' \<noteq> []),
             overflow_waiting := (if q' = [] then overflow_waiting s - 1 else overflow_waiting s),
             selector := Selecting\<rparr>)))
     else Some (s\<lparr>selector := Selecting\<rparr>))"

subsection \<open>The worker thread\<close>

definition nb_worker_wait :: "nb \<Rightarrow> nb" where
  "nb_worker_wait s = s\<lparr>worker := W_Waiting\<rparr>"

definition nb_worker_test :: "nb \<Rightarrow> nb" where
  "nb_worker_test s = (case event_queue s of
     ev # q \<Rightarrow> s\<lparr>event_queue := q, worker := W_Calling ev\<rparr>
   | [] \<Rightarrow> s\<lparr>worker := W_Start\<rparr>)"

definition nb_worker_call :: "event \<Rightarrow> nb \<Rightarrow> nb" where
  "nb_worker_call ev s = s\<lparr>nb_called := nb_called s @ [ev], worker := W_Testing\<rparr>"

subsection \<open>Interleaving\<close>

inductive nb_step :: "nb \<Rightarrow> nb \<Rightarrow> bool" where
  enqueue: "nb_step s (nb_enqueue msg s)"
| disconnect: "nb_step s (nb_disconnect s)"
| arrive: "nb_step s (s\<lparr>nb_socket_in := nb_socket_in s @ [d]\<rparr>)"
| select: "selector s = Selecting \<Longrightarrow> nb_select writable s = Some s' \<Longrightarrow> nb_step s s'"
| read_pipe: "selector s = Read_Pipe r_pipe r_sock \<Longrightarrow> nb_step s (nb_read_pipe r_pipe r_sock s)"
| read_socket: "selector s = Read_Socket r_sock \<Longrightarrow> nb_read_socket r_sock s = Some s' \<Longrightarrow> nb_step s s'"
| write_socket: "selector s = Write_Socket \<Longrightarrow> nb_write_socket ok s = Some s' \<Longrightarrow> nb_step s s'"
| worker_wait: "worker s = W_Start \<Longrightarrow> nb_step s (nb_worker_wait s)"
| worker_test: "worker s = W_Testing \<Longrightarrow> nb_step s (nb_worker_test s)"
| worker_call: "worker s = W_Calling ev \<Longrightarrow> nb_step s (nb_worker_call ev s)"

abbreviation nb_steps :: "nb \<Rightarrow> nb \<Rightarrow> bool" where
  "nb_steps \<equiv> nb_step\<^sup>*\<^sup>*"

subsection \<open>Invariant\<close>

text \<open>
  The wake-up protocol: the queue is not empty while a byte is in the pipe or the socket is waited for,
  there is one byte at most, and never both. The logs: what was sent, then what is queued, is what was
  pushed, in order (after a disconnection, up to its message); likewise for the events.
\<close>

definition in_flight :: "nb \<Rightarrow> event list" where
  "in_flight s = (case worker s of W_Calling ev \<Rightarrow> [ev] | _ \<Rightarrow> [])"

definition nb_wakeup_ok :: "nb \<Rightarrow> bool" where
  "nb_wakeup_ok s \<longleftrightarrow> (write_set s \<or> pipe_bytes s > 0 \<longrightarrow> output_queue s \<noteq> []) \<and> pipe_bytes s \<le> 1 \<and>
     \<not> (write_set s \<and> pipe_bytes s > 0) \<and> (\<forall>b. selector s = Read_Pipe True b \<longrightarrow> pipe_bytes s = 1)"

definition nb_fifo :: "nb \<Rightarrow> bool" where
  "nb_fifo s \<longleftrightarrow> (if nb_sock s \<noteq> -1 then nb_sent s @ output_queue s = nb_pushed s
     else \<exists>sent bye. nb_sent s = sent @ [bye] \<and> sent @ output_queue s = nb_pushed s)"

definition nb_events_fifo :: "nb \<Rightarrow> bool" where
  "nb_events_fifo s \<longleftrightarrow> nb_called s @ in_flight s @ event_queue s = nb_received s"

definition nb_inv :: "nb \<Rightarrow> bool" where
  "nb_inv s \<longleftrightarrow> nb_wakeup_ok s \<and> nb_fifo s \<and> nb_events_fifo s"

lemmas nb_ops = nb_enqueue_def nb_disconnect_def nb_select_def nb_read_pipe_def nb_write_socket_def
  nb_worker_wait_def nb_worker_test_def nb_worker_call_def Let_def

lemma nb_read_socketE:
  assumes "nb_read_socket r_sock s = Some s'"
  obtains "s' = s\<lparr>selector := Write_Socket\<rparr>"
  | d ds ev where "nb_socket_in s = d # ds" "nb_event d = Some ev"
    "s' = s\<lparr>nb_socket_in := ds, event_queue := event_queue s @ [ev], nb_received := nb_received s @ [ev],
       worker := (if worker s = W_Waiting then W_Testing else worker s), selector := Write_Socket\<rparr>"
proof (cases "nb_socket_in s")
  case Nil
  with assms that(1) show ?thesis by (simp add: nb_read_socket_def)
next
  case (Cons d ds)
  show ?thesis
  proof (cases "nb_event d")
    case None
    with assms Cons that(1) show ?thesis by (simp add: nb_read_socket_def split: if_splits)
  next
    case (Some ev)
    with assms Cons that show ?thesis by (simp add: nb_read_socket_def split: if_splits)
  qed
qed

lemma nb_wakeup_step: "nb_step s s' \<Longrightarrow> nb_wakeup_ok s \<Longrightarrow> nb_wakeup_ok s'"
  by (induction rule: nb_step.induct)
    (auto simp: nb_ops nb_wakeup_ok_def split: if_splits list.splits elim!: nb_read_socketE)

lemma nb_fifo_step: "nb_step s s' \<Longrightarrow> nb_fifo s \<Longrightarrow> nb_fifo s'"
  by (induction rule: nb_step.induct)
    (auto simp: nb_ops nb_fifo_def split: if_splits list.splits elim!: nb_read_socketE)

lemma nb_events_step: "nb_step s s' \<Longrightarrow> nb_events_fifo s \<Longrightarrow> nb_events_fifo s'"
  by (induction rule: nb_step.induct)
    (auto simp: nb_ops nb_events_fifo_def in_flight_def split: if_splits list.splits elim!: nb_read_socketE)

lemma nb_inv_step: "nb_step s s' \<Longrightarrow> nb_inv s \<Longrightarrow> nb_inv s'"
  using nb_wakeup_step nb_fifo_step nb_events_step by (auto simp: nb_inv_def)

lemma nb_inv_steps: "nb_steps s s' \<Longrightarrow> nb_inv s \<Longrightarrow> nb_inv s'"
  by (induction rule: rtranclp_induct) (auto intro: nb_inv_step)

lemma nb_inv_new: "fd \<noteq> -1 \<Longrightarrow> nb_inv (NB_Blackadder_new fd pid)"
  by (simp add: nb_inv_def nb_wakeup_ok_def nb_fifo_def nb_events_fifo_def in_flight_def NB_Blackadder_new_def)

subsection \<open>Threads that miss their wake-up\<close>

text \<open>Messages are queued, the socket is not waited for, and nothing will be written into the pipe.\<close>

definition nb_stalled :: "nb \<Rightarrow> bool" where
  "nb_stalled s \<longleftrightarrow> output_queue s \<noteq> [] \<and> pipe_bytes s = 0 \<and> \<not> write_set s \<and> (\<forall>b. selector s \<noteq> Read_Pipe True b)"

lemma nb_stalled_step:
  "nb_step s s' \<Longrightarrow> nb_stalled s \<Longrightarrow> nb_stalled s' \<and> (\<exists>more. output_queue s' = output_queue s @ more)"
  by (induction rule: nb_step.induct)
    (auto simp: nb_ops nb_stalled_def split: if_splits list.splits elim!: nb_read_socketE)

lemma nb_stalled_steps:
  "nb_steps s s' \<Longrightarrow> nb_stalled s \<Longrightarrow> nb_stalled s' \<and> (\<exists>more. output_queue s' = output_queue s @ more)"
proof (induction rule: rtranclp_induct)
  case (step y z)
  with nb_stalled_step [OF step(2)] show ?case by auto
qed simp

lemma nb_received_step: "nb_step s s' \<Longrightarrow> \<exists>more. nb_received s' = nb_received s @ more"
  by (induction rule: nb_step.induct) (auto simp: nb_ops split: if_splits list.splits elim!: nb_read_socketE)

lemma nb_waiting_step:
  "nb_step s s' \<Longrightarrow> worker s = W_Waiting \<Longrightarrow> nb_received s' = nb_received s \<Longrightarrow>
   worker s' = W_Waiting \<and> event_queue s' = event_queue s \<and> nb_called s' = nb_called s"
  by (induction rule: nb_step.induct) (auto simp: nb_ops split: if_splits list.splits elim!: nb_read_socketE)

lemma nb_waiting_steps:
  "nb_steps s s' \<Longrightarrow> worker s = W_Waiting \<Longrightarrow> nb_received s' = nb_received s \<Longrightarrow>
   worker s' = W_Waiting \<and> event_queue s' = event_queue s \<and> nb_called s' = nb_called s"
proof -
  have mono: "\<exists>more. nb_received s' = nb_received s @ more" if "nb_steps s s'" for s s'
    using that
  proof (induction rule: rtranclp_induct)
    case (step y z)
    with nb_received_step [OF step(2)] show ?case by auto
  qed simp
  show "nb_steps s s' \<Longrightarrow> worker s = W_Waiting \<Longrightarrow> nb_received s' = nb_received s \<Longrightarrow>
   worker s' = W_Waiting \<and> event_queue s' = event_queue s \<and> nb_called s' = nb_called s"
  proof (induction rule: rtranclp_induct)
    case (step y z)
    obtain a b where "nb_received y = nb_received s @ a" "nb_received z = nb_received y @ b"
      using mono [OF step(1)] nb_received_step [OF step(2)] by blast
    with step(5) have "nb_received y = nb_received s" "nb_received z = nb_received y" by simp_all
    with nb_waiting_step [OF step(2)] step show ?case by auto
  qed simp
qed

subsection \<open>An example\<close>

text \<open>
  A message is pushed, the selector takes its byte from the pipe, and the socket refuses the message;
  then an event arrives.
\<close>

definition ex_msg :: "cell list" where "ex_msg = cells [1, 2, 3]"
definition ex_datagram :: "cell list" where "ex_datagram = cells (replicate 16 0 @ event_bytes START_PUBLISH (replicate 8 7))"

definition ex_refused :: nb where
  "ex_refused = (NB_Blackadder_new 3 7)\<lparr>output_queue := [ex_msg], nb_pushed := [ex_msg], write_set := True,
     nb_socket_in := [ex_datagram]\<rparr>"

definition ex_unseen :: nb where
  "ex_unseen = (NB_Blackadder_new 3 7)\<lparr>event_queue := [the (nb_event ex_datagram)],
     nb_received := [the (nb_event ex_datagram)], selector := Write_Socket\<rparr>"

lemma ex_event: "nb_event ex_datagram = Some (the (nb_event ex_datagram))" "ex_datagram \<noteq> []"
  by code_simp+

lemma ex_refused_steps: "nb_steps (NB_Blackadder_new 3 7) ex_refused"
proof -
  let ?s0 = "NB_Blackadder_new 3 7"
  let ?s1 = "nb_enqueue ex_msg ?s0"
  let ?s2 = "?s1\<lparr>selector := Read_Pipe True False\<rparr>"
  let ?s3 = "nb_read_pipe True False ?s2"
  let ?s4 = "?s3\<lparr>selector := Write_Socket\<rparr>"
  let ?s5 = "?s4\<lparr>selector := Selecting\<rparr>"
  note simps = Let_def NB_Blackadder_new_def nb_enqueue_def nb_read_pipe_def nb_select_def nb_read_socket_def nb_write_socket_def
  have "nb_step ?s0 ?s1" by (rule nb_step.enqueue)
  moreover have "nb_step ?s1 ?s2" by (rule nb_step.select [of _ False]) (simp_all add: simps)
  moreover have "nb_step ?s2 ?s3" by (rule nb_step.read_pipe) simp
  moreover have "nb_step ?s3 ?s4" by (rule nb_step.read_socket [of _ False]) (simp_all add: simps)
  moreover have "nb_step ?s4 ?s5" by (rule nb_step.write_socket [of _ False]) (simp_all add: simps)
  moreover have "nb_step ?s5 ex_refused"
    using nb_step.arrive [of ?s5 ex_datagram] by (simp add: ex_refused_def simps)
  ultimately show ?thesis by (meson converse_rtranclp_into_rtranclp r_into_rtranclp)
qed

lemma ex_unseen_steps: "nb_steps (NB_Blackadder_new 3 7) ex_unseen"
proof -
  let ?s0 = "NB_Blackadder_new 3 7"
  let ?s1 = "?s0\<lparr>nb_socket_in := [ex_datagram]\<rparr>"
  let ?s2 = "?s1\<lparr>selector := Read_Pipe False True\<rparr>"
  let ?s3 = "?s2\<lparr>selector := Read_Socket True\<rparr>"
  note simps = Let_def NB_Blackadder_new_def nb_read_pipe_def nb_select_def nb_read_socket_def
  have "nb_step ?s0 ?s1" using nb_step.arrive [of ?s0 ex_datagram] by (simp add: simps)
  moreover have "nb_step ?s1 ?s2" by (rule nb_step.select [of _ False]) (simp_all add: simps)
  moreover have "nb_step ?s2 ?s3" using nb_step.read_pipe [of ?s2 False True] by (simp add: nb_read_pipe_def)
  moreover have "nb_read_socket True ?s3 = Some ex_unseen"
  proof -
    obtain ev where "nb_event ex_datagram = Some ev" using ex_event(1) by blast
    with ex_event(2) show ?thesis by (simp add: nb_read_socket_def ex_unseen_def NB_Blackadder_new_def)
  qed
  then have "nb_step ?s3 ex_unseen" by (intro nb_step.read_socket [of _ True]) simp_all
  ultimately show ?thesis by (meson converse_rtranclp_into_rtranclp r_into_rtranclp)
qed

subsection \<open>Properties\<close>



text \<open>
  C27. When an event arrives while the selector waits for a full socket, \<^verbatim>\<open>select\<close> clears the
  set of sockets to write, and only a write sets it again: the messages already queued are never sent,
  whatever the threads do afterwards, because the pipe is written for the first message in the queue
  only.
\<close>

theorem selector_stalls:
  assumes "selector s = Selecting" and "write_set s" and "output_queue s \<noteq> []" and "pipe_bytes s = 0"
    and "nb_socket_in s = d # ds" and "d \<noteq> []" and "nb_event d = Some ev"
  shows "\<exists>t. nb_steps s t \<and> output_queue t = output_queue s \<and> event_queue t = event_queue s @ [ev] \<and>
    (\<forall>u. nb_steps t u \<longrightarrow> (\<exists>more. output_queue u = output_queue s @ more))"
proof -
  let ?s1 = "s\<lparr>write_set := False, selector := Read_Pipe False True\<rparr>"
  let ?s2 = "?s1\<lparr>selector := Read_Socket True\<rparr>"
  let ?t = "?s2\<lparr>nb_socket_in := ds, event_queue := event_queue s @ [ev], nb_received := nb_received s @ [ev],
    worker := (if worker s = W_Waiting then W_Testing else worker s), selector := Write_Socket\<rparr>"
  have "nb_step s ?s1" by (rule nb_step.select [of _ False]) (use assms in \<open>simp_all add: nb_select_def Let_def\<close>)
  moreover have "nb_step ?s1 ?s2" using nb_step.read_pipe [of ?s1 False True] by (simp add: nb_read_pipe_def)
  moreover have "nb_step ?s2 ?t" by (rule nb_step.read_socket [of _ True]) (use assms in \<open>simp_all add: nb_read_socket_def\<close>)
  ultimately have "nb_steps s ?t" by (meson converse_rtranclp_into_rtranclp r_into_rtranclp)
  moreover have "nb_stalled ?t" using assms by (simp add: nb_stalled_def)
  ultimately have "nb_steps s ?t \<and> (\<forall>u. nb_steps ?t u \<longrightarrow> (\<exists>more. output_queue u = output_queue ?t @ more))"
    using nb_stalled_steps [of ?t] by blast
  then show ?thesis by (intro exI [of _ ?t] conjI) simp_all
qed

lemma selector_stalls_witness:
  "\<exists>t. nb_steps (NB_Blackadder_new 3 7) t \<and> output_queue t = [ex_msg] \<and> (\<nexists>u. nb_steps t u \<and> output_queue u = [])"
proof -
  have "\<exists>t. nb_steps ex_refused t \<and> output_queue t = output_queue ex_refused \<and>
      event_queue t = event_queue ex_refused @ [the (nb_event ex_datagram)] \<and>
      (\<forall>u. nb_steps t u \<longrightarrow> (\<exists>more. output_queue u = output_queue ex_refused @ more))"
    by (rule selector_stalls [of ex_refused ex_datagram "[]"]) (use ex_event in \<open>simp_all add: ex_refused_def NB_Blackadder_new_def\<close>)
  then obtain t where t: "nb_steps ex_refused t" "output_queue t = output_queue ex_refused"
    "\<forall>u. nb_steps t u \<longrightarrow> (\<exists>more. output_queue u = output_queue ex_refused @ more)" by blast
  have "output_queue ex_refused = [ex_msg]" by (simp add: ex_refused_def)
  then have "\<forall>u. nb_steps t u \<longrightarrow> output_queue u \<noteq> []" using t(3) by fastforce
  moreover have "nb_steps (NB_Blackadder_new 3 7) t" using ex_refused_steps t(1) by (rule rtranclp_trans)
  moreover have "output_queue t = [ex_msg]" using t(2) \<open>output_queue ex_refused = [ex_msg]\<close> by simp
  ultimately show ?thesis by blast
qed

text \<open>
  C28. The worker waits for its signal without looking at the queue: an event that arrives while the
  worker is between two waits stays in the queue, undelivered, until another event arrives.
\<close>

theorem worker_misses_signal:
  assumes "worker s = W_Start" and "event_queue s \<noteq> []" and "t = nb_worker_wait s"
  shows "nb_step s t \<and> (\<forall>u. nb_steps t u \<and> nb_received u = nb_received t \<longrightarrow>
    nb_called u = nb_called s \<and> event_queue u = event_queue s)"
proof -
  have "nb_step s t" using nb_step.worker_wait [OF assms(1)] assms(3) by simp
  moreover have "nb_called u = nb_called t \<and> event_queue u = event_queue t"
    if "nb_steps t u" "nb_received u = nb_received t" for u
    using nb_waiting_steps [OF that(1) _ that(2)] assms(3) by (simp add: nb_worker_wait_def)
  ultimately show ?thesis using assms(3) by (auto simp: nb_worker_wait_def)
qed

lemma worker_misses_signal_witness:
  "nb_steps (NB_Blackadder_new 3 7) ex_unseen \<and> (\<nexists>u. nb_steps (nb_worker_wait ex_unseen) u \<and>
     nb_received u = nb_received ex_unseen \<and> nb_called u \<noteq> [])"
proof -
  have "\<forall>u. nb_steps (nb_worker_wait ex_unseen) u \<and> nb_received u = nb_received (nb_worker_wait ex_unseen) \<longrightarrow> nb_called u = nb_called ex_unseen"
    using worker_misses_signal [OF _ _ refl, of ex_unseen] by (simp add: ex_unseen_def NB_Blackadder_new_def)
  then show ?thesis using ex_unseen_steps by (simp add: ex_unseen_def NB_Blackadder_new_def nb_worker_wait_def)
qed

end
