(* ===== verification/BA_TopologyManager.thy ===== *)
theory BA_TopologyManager
  imports BA_Library "HOL-Library.List_Lexorder"
begin

text \<open>
  The topology manager \<^verbatim>\<open>TopologyManager/tm.cpp\<close> with its graph
  \<^verbatim>\<open>TopologyManager/tm_igraph.cpp\<close>: it is told by the rendezvous element whom to connect,
  finds a publisher for every subscriber, makes a forwarding identifier of the links on the way and tells
  every publisher with it to start or stop.

  The graph is igraph's: the attributes read from the topology file, the shortest path between two
  vertices and the edge between two neighbours are the fields of \<open>igraph\<close>, a parameter. The
  extensions (QoS, resiliency, traffic engineering) are off here.
  \<^verbatim>\<open>std::set\<close> and \<^verbatim>\<open>std::map\<close> iterate in the order of the strings.
  \<^verbatim>\<open>lib/bitvector.cpp\<close> is the code of \<^verbatim>\<open>src/ba_bitvector.cc\<close> without its
  assertions, and the operations of \<open>BA_Bitvector\<close> stand for it; its constructor from a string is below.
\<close>

subsection \<open>The graph\<close>

text \<open>
  Vertex \<open>i\<close> carries the node identifier \<open>ig_NODEID ! i\<close> and the internal link identifier
  \<open>ig_iLID ! i\<close>; edge \<open>e\<close> the link identifier \<open>ig_LID ! e\<close>, all as text.
  \<open>ig_path u v\<close> is \<^verbatim>\<open>igraph_get_shortest_paths\<close>, the vertices from \<open>u\<close> to \<open>v\<close>,
  none if there is no path; \<open>ig_eid u v\<close> is \<^verbatim>\<open>igraph_get_eid\<close>, which fails without an edge.
\<close>

record igraph =
  ig_NODEID :: "bstr list"
  ig_iLID :: "string list"
  ig_LID :: "string list"
  ig_path :: "nat \<Rightarrow> nat \<Rightarrow> nat list"
  ig_eid :: "nat \<Rightarrow> nat \<Rightarrow> nat option"

record tm_graph =
  tm_nodeID :: bstr
  reverse_node_index :: "(bstr, nat) htab"
  nodeID_iLID :: "(bstr, bitvec) htab"
  vertex_iLID :: "(nat, bitvec) htab"
  reverse_edge_index :: "(string, nat) htab"
  edge_LID :: "(nat, bitvec) htab"

text \<open>
  \<^verbatim>\<open>Bitvector(string &)\<close> allocates a word per character but clears as many bytes: the
  words the vector uses must be among the whole words cleared (for one to three characters they are not).
\<close>

fun set_ones :: "string \<Rightarrow> bitvec \<Rightarrow> bitvec" where
  "set_ones [] v = v"
| "set_ones (c # cs) v = set_ones cs (if c = CHR ''1'' then set_bit_at (int (length cs)) True v else v)"

definition Bitvector_of_string :: "string \<Rightarrow> bitvec option" where
  "Bitvector_of_string x = (let v = \<lparr>bv_max = int (length x) - 1, bv_data = replicate (length x div 4) 0\<rparr> in
     if nwords v \<le> length x div 4 then Some (set_ones x v) else None)"

definition add_node :: "igraph \<Rightarrow> nat \<Rightarrow> tm_graph \<Rightarrow> tm_graph option" where
  "add_node g i t = do {
     ilid \<leftarrow> Bitvector_of_string (ig_iLID g ! i);
     Some (t\<lparr>reverse_node_index := hm_find_insert (ig_NODEID g ! i) i (reverse_node_index t),
             nodeID_iLID := hm_find_insert (ig_NODEID g ! i) ilid (nodeID_iLID t),
             vertex_iLID := hm_find_insert i ilid (vertex_iLID t)\<rparr>)
   }"

definition add_edge :: "igraph \<Rightarrow> nat \<Rightarrow> tm_graph \<Rightarrow> tm_graph option" where
  "add_edge g i t = do {
     lid \<leftarrow> Bitvector_of_string (ig_LID g ! i);
     Some (t\<lparr>reverse_edge_index := hm_find_insert (ig_LID g ! i) i (reverse_edge_index t),
             edge_LID := hm_find_insert i lid (edge_LID t)\<rparr>)
   }"

text \<open>\<^verbatim>\<open>readTopology\<close> behind the parsing of the file: the tables are filled from the attributes.\<close>

definition readTopology :: "igraph \<Rightarrow> bstr \<Rightarrow> tm_graph option" where
  "readTopology g TM = do {
     let t = \<lparr>tm_nodeID = TM, reverse_node_index = [], nodeID_iLID = [], vertex_iLID = [],
       reverse_edge_index = [], edge_LID = []\<rparr>;
     t \<leftarrow> fold_opt (add_node g) [0..<length (ig_NODEID g)] t;
     fold_opt (add_edge g) [0..<length (ig_LID g)] t
   }"

subsection \<open>Forwarding identifiers\<close>

abbreviation (input) UINT_MAX :: nat where "UINT_MAX \<equiv> 4294967295"

text \<open>The loop that collects the links of a path.\<close>

fun or_links :: "igraph \<Rightarrow> tm_graph \<Rightarrow> nat list \<Rightarrow> bitvec \<Rightarrow> bitvec option" where
  "or_links g t (u # v # vs) resultFID = do {
     eid \<leftarrow> ig_eid g u v;
     lid \<leftarrow> hm_get (edge_LID t) eid;
     r \<leftarrow> bv_or resultFID lid;
     or_links g t (v # vs) (bv_store resultFID r)
   }"
| "or_links g t _ resultFID = Some resultFID"

definition numberOfHops :: "nat list \<Rightarrow> nat" where
  "numberOfHops path = (let n = length path mod 2 ^ 32 in if n = 0 then UINT_MAX else n)"

text \<open>\<^verbatim>\<open>calculateFID(source, destination, resultFID, numberOfHops, path)\<close>.\<close>

definition calculateFID_path :: "igraph \<Rightarrow> tm_graph \<Rightarrow> bstr \<Rightarrow> bstr \<Rightarrow> bitvec \<Rightarrow> (bitvec \<times> nat) option" where
  "calculateFID_path g t source destination resultFID = do {
     from \<leftarrow> hm_get (reverse_node_index t) source;
     to \<leftarrow> hm_get (reverse_node_index t) destination;
     let temp_v = ig_path g from to;
     resultFID \<leftarrow> or_links g t temp_v resultFID;
     ilid \<leftarrow> hm_get (nodeID_iLID t) destination;
     r \<leftarrow> bv_or resultFID ilid;
     Some (bv_store resultFID r, numberOfHops temp_v)
   }"

text \<open>The best publisher of a subscriber: the first of those with the fewest hops, if any has a path.\<close>

fun best_publisher :: "igraph \<Rightarrow> tm_graph \<Rightarrow> bstr \<Rightarrow> bstr list \<Rightarrow> nat \<times> bstr \<times> bitvec \<times> bitvec \<Rightarrow> (nat \<times> bstr \<times> bitvec \<times> bitvec) option" where
  "best_publisher g t str2 [] st = Some st"
| "best_publisher g t str2 (str1 # publishers) (minimumNumberOfHops, bestPublisher, bestFID, resultFID) = do {
     (resultFID, hops) \<leftarrow> calculateFID_path g t str1 str2 (bv_clear resultFID);
     best_publisher g t str2 publishers
       (if minimumNumberOfHops > hops then (hops, str1, bv_store bestFID resultFID, resultFID)
        else (minimumNumberOfHops, bestPublisher, bestFID, resultFID))
   }"

type_synonym tm_result = "(bstr, bitvec option) htab"

definition serve_subscriber :: "igraph \<Rightarrow> tm_graph \<Rightarrow> bstr list \<Rightarrow> bstr \<Rightarrow> tm_result \<times> bstr \<times> bitvec \<times> bitvec \<Rightarrow> (tm_result \<times> bstr \<times> bitvec \<times> bitvec) option" where
  "serve_subscriber g t publishers subscriber st = (case st of (result, bestPublisher, bestFID, resultFID) \<Rightarrow> do {
     (minimumNumberOfHops, bestPublisher, bestFID, resultFID) \<leftarrow>
       best_publisher g t subscriber publishers (UINT_MAX, bestPublisher, bestFID, resultFID);
     existing \<leftarrow> hm_get result bestPublisher;
     result \<leftarrow> (case existing of
       Some existingFID \<Rightarrow>
         if minimumNumberOfHops = UINT_MAX then Some (hm_set bestPublisher (Some (bv_copy bestFID)) result)
         else do { f \<leftarrow> bv_or existingFID bestFID; Some (hm_set bestPublisher (Some (bv_store existingFID f)) result) }
     | None \<Rightarrow> Some (hm_set bestPublisher (Some (bv_copy bestFID)) result));
     Some (result, bestPublisher, bestFID, resultFID)
   })"

text \<open>\<^verbatim>\<open>calculateFID(publishers, subscribers, result, path_vectors)\<close>.\<close>

definition calculateFID :: "igraph \<Rightarrow> tm_graph \<Rightarrow> bstr list \<Rightarrow> bstr list \<Rightarrow> tm_result option" where
  "calculateFID g t publishers subscribers = do {
     resultFID \<leftarrow> bv_new (int (FID_LEN * 8));
     bestFID \<leftarrow> bv_new (int (FID_LEN * 8));
     let result = map (\<lambda>publ. (publ, None)) publishers;
     (result, _) \<leftarrow> fold_opt (serve_subscriber g t publishers) subscribers (result, [], bestFID, resultFID);
     Some result
   }"

text \<open>
  \<^verbatim>\<open>calculateFID(source, destination)\<close> reads the identifiers as text, 256 characters of
  each: the attribute must be that long, its terminating null included.
\<close>

definition attribute_bits :: "string \<Rightarrow> string option" where
  "attribute_bits s = (if 255 \<le> length s then Some (take (FID_LEN * 8) (s @ [CHR 0x00])) else None)"

fun or_attributes :: "igraph \<Rightarrow> nat list \<Rightarrow> bitvec \<Rightarrow> bitvec option" where
  "or_attributes g (u # v # vs) result = do {
     eid \<leftarrow> ig_eid g u v;
     LID \<leftarrow> attribute_bits (ig_LID g ! eid);
     or_attributes g (v # vs) (set_ones LID result)
   }"
| "or_attributes g _ result = Some result"

definition calculateFID_to :: "igraph \<Rightarrow> tm_graph \<Rightarrow> bstr \<Rightarrow> bstr \<Rightarrow> bitvec option" where
  "calculateFID_to g t source destination = do {
     result \<leftarrow> bv_new (int (FID_LEN * 8));
     from \<leftarrow> hm_get (reverse_node_index t) source;
     to \<leftarrow> hm_get (reverse_node_index t) destination;
     result \<leftarrow> or_attributes g (ig_path g from to) result;
     iLID \<leftarrow> attribute_bits (ig_iLID g ! to);
     Some (set_ones iLID result)
   }"

subsection \<open>Requests\<close>

definition resp_bin_prefix_id :: bstr where
  "resp_bin_prefix_id = hex_to_chararray (replicate (PURSUIT_ID_LEN * 2 - 1) 70 @ [68])"

definition std_set :: "bstr list \<Rightarrow> bstr list" where
  "std_set xs = foldl (\<lambda>s x. insort_insert x s) [] xs"

fun read_nodes :: "nat \<Rightarrow> packet \<Rightarrow> nat \<Rightarrow> bstr list option" where
  "read_nodes 0 request i = Some []"
| "read_nodes (Suc n) request i = do {
     nodeID \<leftarrow> rdn request i PURSUIT_ID_LEN;
     xs \<leftarrow> read_nodes n request (i + PURSUIT_ID_LEN);
     Some (nodeID # xs)
   }"

text \<open>A \<^verbatim>\<open>memcpy\<close> out of the request: the cells as they are, written or not.\<close>

definition rdc :: "packet \<Rightarrow> nat \<Rightarrow> nat \<Rightarrow> cell list option" where
  "rdc p i n = (if i + n \<le> length (pk_data p) then Some (take n (drop i (pk_data p))) else None)"

text \<open>A response to a node: along a path to it, under its own notification identifier.\<close>

definition respond :: "igraph \<Rightarrow> tm_graph \<Rightarrow> bstr \<Rightarrow> cell list \<Rightarrow> blackadder \<Rightarrow> blackadder option" where
  "respond g t node response ba = do {
     FID_to_node \<leftarrow> calculateFID_to g t (tm_nodeID t) node;
     fid \<leftarrow> fid_mem FID_to_node;
     (_, ba) \<leftarrow> lib_publish_data (resp_bin_prefix_id @ node) IMPLICIT_RENDEZVOUS (Some fid) response ba;
     Some ba
   }"

definition notify_publisher :: "igraph \<Rightarrow> tm_graph \<Rightarrow> cell list \<Rightarrow> bstr \<times> bitvec option \<Rightarrow> blackadder \<Rightarrow> blackadder option" where
  "notify_publisher g t ids entry ba = (case entry of
     (publisher, None) \<Rightarrow> respond g t publisher (Some STOP_PUBLISH # ids) ba
   | (publisher, Some FID) \<Rightarrow> do {
       fid \<leftarrow> fid_mem FID;
       respond g t publisher (Some START_PUBLISH # ids @ cells fid) ba
     })"

text \<open>
  \<^verbatim>\<open>MATCH_PUB_SUBS\<close>. The request lies in memory with \<open>request_len\<close> bytes of its own.
  The copy of the identifiers starts behind the first two bytes of the part that \<^verbatim>\<open>ids_size\<close>
  measures, and reads two bytes past the request; the response is made of that part itself.
\<close>

definition handle_match :: "igraph \<Rightarrow> tm_graph \<Rightarrow> packet \<Rightarrow> nat \<Rightarrow> blackadder \<Rightarrow> blackadder option" where
  "handle_match g t request request_len ba = do {
     no_publishers \<leftarrow> rd8 request 2;
     publishers \<leftarrow> read_nodes (unat no_publishers) request 3;
     let n1 = unat no_publishers * PURSUIT_ID_LEN;
     no_subscribers \<leftarrow> rd8 request (3 + n1);
     subscribers \<leftarrow> read_nodes (unat no_subscribers) request (4 + n1);
     let ids_index = 4 + n1 + unat no_subscribers * PURSUIT_ID_LEN;
     if request_len < ids_index then None else do {
       let ids_size = request_len - ids_index;
       no_ids \<leftarrow> rd8 request ids_index;
       IDLen \<leftarrow> rd8 request (ids_index + 1);
       ids \<leftarrow> rdc request (ids_index + 2) ids_size;
       ids_str \<leftarrow> rdn \<lparr>pk_data = ids, pk_anno = None\<rparr> 0 (unat IDLen * PURSUIT_ID_LEN);
       result \<leftarrow> calculateFID g t (std_set publishers) (std_set subscribers);
       response_ids \<leftarrow> rdc request ids_index (request_len - ids_index);
       fold_opt (notify_publisher g t response_ids) result ba
     }
   }"

text \<open>
  \<^verbatim>\<open>SCOPE_PUBLISHED\<close> and \<^verbatim>\<open>SCOPE_UNPUBLISHED\<close>: the response has room for a
  forwarding identifier that nothing writes; those bytes are sent as they are.
\<close>

definition handle_scope :: "igraph \<Rightarrow> tm_graph \<Rightarrow> byte \<Rightarrow> packet \<Rightarrow> nat \<Rightarrow> blackadder \<Rightarrow> blackadder option" where
  "handle_scope g t request_type request request_len ba = do {
     no_subscribers \<leftarrow> rd8 request 2;
     subscribers \<leftarrow> read_nodes (unat no_subscribers) request 3;
     let ids_index = 3 + unat no_subscribers * PURSUIT_ID_LEN;
     fold_opt (\<lambda>nodeID ba. if request_len < ids_index then None else do {
       ids \<leftarrow> rdc request ids_index (request_len - ids_index);
       respond g t nodeID (Some request_type # ids @ replicate FID_LEN None) ba
     }) subscribers ba
   }"

text \<open>
  \<^verbatim>\<open>handleRequest\<close> on an event's data, behind which \<open>slack\<close> may be read. Any other type is
  reported and ignored; the packets of quality-of-service metadata, type 108, belong to \<open>BA_TMQoS\<close>.
\<close>

definition handleRequest :: "igraph \<Rightarrow> tm_graph \<Rightarrow> cell list \<Rightarrow> cell list \<Rightarrow> blackadder \<Rightarrow> blackadder option" where
  "handleRequest g t data slack ba = (let request = \<lparr>pk_data = data @ slack, pk_anno = None\<rparr> in do {
     request_type \<leftarrow> rd8 request 0;
     strategy \<leftarrow> rd8 request 1;
     if request_type = MATCH_PUB_SUBS then handle_match g t request (length data) ba
     else if request_type = SCOPE_PUBLISHED \<or> request_type = SCOPE_UNPUBLISHED
     then handle_scope g t request_type request (length data) ba
     else Some ba
   })"

text \<open>
  One turn of \<^verbatim>\<open>event_listener_loop\<close>: an event that is not data is reported and ignored.
  \<open>None\<close> as outcome ends the loop. (The scope of an event's identifier selects the extensions' handlers,
  which are off: everything is a request.)
\<close>

definition tm_event :: "igraph \<Rightarrow> tm_graph \<Rightarrow> cell list \<Rightarrow> cell list \<Rightarrow> blackadder \<Rightarrow> blackadder option option" where
  "tm_event g t d slack ba = do {
     ev \<leftarrow> getEvent d Event_new;
     if ev_type ev = UNDEF_EVENT then Some None
     else if length (ev_id ev) < PURSUIT_ID_LEN then None
     else if ev_type ev = PUBLISHED_DATA then do {
       data \<leftarrow> ev_data ev;
       map_option Some (handleRequest g t data slack ba)
     } else Some (Some ba)
   }"

end
