(* ===== verification/BA_Topology_Safe.thy ===== *)
theory BA_Topology_Safe
  imports BA_TopologyManager
begin

text \<open>
  What the topology manager's answers are worth. \<open>topology_ok\<close> is the documented behaviour of the graph library and the
  shape of the topology file; from it follow the tables (\<open>tables_ok\<close>), the identifier of one route (\<open>route_fid\<close>),
  the choice of the nearest publisher, the identifiers of all publishers (\<open>result_ok\<close>), and the messages a
  request makes the manager send. The library of vectors is that of \<open>BA_Bitvector\<close> and \<open>BA_Forwarder\<close>: the manager's
  identifiers satisfy \<open>is_fid\<close>, which is what the forwarder tests links against.
\<close>

subsection \<open>What the graph must satisfy\<close>

text \<open>
  The documented behaviour of igraph's paths: they start and end where they should, visit vertices of
  the graph, none twice, along edges. The identifiers in the file have their lengths.
\<close>

fun joined :: "igraph \<Rightarrow> nat list \<Rightarrow> bool" where
  "joined g (u # v # vs) \<longleftrightarrow> (case ig_eid g u v of Some e \<Rightarrow> e < length (ig_LID g) | None \<Rightarrow> False) \<and> joined g (v # vs)"
| "joined g _ \<longleftrightarrow> True"

definition path_law :: "igraph \<Rightarrow> nat \<Rightarrow> nat \<Rightarrow> nat list \<Rightarrow> bool" where
  "path_law g u v p \<longleftrightarrow> joined g p \<and> length p \<le> length (ig_NODEID g) \<and> (p \<noteq> [] \<longrightarrow> hd p = u \<and> last p = v)"

definition topology_ok :: "igraph \<Rightarrow> bool" where
  "topology_ok g \<longleftrightarrow> length (ig_iLID g) = length (ig_NODEID g) \<and> distinct (ig_NODEID g) \<and>
     length (ig_NODEID g) < UINT_MAX \<and> (\<forall>x \<in> set (ig_NODEID g). length x = 8) \<and>
     (\<forall>s \<in> set (ig_iLID g) \<union> set (ig_LID g). length s = 256) \<and>
     (\<forall>u < length (ig_NODEID g). \<forall>v < length (ig_NODEID g). path_law g u v (ig_path g u v))"

subsection \<open>Vectors from text\<close>

definition text_bit :: "string \<Rightarrow> nat \<Rightarrow> bool" where
  "text_bit s i \<longleftrightarrow> s ! (255 - i) = CHR ''1''"

text \<open>A link identifier as the library keeps it: 256 bits in an array of eight words or more.\<close>

definition is_lid :: "bitvec \<Rightarrow> string \<Rightarrow> bool" where
  "is_lid v s \<longleftrightarrow> bv_max v = 255 \<and> 8 \<le> length (bv_data v) \<and> (\<forall>i < 256. bv_bit v i = text_bit s i)"

lemma set_ones_ok:
  assumes "bv_max v = 255" and "8 \<le> length (bv_data v)" and "length s \<le> 256"
  shows "bv_max (set_ones s v) = 255 \<and> length (bv_data (set_ones s v)) = length (bv_data v) \<and>
    (\<forall>i < 256. bv_bit (set_ones s v) i = (bv_bit v i \<or> i < length s \<and> s ! (length s - 1 - i) = CHR ''1''))"
  using assms
proof (induction s arbitrary: v)
  case (Cons c cs)
  let ?v = "if c = CHR ''1'' then set_bit_at (int (length cs)) True v else v"
  have idx: "i < 256 \<Longrightarrow> i div 32 < length (bv_data v)" for i
    using Cons.prems(2) less_mult_imp_div_less [of i 8 32] by simp
  have bit: "bv_bit ?v i = (bv_bit v i \<or> i = length cs \<and> c = CHR ''1'')" if "i < 256" for i
    using bit_set_bit_at [of "length cs" v i] idx [OF that] idx [of "length cs"] Cons.prems(3) by auto
  have "bv_max ?v = 255" "length (bv_data ?v) = length (bv_data v)" using Cons.prems by simp_all
  with Cons.IH [of ?v] Cons.prems have ih: "bv_max (set_ones cs ?v) = 255" "length (bv_data (set_ones cs ?v)) = length (bv_data v)"
    "\<forall>i < 256. bv_bit (set_ones cs ?v) i = (bv_bit ?v i \<or> i < length cs \<and> cs ! (length cs - 1 - i) = CHR ''1'')" by simp_all
  have "bv_bit (set_ones cs ?v) i = (bv_bit v i \<or> i < length (c # cs) \<and> (c # cs) ! (length (c # cs) - 1 - i) = CHR ''1'')"
    if "i < 256" for i
    using ih(3) bit [OF that] that by (cases "i < length cs"; cases "i = length cs") (auto simp: nth_Cons')
  with ih(1,2) show ?case by simp
qed simp

lemma set_ones_fid:
  assumes "is_fid v" and "length s = 256"
  shows "is_fid (set_ones s v)" "\<forall>i < 256. bv_bit (set_ones s v) i = (bv_bit v i \<or> text_bit s i)"
  using set_ones_ok [of v s] assms by (simp_all add: is_fid_def text_bit_def)

lemma Bitvector_of_string_ok:
  assumes "length s = 256"
  shows "\<exists>v. Bitvector_of_string s = Some v \<and> is_lid v s"
proof -
  let ?v = "\<lparr>bv_max = 255, bv_data = replicate 64 0\<rparr>"
  have z: "\<not> bv_bit ?v i" if "i < 256" for i
  proof -
    have "i div 32 < 64" using that by (simp add: less_mult_imp_div_less)
    then show ?thesis by (simp add: bv_bit_def)
  qed
  have "nwords ?v = 8" by (simp add: nwords_def max_word_def)
  then have "Bitvector_of_string s = Some (set_ones s ?v)" using assms by (simp add: Bitvector_of_string_def Let_def)
  with set_ones_ok [of ?v s] assms z show ?thesis by (auto simp: is_lid_def text_bit_def)
qed

lemma fid_or_vec:
  assumes "is_fid a" and lb: "bv_max b = 255" "8 \<le> length (bv_data b)"
  shows "\<exists>r. bv_or a b = Some r \<and> is_fid r \<and> bv_store a r = r \<and> (\<forall>i < 256. bv_bit r i = (bv_bit a i \<or> bv_bit b i))"
proof -
  have c: "is_fid (bv_copy a)" using assms(1) by (rule fid_copy)
  have wb: "bv_wf b" using lb by (simp add: bv_wf_def nwords_def max_word_def)
  obtain d where d: "map2_words (OR) 8 (bv_data (bv_copy a)) (bv_data b) = Some d"
    "length d = length (bv_data (bv_copy a))"
    "\<And>i. i < 256 \<Longrightarrow> bv_bit ((bv_copy a)\<lparr>bv_data := d\<rparr>) i = (bv_bit (bv_copy a) i \<or> bv_bit b i)"
  proof (rule words_op_bits [of "bv_copy a" b "(OR)" "(\<or>)"])
    show "bv_wf (bv_copy a)" "bv_wf b" "bv_max b = bv_max (bv_copy a)" using fid_wf [OF c] wb lb fid_max [OF c] by simp_all
  qed (use fid_nwords [OF c] in \<open>auto simp: bit_simps\<close>)
  let ?r = "(bv_copy a)\<lparr>bv_data := d\<rparr>"
  have "bv_or a b = Some ?r" using d(1) lb fid_max [OF c] fid_nwords [OF c] by (simp add: bv_or_def bv_or_eq_def)
  moreover have f: "is_fid ?r" using c d(2) by (simp add: is_fid_def)
  moreover have "bv_store a ?r = ?r"
    using f fid_nwords [OF f] by (simp add: bv_store_def is_fid_def nwords_def)
  moreover have "bv_bit ?r i = (bv_bit a i \<or> bv_bit b i)" if "i < 256" for i
    using d(3) [OF that] that bv_copy_bit [OF fid_wf [OF assms(1)], of i] fid_nwords [OF assms(1)] by simp
  ultimately show ?thesis by blast
qed

lemma fid_or_lid:
  "is_fid a \<Longrightarrow> is_lid b s \<Longrightarrow>
   \<exists>r. bv_or a b = Some r \<and> is_fid r \<and> bv_store a r = r \<and> (\<forall>i < 256. bv_bit r i = (bv_bit a i \<or> text_bit s i))"
  using fid_or_vec [of a b] by (auto simp: is_lid_def)

lemma fid_or:
  "is_fid a \<Longrightarrow> is_fid b \<Longrightarrow>
   \<exists>r. bv_or a b = Some r \<and> is_fid r \<and> bv_store a r = r \<and> (\<forall>i < 256. bv_bit r i = (bv_bit a i \<or> bv_bit b i))"
  using fid_or_vec [of a b] by (auto simp: is_fid_def)

subsection \<open>The tables\<close>

definition vertex :: "igraph \<Rightarrow> bstr \<Rightarrow> nat" where
  "vertex g x = length (takeWhile (\<lambda>y. y \<noteq> x) (ig_NODEID g))"

lemma vertex_ok:
  assumes "x \<in> set (ig_NODEID g)"
  shows "vertex g x < length (ig_NODEID g)" "ig_NODEID g ! vertex g x = x"
proof -
  obtain ys zs where d: "ig_NODEID g = ys @ x # zs" "x \<notin> set ys" using split_list_first [OF assms] by blast
  then have "takeWhile (\<lambda>y. y \<noteq> x) (ig_NODEID g) = ys" by (auto simp: takeWhile_tail)
  then show "vertex g x < length (ig_NODEID g)" "ig_NODEID g ! vertex g x = x" using d by (simp_all add: vertex_def)
qed

definition tables_ok :: "igraph \<Rightarrow> tm_graph \<Rightarrow> bool" where
  "tables_ok g t \<longleftrightarrow>
     (\<forall>i < length (ig_NODEID g). hm_get (reverse_node_index t) (ig_NODEID g ! i) = Some i \<and>
        (\<exists>v. hm_get (nodeID_iLID t) (ig_NODEID g ! i) = Some v \<and> is_lid v (ig_iLID g ! i))) \<and>
     (\<forall>e < length (ig_LID g). \<exists>v. hm_get (edge_LID t) e = Some v \<and> is_lid v (ig_LID g ! e))"

lemma keys_hm_set_new: "k \<notin> set (hm_keys m) \<Longrightarrow> hm_keys (hm_set k w m) = hm_keys m @ [k]"
  by (induction k w m rule: hm_set.induct) auto

lemma add_nodes_ok:
  assumes "topology_ok g" "n \<le> length (ig_NODEID g)" "reverse_node_index t = []" "nodeID_iLID t = []"
  shows "\<exists>t'. fold_opt (add_node g) [0..<n] t = Some t' \<and> tm_nodeID t' = tm_nodeID t \<and> edge_LID t' = edge_LID t \<and>
    hm_keys (reverse_node_index t') = take n (ig_NODEID g) \<and> hm_keys (nodeID_iLID t') = take n (ig_NODEID g) \<and>
    (\<forall>i < n. hm_get (reverse_node_index t') (ig_NODEID g ! i) = Some i \<and>
        (\<exists>v. hm_get (nodeID_iLID t') (ig_NODEID g ! i) = Some v \<and> is_lid v (ig_iLID g ! i)))"
  using assms(2)
proof (induction n)
  case 0
  then show ?case using assms(3,4) by simp
next
  case (Suc n)
  then obtain t' where t': "fold_opt (add_node g) [0..<n] t = Some t'" "tm_nodeID t' = tm_nodeID t" "edge_LID t' = edge_LID t"
    "hm_keys (reverse_node_index t') = take n (ig_NODEID g)" "hm_keys (nodeID_iLID t') = take n (ig_NODEID g)"
    "\<forall>i < n. hm_get (reverse_node_index t') (ig_NODEID g ! i) = Some i \<and>
        (\<exists>v. hm_get (nodeID_iLID t') (ig_NODEID g ! i) = Some v \<and> is_lid v (ig_iLID g ! i))" by auto
  let ?x = "ig_NODEID g ! n"
  have d: "distinct (ig_NODEID g)" "length (ig_iLID g ! n) = 256"
    using assms(1) Suc.prems unfolding topology_ok_def by (auto simp: nth_mem)
  then obtain v where v: "Bitvector_of_string (ig_iLID g ! n) = Some v" "is_lid v (ig_iLID g ! n)"
    using Bitvector_of_string_ok by blast
  have new: "?x \<notin> set (take n (ig_NODEID g))"
    using d(1) Suc.prems by (auto simp: in_set_conv_nth nth_eq_iff_index_eq)
  have ne: "ig_NODEID g ! i \<noteq> ?x" if "i < n" for i
    using d(1) Suc.prems that by (simp add: nth_eq_iff_index_eq)
  have g0: "hm_get (reverse_node_index t') ?x = None" "hm_get (nodeID_iLID t') ?x = None"
    using new t'(4,5) by (simp_all add: hm_get_None_iff)
  let ?t = "t'\<lparr>reverse_node_index := hm_set ?x n (reverse_node_index t'), nodeID_iLID := hm_set ?x v (nodeID_iLID t'),
     vertex_iLID := hm_find_insert n v (vertex_iLID t')\<rparr>"
  have "add_node g n t' = Some ?t" using v(1) g0 by (simp add: add_node_def hm_find_insert_def)
  then have "fold_opt (add_node g) [0..<Suc n] t = Some ?t" using t'(1) by (simp add: fold_opt_append)
  moreover have "hm_keys (reverse_node_index ?t) = take (Suc n) (ig_NODEID g)" "hm_keys (nodeID_iLID ?t) = take (Suc n) (ig_NODEID g)"
    using new t'(4,5) Suc.prems by (simp_all add: keys_hm_set_new take_Suc_conv_app_nth)
  moreover have "\<forall>i < Suc n. hm_get (reverse_node_index ?t) (ig_NODEID g ! i) = Some i \<and>
        (\<exists>v. hm_get (nodeID_iLID ?t) (ig_NODEID g ! i) = Some v \<and> is_lid v (ig_iLID g ! i))"
    using t'(6) v(2) ne by (auto simp: less_Suc_eq)
  ultimately show ?case using t'(2,3) by simp
qed

lemma add_edges_ok:
  assumes "topology_ok g" "n \<le> length (ig_LID g)" "edge_LID t = []"
  shows "\<exists>t'. fold_opt (add_edge g) [0..<n] t = Some t' \<and> tm_nodeID t' = tm_nodeID t \<and>
    reverse_node_index t' = reverse_node_index t \<and> nodeID_iLID t' = nodeID_iLID t \<and>
    (\<forall>e. hm_get (edge_LID t') e \<noteq> None \<longrightarrow> e < n) \<and>
    (\<forall>e < n. \<exists>v. hm_get (edge_LID t') e = Some v \<and> is_lid v (ig_LID g ! e))"
  using assms(2)
proof (induction n)
  case 0
  then show ?case using assms(3) by simp
next
  case (Suc n)
  then obtain t' where t': "fold_opt (add_edge g) [0..<n] t = Some t'" "tm_nodeID t' = tm_nodeID t"
    "reverse_node_index t' = reverse_node_index t" "nodeID_iLID t' = nodeID_iLID t"
    "\<forall>e. hm_get (edge_LID t') e \<noteq> None \<longrightarrow> e < n" "\<forall>e < n. \<exists>v. hm_get (edge_LID t') e = Some v \<and> is_lid v (ig_LID g ! e)"
    by auto
  have "length (ig_LID g ! n) = 256" using assms(1) Suc.prems unfolding topology_ok_def by (auto simp: nth_mem)
  then obtain v where v: "Bitvector_of_string (ig_LID g ! n) = Some v" "is_lid v (ig_LID g ! n)"
    using Bitvector_of_string_ok by blast
  have "hm_get (edge_LID t') n = None" using t'(5) by (meson less_irrefl)
  then have "add_edge g n t' = Some (t'\<lparr>reverse_edge_index := hm_find_insert (ig_LID g ! n) n (reverse_edge_index t'),
      edge_LID := hm_set n v (edge_LID t')\<rparr>)" using v(1) by (simp add: add_edge_def hm_find_insert_def)
  then show ?case using t' v(2) by (auto simp: fold_opt_append less_Suc_eq)
qed

lemma readTopology_ok:
  assumes "topology_ok g"
  shows "\<exists>t. readTopology g TM = Some t \<and> tables_ok g t \<and> tm_nodeID t = TM"
proof -
  let ?t = "\<lparr>tm_nodeID = TM, reverse_node_index = [], nodeID_iLID = [], vertex_iLID = [], reverse_edge_index = [], edge_LID = []\<rparr>"
  from add_nodes_ok [OF assms order_refl, of ?t] obtain t1 where t1:
    "fold_opt (add_node g) [0..<length (ig_NODEID g)] ?t = Some t1" "tm_nodeID t1 = TM" "edge_LID t1 = []"
    "\<forall>i < length (ig_NODEID g). hm_get (reverse_node_index t1) (ig_NODEID g ! i) = Some i \<and>
        (\<exists>v. hm_get (nodeID_iLID t1) (ig_NODEID g ! i) = Some v \<and> is_lid v (ig_iLID g ! i))" by auto
  from add_edges_ok [OF assms order_refl t1(3)] t1 show ?thesis by (auto simp: readTopology_def tables_ok_def)
qed

subsection \<open>The links of a path\<close>

fun path_edges :: "igraph \<Rightarrow> nat list \<Rightarrow> nat list" where
  "path_edges g (u # v # vs) = the (ig_eid g u v) # path_edges g (v # vs)"
| "path_edges g _ = []"

definition route :: "igraph \<Rightarrow> bstr \<Rightarrow> bstr \<Rightarrow> nat list" where
  "route g source destination = ig_path g (vertex g source) (vertex g destination)"

text \<open>The bits of a route: those of its links, and of the destination's internal link.\<close>

definition route_bits :: "igraph \<Rightarrow> bstr \<Rightarrow> bstr \<Rightarrow> nat \<Rightarrow> bool" where
  "route_bits g source destination i \<longleftrightarrow>
     (\<exists>e \<in> set (path_edges g (route g source destination)). text_bit (ig_LID g ! e) i) \<or>
     text_bit (ig_iLID g ! vertex g destination) i"

definition route_fid :: "igraph \<Rightarrow> bstr \<Rightarrow> bstr \<Rightarrow> bitvec \<Rightarrow> bool" where
  "route_fid g source destination f \<longleftrightarrow> is_fid f \<and> (\<forall>i < 256. bv_bit f i = route_bits g source destination i)"

lemma or_links_ok:
  assumes "tables_ok g t" "joined g p" "is_fid r"
  shows "\<exists>r'. or_links g t p r = Some r' \<and> is_fid r' \<and>
    (\<forall>i < 256. bv_bit r' i = (bv_bit r i \<or> (\<exists>e \<in> set (path_edges g p). text_bit (ig_LID g ! e) i)))"
  using assms(2,3)
proof (induction p arbitrary: r rule: induct_list012)
  case (3 u v vs)
  then obtain e where e: "ig_eid g u v = Some e" "e < length (ig_LID g)" by (auto split: option.splits)
  then obtain l where l: "hm_get (edge_LID t) e = Some l" "is_lid l (ig_LID g ! e)"
    using assms(1) by (auto simp: tables_ok_def)
  from fid_or_lid [OF 3(4) l(2)] obtain r1 where r1: "bv_or r l = Some r1" "is_fid r1" "bv_store r r1 = r1"
    "\<forall>i < 256. bv_bit r1 i = (bv_bit r i \<or> text_bit (ig_LID g ! e) i)" by blast
  have "joined g (v # vs)" using 3(3) by simp
  from "3.IH"(2) [OF this r1(2)] obtain r2 where r2: "or_links g t (v # vs) r1 = Some r2" "is_fid r2"
    "\<forall>i < 256. bv_bit r2 i = (bv_bit r1 i \<or> (\<exists>e \<in> set (path_edges g (v # vs)). text_bit (ig_LID g ! e) i))" by blast
  then show ?case using e l r1 by (intro exI [of _ r2]) auto
qed auto

lemma or_attributes_ok:
  assumes "topology_ok g" "joined g p" "is_fid r"
  shows "\<exists>r'. or_attributes g p r = Some r' \<and> is_fid r' \<and>
    (\<forall>i < 256. bv_bit r' i = (bv_bit r i \<or> (\<exists>e \<in> set (path_edges g p). text_bit (ig_LID g ! e) i)))"
  using assms(2,3)
proof (induction p arbitrary: r rule: induct_list012)
  case (3 u v vs)
  then obtain e where e: "ig_eid g u v = Some e" "e < length (ig_LID g)" by (auto split: option.splits)
  have l: "length (ig_LID g ! e) = 256" using assms(1) e(2) unfolding topology_ok_def by (auto simp: nth_mem)
  then have a: "attribute_bits (ig_LID g ! e) = Some (ig_LID g ! e)" by (simp add: attribute_bits_def)
  have "joined g (v # vs)" using 3(3) by simp
  from "3.IH"(2) [OF this set_ones_fid(1) [OF 3(4) l]] obtain r2 where
    "or_attributes g (v # vs) (set_ones (ig_LID g ! e) r) = Some r2" "is_fid r2"
    "\<forall>i < 256. bv_bit r2 i = (bv_bit (set_ones (ig_LID g ! e) r) i \<or> (\<exists>e \<in> set (path_edges g (v # vs)). text_bit (ig_LID g ! e) i))" by blast
  then show ?case using e a set_ones_fid(2) [OF 3(4) l] by (intro exI [of _ r2]) auto
qed auto

lemma topology_parts:
  assumes "topology_ok g" "p \<in> set (ig_NODEID g)" "s \<in> set (ig_NODEID g)"
  shows "joined g (route g p s)" "length (route g p s) < UINT_MAX" "length (ig_iLID g ! vertex g s) = 256"
proof -
  have "path_law g (vertex g p) (vertex g s) (route g p s)"
    using assms vertex_ok(1) [OF assms(2)] vertex_ok(1) [OF assms(3)] unfolding topology_ok_def route_def by blast
  then show "joined g (route g p s)" "length (route g p s) < UINT_MAX"
    using assms(1) by (simp_all add: path_law_def topology_ok_def)
  have "vertex g s < length (ig_iLID g)" using assms(1) vertex_ok(1) [OF assms(3)] by (simp add: topology_ok_def)
  then show "length (ig_iLID g ! vertex g s) = 256" using assms(1) nth_mem unfolding topology_ok_def by blast
qed

lemma zero_fid: "\<exists>z. bv_new 256 = Some z \<and> is_fid z \<and> (\<forall>i < 256. \<not> bv_bit z i)"
  by (rule bv_new_fid)

lemma clear_fid: "is_fid v \<Longrightarrow> is_fid (bv_clear v) \<and> (\<forall>i < 256. \<not> bv_bit (bv_clear v) i)"
  using fid_nwords [of v] by (auto simp: is_fid_def bv_clear_def bv_bit_def less_mult_imp_div_less)

lemma store_fid: "is_fid a \<Longrightarrow> bv_store b a = a"
  using fid_nwords [of a] by (simp add: is_fid_def bv_store_def max_word_def)

lemma copy_fid: "is_fid a \<Longrightarrow> bv_copy a = a"
  using fid_nwords [of a] by (simp add: is_fid_def bv_copy_def)

lemma calculateFID_path_ok:
  assumes "topology_ok g" "tables_ok g t" "p \<in> set (ig_NODEID g)" "s \<in> set (ig_NODEID g)" "is_fid r"
  shows "\<exists>f. calculateFID_path g t p s (bv_clear r) = Some (f, numberOfHops (route g p s)) \<and> route_fid g p s f"
proof -
  note vp = vertex_ok [OF assms(3)] and vs = vertex_ok [OF assms(4)] and tp = topology_parts [OF assms(1,3,4)]
  have i: "hm_get (reverse_node_index t) p = Some (vertex g p)" "hm_get (reverse_node_index t) s = Some (vertex g s)"
    using assms(2) vp vs unfolding tables_ok_def by metis+
  obtain l where l: "hm_get (nodeID_iLID t) s = Some l" "is_lid l (ig_iLID g ! vertex g s)"
    using assms(2) vs unfolding tables_ok_def by metis
  from or_links_ok [OF assms(2) tp(1)] clear_fid [OF assms(5)] obtain r1 where
    r1: "or_links g t (route g p s) (bv_clear r) = Some r1" "is_fid r1"
    "\<forall>i < 256. bv_bit r1 i = (\<exists>e \<in> set (path_edges g (route g p s)). text_bit (ig_LID g ! e) i)" by blast
  from fid_or_lid [OF r1(2) l(2)] obtain f where f: "bv_or r1 l = Some f" "is_fid f" "bv_store r1 f = f"
    "\<forall>i < 256. bv_bit f i = (bv_bit r1 i \<or> text_bit (ig_iLID g ! vertex g s) i)" by blast
  have "route_fid g p s f" using f r1(3) by (simp add: route_fid_def route_bits_def)
  then show ?thesis using i l r1(1) f by (simp add: calculateFID_path_def route_def Let_def)
qed

lemma calculateFID_to_ok:
  assumes "topology_ok g" "tables_ok g t" "p \<in> set (ig_NODEID g)" "s \<in> set (ig_NODEID g)"
  shows "\<exists>f. calculateFID_to g t p s = Some f \<and> route_fid g p s f"
proof -
  note vp = vertex_ok [OF assms(3)] and vs = vertex_ok [OF assms(4)] and tp = topology_parts [OF assms(1,3,4)]
  have i: "hm_get (reverse_node_index t) p = Some (vertex g p)" "hm_get (reverse_node_index t) s = Some (vertex g s)"
    using assms(2) vp vs unfolding tables_ok_def by metis+
  obtain z where z: "bv_new 256 = Some z" "is_fid z" "\<forall>i < 256. \<not> bv_bit z i" using zero_fid by blast
  from or_attributes_ok [OF assms(1) tp(1) z(2)] z(3) obtain r1 where
    r1: "or_attributes g (route g p s) z = Some r1" "is_fid r1"
    "\<forall>i < 256. bv_bit r1 i = (\<exists>e \<in> set (path_edges g (route g p s)). text_bit (ig_LID g ! e) i)" by blast
  have a: "attribute_bits (ig_iLID g ! vertex g s) = Some (ig_iLID g ! vertex g s)" using tp(3) by (simp add: attribute_bits_def)
  have "route_fid g p s (set_ones (ig_iLID g ! vertex g s) r1)"
    using set_ones_fid [OF r1(2) tp(3)] r1(3) by (simp add: route_fid_def route_bits_def)
  then show ?thesis using i z(1) r1(1) a by (simp add: calculateFID_to_def route_def Let_def)
qed

subsection \<open>Choosing publishers\<close>

text \<open>
  The choice of a publisher for every subscriber, over any function that computes a route's identifier and number of
  hops: \<open>best_of\<close>, \<open>serve_of\<close> and \<open>all_of\<close> are the code's loops with that function as an
  argument. \<open>H s p\<close> are the hops from the publisher \<open>p\<close> to the subscriber \<open>s\<close>.
\<close>

fun best_of :: "(bstr \<Rightarrow> bstr \<Rightarrow> bitvec \<Rightarrow> (bitvec \<times> nat) option) \<Rightarrow> bstr \<Rightarrow> bstr list \<Rightarrow> nat \<times> bstr \<times> bitvec \<times> bitvec \<Rightarrow> (nat \<times> bstr \<times> bitvec \<times> bitvec) option" where
  "best_of path s [] st = Some st"
| "best_of path s (p # ps) (m, b, bf, r) = do {
     (f, h) \<leftarrow> path p s (bv_clear r);
     best_of path s ps (if m > h then (h, p, bv_store bf f, f) else (m, b, bf, f))
   }"

definition serve_of :: "(bstr \<Rightarrow> bstr \<Rightarrow> bitvec \<Rightarrow> (bitvec \<times> nat) option) \<Rightarrow> bstr list \<Rightarrow> bstr \<Rightarrow> tm_result \<times> bstr \<times> bitvec \<times> bitvec \<Rightarrow> (tm_result \<times> bstr \<times> bitvec \<times> bitvec) option" where
  "serve_of path publishers s st = (case st of (res, b, bf, r) \<Rightarrow> do {
     (m, b, bf, r) \<leftarrow> best_of path s publishers (UINT_MAX, b, bf, r);
     existing \<leftarrow> hm_get res b;
     res \<leftarrow> (case existing of
       Some f0 \<Rightarrow>
         if m = UINT_MAX then Some (hm_set b (Some (bv_copy bf)) res)
         else do { f \<leftarrow> bv_or f0 bf; Some (hm_set b (Some (bv_store f0 f)) res) }
     | None \<Rightarrow> Some (hm_set b (Some (bv_copy bf)) res));
     Some (res, b, bf, r)
   })"

definition all_of :: "(bstr \<Rightarrow> bstr \<Rightarrow> bitvec \<Rightarrow> (bitvec \<times> nat) option) \<Rightarrow> bstr list \<Rightarrow> bstr list \<Rightarrow> tm_result option" where
  "all_of path publishers subs = do {
     r \<leftarrow> bv_new (int (FID_LEN * 8));
     bf \<leftarrow> bv_new (int (FID_LEN * 8));
     (res, _) \<leftarrow> fold_opt (serve_of path publishers) subs (map (\<lambda>p. (p, None)) publishers, [], bf, r);
     Some res
   }"

definition nearest_by :: "(bstr \<Rightarrow> bstr \<Rightarrow> nat) \<Rightarrow> bstr list \<Rightarrow> bstr \<Rightarrow> bstr" where
  "nearest_by H publishers s = arg_min_list (H s) publishers"

definition reached :: "(bstr \<Rightarrow> bstr \<Rightarrow> nat) \<Rightarrow> bstr list \<Rightarrow> bstr \<Rightarrow> bool" where
  "reached H publishers s \<longleftrightarrow> (\<exists>p \<in> set publishers. H s p < UINT_MAX)"

definition has_bits :: "bitvec \<Rightarrow> (nat \<Rightarrow> bool) \<Rightarrow> bool" where
  "has_bits f P \<longleftrightarrow> is_fid f \<and> (\<forall>i < 256. bv_bit f i = P i)"

text \<open>The result after the subscribers \<open>subs\<close>: who is nearest to none has no identifier.\<close>

definition entry_by :: "(bstr \<Rightarrow> bstr \<Rightarrow> nat) \<Rightarrow> (bstr \<Rightarrow> bstr \<Rightarrow> nat \<Rightarrow> bool) \<Rightarrow> bstr list \<Rightarrow> bstr list \<Rightarrow> bstr \<Rightarrow> bitvec option option \<Rightarrow> bool" where
  "entry_by H bits publishers subs p entry \<longleftrightarrow> (case entry of
     None \<Rightarrow> False
   | Some None \<Rightarrow> \<forall>s \<in> set subs. nearest_by H publishers s \<noteq> p
   | Some (Some f) \<Rightarrow> (\<exists>s \<in> set subs. nearest_by H publishers s = p) \<and>
       has_bits f (\<lambda>i. \<exists>s \<in> set subs. nearest_by H publishers s = p \<and> bits p s i))"

definition result_by :: "(bstr \<Rightarrow> bstr \<Rightarrow> nat) \<Rightarrow> (bstr \<Rightarrow> bstr \<Rightarrow> nat \<Rightarrow> bool) \<Rightarrow> bstr list \<Rightarrow> bstr list \<Rightarrow> tm_result \<Rightarrow> bool" where
  "result_by H bits publishers subs res \<longleftrightarrow> hm_keys res = publishers \<and>
     (\<forall>p \<in> set publishers. entry_by H bits publishers subs p (hm_get res p))"

lemma arg_min_in: "xs \<noteq> [] \<Longrightarrow> arg_min_list f xs \<in> set xs"
  by (induction f xs rule: arg_min_list.induct) (auto simp: Let_def)

lemma arg_min_Cons: "xs \<noteq> [] \<Longrightarrow> arg_min_list f (x # xs) = (if f x \<le> f (arg_min_list f xs) then x else arg_min_list f xs)"
  by (cases xs) (simp_all add: Let_def)

lemma arg_min_less: "xs \<noteq> [] \<Longrightarrow> (\<exists>x \<in> set xs. f x < m) \<longleftrightarrow> f (arg_min_list f xs) < (m :: nat)"
  using arg_min_in [of xs f] f_arg_min_list_f [of xs f] by (auto simp: Min_less_iff)

lemma nearest_by_in: "publishers \<noteq> [] \<Longrightarrow> nearest_by H publishers s \<in> set publishers"
  by (simp add: nearest_by_def arg_min_in)

lemma nearest_by_least: "p \<in> set publishers \<Longrightarrow> H s (nearest_by H publishers s) \<le> H s p"
  by (cases "publishers = []") (simp_all add: nearest_by_def f_arg_min_list_f)

lemma entry_by_other:
  "entry_by H bits publishers subs p v \<Longrightarrow> nearest_by H publishers s \<noteq> p \<Longrightarrow> entry_by H bits publishers (subs @ [s]) p v"
  by (auto simp: entry_by_def split: option.splits)

lemma hm_set_keys: "k \<in> set (hm_keys m) \<Longrightarrow> hm_keys (hm_set k v m) = hm_keys m"
  by (induction k v m rule: hm_set.induct) auto

text \<open>What a source of routes promises, and what the loops make of it.\<close>

locale route_source =
  fixes path :: "bstr \<Rightarrow> bstr \<Rightarrow> bitvec \<Rightarrow> (bitvec \<times> nat) option"
    and nodes :: "bstr set"
    and H :: "bstr \<Rightarrow> bstr \<Rightarrow> nat"
    and bits :: "bstr \<Rightarrow> bstr \<Rightarrow> nat \<Rightarrow> bool"
  assumes path_ok: "p \<in> nodes \<Longrightarrow> s \<in> nodes \<Longrightarrow> is_fid r \<Longrightarrow> \<exists>f. path p s (bv_clear r) = Some (f, H s p) \<and> has_bits f (bits p s)"
    and no_empty: "[] \<notin> nodes"
begin

lemma best_ok:
  assumes "s \<in> nodes" "set publishers \<subseteq> nodes" "is_fid bf" "is_fid r"
  shows "\<exists>m' b' bf' r'. best_of path s publishers (m, b, bf, r) = Some (m', b', bf', r') \<and> is_fid bf' \<and> is_fid r' \<and>
    (if \<exists>p \<in> set publishers. H s p < m
     then b' = nearest_by H publishers s \<and> m' = H s b' \<and> has_bits bf' (bits b' s)
     else m' = m \<and> b' = b \<and> bf' = bf)"
  using assms(2-4)
proof (induction publishers arbitrary: m b bf r)
  case (Cons p ps)
  let ?h = "H s"
  from path_ok [OF _ assms(1) Cons.prems(3), of p] Cons.prems(1) obtain f where
    f: "path p s (bv_clear r) = Some (f, ?h p)" "has_bits f (bits p s)" by auto
  have ff: "is_fid f" using f(2) by (simp add: has_bits_def)
  let ?st = "if m > ?h p then (?h p, p, f, f) else (m, b, bf, f)"
  have step: "best_of path s (p # ps) (m, b, bf, r) = best_of path s ps ?st"
    using f(1) store_fid [OF ff] by simp
  have n: "nearest_by H (p # ps) s = (if ps = [] \<or> ?h p \<le> ?h (nearest_by H ps s) then p else nearest_by H ps s)"
    by (cases "ps = []") (simp_all add: nearest_by_def arg_min_Cons)
  have less: "(\<exists>q \<in> set ps. ?h q < k) \<longleftrightarrow> ps \<noteq> [] \<and> ?h (nearest_by H ps s) < k" for k
    using arg_min_less [of ps ?h k] by (cases "ps = []") (auto simp: nearest_by_def)
  show ?case
  proof (cases "?h p < m")
    case True
    from Cons.IH [OF _ ff ff, of "?h p" p] Cons.prems(1) obtain m' b' bf' r' where
      "best_of path s ps (?h p, p, f, f) = Some (m', b', bf', r')" "is_fid bf'" "is_fid r'"
      "if ps \<noteq> [] \<and> ?h (nearest_by H ps s) < ?h p then b' = nearest_by H ps s \<and> m' = ?h b' \<and> has_bits bf' (bits b' s)
       else m' = ?h p \<and> b' = p \<and> bf' = f" unfolding less by auto
    then show ?thesis using step True f(2) n by (auto split: if_splits)
  next
    case False
    from Cons.IH [OF _ Cons.prems(2) ff, of m b] Cons.prems(1) obtain m' b' bf' r' where
      r: "best_of path s ps (m, b, bf, f) = Some (m', b', bf', r')" "is_fid bf'" "is_fid r'"
      "if ps \<noteq> [] \<and> ?h (nearest_by H ps s) < m then b' = nearest_by H ps s \<and> m' = ?h b' \<and> has_bits bf' (bits b' s)
       else m' = m \<and> b' = b \<and> bf' = bf" unfolding less by auto
    have "(\<exists>q \<in> set (p # ps). ?h q < m) \<longleftrightarrow> ps \<noteq> [] \<and> ?h (nearest_by H ps s) < m" using less [of m] False by simp
    then show ?thesis using step False r n by auto
  qed
qed simp

lemma serve_reached:
  assumes "s \<in> nodes" "set publishers \<subseteq> nodes" "is_fid bf" "is_fid r" "result_by H bits publishers subs res" "reached H publishers s"
  shows "\<exists>res' bf' r'. serve_of path publishers s (res, b, bf, r) = Some (res', nearest_by H publishers s, bf', r') \<and>
    has_bits bf' (bits (nearest_by H publishers s) s) \<and> is_fid bf' \<and> is_fid r' \<and> result_by H bits publishers (subs @ [s]) res'"
proof -
  let ?b = "nearest_by H publishers s"
  have less: "\<exists>p \<in> set publishers. H s p < UINT_MAX" using assms(6) by (simp add: reached_def)
  then have bin: "?b \<in> set publishers" by (intro nearest_by_in) auto
  from best_ok [OF assms(1-4), of UINT_MAX b] less obtain m' bf' r' where
    bp: "best_of path s publishers (UINT_MAX, b, bf, r) = Some (m', ?b, bf', r')" "is_fid bf'" "is_fid r'"
    "m' = H s ?b" "has_bits bf' (bits ?b s)" by auto
  have m: "m' \<noteq> UINT_MAX" using less nearest_by_least [of _ publishers H s] bp(4) by fastforce
  have keys: "hm_keys res = publishers" using assms(5) by (simp add: result_by_def)
  have upd: "result_by H bits publishers (subs @ [s]) (hm_set ?b (Some f) res)"
    if f: "has_bits f (\<lambda>i. \<exists>s' \<in> set (subs @ [s]). nearest_by H publishers s' = ?b \<and> bits ?b s' i)" for f
    unfolding result_by_def
  proof (intro conjI ballI)
    show "hm_keys (hm_set ?b (Some f) res) = publishers" by (rule hm_set_keys [of ?b res, unfolded keys, OF bin])
    fix p assume p: "p \<in> set publishers"
    show "entry_by H bits publishers (subs @ [s]) p (hm_get (hm_set ?b (Some f) res) p)"
    proof (cases "p = ?b")
      case True
      then show ?thesis using f by (simp add: entry_by_def)
    next
      case False
      then show ?thesis using assms(5) p entry_by_other [of H bits publishers subs p "hm_get res p" s] by (auto simp: result_by_def)
    qed
  qed
  have cur: "entry_by H bits publishers subs ?b (hm_get res ?b)" using assms(5) bin by (simp add: result_by_def)
  then obtain ex where ex: "hm_get res ?b = Some ex" by (cases "hm_get res ?b") (simp_all add: entry_by_def)
  show ?thesis
  proof (cases ex)
    case None
    have "serve_of path publishers s (res, b, bf, r) = Some (hm_set ?b (Some bf') res, ?b, bf', r')"
      using bp(1) ex None copy_fid [OF bp(2)] by (simp add: serve_of_def)
    moreover have "result_by H bits publishers (subs @ [s]) (hm_set ?b (Some bf') res)"
      by (rule upd) (use cur ex None bp(5) in \<open>auto simp: has_bits_def entry_by_def\<close>)
    ultimately show ?thesis using bp(2,3,5) by blast
  next
    case (Some f0)
    with ex cur have f0: "hm_get res ?b = Some (Some f0)"
      "has_bits f0 (\<lambda>i. \<exists>s \<in> set subs. nearest_by H publishers s = ?b \<and> bits ?b s i)" by (simp_all add: entry_by_def)
    then obtain f where f: "bv_or f0 bf' = Some f" "is_fid f" "\<forall>i < 256. bv_bit f i = (bv_bit f0 i \<or> bv_bit bf' i)"
      using fid_or [OF _ bp(2), of f0] by (auto simp: has_bits_def)
    have "serve_of path publishers s (res, b, bf, r) = Some (hm_set ?b (Some f) res, ?b, bf', r')"
      using bp(1) f0(1) m f(1) store_fid [OF f(2)] by (simp add: serve_of_def)
    moreover have "result_by H bits publishers (subs @ [s]) (hm_set ?b (Some f) res)"
      by (rule upd) (use f0 f bp(5) in \<open>auto simp: has_bits_def\<close>)
    ultimately show ?thesis using bp(2,3,5) by blast
  qed
qed

lemma serve_all:
  assumes "set publishers \<subseteq> nodes" "set subs \<subseteq> nodes" "\<forall>s \<in> set subs. reached H publishers s" "is_fid z"
  shows "\<exists>res b bf r. fold_opt (serve_of path publishers) subs (map (\<lambda>p. (p, None)) publishers, [], z, z) = Some (res, b, bf, r) \<and>
    is_fid bf \<and> is_fid r \<and> result_by H bits publishers subs res \<and>
    (if subs = [] then b = [] else b = nearest_by H publishers (last subs) \<and> has_bits bf (bits b (last subs)))"
  using assms(2,3)
proof (induction subs rule: rev_induct)
  case Nil
  have "hm_get (map (\<lambda>p. (p, None)) publishers) p = Some (None :: bitvec option)" if "p \<in> set publishers" for p :: bstr
    using that by (induction publishers) (auto simp: hm_get_def)
  then have "result_by H bits publishers [] (map (\<lambda>p. (p, None)) publishers)" by (simp add: result_by_def entry_by_def comp_def)
  then show ?case using assms(4) by simp
next
  case (snoc s subs)
  then obtain res b bf r where ih:
    "fold_opt (serve_of path publishers) subs (map (\<lambda>p. (p, None)) publishers, [], z, z) = Some (res, b, bf, r)"
    "is_fid bf" "is_fid r" "result_by H bits publishers subs res" by auto
  from serve_reached [OF _ assms(1) ih(2,3,4), of s b] snoc.prems obtain res' bf' r' where
    "serve_of path publishers s (res, b, bf, r) = Some (res', nearest_by H publishers s, bf', r')"
    "has_bits bf' (bits (nearest_by H publishers s) s)" "is_fid bf'" "is_fid r'" "result_by H bits publishers (subs @ [s]) res'" by auto
  then show ?case using ih(1) by (simp add: fold_opt_append)
qed

lemma all_ok:
  assumes "set publishers \<subseteq> nodes" "set subs \<subseteq> nodes" "\<forall>s \<in> set subs. reached H publishers s"
  shows "\<exists>res. all_of path publishers subs = Some res \<and> result_by H bits publishers subs res"
proof -
  obtain z where z: "bv_new 256 = Some z" "is_fid z" using zero_fid by blast
  from serve_all [OF assms z(2)] z(1) show ?thesis by (auto simp: all_of_def)
qed

text \<open>A subscriber nobody reaches.\<close>

lemma serve_unreached:
  assumes "s \<in> nodes" "set publishers \<subseteq> nodes" "is_fid bf" "is_fid r" "\<not> reached H publishers s"
  shows "\<exists>r'. serve_of path publishers s (res, b, bf, r) =
    (if hm_get res b = None then None else Some (hm_set b (Some bf) res, b, bf, r'))"
proof -
  from best_ok [OF assms(1-4), of UINT_MAX b] assms(5) obtain r' where
    "best_of path s publishers (UINT_MAX, b, bf, r) = Some (UINT_MAX, b, bf, r')" by (auto simp: reached_def)
  then show ?thesis using copy_fid [OF assms(3)]
    by (intro exI [of _ r']) (auto simp: serve_of_def split: option.splits)
qed

lemma unreached:
  assumes "set publishers \<subseteq> nodes" "set subs \<subseteq> nodes" "\<forall>s \<in> set subs. reached H publishers s" "subs \<noteq> []"
    and "s \<in> nodes" "\<not> reached H publishers s" "b = nearest_by H publishers (last subs)"
  shows "\<exists>res f. all_of path publishers (subs @ [s]) = Some res \<and> hm_get res b = Some (Some f) \<and> has_bits f (bits b (last subs))"
    "all_of path publishers (s # subs') = None"
proof -
  obtain z where z: "bv_new 256 = Some z" "is_fid z" using zero_fid by blast
  from serve_all [OF assms(1-3) z(2)] assms(4,7) obtain res bf r where
    a: "fold_opt (serve_of path publishers) subs (map (\<lambda>p. (p, None)) publishers, [], z, z) = Some (res, b, bf, r)"
    "is_fid bf" "is_fid r" "result_by H bits publishers subs res" "has_bits bf (bits b (last subs))" by auto
  have "publishers \<noteq> []" using assms(3,4) by (cases publishers) (auto simp: reached_def neq_Nil_conv)
  then have "b \<in> set publishers" using assms(7) by (simp add: nearest_by_in)
  then have "hm_get res b \<noteq> None" using a(4) by (auto simp: result_by_def entry_by_def split: option.splits)
  with serve_unreached [OF assms(5,1) a(2,3) assms(6), of res b] obtain r' where
    "serve_of path publishers s (res, b, bf, r) = Some (hm_set b (Some bf) res, b, bf, r')" by auto
  then have "all_of path publishers (subs @ [s]) = Some (hm_set b (Some bf) res)"
    using z(1) a(1) by (simp add: all_of_def fold_opt_append)
  then show "\<exists>res f. all_of path publishers (subs @ [s]) = Some res \<and> hm_get res b = Some (Some f) \<and> has_bits f (bits b (last subs))"
    using a(5) by simp
  have "[] \<notin> set publishers" using assms(1) no_empty by blast
  then have "hm_get (map (\<lambda>p. (p, None)) publishers) [] = (None :: bitvec option option)"
    by (simp add: hm_get_None_iff comp_def)
  with serve_unreached [OF assms(5,1) z(2,2) assms(6), of "map (\<lambda>p. (p, None)) publishers" "[]"]
  show "all_of path publishers (s # subs') = None" using z(1) by (simp add: all_of_def)
qed

end

subsection \<open>The nearest publisher\<close>

definition hops :: "igraph \<Rightarrow> bstr \<Rightarrow> bstr \<Rightarrow> nat" where
  "hops g s p = numberOfHops (route g p s)"

definition nearest :: "igraph \<Rightarrow> bstr list \<Rightarrow> bstr \<Rightarrow> bstr" where
  "nearest g publishers s = arg_min_list (hops g s) publishers"

definition reachable :: "igraph \<Rightarrow> bstr list \<Rightarrow> bstr \<Rightarrow> bool" where
  "reachable g publishers s \<longleftrightarrow> (\<exists>p \<in> set publishers. route g p s \<noteq> [])"

lemma hops_less:
  assumes "topology_ok g" "p \<in> set (ig_NODEID g)" "s \<in> set (ig_NODEID g)"
  shows "hops g s p < UINT_MAX \<longleftrightarrow> route g p s \<noteq> []"
  using topology_parts(2) [OF assms] by (auto simp: hops_def numberOfHops_def Let_def)

lemma reachable_reached:
  "topology_ok g \<Longrightarrow> set publishers \<subseteq> set (ig_NODEID g) \<Longrightarrow> s \<in> set (ig_NODEID g) \<Longrightarrow>
   reached (hops g) publishers s \<longleftrightarrow> reachable g publishers s"
  unfolding reached_def reachable_def by (intro bex_cong refl hops_less) auto

lemma nearest_is: "nearest g = nearest_by (hops g)"
  by (simp add: fun_eq_iff nearest_def nearest_by_def)

lemma route_fid_is: "route_fid g p s f \<longleftrightarrow> has_bits f (route_bits g p s)"
  by (simp add: route_fid_def has_bits_def)

abbreviation result_ok :: "igraph \<Rightarrow> bstr list \<Rightarrow> bstr list \<Rightarrow> tm_result \<Rightarrow> bool" where
  "result_ok g \<equiv> result_by (hops g) (route_bits g)"

abbreviation entry_ok :: "igraph \<Rightarrow> bstr list \<Rightarrow> bstr list \<Rightarrow> bstr \<Rightarrow> bitvec option option \<Rightarrow> bool" where
  "entry_ok g \<equiv> entry_by (hops g) (route_bits g)"

lemma best_publisher_is: "best_publisher g t s ps st = best_of (calculateFID_path g t) s ps st"
proof (induction ps arbitrary: st)
  case (Cons p ps)
  then show ?case by (cases st) simp
qed simp

lemma calculateFID_is: "calculateFID g t = all_of (calculateFID_path g t)"
proof -
  have "serve_subscriber g t = serve_of (calculateFID_path g t)"
    by (intro ext) (simp add: serve_subscriber_def serve_of_def best_publisher_is)
  then show ?thesis by (intro ext) (simp add: calculateFID_def all_of_def)
qed

text \<open>The unweighted routes are such a source, on the nodes of a topology in order whose tables were read.\<close>

definition known_nodes :: "igraph \<Rightarrow> tm_graph \<Rightarrow> bstr set" where
  "known_nodes g t = (if topology_ok g \<and> tables_ok g t then set (ig_NODEID g) else {})"

lemma known [simp]: "topology_ok g \<Longrightarrow> tables_ok g t \<Longrightarrow> known_nodes g t = set (ig_NODEID g)"
  by (simp add: known_nodes_def)

lemma in_known: "x \<in> known_nodes g t \<longleftrightarrow> topology_ok g \<and> tables_ok g t \<and> x \<in> set (ig_NODEID g)"
  by (auto simp: known_nodes_def)

lemma no_empty_node: "[] \<notin> known_nodes g t"
  unfolding in_known topology_ok_def by fastforce

interpretation shortest: route_source "calculateFID_path g t" "known_nodes g t" "hops g" "route_bits g" for g t
proof
  show "\<exists>f. calculateFID_path g t p s (bv_clear r) = Some (f, hops g s p) \<and> has_bits f (route_bits g p s)"
    if "p \<in> known_nodes g t" "s \<in> known_nodes g t" "is_fid r" for p s r
    using that calculateFID_path_ok [of g t p s r] by (simp add: in_known route_fid_is hops_def)
qed (rule no_empty_node)

lemma calculateFID_ok:
  assumes "topology_ok g" "tables_ok g t" "set publishers \<subseteq> set (ig_NODEID g)" "set subs \<subseteq> set (ig_NODEID g)"
    and "\<forall>s \<in> set subs. reachable g publishers s"
  shows "\<exists>res. calculateFID g t publishers subs = Some res \<and> result_ok g publishers subs res"
  unfolding calculateFID_is
  by (rule shortest.all_ok) (use assms reachable_reached in \<open>simp_all add: subset_iff\<close>)

lemma unreachable_aux:
  assumes "topology_ok g" "tables_ok g t" "set publishers \<subseteq> set (ig_NODEID g)" "set subs \<subseteq> set (ig_NODEID g)"
    and "\<forall>s \<in> set subs. reachable g publishers s" "subs \<noteq> []" "s \<in> set (ig_NODEID g)" "\<not> reachable g publishers s"
    and "b = nearest g publishers (last subs)"
  shows "\<exists>res f. calculateFID g t publishers (subs @ [s]) = Some res \<and> hm_get res b = Some (Some f) \<and> route_fid g b (last subs) f"
    "calculateFID g t publishers (s # subs') = None"
proof -
  have r: "\<forall>s \<in> set subs. reached (hops g) publishers s" "\<not> reached (hops g) publishers s"
    using assms(1,3-5,7,8) reachable_reached by blast+
  note k = known [OF assms(1,2)]
  note u = shortest.unreached [of publishers g t, unfolded k, OF assms(3,4) r(1) assms(6,7) r(2) assms(9) [unfolded nearest_is]]
  show "\<exists>res f. calculateFID g t publishers (subs @ [s]) = Some res \<and> hm_get res b = Some (Some f) \<and> route_fid g b (last subs) f"
    unfolding calculateFID_is route_fid_is by (rule u(1))
  show "calculateFID g t publishers (s # subs') = None" unfolding calculateFID_is by (rule u(2))
qed

subsection \<open>Requests and responses\<close>

lemma read_nodes_ok:
  assumes "pk_data p = cells xs @ cells (concat hs) @ ys" "i = length xs" "\<forall>h \<in> set hs. length h = 8"
  shows "read_nodes (length hs) p i = Some hs"
  using assms
proof (induction hs arbitrary: xs i)
  case (Cons h hs)
  have "rdn p i 8 = Some h" by (rule rdn_skip [of p xs h "cells (concat hs) @ ys"]) (use Cons.prems in simp_all)
  moreover have "read_nodes (length hs) p (i + 8) = Some hs"
    by (rule Cons.IH [of "xs @ h"]) (use Cons.prems in simp_all)
  ultimately show ?case by simp
qed simp

lemma std_set_ok: "set (std_set xs) = set xs" "distinct (std_set xs)" "sorted (std_set xs)"
proof -
  have "set (foldl (\<lambda>s x. insort_insert x s) s xs) = set s \<union> set xs \<and>
      (distinct s \<longrightarrow> distinct (foldl (\<lambda>s x. insort_insert x s) s xs)) \<and> (sorted s \<longrightarrow> sorted (foldl (\<lambda>s x. insort_insert x s) s xs))"
    for s :: "bstr list"
    by (induction xs arbitrary: s) (auto simp: set_insort_insert distinct_insort_insert sorted_insort_insert)
  from this [of "[]"] show "set (std_set xs) = set xs" "distinct (std_set xs)" "sorted (std_set xs)"
    by (simp_all add: std_set_def)
qed

lemma resp_prefix: "resp_bin_prefix_id = replicate 7 255 @ [253]"
  by code_simp

text \<open>A response as it leaves: data for the node's notification identifier, with a path of its own.\<close>

definition response_message :: "blackadder \<Rightarrow> bstr \<Rightarrow> bstr \<Rightarrow> cell list \<Rightarrow> cell list" where
  "response_message ba node fid response =
     lib_header (length (app_data (resp_bin_prefix_id @ node) IMPLICIT_RENDEZVOUS fid) + length response) ba @
     cells (app_data (resp_bin_prefix_id @ node) IMPLICIT_RENDEZVOUS fid) @ response"

definition publisher_response :: "cell list \<Rightarrow> bitvec option \<Rightarrow> cell list" where
  "publisher_response ids entry = (case entry of None \<Rightarrow> Some STOP_PUBLISH # ids
     | Some FID \<Rightarrow> Some START_PUBLISH # ids @ cells (fid_bytes FID))"

definition sends :: "cell list list \<Rightarrow> blackadder \<Rightarrow> blackadder" where
  "sends ms ba = ba\<lparr>ba_sent := ba_sent ba @ ms\<rparr>"

lemma respond_ok:
  assumes "topology_ok g" "tables_ok g t" "tm_nodeID t \<in> set (ig_NODEID g)" "node \<in> set (ig_NODEID g)" "sock_fd ba \<noteq> -1"
  shows "\<exists>f. route_fid g (tm_nodeID t) node f \<and>
    respond g t node response ba = Some (sends [response_message ba node (fid_bytes f) response] ba)"
proof -
  from calculateFID_to_ok [OF assms(1-4)] obtain f where f: "calculateFID_to g t (tm_nodeID t) node = Some f" "route_fid g (tm_nodeID t) node f" by blast
  have "length node = 8" using assms(1,4) by (auto simp: topology_ok_def)
  then have "8 dvd length (resp_bin_prefix_id @ node)" by (simp add: resp_prefix)
  from lib_publish_data_eq [OF this] f show ?thesis using assms(5) fid_mem_fid [of f]
    by (intro exI [of _ f]) (simp add: respond_def route_fid_def lib_sendmsg_def sends_def response_message_def opt_bytes_def)
qed

lemma notify_publishers_ok:
  assumes "topology_ok g" "tables_ok g t" "tm_nodeID t \<in> set (ig_NODEID g)" "sock_fd ba \<noteq> -1"
    and "\<forall>(p, e) \<in> set res. p \<in> set (ig_NODEID g) \<and> (case e of None \<Rightarrow> True | Some f \<Rightarrow> is_fid f)"
  shows "\<exists>ms. fold_opt (notify_publisher g t ids) res ba = Some (sends ms ba) \<and>
    list_all2 (\<lambda>(p, e) m. \<exists>f. route_fid g (tm_nodeID t) p f \<and> m = response_message ba p (fid_bytes f) (publisher_response ids e)) res ms"
  using assms(4,5)
proof (induction res arbitrary: ba)
  case Nil
  then show ?case by (simp add: sends_def)
next
  case (Cons pe res)
  obtain p e where pe: "pe = (p, e)" by (cases pe)
  have p: "p \<in> set (ig_NODEID g)" using Cons.prems pe by auto
  from respond_ok [OF assms(1-3) p Cons.prems(1), of "publisher_response ids e"] obtain f where
    f: "route_fid g (tm_nodeID t) p f" "respond g t p (publisher_response ids e) ba =
      Some (sends [response_message ba p (fid_bytes f) (publisher_response ids e)] ba)" by blast
  have n: "notify_publisher g t ids pe ba = respond g t p (publisher_response ids e) ba"
    using Cons.prems(2) pe fid_mem_fid by (cases e) (auto simp: notify_publisher_def publisher_response_def)
  let ?ba = "sends [response_message ba p (fid_bytes f) (publisher_response ids e)] ba"
  have same: "response_message ?ba = response_message ba" by (simp add: sends_def response_message_def lib_header_def fun_eq_iff)
  from Cons.IH [of ?ba] Cons.prems obtain ms where
    "fold_opt (notify_publisher g t ids) res ?ba = Some (sends ms ?ba)"
    "list_all2 (\<lambda>(p, e) m. \<exists>f. route_fid g (tm_nodeID t) p f \<and> m = response_message ba p (fid_bytes f) (publisher_response ids e)) res ms"
    unfolding same by (auto simp: sends_def)
  then show ?case using n f pe
    by (intro exI [of _ "response_message ba p (fid_bytes f) (publisher_response ids e) # ms"]) (auto simp: sends_def)
qed

definition match_bytes :: "byte \<Rightarrow> bstr list \<Rightarrow> bstr list \<Rightarrow> bstr \<Rightarrow> bstr" where
  "match_bytes strategy ps ss ids =
     [MATCH_PUB_SUBS, strategy, u8 (length ps)] @ concat ps @ [u8 (length ss)] @ concat ss @ ids"

definition scope_bytes :: "byte \<Rightarrow> byte \<Rightarrow> bstr list \<Rightarrow> bstr \<Rightarrow> bstr" where
  "scope_bytes type strategy ss ids = [type, strategy, u8 (length ss)] @ concat ss @ ids"

text \<open>What follows the nodes: a number of identifiers, and the first of them behind its length.\<close>

definition ids_part_ok :: "bstr \<Rightarrow> bool" where
  "ids_part_ok ids \<longleftrightarrow> (\<exists>n L rest. ids = n # L # rest \<and> unat L * 8 \<le> length rest)"

definition nodes_ok :: "igraph \<Rightarrow> bstr list \<Rightarrow> bool" where
  "nodes_ok g hs \<longleftrightarrow> set hs \<subseteq> set (ig_NODEID g) \<and> length hs < 256"

lemma nodes_length: "topology_ok g \<Longrightarrow> nodes_ok g hs \<Longrightarrow> \<forall>h \<in> set hs. length h = 8"
  by (auto simp: topology_ok_def nodes_ok_def)

lemma length_concat_nodes: "\<forall>h \<in> set hs. length h = 8 \<Longrightarrow> length (concat hs) = length hs * 8"
  by (induction hs) simp_all

lemma drop_behind: "drop (length a + k) (cells (a @ b) @ ys) = drop k (cells b @ ys)"
  by (simp add: cells_append)

lemma handle_match_ok:
  assumes "topology_ok g" "nodes_ok g ps" "nodes_ok g ss" "ids_part_ok ids"
  shows "handleRequest g t (cells (match_bytes strategy ps ss ids)) slack ba =
    (if length slack < 2 then None
     else Option.bind (calculateFID g t (std_set ps) (std_set ss)) (\<lambda>res. fold_opt (notify_publisher g t (cells ids)) res ba))"
proof -
  obtain n L rest where ids: "ids = n # L # rest" "unat L * 8 \<le> length rest" using assms(4) by (auto simp: ids_part_ok_def)
  note l8 = nodes_length [OF assms(1,2)] nodes_length [OF assms(1,3)]
  note lc = length_concat_nodes [OF l8(1)] length_concat_nodes [OF l8(2)]
  have u: "unat (u8 (length ps)) = length ps" "unat (u8 (length ss)) = length ss"
    using assms(2,3) by (simp_all add: nodes_ok_def unat_u8)
  let ?d = "match_bytes strategy ps ss ids" and ?P = "length ps * 8" and ?S = "length ss * 8"
  let ?p = "\<lparr>pk_data = cells ?d @ slack, pk_anno = None\<rparr>"
  let ?i = "4 + ?P + ?S"
  let ?pre = "[MATCH_PUB_SUBS, strategy, u8 (length ps)] @ concat ps @ [u8 (length ss)] @ concat ss"
  have pre: "?d = ?pre @ ids" "length ?pre = ?i" by (simp_all add: match_bytes_def lc)
  have r0: "rd8 ?p 0 = Some MATCH_PUB_SUBS" by (rule rd8_skip [of ?p "[]"]) (simp_all add: match_bytes_def)
  have r1: "rd8 ?p 1 = Some strategy" by (rule rd8_skip [of ?p "[MATCH_PUB_SUBS]"]) (simp_all add: match_bytes_def)
  have r2: "rd8 ?p 2 = Some (u8 (length ps))" by (rule rd8_skip [of ?p "[MATCH_PUB_SUBS, strategy]"]) (simp_all add: match_bytes_def)
  have r3: "read_nodes (length ps) ?p 3 = Some ps"
    by (rule read_nodes_ok [of ?p "[MATCH_PUB_SUBS, strategy, u8 (length ps)]"]) (use l8 in \<open>simp_all add: match_bytes_def\<close>)
  have r4: "rd8 ?p (3 + ?P) = Some (u8 (length ss))"
    by (rule rd8_skip [of ?p "[MATCH_PUB_SUBS, strategy, u8 (length ps)] @ concat ps"]) (simp_all add: match_bytes_def lc)
  have r5: "read_nodes (length ss) ?p (4 + ?P) = Some ss"
    by (rule read_nodes_ok [of ?p "[MATCH_PUB_SUBS, strategy, u8 (length ps)] @ concat ps @ [u8 (length ss)]"])
      (use l8 in \<open>simp_all add: match_bytes_def lc\<close>)
  have r6: "rd8 ?p ?i = Some n" by (rule rd8_skip [of ?p ?pre]) (simp_all add: match_bytes_def ids(1) lc)
  have r7: "rd8 ?p (?i + 1) = Some L" by (rule rd8_skip [of ?p "?pre @ [n]"]) (simp_all add: match_bytes_def ids(1) lc)
  have ld: "length ?d = ?i + length ids" using pre by simp
  have di: "drop (?i + k) (cells ?d @ slack) = drop k (cells ids @ slack)" for k
    unfolding pre(1) pre(2) [symmetric] by (rule drop_behind)
  have li: "length ids = Suc (Suc (length rest))" "drop 2 (cells ids @ slack) = cells rest @ slack"
    by (simp_all add: ids(1) numeral_2_eq_2)
  have dd: "drop (?i + 2) (cells ?d @ slack) = cells rest @ slack" using di [of 2] li(2) by (rule trans)
  have fits: "?i + 2 + length ids \<le> length (cells ?d @ slack) \<longleftrightarrow> \<not> length slack < 2" using ld by auto
  have r8: "rdc ?p (?i + 2) (length ids) = (if length slack < 2 then None else Some (cells rest @ take 2 slack))"
    unfolding rdc_def packet.select_convs dd fits using li(1) by (simp add: numeral_2_eq_2)
  have r9: "rdc ?p ?i (length ids) = Some (cells ids)"
    unfolding rdc_def using di [of 0] by (simp add: ld)
  have r10: "rdn \<lparr>pk_data = cells rest @ ys, pk_anno = None\<rparr> 0 (unat L * 8) = Some (take (unat L * 8) rest)" for ys
    using ids(2) by (simp add: rdn_def take_cells)
  have m: "handleRequest g t (cells ?d) slack ba = handle_match g t ?p (length ?d) ba"
    by (simp add: handleRequest_def r0 r1 [unfolded One_nat_def])
  have lt: "\<not> length ?d < ?i" "length ?d - ?i = length ids" using ld by simp_all
  show ?thesis
    unfolding m handle_match_def r2 Option.bind.simps u r3 Let_def r4 r5 r6 r7 lt r8 r9
    using lt(1) r10 [of "take 2 slack"] by (cases "length slack < 2") simp_all
qed

lemma entries_ok:
  assumes "set publishers \<subseteq> set (ig_NODEID g)" "distinct publishers" "result_ok g publishers subs res"
  shows "\<forall>(p, e) \<in> set res. p \<in> set (ig_NODEID g) \<and> (case e of None \<Rightarrow> True | Some f \<Rightarrow> is_fid f)"
proof clarify
  fix p e assume pe: "(p, e) \<in> set res"
  have k: "map fst res = publishers" using assms(3) by (simp add: result_by_def)
  then have p: "p \<in> set publishers" using pe by force
  have "hm_get res p = Some e" using pe k assms(2) by (simp add: hm_get_def)
  with p assms(1,3) show "p \<in> set (ig_NODEID g) \<and> (case e of None \<Rightarrow> True | Some f \<Rightarrow> is_fid f)"
    by (cases e) (auto simp: result_by_def entry_by_def has_bits_def)
qed

lemma respond_all_ok:
  assumes "topology_ok g" "tables_ok g t" "tm_nodeID t \<in> set (ig_NODEID g)" "sock_fd ba \<noteq> -1"
    and "set nodes \<subseteq> set (ig_NODEID g)"
  shows "\<exists>ms. fold_opt (\<lambda>node. respond g t node response) nodes ba = Some (sends ms ba) \<and>
    list_all2 (\<lambda>n m. \<exists>f. route_fid g (tm_nodeID t) n f \<and> m = response_message ba n (fid_bytes f) response) nodes ms"
  using assms(4,5)
proof (induction nodes arbitrary: ba)
  case Nil
  then show ?case by (simp add: sends_def)
next
  case (Cons n nodes)
  from respond_ok [OF assms(1-3) _ Cons.prems(1), of n response] Cons.prems(2) obtain f where
    f: "route_fid g (tm_nodeID t) n f" "respond g t n response ba = Some (sends [response_message ba n (fid_bytes f) response] ba)" by auto
  let ?ba = "sends [response_message ba n (fid_bytes f) response] ba"
  have same: "response_message ?ba = response_message ba" by (simp add: sends_def response_message_def lib_header_def fun_eq_iff)
  from Cons.IH [of ?ba] Cons.prems obtain ms where
    "fold_opt (\<lambda>node. respond g t node response) nodes ?ba = Some (sends ms ?ba)"
    "list_all2 (\<lambda>n m. \<exists>f. route_fid g (tm_nodeID t) n f \<and> m = response_message ba n (fid_bytes f) response) nodes ms"
    unfolding same by (auto simp: sends_def)
  then show ?case using f
    by (intro exI [of _ "response_message ba n (fid_bytes f) response # ms"]) (auto simp: sends_def)
qed

lemma handle_scope_ok:
  assumes "topology_ok g" "nodes_ok g ss" "type = SCOPE_PUBLISHED \<or> type = SCOPE_UNPUBLISHED"
  shows "handleRequest g t (cells (scope_bytes type strategy ss ids)) slack ba =
    fold_opt (\<lambda>node. respond g t node (Some type # cells ids @ replicate FID_LEN None)) ss ba"
proof -
  note l8 = nodes_length [OF assms(1,2)]
  note lc = length_concat_nodes [OF l8]
  have u: "unat (u8 (length ss)) = length ss" using assms(2) by (simp add: nodes_ok_def unat_u8)
  let ?d = "scope_bytes type strategy ss ids" and ?i = "3 + length ss * 8"
  let ?p = "\<lparr>pk_data = cells ?d @ slack, pk_anno = None\<rparr>"
  let ?pre = "[type, strategy, u8 (length ss)] @ concat ss"
  have pre: "?d = ?pre @ ids" "length ?pre = ?i" by (simp_all add: scope_bytes_def lc)
  have r0: "rd8 ?p 0 = Some type" by (rule rd8_skip [of ?p "[]"]) (simp_all add: scope_bytes_def)
  have r1: "rd8 ?p 1 = Some strategy" by (rule rd8_skip [of ?p "[type]"]) (simp_all add: scope_bytes_def)
  have r2: "rd8 ?p 2 = Some (u8 (length ss))" by (rule rd8_skip [of ?p "[type, strategy]"]) (simp_all add: scope_bytes_def)
  have r3: "read_nodes (length ss) ?p 3 = Some ss"
    by (rule read_nodes_ok [of ?p "[type, strategy, u8 (length ss)]"]) (use l8 in \<open>simp_all add: scope_bytes_def\<close>)
  have di: "drop ?i (cells ?d @ slack) = cells ids @ slack"
    unfolding pre(1) pre(2) [symmetric] using drop_behind [of ?pre 0] by simp
  have ld: "length ?d = ?i + length ids" using pre by simp
  then have lt: "\<not> length ?d < ?i" "length ?d - ?i = length ids" by simp_all
  have r4: "rdc ?p ?i (length ids) = Some (cells ids)"
    unfolding rdc_def packet.select_convs di using ld by simp
  have ty: "type \<noteq> MATCH_PUB_SUBS" using assms(3) by auto
  have m: "handleRequest g t (cells ?d) slack ba = handle_scope g t type ?p (length ?d) ba"
    using assms(3) ty by (simp add: handleRequest_def r0 r1 [unfolded One_nat_def])
  show ?thesis
    unfolding m handle_scope_def r2 Option.bind.simps u r3 Let_def lt r4 by (simp only: lt r4 if_False Option.bind.simps)
qed

subsection \<open>Properties\<close>

text \<open>An example: three nodes in a line, joined both ways, and a fourth that nothing joins.\<close>

definition ex_node :: "byte \<Rightarrow> bstr" where
  "ex_node c = replicate 8 c"

definition ex_lid :: "nat \<Rightarrow> string" where
  "ex_lid k = replicate (255 - k) CHR ''0'' @ CHR ''1'' # replicate k CHR ''0''"

definition ex_topology :: igraph where
  "ex_topology = \<lparr>ig_NODEID = [ex_node 65, ex_node 66, ex_node 67, ex_node 68],
     ig_iLID = map ex_lid [0, 1, 2, 3], ig_LID = map ex_lid [4, 5, 6, 7],
     ig_path = (\<lambda>u v. if u = v then [u] else if u = 3 \<or> v = 3 then []
       else if u < v then [u..<Suc v] else rev [v..<Suc u]),
     ig_eid = (\<lambda>u v. map_of [((0, 1), 0), ((1, 0), 1), ((1, 2), 2), ((2, 1), 3)] (u, v))\<rparr>"

lemma ex_topology_ok: "topology_ok ex_topology"
proof -
  let ?g = ex_topology
  have p: "\<forall>u \<in> set [0..<4]. \<forall>v \<in> set [0..<4]. path_law ?g u v (ig_path ?g u v)" by code_simp
  have n: "length (ig_NODEID ?g) = 4" "length (ig_iLID ?g) = length (ig_NODEID ?g)" "distinct (ig_NODEID ?g)"
    "\<forall>x \<in> set (ig_NODEID ?g). length x = 8" by code_simp+
  have l: "\<forall>s \<in> set (ig_iLID ?g) \<union> set (ig_LID ?g). length s = 256"
    by (auto simp: ex_topology_def ex_lid_def)
  show ?thesis unfolding topology_ok_def using p n l by simp
qed

lemma ex_nodes: "set [ex_node 65, ex_node 66, ex_node 67, ex_node 68] \<subseteq> set (ig_NODEID ex_topology)"
  by (simp add: ex_topology_def)

lemma ex_reach: "reachable ex_topology [ex_node 65, ex_node 67] (ex_node 66)" "reachable ex_topology [ex_node 65, ex_node 67] (ex_node 67)"
  "\<not> reachable ex_topology [ex_node 65, ex_node 67] (ex_node 68)"
  by code_simp+

text \<open>
  C16. The topology manager gives each publisher the links of its own routes and no others. On a well-formed
  topology whose file it has read, if every subscriber has a path from some publisher, the calculation
  returns; each subscriber counts for the first of the publishers with the fewest hops to it; a publisher that
  is nearest to no subscriber gets no identifier (it will be told to stop), and every other one gets
  the 256-bit vector in which exactly the bits of the links on the routes to its subscribers, and of
  those subscribers' internal links, are set.
\<close>

theorem fid_per_publisher:
  assumes "topology_ok g" "set publishers \<subseteq> set (ig_NODEID g)" "set subscribers \<subseteq> set (ig_NODEID g)"
    and "\<forall>s \<in> set subscribers. reachable g publishers s"
  shows "\<exists>t result. readTopology g TM = Some t \<and> calculateFID g t publishers subscribers = Some result \<and>
    map fst result = publishers \<and>
    (\<forall>s \<in> set subscribers. nearest g publishers s \<in> set publishers \<and>
       (\<forall>p \<in> set publishers. hops g s (nearest g publishers s) \<le> hops g s p)) \<and>
    (\<forall>p \<in> set publishers. \<exists>entry. hm_get result p = Some entry \<and>
       (entry = None \<longleftrightarrow> (\<forall>s \<in> set subscribers. nearest g publishers s \<noteq> p)) \<and>
       (\<forall>FID. entry = Some FID \<longrightarrow> is_fid FID \<and> (\<forall>i < 256. bv_bit FID i \<longleftrightarrow>
          (\<exists>s \<in> set subscribers. nearest g publishers s = p \<and> route_bits g p s i))))"
proof -
  from readTopology_ok [OF assms(1)] obtain t where t: "readTopology g TM = Some t" "tables_ok g t" by blast
  from calculateFID_ok [OF assms(1) t(2) assms(2-4)] obtain res where
    r: "calculateFID g t publishers subscribers = Some res" "result_ok g publishers subscribers res" by blast
  have e: "\<exists>entry. hm_get res p = Some entry \<and>
       (entry = None \<longleftrightarrow> (\<forall>s \<in> set subscribers. nearest g publishers s \<noteq> p)) \<and>
       (\<forall>FID. entry = Some FID \<longrightarrow> is_fid FID \<and> (\<forall>i < 256. bv_bit FID i \<longleftrightarrow>
          (\<exists>s \<in> set subscribers. nearest g publishers s = p \<and> route_bits g p s i)))" if "p \<in> set publishers" for p
  proof -
    have "entry_ok g publishers subscribers p (hm_get res p)" using r(2) that by (simp add: result_by_def)
    then show ?thesis by (auto simp: entry_by_def has_bits_def nearest_is split: option.splits)
  qed
  have n: "nearest g publishers s \<in> set publishers \<and> (\<forall>p \<in> set publishers. hops g s (nearest g publishers s) \<le> hops g s p)"
    if "s \<in> set subscribers" for s
  proof -
    have "publishers \<noteq> []" using assms(4) that by (auto simp: reachable_def)
    then show ?thesis by (simp add: nearest_is nearest_by_in nearest_by_least)
  qed
  show ?thesis using t(1) r e n by (intro exI [of _ t] exI [of _ res]) (simp add: result_by_def)
qed

theorem fid_per_publisher_witness:
  "\<exists>t result. readTopology ex_topology (ex_node 65) = Some t \<and>
     calculateFID ex_topology t [ex_node 65, ex_node 67] [ex_node 66, ex_node 67] = Some result \<and>
     map fst result = [ex_node 65, ex_node 67]"
  using fid_per_publisher [OF ex_topology_ok, of "[ex_node 65, ex_node 67]" "[ex_node 66, ex_node 67]" "ex_node 65"] ex_nodes ex_reach
  by auto

text \<open>
  C29. A subscriber that no publisher reaches is not skipped. Behind others, it throws away what was collected:
  the publisher nearest to the subscriber before it is left with the route to that one alone, the routes to its
  earlier subscribers are lost. In front of all others, the calculation dereferences the end of the result table.
\<close>

theorem unreachable_subscriber:
  assumes "topology_ok g" "set publishers \<subseteq> set (ig_NODEID g)" "set subscribers \<subseteq> set (ig_NODEID g)"
    and "\<forall>s \<in> set subscribers. reachable g publishers s" "subscribers \<noteq> []"
    and "s \<in> set (ig_NODEID g)" "\<not> reachable g publishers s"
  shows "\<exists>t result FID. readTopology g TM = Some t \<and> calculateFID g t publishers (subscribers @ [s]) = Some result \<and>
      hm_get result (nearest g publishers (last subscribers)) = Some (Some FID) \<and>
      (\<forall>i < 256. bv_bit FID i = route_bits g (nearest g publishers (last subscribers)) (last subscribers) i) \<and>
      calculateFID g t publishers (s # others) = None"
proof -
  from readTopology_ok [OF assms(1)] obtain t where t: "readTopology g TM = Some t" "tables_ok g t" by blast
  from unreachable_aux [OF assms(1) t(2) assms(2-7) refl] t(1) show ?thesis unfolding route_fid_def by blast
qed

theorem unreachable_subscriber_witness:
  "\<exists>t result FID. readTopology ex_topology (ex_node 65) = Some t \<and>
     calculateFID ex_topology t [ex_node 65, ex_node 67] [ex_node 66, ex_node 67, ex_node 68] = Some result \<and>
     hm_get result (nearest ex_topology [ex_node 65, ex_node 67] (ex_node 67)) = Some (Some FID) \<and>
     calculateFID ex_topology t [ex_node 65, ex_node 67] [ex_node 68] = None"
  using unreachable_subscriber [OF ex_topology_ok, of "[ex_node 65, ex_node 67]" "[ex_node 66, ex_node 67]" "ex_node 68" "ex_node 65" "[]"]
    ex_nodes ex_reach by auto

text \<open>
  C17. A request of the rendezvous element to match publishers and subscribers is answered to every publisher, in
  the order of their names, with one message each under the publisher's own notification identifier and
  along the links of the route to it: START_PUBLISH with the request's identifiers and the
  publisher's forwarding identifier, or STOP_PUBLISH with the identifiers alone. That needs two readable
  bytes behind the request, because the copy of the identifiers starts two bytes in and is not
  shortened; without them the manager reads past its buffer.
\<close>

theorem match_is_answered:
  assumes "topology_ok g" "TM \<in> set (ig_NODEID g)" "nodes_ok g pubs" "nodes_ok g subs" "ids_part_ok ids"
    and "sock_fd ba \<noteq> -1" "\<forall>s \<in> set subs. reachable g (std_set pubs) s"
  shows "\<exists>t result ms. readTopology g TM = Some t \<and> calculateFID g t (std_set pubs) (std_set subs) = Some result \<and>
      map fst result = std_set pubs \<and>
      handleRequest g t (cells (match_bytes strategy pubs subs ids)) slack ba =
        (if length slack < 2 then None else Some (sends ms ba)) \<and>
      list_all2 (\<lambda>(p, entry) m. \<exists>FID. route_fid g TM p FID \<and>
        m = response_message ba p (fid_bytes FID) (publisher_response (cells ids) entry)) result ms"
proof -
  from readTopology_ok [OF assms(1)] obtain t where t: "readTopology g TM = Some t" "tables_ok g t" "tm_nodeID t = TM" by blast
  have sub: "set (std_set pubs) \<subseteq> set (ig_NODEID g)" "set (std_set subs) \<subseteq> set (ig_NODEID g)"
    using assms(3,4) by (simp_all add: std_set_ok nodes_ok_def)
  from calculateFID_ok [OF assms(1) t(2) sub] assms(7) obtain res where
    r: "calculateFID g t (std_set pubs) (std_set subs) = Some res" "result_ok g (std_set pubs) (std_set subs) res" by (auto simp: std_set_ok)
  from notify_publishers_ok [OF assms(1) t(2) _ assms(6) entries_ok [OF sub(1) std_set_ok(2) r(2)]] assms(2) t(3) obtain ms where
    "fold_opt (notify_publisher g t (cells ids)) res ba = Some (sends ms ba)"
    "list_all2 (\<lambda>(p, e) m. \<exists>f. route_fid g TM p f \<and> m = response_message ba p (fid_bytes f) (publisher_response (cells ids) e)) res ms" by blast
  with t(1) r show ?thesis
    by (intro exI [of _ t] exI [of _ res] exI [of _ ms]) (simp add: handle_match_ok [OF assms(1,3-5)] result_by_def)
qed

definition ex_ba :: blackadder where
  "ex_ba = \<lparr>sock_fd = 3, ba_pid = 7, ba_sent = []\<rparr>"

theorem match_is_answered_witness:
  "\<exists>t (result :: tm_result) ms. readTopology ex_topology (ex_node 65) = Some t \<and>
     calculateFID ex_topology t [ex_node 65, ex_node 67] (std_set [ex_node 66]) = Some result \<and> map fst result = [ex_node 65, ex_node 67] \<and> length ms = 2 \<and>
     handleRequest ex_topology t (cells (match_bytes IMPLICIT_RENDEZVOUS [ex_node 67, ex_node 65] [ex_node 66] (1 # 1 # replicate 8 9)))
       [None, None] ex_ba = Some (sends ms ex_ba)"
proof -
  have s: "std_set [ex_node 67, ex_node 65] = [ex_node 65, ex_node 67]" by code_simp
  have n: "nodes_ok ex_topology [ex_node 67, ex_node 65]" "nodes_ok ex_topology [ex_node 66]" using ex_nodes by (auto simp: nodes_ok_def)
  have i: "ids_part_ok (1 # 1 # replicate 8 9)" by (simp add: ids_part_ok_def)
  have f: "sock_fd ex_ba \<noteq> -1" by (simp add: ex_ba_def)
  have r: "\<forall>s \<in> set [ex_node 66]. reachable ex_topology (std_set [ex_node 67, ex_node 65]) s" using ex_reach by (simp add: s)
  have t: "ex_node 65 \<in> set (ig_NODEID ex_topology)" using ex_nodes by simp
  have two: "(length [None :: cell, None] < 2) = False" by simp
  note ans = match_is_answered [OF ex_topology_ok t n i f r, of IMPLICIT_RENDEZVOUS "[None, None]"]
  from ans obtain t result ms where
    "readTopology ex_topology (ex_node 65) = Some t"
    "calculateFID ex_topology t [ex_node 65, ex_node 67] (std_set [ex_node 66]) = Some result" "map fst result = [ex_node 65, ex_node 67]"
    "handleRequest ex_topology t (cells (match_bytes IMPLICIT_RENDEZVOUS [ex_node 67, ex_node 65] [ex_node 66] (1 # 1 # replicate 8 9)))
       [None, None] ex_ba = Some (sends ms ex_ba)" "length result = length ms"
    unfolding s two if_False by (elim exE conjE) (rule that, assumption+, erule list_all2_lengthD)
  then show ?thesis by (metis length_map length_Cons list.size(3) numeral_2_eq_2)
qed

end
