(* ===== verification/BA_InfoGraph.thy ===== *)
theory BA_InfoGraph
  imports BA_GlobalConf
begin

text \<open>
  The information graph of a rendezvous node: \<^verbatim>\<open>src/scope.cc\<close>,
  \<^verbatim>\<open>src/informationitem.cc\<close>, \<^verbatim>\<open>src/remotehost.cc\<close> and the
  containers of \<^verbatim>\<open>src/common.hh\<close>, over an explicit heap.

  Scopes and information items are heap objects, named by addresses that are never used again, so
  that a dereference of a deleted object is \<open>None\<close>. A \<^verbatim>\<open>RemoteHost *\<close> is
  named by its node label: the rendezvous element keeps one host per label and deletes hosts only at
  cleanup. An iterator runs over the elements its container had when the loop began; where the code
  erases the current element of the container it iterates (\<^verbatim>\<open>unpublish_scope\<close>) that
  is what Click's table does.
\<close>

subsection \<open>Data\<close>

type_synonym addr = nat
type_synonym host = bstr

text \<open>\<^verbatim>\<open>RemoteHostPair\<close>: the publishers and the subscribers under one identifier.\<close>

type_synonym host_pair = "host list \<times> host list"
type_synonym ids = "(bstr, host_pair) htab"

record scope =
  sc_ids :: ids
  isRoot :: bool
  fatherScopes :: "addr list"
  childrenScopes :: "addr list"
  informationitems :: "addr list"
  sc_strategy :: byte

record item =
  it_ids :: ids
  it_fatherScopes :: "addr list"
  it_strategy :: byte

record remote_host =
  publishedScopes :: "bstr list"
  publishedInformationItems :: "bstr list"
  subscribedScopes :: "bstr list"
  subscribedInformationItems :: "bstr list"

text \<open>
  What the rendezvous element sends to the local proxy; the packets that carry it are laid out in
  the theory of the element.
\<close>

datatype rv_msg =
    TM_Rendezvous byte "host list" "host list" "bstr list"
  | TM_Notify byte byte "host list" "bstr list"
  | Local_Publisher bool "bstr list"
  | Local_Subscriber byte "bstr list"

record rv =
  rv_gc :: globalconf
  rv_localProxy :: host
  rv_scopes :: "addr \<Rightarrow> scope option"
  rv_items :: "addr \<Rightarrow> item option"
  rv_next :: addr
  pub_sub_Index :: "(bstr, remote_host) htab"
  scopeIndex :: "(bstr, addr) htab"
  pubIndex :: "(bstr, addr) htab"
  rv_msgs :: "rv_msg list"
  rv_out :: "packet list"

definition new_remote_host :: remote_host where
  "new_remote_host = \<lparr>publishedScopes = [], publishedInformationItems = [], subscribedScopes = [],
     subscribedInformationItems = []\<rparr>"

subsection \<open>Heap access\<close>

definition put_scope :: "addr \<Rightarrow> scope \<Rightarrow> rv \<Rightarrow> rv" where
  "put_scope a sc s = s\<lparr>rv_scopes := (rv_scopes s)(a := Some sc)\<rparr>"

definition put_item :: "addr \<Rightarrow> item \<Rightarrow> rv \<Rightarrow> rv" where
  "put_item a it s = s\<lparr>rv_items := (rv_items s)(a := Some it)\<rparr>"

definition delete_scope :: "addr \<Rightarrow> rv \<Rightarrow> rv" where
  "delete_scope a s = s\<lparr>rv_scopes := (rv_scopes s)(a := None)\<rparr>"

definition delete_item :: "addr \<Rightarrow> rv \<Rightarrow> rv" where
  "delete_item a s = s\<lparr>rv_items := (rv_items s)(a := None)\<rparr>"

definition scopeIndex_set :: "bstr \<Rightarrow> addr \<Rightarrow> rv \<Rightarrow> rv" where
  "scopeIndex_set x a s = s\<lparr>scopeIndex := hm_set x a (scopeIndex s)\<rparr>"

definition pubIndex_set :: "bstr \<Rightarrow> addr \<Rightarrow> rv \<Rightarrow> rv" where
  "pubIndex_set x a s = s\<lparr>pubIndex := hm_set x a (pubIndex s)\<rparr>"

definition scopeIndex_erase :: "bstr \<Rightarrow> rv \<Rightarrow> rv" where
  "scopeIndex_erase x s = s\<lparr>scopeIndex := hm_erase x (scopeIndex s)\<rparr>"

definition pubIndex_erase :: "bstr \<Rightarrow> rv \<Rightarrow> rv" where
  "pubIndex_erase x s = s\<lparr>pubIndex := hm_erase x (pubIndex s)\<rparr>"

subsection \<open>Constructors\<close>

text \<open>\<^verbatim>\<open>new Scope(strategy, father)\<close>: linked to its father from the start.\<close>

definition Scope_new :: "byte \<Rightarrow> addr option \<Rightarrow> rv \<Rightarrow> (addr \<times> rv) option" where
  "Scope_new strategy father s = (let this = rv_next s; s = s\<lparr>rv_next := Suc this\<rparr> in
     case father of
       None \<Rightarrow> Some (this, put_scope this \<lparr>sc_ids = [], isRoot = True, fatherScopes = [],
         childrenScopes = [], informationitems = [], sc_strategy = strategy\<rparr> s)
     | Some f \<Rightarrow> do {
         fsc \<leftarrow> rv_scopes s f;
         let s = put_scope this \<lparr>sc_ids = [], isRoot = False, fatherScopes = [f],
           childrenScopes = [], informationitems = [], sc_strategy = strategy\<rparr> s;
         Some (this, put_scope f (fsc\<lparr>childrenScopes := hs_insert this (childrenScopes fsc)\<rparr>) s)
       })"

definition InformationItem_new :: "byte \<Rightarrow> addr \<Rightarrow> rv \<Rightarrow> (addr \<times> rv) option" where
  "InformationItem_new strategy f s = do {
     let this = rv_next s;
     fsc \<leftarrow> rv_scopes s f;
     let s = put_item this \<lparr>it_ids = [], it_fatherScopes = [f], it_strategy = strategy\<rparr> (s\<lparr>rv_next := Suc this\<rparr>);
     Some (this, put_scope f (fsc\<lparr>informationitems := hs_insert this (informationitems fsc)\<rparr>) s)
   }"

subsection \<open>Publishers and subscribers of an identifier\<close>

definition ids_add_publisher :: "bstr \<Rightarrow> host \<Rightarrow> ids \<Rightarrow> bool \<times> ids" where
  "ids_add_publisher fullID h ids = (case hm_get ids fullID of
     Some (ps, ss) \<Rightarrow> if h \<notin> set ps then (True, hm_set fullID (hs_insert h ps, ss) ids) else (False, ids)
   | None \<Rightarrow> (True, hm_set fullID ([h], []) ids))"

definition ids_add_subscriber :: "bstr \<Rightarrow> host \<Rightarrow> ids \<Rightarrow> bool \<times> ids" where
  "ids_add_subscriber fullID h ids = (case hm_get ids fullID of
     Some (ps, ss) \<Rightarrow> if h \<notin> set ss then (True, hm_set fullID (ps, hs_insert h ss) ids) else (False, ids)
   | None \<Rightarrow> (True, hm_set fullID ([], [h]) ids))"

definition Scope_updatePublishers :: "addr \<Rightarrow> bstr \<Rightarrow> host \<Rightarrow> rv \<Rightarrow> (bool \<times> rv) option" where
  "Scope_updatePublishers this fullID h s = do {
     sc \<leftarrow> rv_scopes s this;
     let (added, ids) = ids_add_publisher fullID h (sc_ids sc);
     Some (added, put_scope this (sc\<lparr>sc_ids := ids\<rparr>) s)
   }"

definition Scope_updateSubscribers :: "addr \<Rightarrow> bstr \<Rightarrow> host \<Rightarrow> rv \<Rightarrow> (bool \<times> rv) option" where
  "Scope_updateSubscribers this fullID h s = do {
     sc \<leftarrow> rv_scopes s this;
     let (added, ids) = ids_add_subscriber fullID h (sc_ids sc);
     Some (added, put_scope this (sc\<lparr>sc_ids := ids\<rparr>) s)
   }"

definition InformationItem_updatePublishers :: "addr \<Rightarrow> bstr \<Rightarrow> host \<Rightarrow> rv \<Rightarrow> (bool \<times> rv) option" where
  "InformationItem_updatePublishers this fullID h s = do {
     it \<leftarrow> rv_items s this;
     let (added, ids) = ids_add_publisher fullID h (it_ids it);
     Some (added, put_item this (it\<lparr>it_ids := ids\<rparr>) s)
   }"

definition InformationItem_updateSubscribers :: "addr \<Rightarrow> bstr \<Rightarrow> host \<Rightarrow> rv \<Rightarrow> (bool \<times> rv) option" where
  "InformationItem_updateSubscribers this fullID h s = do {
     it \<leftarrow> rv_items s this;
     let (added, ids) = ids_add_subscriber fullID h (it_ids it);
     Some (added, put_item this (it\<lparr>it_ids := ids\<rparr>) s)
   }"

subsection \<open>Identifiers inherited from the fathers\<close>

text \<open>The last fragment of an identifier, and of the first identifier of an object.\<close>

definition suffix_of :: "bstr \<Rightarrow> bstr" where
  "suffix_of x = substring (int (length x) - int PURSUIT_ID_LEN) (int PURSUIT_ID_LEN) x"

definition first_suffix :: "ids \<Rightarrow> bstr option" where
  "first_suffix ids = (case ids of [] \<Rightarrow> None | e # _ \<Rightarrow> Some (suffix_of (fst e)))"

text \<open>An identifier an object does not have yet is indexed and gets an empty pair.\<close>

definition scope_add_id :: "addr \<Rightarrow> bstr \<Rightarrow> rv \<Rightarrow> rv option" where
  "scope_add_id this fullID s = do {
     sc \<leftarrow> rv_scopes s this;
     case hm_get (sc_ids sc) fullID of
       Some _ \<Rightarrow> Some s
     | None \<Rightarrow> Some (put_scope this (sc\<lparr>sc_ids := hm_set fullID ([], []) (sc_ids sc)\<rparr>)
                    (scopeIndex_set fullID this s))
   }"

definition item_add_id :: "addr \<Rightarrow> bstr \<Rightarrow> rv \<Rightarrow> rv option" where
  "item_add_id this fullID s = do {
     it \<leftarrow> rv_items s this;
     case hm_get (it_ids it) fullID of
       Some _ \<Rightarrow> Some s
     | None \<Rightarrow> Some (put_item this (it\<lparr>it_ids := hm_set fullID ([], []) (it_ids it)\<rparr>)
                    (pubIndex_set fullID this s))
   }"

definition scope_inherit :: "addr \<Rightarrow> bstr \<Rightarrow> addr \<Rightarrow> rv \<Rightarrow> rv option" where
  "scope_inherit this suffixID f s = do {
     fsc \<leftarrow> rv_scopes s f;
     fold_opt (\<lambda>x. scope_add_id this (x @ suffixID)) (hm_keys (sc_ids fsc)) s
   }"

definition item_inherit :: "addr \<Rightarrow> bstr \<Rightarrow> addr \<Rightarrow> rv \<Rightarrow> rv option" where
  "item_inherit this suffixID f s = do {
     fsc \<leftarrow> rv_scopes s f;
     fold_opt (\<lambda>x. item_add_id this (x @ suffixID)) (hm_keys (sc_ids fsc)) s
   }"

definition InformationItem_updateIDs :: "addr \<Rightarrow> bstr \<Rightarrow> rv \<Rightarrow> rv option" where
  "InformationItem_updateIDs this suffixID s = do {
     it \<leftarrow> rv_items s this;
     fold_opt (item_inherit this suffixID) (it_fatherScopes it) s
   }"

definition item_refresh :: "addr \<Rightarrow> rv \<Rightarrow> rv option" where
  "item_refresh i s = do {
     it \<leftarrow> rv_items s i;
     tempSuffix \<leftarrow> first_suffix (it_ids it);
     InformationItem_updateIDs i tempSuffix s
   }"

text \<open>
  \<^verbatim>\<open>Scope::recursivelyUpdateIDs\<close>. The recursion follows every child whatever has
  changed, so it never ends when the graph has a cycle below the scope: then the fuel, the number of
  objects allocated so far, runs out, and it does not otherwise
  (\<open>recursivelyUpdateIDs_None_iff\<close>).
\<close>

primrec recursivelyUpdateIDs :: "nat \<Rightarrow> addr \<Rightarrow> bstr \<Rightarrow> rv \<Rightarrow> rv option" where
  "recursivelyUpdateIDs 0 this suffixID s = None"
| "recursivelyUpdateIDs (Suc n) this suffixID s = do {
     sc \<leftarrow> rv_scopes s this;
     s \<leftarrow> fold_opt (scope_inherit this suffixID) (fatherScopes sc) s;
     s \<leftarrow> fold_opt (\<lambda>c s. do {
         csc \<leftarrow> rv_scopes s c;
         tempSuffix \<leftarrow> first_suffix (sc_ids csc);
         recursivelyUpdateIDs n c tempSuffix s
       }) (childrenScopes sc) s;
     fold_opt item_refresh (informationitems sc) s
   }"

definition Scope_recursivelyUpdateIDs :: "addr \<Rightarrow> bstr \<Rightarrow> rv \<Rightarrow> rv option" where
  "Scope_recursivelyUpdateIDs this suffixID s = recursivelyUpdateIDs (rv_next s) this suffixID s"

subsection \<open>Queries\<close>

text \<open>A pair that is not there is a \<^verbatim>\<open>NULL\<close> the code dereferences.\<close>

definition pair_used :: "host_pair \<Rightarrow> bool" where
  "pair_used pr \<longleftrightarrow> fst pr \<noteq> [] \<or> snd pr \<noteq> []"

fun any_pair_used :: "ids \<Rightarrow> bstr list \<Rightarrow> bool option" where
  "any_pair_used ids [] = Some False"
| "any_pair_used ids (x # xs) = do {
     pr \<leftarrow> hm_get ids x;
     if pair_used pr then Some True else any_pair_used ids xs
   }"

definition Scope_checkForOtherPubSub :: "addr \<Rightarrow> addr option \<Rightarrow> rv \<Rightarrow> bool option" where
  "Scope_checkForOtherPubSub this father s = do {
     sc \<leftarrow> rv_scopes s this;
     case father of
       Some f \<Rightarrow> do {
         suffixID \<leftarrow> first_suffix (sc_ids sc);
         fsc \<leftarrow> rv_scopes s f;
         any_pair_used (sc_ids sc) (map (\<lambda>x. x @ suffixID) (hm_keys (sc_ids fsc)))
       }
     | None \<Rightarrow> any_pair_used (sc_ids sc) (hm_keys (sc_ids sc))
   }"

definition InformationItem_checkForOtherPubSub :: "addr \<Rightarrow> addr \<Rightarrow> rv \<Rightarrow> bool option" where
  "InformationItem_checkForOtherPubSub this f s = do {
     it \<leftarrow> rv_items s this;
     suffixID \<leftarrow> first_suffix (it_ids it);
     fsc \<leftarrow> rv_scopes s f;
     any_pair_used (it_ids it) (map (\<lambda>x. x @ suffixID) (hm_keys (sc_ids fsc)))
   }"

definition ids_subscribers :: "ids \<Rightarrow> host list \<Rightarrow> host list" where
  "ids_subscribers ids acc = foldl (\<lambda>acc e. hs_union acc (snd (snd e))) acc ids"

definition ids_publishers :: "ids \<Rightarrow> host list \<Rightarrow> host list" where
  "ids_publishers ids acc = foldl (\<lambda>acc e. hs_union acc (fst (snd e))) acc ids"

definition Scope_getSubscribers :: "addr \<Rightarrow> host list \<Rightarrow> rv \<Rightarrow> host list option" where
  "Scope_getSubscribers this acc s = do { sc \<leftarrow> rv_scopes s this; Some (ids_subscribers (sc_ids sc) acc) }"

definition Scope_getInformationItems :: "addr \<Rightarrow> rv \<Rightarrow> addr list option" where
  "Scope_getInformationItems this s = do { sc \<leftarrow> rv_scopes s this; Some (hs_union [] (informationitems sc)) }"

definition Scope_getSubscopes :: "addr \<Rightarrow> rv \<Rightarrow> addr list option" where
  "Scope_getSubscopes this s = do { sc \<leftarrow> rv_scopes s this; Some (hs_union [] (childrenScopes sc)) }"

definition Scope_getIDs :: "addr \<Rightarrow> rv \<Rightarrow> bstr list option" where
  "Scope_getIDs this s = do { sc \<leftarrow> rv_scopes s this; Some (hs_union [] (hm_keys (sc_ids sc))) }"

definition InformationItem_getSubscribers :: "addr \<Rightarrow> host list \<Rightarrow> rv \<Rightarrow> host list option" where
  "InformationItem_getSubscribers this acc s = do { it \<leftarrow> rv_items s this; Some (ids_subscribers (it_ids it) acc) }"

definition InformationItem_getPublishers :: "addr \<Rightarrow> host list \<Rightarrow> rv \<Rightarrow> host list option" where
  "InformationItem_getPublishers this acc s = do { it \<leftarrow> rv_items s this; Some (ids_publishers (it_ids it) acc) }"

subsection \<open>Printing\<close>

definition hex_digit :: "nat \<Rightarrow> char" where
  "hex_digit n = ''0123456789ABCDEF'' ! n"

text \<open>
  The characters the loop writes from byte number \<open>i\<close> on: two digits for each byte and a slash
  whenever the number of bytes written so far is a multiple of the fragment length.
\<close>

fun print_bytes :: "nat \<Rightarrow> bstr \<Rightarrow> string" where
  "print_bytes i [] = []"
| "print_bytes i (x # xs) = hex_digit (unat x div 16) # hex_digit (unat x mod 16) #
     (if Suc i mod PURSUIT_ID_LEN * 2 = 0 then CHR ''/'' # print_bytes (Suc i) xs else print_bytes (Suc i) xs)"

text \<open>
  The buffer is reserved with \<open>length * 2 + fragments\<close> characters; the string taken from it has
  exactly that many, whatever was written.
\<close>

definition print_ID :: "bstr \<Rightarrow> string" where
  "print_ID x = take (length x * 2 + length x div PURSUIT_ID_LEN) (CHR ''/'' # print_bytes 0 x)"

definition printID :: "ids \<Rightarrow> string option" where
  "printID ids = (case ids of [] \<Rightarrow> None | e # _ \<Rightarrow> Some (print_ID (fst e)))"

definition printID_index :: "nat \<Rightarrow> ids \<Rightarrow> string" where
  "printID_index index ids = (if index < length ids then print_ID (fst (ids ! index)) else [])"

fun printIDs_from :: "nat \<Rightarrow> char \<Rightarrow> ids \<Rightarrow> string" where
  "printIDs_from i delim [] = []"
| "printIDs_from i delim (e # ids) =
     CHR ''/'' # print_bytes i (fst e) @ delim # printIDs_from (i + length (fst e)) delim ids"

definition printIDs :: "char \<Rightarrow> ids \<Rightarrow> string" where
  "printIDs delim ids = printIDs_from 0 delim ids"

end
