(* ===== verification/BA_LocalRV.thy ===== *)
theory BA_LocalRV
  imports BA_InfoGraph BA_Wire
begin

text \<open>
  The rendezvous element \<^verbatim>\<open>src/localrv.cc\<close>: the requests of publishers and
  subscribers, the rendezvous, the messages to the topology manager and to the local proxy, and the
  packets that carry them. A request returns the result code and the new state.

  The messages of a request are collected in \<open>rv_msgs\<close> and laid out byte by byte when the
  request is done (\<open>LocalRV_push\<close>): a packet is a function of what the code has in hand
  when it sends, and a buffer over-run in any of them makes the whole request undefined.
\<close>

type_synonym 'a rv_m = "rv \<Rightarrow> ('a \<times> rv) option"

subsection \<open>Hosts\<close>

definition getRemoteHost :: "bstr \<Rightarrow> rv \<Rightarrow> host \<times> rv" where
  "getRemoteHost node s = (case hm_get (pub_sub_Index s) node of
     None \<Rightarrow> (node, s\<lparr>pub_sub_Index := hm_set node new_remote_host (pub_sub_Index s)\<rparr>)
   | Some _ \<Rightarrow> (node, s))"

definition update_host :: "host \<Rightarrow> (remote_host \<Rightarrow> remote_host) \<Rightarrow> rv \<Rightarrow> rv option" where
  "update_host h f s = do {
     rh \<leftarrow> hm_get (pub_sub_Index s) h;
     Some (s\<lparr>pub_sub_Index := hm_set h (f rh) (pub_sub_Index s)\<rparr>)
   }"

definition host_add_scope :: "host \<Rightarrow> bstr \<Rightarrow> rv \<Rightarrow> rv option" where
  "host_add_scope h x = update_host h (\<lambda>r. r\<lparr>publishedScopes := hs_insert x (publishedScopes r)\<rparr>)"

definition host_add_info :: "host \<Rightarrow> bstr \<Rightarrow> rv \<Rightarrow> rv option" where
  "host_add_info h x = update_host h (\<lambda>r. r\<lparr>publishedInformationItems := hs_insert x (publishedInformationItems r)\<rparr>)"

definition host_sub_scope :: "host \<Rightarrow> bstr \<Rightarrow> rv \<Rightarrow> rv option" where
  "host_sub_scope h x = update_host h (\<lambda>r. r\<lparr>subscribedScopes := hs_insert x (subscribedScopes r)\<rparr>)"

definition host_sub_info :: "host \<Rightarrow> bstr \<Rightarrow> rv \<Rightarrow> rv option" where
  "host_sub_info h x = update_host h (\<lambda>r. r\<lparr>subscribedInformationItems := hs_insert x (subscribedInformationItems r)\<rparr>)"

definition host_del_scope :: "host \<Rightarrow> bstr \<Rightarrow> rv \<Rightarrow> rv option" where
  "host_del_scope h x = update_host h (\<lambda>r. r\<lparr>publishedScopes := hs_erase x (publishedScopes r)\<rparr>)"

definition host_del_info :: "host \<Rightarrow> bstr \<Rightarrow> rv \<Rightarrow> rv option" where
  "host_del_info h x = update_host h (\<lambda>r. r\<lparr>publishedInformationItems := hs_erase x (publishedInformationItems r)\<rparr>)"

definition host_unsub_scope :: "host \<Rightarrow> bstr \<Rightarrow> rv \<Rightarrow> rv option" where
  "host_unsub_scope h x = update_host h (\<lambda>r. r\<lparr>subscribedScopes := hs_erase x (subscribedScopes r)\<rparr>)"

definition host_unsub_info :: "host \<Rightarrow> bstr \<Rightarrow> rv \<Rightarrow> rv option" where
  "host_unsub_info h x = update_host h (\<lambda>r. r\<lparr>subscribedInformationItems := hs_erase x (subscribedInformationItems r)\<rparr>)"

subsection \<open>Messages\<close>

definition send_msg :: "rv_msg \<Rightarrow> rv \<Rightarrow> rv" where
  "send_msg m s = s\<lparr>rv_msgs := rv_msgs s @ [m]\<rparr>"

definition notifySubscribers :: "byte \<Rightarrow> bstr list \<Rightarrow> byte \<Rightarrow> host list \<Rightarrow> rv \<Rightarrow> rv" where
  "notifySubscribers type IDs strategy subscribers s =
     (if strategy = NODE_LOCAL
      then (if rv_localProxy s \<in> set subscribers then send_msg (Local_Subscriber type IDs) s else s)
      else (if length subscribers > 0 then send_msg (TM_Notify type strategy subscribers IDs) s else s))"

definition rendezvous :: "addr \<Rightarrow> host list \<Rightarrow> rv \<Rightarrow> rv option" where
  "rendezvous pub subscribers s = do {
     publishers \<leftarrow> InformationItem_getPublishers pub [] s;
     it \<leftarrow> rv_items s pub;
     let IDs = hm_keys (it_ids it);
     Some (if length publishers > 0
       then (if it_strategy it = NODE_LOCAL
             then send_msg (Local_Publisher (length subscribers > 0) IDs) s
             else if it_strategy it = DOMAIN_LOCAL
             then send_msg (TM_Rendezvous (it_strategy it) publishers subscribers IDs) s
             else s)
       else s)
   }"

text \<open>The subscribers of an item: its own and those of all its father scopes.\<close>

fun fathers_subscribers :: "addr list \<Rightarrow> host list \<Rightarrow> rv \<Rightarrow> host list option" where
  "fathers_subscribers [] acc s = Some acc"
| "fathers_subscribers (f # fs) acc s = do {
     acc \<leftarrow> Scope_getSubscribers f acc s;
     fathers_subscribers fs acc s
   }"

definition rendezvous_all :: "addr \<Rightarrow> rv \<Rightarrow> rv option" where
  "rendezvous_all pub s = do {
     subscribers \<leftarrow> InformationItem_getSubscribers pub [] s;
     it \<leftarrow> rv_items s pub;
     subscribers \<leftarrow> fathers_subscribers (it_fatherScopes it) subscribers s;
     rendezvous pub subscribers s
   }"

definition notify_new_scope :: "addr \<Rightarrow> addr \<Rightarrow> (bstr list \<Rightarrow> bstr list) \<Rightarrow> byte \<Rightarrow> rv \<Rightarrow> rv option" where
  "notify_new_scope father a sel type s = do {
     subscribers \<leftarrow> Scope_getSubscribers father [] s;
     IDs \<leftarrow> Scope_getIDs a s;
     sc \<leftarrow> rv_scopes s a;
     Some (notifySubscribers type (sel IDs) (sc_strategy sc) subscribers s)
   }"

subsection \<open>Publishing scopes\<close>

text \<open>Recording a publisher or subscriber of a scope, on the scope and on the host.\<close>

definition scope_publisher :: "addr \<Rightarrow> bstr \<Rightarrow> host \<Rightarrow> (rv \<Rightarrow> rv option) \<Rightarrow> rv_ret rv_m" where
  "scope_publisher a fullID h andthen s = do {
     (added, s) \<leftarrow> Scope_updatePublishers a fullID h s;
     if added then do {
       s \<leftarrow> host_add_scope h fullID s;
       s \<leftarrow> andthen s;
       Some (SUCCESS, s)
     } else Some (EXISTS, s)
   }"

definition scope_subscriber :: "addr \<Rightarrow> bstr \<Rightarrow> host \<Rightarrow> (rv \<Rightarrow> rv option) \<Rightarrow> rv_ret rv_m" where
  "scope_subscriber a fullID h andthen s = do {
     (added, s) \<leftarrow> Scope_updateSubscribers a fullID h s;
     if added then do {
       s \<leftarrow> host_sub_scope h fullID s;
       s \<leftarrow> andthen s;
       Some (SUCCESS, s)
     } else Some (EXISTS, s)
   }"

definition publish_root_scope :: "host \<Rightarrow> bstr \<Rightarrow> byte \<Rightarrow> rv_ret rv_m" where
  "publish_root_scope h ID strategy s = (case hm_get (scopeIndex s) ID of
     None \<Rightarrow> do {
       (a, s) \<leftarrow> Scope_new strategy None s;
       let s = scopeIndex_set ID a s;
       scope_publisher a ID h Some s
     }
   | Some a \<Rightarrow> do {
       sc \<leftarrow> rv_scopes s a;
       if sc_strategy sc = strategy then scope_publisher a ID h Some s
       else Some (STRATEGY_MISMATCH, s)
     })"

definition publish_inner_scope :: "host \<Rightarrow> bstr \<Rightarrow> bstr \<Rightarrow> byte \<Rightarrow> rv_ret rv_m" where
  "publish_inner_scope h ID prefixID strategy s = (let fullID = prefixID @ ID in
     if hm_get (pubIndex s) fullID \<noteq> None then Some (INFO_ITEM_WITH_SAME_ID, s)
     else case hm_get (scopeIndex s) prefixID of
       None \<Rightarrow> Some (FATHER_DOES_NOT_EXIST, s)
     | Some father \<Rightarrow> (case hm_get (scopeIndex s) fullID of
         None \<Rightarrow> do {
           fsc \<leftarrow> rv_scopes s father;
           if sc_strategy fsc = strategy then do {
             (a, s) \<leftarrow> Scope_new strategy (Some father) s;
             s \<leftarrow> Scope_recursivelyUpdateIDs a (suffix_of fullID) s;
             scope_publisher a fullID h (notify_new_scope father a (\<lambda>x. x) SCOPE_PUBLISHED) s
           } else Some (STRATEGY_MISMATCH, s)
         }
       | Some a \<Rightarrow> do {
           sc \<leftarrow> rv_scopes s a;
           if sc_strategy sc = strategy then scope_publisher a fullID h Some s
           else Some (STRATEGY_MISMATCH, s)
         }))"

definition republish_inner_scope :: "host \<Rightarrow> bstr \<Rightarrow> bstr \<Rightarrow> byte \<Rightarrow> rv_ret rv_m" where
  "republish_inner_scope h ID prefixID strategy s = (let
     suffixID = suffix_of ID;
     fullID = prefixID @ suffixID;
     existingPrefixID = substring 0 (int (length ID) - int PURSUIT_ID_LEN) ID in
     if hm_get (pubIndex s) fullID \<noteq> None then Some (INFO_ITEM_WITH_SAME_ID, s)
     else case hm_get (scopeIndex s) prefixID of
       None \<Rightarrow> Some (FATHER_DOES_NOT_EXIST, s)
     | Some father \<Rightarrow> (case hm_get (scopeIndex s) ID of
         None \<Rightarrow> Some (SCOPE_DOES_NOT_EXIST, s)
       | Some existing \<Rightarrow> (case hm_get (scopeIndex s) fullID of
           None \<Rightarrow> do {
             fsc \<leftarrow> rv_scopes s father;
             if sc_strategy fsc = strategy then do {
               esc \<leftarrow> rv_scopes s existing;
               let s = put_scope existing (esc\<lparr>fatherScopes := hs_insert father (fatherScopes esc)\<rparr>) s;
               fsc \<leftarrow> rv_scopes s father;
               let s = put_scope father (fsc\<lparr>childrenScopes := hs_insert existing (childrenScopes fsc)\<rparr>) s;
               s \<leftarrow> Scope_recursivelyUpdateIDs existing suffixID s;
               scope_publisher existing fullID h
                 (notify_new_scope father existing (hs_erase (existingPrefixID @ suffixID)) SCOPE_PUBLISHED) s
             } else Some (STRATEGY_MISMATCH, s)
           }
         | Some equivalent \<Rightarrow> do {
             sc \<leftarrow> rv_scopes s equivalent;
             if sc_strategy sc = strategy then scope_publisher equivalent fullID h Some s
             else Some (STRATEGY_MISMATCH, s)
           })))"

definition publish_scope :: "host \<Rightarrow> bstr \<Rightarrow> bstr \<Rightarrow> byte \<Rightarrow> rv_ret rv_m" where
  "publish_scope h ID prefixID strategy s =
     (if length prefixID = 0 \<and> length ID = PURSUIT_ID_LEN then publish_root_scope h ID strategy s
      else if length prefixID > 0 \<and> length ID = PURSUIT_ID_LEN then publish_inner_scope h ID prefixID strategy s
      else if length prefixID > 0 \<and> length ID > PURSUIT_ID_LEN then republish_inner_scope h ID prefixID strategy s
      else Some (WRONG_IDS, s))"

subsection \<open>Publishing information items\<close>

definition item_publisher :: "addr \<Rightarrow> bstr \<Rightarrow> host \<Rightarrow> (rv \<Rightarrow> rv option) \<Rightarrow> rv_ret rv_m" where
  "item_publisher a fullID h andthen s = do {
     (added, s) \<leftarrow> InformationItem_updatePublishers a fullID h s;
     if added then do {
       s \<leftarrow> host_add_info h fullID s;
       s \<leftarrow> andthen s;
       Some (SUCCESS, s)
     } else Some (EXISTS, s)
   }"

definition item_subscriber :: "addr \<Rightarrow> bstr \<Rightarrow> host \<Rightarrow> (rv \<Rightarrow> rv option) \<Rightarrow> rv_ret rv_m" where
  "item_subscriber a fullID h andthen s = do {
     (added, s) \<leftarrow> InformationItem_updateSubscribers a fullID h s;
     if added then do {
       s \<leftarrow> host_sub_info h fullID s;
       s \<leftarrow> andthen s;
       Some (SUCCESS, s)
     } else Some (EXISTS, s)
   }"

text \<open>The rendezvous of a new item: its subscribers and those of the one father it has.\<close>

definition rendezvous_new :: "addr \<Rightarrow> addr \<Rightarrow> rv \<Rightarrow> rv option" where
  "rendezvous_new father pub s = do {
     subscribers \<leftarrow> InformationItem_getSubscribers pub [] s;
     subscribers \<leftarrow> Scope_getSubscribers father subscribers s;
     rendezvous pub subscribers s
   }"

definition advertise_info :: "host \<Rightarrow> bstr \<Rightarrow> bstr \<Rightarrow> byte \<Rightarrow> rv_ret rv_m" where
  "advertise_info h ID prefixID strategy s = (let fullID = prefixID @ ID in
     case hm_get (scopeIndex s) prefixID of
       None \<Rightarrow> Some (FATHER_DOES_NOT_EXIST, s)
     | Some father \<Rightarrow> do {
         fsc \<leftarrow> rv_scopes s father;
         case hm_get (pubIndex s) fullID of
           None \<Rightarrow>
             if hm_get (scopeIndex s) fullID \<noteq> None then Some (SCOPE_WITH_SAME_ID, s)
             else if sc_strategy fsc = strategy then do {
               (pub, s) \<leftarrow> InformationItem_new (sc_strategy fsc) father s;
               s \<leftarrow> InformationItem_updateIDs pub (suffix_of fullID) s;
               item_publisher pub fullID h (rendezvous_new father pub) s
             } else Some (STRATEGY_MISMATCH, s)
         | Some pub \<Rightarrow>
             if sc_strategy fsc = strategy then item_publisher pub fullID h (rendezvous_all pub) s
             else Some (STRATEGY_MISMATCH, s)
       })"

definition readvertise_info :: "host \<Rightarrow> bstr \<Rightarrow> bstr \<Rightarrow> byte \<Rightarrow> rv_ret rv_m" where
  "readvertise_info h ID prefixID strategy s = (let
     suffixID = suffix_of ID;
     fullID = prefixID @ suffixID in
     if hm_get (scopeIndex s) fullID \<noteq> None then Some (SCOPE_WITH_SAME_ID, s)
     else case hm_get (scopeIndex s) prefixID of
       None \<Rightarrow> Some (FATHER_DOES_NOT_EXIST, s)
     | Some father \<Rightarrow> (case hm_get (pubIndex s) ID of
         None \<Rightarrow> Some (INFO_DOES_NOT_EXIST, s)
       | Some existing \<Rightarrow> do {
           fsc \<leftarrow> rv_scopes s father;
           case hm_get (pubIndex s) fullID of
             None \<Rightarrow>
               if sc_strategy fsc = strategy then do {
                 it \<leftarrow> rv_items s existing;
                 let s = put_item existing (it\<lparr>it_fatherScopes := hs_insert father (it_fatherScopes it)\<rparr>) s;
                 let s = put_scope father (fsc\<lparr>informationitems := hs_insert existing (informationitems fsc)\<rparr>) s;
                 s \<leftarrow> InformationItem_updateIDs existing suffixID s;
                 item_publisher existing fullID h (rendezvous_all existing) s
               } else Some (STRATEGY_MISMATCH, s)
           | Some equivalent \<Rightarrow>
               if sc_strategy fsc = strategy then item_publisher equivalent fullID h (rendezvous_all equivalent) s
               else Some (STRATEGY_MISMATCH, s)
         }))"

definition publish_info :: "host \<Rightarrow> bstr \<Rightarrow> bstr \<Rightarrow> byte \<Rightarrow> rv_ret rv_m" where
  "publish_info h ID prefixID strategy s =
     (if length prefixID > 0 \<and> length ID = PURSUIT_ID_LEN then advertise_info h ID prefixID strategy s
      else if length prefixID > 0 \<and> length ID > PURSUIT_ID_LEN then readvertise_info h ID prefixID strategy s
      else Some (WRONG_IDS, s))"

subsection \<open>Removing items\<close>

text \<open>\<^verbatim>\<open>for (it in pub->ids) pubIndex.erase(...); delete pub;\<close>\<close>

definition delete_item_everywhere :: "addr \<Rightarrow> addr \<Rightarrow> rv \<Rightarrow> rv option" where
  "delete_item_everywhere father pub s = do {
     fsc \<leftarrow> rv_scopes s father;
     let s = put_scope father (fsc\<lparr>informationitems := hs_erase pub (informationitems fsc)\<rparr>) s;
     it \<leftarrow> rv_items s pub;
     let s = fold pubIndex_erase (hm_keys (it_ids it)) s;
     Some (delete_item pub s)
   }"

text \<open>The branch of one father only: the pairs under that father's identifiers go.\<close>

definition item_del_id :: "addr \<Rightarrow> bstr \<Rightarrow> rv \<Rightarrow> rv option" where
  "item_del_id pub x s = do {
     it \<leftarrow> rv_items s pub;
     Some (pubIndex_erase x (put_item pub (it\<lparr>it_ids := hm_erase x (it_ids it)\<rparr>) s))
   }"

definition delete_item_branch :: "addr \<Rightarrow> addr \<Rightarrow> rv \<Rightarrow> rv option" where
  "delete_item_branch father pub s = do {
     fsc \<leftarrow> rv_scopes s father;
     let s = put_scope father (fsc\<lparr>informationitems := hs_erase pub (informationitems fsc)\<rparr>) s;
     it \<leftarrow> rv_items s pub;
     let s = put_item pub (it\<lparr>it_fatherScopes := hs_erase father (it_fatherScopes it)\<rparr>) s;
     suffixID \<leftarrow> first_suffix (it_ids it);
     fold_opt (\<lambda>x. item_del_id pub (x @ suffixID)) (hm_keys (sc_ids fsc)) s
   }"

definition unpublish_info :: "host \<Rightarrow> bstr \<Rightarrow> bstr \<Rightarrow> byte \<Rightarrow> rv_ret rv_m" where
  "unpublish_info h ID prefixID strategy s = (let fullID = prefixID @ ID in
     case hm_get (pubIndex s) fullID of
       None \<Rightarrow> Some (INFO_DOES_NOT_EXIST, s)
     | Some pub \<Rightarrow> do {
         father \<leftarrow> hm_get (scopeIndex s) prefixID;
         fsc \<leftarrow> rv_scopes s father;
         if sc_strategy fsc = strategy then do {
           it \<leftarrow> rv_items s pub;
           pr \<leftarrow> hm_get (it_ids it) fullID;
           if h \<in> set (fst pr) then do {
             let s = put_item pub (it\<lparr>it_ids := hm_set fullID (hs_erase h (fst pr), snd pr) (it_ids it)\<rparr>) s;
             s \<leftarrow> host_del_info h fullID s;
             others \<leftarrow> InformationItem_checkForOtherPubSub pub father s;
             s \<leftarrow> (if length (it_fatherScopes it) = 1
               then (if \<not> others then delete_item_everywhere father pub s else rendezvous_all pub s)
               else do {
                 s \<leftarrow> (if \<not> others then delete_item_branch father pub s else Some s);
                 rendezvous_all pub s
               });
             Some (SUCCESS, s)
           } else Some (DOES_NOT_EXIST, s)
         } else Some (STRATEGY_MISMATCH, s)
       })"

definition unsubscribe_info :: "host \<Rightarrow> bstr \<Rightarrow> bstr \<Rightarrow> byte \<Rightarrow> rv_ret rv_m" where
  "unsubscribe_info h ID prefixID strategy s = (let fullID = prefixID @ ID in
     case hm_get (pubIndex s) fullID of
       None \<Rightarrow> Some (INFO_DOES_NOT_EXIST, s)
     | Some pub \<Rightarrow> do {
         father \<leftarrow> hm_get (scopeIndex s) prefixID;
         fsc \<leftarrow> rv_scopes s father;
         if sc_strategy fsc = strategy then do {
           it \<leftarrow> rv_items s pub;
           pr \<leftarrow> hm_get (it_ids it) fullID;
           if h \<in> set (snd pr) then do {
             let s = put_item pub (it\<lparr>it_ids := hm_set fullID (fst pr, hs_erase h (snd pr)) (it_ids it)\<rparr>) s;
             s \<leftarrow> host_unsub_info h fullID s;
             s \<leftarrow> rendezvous_all pub s;
             others \<leftarrow> InformationItem_checkForOtherPubSub pub father s;
             s \<leftarrow> (if length (it_fatherScopes it) = 1
               then (if \<not> others then delete_item_everywhere father pub s else Some s)
               else (if \<not> others then delete_item_branch father pub s else Some s));
             Some (SUCCESS, s)
           } else Some (DOES_NOT_EXIST, s)
         } else Some (STRATEGY_MISMATCH, s)
       })"

subsection \<open>Removing scopes\<close>

text \<open>A scope with one father, or none: every identifier is erased and the scope deleted.\<close>

definition delete_scope_everywhere :: "addr \<Rightarrow> rv \<Rightarrow> rv option" where
  "delete_scope_everywhere a s = do {
     sc \<leftarrow> rv_scopes s a;
     let s = fold scopeIndex_erase (hm_keys (sc_ids sc)) s;
     Some (delete_scope a s)
   }"

definition unlink_child :: "addr \<Rightarrow> addr \<Rightarrow> rv \<Rightarrow> rv option" where
  "unlink_child father a s = do {
     fsc \<leftarrow> rv_scopes s father;
     Some (put_scope father (fsc\<lparr>childrenScopes := hs_erase a (childrenScopes fsc)\<rparr>) s)
   }"

definition scope_del_id :: "addr \<Rightarrow> bstr \<Rightarrow> rv \<Rightarrow> rv option" where
  "scope_del_id a x s = do {
     sc \<leftarrow> rv_scopes s a;
     Some (scopeIndex_erase x (put_scope a (sc\<lparr>sc_ids := hm_erase x (sc_ids sc)\<rparr>) s))
   }"

definition delete_scope_branch :: "addr \<Rightarrow> addr \<Rightarrow> rv \<Rightarrow> rv option" where
  "delete_scope_branch father a s = do {
     s \<leftarrow> unlink_child father a s;
     sc \<leftarrow> rv_scopes s a;
     let s = put_scope a (sc\<lparr>fatherScopes := hs_erase father (fatherScopes sc)\<rparr>) s;
     suffixID \<leftarrow> first_suffix (sc_ids sc);
     fsc \<leftarrow> rv_scopes s father;
     fold_opt (\<lambda>x. scope_del_id a (x @ suffixID)) (hm_keys (sc_ids fsc)) s
   }"

text \<open>
  What follows when a publisher or subscriber was taken off a scope: the scope, or the branch under
  the father, goes when nothing is below it and nobody is left on it.
\<close>

definition drop_inner_scope :: "addr \<Rightarrow> addr \<Rightarrow> bstr \<Rightarrow> rv \<Rightarrow> rv option" where
  "drop_inner_scope father a fullID s = do {
     sc \<leftarrow> rv_scopes s a;
     if length (childrenScopes sc) = 0 \<and> length (informationitems sc) = 0 then do {
       others \<leftarrow> Scope_checkForOtherPubSub a (Some father) s;
       if length (fatherScopes sc) = 1 then
         if \<not> others then do {
           s \<leftarrow> notify_new_scope father a (\<lambda>x. x) SCOPE_UNPUBLISHED s;
           s \<leftarrow> unlink_child father a s;
           delete_scope_everywhere a s
         } else Some s
       else
         if \<not> others then do {
           s \<leftarrow> notify_new_scope father a (filter (\<lambda>x. x = fullID)) SCOPE_UNPUBLISHED s;
           delete_scope_branch father a s
         } else Some s
     } else Some s
   }"

definition drop_root_scope :: "addr \<Rightarrow> rv \<Rightarrow> rv option" where
  "drop_root_scope a s = do {
     sc \<leftarrow> rv_scopes s a;
     if length (childrenScopes sc) = 0 \<and> length (informationitems sc) = 0 then do {
       others \<leftarrow> Scope_checkForOtherPubSub a None s;
       if \<not> others then delete_scope_everywhere a s else Some s
     } else Some s
   }"

text \<open>\<^verbatim>\<open>unpublish_info\<close> for every item of the scope, under every identifier of the scope.\<close>

definition unpublish_items :: "host \<Rightarrow> addr \<Rightarrow> byte \<Rightarrow> rv \<Rightarrow> rv option" where
  "unpublish_items h a strategy s = do {
     sc \<leftarrow> rv_scopes s a;
     fold_opt (\<lambda>pub s. do {
       it \<leftarrow> rv_items s pub;
       pubSuffixID \<leftarrow> first_suffix (it_ids it);
       sc \<leftarrow> rv_scopes s a;
       fold_opt (\<lambda>scPrefixID s. map_option snd (unpublish_info h pubSuffixID scPrefixID strategy s))
         (hm_keys (sc_ids sc)) s
     }) (informationitems sc) s
   }"

definition unpublish_scope :: "host \<Rightarrow> bstr \<Rightarrow> bstr \<Rightarrow> byte \<Rightarrow> rv_ret rv_m" where
  "unpublish_scope h ID prefixID strategy s = (let fullID = prefixID @ ID in
     case hm_get (scopeIndex s) fullID of
       None \<Rightarrow> Some (SCOPE_DOES_NOT_EXIST, s)
     | Some a \<Rightarrow> do {
         sc \<leftarrow> rv_scopes s a;
         if sc_strategy sc = strategy then do {
           let father = hm_get (scopeIndex s) prefixID;
           s \<leftarrow> unpublish_items h a strategy s;
           sc \<leftarrow> rv_scopes s a;
           pr \<leftarrow> hm_get (sc_ids sc) fullID;
           if h \<in> set (fst pr) then do {
             let s = put_scope a (sc\<lparr>sc_ids := hm_set fullID (hs_erase h (fst pr), snd pr) (sc_ids sc)\<rparr>) s;
             s \<leftarrow> host_del_scope h fullID s;
             s \<leftarrow> (case father of Some f \<Rightarrow> drop_inner_scope f a fullID s | None \<Rightarrow> drop_root_scope a s);
             Some (SUCCESS, s)
           } else Some (DOES_NOT_EXIST, s)
         } else Some (STRATEGY_MISMATCH, s)
       })"

definition unsubscribe_scope :: "host \<Rightarrow> bstr \<Rightarrow> bstr \<Rightarrow> byte \<Rightarrow> rv_ret rv_m" where
  "unsubscribe_scope h ID prefixID strategy s = (let fullID = prefixID @ ID in
     case hm_get (scopeIndex s) fullID of
       None \<Rightarrow> Some (SCOPE_DOES_NOT_EXIST, s)
     | Some a \<Rightarrow> do {
         sc \<leftarrow> rv_scopes s a;
         if sc_strategy sc = strategy then do {
           let father = hm_get (scopeIndex s) prefixID;
           pr \<leftarrow> hm_get (sc_ids sc) fullID;
           if h \<in> set (snd pr) then do {
             let s = put_scope a (sc\<lparr>sc_ids := hm_set fullID (fst pr, hs_erase h (snd pr)) (sc_ids sc)\<rparr>) s;
             s \<leftarrow> host_unsub_scope h fullID s;
             items \<leftarrow> Scope_getInformationItems a s;
             s \<leftarrow> fold_opt rendezvous_all items s;
             s \<leftarrow> (case father of Some f \<Rightarrow> drop_inner_scope f a fullID s | None \<Rightarrow> drop_root_scope a s);
             Some (SUCCESS, s)
           } else Some (DOES_NOT_EXIST, s)
         } else Some (STRATEGY_MISMATCH, s)
       })"

subsection \<open>Subscriptions\<close>

text \<open>What a new subscriber of an existing scope is told: its subscopes, then a rendezvous for each item.\<close>

definition notify_subscopes :: "addr \<Rightarrow> host \<Rightarrow> rv \<Rightarrow> rv option" where
  "notify_subscopes a h s = do {
     subscopes \<leftarrow> Scope_getSubscopes a s;
     fold_opt (\<lambda>c s. do {
       IDs \<leftarrow> Scope_getIDs c s;
       csc \<leftarrow> rv_scopes s c;
       Some (notifySubscribers SCOPE_PUBLISHED IDs (sc_strategy csc) [h] s)
     }) subscopes s
   }"

definition welcome_subscriber :: "addr \<Rightarrow> host \<Rightarrow> rv \<Rightarrow> rv option" where
  "welcome_subscriber a h s = do {
     s \<leftarrow> notify_subscopes a h s;
     items \<leftarrow> Scope_getInformationItems a s;
     fold_opt rendezvous_all items s
   }"

definition subscribe_root_scope :: "host \<Rightarrow> bstr \<Rightarrow> byte \<Rightarrow> rv_ret rv_m" where
  "subscribe_root_scope h ID strategy s = (case hm_get (scopeIndex s) ID of
     None \<Rightarrow> do {
       (a, s) \<leftarrow> Scope_new strategy None s;
       let s = scopeIndex_set ID a s;
       scope_subscriber a ID h Some s
     }
   | Some a \<Rightarrow> do {
       sc \<leftarrow> rv_scopes s a;
       if sc_strategy sc = strategy then scope_subscriber a ID h (welcome_subscriber a h) s
       else Some (STRATEGY_MISMATCH, s)
     })"

definition subscribe_inner_scope :: "host \<Rightarrow> bstr \<Rightarrow> bstr \<Rightarrow> byte \<Rightarrow> rv_ret rv_m" where
  "subscribe_inner_scope h ID prefixID strategy s = (let fullID = prefixID @ ID in
     if hm_get (pubIndex s) fullID \<noteq> None then Some (INFO_ITEM_WITH_SAME_ID, s)
     else case hm_get (scopeIndex s) prefixID of
       None \<Rightarrow> Some (FATHER_DOES_NOT_EXIST, s)
     | Some father \<Rightarrow> (case hm_get (scopeIndex s) fullID of
         None \<Rightarrow> do {
           fsc \<leftarrow> rv_scopes s father;
           if sc_strategy fsc = strategy then do {
             (a, s) \<leftarrow> Scope_new strategy (Some father) s;
             s \<leftarrow> Scope_recursivelyUpdateIDs a (suffix_of fullID) s;
             scope_subscriber a fullID h (notify_new_scope father a (\<lambda>x. x) SCOPE_PUBLISHED) s
           } else Some (STRATEGY_MISMATCH, s)
         }
       | Some a \<Rightarrow> do {
           sc \<leftarrow> rv_scopes s a;
           if sc_strategy sc = strategy then scope_subscriber a fullID h (welcome_subscriber a h) s
           else Some (STRATEGY_MISMATCH, s)
         }))"

definition subscribe_scope :: "host \<Rightarrow> bstr \<Rightarrow> bstr \<Rightarrow> byte \<Rightarrow> rv_ret rv_m" where
  "subscribe_scope h ID prefixID strategy s =
     (if length prefixID = 0 \<and> length ID = PURSUIT_ID_LEN then subscribe_root_scope h ID strategy s
      else if length prefixID > 0 \<and> length ID = PURSUIT_ID_LEN then subscribe_inner_scope h ID prefixID strategy s
      else Some (WRONG_IDS, s))"

definition subscribe_info :: "host \<Rightarrow> bstr \<Rightarrow> bstr \<Rightarrow> byte \<Rightarrow> rv_ret rv_m" where
  "subscribe_info h ID prefixID strategy s =
     (if length prefixID > 0 \<and> length ID = PURSUIT_ID_LEN then let fullID = prefixID @ ID in
        (case hm_get (scopeIndex s) prefixID of
           None \<Rightarrow> Some (FATHER_DOES_NOT_EXIST, s)
         | Some father \<Rightarrow> do {
             fsc \<leftarrow> rv_scopes s father;
             case hm_get (pubIndex s) fullID of
               None \<Rightarrow>
                 if hm_get (scopeIndex s) fullID \<noteq> None then Some (SCOPE_WITH_SAME_ID, s)
                 else if sc_strategy fsc = strategy then do {
                   (pub, s) \<leftarrow> InformationItem_new (sc_strategy fsc) father s;
                   s \<leftarrow> InformationItem_updateIDs pub (suffix_of fullID) s;
                   item_subscriber pub fullID h Some s
                 } else Some (STRATEGY_MISMATCH, s)
             | Some pub \<Rightarrow>
                 if sc_strategy fsc = strategy then item_subscriber pub fullID h (rendezvous_all pub) s
                 else Some (STRATEGY_MISMATCH, s)
           })
      else Some (WRONG_IDS, s))"

subsection \<open>Packets\<close>

text \<open>
  \<^verbatim>\<open>IDLength\<close> is \<^verbatim>\<open>(unsigned char) x.length() / PURSUIT_ID_LEN\<close>: the
  cast binds tighter than the division.
\<close>

definition id_len8 :: "bstr \<Rightarrow> nat" where
  "id_len8 x = (length x mod 256) div PURSUIT_ID_LEN"

text \<open>
  The identifiers of a request to the topology manager are written whole, while the buffer is
  sized with their total length kept in an \<^verbatim>\<open>unsigned char\<close>.
\<close>

definition tm_ids :: "bstr list \<Rightarrow> bstr" where
  "tm_ids IDs = concat (map (\<lambda>x. u8 (id_len8 x) # x) IDs)"

definition total_bytes8 :: "bstr list \<Rightarrow> nat" where
  "total_bytes8 IDs = sum_list (map length IDs) mod 256"

definition requestTMAssistanceForRendezvous ::
  "globalconf \<Rightarrow> byte \<Rightarrow> host list \<Rightarrow> host list \<Rightarrow> bstr list \<Rightarrow> packet option" where
  "requestTMAssistanceForRendezvous gc strategy publishers subscribers IDs = do {
     fid \<leftarrow> fid_mem (TMFID gc);
     p \<leftarrow> pk_make (1 + 1 + 2 * PURSUIT_ID_LEN + 1 + FID_LEN + 1 + 1 + 1 + length publishers * NODEID_LEN + 1
         + length subscribers * NODEID_LEN + 1 + length IDs + total_bytes8 IDs)
       ([PUBLISH_DATA, 2] @ nodeTMScope gc @ [IMPLICIT_RENDEZVOUS] @ fid @ [MATCH_PUB_SUBS, strategy] @
        [u8 (length publishers)] @ concat publishers @ [u8 (length subscribers)] @ concat subscribers @
        [u8 (length IDs)] @ tm_ids IDs);
     Some (p\<lparr>pk_anno := Some RV_ELEMENT\<rparr>)
   }"

definition requestTMAssistanceForNotifyingSubscribers ::
  "globalconf \<Rightarrow> byte \<Rightarrow> byte \<Rightarrow> host list \<Rightarrow> bstr list \<Rightarrow> packet option" where
  "requestTMAssistanceForNotifyingSubscribers gc request_type strategy subscribers IDs = do {
     fid \<leftarrow> fid_mem (TMFID gc);
     p \<leftarrow> pk_make (1 + 1 + length (nodeTMScope gc) + 1 + FID_LEN + 1 + 1 + 1 + length subscribers * NODEID_LEN
         + 1 + length IDs + total_bytes8 IDs)
       ([PUBLISH_DATA, 2] @ nodeTMScope gc @ [IMPLICIT_RENDEZVOUS] @ fid @ [request_type, strategy] @
        [u8 (length subscribers)] @ concat subscribers @ [u8 (length IDs)] @ tm_ids IDs);
     Some (p\<lparr>pk_anno := Some RV_ELEMENT\<rparr>)
   }"

text \<open>
  A notification writes as many identifiers as the byte \<^verbatim>\<open>numberOfIDs\<close> says, and of
  each as many bytes as its length byte says.
\<close>

definition notification_ids :: "bstr list \<Rightarrow> bstr" where
  "notification_ids IDs = concat (map (\<lambda>x. u8 (id_len8 x) # take (id_len8 x * PURSUIT_ID_LEN) x)
     (take (length IDs mod 256) IDs))"

definition notification_packet :: "globalconf \<Rightarrow> byte \<Rightarrow> bstr list \<Rightarrow> bstr \<Rightarrow> packet option" where
  "notification_packet gc type IDs fid_tail = do {
     fid \<leftarrow> fid_mem (iLID gc);
     p \<leftarrow> pk_make (1 + 1 + length (notificationIID gc) + 1 + FID_LEN + 1 + 1 + length IDs mod 256
         + sum_list (map length IDs) + length fid_tail)
       ([PUBLISH_DATA, u8 (length (notificationIID gc) div PURSUIT_ID_LEN)] @ notificationIID gc @
        [IMPLICIT_RENDEZVOUS] @ fid @ [type, u8 (length IDs)] @ notification_ids IDs @ fid_tail);
     Some (p\<lparr>pk_anno := Some RV_ELEMENT\<rparr>)
   }"

definition notifyLocalPublisher :: "globalconf \<Rightarrow> bool \<Rightarrow> bstr list \<Rightarrow> packet option" where
  "notifyLocalPublisher gc start IDs =
     (if start then do { fid \<leftarrow> fid_mem (iLID gc); notification_packet gc START_PUBLISH IDs fid }
      else notification_packet gc STOP_PUBLISH IDs [])"

definition notifyLocalSubscriber :: "globalconf \<Rightarrow> byte \<Rightarrow> bstr list \<Rightarrow> packet option" where
  "notifyLocalSubscriber gc type IDs = notification_packet gc type IDs []"

fun msg_packet :: "globalconf \<Rightarrow> rv_msg \<Rightarrow> packet option" where
  "msg_packet gc (TM_Rendezvous strategy ps ss IDs) = requestTMAssistanceForRendezvous gc strategy ps ss IDs"
| "msg_packet gc (TM_Notify type strategy ss IDs) = requestTMAssistanceForNotifyingSubscribers gc type strategy ss IDs"
| "msg_packet gc (Local_Publisher start IDs) = notifyLocalPublisher gc start IDs"
| "msg_packet gc (Local_Subscriber type IDs) = notifyLocalSubscriber gc type IDs"

subsection \<open>The element\<close>

text \<open>A request as \<^verbatim>\<open>push\<close> reads it out of a published-data event.\<close>

record request =
  rq_node :: bstr
  rq_type :: byte
  rq_ID :: bstr
  rq_prefixID :: bstr
  rq_strategy :: byte

definition parse_request :: "packet \<Rightarrow> request option option" where
  "parse_request p = do {
     typeOfAPIEvent \<leftarrow> rd8 p 0;
     l \<leftarrow> rd8 p 1;
     let n0 = unat l * PURSUIT_ID_LEN;
     IDOfAPIEvent \<leftarrow> rdn p 2 n0;
     if typeOfAPIEvent = PUBLISHED_DATA then do {
       type \<leftarrow> rd8 p (2 + n0);
       l1 \<leftarrow> rd8 p (3 + n0);
       let n1 = unat l1 * PURSUIT_ID_LEN;
       ID \<leftarrow> rdn p (4 + n0) n1;
       l2 \<leftarrow> rd8 p (4 + n0 + n1);
       let n2 = unat l2 * PURSUIT_ID_LEN;
       prefixID \<leftarrow> rdn p (5 + n0 + n1) n2;
       strategy \<leftarrow> rd8 p (5 + n0 + n1 + n2);
       Some (Some \<lparr>rq_node = drop PURSUIT_ID_LEN IDOfAPIEvent, rq_type = type, rq_ID = ID,
         rq_prefixID = prefixID, rq_strategy = strategy\<rparr>)
     } else Some None
   }"

definition LocalRV_dispatch :: "host \<Rightarrow> request \<Rightarrow> rv_ret rv_m" where
  "LocalRV_dispatch h r s = (let t = rq_type r; ID = rq_ID r; prefixID = rq_prefixID r; strategy = rq_strategy r in
     if t = PUBLISH_SCOPE then publish_scope h ID prefixID strategy s
     else if t = PUBLISH_INFO then publish_info h ID prefixID strategy s
     else if t = UNPUBLISH_SCOPE then unpublish_scope h ID prefixID strategy s
     else if t = UNPUBLISH_INFO then unpublish_info h ID prefixID strategy s
     else if t = SUBSCRIBE_SCOPE then subscribe_scope h ID prefixID strategy s
     else if t = SUBSCRIBE_INFO then subscribe_info h ID prefixID strategy s
     else if t = UNSUBSCRIBE_SCOPE then unsubscribe_scope h ID prefixID strategy s
     else if t = UNSUBSCRIBE_INFO then unsubscribe_info h ID prefixID strategy s
     else Some (UNKNOWN_REQUEST_TYPE, s))"

definition LocalRV_request :: "request \<Rightarrow> rv_ret rv_m" where
  "LocalRV_request r s = (case getRemoteHost (rq_node r) s of (h, s) \<Rightarrow> LocalRV_dispatch h r s)"

text \<open>The packets of the messages of a request, in order.\<close>

definition flush_msgs :: "rv \<Rightarrow> rv option" where
  "flush_msgs s = do {
     ps \<leftarrow> all_some (map (msg_packet (rv_gc s)) (rv_msgs s));
     Some (s\<lparr>rv_msgs := [], rv_out := rv_out s @ ps\<rparr>)
   }"

definition LocalRV_push :: "nat \<Rightarrow> packet \<Rightarrow> rv \<Rightarrow> rv option" where
  "LocalRV_push in_port p s = (if in_port = 0 then do {
       parsed \<leftarrow> parse_request p;
       case parsed of
         None \<Rightarrow> Some s
       | Some r \<Rightarrow> do { (ret, s) \<leftarrow> LocalRV_request r s; flush_msgs s }
     } else Some s)"

text \<open>
  The element starts with empty tables; it takes its own node as a host and subscribes, with a
  packet of 100 bytes of which it fills the first ones, to the rendezvous scope.
\<close>

definition LocalRV_initialize :: "globalconf \<Rightarrow> rv option" where
  "LocalRV_initialize gc = (let s = \<lparr>rv_gc = gc, rv_localProxy = [], rv_scopes = (\<lambda>_. None), rv_items = (\<lambda>_. None),
       rv_next = 0, pub_sub_Index = [], scopeIndex = [], pubIndex = [], rv_msgs = [], rv_out = []\<rparr> in
     case getRemoteHost (nodeID gc) s of (h, s) \<Rightarrow> do {
       p \<leftarrow> pk_make 100 ([SUBSCRIBE_SCOPE, 1] @ RVScope gc @ [0, IMPLICIT_RENDEZVOUS]);
       Some (s\<lparr>rv_localProxy := h, rv_out := [p]\<rparr>)
     })"

text \<open>
  Cleanup walks the indexes and deletes every object the first time it meets it; deleting an object
  twice would be undefined.
\<close>

fun cleanup_scopes :: "(bstr, addr) htab \<Rightarrow> addr list \<Rightarrow> rv \<Rightarrow> rv option" where
  "cleanup_scopes [] deleted s = Some s"
| "cleanup_scopes ((x, a) # m) deleted s =
     (if a \<in> set deleted then cleanup_scopes m deleted (scopeIndex_erase x s)
      else do {
        sc \<leftarrow> rv_scopes s a;
        cleanup_scopes m (hs_insert a deleted) (scopeIndex_erase x (delete_scope a s))
      })"

fun cleanup_items :: "(bstr, addr) htab \<Rightarrow> addr list \<Rightarrow> rv \<Rightarrow> rv option" where
  "cleanup_items [] deleted s = Some s"
| "cleanup_items ((x, a) # m) deleted s =
     (if a \<in> set deleted then cleanup_items m deleted (pubIndex_erase x s)
      else do {
        it \<leftarrow> rv_items s a;
        cleanup_items m (hs_insert a deleted) (pubIndex_erase x (delete_item a s))
      })"

definition LocalRV_cleanup :: "rv \<Rightarrow> rv option" where
  "LocalRV_cleanup s = do {
     let s = s\<lparr>pub_sub_Index := []\<rparr>;
     s \<leftarrow> cleanup_scopes (scopeIndex s) [] s;
     cleanup_items (pubIndex s) [] s
   }"

end
