(* ===== verification/BA_Graph.thy ===== *)
theory BA_Graph
  imports BA_InfoGraph
begin

text \<open>
  The information graph seen as sets: which identifiers a scope or an item owns, its fathers, what
  is below a scope, the hosts under an identifier. The invariant of the graph is stated over that view, and
  the update of inherited identifiers (\<^verbatim>\<open>recursivelyUpdateIDs\<close>) is shown to
  keep it, to complete the identifiers of everything below the scope, and to end exactly when there
  is no cycle below it.
\<close>

subsection \<open>The graph as sets\<close>

datatype obj = Sc addr | It addr

fun obj_addr :: "obj \<Rightarrow> addr" where
  "obj_addr (Sc a) = a"
| "obj_addr (It a) = a"

fun obj_ids :: "rv \<Rightarrow> obj \<Rightarrow> ids option" where
  "obj_ids s (Sc a) = map_option sc_ids (rv_scopes s a)"
| "obj_ids s (It a) = map_option it_ids (rv_items s a)"

fun obj_fathers :: "rv \<Rightarrow> obj \<Rightarrow> addr list" where
  "obj_fathers s (Sc a) = (case rv_scopes s a of None \<Rightarrow> [] | Some sc \<Rightarrow> fatherScopes sc)"
| "obj_fathers s (It a) = (case rv_items s a of None \<Rightarrow> [] | Some it \<Rightarrow> it_fatherScopes it)"

definition live :: "rv \<Rightarrow> obj \<Rightarrow> bool" where
  "live s o' \<longleftrightarrow> obj_ids s o' \<noteq> None"

definition own :: "rv \<Rightarrow> obj \<Rightarrow> bstr set" where
  "own s o' = (case obj_ids s o' of None \<Rightarrow> {} | Some m \<Rightarrow> fst ` set m)"

definition par :: "rv \<Rightarrow> obj \<Rightarrow> addr set" where
  "par s o' = set (obj_fathers s o')"

definition below :: "rv \<Rightarrow> addr \<Rightarrow> obj set" where
  "below s a = (case rv_scopes s a of None \<Rightarrow> {}
     | Some sc \<Rightarrow> Sc ` set (childrenScopes sc) \<union> It ` set (informationitems sc))"

definition pair_at :: "rv \<Rightarrow> obj \<Rightarrow> bstr \<Rightarrow> host_pair" where
  "pair_at s o' x = (case obj_ids s o' of None \<Rightarrow> ([], [])
     | Some m \<Rightarrow> (case hm_get m x of None \<Rightarrow> ([], []) | Some pr \<Rightarrow> pr))"

named_theorems gview "the set view of the heap operations"

lemma put_scope_simps [simp]:
  "rv_scopes (put_scope a sc s) = (rv_scopes s)(a := Some sc)" "rv_items (put_scope a sc s) = rv_items s"
  "scopeIndex (put_scope a sc s) = scopeIndex s" "pubIndex (put_scope a sc s) = pubIndex s"
  "rv_next (put_scope a sc s) = rv_next s" "pub_sub_Index (put_scope a sc s) = pub_sub_Index s"
  "rv_gc (put_scope a sc s) = rv_gc s" "rv_msgs (put_scope a sc s) = rv_msgs s"
  "rv_localProxy (put_scope a sc s) = rv_localProxy s" "rv_out (put_scope a sc s) = rv_out s"
  by (simp_all add: put_scope_def)

lemma put_item_simps [simp]:
  "rv_scopes (put_item a it s) = rv_scopes s" "rv_items (put_item a it s) = (rv_items s)(a := Some it)"
  "scopeIndex (put_item a it s) = scopeIndex s" "pubIndex (put_item a it s) = pubIndex s"
  "rv_next (put_item a it s) = rv_next s" "pub_sub_Index (put_item a it s) = pub_sub_Index s"
  "rv_gc (put_item a it s) = rv_gc s" "rv_msgs (put_item a it s) = rv_msgs s"
  "rv_localProxy (put_item a it s) = rv_localProxy s" "rv_out (put_item a it s) = rv_out s"
  by (simp_all add: put_item_def)

lemma delete_simps [simp]:
  "rv_scopes (delete_scope a s) = (rv_scopes s)(a := None)" "rv_items (delete_scope a s) = rv_items s"
  "scopeIndex (delete_scope a s) = scopeIndex s" "pubIndex (delete_scope a s) = pubIndex s"
  "rv_next (delete_scope a s) = rv_next s" "pub_sub_Index (delete_scope a s) = pub_sub_Index s"
  "rv_gc (delete_scope a s) = rv_gc s" "rv_msgs (delete_scope a s) = rv_msgs s"
  "rv_localProxy (delete_scope a s) = rv_localProxy s" "rv_out (delete_scope a s) = rv_out s"
  "rv_scopes (delete_item a s) = rv_scopes s" "rv_items (delete_item a s) = (rv_items s)(a := None)"
  "scopeIndex (delete_item a s) = scopeIndex s" "pubIndex (delete_item a s) = pubIndex s"
  "rv_next (delete_item a s) = rv_next s" "pub_sub_Index (delete_item a s) = pub_sub_Index s"
  "rv_gc (delete_item a s) = rv_gc s" "rv_msgs (delete_item a s) = rv_msgs s"
  "rv_localProxy (delete_item a s) = rv_localProxy s" "rv_out (delete_item a s) = rv_out s"
  by (simp_all add: delete_scope_def delete_item_def)

lemma index_simps [simp]:
  "rv_scopes (scopeIndex_set x a s) = rv_scopes s" "rv_items (scopeIndex_set x a s) = rv_items s"
  "scopeIndex (scopeIndex_set x a s) = hm_set x a (scopeIndex s)" "pubIndex (scopeIndex_set x a s) = pubIndex s"
  "rv_next (scopeIndex_set x a s) = rv_next s" "pub_sub_Index (scopeIndex_set x a s) = pub_sub_Index s"
  "rv_gc (scopeIndex_set x a s) = rv_gc s" "rv_msgs (scopeIndex_set x a s) = rv_msgs s"
  "rv_localProxy (scopeIndex_set x a s) = rv_localProxy s" "rv_out (scopeIndex_set x a s) = rv_out s"
  "rv_scopes (pubIndex_set x a s) = rv_scopes s" "rv_items (pubIndex_set x a s) = rv_items s"
  "scopeIndex (pubIndex_set x a s) = scopeIndex s" "pubIndex (pubIndex_set x a s) = hm_set x a (pubIndex s)"
  "rv_next (pubIndex_set x a s) = rv_next s" "pub_sub_Index (pubIndex_set x a s) = pub_sub_Index s"
  "rv_gc (pubIndex_set x a s) = rv_gc s" "rv_msgs (pubIndex_set x a s) = rv_msgs s"
  "rv_localProxy (pubIndex_set x a s) = rv_localProxy s" "rv_out (pubIndex_set x a s) = rv_out s"
  "rv_scopes (scopeIndex_erase x s) = rv_scopes s" "rv_items (scopeIndex_erase x s) = rv_items s"
  "scopeIndex (scopeIndex_erase x s) = hm_erase x (scopeIndex s)" "pubIndex (scopeIndex_erase x s) = pubIndex s"
  "rv_next (scopeIndex_erase x s) = rv_next s" "pub_sub_Index (scopeIndex_erase x s) = pub_sub_Index s"
  "rv_gc (scopeIndex_erase x s) = rv_gc s" "rv_msgs (scopeIndex_erase x s) = rv_msgs s"
  "rv_localProxy (scopeIndex_erase x s) = rv_localProxy s" "rv_out (scopeIndex_erase x s) = rv_out s"
  "rv_scopes (pubIndex_erase x s) = rv_scopes s" "rv_items (pubIndex_erase x s) = rv_items s"
  "scopeIndex (pubIndex_erase x s) = scopeIndex s" "pubIndex (pubIndex_erase x s) = hm_erase x (pubIndex s)"
  "rv_next (pubIndex_erase x s) = rv_next s" "pub_sub_Index (pubIndex_erase x s) = pub_sub_Index s"
  "rv_gc (pubIndex_erase x s) = rv_gc s" "rv_msgs (pubIndex_erase x s) = rv_msgs s"
  "rv_localProxy (pubIndex_erase x s) = rv_localProxy s" "rv_out (pubIndex_erase x s) = rv_out s"
  by (simp_all add: scopeIndex_set_def pubIndex_set_def scopeIndex_erase_def pubIndex_erase_def)

text \<open>The view depends on the heap only.\<close>

lemma view_cong:
  assumes "rv_scopes s' = rv_scopes s" and "rv_items s' = rv_items s"
  shows "obj_ids s' = obj_ids s" "obj_fathers s' = obj_fathers s" "own s' = own s" "par s' = par s"
    "below s' = below s" "pair_at s' = pair_at s" "live s' = live s"
proof -
  show ids: "obj_ids s' = obj_ids s" and fa: "obj_fathers s' = obj_fathers s"
    using assms by (auto simp: fun_eq_iff split: obj.splits intro: obj.exhaust)
       (metis assms obj.exhaust obj_ids.simps obj_fathers.simps)+
  then show "own s' = own s" "par s' = par s" "below s' = below s" "pair_at s' = pair_at s" "live s' = live s"
    using assms by (simp_all add: fun_eq_iff own_def par_def below_def pair_at_def live_def)
qed

lemma own_hm: "obj_ids s o' = Some m \<Longrightarrow> x \<in> own s o' \<longleftrightarrow> hm_get m x \<noteq> None"
  by (simp add: own_def hm_get_None_fst)

lemma own_dead: "\<not> live s o' \<Longrightarrow> own s o' = {}"
  by (simp add: own_def live_def)

lemma own_live: "x \<in> own s o' \<Longrightarrow> live s o'"
  using own_dead by blast

lemma par_dead: "\<not> live s o' \<Longrightarrow> par s o' = {}"
  by (cases o') (auto simp: par_def live_def)

lemma par_live: "a \<in> par s o' \<Longrightarrow> live s o'"
  using par_dead by blast

lemma below_live: "o' \<in> below s a \<Longrightarrow> live s (Sc a)"
  by (auto simp: below_def live_def split: option.splits)

lemma keys_put: "fst ` set (hm_set x v m) = insert x (fst ` set m)"
  using keys_hm_set [of x v m] by simp

lemma obj_ids_put [gview]:
  "obj_ids (put_scope a sc s) o' = (if o' = Sc a then Some (sc_ids sc) else obj_ids s o')"
  "obj_ids (put_item a it s) o' = (if o' = It a then Some (it_ids it) else obj_ids s o')"
  by (cases o'; simp)+

lemma obj_fathers_put [gview]:
  "obj_fathers (put_scope a sc s) o' = (if o' = Sc a then fatherScopes sc else obj_fathers s o')"
  "obj_fathers (put_item a it s) o' = (if o' = It a then it_fatherScopes it else obj_fathers s o')"
  by (cases o'; simp)+

lemma own_put [gview]:
  "own (put_scope a sc s) o' = (if o' = Sc a then fst ` set (sc_ids sc) else own s o')"
  "own (put_item a it s) o' = (if o' = It a then fst ` set (it_ids it) else own s o')"
  by (simp_all add: own_def obj_ids_put)

lemma par_put [gview]:
  "par (put_scope a sc s) o' = (if o' = Sc a then set (fatherScopes sc) else par s o')"
  "par (put_item a it s) o' = (if o' = It a then set (it_fatherScopes it) else par s o')"
  by (simp_all add: par_def obj_fathers_put)

lemma below_put [gview]:
  "below (put_scope a sc s) b = (if b = a then Sc ` set (childrenScopes sc) \<union> It ` set (informationitems sc) else below s b)"
  "below (put_item a it s) = below s"
  by (auto simp: below_def fun_eq_iff)

lemma live_put [gview]:
  "live (put_scope a sc s) o' \<longleftrightarrow> o' = Sc a \<or> live s o'"
  "live (put_item a it s) o' \<longleftrightarrow> o' = It a \<or> live s o'"
  by (simp_all add: live_def obj_ids_put)

lemma pair_put [gview]:
  "pair_at (put_scope a sc s) o' x = (if o' = Sc a then (case hm_get (sc_ids sc) x of None \<Rightarrow> ([], []) | Some pr \<Rightarrow> pr) else pair_at s o' x)"
  "pair_at (put_item a it s) o' x = (if o' = It a then (case hm_get (it_ids it) x of None \<Rightarrow> ([], []) | Some pr \<Rightarrow> pr) else pair_at s o' x)"
  by (simp_all add: pair_at_def obj_ids_put)

lemma view_index [simp]:
  "obj_ids (scopeIndex_set x a s) = obj_ids s" "obj_fathers (scopeIndex_set x a s) = obj_fathers s"
  "own (scopeIndex_set x a s) = own s" "par (scopeIndex_set x a s) = par s" "below (scopeIndex_set x a s) = below s"
  "pair_at (scopeIndex_set x a s) = pair_at s" "live (scopeIndex_set x a s) = live s"
  "obj_ids (pubIndex_set x a s) = obj_ids s" "obj_fathers (pubIndex_set x a s) = obj_fathers s"
  "own (pubIndex_set x a s) = own s" "par (pubIndex_set x a s) = par s" "below (pubIndex_set x a s) = below s"
  "pair_at (pubIndex_set x a s) = pair_at s" "live (pubIndex_set x a s) = live s"
  "obj_ids (scopeIndex_erase x s) = obj_ids s" "obj_fathers (scopeIndex_erase x s) = obj_fathers s"
  "own (scopeIndex_erase x s) = own s" "par (scopeIndex_erase x s) = par s" "below (scopeIndex_erase x s) = below s"
  "pair_at (scopeIndex_erase x s) = pair_at s" "live (scopeIndex_erase x s) = live s"
  "obj_ids (pubIndex_erase x s) = obj_ids s" "obj_fathers (pubIndex_erase x s) = obj_fathers s"
  "own (pubIndex_erase x s) = own s" "par (pubIndex_erase x s) = par s" "below (pubIndex_erase x s) = below s"
  "pair_at (pubIndex_erase x s) = pair_at s" "live (pubIndex_erase x s) = live s"
  by (rule view_cong; simp)+

subsection \<open>Growth\<close>

text \<open>
  What the update of identifiers leaves alone: the objects but for their identifiers
  (\<open>skel\<close>), the hosts under every identifier, and the rest of the state.
\<close>

definition skel :: "rv \<Rightarrow> (addr \<Rightarrow> scope option) \<times> (addr \<Rightarrow> item option)" where
  "skel s = (\<lambda>a. map_option (\<lambda>sc. sc\<lparr>sc_ids := []\<rparr>) (rv_scopes s a),
     \<lambda>a. map_option (\<lambda>it. it\<lparr>it_ids := []\<rparr>) (rv_items s a))"

definition rest :: "rv \<Rightarrow> globalconf \<times> host \<times> addr \<times> (bstr, remote_host) htab \<times> rv_msg list \<times> packet list" where
  "rest s = (rv_gc s, rv_localProxy s, rv_next s, pub_sub_Index s, rv_msgs s, rv_out s)"

definition grow :: "rv \<Rightarrow> rv \<Rightarrow> bool" where
  "grow s s' \<longleftrightarrow> skel s' = skel s \<and> rest s' = rest s \<and> pair_at s' = pair_at s \<and>
     (\<forall>o'. own s o' \<subseteq> own s' o')"

lemma grow_refl [simp]: "grow s s"
  by (simp add: grow_def)

lemma grow_trans: "grow s s1 \<Longrightarrow> grow s1 s2 \<Longrightarrow> grow s s2"
  by (fastforce simp: grow_def)

lemma skel_scope: "skel s' = skel s \<Longrightarrow>
  map_option (\<lambda>sc. sc\<lparr>sc_ids := []\<rparr>) (rv_scopes s' a) = map_option (\<lambda>sc. sc\<lparr>sc_ids := []\<rparr>) (rv_scopes s a)"
  by (simp add: skel_def fun_eq_iff)

lemma skel_item: "skel s' = skel s \<Longrightarrow>
  map_option (\<lambda>it. it\<lparr>it_ids := []\<rparr>) (rv_items s' a) = map_option (\<lambda>it. it\<lparr>it_ids := []\<rparr>) (rv_items s a)"
  by (simp add: skel_def fun_eq_iff)

lemma scope_skel_eq: "sc\<lparr>sc_ids := []\<rparr> = sc'\<lparr>sc_ids := []\<rparr> \<Longrightarrow>
  isRoot sc = isRoot sc' \<and> fatherScopes sc = fatherScopes sc' \<and> childrenScopes sc = childrenScopes sc' \<and>
  informationitems sc = informationitems sc' \<and> sc_strategy sc = sc_strategy sc'"
  by (cases sc; cases sc') simp

lemma item_skel_eq: "it\<lparr>it_ids := []\<rparr> = it'\<lparr>it_ids := []\<rparr> \<Longrightarrow>
  it_fatherScopes it = it_fatherScopes it' \<and> it_strategy it = it_strategy it'"
  by (cases it; cases it') simp

lemma skel_scope_Some:
  assumes "skel s' = skel s" and "rv_scopes s a = Some sc"
  shows "\<exists>sc'. rv_scopes s' a = Some sc' \<and> isRoot sc' = isRoot sc \<and> fatherScopes sc' = fatherScopes sc \<and>
    childrenScopes sc' = childrenScopes sc \<and> informationitems sc' = informationitems sc \<and>
    sc_strategy sc' = sc_strategy sc"
  using skel_scope [OF assms(1), of a] assms(2) by (auto dest: scope_skel_eq)

lemma skel_item_Some:
  assumes "skel s' = skel s" and "rv_items s a = Some it"
  shows "\<exists>it'. rv_items s' a = Some it' \<and> it_fatherScopes it' = it_fatherScopes it \<and> it_strategy it' = it_strategy it"
  using skel_item [OF assms(1), of a] assms(2) by (auto dest: item_skel_eq)

lemma skel_None:
  assumes "skel s' = skel s"
  shows "rv_scopes s' a = None \<longleftrightarrow> rv_scopes s a = None" "rv_items s' a = None \<longleftrightarrow> rv_items s a = None"
  using skel_scope [OF assms, of a] skel_item [OF assms, of a] by (metis option.map_disc_iff)+

lemma skel_view:
  assumes "skel s' = skel s"
  shows "live s' = live s" "obj_fathers s' = obj_fathers s" "par s' = par s" "below s' = below s"
proof -
  show "live s' = live s"
  proof
    fix o' show "live s' o' = live s o'"
      using skel_None [OF assms] by (cases o') (simp_all add: live_def)
  qed
  show fa: "obj_fathers s' = obj_fathers s"
  proof
    fix o' show "obj_fathers s' o' = obj_fathers s o'"
    proof (cases o')
      case (Sc a)
      then show ?thesis
        using skel_scope_Some [OF assms, of a] skel_None(1) [OF assms, of a]
        by (cases "rv_scopes s a") auto
    next
      case (It a)
      then show ?thesis
        using skel_item_Some [OF assms, of a] skel_None(2) [OF assms, of a]
        by (cases "rv_items s a") auto
    qed
  qed
  then show "par s' = par s" by (simp add: par_def fun_eq_iff)
  show "below s' = below s"
  proof
    fix a show "below s' a = below s a"
      using skel_scope_Some [OF assms, of a] skel_None(1) [OF assms, of a]
      by (cases "rv_scopes s a") (auto simp: below_def)
  qed
qed

lemma grow_view:
  assumes "grow s s'"
  shows "live s' = live s" "obj_fathers s' = obj_fathers s" "par s' = par s" "below s' = below s"
    "pair_at s' = pair_at s" "x \<in> own s o' \<Longrightarrow> x \<in> own s' o'" "rv_next s' = rv_next s"
    "pub_sub_Index s' = pub_sub_Index s" "rv_msgs s' = rv_msgs s" "rv_gc s' = rv_gc s"
    "rv_localProxy s' = rv_localProxy s" "rv_out s' = rv_out s"
  using assms skel_view [of s' s] by (auto simp: grow_def rest_def)

subsection \<open>The invariant of the graph\<close>

definition heap_ok :: "rv \<Rightarrow> bool" where
  "heap_ok s \<longleftrightarrow> (\<forall>o'. live s o' \<longrightarrow> obj_addr o' < rv_next s) \<and>
     (\<forall>a o'. o' \<in> below s a \<longleftrightarrow> a \<in> par s o') \<and>
     (\<forall>o' m. obj_ids s o' = Some m \<longrightarrow> hm_wf m) \<and> hm_wf (scopeIndex s) \<and> hm_wf (pubIndex s) \<and>
     (\<forall>o'. distinct (obj_fathers s o')) \<and>
     (\<forall>a sc. rv_scopes s a = Some sc \<longrightarrow> distinct (childrenScopes sc) \<and> distinct (informationitems sc))"

text \<open>The two indexes are exactly the identifiers of the live objects, each of one object.\<close>

definition index_ok :: "rv \<Rightarrow> bool" where
  "index_ok s \<longleftrightarrow> (\<forall>x a. hm_get (scopeIndex s) x = Some a \<longleftrightarrow> x \<in> own s (Sc a)) \<and>
     (\<forall>x a. hm_get (pubIndex s) x = Some a \<longleftrightarrow> x \<in> own s (It a)) \<and>
     (\<forall>a b. own s (Sc a) \<inter> own s (It b) = {})"

text \<open>All identifiers of an object end with its own fragment.\<close>

definition sfx_ok :: "(obj \<Rightarrow> bstr) \<Rightarrow> rv \<Rightarrow> bool" where
  "sfx_ok U s \<longleftrightarrow> (\<forall>o'. length (U o') = 8) \<and>
     (\<forall>o' x. x \<in> own s o' \<longrightarrow> (\<exists>q. x = q @ U o' \<and> 8 dvd length q))"

text \<open>An identifier comes from an identifier of a father, but for the single one of a root scope.\<close>

definition back_ok :: "rv \<Rightarrow> bool" where
  "back_ok s \<longleftrightarrow> (\<forall>o' q u. length u = 8 \<longrightarrow> q @ u \<in> own s o' \<longrightarrow>
     (if q = [] then par s o' = {} \<and> (\<exists>a. o' = Sc a) else (\<exists>f \<in> par s o'. q \<in> own s (Sc f))))"

definition sib_ok :: "(obj \<Rightarrow> bstr) \<Rightarrow> rv \<Rightarrow> bool" where
  "sib_ok U s \<longleftrightarrow> (\<forall>f o1 o2. f \<in> par s o1 \<longrightarrow> f \<in> par s o2 \<longrightarrow> U o1 = U o2 \<longrightarrow> o1 = o2)"

definition no_self :: "rv \<Rightarrow> bool" where
  "no_self s \<longleftrightarrow> (\<forall>a. a \<notin> par s (Sc a))"

text \<open>The edges over which an identifier of the father has not been handed down.\<close>

definition missing :: "(obj \<Rightarrow> bstr) \<Rightarrow> rv \<Rightarrow> (addr \<times> obj) set" where
  "missing U s = {(f, o'). f \<in> par s o' \<and> (\<exists>p \<in> own s (Sc f). p @ U o' \<notin> own s o')}"

definition pre_graph :: "(obj \<Rightarrow> bstr) \<Rightarrow> rv \<Rightarrow> bool" where
  "pre_graph U s \<longleftrightarrow> heap_ok s \<and> index_ok s \<and> sfx_ok U s \<and> back_ok s \<and> sib_ok U s \<and> no_self s"

definition graph_ok :: "(obj \<Rightarrow> bstr) \<Rightarrow> rv \<Rightarrow> bool" where
  "graph_ok U s \<longleftrightarrow> pre_graph U s \<and> missing U s = {} \<and> (\<forall>o'. live s o' \<longrightarrow> own s o' \<noteq> {})"

lemma own_unique:
  assumes "index_ok s" and "x \<in> own s o1" and "x \<in> own s o2"
  shows "o1 = o2"
  using assms unfolding index_ok_def by (cases o1; cases o2) (metis option.inject disjoint_iff)+

subsection \<open>One identifier\<close>

lemma own_Sc: "rv_scopes s a = Some sc \<Longrightarrow> own s (Sc a) = fst ` set (sc_ids sc)"
  by (simp add: own_def)

lemma own_It: "rv_items s a = Some it \<Longrightarrow> own s (It a) = fst ` set (it_ids it)"
  by (simp add: own_def)

lemma pair_Sc: "rv_scopes s a = Some sc \<Longrightarrow>
  pair_at s (Sc a) x = (case hm_get (sc_ids sc) x of None \<Rightarrow> ([], []) | Some pr \<Rightarrow> pr)"
  by (simp add: pair_at_def)

lemma pair_It: "rv_items s a = Some it \<Longrightarrow>
  pair_at s (It a) x = (case hm_get (it_ids it) x of None \<Rightarrow> ([], []) | Some pr \<Rightarrow> pr)"
  by (simp add: pair_at_def)

fun add_id :: "obj \<Rightarrow> bstr \<Rightarrow> rv \<Rightarrow> rv option" where
  "add_id (Sc a) = scope_add_id a"
| "add_id (It a) = item_add_id a"

lemma add_id_grow:
  assumes "live s o'"
  shows "\<exists>s'. add_id o' x s = Some s' \<and> grow s s' \<and> own s' = (own s)(o' := insert x (own s o')) \<and>
    scopeIndex s' = (if x \<in> own s o' then scopeIndex s else case o' of Sc a \<Rightarrow> hm_set x a (scopeIndex s) | It _ \<Rightarrow> scopeIndex s) \<and>
    pubIndex s' = (if x \<in> own s o' then pubIndex s else case o' of It a \<Rightarrow> hm_set x a (pubIndex s) | Sc _ \<Rightarrow> pubIndex s) \<and>
    ((\<forall>m. obj_ids s o' = Some m \<longrightarrow> hm_wf m) \<longrightarrow> (\<forall>m. obj_ids s' o' = Some m \<longrightarrow> hm_wf m)) \<and>
    (\<forall>o2. o2 \<noteq> o' \<longrightarrow> obj_ids s' o2 = obj_ids s o2)"
proof (cases o')
  case (Sc a)
  then obtain sc where sc: "rv_scopes s a = Some sc" using assms by (auto simp: live_def)
  show ?thesis
  proof (cases "hm_get (sc_ids sc) x")
    case None
    let ?s = "put_scope a (sc\<lparr>sc_ids := hm_set x ([], []) (sc_ids sc)\<rparr>) (scopeIndex_set x a s)"
    have eq: "scope_add_id a x s = Some ?s" using sc None by (simp add: scope_add_id_def)
    have own: "own ?s = (own s)(Sc a := insert x (own s (Sc a)))"
      using sc by (auto simp: fun_eq_iff own_put keys_put own_Sc own_It)
    have "pair_at ?s = pair_at s"
      using sc None by (auto simp: fun_eq_iff pair_put pair_Sc pair_It split: option.splits)
    moreover have "skel ?s = skel s" using sc by (auto simp: skel_def fun_eq_iff)
    moreover have "rest ?s = rest s" by (simp add: rest_def)
    ultimately have "grow s ?s" by (auto simp: grow_def own)
    moreover have "x \<notin> own s (Sc a)" using own_hm [of s "Sc a" "sc_ids sc" x] sc None by simp
    moreover have "scopeIndex ?s = hm_set x a (scopeIndex s)" "pubIndex ?s = pubIndex s" by simp_all
    ultimately show ?thesis
      using eq own sc unfolding Sc add_id.simps by (intro exI [of _ ?s]) (simp add: obj_ids_put)
  next
    case (Some p)
    then have "x \<in> own s (Sc a)" using own_hm [of s "Sc a" "sc_ids sc" x] sc by simp
    moreover have "scope_add_id a x s = Some s" using sc Some by (simp add: scope_add_id_def)
    ultimately show ?thesis unfolding Sc add_id.simps by (intro exI [of _ s]) (simp add: insert_absorb)
  qed
next
  case (It a)
  then obtain sc where sc: "rv_items s a = Some sc" using assms by (auto simp: live_def)
  show ?thesis
  proof (cases "hm_get (it_ids sc) x")
    case None
    let ?s = "put_item a (sc\<lparr>it_ids := hm_set x ([], []) (it_ids sc)\<rparr>) (pubIndex_set x a s)"
    have eq: "item_add_id a x s = Some ?s" using sc None by (simp add: item_add_id_def)
    have own: "own ?s = (own s)(It a := insert x (own s (It a)))"
      using sc by (auto simp: fun_eq_iff own_put keys_put own_Sc own_It)
    have "pair_at ?s = pair_at s"
      using sc None by (auto simp: fun_eq_iff pair_put pair_Sc pair_It split: option.splits)
    moreover have "skel ?s = skel s" using sc by (auto simp: skel_def fun_eq_iff)
    moreover have "rest ?s = rest s" by (simp add: rest_def)
    ultimately have "grow s ?s" by (auto simp: grow_def own)
    moreover have "x \<notin> own s (It a)" using own_hm [of s "It a" "it_ids sc" x] sc None by simp
    moreover have "pubIndex ?s = hm_set x a (pubIndex s)" "scopeIndex ?s = scopeIndex s" by simp_all
    ultimately show ?thesis
      using eq own sc unfolding It add_id.simps by (intro exI [of _ ?s]) (simp add: obj_ids_put)
  next
    case (Some p)
    then have "x \<in> own s (It a)" using own_hm [of s "It a" "it_ids sc" x] sc by simp
    moreover have "item_add_id a x s = Some s" using sc Some by (simp add: item_add_id_def)
    ultimately show ?thesis unfolding It add_id.simps by (intro exI [of _ s]) (simp add: insert_absorb)
  qed
qed

lemma snoc8_eq: "length u = 8 \<Longrightarrow> length v = 8 \<Longrightarrow> p @ u = q @ v \<longleftrightarrow> p = q \<and> u = (v :: bstr)"
  by auto

lemma sfx_okD: "sfx_ok U s \<Longrightarrow> x \<in> own s o' \<Longrightarrow> \<exists>q. x = q @ U o' \<and> 8 dvd length q"
  by (simp add: sfx_ok_def)

lemma sfx_okL: "sfx_ok U s \<Longrightarrow> length (U o') = 8"
  by (simp add: sfx_ok_def)

lemma sfx_not_Nil: "sfx_ok U s \<Longrightarrow> x \<in> own s o' \<Longrightarrow> x \<noteq> []"
  using sfx_okD [of U s x o'] sfx_okL [of U s o'] by auto

lemma pre_graph_parts:
  assumes "pre_graph U s"
  shows "heap_ok s" "index_ok s" "sfx_ok U s" "back_ok s" "sib_ok U s" "no_self s"
  using assms by (simp_all add: pre_graph_def)

text \<open>An identifier a father hands down is nobody else's.\<close>

lemma handed_down_fresh:
  assumes "pre_graph U s" and "f \<in> par s o'" and "p \<in> own s (Sc f)" and "p @ U o' \<in> own s o2"
  shows "o2 = o'"
proof -
  note ok = pre_graph_parts [OF assms(1)]
  have u: "length (U o') = 8" "length (U o2) = 8" using ok(3) by (simp_all add: sfx_ok_def)
  obtain q where q: "p @ U o' = q @ U o2" using sfx_okD [OF ok(3) assms(4)] by blast
  then have same: "U o' = U o2" using u by (simp add: snoc8_eq)
  have "p \<noteq> []" by (rule sfx_not_Nil [OF ok(3) assms(3)])
  then obtain g where g: "g \<in> par s o2" "p \<in> own s (Sc g)"
    using ok(4) u(1) assms(4) unfolding back_ok_def by metis
  then have "g = f" using own_unique [OF ok(2) g(2) assms(3)] by simp
  then show ?thesis using ok(5) g(1) assms(2) same unfolding sib_ok_def by metis
qed

lemma index_ok_add:
  assumes "index_ok s" and "own s' = (own s)(o' := insert x (own s o'))"
    and "scopeIndex s' = (if x \<in> own s o' then scopeIndex s else case o' of Sc a \<Rightarrow> hm_set x a (scopeIndex s) | It _ \<Rightarrow> scopeIndex s)"
    and "pubIndex s' = (if x \<in> own s o' then pubIndex s else case o' of It a \<Rightarrow> hm_set x a (pubIndex s) | Sc _ \<Rightarrow> pubIndex s)"
    and "\<And>o2. x \<in> own s o2 \<Longrightarrow> o2 = o'"
  shows "index_ok s'"
proof (cases "x \<in> own s o'")
  case True
  then have "own s' = own s" using assms(2) by (simp add: insert_absorb)
  with True assms(1,3,4) show ?thesis by (simp add: index_ok_def)
next
  case False
  have sc: "\<And>y a. hm_get (scopeIndex s) y = Some a \<longleftrightarrow> y \<in> own s (Sc a)"
    and it: "\<And>y a. hm_get (pubIndex s) y = Some a \<longleftrightarrow> y \<in> own s (It a)"
    and dj: "\<And>y a b. y \<in> own s (Sc a) \<Longrightarrow> y \<notin> own s (It b)"
    using assms(1) unfolding index_ok_def by blast+
  have none: "x \<notin> own s o2" for o2 using assms(5) False by blast
  show ?thesis
  proof (cases o')
    case (Sc b)
    then have i: "scopeIndex s' = hm_set x b (scopeIndex s)" "pubIndex s' = pubIndex s"
      "own s' = (own s)(Sc b := insert x (own s (Sc b)))" using False assms(2-4) by simp_all
    have "x \<notin> own s (Sc a)" "x \<notin> own s (It a)" for a using none by auto
    then show ?thesis unfolding index_ok_def i using sc it dj by (auto 0 4)
  next
    case (It b)
    then have i: "pubIndex s' = hm_set x b (pubIndex s)" "scopeIndex s' = scopeIndex s"
      "own s' = (own s)(It b := insert x (own s (It b)))" using False assms(2-4) by simp_all
    have "x \<notin> own s (Sc a)" "x \<notin> own s (It a)" for a using none by auto
    then show ?thesis unfolding index_ok_def i using sc it dj by (auto 0 4)
  qed
qed

lemma heap_ok_grow:
  assumes "heap_ok s" and "grow s s'" and "\<forall>o' m. obj_ids s' o' = Some m \<longrightarrow> hm_wf m"
    and "hm_wf (scopeIndex s')" and "hm_wf (pubIndex s')"
  shows "heap_ok s'"
proof -
  have skel: "skel s' = skel s" using assms(2) by (simp add: grow_def)
  have d: "distinct (childrenScopes sc) \<and> distinct (informationitems sc)" if sc: "rv_scopes s' a = Some sc" for a sc
  proof -
    obtain sc0 where "rv_scopes s a = Some sc0" using skel_None(1) [OF skel, of a] sc by fastforce
    then show ?thesis
      using skel_scope_Some [OF skel, of a sc0] sc assms(1) unfolding heap_ok_def by fastforce
  qed
  show ?thesis
    using assms(1,3-5) d grow_view [OF assms(2)] by (simp add: heap_ok_def)
qed

lemma add_id_pre_graph:
  assumes "pre_graph U s" and "f \<in> par s o'" and "p \<in> own s (Sc f)"
  shows "\<exists>s'. add_id o' (p @ U o') s = Some s' \<and> pre_graph U s' \<and> grow s s' \<and>
    own s' = (own s)(o' := insert (p @ U o') (own s o'))"
proof -
  note ok = pre_graph_parts [OF assms(1)]
  let ?x = "p @ U o'"
  have live: "live s o'" using assms(2) par_live by blast
  from add_id_grow [OF live, of ?x] obtain s' where s': "add_id o' ?x s = Some s'" "grow s s'"
    "own s' = (own s)(o' := insert ?x (own s o'))"
    "scopeIndex s' = (if ?x \<in> own s o' then scopeIndex s else case o' of Sc a \<Rightarrow> hm_set ?x a (scopeIndex s) | It _ \<Rightarrow> scopeIndex s)"
    "pubIndex s' = (if ?x \<in> own s o' then pubIndex s else case o' of It a \<Rightarrow> hm_set ?x a (pubIndex s) | Sc _ \<Rightarrow> pubIndex s)"
    "(\<forall>m. obj_ids s o' = Some m \<longrightarrow> hm_wf m) \<longrightarrow> (\<forall>m. obj_ids s' o' = Some m \<longrightarrow> hm_wf m)"
    "\<forall>o2. o2 \<noteq> o' \<longrightarrow> obj_ids s' o2 = obj_ids s o2" by blast
  note gv = grow_view [OF s'(2)]
  have "index_ok s'"
    by (rule index_ok_add [OF ok(2) s'(3-5)]) (rule handed_down_fresh [OF assms])
  moreover have "heap_ok s'"
  proof (rule heap_ok_grow [OF ok(1) s'(2)])
    show "\<forall>o' m. obj_ids s' o' = Some m \<longrightarrow> hm_wf m"
      using s'(6,7) ok(1) unfolding heap_ok_def by metis
    show "hm_wf (scopeIndex s')" "hm_wf (pubIndex s')"
      using ok(1) s'(4,5) by (auto simp: heap_ok_def split: obj.splits)
  qed
  moreover have "sfx_ok U s'"
  proof -
    obtain r where r: "p = r @ U (Sc f)" "8 dvd length r" using sfx_okD [OF ok(3) assms(3)] by blast
    have "length (U (Sc f)) = 8" by (rule sfx_okL [OF ok(3)])
    with r have "8 dvd length p" by simp
    then show ?thesis using ok(3) by (auto simp: sfx_ok_def s'(3))
  qed
  moreover have "back_ok s'"
    unfolding back_ok_def
  proof (intro allI impI)
    fix o2 q u assume u: "length u = (8::nat)" and qu: "q @ u \<in> own s' o2"
    have mono: "y \<in> own s o3 \<Longrightarrow> y \<in> own s' o3" for y o3 by (auto simp: s'(3))
    show "if q = [] then par s' o2 = {} \<and> (\<exists>a. o2 = Sc a) else \<exists>f\<in>par s' o2. q \<in> own s' (Sc f)"
    proof (cases "q @ u \<in> own s o2")
      case True
      then have old: "if q = [] then par s o2 = {} \<and> (\<exists>a. o2 = Sc a) else \<exists>f\<in>par s o2. q \<in> own s (Sc f)"
        using ok(4) u unfolding back_ok_def by blast
      show ?thesis
      proof (cases "q = []")
        case True
        then show ?thesis using old gv(3) by simp
      next
        case False
        then obtain g where "g \<in> par s o2" "q \<in> own s (Sc g)" using old by auto
        then show ?thesis using False mono gv(3) by auto
      qed
    next
      case False
      then have o2: "o2 = o'" "q @ u = p @ U o'" using qu by (auto simp: s'(3) split: if_splits)
      then have "q = p" using u ok(3) by (simp add: sfx_ok_def snoc8_eq)
      moreover have "p \<noteq> []" by (rule sfx_not_Nil [OF ok(3) assms(3)])
      ultimately show ?thesis using assms(2,3) mono gv(3) o2 by auto
    qed
  qed
  moreover have "sib_ok U s'" "no_self s'"
    using ok(5,6) gv(3) by (simp_all add: sib_ok_def no_self_def)
  ultimately show ?thesis using s' by (auto simp: pre_graph_def)
qed

text \<open>Everything one father hands down, then everything all fathers hand down.\<close>

definition inherit :: "obj \<Rightarrow> bstr \<Rightarrow> addr \<Rightarrow> rv \<Rightarrow> rv option" where
  "inherit o' u f s = do {
     fsc \<leftarrow> rv_scopes s f;
     fold_opt (\<lambda>x. add_id o' (x @ u)) (hm_keys (sc_ids fsc)) s
   }"

lemma inherit_eqs: "scope_inherit a = inherit (Sc a)" "item_inherit a = inherit (It a)"
  by (simp_all add: fun_eq_iff scope_inherit_def item_inherit_def inherit_def)

lemma fold_add_id:
  assumes "pre_graph U s" and "f \<in> par s o'" and "set ps \<subseteq> own s (Sc f)"
  shows "\<exists>s'. fold_opt (\<lambda>p. add_id o' (p @ U o')) ps s = Some s' \<and> pre_graph U s' \<and> grow s s' \<and>
    own s' = (own s)(o' := own s o' \<union> (\<lambda>p. p @ U o') ` set ps)"
  using assms
proof (induction ps arbitrary: s)
  case Nil
  then show ?case by simp
next
  case (Cons p ps)
  from Cons.prems(3) have "p \<in> own s (Sc f)" by simp
  from add_id_pre_graph [OF Cons.prems(1,2) this] obtain s1 where
    s1: "add_id o' (p @ U o') s = Some s1" "pre_graph U s1" "grow s s1"
    "own s1 = (own s)(o' := insert (p @ U o') (own s o'))" by blast
  have "f \<in> par s1 o'" "set ps \<subseteq> own s1 (Sc f)"
    using Cons.prems(2,3) grow_view [OF s1(3)] by auto
  from Cons.IH [OF s1(2) this] obtain s2 where
    s2: "fold_opt (\<lambda>p. add_id o' (p @ U o')) ps s1 = Some s2" "pre_graph U s2" "grow s1 s2"
    "own s2 = (own s1)(o' := own s1 o' \<union> (\<lambda>p. p @ U o') ` set ps)" by blast
  have "own s2 = (own s)(o' := own s o' \<union> (\<lambda>p. p @ U o') ` set (p # ps))"
    by (simp add: s2(4) s1(4))
  with s1 s2 show ?case using grow_trans by auto
qed

lemma par_father_live:
  assumes "heap_ok s" and "f \<in> par s o'"
  shows "\<exists>fsc. rv_scopes s f = Some fsc"
proof -
  have "o' \<in> below s f" using assms by (simp add: heap_ok_def)
  then show ?thesis by (auto simp: below_def split: option.splits)
qed

lemma inherit_pre_graph:
  assumes "pre_graph U s" and "f \<in> par s o'"
  shows "\<exists>s'. inherit o' (U o') f s = Some s' \<and> pre_graph U s' \<and> grow s s' \<and>
    own s' = (own s)(o' := own s o' \<union> (\<lambda>p. p @ U o') ` own s (Sc f))"
proof -
  obtain fsc where f: "rv_scopes s f = Some fsc"
    using par_father_live [OF _ assms(2)] assms(1) by (auto simp: pre_graph_def)
  then have "own s (Sc f) = set (hm_keys (sc_ids fsc))" by (simp add: own_Sc)
  with fold_add_id [OF assms, of "hm_keys (sc_ids fsc)"] f show ?thesis by (simp add: inherit_def)
qed

lemma fold_inherit:
  assumes "pre_graph U s" and "set fs \<subseteq> par s o'" and "\<forall>f \<in> set fs. o' \<noteq> Sc f"
  shows "\<exists>s'. fold_opt (inherit o' (U o')) fs s = Some s' \<and> pre_graph U s' \<and> grow s s' \<and>
    own s' = (own s)(o' := own s o' \<union> (\<Union>f \<in> set fs. (\<lambda>p. p @ U o') ` own s (Sc f)))"
  using assms
proof (induction fs arbitrary: s)
  case Nil
  then show ?case by simp
next
  case (Cons f fs)
  then have "f \<in> par s o'" by simp
  from inherit_pre_graph [OF Cons.prems(1) this] obtain s1 where
    s1: "inherit o' (U o') f s = Some s1" "pre_graph U s1" "grow s s1"
    "own s1 = (own s)(o' := own s o' \<union> (\<lambda>p. p @ U o') ` own s (Sc f))" by blast
  have "set fs \<subseteq> par s1 o'" "\<forall>f \<in> set fs. o' \<noteq> Sc f"
    using Cons.prems grow_view(3) [OF s1(3)] by auto
  from Cons.IH [OF s1(2) this] obtain s2 where
    s2: "fold_opt (inherit o' (U o')) fs s1 = Some s2" "pre_graph U s2" "grow s1 s2"
    "own s2 = (own s1)(o' := own s1 o' \<union> (\<Union>f \<in> set fs. (\<lambda>p. p @ U o') ` own s1 (Sc f)))" by blast
  have same: "own s1 (Sc g) = own s (Sc g)" if "g \<in> set fs" for g
    using that Cons.prems(3) by (auto simp: s1(4))
  have "own s2 = (own s)(o' := own s o' \<union> (\<Union>f \<in> set (f # fs). (\<lambda>p. p @ U o') ` own s (Sc f)))"
    by (simp add: s2(4) same Un_assoc cong: SUP_cong) (simp add: s1(4) Un_assoc)
  with s1 s2 show ?case using grow_trans by auto
qed

subsection \<open>The recursive update\<close>

lemma suffix_of_append [simp]: "length u = 8 \<Longrightarrow> suffix_of (q @ u) = u"
  by (simp add: suffix_of_def substring_def)

lemma first_suffix_U:
  assumes "sfx_ok U s" and "obj_ids s o' = Some m" and "first_suffix m = Some u"
  shows "u = U o'"
proof (cases m)
  case Nil
  then show ?thesis using assms(3) by (simp add: first_suffix_def)
next
  case (Cons e es)
  then have "fst e \<in> own s o'" using assms(2) by (simp add: own_def)
  then obtain q where "fst e = q @ U o'" using sfx_okD [OF assms(1)] by blast
  then show ?thesis using assms(3) Cons sfx_okL [OF assms(1), of o'] by (simp add: first_suffix_def)
qed

lemma first_suffix_ex:
  assumes "sfx_ok U s" and "obj_ids s o' = Some m" and "own s o' \<noteq> {}"
  shows "first_suffix m = Some (U o')"
proof -
  have "m \<noteq> []" using assms(2,3) by (auto simp: own_def)
  then obtain u where "first_suffix m = Some u" by (cases m) (auto simp: first_suffix_def)
  then show ?thesis using first_suffix_U [OF assms(1,2)] by simp
qed

lemma refresh_missing:
  assumes "own s' = (own s)(o' := own s o' \<union> (\<Union>f \<in> par s o'. (\<lambda>p. p @ U o') ` own s (Sc f)))"
    and "par s' = par s" and "no_self s"
  shows "missing U s' \<subseteq> {(f, o2) \<in> missing U s. o2 \<noteq> o'} \<union> {(a, o2). o' = Sc a \<and> a \<in> par s o2}"
proof clarify
  fix f o2 assume m: "(f, o2) \<in> missing U s'" and no: "\<not> (o' = Sc f \<and> f \<in> par s o2)"
  then obtain p where p: "f \<in> par s o2" "p \<in> own s' (Sc f)" "p @ U o2 \<notin> own s' o2"
    using assms(2) by (auto simp: missing_def)
  then have "p \<in> own s (Sc f)" using no assms(1) by (auto split: if_splits)
  have "o2 \<noteq> o'"
  proof
    assume eq: "o2 = o'"
    with p(1) \<open>p \<in> own s (Sc f)\<close> have "p @ U o' \<in> (\<Union>f \<in> par s o'. (\<lambda>p. p @ U o') ` own s (Sc f))" by blast
    then show False using p(3) eq by (simp add: assms(1))
  qed
  moreover have "p @ U o2 \<notin> own s o2" using p(3) assms(1) by (auto split: if_splits)
  ultimately show "(f, o2) \<in> missing U s \<and> o2 \<noteq> o'"
    using p(1) \<open>p \<in> own s (Sc f)\<close> by (auto simp: missing_def)
qed

text \<open>All fathers of an object hand down what they have.\<close>

lemma refresh_obj:
  assumes "pre_graph U s"
  shows "\<exists>s'. fold_opt (inherit o' (U o')) (obj_fathers s o') s = Some s' \<and> pre_graph U s' \<and> grow s s' \<and>
    missing U s' \<subseteq> {(f, o2) \<in> missing U s. o2 \<noteq> o'} \<union> {(a, o2). o' = Sc a \<and> a \<in> par s o2}"
proof -
  have "\<forall>f \<in> set (obj_fathers s o'). o' \<noteq> Sc f"
    using pre_graph_parts(6) [OF assms] by (auto simp: no_self_def par_def)
  from fold_inherit [OF assms _ this] obtain s' where
    s': "fold_opt (inherit o' (U o')) (obj_fathers s o') s = Some s'" "pre_graph U s'" "grow s s'"
    "own s' = (own s)(o' := own s o' \<union> (\<Union>f \<in> par s o'. (\<lambda>p. p @ U o') ` own s (Sc f)))"
    by (auto simp: par_def)
  have "missing U s' \<subseteq> {(f, o2) \<in> missing U s. o2 \<noteq> o'} \<union> {(a, o2). o' = Sc a \<and> a \<in> par s o2}"
    using s'(4) grow_view(3) [OF s'(3)] pre_graph_parts(6) [OF assms] by (rule refresh_missing)
  with s' show ?thesis by blast
qed

lemma item_refresh_ok:
  assumes "pre_graph U s" and "rv_items s i = Some it" and "first_suffix (it_ids it) = Some u"
  shows "\<exists>s'. item_refresh i s = Some s' \<and> pre_graph U s' \<and> grow s s' \<and>
    missing U s' \<subseteq> {(f, o2) \<in> missing U s. o2 \<noteq> It i}"
proof -
  have u: "u = U (It i)"
    using first_suffix_U [of U s "It i" "it_ids it" u] assms pre_graph_parts(3) [OF assms(1)] by simp
  have "obj_fathers s (It i) = it_fatherScopes it" using assms(2) by simp
  with refresh_obj [OF assms(1), of "It i"] show ?thesis
    using assms(2,3) u by (auto simp: item_refresh_def InformationItem_updateIDs_def inherit_eqs)
qed

lemma item_refresh_partial:
  assumes "pre_graph U s" and "item_refresh i s = Some s'"
  shows "pre_graph U s' \<and> grow s s' \<and> missing U s' \<subseteq> {(f, o2) \<in> missing U s. o2 \<noteq> It i}"
proof -
  obtain it u where "rv_items s i = Some it" "first_suffix (it_ids it) = Some u"
    using assms(2) by (auto simp: item_refresh_def split: Option.bind_splits)
  from item_refresh_ok [OF assms(1) this] assms(2) show ?thesis by auto
qed

lemma missing_step:
  assumes "M2 \<subseteq> {(f, o2) \<in> M1. o2 \<noteq> x}"
    and "M1 \<subseteq> {(f, o2) \<in> M0. o2 \<noteq> y} \<union> {(f, o2). f = a \<and> o2 \<in> insert x R}"
  shows "M2 \<subseteq> {(f, o2) \<in> M0. o2 \<noteq> y} \<union> {(f, o2). f = a \<and> o2 \<in> R}"
  using assms by auto

lemma below_eq:
  assumes "heap_ok s" and "rv_scopes s a = Some sc"
  shows "{o2. a \<in> par s o2} = Sc ` set (childrenScopes sc) \<union> It ` set (informationitems sc)"
proof -
  have "below s a = Sc ` set (childrenScopes sc) \<union> It ` set (informationitems sc)"
    using assms(2) by (simp add: below_def)
  moreover have "{o2. a \<in> par s o2} = below s a" using assms(1) by (auto simp: heap_ok_def)
  ultimately show ?thesis by simp
qed

text \<open>
  Whatever the shape of the graph, an update that ends has completed the scope it was called for
  and made no other edge incomplete.
\<close>

lemma recursivelyUpdateIDs_partial:
  assumes "pre_graph U s" and "recursivelyUpdateIDs n a (U (Sc a)) s = Some s'"
  shows "pre_graph U s' \<and> grow s s' \<and> missing U s' \<subseteq> {(f, o2) \<in> missing U s. o2 \<noteq> Sc a}"
  using assms
proof (induction n arbitrary: a s s')
  case 0
  then show ?case by simp
next
  case (Suc n)
  let ?kid = "\<lambda>c s. do {
     csc \<leftarrow> rv_scopes s c;
     tempSuffix \<leftarrow> first_suffix (sc_ids csc);
     recursivelyUpdateIDs n c tempSuffix s
   }"
  from Suc.prems(2) obtain sc s1 s2 where
    sc: "rv_scopes s a = Some sc" and s1: "fold_opt (inherit (Sc a) (U (Sc a))) (fatherScopes sc) s = Some s1"
    and s2: "fold_opt ?kid (childrenScopes sc) s1 = Some s2"
    and s3: "fold_opt item_refresh (informationitems sc) s2 = Some s'"
    by (auto simp: inherit_eqs split: Option.bind_splits)
  have bel: "{o2. a \<in> par s o2} = Sc ` set (childrenScopes sc) \<union> It ` set (informationitems sc)"
    by (rule below_eq [OF pre_graph_parts(1) [OF Suc.prems(1)] sc])
  let ?I = "\<lambda>cs is s'. pre_graph U s' \<and> grow s s' \<and>
     missing U s' \<subseteq> {(f, o2) \<in> missing U s. o2 \<noteq> Sc a} \<union> {(f, o2). f = a \<and> o2 \<in> Sc ` set cs \<union> It ` set is}"
  have "?I (childrenScopes sc) (informationitems sc) s1"
    using refresh_obj [OF Suc.prems(1), of "Sc a"] s1 sc bel by auto
  with s2 have "?I [] (informationitems sc) s2"
  proof (rule fold_opt_inv [where I = "\<lambda>cs s'. ?I cs (informationitems sc) s'"])
    fix c cs t t' assume I: "?I (c # cs) (informationitems sc) t" and step: "?kid c t = Some t'"
    then obtain csc u where c: "rv_scopes t c = Some csc" "first_suffix (sc_ids csc) = Some u"
      "recursivelyUpdateIDs n c u t = Some t'"
      by (auto split: Option.bind_splits)
    have "u = U (Sc c)" using first_suffix_U [of U t "Sc c" "sc_ids csc" u] I c pre_graph_parts(3) by auto
    with Suc.IH [of t c t'] I c have "pre_graph U t'" "grow t t'"
      and m: "missing U t' \<subseteq> {(f, o2) \<in> missing U t. o2 \<noteq> Sc c}" by auto
    moreover have "missing U t' \<subseteq> {(f, o2) \<in> missing U s. o2 \<noteq> Sc a} \<union>
        {(f, o2). f = a \<and> o2 \<in> Sc ` set cs \<union> It ` set (informationitems sc)}"
      by (rule missing_step [OF m]) (use I in simp)
    ultimately show "?I cs (informationitems sc) t'" using I grow_trans by blast
  qed
  with s3 have "?I [] [] s'"
  proof (rule fold_opt_inv [where I = "\<lambda>is s'. ?I [] is s'"])
    fix i "is" t t' assume I: "?I [] (i # is) t" and step: "item_refresh i t = Some t'"
    from item_refresh_partial [OF _ step] I have "pre_graph U t'" "grow t t'"
      and m: "missing U t' \<subseteq> {(f, o2) \<in> missing U t. o2 \<noteq> It i}" by auto
    moreover have "missing U t' \<subseteq> {(f, o2) \<in> missing U s. o2 \<noteq> Sc a} \<union>
        {(f, o2). f = a \<and> o2 \<in> Sc ` set [] \<union> It ` set is}"
      by (rule missing_step [OF m]) (use I in simp)
    ultimately show "?I [] is t'" using I grow_trans by blast
  qed
  then show ?case by auto
qed

subsection \<open>When the recursion ends\<close>

definition kid_rel :: "rv \<Rightarrow> (addr \<times> addr) set" where
  "kid_rel s = {(a, c). Sc c \<in> below s a}"

fun chain :: "rv \<Rightarrow> addr \<Rightarrow> addr list \<Rightarrow> bool" where
  "chain s a [] = True"
| "chain s a (c # cs) = ((a, c) \<in> kid_rel s \<and> chain s c cs)"

definition cycle_below :: "rv \<Rightarrow> addr \<Rightarrow> bool" where
  "cycle_below s a \<longleftrightarrow> (\<exists>b. (a, b) \<in> (kid_rel s)\<^sup>* \<and> (b, b) \<in> (kid_rel s)\<^sup>+)"

lemma chain_below_cong: "below s' = below s \<Longrightarrow> chain s' a cs = chain s a cs"
  by (induction cs arbitrary: a) (simp_all add: kid_rel_def)

lemma chain_reach: "chain s a cs \<Longrightarrow> c \<in> set cs \<Longrightarrow> (a, c) \<in> (kid_rel s)\<^sup>+"
  by (induction cs arbitrary: a) (auto intro: trancl_into_trancl2)

lemma chain_cycle:
  assumes "chain s a cs" and "\<not> distinct (a # cs)"
  shows "cycle_below s a"
  using assms
proof (induction cs arbitrary: a)
  case (Cons c cs)
  show ?case
  proof (cases "a \<in> set (c # cs)")
    case True
    then have "(a, a) \<in> (kid_rel s)\<^sup>+" using chain_reach [OF Cons.prems(1)] by blast
    then show ?thesis by (auto simp: cycle_below_def)
  next
    case False
    then have "cycle_below s c" using Cons by auto
    moreover have "(a, c) \<in> kid_rel s" using Cons.prems(1) by simp
    ultimately show ?thesis unfolding cycle_below_def by (meson converse_rtrancl_into_rtrancl)
  qed
qed simp

lemma chain_bounded:
  assumes "heap_ok s" and "chain s a cs" and "live s (Sc a)" and "\<not> cycle_below s a"
  shows "length cs < rv_next s"
proof -
  have bound: "live s (Sc b) \<Longrightarrow> b < rv_next s" for b using assms(1) unfolding heap_ok_def by force
  have kid: "(b, c) \<in> kid_rel s \<Longrightarrow> live s (Sc c)" for b c
    using assms(1) par_live by (auto simp: kid_rel_def heap_ok_def)
  have "chain s b ds \<Longrightarrow> \<forall>c \<in> set ds. live s (Sc c)" for b ds
    by (induction ds arbitrary: b) (auto intro: kid)
  then have "set (a # cs) \<subseteq> {..<rv_next s}" using assms(2,3) bound by auto
  then have "card (set (a # cs)) \<le> rv_next s" using card_mono [of "{..<rv_next s}"] by fastforce
  moreover have "distinct (a # cs)" using chain_cycle [OF assms(2)] assms(4) by blast
  ultimately show ?thesis using distinct_card by fastforce
qed

lemma cycle_chain:
  assumes "cycle_below s a"
  shows "\<exists>cs. length cs = n \<and> chain s a cs"
  using assms
proof (induction n arbitrary: a)
  case 0
  then show ?case by auto
next
  case (Suc n)
  then obtain b where b: "(a, b) \<in> (kid_rel s)\<^sup>*" "(b, b) \<in> (kid_rel s)\<^sup>+" by (auto simp: cycle_below_def)
  then have "(a, b) \<in> (kid_rel s)\<^sup>+" by (meson rtrancl_trancl_trancl)
  then obtain c where c: "(a, c) \<in> kid_rel s" "(c, b) \<in> (kid_rel s)\<^sup>*" by (meson tranclD)
  then have "cycle_below s c" using b(2) by (auto simp: cycle_below_def)
  from Suc.IH [OF this] obtain cs where "length cs = n" "chain s c cs" by blast
  with c(1) show ?case by (intro exI [of _ "c # cs"]) simp
qed

text \<open>Without fuel for a chain of children as long as the fuel, the update succeeds.\<close>

lemma recursivelyUpdateIDs_total:
  assumes "pre_graph U s" and "\<forall>o'. live s o' \<longrightarrow> own s o' \<noteq> {}" and "live s (Sc a)"
    and "\<And>cs. chain s a cs \<Longrightarrow> length cs \<noteq> n"
  shows "\<exists>s'. recursivelyUpdateIDs n a (U (Sc a)) s = Some s'"
  using assms
proof (induction n arbitrary: a s)
  case 0
  then show ?case using chain.simps(1) list.size(3) by metis
next
  case (Suc n)
  let ?kid = "\<lambda>c s. do {
     csc \<leftarrow> rv_scopes s c;
     tempSuffix \<leftarrow> first_suffix (sc_ids csc);
     recursivelyUpdateIDs n c tempSuffix s
   }"
  obtain sc where sc: "rv_scopes s a = Some sc" using Suc.prems(3) by (auto simp: live_def)
  have bel: "{o2. a \<in> par s o2} = Sc ` set (childrenScopes sc) \<union> It ` set (informationitems sc)"
    by (rule below_eq [OF pre_graph_parts(1) [OF Suc.prems(1)] sc])
  obtain s1 where s1: "fold_opt (inherit (Sc a) (U (Sc a))) (fatherScopes sc) s = Some s1" "pre_graph U s1" "grow s s1"
    using refresh_obj [OF Suc.prems(1), of "Sc a"] sc by auto
  let ?I = "\<lambda>s'. pre_graph U s' \<and> grow s s'"
  have live: "live t o2 \<and> own t o2 \<noteq> {}" if "o2 \<in> below s a" "grow s t" for o2 t
  proof -
    have "live s o2" using that(1) par_live [of a s o2] pre_graph_parts(1) [OF Suc.prems(1)]
      by (simp add: heap_ok_def)
    moreover obtain x where "x \<in> own s o2" using calculation Suc.prems(2) by blast
    ultimately show ?thesis using grow_view(1,6) [OF that(2)] by auto
  qed
  have below: "below s a = Sc ` set (childrenScopes sc) \<union> It ` set (informationitems sc)"
    using sc by (simp add: below_def)
  have "\<exists>s2. fold_opt ?kid (childrenScopes sc) s1 = Some s2 \<and> (set [] \<subseteq> set (childrenScopes sc) \<and> ?I s2)"
  proof (rule fold_opt_total [where I = "\<lambda>cs t. set cs \<subseteq> set (childrenScopes sc) \<and> ?I t"])
    show "set (childrenScopes sc) \<subseteq> set (childrenScopes sc) \<and> ?I s1" using s1 by simp
    fix c cs t assume I: "set (c # cs) \<subseteq> set (childrenScopes sc) \<and> ?I t"
    then have c: "Sc c \<in> below s a" by (auto simp: below)
    from live [OF c] I have lv: "live t (Sc c)" "own t (Sc c) \<noteq> {}" by auto
    then obtain csc where csc: "rv_scopes t c = Some csc" by (auto simp: live_def)
    have fs: "first_suffix (sc_ids csc) = Some (U (Sc c))"
      by (rule first_suffix_ex [of U t]) (use I csc lv(2) pre_graph_parts(3) in auto)
    have "length ds \<noteq> n" if "chain t c ds" for ds
    proof
      assume "length ds = n"
      moreover have "chain s a (c # ds)"
        using that c I chain_below_cong [of t s c ds] grow_view(4) [of s t] by (simp add: kid_rel_def)
      ultimately show False using Suc.prems(4) [of "c # ds"] by simp
    qed
    moreover have "\<forall>o'. live t o' \<longrightarrow> own t o' \<noteq> {}"
      using I Suc.prems(2) grow_view(1,6) [of s t] by (metis ex_in_conv)
    ultimately obtain t' where t': "recursivelyUpdateIDs n c (U (Sc c)) t = Some t'"
      using Suc.IH [of t c] I lv(1) by auto
    then have "pre_graph U t' \<and> grow t t'" using recursivelyUpdateIDs_partial [of U t n c t'] I by auto
    then have "?I t'" using I grow_trans by blast
    then show "\<exists>s'. ?kid c t = Some s' \<and> set cs \<subseteq> set (childrenScopes sc) \<and> ?I s'"
      using I csc fs t' by simp
  qed
  then obtain s2 where s2: "fold_opt ?kid (childrenScopes sc) s1 = Some s2" "?I s2" by blast
  have "\<exists>s3. fold_opt item_refresh (informationitems sc) s2 = Some s3 \<and> (set [] \<subseteq> set (informationitems sc) \<and> ?I s3)"
  proof (rule fold_opt_total [where I = "\<lambda>is t. set is \<subseteq> set (informationitems sc) \<and> ?I t"])
    show "set (informationitems sc) \<subseteq> set (informationitems sc) \<and> ?I s2" using s2 by simp
    fix i "is" t assume I: "set (i # is) \<subseteq> set (informationitems sc) \<and> ?I t"
    then have i: "It i \<in> below s a" by (auto simp: below)
    from live [OF i] I have lv: "live t (It i)" "own t (It i) \<noteq> {}" by auto
    then obtain it where it: "rv_items t i = Some it" by (auto simp: live_def)
    have fs: "first_suffix (it_ids it) = Some (U (It i))"
      by (rule first_suffix_ex [of U t]) (use I it lv(2) pre_graph_parts(3) in auto)
    from item_refresh_ok [OF _ it fs] I obtain t' where "item_refresh i t = Some t'" "pre_graph U t'" "grow t t'"
      by blast
    then show "\<exists>s'. item_refresh i t = Some s' \<and> set is \<subseteq> set (informationitems sc) \<and> ?I s'"
      using I grow_trans by auto
  qed
  then obtain s3 where "fold_opt item_refresh (informationitems sc) s2 = Some s3" by blast
  with sc s1(1) s2(1) show ?case by (simp add: inherit_eqs)
qed

text \<open>A scope that was just created, with nothing below it, inherits in one step.\<close>

lemma recursivelyUpdateIDs_leaf:
  assumes "pre_graph U s" and "rv_scopes s a = Some sc" and "childrenScopes sc = []" and "informationitems sc = []"
  shows "\<exists>s'. recursivelyUpdateIDs (Suc n) a (U (Sc a)) s = Some s'"
  using refresh_obj [OF assms(1), of "Sc a"] assms by (auto simp: inherit_eqs)

text \<open>The update never changes the links, so a chain exhausts any fuel.\<close>

lemma add_id_skel: "add_id o' x s = Some s' \<Longrightarrow> skel s' = skel s"
proof -
  assume a: "add_id o' x s = Some s'"
  have "live s o'"
  proof (cases o')
    case (Sc b)
    then show ?thesis using a by (auto simp: scope_add_id_def live_def split: Option.bind_splits)
  next
    case (It b)
    then show ?thesis using a by (auto simp: item_add_id_def live_def split: Option.bind_splits)
  qed
  from add_id_grow [OF this, of x] a show ?thesis by (auto simp: grow_def)
qed

lemma fold_skel:
  assumes "\<And>x s s'. f x s = Some s' \<Longrightarrow> skel s' = skel s" and "fold_opt f xs s = Some s'"
  shows "skel s' = skel s"
  by (rule fold_opt_inv [where I = "\<lambda>_ t. skel t = skel s", OF assms(2)]) (use assms(1) in auto)

lemma inherit_skel: "inherit o' u f s = Some s' \<Longrightarrow> skel s' = skel s"
  by (auto simp: inherit_def split: Option.bind_splits intro: fold_skel dest: add_id_skel)

lemma item_refresh_skel: "item_refresh i s = Some s' \<Longrightarrow> skel s' = skel s"
  by (auto simp: item_refresh_def InformationItem_updateIDs_def inherit_eqs split: Option.bind_splits
      intro: fold_skel dest: inherit_skel)

lemma recursivelyUpdateIDs_skel: "recursivelyUpdateIDs n a u s = Some s' \<Longrightarrow> skel s' = skel s"
proof (induction n arbitrary: a u s s')
  case (Suc n)
  let ?kid = "\<lambda>c s. do {
     csc \<leftarrow> rv_scopes s c;
     tempSuffix \<leftarrow> first_suffix (sc_ids csc);
     recursivelyUpdateIDs n c tempSuffix s
   }"
  from Suc.prems obtain sc s1 s2 where "rv_scopes s a = Some sc" and s1: "fold_opt (inherit (Sc a) u) (fatherScopes sc) s = Some s1"
    and s2: "fold_opt ?kid (childrenScopes sc) s1 = Some s2"
    and s3: "fold_opt item_refresh (informationitems sc) s2 = Some s'"
    by (auto simp: inherit_eqs split: Option.bind_splits)
  have "skel s1 = skel s" by (rule fold_skel [OF inherit_skel s1])
  moreover have "skel s2 = skel s1"
    by (rule fold_skel [OF _ s2]) (auto split: Option.bind_splits dest: Suc.IH)
  moreover have "skel s' = skel s2" by (rule fold_skel [OF item_refresh_skel s3])
  ultimately show ?case by simp
qed simp

lemma fold_opt_None_at:
  assumes "x \<in> set xs" and "\<And>y s s'. P s \<Longrightarrow> f y s = Some s' \<Longrightarrow> P s'" and "\<And>s. P s \<Longrightarrow> f x s = None" and "P s"
  shows "fold_opt f xs s = None"
  using assms(1,4)
proof (induction xs arbitrary: s)
  case (Cons y ys)
  show ?case
  proof (cases "f y s")
    case (Some t)
    then have "y \<noteq> x" using assms(3) [OF Cons.prems(2)] by auto
    then have "x \<in> set ys" using Cons.prems(1) by simp
    then show ?thesis using Cons.IH assms(2) [OF Cons.prems(2) Some] Some by simp
  qed simp
qed simp

lemma chain_None: "chain s a cs \<Longrightarrow> length cs = n \<Longrightarrow> recursivelyUpdateIDs n a u s = None"
proof (induction n arbitrary: a u s cs)
  case (Suc n)
  let ?kid = "\<lambda>c s. do {
     csc \<leftarrow> rv_scopes s c;
     tempSuffix \<leftarrow> first_suffix (sc_ids csc);
     recursivelyUpdateIDs n c tempSuffix s
   }"
  obtain c ds where cs: "cs = c # ds" "length ds = n" "Sc c \<in> below s a" "chain s c ds"
    using Suc.prems by (cases cs) (auto simp: kid_rel_def)
  obtain sc where sc: "rv_scopes s a = Some sc" "c \<in> set (childrenScopes sc)"
    using cs(3) by (auto simp: below_def split: option.splits)
  have kid: "?kid c t = None" if "skel t = skel s" for t
  proof -
    have "chain t c ds" using chain_below_cong [of t s c ds] skel_view(4) [OF that] cs(4) by simp
    then show ?thesis using Suc.IH [of t c ds] cs(2) by (auto split: Option.bind_splits)
  qed
  have "fold_opt ?kid (childrenScopes sc) s1 = None" if "skel s1 = skel s" for s1
    by (rule fold_opt_None_at [where P = "\<lambda>t. skel t = skel s", OF sc(2)])
       (use kid that in \<open>auto split: Option.bind_splits dest: recursivelyUpdateIDs_skel\<close>)
  moreover have "skel s1 = skel s" if "fold_opt (inherit (Sc a) u) (fatherScopes sc) s = Some s1" for s1
    by (rule fold_skel [OF inherit_skel that])
  ultimately show ?case using sc(1)
    by (cases "fold_opt (inherit (Sc a) u) (fatherScopes sc) s") (simp_all add: inherit_eqs)
qed simp

lemma recursivelyUpdateIDs_None_iff:
  assumes "pre_graph U s" and "\<forall>o'. live s o' \<longrightarrow> own s o' \<noteq> {}" and "live s (Sc a)"
  shows "Scope_recursivelyUpdateIDs a (U (Sc a)) s = None \<longleftrightarrow> cycle_below s a"
proof
  assume none: "Scope_recursivelyUpdateIDs a (U (Sc a)) s = None"
  show "cycle_below s a"
  proof (rule ccontr)
    assume "\<not> cycle_below s a"
    then have "chain s a cs \<Longrightarrow> length cs \<noteq> rv_next s" for cs
      using chain_bounded [OF pre_graph_parts(1) [OF assms(1)] _ assms(3)] by fastforce
    from recursivelyUpdateIDs_total [OF assms this] none show False
      by (simp add: Scope_recursivelyUpdateIDs_def)
  qed
next
  assume "cycle_below s a"
  from cycle_chain [OF this, of "rv_next s"] chain_None show "Scope_recursivelyUpdateIDs a (U (Sc a)) s = None"
    by (auto simp: Scope_recursivelyUpdateIDs_def)
qed

text \<open>A complete graph has no cycle: along an edge the longest identifier gets longer.\<close>

lemma graph_ok_acyclic:
  assumes "graph_ok U s"
  shows "acyclic (kid_rel s)"
proof -
  have pre: "pre_graph U s" and miss: "missing U s = {}" and ne: "\<forall>o'. live s o' \<longrightarrow> own s o' \<noteq> {}"
    using assms by (simp_all add: graph_ok_def)
  have fin: "finite (own s o')" for o' by (simp add: own_def split: option.splits)
  define rank where "rank = (\<lambda>a. Max (length ` own s (Sc a)))"
  have edge: "rank a < rank c" if "(a, c) \<in> kid_rel s" for a c
  proof -
    have b: "Sc c \<in> below s a" using that by (simp add: kid_rel_def)
    then have p: "a \<in> par s (Sc c)" using pre_graph_parts(1) [OF pre] by (simp add: heap_ok_def)
    have "own s (Sc a) \<noteq> {}" using below_live [OF b] ne by blast
    then have "rank a \<in> length ` own s (Sc a)" unfolding rank_def using fin by (intro Max_in) auto
    then obtain x where x: "x \<in> own s (Sc a)" "length x = rank a" by auto
    then have "x @ U (Sc c) \<in> own s (Sc c)" using miss p by (auto simp: missing_def)
    then have "length (x @ U (Sc c)) \<in> length ` own s (Sc c)" by (rule imageI)
    then have "length (x @ U (Sc c)) \<le> rank c" unfolding rank_def using fin by (intro Max_ge) auto
    then show ?thesis using x(2) sfx_okL [OF pre_graph_parts(3) [OF pre], of "Sc c"] by simp
  qed
  have "rank a < rank b" if "(a, b) \<in> (kid_rel s)\<^sup>+" for a b
    using that by (induction rule: trancl_induct) (auto dest: edge intro: less_trans)
  then show ?thesis by (meson acyclicI less_irrefl)
qed

end
