(* ===== verification/BA_LocalRV_Inv.thy ===== *)
theory BA_LocalRV_Inv
  imports BA_LocalRV BA_Graph
begin

text \<open>
  The invariant of the rendezvous element and the proof that every well-formed request keeps it and
  is handled without undefined behaviour: the graph is complete (each object has exactly the
  identifiers its fathers hand down, and the two indexes are exact), and the books of the hosts say
  the same as the publisher and subscriber sets of the graph.
\<close>

subsection \<open>The books\<close>

datatype book = SPub | SSub | IPub | ISub

fun book_obj :: "book \<Rightarrow> addr \<Rightarrow> obj" where
  "book_obj SPub = Sc"
| "book_obj SSub = Sc"
| "book_obj IPub = It"
| "book_obj ISub = It"

fun book_side :: "book \<Rightarrow> host_pair \<Rightarrow> host list" where
  "book_side SPub = fst"
| "book_side SSub = snd"
| "book_side IPub = fst"
| "book_side ISub = snd"

fun book_of :: "book \<Rightarrow> remote_host \<Rightarrow> bstr list" where
  "book_of SPub = publishedScopes"
| "book_of SSub = subscribedScopes"
| "book_of IPub = publishedInformationItems"
| "book_of ISub = subscribedInformationItems"

definition graph_book :: "rv \<Rightarrow> book \<Rightarrow> (bstr \<times> host) set" where
  "graph_book s b = {(x, h). \<exists>a. h \<in> set (book_side b (pair_at s (book_obj b a) x))}"

definition host_book :: "rv \<Rightarrow> book \<Rightarrow> (bstr \<times> host) set" where
  "host_book s b = {(x, h). \<exists>rh. hm_get (pub_sub_Index s) h = Some rh \<and> x \<in> set (book_of b rh)}"

definition known :: "rv \<Rightarrow> host \<Rightarrow> bool" where
  "known s h \<longleftrightarrow> hm_get (pub_sub_Index s) h \<noteq> None"

definition books_ok :: "rv \<Rightarrow> bool" where
  "books_ok s \<longleftrightarrow> hm_wf (pub_sub_Index s) \<and> (\<forall>b. graph_book s b = host_book s b)"

definition hosts_ok :: "rv \<Rightarrow> bool" where
  "hosts_ok s \<longleftrightarrow> (\<forall>h. known s h \<longrightarrow> length h = NODEID_LEN) \<and>
     (\<forall>o' x. distinct (fst (pair_at s o' x)) \<and> distinct (snd (pair_at s o' x)))"

text \<open>The messages of the request in hand name only hosts that have a record.\<close>

fun msg_hosts :: "rv_msg \<Rightarrow> host list" where
  "msg_hosts (TM_Rendezvous strategy ps ss IDs) = ps @ ss"
| "msg_hosts (TM_Notify type strategy ss IDs) = ss"
| "msg_hosts (Local_Publisher start IDs) = []"
| "msg_hosts (Local_Subscriber type IDs) = []"

definition msgs_known :: "rv \<Rightarrow> bool" where
  "msgs_known s \<longleftrightarrow> (\<forall>m \<in> set (rv_msgs s). \<forall>h \<in> set (msg_hosts m). known s h)"

definition rv_inv :: "rv \<Rightarrow> bool" where
  "rv_inv s \<longleftrightarrow> gc_wf (rv_gc s) \<and> (\<exists>U. graph_ok U s) \<and> books_ok s \<and> hosts_ok s \<and> msgs_known s"

text \<open>Steps that touch neither the shape of the graph nor the identifiers.\<close>

definition ids_wf :: "rv \<Rightarrow> bool" where
  "ids_wf s \<longleftrightarrow> (\<forall>o' m. obj_ids s o' = Some m \<longrightarrow> hm_wf m)"

lemma ids_wfD: "ids_wf s \<Longrightarrow> rv_scopes s a = Some sc \<Longrightarrow> hm_wf (sc_ids sc)"
  "ids_wf s \<Longrightarrow> rv_items s a = Some it \<Longrightarrow> hm_wf (it_ids it)"
  unfolding ids_wf_def by (metis obj_ids.simps(1) option.simps(9)) (metis obj_ids.simps(2) option.simps(9))

lemma ids_wf_put: "ids_wf s \<Longrightarrow> hm_wf (sc_ids sc) \<Longrightarrow> ids_wf (put_scope a sc s)"
  "ids_wf s \<Longrightarrow> hm_wf (it_ids it) \<Longrightarrow> ids_wf (put_item a it s)"
  unfolding ids_wf_def obj_ids_put by (auto split: if_splits)

definition same_graph :: "rv \<Rightarrow> rv \<Rightarrow> bool" where
  "same_graph s s' \<longleftrightarrow> skel s' = skel s \<and> own s' = own s \<and> scopeIndex s' = scopeIndex s \<and>
     pubIndex s' = pubIndex s \<and> rv_next s' = rv_next s \<and>
     (ids_wf s \<longrightarrow> ids_wf s')"

lemma skel_lists:
  assumes "skel s' = skel s" and "rv_scopes s' a = Some sc'"
  shows "\<exists>sc. rv_scopes s a = Some sc \<and> childrenScopes sc' = childrenScopes sc \<and>
    informationitems sc' = informationitems sc \<and> fatherScopes sc' = fatherScopes sc \<and> sc_strategy sc' = sc_strategy sc"
  using skel_scope_Some [of s s' a sc'] assms by auto

lemma graph_ok_same:
  assumes "graph_ok U s" and "same_graph s s'"
  shows "graph_ok U s'"
proof -
  have skel: "skel s' = skel s" and own: "own s' = own s" using assms(2) by (simp_all add: same_graph_def)
  note v = skel_view [OF skel]
  have d: "distinct (childrenScopes sc) \<and> distinct (informationitems sc)" if sc: "rv_scopes s' a = Some sc" for a sc
    using skel_lists [OF skel sc] assms(1) by (auto simp: graph_ok_def pre_graph_def heap_ok_def)
  have g: "heap_ok s" "index_ok s" "sfx_ok U s" "back_ok s" "sib_ok U s" "no_self s" "missing U s = {}"
    "\<forall>o'. live s o' \<longrightarrow> own s o' \<noteq> {}"
    using assms(1) by (simp_all add: graph_ok_def pre_graph_def)
  have ix: "scopeIndex s' = scopeIndex s" "pubIndex s' = pubIndex s" "rv_next s' = rv_next s"
    "ids_wf s \<longrightarrow> ids_wf s'"
    using assms(2) by (simp_all add: same_graph_def)
  have h: "\<forall>o'. live s o' \<longrightarrow> obj_addr o' < rv_next s" "\<forall>a o'. o' \<in> below s a \<longleftrightarrow> a \<in> par s o'"
    "ids_wf s" "hm_wf (scopeIndex s)" "hm_wf (pubIndex s)" "\<forall>o'. distinct (obj_fathers s o')"
    using g(1) by (simp_all add: heap_ok_def ids_wf_def)
  have "heap_ok s'"
    unfolding heap_ok_def v ix(1-3) ids_wf_def [symmetric] using h ix(4) d by simp
  moreover have "index_ok s'" using g(2) unfolding index_ok_def own ix .
  moreover have "sfx_ok U s'" using g(3) unfolding sfx_ok_def own .
  moreover have "back_ok s'" using g(4) unfolding back_ok_def own v .
  moreover have "sib_ok U s'" using g(5) unfolding sib_ok_def v .
  moreover have "no_self s'" using g(6) unfolding no_self_def v .
  moreover have "missing U s' = {}" using g(7) unfolding missing_def v own .
  ultimately show ?thesis using g(8) unfolding graph_ok_def pre_graph_def v own by blast
qed

lemma same_graph_refl [simp]: "same_graph s s"
  by (simp add: same_graph_def)

lemma same_graph_trans: "same_graph s s1 \<Longrightarrow> same_graph s1 s2 \<Longrightarrow> same_graph s s2"
  by (simp add: same_graph_def)

lemma same_heap_graph:
  assumes "rv_scopes s' = rv_scopes s" "rv_items s' = rv_items s" "scopeIndex s' = scopeIndex s"
    "pubIndex s' = pubIndex s" "rv_next s' = rv_next s"
  shows "same_graph s s'"
  using view_cong [OF assms(1,2)] assms by (simp add: same_graph_def skel_def ids_wf_def)

subsection \<open>Changing the hosts under an identifier\<close>

lemma put_pair_scope:
  assumes "rv_scopes s a = Some sc" and "x \<in> own s (Sc a)"
  and s'_def: "s' = put_scope a (sc\<lparr>sc_ids := hm_set x pr (sc_ids sc)\<rparr>) s"
  shows "same_graph s s'" "pair_at s' = (pair_at s)(Sc a := (pair_at s (Sc a))(x := pr))"
    "pub_sub_Index s' = pub_sub_Index s" "rv_gc s' = rv_gc s" "rv_msgs s' = rv_msgs s"
proof -
  have "own s' = own s" using assms(1,2) by (auto simp: fun_eq_iff s'_def own_put keys_put own_Sc)
  moreover have "skel s' = skel s" using assms(1) by (auto simp: s'_def skel_def fun_eq_iff)
  moreover have "ids_wf s \<longrightarrow> ids_wf s'"
    using ids_wf_put(1) ids_wfD(1) assms(1) by (simp add: s'_def)
  ultimately show "same_graph s s'" by (simp add: same_graph_def s'_def)
  show "pair_at s' = (pair_at s)(Sc a := (pair_at s (Sc a))(x := pr))"
    using assms(1) by (auto simp: fun_eq_iff s'_def pair_put pair_Sc)
qed (simp_all add: s'_def)

lemma put_pair_item:
  assumes "rv_items s a = Some it" and "x \<in> own s (It a)"
  and s'_def: "s' = put_item a (it\<lparr>it_ids := hm_set x pr (it_ids it)\<rparr>) s"
  shows "same_graph s s'" "pair_at s' = (pair_at s)(It a := (pair_at s (It a))(x := pr))"
    "pub_sub_Index s' = pub_sub_Index s" "rv_gc s' = rv_gc s" "rv_msgs s' = rv_msgs s"
proof -
  have "own s' = own s" using assms(1,2) by (auto simp: fun_eq_iff s'_def own_put keys_put own_It)
  moreover have "skel s' = skel s" using assms(1) by (auto simp: s'_def skel_def fun_eq_iff)
  moreover have "ids_wf s \<longrightarrow> ids_wf s'"
    using ids_wf_put(2) ids_wfD(2) assms(1) by (simp add: s'_def)
  ultimately show "same_graph s s'" by (simp add: same_graph_def s'_def)
  show "pair_at s' = (pair_at s)(It a := (pair_at s (It a))(x := pr))"
    using assms(1) by (auto simp: fun_eq_iff s'_def pair_put pair_It)
qed (simp_all add: s'_def)

lemma own_pair_Sc: "rv_scopes s a = Some sc \<Longrightarrow> x \<in> own s (Sc a) \<Longrightarrow> hm_get (sc_ids sc) x = Some (pair_at s (Sc a) x)"
  using own_hm [of s "Sc a" "sc_ids sc" x] by (auto simp: pair_Sc)

lemma own_pair_It: "rv_items s a = Some it \<Longrightarrow> x \<in> own s (It a) \<Longrightarrow> hm_get (it_ids it) x = Some (pair_at s (It a) x)"
  using own_hm [of s "It a" "it_ids it" x] by (auto simp: pair_It)

subsection \<open>Keeping the two books together\<close>

fun host_add :: "book \<Rightarrow> host \<Rightarrow> bstr \<Rightarrow> rv \<Rightarrow> rv option" where
  "host_add SPub = host_add_scope"
| "host_add SSub = host_sub_scope"
| "host_add IPub = host_add_info"
| "host_add ISub = host_sub_info"

fun host_del :: "book \<Rightarrow> host \<Rightarrow> bstr \<Rightarrow> rv \<Rightarrow> rv option" where
  "host_del SPub = host_del_scope"
| "host_del SSub = host_unsub_scope"
| "host_del IPub = host_del_info"
| "host_del ISub = host_unsub_info"

text \<open>The heap and the indexes are those of another state.\<close>

definition heap_eq :: "rv \<Rightarrow> rv \<Rightarrow> bool" where
  "heap_eq s s' \<longleftrightarrow> rv_scopes s' = rv_scopes s \<and> rv_items s' = rv_items s \<and> scopeIndex s' = scopeIndex s \<and>
     pubIndex s' = pubIndex s \<and> rv_next s' = rv_next s \<and> rv_gc s' = rv_gc s \<and> rv_localProxy s' = rv_localProxy s \<and>
     rv_msgs s' = rv_msgs s \<and> rv_out s' = rv_out s"

lemma heap_eq_same: "heap_eq s s' \<Longrightarrow> same_graph s s'"
  by (rule same_heap_graph) (simp_all add: heap_eq_def)

lemma heap_eq_pair: "heap_eq s s' \<Longrightarrow> pair_at s' = pair_at s"
  by (rule view_cong) (simp_all add: heap_eq_def)

lemma graph_book_pair: "pair_at s' = pair_at s \<Longrightarrow> graph_book s' = graph_book s"
  by (simp add: graph_book_def fun_eq_iff)

definition host_step :: "rv \<Rightarrow> rv \<Rightarrow> bool" where
  "host_step s s' \<longleftrightarrow> heap_eq s s' \<and> known s' = known s \<and> (hm_wf (pub_sub_Index s) \<longrightarrow> hm_wf (pub_sub_Index s'))"

lemma update_host_ok:
  assumes "known s h"
  shows "\<exists>s' rh. update_host h f s = Some s' \<and> hm_get (pub_sub_Index s) h = Some rh \<and> host_step s s' \<and>
    (\<forall>b x h'. (x, h') \<in> host_book s' b \<longleftrightarrow> (if h' = h then x \<in> set (book_of b (f rh)) else (x, h') \<in> host_book s b))"
proof -
  obtain rh where rh: "hm_get (pub_sub_Index s) h = Some rh" using assms by (auto simp: known_def)
  let ?s = "s\<lparr>pub_sub_Index := hm_set h (f rh) (pub_sub_Index s)\<rparr>"
  have "update_host h f s = Some ?s" using rh by (simp add: update_host_def)
  moreover have "host_step s ?s" using rh by (auto simp: host_step_def heap_eq_def known_def fun_eq_iff)
  ultimately show ?thesis using rh by (intro exI [of _ ?s] exI [of _ rh]) (auto simp: host_book_def)
qed

lemma host_add_ok:
  assumes "known s h"
  shows "\<exists>s'. host_add b h x s = Some s' \<and> host_step s s' \<and> host_book s' = (host_book s)(b := insert (x, h) (host_book s b))"
proof -
  define f :: "remote_host \<Rightarrow> remote_host" where "f = (case b of
       SPub \<Rightarrow> (\<lambda>r. r\<lparr>publishedScopes := hs_insert x (publishedScopes r)\<rparr>)
     | SSub \<Rightarrow> (\<lambda>r. r\<lparr>subscribedScopes := hs_insert x (subscribedScopes r)\<rparr>)
     | IPub \<Rightarrow> (\<lambda>r. r\<lparr>publishedInformationItems := hs_insert x (publishedInformationItems r)\<rparr>)
     | ISub \<Rightarrow> (\<lambda>r. r\<lparr>subscribedInformationItems := hs_insert x (subscribedInformationItems r)\<rparr>))"
  have eq: "host_add b h x s = update_host h f s"
    by (cases b) (simp_all add: f_def host_add_scope_def host_add_info_def host_sub_scope_def host_sub_info_def)
  have f: "set (book_of b' (f rh)) = (if b' = b then insert x (set (book_of b rh)) else set (book_of b' rh))" for b' rh
    by (cases b; cases b') (simp_all add: f_def)
  obtain s' rh where s': "update_host h f s = Some s'" "hm_get (pub_sub_Index s) h = Some rh" "host_step s s'"
    "\<forall>b x h'. (x, h') \<in> host_book s' b \<longleftrightarrow> (if h' = h then x \<in> set (book_of b (f rh)) else (x, h') \<in> host_book s b)"
    using update_host_ok [OF assms, of f] by blast
  have here: "(y, h) \<in> host_book s b' \<longleftrightarrow> y \<in> set (book_of b' rh)" for y b'
    using s'(2) by (simp add: host_book_def)
  have mem: "(y, h') \<in> host_book s' b' \<longleftrightarrow> (y, h') \<in> ((host_book s)(b := insert (x, h) (host_book s b))) b'" for y h' b'
    unfolding s'(4) [rule_format] f using here by (cases "h' = h"; cases "b' = b") auto
  have "host_book s' = (host_book s)(b := insert (x, h) (host_book s b))"
    by (rule ext, rule set_eqI) (use mem in \<open>simp only: split_paired_all\<close>)
  then show ?thesis using s'(1,3) by (simp add: eq)
qed

lemma host_del_ok:
  assumes "known s h"
  shows "\<exists>s'. host_del b h x s = Some s' \<and> host_step s s' \<and> host_book s' = (host_book s)(b := host_book s b - {(x, h)})"
proof -
  define f :: "remote_host \<Rightarrow> remote_host" where "f = (case b of
       SPub \<Rightarrow> (\<lambda>r. r\<lparr>publishedScopes := hs_erase x (publishedScopes r)\<rparr>)
     | SSub \<Rightarrow> (\<lambda>r. r\<lparr>subscribedScopes := hs_erase x (subscribedScopes r)\<rparr>)
     | IPub \<Rightarrow> (\<lambda>r. r\<lparr>publishedInformationItems := hs_erase x (publishedInformationItems r)\<rparr>)
     | ISub \<Rightarrow> (\<lambda>r. r\<lparr>subscribedInformationItems := hs_erase x (subscribedInformationItems r)\<rparr>))"
  have eq: "host_del b h x s = update_host h f s"
    by (cases b) (simp_all add: f_def host_del_scope_def host_del_info_def host_unsub_scope_def host_unsub_info_def)
  have f: "set (book_of b' (f rh)) = (if b' = b then set (book_of b rh) - {x} else set (book_of b' rh))" for b' rh
    by (cases b; cases b') (simp_all add: f_def)
  obtain s' rh where s': "update_host h f s = Some s'" "hm_get (pub_sub_Index s) h = Some rh" "host_step s s'"
    "\<forall>b x h'. (x, h') \<in> host_book s' b \<longleftrightarrow> (if h' = h then x \<in> set (book_of b (f rh)) else (x, h') \<in> host_book s b)"
    using update_host_ok [OF assms, of f] by blast
  have here: "(y, h) \<in> host_book s b' \<longleftrightarrow> y \<in> set (book_of b' rh)" for y b'
    using s'(2) by (simp add: host_book_def)
  have mem: "(y, h') \<in> host_book s' b' \<longleftrightarrow> (y, h') \<in> ((host_book s)(b := host_book s b - {(x, h)})) b'" for y h' b'
    unfolding s'(4) [rule_format] f using here by (cases "h' = h"; cases "b' = b") auto
  have "host_book s' = (host_book s)(b := host_book s b - {(x, h)})"
    by (rule ext, rule set_eqI) (use mem in \<open>simp only: split_paired_all\<close>)
  then show ?thesis using s'(1,3) by (simp add: eq)
qed

fun upd_side :: "book \<Rightarrow> (host list \<Rightarrow> host list) \<Rightarrow> host_pair \<Rightarrow> host_pair" where
  "upd_side SPub f pr = (f (fst pr), snd pr)"
| "upd_side SSub f pr = (fst pr, f (snd pr))"
| "upd_side IPub f pr = (f (fst pr), snd pr)"
| "upd_side ISub f pr = (fst pr, f (snd pr))"

lemma pair_not_own: "x \<notin> own s o' \<Longrightarrow> pair_at s o' x = ([], [])"
proof (cases "obj_ids s o'")
  case (Some m)
  assume "x \<notin> own s o'"
  then have "hm_get m x = None" using own_hm [OF Some, of x] by (cases "hm_get m x") auto
  then show ?thesis using Some by (simp add: pair_at_def)
qed (simp add: pair_at_def)

lemma graph_book_at:
  assumes "index_ok s" and "x \<in> own s (book_obj b a)"
  shows "(x, h) \<in> graph_book s b \<longleftrightarrow> h \<in> set (book_side b (pair_at s (book_obj b a) x))"
proof
  assume "(x, h) \<in> graph_book s b"
  then obtain a' where a': "h \<in> set (book_side b (pair_at s (book_obj b a') x))" by (auto simp: graph_book_def)
  have nil: "book_side b ([], []) = []" by (cases b) simp_all
  have "x \<in> own s (book_obj b a')"
  proof (rule ccontr)
    assume "x \<notin> own s (book_obj b a')"
    then show False using pair_not_own [of x s "book_obj b a'"] a' nil by simp
  qed
  then have "book_obj b a' = book_obj b a" using own_unique [OF assms(1) _ assms(2)] by blast
  then show "h \<in> set (book_side b (pair_at s (book_obj b a) x))" using a' by simp
qed (auto simp: graph_book_def)

text \<open>One host added to, or taken from, one side of one pair.\<close>

definition pair_step :: "book \<Rightarrow> addr \<Rightarrow> bstr \<Rightarrow> (host list \<Rightarrow> host list) \<Rightarrow> rv \<Rightarrow> rv \<Rightarrow> bool" where
  "pair_step b a x f s s' \<longleftrightarrow> same_graph s s' \<and> pub_sub_Index s' = pub_sub_Index s \<and> rv_gc s' = rv_gc s \<and> rv_msgs s' = rv_msgs s \<and>
     pair_at s' = (pair_at s)(book_obj b a := (pair_at s (book_obj b a))(x := upd_side b f (pair_at s (book_obj b a) x)))"

lemma pair_step_book:
  assumes "pair_step b a x f s s'" and "index_ok s" and "x \<in> own s (book_obj b a)"
  shows "graph_book s' b' = (if b' = b
      then {(y, h) \<in> graph_book s b. y \<noteq> x} \<union> {x} \<times> set (f (book_side b (pair_at s (book_obj b a) x)))
      else graph_book s b')"
proof -
  have pa: "pair_at s' = (pair_at s)(book_obj b a := (pair_at s (book_obj b a))(x := upd_side b f (pair_at s (book_obj b a) x)))"
    using assms(1) by (simp add: pair_step_def)
  have other: "pair_at s (book_obj b a') x = ([], [])" if "a' \<noteq> a" for a'
  proof (rule pair_not_own)
    have "book_obj b a' \<noteq> book_obj b a" using that by (cases b) simp_all
    then show "x \<notin> own s (book_obj b a')" using own_unique [OF assms(2) _ assms(3)] by blast
  qed
  have nil: "book_side b ([], []) = []" by (cases b) simp_all
  have inj: "book_obj b a' = book_obj b a \<longleftrightarrow> a' = a" for a' by (cases b) simp_all
  have side: "book_side b (upd_side b f pr) = f (book_side b pr)" for pr by (cases b) simp_all
  have elem: "h \<in> set (book_side b (pair_at s' (book_obj b a') y)) \<longleftrightarrow>
      (if a' = a \<and> y = x then h \<in> set (f (book_side b (pair_at s (book_obj b a) x)))
       else h \<in> set (book_side b (pair_at s (book_obj b a') y)))" for h a' y
    by (simp add: pa inj side)
  show ?thesis
  proof (cases "b' = b")
    case True
    then show ?thesis using other nil by (auto simp: graph_book_def elem split: if_splits)
  next
    case False
    have "book_side b' (pair_at s' (book_obj b' a') y) = book_side b' (pair_at s (book_obj b' a') y)" for a' y
      unfolding pa using False by (cases b; cases b') auto
    then show ?thesis using False by (simp add: graph_book_def)
  qed
qed

lemma pair_step_distinct:
  assumes "pair_step b a x f s s'" and "\<And>l. distinct l \<Longrightarrow> distinct (f l)"
    and "\<forall>o' y. distinct (fst (pair_at s o' y)) \<and> distinct (snd (pair_at s o' y))"
  shows "\<forall>o' y. distinct (fst (pair_at s' o' y)) \<and> distinct (snd (pair_at s' o' y))"
proof -
  have pa: "pair_at s' = (pair_at s)(book_obj b a := (pair_at s (book_obj b a))(x := upd_side b f (pair_at s (book_obj b a) x)))"
    using assms(1) by (simp add: pair_step_def)
  show ?thesis unfolding pa using assms(2,3) by (cases b) auto
qed

lemma rv_inv_parts:
  assumes "rv_inv s"
  shows "gc_wf (rv_gc s)" "\<exists>U. graph_ok U s" "books_ok s" "hosts_ok s" "index_ok s" "msgs_known s"
  using assms by (auto simp: rv_inv_def graph_ok_def pre_graph_def)

lemma host_step_finish:
  assumes "rv_inv s" and "pair_step b a x f s s1" and "\<And>l. distinct l \<Longrightarrow> distinct (f l)"
    and "host_step s1 s2" and "\<forall>b'. host_book s2 b' = graph_book s1 b'"
  shows "rv_inv s2 \<and> own s2 = own s \<and> graph_book s2 = graph_book s1 \<and> known s2 = known s \<and> skel s2 = skel s"
proof -
  have eq: "heap_eq s1 s2" "known s2 = known s1" "hm_wf (pub_sub_Index s1) \<longrightarrow> hm_wf (pub_sub_Index s2)"
    using assms(4) by (simp_all add: host_step_def)
  have sg: "same_graph s s1" "pub_sub_Index s1 = pub_sub_Index s" "rv_gc s1 = rv_gc s"
    using assms(2) by (simp_all add: pair_step_def)
  have sg2: "same_graph s s2" using same_graph_trans [OF sg(1) heap_eq_same [OF eq(1)]] .
  have k: "known s2 = known s" using eq(2) sg(2) by (simp add: known_def fun_eq_iff)
  obtain U where "graph_ok U s" using rv_inv_parts(2) [OF assms(1)] by blast
  then have "graph_ok U s2" using sg2 by (rule graph_ok_same)
  moreover have "books_ok s2"
    using assms(5) graph_book_pair [OF heap_eq_pair [OF eq(1)]] eq(3) sg(2) rv_inv_parts(3) [OF assms(1)]
    by (simp add: books_ok_def)
  moreover have "hosts_ok s2"
    using rv_inv_parts(4) [OF assms(1)] pair_step_distinct [OF assms(2,3)] heap_eq_pair [OF eq(1)] k
    by (simp add: hosts_ok_def)
  moreover have "gc_wf (rv_gc s2)" using rv_inv_parts(1) [OF assms(1)] sg(3) eq(1) by (simp add: heap_eq_def)
  moreover have "msgs_known s2"
    using rv_inv_parts(6) [OF assms(1)] assms(2) eq(1) k by (simp add: msgs_known_def pair_step_def heap_eq_def)
  ultimately show ?thesis
    using sg2 k graph_book_pair [OF heap_eq_pair [OF eq(1)]] by (auto simp: rv_inv_def same_graph_def)
qed

lemma add_host_inv:
  assumes "rv_inv s" and "pair_step b a x (hs_insert h) s s1" and "x \<in> own s (book_obj b a)" and "known s h"
  shows "\<exists>s2. host_add b h x s1 = Some s2 \<and> rv_inv s2 \<and> own s2 = own s \<and> skel s2 = skel s \<and> known s2 = known s \<and>
    heap_eq s1 s2 \<and> graph_book s2 = (graph_book s)(b := insert (x, h) (graph_book s b))"
proof -
  have "known s1 h" using assms(2,4) by (simp add: known_def pair_step_def)
  from host_add_ok [OF this] obtain s2 where s2: "host_add b h x s1 = Some s2" "host_step s1 s2"
    "host_book s2 = (host_book s1)(b := insert (x, h) (host_book s1 b))" by blast
  note gb = pair_step_book [OF assms(2) rv_inv_parts(5) [OF assms(1)] assms(3)]
  note old = graph_book_at [OF rv_inv_parts(5) [OF assms(1)] assms(3)]
  have new: "graph_book s1 = (graph_book s)(b := insert (x, h) (graph_book s b))"
    using old by (auto simp: fun_eq_iff gb split: if_splits)
  have "host_book s1 = host_book s" using assms(2) by (simp add: host_book_def fun_eq_iff pair_step_def)
  then have "\<forall>b'. host_book s2 b' = graph_book s1 b'"
    using s2(3) new rv_inv_parts(3) [OF assms(1)] by (auto simp: books_ok_def)
  from host_step_finish [OF assms(1,2) _ s2(2) this]
  have "rv_inv s2 \<and> own s2 = own s \<and> graph_book s2 = graph_book s1 \<and> known s2 = known s \<and> skel s2 = skel s"
    by simp
  with s2(1,2) new show ?thesis unfolding host_step_def by metis
qed

lemma del_host_inv:
  assumes "rv_inv s" and "pair_step b a x (hs_erase h) s s1" and "x \<in> own s (book_obj b a)" and "known s h"
  shows "\<exists>s2. host_del b h x s1 = Some s2 \<and> rv_inv s2 \<and> own s2 = own s \<and> skel s2 = skel s \<and> known s2 = known s \<and>
    heap_eq s1 s2 \<and> graph_book s2 = (graph_book s)(b := graph_book s b - {(x, h)})"
proof -
  have "known s1 h" using assms(2,4) by (simp add: known_def pair_step_def)
  from host_del_ok [OF this] obtain s2 where s2: "host_del b h x s1 = Some s2" "host_step s1 s2"
    "host_book s2 = (host_book s1)(b := host_book s1 b - {(x, h)})" by blast
  note gb = pair_step_book [OF assms(2) rv_inv_parts(5) [OF assms(1)] assms(3)]
  note old = graph_book_at [OF rv_inv_parts(5) [OF assms(1)] assms(3)]
  have new: "graph_book s1 = (graph_book s)(b := graph_book s b - {(x, h)})"
    using old by (auto simp: fun_eq_iff gb split: if_splits)
  have "host_book s1 = host_book s" using assms(2) by (simp add: host_book_def fun_eq_iff pair_step_def)
  then have "\<forall>b'. host_book s2 b' = graph_book s1 b'"
    using s2(3) new rv_inv_parts(3) [OF assms(1)] by (auto simp: books_ok_def)
  from host_step_finish [OF assms(1,2) _ s2(2) this]
  have "rv_inv s2 \<and> own s2 = own s \<and> graph_book s2 = graph_book s1 \<and> known s2 = known s \<and> skel s2 = skel s"
    by simp
  with s2(1,2) new show ?thesis unfolding host_step_def by metis
qed

subsection \<open>Messages\<close>

text \<open>The hosts on any identifier of any object.\<close>

definition ids_hosts :: "ids \<Rightarrow> host set" where
  "ids_hosts m = (\<Union>e \<in> set m. set (fst (snd e)) \<union> set (snd (snd e)))"

definition graph_hosts :: "rv \<Rightarrow> host set" where
  "graph_hosts s = {h. \<exists>o' m. obj_ids s o' = Some m \<and> h \<in> ids_hosts m}"

lemma ids_subscribers_hosts: "set (ids_subscribers m acc) \<subseteq> set acc \<union> ids_hosts m"
  unfolding ids_subscribers_def ids_hosts_def by (induction m arbitrary: acc) fastforce+

lemma ids_publishers_hosts: "set (ids_publishers m acc) \<subseteq> set acc \<union> ids_hosts m"
  unfolding ids_publishers_def ids_hosts_def by (induction m arbitrary: acc) fastforce+

lemma graph_hosts_Sc: "rv_scopes s a = Some sc \<Longrightarrow> ids_hosts (sc_ids sc) \<subseteq> graph_hosts s"
  unfolding graph_hosts_def by (auto intro!: exI [of _ "Sc a"])

lemma graph_hosts_It: "rv_items s a = Some it \<Longrightarrow> ids_hosts (it_ids it) \<subseteq> graph_hosts s"
  unfolding graph_hosts_def by (auto intro!: exI [of _ "It a"])

lemma graph_hosts_known:
  assumes "books_ok s" and "ids_wf s"
  shows "graph_hosts s \<subseteq> Collect (known s)"
proof
  fix h assume "h \<in> graph_hosts s"
  then obtain o' m x pr where m: "obj_ids s o' = Some m" "(x, pr) \<in> set m" "h \<in> set (fst pr) \<union> set (snd pr)"
    by (auto simp: graph_hosts_def ids_hosts_def)
  have "hm_wf m" using assms(2) m(1) by (simp add: ids_wf_def)
  then have "hm_get m x = Some pr" using m(2) by (simp add: hm_get_def hm_wf_def)
  then have "pair_at s o' x = pr" using m(1) by (simp add: pair_at_def)
  then have pr: "h \<in> set (fst (pair_at s o' x)) \<or> h \<in> set (snd (pair_at s o' x))" using m(3) by simp
  have "h \<in> set (fst (pair_at s (Sc a) x)) \<Longrightarrow> (x, h) \<in> graph_book s SPub"
    "h \<in> set (snd (pair_at s (Sc a) x)) \<Longrightarrow> (x, h) \<in> graph_book s SSub"
    "h \<in> set (fst (pair_at s (It a) x)) \<Longrightarrow> (x, h) \<in> graph_book s IPub"
    "h \<in> set (snd (pair_at s (It a) x)) \<Longrightarrow> (x, h) \<in> graph_book s ISub" for a
    by (auto simp: graph_book_def)
  then have "\<exists>b. (x, h) \<in> graph_book s b" using pr by (cases o') blast+
  then show "h \<in> Collect (known s)" using assms(1) by (auto simp: books_ok_def host_book_def known_def)
qed

text \<open>Steps that only send, to hosts of the graph.\<close>

definition quiet :: "rv \<Rightarrow> rv \<Rightarrow> bool" where
  "quiet s s' \<longleftrightarrow> s' = s\<lparr>rv_msgs := rv_msgs s'\<rparr> \<and> (graph_hosts s \<subseteq> Collect (known s) \<longrightarrow> msgs_known s \<longrightarrow> msgs_known s')"

lemma quiet_refl [simp]: "quiet s s"
  by (simp add: quiet_def)

lemma graph_hosts_cong: "rv_scopes s' = rv_scopes s \<Longrightarrow> rv_items s' = rv_items s \<Longrightarrow> graph_hosts s' = graph_hosts s"
  using view_cong(1) [of s' s] by (simp add: graph_hosts_def)

lemma quiet_trans:
  assumes "quiet s s1" and "quiet s1 s2"
  shows "quiet s s2"
proof -
  have e1: "s1 = s\<lparr>rv_msgs := rv_msgs s1\<rparr>" and e2: "s2 = s1\<lparr>rv_msgs := rv_msgs s2\<rparr>"
    using assms by (simp_all only: quiet_def)
  have "rv_scopes s1 = rv_scopes s" "rv_items s1 = rv_items s" "pub_sub_Index s1 = pub_sub_Index s" by (subst e1, simp)+
  then have "graph_hosts s1 = graph_hosts s" "known s1 = known s"
    by (simp_all add: graph_hosts_cong known_def fun_eq_iff)
  moreover have "s2 = s\<lparr>rv_msgs := rv_msgs s2\<rparr>" by (subst e2, subst e1, simp)
  ultimately show ?thesis using assms by (simp add: quiet_def)
qed

lemma quiet_send:
  assumes "\<And>h. h \<in> set (msg_hosts m) \<Longrightarrow> h \<in> graph_hosts s \<or> known s h"
  shows "quiet s (send_msg m s)"
proof -
  have "known (send_msg m s) = known s" by (simp add: known_def send_msg_def fun_eq_iff)
  then show ?thesis using assms by (auto simp: quiet_def send_msg_def msgs_known_def)
qed

lemma quiet_fields:
  assumes "quiet s s'"
  shows "rv_scopes s' = rv_scopes s" "rv_items s' = rv_items s" "scopeIndex s' = scopeIndex s"
    "pubIndex s' = pubIndex s" "rv_next s' = rv_next s" "pub_sub_Index s' = pub_sub_Index s"
    "rv_gc s' = rv_gc s" "rv_localProxy s' = rv_localProxy s" "rv_out s' = rv_out s"
  by (subst conjunct1 [OF assms [unfolded quiet_def]], simp)+

lemma quiet_view:
  assumes "quiet s s'"
  shows "own s' = own s" "par s' = par s" "below s' = below s" "pair_at s' = pair_at s" "live s' = live s"
    "skel s' = skel s" "graph_book s' = graph_book s" "host_book s' = host_book s" "known s' = known s"
    "same_graph s s'"
  using quiet_fields [OF assms] view_cong [OF quiet_fields(1,2) [OF assms]]
  by (simp_all add: skel_def graph_book_def host_book_def known_def fun_eq_iff same_heap_graph)

lemma quiet_msgs:
  assumes "quiet s s'" and "rv_inv s"
  shows "msgs_known s'"
proof -
  have "ids_wf s" using rv_inv_parts(2) [OF assms(2)] by (auto simp: graph_ok_def pre_graph_def heap_ok_def ids_wf_def)
  then have "graph_hosts s \<subseteq> Collect (known s)" by (rule graph_hosts_known [OF rv_inv_parts(3) [OF assms(2)]])
  then show ?thesis using assms(1) rv_inv_parts(6) [OF assms(2)] by (simp add: quiet_def)
qed

lemma quiet_inv:
  assumes "quiet s s'" and "rv_inv s"
  shows "rv_inv s'"
proof -
  obtain U where "graph_ok U s" using rv_inv_parts(2) [OF assms(2)] by blast
  then have "graph_ok U s'" using quiet_view(10) [OF assms(1)] by (rule graph_ok_same)
  then show ?thesis
    using assms(2) quiet_view [OF assms(1)] quiet_fields [OF assms(1)] quiet_msgs [OF assms]
    by (auto simp: rv_inv_def books_ok_def hosts_ok_def)
qed

lemma notifySubscribers_quiet:
  assumes "\<And>h. h \<in> set subs \<Longrightarrow> h \<in> graph_hosts s \<or> known s h"
  shows "quiet s (notifySubscribers type IDs strategy subs s)"
  using quiet_send [of "TM_Notify type strategy subs IDs" s] quiet_send [of "Local_Subscriber type IDs" s] assms
  by (simp add: notifySubscribers_def)

lemma live_Sc: "live s (Sc a) \<longleftrightarrow> (\<exists>sc. rv_scopes s a = Some sc)"
  by (auto simp: live_def)

lemma live_It: "live s (It a) \<longleftrightarrow> (\<exists>it. rv_items s a = Some it)"
  by (auto simp: live_def)

lemma rendezvous_ok:
  assumes "live s (It i)" and "\<And>h. h \<in> set subs \<Longrightarrow> h \<in> graph_hosts s"
  shows "\<exists>s'. rendezvous i subs s = Some s' \<and> quiet s s'"
proof -
  obtain it where it: "rv_items s i = Some it" using assms(1) by (auto simp: live_It)
  have "h \<in> graph_hosts s" if "h \<in> set (ids_publishers (it_ids it) [])" for h
    using that ids_publishers_hosts [of "it_ids it" "[]"] graph_hosts_It [OF it] by auto
  then have "quiet s (send_msg (TM_Rendezvous st (ids_publishers (it_ids it) []) subs IDs) s)" for st IDs
    using assms(2) by (intro quiet_send) auto
  moreover have "quiet s (send_msg (Local_Publisher b IDs) s)" for b IDs by (rule quiet_send) simp
  ultimately show ?thesis using it by (simp add: rendezvous_def InformationItem_getPublishers_def Let_def)
qed

lemma fathers_subscribers_ok:
  assumes "\<forall>f \<in> set fs. live s (Sc f)" and "set acc \<subseteq> graph_hosts s"
  shows "\<exists>l. fathers_subscribers fs acc s = Some l \<and> set l \<subseteq> graph_hosts s"
  using assms
proof (induction fs arbitrary: acc)
  case (Cons f fs)
  then obtain sc where sc: "rv_scopes s f = Some sc" by (auto simp: live_Sc)
  have "set (ids_subscribers (sc_ids sc) acc) \<subseteq> graph_hosts s"
    using ids_subscribers_hosts [of "sc_ids sc" acc] graph_hosts_Sc [OF sc] Cons.prems(2) by blast
  from Cons.IH [OF _ this] Cons.prems(1) sc show ?case by (simp add: Scope_getSubscribers_def)
qed simp

lemma father_live: "heap_ok s \<Longrightarrow> f \<in> par s o' \<Longrightarrow> live s (Sc f)"
  using par_father_live [of s f o'] by (simp add: live_Sc)

lemma rv_heap_ok: "rv_inv s \<Longrightarrow> heap_ok s"
  using rv_inv_parts(2) by (auto simp: graph_ok_def pre_graph_def)

lemma rendezvous_all_ok:
  assumes "heap_ok s" and "live s (It i)"
  shows "\<exists>s'. rendezvous_all i s = Some s' \<and> quiet s s'"
proof -
  obtain it where it: "rv_items s i = Some it" using assms(2) by (auto simp: live_It)
  then have "set (it_fatherScopes it) = par s (It i)" by (simp add: par_def)
  then have "\<forall>f \<in> set (it_fatherScopes it). live s (Sc f)" using father_live [OF assms(1)] by simp
  moreover have "set (ids_subscribers (it_ids it) []) \<subseteq> graph_hosts s"
    using ids_subscribers_hosts [of "it_ids it" "[]"] graph_hosts_It [OF it] by auto
  ultimately obtain l where l: "fathers_subscribers (it_fatherScopes it) (ids_subscribers (it_ids it) []) s = Some l"
    "set l \<subseteq> graph_hosts s" using fathers_subscribers_ok by blast
  from rendezvous_ok [OF assms(2), of l] it l show ?thesis
    by (auto simp: rendezvous_all_def InformationItem_getSubscribers_def)
qed

lemma fold_quiet:
  assumes "\<And>x t. x \<in> set xs \<Longrightarrow> quiet s t \<Longrightarrow> \<exists>t'. f x t = Some t' \<and> quiet t t'"
  shows "\<exists>s'. fold_opt f xs s = Some s' \<and> quiet s s'"
proof -
  have "\<exists>s'. fold_opt f xs s = Some s' \<and> (set [] \<subseteq> set xs \<and> quiet s s')"
  proof (rule fold_opt_total [where I = "\<lambda>ys t. set ys \<subseteq> set xs \<and> quiet s t"])
    fix x ys t assume I: "set (x # ys) \<subseteq> set xs \<and> quiet s t"
    with assms [of x t] obtain t' where "f x t = Some t'" "quiet t t'" by auto
    then show "\<exists>s'. f x t = Some s' \<and> set ys \<subseteq> set xs \<and> quiet s s'" using I quiet_trans by auto
  qed simp
  then show ?thesis by blast
qed

lemma rendezvous_items_ok:
  assumes "heap_ok s" and "\<forall>i \<in> set items. live s (It i)"
  shows "\<exists>s'. fold_opt rendezvous_all items s = Some s' \<and> quiet s s'"
proof (rule fold_quiet)
  fix i t assume i: "i \<in> set items" and q: "quiet s t"
  have "heap_ok t"
    using assms(1) quiet_view(1-6) [OF q] quiet_fields [OF q] view_cong [OF quiet_fields(1,2) [OF q]]
    by (simp add: heap_ok_def)
  moreover have "live t (It i)" using assms(2) i quiet_view(5) [OF q] by simp
  ultimately show "\<exists>t'. rendezvous_all i t = Some t' \<and> quiet t t'" by (rule rendezvous_all_ok)
qed

lemma notify_new_scope_ok:
  assumes "live s (Sc f)" and "live s (Sc a)"
  shows "\<exists>s'. notify_new_scope f a sel type s = Some s' \<and> quiet s s'"
proof -
  obtain fsc sc where sc: "rv_scopes s f = Some fsc" "rv_scopes s a = Some sc" using assms by (auto simp: live_Sc)
  have "set (ids_subscribers (sc_ids fsc) []) \<subseteq> graph_hosts s"
    using ids_subscribers_hosts [of "sc_ids fsc" "[]"] graph_hosts_Sc [OF sc(1)] by auto
  then have "quiet s (notifySubscribers type IDs st (ids_subscribers (sc_ids fsc) []) s)" for IDs st
    by (intro notifySubscribers_quiet) auto
  then show ?thesis using sc by (simp add: notify_new_scope_def Scope_getSubscribers_def Scope_getIDs_def)
qed

lemma children_live:
  assumes "heap_ok s" and "rv_scopes s a = Some sc"
  shows "\<forall>c \<in> set (childrenScopes sc). live s (Sc c) \<and> a \<in> par s (Sc c)"
    "\<forall>i \<in> set (informationitems sc). live s (It i) \<and> a \<in> par s (It i)"
proof -
  have "c \<in> set (childrenScopes sc) \<Longrightarrow> a \<in> par s (Sc c)" "i \<in> set (informationitems sc) \<Longrightarrow> a \<in> par s (It i)" for c i
    using below_eq [OF assms] by auto
  then show "\<forall>c \<in> set (childrenScopes sc). live s (Sc c) \<and> a \<in> par s (Sc c)"
    "\<forall>i \<in> set (informationitems sc). live s (It i) \<and> a \<in> par s (It i)" using par_live by blast+
qed

lemma welcome_subscriber_ok:
  assumes "heap_ok s" and "live s (Sc a)" and "known s h"
  shows "\<exists>s'. welcome_subscriber a h s = Some s' \<and> quiet s s'"
proof -
  obtain sc where sc: "rv_scopes s a = Some sc" using assms(2) by (auto simp: live_Sc)
  note ch = children_live [OF assms(1) sc]
  have "\<exists>s1. notify_subscopes a h s = Some s1 \<and> quiet s s1"
  proof -
    have "\<exists>s1. fold_opt (\<lambda>c s. do {
       IDs \<leftarrow> Scope_getIDs c s;
       csc \<leftarrow> rv_scopes s c;
       Some (notifySubscribers SCOPE_PUBLISHED IDs (sc_strategy csc) [h] s)
     }) (hs_union [] (childrenScopes sc)) s = Some s1 \<and> quiet s s1"
    proof (rule fold_quiet)
      fix c t assume "c \<in> set (hs_union [] (childrenScopes sc))" and q: "quiet s t"
      then obtain csc where "rv_scopes t c = Some csc" using ch quiet_fields(1) [OF q] by (auto simp: live_Sc)
      then show "\<exists>t'. do {
       IDs \<leftarrow> Scope_getIDs c t;
       csc \<leftarrow> rv_scopes t c;
       Some (notifySubscribers SCOPE_PUBLISHED IDs (sc_strategy csc) [h] t)
      } = Some t' \<and> quiet t t'"
        using notifySubscribers_quiet [of "[h]" t] assms(3) quiet_view(9) [OF q] by (simp add: Scope_getIDs_def)
    qed
    then show ?thesis using sc by (simp add: notify_subscopes_def Scope_getSubscopes_def)
  qed
  then obtain s1 where s1: "notify_subscopes a h s = Some s1" "quiet s s1" by blast
  have h1: "heap_ok s1"
    using assms(1) quiet_view(1-6) [OF s1(2)] quiet_fields [OF s1(2)] view_cong [OF quiet_fields(1,2) [OF s1(2)]]
    by (simp add: heap_ok_def)
  have sc1: "rv_scopes s1 a = Some sc" using sc quiet_fields(1) [OF s1(2)] by simp
  have "\<forall>i \<in> set (hs_union [] (informationitems sc)). live s1 (It i)"
    using children_live(2) [OF h1 sc1] by simp
  from rendezvous_items_ok [OF h1 this] obtain s2 where
    "fold_opt rendezvous_all (hs_union [] (informationitems sc)) s1 = Some s2" "quiet s1 s2" by blast
  then show ?thesis
    using s1 sc1 quiet_trans by (auto simp: welcome_subscriber_def Scope_getInformationItems_def)
qed

subsection \<open>Recording a publisher or a subscriber\<close>

definition recorded :: "book \<Rightarrow> bstr \<Rightarrow> host \<Rightarrow> rv \<Rightarrow> rv_ret \<Rightarrow> rv \<Rightarrow> bool" where
  "recorded b x h s r s' \<longleftrightarrow> r = (if (x, h) \<in> graph_book s b then EXISTS else SUCCESS) \<and>
     rv_inv s' \<and> own s' = own s \<and> skel s' = skel s \<and> known s' = known s \<and>
     graph_book s' = (graph_book s)(b := insert (x, h) (graph_book s b))"

definition safe_then :: "rv \<Rightarrow> (rv \<Rightarrow> rv option) \<Rightarrow> bool" where
  "safe_then s andthen \<longleftrightarrow>
     (\<forall>t. rv_inv t \<longrightarrow> skel t = skel s \<longrightarrow> own t = own s \<longrightarrow> known t = known s \<longrightarrow> (\<exists>t'. andthen t = Some t' \<and> quiet t t'))"

lemma safe_then_Some [simp]: "safe_then s Some"
  by (simp add: safe_then_def)

lemma recorded_already:
  assumes "rv_inv s" and "(x, h) \<in> graph_book s b"
  shows "recorded b x h s EXISTS s"
  using assms by (simp add: recorded_def insert_absorb)

text \<open>The common part of the four ways to record a host.\<close>

lemma recorded_new:
  assumes "rv_inv s" and "known s h" and "x \<in> own s (book_obj b a)" and "(x, h) \<notin> graph_book s b"
    and "pair_step b a x (hs_insert h) s s1" and "safe_then s andthen"
  shows "\<exists>s'. do { s \<leftarrow> host_add b h x s1; s \<leftarrow> andthen s; Some (SUCCESS, s) } = Some (SUCCESS, s') \<and>
    recorded b x h s SUCCESS s'"
proof -
  from add_host_inv [OF assms(1,5,3,2)] obtain s2 where s2: "host_add b h x s1 = Some s2" "rv_inv s2"
    "own s2 = own s" "skel s2 = skel s" "known s2 = known s"
    "graph_book s2 = (graph_book s)(b := insert (x, h) (graph_book s b))" by blast
  obtain s3 where s3: "andthen s2 = Some s3" "quiet s2 s3" using assms(6) s2(2-5) by (auto simp: safe_then_def)
  have "recorded b x h s SUCCESS s3"
    using quiet_inv [OF s3(2) s2(2)] quiet_view [OF s3(2)] s2 assms(4) by (simp add: recorded_def)
  then show ?thesis using s2(1) s3(1) by simp
qed

lemma scope_publisher_ok:
  assumes "rv_inv s" and "known s h" and "x \<in> own s (Sc a)" and "safe_then s andthen"
  shows "\<exists>r s'. scope_publisher a x h andthen s = Some (r, s') \<and> recorded SPub x h s r s'"
proof -
  obtain sc where sc: "rv_scopes s a = Some sc" using own_live [OF assms(3)] by (auto simp: live_Sc)
  note g = own_pair_Sc [OF sc assms(3)]
  have at: "(x, h) \<in> graph_book s SPub \<longleftrightarrow> h \<in> set (fst (pair_at s (Sc a) x))"
    using graph_book_at [OF rv_inv_parts(5) [OF assms(1)], of x SPub a h] assms(3) by simp
  show ?thesis
  proof (cases "(x, h) \<in> graph_book s SPub")
    case True
    then have "ids_add_publisher x h (sc_ids sc) = (False, sc_ids sc)"
      using g at by (cases "pair_at s (Sc a) x") (simp add: ids_add_publisher_def)
    then have "scope_publisher a x h andthen s = Some (EXISTS, s)"
      using sc by (simp add: scope_publisher_def Scope_updatePublishers_def put_scope_def fun_upd_idem)
    then show ?thesis using recorded_already [OF assms(1) True] by blast
  next
    case False
    define pr where "pr = (hs_insert h (fst (pair_at s (Sc a) x)), snd (pair_at s (Sc a) x))"
    define s1 where "s1 = put_scope a (sc\<lparr>sc_ids := hm_set x pr (sc_ids sc)\<rparr>) s"
    have up: "ids_add_publisher x h (sc_ids sc) = (True, hm_set x pr (sc_ids sc))"
      using g at False by (cases "pair_at s (Sc a) x") (simp add: ids_add_publisher_def pr_def)
    note pp = put_pair_scope [OF sc assms(3) s1_def]
    have "pair_step SPub a x (hs_insert h) s s1" using pp by (simp add: pair_step_def pr_def)
    from recorded_new [OF assms(1,2) _ False this assms(4)] assms(3) show ?thesis
      using sc up by (auto simp: scope_publisher_def Scope_updatePublishers_def s1_def)
  qed
qed

lemma scope_subscriber_ok:
  assumes "rv_inv s" and "known s h" and "x \<in> own s (Sc a)" and "safe_then s andthen"
  shows "\<exists>r s'. scope_subscriber a x h andthen s = Some (r, s') \<and> recorded SSub x h s r s'"
proof -
  obtain sc where sc: "rv_scopes s a = Some sc" using own_live [OF assms(3)] by (auto simp: live_Sc)
  note g = own_pair_Sc [OF sc assms(3)]
  have at: "(x, h) \<in> graph_book s SSub \<longleftrightarrow> h \<in> set (snd (pair_at s (Sc a) x))"
    using graph_book_at [OF rv_inv_parts(5) [OF assms(1)], of x SSub a h] assms(3) by simp
  show ?thesis
  proof (cases "(x, h) \<in> graph_book s SSub")
    case True
    then have "ids_add_subscriber x h (sc_ids sc) = (False, sc_ids sc)"
      using g at by (cases "pair_at s (Sc a) x") (simp add: ids_add_subscriber_def)
    then have "scope_subscriber a x h andthen s = Some (EXISTS, s)"
      using sc by (simp add: scope_subscriber_def Scope_updateSubscribers_def put_scope_def fun_upd_idem)
    then show ?thesis using recorded_already [OF assms(1) True] by blast
  next
    case False
    define pr where "pr = (fst (pair_at s (Sc a) x), hs_insert h (snd (pair_at s (Sc a) x)))"
    define s1 where "s1 = put_scope a (sc\<lparr>sc_ids := hm_set x pr (sc_ids sc)\<rparr>) s"
    have up: "ids_add_subscriber x h (sc_ids sc) = (True, hm_set x pr (sc_ids sc))"
      using g at False by (cases "pair_at s (Sc a) x") (simp add: ids_add_subscriber_def pr_def)
    note pp = put_pair_scope [OF sc assms(3) s1_def]
    have "pair_step SSub a x (hs_insert h) s s1" using pp by (simp add: pair_step_def pr_def)
    from recorded_new [OF assms(1,2) _ False this assms(4)] assms(3) show ?thesis
      using sc up by (auto simp: scope_subscriber_def Scope_updateSubscribers_def s1_def)
  qed
qed

lemma item_publisher_ok:
  assumes "rv_inv s" and "known s h" and "x \<in> own s (It a)" and "safe_then s andthen"
  shows "\<exists>r s'. item_publisher a x h andthen s = Some (r, s') \<and> recorded IPub x h s r s'"
proof -
  obtain it where it: "rv_items s a = Some it" using own_live [OF assms(3)] by (auto simp: live_It)
  note g = own_pair_It [OF it assms(3)]
  have at: "(x, h) \<in> graph_book s IPub \<longleftrightarrow> h \<in> set (fst (pair_at s (It a) x))"
    using graph_book_at [OF rv_inv_parts(5) [OF assms(1)], of x IPub a h] assms(3) by simp
  show ?thesis
  proof (cases "(x, h) \<in> graph_book s IPub")
    case True
    then have "ids_add_publisher x h (it_ids it) = (False, it_ids it)"
      using g at by (cases "pair_at s (It a) x") (simp add: ids_add_publisher_def)
    then have "item_publisher a x h andthen s = Some (EXISTS, s)"
      using it by (simp add: item_publisher_def InformationItem_updatePublishers_def put_item_def fun_upd_idem)
    then show ?thesis using recorded_already [OF assms(1) True] by blast
  next
    case False
    define pr where "pr = (hs_insert h (fst (pair_at s (It a) x)), snd (pair_at s (It a) x))"
    define s1 where "s1 = put_item a (it\<lparr>it_ids := hm_set x pr (it_ids it)\<rparr>) s"
    have up: "ids_add_publisher x h (it_ids it) = (True, hm_set x pr (it_ids it))"
      using g at False by (cases "pair_at s (It a) x") (simp add: ids_add_publisher_def pr_def)
    note pp = put_pair_item [OF it assms(3) s1_def]
    have "pair_step IPub a x (hs_insert h) s s1" using pp by (simp add: pair_step_def pr_def)
    from recorded_new [OF assms(1,2) _ False this assms(4)] assms(3) show ?thesis
      using it up by (auto simp: item_publisher_def InformationItem_updatePublishers_def s1_def)
  qed
qed

lemma item_subscriber_ok:
  assumes "rv_inv s" and "known s h" and "x \<in> own s (It a)" and "safe_then s andthen"
  shows "\<exists>r s'. item_subscriber a x h andthen s = Some (r, s') \<and> recorded ISub x h s r s'"
proof -
  obtain it where it: "rv_items s a = Some it" using own_live [OF assms(3)] by (auto simp: live_It)
  note g = own_pair_It [OF it assms(3)]
  have at: "(x, h) \<in> graph_book s ISub \<longleftrightarrow> h \<in> set (snd (pair_at s (It a) x))"
    using graph_book_at [OF rv_inv_parts(5) [OF assms(1)], of x ISub a h] assms(3) by simp
  show ?thesis
  proof (cases "(x, h) \<in> graph_book s ISub")
    case True
    then have "ids_add_subscriber x h (it_ids it) = (False, it_ids it)"
      using g at by (cases "pair_at s (It a) x") (simp add: ids_add_subscriber_def)
    then have "item_subscriber a x h andthen s = Some (EXISTS, s)"
      using it by (simp add: item_subscriber_def InformationItem_updateSubscribers_def put_item_def fun_upd_idem)
    then show ?thesis using recorded_already [OF assms(1) True] by blast
  next
    case False
    define pr where "pr = (fst (pair_at s (It a) x), hs_insert h (snd (pair_at s (It a) x)))"
    define s1 where "s1 = put_item a (it\<lparr>it_ids := hm_set x pr (it_ids it)\<rparr>) s"
    have up: "ids_add_subscriber x h (it_ids it) = (True, hm_set x pr (it_ids it))"
      using g at False by (cases "pair_at s (It a) x") (simp add: ids_add_subscriber_def pr_def)
    note pp = put_pair_item [OF it assms(3) s1_def]
    have "pair_step ISub a x (hs_insert h) s s1" using pp by (simp add: pair_step_def pr_def)
    from recorded_new [OF assms(1,2) _ False this assms(4)] assms(3) show ?thesis
      using it up by (auto simp: item_subscriber_def InformationItem_updateSubscribers_def s1_def)
  qed
qed

subsection \<open>A new edge\<close>

text \<open>
  The object \<open>o'\<close>, new or already there, becomes a child of the scope \<open>f\<close>; no
  identifier has been handed down yet.
\<close>

definition edge_added :: "addr \<Rightarrow> obj \<Rightarrow> rv \<Rightarrow> rv \<Rightarrow> bool" where
  "edge_added f o' s s1 \<longleftrightarrow> own s1 = own s \<and> par s1 = (par s)(o' := insert f (par s o')) \<and>
     (\<forall>o2. live s1 o2 \<longleftrightarrow> o2 = o' \<or> live s o2) \<and> scopeIndex s1 = scopeIndex s \<and> pubIndex s1 = pubIndex s \<and>
     pair_at s1 = pair_at s \<and> pub_sub_Index s1 = pub_sub_Index s \<and> rv_gc s1 = rv_gc s \<and>
     rv_msgs s1 = rv_msgs s \<and> heap_ok s1"

lemma heap_ok_edge:
  assumes "heap_ok s" and "below s1 = (below s)(f := insert o' (below s f))"
    and "par s1 = (par s)(o' := insert f (par s o'))"
    and "\<forall>o2. live s1 o2 \<longrightarrow> o2 = o' \<or> live s o2" and "rv_next s \<le> rv_next s1" and "obj_addr o' < rv_next s1"
    and "ids_wf s1" and "scopeIndex s1 = scopeIndex s" and "pubIndex s1 = pubIndex s"
    and "\<forall>o2. distinct (obj_fathers s1 o2)"
    and "\<forall>a sc. rv_scopes s1 a = Some sc \<longrightarrow> distinct (childrenScopes sc) \<and> distinct (informationitems sc)"
  shows "heap_ok s1"
proof -
  have "\<forall>a o2. o2 \<in> below s1 a \<longleftrightarrow> a \<in> par s1 o2"
    using assms(1) unfolding assms(2,3) heap_ok_def by auto
  moreover have "\<forall>o2. live s1 o2 \<longrightarrow> obj_addr o2 < rv_next s1"
    using assms(1,4-6) unfolding heap_ok_def by (metis less_le_trans)
  ultimately show ?thesis
    using assms(1,7-11) unfolding heap_ok_def ids_wf_def by simp
qed

lemma edge_added_pre_graph:
  assumes "graph_ok U s" and "edge_added f o' s s1" and "length u = 8" and "live s o' \<Longrightarrow> U o' = u"
    and "o' \<noteq> Sc f" and "p0 \<in> own s (Sc f)" and "\<forall>o2. p0 @ u \<notin> own s o2"
    and "\<forall>x \<in> own s o'. 8 < length x"
  shows "pre_graph (U(o' := u)) s1" "missing (U(o' := u)) s1 \<subseteq> {(f, o')}"
proof -
  let ?U = "U(o' := u)"
  have g: "heap_ok s" "index_ok s" "sfx_ok U s" "back_ok s" "sib_ok U s" "no_self s" "missing U s = {}"
    using assms(1) by (simp_all add: graph_ok_def pre_graph_def)
  have e: "own s1 = own s" "par s1 = (par s)(o' := insert f (par s o'))" "heap_ok s1"
    "scopeIndex s1 = scopeIndex s" "pubIndex s1 = pubIndex s"
    using assms(2) by (simp_all add: edge_added_def)
  have U: "?U o2 = U o2" if "live s o2" for o2 using that assms(4) by auto
  have handed: "p @ U o2 \<in> own s o2" if "h \<in> par s o2" "p \<in> own s (Sc h)" for h p o2
    using g(7) that by (auto simp: missing_def)
  have sib_new: "o2 = o'" if "f \<in> par s o2" "?U o2 = u" for o2
  proof (rule ccontr)
    assume "o2 \<noteq> o'"
    then have "p0 @ u \<in> own s o2" using handed [OF that(1) assms(6)] that(2) by simp
    then show False using assms(7) by blast
  qed
  have "index_ok s1" using g(2) by (simp add: index_ok_def e)
  moreover have "sfx_ok ?U s1"
  proof -
    have "\<exists>q. x = q @ ?U o2 \<and> 8 dvd length q" if "x \<in> own s o2" for x o2
      using sfx_okD [OF g(3) that] U [OF own_live [OF that]] by simp
    moreover have "length (?U o2) = 8" for o2 using sfx_okL [OF g(3)] assms(3) by simp
    ultimately show ?thesis unfolding sfx_ok_def e by blast
  qed
  moreover have "back_ok s1"
    unfolding back_ok_def e
  proof (intro allI impI)
    fix o2 q v assume v: "length v = (8::nat)" and x: "q @ v \<in> own s o2"
    have old: "if q = [] then par s o2 = {} \<and> (\<exists>a. o2 = Sc a) else \<exists>h \<in> par s o2. q \<in> own s (Sc h)"
      using g(4) v x unfolding back_ok_def by blast
    show "if q = [] then ((par s)(o' := insert f (par s o'))) o2 = {} \<and> (\<exists>a. o2 = Sc a)
      else \<exists>h \<in> ((par s)(o' := insert f (par s o'))) o2. q \<in> own s (Sc h)"
    proof (cases "q = []")
      case True
      then have "o2 \<noteq> o'" using assms(8) x v by auto
      then show ?thesis using old True by simp
    next
      case False
      then show ?thesis using old by auto
    qed
  qed
  moreover have "sib_ok ?U s1"
    unfolding sib_ok_def
  proof (intro allI impI)
    fix h o1 o2 assume h: "h \<in> par s1 o1" "h \<in> par s1 o2" and eq: "?U o1 = ?U o2"
    show "o1 = o2"
    proof (cases "h \<in> par s o1"; cases "h \<in> par s o2")
      assume a: "h \<in> par s o1" "h \<in> par s o2"
      then have "U o1 = U o2" using eq U [OF par_live [OF a(1)]] U [OF par_live [OF a(2)]] by simp
      then show ?thesis using g(5) a unfolding sib_ok_def by blast
    next
      assume a: "h \<in> par s o1" "h \<notin> par s o2"
      have "o2 = o' \<and> h = f" using a(2) h(2) unfolding e(2) by (cases "o2 = o'") simp_all
      have "?U o2 = u" "f \<in> par s o1" using \<open>o2 = o' \<and> h = f\<close> a(1) by simp_all
      have "o1 = o'" by (rule sib_new [OF \<open>f \<in> par s o1\<close> trans [OF eq \<open>?U o2 = u\<close>]])
      with \<open>o2 = o' \<and> h = f\<close> show ?thesis by simp
    next
      assume a: "h \<notin> par s o1" "h \<in> par s o2"
      have "o1 = o' \<and> h = f" using a(1) h(1) unfolding e(2) by (cases "o1 = o'") simp_all
      have "?U o1 = u" "f \<in> par s o2" using \<open>o1 = o' \<and> h = f\<close> a(2) by simp_all
      have "o2 = o'" by (rule sib_new [OF \<open>f \<in> par s o2\<close> trans [OF eq [symmetric] \<open>?U o1 = u\<close>]])
      with \<open>o1 = o' \<and> h = f\<close> show ?thesis by simp
    next
      assume a: "h \<notin> par s o1" "h \<notin> par s o2"
      have "o1 = o'" using a(1) h(1) unfolding e(2) by (cases "o1 = o'") simp_all
      moreover have "o2 = o'" using a(2) h(2) unfolding e(2) by (cases "o2 = o'") simp_all
      ultimately show ?thesis by simp
    qed
  qed
  moreover have "no_self s1" using g(6) assms(5) by (auto simp: no_self_def e(2))
  ultimately show "pre_graph ?U s1" using e(3) by (simp add: pre_graph_def)
  show "missing ?U s1 \<subseteq> {(f, o')}"
  proof clarify
    fix h o2 assume "(h, o2) \<in> missing ?U s1"
    then obtain p where p: "h \<in> par s1 o2" "p \<in> own s (Sc h)" "p @ ?U o2 \<notin> own s o2"
      by (auto simp: missing_def e(1))
    have "h \<notin> par s o2"
    proof
      assume h: "h \<in> par s o2"
      then show False using handed [OF h p(2)] U [OF par_live [OF h]] p(3) by simp
    qed
    then show "h = f \<and> o2 = o'" using p(1) unfolding e(2) by (cases "o2 = o'") simp_all
  qed
qed

text \<open>Once the identifiers are handed down the graph is complete again.\<close>

lemma edge_completed:
  assumes "graph_ok U s" and "edge_added f o' s s1" and "pre_graph U' s2" and "grow s1 s2" and "missing U' s2 = {}"
    and "p0 \<in> own s (Sc f)"
  shows "graph_ok U' s2" "p0 @ U' o' \<in> own s2 o'"
proof -
  have e: "own s1 = own s" "par s1 = (par s)(o' := insert f (par s o'))" "\<forall>o2. live s1 o2 \<longleftrightarrow> o2 = o' \<or> live s o2"
    using assms(2) by (simp_all add: edge_added_def)
  note gv = grow_view [OF assms(4)]
  have "f \<in> par s2 o'" using gv(3) e(2) by simp
  moreover have "p0 \<in> own s2 (Sc f)" using gv(6) assms(6) e(1) by simp
  ultimately show new: "p0 @ U' o' \<in> own s2 o'" using assms(5) by (auto simp: missing_def)
  have "own s2 o2 \<noteq> {}" if "live s2 o2" for o2
  proof (cases "o2 = o'")
    case True
    then show ?thesis using new by blast
  next
    case False
    then have "live s o2" using that gv(1) e(3) by simp
    then obtain x where "x \<in> own s o2" using assms(1) unfolding graph_ok_def by blast
    then show ?thesis using gv(6) [of x o2] e(1) by auto
  qed
  then show "graph_ok U' s2" using assms(3,5) by (simp add: graph_ok_def)
qed

lemma rv_inv_regraph:
  assumes "rv_inv s" and "graph_ok U s2" and "pair_at s2 = pair_at s" and "pub_sub_Index s2 = pub_sub_Index s"
    and "rv_gc s2 = rv_gc s" and "rv_msgs s2 = rv_msgs s"
  shows "rv_inv s2" "graph_book s2 = graph_book s" "known s2 = known s"
proof -
  show b: "graph_book s2 = graph_book s" by (rule graph_book_pair [OF assms(3)])
  show k: "known s2 = known s" using assms(4) by (simp add: known_def fun_eq_iff)
  have "host_book s2 = host_book s" using assms(4) by (simp add: host_book_def fun_eq_iff)
  then show "rv_inv s2"
    using assms b k by (auto simp: rv_inv_def books_ok_def hosts_ok_def msgs_known_def)
qed

lemma view_next:
  "obj_ids (s\<lparr>rv_next := n\<rparr>) = obj_ids s" "obj_fathers (s\<lparr>rv_next := n\<rparr>) = obj_fathers s"
  "own (s\<lparr>rv_next := n\<rparr>) = own s" "par (s\<lparr>rv_next := n\<rparr>) = par s" "below (s\<lparr>rv_next := n\<rparr>) = below s"
  "pair_at (s\<lparr>rv_next := n\<rparr>) = pair_at s" "live (s\<lparr>rv_next := n\<rparr>) = live s" "ids_wf (s\<lparr>rv_next := n\<rparr>) = ids_wf s"
  by (rule view_cong; simp)+ (simp add: ids_wf_def view_cong(1) [of "s\<lparr>rv_next := n\<rparr>" s])

lemma heap_ok_facts:
  assumes "heap_ok s"
  shows "live s o' \<Longrightarrow> obj_addr o' < rv_next s" "o' \<in> below s a \<longleftrightarrow> a \<in> par s o'" "ids_wf s"
    "hm_wf (scopeIndex s)" "hm_wf (pubIndex s)" "distinct (obj_fathers s o')"
    "rv_scopes s a = Some sc \<Longrightarrow> distinct (childrenScopes sc) \<and> distinct (informationitems sc)"
  using assms by (simp_all add: heap_ok_def ids_wf_def)

lemma Scope_new_child:
  assumes "heap_ok s" and "rv_scopes s f = Some fsc"
  shows "\<exists>s1 sc. Scope_new strategy (Some f) s = Some (rv_next s, s1) \<and> edge_added f (Sc (rv_next s)) s s1 \<and>
    rv_scopes s1 (rv_next s) = Some sc \<and> childrenScopes sc = [] \<and> informationitems sc = [] \<and> \<not> live s (Sc (rv_next s))"
proof -
  let ?a = "rv_next s"
  let ?new = "\<lparr>sc_ids = [], isRoot = False, fatherScopes = [f], childrenScopes = [], informationitems = [], sc_strategy = strategy\<rparr>"
  let ?s1 = "put_scope f (fsc\<lparr>childrenScopes := hs_insert ?a (childrenScopes fsc)\<rparr>) (put_scope ?a ?new (s\<lparr>rv_next := Suc ?a\<rparr>))"
  note h = heap_ok_facts [OF assms(1)]
  have fa: "f < ?a" using h(1) [of "Sc f"] assms(2) by (simp add: live_Sc)
  have dead: "\<not> live s (Sc ?a)" using h(1) [of "Sc ?a"] by auto
  have eq: "Scope_new strategy (Some f) s = Some (?a, ?s1)" using assms(2) by (simp add: Scope_new_def Let_def)
  have parf: "par s (Sc f) = set (fatherScopes fsc)" "own s (Sc f) = fst ` set (sc_ids fsc)"
    using assms(2) by (simp_all add: par_def own_Sc)
  have own: "own ?s1 = own s" using own_dead [OF dead] parf fa by (auto simp: fun_eq_iff own_put view_next)
  have par: "par ?s1 = (par s)(Sc ?a := insert f (par s (Sc ?a)))"
    using par_dead [OF dead] parf fa by (auto simp: fun_eq_iff par_put view_next)
  have below: "below ?s1 = (below s)(f := insert (Sc ?a) (below s f))"
    using assms(2) fa dead below_live [of _ s ?a] by (auto simp: fun_eq_iff below_put view_next) (auto simp: below_def)
  have live: "live ?s1 o2 \<longleftrightarrow> o2 = Sc ?a \<or> live s o2" for o2
    using assms(2) by (auto simp: live_put view_next live_Sc)
  have pair: "pair_at ?s1 = pair_at s"
    using pair_not_own [of _ s "Sc ?a"] own_dead [OF dead] assms(2) fa
    by (auto simp: fun_eq_iff pair_put view_next pair_Sc)
  have "heap_ok ?s1"
  proof (rule heap_ok_edge [OF assms(1) below par])
    show "ids_wf ?s1" using h(3) ids_wfD(1) [OF h(3) assms(2)] by (intro ids_wf_put) (simp_all add: view_next)
    show "\<forall>o2. distinct (obj_fathers ?s1 o2)"
      using h(6) [of "Sc f"] h(6) assms(2) by (simp add: obj_fathers_put view_next)
    show "\<forall>a sc. rv_scopes ?s1 a = Some sc \<longrightarrow> distinct (childrenScopes sc) \<and> distinct (informationitems sc)"
      using h(7) assms(2) by auto
  qed (use live in auto)
  then have "edge_added f (Sc ?a) s ?s1"
    using own par live pair by (simp add: edge_added_def)
  moreover have "rv_scopes ?s1 ?a = Some ?new" using fa by simp
  ultimately show ?thesis using eq dead by (intro exI [of _ ?s1] exI [of _ ?new]) simp
qed

lemma InformationItem_new_child:
  assumes "heap_ok s" and "rv_scopes s f = Some fsc"
  shows "\<exists>s1 it. InformationItem_new strategy f s = Some (rv_next s, s1) \<and> edge_added f (It (rv_next s)) s s1 \<and>
    rv_items s1 (rv_next s) = Some it \<and> it_ids it = [] \<and> \<not> live s (It (rv_next s))"
proof -
  let ?a = "rv_next s"
  let ?new = "\<lparr>it_ids = [], it_fatherScopes = [f], it_strategy = strategy\<rparr>"
  let ?s1 = "put_scope f (fsc\<lparr>informationitems := hs_insert ?a (informationitems fsc)\<rparr>) (put_item ?a ?new (s\<lparr>rv_next := Suc ?a\<rparr>))"
  note h = heap_ok_facts [OF assms(1)]
  have dead: "\<not> live s (It ?a)" using h(1) [of "It ?a"] by auto
  have eq: "InformationItem_new strategy f s = Some (?a, ?s1)" using assms(2) by (simp add: InformationItem_new_def Let_def)
  have parf: "par s (Sc f) = set (fatherScopes fsc)" "own s (Sc f) = fst ` set (sc_ids fsc)"
    using assms(2) by (simp_all add: par_def own_Sc)
  have own: "own ?s1 = own s" using own_dead [OF dead] parf by (auto simp: fun_eq_iff own_put view_next)
  have par: "par ?s1 = (par s)(It ?a := insert f (par s (It ?a)))"
    using par_dead [OF dead] parf by (auto simp: fun_eq_iff par_put view_next)
  have below: "below ?s1 = (below s)(f := insert (It ?a) (below s f))"
    using assms(2) by (auto simp: fun_eq_iff below_put view_next) (auto simp: below_def)
  have live: "live ?s1 o2 \<longleftrightarrow> o2 = It ?a \<or> live s o2" for o2
    using assms(2) by (auto simp: live_put view_next live_Sc)
  have pair: "pair_at ?s1 = pair_at s"
    using pair_not_own [of _ s "It ?a"] own_dead [OF dead] assms(2)
    by (auto simp: fun_eq_iff pair_put view_next pair_Sc)
  have "heap_ok ?s1"
  proof (rule heap_ok_edge [OF assms(1) below par])
    show "ids_wf ?s1" using h(3) ids_wfD(1) [OF h(3) assms(2)] by (intro ids_wf_put) (simp_all add: view_next)
    show "\<forall>o2. distinct (obj_fathers ?s1 o2)"
      using h(6) [of "Sc f"] h(6) assms(2) by (simp add: obj_fathers_put view_next)
    show "\<forall>a sc. rv_scopes ?s1 a = Some sc \<longrightarrow> distinct (childrenScopes sc) \<and> distinct (informationitems sc)"
      using h(7) assms(2) by auto
  qed (use live in auto)
  then have "edge_added f (It ?a) s ?s1"
    using own par live pair by (simp add: edge_added_def)
  moreover have "rv_items ?s1 ?a = Some ?new" by simp
  ultimately show ?thesis using eq dead by (intro exI [of _ ?s1] exI [of _ ?new]) simp
qed

lemma relink_scope:
  assumes "heap_ok s" and "rv_scopes s a = Some esc" and "rv_scopes s f = Some fsc" and "a \<noteq> f"
  shows "edge_added f (Sc a) s (put_scope f (fsc\<lparr>childrenScopes := hs_insert a (childrenScopes fsc)\<rparr>)
    (put_scope a (esc\<lparr>fatherScopes := hs_insert f (fatherScopes esc)\<rparr>) s))" (is "edge_added f _ s ?s1")
proof -
  note h = heap_ok_facts [OF assms(1)]
  have parf: "par s (Sc f) = set (fatherScopes fsc)" "own s (Sc f) = fst ` set (sc_ids fsc)"
    "par s (Sc a) = set (fatherScopes esc)" "own s (Sc a) = fst ` set (sc_ids esc)"
    using assms(2,3) by (simp_all add: par_def own_Sc)
  have own: "own ?s1 = own s" using parf by (auto simp: fun_eq_iff own_put)
  have par: "par ?s1 = (par s)(Sc a := insert f (par s (Sc a)))"
    using parf assms(4) by (auto simp: fun_eq_iff par_put)
  have below: "below ?s1 = (below s)(f := insert (Sc a) (below s f))"
    using assms(2-4) by (auto simp: fun_eq_iff below_put) (auto simp: below_def)
  have live: "live ?s1 o2 \<longleftrightarrow> o2 = Sc a \<or> live s o2" for o2
    using assms(2,3) by (auto simp: live_put live_Sc)
  have pair: "pair_at ?s1 = pair_at s"
    using assms(2-4) by (auto simp: fun_eq_iff pair_put pair_Sc)
  have "heap_ok ?s1"
  proof (rule heap_ok_edge [OF assms(1) below par])
    show "ids_wf ?s1" using h(3) ids_wfD(1) [OF h(3) assms(2)] ids_wfD(1) [OF h(3) assms(3)] by (intro ids_wf_put) simp_all
    show "\<forall>o2. distinct (obj_fathers ?s1 o2)"
      using h(6) [of "Sc f"] h(6) [of "Sc a"] h(6) assms(2,3) by (simp add: obj_fathers_put)
    show "\<forall>a sc. rv_scopes ?s1 a = Some sc \<longrightarrow> distinct (childrenScopes sc) \<and> distinct (informationitems sc)"
      using h(7) assms(2,3) by auto
    show "obj_addr (Sc a) < rv_next ?s1" using h(1) [of "Sc a"] assms(2) by (simp add: live_Sc)
  qed (use live in auto)
  then show ?thesis using own par live pair by (simp add: edge_added_def)
qed

lemma relink_item:
  assumes "heap_ok s" and "rv_items s a = Some it" and "rv_scopes s f = Some fsc"
  shows "edge_added f (It a) s (put_scope f (fsc\<lparr>informationitems := hs_insert a (informationitems fsc)\<rparr>)
    (put_item a (it\<lparr>it_fatherScopes := hs_insert f (it_fatherScopes it)\<rparr>) s))" (is "edge_added f _ s ?s1")
proof -
  note h = heap_ok_facts [OF assms(1)]
  have parf: "par s (Sc f) = set (fatherScopes fsc)" "own s (Sc f) = fst ` set (sc_ids fsc)"
    "par s (It a) = set (it_fatherScopes it)" "own s (It a) = fst ` set (it_ids it)"
    using assms(2,3) by (simp_all add: par_def own_Sc own_It)
  have own: "own ?s1 = own s" using parf by (auto simp: fun_eq_iff own_put)
  have par: "par ?s1 = (par s)(It a := insert f (par s (It a)))"
    using parf by (auto simp: fun_eq_iff par_put)
  have below: "below ?s1 = (below s)(f := insert (It a) (below s f))"
    using assms(2,3) by (auto simp: fun_eq_iff below_put) (auto simp: below_def)
  have live: "live ?s1 o2 \<longleftrightarrow> o2 = It a \<or> live s o2" for o2
    using assms(2,3) by (auto simp: live_put live_Sc live_It)
  have pair: "pair_at ?s1 = pair_at s"
    using assms(2,3) by (auto simp: fun_eq_iff pair_put pair_Sc pair_It)
  have "heap_ok ?s1"
  proof (rule heap_ok_edge [OF assms(1) below par])
    show "ids_wf ?s1" using h(3) ids_wfD(2) [OF h(3) assms(2)] ids_wfD(1) [OF h(3) assms(3)] by (intro ids_wf_put) simp_all
    show "\<forall>o2. distinct (obj_fathers ?s1 o2)"
      using h(6) [of "Sc f"] h(6) [of "It a"] h(6) assms(2,3) by (simp add: obj_fathers_put)
    show "\<forall>a sc. rv_scopes ?s1 a = Some sc \<longrightarrow> distinct (childrenScopes sc) \<and> distinct (informationitems sc)"
      using h(7) assms(2,3) by auto
    show "obj_addr (It a) < rv_next ?s1" using h(1) [of "It a"] assms(2) by (simp add: live_It)
  qed (use live in auto)
  then show ?thesis using own par live pair by (simp add: edge_added_def)
qed

subsection \<open>Publishing and subscribing\<close>

text \<open>
  What a request that adds a host to a book does: on success exactly one entry is new, otherwise
  neither the books nor the identifiers change.
\<close>

definition adds :: "book \<Rightarrow> bstr \<Rightarrow> host \<Rightarrow> rv \<Rightarrow> rv_ret \<Rightarrow> rv \<Rightarrow> bool" where
  "adds b x h s r s' \<longleftrightarrow> rv_inv s' \<and> known s' = known s \<and>
     (if r = SUCCESS then (x, h) \<notin> graph_book s b \<and> graph_book s' = (graph_book s)(b := insert (x, h) (graph_book s b))
      else graph_book s' = graph_book s \<and> own s' = own s)"

lemma adds_same [simp]: "rv_inv s \<Longrightarrow> r \<noteq> SUCCESS \<Longrightarrow> adds b x h s r s"
  by (simp add: adds_def)

lemma recorded_adds: "recorded b x h s r s' \<Longrightarrow> adds b x h s r s'"
  by (auto simp: recorded_def adds_def insert_absorb fun_upd_idem)

lemma recorded_adds_new:
  assumes "recorded b x h s1 r s'" and "graph_book s1 = graph_book s" and "known s1 = known s"
    and "(x, h) \<notin> graph_book s b"
  shows "adds b x h s r s'"
  using assms by (simp add: recorded_def adds_def)

lemma index_Sc: "index_ok s \<Longrightarrow> hm_get (scopeIndex s) x = Some a \<longleftrightarrow> x \<in> own s (Sc a)"
  by (simp add: index_ok_def)

lemma index_It: "index_ok s \<Longrightarrow> hm_get (pubIndex s) x = Some a \<longleftrightarrow> x \<in> own s (It a)"
  by (simp add: index_ok_def)

lemma not_indexed:
  assumes "index_ok s" and "hm_get (scopeIndex s) x = None" and "hm_get (pubIndex s) x = None"
  shows "x \<notin> own s o'"
  using index_Sc [OF assms(1), of x] index_It [OF assms(1), of x] assms(2,3) by (cases o') auto

lemma not_in_book:
  assumes "\<forall>o'. x \<notin> own s o'"
  shows "(x, h) \<notin> graph_book s b"
proof
  assume "(x, h) \<in> graph_book s b"
  then obtain a where "h \<in> set (book_side b (pair_at s (book_obj b a) x))" by (auto simp: graph_book_def)
  moreover have "pair_at s (book_obj b a) x = ([], [])" using assms by (simp add: pair_not_own)
  moreover have "book_side b ([], []) = []" by (cases b) simp_all
  ultimately show False by simp
qed

subsubsection \<open>A new root scope\<close>

lemma scope_publisher_fresh:
  assumes "rv_scopes s a = Some sc" and "sc_ids sc = []"
  shows "scope_publisher a x h t s = scope_publisher a x h t (put_scope a (sc\<lparr>sc_ids := [(x, ([], []))]\<rparr>) s)"
  using assms by (simp add: scope_publisher_def Scope_updatePublishers_def ids_add_publisher_def put_scope_def
      hm_get_def hs_insert_def)

lemma scope_subscriber_fresh:
  assumes "rv_scopes s a = Some sc" and "sc_ids sc = []"
  shows "scope_subscriber a x h t s = scope_subscriber a x h t (put_scope a (sc\<lparr>sc_ids := [(x, ([], []))]\<rparr>) s)"
  using assms by (simp add: scope_subscriber_def Scope_updateSubscribers_def ids_add_subscriber_def put_scope_def
      hm_get_def hs_insert_def)

lemma root_added:
  assumes "graph_ok U s" and "length x = 8" and "\<forall>o'. x \<notin> own s o'" and "sc_ids sc = [(x, ([], []))]"
    and "fatherScopes sc = []" "childrenScopes sc = []" "informationitems sc = []"
    and s1: "s1 = put_scope (rv_next s) sc (scopeIndex_set x (rv_next s) (s\<lparr>rv_next := Suc (rv_next s)\<rparr>))"
  shows "graph_ok (U(Sc (rv_next s) := x)) s1" "own s1 = (own s)(Sc (rv_next s) := {x})" "pair_at s1 = pair_at s"
proof -
  let ?a = "rv_next s"
  let ?U = "U(Sc ?a := x)"
  have g: "heap_ok s" "index_ok s" "sfx_ok U s" "back_ok s" "sib_ok U s" "no_self s" "missing U s = {}"
    "\<forall>o'. live s o' \<longrightarrow> own s o' \<noteq> {}"
    using assms(1) by (simp_all add: graph_ok_def pre_graph_def)
  note h = heap_ok_facts [OF g(1)]
  have dead: "\<not> live s (Sc ?a)" using h(1) [of "Sc ?a"] by auto
  have nopar: "par s (Sc ?a) = {}" "?a \<notin> par s o'" for o'
    using par_dead [OF dead] father_live [OF g(1), of ?a o'] dead by auto
  show own: "own s1 = (own s)(Sc ?a := {x})" using assms(4) by (auto simp: fun_eq_iff s1 own_put view_next)
  have par: "par s1 = par s" using nopar assms(5) by (auto simp: fun_eq_iff s1 par_put view_next)
  have below: "below s1 = below s"
    using nopar h(2) assms(6,7) by (auto simp: fun_eq_iff s1 below_put view_next)
  have live: "live s1 o2 \<longleftrightarrow> o2 = Sc ?a \<or> live s o2" for o2 by (simp add: s1 live_put view_next)
  show "pair_at s1 = pair_at s"
    using pair_not_own [of _ s "Sc ?a"] own_dead [OF dead] assms(4)
    by (auto simp: fun_eq_iff s1 pair_put view_next hm_get_def)
  have U: "?U o2 = U o2" if "live s o2" for o2 using that dead by auto
  have "heap_ok s1"
  proof -
    have "ids_wf s1" unfolding s1 using h(3) assms(4) by (intro ids_wf_put) (simp_all add: ids_wf_def view_next hm_wf_def)
    moreover have "distinct (obj_fathers s1 o2)" for o2
      using h(6) assms(5) by (simp add: s1 obj_fathers_put view_next)
    moreover have "distinct (childrenScopes sc2) \<and> distinct (informationitems sc2)" if "rv_scopes s1 b = Some sc2" for b sc2
      using that h(7) [of b sc2] assms(6,7) by (auto simp: s1 split: if_splits)
    moreover have "obj_addr o2 < rv_next s1" if "live s1 o2" for o2
      using that h(1) [of o2] by (auto simp: live) (auto simp: s1)
    moreover have "hm_wf (scopeIndex s1)" "hm_wf (pubIndex s1)" using h(4,5) by (simp_all add: s1)
    ultimately show ?thesis using h(2) by (simp add: heap_ok_def ids_wf_def below par)
  qed
  moreover have "index_ok s1"
  proof (rule index_ok_add [OF g(2), of s1 "Sc ?a" x])
    show "own s1 = (own s)(Sc ?a := insert x (own s (Sc ?a)))" using own own_dead [OF dead] by simp
  qed (use assms(3) in \<open>auto simp: s1\<close>)
  moreover have "sfx_ok ?U s1"
  proof -
    have "\<exists>q. y = q @ ?U o2 \<and> 8 dvd length q" if "y \<in> own s1 o2" for y o2
    proof (cases "o2 = Sc ?a")
      case True
      then show ?thesis using that own by simp
    next
      case False
      then show ?thesis using that own sfx_okD [OF g(3), of y o2] by simp
    qed
    moreover have "length (?U o2) = 8" for o2 using sfx_okL [OF g(3)] assms(2) by simp
    ultimately show ?thesis by (simp add: sfx_ok_def)
  qed
  moreover have "back_ok s1"
    unfolding back_ok_def par
  proof (intro allI impI)
    fix o2 q v assume v: "length v = (8::nat)" and y: "q @ v \<in> own s1 o2"
    show "if q = [] then par s o2 = {} \<and> (\<exists>a. o2 = Sc a) else \<exists>f \<in> par s o2. q \<in> own s1 (Sc f)"
    proof (cases "o2 = Sc ?a")
      case True
      then have "q @ v = x" using y own by simp
      then have "q = []" using v assms(2) by auto
      then show ?thesis using True nopar by simp
    next
      case False
      then have "q @ v \<in> own s o2" using y own by simp
      then have old: "if q = [] then par s o2 = {} \<and> (\<exists>a. o2 = Sc a) else \<exists>f \<in> par s o2. q \<in> own s (Sc f)"
        using g(4) v unfolding back_ok_def by blast
      have "f \<noteq> ?a" if "f \<in> par s o2" for f using that nopar by auto
      then show ?thesis using old own by (auto split: if_splits)
    qed
  qed
  moreover have "sib_ok ?U s1"
    unfolding sib_ok_def par
  proof (intro allI impI)
    fix f o1 o2 assume a: "f \<in> par s o1" "f \<in> par s o2" "?U o1 = ?U o2"
    then have "U o1 = U o2" using U [OF par_live [OF a(1)]] U [OF par_live [OF a(2)]] by simp
    then show "o1 = o2" using g(5) a unfolding sib_ok_def by blast
  qed
  moreover have "no_self s1" using g(6) by (simp add: no_self_def par)
  moreover have "missing ?U s1 = {}"
  proof -
    have "p @ ?U o2 \<in> own s1 o2" if "f \<in> par s o2" "p \<in> own s1 (Sc f)" for f p o2
    proof -
      have "f \<noteq> ?a" "o2 \<noteq> Sc ?a" using that(1) nopar by auto
      then show ?thesis using that g(7) own by (auto simp: missing_def)
    qed
    then show ?thesis by (auto simp: missing_def par)
  qed
  moreover have "own s1 o2 \<noteq> {}" if "live s1 o2" for o2 using that g(8) by (auto simp: own live)
  ultimately show "graph_ok ?U s1" by (simp add: graph_ok_def pre_graph_def)
qed

lemma item_id_long:
  assumes "back_ok s" and "sfx_ok U s" and "x \<in> own s (It i)"
  shows "8 < length x"
proof -
  obtain q where q: "x = q @ U (It i)" using sfx_okD [OF assms(2,3)] by blast
  have u: "length (U (It i)) = 8" by (rule sfx_okL [OF assms(2)])
  have "q \<noteq> []" using assms(1,3) q u unfolding back_ok_def by fastforce
  then show ?thesis using q u by simp
qed

lemma rv_pre: "rv_inv s \<Longrightarrow> graph_ok U s \<Longrightarrow> pre_graph U s"
  by (simp add: graph_ok_def)

lemma new_root_unknown:
  assumes "rv_inv s" and "length x = 8" and "hm_get (scopeIndex s) x = None"
  shows "\<forall>o'. x \<notin> own s o'"
proof
  obtain U where U: "graph_ok U s" using rv_inv_parts(2) [OF assms(1)] by blast
  then have p: "back_ok s" "sfx_ok U s" by (simp_all add: graph_ok_def pre_graph_def)
  fix o' show "x \<notin> own s o'"
    using item_id_long [OF p, of x] index_Sc [OF rv_inv_parts(5) [OF assms(1)], of x] assms(2,3)
    by (cases o') auto
qed

lemma new_root:
  assumes "rv_inv s" and "length x = 8" and "hm_get (scopeIndex s) x = None"
  shows "\<exists>s1 sc. Scope_new strategy None s = Some (rv_next s, s1) \<and> rv_scopes s1 (rv_next s) = Some sc \<and> sc_ids sc = [] \<and>
    (let s2 = put_scope (rv_next s) (sc\<lparr>sc_ids := [(x, ([], []))]\<rparr>) (scopeIndex_set x (rv_next s) s1) in
      rv_inv s2 \<and> graph_book s2 = graph_book s \<and> known s2 = known s \<and> x \<in> own s2 (Sc (rv_next s)))"
proof -
  let ?a = "rv_next s"
  let ?sc = "\<lparr>sc_ids = [], isRoot = True, fatherScopes = [], childrenScopes = [], informationitems = [], sc_strategy = strategy\<rparr>"
  let ?s1 = "put_scope ?a ?sc (s\<lparr>rv_next := Suc ?a\<rparr>)"
  let ?s2 = "put_scope ?a (?sc\<lparr>sc_ids := [(x, ([], []))]\<rparr>) (scopeIndex_set x ?a ?s1)"
  obtain U where U: "graph_ok U s" using rv_inv_parts(2) [OF assms(1)] by blast
  have s2: "?s2 = put_scope ?a (?sc\<lparr>sc_ids := [(x, ([], []))]\<rparr>) (scopeIndex_set x ?a (s\<lparr>rv_next := Suc ?a\<rparr>))"
    by (simp add: put_scope_def scopeIndex_set_def)
  note r = root_added [OF U assms(2) new_root_unknown [OF assms] _ _ _ _ s2]
  have "rv_inv ?s2" "graph_book ?s2 = graph_book s" "known ?s2 = known s"
    using rv_inv_regraph [OF assms(1) r(1,3)] by simp_all
  moreover have "x \<in> own ?s2 (Sc ?a)" by (subst r(2)) simp_all
  ultimately show ?thesis
    by (intro exI [of _ ?s1] exI [of _ ?sc]) (simp add: Scope_new_def Let_def)
qed

lemma scope_live_of_index: "rv_inv s \<Longrightarrow> hm_get (scopeIndex s) x = Some a \<Longrightarrow> \<exists>sc. rv_scopes s a = Some sc \<and> x \<in> own s (Sc a)"
  using index_Sc [OF rv_inv_parts(5), of s x a] own_live [of x s "Sc a"] by (auto simp: live_Sc)

lemma item_live_of_index: "rv_inv s \<Longrightarrow> hm_get (pubIndex s) x = Some a \<Longrightarrow> \<exists>it. rv_items s a = Some it \<and> x \<in> own s (It a)"
  using index_It [OF rv_inv_parts(5), of s x a] own_live [of x s "It a"] by (auto simp: live_It)

lemma publish_root_scope_ok:
  assumes "rv_inv s" and "known s h" and "length x = 8"
  shows "\<exists>r s'. publish_root_scope h x strategy s = Some (r, s') \<and> adds SPub x h s r s'"
proof (cases "hm_get (scopeIndex s) x")
  case None
  from new_root [OF assms(1,3) None, of strategy] obtain s1 sc where
    s1: "Scope_new strategy None s = Some (rv_next s, s1)" "rv_scopes s1 (rv_next s) = Some sc" "sc_ids sc = []"
    and s2: "let s2 = put_scope (rv_next s) (sc\<lparr>sc_ids := [(x, ([], []))]\<rparr>) (scopeIndex_set x (rv_next s) s1) in
      rv_inv s2 \<and> graph_book s2 = graph_book s \<and> known s2 = known s \<and> x \<in> own s2 (Sc (rv_next s))" by blast
  let ?s2 = "put_scope (rv_next s) (sc\<lparr>sc_ids := [(x, ([], []))]\<rparr>) (scopeIndex_set x (rv_next s) s1)"
  have i: "rv_inv ?s2" "graph_book ?s2 = graph_book s" "known ?s2 = known s" "x \<in> own ?s2 (Sc (rv_next s))"
    using s2 unfolding Let_def by blast+
  from scope_publisher_ok [OF i(1) _ i(4), of h Some] assms(2) i(3) obtain r s' where
    s': "scope_publisher (rv_next s) x h Some ?s2 = Some (r, s')" "recorded SPub x h ?s2 r s'" by auto
  have "scope_publisher (rv_next s) x h Some (scopeIndex_set x (rv_next s) s1) = Some (r, s')"
    using scope_publisher_fresh [of "scopeIndex_set x (rv_next s) s1" "rv_next s" sc] s1 s'(1) by simp
  moreover have "adds SPub x h s r s'"
    by (rule recorded_adds_new [OF s'(2) i(2,3) not_in_book [OF new_root_unknown [OF assms(1,3) None]]])
  ultimately show ?thesis using None s1(1) by (simp add: publish_root_scope_def)
next
  case (Some a)
  obtain sc where sc: "rv_scopes s a = Some sc" "x \<in> own s (Sc a)" using scope_live_of_index [OF assms(1) Some] by blast
  show ?thesis
    using Some sc assms(1) scope_publisher_ok [OF assms(1,2) sc(2) safe_then_Some] recorded_adds
    by (cases "sc_strategy sc = strategy") (auto simp: publish_root_scope_def)
qed

lemma safe_welcome: "live s (Sc a) \<Longrightarrow> known s h \<Longrightarrow> safe_then s (welcome_subscriber a h)"
  unfolding safe_then_def by (metis rv_heap_ok skel_view(1) welcome_subscriber_ok)

lemma safe_rendezvous: "live s (It i) \<Longrightarrow> safe_then s (rendezvous_all i)"
  unfolding safe_then_def by (metis rv_heap_ok skel_view(1) rendezvous_all_ok)

lemma safe_notify: "live s (Sc f) \<Longrightarrow> live s (Sc a) \<Longrightarrow> safe_then s (notify_new_scope f a sel type)"
  unfolding safe_then_def by (metis skel_view(1) notify_new_scope_ok)

lemma subscribe_root_scope_ok:
  assumes "rv_inv s" and "known s h" and "length x = 8"
  shows "\<exists>r s'. subscribe_root_scope h x strategy s = Some (r, s') \<and> adds SSub x h s r s'"
proof (cases "hm_get (scopeIndex s) x")
  case None
  from new_root [OF assms(1,3) None, of strategy] obtain s1 sc where
    s1: "Scope_new strategy None s = Some (rv_next s, s1)" "rv_scopes s1 (rv_next s) = Some sc" "sc_ids sc = []"
    and s2: "let s2 = put_scope (rv_next s) (sc\<lparr>sc_ids := [(x, ([], []))]\<rparr>) (scopeIndex_set x (rv_next s) s1) in
      rv_inv s2 \<and> graph_book s2 = graph_book s \<and> known s2 = known s \<and> x \<in> own s2 (Sc (rv_next s))" by blast
  let ?s2 = "put_scope (rv_next s) (sc\<lparr>sc_ids := [(x, ([], []))]\<rparr>) (scopeIndex_set x (rv_next s) s1)"
  have i: "rv_inv ?s2" "graph_book ?s2 = graph_book s" "known ?s2 = known s" "x \<in> own ?s2 (Sc (rv_next s))"
    using s2 unfolding Let_def by blast+
  from scope_subscriber_ok [OF i(1) _ i(4), of h Some] assms(2) i(3) obtain r s' where
    s': "scope_subscriber (rv_next s) x h Some ?s2 = Some (r, s')" "recorded SSub x h ?s2 r s'" by auto
  have "scope_subscriber (rv_next s) x h Some (scopeIndex_set x (rv_next s) s1) = Some (r, s')"
    using scope_subscriber_fresh [of "scopeIndex_set x (rv_next s) s1" "rv_next s" sc] s1 s'(1) by simp
  moreover have "adds SSub x h s r s'"
    by (rule recorded_adds_new [OF s'(2) i(2,3) not_in_book [OF new_root_unknown [OF assms(1,3) None]]])
  ultimately show ?thesis using None s1(1) by (simp add: subscribe_root_scope_def)
next
  case (Some a)
  obtain sc where sc: "rv_scopes s a = Some sc" "x \<in> own s (Sc a)" using scope_live_of_index [OF assms(1) Some] by blast
  have "live s (Sc a)" using sc(1) by (simp add: live_Sc)
  from scope_subscriber_ok [OF assms(1,2) sc(2) safe_welcome [OF this assms(2)]] recorded_adds
  have "\<exists>r s'. scope_subscriber a x h (welcome_subscriber a h) s = Some (r, s') \<and> adds SSub x h s r s'" by blast
  then show ?thesis using Some sc assms(1)
    by (cases "sc_strategy sc = strategy") (simp_all add: subscribe_root_scope_def)
qed

subsubsection \<open>A new inner scope, a new item\<close>

lemma inner_fresh:
  assumes "rv_inv s" and "hm_get (scopeIndex s) (p @ x) = None" and "hm_get (pubIndex s) (p @ x) = None"
  shows "\<forall>o2. p @ x \<notin> own s o2"
  using not_indexed [OF rv_inv_parts(5) [OF assms(1)] assms(2,3)] by blast

lemma new_inner_scope:
  assumes "rv_inv s" and "length x = 8" and "hm_get (scopeIndex s) p = Some f"
    and "hm_get (scopeIndex s) (p @ x) = None" and "hm_get (pubIndex s) (p @ x) = None"
  shows "\<exists>s1 s2. Scope_new strategy (Some f) s = Some (rv_next s, s1) \<and>
    Scope_recursivelyUpdateIDs (rv_next s) (suffix_of (p @ x)) s1 = Some s2 \<and>
    rv_inv s2 \<and> graph_book s2 = graph_book s \<and> known s2 = known s \<and> p @ x \<in> own s2 (Sc (rv_next s)) \<and>
    live s2 (Sc f) \<and> live s2 (Sc (rv_next s))"
proof -
  let ?a = "rv_next s"
  obtain U where U: "graph_ok U s" using rv_inv_parts(2) [OF assms(1)] by blast
  obtain fsc where f: "rv_scopes s f = Some fsc" "p \<in> own s (Sc f)" using scope_live_of_index [OF assms(1,3)] by blast
  from Scope_new_child [OF rv_heap_ok [OF assms(1)] f(1), of strategy] obtain s1 sc where
    s1: "Scope_new strategy (Some f) s = Some (?a, s1)" and e: "edge_added f (Sc ?a) s s1"
    and sc: "rv_scopes s1 ?a = Some sc" "childrenScopes sc = []" "informationitems sc = []"
    and dead: "\<not> live s (Sc ?a)" by blast
  define V where V: "V = U(Sc ?a := x)"
  have ne: "Sc ?a \<noteq> Sc f" using dead f(1) by (auto simp: live_Sc)
  note pg = edge_added_pre_graph [OF U e assms(2) _ ne f(2) inner_fresh [OF assms(1,4,5)]]
  have pre: "pre_graph V s1" "missing V s1 \<subseteq> {(f, Sc ?a)}" using pg dead own_dead [OF dead] by (auto simp: V)
  have "heap_ok s1" "live s1 (Sc ?a)" using e sc(1) by (simp_all add: edge_added_def live_Sc)
  then obtain n where n: "rv_next s1 = Suc n" using heap_ok_facts(1) [of s1 "Sc ?a"] by (cases "rv_next s1") auto
  have Ux: "V (Sc ?a) = x" by (simp add: V)
  from recursivelyUpdateIDs_leaf [OF pre(1) sc, of n] Ux obtain s2 where
    s2: "recursivelyUpdateIDs (Suc n) ?a (V (Sc ?a)) s1 = Some s2" by auto
  have s2x: "Scope_recursivelyUpdateIDs ?a (suffix_of (p @ x)) s1 = Some s2"
    using s2 assms(2) Ux by (simp add: Scope_recursivelyUpdateIDs_def n del: recursivelyUpdateIDs.simps)
  from recursivelyUpdateIDs_partial [OF pre(1) s2] have r: "pre_graph V s2" "grow s1 s2" "missing V s2 = {}"
    using pre(2) by auto
  note ec = edge_completed [OF U e r f(2)]
  have "pair_at s2 = pair_at s" "pub_sub_Index s2 = pub_sub_Index s" "rv_gc s2 = rv_gc s" "rv_msgs s2 = rv_msgs s"
    using grow_view [OF r(2)] e by (simp_all add: edge_added_def)
  note ri = rv_inv_regraph [OF assms(1) ec(1) this]
  have "live s (Sc f)" using f(1) by (simp add: live_Sc)
  then have "live s2 (Sc f)" "live s2 (Sc ?a)"
    using grow_view(1) [OF r(2)] e by (simp_all add: edge_added_def)
  then show ?thesis using s1 s2x ri ec(2) Ux by auto
qed

lemma new_inner_item:
  assumes "rv_inv s" and "length x = 8" and "hm_get (scopeIndex s) p = Some f"
    and "hm_get (scopeIndex s) (p @ x) = None" and "hm_get (pubIndex s) (p @ x) = None"
  shows "\<exists>s1 s2. InformationItem_new strategy f s = Some (rv_next s, s1) \<and>
    InformationItem_updateIDs (rv_next s) (suffix_of (p @ x)) s1 = Some s2 \<and>
    rv_inv s2 \<and> graph_book s2 = graph_book s \<and> known s2 = known s \<and> p @ x \<in> own s2 (It (rv_next s)) \<and>
    live s2 (Sc f) \<and> live s2 (It (rv_next s))"
proof -
  let ?a = "rv_next s"
  obtain U where U: "graph_ok U s" using rv_inv_parts(2) [OF assms(1)] by blast
  obtain fsc where f: "rv_scopes s f = Some fsc" "p \<in> own s (Sc f)" using scope_live_of_index [OF assms(1,3)] by blast
  from InformationItem_new_child [OF rv_heap_ok [OF assms(1)] f(1), of strategy] obtain s1 it where
    s1: "InformationItem_new strategy f s = Some (?a, s1)" and e: "edge_added f (It ?a) s s1"
    and it: "rv_items s1 ?a = Some it" and dead: "\<not> live s (It ?a)" by blast
  define V where V: "V = U(It ?a := x)"
  note pg = edge_added_pre_graph [OF U e assms(2) _ _ f(2) inner_fresh [OF assms(1,4,5)]]
  have pre: "pre_graph V s1" "missing V s1 \<subseteq> {(f, It ?a)}" using pg dead own_dead [OF dead] by (auto simp: V)
  have Ux: "V (It ?a) = x" by (simp add: V)
  from refresh_obj [OF pre(1), of "It ?a"] obtain s2 where
    r: "fold_opt (inherit (It ?a) x) (obj_fathers s1 (It ?a)) s1 = Some s2" "pre_graph V s2" "grow s1 s2"
    "missing V s2 \<subseteq> {(g, o2) \<in> missing V s1. o2 \<noteq> It ?a} \<union> {(b, o2). It ?a = Sc b \<and> b \<in> par s1 o2}"
    unfolding Ux by blast
  have "missing V s2 = {}" using r(4) pre(2) by auto
  note s2 = r(1-3) this
  have s2x: "InformationItem_updateIDs ?a (suffix_of (p @ x)) s1 = Some s2"
    using s2(1) it assms(2) by (simp add: InformationItem_updateIDs_def inherit_eqs)
  note ec = edge_completed [OF U e s2(2-4) f(2)]
  have "pair_at s2 = pair_at s" "pub_sub_Index s2 = pub_sub_Index s" "rv_gc s2 = rv_gc s" "rv_msgs s2 = rv_msgs s"
    using grow_view [OF s2(3)] e by (simp_all add: edge_added_def)
  note ri = rv_inv_regraph [OF assms(1) ec(1) this]
  have "live s (Sc f)" using f(1) by (simp add: live_Sc)
  then have "live s2 (Sc f)" "live s2 (It ?a)"
    using grow_view(1) [OF s2(3)] e by (simp_all add: edge_added_def)
  then show ?thesis using s1 s2x ri ec(2) Ux by auto
qed

lemma safe_rendezvous_new: "live s (Sc f) \<Longrightarrow> live s (It i) \<Longrightarrow> safe_then s (rendezvous_new f i)"
  unfolding safe_then_def
proof (intro allI impI)
  fix t assume l: "live s (Sc f)" "live s (It i)" and t: "skel t = skel s"
  then obtain fsc it where "rv_scopes t f = Some fsc" "rv_items t i = Some it"
    using skel_view(1) [OF t] live_Sc [of t f] live_It [of t i] by auto
  then show "\<exists>t'. rendezvous_new f i t = Some t' \<and> quiet t t'"
  proof -
    assume sc: "rv_scopes t f = Some fsc" "rv_items t i = Some it"
    let ?l = "ids_subscribers (sc_ids fsc) (ids_subscribers (it_ids it) [])"
    have "set ?l \<subseteq> graph_hosts t"
      using ids_subscribers_hosts [of "sc_ids fsc" "ids_subscribers (it_ids it) []"] ids_subscribers_hosts [of "it_ids it" "[]"]
        graph_hosts_Sc [OF sc(1)] graph_hosts_It [OF sc(2)] by auto
    then show ?thesis using rendezvous_ok [of t i ?l] sc
      by (auto simp: rendezvous_new_def InformationItem_getSubscribers_def Scope_getSubscribers_def live_It)
  qed
qed

lemma existing_scope_publisher:
  assumes "rv_inv s" and "known s h" and "hm_get (scopeIndex s) x = Some a"
  shows "\<exists>sc r s'. rv_scopes s a = Some sc \<and> scope_publisher a x h Some s = Some (r, s') \<and> adds SPub x h s r s'"
  using scope_live_of_index [OF assms(1,3)] scope_publisher_ok [OF assms(1,2) _ safe_then_Some, of x a] recorded_adds
  by blast

lemma existing_scope_subscriber:
  assumes "rv_inv s" and "known s h" and "hm_get (scopeIndex s) x = Some a"
  shows "\<exists>sc r s'. rv_scopes s a = Some sc \<and> scope_subscriber a x h (welcome_subscriber a h) s = Some (r, s') \<and> adds SSub x h s r s'"
proof -
  obtain sc where sc: "rv_scopes s a = Some sc" "x \<in> own s (Sc a)" using scope_live_of_index [OF assms(1,3)] by blast
  then have "live s (Sc a)" by (simp add: live_Sc)
  from scope_subscriber_ok [OF assms(1,2) sc(2) safe_welcome [OF this assms(2)]] sc recorded_adds show ?thesis by blast
qed

lemma existing_item:
  assumes "rv_inv s" and "known s h" and "hm_get (pubIndex s) x = Some i"
  shows "\<exists>r s'. item_publisher i x h (rendezvous_all i) s = Some (r, s') \<and> adds IPub x h s r s'"
    "\<exists>r s'. item_subscriber i x h (rendezvous_all i) s = Some (r, s') \<and> adds ISub x h s r s'"
proof -
  obtain it where it: "rv_items s i = Some it" "x \<in> own s (It i)" using item_live_of_index [OF assms(1,3)] by blast
  then have "live s (It i)" by (simp add: live_It)
  note sr = safe_rendezvous [OF this]
  from item_publisher_ok [OF assms(1,2) it(2) sr] recorded_adds
  show "\<exists>r s'. item_publisher i x h (rendezvous_all i) s = Some (r, s') \<and> adds IPub x h s r s'" by blast
  from item_subscriber_ok [OF assms(1,2) it(2) sr] recorded_adds
  show "\<exists>r s'. item_subscriber i x h (rendezvous_all i) s = Some (r, s') \<and> adds ISub x h s r s'" by blast
qed

lemma publish_inner_scope_ok:
  assumes "rv_inv s" and "known s h" and "length x = 8"
  shows "\<exists>r s'. publish_inner_scope h x p strategy s = Some (r, s') \<and> adds SPub (p @ x) h s r s'"
proof (cases "hm_get (pubIndex s) (p @ x)")
  case None
  note np = None
  show ?thesis
  proof (cases "hm_get (scopeIndex s) p")
    case None
    then show ?thesis using np assms(1) by (simp add: publish_inner_scope_def)
  next
    case (Some f)
    then obtain fsc where f: "rv_scopes s f = Some fsc" using scope_live_of_index [OF assms(1)] by blast
    show ?thesis
    proof (cases "hm_get (scopeIndex s) (p @ x)")
      case None
      from new_inner_scope [OF assms(1,3) Some None np, of strategy] obtain s1 s2 where
        s1: "Scope_new strategy (Some f) s = Some (rv_next s, s1)"
        "Scope_recursivelyUpdateIDs (rv_next s) (suffix_of (p @ x)) s1 = Some s2"
        and s2: "rv_inv s2" "graph_book s2 = graph_book s" "known s2 = known s" "p @ x \<in> own s2 (Sc (rv_next s))"
        "live s2 (Sc f)" "live s2 (Sc (rv_next s))" by blast
      from scope_publisher_ok [OF s2(1) _ s2(4) safe_notify [OF s2(5,6)]] assms(2) s2(3) obtain r s' where
        s': "scope_publisher (rv_next s) (p @ x) h (notify_new_scope f (rv_next s) (\<lambda>x. x) SCOPE_PUBLISHED) s2 = Some (r, s')"
        "recorded SPub (p @ x) h s2 r s'" by metis
      have "adds SPub (p @ x) h s r s'"
        by (rule recorded_adds_new [OF s'(2) s2(2,3) not_in_book [OF inner_fresh [OF assms(1) None np]]])
      then show ?thesis using np Some None f s1 s'(1) assms(1)
        by (cases "sc_strategy fsc = strategy") (simp_all add: publish_inner_scope_def)
    next
      case (Some a)
      from existing_scope_publisher [OF assms(1,2) Some] obtain sc r s' where
        "rv_scopes s a = Some sc" "scope_publisher a (p @ x) h Some s = Some (r, s')" "adds SPub (p @ x) h s r s'" by blast
      then show ?thesis using np \<open>hm_get (scopeIndex s) p = Some f\<close> Some assms(1)
        by (cases "sc_strategy sc = strategy") (simp_all add: publish_inner_scope_def)
    qed
  qed
next
  case (Some i)
  then show ?thesis using assms(1) by (simp add: publish_inner_scope_def)
qed

lemma subscribe_inner_scope_ok:
  assumes "rv_inv s" and "known s h" and "length x = 8"
  shows "\<exists>r s'. subscribe_inner_scope h x p strategy s = Some (r, s') \<and> adds SSub (p @ x) h s r s'"
proof (cases "hm_get (pubIndex s) (p @ x)")
  case None
  note np = None
  show ?thesis
  proof (cases "hm_get (scopeIndex s) p")
    case None
    then show ?thesis using np assms(1) by (simp add: subscribe_inner_scope_def)
  next
    case (Some f)
    then obtain fsc where f: "rv_scopes s f = Some fsc" using scope_live_of_index [OF assms(1)] by blast
    show ?thesis
    proof (cases "hm_get (scopeIndex s) (p @ x)")
      case None
      from new_inner_scope [OF assms(1,3) Some None np, of strategy] obtain s1 s2 where
        s1: "Scope_new strategy (Some f) s = Some (rv_next s, s1)"
        "Scope_recursivelyUpdateIDs (rv_next s) (suffix_of (p @ x)) s1 = Some s2"
        and s2: "rv_inv s2" "graph_book s2 = graph_book s" "known s2 = known s" "p @ x \<in> own s2 (Sc (rv_next s))"
        "live s2 (Sc f)" "live s2 (Sc (rv_next s))" by blast
      from scope_subscriber_ok [OF s2(1) _ s2(4) safe_notify [OF s2(5,6)]] assms(2) s2(3) obtain r s' where
        s': "scope_subscriber (rv_next s) (p @ x) h (notify_new_scope f (rv_next s) (\<lambda>x. x) SCOPE_PUBLISHED) s2 = Some (r, s')"
        "recorded SSub (p @ x) h s2 r s'" by metis
      have "adds SSub (p @ x) h s r s'"
        by (rule recorded_adds_new [OF s'(2) s2(2,3) not_in_book [OF inner_fresh [OF assms(1) None np]]])
      then show ?thesis using np Some None f s1 s'(1) assms(1)
        by (cases "sc_strategy fsc = strategy") (simp_all add: subscribe_inner_scope_def)
    next
      case (Some a)
      from existing_scope_subscriber [OF assms(1,2) Some] obtain sc r s' where
        "rv_scopes s a = Some sc" "scope_subscriber a (p @ x) h (welcome_subscriber a h) s = Some (r, s')"
        "adds SSub (p @ x) h s r s'" by blast
      then show ?thesis using np \<open>hm_get (scopeIndex s) p = Some f\<close> Some assms(1)
        by (cases "sc_strategy sc = strategy") (simp_all add: subscribe_inner_scope_def)
    qed
  qed
next
  case (Some i)
  then show ?thesis using assms(1) by (simp add: subscribe_inner_scope_def)
qed

lemma advertise_info_ok:
  assumes "rv_inv s" and "known s h" and "length x = 8"
  shows "\<exists>r s'. advertise_info h x p strategy s = Some (r, s') \<and> adds IPub (p @ x) h s r s'"
proof (cases "hm_get (scopeIndex s) p")
  case None
  then show ?thesis using assms(1) by (simp add: advertise_info_def)
next
  case (Some f)
  note sf = Some
  then obtain fsc where f: "rv_scopes s f = Some fsc" using scope_live_of_index [OF assms(1)] by blast
  show ?thesis
  proof (cases "hm_get (pubIndex s) (p @ x)")
    case None
    note np = None
    show ?thesis
    proof (cases "hm_get (scopeIndex s) (p @ x)")
      case None
      from new_inner_item [OF assms(1,3) Some None np, of "sc_strategy fsc"] obtain s1 s2 where
        s1: "InformationItem_new (sc_strategy fsc) f s = Some (rv_next s, s1)"
        "InformationItem_updateIDs (rv_next s) (suffix_of (p @ x)) s1 = Some s2"
        and s2: "rv_inv s2" "graph_book s2 = graph_book s" "known s2 = known s" "p @ x \<in> own s2 (It (rv_next s))"
        "live s2 (Sc f)" "live s2 (It (rv_next s))" by blast
      from item_publisher_ok [OF s2(1) _ s2(4) safe_rendezvous_new [OF s2(5,6)]] assms(2) s2(3) obtain r s' where
        s': "item_publisher (rv_next s) (p @ x) h (rendezvous_new f (rv_next s)) s2 = Some (r, s')"
        "recorded IPub (p @ x) h s2 r s'" by metis
      have "adds IPub (p @ x) h s r s'"
        by (rule recorded_adds_new [OF s'(2) s2(2,3) not_in_book [OF inner_fresh [OF assms(1) None np]]])
      then show ?thesis using np sf None f s1 s'(1) assms(1)
        by (cases "sc_strategy fsc = strategy") (simp_all add: advertise_info_def)
    next
      case (Some a)
      then show ?thesis using np sf f assms(1) by (simp add: advertise_info_def)
    qed
  next
    case (Some i)
    from existing_item(1) [OF assms(1,2) Some] show ?thesis using sf f Some assms(1)
      by (cases "sc_strategy fsc = strategy") (simp_all add: advertise_info_def)
  qed
qed

lemma subscribe_info_ok:
  assumes "rv_inv s" and "known s h"
  shows "\<exists>r s'. subscribe_info h x p strategy s = Some (r, s') \<and> adds ISub (p @ x) h s r s'"
proof (cases "length p > 0 \<and> length x = 8")
  case False
  then show ?thesis using assms(1) by (auto simp: subscribe_info_def)
next
  case True
  then have x8: "length x = 8" by simp
  show ?thesis
  proof (cases "hm_get (scopeIndex s) p")
    case None
    then show ?thesis using assms(1) True by (simp add: subscribe_info_def)
  next
    case (Some f)
    note sf = Some
    then obtain fsc where f: "rv_scopes s f = Some fsc" using scope_live_of_index [OF assms(1)] by blast
    show ?thesis
    proof (cases "hm_get (pubIndex s) (p @ x)")
      case None
      note np = None
      show ?thesis
      proof (cases "hm_get (scopeIndex s) (p @ x)")
        case None
        from new_inner_item [OF assms(1) x8 Some None np, of "sc_strategy fsc"] obtain s1 s2 where
          s1: "InformationItem_new (sc_strategy fsc) f s = Some (rv_next s, s1)"
          "InformationItem_updateIDs (rv_next s) (suffix_of (p @ x)) s1 = Some s2"
          and s2: "rv_inv s2" "graph_book s2 = graph_book s" "known s2 = known s" "p @ x \<in> own s2 (It (rv_next s))"
          by blast
        from item_subscriber_ok [OF s2(1) _ s2(4) safe_then_Some] assms(2) s2(3) obtain r s' where
          s': "item_subscriber (rv_next s) (p @ x) h Some s2 = Some (r, s')" "recorded ISub (p @ x) h s2 r s'" by metis
        have "adds ISub (p @ x) h s r s'"
          by (rule recorded_adds_new [OF s'(2) s2(2,3) not_in_book [OF inner_fresh [OF assms(1) None np]]])
        then show ?thesis using np sf None f s1 s'(1) assms(1) True
          by (cases "sc_strategy fsc = strategy") (simp_all add: subscribe_info_def)
      next
        case (Some a)
        then show ?thesis using np sf f assms(1) True by (simp add: subscribe_info_def)
      qed
    next
      case (Some i)
      from existing_item(2) [OF assms(1,2) Some] show ?thesis using sf f Some assms(1) True
        by (cases "sc_strategy fsc = strategy") (simp_all add: subscribe_info_def)
    qed
  qed
qed

subsubsection \<open>Another father for an existing scope or item\<close>

lemma owner_suffix:
  assumes "graph_ok U s" and "q @ u \<in> own s o'" and "length u = 8" and "q \<noteq> []"
  shows "U o' = u" "\<forall>x \<in> own s o'. 8 < length x"
proof -
  have p: "sfx_ok U s" "back_ok s" using assms(1) by (simp_all add: graph_ok_def pre_graph_def)
  have u8: "length (U o') = 8" by (rule sfx_okL [OF p(1)])
  obtain r where "q @ u = r @ U o'" using sfx_okD [OF p(1) assms(2)] by blast
  then show "U o' = u" using u8 assms(3) by (simp add: snoc8_eq)
  have par: "par s o' \<noteq> {}" using p(2) assms(2-4) unfolding back_ok_def by fastforce
  show "\<forall>x \<in> own s o'. 8 < length x"
  proof
    fix x assume x: "x \<in> own s o'"
    obtain r where r: "x = r @ U o'" using sfx_okD [OF p(1) x] by blast
    have "r \<noteq> []" using p(2) x u8 par unfolding r back_ok_def by fastforce
    then show "8 < length x" using r u8 by simp
  qed
qed

lemma relink_completed:
  assumes "rv_inv s" and "graph_ok U s" and "edge_added f o' s s1" and "o' \<noteq> Sc f" and "p \<in> own s (Sc f)"
    and "q @ u \<in> own s o'" and "length u = 8" and "q \<noteq> []"
    and "hm_get (scopeIndex s) (p @ u) = None" and "hm_get (pubIndex s) (p @ u) = None"
  shows "pre_graph U s1" "missing U s1 \<subseteq> {(f, o')}" "\<forall>o2. live s1 o2 \<longrightarrow> own s1 o2 \<noteq> {}" "live s1 o'"
proof -
  note os = owner_suffix [OF assms(2,6-8)]
  have eq: "U(o' := u) = U" using os(1) by (simp add: fun_upd_idem)
  show "pre_graph U s1" "missing U s1 \<subseteq> {(f, o')}"
    using edge_added_pre_graph [OF assms(2,3,7) os(1) assms(4,5) inner_fresh [OF assms(1,9,10)] os(2)]
    unfolding eq by blast+
  have lv: "live s o'" using own_live [OF assms(6)] .
  then show "\<forall>o2. live s1 o2 \<longrightarrow> own s1 o2 \<noteq> {}" "live s1 o'"
    using assms(2,3) by (auto simp: graph_ok_def edge_added_def)
qed

lemma edge_added_kids:
  assumes "edge_added f (Sc a) s s1" and "heap_ok s"
  shows "kid_rel s1 = insert (f, a) (kid_rel s)"
proof -
  have h1: "heap_ok s1" and p: "par s1 = (par s)(Sc a := insert f (par s (Sc a)))"
    using assms(1) by (simp_all add: edge_added_def)
  have "kid_rel t = {(b, c). b \<in> par t (Sc c)}" if "heap_ok t" for t
    using heap_ok_facts(2) [OF that] by (simp add: kid_rel_def)
  then show ?thesis using h1 assms(2) p by auto
qed

lemma handed_down: "graph_ok U s \<Longrightarrow> f \<in> par s o' \<Longrightarrow> p \<in> own s (Sc f) \<Longrightarrow> p @ U o' \<in> own s o'"
  by (auto simp: graph_ok_def missing_def)

text \<open>Below a scope, identifiers extend the scope's.\<close>

lemma descend_own:
  assumes "graph_ok U s" and "(a, b) \<in> (kid_rel s)\<^sup>*" and "x \<in> own s (Sc a)"
  shows "\<exists>r. x @ r \<in> own s (Sc b)"
  using assms(2)
proof (induction rule: rtrancl_induct)
  case base
  then show ?case using assms(3) by (metis append_Nil2)
next
  case (step b c)
  then obtain r where r: "x @ r \<in> own s (Sc b)" by blast
  have "b \<in> par s (Sc c)" using step(2) assms(1) by (auto simp: kid_rel_def graph_ok_def pre_graph_def heap_ok_def)
  from handed_down [OF assms(1) this r] show ?case by auto
qed

lemma own_descend:
  assumes "graph_ok U s" and "x \<in> own s (Sc a)"
  shows "x @ r \<in> own s (Sc b) \<Longrightarrow> 8 dvd length r \<Longrightarrow> (a, b) \<in> (kid_rel s)\<^sup>*"
proof (induction "length r" arbitrary: r b rule: less_induct)
  case less
  have p: "index_ok s" "sfx_ok U s" "back_ok s" "heap_ok s" using assms(1) by (simp_all add: graph_ok_def pre_graph_def)
  show ?case
  proof (cases "r = []")
    case True
    then have "Sc b = Sc a" using own_unique [OF p(1) _ assms(2), of "Sc b"] less.prems(1) by simp
    then show ?thesis by simp
  next
    case False
    then have "8 \<le> length r" using less.prems(2) by (auto dest!: dvd_imp_le)
    then obtain v w where r: "r = v @ w" "length w = 8"
      by (metis append_take_drop_id diff_diff_cancel length_drop)
    have "x \<noteq> []" by (rule sfx_not_Nil [OF p(2) assms(2)])
    then have "\<exists>f \<in> par s (Sc b). x @ v \<in> own s (Sc f)"
      using p(3) less.prems(1) r unfolding back_ok_def by (metis append.assoc append_is_Nil_conv)
    then obtain f where f: "f \<in> par s (Sc b)" "x @ v \<in> own s (Sc f)" by blast
    have "8 dvd length v" using less.prems(2) r by (metis dvd_add_left_iff dvd_refl length_append)
    moreover have "length v < length r" using r by simp
    ultimately have "(a, f) \<in> (kid_rel s)\<^sup>*" using less.hyps f(2) by blast
    moreover have "(f, b) \<in> kid_rel s" using f(1) p(4) by (simp add: kid_rel_def heap_ok_facts(2))
    ultimately show ?thesis by simp
  qed
qed

text \<open>A republication is acceptable when no identifier of the new father extends one of the scope.\<close>

definition republish_ok :: "bstr \<Rightarrow> bstr \<Rightarrow> rv \<Rightarrow> bool" where
  "republish_ok ID p s = (case hm_get (scopeIndex s) ID of None \<Rightarrow> True | Some a \<Rightarrow>
     (case hm_get (scopeIndex s) p of None \<Rightarrow> True | Some f \<Rightarrow>
       (case rv_scopes s a of None \<Rightarrow> True | Some esc \<Rightarrow>
         (case rv_scopes s f of None \<Rightarrow> True | Some fsc \<Rightarrow>
           \<not> list_ex (\<lambda>x. list_ex (\<lambda>y. take (length x) y = x) (hm_keys (sc_ids fsc))) (hm_keys (sc_ids esc))))))"

lemma republish_ok_acyclic:
  assumes "graph_ok U s" and "republish_ok ID p s" and "hm_get (scopeIndex s) ID = Some a"
    and "hm_get (scopeIndex s) p = Some f" and "rv_scopes s a = Some esc" and "rv_scopes s f = Some fsc"
    and "ID \<in> own s (Sc a)"
  shows "(a, f) \<notin> (kid_rel s)\<^sup>*"
proof
  assume "(a, f) \<in> (kid_rel s)\<^sup>*"
  from descend_own [OF assms(1) this assms(7)] obtain r where "ID @ r \<in> own s (Sc f)" by blast
  then have "ID \<in> fst ` set (sc_ids esc)" "ID @ r \<in> fst ` set (sc_ids fsc)"
    using assms(5-7) by (simp_all add: own_Sc)
  moreover have "\<not> list_ex (\<lambda>x. list_ex (\<lambda>y. take (length x) y = x) (hm_keys (sc_ids fsc))) (hm_keys (sc_ids esc))"
    using assms(2-6) by (simp add: republish_ok_def)
  ultimately show False by (fastforce simp: list_ex_iff)
qed

lemma republish_inner_scope_ok:
  assumes "rv_inv s" and "known s h" and "length u = 8" and "q \<noteq> []" and "republish_ok (q @ u) p s"
  shows "\<exists>r s'. republish_inner_scope h (q @ u) p strategy s = Some (r, s') \<and> adds SPub (p @ u) h s r s'"
proof (cases "hm_get (pubIndex s) (p @ u)")
  case (Some i)
  then show ?thesis using assms(1,3) by (simp add: republish_inner_scope_def)
next
  case None
  note np = None
  show ?thesis
  proof (cases "hm_get (scopeIndex s) p")
    case None
    then show ?thesis using np assms(1,3) by (simp add: republish_inner_scope_def)
  next
    case (Some f)
    note sf = Some
    obtain fsc where f: "rv_scopes s f = Some fsc" "p \<in> own s (Sc f)" using scope_live_of_index [OF assms(1) sf] by blast
    show ?thesis
    proof (cases "hm_get (scopeIndex s) (q @ u)")
      case None
      then show ?thesis using np sf assms(1,3) by (simp add: republish_inner_scope_def)
    next
      case (Some a)
      note sa = Some
      obtain esc where a: "rv_scopes s a = Some esc" "q @ u \<in> own s (Sc a)" using scope_live_of_index [OF assms(1) sa] by blast
      show ?thesis
      proof (cases "hm_get (scopeIndex s) (p @ u)")
        case (Some b)
        from existing_scope_publisher [OF assms(1,2) Some] obtain sc r s' where
          "rv_scopes s b = Some sc" "scope_publisher b (p @ u) h Some s = Some (r, s')" "adds SPub (p @ u) h s r s'" by blast
        then show ?thesis using np sf sa Some assms(1,3)
          by (cases "sc_strategy sc = strategy") (simp_all add: republish_inner_scope_def Let_def)
      next
        case None
        obtain U where U: "graph_ok U s" using rv_inv_parts(2) [OF assms(1)] by blast
        have nc: "(a, f) \<notin> (kid_rel s)\<^sup>*" by (rule republish_ok_acyclic [OF U assms(5) sa sf a(1) f(1) a(2)])
        then have ne: "a \<noteq> f" by auto
        define s1 where "s1 = put_scope f (fsc\<lparr>childrenScopes := hs_insert a (childrenScopes fsc)\<rparr>)
          (put_scope a (esc\<lparr>fatherScopes := hs_insert f (fatherScopes esc)\<rparr>) s)"
        have e: "edge_added f (Sc a) s s1"
          unfolding s1_def by (rule relink_scope [OF rv_heap_ok [OF assms(1)] a(1) f(1) ne])
        have "Sc a \<noteq> Sc f" using ne by simp
        note rc = relink_completed [OF assms(1) U e this f(2) a(2) assms(3,4) None np]
        have "acyclic (kid_rel s1)"
          using graph_ok_acyclic [OF U] nc by (simp add: edge_added_kids [OF e rv_heap_ok [OF assms(1)]])
        then have "\<not> cycle_below s1 a" by (auto simp: cycle_below_def acyclic_def)
        then obtain s2 where s2: "Scope_recursivelyUpdateIDs a (U (Sc a)) s1 = Some s2"
          using recursivelyUpdateIDs_None_iff [OF rc(1,3,4)] by auto
        from recursivelyUpdateIDs_partial [OF rc(1) s2 [unfolded Scope_recursivelyUpdateIDs_def]]
        have r: "pre_graph U s2" "grow s1 s2" "missing U s2 = {}" using rc(2) by auto
        note ec = edge_completed [OF U e r f(2)]
        have Ua: "U (Sc a) = u" by (rule owner_suffix(1) [OF U a(2) assms(3,4)])
        have "pair_at s2 = pair_at s" "pub_sub_Index s2 = pub_sub_Index s" "rv_gc s2 = rv_gc s" "rv_msgs s2 = rv_msgs s"
          using grow_view [OF r(2)] e by (simp_all add: edge_added_def)
        note ri = rv_inv_regraph [OF assms(1) ec(1) this]
        have "live s (Sc f)" using f(1) by (simp add: live_Sc)
        then have lv: "live s2 (Sc f)" "live s2 (Sc a)" using grow_view(1) [OF r(2)] e by (simp_all add: edge_added_def)
        have fid: "p @ u \<in> own s2 (Sc a)" using ec(2) Ua by simp
        from scope_publisher_ok [OF ri(1) _ fid safe_notify [OF lv]] assms(2) ri(3) obtain rr s' where
          s': "scope_publisher a (p @ u) h (notify_new_scope f a
              (hs_erase (substring 0 (int (length (q @ u)) - int PURSUIT_ID_LEN) (q @ u) @ u)) SCOPE_PUBLISHED) s2 = Some (rr, s')"
          "recorded SPub (p @ u) h s2 rr s'" by metis
        have "adds SPub (p @ u) h s rr s'"
          by (rule recorded_adds_new [OF s'(2) ri(2,3) not_in_book [OF inner_fresh [OF assms(1) None np]]])
        moreover have "put_scope f (fsc\<lparr>childrenScopes := hs_insert a (childrenScopes fsc)\<rparr>)
          (put_scope a (esc\<lparr>fatherScopes := hs_insert f (fatherScopes esc)\<rparr>) s) = s1" by (simp add: s1_def)
        ultimately show ?thesis using np sf sa None f(1) a(1) ne s2 s'(1) Ua assms(1,3)
          by (cases "sc_strategy fsc = strategy") (simp_all add: republish_inner_scope_def Let_def)
      qed
    qed
  qed
qed

lemma readvertise_info_ok:
  assumes "rv_inv s" and "known s h" and "length u = 8" and "q \<noteq> []"
  shows "\<exists>r s'. readvertise_info h (q @ u) p strategy s = Some (r, s') \<and> adds IPub (p @ u) h s r s'"
proof (cases "hm_get (scopeIndex s) (p @ u)")
  case (Some i)
  then show ?thesis using assms(1,3) by (simp add: readvertise_info_def)
next
  case None
  note np = None
  show ?thesis
  proof (cases "hm_get (scopeIndex s) p")
    case None
    then show ?thesis using np assms(1,3) by (simp add: readvertise_info_def)
  next
    case (Some f)
    note sf = Some
    obtain fsc where f: "rv_scopes s f = Some fsc" "p \<in> own s (Sc f)" using scope_live_of_index [OF assms(1) sf] by blast
    show ?thesis
    proof (cases "hm_get (pubIndex s) (q @ u)")
      case None
      then show ?thesis using np sf assms(1,3) by (simp add: readvertise_info_def)
    next
      case (Some i)
      note si = Some
      obtain it where i: "rv_items s i = Some it" "q @ u \<in> own s (It i)" using item_live_of_index [OF assms(1) si] by blast
      show ?thesis
      proof (cases "hm_get (pubIndex s) (p @ u)")
        case (Some b)
        from existing_item(1) [OF assms(1,2) Some] show ?thesis using np sf si f(1) Some assms(1,3)
          by (cases "sc_strategy fsc = strategy") (simp_all add: readvertise_info_def Let_def)
      next
        case None
        obtain U where U: "graph_ok U s" using rv_inv_parts(2) [OF assms(1)] by blast
        define s1 where "s1 = put_scope f (fsc\<lparr>informationitems := hs_insert i (informationitems fsc)\<rparr>)
          (put_item i (it\<lparr>it_fatherScopes := hs_insert f (it_fatherScopes it)\<rparr>) s)"
        have e: "edge_added f (It i) s s1"
          unfolding s1_def by (rule relink_item [OF rv_heap_ok [OF assms(1)] i(1) f(1)])
        have "It i \<noteq> Sc f" by simp
        note rc = relink_completed [OF assms(1) U e this f(2) i(2) assms(3,4) np None]
        have Ui: "U (It i) = u" by (rule owner_suffix(1) [OF U i(2) assms(3,4)])
        from refresh_obj [OF rc(1), of "It i"] obtain s2 where
          r0: "fold_opt (inherit (It i) u) (obj_fathers s1 (It i)) s1 = Some s2" "pre_graph U s2" "grow s1 s2"
          "missing U s2 \<subseteq> {(g, o2) \<in> missing U s1. o2 \<noteq> It i} \<union> {(b, o2). It i = Sc b \<and> b \<in> par s1 o2}"
          unfolding Ui by blast
        have m: "missing U s2 = {}" using r0(4) rc(2) by auto
        have s2: "InformationItem_updateIDs i u s1 = Some s2"
          using r0(1) by (simp add: InformationItem_updateIDs_def inherit_eqs s1_def)
        note ec = edge_completed [OF U e r0(2,3) m f(2)]
        have "pair_at s2 = pair_at s" "pub_sub_Index s2 = pub_sub_Index s" "rv_gc s2 = rv_gc s" "rv_msgs s2 = rv_msgs s"
          using grow_view [OF r0(3)] e by (simp_all add: edge_added_def)
        note ri = rv_inv_regraph [OF assms(1) ec(1) this]
        have lv: "live s2 (It i)" using grow_view(1) [OF r0(3)] rc(4) by simp
        have fid: "p @ u \<in> own s2 (It i)" using ec(2) Ui by simp
        from item_publisher_ok [OF ri(1) _ fid safe_rendezvous [OF lv]] assms(2) ri(3) obtain rr s' where
          s': "item_publisher i (p @ u) h (rendezvous_all i) s2 = Some (rr, s')" "recorded IPub (p @ u) h s2 rr s'" by metis
        have "adds IPub (p @ u) h s rr s'"
          by (rule recorded_adds_new [OF s'(2) ri(2,3) not_in_book [OF inner_fresh [OF assms(1) np None]]])
        moreover have "put_scope f (fsc\<lparr>informationitems := hs_insert i (informationitems fsc)\<rparr>)
          (put_item i (it\<lparr>it_fatherScopes := hs_insert f (it_fatherScopes it)\<rparr>) s) = s1" by (simp add: s1_def)
        ultimately show ?thesis using np sf si None f(1) i(1) s2 s'(1) assms(1,3)
          by (cases "sc_strategy fsc = strategy") (simp_all add: readvertise_info_def Let_def)
      qed
    qed
  qed
qed

text \<open>A scope republished at or below itself: the update of the identifiers never ends.\<close>

lemma republish_cycle_None:
  assumes "rv_inv s" and "length u = 8" and "q \<noteq> []" and "8 dvd length r"
    and "hm_get (scopeIndex s) (q @ u) = Some a" and "hm_get (scopeIndex s) ((q @ u) @ r) = Some f"
    and "hm_get (scopeIndex s) ((q @ u) @ r @ u) = None" and "hm_get (pubIndex s) ((q @ u) @ r @ u) = None"
    and "rv_scopes s f = Some fsc" and "sc_strategy fsc = strategy"
  shows "republish_inner_scope h (q @ u) ((q @ u) @ r) strategy s = None"
proof -
  obtain U where U: "graph_ok U s" using rv_inv_parts(2) [OF assms(1)] by blast
  obtain esc where a: "rv_scopes s a = Some esc" "q @ u \<in> own s (Sc a)" using scope_live_of_index [OF assms(1,5)] by blast
  have f: "(q @ u) @ r \<in> own s (Sc f)" using scope_live_of_index [OF assms(1,6)] by blast
  have reach: "(a, f) \<in> (kid_rel s)\<^sup>*" by (rule own_descend [OF U a(2) f assms(4)])
  define t where "t = put_scope a (esc\<lparr>fatherScopes := hs_insert f (fatherScopes esc)\<rparr>) s"
  obtain fsc2 where f2: "rv_scopes t f = Some fsc2" "childrenScopes fsc2 = childrenScopes fsc"
    using assms(9) a(1) by (cases "f = a") (auto simp: t_def)
  define s1 where "s1 = put_scope f (fsc2\<lparr>childrenScopes := hs_insert a (childrenScopes fsc2)\<rparr>) t"
  have "kid_rel s \<subseteq> kid_rel s1"
  proof (rule subrelI)
    fix b c assume "(b, c) \<in> kid_rel s"
    then show "(b, c) \<in> kid_rel s1"
      using assms(9) a(1) f2(2) by (auto simp: kid_rel_def s1_def t_def below_put) (auto simp: below_def)
  qed
  moreover have fa: "(f, a) \<in> kid_rel s1" by (simp add: kid_rel_def s1_def below_put)
  ultimately have "(a, f) \<in> (kid_rel s1)\<^sup>*" using reach rtrancl_mono by blast
  then have "(a, a) \<in> (kid_rel s1)\<^sup>+" using fa by (metis rtrancl_into_trancl1)
  then have "cycle_below s1 a" by (auto simp: cycle_below_def)
  from cycle_chain [OF this, of "rv_next s1"] chain_None have none: "Scope_recursivelyUpdateIDs a u s1 = None"
    by (auto simp: Scope_recursivelyUpdateIDs_def)
  have fs: "fsc2 = (if f = a then esc\<lparr>fatherScopes := hs_insert f (fatherScopes esc)\<rparr> else fsc)"
    using f2(1) assms(9) a(1) by (auto simp: t_def)
  show ?thesis
    using assms(2,5-10) a(1) none unfolding s1_def t_def fs
    by (cases "f = a") (simp_all add: republish_inner_scope_def Let_def)
qed

subsection \<open>Removing an object or a branch\<close>

definition childless :: "rv \<Rightarrow> obj \<Rightarrow> bool" where
  "childless s o' \<longleftrightarrow> (\<forall>a. o' = Sc a \<longrightarrow> below s a = {})"

text \<open>
  The identifiers \<open>gone\<close> of the object, all without hosts, leave the object and the indexes.
\<close>

definition ids_removed :: "obj \<Rightarrow> bstr set \<Rightarrow> rv \<Rightarrow> rv \<Rightarrow> bool" where
  "ids_removed o' gone s s1 \<longleftrightarrow> own s1 = (own s)(o' := own s o' - gone) \<and>
     (\<forall>x. hm_get (scopeIndex s1) x = (if x \<in> gone \<and> (\<exists>a. o' = Sc a) then None else hm_get (scopeIndex s) x)) \<and>
     (\<forall>x. hm_get (pubIndex s1) x = (if x \<in> gone \<and> (\<exists>a. o' = It a) then None else hm_get (pubIndex s) x)) \<and>
     pair_at s1 = pair_at s \<and> pub_sub_Index s1 = pub_sub_Index s \<and> rv_gc s1 = rv_gc s \<and> heap_ok s1"

lemma index_ok_removed:
  assumes "index_ok s" and "ids_removed o' gone s s1" and "gone \<subseteq> own s o'"
  shows "index_ok s1"
proof -
  have own: "own s1 = (own s)(o' := own s o' - gone)" using assms(2) by (simp add: ids_removed_def)
  have gone: "x \<in> own s o2 \<Longrightarrow> o2 = o'" if "x \<in> gone" for x o2
    using own_unique [OF assms(1), of x o2 o'] that assms(3) by blast
  have mem: "x \<in> own s1 o2 \<longleftrightarrow> x \<in> own s o2 \<and> x \<notin> gone" for x o2
    using gone [of x o2] by (cases "o2 = o'") (auto simp: own)
  have sc: "hm_get (scopeIndex s1) x = Some a \<longleftrightarrow> x \<in> own s1 (Sc a)" for x a
  proof -
    have "hm_get (scopeIndex s1) x = (if x \<in> gone \<and> (\<exists>a. o' = Sc a) then None else hm_get (scopeIndex s) x)"
      using assms(2) unfolding ids_removed_def by blast
    then show ?thesis using index_Sc [OF assms(1), of x a] gone [of x "Sc a"] mem by auto
  qed
  have it: "hm_get (pubIndex s1) x = Some a \<longleftrightarrow> x \<in> own s1 (It a)" for x a
  proof -
    have "hm_get (pubIndex s1) x = (if x \<in> gone \<and> (\<exists>a. o' = It a) then None else hm_get (pubIndex s) x)"
      using assms(2) unfolding ids_removed_def by blast
    then show ?thesis using index_It [OF assms(1), of x a] gone [of x "It a"] mem by auto
  qed
  have "own s1 (Sc a) \<inter> own s1 (It b) = {}" for a b
    using own_unique [OF assms(1), of _ "Sc a" "It b"] mem by blast
  then show ?thesis using sc it by (simp add: index_ok_def)
qed

lemma childless_father:
  assumes "heap_ok s" and "childless s o'" and "f \<in> par s o2"
  shows "Sc f \<noteq> o'"
  using assms by (auto simp: childless_def heap_ok_facts(2) [OF assms(1), symmetric])

lemma object_removed:
  assumes "graph_ok U s" and "childless s o'" and "ids_removed o' (own s o') s s1"
    and "par s1 = (par s)(o' := {})" and "\<forall>o2. live s1 o2 \<longleftrightarrow> live s o2 \<and> o2 \<noteq> o'"
  shows "graph_ok U s1"
proof -
  have g: "heap_ok s" "index_ok s" "sfx_ok U s" "back_ok s" "sib_ok U s" "no_self s" "missing U s = {}"
    "\<forall>o'. live s o' \<longrightarrow> own s o' \<noteq> {}"
    using assms(1) by (simp_all add: graph_ok_def pre_graph_def)
  have own: "own s1 = (own s)(o' := {})" and h1: "heap_ok s1" using assms(3) by (simp_all add: ids_removed_def)
  note cf = childless_father [OF g(1) assms(2)]
  have "index_ok s1" by (rule index_ok_removed [OF g(2) assms(3)]) simp
  moreover have "sfx_ok U s1" using g(3) by (auto simp: sfx_ok_def own)
  moreover have "back_ok s1"
    unfolding back_ok_def
  proof (intro allI impI)
    fix o2 q v assume v: "length v = (8::nat)" and y: "q @ v \<in> own s1 o2"
    then have ne: "o2 \<noteq> o'" "q @ v \<in> own s o2" by (auto simp: own split: if_splits)
    then have old: "if q = [] then par s o2 = {} \<and> (\<exists>a. o2 = Sc a) else \<exists>f \<in> par s o2. q \<in> own s (Sc f)"
      using g(4) v unfolding back_ok_def by blast
    then show "if q = [] then par s1 o2 = {} \<and> (\<exists>a. o2 = Sc a) else \<exists>f \<in> par s1 o2. q \<in> own s1 (Sc f)"
      using ne(1) cf by (auto simp: own assms(4))
  qed
  moreover have "sib_ok U s1" using g(5) unfolding sib_ok_def assms(4) by (metis empty_iff fun_upd_apply)
  moreover have "no_self s1" using g(6) by (auto simp: no_self_def assms(4))
  moreover have "missing U s1 = {}"
  proof -
    have "p @ U o2 \<in> own s1 o2" if "f \<in> par s1 o2" "p \<in> own s1 (Sc f)" for f p o2
    proof -
      have a: "o2 \<noteq> o'" "f \<in> par s o2" using that(1) by (auto simp: assms(4) split: if_splits)
      moreover have "p \<in> own s (Sc f)" using that(2) by (auto simp: own split: if_splits)
      ultimately show ?thesis using handed_down [OF assms(1)] by (simp add: own)
    qed
    then show ?thesis by (auto simp: missing_def)
  qed
  moreover have "own s1 o2 \<noteq> {}" if "live s1 o2" for o2 using that g(8) assms(5) by (simp add: own)
  ultimately show ?thesis using h1 by (simp add: graph_ok_def pre_graph_def)
qed

lemma branch_removed:
  assumes "graph_ok U s" and "childless s o'" and "f \<in> par s o'" and "g \<in> par s o'" and "g \<noteq> f"
    and "ids_removed o' ((\<lambda>p. p @ U o') ` own s (Sc f)) s s1"
    and "par s1 = (par s)(o' := par s o' - {f})" and "\<forall>o2. live s1 o2 \<longleftrightarrow> live s o2"
  shows "graph_ok U s1"
proof -
  let ?gone = "(\<lambda>p. p @ U o') ` own s (Sc f)"
  have gr: "heap_ok s" "index_ok s" "sfx_ok U s" "back_ok s" "sib_ok U s" "no_self s" "missing U s = {}"
    "\<forall>o'. live s o' \<longrightarrow> own s o' \<noteq> {}"
    using assms(1) by (simp_all add: graph_ok_def pre_graph_def)
  have own: "own s1 = (own s)(o' := own s o' - ?gone)" and h1: "heap_ok s1" using assms(6) by (simp_all add: ids_removed_def)
  note cf = childless_father [OF gr(1) assms(2)]
  have u8: "length (U o2) = 8" for o2 by (rule sfx_okL [OF gr(3)])
  have sub: "?gone \<subseteq> own s o'" using handed_down [OF assms(1,3)] by auto
  have keep: "p @ U o' \<notin> ?gone" if "p \<in> own s (Sc k)" "k \<noteq> f" for p k
  proof
    assume "p @ U o' \<in> ?gone"
    then have "p \<in> own s (Sc f)" by auto
    then have "Sc k = Sc f" using own_unique [OF gr(2) that(1)] by blast
    then show False using that(2) by simp
  qed
  have "index_ok s1" by (rule index_ok_removed [OF gr(2) assms(6) sub])
  moreover have "sfx_ok U s1" using gr(3) by (auto simp: sfx_ok_def own)
  moreover have "back_ok s1"
    unfolding back_ok_def
  proof (intro allI impI)
    fix o2 q v assume v: "length v = (8::nat)" and y: "q @ v \<in> own s1 o2"
    then have ne: "q @ v \<in> own s o2" by (auto simp: own split: if_splits)
    then have old: "if q = [] then par s o2 = {} \<and> (\<exists>a. o2 = Sc a) else \<exists>f \<in> par s o2. q \<in> own s (Sc f)"
      using gr(4) v unfolding back_ok_def by blast
    show "if q = [] then par s1 o2 = {} \<and> (\<exists>a. o2 = Sc a) else \<exists>f \<in> par s1 o2. q \<in> own s1 (Sc f)"
    proof (cases "o2 = o'")
      case False
      then show ?thesis using old cf by (auto simp: own assms(7))
    next
      case True
      then have q: "q \<noteq> []" using old assms(3) by auto
      then obtain k where k: "k \<in> par s o'" "q \<in> own s (Sc k)" using old True by auto
      obtain r where "q @ v = r @ U o'" using sfx_okD [OF gr(3) ne] True by blast
      then have "v = U o'" using v u8 by (simp add: snoc8_eq)
      then have "k \<noteq> f" using k(2) y True by (auto simp: own)
      moreover have "Sc k \<noteq> o'" using cf [OF k(1)] .
      ultimately show ?thesis using q k True by (auto simp: own assms(7))
    qed
  qed
  moreover have "sib_ok U s1"
  proof -
    have sub: "k \<in> par s o2" if "k \<in> par s1 o2" for k o2 using that by (auto simp: assms(7) split: if_splits)
    show ?thesis using gr(5) sub unfolding sib_ok_def by blast
  qed
  moreover have "no_self s1" using gr(6) by (auto simp: no_self_def assms(7))
  moreover have "missing U s1 = {}"
  proof -
    have "p @ U o2 \<in> own s1 o2" if "k \<in> par s1 o2" "p \<in> own s1 (Sc k)" for k p o2
    proof -
      have a: "k \<in> par s o2" "o2 = o' \<longrightarrow> k \<noteq> f" using that(1) by (auto simp: assms(7) split: if_splits)
      have p: "p \<in> own s (Sc k)" using that(2) by (auto simp: own split: if_splits)
      from handed_down [OF assms(1) a(1) p] have "p @ U o2 \<in> own s o2" .
      then show ?thesis using keep [OF p] a(2) by (auto simp: own)
    qed
    then show ?thesis by (auto simp: missing_def)
  qed
  moreover have "own s1 o2 \<noteq> {}" if "live s1 o2" for o2
  proof (cases "o2 = o'")
    case False
    then show ?thesis using that gr(8) assms(8) by (simp add: own)
  next
    case True
    have "live s (Sc g)" by (rule father_live [OF gr(1) assms(4)])
    then obtain p where p: "p \<in> own s (Sc g)" using gr(8) by blast
    from handed_down [OF assms(1,4) p] keep [OF p assms(5)] show ?thesis by (auto simp: own True)
  qed
  ultimately show ?thesis using h1 by (simp add: graph_ok_def pre_graph_def)
qed

subsection \<open>Nobody left\<close>

lemma any_pair_used_ok:
  assumes "\<forall>x \<in> set xs. hm_get ids x \<noteq> None"
  shows "any_pair_used ids xs = Some (\<exists>x \<in> set xs. pair_used (the (hm_get ids x)))"
  using assms by (induction xs) auto

lemma pair_unused: "\<not> pair_used pr \<longleftrightarrow> pr = ([], [])"
  by (cases pr) (auto simp: pair_used_def)

lemma own_of_fathers:
  assumes "graph_ok U s" and "par s o' \<noteq> {}"
  shows "own s o' = (\<Union>f \<in> par s o'. (\<lambda>p. p @ U o') ` own s (Sc f))"
proof
  have p: "sfx_ok U s" "back_ok s" using assms(1) by (simp_all add: graph_ok_def pre_graph_def)
  show "own s o' \<subseteq> (\<Union>f \<in> par s o'. (\<lambda>p. p @ U o') ` own s (Sc f))"
  proof
    fix x assume x: "x \<in> own s o'"
    obtain q where q: "x = q @ U o'" using sfx_okD [OF p(1) x] by blast
    have "if q = [] then par s o' = {} \<and> (\<exists>a. o' = Sc a) else \<exists>f \<in> par s o'. q \<in> own s (Sc f)"
      using p(2) x sfx_okL [OF p(1)] unfolding q back_ok_def by blast
    then show "x \<in> (\<Union>f \<in> par s o'. (\<lambda>p. p @ U o') ` own s (Sc f))" using assms(2) q by (auto split: if_splits)
  qed
qed (use handed_down [OF assms(1)] in auto)

lemma Scope_check_ok:
  assumes "graph_ok U s" and "f \<in> par s (Sc a)"
  shows "\<exists>b. Scope_checkForOtherPubSub a (Some f) s = Some b \<and>
    (\<not> b \<longrightarrow> (\<forall>x \<in> (\<lambda>p. p @ U (Sc a)) ` own s (Sc f). pair_at s (Sc a) x = ([], [])))"
proof -
  obtain sc where sc: "rv_scopes s a = Some sc" using par_live [OF assms(2)] by (auto simp: live_Sc)
  have g: "heap_ok s" "sfx_ok U s" "\<forall>o'. live s o' \<longrightarrow> own s o' \<noteq> {}"
    using assms(1) by (simp_all add: graph_ok_def pre_graph_def)
  obtain fsc where f: "rv_scopes s f = Some fsc" using father_live [OF g(1) assms(2)] by (auto simp: live_Sc)
  have "own s (Sc a) \<noteq> {}" using g(3) par_live [OF assms(2)] by blast
  then have fs: "first_suffix (sc_ids sc) = Some (U (Sc a))" using first_suffix_ex [OF g(2), of "Sc a" "sc_ids sc"] sc by simp
  let ?xs = "map (\<lambda>x. x @ U (Sc a)) (hm_keys (sc_ids fsc))"
  have xs: "set ?xs = (\<lambda>p. p @ U (Sc a)) ` own s (Sc f)" using f by (auto simp: own_Sc)
  have get: "\<forall>x \<in> set ?xs. hm_get (sc_ids sc) x = Some (pair_at s (Sc a) x)"
    unfolding xs using handed_down [OF assms] own_pair_Sc [OF sc] by blast
  then have "any_pair_used (sc_ids sc) ?xs = Some (\<exists>x \<in> set ?xs. pair_used (pair_at s (Sc a) x))"
    using any_pair_used_ok [of ?xs "sc_ids sc"] by (simp del: set_map)
  then have "Scope_checkForOtherPubSub a (Some f) s = Some (\<exists>x \<in> set ?xs. pair_used (pair_at s (Sc a) x))"
    using sc f fs by (simp add: Scope_checkForOtherPubSub_def del: set_map)
  then show ?thesis using xs pair_unused by (simp del: set_map)
qed

lemma Item_check_ok:
  assumes "graph_ok U s" and "f \<in> par s (It a)"
  shows "\<exists>b. InformationItem_checkForOtherPubSub a f s = Some b \<and>
    (\<not> b \<longrightarrow> (\<forall>x \<in> (\<lambda>p. p @ U (It a)) ` own s (Sc f). pair_at s (It a) x = ([], [])))"
proof -
  obtain it where it: "rv_items s a = Some it" using par_live [OF assms(2)] by (auto simp: live_It)
  have g: "heap_ok s" "sfx_ok U s" "\<forall>o'. live s o' \<longrightarrow> own s o' \<noteq> {}"
    using assms(1) by (simp_all add: graph_ok_def pre_graph_def)
  obtain fsc where f: "rv_scopes s f = Some fsc" using father_live [OF g(1) assms(2)] by (auto simp: live_Sc)
  have "own s (It a) \<noteq> {}" using g(3) par_live [OF assms(2)] by blast
  then have fs: "first_suffix (it_ids it) = Some (U (It a))" using first_suffix_ex [OF g(2), of "It a" "it_ids it"] it by simp
  let ?xs = "map (\<lambda>x. x @ U (It a)) (hm_keys (sc_ids fsc))"
  have xs: "set ?xs = (\<lambda>p. p @ U (It a)) ` own s (Sc f)" using f by (auto simp: own_Sc)
  have get: "\<forall>x \<in> set ?xs. hm_get (it_ids it) x = Some (pair_at s (It a) x)"
    unfolding xs using handed_down [OF assms] own_pair_It [OF it] by blast
  then have "any_pair_used (it_ids it) ?xs = Some (\<exists>x \<in> set ?xs. pair_used (pair_at s (It a) x))"
    using any_pair_used_ok [of ?xs "it_ids it"] by (simp del: set_map)
  then have "InformationItem_checkForOtherPubSub a f s = Some (\<exists>x \<in> set ?xs. pair_used (pair_at s (It a) x))"
    using it f fs by (simp add: InformationItem_checkForOtherPubSub_def del: set_map)
  then show ?thesis using xs pair_unused by (simp del: set_map)
qed

lemma Scope_check_root:
  assumes "rv_scopes s a = Some sc"
  shows "\<exists>b. Scope_checkForOtherPubSub a None s = Some b \<and> (\<not> b \<longrightarrow> (\<forall>x. pair_at s (Sc a) x = ([], [])))"
proof -
  have get: "\<forall>x \<in> set (hm_keys (sc_ids sc)). hm_get (sc_ids sc) x = Some (pair_at s (Sc a) x)"
    using own_pair_Sc [OF assms] by (simp add: own_Sc [OF assms])
  then have "any_pair_used (sc_ids sc) (hm_keys (sc_ids sc)) =
      Some (\<exists>x \<in> set (hm_keys (sc_ids sc)). pair_used (pair_at s (Sc a) x))"
    using any_pair_used_ok [of "hm_keys (sc_ids sc)" "sc_ids sc"] by (simp del: set_map)
  moreover have "x \<notin> set (hm_keys (sc_ids sc)) \<Longrightarrow> pair_at s (Sc a) x = ([], [])" for x
    using pair_not_own [of x s "Sc a"] by (simp add: own_Sc [OF assms])
  moreover have "Scope_checkForOtherPubSub a None s = any_pair_used (sc_ids sc) (hm_keys (sc_ids sc))"
    using assms by (simp add: Scope_checkForOtherPubSub_def)
  ultimately have eq: "Scope_checkForOtherPubSub a None s =
      Some (\<exists>x \<in> set (hm_keys (sc_ids sc)). pair_used (pair_at s (Sc a) x))"
    and out: "\<And>x. x \<notin> set (hm_keys (sc_ids sc)) \<Longrightarrow> pair_at s (Sc a) x = ([], [])" by simp_all
  have "pair_at s (Sc a) x = ([], [])"
    if "\<not> (\<exists>x \<in> set (hm_keys (sc_ids sc)). pair_used (pair_at s (Sc a) x))" for x
    using that out [of x] pair_unused [of "pair_at s (Sc a) x"] by blast
  with eq show ?thesis by blast
qed

subsection \<open>The removals of the code\<close>

lemma hm_get_fold_erase: "hm_get (fold hm_erase xs m) x = (if x \<in> set xs then None else hm_get m x)"
  by (induction xs arbitrary: m) auto

lemma hm_wf_fold_erase: "hm_wf m \<Longrightarrow> hm_wf (fold hm_erase xs m)"
  by (induction xs arbitrary: m) auto

lemma keys_fold_erase: "fst ` set (fold hm_erase xs m) = fst ` set m - set xs"
proof (induction xs arbitrary: m)
  case (Cons x xs)
  then show ?case using keys_hm_erase [of x m] by auto
qed simp

lemma fold_pubIndex_erase: "fold pubIndex_erase xs s = s\<lparr>pubIndex := fold hm_erase xs (pubIndex s)\<rparr>"
  by (induction xs arbitrary: s) (simp_all add: pubIndex_erase_def)

lemma fold_scopeIndex_erase: "fold scopeIndex_erase xs s = s\<lparr>scopeIndex := fold hm_erase xs (scopeIndex s)\<rparr>"
  by (induction xs arbitrary: s) (simp_all add: scopeIndex_erase_def)

lemma view_indexes:
  "obj_ids (s\<lparr>pubIndex := m\<rparr>) = obj_ids s" "obj_fathers (s\<lparr>pubIndex := m\<rparr>) = obj_fathers s"
  "own (s\<lparr>pubIndex := m\<rparr>) = own s" "par (s\<lparr>pubIndex := m\<rparr>) = par s" "below (s\<lparr>pubIndex := m\<rparr>) = below s"
  "pair_at (s\<lparr>pubIndex := m\<rparr>) = pair_at s" "live (s\<lparr>pubIndex := m\<rparr>) = live s"
  "obj_ids (s\<lparr>scopeIndex := m\<rparr>) = obj_ids s" "obj_fathers (s\<lparr>scopeIndex := m\<rparr>) = obj_fathers s"
  "own (s\<lparr>scopeIndex := m\<rparr>) = own s" "par (s\<lparr>scopeIndex := m\<rparr>) = par s" "below (s\<lparr>scopeIndex := m\<rparr>) = below s"
  "pair_at (s\<lparr>scopeIndex := m\<rparr>) = pair_at s" "live (s\<lparr>scopeIndex := m\<rparr>) = live s"
  by (rule view_cong; simp)+

lemma obj_ids_delete:
  "obj_ids (delete_scope a s) o' = (if o' = Sc a then None else obj_ids s o')"
  "obj_ids (delete_item a s) o' = (if o' = It a then None else obj_ids s o')"
  by (cases o'; simp)+

lemma view_delete:
  "own (delete_scope a s) o' = (if o' = Sc a then {} else own s o')"
  "own (delete_item a s) o' = (if o' = It a then {} else own s o')"
  "live (delete_scope a s) o' \<longleftrightarrow> o' \<noteq> Sc a \<and> live s o'"
  "live (delete_item a s) o' \<longleftrightarrow> o' \<noteq> It a \<and> live s o'"
  "pair_at (delete_scope a s) o' x = (if o' = Sc a then ([], []) else pair_at s o' x)"
  "pair_at (delete_item a s) o' x = (if o' = It a then ([], []) else pair_at s o' x)"
  by (simp_all add: own_def live_def pair_at_def obj_ids_delete)

lemma fathers_delete:
  "obj_fathers (delete_scope a s) o' = (if o' = Sc a then [] else obj_fathers s o')"
  "obj_fathers (delete_item a s) o' = (if o' = It a then [] else obj_fathers s o')"
  by (cases o'; simp)+

lemma links_delete:
  "par (delete_scope a s) o' = (if o' = Sc a then {} else par s o')"
  "par (delete_item a s) o' = (if o' = It a then {} else par s o')"
  "below (delete_scope a s) b = (if b = a then {} else below s b)"
  "below (delete_item a s) b = below s b"
  by (simp_all add: par_def fathers_delete below_def)

lemma heap_ok_shrink:
  assumes "heap_ok s" and "\<forall>o2. live s1 o2 \<longrightarrow> live s o2" and "rv_next s1 = rv_next s"
    and "\<forall>a o2. o2 \<in> below s1 a \<longleftrightarrow> a \<in> par s1 o2" and "ids_wf s1" and "hm_wf (scopeIndex s1)" and "hm_wf (pubIndex s1)"
    and "\<forall>o2. distinct (obj_fathers s1 o2)"
    and "\<forall>a sc. rv_scopes s1 a = Some sc \<longrightarrow> distinct (childrenScopes sc) \<and> distinct (informationitems sc)"
  shows "heap_ok s1"
  using assms unfolding heap_ok_def ids_wf_def by metis

lemma ids_wf_delete: "ids_wf s \<Longrightarrow> ids_wf (delete_scope a s)" "ids_wf s \<Longrightarrow> ids_wf (delete_item a s)"
  unfolding ids_wf_def obj_ids_delete by (auto split: if_splits)

lemma ids_wf_index: "ids_wf (s\<lparr>pubIndex := m\<rparr>) = ids_wf s" "ids_wf (s\<lparr>scopeIndex := m\<rparr>) = ids_wf s"
  by (simp_all add: ids_wf_def view_indexes)

lemma delete_item_everywhere_ok:
  assumes "rv_inv s" and "par s (It i) = {f}" and "\<forall>x. pair_at s (It i) x = ([], [])"
  shows "\<exists>s'. delete_item_everywhere f i s = Some s' \<and> rv_inv s' \<and> graph_book s' = graph_book s \<and> known s' = known s \<and>
    own s' = (own s)(It i := {}) \<and> par s' = (par s)(It i := {})"
proof -
  obtain U where U: "graph_ok U s" using rv_inv_parts(2) [OF assms(1)] by blast
  note hk = rv_heap_ok [OF assms(1)]
  note h = heap_ok_facts [OF hk]
  have "live s (It i)" using par_live [of f s "It i"] assms(2) by simp
  then obtain it where it: "rv_items s i = Some it" by (auto simp: live_It)
  obtain fsc where f: "rv_scopes s f = Some fsc" using father_live [OF hk, of f "It i"] assms(2) by (auto simp: live_Sc)
  define s1 where "s1 = put_scope f (fsc\<lparr>informationitems := hs_erase i (informationitems fsc)\<rparr>) s"
  define s' where "s' = delete_item i (s1\<lparr>pubIndex := fold hm_erase (hm_keys (it_ids it)) (pubIndex s)\<rparr>)"
  have eq: "delete_item_everywhere f i s = Some s'"
    using it f by (simp add: delete_item_everywhere_def fold_pubIndex_erase s'_def s1_def Let_def)
  have parf: "par s (Sc f) = set (fatherScopes fsc)" "own s (Sc f) = fst ` set (sc_ids fsc)"
    using f by (simp_all add: par_def own_Sc)
  have own: "own s' = (own s)(It i := {})"
    using parf by (auto simp: fun_eq_iff s'_def s1_def view_delete view_indexes own_put)
  have par: "par s' = (par s)(It i := {})"
    using parf by (auto simp: fun_eq_iff s'_def s1_def links_delete view_indexes par_put)
  have pairs: "pair_at s' = pair_at s"
    using f assms(3) by (auto simp: fun_eq_iff s'_def s1_def view_delete view_indexes pair_put pair_Sc)
  have live: "live s' o2 \<longleftrightarrow> live s o2 \<and> o2 \<noteq> It i" for o2
    using f by (auto simp: s'_def s1_def view_delete view_indexes live_put live_Sc)
  have below: "o2 \<in> below s' a \<longleftrightarrow> a \<in> par s' o2" for a o2
  proof -
    have bf: "below s f = Sc ` set (childrenScopes fsc) \<union> It ` set (informationitems fsc)" using f by (simp add: below_def)
    have "below s' a = below s a - {It i}"
    proof (cases "a = f")
      case True
      then show ?thesis by (auto simp: bf s'_def s1_def links_delete view_indexes below_put)
    next
      case False
      then have "It i \<notin> below s a" using assms(2) h(2) by simp
      then show ?thesis using False by (simp add: s'_def s1_def links_delete view_indexes below_put)
    qed
    then show ?thesis using h(2) by (auto simp: par)
  qed
  have "heap_ok s'"
  proof (rule heap_ok_shrink [OF hk])
    show "ids_wf s'" unfolding s'_def s1_def using h(3) ids_wfD(1) [OF h(3) f]
      by (intro ids_wf_delete) (simp add: ids_wf_index ids_wf_put)
    show "hm_wf (scopeIndex s')" "hm_wf (pubIndex s')" using h(4,5) by (simp_all add: s'_def s1_def hm_wf_fold_erase)
    show "\<forall>o2. distinct (obj_fathers s' o2)"
      using h(6) [of "Sc f"] h(6) f by (simp add: s'_def s1_def fathers_delete view_indexes obj_fathers_put)
    show "\<forall>a sc. rv_scopes s' a = Some sc \<longrightarrow> distinct (childrenScopes sc) \<and> distinct (informationitems sc)"
      using h(7) f by (auto simp: s'_def s1_def)
  qed (use live below in \<open>auto simp: s'_def s1_def\<close>)
  then have "ids_removed (It i) (own s (It i)) s s'"
    using own pairs it by (simp add: ids_removed_def s'_def s1_def hm_get_fold_erase own_It)
  from object_removed [OF U _ this par] live have "graph_ok U s'" by (simp add: childless_def)
  moreover have "pub_sub_Index s' = pub_sub_Index s" "rv_gc s' = rv_gc s" "rv_msgs s' = rv_msgs s" by (simp_all add: s'_def s1_def)
  ultimately show ?thesis using rv_inv_regraph [OF assms(1) _ pairs] eq own par by blast
qed

lemma fold_item_del:
  assumes "rv_items s i = Some it"
  shows "fold_opt (\<lambda>x. item_del_id i (x @ u)) xs s =
    Some (put_item i (it\<lparr>it_ids := fold hm_erase (map (\<lambda>x. x @ u) xs) (it_ids it)\<rparr>)
      (s\<lparr>pubIndex := fold hm_erase (map (\<lambda>x. x @ u) xs) (pubIndex s)\<rparr>))"
  using assms
proof (induction xs arbitrary: s it)
  case Nil
  then show ?case by (simp add: put_item_def fun_upd_idem)
next
  case (Cons x xs)
  define s1 where "s1 = pubIndex_erase (x @ u) (put_item i (it\<lparr>it_ids := hm_erase (x @ u) (it_ids it)\<rparr>) s)"
  have s1: "item_del_id i (x @ u) s = Some s1" using Cons.prems by (simp add: item_del_id_def s1_def)
  have "rv_items s1 i = Some (it\<lparr>it_ids := hm_erase (x @ u) (it_ids it)\<rparr>)" by (simp add: s1_def)
  from Cons.IH [OF this] s1 show ?case by (simp add: s1_def put_item_def pubIndex_erase_def)
qed

lemma fold_scope_del:
  assumes "rv_scopes s a = Some sc"
  shows "fold_opt (\<lambda>x. scope_del_id a (x @ u)) xs s =
    Some (put_scope a (sc\<lparr>sc_ids := fold hm_erase (map (\<lambda>x. x @ u) xs) (sc_ids sc)\<rparr>)
      (s\<lparr>scopeIndex := fold hm_erase (map (\<lambda>x. x @ u) xs) (scopeIndex s)\<rparr>))"
  using assms
proof (induction xs arbitrary: s sc)
  case Nil
  then show ?case by (simp add: put_scope_def fun_upd_idem)
next
  case (Cons x xs)
  define s1 where "s1 = scopeIndex_erase (x @ u) (put_scope a (sc\<lparr>sc_ids := hm_erase (x @ u) (sc_ids sc)\<rparr>) s)"
  have s1: "scope_del_id a (x @ u) s = Some s1" using Cons.prems by (simp add: scope_del_id_def s1_def)
  have "rv_scopes s1 a = Some (sc\<lparr>sc_ids := hm_erase (x @ u) (sc_ids sc)\<rparr>)" by (simp add: s1_def)
  from Cons.IH [OF this] s1 show ?case by (simp add: s1_def put_scope_def scopeIndex_erase_def)
qed

lemma delete_item_branch_ok:
  assumes "rv_inv s" and "graph_ok U s" and "f \<in> par s (It i)" and "g \<in> par s (It i)" and "g \<noteq> f"
    and "\<forall>x \<in> (\<lambda>p. p @ U (It i)) ` own s (Sc f). pair_at s (It i) x = ([], [])"
  shows "\<exists>s'. delete_item_branch f i s = Some s' \<and> rv_inv s' \<and> graph_book s' = graph_book s \<and> known s' = known s \<and>
    own s' = (own s)(It i := own s (It i) - (\<lambda>p. p @ U (It i)) ` own s (Sc f)) \<and>
    par s' = (par s)(It i := par s (It i) - {f}) \<and> live s' (It i)"
proof -
  let ?u = "U (It i)"
  let ?gone = "(\<lambda>p. p @ ?u) ` own s (Sc f)"
  note hk = rv_heap_ok [OF assms(1)]
  note h = heap_ok_facts [OF hk]
  have gr: "sfx_ok U s" "\<forall>o'. live s o' \<longrightarrow> own s o' \<noteq> {}" using assms(2) by (simp_all add: graph_ok_def pre_graph_def)
  obtain it where it: "rv_items s i = Some it" using par_live [OF assms(3)] by (auto simp: live_It)
  obtain fsc where f: "rv_scopes s f = Some fsc" using father_live [OF hk assms(3)] by (auto simp: live_Sc)
  have "own s (It i) \<noteq> {}" using gr(2) par_live [OF assms(3)] by blast
  then have fs: "first_suffix (it_ids it) = Some ?u" using first_suffix_ex [OF gr(1), of "It i" "it_ids it"] it by simp
  let ?xs = "map (\<lambda>x. x @ ?u) (hm_keys (sc_ids fsc))"
  have xs: "set ?xs = ?gone" using f by (auto simp: own_Sc)
  define it1 where "it1 = it\<lparr>it_fatherScopes := hs_erase f (it_fatherScopes it)\<rparr>"
  define s1 where "s1 = put_item i it1 (put_scope f (fsc\<lparr>informationitems := hs_erase i (informationitems fsc)\<rparr>) s)"
  define s' where "s' = put_item i (it1\<lparr>it_ids := fold hm_erase ?xs (it_ids it)\<rparr>) (s1\<lparr>pubIndex := fold hm_erase ?xs (pubIndex s)\<rparr>)"
  have "rv_items s1 i = Some it1" by (simp add: s1_def)
  from fold_item_del [OF this, of ?u "hm_keys (sc_ids fsc)"]
  have eq: "delete_item_branch f i s = Some s'"
    using it f fs by (simp add: delete_item_branch_def s'_def s1_def it1_def Let_def)
  have parf: "par s (Sc f) = set (fatherScopes fsc)" "own s (Sc f) = fst ` set (sc_ids fsc)"
    "par s (It i) = set (it_fatherScopes it)" "own s (It i) = fst ` set (it_ids it)"
    using f it by (simp_all add: par_def own_Sc own_It)
  have own: "own s' = (own s)(It i := own s (It i) - ?gone)"
    unfolding xs [symmetric] using parf
    by (auto simp: fun_eq_iff s'_def s1_def it1_def view_indexes own_put keys_fold_erase simp del: set_map)
  have par: "par s' = (par s)(It i := par s (It i) - {f})"
    using parf by (auto simp: fun_eq_iff s'_def s1_def it1_def view_indexes par_put)
  have pairs: "pair_at s' = pair_at s"
  proof (intro ext)
    fix o2 x show "pair_at s' o2 x = pair_at s o2 x"
    proof (cases "o2 = It i")
      case True
      have "pair_at s' (It i) x = (if x \<in> ?gone then ([], []) else pair_at s (It i) x)"
        unfolding xs [symmetric] using it by (simp add: s'_def pair_put hm_get_fold_erase pair_It del: set_map)
      moreover have "x \<in> ?gone \<Longrightarrow> pair_at s (It i) x = ([], [])" by (rule bspec [OF assms(6)])
      ultimately show ?thesis using True by presburger
    next
      case False
      then show ?thesis using f by (auto simp: s'_def s1_def view_indexes pair_put pair_Sc)
    qed
  qed
  have live: "live s' o2 \<longleftrightarrow> live s o2" for o2
    using f it by (auto simp: s'_def s1_def view_indexes live_put live_Sc live_It)
  have below: "o2 \<in> below s' a \<longleftrightarrow> a \<in> par s' o2" for a o2
  proof -
    have "below s' = (below s)(f := below s f - {It i})"
      using f by (auto simp: fun_eq_iff s'_def s1_def view_indexes below_put) (auto simp: below_def)
    then show ?thesis using h(2) by (auto simp: par)
  qed
  have "heap_ok s'"
  proof (rule heap_ok_shrink [OF hk])
    show "ids_wf s'" unfolding s'_def s1_def it1_def using h(3) ids_wfD [OF h(3)] f it
      by (intro ids_wf_put) (simp_all add: ids_wf_index ids_wf_put hm_wf_fold_erase)
    show "hm_wf (scopeIndex s')" "hm_wf (pubIndex s')" using h(4,5) by (simp_all add: s'_def s1_def hm_wf_fold_erase)
    show "\<forall>o2. distinct (obj_fathers s' o2)"
      using h(6) [of "Sc f"] h(6) [of "It i"] h(6) f it by (simp add: s'_def s1_def it1_def view_indexes obj_fathers_put)
    show "\<forall>a sc. rv_scopes s' a = Some sc \<longrightarrow> distinct (childrenScopes sc) \<and> distinct (informationitems sc)"
      using h(7) f by (auto simp: s'_def s1_def)
  qed (use live below in \<open>auto simp: s'_def s1_def\<close>)
  then have "ids_removed (It i) ?gone s s'"
    using own pairs unfolding ids_removed_def xs [symmetric]
    by (simp add: s'_def s1_def hm_get_fold_erase del: set_map)
  from branch_removed [OF assms(2) _ assms(3-5) this par] live have "graph_ok U s'" by (simp add: childless_def)
  moreover have "pub_sub_Index s' = pub_sub_Index s" "rv_gc s' = rv_gc s" "rv_msgs s' = rv_msgs s" by (simp_all add: s'_def s1_def)
  ultimately show ?thesis
    using rv_inv_regraph [OF assms(1) _ pairs] eq own par live par_live [OF assms(3)] by blast
qed

lemma below_scope: "rv_scopes s f = Some fsc \<Longrightarrow>
  below s f = Sc ` set (childrenScopes fsc) \<union> It ` set (informationitems fsc)"
  by (simp add: below_def)

lemma unlink_delete_scope_ok:
  assumes "rv_inv s" and "par s (Sc a) = {f}" and "below s a = {}" and "\<forall>x. pair_at s (Sc a) x = ([], [])"
  shows "\<exists>s'. do { s \<leftarrow> unlink_child f a s; delete_scope_everywhere a s } = Some s' \<and> rv_inv s' \<and>
    graph_book s' = graph_book s \<and> known s' = known s \<and> own s' = (own s)(Sc a := {})"
proof -
  obtain U where U: "graph_ok U s" using rv_inv_parts(2) [OF assms(1)] by blast
  note hk = rv_heap_ok [OF assms(1)]
  note h = heap_ok_facts [OF hk]
  have fp: "f \<in> par s (Sc a)" using assms(2) by simp
  obtain sc where sc: "rv_scopes s a = Some sc" using par_live [OF fp] by (auto simp: live_Sc)
  obtain fsc where f: "rv_scopes s f = Some fsc" using father_live [OF hk fp] by (auto simp: live_Sc)
  have ne: "f \<noteq> a" using U fp by (auto simp: graph_ok_def pre_graph_def no_self_def)
  define s1 where "s1 = put_scope f (fsc\<lparr>childrenScopes := hs_erase a (childrenScopes fsc)\<rparr>) s"
  define s' where "s' = delete_scope a (s1\<lparr>scopeIndex := fold hm_erase (hm_keys (sc_ids sc)) (scopeIndex s)\<rparr>)"
  have eq: "do { s \<leftarrow> unlink_child f a s; delete_scope_everywhere a s } = Some s'"
    using sc f ne by (simp add: unlink_child_def delete_scope_everywhere_def fold_scopeIndex_erase s'_def s1_def)
  have parf: "par s (Sc f) = set (fatherScopes fsc)" "own s (Sc f) = fst ` set (sc_ids fsc)"
    using f by (simp_all add: par_def own_Sc)
  have own: "own s' = (own s)(Sc a := {})"
    using parf by (auto simp: fun_eq_iff s'_def s1_def view_delete view_indexes own_put)
  have par: "par s' = (par s)(Sc a := {})"
    using parf by (auto simp: fun_eq_iff s'_def s1_def links_delete view_indexes par_put)
  have pairs: "pair_at s' = pair_at s"
    using f assms(4) by (auto simp: fun_eq_iff s'_def s1_def view_delete view_indexes pair_put pair_Sc)
  have live: "live s' o2 \<longleftrightarrow> live s o2 \<and> o2 \<noteq> Sc a" for o2
    using f by (auto simp: s'_def s1_def view_delete view_indexes live_put live_Sc)
  have below: "o2 \<in> below s' b \<longleftrightarrow> b \<in> par s' o2" for b o2
  proof -
    have "below s' b = below s b - {Sc a}"
    proof (cases "b = f")
      case True
      then show ?thesis using ne by (auto simp: below_scope [OF f] s'_def s1_def links_delete view_indexes below_put)
    next
      case False
      then have "Sc a \<notin> below s b" using assms(2) h(2) by simp
      then show ?thesis using False assms(3) by (auto simp: s'_def s1_def links_delete view_indexes below_put)
    qed
    then show ?thesis using h(2) by (auto simp: par)
  qed
  have "heap_ok s'"
  proof (rule heap_ok_shrink [OF hk])
    show "ids_wf s'" unfolding s'_def s1_def using h(3) ids_wfD(1) [OF h(3) f]
      by (intro ids_wf_delete) (simp add: ids_wf_index ids_wf_put)
    show "hm_wf (scopeIndex s')" "hm_wf (pubIndex s')" using h(4,5) by (simp_all add: s'_def s1_def hm_wf_fold_erase)
    show "\<forall>o2. distinct (obj_fathers s' o2)"
      using h(6) [of "Sc f"] h(6) f by (simp add: s'_def s1_def fathers_delete view_indexes obj_fathers_put)
    show "\<forall>b sc. rv_scopes s' b = Some sc \<longrightarrow> distinct (childrenScopes sc) \<and> distinct (informationitems sc)"
      using h(7) f by (auto simp: s'_def s1_def)
  qed (use live below in \<open>auto simp: s'_def s1_def\<close>)
  then have "ids_removed (Sc a) (own s (Sc a)) s s'"
    using own pairs sc by (simp add: ids_removed_def s'_def s1_def hm_get_fold_erase own_Sc)
  from object_removed [OF U _ this par] live assms(3) have "graph_ok U s'" by (simp add: childless_def)
  moreover have "pub_sub_Index s' = pub_sub_Index s" "rv_gc s' = rv_gc s" "rv_msgs s' = rv_msgs s" by (simp_all add: s'_def s1_def)
  ultimately show ?thesis using rv_inv_regraph [OF assms(1) _ pairs] eq own by blast
qed

lemma delete_root_ok:
  assumes "rv_inv s" and "live s (Sc a)" and "par s (Sc a) = {}" and "below s a = {}" and "\<forall>x. pair_at s (Sc a) x = ([], [])"
  shows "\<exists>s'. delete_scope_everywhere a s = Some s' \<and> rv_inv s' \<and> graph_book s' = graph_book s \<and> known s' = known s"
proof -
  obtain U where U: "graph_ok U s" using rv_inv_parts(2) [OF assms(1)] by blast
  note hk = rv_heap_ok [OF assms(1)]
  note h = heap_ok_facts [OF hk]
  obtain sc where sc: "rv_scopes s a = Some sc" using assms(2) by (auto simp: live_Sc)
  define s' where "s' = delete_scope a (s\<lparr>scopeIndex := fold hm_erase (hm_keys (sc_ids sc)) (scopeIndex s)\<rparr>)"
  have eq: "delete_scope_everywhere a s = Some s'"
    using sc by (simp add: delete_scope_everywhere_def fold_scopeIndex_erase s'_def)
  have own: "own s' = (own s)(Sc a := {})" by (auto simp: fun_eq_iff s'_def view_delete view_indexes)
  have par: "par s' = (par s)(Sc a := {})" by (auto simp: fun_eq_iff s'_def links_delete view_indexes)
  have pairs: "pair_at s' = pair_at s"
    using assms(5) by (auto simp: fun_eq_iff s'_def view_delete view_indexes)
  have live: "live s' o2 \<longleftrightarrow> live s o2 \<and> o2 \<noteq> Sc a" for o2 by (auto simp: s'_def view_delete view_indexes)
  have below: "o2 \<in> below s' b \<longleftrightarrow> b \<in> par s' o2" for b o2
  proof -
    have "a \<notin> par s o2" using h(2) [of o2 a] assms(4) by simp
    then show ?thesis using h(2) assms(3,4) by (auto simp: par s'_def links_delete view_indexes)
  qed
  have "heap_ok s'"
  proof (rule heap_ok_shrink [OF hk])
    show "ids_wf s'" unfolding s'_def using h(3) by (intro ids_wf_delete) (simp add: ids_wf_index)
    show "hm_wf (scopeIndex s')" "hm_wf (pubIndex s')" using h(4,5) by (simp_all add: s'_def hm_wf_fold_erase)
    show "\<forall>o2. distinct (obj_fathers s' o2)" using h(6) by (simp add: s'_def fathers_delete view_indexes)
    show "\<forall>b sc. rv_scopes s' b = Some sc \<longrightarrow> distinct (childrenScopes sc) \<and> distinct (informationitems sc)"
      using h(7) by (auto simp: s'_def)
  qed (use live below in \<open>auto simp: s'_def\<close>)
  then have "ids_removed (Sc a) (own s (Sc a)) s s'"
    using own pairs sc by (simp add: ids_removed_def s'_def hm_get_fold_erase own_Sc)
  from object_removed [OF U _ this par] live assms(4) have "graph_ok U s'" by (simp add: childless_def)
  moreover have "pub_sub_Index s' = pub_sub_Index s" "rv_gc s' = rv_gc s" "rv_msgs s' = rv_msgs s" by (simp_all add: s'_def)
  ultimately show ?thesis using rv_inv_regraph [OF assms(1) _ pairs] eq by blast
qed

lemma delete_scope_branch_ok:
  assumes "rv_inv s" and "graph_ok U s" and "f \<in> par s (Sc a)" and "g \<in> par s (Sc a)" and "g \<noteq> f" and "below s a = {}"
    and "\<forall>x \<in> (\<lambda>p. p @ U (Sc a)) ` own s (Sc f). pair_at s (Sc a) x = ([], [])"
  shows "\<exists>s'. delete_scope_branch f a s = Some s' \<and> rv_inv s' \<and> graph_book s' = graph_book s \<and> known s' = known s"
proof -
  let ?u = "U (Sc a)"
  let ?gone = "(\<lambda>p. p @ ?u) ` own s (Sc f)"
  note hk = rv_heap_ok [OF assms(1)]
  note h = heap_ok_facts [OF hk]
  have gr: "sfx_ok U s" "\<forall>o'. live s o' \<longrightarrow> own s o' \<noteq> {}" using assms(2) by (simp_all add: graph_ok_def pre_graph_def)
  obtain sc where sc: "rv_scopes s a = Some sc" using par_live [OF assms(3)] by (auto simp: live_Sc)
  obtain fsc where f: "rv_scopes s f = Some fsc" using father_live [OF hk assms(3)] by (auto simp: live_Sc)
  have ne: "f \<noteq> a" using assms(2,3) by (auto simp: graph_ok_def pre_graph_def no_self_def)
  have "own s (Sc a) \<noteq> {}" using gr(2) par_live [OF assms(3)] by blast
  then have fs: "first_suffix (sc_ids sc) = Some ?u" using first_suffix_ex [OF gr(1), of "Sc a" "sc_ids sc"] sc by simp
  let ?xs = "map (\<lambda>x. x @ ?u) (hm_keys (sc_ids fsc))"
  have xs: "set ?xs = ?gone" using f by (auto simp: own_Sc)
  define sc1 where "sc1 = sc\<lparr>fatherScopes := hs_erase f (fatherScopes sc)\<rparr>"
  define s1 where "s1 = put_scope a sc1 (put_scope f (fsc\<lparr>childrenScopes := hs_erase a (childrenScopes fsc)\<rparr>) s)"
  define s' where "s' = put_scope a (sc1\<lparr>sc_ids := fold hm_erase ?xs (sc_ids sc)\<rparr>) (s1\<lparr>scopeIndex := fold hm_erase ?xs (scopeIndex s)\<rparr>)"
  have "rv_scopes s1 a = Some sc1" by (simp add: s1_def)
  from fold_scope_del [OF this, of ?u "hm_keys (sc_ids fsc)"]
  have eq: "delete_scope_branch f a s = Some s'"
    using sc f fs ne by (simp add: delete_scope_branch_def unlink_child_def s'_def s1_def sc1_def Let_def)
  have parf: "par s (Sc f) = set (fatherScopes fsc)" "own s (Sc f) = fst ` set (sc_ids fsc)"
    "par s (Sc a) = set (fatherScopes sc)" "own s (Sc a) = fst ` set (sc_ids sc)"
    using f sc by (simp_all add: par_def own_Sc)
  have own: "own s' = (own s)(Sc a := own s (Sc a) - ?gone)"
    unfolding xs [symmetric] using parf
    by (auto simp: fun_eq_iff s'_def s1_def sc1_def view_indexes own_put keys_fold_erase simp del: set_map)
  have par: "par s' = (par s)(Sc a := par s (Sc a) - {f})"
    using parf by (auto simp: fun_eq_iff s'_def s1_def sc1_def view_indexes par_put)
  have pairs: "pair_at s' = pair_at s"
  proof (intro ext)
    fix o2 x show "pair_at s' o2 x = pair_at s o2 x"
    proof (cases "o2 = Sc a")
      case True
      have "pair_at s' (Sc a) x = (if x \<in> ?gone then ([], []) else pair_at s (Sc a) x)"
        unfolding xs [symmetric] using sc by (simp add: s'_def pair_put hm_get_fold_erase pair_Sc del: set_map)
      moreover have "x \<in> ?gone \<Longrightarrow> pair_at s (Sc a) x = ([], [])" by (rule bspec [OF assms(7)])
      ultimately show ?thesis using True by presburger
    next
      case False
      then show ?thesis using f by (auto simp: s'_def s1_def view_indexes pair_put pair_Sc)
    qed
  qed
  have live: "live s' o2 \<longleftrightarrow> live s o2" for o2
    using f sc by (auto simp: s'_def s1_def view_indexes live_put live_Sc)
  have below: "o2 \<in> below s' b \<longleftrightarrow> b \<in> par s' o2" for b o2
  proof -
    have ba: "childrenScopes sc = []" "informationitems sc = []" using assms(6) sc by (simp_all add: below_def)
    have "below s' = (below s)(f := below s f - {Sc a})"
      using f sc ne ba assms(6) by (auto simp: fun_eq_iff s'_def s1_def sc1_def view_indexes below_put) (auto simp: below_def)
    then show ?thesis using h(2) by (auto simp: par)
  qed
  have "heap_ok s'"
  proof (rule heap_ok_shrink [OF hk])
    show "ids_wf s'" unfolding s'_def s1_def sc1_def using h(3) ids_wfD(1) [OF h(3)] f sc
      by (intro ids_wf_put) (simp_all add: ids_wf_index ids_wf_put hm_wf_fold_erase)
    show "hm_wf (scopeIndex s')" "hm_wf (pubIndex s')" using h(4,5) by (simp_all add: s'_def s1_def hm_wf_fold_erase)
    show "\<forall>o2. distinct (obj_fathers s' o2)"
      using h(6) [of "Sc f"] h(6) [of "Sc a"] h(6) f sc by (simp add: s'_def s1_def sc1_def view_indexes obj_fathers_put)
    show "\<forall>b sc. rv_scopes s' b = Some sc \<longrightarrow> distinct (childrenScopes sc) \<and> distinct (informationitems sc)"
      using h(7) f sc by (auto simp: s'_def s1_def sc1_def)
  qed (use live below in \<open>auto simp: s'_def s1_def\<close>)
  then have "ids_removed (Sc a) ?gone s s'"
    using own pairs unfolding ids_removed_def xs [symmetric]
    by (simp add: s'_def s1_def hm_get_fold_erase del: set_map)
  from branch_removed [OF assms(2) _ assms(3-5) this par] live assms(6) have "graph_ok U s'" by (simp add: childless_def)
  moreover have "pub_sub_Index s' = pub_sub_Index s" "rv_gc s' = rv_gc s" "rv_msgs s' = rv_msgs s" by (simp_all add: s'_def s1_def)
  ultimately show ?thesis using rv_inv_regraph [OF assms(1) _ pairs] eq by blast
qed

subsection \<open>Unpublishing and unsubscribing\<close>

lemma one_father:
  assumes "distinct xs" and "f \<in> set xs"
  shows "length xs = 1 \<longleftrightarrow> set xs = {f}"
proof
  assume "length xs = 1"
  then obtain y where "xs = [y]" by (cases xs) auto
  then show "set xs = {f}" using assms(2) by simp
next
  assume "set xs = {f}"
  then show "length xs = 1" using assms(1) distinct_card by fastforce
qed

lemma pairs_all_empty:
  assumes "graph_ok U s" and "par s o' = {f}"
    and "\<forall>x \<in> (\<lambda>p. p @ U o') ` own s (Sc f). pair_at s o' x = ([], [])"
  shows "\<forall>x. pair_at s o' x = ([], [])"
proof
  fix x show "pair_at s o' x = ([], [])"
  proof (cases "x \<in> own s o'")
    case True
    then show ?thesis using own_of_fathers [OF assms(1), of o'] assms(2,3) by auto
  qed (rule pair_not_own)
qed

lemma father_of_id:
  assumes "graph_ok U s" and "p @ x \<in> own s o'" and "length x = 8" and "p \<noteq> []"
  shows "\<exists>f. f \<in> par s o' \<and> p \<in> own s (Sc f) \<and> U o' = x"
proof -
  have "\<exists>f \<in> par s o'. p \<in> own s (Sc f)"
    using assms unfolding graph_ok_def pre_graph_def back_ok_def by metis
  then show ?thesis using owner_suffix(1) [OF assms] by blast
qed

lemma drop_inner_scope_ok:
  assumes "rv_inv s" and "p @ x \<in> own s (Sc a)" and "length x = 8" and "p \<in> own s (Sc f)"
  shows "\<exists>s'. drop_inner_scope f a (p @ x) s = Some s' \<and> rv_inv s' \<and> graph_book s' = graph_book s \<and> known s' = known s"
proof -
  obtain U where U: "graph_ok U s" using rv_inv_parts(2) [OF assms(1)] by blast
  note hk = rv_heap_ok [OF assms(1)]
  obtain sc where sc: "rv_scopes s a = Some sc" using own_live [OF assms(2)] by (auto simp: live_Sc)
  show ?thesis
  proof (cases "childrenScopes sc = [] \<and> informationitems sc = []")
    case False
    then show ?thesis using sc assms(1) by (auto simp: drop_inner_scope_def)
  next
    case True
    then have bl: "below s a = {}" using sc by (simp add: below_def)
    have "p \<noteq> []" using U assms(4) by (auto simp: graph_ok_def pre_graph_def dest: sfx_not_Nil)
    from father_of_id [OF U assms(2,3) this] obtain k where k: "k \<in> par s (Sc a)" "p \<in> own s (Sc k)" by blast
    have "Sc k = Sc f" by (rule own_unique [OF rv_inv_parts(5) [OF assms(1)] k(2) assms(4)])
    then have fp: "f \<in> par s (Sc a)" using k(1) by simp
    from Scope_check_ok [OF U fp] obtain b where b: "Scope_checkForOtherPubSub a (Some f) s = Some b"
      "\<not> b \<longrightarrow> (\<forall>x \<in> (\<lambda>p. p @ U (Sc a)) ` own s (Sc f). pair_at s (Sc a) x = ([], []))" by blast
    show ?thesis
    proof (cases b)
      case True
      then show ?thesis using sc b(1) assms(1) \<open>childrenScopes sc = [] \<and> informationitems sc = []\<close>
        by (simp add: drop_inner_scope_def)
    next
      case False
      then have unused: "\<forall>x \<in> (\<lambda>p. p @ U (Sc a)) ` own s (Sc f). pair_at s (Sc a) x = ([], [])" using b(2) by blast
      have lv: "live s (Sc f)" "live s (Sc a)" using father_live [OF hk fp] par_live [OF fp] by simp_all
      note dist = heap_ok_facts(6) [OF hk, of "Sc a"]
      have pl: "par s (Sc a) = set (fatherScopes sc)" using sc by (simp add: par_def)
      have one: "length (fatherScopes sc) = 1 \<longleftrightarrow> par s (Sc a) = {f}"
        using one_father [of "fatherScopes sc" f] dist sc fp pl by simp
      show ?thesis
      proof (cases "par s (Sc a) = {f}")
        case True
        from notify_new_scope_ok [OF lv, of "\<lambda>x. x" SCOPE_UNPUBLISHED] obtain s1 where
          s1: "notify_new_scope f a (\<lambda>x. x) SCOPE_UNPUBLISHED s = Some s1" "quiet s s1" by blast
        note q = quiet_view [OF s1(2)]
        have pr: "\<forall>x. pair_at s1 (Sc a) x = ([], [])" using pairs_all_empty [OF U True unused] by (simp add: q)
        have "par s1 (Sc a) = {f}" "below s1 a = {}" using True bl by (simp_all add: q)
        from unlink_delete_scope_ok [OF quiet_inv [OF s1(2) assms(1)] this pr] obtain s2 where
          "do { s \<leftarrow> unlink_child f a s1; delete_scope_everywhere a s } = Some s2" "rv_inv s2"
          "graph_book s2 = graph_book s1" "known s2 = known s1" by blast
        then show ?thesis using sc b(1) False one True s1(1) q \<open>childrenScopes sc = [] \<and> informationitems sc = []\<close>
          by (simp add: drop_inner_scope_def)
      next
        case False
        then obtain g where g: "g \<in> par s (Sc a)" "g \<noteq> f" using fp by blast
        from notify_new_scope_ok [OF lv, of "filter (\<lambda>y. y = p @ x)" SCOPE_UNPUBLISHED] obtain s1 where
          s1: "notify_new_scope f a (filter (\<lambda>y. y = p @ x)) SCOPE_UNPUBLISHED s = Some s1" "quiet s s1" by blast
        note q = quiet_view [OF s1(2)]
        have U1: "graph_ok U s1" by (rule graph_ok_same [OF U q(10)])
        have "f \<in> par s1 (Sc a)" "g \<in> par s1 (Sc a)" "below s1 a = {}"
          "\<forall>x \<in> (\<lambda>p. p @ U (Sc a)) ` own s1 (Sc f). pair_at s1 (Sc a) x = ([], [])"
          using fp g(1) bl unused by (simp_all add: q)
        from delete_scope_branch_ok [OF quiet_inv [OF s1(2) assms(1)] U1 this(1,2) g(2) this(3,4)] obtain s2 where
          "delete_scope_branch f a s1 = Some s2" "rv_inv s2" "graph_book s2 = graph_book s1" "known s2 = known s1" by blast
        then show ?thesis using sc b(1) \<open>\<not> b\<close> one False s1(1) q \<open>childrenScopes sc = [] \<and> informationitems sc = []\<close>
          by (simp add: drop_inner_scope_def)
      qed
    qed
  qed
qed

lemma drop_root_scope_ok:
  assumes "rv_inv s" and "live s (Sc a)" and "par s (Sc a) = {}"
  shows "\<exists>s'. drop_root_scope a s = Some s' \<and> rv_inv s' \<and> graph_book s' = graph_book s \<and> known s' = known s"
proof -
  obtain sc where sc: "rv_scopes s a = Some sc" using assms(2) by (auto simp: live_Sc)
  from Scope_check_root [OF sc] obtain b where b: "Scope_checkForOtherPubSub a None s = Some b"
    "\<not> b \<longrightarrow> (\<forall>x. pair_at s (Sc a) x = ([], []))" by blast
  show ?thesis
  proof (cases "childrenScopes sc = [] \<and> informationitems sc = [] \<and> \<not> b")
    case False
    then show ?thesis using sc b(1) assms(1) by (auto simp: drop_root_scope_def)
  next
    case True
    then have "below s a = {}" using sc by (simp add: below_def)
    from delete_root_ok [OF assms this] b(2) True obtain s' where
      "delete_scope_everywhere a s = Some s'" "rv_inv s'" "graph_book s' = graph_book s" "known s' = known s" by blast
    then show ?thesis using sc b(1) True by (simp add: drop_root_scope_def)
  qed
qed

end
