(* ===== verification/BA_LocalRV_Safe.thy ===== *)
theory BA_LocalRV_Safe
  imports BA_LocalRV_Inv
begin

text \<open>
  The requests of the rendezvous element that take publishers and subscribers away, every request
  of a packet, and the runs of the element from its initialisation to its clean-up: what each keeps,
  what each records, and that none reaches undefined behaviour.
\<close>

subsection \<open>Taking a host off an item\<close>

definition removes :: "book \<Rightarrow> bstr \<Rightarrow> host \<Rightarrow> rv \<Rightarrow> rv_ret \<Rightarrow> rv \<Rightarrow> bool" where
  "removes b x h s r s' \<longleftrightarrow> rv_inv s' \<and> known s' = known s \<and>
     (if r = SUCCESS then (x, h) \<in> graph_book s b \<and> graph_book s' = (graph_book s)(b := graph_book s b - {(x, h)})
      else graph_book s' = graph_book s)"

text \<open>What an operation on the item identifier \<open>x\<close> leaves alone.\<close>

definition item_frame :: "bstr \<Rightarrow> rv \<Rightarrow> rv \<Rightarrow> bool" where
  "item_frame x s s' \<longleftrightarrow> (\<forall>o'. own s' o' \<subseteq> own s o') \<and> (\<forall>o'. x \<notin> own s o' \<longrightarrow> own s' o' = own s o')"

lemma item_frame_same: "own s' = own s \<Longrightarrow> item_frame x s s'"
  by (simp add: item_frame_def)

lemma item_frame_It: "x \<in> own s (It i) \<Longrightarrow> own s' = (own s)(It i := A) \<Longrightarrow> A \<subseteq> own s (It i) \<Longrightarrow> item_frame x s s'"
  by (auto simp: item_frame_def)

lemma item_father:
  assumes "rv_inv s" and "p @ u \<in> own s (It i)" and "length u = 8"
  shows "\<exists>f. hm_get (scopeIndex s) p = Some f \<and> f \<in> par s (It i) \<and> live s (Sc f)"
proof -
  obtain U where U: "graph_ok U s" using rv_inv_parts(2) [OF assms(1)] by blast
  have "back_ok s" using U by (simp add: graph_ok_def pre_graph_def)
  then have "p \<noteq> []" using assms(2,3) unfolding back_ok_def by fastforce
  from father_of_id [OF U assms(2,3) this] obtain f where f: "f \<in> par s (It i)" "p \<in> own s (Sc f)" by blast
  then show ?thesis using index_Sc [OF rv_inv_parts(5) [OF assms(1)]] own_live by blast
qed

text \<open>What the code does once the host is off: delete the item, one branch of it, or nothing.\<close>

definition item_fate :: "addr \<Rightarrow> addr \<Rightarrow> rv \<Rightarrow> bool \<Rightarrow> bool" where
  "item_fate f i s others \<longleftrightarrow> InformationItem_checkForOtherPubSub i f s = Some others \<and>
     (\<not> others \<longrightarrow> par s (It i) = {f} \<longrightarrow> (\<exists>s'. delete_item_everywhere f i s = Some s' \<and> rv_inv s' \<and>
        graph_book s' = graph_book s \<and> known s' = known s \<and> own s' = (own s)(It i := {}))) \<and>
     (\<not> others \<longrightarrow> par s (It i) \<noteq> {f} \<longrightarrow> (\<exists>s' A. delete_item_branch f i s = Some s' \<and> rv_inv s' \<and>
        graph_book s' = graph_book s \<and> known s' = known s \<and> own s' = (own s)(It i := A) \<and> A \<subseteq> own s (It i) \<and> live s' (It i)))"

lemma item_fate_ex:
  assumes "rv_inv s" and "f \<in> par s (It i)"
  shows "\<exists>others. item_fate f i s others"
proof -
  obtain U where U: "graph_ok U s" using rv_inv_parts(2) [OF assms(1)] by blast
  from Item_check_ok [OF U assms(2)] obtain b where b: "InformationItem_checkForOtherPubSub i f s = Some b"
    "\<not> b \<longrightarrow> (\<forall>x \<in> (\<lambda>p. p @ U (It i)) ` own s (Sc f). pair_at s (It i) x = ([], []))" by blast
  have one: "\<exists>s'. delete_item_everywhere f i s = Some s' \<and> rv_inv s' \<and>
      graph_book s' = graph_book s \<and> known s' = known s \<and> own s' = (own s)(It i := {})"
    if "\<not> b" "par s (It i) = {f}"
  proof -
    have "\<forall>x. pair_at s (It i) x = ([], [])" using pairs_all_empty [OF U that(2)] b(2) that(1) by blast
    from delete_item_everywhere_ok [OF assms(1) that(2) this] show ?thesis by blast
  qed
  have many: "\<exists>s' A. delete_item_branch f i s = Some s' \<and> rv_inv s' \<and>
      graph_book s' = graph_book s \<and> known s' = known s \<and> own s' = (own s)(It i := A) \<and> A \<subseteq> own s (It i) \<and> live s' (It i)"
    if nb: "\<not> b" and np: "par s (It i) \<noteq> {f}"
  proof -
    obtain g where g: "g \<in> par s (It i)" "g \<noteq> f" using np assms(2) by blast
    from delete_item_branch_ok [OF assms(1) U assms(2) g mp [OF b(2) nb]] obtain s' where
      "delete_item_branch f i s = Some s'" "rv_inv s'" "graph_book s' = graph_book s" "known s' = known s"
      "own s' = (own s)(It i := own s (It i) - (\<lambda>p. p @ U (It i)) ` own s (Sc f))" "live s' (It i)" by blast
    then show ?thesis by blast
  qed
  show ?thesis using b(1) one many unfolding item_fate_def by blast
qed

lemma item_fathers_one:
  assumes "heap_ok s" and "rv_items s i = Some it" and "f \<in> par s (It i)"
  shows "length (it_fatherScopes it) = 1 \<longleftrightarrow> par s (It i) = {f}"
proof -
  have "par s (It i) = set (it_fatherScopes it)" using assms(2) by (simp add: par_def)
  then show ?thesis using one_father [of "it_fatherScopes it" f] heap_ok_facts(6) [OF assms(1), of "It i"] assms(2,3) by simp
qed

text \<open>The host is off the identifier in the graph and in its own book.\<close>

lemma host_off_item:
  assumes "rv_inv s" and "b = IPub \<or> b = ISub" and "rv_items s i = Some it" and "x \<in> own s (It i)" and "known s h"
    and "s1 = put_item i (it\<lparr>it_ids := hm_set x (upd_side b (hs_erase h) (pair_at s (It i) x)) (it_ids it)\<rparr>) s"
  shows "\<exists>s2. host_del b h x s1 = Some s2 \<and> rv_inv s2 \<and> own s2 = own s \<and> par s2 = par s \<and> live s2 = live s \<and>
    known s2 = known s \<and> graph_book s2 = (graph_book s)(b := graph_book s b - {(x, h)})"
proof -
  note pp = put_pair_item [OF assms(3,4,6)]
  have bo: "book_obj b i = It i" using assms(2) by auto
  have "pair_step b i x (hs_erase h) s s1" using pp by (simp add: pair_step_def bo)
  from del_host_inv [OF assms(1) this _ assms(5)] bo assms(4) obtain s2 where s2: "host_del b h x s1 = Some s2"
    "rv_inv s2" "own s2 = own s" "skel s2 = skel s" "known s2 = known s"
    "graph_book s2 = (graph_book s)(b := graph_book s b - {(x, h)})" by auto
  then show ?thesis using skel_view [OF s2(4)] by blast
qed


lemma unpublish_info_ok:
  assumes "rv_inv s" and "known s h" and "length ID = 8"
  shows "\<exists>r s'. unpublish_info h ID p st s = Some (r, s') \<and> removes IPub (p @ ID) h s r s' \<and> item_frame (p @ ID) s s'"
proof (cases "hm_get (pubIndex s) (p @ ID)")
  case None
  then show ?thesis using assms(1)
    by (intro exI [of _ INFO_DOES_NOT_EXIST] exI [of _ s])
      (simp add: unpublish_info_def removes_def item_frame_same)
next
  case (Some i)
  note ix = rv_inv_parts(5) [OF assms(1)]
  have x: "p @ ID \<in> own s (It i)" using index_It [OF ix] Some by simp
  from item_father [OF assms(1) x assms(3)] obtain f where f: "hm_get (scopeIndex s) p = Some f" "f \<in> par s (It i)" "live s (Sc f)"
    by blast
  obtain fsc where fsc: "rv_scopes s f = Some fsc" using f(3) by (auto simp: live_Sc)
  obtain it where it: "rv_items s i = Some it" using own_live [OF x] by (auto simp: live_It)
  note g = own_pair_It [OF it x]
  let ?pr = "pair_at s (It i) (p @ ID)"
  show ?thesis
  proof (cases "sc_strategy fsc = st")
    case False
    then show ?thesis using assms(1) Some f(1) fsc
      by (intro exI [of _ STRATEGY_MISMATCH] exI [of _ s])
        (simp add: unpublish_info_def removes_def item_frame_same)
  next
    case st: True
    show ?thesis
    proof (cases "h \<in> set (fst ?pr)")
      case False
      then show ?thesis using assms(1) Some f(1) fsc st it g
        by (intro exI [of _ DOES_NOT_EXIST] exI [of _ s])
          (simp add: unpublish_info_def removes_def item_frame_same)
    next
      case True
      have was: "(p @ ID, h) \<in> graph_book s IPub" using graph_book_at [OF ix, of "p @ ID" IPub i h] x True by simp
      define s1 where "s1 = put_item i (it\<lparr>it_ids := hm_set (p @ ID) (upd_side IPub (hs_erase h) ?pr) (it_ids it)\<rparr>) s"
      from host_off_item [OF assms(1) disjI1 [OF refl] it x assms(2) s1_def] obtain s2 where s2:
        "host_del IPub h (p @ ID) s1 = Some s2" "rv_inv s2" "own s2 = own s" "par s2 = par s" "live s2 = live s"
        "known s2 = known s" "graph_book s2 = (graph_book s)(IPub := graph_book s IPub - {(p @ ID, h)})" by blast
      have f2: "f \<in> par s2 (It i)" and l2: "live s2 (It i)" using f(2) own_live [OF x] by (simp_all add: s2)
      from item_fate_ex [OF s2(2) f2] obtain others where fate: "item_fate f i s2 others" by blast
      have one: "length (it_fatherScopes it) = 1 \<longleftrightarrow> par s2 (It i) = {f}"
        using item_fathers_one [OF rv_heap_ok [OF assms(1)] it f(2)] by (simp add: s2)
      have run: "unpublish_info h ID p st s = do {
          s \<leftarrow> (if par s2 (It i) = {f}
            then (if \<not> others then delete_item_everywhere f i s2 else rendezvous_all i s2)
            else do { s \<leftarrow> (if \<not> others then delete_item_branch f i s2 else Some s2); rendezvous_all i s });
          Some (SUCCESS, s) }"
        using Some f(1) fsc st it g True s2(1) fate one
        by (simp add: unpublish_info_def s1_def item_fate_def)
      have fin: "removes IPub (p @ ID) h s SUCCESS s' \<and> item_frame (p @ ID) s s'"
        if "rv_inv s'" "known s' = known s2" "graph_book s' = graph_book s2" "own s' = (own s)(It i := A)" "A \<subseteq> own s (It i)" for s' A
        using that s2(6,7) was item_frame_It [OF x that(4,5)] by (simp add: removes_def)
      have rall: "\<exists>s'. rendezvous_all i t = Some s' \<and> rv_inv s' \<and> known s' = known t \<and> graph_book s' = graph_book t \<and> own s' = own t"
        if "rv_inv t" "live t (It i)" for t
      proof -
        from rendezvous_all_ok [OF rv_heap_ok [OF that(1)] that(2)] obtain s' where q: "rendezvous_all i t = Some s'" "quiet t s'" by blast
        show ?thesis using q(1) quiet_inv [OF q(2) that(1)] quiet_view [OF q(2)] by blast
      qed
      have same: "own s2 = (own s)(It i := own s (It i))" by (simp add: s2)
      consider (all) "\<not> others" "par s2 (It i) = {f}" | (branch) "\<not> others" "par s2 (It i) \<noteq> {f}" | (stay) others by blast
      then show ?thesis
      proof cases
        case all
        then obtain s3 where s3: "delete_item_everywhere f i s2 = Some s3" "rv_inv s3" "graph_book s3 = graph_book s2"
          "known s3 = known s2" "own s3 = (own s2)(It i := {})" using fate by (auto simp: item_fate_def)
        have "own s3 = (own s)(It i := {})" by (simp add: s3(5) s2(3))
        from fin [OF s3(2,4,3) this] show ?thesis using all s3(1) by (simp add: run)
      next
        case branch
        then obtain s3 A where s3: "delete_item_branch f i s2 = Some s3" "rv_inv s3" "graph_book s3 = graph_book s2"
          "known s3 = known s2" "own s3 = (own s2)(It i := A)" "A \<subseteq> own s2 (It i)" "live s3 (It i)"
          using fate by (auto simp: item_fate_def)
        from rall [OF s3(2,7)] obtain s4 where s4: "rendezvous_all i s3 = Some s4" "rv_inv s4" "known s4 = known s3"
          "graph_book s4 = graph_book s3" "own s4 = own s3" by blast
        have "own s4 = (own s)(It i := A)" "A \<subseteq> own s (It i)" using s3(5,6) by (simp_all add: s4(5) s2(3))
        from fin [OF s4(2) _ _ this] show ?thesis using branch s3 s4 by (simp add: run)
      next
        case stay
        from rall [OF s2(2) l2] obtain s4 where s4: "rendezvous_all i s2 = Some s4" "rv_inv s4" "known s4 = known s2"
          "graph_book s4 = graph_book s2" "own s4 = own s2" by blast
        have "own s4 = (own s)(It i := own s (It i))" by (simp add: s4(5) s2(3))
        from fin [OF s4(2-4) this] show ?thesis using stay s4(1) by (simp add: run)
      qed
    qed
  qed
qed

lemma unsubscribe_info_ok:
  assumes "rv_inv s" and "known s h" and "length ID = 8"
  shows "\<exists>r s'. unsubscribe_info h ID p st s = Some (r, s') \<and> removes ISub (p @ ID) h s r s'"
proof (cases "hm_get (pubIndex s) (p @ ID)")
  case None
  then show ?thesis using assms(1)
    by (intro exI [of _ INFO_DOES_NOT_EXIST] exI [of _ s])
      (simp add: unsubscribe_info_def removes_def)
next
  case (Some i)
  note ix = rv_inv_parts(5) [OF assms(1)]
  have x: "p @ ID \<in> own s (It i)" using index_It [OF ix] Some by simp
  from item_father [OF assms(1) x assms(3)] obtain f where f: "hm_get (scopeIndex s) p = Some f" "f \<in> par s (It i)" "live s (Sc f)"
    by blast
  obtain fsc where fsc: "rv_scopes s f = Some fsc" using f(3) by (auto simp: live_Sc)
  obtain it where it: "rv_items s i = Some it" using own_live [OF x] by (auto simp: live_It)
  note g = own_pair_It [OF it x]
  let ?pr = "pair_at s (It i) (p @ ID)"
  show ?thesis
  proof (cases "sc_strategy fsc = st")
    case False
    then show ?thesis using assms(1) Some f(1) fsc
      by (intro exI [of _ STRATEGY_MISMATCH] exI [of _ s])
        (simp add: unsubscribe_info_def removes_def)
  next
    case st: True
    show ?thesis
    proof (cases "h \<in> set (snd ?pr)")
      case False
      then show ?thesis using assms(1) Some f(1) fsc st it g
        by (intro exI [of _ DOES_NOT_EXIST] exI [of _ s])
          (simp add: unsubscribe_info_def removes_def)
    next
      case True
      have was: "(p @ ID, h) \<in> graph_book s ISub" using graph_book_at [OF ix, of "p @ ID" ISub i h] x True by simp
      define s1 where "s1 = put_item i (it\<lparr>it_ids := hm_set (p @ ID) (upd_side ISub (hs_erase h) ?pr) (it_ids it)\<rparr>) s"
      from host_off_item [OF assms(1) disjI2 [OF refl] it x assms(2) s1_def] obtain s2 where s2:
        "host_del ISub h (p @ ID) s1 = Some s2" "rv_inv s2" "own s2 = own s" "par s2 = par s" "live s2 = live s"
        "known s2 = known s" "graph_book s2 = (graph_book s)(ISub := graph_book s ISub - {(p @ ID, h)})" by blast
      have l2: "live s2 (It i)" using own_live [OF x] by (simp add: s2)
      from rendezvous_all_ok [OF rv_heap_ok [OF s2(2)] l2] obtain s3 where s3: "rendezvous_all i s2 = Some s3" "quiet s2 s3" by blast
      note q = quiet_view [OF s3(2)]
      have i3: "rv_inv s3" by (rule quiet_inv [OF s3(2) s2(2)])
      have "f \<in> par s3 (It i)" using f(2) by (simp add: q s2)
      from item_fate_ex [OF i3 this] obtain others where fate: "item_fate f i s3 others" by blast
      have one: "length (it_fatherScopes it) = 1 \<longleftrightarrow> par s3 (It i) = {f}"
        using item_fathers_one [OF rv_heap_ok [OF assms(1)] it f(2)] by (simp add: q s2)
      have run: "unsubscribe_info h ID p st s = do {
          s \<leftarrow> (if others then Some s3
            else if par s3 (It i) = {f} then delete_item_everywhere f i s3 else delete_item_branch f i s3);
          Some (SUCCESS, s) }"
        using Some f(1) fsc st it g True s2(1) s3(1) fate one
        by (simp add: unsubscribe_info_def s1_def item_fate_def)
      have fin: "removes ISub (p @ ID) h s SUCCESS s'"
        if "rv_inv s'" "known s' = known s3" "graph_book s' = graph_book s3" for s'
        using that s2(6,7) q was by (simp add: removes_def)
      consider (all) "\<not> others" "par s3 (It i) = {f}" | (branch) "\<not> others" "par s3 (It i) \<noteq> {f}" | (stay) others by blast
      then show ?thesis
      proof cases
        case all
        then obtain s4 where "delete_item_everywhere f i s3 = Some s4" "rv_inv s4" "graph_book s4 = graph_book s3"
          "known s4 = known s3" using fate by (auto simp: item_fate_def)
        then show ?thesis using all fin by (simp add: run)
      next
        case branch
        then obtain s4 where "delete_item_branch f i s3 = Some s4" "rv_inv s4" "graph_book s4 = graph_book s3"
          "known s4 = known s3" using fate by (auto simp: item_fate_def)
        then show ?thesis using branch fin by (simp add: run)
      next
        case stay
        then show ?thesis using fin [OF i3] by (simp add: run)
      qed
    qed
  qed
qed

subsection \<open>Taking a publisher or subscriber off a scope\<close>

definition items_unpublished :: "host \<Rightarrow> rv \<Rightarrow> rv \<Rightarrow> bool" where
  "items_unpublished h s s' \<longleftrightarrow> rv_inv s' \<and> known s' = known s \<and> (\<forall>b. b \<noteq> IPub \<longrightarrow> graph_book s' b = graph_book s b) \<and>
     graph_book s' IPub \<subseteq> graph_book s IPub \<and> graph_book s IPub - UNIV \<times> {h} \<subseteq> graph_book s' IPub \<and>
     (\<forall>a. own s' (Sc a) = own s (Sc a)) \<and> (\<forall>i. own s' (It i) \<subseteq> own s (It i))"

lemma items_unpublished_refl: "rv_inv s \<Longrightarrow> items_unpublished h s s"
  by (auto simp: items_unpublished_def)

lemma removes_items:
  assumes "items_unpublished h s t" and "removes IPub x h t r t'" and "item_frame x t t'" and "index_ok t"
    and "x \<in> own t (It i) \<or> (\<forall>o'. x \<notin> own t o')"
  shows "items_unpublished h s t'"
proof -
  have sc: "own t' (Sc a) = own t (Sc a)" for a
    using assms(3,5) own_unique [OF assms(4), of x "It i" "Sc a"] unfolding item_frame_def by blast
  have it: "own t' (It j) \<subseteq> own s (It j)" for j
    using assms(1,3) unfolding items_unpublished_def item_frame_def by blast
  have b: "graph_book t' b = (if r = SUCCESS \<and> b = IPub then graph_book t b - {(x, h)} else graph_book t b)" for b
    using assms(2) by (cases "r = SUCCESS") (simp_all add: removes_def)
  show ?thesis
    using assms(1,2) sc it by (auto simp: items_unpublished_def removes_def b)
qed

lemma unpublish_items_ok:
  assumes "rv_inv s" and "known s h" and "live s (Sc a)"
  shows "\<exists>s'. unpublish_items h a st s = Some s' \<and> items_unpublished h s s'"
proof -
  obtain sc where sc: "rv_scopes s a = Some sc" using assms(3) by (auto simp: live_Sc)
  obtain U where U: "graph_ok U s" using rv_inv_parts(2) [OF assms(1)] by blast
  have gU: "sfx_ok U s" "\<forall>o'. live s o' \<longrightarrow> own s o' \<noteq> {}" using U by (simp_all add: graph_ok_def pre_graph_def)
  note h = heap_ok_facts [OF rv_heap_ok [OF assms(1)]]
  note ix = rv_inv_parts(5) [OF assms(1)]
  have kids: "a \<in> par s (It i)" if "i \<in> set (informationitems sc)" for i
    using h(2) [of "It i" a] that sc by (simp add: below_def)
  let ?I = "\<lambda>is t. set is \<subseteq> set (informationitems sc) \<and> distinct is \<and> items_unpublished h s t \<and>
    (\<forall>i \<in> set is. own t (It i) = own s (It i))"
  have outer: "\<exists>t'. (do { it \<leftarrow> rv_items t i; u \<leftarrow> first_suffix (it_ids it); sc \<leftarrow> rv_scopes t a;
      fold_opt (\<lambda>x s. map_option snd (unpublish_info h u x st s)) (hm_keys (sc_ids sc)) t }) = Some t' \<and> ?I is t'"
    if I: "?I (i # is) t" for i "is" t
  proof -
    have i: "i \<in> set (informationitems sc)" and ti: "own t (It i) = own s (It i)" and U0: "items_unpublished h s t"
      using I by simp_all
    have inv: "rv_inv t" using U0 by (simp add: items_unpublished_def)
    have ne: "own s (It i) \<noteq> {}" using gU(2) par_live [OF kids [OF i]] by blast
    then have "live t (It i)" using ti own_live by blast
    then obtain it where it: "rv_items t i = Some it" by (auto simp: live_It)
    obtain V where V: "graph_ok V t" using rv_inv_parts(2) [OF inv] by blast
    have vV: "sfx_ok V t" using V by (simp add: graph_ok_def pre_graph_def)
    have fs: "first_suffix (it_ids it) = Some (V (It i))"
      by (rule first_suffix_ex [OF vV]) (use it ti ne in simp_all)
    obtain y where y: "y \<in> own s (It i)" using ne by blast
    obtain q r where "y = q @ U (It i)" "y = r @ V (It i)" using sfx_okD [OF gU(1) y] sfx_okD [OF vV] y ti by metis
    then have same: "V (It i) = U (It i)" using sfx_okL [OF gU(1)] sfx_okL [OF vV] by (simp add: append_eq_append_conv)
    have own_a: "own t (Sc a) = own s (Sc a)" using U0 by (simp add: items_unpublished_def)
    have "own s (Sc a) \<noteq> {}" using gU(2) assms(3) by blast
    then have "live t (Sc a)" using own_a own_live by blast
    then obtain sct where sct: "rv_scopes t a = Some sct" by (auto simp: live_Sc)
    have keys: "set (hm_keys (sc_ids sct)) = own s (Sc a)" using own_Sc [OF sct] own_a by simp
    let ?J = "\<lambda>xs w. set xs \<subseteq> own s (Sc a) \<and> items_unpublished h s w \<and> (\<forall>j \<in> set is. own w (It j) = own s (It j))"
    have "\<exists>t'. fold_opt (\<lambda>x s. map_option snd (unpublish_info h (U (It i)) x st s)) (hm_keys (sc_ids sct)) t = Some t' \<and> ?J [] t'"
    proof (rule fold_opt_total [where I = ?J])
      show "?J (hm_keys (sc_ids sct)) t" using keys U0 I by simp
    next
      fix x xs w assume J: "?J (x # xs) w"
      then have x: "x \<in> own s (Sc a)" and Uw: "items_unpublished h s w" by simp_all
      have iw: "rv_inv w" and kw: "known w h" using Uw assms(2) by (simp_all add: items_unpublished_def)
      from unpublish_info_ok [OF iw kw sfx_okL [OF gU(1)], of "It i" x st] obtain r w' where
        w': "unpublish_info h (U (It i)) x st w = Some (r, w')" "removes IPub (x @ U (It i)) h w r w'"
        "item_frame (x @ U (It i)) w w'" by blast
      have xs: "x @ U (It i) \<in> own s (It i)" by (rule handed_down [OF U kids [OF i] x])
      have only: "o' = It i" if "x @ U (It i) \<in> own w o'" for o'
      proof -
        have "own w o' \<subseteq> own s o'" using Uw by (cases o') (simp_all add: items_unpublished_def)
        then show ?thesis using own_unique [OF ix _ xs] that by blast
      qed
      have "items_unpublished h s w'"
        by (rule removes_items [OF Uw w'(2,3) rv_inv_parts(5) [OF iw], of i]) (use only in blast)
      moreover have "own w' (It j) = own s (It j)" if "j \<in> set is" for j
      proof -
        have "j \<noteq> i" using that I by auto
        then have "x @ U (It i) \<notin> own w (It j)" using only [of "It j"] by auto
        then show ?thesis using w'(3) J that by (simp add: item_frame_def)
      qed
      ultimately show "\<exists>s'. map_option snd (unpublish_info h (U (It i)) x st w) = Some s' \<and> ?J xs s'"
        using w'(1) J by simp
    qed
    then show ?thesis using it fs sct same I by auto
  qed
  have "\<exists>s'. unpublish_items h a st s = Some s' \<and> ?I [] s'"
    unfolding unpublish_items_def sc Option.bind.bind_lunit
    by (rule fold_opt_total [where I = ?I], use h(7) [OF sc] items_unpublished_refl [OF assms(1)] in simp, rule outer)
  then show ?thesis by blast
qed

lemma host_off_scope:
  assumes "rv_inv s" and "b = SPub \<or> b = SSub" and "rv_scopes s i = Some it" and "x \<in> own s (Sc i)" and "known s h"
    and "s1 = put_scope i (it\<lparr>sc_ids := hm_set x (upd_side b (hs_erase h) (pair_at s (Sc i) x)) (sc_ids it)\<rparr>) s"
  shows "\<exists>s2. host_del b h x s1 = Some s2 \<and> rv_inv s2 \<and> own s2 = own s \<and> par s2 = par s \<and> live s2 = live s \<and>
    known s2 = known s \<and> graph_book s2 = (graph_book s)(b := graph_book s b - {(x, h)})"
proof -
  note pp = put_pair_scope [OF assms(3,4,6)]
  have bo: "book_obj b i = Sc i" using assms(2) by auto
  have "pair_step b i x (hs_erase h) s s1" using pp by (simp add: pair_step_def bo)
  from del_host_inv [OF assms(1) this _ assms(5)] bo assms(4) obtain s2 where s2: "host_del b h x s1 = Some s2"
    "rv_inv s2" "own s2 = own s" "skel s2 = skel s" "known s2 = known s"
    "graph_book s2 = (graph_book s)(b := graph_book s b - {(x, h)})" by auto
  then show ?thesis using skel_view [OF s2(4)] by blast
qed

text \<open>The last part of both operations.\<close>

lemma drop_scope_ok:
  assumes "rv_inv s" and "p @ ID \<in> own s (Sc a)" and "length ID = 8"
  shows "\<exists>s'. (case hm_get (scopeIndex s) p of Some f \<Rightarrow> drop_inner_scope f a (p @ ID) s | None \<Rightarrow> drop_root_scope a s) = Some s' \<and>
    rv_inv s' \<and> graph_book s' = graph_book s \<and> known s' = known s"
proof (cases "hm_get (scopeIndex s) p")
  case (Some f)
  then have "p \<in> own s (Sc f)" using index_Sc [OF rv_inv_parts(5) [OF assms(1)]] by simp
  from drop_inner_scope_ok [OF assms this] Some show ?thesis by simp
next
  case None
  obtain U where U: "graph_ok U s" using rv_inv_parts(2) [OF assms(1)] by blast
  then have b: "back_ok s" by (simp add: graph_ok_def pre_graph_def)
  have "p = []"
  proof (rule ccontr)
    assume "p \<noteq> []"
    from father_of_id [OF U assms(2,3) this] obtain f where "p \<in> own s (Sc f)" by blast
    then show False using None index_Sc [OF rv_inv_parts(5) [OF assms(1)]] by (metis option.distinct(1))
  qed
  then have "par s (Sc a) = {}" using b assms(2,3) unfolding back_ok_def by metis
  from drop_root_scope_ok [OF assms(1) own_live [OF assms(2)] this] None show ?thesis by simp
qed

definition scope_unpublished :: "bstr \<Rightarrow> host \<Rightarrow> rv \<Rightarrow> rv_ret \<Rightarrow> rv \<Rightarrow> bool" where
  "scope_unpublished x h s r s' \<longleftrightarrow> rv_inv s' \<and> known s' = known s \<and>
     (r = SUCCESS \<longrightarrow> (x, h) \<in> graph_book s SPub) \<and>
     graph_book s' SPub = (if r = SUCCESS then graph_book s SPub - {(x, h)} else graph_book s SPub) \<and>
     graph_book s' SSub = graph_book s SSub \<and> graph_book s' ISub = graph_book s ISub \<and>
     graph_book s' IPub \<subseteq> graph_book s IPub \<and> graph_book s IPub - UNIV \<times> {h} \<subseteq> graph_book s' IPub"

lemma unpublish_scope_ok:
  assumes "rv_inv s" and "known s h" and "length ID = 8"
  shows "\<exists>r s'. unpublish_scope h ID p st s = Some (r, s') \<and> scope_unpublished (p @ ID) h s r s'"
proof (cases "hm_get (scopeIndex s) (p @ ID)")
  case None
  then show ?thesis using assms(1)
    by (intro exI [of _ SCOPE_DOES_NOT_EXIST] exI [of _ s]) (auto simp: unpublish_scope_def scope_unpublished_def)
next
  case (Some a)
  note ix = rv_inv_parts(5) [OF assms(1)]
  have x: "p @ ID \<in> own s (Sc a)" using index_Sc [OF ix] Some by simp
  obtain sc where sc: "rv_scopes s a = Some sc" using own_live [OF x] by (auto simp: live_Sc)
  show ?thesis
  proof (cases "sc_strategy sc = st")
    case False
    then show ?thesis using assms(1) Some sc
      by (intro exI [of _ STRATEGY_MISMATCH] exI [of _ s]) (auto simp: unpublish_scope_def scope_unpublished_def)
  next
    case st: True
    from unpublish_items_ok [OF assms(1,2) own_live [OF x], of st] obtain s1 where
      s1: "unpublish_items h a st s = Some s1" "items_unpublished h s s1" by blast
    then have i1: "rv_inv s1" and k1: "known s1 h" and o1: "\<And>b. own s1 (Sc b) = own s (Sc b)"
      using assms(2) by (simp_all add: items_unpublished_def)
    note ix1 = rv_inv_parts(5) [OF i1]
    have father: "hm_get (scopeIndex s1) p = hm_get (scopeIndex s) p"
    proof -
      have "hm_get (scopeIndex s1) p = Some f \<longleftrightarrow> hm_get (scopeIndex s) p = Some f" for f
        using index_Sc [OF ix] index_Sc [OF ix1] o1 by simp
      then show ?thesis by (metis not_None_eq)
    qed
    have x1: "p @ ID \<in> own s1 (Sc a)" using x o1 by simp
    obtain sc1 where sc1: "rv_scopes s1 a = Some sc1" using own_live [OF x1] by (auto simp: live_Sc)
    note g = own_pair_Sc [OF sc1 x1]
    let ?pr = "pair_at s1 (Sc a) (p @ ID)"
    have at: "(p @ ID, h) \<in> graph_book s SPub \<longleftrightarrow> h \<in> set (fst ?pr)"
      using graph_book_at [OF ix1, of "p @ ID" SPub a h] x1 s1(2) by (simp add: items_unpublished_def)
    show ?thesis
    proof (cases "h \<in> set (fst ?pr)")
      case False
      then show ?thesis using s1 Some sc st sc1 g
        by (intro exI [of _ DOES_NOT_EXIST] exI [of _ s1])
          (auto simp: unpublish_scope_def scope_unpublished_def items_unpublished_def)
    next
      case True
      define s2 where "s2 = put_scope a (sc1\<lparr>sc_ids := hm_set (p @ ID) (upd_side SPub (hs_erase h) ?pr) (sc_ids sc1)\<rparr>) s1"
      from host_off_scope [OF i1 disjI1 [OF refl] sc1 x1 k1 s2_def] obtain s3 where s3:
        "host_del SPub h (p @ ID) s2 = Some s3" "rv_inv s3" "own s3 = own s1" "known s3 = known s1"
        "graph_book s3 = (graph_book s1)(SPub := graph_book s1 SPub - {(p @ ID, h)})" by blast
      have "p @ ID \<in> own s3 (Sc a)" using x1 s3(3) by simp
      from drop_scope_ok [OF s3(2) this assms(3)] obtain s4 where s4:
        "(case hm_get (scopeIndex s3) p of Some f \<Rightarrow> drop_inner_scope f a (p @ ID) s3 | None \<Rightarrow> drop_root_scope a s3) = Some s4"
        "rv_inv s4" "graph_book s4 = graph_book s3" "known s4 = known s3" by blast
      have fa3: "hm_get (scopeIndex s3) p = hm_get (scopeIndex s) p"
      proof -
        have "hm_get (scopeIndex s3) p = Some f \<longleftrightarrow> hm_get (scopeIndex s1) p = Some f" for f
          using index_Sc [OF rv_inv_parts(5) [OF s3(2)]] index_Sc [OF ix1] s3(3) by simp
        then show ?thesis using father by (metis not_None_eq)
      qed
      have "unpublish_scope h ID p st s = Some (SUCCESS, s4)"
        using Some sc st s1(1) sc1 g True s3(1) s4(1)
        by (cases "hm_get (scopeIndex s) p") (simp_all add: unpublish_scope_def s2_def fa3)
      moreover have "scope_unpublished (p @ ID) h s SUCCESS s4"
        using s4(2-4) s3(4,5) s1(2) at True by (auto simp: scope_unpublished_def items_unpublished_def)
      ultimately show ?thesis by blast
    qed
  qed
qed

lemma unsubscribe_scope_ok:
  assumes "rv_inv s" and "known s h" and "length ID = 8"
  shows "\<exists>r s'. unsubscribe_scope h ID p st s = Some (r, s') \<and> removes SSub (p @ ID) h s r s'"
proof (cases "hm_get (scopeIndex s) (p @ ID)")
  case None
  then show ?thesis using assms(1)
    by (intro exI [of _ SCOPE_DOES_NOT_EXIST] exI [of _ s]) (simp add: unsubscribe_scope_def removes_def)
next
  case (Some a)
  note ix = rv_inv_parts(5) [OF assms(1)]
  have x: "p @ ID \<in> own s (Sc a)" using index_Sc [OF ix] Some by simp
  obtain sc where sc: "rv_scopes s a = Some sc" using own_live [OF x] by (auto simp: live_Sc)
  note g = own_pair_Sc [OF sc x]
  let ?pr = "pair_at s (Sc a) (p @ ID)"
  show ?thesis
  proof (cases "sc_strategy sc = st")
    case False
    then show ?thesis using assms(1) Some sc
      by (intro exI [of _ STRATEGY_MISMATCH] exI [of _ s]) (simp add: unsubscribe_scope_def removes_def)
  next
    case st: True
    show ?thesis
    proof (cases "h \<in> set (snd ?pr)")
      case False
      then show ?thesis using assms(1) Some sc st g
        by (intro exI [of _ DOES_NOT_EXIST] exI [of _ s]) (simp add: unsubscribe_scope_def removes_def)
    next
      case True
      have was: "(p @ ID, h) \<in> graph_book s SSub" using graph_book_at [OF ix, of "p @ ID" SSub a h] x True by simp
      define s1 where "s1 = put_scope a (sc\<lparr>sc_ids := hm_set (p @ ID) (upd_side SSub (hs_erase h) ?pr) (sc_ids sc)\<rparr>) s"
      from host_off_scope [OF assms(1) disjI2 [OF refl] sc x assms(2) s1_def] obtain s2 where s2:
        "host_del SSub h (p @ ID) s1 = Some s2" "rv_inv s2" "own s2 = own s" "par s2 = par s" "live s2 = live s"
        "known s2 = known s" "graph_book s2 = (graph_book s)(SSub := graph_book s SSub - {(p @ ID, h)})" by blast
      obtain sc2 where sc2: "rv_scopes s2 a = Some sc2" using own_live [OF x, folded s2(5)] by (auto simp: live_Sc)
      note kids = children_live [OF rv_heap_ok [OF s2(2)] sc2]
      have "\<exists>s3. fold_opt rendezvous_all (hs_union [] (informationitems sc2)) s2 = Some s3 \<and> quiet s2 s3"
      proof (rule fold_quiet)
        fix i t assume it: "i \<in> set (hs_union [] (informationitems sc2))" and qt: "quiet s2 t"
        then have "live t (It i)" using kids(2) quiet_view(5) [OF qt] by simp
        from rendezvous_all_ok [OF rv_heap_ok [OF quiet_inv [OF qt s2(2)]] this]
        show "\<exists>t'. rendezvous_all i t = Some t' \<and> quiet t t'" .
      qed
      then obtain s3 where s3: "fold_opt rendezvous_all (hs_union [] (informationitems sc2)) s2 = Some s3" "quiet s2 s3" by blast
      note q = quiet_view [OF s3(2)]
      have i3: "rv_inv s3" by (rule quiet_inv [OF s3(2) s2(2)])
      have "p @ ID \<in> own s3 (Sc a)" using x by (simp add: q s2)
      from drop_scope_ok [OF i3 this assms(3)] obtain s4 where s4:
        "(case hm_get (scopeIndex s3) p of Some f \<Rightarrow> drop_inner_scope f a (p @ ID) s3 | None \<Rightarrow> drop_root_scope a s3) = Some s4"
        "rv_inv s4" "graph_book s4 = graph_book s3" "known s4 = known s3" by blast
      have fa: "hm_get (scopeIndex s3) p = hm_get (scopeIndex s) p"
      proof -
        have "hm_get (scopeIndex s3) p = Some f \<longleftrightarrow> hm_get (scopeIndex s) p = Some f" for f
          using index_Sc [OF rv_inv_parts(5) [OF i3]] index_Sc [OF ix] s2(3) q(1) by simp
        then show ?thesis by (metis not_None_eq)
      qed
      have "unsubscribe_scope h ID p st s = Some (SUCCESS, s4)"
        using Some sc st g True s2(1) sc2 s3(1) s4(1)
        by (cases "hm_get (scopeIndex s) p") (simp_all add: unsubscribe_scope_def s1_def fa Scope_getInformationItems_def)
      moreover have "removes SSub (p @ ID) h s SUCCESS s4"
        using s4(2-4) s2(6,7) q was by (simp add: removes_def)
      ultimately show ?thesis by blast
    qed
  qed
qed

subsection \<open>Any request\<close>

text \<open>
  What the requests do to the four books, seen from outside: a publish or subscribe request that
  succeeds adds one entry, an unpublish or unsubscribe request that succeeds takes one away, and
  unpublishing a scope may in addition take the same host off items.
\<close>

type_synonym books = "book \<Rightarrow> (bstr \<times> host) set"

datatype effect = Adds book | Removes book | No_Effect

definition rq_effect :: "byte \<Rightarrow> effect" where
  "rq_effect t =
     (if t = PUBLISH_SCOPE then Adds SPub else if t = PUBLISH_INFO then Adds IPub
      else if t = SUBSCRIBE_SCOPE then Adds SSub else if t = SUBSCRIBE_INFO then Adds ISub
      else if t = UNPUBLISH_SCOPE then Removes SPub else if t = UNPUBLISH_INFO then Removes IPub
      else if t = UNSUBSCRIBE_SCOPE then Removes SSub else if t = UNSUBSCRIBE_INFO then Removes ISub
      else No_Effect)"

text \<open>The identifier a request is about; a longer ID names an object that gets a further father.\<close>

definition rq_fullID :: "request \<Rightarrow> bstr" where
  "rq_fullID r = rq_prefixID r @ drop (length (rq_ID r) - PURSUIT_ID_LEN) (rq_ID r)"

definition book_step :: "effect \<Rightarrow> bstr \<Rightarrow> host \<Rightarrow> rv_ret \<Rightarrow> books \<Rightarrow> books \<Rightarrow> bool" where
  "book_step e x h ret B B' = (case e of
     Adds b \<Rightarrow> if ret = SUCCESS then (x, h) \<notin> B b \<and> B' = B(b := insert (x, h) (B b)) else B' = B
   | Removes b \<Rightarrow> (if ret = SUCCESS then (x, h) \<in> B b \<and> B' b = B b - {(x, h)} else B' b = B b) \<and>
       (\<forall>c. c \<noteq> b \<longrightarrow> (b = SPub \<and> c = IPub) \<or> B' c = B c) \<and>
       (b = SPub \<longrightarrow> B' IPub \<subseteq> B IPub \<and> B IPub - UNIV \<times> {h} \<subseteq> B' IPub)
   | No_Effect \<Rightarrow> B' = B)"

text \<open>
  The requests the element is safe for: a node label of eight bytes, a single fragment in the
  requests that take something away, and no scope published again below itself.
\<close>

definition rq_ok :: "request \<Rightarrow> rv \<Rightarrow> bool" where
  "rq_ok r s \<longleftrightarrow> length (rq_node r) = NODEID_LEN \<and>
     (rq_type r \<in> {UNPUBLISH_SCOPE, UNPUBLISH_INFO, UNSUBSCRIBE_SCOPE, UNSUBSCRIBE_INFO} \<longrightarrow> length (rq_ID r) = PURSUIT_ID_LEN) \<and>
     (rq_type r = PUBLISH_SCOPE \<longrightarrow> length (rq_ID r) > PURSUIT_ID_LEN \<longrightarrow> rq_prefixID r \<noteq> [] \<longrightarrow>
        republish_ok (rq_ID r) (rq_prefixID r) s)"

definition request_done :: "request \<Rightarrow> host \<Rightarrow> rv \<Rightarrow> rv_ret \<Rightarrow> rv \<Rightarrow> bool" where
  "request_done r h s ret s' \<longleftrightarrow> rv_inv s' \<and> known s' = known s \<and>
     book_step (rq_effect (rq_type r)) (rq_fullID r) h ret (graph_book s) (graph_book s')"

lemma adds_done: "adds b (rq_fullID r) h s ret s' \<Longrightarrow> rq_effect (rq_type r) = Adds b \<Longrightarrow> request_done r h s ret s'"
  by (auto simp: adds_def request_done_def book_step_def)

lemma removes_done:
  "removes b (rq_fullID r) h s ret s' \<Longrightarrow> rq_effect (rq_type r) = Removes b \<Longrightarrow> b \<noteq> SPub \<Longrightarrow> request_done r h s ret s'"
  by (cases "ret = SUCCESS") (simp_all add: removes_def request_done_def book_step_def)

lemma scope_unpublished_done:
  assumes "scope_unpublished (rq_fullID r) h s ret s'" and "rq_effect (rq_type r) = Removes SPub"
  shows "request_done r h s ret s'"
proof -
  have "graph_book s' c = graph_book s c" if "c \<noteq> SPub" "c \<noteq> IPub" for c
    using that assms(1) by (cases c) (simp_all add: scope_unpublished_def)
  then show ?thesis
    using assms by (cases "ret = SUCCESS") (auto simp: scope_unpublished_def request_done_def book_step_def)
qed

lemma split_ID: "length x > 8 \<Longrightarrow> \<exists>q u. x = q @ u \<and> length u = 8 \<and> q \<noteq> [] \<and> drop (length x - 8) x = u"
  by (rule exI [of _ "take (length x - 8) x"], rule exI [of _ "drop (length x - 8) x"]) auto

lemma publish_scope_ok:
  assumes "rv_inv s" and "known s h" and "length ID > 8 \<Longrightarrow> p \<noteq> [] \<Longrightarrow> republish_ok ID p s"
  shows "\<exists>ret s'. publish_scope h ID p st s = Some (ret, s') \<and> adds SPub (p @ drop (length ID - 8) ID) h s ret s'"
proof -
  consider (root) "p = []" "length ID = 8" | (inner) "p \<noteq> []" "length ID = 8" | (again) "p \<noteq> []" "length ID > 8"
    | (wrong) "length ID < 8 \<or> (p = [] \<and> length ID \<noteq> 8)" by fastforce
  then show ?thesis
  proof cases
    case root
    then show ?thesis using publish_root_scope_ok [OF assms(1,2), of ID st] by (simp add: publish_scope_def)
  next
    case inner
    then show ?thesis using publish_inner_scope_ok [OF assms(1,2), of ID p st] by (simp add: publish_scope_def)
  next
    case again
    from split_ID [OF again(2)] obtain q u where q: "ID = q @ u" "length u = 8" "q \<noteq> []" "drop (length ID - 8) ID = u" by blast
    from republish_inner_scope_ok [OF assms(1,2) q(2,3) assms(3) [OF again(2,1), unfolded q(1)], of st]
    show ?thesis using again q by (simp add: publish_scope_def)
  next
    case wrong
    then have "publish_scope h ID p st s = Some (WRONG_IDS, s)" by (auto simp: publish_scope_def)
    then show ?thesis using assms(1) by simp
  qed
qed

lemma publish_info_ok:
  assumes "rv_inv s" and "known s h"
  shows "\<exists>ret s'. publish_info h ID p st s = Some (ret, s') \<and> adds IPub (p @ drop (length ID - 8) ID) h s ret s'"
proof -
  consider (one) "p \<noteq> []" "length ID = 8" | (again) "p \<noteq> []" "length ID > 8"
    | (wrong) "length ID < 8 \<or> p = []" by fastforce
  then show ?thesis
  proof cases
    case one
    then show ?thesis using advertise_info_ok [OF assms, of ID p st] by (simp add: publish_info_def)
  next
    case again
    from split_ID [OF again(2)] obtain q u where q: "ID = q @ u" "length u = 8" "q \<noteq> []" "drop (length ID - 8) ID = u" by blast
    from readvertise_info_ok [OF assms q(2,3), of p st] show ?thesis using again q by (simp add: publish_info_def)
  next
    case wrong
    then have "publish_info h ID p st s = Some (WRONG_IDS, s)" by (auto simp: publish_info_def)
    then show ?thesis using assms(1) by simp
  qed
qed

lemma subscribe_scope_ok:
  assumes "rv_inv s" and "known s h"
  shows "\<exists>ret s'. subscribe_scope h ID p st s = Some (ret, s') \<and> adds SSub (p @ drop (length ID - 8) ID) h s ret s'"
proof (cases "length ID = 8")
  case True
  then show ?thesis using subscribe_root_scope_ok [OF assms, of ID st] subscribe_inner_scope_ok [OF assms, of ID p st]
    by (cases "p = []") (simp_all add: subscribe_scope_def)
next
  case False
  then show ?thesis using assms(1) by (simp add: subscribe_scope_def)
qed

lemma subscribe_info_done:
  assumes "rv_inv s" and "known s h"
  shows "\<exists>ret s'. subscribe_info h ID p st s = Some (ret, s') \<and> adds ISub (p @ drop (length ID - 8) ID) h s ret s'"
proof (cases "length ID = 8")
  case True
  then show ?thesis using subscribe_info_ok [OF assms, of ID p st] by simp
next
  case False
  then have "subscribe_info h ID p st s = Some (WRONG_IDS, s)" by (simp add: subscribe_info_def)
  then show ?thesis using assms(1) by simp
qed

lemma LocalRV_dispatch_ok:
  assumes "rv_inv s" and "known s h" and "rq_ok r s"
  shows "\<exists>ret s'. LocalRV_dispatch h r s = Some (ret, s') \<and> request_done r h s ret s'"
proof -
  let ?t = "rq_type r" and ?x = "rq_ID r" and ?p = "rq_prefixID r" and ?st = "rq_strategy r"
  have full: "?p @ drop (length ?x - 8) ?x = rq_fullID r" by (simp add: rq_fullID_def)
  have one: "?p @ ?x = rq_fullID r" if "length ?x = 8" using that by (simp add: rq_fullID_def)
  note eff = rq_effect_def LocalRV_dispatch_def Let_def
  consider "?t = PUBLISH_SCOPE" | "?t = PUBLISH_INFO" | "?t = SUBSCRIBE_SCOPE" | "?t = SUBSCRIBE_INFO"
    | "?t = UNPUBLISH_SCOPE" | "?t = UNPUBLISH_INFO" | "?t = UNSUBSCRIBE_SCOPE" | "?t = UNSUBSCRIBE_INFO"
    | (other) "?t \<notin> {PUBLISH_SCOPE, PUBLISH_INFO, SUBSCRIBE_SCOPE, SUBSCRIBE_INFO, UNPUBLISH_SCOPE, UNPUBLISH_INFO,
        UNSUBSCRIBE_SCOPE, UNSUBSCRIBE_INFO}" by blast
  then show ?thesis
  proof cases
    case 1
    have e: "rq_effect ?t = Adds SPub" using 1 by (simp add: rq_effect_def)
    have "republish_ok ?x ?p s" if "length ?x > 8" "?p \<noteq> []" using assms(3) 1 that by (simp add: rq_ok_def)
    from publish_scope_ok [OF assms(1,2) this, of ?st] obtain ret s' where
      "publish_scope h ?x ?p ?st s = Some (ret, s')" "adds SPub (rq_fullID r) h s ret s'" unfolding full by blast
    then show ?thesis using adds_done e 1 by (simp add: LocalRV_dispatch_def)
  next
    case 2
    have e: "rq_effect ?t = Adds IPub" using 2 by (simp add: rq_effect_def)
    from publish_info_ok [OF assms(1,2), of ?x ?p ?st] obtain ret s' where
      "publish_info h ?x ?p ?st s = Some (ret, s')" "adds IPub (rq_fullID r) h s ret s'" unfolding full by blast
    then show ?thesis using adds_done e 2 by (simp add: LocalRV_dispatch_def)
  next
    case 3
    have e: "rq_effect ?t = Adds SSub" using 3 by (simp add: rq_effect_def)
    from subscribe_scope_ok [OF assms(1,2), of ?x ?p ?st] obtain ret s' where
      "subscribe_scope h ?x ?p ?st s = Some (ret, s')" "adds SSub (rq_fullID r) h s ret s'" unfolding full by blast
    then show ?thesis using adds_done e 3 by (simp add: LocalRV_dispatch_def)
  next
    case 4
    have e: "rq_effect ?t = Adds ISub" using 4 by (simp add: rq_effect_def)
    from subscribe_info_done [OF assms(1,2), of ?x ?p ?st] obtain ret s' where
      "subscribe_info h ?x ?p ?st s = Some (ret, s')" "adds ISub (rq_fullID r) h s ret s'" unfolding full by blast
    then show ?thesis using adds_done e 4 by (simp add: LocalRV_dispatch_def)
  next
    case 5
    then have l: "length ?x = 8" and e: "rq_effect ?t = Removes SPub" using assms(3) by (simp_all add: rq_ok_def rq_effect_def)
    from unpublish_scope_ok [OF assms(1,2) l, of ?p ?st] obtain ret s' where
      "unpublish_scope h ?x ?p ?st s = Some (ret, s')" "scope_unpublished (rq_fullID r) h s ret s'" unfolding one [OF l] by blast
    then show ?thesis using scope_unpublished_done e 5 by (simp add: LocalRV_dispatch_def)
  next
    case 6
    then have l: "length ?x = 8" and e: "rq_effect ?t = Removes IPub" using assms(3) by (simp_all add: rq_ok_def rq_effect_def)
    from unpublish_info_ok [OF assms(1,2) l, of ?p ?st] obtain ret s' where
      "unpublish_info h ?x ?p ?st s = Some (ret, s')" "removes IPub (rq_fullID r) h s ret s'" unfolding one [OF l] by blast
    then show ?thesis using removes_done e 6 by (simp add: LocalRV_dispatch_def)
  next
    case 7
    then have l: "length ?x = 8" and e: "rq_effect ?t = Removes SSub" using assms(3) by (simp_all add: rq_ok_def rq_effect_def)
    from unsubscribe_scope_ok [OF assms(1,2) l, of ?p ?st] obtain ret s' where
      "unsubscribe_scope h ?x ?p ?st s = Some (ret, s')" "removes SSub (rq_fullID r) h s ret s'" unfolding one [OF l] by blast
    then show ?thesis using removes_done e 7 by (simp add: LocalRV_dispatch_def)
  next
    case 8
    then have l: "length ?x = 8" and e: "rq_effect ?t = Removes ISub" using assms(3) by (simp_all add: rq_ok_def rq_effect_def)
    from unsubscribe_info_ok [OF assms(1,2) l, of ?p ?st] obtain ret s' where
      "unsubscribe_info h ?x ?p ?st s = Some (ret, s')" "removes ISub (rq_fullID r) h s ret s'" unfolding one [OF l] by blast
    then show ?thesis using removes_done e 8 by (simp add: LocalRV_dispatch_def)
  next
    case other
    then have "LocalRV_dispatch h r s = Some (UNKNOWN_REQUEST_TYPE, s)" "rq_effect ?t = No_Effect"
      by (simp_all add: rq_effect_def LocalRV_dispatch_def)
    then show ?thesis using assms(1) by (simp add: request_done_def book_step_def)
  qed
qed

text \<open>A host that asks for the first time gets an empty record.\<close>

lemma getRemoteHost_ok:
  assumes "rv_inv s" and "length node = NODEID_LEN" and "getRemoteHost node s = (h, s1)"
  shows "h = node" "rv_inv s1" "known s1 = (known s)(node := True)" "graph_book s1 = graph_book s"
    "rv_scopes s1 = rv_scopes s" "scopeIndex s1 = scopeIndex s"
proof -
  have hs: "h = node \<and> heap_view s1 = heap_view s" if "heap_view = (\<lambda>s. (rv_scopes s, rv_items s, scopeIndex s, pubIndex s, rv_next s, rv_gc s, rv_msgs s))"
    for heap_view :: "rv \<Rightarrow> _" using assms(3) that by (auto simp: getRemoteHost_def split: option.splits)
  from hs [OF refl] have v: "h = node" "rv_scopes s1 = rv_scopes s" "rv_items s1 = rv_items s" "scopeIndex s1 = scopeIndex s"
    "pubIndex s1 = pubIndex s" "rv_next s1 = rv_next s" "rv_gc s1 = rv_gc s" "rv_msgs s1 = rv_msgs s" by simp_all
  show "h = node" "rv_scopes s1 = rv_scopes s" "scopeIndex s1 = scopeIndex s" by (fact v)+
  note pr = view_cong(1-) [OF v(2,3)]
  have pa: "pair_at s1 = pair_at s" using view_cong [OF v(2,3)] by simp
  show gb: "graph_book s1 = graph_book s" by (rule graph_book_pair [OF pa])
  show k: "known s1 = (known s)(node := True)"
    using assms(3) by (auto simp: getRemoteHost_def known_def fun_eq_iff split: option.splits)
  have hb: "host_book s1 b = host_book s b" for b
    using assms(3) by (cases b) (auto simp: getRemoteHost_def host_book_def new_remote_host_def split: option.splits if_splits)
  have wf: "hm_wf (pub_sub_Index s1)" if "hm_wf (pub_sub_Index s)"
    using assms(3) that by (auto simp: getRemoteHost_def split: option.splits)
  obtain U where "graph_ok U s" using rv_inv_parts(2) [OF assms(1)] by blast
  then have "graph_ok U s1" by (rule graph_ok_same [OF _ same_heap_graph [OF v(2-6)]])
  then show "rv_inv s1"
    using assms(1,2) wf gb hb k pa v(7,8) by (auto simp: rv_inv_def books_ok_def hosts_ok_def msgs_known_def)
qed

lemma LocalRV_request_aux:
  assumes "rv_inv s" and "rq_ok r s"
  shows "\<exists>ret s'. LocalRV_request r s = Some (ret, s') \<and> rv_inv s' \<and> known s' = (known s)(rq_node r := True) \<and>
    book_step (rq_effect (rq_type r)) (rq_fullID r) (rq_node r) ret (graph_book s) (graph_book s')"
proof -
  obtain h s1 where g: "getRemoteHost (rq_node r) s = (h, s1)" by force
  have "length (rq_node r) = NODEID_LEN" using assms(2) by (simp add: rq_ok_def)
  note gh = getRemoteHost_ok [OF assms(1) this g]
  have "rq_ok r s1" using assms(2) unfolding rq_ok_def republish_ok_def gh(5,6) .
  moreover have "known s1 h" using gh(1,3) by simp
  ultimately obtain ret s' where "LocalRV_dispatch h r s1 = Some (ret, s')" "request_done r h s1 ret s'"
    using LocalRV_dispatch_ok [OF gh(2)] by blast
  then show ?thesis using g gh(1,3,4) by (simp add: LocalRV_request_def request_done_def)
qed

subsection \<open>The packets of a request\<close>

text \<open>
  A message for the topology manager fits its buffer when its identifiers have at most 255 bytes in
  all and the node has been given a path to the topology manager; the other messages always do.
\<close>

fun msg_fits :: "globalconf \<Rightarrow> rv_msg \<Rightarrow> bool" where
  "msg_fits gc (TM_Rendezvous strategy ps ss IDs) \<longleftrightarrow> TMFID gc \<noteq> bv_empty \<and> sum_list (map length IDs) < 256"
| "msg_fits gc (TM_Notify type strategy ss IDs) \<longleftrightarrow> TMFID gc \<noteq> bv_empty \<and> sum_list (map length IDs) < 256"
| "msg_fits gc (Local_Publisher start IDs) \<longleftrightarrow> True"
| "msg_fits gc (Local_Subscriber type IDs) \<longleftrightarrow> True"

lemma gc_wf_fids:
  assumes "gc_wf gc"
  shows "fid_mem (iLID gc) = Some (fid_bytes (iLID gc))" "length (fid_bytes (iLID gc)) = 32"
    "TMFID gc \<noteq> bv_empty \<Longrightarrow> fid_mem (TMFID gc) = Some (fid_bytes (TMFID gc)) \<and> length (fid_bytes (TMFID gc)) = 32"
    "length (nodeTMScope gc) = 16" "length (notificationIID gc) = 16"
  using assms by (auto simp: gc_wf_def fid_mem_fid length_fid_bytes)

lemma length_concat8: "\<forall>h \<in> set hs. length h = 8 \<Longrightarrow> length (concat hs) = length hs * 8"
  by (induction hs) auto

lemma length_tm_ids: "length (tm_ids IDs) = length IDs + sum_list (map length IDs)"
  by (induction IDs) (auto simp: tm_ids_def)

lemma length_notification_ids_le:
  "length (concat (map (\<lambda>x. u8 (id_len8 x) # take (id_len8 x * PURSUIT_ID_LEN) x) IDs)) \<le> length IDs + sum_list (map length IDs)"
  by (induction IDs) auto

lemma notification_ids_fit: "length (notification_ids IDs) \<le> length IDs mod 256 + sum_list (map length IDs)"
proof -
  let ?k = "length IDs mod 256"
  have "length (notification_ids IDs) \<le> length (take ?k IDs) + sum_list (map length (take ?k IDs))"
    unfolding notification_ids_def by (rule length_notification_ids_le)
  moreover have "sum_list (map length (take ?k IDs)) \<le> sum_list (map length IDs)"
    by (metis append_take_drop_id le_add1 map_append sum_list_append)
  ultimately show ?thesis by simp
qed

lemma pk_make_ok: "length bs \<le> n \<Longrightarrow> \<exists>p. pk_make n bs = Some p"
  by (simp add: pk_make_def)

lemma notification_packet_ok:
  assumes "gc_wf gc"
  shows "\<exists>p. notification_packet gc type IDs tail = Some p"
proof -
  note g = gc_wf_fids [OF assms]
  obtain p where "pk_make (1 + 1 + length (notificationIID gc) + 1 + FID_LEN + 1 + 1 + length IDs mod 256
         + sum_list (map length IDs) + length tail)
       ([PUBLISH_DATA, u8 (length (notificationIID gc) div PURSUIT_ID_LEN)] @ notificationIID gc @
        [IMPLICIT_RENDEZVOUS] @ fid_bytes (iLID gc) @ [type, u8 (length IDs)] @ notification_ids IDs @ tail) = Some p"
    using pk_make_ok notification_ids_fit [of IDs] g(2) by fastforce
  then show ?thesis using g(1) by (simp add: notification_packet_def)
qed

lemma msg_packet_ok:
  assumes "gc_wf gc" and "msg_fits gc m" and "\<forall>h \<in> set (msg_hosts m). length h = 8"
  shows "\<exists>p. msg_packet gc m = Some p"
proof -
  note g = gc_wf_fids [OF assms(1)]
  show ?thesis
  proof (cases m)
    case (TM_Rendezvous st ps ss IDs)
    then have l: "length (concat ps) = length ps * 8" "length (concat ss) = length ss * 8" "TMFID gc \<noteq> bv_empty"
      "total_bytes8 IDs = sum_list (map length IDs)"
      using assms(2,3) length_concat8 [of ps] length_concat8 [of ss] by (auto simp: total_bytes8_def)
    then show ?thesis using g(3) [OF l(3)] g(4)
      by (simp add: TM_Rendezvous requestTMAssistanceForRendezvous_def pk_make_def length_tm_ids)
  next
    case (TM_Notify ty st ss IDs)
    then have l: "length (concat ss) = length ss * 8" "TMFID gc \<noteq> bv_empty"
      "total_bytes8 IDs = sum_list (map length IDs)"
      using assms(2,3) length_concat8 by (simp_all add: total_bytes8_def)
    then show ?thesis using g(3) [OF l(2)] g(4)
      by (simp add: TM_Notify requestTMAssistanceForNotifyingSubscribers_def pk_make_def length_tm_ids)
  next
    case (Local_Publisher start IDs)
    then show ?thesis using notification_packet_ok [OF assms(1)] g(1)
      by (cases start) (simp_all add: notifyLocalPublisher_def)
  next
    case (Local_Subscriber ty IDs)
    then show ?thesis using notification_packet_ok [OF assms(1)] by (simp add: notifyLocalSubscriber_def)
  qed
qed

text \<open>The identifiers of a rendezvous request that does not fit are written past its end.\<close>

lemma rendezvous_overrun:
  assumes "gc_wf gc" and "\<forall>h \<in> set (ps @ ss). length h = 8" and "256 \<le> sum_list (map length IDs)"
  shows "msg_packet gc (TM_Rendezvous st ps ss IDs) = None"
proof (cases "fid_mem (TMFID gc)")
  case (Some fid)
  have "TMFID gc \<noteq> bv_empty" using Some by (auto simp: fid_mem_def bv_empty_def)
  then have fl: "length fid = 32" using gc_wf_fids(3) [OF assms(1)] Some by simp
  have "length (concat ps) = length ps * 8" "length (concat ss) = length ss * 8" using assms(2) length_concat8 [of ps] length_concat8 [of ss] by auto
  moreover have "total_bytes8 IDs < sum_list (map length IDs)"
    using assms(3) pos_mod_bound [of 256 "int (sum_list (map length IDs))"] unfolding total_bytes8_def
    by (meson less_le_trans mod_less_divisor zero_less_numeral)
  ultimately show ?thesis using Some fl gc_wf_fids(4) [OF assms(1)]
    by (simp add: requestTMAssistanceForRendezvous_def pk_make_def length_tm_ids)
qed (simp add: requestTMAssistanceForRendezvous_def)

subsection \<open>The element\<close>

definition rv_ready :: "rv \<Rightarrow> bool" where
  "rv_ready s \<longleftrightarrow> rv_inv s \<and> rv_msgs s = []"

lemma rv_inv_msgs_out:
  assumes "rv_inv s"
  shows "rv_ready (s\<lparr>rv_msgs := [], rv_out := ps\<rparr>)" "known (s\<lparr>rv_msgs := [], rv_out := ps\<rparr>) = known s"
    "graph_book (s\<lparr>rv_msgs := [], rv_out := ps\<rparr>) = graph_book s"
proof -
  let ?s = "s\<lparr>rv_msgs := [], rv_out := ps\<rparr>"
  have v: "rv_scopes ?s = rv_scopes s" "rv_items ?s = rv_items s" "scopeIndex ?s = scopeIndex s" "pubIndex ?s = pubIndex s"
    "rv_next ?s = rv_next s" by simp_all
  have pa: "pair_at ?s = pair_at s" using view_cong [OF v(1,2)] by simp
  show k: "known ?s = known s" by (simp add: known_def fun_eq_iff)
  show gb: "graph_book ?s = graph_book s" by (rule graph_book_pair [OF pa])
  obtain U where "graph_ok U s" using rv_inv_parts(2) [OF assms] by blast
  then have "graph_ok U ?s" by (rule graph_ok_same [OF _ same_heap_graph [OF v]])
  moreover have "host_book ?s = host_book s" by (simp add: host_book_def fun_eq_iff)
  ultimately show "rv_ready ?s" unfolding rv_ready_def
    using assms gb k pa by (auto simp: rv_inv_def books_ok_def hosts_ok_def msgs_known_def)
qed

lemma flush_msgs_ok:
  assumes "rv_inv s" and "list_all (msg_fits (rv_gc s)) (rv_msgs s)"
  shows "\<exists>ps. flush_msgs s = Some (s\<lparr>rv_msgs := [], rv_out := rv_out s @ ps\<rparr>) \<and>
    all_some (map (msg_packet (rv_gc s)) (rv_msgs s)) = Some ps"
proof -
  have "\<exists>p. msg_packet (rv_gc s) m = Some p" if "m \<in> set (rv_msgs s)" for m
  proof (rule msg_packet_ok [OF rv_inv_parts(1) [OF assms(1)]])
    show "msg_fits (rv_gc s) m" using assms(2) that by (simp add: list_all_iff)
    show "\<forall>h \<in> set (msg_hosts m). length h = 8"
      using rv_inv_parts(4,6) [OF assms(1)] that by (simp add: msgs_known_def hosts_ok_def)
  qed
  from all_some_map_ex [of "rv_msgs s" "msg_packet (rv_gc s)", OF this] obtain ps where "all_some (map (msg_packet (rv_gc s)) (rv_msgs s)) = Some ps" by blast
  then show ?thesis by (simp add: flush_msgs_def)
qed

text \<open>
  What a packet must satisfy for the element to be safe: read inside its data, a request that
  \<open>rq_ok\<close> admits, and messages that fit.
\<close>

definition rv_event_ok :: "nat \<times> packet \<Rightarrow> rv \<Rightarrow> bool" where
  "rv_event_ok e s \<longleftrightarrow> fst e \<noteq> 0 \<or> (case parse_request (snd e) of
     None \<Rightarrow> False
   | Some None \<Rightarrow> True
   | Some (Some r) \<Rightarrow> rq_ok r s \<and> (case LocalRV_request r s of
       None \<Rightarrow> True
     | Some (ret, s') \<Rightarrow> list_all (msg_fits (rv_gc s')) (rv_msgs s')))"

definition rv_step :: "nat \<times> packet \<Rightarrow> rv \<Rightarrow> rv option" where
  "rv_step e = LocalRV_push (fst e) (snd e)"

lemma rv_safe_step:
  assumes "rv_ready s" and "rv_event_ok e s"
  shows "\<exists>s'. rv_step e s = Some s' \<and> rv_ready s'"
proof (cases "fst e = 0")
  case False
  then show ?thesis using assms(1) by (simp add: rv_step_def LocalRV_push_def)
next
  case port: True
  then obtain parsed where pr: "parse_request (snd e) = Some parsed"
    using assms(2) by (auto simp: rv_event_ok_def split: option.splits)
  show ?thesis
  proof (cases parsed)
    case None
    then show ?thesis using assms(1) port pr by (simp add: rv_step_def LocalRV_push_def)
  next
    case (Some r)
    then have ok: "rq_ok r s" using assms(2) port pr by (simp add: rv_event_ok_def)
    from LocalRV_request_aux [OF _ ok] assms(1) obtain ret s' where
      s': "LocalRV_request r s = Some (ret, s')" "rv_inv s'" unfolding rv_ready_def by blast
    then have "list_all (msg_fits (rv_gc s')) (rv_msgs s')" using assms(2) port pr Some by (simp add: rv_event_ok_def)
    from flush_msgs_ok [OF s'(2) this] obtain ps where "flush_msgs s' = Some (s'\<lparr>rv_msgs := [], rv_out := rv_out s' @ ps\<rparr>)" by blast
    then show ?thesis using port pr Some s'(1) rv_inv_msgs_out(1) [OF s'(2)]
      by (simp add: rv_step_def LocalRV_push_def)
  qed
qed

interpretation rve: element rv_step rv_event_ok rv_ready
  by unfold_locales (rule rv_safe_step)

text \<open>The state after initialisation.\<close>

definition rv_empty :: "globalconf \<Rightarrow> rv" where
  "rv_empty gc = \<lparr>rv_gc = gc, rv_localProxy = [], rv_scopes = (\<lambda>_. None), rv_items = (\<lambda>_. None),
     rv_next = 0, pub_sub_Index = [], scopeIndex = [], pubIndex = [], rv_msgs = [], rv_out = []\<rparr>"

lemma rv_empty_inv:
  assumes "gc_wf gc"
  shows "rv_inv (rv_empty gc)" "\<not> known (rv_empty gc) h" "graph_book (rv_empty gc) b = {}"
proof -
  let ?s = "rv_empty gc"
  have ids: "obj_ids ?s o' = None" and fa: "obj_fathers ?s o' = []" for o' by (cases o'; simp add: rv_empty_def)+
  have own: "own ?s o' = {}" and par: "par ?s o' = {}" and pair: "pair_at ?s o' x = ([], [])" and live: "\<not> live ?s o'" for o' x
    using ids fa by (simp_all add: own_def par_def pair_at_def live_def)
  have below: "below ?s a = {}" for a by (simp add: below_def rv_empty_def)
  have "heap_ok ?s" using below par ids fa live by (simp add: heap_ok_def) (simp add: rv_empty_def)
  moreover have "index_ok ?s" using own by (simp add: index_ok_def) (simp add: rv_empty_def)
  ultimately have "graph_ok (\<lambda>_. replicate 8 0) ?s"
    using own par live by (simp add: graph_ok_def pre_graph_def sfx_ok_def back_ok_def sib_ok_def no_self_def missing_def)
  moreover show gb: "graph_book ?s b = {}" for b using pair by (cases b) (simp_all add: graph_book_def)
  moreover have "host_book ?s b = {}" for b by (simp add: host_book_def rv_empty_def)
  moreover show k: "\<not> known ?s h" for h by (simp add: known_def rv_empty_def)
  moreover have "rv_gc ?s = gc" "rv_msgs ?s = []" "pub_sub_Index ?s = []" by (simp_all add: rv_empty_def)
  ultimately show "rv_inv ?s" using assms pair by (auto simp: rv_inv_def books_ok_def hosts_ok_def msgs_known_def)
qed

lemma LocalRV_initialize_ok:
  assumes "gc_wf gc"
  shows "\<exists>s. LocalRV_initialize gc = Some s \<and> rv_ready s \<and> known s = (\<lambda>h. h = nodeID gc) \<and> graph_book s = (\<lambda>_. {}) \<and>
    rv_localProxy s = nodeID gc"
proof -
  obtain h s1 where g: "getRemoteHost (nodeID gc) (rv_empty gc) = (h, s1)" by force
  have n: "length (nodeID gc) = NODEID_LEN" using assms by (simp add: gc_wf_def)
  note r = getRemoteHost_ok [OF rv_empty_inv(1) [OF assms] n g]
  have "RVScope gc = replicate 8 255" using assms by (simp add: gc_wf_def)
  then obtain p where p: "pk_make 100 ([SUBSCRIBE_SCOPE, 1] @ RVScope gc @ [0, IMPLICIT_RENDEZVOUS]) = Some p"
    using pk_make_ok [of "[SUBSCRIBE_SCOPE, 1] @ RVScope gc @ [0, IMPLICIT_RENDEZVOUS]" 100] by auto
  have m1: "rv_msgs s1 = []" using g by (auto simp: getRemoteHost_def rv_empty_def split: option.splits)
  let ?s = "s1\<lparr>rv_localProxy := h, rv_out := [p]\<rparr>"
  have v: "rv_scopes ?s = rv_scopes s1" "rv_items ?s = rv_items s1" "scopeIndex ?s = scopeIndex s1" "pubIndex ?s = pubIndex s1"
    "rv_next ?s = rv_next s1" by simp_all
  have pa: "pair_at ?s = pair_at s1" using view_cong [OF v(1,2)] by simp
  have k: "known ?s = known s1" by (simp add: known_def fun_eq_iff)
  have gb: "graph_book ?s = graph_book s1" by (rule graph_book_pair [OF pa])
  obtain U where "graph_ok U s1" using rv_inv_parts(2) [OF r(2)] by blast
  then have "graph_ok U ?s" by (rule graph_ok_same [OF _ same_heap_graph [OF v]])
  moreover have "host_book ?s = host_book s1" by (simp add: host_book_def fun_eq_iff)
  ultimately have "rv_ready ?s"
    using r(2) gb k pa m1 by (auto simp: rv_ready_def rv_inv_def books_ok_def hosts_ok_def msgs_known_def)
  moreover have "LocalRV_initialize gc = Some ?s"
    using g p by (simp add: LocalRV_initialize_def rv_empty_def [symmetric])
  moreover have "known ?s = (\<lambda>h. h = nodeID gc)" using k r(3) rv_empty_inv(2) [OF assms] by (simp add: fun_eq_iff)
  moreover have "graph_book ?s = (\<lambda>_. {})" using gb r(4) rv_empty_inv(3) [OF assms] by (simp add: fun_eq_iff)
  ultimately show ?thesis using r(1) by simp
qed

subsection \<open>Clean-up\<close>

lemma cleanup_scopes_ok:
  assumes "\<forall>a \<in> snd ` set m. a \<in> set deleted \<or> rv_scopes s a \<noteq> None" and "\<forall>a \<in> set deleted. rv_scopes s a = None"
  shows "\<exists>s'. cleanup_scopes m deleted s = Some s' \<and> rv_scopes s' = (\<lambda>a. if a \<in> snd ` set m then None else rv_scopes s a) \<and>
    rv_items s' = rv_items s \<and> pubIndex s' = pubIndex s \<and> pub_sub_Index s' = pub_sub_Index s \<and>
    scopeIndex s' = fold hm_erase (map fst m) (scopeIndex s)"
  using assms
proof (induction m arbitrary: deleted s)
  case (Cons e m)
  obtain x a where e: "e = (x, a)" by force
  show ?case
  proof (cases "a \<in> set deleted")
    case True
    from Cons.IH [of deleted "scopeIndex_erase x s"] Cons.prems e True show ?thesis
      by (auto simp: scopeIndex_erase_def fun_eq_iff)
  next
    case False
    then obtain sc where sc: "rv_scopes s a = Some sc" using Cons.prems(1) e by auto
    let ?s = "scopeIndex_erase x (delete_scope a s)"
    have "\<forall>b \<in> snd ` set m. b \<in> set (hs_insert a deleted) \<or> rv_scopes ?s b \<noteq> None"
      "\<forall>b \<in> set (hs_insert a deleted). rv_scopes ?s b = None"
      using Cons.prems by (auto simp: scopeIndex_erase_def)
    from Cons.IH [OF this] e False sc show ?thesis by (auto simp: scopeIndex_erase_def fun_eq_iff)
  qed
qed simp

lemma cleanup_items_ok:
  assumes "\<forall>a \<in> snd ` set m. a \<in> set deleted \<or> rv_items s a \<noteq> None" and "\<forall>a \<in> set deleted. rv_items s a = None"
  shows "\<exists>s'. cleanup_items m deleted s = Some s' \<and> rv_items s' = (\<lambda>a. if a \<in> snd ` set m then None else rv_items s a) \<and>
    rv_scopes s' = rv_scopes s \<and> scopeIndex s' = scopeIndex s \<and> pub_sub_Index s' = pub_sub_Index s \<and>
    pubIndex s' = fold hm_erase (map fst m) (pubIndex s)"
  using assms
proof (induction m arbitrary: deleted s)
  case (Cons e m)
  obtain x a where e: "e = (x, a)" by force
  show ?case
  proof (cases "a \<in> set deleted")
    case True
    from Cons.IH [of deleted "pubIndex_erase x s"] Cons.prems e True show ?thesis
      by (auto simp: pubIndex_erase_def fun_eq_iff)
  next
    case False
    then obtain it where it: "rv_items s a = Some it" using Cons.prems(1) e by auto
    let ?s = "pubIndex_erase x (delete_item a s)"
    have "\<forall>b \<in> snd ` set m. b \<in> set (hs_insert a deleted) \<or> rv_items ?s b \<noteq> None"
      "\<forall>b \<in> set (hs_insert a deleted). rv_items ?s b = None"
      using Cons.prems by (auto simp: pubIndex_erase_def)
    from Cons.IH [OF this] e False it show ?thesis by (auto simp: pubIndex_erase_def fun_eq_iff)
  qed
qed simp

lemma fold_erase_all: "fold hm_erase (map fst m) m = []"
proof -
  have "fst ` set (fold hm_erase (map fst m) m) = {}" by (simp add: keys_fold_erase)
  then show ?thesis by simp
qed

lemma live_indexed:
  assumes "rv_inv s"
  shows "rv_scopes s a \<noteq> None \<longleftrightarrow> a \<in> snd ` set (scopeIndex s)" "rv_items s a \<noteq> None \<longleftrightarrow> a \<in> snd ` set (pubIndex s)"
proof -
  obtain U where U: "graph_ok U s" using rv_inv_parts(2) [OF assms] by blast
  have own: "\<And>o'. live s o' \<Longrightarrow> own s o' \<noteq> {}" and ix: "index_ok s" and hk: "heap_ok s"
    using U by (simp_all add: graph_ok_def pre_graph_def)
  have val: "a \<in> snd ` set m \<longleftrightarrow> (\<exists>x. hm_get m x = Some a)" if "hm_wf m" for m :: "(bstr, addr) htab"
    using that by (force simp: hm_get_def hm_wf_def)
  have "live s (Sc a) \<longleftrightarrow> (\<exists>x. hm_get (scopeIndex s) x = Some a)"
    using own [of "Sc a"] index_Sc [OF ix] own_live by blast
  then show "rv_scopes s a \<noteq> None \<longleftrightarrow> a \<in> snd ` set (scopeIndex s)"
    using val [OF heap_ok_facts(4) [OF hk]] live_Sc [of s a] by auto
  have "live s (It a) \<longleftrightarrow> (\<exists>x. hm_get (pubIndex s) x = Some a)"
    using own [of "It a"] index_It [OF ix] own_live by blast
  then show "rv_items s a \<noteq> None \<longleftrightarrow> a \<in> snd ` set (pubIndex s)"
    using val [OF heap_ok_facts(5) [OF hk]] live_It [of s a] by auto
qed

lemma LocalRV_cleanup_aux:
  assumes "rv_inv s"
  shows "\<exists>s'. LocalRV_cleanup s = Some s' \<and> (\<forall>a. rv_scopes s' a = None) \<and> (\<forall>a. rv_items s' a = None) \<and>
    scopeIndex s' = [] \<and> pubIndex s' = [] \<and> pub_sub_Index s' = []"
proof -
  note li = live_indexed [OF assms]
  define s0 where "s0 = s\<lparr>pub_sub_Index := []\<rparr>"
  have s0: "rv_scopes s0 = rv_scopes s" "rv_items s0 = rv_items s" "scopeIndex s0 = scopeIndex s" "pubIndex s0 = pubIndex s"
    "pub_sub_Index s0 = []" by (simp_all add: s0_def)
  have "\<forall>a \<in> snd ` set (scopeIndex s0). a \<in> set [] \<or> rv_scopes s0 a \<noteq> None" using li(1) s0 by simp
  from cleanup_scopes_ok [OF this] obtain s1 where s1: "cleanup_scopes (scopeIndex s0) [] s0 = Some s1"
    "rv_scopes s1 = (\<lambda>a. if a \<in> snd ` set (scopeIndex s) then None else rv_scopes s a)" "rv_items s1 = rv_items s"
    "pubIndex s1 = pubIndex s" "pub_sub_Index s1 = []" "scopeIndex s1 = fold hm_erase (map fst (scopeIndex s)) (scopeIndex s)"
    unfolding s0 by auto
  have "\<forall>a \<in> snd ` set (pubIndex s1). a \<in> set [] \<or> rv_items s1 a \<noteq> None" using li(2) s1(3,4) by simp
  from cleanup_items_ok [OF this] obtain s2 where s2: "cleanup_items (pubIndex s1) [] s1 = Some s2"
    "rv_items s2 = (\<lambda>a. if a \<in> snd ` set (pubIndex s) then None else rv_items s a)" "rv_scopes s2 = rv_scopes s1"
    "scopeIndex s2 = scopeIndex s1" "pub_sub_Index s2 = []" "pubIndex s2 = fold hm_erase (map fst (pubIndex s)) (pubIndex s)"
    unfolding s1(3-5) by auto
  have "rv_scopes s2 a = None" "rv_items s2 a = None" for a using li [of a] s1(2) s2(2,3) by auto
  moreover have "LocalRV_cleanup s = Some s2" using s1(1) s2(1) by (simp add: LocalRV_cleanup_def s0_def)
  ultimately show ?thesis using s2(4-6) s1(6) by (simp add: fold_erase_all)
qed

subsection \<open>Whom a rendezvous brings together\<close>

text \<open>The publishers of an item, and its subscribers with those of its father scopes.\<close>

definition item_publishers :: "rv \<Rightarrow> addr \<Rightarrow> host set" where
  "item_publishers s i = {h. \<exists>x \<in> own s (It i). (x, h) \<in> graph_book s IPub}"

definition item_audience :: "rv \<Rightarrow> addr \<Rightarrow> host set" where
  "item_audience s i = {h. \<exists>x \<in> own s (It i). (x, h) \<in> graph_book s ISub} \<union>
     {h. \<exists>f \<in> par s (It i). \<exists>x \<in> own s (Sc f). (x, h) \<in> graph_book s SSub}"

lemma set_ids_publishers: "set (ids_publishers m acc) = set acc \<union> (\<Union>e \<in> set m. set (fst (snd e)))"
  unfolding ids_publishers_def by (induction m arbitrary: acc) auto

lemma set_ids_subscribers: "set (ids_subscribers m acc) = set acc \<union> (\<Union>e \<in> set m. set (snd (snd e)))"
  unfolding ids_subscribers_def by (induction m arbitrary: acc) auto

lemma entries_of_own:
  assumes "hm_wf m" and "obj_ids s o' = Some m"
  shows "(\<Union>e \<in> set m. g (snd e)) = (\<Union>x \<in> own s o'. g (pair_at s o' x))"
proof -
  have get: "hm_get m (fst e) = Some (snd e)" if "e \<in> set m" for e
    using assms(1) that by (simp add: hm_get_def hm_wf_def)
  have "own s o' = fst ` set m" using assms(2) by (simp add: own_def)
  moreover have "pair_at s o' (fst e) = snd e" if "e \<in> set m" for e using get [OF that] assms(2) by (simp add: pair_at_def)
  ultimately show ?thesis by simp
qed

lemma item_sides:
  assumes "rv_inv s" and "rv_items s i = Some it"
  shows "set (ids_publishers (it_ids it) []) = item_publishers s i"
    "set (ids_subscribers (it_ids it) []) = {h. \<exists>x \<in> own s (It i). (x, h) \<in> graph_book s ISub}"
proof -
  note ix = rv_inv_parts(5) [OF assms(1)]
  have wf: "hm_wf (it_ids it)" by (rule ids_wfD(2) [OF heap_ok_facts(3) [OF rv_heap_ok [OF assms(1)]] assms(2)])
  have ids: "obj_ids s (It i) = Some (it_ids it)" using assms(2) by simp
  have "x \<in> own s (It i) \<Longrightarrow> (x, h) \<in> graph_book s IPub \<longleftrightarrow> h \<in> set (fst (pair_at s (It i) x))"
    "x \<in> own s (It i) \<Longrightarrow> (x, h) \<in> graph_book s ISub \<longleftrightarrow> h \<in> set (snd (pair_at s (It i) x))" for x h
    using graph_book_at [OF ix, of x IPub i h] graph_book_at [OF ix, of x ISub i h] by simp_all
  then show "set (ids_publishers (it_ids it) []) = item_publishers s i"
    "set (ids_subscribers (it_ids it) []) = {h. \<exists>x \<in> own s (It i). (x, h) \<in> graph_book s ISub}"
    unfolding set_ids_publishers set_ids_subscribers item_publishers_def
    using entries_of_own [OF wf ids, of "\<lambda>pr. set (fst pr)"] entries_of_own [OF wf ids, of "\<lambda>pr. set (snd pr)"] by auto
qed

lemma scope_side:
  assumes "rv_inv s" and "rv_scopes s f = Some sc"
  shows "set (ids_subscribers (sc_ids sc) acc) = set acc \<union> {h. \<exists>x \<in> own s (Sc f). (x, h) \<in> graph_book s SSub}"
proof -
  note ix = rv_inv_parts(5) [OF assms(1)]
  have wf: "hm_wf (sc_ids sc)" by (rule ids_wfD(1) [OF heap_ok_facts(3) [OF rv_heap_ok [OF assms(1)]] assms(2)])
  have ids: "obj_ids s (Sc f) = Some (sc_ids sc)" using assms(2) by simp
  have "x \<in> own s (Sc f) \<Longrightarrow> (x, h) \<in> graph_book s SSub \<longleftrightarrow> h \<in> set (snd (pair_at s (Sc f) x))" for x h
    using graph_book_at [OF ix, of x SSub f h] by simp
  then show ?thesis unfolding set_ids_subscribers using entries_of_own [OF wf ids, of "\<lambda>pr. set (snd pr)"] by auto
qed

lemma fathers_side:
  assumes "rv_inv s" and "fathers_subscribers fs acc s = Some l"
  shows "set l = set acc \<union> {h. \<exists>f \<in> set fs. \<exists>x \<in> own s (Sc f). (x, h) \<in> graph_book s SSub}"
  using assms(2)
proof (induction fs arbitrary: acc)
  case (Cons f fs)
  then obtain sc where sc: "rv_scopes s f = Some sc"
    by (auto simp: Scope_getSubscribers_def split: Option.bind_splits)
  then have "fathers_subscribers fs (ids_subscribers (sc_ids sc) acc) s = Some l"
    using Cons.prems by (simp add: Scope_getSubscribers_def)
  from Cons.IH [OF this] scope_side [OF assms(1) sc] show ?case by auto
qed simp

lemma rendezvous_all_aux:
  assumes "rv_inv s" and "rv_items s i = Some it"
  shows "\<exists>ps ss. set ps = item_publishers s i \<and> set ss = item_audience s i \<and>
    rendezvous_all i s = Some (if item_publishers s i = {} then s
      else if it_strategy it = NODE_LOCAL then send_msg (Local_Publisher (item_audience s i \<noteq> {}) (hm_keys (it_ids it))) s
      else if it_strategy it = DOMAIN_LOCAL then send_msg (TM_Rendezvous (it_strategy it) ps ss (hm_keys (it_ids it))) s
      else s)"
proof -
  have lv: "live s (It i)" using assms(2) by (simp add: live_It)
  from rendezvous_all_ok [OF rv_heap_ok [OF assms(1)] lv] obtain s' where s': "rendezvous_all i s = Some s'" by blast
  then obtain l where l: "fathers_subscribers (it_fatherScopes it) (ids_subscribers (it_ids it) []) s = Some l"
    using assms(2) by (auto simp: rendezvous_all_def InformationItem_getSubscribers_def split: Option.bind_splits)
  have par: "set (it_fatherScopes it) = par s (It i)" using assms(2) by (simp add: par_def)
  have aud: "set l = item_audience s i"
    using fathers_side [OF assms(1) l] item_sides(2) [OF assms] par by (auto simp: item_audience_def)
  then have e: "l = [] \<longleftrightarrow> item_audience s i = {}" by auto
  have pub: "set (ids_publishers (it_ids it) []) = item_publishers s i" by (rule item_sides(1) [OF assms])
  then have p: "ids_publishers (it_ids it) [] = [] \<longleftrightarrow> item_publishers s i = {}" by auto
  have "rendezvous_all i s = Some (if item_publishers s i = {} then s
      else if it_strategy it = NODE_LOCAL then send_msg (Local_Publisher (item_audience s i \<noteq> {}) (hm_keys (it_ids it))) s
      else if it_strategy it = DOMAIN_LOCAL then
        send_msg (TM_Rendezvous (it_strategy it) (ids_publishers (it_ids it) []) l (hm_keys (it_ids it))) s
      else s)"
    using assms(2) l e p
    by (simp add: rendezvous_all_def rendezvous_def InformationItem_getSubscribers_def InformationItem_getPublishers_def Let_def)
  then show ?thesis using aud pub by blast
qed

subsection \<open>The layout of a request\<close>

text \<open>The published data that carries a request to the rendezvous element of node \<open>rv_node\<close>.\<close>

definition request_bytes :: "bstr \<Rightarrow> request \<Rightarrow> bstr" where
  "request_bytes scope r = [PUBLISHED_DATA, u8 (length (scope @ rq_node r) div PURSUIT_ID_LEN)] @ (scope @ rq_node r) @
     [rq_type r, u8 (length (rq_ID r) div PURSUIT_ID_LEN)] @ rq_ID r @
     [u8 (length (rq_prefixID r) div PURSUIT_ID_LEN)] @ rq_prefixID r @ [rq_strategy r]"

lemma parse_request_bytes:
  assumes "pk_data p = cells (request_bytes scope r) @ ys" and "length scope = 8" and "short_id (scope @ rq_node r)"
    and "short_id (rq_ID r)" and "short_id (rq_prefixID r)"
  shows "parse_request p = Some (Some r)"
proof -
  let ?n = "scope @ rq_node r" and ?l = "\<lambda>x. u8 (length x div 8)"
  have d: "pk_data p = cells ([PUBLISHED_DATA, ?l ?n] @ ?n @ [rq_type r, ?l (rq_ID r)] @ rq_ID r @ [?l (rq_prefixID r)] @
      rq_prefixID r @ [rq_strategy r]) @ ys" using assms(1) by (simp add: request_bytes_def)
  note u = short_id_u8 [OF assms(3)] short_id_u8 [OF assms(4)] short_id_u8 [OF assms(5)]
  have r0: "rd8 p 0 = Some PUBLISHED_DATA" by (rule rd8_skip [of p "[]"]) (simp_all add: d)
  have r1: "rd8 p 1 = Some (?l ?n)" by (rule rd8_skip [of p "[PUBLISHED_DATA]"]) (simp_all add: d)
  have r2: "rdn p 2 (length ?n) = Some ?n"
    by (rule rdn_skip [of p "[PUBLISHED_DATA, ?l ?n]"]) (simp_all add: d)
  have r3: "rd8 p (2 + length ?n) = Some (rq_type r)"
    by (rule rd8_skip [of p "[PUBLISHED_DATA, ?l ?n] @ ?n"]) (simp_all add: d)
  have r4: "rd8 p (3 + length ?n) = Some (?l (rq_ID r))"
    by (rule rd8_skip [of p "[PUBLISHED_DATA, ?l ?n] @ ?n @ [rq_type r]"]) (simp_all add: d)
  have r5: "rdn p (4 + length ?n) (length (rq_ID r)) = Some (rq_ID r)"
    by (rule rdn_skip [of p "[PUBLISHED_DATA, ?l ?n] @ ?n @ [rq_type r, ?l (rq_ID r)]"]) (simp_all add: d)
  have r6: "rd8 p (4 + length ?n + length (rq_ID r)) = Some (?l (rq_prefixID r))"
    by (rule rd8_skip [of p "[PUBLISHED_DATA, ?l ?n] @ ?n @ [rq_type r, ?l (rq_ID r)] @ rq_ID r"]) (simp_all add: d)
  have r7: "rdn p (5 + length ?n + length (rq_ID r)) (length (rq_prefixID r)) = Some (rq_prefixID r)"
    by (rule rdn_skip [of p "[PUBLISHED_DATA, ?l ?n] @ ?n @ [rq_type r, ?l (rq_ID r)] @ rq_ID r @ [?l (rq_prefixID r)]"])
      (simp_all add: d)
  have r8: "rd8 p (5 + length ?n + length (rq_ID r) + length (rq_prefixID r)) = Some (rq_strategy r)"
    by (rule rd8_skip [of p "[PUBLISHED_DATA, ?l ?n] @ ?n @ [rq_type r, ?l (rq_ID r)] @ rq_ID r @ [?l (rq_prefixID r)] @ rq_prefixID r"])
      (simp_all add: d)
  have node: "drop PURSUIT_ID_LEN ?n = rq_node r" using assms(2) by simp
  show ?thesis
    unfolding parse_request_def r0 r1 bind.bind_lunit Let_def u r2 r3 r4 r5 r6 r7 r8 node by simp
qed

subsection \<open>A concrete run\<close>

definition ex_name :: "byte \<Rightarrow> bstr" where
  "ex_name n = replicate 7 0 @ [n]"

definition ex_request :: "byte \<Rightarrow> byte \<Rightarrow> bstr \<Rightarrow> bstr \<Rightarrow> request" where
  "ex_request n t ID prefix = \<lparr>rq_node = ex_name n, rq_type = t, rq_ID = ID, rq_prefixID = prefix, rq_strategy = DOMAIN_LOCAL\<rparr>"

definition ex_packet :: "request \<Rightarrow> nat \<times> packet" where
  "ex_packet r = (0, \<lparr>pk_data = cells (request_bytes (RVScope ex_gc) r), pk_anno = None\<rparr>)"

text \<open>Node 1 publishes a scope, node 2 subscribes to it, node 1 publishes a subscope and an item in it.\<close>

definition ex_requests :: "request list" where
  "ex_requests = [ex_request 1 PUBLISH_SCOPE (ex_name 65) [], ex_request 2 SUBSCRIBE_SCOPE (ex_name 65) [],
     ex_request 1 PUBLISH_SCOPE (ex_name 66) (ex_name 65), ex_request 1 PUBLISH_INFO (ex_name 67) (ex_name 65 @ ex_name 66)]"

definition ex_rv0 :: rv where
  "ex_rv0 = the (LocalRV_initialize ex_gc)"

definition ex_rv :: rv where
  "ex_rv = the (fold_opt rv_step (map ex_packet ex_requests) ex_rv0)"

lemma ex_rv0_eq: "LocalRV_initialize ex_gc = Some ex_rv0"
  using LocalRV_initialize_ok [OF ex_gc_wf] by (auto simp: ex_rv0_def)

lemma ex_rv0_ready: "rv_ready ex_rv0"
  using LocalRV_initialize_ok [OF ex_gc_wf] by (auto simp: ex_rv0_def)

lemma ex_run_ok: "run_ok rv_step rv_event_ok (map ex_packet ex_requests) ex_rv0"
  by code_simp

subsection \<open>Properties\<close>



lemma ex_rv_ready: "rv_ready ex_rv"
  using rve.safe_run [OF ex_rv0_ready ex_run_ok] by (auto simp: ex_rv_def)

lemma ex_rv_inv: "rv_inv ex_rv"
  using ex_rv_ready by (simp add: rv_ready_def)

text \<open>
  C2. Every well-formed request returns a code and keeps the invariant. Its effect on who publishes
  and subscribes to what is exactly that of its type: success of a publish or subscribe request adds
  the one entry it names, success of an unpublish or unsubscribe request takes the one entry it
  names away, any other code leaves the books as they were (except that unpublishing a scope may
  take the same host off items, whatever it returns).
\<close>

theorem LocalRV_request_books:
  assumes "rv_inv s" and "rq_ok r s"
  shows "\<exists>ret s'. LocalRV_request r s = Some (ret, s') \<and> rv_inv s' \<and>
    book_step (rq_effect (rq_type r)) (rq_fullID r) (rq_node r) ret (graph_book s) (graph_book s') \<and>
    graph_book s' = host_book s' \<and> (\<forall>h. known s' h \<longleftrightarrow> known s h \<or> h = rq_node r)"
proof -
  from LocalRV_request_aux [OF assms] obtain ret s' where s': "LocalRV_request r s = Some (ret, s')" "rv_inv s'"
    "known s' = (known s)(rq_node r := True)"
    "book_step (rq_effect (rq_type r)) (rq_fullID r) (rq_node r) ret (graph_book s) (graph_book s')" by blast
  have "graph_book s' = host_book s'" using rv_inv_parts(3) [OF s'(2)] by (simp add: books_ok_def fun_eq_iff)
  then show ?thesis using s' by auto
qed

theorem LocalRV_request_books_witness:
  "\<exists>s'. LocalRV_request (ex_request 1 UNPUBLISH_INFO (ex_name 67) (ex_name 65 @ ex_name 66)) ex_rv = Some (SUCCESS, s') \<and>
     rv_inv s' \<and> graph_book s' IPub = graph_book ex_rv IPub - {(ex_name 65 @ ex_name 66 @ ex_name 67, ex_name 1)}"
proof -
  let ?r = "ex_request 1 UNPUBLISH_INFO (ex_name 67) (ex_name 65 @ ex_name 66)"
  have "rq_ok ?r ex_rv" by (simp add: rq_ok_def ex_request_def ex_name_def)
  from LocalRV_request_books [OF ex_rv_inv this] obtain ret s' where r: "LocalRV_request ?r ex_rv = Some (ret, s')" "rv_inv s'"
    "book_step (rq_effect (rq_type ?r)) (rq_fullID ?r) (rq_node ?r) ret (graph_book ex_rv) (graph_book s')" by blast
  have "map_option fst (LocalRV_request ?r ex_rv) = Some SUCCESS" by code_simp
  then have "ret = SUCCESS" using r(1) by simp
  then show ?thesis using r by (simp add: book_step_def rq_effect_def rq_fullID_def ex_request_def ex_name_def)
qed



text \<open>
  C23. The identifiers of a scope or item with fathers are exactly the identifiers of its fathers, each
  followed by the object's own fragment; and an identifier names one object only.
\<close>

theorem identifiers_handed_down:
  assumes "rv_inv s" and "par s o' \<noteq> {}"
  shows "\<exists>u. length u = PURSUIT_ID_LEN \<and> own s o' = (\<Union>f \<in> par s o'. (\<lambda>p. p @ u) ` own s (Sc f)) \<and>
    (\<forall>x \<in> own s o'. \<forall>o2. x \<in> own s o2 \<longrightarrow> o2 = o')"
proof -
  obtain U where U: "graph_ok U s" using rv_inv_parts(2) [OF assms(1)] by blast
  then have "length (U o') = 8" by (auto simp: graph_ok_def pre_graph_def intro: sfx_okL)
  then show ?thesis using own_of_fathers [OF U assms(2)] own_unique [OF rv_inv_parts(5) [OF assms(1)]] by metis
qed

theorem identifiers_handed_down_witness:
  "\<exists>u. length u = PURSUIT_ID_LEN \<and> own ex_rv (It 2) = (\<lambda>p. p @ u) ` own ex_rv (Sc 1)"
proof -
  have "map_option it_fatherScopes (rv_items ex_rv 2) = Some [1]" by code_simp
  then have "par ex_rv (It 2) = {1}" by (auto simp: par_def)
  then show ?thesis using identifiers_handed_down [OF ex_rv_inv, of "It 2"] by auto
qed

text \<open>
  C38. A scope published again below itself, or below one of its descendants, makes the update of the
  identifiers recurse without end: the request has no result, whatever the publisher.
\<close>

theorem republish_below_itself_diverges:
  assumes "rv_inv s" and "length u = PURSUIT_ID_LEN" and "q \<noteq> []" and "8 dvd length r"
    and "hm_get (scopeIndex s) (q @ u) = Some a" and "hm_get (scopeIndex s) (q @ u @ r) = Some f"
    and "hm_get (scopeIndex s) (q @ u @ r @ u) = None" and "hm_get (pubIndex s) (q @ u @ r @ u) = None"
    and "rv_scopes s f = Some fsc" and "sc_strategy fsc = strategy"
  shows "publish_scope h (q @ u) (q @ u @ r) strategy s = None"
  using republish_cycle_None [OF assms(1,2,3,4,5), of f fsc strategy h] assms(2,3,6-10)
  by (simp add: publish_scope_def)

theorem republish_below_itself_diverges_witness:
  "publish_scope (ex_name 1) (ex_name 65 @ ex_name 66) (ex_name 65 @ ex_name 66) DOMAIN_LOCAL ex_rv = None"
proof -
  have i: "hm_get (scopeIndex ex_rv) (ex_name 65 @ ex_name 66) = Some 1"
    "hm_get (scopeIndex ex_rv) (ex_name 65 @ ex_name 66 @ ex_name 66) = None"
    "hm_get (pubIndex ex_rv) (ex_name 65 @ ex_name 66 @ ex_name 66) = None" by code_simp+
  have "map_option sc_strategy (rv_scopes ex_rv 1) = Some DOMAIN_LOCAL" by code_simp
  then obtain fsc where f: "rv_scopes ex_rv 1 = Some fsc" "sc_strategy fsc = DOMAIN_LOCAL" by auto
  show ?thesis
    using republish_below_itself_diverges [OF ex_rv_inv, of "ex_name 66" "ex_name 65" "[]" 1 1 fsc DOMAIN_LOCAL] i f
    by (simp add: ex_name_def)
qed

text \<open>
  C39. A request to the topology manager whose identifiers have 256 bytes or more in all is written
  past the end of its packet: the length is kept in one byte.
\<close>

theorem tm_request_overruns:
  assumes "gc_wf gc" and "\<forall>h \<in> set (ps @ ss). length h = NODEID_LEN" and "256 \<le> sum_list (map length IDs)"
  shows "requestTMAssistanceForRendezvous gc strategy ps ss IDs = None"
  using rendezvous_overrun [OF assms] by simp

theorem tm_request_overruns_witness:
  "requestTMAssistanceForRendezvous ex_gc DOMAIN_LOCAL [ex_name 1] [ex_name 2] (replicate 32 (ex_name 65)) = None"
  using tm_request_overruns [OF ex_gc_wf, of "[ex_name 1]" "[ex_name 2]" "replicate 32 (ex_name 65)"]
  by (simp add: ex_name_def sum_list_replicate)

text \<open>
  The element reads back, out of published data laid out as a request, exactly the node, type,
  identifiers and strategy that were written.
\<close>

theorem request_roundtrip:
  assumes "pk_data p = cells (request_bytes scope r) @ ys" and "length scope = 8" and "short_id (scope @ rq_node r)"
    and "short_id (rq_ID r)" and "short_id (rq_prefixID r)"
  shows "parse_request p = Some (Some r)"
  by (rule parse_request_bytes [OF assms])

theorem request_roundtrip_witness:
  "parse_request (snd (ex_packet (ex_request 1 PUBLISH_INFO (ex_name 67) (ex_name 65 @ ex_name 66)))) =
     Some (Some (ex_request 1 PUBLISH_INFO (ex_name 67) (ex_name 65 @ ex_name 66)))"
  by (rule request_roundtrip [where scope = "RVScope ex_gc" and ys = "[]"])
    (simp_all add: ex_packet_def ex_request_def ex_name_def ex_gc_def short_id_def)

text \<open>
  C25. The recursive update of identifiers returns exactly when no cycle is below the scope; and then
  a depth of the number of objects ever allocated, the fuel of the model, is enough. The graph may
  be one in which identifiers are still to be handed down.
\<close>

theorem identifier_update_returns_iff:
  assumes "pre_graph U s" and "\<forall>o'. live s o' \<longrightarrow> own s o' \<noteq> {}" and "live s (Sc a)"
  shows "((\<exists>n s'. recursivelyUpdateIDs n a (U (Sc a)) s = Some s') \<longleftrightarrow> \<not> cycle_below s a) \<and>
    (Scope_recursivelyUpdateIDs a (U (Sc a)) s = None \<longleftrightarrow> cycle_below s a)"
proof -
  have iff: "Scope_recursivelyUpdateIDs a (U (Sc a)) s = None \<longleftrightarrow> cycle_below s a"
    by (rule recursivelyUpdateIDs_None_iff [OF assms])
  have "recursivelyUpdateIDs n a u s = None" if "cycle_below s a" for n u
    using cycle_chain [OF that, of n] chain_None by auto
  then have "(\<exists>n s'. recursivelyUpdateIDs n a (U (Sc a)) s = Some s') \<longleftrightarrow> \<not> cycle_below s a"
    using iff by (fastforce simp: Scope_recursivelyUpdateIDs_def)
  with iff show ?thesis by blast
qed

theorem identifier_update_returns_iff_witness: "\<exists>u n s'. recursivelyUpdateIDs n 0 u ex_rv = Some s'"
proof -
  obtain U where U: "graph_ok U ex_rv" using rv_inv_parts(2) [OF ex_rv_inv] by blast
  have "\<not> cycle_below ex_rv 0" using graph_ok_acyclic [OF U] by (auto simp: cycle_below_def acyclic_def)
  moreover have "live ex_rv (Sc 0)" unfolding live_def by code_simp
  moreover have "pre_graph U ex_rv" "\<forall>o'. live ex_rv o' \<longrightarrow> own ex_rv o' \<noteq> {}" using U by (simp_all add: graph_ok_def)
  ultimately show ?thesis using identifier_update_returns_iff [of U ex_rv 0] by blast
qed

end
