(* ===== verification/BA_LocalProxy.thy ===== *)
theory BA_LocalProxy
  imports BA_GlobalConf
begin

text \<open>
  The dispatcher \<^verbatim>\<open>src/localproxy.cc\<close> with the classes it keeps its books in
  (\<^verbatim>\<open>localhost.cc\<close>, \<^verbatim>\<open>activepub.cc\<close>): which application or Click element of
  the node publishes and subscribes to what, the requests it passes on to the rendezvous element, the
  notifications and the data it hands to local publishers and subscribers.

  A \<open>LocalHost\<close> is an object: the publications and subscriptions keep pointers to it, so it
  lives at an address of \<open>lp_hosts\<close>, and reading a dead address is undefined. An
  \<open>ActivePublication\<close> or \<open>ActiveSubscription\<close> is referred to by its index only, and is kept
  there by value. Packets the element pushes out of its ports are appended to \<open>lp_out\<close> with the
  port; a neighbour that answers within the push (Click runs it on the same stack) is not modelled:
  its answer is a later event. The branches compiled for the simulator (\<^verbatim>\<open>CLICK_NS\<close>) are
  left out.
\<close>

subsection \<open>State\<close>

type_synonym lh_addr = nat

record local_host =
  lh_type :: nat
  lh_id :: "32 word"
  activePublications :: "bstr list"
  activeSubscriptions :: "bstr list"

record active_pub =
  ap_fullID :: bstr
  ap_strategy :: byte
  ap_publishers :: "(lh_addr, byte) htab"
  ap_allKnownIDs :: "bstr list"
  ap_FID :: bitvec
  ap_RVFID :: bitvec
  ap_isScope :: bool

record active_sub =
  as_fullID :: bstr
  as_strategy :: byte
  as_subscribers :: "lh_addr list"
  as_RVFID :: bitvec
  as_isScope :: bool

record local_proxy =
  lp_gc :: globalconf
  lp_hosts :: "lh_addr \<Rightarrow> local_host option"
  lp_next :: lh_addr
  local_pub_sub_Index :: "(32 word, lh_addr) htab"
  activePublicationIndex :: "(bstr, active_pub) htab"
  activeSubscriptionIndex :: "(bstr, active_sub) htab"
  lp_out :: "(nat \<times> packet) list"

definition LocalHost_new :: "nat \<Rightarrow> 32 word \<Rightarrow> local_host" where
  "LocalHost_new type i = \<lparr>lh_type = type, lh_id = i, activePublications = [], activeSubscriptions = []\<rparr>"

definition ActivePublication_new :: "bstr \<Rightarrow> byte \<Rightarrow> bool \<Rightarrow> active_pub" where
  "ActivePublication_new fullID strategy isScope = \<lparr>ap_fullID = fullID, ap_strategy = strategy, ap_publishers = [],
     ap_allKnownIDs = [], ap_FID = bv_empty, ap_RVFID = bv_empty, ap_isScope = isScope\<rparr>"

definition ActiveSubscription_new :: "bstr \<Rightarrow> byte \<Rightarrow> bool \<Rightarrow> active_sub" where
  "ActiveSubscription_new fullID strategy isScope = \<lparr>as_fullID = fullID, as_strategy = strategy, as_subscribers = [],
     as_RVFID = bv_empty, as_isScope = isScope\<rparr>"

definition upd_host :: "lh_addr \<Rightarrow> (local_host \<Rightarrow> local_host) \<Rightarrow> local_proxy \<Rightarrow> local_proxy option" where
  "upd_host a f s = do { h \<leftarrow> lp_hosts s a; Some (s\<lparr>lp_hosts := (lp_hosts s)(a \<mapsto> f h)\<rparr>) }"

definition put_pub :: "bstr \<Rightarrow> active_pub \<Rightarrow> local_proxy \<Rightarrow> local_proxy" where
  "put_pub x ap s = s\<lparr>activePublicationIndex := hm_set x ap (activePublicationIndex s)\<rparr>"

definition del_pub :: "bstr \<Rightarrow> local_proxy \<Rightarrow> local_proxy" where
  "del_pub x s = s\<lparr>activePublicationIndex := hm_erase x (activePublicationIndex s)\<rparr>"

definition put_sub :: "bstr \<Rightarrow> active_sub \<Rightarrow> local_proxy \<Rightarrow> local_proxy" where
  "put_sub x as s = s\<lparr>activeSubscriptionIndex := hm_set x as (activeSubscriptionIndex s)\<rparr>"

definition del_sub :: "bstr \<Rightarrow> local_proxy \<Rightarrow> local_proxy" where
  "del_sub x s = s\<lparr>activeSubscriptionIndex := hm_erase x (activeSubscriptionIndex s)\<rparr>"

definition lp_send :: "nat \<Rightarrow> packet \<Rightarrow> local_proxy \<Rightarrow> local_proxy" where
  "lp_send port p s = s\<lparr>lp_out := lp_out s @ [(port, p)]\<rparr>"

text \<open>To an application through port 0, with its netlink id as annotation; to an element through its port.\<close>

definition send_to_host :: "lh_addr \<Rightarrow> packet \<Rightarrow> local_proxy \<Rightarrow> local_proxy option" where
  "send_to_host a p s = do {
     h \<leftarrow> lp_hosts s a;
     Some (if lh_type h = CLICK_ELEMENT then lp_send (unat (lh_id h)) p s
           else lp_send 0 (p\<lparr>pk_anno := Some (lh_id h)\<rparr>) s)
   }"

definition getLocalHost :: "nat \<Rightarrow> 32 word \<Rightarrow> local_proxy \<Rightarrow> lh_addr \<times> local_proxy" where
  "getLocalHost type i s = (case hm_get (local_pub_sub_Index s) i of
     Some a \<Rightarrow> (a, s)
   | None \<Rightarrow> (let a = lp_next s in
       (a, s\<lparr>lp_hosts := (lp_hosts s)(a \<mapsto> LocalHost_new type i), lp_next := Suc a,
             local_pub_sub_Index := hm_set i a (local_pub_sub_Index s)\<rparr>)))"

subsection \<open>Requests\<close>

definition host_add_pub :: "lh_addr \<Rightarrow> bstr \<Rightarrow> local_proxy \<Rightarrow> local_proxy option" where
  "host_add_pub a x = upd_host a (\<lambda>h. h\<lparr>activePublications := hs_insert x (activePublications h)\<rparr>)"

definition host_del_pub :: "lh_addr \<Rightarrow> bstr \<Rightarrow> local_proxy \<Rightarrow> local_proxy option" where
  "host_del_pub a x = upd_host a (\<lambda>h. h\<lparr>activePublications := hs_erase x (activePublications h)\<rparr>)"

definition host_add_sub :: "lh_addr \<Rightarrow> bstr \<Rightarrow> local_proxy \<Rightarrow> local_proxy option" where
  "host_add_sub a x = upd_host a (\<lambda>h. h\<lparr>activeSubscriptions := hs_insert x (activeSubscriptions h)\<rparr>)"

definition host_del_sub :: "lh_addr \<Rightarrow> bstr \<Rightarrow> local_proxy \<Rightarrow> local_proxy option" where
  "host_del_sub a x = upd_host a (\<lambda>h. h\<lparr>activeSubscriptions := hs_erase x (activeSubscriptions h)\<rparr>)"

definition storeActivePublication :: "lh_addr \<Rightarrow> bstr \<Rightarrow> byte \<Rightarrow> bitvec \<Rightarrow> bool \<Rightarrow> local_proxy \<Rightarrow> (bool \<times> local_proxy) option" where
  "storeActivePublication publisher fullID strategy RVFID isScope s =
     (if strategy = NODE_LOCAL \<or> strategy = DOMAIN_LOCAL then
        (case hm_get (activePublicationIndex s) fullID of
           None \<Rightarrow> do {
             let ap = (ActivePublication_new fullID strategy isScope)\<lparr>ap_RVFID := RVFID\<rparr>;
             let ap = ap\<lparr>ap_publishers := hm_find_insert publisher STOP_PUBLISH (ap_publishers ap)\<rparr>;
             s \<leftarrow> host_add_pub publisher fullID (put_pub fullID ap s);
             Some (True, s)
           }
         | Some ap \<Rightarrow>
             if ap_strategy ap = strategy then do {
               let ap = ap\<lparr>ap_publishers := hm_find_insert publisher STOP_PUBLISH (ap_publishers ap)\<rparr>;
               s \<leftarrow> host_add_pub publisher fullID (put_pub fullID ap s);
               Some (False, s)
             } else Some (False, s))
      else Some (False, s))"

definition removeActivePublication :: "lh_addr \<Rightarrow> bstr \<Rightarrow> byte \<Rightarrow> local_proxy \<Rightarrow> (bool \<times> local_proxy) option" where
  "removeActivePublication publisher fullID strategy s =
     (if strategy = NODE_LOCAL \<or> strategy = DOMAIN_LOCAL then
        (case hm_get (activePublicationIndex s) fullID of
           None \<Rightarrow> Some (False, s)
         | Some ap \<Rightarrow>
             if ap_strategy ap = strategy then do {
               s \<leftarrow> host_del_pub publisher fullID s;
               let ap = ap\<lparr>ap_publishers := hm_erase publisher (ap_publishers ap)\<rparr>;
               Some (if ap_publishers ap = [] then (True, del_pub fullID s) else (False, put_pub fullID ap s))
             } else Some (False, s))
      else Some (False, s))"

definition forwards_subscription :: "byte \<Rightarrow> bool" where
  "forwards_subscription strategy \<longleftrightarrow> strategy \<noteq> IMPLICIT_RENDEZVOUS \<and> strategy \<noteq> LINK_LOCAL \<and> strategy \<noteq> BROADCAST_IF"

definition storeActiveSubscription :: "lh_addr \<Rightarrow> bstr \<Rightarrow> byte \<Rightarrow> bitvec \<Rightarrow> bool \<Rightarrow> local_proxy \<Rightarrow> (bool \<times> local_proxy) option" where
  "storeActiveSubscription subscriber fullID strategy RVFID isScope s =
     (case hm_get (activeSubscriptionIndex s) fullID of
        None \<Rightarrow> do {
          let as = (ActiveSubscription_new fullID strategy isScope)\<lparr>as_RVFID := RVFID\<rparr>;
          let as = as\<lparr>as_subscribers := hs_insert subscriber (as_subscribers as)\<rparr>;
          s \<leftarrow> host_add_sub subscriber fullID (put_sub fullID as s);
          Some (forwards_subscription strategy, s)
        }
      | Some as \<Rightarrow>
          if as_strategy as = strategy then do {
            let as = as\<lparr>as_subscribers := hs_insert subscriber (as_subscribers as)\<rparr>;
            s \<leftarrow> host_add_sub subscriber fullID (put_sub fullID as s);
            Some (False, s)
          } else Some (False, s))"

definition removeActiveSubscription :: "lh_addr \<Rightarrow> bstr \<Rightarrow> byte \<Rightarrow> local_proxy \<Rightarrow> (bool \<times> local_proxy) option" where
  "removeActiveSubscription subscriber fullID strategy s =
     (case hm_get (activeSubscriptionIndex s) fullID of
        None \<Rightarrow> Some (False, s)
      | Some as \<Rightarrow>
          if as_strategy as = strategy then do {
            s \<leftarrow> host_del_sub subscriber fullID s;
            let as = as\<lparr>as_subscribers := hs_erase subscriber (as_subscribers as)\<rparr>;
            Some (if as_subscribers as = [] then (forwards_subscription strategy, del_sub fullID s)
                  else (False, put_sub fullID as s))
          } else Some (False, s))"

definition request_fullID :: "bstr \<Rightarrow> bstr \<Rightarrow> bstr" where
  "request_fullID ID prefixID = (if length ID = PURSUIT_ID_LEN then prefixID @ ID
     else prefixID @ substring (int (length ID) - int PURSUIT_ID_LEN) (int PURSUIT_ID_LEN) ID)"

definition handleLocalRequest :: "byte \<Rightarrow> lh_addr \<Rightarrow> bstr \<Rightarrow> bstr \<Rightarrow> byte \<Rightarrow> bitvec \<Rightarrow> local_proxy \<Rightarrow> (bool \<times> local_proxy) option" where
  "handleLocalRequest type a ID prefixID strategy RVFID s = (let fullID = request_fullID ID prefixID in
     if type = PUBLISH_SCOPE then storeActivePublication a fullID strategy RVFID True s
     else if type = PUBLISH_INFO then storeActivePublication a fullID strategy RVFID False s
     else if type = UNPUBLISH_SCOPE then removeActivePublication a fullID strategy s
     else if type = UNPUBLISH_INFO then removeActivePublication a fullID strategy s
     else if type = SUBSCRIBE_SCOPE then storeActiveSubscription a fullID strategy RVFID True s
     else if type = SUBSCRIBE_INFO then storeActiveSubscription a fullID strategy RVFID False s
     else if type = UNSUBSCRIBE_SCOPE then removeActiveSubscription a fullID strategy s
     else if type = UNSUBSCRIBE_INFO then removeActiveSubscription a fullID strategy s
     else Some (False, s))"

subsection \<open>Subscribers\<close>

definition father_of :: "bstr \<Rightarrow> bstr" where
  "father_of x = substring 0 (int (length x) - int PURSUIT_ID_LEN) x"

definition findActiveSubscriptions :: "bstr \<Rightarrow> lh_addr list \<Rightarrow> local_proxy \<Rightarrow> lh_addr list" where
  "findActiveSubscriptions x acc s = (case hm_get (activeSubscriptionIndex s) (father_of x) of
     None \<Rightarrow> acc
   | Some as \<Rightarrow> if as_isScope as then hs_union acc (as_subscribers as) else acc)"

definition add_subscribers :: "bstr \<Rightarrow> active_sub option \<Rightarrow> bool \<times> (lh_addr, bstr) htab \<Rightarrow> bool \<times> (lh_addr, bstr) htab" where
  "add_subscribers knownID aso fm = (case aso of
     None \<Rightarrow> fm
   | Some as \<Rightarrow> foldl (\<lambda>(found, m) a. (True, hm_set a knownID m)) fm (as_subscribers as))"

fun findLocalSubscribers_from :: "(bstr, active_sub) htab \<Rightarrow> bstr list \<Rightarrow> bool \<times> (lh_addr, bstr) htab \<Rightarrow> bool \<times> (lh_addr, bstr) htab" where
  "findLocalSubscribers_from idx [] fm = fm"
| "findLocalSubscribers_from idx (x # xs) fm =
     findLocalSubscribers_from idx xs
       (add_subscribers x (hm_get idx (father_of x)) (add_subscribers x (hm_get idx x) fm))"

definition findLocalSubscribers :: "bstr list \<Rightarrow> local_proxy \<Rightarrow> bool \<times> (lh_addr, bstr) htab" where
  "findLocalSubscribers IDs s = findLocalSubscribers_from (activeSubscriptionIndex s) IDs (False, [])"

subsection \<open>Data\<close>

definition pushDataToLocalSubscriber :: "lh_addr \<Rightarrow> bstr \<Rightarrow> packet \<Rightarrow> local_proxy \<Rightarrow> local_proxy option" where
  "pushDataToLocalSubscriber a x p s = do {
     newPacket \<leftarrow> pk_push (1 + 1 + length x) ([PUBLISHED_DATA, u8 (length x div PURSUIT_ID_LEN)] @ x) p;
     send_to_host a newPacket s
   }"

text \<open>
  The identifiers of a packet for the network: their number in one byte, and as many of them, each
  behind its length. The cast to a byte comes before the division
  (\<^verbatim>\<open>(unsigned char) (*it).length() / PURSUIT_ID_LEN\<close>).
\<close>

definition wire_id :: "bstr \<Rightarrow> bstr" where
  "wire_id x = u8 (unat (u8 (length x)) div PURSUIT_ID_LEN) # x"

definition pushDataToRemoteSubscribers :: "bstr list \<Rightarrow> bitvec \<Rightarrow> packet \<Rightarrow> local_proxy \<Rightarrow> local_proxy option" where
  "pushDataToRemoteSubscribers IDs FID p s = do {
     let numberOfIDs = u8 (length IDs);
     let totalIDsLength = sum_list (map length IDs);
     fid \<leftarrow> fid_mem FID;
     newPacket \<leftarrow> pk_push (FID_LEN + 1 + unat numberOfIDs * 1 + totalIDsLength)
       (fid @ [numberOfIDs] @ concat (map wire_id (take (unat numberOfIDs) IDs))) p;
     Some (lp_send 2 newPacket s)
   }"

definition push_to_each :: "(lh_addr \<times> bstr) list \<Rightarrow> packet \<Rightarrow> local_proxy \<Rightarrow> local_proxy option" where
  "push_to_each subs p = fold_opt (\<lambda>(a, x). pushDataToLocalSubscriber a x p) subs"

definition handleNetworkPublication :: "bstr list \<Rightarrow> packet \<Rightarrow> local_proxy \<Rightarrow> local_proxy option" where
  "handleNetworkPublication IDs p s = (let (found, subs) = findLocalSubscribers IDs s in
     if found then push_to_each subs p s else Some s)"

text \<open>The publication an application's data belongs to: its own, or its father's (for fragments).\<close>

definition publication_of_data :: "bstr \<Rightarrow> local_proxy \<Rightarrow> (active_pub \<times> bstr list) option" where
  "publication_of_data x s = (case hm_get (activePublicationIndex s) x of
     Some ap \<Rightarrow> Some (ap, ap_allKnownIDs ap)
   | None \<Rightarrow> (case hm_get (activePublicationIndex s) (father_of x) of
       Some ap \<Rightarrow> Some (ap, [x])
     | None \<Rightarrow> None))"

definition handleUserPublication :: "bstr \<Rightarrow> packet \<Rightarrow> lh_addr \<Rightarrow> local_proxy \<Rightarrow> local_proxy option" where
  "handleUserPublication x p a s = (case publication_of_data x s of
     None \<Rightarrow> Some s
   | Some (ap, IDs) \<Rightarrow> do {
       let remoteSubscribersExist = (\<not> (bv_zero (ap_FID ap) \<or> bv_eq (ap_FID ap) (iLID (lp_gc s))));
       let localSubscribers = hm_erase a (snd (findLocalSubscribers IDs s));
       s \<leftarrow> (if remoteSubscribersExist then pushDataToRemoteSubscribers IDs (ap_FID ap) p s else Some s);
       push_to_each (map (\<lambda>(b, _). (b, x)) localSubscribers) p s
     })"

text \<open>Data with a forwarding identifier of the application's own.\<close>

definition known_siblings :: "bstr \<Rightarrow> local_proxy \<Rightarrow> bstr list" where
  "known_siblings x s = (case hm_get (activePublicationIndex s) (father_of x) of
     None \<Rightarrow> []
   | Some ap \<Rightarrow>
       filter (\<lambda>knownID. knownID \<noteq> x)
         (map (\<lambda>k. k @ substring (int (length x) - int PURSUIT_ID_LEN) (int PURSUIT_ID_LEN) x) (ap_allKnownIDs ap)))"

definition handleUserPublicationFID :: "bstr \<Rightarrow> bitvec \<Rightarrow> packet \<Rightarrow> lh_addr \<Rightarrow> local_proxy \<Rightarrow> local_proxy option" where
  "handleUserPublicationFID x FID p a s = do {
     let IDs = known_siblings x s @ [x];
     let localSubscribers = hm_erase a (snd (findLocalSubscribers IDs s));
     if localSubscribers = [] then pushDataToRemoteSubscribers IDs FID p s
     else do {
       s \<leftarrow> (if \<not> bv_zero (TMFID (lp_gc s))
             then (if \<not> bv_eq FID (TMFID (lp_gc s)) then pushDataToRemoteSubscribers IDs FID p s else Some s)
             else pushDataToRemoteSubscribers IDs FID p s);
       push_to_each (map (\<lambda>(b, _). (b, x)) localSubscribers) p s
     }
   }"

subsection \<open>Requests to the rendezvous element\<close>

definition publishReqToRV :: "packet \<Rightarrow> bitvec \<Rightarrow> local_proxy \<Rightarrow> local_proxy option" where
  "publishReqToRV p RVFID s = (let gc = lp_gc s in
     if bv_zero RVFID \<or> bv_eq RVFID (iLID gc) then do {
       p1 \<leftarrow> pk_push (1 + 1 + length (nodeRVScope gc))
         ([PUBLISHED_DATA, u8 (length (nodeRVScope gc) div PURSUIT_ID_LEN)] @ nodeRVScope gc) p;
       Some (lp_send 1 p1 s)
     } else do {
       p1 \<leftarrow> pk_push (1 + 1 * 1 + 2 * PURSUIT_ID_LEN) ([1, 2] @ nodeRVScope gc) p;
       fid \<leftarrow> fid_mem RVFID;
       p2 \<leftarrow> pk_push FID_LEN fid p1;
       Some (lp_send 2 p2 s)
     })"

definition createAndSendPacketToRV :: "byte \<Rightarrow> byte \<Rightarrow> bstr \<Rightarrow> byte \<Rightarrow> bstr \<Rightarrow> bitvec \<Rightarrow> byte \<Rightarrow> local_proxy \<Rightarrow> local_proxy option" where
  "createAndSendPacketToRV type IDLength ID prefixIDLength prefixID RVFID strategy s =
     (let gc = lp_gc s;
          len = 1 + 1 * 1 + 2 * PURSUIT_ID_LEN + 1 + 1 + unat IDLength * PURSUIT_ID_LEN + 1 +
                unat prefixIDLength * PURSUIT_ID_LEN + 1;
          req = [type, IDLength] @ ID @ [prefixIDLength] @ prefixID @ [strategy] in
      if bv_zero RVFID \<or> bv_eq RVFID (iLID gc) then do {
        p \<leftarrow> pk_make len
          ([PUBLISHED_DATA, u8 (length (nodeRVScope gc) div PURSUIT_ID_LEN)] @ nodeRVScope gc @ req);
        Some (lp_send 1 p s)
      } else do {
        fid \<leftarrow> fid_mem RVFID;
        p \<leftarrow> pk_make (FID_LEN + len) (fid @ [1, 2] @ take (2 * PURSUIT_ID_LEN) (nodeRVScope gc) @ req);
        Some (lp_send 2 p s)
      })"

subsection \<open>Notifications\<close>

definition sendNotificationLocally :: "byte \<Rightarrow> lh_addr \<Rightarrow> bstr \<Rightarrow> local_proxy \<Rightarrow> local_proxy option" where
  "sendNotificationLocally type a x s = do {
     let IDLength = u8 (length x div PURSUIT_ID_LEN);
     p \<leftarrow> pk_make (1 + 1 + length x) ([type, IDLength] @ take (unat IDLength * PURSUIT_ID_LEN) x);
     send_to_host a p s
   }"

text \<open>The identifiers at the front of a message, read from position \<open>i\<close>; also where they end.\<close>

fun read_ids :: "nat \<Rightarrow> packet \<Rightarrow> nat \<Rightarrow> (bstr list \<times> nat) option" where
  "read_ids 0 p i = Some ([], i)"
| "read_ids (Suc n) p i = do {
     IDLength \<leftarrow> rd8 p i;
     x \<leftarrow> rdn p (i + 1) (unat IDLength * PURSUIT_ID_LEN);
     (xs, j) \<leftarrow> read_ids n p (i + 1 + unat IDLength * PURSUIT_ID_LEN);
     Some (x # xs, j)
   }"

definition notify_scope :: "byte \<Rightarrow> bstr \<Rightarrow> local_proxy \<Rightarrow> local_proxy option" where
  "notify_scope type x s = fold_opt (\<lambda>a. sendNotificationLocally type a x) (findActiveSubscriptions x [] s) s"

fun start_known :: "bitvec \<Rightarrow> bstr list \<Rightarrow> bstr list \<Rightarrow> local_proxy \<Rightarrow> bool \<times> local_proxy" where
  "start_known FID IDs [] s = (False, s)"
| "start_known FID IDs (x # xs) s = (case hm_get (activePublicationIndex s) x of
     None \<Rightarrow> start_known FID IDs xs s
   | Some ap \<Rightarrow>
       (let s = put_pub x (ap\<lparr>ap_allKnownIDs := IDs, ap_FID := FID\<rparr>) s in
        if \<exists>e \<in> set (ap_publishers ap). snd e = START_PUBLISH then (True, s) else start_known FID IDs xs s))"

fun start_first :: "bstr list \<Rightarrow> local_proxy \<Rightarrow> local_proxy option" where
  "start_first [] s = Some s"
| "start_first (x # xs) s = (case hm_get (activePublicationIndex s) x of
     None \<Rightarrow> start_first xs s
   | Some ap \<Rightarrow>
       (case ap_publishers ap of
          [] \<Rightarrow> start_first xs s
        | (a, _) # pubs \<Rightarrow>
            sendNotificationLocally START_PUBLISH a x (put_pub x (ap\<lparr>ap_publishers := (a, START_PUBLISH) # pubs\<rparr>) s)))"

definition stop_publishers :: "bstr \<Rightarrow> (lh_addr, byte) htab \<Rightarrow> local_proxy \<Rightarrow> local_proxy option" where
  "stop_publishers x pubs = fold_opt (\<lambda>(a, v) s.
     if v = START_PUBLISH then sendNotificationLocally STOP_PUBLISH a x s else Some s) pubs"

definition stop_one :: "bitvec \<Rightarrow> bstr list \<Rightarrow> bstr \<Rightarrow> local_proxy \<Rightarrow> local_proxy option" where
  "stop_one zero IDs x s = (case hm_get (activePublicationIndex s) x of
     None \<Rightarrow> Some s
   | Some ap \<Rightarrow> stop_publishers x (ap_publishers ap)
       (put_pub x (ap\<lparr>ap_allKnownIDs := IDs, ap_FID := zero,
          ap_publishers := map (\<lambda>(a, v). (a, if v = START_PUBLISH then STOP_PUBLISH else v)) (ap_publishers ap)\<rparr>) s))"

definition handleRVNotification :: "packet \<Rightarrow> local_proxy \<Rightarrow> local_proxy option" where
  "handleRVNotification p s = do {
     type \<leftarrow> rd8 p 0;
     numberOfIDs \<leftarrow> rd8 p 1;
     (IDs, i) \<leftarrow> read_ids (unat numberOfIDs) p 2;
     if type = SCOPE_PUBLISHED then fold_opt (notify_scope SCOPE_PUBLISHED) IDs s
     else if type = SCOPE_UNPUBLISHED then fold_opt (notify_scope SCOPE_UNPUBLISHED) IDs s
     else if type = START_PUBLISH then do {
       fid \<leftarrow> rdn p i FID_LEN;
       let (shouldBreak, s) = start_known (fid_of_bytes fid) IDs IDs s;
       if shouldBreak then Some s else start_first IDs s
     }
     else if type = UPDATE_BA then do {
       up_RVFID \<leftarrow> rdn p 1 FID_LEN;
       up_TMFID \<leftarrow> rdn p (1 + FID_LEN) FID_LEN;
       Some (s\<lparr>lp_gc := (lp_gc s)\<lparr>defaultRV_dl := fid_of_bytes up_RVFID, TMFID := fid_of_bytes up_TMFID\<rparr>\<rparr>)
     }
     else if type = STOP_PUBLISH then do {
       zero \<leftarrow> bv_new (int (FID_LEN * 8));
       fold_opt (stop_one zero IDs) IDs s
     }
     else Some s
   }"

subsection \<open>An application leaves\<close>

text \<open>
  The last fragment of an identifier, what is before it, and the number of fragments before it as the
  code computes it: in \<^verbatim>\<open>int\<close>, dividing towards zero, stored in one byte.
\<close>

definition last_fragment :: "bstr \<Rightarrow> bstr" where
  "last_fragment x = substring (int (length x) - int PURSUIT_ID_LEN) (int PURSUIT_ID_LEN) x"

definition prefix_fragments :: "bstr \<Rightarrow> byte" where
  "prefix_fragments x = (if PURSUIT_ID_LEN \<le> length x then u8 ((length x - PURSUIT_ID_LEN) div PURSUIT_ID_LEN)
     else - u8 ((PURSUIT_ID_LEN - length x) div PURSUIT_ID_LEN))"

definition tell_RV :: "byte \<Rightarrow> bstr \<Rightarrow> bitvec \<Rightarrow> byte \<Rightarrow> local_proxy \<Rightarrow> local_proxy option" where
  "tell_RV type fullID RVFID strategy =
     createAndSendPacketToRV type 1 (last_fragment fullID) (prefix_fragments fullID) (father_of fullID) RVFID strategy"

definition leave_item_publication :: "lh_addr \<Rightarrow> bstr \<Rightarrow> local_proxy \<Rightarrow> local_proxy option" where
  "leave_item_publication a x s = do {
     ap \<leftarrow> hm_get (activePublicationIndex s) x;
     if \<not> ap_isScope ap then do {
       s \<leftarrow> host_del_pub a x s;
       let shouldNotify = (hm_get (ap_publishers ap) a \<noteq> Some STOP_PUBLISH);
       case hm_erase a (ap_publishers ap) of
         [] \<Rightarrow> tell_RV UNPUBLISH_INFO (ap_fullID ap) (ap_RVFID ap) (ap_strategy ap) (del_pub (ap_fullID ap) s)
       | (b, v) # pubs \<Rightarrow>
           if shouldNotify then do {
             let s = put_pub x (ap\<lparr>ap_publishers := (b, START_PUBLISH) # pubs\<rparr>) s;
             newPacket \<leftarrow> pk_make (1 + 1 + length (ap_fullID ap))
               ([START_PUBLISH, u8 (length (ap_fullID ap) div PURSUIT_ID_LEN)] @ ap_fullID ap);
             send_to_host b newPacket s
           } else Some (put_pub x (ap\<lparr>ap_publishers := (b, v) # pubs\<rparr>) s)
     } else Some s
   }"

definition deleteAllActiveInformationItemPublications :: "lh_addr \<Rightarrow> local_proxy \<Rightarrow> local_proxy option" where
  "deleteAllActiveInformationItemPublications a s = do {
     h \<leftarrow> lp_hosts s a;
     fold_opt (leave_item_publication a) (activePublications h) s
   }"

definition leave_item_subscription :: "lh_addr \<Rightarrow> bstr \<Rightarrow> local_proxy \<Rightarrow> local_proxy option" where
  "leave_item_subscription a x s = do {
     as \<leftarrow> hm_get (activeSubscriptionIndex s) x;
     if \<not> as_isScope as then do {
       s \<leftarrow> host_del_sub a x s;
       let as = as\<lparr>as_subscribers := hs_erase a (as_subscribers as)\<rparr>;
       if as_subscribers as = [] then do {
         let s = del_sub (as_fullID as) s;
         if forwards_subscription (as_strategy as)
         then tell_RV UNSUBSCRIBE_INFO (as_fullID as) (as_RVFID as) (as_strategy as) s
         else Some s
       } else Some (put_sub x as s)
     } else Some s
   }"

definition deleteAllActiveInformationItemSubscriptions :: "lh_addr \<Rightarrow> local_proxy \<Rightarrow> local_proxy option" where
  "deleteAllActiveInformationItemSubscriptions a s = do {
     h \<leftarrow> lp_hosts s a;
     fold_opt (leave_item_subscription a) (activeSubscriptions h) s
   }"

text \<open>Scopes leave level by level, the deepest first: \<open>levels isScope xs\<close> is the highest level.\<close>

fun max_level :: "(bstr \<Rightarrow> bool option) \<Rightarrow> bstr list \<Rightarrow> nat \<Rightarrow> nat option" where
  "max_level isScope [] m = Some m"
| "max_level isScope (x # xs) m = do {
     sc \<leftarrow> isScope x;
     max_level isScope xs (if sc \<and> length x div PURSUIT_ID_LEN > m then length x div PURSUIT_ID_LEN else m)
   }"

definition leave_scope_publication :: "lh_addr \<Rightarrow> nat \<Rightarrow> bstr \<Rightarrow> local_proxy \<Rightarrow> local_proxy option" where
  "leave_scope_publication a i x s = (if length x div PURSUIT_ID_LEN = i then do {
     ap \<leftarrow> hm_get (activePublicationIndex s) x;
     if ap_isScope ap then do {
       s \<leftarrow> host_del_pub a x s;
       let ap = ap\<lparr>ap_publishers := hm_erase a (ap_publishers ap)\<rparr>;
       if ap_publishers ap = []
       then tell_RV UNPUBLISH_SCOPE (ap_fullID ap) (ap_RVFID ap) (ap_strategy ap) (del_pub (ap_fullID ap) s)
       else Some (put_pub x ap s)
     } else Some s
   } else Some s)"

fun leave_scope_publications :: "lh_addr \<Rightarrow> nat \<Rightarrow> local_proxy \<Rightarrow> local_proxy option" where
  "leave_scope_publications a 0 s = Some s"
| "leave_scope_publications a (Suc i) s = do {
     h \<leftarrow> lp_hosts s a;
     s \<leftarrow> fold_opt (leave_scope_publication a (Suc i)) (activePublications h) s;
     leave_scope_publications a i s
   }"

definition deleteAllActiveScopePublications :: "lh_addr \<Rightarrow> local_proxy \<Rightarrow> local_proxy option" where
  "deleteAllActiveScopePublications a s = do {
     h \<leftarrow> lp_hosts s a;
     m \<leftarrow> max_level (\<lambda>x. map_option ap_isScope (hm_get (activePublicationIndex s) x)) (activePublications h) 0;
     leave_scope_publications a m s
   }"

definition leave_scope_subscription :: "lh_addr \<Rightarrow> nat \<Rightarrow> bstr \<Rightarrow> local_proxy \<Rightarrow> local_proxy option" where
  "leave_scope_subscription a i x s = (if length x div PURSUIT_ID_LEN = i then do {
     as \<leftarrow> hm_get (activeSubscriptionIndex s) x;
     if as_isScope as then do {
       s \<leftarrow> host_del_sub a x s;
       let as = as\<lparr>as_subscribers := hs_erase a (as_subscribers as)\<rparr>;
       if as_subscribers as = [] then do {
         let s = del_sub (as_fullID as) s;
         if forwards_subscription (as_strategy as)
         then tell_RV UNSUBSCRIBE_SCOPE (as_fullID as) (as_RVFID as) (as_strategy as) s
         else Some s
       } else Some (put_sub x as s)
     } else Some s
   } else Some s)"

fun leave_scope_subscriptions :: "lh_addr \<Rightarrow> nat \<Rightarrow> local_proxy \<Rightarrow> local_proxy option" where
  "leave_scope_subscriptions a 0 s = Some s"
| "leave_scope_subscriptions a (Suc i) s = do {
     h \<leftarrow> lp_hosts s a;
     s \<leftarrow> fold_opt (leave_scope_subscription a (Suc i)) (activeSubscriptions h) s;
     leave_scope_subscriptions a i s
   }"

definition deleteAllActiveScopeSubscriptions :: "lh_addr \<Rightarrow> local_proxy \<Rightarrow> local_proxy option" where
  "deleteAllActiveScopeSubscriptions a s = do {
     h \<leftarrow> lp_hosts s a;
     m \<leftarrow> max_level (\<lambda>x. map_option as_isScope (hm_get (activeSubscriptionIndex s) x)) (activeSubscriptions h) 0;
     leave_scope_subscriptions a m s
   }"

definition LocalProxy_disconnect :: "lh_addr \<Rightarrow> local_proxy \<Rightarrow> local_proxy option" where
  "LocalProxy_disconnect a s = do {
     s \<leftarrow> deleteAllActiveInformationItemPublications a s;
     s \<leftarrow> deleteAllActiveInformationItemSubscriptions a s;
     s \<leftarrow> deleteAllActiveScopePublications a s;
     s \<leftarrow> deleteAllActiveScopeSubscriptions a s;
     h \<leftarrow> lp_hosts s a;
     Some (s\<lparr>local_pub_sub_Index := hm_erase (lh_id h) (local_pub_sub_Index s), lp_hosts := (lp_hosts s)(a := None)\<rparr>)
   }"

subsection \<open>Packets\<close>

definition push_network :: "packet \<Rightarrow> local_proxy \<Rightarrow> local_proxy option" where
  "push_network p s = do {
     numberOfIDs \<leftarrow> rd8 p 0;
     (IDs, i) \<leftarrow> read_ids (unat numberOfIDs) p 1;
     p \<leftarrow> pk_pull i p;
     if length IDs = 1 \<and> IDs ! 0 = notificationIID (lp_gc s) then handleRVNotification p s
     else handleNetworkPublication IDs p s
   }"

definition push_data :: "lh_addr \<Rightarrow> packet \<Rightarrow> local_proxy \<Rightarrow> local_proxy option" where
  "push_data a p s = do {
     IDLength \<leftarrow> rd8 p 1;
     x \<leftarrow> rdn p 2 (unat IDLength * PURSUIT_ID_LEN);
     strategy \<leftarrow> rd8 p (2 + length x);
     if strategy = IMPLICIT_RENDEZVOUS then do {
       fid \<leftarrow> rdn p (3 + length x) FID_LEN;
       p \<leftarrow> pk_pull (3 + length x + FID_LEN) p;
       if x = notificationIID (lp_gc s) then handleRVNotification p s
       else handleUserPublicationFID x (fid_of_bytes fid) p a s
     }
     else if strategy = LINK_LOCAL then do {
       fid \<leftarrow> rdn p (3 + length x) FID_LEN;
       p \<leftarrow> pk_pull (3 + length x + FID_LEN) p;
       handleUserPublicationFID x (fid_of_bytes fid) p a s
     }
     else if strategy = BROADCAST_IF then do {
       fid \<leftarrow> bv_new (int (FID_LEN * 8));
       p \<leftarrow> pk_pull (3 + length x) p;
       handleUserPublicationFID x (bv_negate fid) p a s
     }
     else do {
       p \<leftarrow> pk_pull (3 + length x) p;
       handleUserPublication x p a s
     }
   }"

definition push_request :: "byte \<Rightarrow> lh_addr \<Rightarrow> packet \<Rightarrow> local_proxy \<Rightarrow> local_proxy option" where
  "push_request type a p s = do {
     IDLength \<leftarrow> rd8 p 1;
     ID \<leftarrow> rdn p 2 (unat IDLength * PURSUIT_ID_LEN);
     prefixIDLength \<leftarrow> rd8 p (2 + length ID);
     prefixID \<leftarrow> rdn p (3 + length ID) (unat prefixIDLength * PURSUIT_ID_LEN);
     strategy \<leftarrow> rd8 p (3 + length ID + length prefixID);
     zero \<leftarrow> bv_new (int (FID_LEN * 8));
     let RVFID = (if strategy = DOMAIN_LOCAL then defaultRV_dl (lp_gc s) else zero);
     (forward, s) \<leftarrow> handleLocalRequest type a ID prefixID strategy RVFID s;
     if forward then publishReqToRV p RVFID s else Some s
   }"

definition LocalProxy_push :: "nat \<Rightarrow> packet \<Rightarrow> local_proxy \<Rightarrow> local_proxy option" where
  "LocalProxy_push in_port p s = (if in_port = 2 then push_network p s
     else do {
       let (type_of_publisher, descriptor) =
         (if in_port = 0 then (LOCAL_PROCESS, case pk_anno p of Some i \<Rightarrow> i | None \<Rightarrow> 0)
          else (CLICK_ELEMENT, word_of_nat in_port));
       let (a, s) = getLocalHost type_of_publisher descriptor s;
       type \<leftarrow> rd8 p 0;
       if type = DISCONNECT then LocalProxy_disconnect a s
       else if type = PUBLISH_DATA then push_data a p s
       else push_request type a p s
     })"

subsection \<open>Start and clean-up\<close>

definition LocalProxy_configure :: "globalconf \<Rightarrow> local_proxy" where
  "LocalProxy_configure gc = \<lparr>lp_gc = gc, lp_hosts = \<lambda>_. None, lp_next = 0, local_pub_sub_Index = [],
     activePublicationIndex = [], activeSubscriptionIndex = [], lp_out = []\<rparr>"

definition delete_host :: "lh_addr \<Rightarrow> local_proxy \<Rightarrow> local_proxy option" where
  "delete_host a s = (case lp_hosts s a of None \<Rightarrow> None | Some _ \<Rightarrow> Some (s\<lparr>lp_hosts := (lp_hosts s)(a := None)\<rparr>))"

definition LocalProxy_cleanup :: "bool \<Rightarrow> local_proxy \<Rightarrow> local_proxy option" where
  "LocalProxy_cleanup initialized s = (if initialized then do {
     s \<leftarrow> fold_opt (\<lambda>(_, a). delete_host a) (local_pub_sub_Index s) s;
     Some (s\<lparr>local_pub_sub_Index := [], activePublicationIndex := [], activeSubscriptionIndex := []\<rparr>)
   } else Some s)"

end
