(* ===== verification/BA_LocalProxy_Inv.thy ===== *)
theory BA_LocalProxy_Inv
  imports BA_LocalProxy BA_Wire
begin

text \<open>
  The invariant of the dispatcher (hosts, publications and subscriptions agree), what every request
  of a host does to the books, what is sent for data and notifications.
\<close>

subsection \<open>The books\<close>

definition host_pubs :: "local_proxy \<Rightarrow> lh_addr \<Rightarrow> bstr set" where
  "host_pubs s a = (case lp_hosts s a of None \<Rightarrow> {} | Some h \<Rightarrow> set (activePublications h))"

definition host_subs :: "local_proxy \<Rightarrow> lh_addr \<Rightarrow> bstr set" where
  "host_subs s a = (case lp_hosts s a of None \<Rightarrow> {} | Some h \<Rightarrow> set (activeSubscriptions h))"

definition ap_hosts :: "active_pub option \<Rightarrow> lh_addr set" where
  "ap_hosts apo = (case apo of None \<Rightarrow> {} | Some ap \<Rightarrow> fst ` set (ap_publishers ap))"

definition as_hosts :: "active_sub option \<Rightarrow> lh_addr set" where
  "as_hosts aso = (case aso of None \<Rightarrow> {} | Some as \<Rightarrow> set (as_subscribers as))"

definition id_ok :: "bstr \<Rightarrow> bool" where
  "id_ok x \<longleftrightarrow> x \<noteq> [] \<and> 8 dvd length x \<and> length x \<le> 2048"

definition started :: "(lh_addr, byte) htab \<Rightarrow> lh_addr list" where
  "started m = map fst (filter (\<lambda>e. snd e = START_PUBLISH) m)"

definition ap_ok :: "bstr \<Rightarrow> active_pub \<Rightarrow> bool" where
  "ap_ok x ap \<longleftrightarrow> ap_fullID ap = x \<and> id_ok x \<and> hm_wf (ap_publishers ap) \<and> ap_publishers ap \<noteq> [] \<and>
     (\<forall>e \<in> set (ap_publishers ap). snd e = START_PUBLISH \<or> snd e = STOP_PUBLISH) \<and> length (started (ap_publishers ap)) \<le> 1 \<and>
     (is_fid (ap_FID ap) \<or> ap_FID ap = bv_empty) \<and> is_fid (ap_RVFID ap) \<and>
     (ap_strategy ap = NODE_LOCAL \<or> ap_strategy ap = DOMAIN_LOCAL)"

definition as_ok :: "bstr \<Rightarrow> active_sub \<Rightarrow> bool" where
  "as_ok x as \<longleftrightarrow> as_fullID as = x \<and> id_ok x \<and> distinct (as_subscribers as) \<and> as_subscribers as \<noteq> [] \<and> is_fid (as_RVFID as)"

text \<open>
  The invariant: every host is indexed under its id, the indexes are tables of well-formed entries,
  and a host is in the entry of an identifier exactly when the identifier is in the host's set.
\<close>

definition hosts_ok :: "local_proxy \<Rightarrow> bool" where
  "hosts_ok s \<longleftrightarrow> hm_wf (local_pub_sub_Index s) \<and>
     (\<forall>i a. hm_get (local_pub_sub_Index s) i = Some a \<longleftrightarrow> (\<exists>h. lp_hosts s a = Some h \<and> lh_id h = i)) \<and>
     (\<forall>a h. lp_hosts s a = Some h \<longrightarrow> a < lp_next s \<and> distinct (activePublications h) \<and> distinct (activeSubscriptions h))"

definition pubs_ok :: "local_proxy \<Rightarrow> bool" where
  "pubs_ok s \<longleftrightarrow> hm_wf (activePublicationIndex s) \<and>
     (\<forall>x ap. hm_get (activePublicationIndex s) x = Some ap \<longrightarrow> ap_ok x ap) \<and>
     (\<forall>x a. a \<in> ap_hosts (hm_get (activePublicationIndex s) x) \<longleftrightarrow> x \<in> host_pubs s a)"

definition subs_ok :: "local_proxy \<Rightarrow> bool" where
  "subs_ok s \<longleftrightarrow> hm_wf (activeSubscriptionIndex s) \<and>
     (\<forall>x as. hm_get (activeSubscriptionIndex s) x = Some as \<longrightarrow> as_ok x as) \<and>
     (\<forall>x a. a \<in> as_hosts (hm_get (activeSubscriptionIndex s) x) \<longleftrightarrow> x \<in> host_subs s a)"

definition lp_inv :: "local_proxy \<Rightarrow> bool" where
  "lp_inv s \<longleftrightarrow> gc_wf (lp_gc s) \<and> hosts_ok s \<and> pubs_ok s \<and> subs_ok s"

definition live_host :: "local_proxy \<Rightarrow> lh_addr \<Rightarrow> bool" where
  "live_host s a \<longleftrightarrow> lp_hosts s a \<noteq> None"

text \<open>What an operation may leave out of account: the packets that went out before.\<close>

lemma inv_out [simp]:
  "host_pubs (s\<lparr>lp_out := os\<rparr>) = host_pubs s" "host_subs (s\<lparr>lp_out := os\<rparr>) = host_subs s"
  "hosts_ok (s\<lparr>lp_out := os\<rparr>) = hosts_ok s" "pubs_ok (s\<lparr>lp_out := os\<rparr>) = pubs_ok s"
  "subs_ok (s\<lparr>lp_out := os\<rparr>) = subs_ok s" "lp_inv (s\<lparr>lp_out := os\<rparr>) = lp_inv s"
  "live_host (s\<lparr>lp_out := os\<rparr>) = live_host s"
  by (auto simp: host_pubs_def host_subs_def hosts_ok_def pubs_ok_def subs_ok_def lp_inv_def live_host_def fun_eq_iff)

lemma lp_send_sel [simp]:
  "lp_gc (lp_send q p s) = lp_gc s" "lp_hosts (lp_send q p s) = lp_hosts s"
  "activePublicationIndex (lp_send q p s) = activePublicationIndex s"
  "activeSubscriptionIndex (lp_send q p s) = activeSubscriptionIndex s"
  "local_pub_sub_Index (lp_send q p s) = local_pub_sub_Index s" "lp_next (lp_send q p s) = lp_next s"
  "lp_out (lp_send q p s) = lp_out s @ [(q, p)]"
  by (simp_all add: lp_send_def)

lemma inv_send [simp]:
  "host_pubs (lp_send q p s) = host_pubs s" "host_subs (lp_send q p s) = host_subs s" "lp_inv (lp_send q p s) = lp_inv s"
  "live_host (lp_send q p s) = live_host s"
  by (simp_all add: lp_send_def)

lemma publisher_iff:
  "lp_inv s \<Longrightarrow> a \<in> ap_hosts (hm_get (activePublicationIndex s) x) \<longleftrightarrow> x \<in> host_pubs s a"
  by (simp add: lp_inv_def pubs_ok_def)

lemma subscriber_iff:
  "lp_inv s \<Longrightarrow> a \<in> as_hosts (hm_get (activeSubscriptionIndex s) x) \<longleftrightarrow> x \<in> host_subs s a"
  by (simp add: lp_inv_def subs_ok_def)

lemma inv_ap_ok: "lp_inv s \<Longrightarrow> hm_get (activePublicationIndex s) x = Some ap \<Longrightarrow> ap_ok x ap"
  by (simp add: lp_inv_def pubs_ok_def)

lemma inv_as_ok: "lp_inv s \<Longrightarrow> hm_get (activeSubscriptionIndex s) x = Some as \<Longrightarrow> as_ok x as"
  by (simp add: lp_inv_def subs_ok_def)

lemma pubs_live: "x \<in> host_pubs s a \<Longrightarrow> live_host s a"
  by (auto simp: host_pubs_def live_host_def split: option.splits)

lemma subs_live: "x \<in> host_subs s a \<Longrightarrow> live_host s a"
  by (auto simp: host_subs_def live_host_def split: option.splits)

lemma publisher_live:
  "lp_inv s \<Longrightarrow> hm_get (activePublicationIndex s) x = Some ap \<Longrightarrow> (a, v) \<in> set (ap_publishers ap) \<Longrightarrow> live_host s a"
  using publisher_iff [of s a x] pubs_live by (force simp: ap_hosts_def)

lemma subscriber_live:
  "lp_inv s \<Longrightarrow> hm_get (activeSubscriptionIndex s) x = Some as \<Longrightarrow> a \<in> set (as_subscribers as) \<Longrightarrow> live_host s a"
  using subscriber_iff [of s a x] subs_live by (force simp: as_hosts_def)

subsection \<open>Changes to the books\<close>

text \<open>One host's set and one entry of the index change together.\<close>

definition set_pub :: "lh_addr \<Rightarrow> bstr list \<Rightarrow> (bstr, active_pub) htab \<Rightarrow> local_proxy \<Rightarrow> local_proxy" where
  "set_pub a l idx s = s\<lparr>lp_hosts := (\<lambda>b. if b = a then map_option (\<lambda>h. h\<lparr>activePublications := l\<rparr>) (lp_hosts s a) else lp_hosts s b),
     activePublicationIndex := idx\<rparr>"

definition set_sub :: "lh_addr \<Rightarrow> bstr list \<Rightarrow> (bstr, active_sub) htab \<Rightarrow> local_proxy \<Rightarrow> local_proxy" where
  "set_sub a l idx s = s\<lparr>lp_hosts := (\<lambda>b. if b = a then map_option (\<lambda>h. h\<lparr>activeSubscriptions := l\<rparr>) (lp_hosts s a) else lp_hosts s b),
     activeSubscriptionIndex := idx\<rparr>"

lemma set_pub_inv:
  assumes "lp_inv s" and "lp_hosts s a = Some h" and "distinct l"
    and "\<And>y. y \<noteq> x \<Longrightarrow> y \<in> set l \<longleftrightarrow> y \<in> set (activePublications h)"
    and "hm_wf idx" and "\<And>y. y \<noteq> x \<Longrightarrow> hm_get idx y = hm_get (activePublicationIndex s) y"
    and "\<And>ap. hm_get idx x = Some ap \<Longrightarrow> ap_ok x ap"
    and "\<And>b. b \<noteq> a \<Longrightarrow> b \<in> ap_hosts (hm_get idx x) \<longleftrightarrow> b \<in> ap_hosts (hm_get (activePublicationIndex s) x)"
    and "a \<in> ap_hosts (hm_get idx x) \<longleftrightarrow> x \<in> set l"
  shows "lp_inv (set_pub a l idx s)"
proof -
  have ps: "host_pubs (set_pub a l idx s) b = (if b = a then set l else host_pubs s b)" for b
    using assms(2) by (simp add: host_pubs_def set_pub_def)
  have ss: "host_subs (set_pub a l idx s) = host_subs s"
    using assms(2) by (auto simp: host_subs_def set_pub_def fun_eq_iff)
  have pa: "host_pubs s a = set (activePublications h)" using assms(2) by (simp add: host_pubs_def)
  have h: "hosts_ok (set_pub a l idx s)"
    using assms(1-3) unfolding lp_inv_def hosts_ok_def set_pub_def by (auto split: if_splits)
  have "b \<in> ap_hosts (hm_get idx y) \<longleftrightarrow> y \<in> host_pubs (set_pub a l idx s) b" for y b
    using assms(4,6,8,9) publisher_iff [OF assms(1)] pa by (cases "y = x"; cases "b = a") (auto simp: ps)
  moreover have "ap_ok y ap" if "hm_get idx y = Some ap" for y ap
    using that assms(6,7) inv_ap_ok [OF assms(1)] by (cases "y = x") auto
  ultimately have p: "pubs_ok (set_pub a l idx s)"
    using assms(5) unfolding pubs_ok_def by (simp add: set_pub_def)
  have "subs_ok (set_pub a l idx s)"
    using assms(1) ss unfolding lp_inv_def subs_ok_def by (simp add: set_pub_def)
  with h p assms(1) show ?thesis by (simp add: lp_inv_def set_pub_def)
qed

lemma set_sub_inv:
  assumes "lp_inv s" and "lp_hosts s a = Some h" and "distinct l"
    and "\<And>y. y \<noteq> x \<Longrightarrow> y \<in> set l \<longleftrightarrow> y \<in> set (activeSubscriptions h)"
    and "hm_wf idx" and "\<And>y. y \<noteq> x \<Longrightarrow> hm_get idx y = hm_get (activeSubscriptionIndex s) y"
    and "\<And>as. hm_get idx x = Some as \<Longrightarrow> as_ok x as"
    and "\<And>b. b \<noteq> a \<Longrightarrow> b \<in> as_hosts (hm_get idx x) \<longleftrightarrow> b \<in> as_hosts (hm_get (activeSubscriptionIndex s) x)"
    and "a \<in> as_hosts (hm_get idx x) \<longleftrightarrow> x \<in> set l"
  shows "lp_inv (set_sub a l idx s)"
proof -
  have ss: "host_subs (set_sub a l idx s) b = (if b = a then set l else host_subs s b)" for b
    using assms(2) by (simp add: host_subs_def set_sub_def)
  have ps: "host_pubs (set_sub a l idx s) = host_pubs s"
    using assms(2) by (auto simp: host_pubs_def set_sub_def fun_eq_iff)
  have sa: "host_subs s a = set (activeSubscriptions h)" using assms(2) by (simp add: host_subs_def)
  have h: "hosts_ok (set_sub a l idx s)"
    using assms(1-3) unfolding lp_inv_def hosts_ok_def set_sub_def by (auto split: if_splits)
  have "b \<in> as_hosts (hm_get idx y) \<longleftrightarrow> y \<in> host_subs (set_sub a l idx s) b" for y b
    using assms(4,6,8,9) subscriber_iff [OF assms(1)] sa by (cases "y = x"; cases "b = a") (auto simp: ss)
  moreover have "as_ok y as" if "hm_get idx y = Some as" for y as
    using that assms(6,7) inv_as_ok [OF assms(1)] by (cases "y = x") auto
  ultimately have p: "subs_ok (set_sub a l idx s)"
    using assms(5) unfolding subs_ok_def by (simp add: set_sub_def)
  have "pubs_ok (set_sub a l idx s)"
    using assms(1) ps unfolding lp_inv_def pubs_ok_def by (simp add: set_sub_def)
  with h p assms(1) show ?thesis by (simp add: lp_inv_def set_sub_def)
qed

text \<open>Only the entry changes, not who is in it.\<close>

lemma put_pub_inv:
  assumes "lp_inv s" and "hm_get (activePublicationIndex s) x = Some ap" and "ap_ok x ap'"
    and "fst ` set (ap_publishers ap') = fst ` set (ap_publishers ap)"
  shows "lp_inv (put_pub x ap' s) \<and> host_pubs (put_pub x ap' s) = host_pubs s \<and> host_subs (put_pub x ap' s) = host_subs s \<and>
    live_host (put_pub x ap' s) = live_host s"
proof -
  have e: "host_pubs (put_pub x ap' s) = host_pubs s" "host_subs (put_pub x ap' s) = host_subs s" "live_host (put_pub x ap' s) = live_host s"
    by (auto simp: host_pubs_def host_subs_def put_pub_def live_host_def fun_eq_iff)
  have "hosts_ok (put_pub x ap' s)" "subs_ok (put_pub x ap' s)"
    using assms(1) e unfolding lp_inv_def hosts_ok_def subs_ok_def by (simp_all add: put_pub_def)
  moreover have "a \<in> ap_hosts (hm_get (activePublicationIndex (put_pub x ap' s)) y) \<longleftrightarrow> y \<in> host_pubs s a" for a y
    using publisher_iff [OF assms(1), of a y] assms(2,4) by (cases "y = x") (simp_all add: put_pub_def ap_hosts_def)
  then have "pubs_ok (put_pub x ap' s)"
    using assms(1,3) e unfolding lp_inv_def pubs_ok_def by (simp add: put_pub_def)
  ultimately show ?thesis using assms(1) e by (simp add: lp_inv_def put_pub_def)
qed

lemma set_pub_sel [simp]:
  "lp_gc (set_pub a l idx s) = lp_gc s" "lp_out (set_pub a l idx s) = lp_out s"
  "local_pub_sub_Index (set_pub a l idx s) = local_pub_sub_Index s" "lp_next (set_pub a l idx s) = lp_next s"
  "activePublicationIndex (set_pub a l idx s) = idx" "activeSubscriptionIndex (set_pub a l idx s) = activeSubscriptionIndex s"
  by (simp_all add: set_pub_def)

lemma set_sub_sel [simp]:
  "lp_gc (set_sub a l idx s) = lp_gc s" "lp_out (set_sub a l idx s) = lp_out s"
  "local_pub_sub_Index (set_sub a l idx s) = local_pub_sub_Index s" "lp_next (set_sub a l idx s) = lp_next s"
  "activeSubscriptionIndex (set_sub a l idx s) = idx" "activePublicationIndex (set_sub a l idx s) = activePublicationIndex s"
  by (simp_all add: set_sub_def)

text \<open>What identifies a host: its type and id.\<close>

definition host_key :: "local_proxy \<Rightarrow> lh_addr \<Rightarrow> (nat \<times> 32 word) option" where
  "host_key s a = map_option (\<lambda>h. (lh_type h, lh_id h)) (lp_hosts s a)"

lemma live_key: "live_host s a \<longleftrightarrow> host_key s a \<noteq> None"
  by (simp add: live_host_def host_key_def)

lemma host_key_set [simp]: "host_key (set_pub a l idx s) = host_key s" "host_key (set_sub a l idx' s) = host_key s"
  "host_key (lp_send q p s) = host_key s" "host_key (put_pub x ap s) = host_key s" "host_key (s\<lparr>lp_out := os\<rparr>) = host_key s"
  by (auto simp: host_key_def set_pub_def set_sub_def put_pub_def fun_eq_iff option.map_comp o_def)

lemma live_set [simp]: "live_host (set_pub a l idx s) = live_host s" "live_host (set_sub a l idx' s) = live_host s"
  by (auto simp: live_host_def set_pub_def set_sub_def fun_eq_iff)

lemma host_pubs_set:
  "live_host s a \<Longrightarrow> host_pubs (set_pub a l idx s) = (host_pubs s)(a := set l)"
  "host_pubs (set_sub a l idx' s) = host_pubs s"
  by (auto simp: host_pubs_def set_pub_def set_sub_def fun_eq_iff live_host_def split: option.splits)

lemma host_subs_set:
  "live_host s a \<Longrightarrow> host_subs (set_sub a l idx s) = (host_subs s)(a := set l)"
  "host_subs (set_pub a l idx' s) = host_subs s"
  by (auto simp: host_subs_def set_pub_def set_sub_def fun_eq_iff live_host_def split: option.splits)

lemma upd_host_ok: "lp_hosts s a = Some h \<Longrightarrow> upd_host a f s = Some (s\<lparr>lp_hosts := (lp_hosts s)(a \<mapsto> f h)\<rparr>)"
  by (simp add: upd_host_def)

lemma add_pub_eq:
  "lp_hosts s a = Some h \<Longrightarrow>
   host_add_pub a x (put_pub x ap s) = Some (set_pub a (hs_insert x (activePublications h)) (hm_set x ap (activePublicationIndex s)) s)"
  by (auto simp: host_add_pub_def upd_host_def put_pub_def set_pub_def fun_eq_iff intro!: local_proxy.equality)

lemma del_pub_eq:
  assumes "lp_hosts s a = Some h"
  shows "\<exists>s1. host_del_pub a x s = Some s1 \<and>
    put_pub x ap s1 = set_pub a (hs_erase x (activePublications h)) (hm_set x ap (activePublicationIndex s)) s \<and>
    del_pub x s1 = set_pub a (hs_erase x (activePublications h)) (hm_erase x (activePublicationIndex s)) s"
  using assms by (auto simp: host_del_pub_def upd_host_def put_pub_def del_pub_def set_pub_def fun_eq_iff intro!: local_proxy.equality)

lemma add_sub_eq:
  "lp_hosts s a = Some h \<Longrightarrow>
   host_add_sub a x (put_sub x as s) = Some (set_sub a (hs_insert x (activeSubscriptions h)) (hm_set x as (activeSubscriptionIndex s)) s)"
  by (auto simp: host_add_sub_def upd_host_def put_sub_def set_sub_def fun_eq_iff intro!: local_proxy.equality)

lemma del_sub_eq:
  assumes "lp_hosts s a = Some h"
  shows "\<exists>s1. host_del_sub a x s = Some s1 \<and>
    put_sub x as s1 = set_sub a (hs_erase x (activeSubscriptions h)) (hm_set x as (activeSubscriptionIndex s)) s \<and>
    del_sub x s1 = set_sub a (hs_erase x (activeSubscriptions h)) (hm_erase x (activeSubscriptionIndex s)) s"
  using assms by (auto simp: host_del_sub_def upd_host_def put_sub_def del_sub_def set_sub_def fun_eq_iff intro!: local_proxy.equality)

lemma inv_distinct:
  assumes "lp_inv s" "lp_hosts s a = Some h"
  shows "distinct (activePublications h)" "distinct (activeSubscriptions h)"
  using assms by (auto simp: lp_inv_def hosts_ok_def)

lemma hs_erase_Nil_iff: "hs_erase a l = [] \<longleftrightarrow> set l \<subseteq> {a}"
  by (auto simp: hs_erase_def filter_empty_conv)

lemma hm_erase_Nil_iff: "hm_erase a m = [] \<longleftrightarrow> fst ` set m \<subseteq> {a}"
  by (auto simp: hm_erase_def filter_empty_conv)

lemma fst_hm_set: "fst ` set (hm_set k v m) = insert k (fst ` set m)"
  using keys_hm_set [of k v m] by simp

lemma fst_hm_erase: "fst ` set (hm_erase k m) = fst ` set m - {k}"
  using keys_hm_erase [of k m] by simp

lemma fst_find_insert: "fst ` set (hm_find_insert k v m) = insert k (fst ` set m)"
  using hm_get_Some_key [of m k] by (auto simp: hm_find_insert_def fst_hm_set split: option.splits)

lemma hm_set_new: "k \<notin> fst ` set m \<Longrightarrow> hm_set k v m = m @ [(k, v)]"
  by (induction k v m rule: hm_set.induct) auto

lemma find_insert_stop:
  "hm_find_insert k STOP_PUBLISH m = m \<or> hm_find_insert k STOP_PUBLISH m = m @ [(k, STOP_PUBLISH)]"
proof (cases "hm_get m k")
  case None
  then have "k \<notin> fst ` set m" by (simp add: hm_get_None_fst)
  then show ?thesis using None by (simp add: hm_find_insert_def hm_set_new)
qed (simp add: hm_find_insert_def)

lemma started_append [simp]: "started (m @ m') = started m @ started m'"
  by (simp add: started_def)

lemma started_Cons: "started (e # m) = (if snd e = START_PUBLISH then fst e # started m else started m)"
  by (simp add: started_def)

lemma started_Nil [simp]: "started [] = []"
  by (simp add: started_def)

lemma started_filter_le: "length (started (filter P m)) \<le> length (started m)"
  by (induction m) (auto simp: started_Cons)

lemma started_set: "set (started m) = {a. (a, START_PUBLISH) \<in> set m}"
  by (auto simp: started_def image_iff)

subsection \<open>Requests of a host\<close>

text \<open>The entry a publication or subscription request works on.\<close>

definition pub_entry :: "bstr \<Rightarrow> byte \<Rightarrow> bitvec \<Rightarrow> bool \<Rightarrow> local_proxy \<Rightarrow> active_pub" where
  "pub_entry x strategy RVFID isScope s = (case hm_get (activePublicationIndex s) x of
     Some ap \<Rightarrow> ap | None \<Rightarrow> (ActivePublication_new x strategy isScope)\<lparr>ap_RVFID := RVFID\<rparr>)"

definition sub_entry :: "bstr \<Rightarrow> byte \<Rightarrow> bitvec \<Rightarrow> bool \<Rightarrow> local_proxy \<Rightarrow> active_sub" where
  "sub_entry x strategy RVFID isScope s = (case hm_get (activeSubscriptionIndex s) x of
     Some as \<Rightarrow> as | None \<Rightarrow> (ActiveSubscription_new x strategy isScope)\<lparr>as_RVFID := RVFID\<rparr>)"

definition rv_strategy :: "byte \<Rightarrow> bool" where
  "rv_strategy strategy \<longleftrightarrow> strategy = NODE_LOCAL \<or> strategy = DOMAIN_LOCAL"

lemma storeActivePublication_eq:
  assumes "lp_hosts s a = Some h"
  shows "storeActivePublication a x strategy RVFID isScope s =
    (if rv_strategy strategy \<and> ap_strategy (pub_entry x strategy RVFID isScope s) = strategy
     then (let ap = pub_entry x strategy RVFID isScope s in
       Some (hm_get (activePublicationIndex s) x = None,
         set_pub a (hs_insert x (activePublications h))
           (hm_set x (ap\<lparr>ap_publishers := hm_find_insert a STOP_PUBLISH (ap_publishers ap)\<rparr>) (activePublicationIndex s)) s))
     else Some (False, s))"
  using add_pub_eq [OF assms]
  by (auto simp: storeActivePublication_def rv_strategy_def pub_entry_def ActivePublication_new_def Let_def split: option.splits)

lemma storeActiveSubscription_eq:
  assumes "lp_hosts s a = Some h"
  shows "storeActiveSubscription a x strategy RVFID isScope s =
    (if as_strategy (sub_entry x strategy RVFID isScope s) = strategy
     then (let as = sub_entry x strategy RVFID isScope s in
       Some (hm_get (activeSubscriptionIndex s) x = None \<and> forwards_subscription strategy,
         set_sub a (hs_insert x (activeSubscriptions h))
           (hm_set x (as\<lparr>as_subscribers := hs_insert a (as_subscribers as)\<rparr>) (activeSubscriptionIndex s)) s))
     else Some (False, s))"
  using add_sub_eq [OF assms]
  by (auto simp: storeActiveSubscription_def sub_entry_def ActiveSubscription_new_def Let_def split: option.splits)

lemma removeActivePublication_eq:
  assumes "lp_hosts s a = Some h"
  shows "removeActivePublication a x strategy s =
    (case hm_get (activePublicationIndex s) x of
       None \<Rightarrow> Some (False, s)
     | Some ap \<Rightarrow> if rv_strategy strategy \<and> ap_strategy ap = strategy
         then (let l = hs_erase x (activePublications h); m = hm_erase a (ap_publishers ap); idx = activePublicationIndex s in
           Some (if m = [] then (True, set_pub a l (hm_erase x idx) s)
                 else (False, set_pub a l (hm_set x (ap\<lparr>ap_publishers := m\<rparr>) idx) s)))
         else Some (False, s))"
proof (cases "hm_get (activePublicationIndex s) x")
  case (Some ap)
  from del_pub_eq [OF assms, of x "ap\<lparr>ap_publishers := hm_erase a (ap_publishers ap)\<rparr>"] obtain s1 where
    "host_del_pub a x s = Some s1" and
    "put_pub x (ap\<lparr>ap_publishers := hm_erase a (ap_publishers ap)\<rparr>) s1 =
      set_pub a (hs_erase x (activePublications h))
        (hm_set x (ap\<lparr>ap_publishers := hm_erase a (ap_publishers ap)\<rparr>) (activePublicationIndex s)) s"
    "del_pub x s1 = set_pub a (hs_erase x (activePublications h)) (hm_erase x (activePublicationIndex s)) s" by auto
  with Some show ?thesis by (simp add: removeActivePublication_def rv_strategy_def Let_def)
qed (simp add: removeActivePublication_def)

lemma removeActiveSubscription_eq:
  assumes "lp_hosts s a = Some h"
  shows "removeActiveSubscription a x strategy s =
    (case hm_get (activeSubscriptionIndex s) x of
       None \<Rightarrow> Some (False, s)
     | Some as \<Rightarrow> if as_strategy as = strategy
         then (let l = hs_erase x (activeSubscriptions h); m = hs_erase a (as_subscribers as); idx = activeSubscriptionIndex s in
           Some (if m = [] then (forwards_subscription strategy, set_sub a l (hm_erase x idx) s)
                 else (False, set_sub a l (hm_set x (as\<lparr>as_subscribers := m\<rparr>) idx) s)))
         else Some (False, s))"
proof (cases "hm_get (activeSubscriptionIndex s) x")
  case (Some as)
  from del_sub_eq [OF assms, of x "as\<lparr>as_subscribers := hs_erase a (as_subscribers as)\<rparr>"] obtain s1 where
    "host_del_sub a x s = Some s1" and
    "put_sub x (as\<lparr>as_subscribers := hs_erase a (as_subscribers as)\<rparr>) s1 =
      set_sub a (hs_erase x (activeSubscriptions h))
        (hm_set x (as\<lparr>as_subscribers := hs_erase a (as_subscribers as)\<rparr>) (activeSubscriptionIndex s)) s"
    "del_sub x s1 = set_sub a (hs_erase x (activeSubscriptions h)) (hm_erase x (activeSubscriptionIndex s)) s" by auto
  with Some show ?thesis by (simp add: removeActiveSubscription_def Let_def)
qed (simp add: removeActiveSubscription_def)

lemma lp_hosts_live: "live_host s a \<Longrightarrow> \<exists>h. lp_hosts s a = Some h"
  by (auto simp: live_host_def)

lemma host_pubs_eq: "lp_hosts s a = Some h \<Longrightarrow> host_pubs s a = set (activePublications h)"
  by (simp add: host_pubs_def)

lemma host_subs_eq: "lp_hosts s a = Some h \<Longrightarrow> host_subs s a = set (activeSubscriptions h)"
  by (simp add: host_subs_def)

lemma host_live: "lp_hosts s a = Some h \<Longrightarrow> live_host s a"
  by (simp add: live_host_def)

lemma inv_idx_wf:
  assumes "lp_inv s"
  shows "hm_wf (activePublicationIndex s)" "hm_wf (activeSubscriptionIndex s)" "hm_wf (local_pub_sub_Index s)"
  using assms by (auto simp: lp_inv_def pubs_ok_def subs_ok_def hosts_ok_def)

lemma inv_gc: "lp_inv s \<Longrightarrow> gc_wf (lp_gc s)"
  by (simp add: lp_inv_def)

lemma ap_ok_join:
  assumes "ap_ok x ap \<or> (ap = (ActivePublication_new x strategy isScope)\<lparr>ap_RVFID := RVFID\<rparr> \<and> id_ok x \<and> is_fid RVFID \<and> rv_strategy strategy)"
  shows "ap_ok x (ap\<lparr>ap_publishers := hm_find_insert a STOP_PUBLISH (ap_publishers ap)\<rparr>)"
proof (cases "ap_ok x ap")
  case True
  then show ?thesis using find_insert_stop [of a "ap_publishers ap"] hm_wf_find_insert [of "ap_publishers ap" a STOP_PUBLISH]
    by (auto simp: ap_ok_def started_Cons)
next
  case False
  with assms show ?thesis
    by (auto simp: ap_ok_def ActivePublication_new_def rv_strategy_def started_Cons hm_find_insert_def hm_wf_def)
qed

lemma join_pub:
  assumes "lp_inv s" and "lp_hosts s a = Some h" and "ap = pub_entry x strategy RVFID isScope s"
    and "id_ok x" and "is_fid RVFID" and "rv_strategy strategy"
  shows "lp_inv (set_pub a (hs_insert x (activePublications h))
    (hm_set x (ap\<lparr>ap_publishers := hm_find_insert a STOP_PUBLISH (ap_publishers ap)\<rparr>) (activePublicationIndex s)) s)"
proof (rule set_pub_inv [OF assms(1,2), where x = x])
  have ok: "ap_ok x ap \<or> (ap = (ActivePublication_new x strategy isScope)\<lparr>ap_RVFID := RVFID\<rparr> \<and> id_ok x \<and> is_fid RVFID \<and> rv_strategy strategy)"
    using assms(3-6) inv_ap_ok [OF assms(1)] by (auto simp: pub_entry_def split: option.splits)
  then show "ap_ok x ap'" if "hm_get (hm_set x (ap\<lparr>ap_publishers := hm_find_insert a STOP_PUBLISH (ap_publishers ap)\<rparr>)
      (activePublicationIndex s)) x = Some ap'" for ap'
    using that ap_ok_join [OF ok, of a] by (metis hm_get_set option.inject)
  have m: "fst ` set (ap_publishers ap) = ap_hosts (hm_get (activePublicationIndex s) x)"
    using assms(3) by (auto simp: pub_entry_def ap_hosts_def ActivePublication_new_def split: option.splits)
  show "b \<in> ap_hosts (hm_get (hm_set x (ap\<lparr>ap_publishers := hm_find_insert a STOP_PUBLISH (ap_publishers ap)\<rparr>)
      (activePublicationIndex s)) x) \<longleftrightarrow> b \<in> ap_hosts (hm_get (activePublicationIndex s) x)" if "b \<noteq> a" for b
    using that m by (simp add: ap_hosts_def fst_find_insert)
qed (use inv_distinct [OF assms(1,2)] inv_idx_wf [OF assms(1)] in \<open>auto simp: ap_hosts_def fst_find_insert\<close>)

lemma hs_insert_not_Nil [simp]: "hs_insert a l \<noteq> []"
  by (auto simp: hs_insert_def)

lemma join_sub:
  assumes "lp_inv s" and "lp_hosts s a = Some h" and "as = sub_entry x strategy RVFID isScope s"
    and "id_ok x" and "is_fid RVFID"
  shows "lp_inv (set_sub a (hs_insert x (activeSubscriptions h))
    (hm_set x (as\<lparr>as_subscribers := hs_insert a (as_subscribers as)\<rparr>) (activeSubscriptionIndex s)) s)"
proof (rule set_sub_inv [OF assms(1,2), where x = x])
  show "as_ok x as'" if "hm_get (hm_set x (as\<lparr>as_subscribers := hs_insert a (as_subscribers as)\<rparr>)
      (activeSubscriptionIndex s)) x = Some as'" for as'
    using that assms(3-5) inv_as_ok [OF assms(1)]
    by (auto simp: sub_entry_def as_ok_def ActiveSubscription_new_def split: option.splits)
  have m: "set (as_subscribers as) = as_hosts (hm_get (activeSubscriptionIndex s) x)"
    using assms(3) by (auto simp: sub_entry_def as_hosts_def ActiveSubscription_new_def split: option.splits)
  show "b \<in> as_hosts (hm_get (hm_set x (as\<lparr>as_subscribers := hs_insert a (as_subscribers as)\<rparr>)
      (activeSubscriptionIndex s)) x) \<longleftrightarrow> b \<in> as_hosts (hm_get (activeSubscriptionIndex s) x)" if "b \<noteq> a" for b
    using that m by (simp add: as_hosts_def)
qed (use inv_distinct [OF assms(1,2)] inv_idx_wf [OF assms(1)] in \<open>auto simp: as_hosts_def\<close>)

lemma ap_ok_erase:
  "ap_ok x ap \<Longrightarrow> hm_erase a (ap_publishers ap) \<noteq> [] \<Longrightarrow> ap_ok x (ap\<lparr>ap_publishers := hm_erase a (ap_publishers ap)\<rparr>)"
  using started_filter_le [of "\<lambda>e. fst e \<noteq> a" "ap_publishers ap"] hm_wf_erase [of "ap_publishers ap" a]
  by (auto simp: ap_ok_def hm_erase_def)

text \<open>The one that was told to publish leaves: nobody else was, so the first of the others may be told.\<close>

lemma started_erase:
  assumes "hm_wf m" "length (started m) \<le> 1" "hm_get m a = Some START_PUBLISH"
  shows "started (hm_erase a m) = []"
proof -
  have "a \<in> set (started m)" using hm_get_in [OF assms(3)] by (simp add: started_set)
  then have "started m = [a]" using assms(2) by (cases "started m") auto
  then have "{b. (b, START_PUBLISH) \<in> set m} = {a}" using started_set [of m] by simp
  then have "set (started (hm_erase a m)) = {}" by (auto simp: started_set hm_erase_def)
  then show ?thesis by simp
qed

lemma ap_ok_handover:
  assumes "ap_ok x ap" "a \<in> fst ` set (ap_publishers ap)" "hm_get (ap_publishers ap) a \<noteq> Some STOP_PUBLISH"
    and "hm_erase a (ap_publishers ap) = (b, v) # m"
  shows "ap_ok x (ap\<lparr>ap_publishers := (b, START_PUBLISH) # m\<rparr>)"
proof -
  from hm_key_get [OF assms(2)] obtain w where w: "hm_get (ap_publishers ap) a = Some w" by blast
  then have "w = START_PUBLISH" using assms(1,3) hm_get_in [OF w] by (fastforce simp: ap_ok_def)
  then have "started ((b, v) # m) = []" using started_erase assms(1,4) w by (metis ap_ok_def)
  moreover have "hm_wf ((b, v) # m)" using hm_wf_erase assms(1,4) by (metis ap_ok_def)
  moreover have "\<forall>e \<in> set m. snd e = START_PUBLISH \<or> snd e = STOP_PUBLISH"
  proof -
    have "set m \<subseteq> set (ap_publishers ap)" using assms(4) by (auto simp: hm_erase_def filter_eq_Cons_iff)
    then show ?thesis using assms(1) by (auto simp: ap_ok_def)
  qed
  ultimately show ?thesis using assms(1) by (auto simp: ap_ok_def hm_wf_def started_Cons split: if_splits)
qed

lemma leave_pub:
  assumes "lp_inv s" and "lp_hosts s a = Some h" and "hm_get (activePublicationIndex s) x = Some ap"
    and "hm_erase a (ap_publishers ap) \<noteq> [] \<Longrightarrow> ap_ok x ap' \<and> fst ` set (ap_publishers ap') = fst ` set (ap_publishers ap) - {a}"
    and "idx = (if hm_erase a (ap_publishers ap) = [] then hm_erase x (activePublicationIndex s)
                else hm_set x ap' (activePublicationIndex s))"
  shows "lp_inv (set_pub a (hs_erase x (activePublications h)) idx s)"
proof (rule set_pub_inv [OF assms(1,2), where x = x])
  note wf = inv_idx_wf(1) [OF assms(1)]
  show "hm_wf idx" using wf assms(5) by simp
  show "ap_ok x ap''" if "hm_get idx x = Some ap''" for ap''
    using that assms(4,5) by (auto split: if_splits)
  show "b \<in> ap_hosts (hm_get idx x) \<longleftrightarrow> b \<in> ap_hosts (hm_get (activePublicationIndex s) x)" if "b \<noteq> a" for b
    using that assms(3-5) by (auto simp: ap_hosts_def hm_erase_Nil_iff)
  show "(a \<in> ap_hosts (hm_get idx x)) = (x \<in> set (hs_erase x (activePublications h)))"
    using assms(4,5) by (auto simp: ap_hosts_def)
qed (use inv_distinct [OF assms(1,2)] assms(5) in auto)

lemma leave_sub:
  assumes "lp_inv s" and "lp_hosts s a = Some h" and "hm_get (activeSubscriptionIndex s) x = Some as"
    and "idx = (if hs_erase a (as_subscribers as) = [] then hm_erase x (activeSubscriptionIndex s)
                else hm_set x (as\<lparr>as_subscribers := hs_erase a (as_subscribers as)\<rparr>) (activeSubscriptionIndex s))"
  shows "lp_inv (set_sub a (hs_erase x (activeSubscriptions h)) idx s)"
proof (rule set_sub_inv [OF assms(1,2), where x = x])
  note wf = inv_idx_wf(2) [OF assms(1)] and ok = inv_as_ok [OF assms(1,3)]
  show "hm_wf idx" using wf assms(4) by simp
  show "as_ok x as''" if "hm_get idx x = Some as''" for as''
    using that assms(4) ok by (auto simp: as_ok_def split: if_splits)
  show "b \<in> as_hosts (hm_get idx x) \<longleftrightarrow> b \<in> as_hosts (hm_get (activeSubscriptionIndex s) x)" if "b \<noteq> a" for b
    using that assms(3,4) by (auto simp: as_hosts_def hs_erase_Nil_iff)
  show "(a \<in> as_hosts (hm_get idx x)) = (x \<in> set (hs_erase x (activeSubscriptions h)))"
    using assms(4) by (auto simp: as_hosts_def)
qed (use inv_distinct [OF assms(1,2)] assms(4) in auto)

subsection \<open>Sending\<close>

text \<open>A packet to a host, and a packet to the rendezvous element (here, or by a forwarding identifier).\<close>

definition host_out :: "local_proxy \<Rightarrow> lh_addr \<Rightarrow> packet \<Rightarrow> nat \<times> packet" where
  "host_out s a p = (case host_key s a of
     Some (t, i) \<Rightarrow> if t = CLICK_ELEMENT then (unat i, p) else (0, p\<lparr>pk_anno := Some i\<rparr>)
   | None \<Rightarrow> (0, p))"

definition rv_out :: "globalconf \<Rightarrow> bitvec \<Rightarrow> packet \<Rightarrow> nat \<times> packet" where
  "rv_out gc RVFID p = (if bv_zero RVFID \<or> bv_eq RVFID (iLID gc)
     then (1, p\<lparr>pk_data := cells (event_bytes PUBLISHED_DATA (nodeRVScope gc)) @ pk_data p\<rparr>)
     else (2, p\<lparr>pk_data := cells (fid_bytes RVFID @ net_bytes [nodeRVScope gc]) @ pk_data p\<rparr>))"

lemma send_to_host_eq:
  "live_host s a \<Longrightarrow> send_to_host a p s = Some (s\<lparr>lp_out := lp_out s @ [host_out s a p]\<rparr>)"
  by (auto simp: live_host_def send_to_host_def host_out_def host_key_def lp_send_def)

lemma host_out_cong: "host_key s' = host_key s \<Longrightarrow> host_out s' = host_out s"
  by (simp add: host_out_def fun_eq_iff)

lemma sendNotificationLocally_eq:
  assumes "live_host s a" "short_id x \<or> id_ok x \<and> length x < 2048"
  shows "sendNotificationLocally type a x s =
    Some (s\<lparr>lp_out := lp_out s @ [host_out s a (of_bytes (event_bytes type x))]\<rparr>)"
proof -
  have "short_id x" using assms(2) by (auto simp: short_id_def id_ok_def)
  from short_id_u8 [OF this] show ?thesis using assms(1)
    by (simp add: sendNotificationLocally_def pk_make_def event_bytes_def id_bytes_def send_to_host_eq of_bytes_def Let_def)
qed

subsection \<open>What a request does\<close>

text \<open>What the node as a whole publishes and subscribes to; what stays the same.\<close>

definition node_pubs :: "local_proxy \<Rightarrow> bstr set" where
  "node_pubs s = {x. \<exists>a. x \<in> host_pubs s a}"

definition node_subs :: "local_proxy \<Rightarrow> bstr set" where
  "node_subs s = {x. \<exists>a. x \<in> host_subs s a}"

definition lp_frame :: "local_proxy \<Rightarrow> local_proxy \<Rightarrow> bool" where
  "lp_frame s s' \<longleftrightarrow> lp_gc s' = lp_gc s \<and> host_key s' = host_key s \<and>
     local_pub_sub_Index s' = local_pub_sub_Index s \<and> lp_next s' = lp_next s"

lemma lp_frame_refl [simp]: "lp_frame s s"
  by (simp add: lp_frame_def)

lemma lp_frame_trans: "lp_frame s s' \<Longrightarrow> lp_frame s' s'' \<Longrightarrow> lp_frame s s''"
  by (simp add: lp_frame_def)

lemma lp_frame_set [simp]: "lp_frame s (set_pub a l idx s)" "lp_frame s (set_sub a l idx' s)"
  "lp_frame s (lp_send q p s)" "lp_frame s (put_pub x ap s)" "lp_frame s (s\<lparr>lp_out := os\<rparr>)"
  by (simp_all add: lp_frame_def) (simp_all add: put_pub_def lp_send_def)

lemma lp_frame_live: "lp_frame s s' \<Longrightarrow> live_host s' = live_host s"
  by (simp add: lp_frame_def live_key fun_eq_iff)

lemma ap_hosts_empty: "lp_inv s \<Longrightarrow> ap_hosts (hm_get (activePublicationIndex s) x) = {} \<longleftrightarrow> hm_get (activePublicationIndex s) x = None"
  using inv_ap_ok [of s x] by (cases "hm_get (activePublicationIndex s) x") (auto simp: ap_hosts_def ap_ok_def)

lemma as_hosts_empty: "lp_inv s \<Longrightarrow> as_hosts (hm_get (activeSubscriptionIndex s) x) = {} \<longleftrightarrow> hm_get (activeSubscriptionIndex s) x = None"
  using inv_as_ok [of s x] by (cases "hm_get (activeSubscriptionIndex s) x") (auto simp: as_hosts_def as_ok_def)

lemma node_pubs_eq: "lp_inv s \<Longrightarrow> node_pubs s = {x. hm_get (activePublicationIndex s) x \<noteq> None}"
  by (simp add: node_pubs_def publisher_iff [symmetric] ap_hosts_empty [symmetric] ex_in_conv del: not_None_eq)

lemma node_subs_eq: "lp_inv s \<Longrightarrow> node_subs s = {x. hm_get (activeSubscriptionIndex s) x \<noteq> None}"
  by (simp add: node_subs_def subscriber_iff [symmetric] as_hosts_empty [symmetric] ex_in_conv del: not_None_eq)

text \<open>A request is taken when its strategy is one of the rendezvous and the one already in use.\<close>

definition accepts_pub :: "local_proxy \<Rightarrow> bstr \<Rightarrow> byte \<Rightarrow> bool" where
  "accepts_pub s x strategy \<longleftrightarrow> rv_strategy strategy \<and>
     (case hm_get (activePublicationIndex s) x of None \<Rightarrow> True | Some ap \<Rightarrow> ap_strategy ap = strategy)"

definition accepts_sub :: "local_proxy \<Rightarrow> bstr \<Rightarrow> byte \<Rightarrow> bool" where
  "accepts_sub s x strategy \<longleftrightarrow>
     (case hm_get (activeSubscriptionIndex s) x of None \<Rightarrow> True | Some as \<Rightarrow> as_strategy as = strategy)"

lemma store_pub_ok:
  assumes "lp_inv s" "live_host s a" "id_ok x" "is_fid RVFID"
  shows "\<exists>b s'. storeActivePublication a x strategy RVFID isScope s = Some (b, s') \<and> lp_inv s' \<and> lp_out s' = lp_out s \<and>
    lp_frame s s' \<and> host_subs s' = host_subs s \<and>
    host_pubs s' = (if accepts_pub s x strategy then (host_pubs s)(a := insert x (host_pubs s a)) else host_pubs s) \<and>
    (b \<longleftrightarrow> node_pubs s' \<noteq> node_pubs s)"
proof -
  obtain h where h: "lp_hosts s a = Some h" using lp_hosts_live [OF assms(2)] by blast
  let ?ap = "pub_entry x strategy RVFID isScope s" and ?idx = "activePublicationIndex s"
  let ?s = "set_pub a (hs_insert x (activePublications h)) (hm_set x (?ap\<lparr>ap_publishers := hm_find_insert a STOP_PUBLISH (ap_publishers ?ap)\<rparr>) ?idx) s"
  have acc: "accepts_pub s x strategy \<longleftrightarrow> rv_strategy strategy \<and> ap_strategy ?ap = strategy"
    by (auto simp: accepts_pub_def pub_entry_def ActivePublication_new_def split: option.splits)
  show ?thesis
  proof (cases "accepts_pub s x strategy")
    case True
    then have i: "lp_inv ?s" using join_pub [OF assms(1) h refl assms(3,4)] acc by blast
    have "node_pubs ?s = insert x (node_pubs s)" using node_pubs_eq [OF i] node_pubs_eq [OF assms(1)] by auto
    moreover have "hm_get ?idx x = None \<longleftrightarrow> x \<notin> node_pubs s" using node_pubs_eq [OF assms(1)] by simp
    ultimately have "hm_get ?idx x = None \<longleftrightarrow> node_pubs ?s \<noteq> node_pubs s" by (metis insertI1 insert_absorb)
    moreover have "host_pubs ?s = (host_pubs s)(a := insert x (host_pubs s a))" "host_subs ?s = host_subs s"
      using assms(2) h by (simp_all add: host_pubs_set host_subs_set host_pubs_eq)
    ultimately show ?thesis using True acc i storeActivePublication_eq [OF h, of x strategy RVFID isScope] by (simp add: Let_def)
  next
    case False
    then show ?thesis using acc assms(1) storeActivePublication_eq [OF h, of x strategy RVFID isScope] by auto
  qed
qed

lemma store_sub_ok:
  assumes "lp_inv s" "live_host s a" "id_ok x" "is_fid RVFID"
  shows "\<exists>b s'. storeActiveSubscription a x strategy RVFID isScope s = Some (b, s') \<and> lp_inv s' \<and> lp_out s' = lp_out s \<and>
    lp_frame s s' \<and> host_pubs s' = host_pubs s \<and>
    host_subs s' = (if accepts_sub s x strategy then (host_subs s)(a := insert x (host_subs s a)) else host_subs s) \<and>
    (b \<longleftrightarrow> node_subs s' \<noteq> node_subs s \<and> forwards_subscription strategy)"
proof -
  obtain h where h: "lp_hosts s a = Some h" using lp_hosts_live [OF assms(2)] by blast
  let ?as = "sub_entry x strategy RVFID isScope s" and ?idx = "activeSubscriptionIndex s"
  let ?s = "set_sub a (hs_insert x (activeSubscriptions h)) (hm_set x (?as\<lparr>as_subscribers := hs_insert a (as_subscribers ?as)\<rparr>) ?idx) s"
  have acc: "accepts_sub s x strategy \<longleftrightarrow> as_strategy ?as = strategy"
    by (auto simp: accepts_sub_def sub_entry_def ActiveSubscription_new_def split: option.splits)
  show ?thesis
  proof (cases "accepts_sub s x strategy")
    case True
    have i: "lp_inv ?s" by (rule join_sub [OF assms(1) h refl assms(3,4)])
    have "node_subs ?s = insert x (node_subs s)" using node_subs_eq [OF i] node_subs_eq [OF assms(1)] by auto
    moreover have "hm_get ?idx x = None \<longleftrightarrow> x \<notin> node_subs s" using node_subs_eq [OF assms(1)] by simp
    ultimately have "hm_get ?idx x = None \<longleftrightarrow> node_subs ?s \<noteq> node_subs s" by (metis insertI1 insert_absorb)
    moreover have "host_subs ?s = (host_subs s)(a := insert x (host_subs s a))" "host_pubs ?s = host_pubs s"
      using assms(2) h by (simp_all add: host_pubs_set host_subs_set host_subs_eq)
    ultimately show ?thesis using True acc i storeActiveSubscription_eq [OF h, of x strategy RVFID isScope] by (simp add: Let_def)
  next
    case False
    then show ?thesis using acc assms(1) storeActiveSubscription_eq [OF h, of x strategy RVFID isScope] by auto
  qed
qed

lemma remove_pub_ok:
  assumes "lp_inv s" "live_host s a"
  shows "\<exists>b s'. removeActivePublication a x strategy s = Some (b, s') \<and> lp_inv s' \<and> lp_out s' = lp_out s \<and>
    lp_frame s s' \<and> host_subs s' = host_subs s \<and>
    host_pubs s' = (if accepts_pub s x strategy then (host_pubs s)(a := host_pubs s a - {x}) else host_pubs s) \<and>
    (b \<longleftrightarrow> node_pubs s' \<noteq> node_pubs s)"
proof -
  obtain h where h: "lp_hosts s a = Some h" using lp_hosts_live [OF assms(2)] by blast
  let ?idx = "activePublicationIndex s" and ?l = "hs_erase x (activePublications h)"
  show ?thesis
  proof (cases "hm_get ?idx x")
    case None
    then have "x \<notin> host_pubs s a" using publisher_iff [OF assms(1), of a x] by (simp add: ap_hosts_def)
    then have "(host_pubs s)(a := host_pubs s a - {x}) = host_pubs s" by auto
    then show ?thesis using None assms(1) removeActivePublication_eq [OF h, of x strategy] by (intro exI [of _ False] exI [of _ s]) simp
  next
    case (Some ap)
    show ?thesis
    proof (cases "accepts_pub s x strategy")
      case True
      let ?m = "hm_erase a (ap_publishers ap)"
      let ?s = "set_pub a ?l (if ?m = [] then hm_erase x ?idx else hm_set x (ap\<lparr>ap_publishers := ?m\<rparr>) ?idx) s"
      have i: "lp_inv ?s"
        by (rule leave_pub [OF assms(1) h Some _ refl]) (use ap_ok_erase [OF inv_ap_ok [OF assms(1) Some], of a] in \<open>simp add: fst_hm_erase\<close>)
      have "?m = [] \<longleftrightarrow> node_pubs ?s \<noteq> node_pubs s"
        using Some by (auto simp: node_pubs_eq [OF i] node_pubs_eq [OF assms(1)])
      moreover have "host_pubs ?s = (host_pubs s)(a := host_pubs s a - {x})" "host_subs ?s = host_subs s"
        using assms(2) h by (simp_all add: host_pubs_set host_subs_set host_pubs_eq)
      moreover have "removeActivePublication a x strategy s = Some (?m = [], ?s)"
        using True Some removeActivePublication_eq [OF h, of x strategy] by (simp add: accepts_pub_def Let_def)
      ultimately show ?thesis using True i by simp
    next
      case False
      then show ?thesis using Some assms(1) removeActivePublication_eq [OF h, of x strategy] by (auto simp: accepts_pub_def)
    qed
  qed
qed

lemma remove_sub_ok:
  assumes "lp_inv s" "live_host s a"
  shows "\<exists>b s'. removeActiveSubscription a x strategy s = Some (b, s') \<and> lp_inv s' \<and> lp_out s' = lp_out s \<and>
    lp_frame s s' \<and> host_pubs s' = host_pubs s \<and>
    host_subs s' = (if accepts_sub s x strategy then (host_subs s)(a := host_subs s a - {x}) else host_subs s) \<and>
    (b \<longleftrightarrow> node_subs s' \<noteq> node_subs s \<and> forwards_subscription strategy)"
proof -
  obtain h where h: "lp_hosts s a = Some h" using lp_hosts_live [OF assms(2)] by blast
  let ?idx = "activeSubscriptionIndex s" and ?l = "hs_erase x (activeSubscriptions h)"
  show ?thesis
  proof (cases "hm_get ?idx x")
    case None
    then have "x \<notin> host_subs s a" using subscriber_iff [OF assms(1), of a x] by (simp add: as_hosts_def)
    then have "(host_subs s)(a := host_subs s a - {x}) = host_subs s" by auto
    then show ?thesis using None assms(1) removeActiveSubscription_eq [OF h, of x strategy] by (intro exI [of _ False] exI [of _ s]) simp
  next
    case (Some as)
    show ?thesis
    proof (cases "accepts_sub s x strategy")
      case True
      let ?m = "hs_erase a (as_subscribers as)"
      let ?s = "set_sub a ?l (if ?m = [] then hm_erase x ?idx else hm_set x (as\<lparr>as_subscribers := ?m\<rparr>) ?idx) s"
      have i: "lp_inv ?s" by (rule leave_sub [OF assms(1) h Some refl])
      have "?m = [] \<longleftrightarrow> node_subs ?s \<noteq> node_subs s"
        using Some by (auto simp: node_subs_eq [OF i] node_subs_eq [OF assms(1)])
      moreover have "host_subs ?s = (host_subs s)(a := host_subs s a - {x})" "host_pubs ?s = host_pubs s"
        using assms(2) h by (simp_all add: host_pubs_set host_subs_set host_subs_eq)
      moreover have "removeActiveSubscription a x strategy s = Some (?m = [] \<and> forwards_subscription strategy, ?s)"
        using True Some removeActiveSubscription_eq [OF h, of x strategy] by (simp add: accepts_sub_def Let_def)
      ultimately show ?thesis using True i by simp
    next
      case False
      then show ?thesis using Some assms(1) removeActiveSubscription_eq [OF h, of x strategy] by (auto simp: accepts_sub_def)
    qed
  qed
qed

text \<open>What a request of type \<open>type\<close> for the identifier \<open>x\<close> makes of the books.\<close>

definition books_pub :: "byte \<Rightarrow> lh_addr \<Rightarrow> bstr \<Rightarrow> (lh_addr \<Rightarrow> bstr set) \<Rightarrow> lh_addr \<Rightarrow> bstr set" where
  "books_pub type a x B = (if type \<in> {PUBLISH_SCOPE, PUBLISH_INFO} then B(a := insert x (B a))
     else if type \<in> {UNPUBLISH_SCOPE, UNPUBLISH_INFO} then B(a := B a - {x}) else B)"

definition books_sub :: "byte \<Rightarrow> lh_addr \<Rightarrow> bstr \<Rightarrow> (lh_addr \<Rightarrow> bstr set) \<Rightarrow> lh_addr \<Rightarrow> bstr set" where
  "books_sub type a x B = (if type \<in> {SUBSCRIBE_SCOPE, SUBSCRIBE_INFO} then B(a := insert x (B a))
     else if type \<in> {UNSUBSCRIBE_SCOPE, UNSUBSCRIBE_INFO} then B(a := B a - {x}) else B)"

lemma node_cong: "host_pubs s' = host_pubs s \<Longrightarrow> node_pubs s' = node_pubs s" "host_subs s' = host_subs s \<Longrightarrow> node_subs s' = node_subs s"
  by (simp_all add: node_pubs_def node_subs_def)

lemma handleLocalRequest_ok:
  assumes "lp_inv s" "live_host s a" "x = request_fullID ID prefixID" "id_ok x" "is_fid RVFID"
  shows "\<exists>b s'. handleLocalRequest type a ID prefixID strategy RVFID s = Some (b, s') \<and> lp_inv s' \<and> lp_out s' = lp_out s \<and>
    lp_frame s s' \<and>
    host_pubs s' = (if accepts_pub s x strategy then books_pub type a x (host_pubs s) else host_pubs s) \<and>
    host_subs s' = (if accepts_sub s x strategy then books_sub type a x (host_subs s) else host_subs s) \<and>
    (b \<longleftrightarrow> node_pubs s' \<noteq> node_pubs s \<or> (node_subs s' \<noteq> node_subs s \<and> forwards_subscription strategy))"
proof -
  note simps = handleLocalRequest_def Let_def assms(3) [symmetric] books_pub_def books_sub_def
  note pub = store_pub_ok [OF assms(1,2,4,5), of strategy] and unpub = remove_pub_ok [OF assms(1,2), of x strategy]
  note sub = store_sub_ok [OF assms(1,2,4,5), of strategy] and unsub = remove_sub_ok [OF assms(1,2), of x strategy]
  have p: ?thesis if "type \<in> {0, 1, 2, 3}" and eq: "\<exists>b s'. handleLocalRequest type a ID prefixID strategy RVFID s = Some (b, s') \<and> lp_inv s' \<and>
      lp_out s' = lp_out s \<and> lp_frame s s' \<and> host_subs s' = host_subs s \<and>
      host_pubs s' = (if accepts_pub s x strategy then books_pub type a x (host_pubs s) else host_pubs s) \<and>
      (b \<longleftrightarrow> node_pubs s' \<noteq> node_pubs s)"
  proof -
    obtain b s' where r: "handleLocalRequest type a ID prefixID strategy RVFID s = Some (b, s')" "lp_inv s'"
      "lp_out s' = lp_out s" "lp_frame s s'" "host_subs s' = host_subs s"
      "host_pubs s' = (if accepts_pub s x strategy then books_pub type a x (host_pubs s) else host_pubs s)"
      "b \<longleftrightarrow> node_pubs s' \<noteq> node_pubs s" using eq by blast
    have "books_sub type a x (host_subs s) = host_subs s" using that(1) by (elim insertE emptyE) (simp_all add: books_sub_def)
    with r node_cong(2) [OF r(5)] show ?thesis by (intro exI [of _ b] exI [of _ s']) simp
  qed
  have q: ?thesis if "type \<in> {4, 5, 6, 7}" and eq: "\<exists>b s'. handleLocalRequest type a ID prefixID strategy RVFID s = Some (b, s') \<and> lp_inv s' \<and>
      lp_out s' = lp_out s \<and> lp_frame s s' \<and> host_pubs s' = host_pubs s \<and>
      host_subs s' = (if accepts_sub s x strategy then books_sub type a x (host_subs s) else host_subs s) \<and>
      (b \<longleftrightarrow> node_subs s' \<noteq> node_subs s \<and> forwards_subscription strategy)"
  proof -
    obtain b s' where r: "handleLocalRequest type a ID prefixID strategy RVFID s = Some (b, s')" "lp_inv s'"
      "lp_out s' = lp_out s" "lp_frame s s'" "host_pubs s' = host_pubs s"
      "host_subs s' = (if accepts_sub s x strategy then books_sub type a x (host_subs s) else host_subs s)"
      "b \<longleftrightarrow> node_subs s' \<noteq> node_subs s \<and> forwards_subscription strategy" using eq by blast
    have "books_pub type a x (host_pubs s) = host_pubs s" using that(1) by (elim insertE emptyE) (simp_all add: books_pub_def)
    with r node_cong(1) [OF r(5)] show ?thesis by (intro exI [of _ b] exI [of _ s']) simp
  qed
  consider "type = 0" | "type = 1" | "type = 2" | "type = 3" | "type = 4" | "type = 5" | "type = 6" | "type = 7"
    | "type \<notin> {0, 1, 2, 3, 4, 5, 6, 7}" by blast
  then show ?thesis
  proof cases
    case 1 then show ?thesis using pub [of True] by (intro p) (simp_all add: simps split del: if_split cong: if_cong)
  next
    case 2 then show ?thesis using pub [of False] by (intro p) (simp_all add: simps split del: if_split cong: if_cong)
  next
    case 3 then show ?thesis using unpub by (intro p) (simp_all add: simps split del: if_split cong: if_cong)
  next
    case 4 then show ?thesis using unpub by (intro p) (simp_all add: simps split del: if_split cong: if_cong)
  next
    case 5 then show ?thesis using sub [of True] by (intro q) (simp_all add: simps split del: if_split cong: if_cong)
  next
    case 6 then show ?thesis using sub [of False] by (intro q) (simp_all add: simps split del: if_split cong: if_cong)
  next
    case 7 then show ?thesis using unsub by (intro q) (simp_all add: simps split del: if_split cong: if_cong)
  next
    case 8 then show ?thesis using unsub by (intro q) (simp_all add: simps split del: if_split cong: if_cong)
  next
    case 9
    then show ?thesis using assms(1) by (intro exI [of _ False] exI [of _ s]) (simp add: simps)
  qed
qed

subsection \<open>What goes out\<close>

lemma bv_new_fid_len: "bv_new (int (FID_LEN * 8)) = Some \<lparr>bv_max = 255, bv_data = replicate 8 0\<rparr>"
  by code_simp

lemma father_eq: "8 \<le> length x \<Longrightarrow> father_of x = take (length x - 8) x"
  by (simp add: father_of_def substring_def Let_def nat_diff_distrib')

lemma last_fragment_eq: "8 \<le> length x \<Longrightarrow> last_fragment x = drop (length x - 8) x"
  by (simp add: last_fragment_def substring_def Let_def nat_diff_distrib')

lemma id_ok_ge: "id_ok x \<Longrightarrow> 8 \<le> length x"
  by (auto simp: id_ok_def intro: dvd_imp_le)

lemma publishReqToRV_eq:
  assumes "gc_wf (lp_gc s)" "is_fid RVFID"
  shows "publishReqToRV p RVFID s = Some (s\<lparr>lp_out := lp_out s @ [rv_out (lp_gc s) RVFID p]\<rparr>)"
proof -
  have l: "length (nodeRVScope (lp_gc s)) = 16" using assms(1) by (simp add: gc_wf_def)
  then show ?thesis using assms(2) length_fid_bytes [OF assms(2)]
    by (simp add: publishReqToRV_def rv_out_def pk_push_def fid_mem_fid event_bytes_def net_bytes_def id_bytes_def lp_send_def
        u8_def Let_def)
qed

definition rv_leave :: "globalconf \<Rightarrow> bitvec \<Rightarrow> byte \<Rightarrow> bstr \<Rightarrow> byte \<Rightarrow> nat \<times> packet" where
  "rv_leave gc RVFID type x strategy = rv_out gc RVFID (of_bytes (app_request type (last_fragment x) (father_of x) strategy))"

lemma tell_RV_eq:
  assumes "gc_wf (lp_gc s)" "is_fid RVFID" "id_ok x"
  shows "tell_RV type x RVFID strategy s = Some (s\<lparr>lp_out := lp_out s @ [rv_leave (lp_gc s) RVFID type x strategy]\<rparr>)"
proof -
  have l: "length (nodeRVScope (lp_gc s)) = 16" using assms(1) by (simp add: gc_wf_def)
  note ge = id_ok_ge [OF assms(3)]
  have lf: "length (last_fragment x) = 8" using ge by (simp add: last_fragment_eq)
  have ff: "length (father_of x) = length x - 8" using ge by (simp add: father_eq)
  have d: "8 dvd length x - 8" "(length x - 8) div 8 < 256" using assms(3) by (auto simp: id_ok_def)
  have pf: "prefix_fragments x = u8 (length (father_of x) div 8)" using ge ff by (simp add: prefix_fragments_def)
  have u: "unat (u8 (length (father_of x) div 8)) * 8 = length (father_of x)"
    using d ff by (simp add: unat_u8)
  let ?req = "app_request type (last_fragment x) (father_of x) strategy"
  have req: "[type, 1] @ last_fragment x @ [prefix_fragments x] @ father_of x @ [strategy] = ?req"
    unfolding app_request_def id_bytes_def pf lf by (simp add: u8_def)
  have len: "1 + 1 * 1 + 2 * 8 + 1 + 1 + unat (1 :: byte) * 8 + 1 + unat (prefix_fragments x) * 8 + 1 = 18 + length ?req"
    unfolding pf u by (simp add: app_request_def lf)
  have p1: "pk_make (18 + length ?req) ([PUBLISHED_DATA, u8 (length (nodeRVScope (lp_gc s)) div 8)] @ nodeRVScope (lp_gc s) @ ?req) =
      Some \<lparr>pk_data = cells (event_bytes PUBLISHED_DATA (nodeRVScope (lp_gc s))) @ cells ?req, pk_anno = None\<rparr>"
    using l by (simp add: pk_make_def event_bytes_def id_bytes_def)
  have p2: "pk_make (32 + (18 + length ?req)) (fid_bytes RVFID @ [1, 2] @ take (2 * 8) (nodeRVScope (lp_gc s)) @ ?req) =
      Some \<lparr>pk_data = cells (fid_bytes RVFID @ net_bytes [nodeRVScope (lp_gc s)]) @ cells ?req, pk_anno = None\<rparr>"
    using l length_fid_bytes [OF assms(2)] by (simp add: pk_make_def net_bytes_def id_bytes_def u8_def)
  show ?thesis
    unfolding tell_RV_def createAndSendPacketToRV_def Let_def req len fid_mem_fid [OF assms(2)] Option.bind.simps p1 p2
    by (simp add: rv_leave_def rv_out_def of_bytes_def lp_send_def)
qed

definition data_packet :: "bstr \<Rightarrow> packet \<Rightarrow> packet" where
  "data_packet x p = p\<lparr>pk_data := cells (event_bytes PUBLISHED_DATA x) @ pk_data p\<rparr>"

lemma pushDataToLocalSubscriber_eq:
  "live_host s a \<Longrightarrow> pushDataToLocalSubscriber a x p s = Some (s\<lparr>lp_out := lp_out s @ [host_out s a (data_packet x p)]\<rparr>)"
proof -
  assume live: "live_host s a"
  have "pk_push (1 + 1 + length x) ([PUBLISHED_DATA, u8 (length x div 8)] @ x) p = Some (data_packet x p)"
    by (simp add: pk_push_def data_packet_def event_bytes_def id_bytes_def)
  then show ?thesis unfolding pushDataToLocalSubscriber_def by (simp only: Option.bind.simps send_to_host_eq [OF live])
qed

lemma host_out_out [simp]: "host_out (s\<lparr>lp_out := os\<rparr>) = host_out s"
  by (rule host_out_cong) simp

lemma push_to_each_eq:
  "\<forall>e \<in> set m. live_host s (fst e) \<Longrightarrow>
   push_to_each m p s = Some (s\<lparr>lp_out := lp_out s @ map (\<lambda>(a, x). host_out s a (data_packet x p)) m\<rparr>)"
proof (induction m arbitrary: s)
  case (Cons e m)
  obtain a x where e: "e = (a, x)" by (cases e)
  have "live_host s a" using Cons.prems e by simp
  moreover have "push_to_each m p (s\<lparr>lp_out := lp_out s @ [host_out s a (data_packet x p)]\<rparr>) =
      Some (s\<lparr>lp_out := lp_out s @ [host_out s a (data_packet x p)] @ map (\<lambda>(a, x). host_out s a (data_packet x p)) m\<rparr>)"
    using Cons.prems by (subst Cons.IH) simp_all
  ultimately show ?case by (simp add: push_to_each_def e pushDataToLocalSubscriber_eq)
qed (simp add: push_to_each_def)

definition remote_packet :: "bstr list \<Rightarrow> bitvec \<Rightarrow> packet \<Rightarrow> packet" where
  "remote_packet IDs FID p = (let n = unat (u8 (length IDs)); bs = fid_bytes FID @ [u8 n] @ concat (map wire_id (take n IDs)) in
     p\<lparr>pk_data := cells bs @ replicate (33 + n + sum_list (map length IDs) - length bs) None @ pk_data p\<rparr>)"

lemma length_wire_ids: "length (concat (map wire_id xs)) = length xs + sum_list (map length xs)"
  by (induction xs) (simp_all add: wire_id_def)

lemma sum_list_take_le: "sum_list (map length (take n xs)) \<le> sum_list (map length xs)"
  by (metis append_take_drop_id le_add1 map_append sum_list_append)

lemma pushDataToRemoteSubscribers_eq:
  assumes "is_fid FID"
  shows "pushDataToRemoteSubscribers IDs FID p s = Some (s\<lparr>lp_out := lp_out s @ [(2, remote_packet IDs FID p)]\<rparr>)"
proof -
  let ?n = "unat (u8 (length IDs))"
  have "length (concat (map wire_id (take ?n IDs))) \<le> ?n + sum_list (map length IDs)"
    unfolding length_wire_ids using sum_list_take_le [of ?n IDs] by simp
  moreover have "u8 ?n = u8 (length IDs)" by (simp add: u8_def)
  ultimately show ?thesis using assms length_fid_bytes [OF assms]
    by (simp add: pushDataToRemoteSubscribers_def fid_mem_fid pk_push_def remote_packet_def lp_send_def Let_def)
qed

text \<open>Well-formed identifiers, fewer than 256: all are on the wire, and the packet ends with the data.\<close>

lemma wire_id_eq: "short_id x \<Longrightarrow> length x < 256 \<Longrightarrow> wire_id x = id_bytes x"
  by (simp add: wire_id_def id_bytes_def unat_u8)

lemma remote_packet_eq:
  assumes "ids_ok IDs" "\<forall>x \<in> set IDs. length x < 256" "is_fid FID"
  shows "pk_data (remote_packet IDs FID p) = cells (fid_bytes FID @ net_bytes IDs) @ pk_data p"
proof -
  have n: "unat (u8 (length IDs)) = length IDs" using assms(1) by (rule ids_ok_u8)
  have "map wire_id IDs = map id_bytes IDs" using assms(1,2) by (auto simp: ids_ok_def intro: wire_id_eq)
  then have w: "concat (map wire_id IDs) = concat (map id_bytes IDs)" by (rule arg_cong)
  have l: "length (concat (map id_bytes IDs)) = length IDs + sum_list (map length IDs)"
    using length_wire_ids [of IDs] w by simp
  show ?thesis using length_fid_bytes [OF assms(3)] n w l
    by (simp add: remote_packet_def net_bytes_def ids_bytes_def Let_def)
qed

subsection \<open>Subscribers of data\<close>

definition wants :: "local_proxy \<Rightarrow> lh_addr \<Rightarrow> bstr \<Rightarrow> bool" where
  "wants s a x \<longleftrightarrow> x \<in> host_subs s a \<or> father_of x \<in> host_subs s a"

lemma add_subscribers_get:
  "hm_get (snd (add_subscribers x aso fm)) a = (if a \<in> as_hosts aso then Some x else hm_get (snd fm) a)"
proof -
  have "hm_get (snd (foldl (\<lambda>(found, m) a. (True, hm_set a x m)) fm l)) a = (if a \<in> set l then Some x else hm_get (snd fm) a)" for l
    by (induction l arbitrary: fm) (auto split: prod.splits)
  then show ?thesis by (auto simp: add_subscribers_def as_hosts_def split: option.splits)
qed

lemma add_subscribers_wf: "hm_wf (snd fm) \<Longrightarrow> hm_wf (snd (add_subscribers x aso fm))"
proof -
  have "hm_wf (snd fm) \<Longrightarrow> hm_wf (snd (foldl (\<lambda>(found, m) a. (True, hm_set a x m)) fm l))" for l
    by (induction l arbitrary: fm) (auto split: prod.splits)
  then show "hm_wf (snd fm) \<Longrightarrow> ?thesis" by (auto simp: add_subscribers_def split: option.splits)
qed

lemma add_subscribers_found:
  "fst (add_subscribers x aso fm) \<longleftrightarrow> fst fm \<or> as_hosts aso \<noteq> {}"
proof -
  have "fst (foldl (\<lambda>(found, m) a. (True, hm_set a x m)) fm l) \<longleftrightarrow> fst fm \<or> l \<noteq> []" for l :: "lh_addr list"
    by (induction l arbitrary: fm) (auto split: prod.splits)
  then show ?thesis by (auto simp: add_subscribers_def as_hosts_def split: option.splits)
qed

lemma find_app: "find P (xs @ ys) = (case find P xs of Some x \<Rightarrow> Some x | None \<Rightarrow> find P ys)"
  by (induction xs) auto

lemma findLocalSubscribers_ok:
  assumes "lp_inv s"
  shows "hm_wf (snd (findLocalSubscribers IDs s))"
    and "hm_get (snd (findLocalSubscribers IDs s)) a = find (wants s a) (rev IDs)"
    and "fst (findLocalSubscribers IDs s) \<longleftrightarrow> snd (findLocalSubscribers IDs s) \<noteq> []"
proof -
  let ?idx = "activeSubscriptionIndex s"
  have "hm_wf (snd fm) \<Longrightarrow> hm_wf (snd (findLocalSubscribers_from ?idx IDs fm))" for fm
    by (induction IDs arbitrary: fm) (simp_all add: add_subscribers_wf)
  then show "hm_wf (snd (findLocalSubscribers IDs s))" by (simp add: findLocalSubscribers_def)
  have g: "hm_get (snd (findLocalSubscribers_from ?idx IDs fm)) a =
      (case find (wants s a) (rev IDs) of Some x \<Rightarrow> Some x | None \<Rightarrow> hm_get (snd fm) a)" for fm a
  proof (induction IDs arbitrary: fm)
    case (Cons x xs)
    have "hm_get (snd (add_subscribers x (hm_get ?idx (father_of x)) (add_subscribers x (hm_get ?idx x) fm))) a =
        (if wants s a x then Some x else hm_get (snd fm) a)"
      by (simp add: add_subscribers_get subscriber_iff [OF assms] wants_def)
    then show ?case unfolding findLocalSubscribers_from.simps Cons.IH by (simp add: find_app split: option.splits)
  qed simp
  then show "hm_get (snd (findLocalSubscribers IDs s)) a = find (wants s a) (rev IDs)"
    by (simp add: findLocalSubscribers_def split: option.splits)
  have "fst (findLocalSubscribers_from ?idx IDs fm) \<longleftrightarrow> fst fm \<or> (\<exists>x \<in> set IDs. \<exists>a. wants s a x)" for fm
    by (induction IDs arbitrary: fm)
      (auto simp: add_subscribers_found wants_def subscriber_iff [OF assms, symmetric])
  moreover have "snd (findLocalSubscribers IDs s) \<noteq> [] \<longleftrightarrow> (\<exists>x \<in> set IDs. \<exists>a. wants s a x)"
    using g [of "(False, [])"] by (auto simp: hm_empty_iff findLocalSubscribers_def find_None_iff split: option.splits)
  ultimately show "fst (findLocalSubscribers IDs s) \<longleftrightarrow> snd (findLocalSubscribers IDs s) \<noteq> []"
    by (simp add: findLocalSubscribers_def)
qed

subsection \<open>Data\<close>

text \<open>A table of the hosts that are to have the data, each with the identifier it is served under.\<close>

definition audience :: "local_proxy \<Rightarrow> bstr list \<Rightarrow> lh_addr set \<Rightarrow> (lh_addr, bstr) htab \<Rightarrow> bool" where
  "audience s IDs except m \<longleftrightarrow> hm_wf m \<and> (\<forall>a. hm_get m a = (if a \<in> except then None else find (wants s a) (rev IDs)))"

lemma audience_found: "lp_inv s \<Longrightarrow> audience s IDs {} (snd (findLocalSubscribers IDs s))"
  by (simp add: audience_def findLocalSubscribers_ok)

lemma audience_erase: "audience s IDs {} m \<Longrightarrow> audience s IDs {a} (hm_erase a m)"
  by (simp add: audience_def)

lemma audience_live:
  assumes "audience s IDs E m" "e \<in> set m"
  shows "live_host s (fst e)" and "snd e \<in> set IDs" and "wants s (fst e) (snd e)" and "fst e \<notin> E"
proof -
  obtain a x where e: "e = (a, x)" by (cases e)
  have wf: "hm_wf m" and g: "hm_get m a = (if a \<in> E then None else find (wants s a) (rev IDs))"
    using assms(1) by (simp_all add: audience_def)
  have "hm_get m a = Some x" using hm_in_get [OF wf] assms(2) e by blast
  then have x: "find (wants s a) (rev IDs) = Some x" and n: "a \<notin> E" using g by (auto split: if_splits)
  from x have "wants s a x" "x \<in> set IDs" by (auto simp: find_Some_iff) (metis nth_mem rev_nth length_rev set_rev)
  then show "live_host s (fst e)" "snd e \<in> set IDs" "wants s (fst e) (snd e)" "fst e \<notin> E"
    using e n subs_live by (auto simp: wants_def)
qed

lemma audience_keys:
  assumes "audience s IDs E m"
  shows "fst ` set m = {a. a \<notin> E \<and> (\<exists>x \<in> set IDs. wants s a x)}"
proof -
  have "a \<in> fst ` set m \<longleftrightarrow> a \<notin> E \<and> (\<exists>x \<in> set IDs. wants s a x)" for a
    using hm_get_None_fst [of m a] assms by (auto simp: audience_def find_None_iff split: if_splits)
  then show ?thesis by blast
qed

lemma handleNetworkPublication_ok:
  assumes "lp_inv s"
  shows "\<exists>m. audience s IDs {} m \<and>
    handleNetworkPublication IDs p s = Some (s\<lparr>lp_out := lp_out s @ map (\<lambda>(a, x). host_out s a (data_packet x p)) m\<rparr>)"
proof -
  let ?m = "snd (findLocalSubscribers IDs s)"
  note a = audience_found [OF assms, of IDs]
  have live: "\<forall>e \<in> set ?m. live_host s (fst e)" using audience_live(1) [OF a] by blast
  have "fst (findLocalSubscribers IDs s) \<longleftrightarrow> ?m \<noteq> []" by (rule findLocalSubscribers_ok(3) [OF assms])
  then have "handleNetworkPublication IDs p s = Some (s\<lparr>lp_out := lp_out s @ map (\<lambda>(a, x). host_out s a (data_packet x p)) ?m\<rparr>)"
    using push_to_each_eq [OF live, of p] by (auto simp: handleNetworkPublication_def split: prod.splits)
  with a show ?thesis by blast
qed

lemma push_relabelled:
  assumes "audience s IDs E m"
  shows "push_to_each (map (\<lambda>(b, _). (b, x)) m) p (s\<lparr>lp_out := os\<rparr>) =
    Some (s\<lparr>lp_out := os @ map (\<lambda>(b, _). host_out s b (data_packet x p)) m\<rparr>)"
proof -
  have "\<forall>e \<in> set (map (\<lambda>(b, _). (b, x)) m). live_host (s\<lparr>lp_out := os\<rparr>) (fst e)"
    using audience_live(1) [OF assms] by (auto split: prod.splits)
  from push_to_each_eq [OF this, of p] show ?thesis by (simp add: o_def case_prod_beta)
qed

definition remote_subscribers :: "local_proxy \<Rightarrow> bitvec \<Rightarrow> bool" where
  "remote_subscribers s FID \<longleftrightarrow> \<not> bv_zero FID \<and> \<not> bv_eq FID (iLID (lp_gc s))"

lemma handleUserPublication_ok:
  assumes "lp_inv s"
  shows "case publication_of_data x s of
      None \<Rightarrow> handleUserPublication x p a s = Some s
    | Some (ap, IDs) \<Rightarrow> \<exists>m. audience s IDs {a} m \<and> handleUserPublication x p a s = Some (s\<lparr>lp_out := lp_out s @
        (if remote_subscribers s (ap_FID ap) then [(2, remote_packet IDs (ap_FID ap) p)] else []) @
        map (\<lambda>(b, _). host_out s b (data_packet x p)) m\<rparr>)"
proof (cases "publication_of_data x s")
  case (Some api)
  obtain ap IDs where api: "api = (ap, IDs)" by (cases api)
  let ?m = "hm_erase a (snd (findLocalSubscribers IDs s))"
  note aud = audience_erase [OF audience_found [OF assms, of IDs], of a]
  have fid: "is_fid (ap_FID ap) \<or> ap_FID ap = bv_empty"
    using Some api inv_ap_ok [OF assms] by (auto simp: publication_of_data_def ap_ok_def split: option.splits)
  have rf: "is_fid (ap_FID ap)" if "remote_subscribers s (ap_FID ap)"
    using fid that by (auto simp: remote_subscribers_def bv_zero_def bv_empty_def nwords_def max_word_def)
  have "handleUserPublication x p a s = Some (s\<lparr>lp_out := lp_out s @
        (if remote_subscribers s (ap_FID ap) then [(2, remote_packet IDs (ap_FID ap) p)] else []) @
        map (\<lambda>(b, _). host_out s b (data_packet x p)) ?m\<rparr>)"
    using push_relabelled [OF aud, of x p] push_relabelled [OF aud, of x p "lp_out s"]
      pushDataToRemoteSubscribers_eq [OF rf]
    by (auto simp: handleUserPublication_def Some api remote_subscribers_def Let_def)
  with aud Some api show ?thesis by auto
qed (simp add: handleUserPublication_def)

lemma handleUserPublicationFID_ok:
  assumes "lp_inv s" "is_fid FID"
  shows "\<exists>m. audience s (known_siblings x s @ [x]) {a} m \<and>
    handleUserPublicationFID x FID p a s = Some (s\<lparr>lp_out := lp_out s @
      (if m = [] \<or> bv_zero (TMFID (lp_gc s)) \<or> \<not> bv_eq FID (TMFID (lp_gc s))
       then [(2, remote_packet (known_siblings x s @ [x]) FID p)] else []) @
      map (\<lambda>(b, _). host_out s b (data_packet x p)) m\<rparr>)"
proof -
  let ?IDs = "known_siblings x s @ [x]"
  let ?m = "hm_erase a (snd (findLocalSubscribers ?IDs s))"
  note aud = audience_erase [OF audience_found [OF assms(1), of ?IDs], of a]
  have "handleUserPublicationFID x FID p a s = Some (s\<lparr>lp_out := lp_out s @
      (if ?m = [] \<or> bv_zero (TMFID (lp_gc s)) \<or> \<not> bv_eq FID (TMFID (lp_gc s))
       then [(2, remote_packet ?IDs FID p)] else []) @
      map (\<lambda>(b, _). host_out s b (data_packet x p)) ?m\<rparr>)"
    using push_relabelled [OF aud, of x p] push_relabelled [OF aud, of x p "lp_out s"]
      pushDataToRemoteSubscribers_eq [OF assms(2)]
    by (cases "?m = []") (simp_all add: handleUserPublicationFID_def Let_def)
  with aud show ?thesis by blast
qed

subsection \<open>Notifications\<close>

lemma read_ids_bytes:
  assumes "\<forall>x \<in> set IDs. short_id x" "pk_data p = cells (pre @ ids_bytes IDs) @ ys"
  shows "read_ids (length IDs) p (length pre) = Some (IDs, length pre + length (ids_bytes IDs))"
  using assms
proof (induction IDs arbitrary: pre)
  case (Cons x xs)
  note u = short_id_u8 [of x]
  have d: "pk_data p = cells (pre @ id_bytes x @ ids_bytes xs) @ ys" using Cons.prems(2) by simp
  have a: "rd8 p (length pre) = Some (u8 (length x div 8))"
    by (rule rd8_skip [of p pre]) (simp_all add: d id_bytes_def)
  have b: "rdn p (length pre + 1) (length x) = Some x"
    by (rule rdn_skip [of p "pre @ [u8 (length x div 8)]"]) (simp_all add: d id_bytes_def)
  have c: "read_ids (length xs) p (length pre + 1 + length x) = Some (xs, length pre + 1 + length x + length (ids_bytes xs))"
    using Cons.IH [of "pre @ id_bytes x"] Cons.prems(1) d by (simp add: add.assoc)
  show ?case using a b c u Cons.prems(1) by simp
qed simp

lemma notify_scope_ok:
  assumes "lp_inv s" "short_id x"
  shows "notify_scope type x s = Some (s\<lparr>lp_out := lp_out s @
    map (\<lambda>a. host_out s a (of_bytes (event_bytes type x))) (findActiveSubscriptions x [] s)\<rparr>)"
proof -
  have send: "\<forall>a \<in> set l. live_host s a \<Longrightarrow> fold_opt (\<lambda>a. sendNotificationLocally type a x) l s =
      Some (s\<lparr>lp_out := lp_out s @ map (\<lambda>a. host_out s a (of_bytes (event_bytes type x))) l\<rparr>)" for l s
  proof (induction l arbitrary: s)
    case (Cons a l)
    have "live_host s a" using Cons.prems by simp
    from sendNotificationLocally_eq [OF this, of x type] Cons.IH [of "s\<lparr>lp_out := lp_out s @ [host_out s a (of_bytes (event_bytes type x))]\<rparr>"]
      Cons.prems assms(2) show ?case by simp
  qed simp
  have "live_host s a" if "a \<in> set (findActiveSubscriptions x [] s)" for a
    using that subscriber_live [OF assms(1), of "father_of x"]
    by (cases "hm_get (activeSubscriptionIndex s) (father_of x)") (auto simp: findActiveSubscriptions_def split: if_splits)
  then show ?thesis unfolding notify_scope_def by (intro send) blast
qed

text \<open>Who hears of a scope: the hosts subscribed to its father as a scope.\<close>

lemma findActiveSubscriptions_ok:
  assumes "lp_inv s"
  shows "set (findActiveSubscriptions x [] s) = {a. father_of x \<in> host_subs s a \<and>
      (\<exists>as. hm_get (activeSubscriptionIndex s) (father_of x) = Some as \<and> as_isScope as)}"
    and "distinct (findActiveSubscriptions x [] s)"
proof -
  have "a \<in> as_hosts (hm_get (activeSubscriptionIndex s) (father_of x)) \<longleftrightarrow> father_of x \<in> host_subs s a" for a
    by (rule subscriber_iff [OF assms])
  then show "set (findActiveSubscriptions x [] s) = {a. father_of x \<in> host_subs s a \<and>
      (\<exists>as. hm_get (activeSubscriptionIndex s) (father_of x) = Some as \<and> as_isScope as)}"
    by (cases "hm_get (activeSubscriptionIndex s) (father_of x)") (auto simp: findActiveSubscriptions_def as_hosts_def)
qed (simp add: findActiveSubscriptions_def split: option.splits)

lemma notify_scopes_ok:
  assumes "lp_inv s" "\<forall>x \<in> set IDs. short_id x"
  shows "fold_opt (notify_scope type) IDs s = Some (s\<lparr>lp_out := lp_out s @
    concat (map (\<lambda>x. map (\<lambda>a. host_out s a (of_bytes (event_bytes type x))) (findActiveSubscriptions x [] s)) IDs)\<rparr>)"
  using assms
proof (induction IDs arbitrary: s)
  case (Cons x xs)
  have f: "findActiveSubscriptions y [] (s\<lparr>lp_out := os\<rparr>) = findActiveSubscriptions y [] s" for y os
    by (simp add: findActiveSubscriptions_def)
  show ?case using notify_scope_ok [of s x type] Cons.prems Cons.IH by (simp add: f)
qed simp

text \<open>Changes to publications that leave the books alone.\<close>

definition same_books :: "local_proxy \<Rightarrow> local_proxy \<Rightarrow> bool" where
  "same_books s s' \<longleftrightarrow> lp_inv s' \<and> lp_frame s s' \<and> host_pubs s' = host_pubs s \<and> host_subs s' = host_subs s \<and>
     activeSubscriptionIndex s' = activeSubscriptionIndex s"

lemma same_books_trans: "same_books s s' \<Longrightarrow> same_books s' s'' \<Longrightarrow> same_books s s''"
  by (auto simp: same_books_def intro: lp_frame_trans)

lemma same_books_out: "same_books s s' \<Longrightarrow> same_books s (s'\<lparr>lp_out := os\<rparr>)"
  by (simp add: same_books_def lp_frame_def)

lemma same_books_put:
  assumes "lp_inv s" "hm_get (activePublicationIndex s) x = Some ap" "ap_ok x ap'"
    "fst ` set (ap_publishers ap') = fst ` set (ap_publishers ap)"
  shows "same_books s (put_pub x ap' s)"
  using put_pub_inv [OF assms] by (simp add: same_books_def) (simp add: put_pub_def)

lemma lp_frame_host_out: "lp_frame s s' \<Longrightarrow> host_out s' = host_out s"
  by (rule host_out_cong) (simp add: lp_frame_def)

lemma live_put_pub [simp]: "live_host (put_pub x ap s) = live_host s"
  by (simp add: live_host_def put_pub_def fun_eq_iff)

lemma put_pub_idx [simp]: "activePublicationIndex (put_pub x ap s) = hm_set x ap (activePublicationIndex s)"
  "lp_out (put_pub x ap s) = lp_out s"
  by (simp_all add: put_pub_def)

definition publishers_at :: "local_proxy \<Rightarrow> bstr \<Rightarrow> (lh_addr, byte) htab" where
  "publishers_at s x = (case hm_get (activePublicationIndex s) x of None \<Rightarrow> [] | Some ap \<Rightarrow> ap_publishers ap)"

text \<open>
  The first loop of \<open>START_PUBLISH\<close>: the publishers stay as they were; it breaks off at the first
  identifier with a publisher that is on already.
\<close>

lemma start_known_ok:
  assumes "lp_inv s" "is_fid FID" "start_known FID IDs xs s = (b, s')"
  shows "same_books s s' \<and> lp_out s' = lp_out s \<and> publishers_at s' = publishers_at s \<and>
    (b \<longleftrightarrow> (\<exists>x \<in> set xs. started (publishers_at s x) \<noteq> []))"
  using assms
proof (induction FID IDs xs s rule: start_known.induct)
  case (1 FID IDs s)
  then show ?case by (simp add: same_books_def)
next
  case (2 FID IDs x xs s)
  show ?case
  proof (cases "hm_get (activePublicationIndex s) x")
    case None
    then show ?thesis using 2 by (simp add: publishers_at_def)
  next
    case (Some ap)
    let ?s = "put_pub x (ap\<lparr>ap_allKnownIDs := IDs, ap_FID := FID\<rparr>) s"
    have ok: "ap_ok x (ap\<lparr>ap_allKnownIDs := IDs, ap_FID := FID\<rparr>)"
      using inv_ap_ok [OF 2(3) Some] 2(4) by (simp add: ap_ok_def)
    have sb: "same_books s ?s" by (rule same_books_put [OF 2(3) Some ok]) simp
    have pa: "publishers_at ?s = publishers_at s" using Some by (auto simp: publishers_at_def fun_eq_iff)
    have st: "(\<exists>e \<in> set (ap_publishers ap). snd e = START_PUBLISH) \<longleftrightarrow> started (publishers_at s x) \<noteq> []"
      using Some by (auto simp: started_def publishers_at_def filter_empty_conv)
    show ?thesis
    proof (cases "\<exists>e \<in> set (ap_publishers ap). snd e = START_PUBLISH")
      case True
      then have "b" "s' = ?s" using 2(5) Some by (auto simp: Let_def)
      then show ?thesis using sb pa st True by auto
    next
      case False
      then have "start_known FID IDs xs ?s = (b, s')" using 2(5) Some by (simp add: Let_def)
      with 2(2) [OF Some refl False] sb 2(4) have "same_books ?s s' \<and> lp_out s' = lp_out ?s \<and> publishers_at s' = publishers_at ?s \<and>
          (b \<longleftrightarrow> (\<exists>x \<in> set xs. started (publishers_at ?s x) \<noteq> []))" by (simp add: same_books_def)
      with sb same_books_trans [OF sb] pa st False show ?thesis by auto
    qed
  qed
qed

text \<open>The second loop: the first publisher of the first published identifier is told, and nobody else.\<close>

definition first_started :: "local_proxy \<Rightarrow> bstr list \<Rightarrow> (lh_addr \<times> bstr) option" where
  "first_started s xs = (case filter (\<lambda>x. publishers_at s x \<noteq> []) xs of
     [] \<Rightarrow> None | x # _ \<Rightarrow> Some (fst (hd (publishers_at s x)), x))"

lemma start_first_ok:
  assumes "lp_inv s" "\<forall>x \<in> set xs. short_id x" "\<forall>x \<in> set xs. started (publishers_at s x) = []"
  shows "\<exists>s'. start_first xs s = Some s' \<and> same_books s s' \<and>
    (case first_started s xs of
       None \<Rightarrow> lp_out s' = lp_out s \<and> publishers_at s' = publishers_at s
     | Some (a, x) \<Rightarrow> lp_out s' = lp_out s @ [host_out s a (of_bytes (event_bytes START_PUBLISH x))] \<and>
         publishers_at s' = (publishers_at s)(x := hm_set a START_PUBLISH (publishers_at s x)))"
  using assms(2,3)
proof (induction xs)
  case Nil
  then show ?case using assms(1) by (simp add: first_started_def same_books_def)
next
  case (Cons x xs)
  show ?case
  proof (cases "publishers_at s x")
    case Nil
    then have "start_first (x # xs) s = start_first xs s"
      by (auto simp: publishers_at_def split: option.splits)
    moreover have "first_started s (x # xs) = first_started s xs" using Nil by (simp add: first_started_def)
    ultimately show ?thesis using Cons by simp
  next
    case (Cons e pubs)
    obtain a v where e: "e = (a, v)" by (cases e)
    from Cons e obtain ap where ap: "hm_get (activePublicationIndex s) x = Some ap" and pu: "ap_publishers ap = (a, v) # pubs"
      by (auto simp: publishers_at_def split: option.splits)
    let ?ap = "ap\<lparr>ap_publishers := (a, START_PUBLISH) # pubs\<rparr>"
    have st: "started ((a, v) # pubs) = []" using Cons.prems(2) Cons e by simp
    have "ap_ok x ?ap" using inv_ap_ok [OF assms(1) ap] pu st by (auto simp: ap_ok_def hm_wf_def started_Cons split: if_splits)
    then have sb: "same_books s (put_pub x ?ap s)" by (rule same_books_put [OF assms(1) ap]) (simp add: pu)
    have live: "live_host (put_pub x ?ap s) a"
      using publisher_live [OF assms(1) ap, of a v] pu by simp
    have out: "start_first (x # xs) s = Some ((put_pub x ?ap s)\<lparr>lp_out := lp_out s @ [host_out s a (of_bytes (event_bytes START_PUBLISH x))]\<rparr>)"
      using ap pu sendNotificationLocally_eq [OF live, of x START_PUBLISH] Cons.prems(1)
        lp_frame_host_out [of s "put_pub x ?ap s"] by simp
    have fs: "first_started s (x # xs) = Some (a, x)" using Cons e by (simp add: first_started_def)
    have "publishers_at (put_pub x ?ap s) = (publishers_at s)(x := hm_set a START_PUBLISH (publishers_at s x))"
      using ap pu by (auto simp: publishers_at_def fun_eq_iff)
    then have pa: "publishers_at ((put_pub x ?ap s)\<lparr>lp_out := os\<rparr>) = (publishers_at s)(x := hm_set a START_PUBLISH (publishers_at s x))" for os
      by (simp add: publishers_at_def fun_eq_iff)
    show ?thesis using out fs pa same_books_out [OF sb] by simp
  qed
qed

lemma stop_publishers_eq:
  "\<forall>e \<in> set m. live_host s (fst e) \<Longrightarrow> short_id x \<Longrightarrow> stop_publishers x m s = Some (s\<lparr>lp_out := lp_out s @
     map (\<lambda>a. host_out s a (of_bytes (event_bytes STOP_PUBLISH x))) (started m)\<rparr>)"
proof (induction m arbitrary: s)
  case (Cons e m)
  obtain a v where e: "e = (a, v)" by (cases e)
  have "live_host s a" using Cons.prems e by simp
  from sendNotificationLocally_eq [OF this, of x STOP_PUBLISH]
    Cons.IH [of "s\<lparr>lp_out := lp_out s @ [host_out s a (of_bytes (event_bytes STOP_PUBLISH x))]\<rparr>"] Cons.IH [of s] Cons.prems
  show ?case by (simp add: stop_publishers_def e started_Cons)
qed (simp add: stop_publishers_def)

definition stopped :: "(lh_addr, byte) htab \<Rightarrow> (lh_addr, byte) htab" where
  "stopped m = map (\<lambda>(a, v). (a, if v = START_PUBLISH then STOP_PUBLISH else v)) m"

lemma started_stopped [simp]: "started (stopped m) = []"
  by (induction m) (auto simp: stopped_def started_Cons split: if_splits)

lemma fst_stopped [simp]: "map fst (stopped m) = map fst m"
  by (induction m) (auto simp: stopped_def)

lemma stop_one_ok:
  assumes "lp_inv s" "short_id x" "is_fid zero"
  shows "\<exists>s'. stop_one zero IDs x s = Some s' \<and> same_books s s' \<and>
    lp_out s' = lp_out s @ map (\<lambda>a. host_out s a (of_bytes (event_bytes STOP_PUBLISH x))) (started (publishers_at s x)) \<and>
    publishers_at s' = (publishers_at s)(x := stopped (publishers_at s x))"
proof (cases "hm_get (activePublicationIndex s) x")
  case None
  then show ?thesis using assms(1)
    by (auto simp: stop_one_def same_books_def publishers_at_def stopped_def fun_eq_iff)
next
  case (Some ap)
  let ?ap = "ap\<lparr>ap_allKnownIDs := IDs, ap_FID := zero, ap_publishers := stopped (ap_publishers ap)\<rparr>"
  have fs: "fst ` set (stopped (ap_publishers ap)) = fst ` set (ap_publishers ap)"
    using fst_stopped [of "ap_publishers ap"] by (metis set_map)
  have "\<forall>e \<in> set (stopped (ap_publishers ap)). snd e = START_PUBLISH \<or> snd e = STOP_PUBLISH"
    using inv_ap_ok [OF assms(1) Some] by (auto simp: ap_ok_def stopped_def)
  moreover have "stopped (ap_publishers ap) \<noteq> []" using inv_ap_ok [OF assms(1) Some] by (simp add: ap_ok_def stopped_def)
  ultimately have ok: "ap_ok x ?ap" using inv_ap_ok [OF assms(1) Some] assms(3) by (simp add: ap_ok_def hm_wf_def)
  have sb: "same_books s (put_pub x ?ap s)" by (rule same_books_put [OF assms(1) Some ok]) (simp add: fs)
  have "\<forall>e \<in> set (ap_publishers ap). live_host (put_pub x ?ap s) (fst e)"
    using publisher_live [OF assms(1) Some] by auto
  from stop_publishers_eq [OF this assms(2)]
  have e: "stop_one zero IDs x s = Some ((put_pub x ?ap s)\<lparr>lp_out := lp_out s @
      map (\<lambda>a. host_out s a (of_bytes (event_bytes STOP_PUBLISH x))) (started (publishers_at s x))\<rparr>)"
    using Some lp_frame_host_out [of s "put_pub x ?ap s"] by (simp add: stop_one_def publishers_at_def stopped_def)
  have "publishers_at ((put_pub x ?ap s)\<lparr>lp_out := os\<rparr>) = (publishers_at s)(x := stopped (publishers_at s x))" for os
    using Some by (auto simp: publishers_at_def fun_eq_iff)
  with e same_books_out [OF sb] show ?thesis by simp
qed

lemma stop_all_ok:
  assumes "lp_inv s" "\<forall>x \<in> set xs. short_id x" "is_fid zero"
  shows "\<exists>s'. fold_opt (stop_one zero IDs) xs s = Some s' \<and> same_books s s' \<and>
    publishers_at s' = (\<lambda>x. if x \<in> set xs then stopped (publishers_at s x) else publishers_at s x)"
  using assms(1,2)
proof (induction xs arbitrary: s)
  case Nil
  then show ?case by (simp add: same_books_def)
next
  case (Cons x xs)
  from stop_one_ok [OF Cons.prems(1) _ assms(3), of x IDs] Cons.prems(2) obtain s1 where
    s1: "stop_one zero IDs x s = Some s1" "same_books s s1" "publishers_at s1 = (publishers_at s)(x := stopped (publishers_at s x))" by auto
  from Cons.IH [of s1] s1(2) Cons.prems(2) obtain s2 where
    s2: "fold_opt (stop_one zero IDs) xs s1 = Some s2" "same_books s1 s2"
      "publishers_at s2 = (\<lambda>x. if x \<in> set xs then stopped (publishers_at s1 x) else publishers_at s1 x)" by (auto simp: same_books_def)
  have "stopped (stopped m) = stopped m" for m by (auto simp: stopped_def)
  with s1 s2 same_books_trans [OF s1(2) s2(2)] show ?case by (auto simp: fun_eq_iff)
qed

text \<open>
  A notification as the rendezvous element or topology manager lays it out. An update of the
  identifiers of the domain (\<open>UPDATE_BA\<close>) is parsed as if it began with a list of identifiers
  too, and is acceptable only where that reading stays within the packet.
\<close>

definition note_ok :: "cell list \<Rightarrow> bool" where
  "note_ok c \<longleftrightarrow>
     (\<exists>type IDs ys. type \<noteq> UPDATE_BA \<and> ids_ok IDs \<and> c = cells (note_bytes type IDs) @ ys \<and>
        (type = START_PUBLISH \<longrightarrow> (\<exists>fid zs. length fid = FID_LEN \<and> ys = cells fid @ zs))) \<or>
     (\<exists>IDs ys fids zs. ids_ok IDs \<and> c = cells (note_bytes UPDATE_BA IDs) @ ys \<and>
        length fids = 2 * FID_LEN \<and> c = cells (UPDATE_BA # fids) @ zs)"

lemma note_parse:
  assumes "pk_data p = cells (note_bytes type IDs) @ ys" "ids_ok IDs"
  shows "rd8 p 0 = Some type" "rd8 p 1 = Some (u8 (length IDs))"
    "read_ids (unat (u8 (length IDs))) p 2 = Some (IDs, 2 + length (ids_bytes IDs))"
proof -
  show "rd8 p 0 = Some type" by (rule rd8_skip [of p "[]"]) (simp_all add: assms(1) note_bytes_def)
  show "rd8 p 1 = Some (u8 (length IDs))" by (rule rd8_skip [of p "[type]"]) (simp_all add: assms(1) note_bytes_def)
  show "read_ids (unat (u8 (length IDs))) p 2 = Some (IDs, 2 + length (ids_bytes IDs))"
    using read_ids_bytes [of IDs p "[type, u8 (length IDs)]" ys] assms ids_ok_u8 [OF assms(2)]
    by (simp add: ids_ok_def note_bytes_def numeral_2_eq_2)
qed

lemma start_notification_aux:
  assumes "lp_inv s" "pk_data p = cells (note_bytes START_PUBLISH IDs @ fid) @ ys" "ids_ok IDs" "length fid = FID_LEN"
  shows "\<exists>s'. handleRVNotification p s = Some s' \<and> same_books s s' \<and>
    (if \<exists>x \<in> set IDs. started (publishers_at s x) \<noteq> []
     then lp_out s' = lp_out s \<and> publishers_at s' = publishers_at s
     else (case first_started s IDs of
       None \<Rightarrow> lp_out s' = lp_out s \<and> publishers_at s' = publishers_at s
     | Some (a, x) \<Rightarrow> lp_out s' = lp_out s @ [host_out s a (of_bytes (event_bytes START_PUBLISH x))] \<and>
         publishers_at s' = (publishers_at s)(x := hm_set a START_PUBLISH (publishers_at s x))))"
proof -
  have d: "pk_data p = cells (note_bytes START_PUBLISH IDs) @ cells fid @ ys" using assms(2) by simp
  note r = note_parse [OF d assms(3)]
  have f: "rdn p (2 + length (ids_bytes IDs)) FID_LEN = Some fid"
    by (rule rdn_skip [of p "note_bytes START_PUBLISH IDs"]) (simp_all add: d assms(4) note_bytes_def)
  have fid: "is_fid (fid_of_bytes fid)" using fid_of_bytes_fid assms(4) by blast
  obtain b s1 where sk: "start_known (fid_of_bytes fid) IDs IDs s = (b, s1)" by force
  note k = start_known_ok [OF assms(1) fid sk]
  have h: "handleRVNotification p s = (if b then Some s1 else start_first IDs s1)"
    using r f sk by (simp add: handleRVNotification_def)
  show ?thesis
  proof (cases b)
    case True
    then show ?thesis using h k by auto
  next
    case False
    have i: "lp_inv s1" using k by (simp add: same_books_def)
    have pe: "publishers_at s1 = publishers_at s" and oe: "lp_out s1 = lp_out s" using k by blast+
    have fe: "first_started s1 = first_started s" by (intro ext) (simp only: first_started_def pe)
    have he: "host_out s1 = host_out s" using k by (auto simp: same_books_def intro: lp_frame_host_out)
    have none: "\<forall>x \<in> set IDs. started (publishers_at s1 x) = []" using k False by auto
    have "\<forall>x \<in> set IDs. short_id x" using assms(3) by (simp add: ids_ok_def)
    from start_first_ok [OF i this none, unfolded pe oe fe he] obtain s' where s': "start_first IDs s1 = Some s'" "same_books s1 s'" and
      e: "case first_started s IDs of
       None \<Rightarrow> lp_out s' = lp_out s \<and> publishers_at s' = publishers_at s
     | Some (a, x) \<Rightarrow> lp_out s' = lp_out s @ [host_out s a (of_bytes (event_bytes START_PUBLISH x))] \<and>
         publishers_at s' = (publishers_at s)(x := hm_set a START_PUBLISH (publishers_at s x))" by blast
    have "same_books s s'" using same_books_trans k s'(2) by blast
    moreover have "\<not> (\<exists>x \<in> set IDs. started (publishers_at s x) \<noteq> [])" using none pe by simp
    ultimately show ?thesis using h False s'(1) e by simp
  qed
qed

text \<open>A notification keeps the books; only an update of the domain changes the configuration.\<close>

definition keeps_books :: "local_proxy \<Rightarrow> local_proxy \<Rightarrow> bool" where
  "keeps_books s s' \<longleftrightarrow> lp_inv s' \<and> host_key s' = host_key s \<and> local_pub_sub_Index s' = local_pub_sub_Index s \<and>
     host_pubs s' = host_pubs s \<and> host_subs s' = host_subs s"

lemma same_keeps: "same_books s s' \<Longrightarrow> keeps_books s s'"
  by (simp add: same_books_def keeps_books_def lp_frame_def)

lemma keeps_out: "lp_inv s \<Longrightarrow> keeps_books s (s\<lparr>lp_out := os\<rparr>)"
  by (simp add: keeps_books_def)

lemma lp_inv_gc: "lp_inv s \<Longrightarrow> gc_wf gc \<Longrightarrow> lp_inv (s\<lparr>lp_gc := gc\<rparr>)"
  by (simp add: lp_inv_def hosts_ok_def pubs_ok_def subs_ok_def host_pubs_def host_subs_def)

lemma update_ba_aux:
  assumes "lp_inv s" "pk_data p = cells (note_bytes UPDATE_BA IDs) @ ys" "ids_ok IDs"
    and "pk_data p = cells (UPDATE_BA # rvfid @ tmfid) @ zs" "length rvfid = FID_LEN" "length tmfid = FID_LEN"
  shows "handleRVNotification p s = Some (s\<lparr>lp_gc := (lp_gc s)\<lparr>defaultRV_dl := fid_of_bytes rvfid, TMFID := fid_of_bytes tmfid\<rparr>\<rparr>)"
    and "keeps_books s (s\<lparr>lp_gc := (lp_gc s)\<lparr>defaultRV_dl := fid_of_bytes rvfid, TMFID := fid_of_bytes tmfid\<rparr>\<rparr>)"
proof -
  note r = note_parse [OF assms(2,3)]
  have a: "rdn p 1 FID_LEN = Some rvfid" by (rule rdn_skip [of p "[UPDATE_BA]"]) (simp_all add: assms(4,5))
  have b: "rdn p (1 + FID_LEN) FID_LEN = Some tmfid" by (rule rdn_skip [of p "UPDATE_BA # rvfid"]) (simp_all add: assms(4,5,6))
  show "handleRVNotification p s = Some (s\<lparr>lp_gc := (lp_gc s)\<lparr>defaultRV_dl := fid_of_bytes rvfid, TMFID := fid_of_bytes tmfid\<rparr>\<rparr>)"
    using r a b by (simp add: handleRVNotification_def)
  have "gc_wf ((lp_gc s)\<lparr>defaultRV_dl := fid_of_bytes rvfid, TMFID := fid_of_bytes tmfid\<rparr>)"
    using inv_gc [OF assms(1)] fid_of_bytes_fid assms(5,6) by (simp add: gc_wf_def)
  from lp_inv_gc [OF assms(1) this]
  show "keeps_books s (s\<lparr>lp_gc := (lp_gc s)\<lparr>defaultRV_dl := fid_of_bytes rvfid, TMFID := fid_of_bytes tmfid\<rparr>\<rparr>)"
    by (simp add: keeps_books_def host_key_def host_pubs_def host_subs_def fun_eq_iff)
qed

lemma handleRVNotification_ok:
  assumes "lp_inv s" "note_ok (pk_data p)"
  shows "\<exists>s'. handleRVNotification p s = Some s' \<and> keeps_books s s'"
  using assms(2) unfolding note_ok_def
proof (elim disjE exE conjE)
  fix type IDs ys
  assume t: "type \<noteq> UPDATE_BA" and ids: "ids_ok IDs" and d: "pk_data p = cells (note_bytes type IDs) @ ys"
    and start: "type = START_PUBLISH \<longrightarrow> (\<exists>fid zs. length fid = FID_LEN \<and> ys = cells fid @ zs)"
  note r = note_parse [OF d ids]
  have short: "\<forall>x \<in> set IDs. short_id x" using ids by (simp add: ids_ok_def)
  consider "type = SCOPE_PUBLISHED" | "type = SCOPE_UNPUBLISHED" | "type = START_PUBLISH" | "type = STOP_PUBLISH"
    | "type \<notin> {SCOPE_PUBLISHED, SCOPE_UNPUBLISHED, START_PUBLISH, STOP_PUBLISH}" by blast
  then show ?thesis
  proof cases
    case 1
    then show ?thesis using r notify_scopes_ok [OF assms(1) short] keeps_out [OF assms(1)] by (simp add: handleRVNotification_def)
  next
    case 2
    then show ?thesis using r notify_scopes_ok [OF assms(1) short] keeps_out [OF assms(1)] by (simp add: handleRVNotification_def)
  next
    case 3
    then obtain fid zs where f: "length fid = FID_LEN" "ys = cells fid @ zs" using start by blast
    then have "pk_data p = cells (note_bytes START_PUBLISH IDs @ fid) @ zs" using d 3 by simp
    from start_notification_aux [OF assms(1) this ids f(1)] show ?thesis using same_keeps by blast
  next
    case 4
    have "is_fid \<lparr>bv_max = 255, bv_data = replicate 8 0\<rparr>" by (simp add: is_fid_def)
    from stop_all_ok [OF assms(1) short this, of IDs] show ?thesis using r 4 same_keeps bv_new_fid_len
      by (auto simp: handleRVNotification_def)
  next
    case 5
    then show ?thesis using r t assms(1) by (simp add: handleRVNotification_def keeps_books_def)
  qed
next
  fix IDs ys fids zs
  assume d: "ids_ok IDs" "pk_data p = cells (note_bytes UPDATE_BA IDs) @ ys" "length fids = 2 * FID_LEN"
    "pk_data p = cells (UPDATE_BA # fids) @ zs"
  then have e: "pk_data p = cells (UPDATE_BA # take 32 fids @ drop 32 fids) @ zs" by simp
  have "length (take 32 fids) = 32" "length (drop 32 fids) = 32" using d(3) by simp_all
  from update_ba_aux [OF assms(1) d(2,1) e this] show ?thesis by blast
qed

end
