(* ===== verification/BA_LocalProxy_Leave.thy ===== *)
theory BA_LocalProxy_Leave
  imports BA_LocalProxy_Inv
begin

text \<open>
  A host that disconnects: its publications and subscriptions are given up one by one, scopes last and
  the deepest first, and what the rendezvous element and the other publishers are told meanwhile.
\<close>

subsection \<open>A host leaves\<close>

text \<open>What is said when a host leaves one publication or subscription: to the rendezvous element if
  it was the last, to the next publisher if it was the one publishing.\<close>

definition item_pub_goodbye :: "local_proxy \<Rightarrow> lh_addr \<Rightarrow> bstr \<Rightarrow> (nat \<times> packet) list" where
  "item_pub_goodbye s a x = (case hm_get (activePublicationIndex s) x of
     None \<Rightarrow> []
   | Some ap \<Rightarrow> if ap_isScope ap then [] else
       (case hm_erase a (ap_publishers ap) of
          [] \<Rightarrow> [rv_leave (lp_gc s) (ap_RVFID ap) UNPUBLISH_INFO x (ap_strategy ap)]
        | (b, _) # _ \<Rightarrow> if hm_get (ap_publishers ap) a \<noteq> Some STOP_PUBLISH
            then [host_out s b (of_bytes (event_bytes START_PUBLISH x))] else []))"

definition scope_pub_goodbye :: "local_proxy \<Rightarrow> lh_addr \<Rightarrow> bstr \<Rightarrow> (nat \<times> packet) list" where
  "scope_pub_goodbye s a x = (case hm_get (activePublicationIndex s) x of
     None \<Rightarrow> []
   | Some ap \<Rightarrow> if ap_isScope ap \<and> hm_erase a (ap_publishers ap) = []
       then [rv_leave (lp_gc s) (ap_RVFID ap) UNPUBLISH_SCOPE x (ap_strategy ap)] else [])"

definition item_sub_goodbye :: "local_proxy \<Rightarrow> lh_addr \<Rightarrow> bstr \<Rightarrow> (nat \<times> packet) list" where
  "item_sub_goodbye s a x = (case hm_get (activeSubscriptionIndex s) x of
     None \<Rightarrow> []
   | Some as \<Rightarrow> if \<not> as_isScope as \<and> hs_erase a (as_subscribers as) = [] \<and> forwards_subscription (as_strategy as)
       then [rv_leave (lp_gc s) (as_RVFID as) UNSUBSCRIBE_INFO x (as_strategy as)] else [])"

definition scope_sub_goodbye :: "local_proxy \<Rightarrow> lh_addr \<Rightarrow> bstr \<Rightarrow> (nat \<times> packet) list" where
  "scope_sub_goodbye s a x = (case hm_get (activeSubscriptionIndex s) x of
     None \<Rightarrow> []
   | Some as \<Rightarrow> if as_isScope as \<and> hs_erase a (as_subscribers as) = [] \<and> forwards_subscription (as_strategy as)
       then [rv_leave (lp_gc s) (as_RVFID as) UNSUBSCRIBE_SCOPE x (as_strategy as)] else [])"

text \<open>A host on its way out, the identifiers of \<open>D\<close> already left.\<close>

definition pub_left :: "local_proxy \<Rightarrow> lh_addr \<Rightarrow> local_host \<Rightarrow> bstr set \<Rightarrow> local_proxy \<Rightarrow> bool" where
  "pub_left s0 a h0 D s \<longleftrightarrow> lp_inv s \<and> lp_frame s0 s \<and> activeSubscriptionIndex s = activeSubscriptionIndex s0 \<and>
     (\<forall>b. b \<noteq> a \<longrightarrow> lp_hosts s b = lp_hosts s0 b) \<and>
     lp_hosts s a = Some (h0\<lparr>activePublications := filter (\<lambda>x. x \<notin> D) (activePublications h0)\<rparr>) \<and>
     (\<forall>x. x \<notin> D \<longrightarrow> hm_get (activePublicationIndex s) x = hm_get (activePublicationIndex s0) x)"

definition sub_left :: "local_proxy \<Rightarrow> lh_addr \<Rightarrow> local_host \<Rightarrow> bstr set \<Rightarrow> local_proxy \<Rightarrow> bool" where
  "sub_left s0 a h0 D s \<longleftrightarrow> lp_inv s \<and> lp_frame s0 s \<and> activePublicationIndex s = activePublicationIndex s0 \<and>
     (\<forall>b. b \<noteq> a \<longrightarrow> lp_hosts s b = lp_hosts s0 b) \<and>
     lp_hosts s a = Some (h0\<lparr>activeSubscriptions := filter (\<lambda>x. x \<notin> D) (activeSubscriptions h0)\<rparr>) \<and>
     (\<forall>x. x \<notin> D \<longrightarrow> hm_get (activeSubscriptionIndex s) x = hm_get (activeSubscriptionIndex s0) x)"

lemma filter_True_id: "filter (\<lambda>x. True) l = l"
  by (rule filter_True) simp

lemma pub_left_start: "lp_inv s \<Longrightarrow> lp_hosts s a = Some h \<Longrightarrow> pub_left s a h {} s"
  by (simp add: pub_left_def)

lemma sub_left_start: "lp_inv s \<Longrightarrow> lp_hosts s a = Some h \<Longrightarrow> sub_left s a h {} s"
  by (simp add: sub_left_def)

lemma erase_filter: "hs_erase x (filter (\<lambda>y. y \<notin> D) l) = filter (\<lambda>y. y \<notin> insert x D) l"
  unfolding hs_erase_def filter_filter by (rule filter_cong) auto

lemma pub_left_step:
  assumes "pub_left s0 a h0 D s" and "x \<notin> D" and "hm_get (activePublicationIndex s0) x = Some ap"
    and "hm_erase a (ap_publishers ap) \<noteq> [] \<Longrightarrow> ap_ok x ap' \<and> fst ` set (ap_publishers ap') = fst ` set (ap_publishers ap) - {a}"
    and "idx = (if hm_erase a (ap_publishers ap) = [] then hm_erase x (activePublicationIndex s)
                else hm_set x ap' (activePublicationIndex s))"
  shows "pub_left s0 a h0 (insert x D)
    ((set_pub a (hs_erase x (filter (\<lambda>x. x \<notin> D) (activePublications h0))) idx s)\<lparr>lp_out := os\<rparr>)"
proof -
  let ?l = "filter (\<lambda>x. x \<notin> D) (activePublications h0)"
  have i: "lp_inv s" and h: "lp_hosts s a = Some (h0\<lparr>activePublications := ?l\<rparr>)"
    and e: "hm_get (activePublicationIndex s) x = Some ap" using assms(1-3) by (simp_all add: pub_left_def)
  have "lp_inv (set_pub a (hs_erase x ?l) idx s)" using leave_pub [OF i h e assms(4,5)] by simp
  moreover have "lp_frame s0 (set_pub a (hs_erase x ?l) idx s)"
    using assms(1) lp_frame_trans [OF _ lp_frame_set(1)] by (simp add: pub_left_def)
  ultimately show ?thesis using assms(1,5) h
    by (auto simp: pub_left_def lp_frame_def set_pub_def erase_filter)
qed

lemma sub_left_step:
  assumes "sub_left s0 a h0 D s" and "x \<notin> D" and "hm_get (activeSubscriptionIndex s0) x = Some as"
    and "idx = (if hs_erase a (as_subscribers as) = [] then hm_erase x (activeSubscriptionIndex s)
                else hm_set x (as\<lparr>as_subscribers := hs_erase a (as_subscribers as)\<rparr>) (activeSubscriptionIndex s))"
  shows "sub_left s0 a h0 (insert x D)
    ((set_sub a (hs_erase x (filter (\<lambda>x. x \<notin> D) (activeSubscriptions h0))) idx s)\<lparr>lp_out := os\<rparr>)"
proof -
  let ?l = "filter (\<lambda>x. x \<notin> D) (activeSubscriptions h0)"
  have i: "lp_inv s" and h: "lp_hosts s a = Some (h0\<lparr>activeSubscriptions := ?l\<rparr>)"
    and e: "hm_get (activeSubscriptionIndex s) x = Some as" using assms(1-3) by (simp_all add: sub_left_def)
  have "lp_inv (set_sub a (hs_erase x ?l) idx s)" using leave_sub [OF i h e assms(4)] by simp
  moreover have "lp_frame s0 (set_sub a (hs_erase x ?l) idx s)"
    using assms(1) lp_frame_trans [OF _ lp_frame_set(2)] by (simp add: sub_left_def)
  ultimately show ?thesis using assms(1,4) h
    by (auto simp: sub_left_def lp_frame_def set_sub_def erase_filter)
qed

text \<open>Erasing from the host, then rewriting or erasing the entry.\<close>

lemma host_del_pub_all:
  assumes "lp_hosts s a = Some h" "activePublications h = l"
  shows "\<exists>s1. host_del_pub a x s = Some s1 \<and>
    (\<forall>ap. put_pub x ap s1 = set_pub a (hs_erase x l) (hm_set x ap (activePublicationIndex s)) s) \<and>
    del_pub x s1 = set_pub a (hs_erase x l) (hm_erase x (activePublicationIndex s)) s"
proof -
  obtain s1 where s1: "host_del_pub a x s = Some s1" using del_pub_eq [OF assms(1)] by blast
  have "put_pub x ap s1 = set_pub a (hs_erase x l) (hm_set x ap (activePublicationIndex s)) s \<and>
    del_pub x s1 = set_pub a (hs_erase x l) (hm_erase x (activePublicationIndex s)) s" for ap
    using del_pub_eq [OF assms(1), of x ap] s1 assms(2) by simp
  with s1 show ?thesis by blast
qed

lemma host_del_sub_all:
  assumes "lp_hosts s a = Some h" "activeSubscriptions h = l"
  shows "\<exists>s1. host_del_sub a x s = Some s1 \<and>
    (\<forall>as. put_sub x as s1 = set_sub a (hs_erase x l) (hm_set x as (activeSubscriptionIndex s)) s) \<and>
    del_sub x s1 = set_sub a (hs_erase x l) (hm_erase x (activeSubscriptionIndex s)) s"
proof -
  obtain s1 where s1: "host_del_sub a x s = Some s1" using del_sub_eq [OF assms(1)] by blast
  have "put_sub x as s1 = set_sub a (hs_erase x l) (hm_set x as (activeSubscriptionIndex s)) s \<and>
    del_sub x s1 = set_sub a (hs_erase x l) (hm_erase x (activeSubscriptionIndex s)) s" for as
    using del_sub_eq [OF assms(1), of x as] s1 assms(2) by simp
  with s1 show ?thesis by blast
qed

lemma leave_item_publication_ok:
  assumes "pub_left s0 a h0 D s" "x \<notin> D" "x \<in> set (activePublications h0)" "lp_inv s0" "lp_hosts s0 a = Some h0"
  shows "\<exists>s' ap. leave_item_publication a x s = Some s' \<and> hm_get (activePublicationIndex s0) x = Some ap \<and>
    pub_left s0 a h0 (if ap_isScope ap then D else insert x D) s' \<and> lp_out s' = lp_out s @ item_pub_goodbye s0 a x"
proof -
  let ?l = "filter (\<lambda>x. x \<notin> D) (activePublications h0)"
  have "x \<in> host_pubs s0 a" using assms(3,5) by (simp add: host_pubs_def)
  then have "a \<in> ap_hosts (hm_get (activePublicationIndex s0) x)" using publisher_iff [OF assms(4)] by blast
  then obtain ap where ap0: "hm_get (activePublicationIndex s0) x = Some ap" and am: "a \<in> fst ` set (ap_publishers ap)"
    by (auto simp: ap_hosts_def split: option.splits)
  have i: "lp_inv s" and h: "lp_hosts s a = Some (h0\<lparr>activePublications := ?l\<rparr>)" and fr: "lp_frame s0 s"
    and ap: "hm_get (activePublicationIndex s) x = Some ap" using assms(1,2) ap0 by (simp_all add: pub_left_def)
  note ok = inv_ap_ok [OF i ap]
  then have full: "ap_fullID ap = x" and rvf: "is_fid (ap_RVFID ap)" and ido: "id_ok x" by (simp_all add: ap_ok_def)
  have "activePublications (h0\<lparr>activePublications := ?l\<rparr>) = ?l" by simp
  from host_del_pub_all [OF h this, of x] obtain s1 where s1: "host_del_pub a x s = Some s1"
    "\<forall>ap. put_pub x ap s1 = set_pub a (hs_erase x ?l) (hm_set x ap (activePublicationIndex s)) s"
    "del_pub x s1 = set_pub a (hs_erase x ?l) (hm_erase x (activePublicationIndex s)) s"
    by blast
  note gc = inv_gc [OF i]
  have gce: "lp_gc s = lp_gc s0" and hoe: "host_out s = host_out s0" using fr lp_frame_host_out [OF fr] by (simp_all add: lp_frame_def)
  show ?thesis
  proof (cases "ap_isScope ap")
    case True
    then show ?thesis using assms(1) ap ap0 by (simp add: leave_item_publication_def item_pub_goodbye_def)
  next
    case False
    show ?thesis
    proof (cases "hm_erase a (ap_publishers ap)")
      case Nil
      let ?s = "set_pub a (hs_erase x ?l) (hm_erase x (activePublicationIndex s)) s"
      have "leave_item_publication a x s = Some (?s\<lparr>lp_out := lp_out s @ item_pub_goodbye s0 a x\<rparr>)"
        using ap s1 False Nil full tell_RV_eq [of ?s "ap_RVFID ap" x] gc rvf ido ap0 gce
        by (simp add: leave_item_publication_def item_pub_goodbye_def)
      moreover have "pub_left s0 a h0 (insert x D) (?s\<lparr>lp_out := lp_out s @ item_pub_goodbye s0 a x\<rparr>)"
        by (rule pub_left_step [OF assms(1,2) ap0]) (simp_all add: Nil)
      ultimately show ?thesis using ap0 False by auto
    next
      case (Cons e m)
      obtain b v where e: "e = (b, v)" by (cases e)
      define ap' where "ap' = ap\<lparr>ap_publishers := (if hm_get (ap_publishers ap) a \<noteq> Some STOP_PUBLISH
        then (b, START_PUBLISH) # m else (b, v) # m)\<rparr>"
      let ?s = "set_pub a (hs_erase x ?l) (hm_set x ap' (activePublicationIndex s)) s"
      have ok': "ap_ok x ap'" using ap_ok_handover [OF ok am _ Cons [unfolded e]] ap_ok_erase [OF ok, of a] Cons e
        by (auto simp: ap'_def)
      have "fst ` set (ap_publishers ap') = fst ` set (hm_erase a (ap_publishers ap))" by (simp add: ap'_def Cons e)
      then have fs: "fst ` set (ap_publishers ap') = fst ` set (ap_publishers ap) - {a}" by (simp add: fst_hm_erase)
      have "b \<in> fst ` set (ap_publishers ap)" using fs by (auto simp: ap'_def split: if_splits)
      then have "live_host s b" using publisher_live [OF i ap] by auto
      then have lb: "live_host ?s b" by simp
      have mk: "pk_make (1 + 1 + length x) ([START_PUBLISH, u8 (length x div 8)] @ x) = Some (of_bytes (event_bytes START_PUBLISH x))"
        by (simp add: pk_make_def of_bytes_def event_bytes_def id_bytes_def)
      have "host_out ?s = host_out s0" using hoe by (metis host_out_cong host_key_set(1))
      then have "leave_item_publication a x s = Some (?s\<lparr>lp_out := lp_out s @ item_pub_goodbye s0 a x\<rparr>)"
        using ap s1 False Cons e full ap0 mk send_to_host_eq [OF lb]
        by (cases "hm_get (ap_publishers ap) a = Some STOP_PUBLISH")
          (simp_all add: leave_item_publication_def item_pub_goodbye_def ap'_def Let_def)
      moreover have "pub_left s0 a h0 (insert x D) (?s\<lparr>lp_out := lp_out s @ item_pub_goodbye s0 a x\<rparr>)"
        by (rule pub_left_step [OF assms(1,2) ap0, of ap']) (use ok' fs Cons in simp_all)
      ultimately show ?thesis using ap0 False by auto
    qed
  qed
qed

lemma leave_scope_publication_ok:
  assumes "pub_left s0 a h0 D s" "x \<notin> D" "x \<in> set (activePublications h0)" "lp_inv s0" "lp_hosts s0 a = Some h0"
  shows "\<exists>s' ap. leave_scope_publication a i x s = Some s' \<and> hm_get (activePublicationIndex s0) x = Some ap \<and>
    pub_left s0 a h0 (if ap_isScope ap \<and> length x div 8 = i then insert x D else D) s' \<and>
    lp_out s' = lp_out s @ (if length x div 8 = i then scope_pub_goodbye s0 a x else [])"
proof -
  let ?l = "filter (\<lambda>x. x \<notin> D) (activePublications h0)"
  have "x \<in> host_pubs s0 a" using assms(3,5) by (simp add: host_pubs_def)
  then have "a \<in> ap_hosts (hm_get (activePublicationIndex s0) x)" using publisher_iff [OF assms(4)] by blast
  then obtain ap where ap0: "hm_get (activePublicationIndex s0) x = Some ap" by (auto simp: ap_hosts_def split: option.splits)
  have i: "lp_inv s" and h: "lp_hosts s a = Some (h0\<lparr>activePublications := ?l\<rparr>)" and fr: "lp_frame s0 s"
    and ap: "hm_get (activePublicationIndex s) x = Some ap" using assms(1,2) ap0 by (simp_all add: pub_left_def)
  note ok = inv_ap_ok [OF i ap]
  then have full: "ap_fullID ap = x" and rvf: "is_fid (ap_RVFID ap)" and ido: "id_ok x" by (simp_all add: ap_ok_def)
  have "activePublications (h0\<lparr>activePublications := ?l\<rparr>) = ?l" by simp
  from host_del_pub_all [OF h this, of x] obtain s1 where s1: "host_del_pub a x s = Some s1"
    "\<forall>ap. put_pub x ap s1 = set_pub a (hs_erase x ?l) (hm_set x ap (activePublicationIndex s)) s"
    "del_pub x s1 = set_pub a (hs_erase x ?l) (hm_erase x (activePublicationIndex s)) s" by blast
  note gc = inv_gc [OF i]
  have gce: "lp_gc s = lp_gc s0" using fr by (simp add: lp_frame_def)
  show ?thesis
  proof (cases "ap_isScope ap \<and> length x div 8 = i")
    case False
    then show ?thesis using assms(1) ap ap0 by (auto simp: leave_scope_publication_def scope_pub_goodbye_def)
  next
    case True
    define m where "m = hm_erase a (ap_publishers ap)"
    define idx where "idx = (if m = [] then hm_erase x (activePublicationIndex s)
      else hm_set x (ap\<lparr>ap_publishers := m\<rparr>) (activePublicationIndex s))"
    let ?s = "set_pub a (hs_erase x ?l) idx s"
    have "leave_scope_publication a i x s = Some (?s\<lparr>lp_out := lp_out s @ scope_pub_goodbye s0 a x\<rparr>)"
      using ap s1 True full tell_RV_eq [of ?s "ap_RVFID ap" x] gc rvf ido ap0 gce
      by (cases "m = []") (simp_all add: leave_scope_publication_def scope_pub_goodbye_def idx_def m_def Let_def)
    moreover have "pub_left s0 a h0 (insert x D) (?s\<lparr>lp_out := lp_out s @ scope_pub_goodbye s0 a x\<rparr>)"
      by (rule pub_left_step [OF assms(1,2) ap0, of "ap\<lparr>ap_publishers := m\<rparr>"])
        (use ap_ok_erase [OF ok, of a] in \<open>simp_all add: idx_def m_def fst_hm_erase\<close>)
    ultimately show ?thesis using ap0 True by auto
  qed
qed

lemma leave_subscription_ok:
  assumes "sub_left s0 a h0 D s" "x \<notin> D" "x \<in> set (activeSubscriptions h0)" "lp_inv s0" "lp_hosts s0 a = Some h0"
  shows "\<exists>s' as. leave_item_subscription a x s = Some s' \<and> hm_get (activeSubscriptionIndex s0) x = Some as \<and>
      sub_left s0 a h0 (if as_isScope as then D else insert x D) s' \<and> lp_out s' = lp_out s @ item_sub_goodbye s0 a x"
    and "\<exists>s' as. leave_scope_subscription a i x s = Some s' \<and> hm_get (activeSubscriptionIndex s0) x = Some as \<and>
      sub_left s0 a h0 (if as_isScope as \<and> length x div 8 = i then insert x D else D) s' \<and>
      lp_out s' = lp_out s @ (if length x div 8 = i then scope_sub_goodbye s0 a x else [])"
proof -
  let ?l = "filter (\<lambda>x. x \<notin> D) (activeSubscriptions h0)"
  have "x \<in> host_subs s0 a" using assms(3,5) by (simp add: host_subs_def)
  then have "a \<in> as_hosts (hm_get (activeSubscriptionIndex s0) x)" using subscriber_iff [OF assms(4)] by blast
  then obtain as where as0: "hm_get (activeSubscriptionIndex s0) x = Some as" by (auto simp: as_hosts_def split: option.splits)
  have i: "lp_inv s" and h: "lp_hosts s a = Some (h0\<lparr>activeSubscriptions := ?l\<rparr>)" and fr: "lp_frame s0 s"
    and as: "hm_get (activeSubscriptionIndex s) x = Some as" using assms(1,2) as0 by (simp_all add: sub_left_def)
  have full: "as_fullID as = x" and rvf: "is_fid (as_RVFID as)" and ido: "id_ok x"
    using inv_as_ok [OF i as] by (simp_all add: as_ok_def)
  have "activeSubscriptions (h0\<lparr>activeSubscriptions := ?l\<rparr>) = ?l" by simp
  from host_del_sub_all [OF h this, of x] obtain s1 where s1: "host_del_sub a x s = Some s1"
    "\<forall>as. put_sub x as s1 = set_sub a (hs_erase x ?l) (hm_set x as (activeSubscriptionIndex s)) s"
    "del_sub x s1 = set_sub a (hs_erase x ?l) (hm_erase x (activeSubscriptionIndex s)) s" by blast
  note gc = inv_gc [OF i]
  have gce: "lp_gc s = lp_gc s0" using fr by (simp add: lp_frame_def)
  define m where "m = hs_erase a (as_subscribers as)"
  define idx where "idx = (if m = [] then hm_erase x (activeSubscriptionIndex s)
      else hm_set x (as\<lparr>as_subscribers := m\<rparr>) (activeSubscriptionIndex s))"
  let ?s = "set_sub a (hs_erase x ?l) idx s"
  note tell = tell_RV_eq [of ?s "as_RVFID as" x]
  have left: "sub_left s0 a h0 (insert x D) (?s\<lparr>lp_out := os\<rparr>)" for os
    by (rule sub_left_step [OF assms(1,2) as0]) (simp add: idx_def m_def)
  have noout: "?s\<lparr>lp_out := lp_out s\<rparr> = ?s" by (simp add: set_sub_def)
  show "\<exists>s' as. leave_item_subscription a x s = Some s' \<and> hm_get (activeSubscriptionIndex s0) x = Some as \<and>
      sub_left s0 a h0 (if as_isScope as then D else insert x D) s' \<and> lp_out s' = lp_out s @ item_sub_goodbye s0 a x"
  proof (cases "as_isScope as")
    case True
    then show ?thesis using assms(1) as as0 by (simp add: leave_item_subscription_def item_sub_goodbye_def)
  next
    case False
    have "leave_item_subscription a x s = Some (?s\<lparr>lp_out := lp_out s @ item_sub_goodbye s0 a x\<rparr>)"
      using as s1 False full tell gc rvf ido as0 gce noout
      by (cases "m = []"; cases "forwards_subscription (as_strategy as)")
        (simp_all add: leave_item_subscription_def item_sub_goodbye_def idx_def m_def Let_def)
    then show ?thesis using left as0 False by auto
  qed
  show "\<exists>s' as. leave_scope_subscription a i x s = Some s' \<and> hm_get (activeSubscriptionIndex s0) x = Some as \<and>
      sub_left s0 a h0 (if as_isScope as \<and> length x div 8 = i then insert x D else D) s' \<and>
      lp_out s' = lp_out s @ (if length x div 8 = i then scope_sub_goodbye s0 a x else [])"
  proof (cases "as_isScope as \<and> length x div 8 = i")
    case False
    then show ?thesis using assms(1) as as0 by (auto simp: leave_scope_subscription_def scope_sub_goodbye_def)
  next
    case True
    have "leave_scope_subscription a i x s = Some (?s\<lparr>lp_out := lp_out s @ scope_sub_goodbye s0 a x\<rparr>)"
      using as s1 True full tell gc rvf ido as0 gce noout
      by (cases "m = []"; cases "forwards_subscription (as_strategy as)")
        (simp_all add: leave_scope_subscription_def scope_sub_goodbye_def idx_def m_def Let_def)
    then show ?thesis using left as0 True by auto
  qed
qed

text \<open>A loop in which every element either leaves or stays, saying its goodbye.\<close>

lemma fold_leaving:
  assumes "\<And>x D s. P D s \<Longrightarrow> x \<notin> D \<Longrightarrow> x \<in> X \<Longrightarrow>
      \<exists>s'. f x s = Some s' \<and> P (if q x then insert x D else D) s' \<and> lp_out s' = lp_out s @ g x"
    and "P D s" "set xs \<subseteq> X" "distinct xs" "set xs \<inter> D = {}"
  shows "\<exists>s'. fold_opt f xs s = Some s' \<and> P (D \<union> {x \<in> set xs. q x}) s' \<and> lp_out s' = lp_out s @ concat (map g xs)"
  using assms(2-5)
proof (induction xs arbitrary: D s)
  case (Cons x xs)
  from assms(1) [OF Cons.prems(1), of x] Cons.prems obtain s1 where s1: "f x s = Some s1"
    "P (if q x then insert x D else D) s1" "lp_out s1 = lp_out s @ g x" by auto
  have "set xs \<inter> (if q x then insert x D else D) = {}" using Cons.prems by auto
  with Cons.IH [OF s1(2)] Cons.prems obtain s2 where s2: "fold_opt f xs s1 = Some s2"
    "P ((if q x then insert x D else D) \<union> {x \<in> set xs. q x}) s2" "lp_out s2 = lp_out s1 @ concat (map g xs)" by auto
  have "(if q x then insert x D else D) \<union> {x \<in> set xs. q x} = D \<union> {y \<in> set (x # xs). q y}" by auto
  with s1 s2 show ?case by simp
qed simp

text \<open>The goodbyes of the scopes, level by level.\<close>

fun by_level :: "(bstr \<Rightarrow> 'a list) \<Rightarrow> nat \<Rightarrow> bstr list \<Rightarrow> 'a list" where
  "by_level g 0 l = []"
| "by_level g (Suc i) l = concat (map g (filter (\<lambda>x. length x div 8 = Suc i) l)) @ by_level g i l"

lemma concat_map_if: "concat (map (\<lambda>x. if P x then g x else []) l) = concat (map g (filter P l))"
  by (induction l) auto

lemma concat_map_filter:
  "\<forall>x \<in> set l. P x \<and> \<not> Q x \<longrightarrow> g x = [] \<Longrightarrow> concat (map g (filter P (filter Q l))) = concat (map g (filter P l))"
  by (induction l) auto

lemma by_level_more: "\<forall>x \<in> set l. m < length x div 8 \<longrightarrow> g x = [] \<Longrightarrow> m \<le> n \<Longrightarrow> by_level g n l = by_level g m l"
proof (induction n)
  case (Suc n)
  show ?case
  proof (cases "m = Suc n")
    case False
    then have "\<forall>x \<in> set (filter (\<lambda>x. length x div 8 = Suc n) l). g x = []" using Suc.prems by auto
    then have "concat (map g (filter (\<lambda>x. length x div 8 = Suc n) l)) = []" by simp
    then show ?thesis using Suc False by simp
  qed simp
qed simp

lemma max_level_ok:
  assumes "\<forall>x \<in> set l. f x \<noteq> None"
  shows "\<exists>m'. max_level f l m = Some m' \<and> m \<le> m' \<and> (\<forall>x \<in> set l. f x = Some True \<longrightarrow> length x div 8 \<le> m') \<and>
    (\<forall>k. m \<le> k \<longrightarrow> (\<forall>x \<in> set l. length x div 8 \<le> k) \<longrightarrow> m' \<le> k)"
  using assms
proof (induction l arbitrary: m)
  case (Cons x l)
  then obtain b where b: "f x = Some b" by auto
  let ?m = "if b \<and> length x div 8 > m then length x div 8 else m"
  have "\<forall>x \<in> set l. f x \<noteq> None" using Cons.prems by simp
  from Cons.IH [OF this, of ?m] obtain m' where m': "max_level f l ?m = Some m'" "?m \<le> m'" "\<forall>x \<in> set l. f x = Some True \<longrightarrow> length x div 8 \<le> m'"
    "\<forall>k. ?m \<le> k \<longrightarrow> (\<forall>x \<in> set l. length x div 8 \<le> k) \<longrightarrow> m' \<le> k" by blast
  show ?case using b m' by (auto split: if_splits)
qed simp

definition pub_scope :: "local_proxy \<Rightarrow> bstr \<Rightarrow> bool" where
  "pub_scope s x \<longleftrightarrow> (\<exists>ap. hm_get (activePublicationIndex s) x = Some ap \<and> ap_isScope ap)"

definition sub_scope :: "local_proxy \<Rightarrow> bstr \<Rightarrow> bool" where
  "sub_scope s x \<longleftrightarrow> (\<exists>as. hm_get (activeSubscriptionIndex s) x = Some as \<and> as_isScope as)"

lemma scope_pub_goodbye_item: "\<not> pub_scope s x \<Longrightarrow> scope_pub_goodbye s a x = []"
  by (auto simp: pub_scope_def scope_pub_goodbye_def split: option.splits)

lemma scope_sub_goodbye_item: "\<not> sub_scope s x \<Longrightarrow> scope_sub_goodbye s a x = []"
  by (auto simp: sub_scope_def scope_sub_goodbye_def split: option.splits)

lemma leave_scope_publications_ok:
  assumes "lp_inv s0" "lp_hosts s0 a = Some h0" "pub_left s0 a h0 D s"
    and "\<forall>x \<in> D. pub_scope s0 x \<longrightarrow> n < length x div 8"
  shows "\<exists>s'. leave_scope_publications a n s = Some s' \<and>
    pub_left s0 a h0 (D \<union> {x \<in> set (activePublications h0). pub_scope s0 x \<and> 0 < length x div 8 \<and> length x div 8 \<le> n}) s' \<and>
    lp_out s' = lp_out s @ by_level (scope_pub_goodbye s0 a) n (activePublications h0)"
  using assms(3,4)
proof (induction n arbitrary: D s)
  case 0
  have "{x \<in> set (activePublications h0). pub_scope s0 x \<and> 0 < length x div 8 \<and> length x div 8 \<le> 0} = {}" by auto
  with 0 show ?case by (metis Un_empty_right append_Nil2 by_level.simps(1) leave_scope_publications.simps(1))
next
  case (Suc n)
  let ?L = "activePublications h0" and ?g = "scope_pub_goodbye s0 a"
  let ?q = "\<lambda>x. pub_scope s0 x \<and> length x div 8 = Suc n"
  let ?l = "filter (\<lambda>x. x \<notin> D) ?L"
  have h: "lp_hosts s a = Some (h0\<lparr>activePublications := ?l\<rparr>)" using Suc.prems(1) by (simp add: pub_left_def)
  have dist: "distinct ?l" using inv_distinct(1) [OF assms(1,2)] by simp
  have step: "\<exists>s'. leave_scope_publication a (Suc n) x s = Some s' \<and> pub_left s0 a h0 (if ?q x then insert x D else D) s' \<and>
      lp_out s' = lp_out s @ (if length x div 8 = Suc n then ?g x else [])"
    if "pub_left s0 a h0 D s" "x \<notin> D" "x \<in> set ?L" for x D s
  proof -
    from leave_scope_publication_ok [OF that assms(1,2), of "Suc n"] obtain s' ap where
      r: "leave_scope_publication a (Suc n) x s = Some s'" "hm_get (activePublicationIndex s0) x = Some ap"
        "pub_left s0 a h0 (if ap_isScope ap \<and> length x div 8 = Suc n then insert x D else D) s'"
        "lp_out s' = lp_out s @ (if length x div 8 = Suc n then ?g x else [])" by blast
    moreover have "pub_scope s0 x \<longleftrightarrow> ap_isScope ap" using r(2) by (simp add: pub_scope_def)
    ultimately show ?thesis by simp
  qed
  from fold_leaving [where P = "pub_left s0 a h0" and X = "set ?L" and f = "leave_scope_publication a (Suc n)" and q = ?q
      and g = "\<lambda>x. if length x div 8 = Suc n then ?g x else []", OF step Suc.prems(1), of ?l] dist
  obtain s1 where s1: "fold_opt (leave_scope_publication a (Suc n)) ?l s = Some s1"
      "pub_left s0 a h0 (D \<union> {x \<in> set ?l. ?q x}) s1"
      "lp_out s1 = lp_out s @ concat (map (\<lambda>x. if length x div 8 = Suc n then ?g x else []) ?l)" by auto
  have out: "concat (map (\<lambda>x. if length x div 8 = Suc n then ?g x else []) ?l) = concat (map ?g (filter (\<lambda>x. length x div 8 = Suc n) ?L))"
    unfolding concat_map_if by (rule concat_map_filter) (use Suc.prems(2) scope_pub_goodbye_item in fastforce)
  have "\<forall>x \<in> D \<union> {x \<in> set ?l. ?q x}. pub_scope s0 x \<longrightarrow> n < length x div 8" using Suc.prems(2) by auto
  from Suc.IH [OF s1(2) this] obtain s2 where s2: "leave_scope_publications a n s1 = Some s2"
    "pub_left s0 a h0 (D \<union> {x \<in> set ?l. ?q x} \<union> {x \<in> set ?L. pub_scope s0 x \<and> 0 < length x div 8 \<and> length x div 8 \<le> n}) s2"
    "lp_out s2 = lp_out s1 @ by_level ?g n ?L" by blast
  have "D \<union> {x \<in> set ?l. ?q x} \<union> {x \<in> set ?L. pub_scope s0 x \<and> 0 < length x div 8 \<and> length x div 8 \<le> n} =
      D \<union> {x \<in> set ?L. pub_scope s0 x \<and> 0 < length x div 8 \<and> length x div 8 \<le> Suc n}" by (auto simp: le_Suc_eq)
  with s2(2) have "pub_left s0 a h0 (D \<union> {x \<in> set ?L. pub_scope s0 x \<and> 0 < length x div 8 \<and> length x div 8 \<le> Suc n}) s2" by simp
  then show ?case using h s1(1,3) s2(1,3) out by simp
qed

lemma leave_scope_subscriptions_ok:
  assumes "lp_inv s0" "lp_hosts s0 a = Some h0" "sub_left s0 a h0 D s"
    and "\<forall>x \<in> D. sub_scope s0 x \<longrightarrow> n < length x div 8"
  shows "\<exists>s'. leave_scope_subscriptions a n s = Some s' \<and>
    sub_left s0 a h0 (D \<union> {x \<in> set (activeSubscriptions h0). sub_scope s0 x \<and> 0 < length x div 8 \<and> length x div 8 \<le> n}) s' \<and>
    lp_out s' = lp_out s @ by_level (scope_sub_goodbye s0 a) n (activeSubscriptions h0)"
  using assms(3,4)
proof (induction n arbitrary: D s)
  case 0
  have "{x \<in> set (activeSubscriptions h0). sub_scope s0 x \<and> 0 < length x div 8 \<and> length x div 8 \<le> 0} = {}" by auto
  with 0 show ?case by (metis Un_empty_right append_Nil2 by_level.simps(1) leave_scope_subscriptions.simps(1))
next
  case (Suc n)
  let ?L = "activeSubscriptions h0" and ?g = "scope_sub_goodbye s0 a"
  let ?q = "\<lambda>x. sub_scope s0 x \<and> length x div 8 = Suc n"
  let ?l = "filter (\<lambda>x. x \<notin> D) ?L"
  have h: "lp_hosts s a = Some (h0\<lparr>activeSubscriptions := ?l\<rparr>)" using Suc.prems(1) by (simp add: sub_left_def)
  have dist: "distinct ?l" using inv_distinct(2) [OF assms(1,2)] by simp
  have step: "\<exists>s'. leave_scope_subscription a (Suc n) x s = Some s' \<and> sub_left s0 a h0 (if ?q x then insert x D else D) s' \<and>
      lp_out s' = lp_out s @ (if length x div 8 = Suc n then ?g x else [])"
    if "sub_left s0 a h0 D s" "x \<notin> D" "x \<in> set ?L" for x D s
  proof -
    from leave_subscription_ok(2) [OF that assms(1,2), of "Suc n"] obtain s' as where
      r: "leave_scope_subscription a (Suc n) x s = Some s'" "hm_get (activeSubscriptionIndex s0) x = Some as"
        "sub_left s0 a h0 (if as_isScope as \<and> length x div 8 = Suc n then insert x D else D) s'"
        "lp_out s' = lp_out s @ (if length x div 8 = Suc n then ?g x else [])" by blast
    moreover have "sub_scope s0 x \<longleftrightarrow> as_isScope as" using r(2) by (simp add: sub_scope_def)
    ultimately show ?thesis by simp
  qed
  from fold_leaving [where P = "sub_left s0 a h0" and X = "set ?L" and f = "leave_scope_subscription a (Suc n)" and q = ?q
      and g = "\<lambda>x. if length x div 8 = Suc n then ?g x else []", OF step Suc.prems(1), of ?l] dist
  obtain s1 where s1: "fold_opt (leave_scope_subscription a (Suc n)) ?l s = Some s1"
      "sub_left s0 a h0 (D \<union> {x \<in> set ?l. ?q x}) s1"
      "lp_out s1 = lp_out s @ concat (map (\<lambda>x. if length x div 8 = Suc n then ?g x else []) ?l)" by auto
  have out: "concat (map (\<lambda>x. if length x div 8 = Suc n then ?g x else []) ?l) = concat (map ?g (filter (\<lambda>x. length x div 8 = Suc n) ?L))"
    unfolding concat_map_if by (rule concat_map_filter) (use Suc.prems(2) scope_sub_goodbye_item in fastforce)
  have "\<forall>x \<in> D \<union> {x \<in> set ?l. ?q x}. sub_scope s0 x \<longrightarrow> n < length x div 8" using Suc.prems(2) by auto
  from Suc.IH [OF s1(2) this] obtain s2 where s2: "leave_scope_subscriptions a n s1 = Some s2"
    "sub_left s0 a h0 (D \<union> {x \<in> set ?l. ?q x} \<union> {x \<in> set ?L. sub_scope s0 x \<and> 0 < length x div 8 \<and> length x div 8 \<le> n}) s2"
    "lp_out s2 = lp_out s1 @ by_level ?g n ?L" by blast
  have "D \<union> {x \<in> set ?l. ?q x} \<union> {x \<in> set ?L. sub_scope s0 x \<and> 0 < length x div 8 \<and> length x div 8 \<le> n} =
      D \<union> {x \<in> set ?L. sub_scope s0 x \<and> 0 < length x div 8 \<and> length x div 8 \<le> Suc n}" by (auto simp: le_Suc_eq)
  with s2(2) have "sub_left s0 a h0 (D \<union> {x \<in> set ?L. sub_scope s0 x \<and> 0 < length x div 8 \<and> length x div 8 \<le> Suc n}) s2" by simp
  then show ?case using h s1(1,3) s2(1,3) out by simp
qed

text \<open>The four loops. Each leaves the other books alone, so the goodbyes are those of the state before.\<close>

lemma host_pub_entry:
  assumes "lp_inv s" "lp_hosts s a = Some h" "x \<in> set (activePublications h)"
  shows "hm_get (activePublicationIndex s) x \<noteq> None" "0 < length x div 8" "length x div 8 \<le> 256"
proof -
  have "a \<in> ap_hosts (hm_get (activePublicationIndex s) x)"
    using publisher_iff [OF assms(1)] assms(2,3) by (simp add: host_pubs_def)
  then obtain ap where ap: "hm_get (activePublicationIndex s) x = Some ap" by (auto simp: ap_hosts_def split: option.splits)
  have "id_ok x" using inv_ap_ok [OF assms(1) ap] by (simp add: ap_ok_def)
  then show "hm_get (activePublicationIndex s) x \<noteq> None" "0 < length x div 8" "length x div 8 \<le> 256"
    using ap id_ok_ge by (auto simp: id_ok_def div_greater_zero_iff)
qed

lemma host_sub_entry:
  assumes "lp_inv s" "lp_hosts s a = Some h" "x \<in> set (activeSubscriptions h)"
  shows "hm_get (activeSubscriptionIndex s) x \<noteq> None" "0 < length x div 8" "length x div 8 \<le> 256"
proof -
  have "a \<in> as_hosts (hm_get (activeSubscriptionIndex s) x)"
    using subscriber_iff [OF assms(1)] assms(2,3) by (simp add: host_subs_def)
  then obtain as where as: "hm_get (activeSubscriptionIndex s) x = Some as" by (auto simp: as_hosts_def split: option.splits)
  have "id_ok x" using inv_as_ok [OF assms(1) as] by (simp add: as_ok_def)
  then show "hm_get (activeSubscriptionIndex s) x \<noteq> None" "0 < length x div 8" "length x div 8 \<le> 256"
    using as id_ok_ge by (auto simp: id_ok_def div_greater_zero_iff)
qed

lemma item_publications_leave:
  assumes "lp_inv s" "lp_hosts s a = Some h"
  shows "\<exists>s'. deleteAllActiveInformationItemPublications a s = Some s' \<and>
    pub_left s a h {x \<in> set (activePublications h). \<not> pub_scope s x} s' \<and>
    lp_out s' = lp_out s @ concat (map (item_pub_goodbye s a) (activePublications h))"
proof -
  have step: "\<exists>s'. leave_item_publication a x s1 = Some s' \<and> pub_left s a h (if \<not> pub_scope s x then insert x D else D) s' \<and>
      lp_out s' = lp_out s1 @ item_pub_goodbye s a x"
    if "pub_left s a h D s1" "x \<notin> D" "x \<in> set (activePublications h)" for x D s1
  proof -
    from leave_item_publication_ok [OF that assms] obtain s' ap where
      r: "leave_item_publication a x s1 = Some s'" "hm_get (activePublicationIndex s) x = Some ap"
        "pub_left s a h (if ap_isScope ap then D else insert x D) s'" "lp_out s' = lp_out s1 @ item_pub_goodbye s a x" by blast
    moreover have "pub_scope s x \<longleftrightarrow> ap_isScope ap" using r(2) by (simp add: pub_scope_def)
    ultimately show ?thesis by (cases "ap_isScope ap") simp_all
  qed
  from fold_leaving [where P = "pub_left s a h" and X = "set (activePublications h)" and f = "leave_item_publication a"
      and q = "\<lambda>x. \<not> pub_scope s x" and g = "item_pub_goodbye s a", OF step pub_left_start [OF assms] subset_refl inv_distinct(1) [OF assms]]
  show ?thesis using assms(2) by (auto simp: deleteAllActiveInformationItemPublications_def)
qed

lemma item_subscriptions_leave:
  assumes "lp_inv s" "lp_hosts s a = Some h"
  shows "\<exists>s'. deleteAllActiveInformationItemSubscriptions a s = Some s' \<and>
    sub_left s a h {x \<in> set (activeSubscriptions h). \<not> sub_scope s x} s' \<and>
    lp_out s' = lp_out s @ concat (map (item_sub_goodbye s a) (activeSubscriptions h))"
proof -
  have step: "\<exists>s'. leave_item_subscription a x s1 = Some s' \<and> sub_left s a h (if \<not> sub_scope s x then insert x D else D) s' \<and>
      lp_out s' = lp_out s1 @ item_sub_goodbye s a x"
    if "sub_left s a h D s1" "x \<notin> D" "x \<in> set (activeSubscriptions h)" for x D s1
  proof -
    from leave_subscription_ok(1) [OF that assms] obtain s' as where
      r: "leave_item_subscription a x s1 = Some s'" "hm_get (activeSubscriptionIndex s) x = Some as"
        "sub_left s a h (if as_isScope as then D else insert x D) s'" "lp_out s' = lp_out s1 @ item_sub_goodbye s a x" by blast
    moreover have "sub_scope s x \<longleftrightarrow> as_isScope as" using r(2) by (simp add: sub_scope_def)
    ultimately show ?thesis by (cases "as_isScope as") simp_all
  qed
  from fold_leaving [where P = "sub_left s a h" and X = "set (activeSubscriptions h)" and f = "leave_item_subscription a"
      and q = "\<lambda>x. \<not> sub_scope s x" and g = "item_sub_goodbye s a", OF step sub_left_start [OF assms] subset_refl inv_distinct(2) [OF assms]]
  show ?thesis using assms(2) by (auto simp: deleteAllActiveInformationItemSubscriptions_def)
qed

lemma by_level_filter:
  assumes "\<forall>x \<in> set l. \<not> Q x \<longrightarrow> g x = []"
  shows "by_level g n (filter Q l) = by_level g n l"
proof (induction n)
  case (Suc n)
  have "concat (map g (filter (\<lambda>x. length x div 8 = Suc n) (filter Q l))) = concat (map g (filter (\<lambda>x. length x div 8 = Suc n) l))"
    by (rule concat_map_filter) (use assms in blast)
  then show ?case using Suc by (simp only: by_level.simps)
qed simp

lemma by_level_cong:
  assumes "\<forall>x \<in> set l. g x = g' x"
  shows "by_level g n l = by_level g' n l"
proof (induction n)
  case (Suc n)
  have "map g (filter (\<lambda>x. length x div 8 = Suc n) l) = map g' (filter (\<lambda>x. length x div 8 = Suc n) l)" using assms by simp
  then show ?case using Suc by (simp only: by_level.simps)
qed simp

lemma scope_publications_leave:
  assumes "lp_inv s" "lp_hosts s a = Some h" "\<forall>x \<in> set (activePublications h). pub_scope s x"
  shows "\<exists>s'. deleteAllActiveScopePublications a s = Some s' \<and> pub_left s a h (set (activePublications h)) s' \<and>
    lp_out s' = lp_out s @ by_level (scope_pub_goodbye s a) 256 (activePublications h)"
proof -
  let ?L = "activePublications h" and ?f = "\<lambda>x. map_option ap_isScope (hm_get (activePublicationIndex s) x)"
  note e = host_pub_entry [OF assms(1,2)]
  have "\<forall>x \<in> set ?L. ?f x \<noteq> None" using e(1) by auto
  from max_level_ok [OF this, of 0] obtain m where m: "max_level ?f ?L 0 = Some m"
    "\<forall>x \<in> set ?L. ?f x = Some True \<longrightarrow> length x div 8 \<le> m" "\<forall>k. (\<forall>x \<in> set ?L. length x div 8 \<le> k) \<longrightarrow> m \<le> k" by auto
  have "?f x = Some True" if "x \<in> set ?L" for x using assms(3) that by (auto simp: pub_scope_def)
  then have lev: "\<forall>x \<in> set ?L. length x div 8 \<le> m" using m(2) by blast
  have le: "m \<le> 256" using m(3) e(3) by blast
  from leave_scope_publications_ok [OF assms(1,2) pub_left_start [OF assms(1,2)], of m] obtain s' where
    s': "leave_scope_publications a m s = Some s'" "lp_out s' = lp_out s @ by_level (scope_pub_goodbye s a) m ?L"
    "pub_left s a h ({} \<union> {x \<in> set ?L. pub_scope s x \<and> 0 < length x div 8 \<and> length x div 8 \<le> m}) s'" by auto
  have "{} \<union> {x \<in> set ?L. pub_scope s x \<and> 0 < length x div 8 \<and> length x div 8 \<le> m} = set ?L" using assms(3) e(2) lev by blast
  then have "pub_left s a h (set ?L) s'" using s'(3) by simp
  moreover have "by_level (scope_pub_goodbye s a) 256 ?L = by_level (scope_pub_goodbye s a) m ?L"
    by (rule by_level_more [OF _ le]) (use lev in auto)
  ultimately show ?thesis using s'(1,2) m(1) assms(2) by (simp add: deleteAllActiveScopePublications_def)
qed

lemma scope_subscriptions_leave:
  assumes "lp_inv s" "lp_hosts s a = Some h" "\<forall>x \<in> set (activeSubscriptions h). sub_scope s x"
  shows "\<exists>s'. deleteAllActiveScopeSubscriptions a s = Some s' \<and> sub_left s a h (set (activeSubscriptions h)) s' \<and>
    lp_out s' = lp_out s @ by_level (scope_sub_goodbye s a) 256 (activeSubscriptions h)"
proof -
  let ?L = "activeSubscriptions h" and ?f = "\<lambda>x. map_option as_isScope (hm_get (activeSubscriptionIndex s) x)"
  note e = host_sub_entry [OF assms(1,2)]
  have "\<forall>x \<in> set ?L. ?f x \<noteq> None" using e(1) by auto
  from max_level_ok [OF this, of 0] obtain m where m: "max_level ?f ?L 0 = Some m"
    "\<forall>x \<in> set ?L. ?f x = Some True \<longrightarrow> length x div 8 \<le> m" "\<forall>k. (\<forall>x \<in> set ?L. length x div 8 \<le> k) \<longrightarrow> m \<le> k" by auto
  have "?f x = Some True" if "x \<in> set ?L" for x using assms(3) that by (auto simp: sub_scope_def)
  then have lev: "\<forall>x \<in> set ?L. length x div 8 \<le> m" using m(2) by blast
  have le: "m \<le> 256" using m(3) e(3) by blast
  from leave_scope_subscriptions_ok [OF assms(1,2) sub_left_start [OF assms(1,2)], of m] obtain s' where
    s': "leave_scope_subscriptions a m s = Some s'" "lp_out s' = lp_out s @ by_level (scope_sub_goodbye s a) m ?L"
    "sub_left s a h ({} \<union> {x \<in> set ?L. sub_scope s x \<and> 0 < length x div 8 \<and> length x div 8 \<le> m}) s'" by auto
  have "{} \<union> {x \<in> set ?L. sub_scope s x \<and> 0 < length x div 8 \<and> length x div 8 \<le> m} = set ?L" using assms(3) e(2) lev by blast
  then have "sub_left s a h (set ?L) s'" using s'(3) by simp
  moreover have "by_level (scope_sub_goodbye s a) 256 ?L = by_level (scope_sub_goodbye s a) m ?L"
    by (rule by_level_more [OF _ le]) (use lev in auto)
  ultimately show ?thesis using s'(1,2) m(1) assms(2) by (simp add: deleteAllActiveScopeSubscriptions_def)
qed

lemma delete_host_inv:
  assumes "lp_inv s" "lp_hosts s a = Some h" "activePublications h = []" "activeSubscriptions h = []"
  shows "lp_inv (s\<lparr>local_pub_sub_Index := hm_erase (lh_id h) (local_pub_sub_Index s), lp_hosts := (lp_hosts s)(a := None)\<rparr>)"
    (is "lp_inv ?s")
proof -
  have p: "host_pubs ?s = host_pubs s" "host_subs ?s = host_subs s"
    using assms(2-4) by (auto simp: host_pubs_def host_subs_def fun_eq_iff)
  have ih: "hm_get (local_pub_sub_Index s) i = Some b \<longleftrightarrow> (\<exists>h. lp_hosts s b = Some h \<and> lh_id h = i)" for i b
    using assms(1) by (simp add: lp_inv_def hosts_ok_def)
  have "hm_get (hm_erase (lh_id h) (local_pub_sub_Index s)) i = Some b \<longleftrightarrow>
      (\<exists>h'. ((lp_hosts s)(a := None)) b = Some h' \<and> lh_id h' = i)" for i b
  proof (cases "i = lh_id h")
    case True
    have "hm_get (local_pub_sub_Index s) i = Some a" using ih assms(2) True by auto
    then have "b = a" if "lp_hosts s b = Some h'" "lh_id h' = i" for h' using ih [of i b] that by auto
    then show ?thesis using True by auto
  next
    case False
    then show ?thesis using ih assms(2) by auto
  qed
  moreover have "hm_wf (hm_erase (lh_id h) (local_pub_sub_Index s))" using inv_idx_wf(3) [OF assms(1)] by simp
  ultimately have "hosts_ok ?s" using assms(1) by (auto simp: lp_inv_def hosts_ok_def)
  moreover have "pubs_ok ?s" using assms(1) p(1) unfolding lp_inv_def pubs_ok_def by simp
  moreover have "subs_ok ?s" using assms(1) p(2) unfolding lp_inv_def subs_ok_def by simp
  ultimately show ?thesis using assms(1) by (simp add: lp_inv_def)
qed

definition all_goodbyes :: "local_proxy \<Rightarrow> lh_addr \<Rightarrow> local_host \<Rightarrow> (nat \<times> packet) list" where
  "all_goodbyes s a h = concat (map (item_pub_goodbye s a) (activePublications h)) @
     concat (map (item_sub_goodbye s a) (activeSubscriptions h)) @
     by_level (scope_pub_goodbye s a) 256 (activePublications h) @
     by_level (scope_sub_goodbye s a) 256 (activeSubscriptions h)"

lemma disconnect_aux:
  assumes "lp_inv s" "lp_hosts s a = Some h"
  shows "\<exists>s'. LocalProxy_disconnect a s = Some s' \<and> lp_inv s' \<and> lp_gc s' = lp_gc s \<and>
    lp_hosts s' = (lp_hosts s)(a := None) \<and> local_pub_sub_Index s' = hm_erase (lh_id h) (local_pub_sub_Index s) \<and>
    lp_out s' = lp_out s @ all_goodbyes s a h"
proof -
  let ?P = "activePublications h" and ?S = "activeSubscriptions h"
  let ?DP = "{x \<in> set ?P. \<not> pub_scope s x}" and ?DS = "{x \<in> set ?S. \<not> sub_scope s x}"
  define h1 where "h1 = h\<lparr>activePublications := filter (\<lambda>x. x \<notin> ?DP) ?P\<rparr>"
  define h2 where "h2 = h1\<lparr>activeSubscriptions := filter (\<lambda>x. x \<notin> ?DS) ?S\<rparr>"
  define h3 where "h3 = h2\<lparr>activePublications := []\<rparr>"
  define h4 where "h4 = h3\<lparr>activeSubscriptions := []\<rparr>"
  from item_publications_leave [OF assms] obtain s1 where
    s1: "deleteAllActiveInformationItemPublications a s = Some s1" "pub_left s a h ?DP s1"
      "lp_out s1 = lp_out s @ concat (map (item_pub_goodbye s a) ?P)" by blast
  then have i1: "lp_inv s1" and a1: "lp_hosts s1 a = Some h1" and gc1: "lp_gc s1 = lp_gc s"
    and p1: "\<And>x. x \<notin> ?DP \<Longrightarrow> hm_get (activePublicationIndex s1) x = hm_get (activePublicationIndex s) x"
    and x1: "activeSubscriptionIndex s1 = activeSubscriptionIndex s"
    by (auto simp: pub_left_def lp_frame_def h1_def)
  have S1: "activeSubscriptions h1 = ?S" by (simp add: h1_def)
  from item_subscriptions_leave [OF i1 a1, unfolded S1] obtain s2 where
    s2: "deleteAllActiveInformationItemSubscriptions a s1 = Some s2" "sub_left s1 a h1 {x \<in> set ?S. \<not> sub_scope s1 x} s2"
      "lp_out s2 = lp_out s1 @ concat (map (item_sub_goodbye s1 a) ?S)" by blast
  have D2: "{x \<in> set ?S. \<not> sub_scope s1 x} = ?DS" by (simp add: sub_scope_def x1)
  have g2: "item_sub_goodbye s1 a = item_sub_goodbye s a" by (intro ext) (simp only: item_sub_goodbye_def x1 gc1)
  from s2(2) [unfolded D2] have i2: "lp_inv s2" and a2: "lp_hosts s2 a = Some h2" and gc2: "lp_gc s2 = lp_gc s"
    and p2: "\<And>x. x \<notin> ?DS \<Longrightarrow> hm_get (activeSubscriptionIndex s2) x = hm_get (activeSubscriptionIndex s) x"
    and x2: "activePublicationIndex s2 = activePublicationIndex s1"
    by (auto simp: sub_left_def lp_frame_def h2_def S1 gc1 x1)
  have P2: "activePublications h2 = filter (\<lambda>x. x \<notin> ?DP) ?P" by (simp add: h2_def h1_def)
  have sc2: "\<forall>x \<in> set (activePublications h2). pub_scope s2 x"
    using p1 by (auto simp: P2 pub_scope_def x2)
  from scope_publications_leave [OF i2 a2 sc2] obtain s3 where
    s3: "deleteAllActiveScopePublications a s2 = Some s3" "pub_left s2 a h2 (set (activePublications h2)) s3"
      "lp_out s3 = lp_out s2 @ by_level (scope_pub_goodbye s2 a) 256 (activePublications h2)" by blast
  then have i3: "lp_inv s3" and a3: "lp_hosts s3 a = Some h3" and gc3: "lp_gc s3 = lp_gc s"
    and x3: "activeSubscriptionIndex s3 = activeSubscriptionIndex s2"
    by (auto simp: pub_left_def lp_frame_def h3_def gc2)
  have S3: "activeSubscriptions h3 = filter (\<lambda>x. x \<notin> ?DS) ?S" by (simp add: h3_def h2_def)
  have sc3: "\<forall>x \<in> set (activeSubscriptions h3). sub_scope s3 x"
    using p2 by (auto simp: S3 sub_scope_def x3)
  from scope_subscriptions_leave [OF i3 a3 sc3] obtain s4 where
    s4: "deleteAllActiveScopeSubscriptions a s3 = Some s4" "sub_left s3 a h3 (set (activeSubscriptions h3)) s4"
      "lp_out s4 = lp_out s3 @ by_level (scope_sub_goodbye s3 a) 256 (activeSubscriptions h3)" by blast
  then have i4: "lp_inv s4" and a4: "lp_hosts s4 a = Some h4" and gc4: "lp_gc s4 = lp_gc s"
    by (auto simp: sub_left_def lp_frame_def h4_def gc3)
  have g3: "by_level (scope_pub_goodbye s2 a) 256 (activePublications h2) = by_level (scope_pub_goodbye s a) 256 ?P"
  proof -
    have "by_level (scope_pub_goodbye s2 a) 256 (activePublications h2) = by_level (scope_pub_goodbye s a) 256 (activePublications h2)"
      by (rule by_level_cong) (use p1 in \<open>auto simp: P2 scope_pub_goodbye_def x2 gc2 split: option.splits\<close>)
    also have "\<dots> = by_level (scope_pub_goodbye s a) 256 ?P"
      unfolding P2 by (rule by_level_filter) (use scope_pub_goodbye_item in auto)
    finally show ?thesis .
  qed
  have g4: "by_level (scope_sub_goodbye s3 a) 256 (activeSubscriptions h3) = by_level (scope_sub_goodbye s a) 256 ?S"
  proof -
    have "by_level (scope_sub_goodbye s3 a) 256 (activeSubscriptions h3) = by_level (scope_sub_goodbye s a) 256 (activeSubscriptions h3)"
      by (rule by_level_cong) (use p2 in \<open>auto simp: S3 scope_sub_goodbye_def x3 gc3 split: option.splits\<close>)
    also have "\<dots> = by_level (scope_sub_goodbye s a) 256 ?S"
      unfolding S3 by (rule by_level_filter) (use scope_sub_goodbye_item in auto)
    finally show ?thesis .
  qed
  let ?s = "s4\<lparr>local_pub_sub_Index := hm_erase (lh_id h4) (local_pub_sub_Index s4), lp_hosts := (lp_hosts s4)(a := None)\<rparr>"
  have "LocalProxy_disconnect a s = Some ?s" using s1(1) s2(1) s3(1) s4(1) a4 by (simp add: LocalProxy_disconnect_def)
  moreover have "lp_inv ?s" by (rule delete_host_inv [OF i4 a4]) (simp_all add: h4_def h3_def)
  moreover have "lh_id h4 = lh_id h" by (simp add: h4_def h3_def h2_def h1_def)
  moreover have "local_pub_sub_Index s4 = local_pub_sub_Index s"
    using s1(2) s2(2) s3(2) s4(2) by (simp add: pub_left_def sub_left_def lp_frame_def)
  moreover have "(lp_hosts s4)(a := None) = (lp_hosts s)(a := None)"
    using s1(2) s2(2) s3(2) s4(2) by (auto simp: pub_left_def sub_left_def fun_eq_iff)
  moreover have "lp_out s4 = lp_out s @ all_goodbyes s a h"
    using s1(3) s2(3) s3(3) s4(3) g2 g3 g4 by (simp add: all_goodbyes_def)
  ultimately show ?thesis using gc4 by simp
qed

end
