(* ===== verification/BA_LocalProxy_Safe.thy ===== *)
theory BA_LocalProxy_Safe
  imports BA_LocalProxy_Leave
begin

text \<open>
  The packets the dispatcher accepts, its runs, and its properties: where requests, data and
  notifications go, what a disconnection leaves behind, and where the code reads too far.
\<close>

subsection \<open>The sender of a packet\<close>

definition sender_type :: "nat \<Rightarrow> nat" where
  "sender_type in_port = (if in_port = 0 then LOCAL_PROCESS else CLICK_ELEMENT)"

definition sender_id :: "nat \<Rightarrow> packet \<Rightarrow> 32 word" where
  "sender_id in_port p = (if in_port = 0 then (case pk_anno p of Some i \<Rightarrow> i | None \<Rightarrow> 0) else word_of_nat in_port)"

definition sender :: "nat \<Rightarrow> packet \<Rightarrow> local_proxy \<Rightarrow> lh_addr" where
  "sender in_port p s = fst (getLocalHost (sender_type in_port) (sender_id in_port p) s)"

lemma LocalProxy_push_app:
  "in_port \<noteq> 2 \<Longrightarrow> LocalProxy_push in_port p s = (let (a, s) = getLocalHost (sender_type in_port) (sender_id in_port p) s in
     do { type \<leftarrow> rd8 p 0;
       if type = DISCONNECT then LocalProxy_disconnect a s
       else if type = PUBLISH_DATA then push_data a p s
       else push_request type a p s })"
  by (simp add: LocalProxy_push_def sender_type_def sender_id_def split: prod.splits)

lemma index_host: "lp_inv s \<Longrightarrow> hm_get (local_pub_sub_Index s) i = Some a \<longleftrightarrow> (\<exists>h. lp_hosts s a = Some h \<and> lh_id h = i)"
  by (simp add: lp_inv_def hosts_ok_def)

lemma getLocalHost_ok:
  assumes "lp_inv s" "getLocalHost t i s = (a, s')"
  shows "lp_inv s'" "host_pubs s' = host_pubs s" "host_subs s' = host_subs s" "lp_out s' = lp_out s" "lp_gc s' = lp_gc s"
    "activePublicationIndex s' = activePublicationIndex s" "activeSubscriptionIndex s' = activeSubscriptionIndex s"
    "\<exists>h. lp_hosts s' a = Some h \<and> lh_id h = i" "\<And>b. live_host s b \<Longrightarrow> lp_hosts s' b = lp_hosts s b"
    "live_host s' a"
proof -
  have *: "lp_inv s' \<and> host_pubs s' = host_pubs s \<and> host_subs s' = host_subs s \<and> lp_out s' = lp_out s \<and> lp_gc s' = lp_gc s \<and>
    activePublicationIndex s' = activePublicationIndex s \<and> activeSubscriptionIndex s' = activeSubscriptionIndex s \<and>
    (\<exists>h. lp_hosts s' a = Some h \<and> lh_id h = i) \<and> (\<forall>b. live_host s b \<longrightarrow> lp_hosts s' b = lp_hosts s b)"
  proof (cases "hm_get (local_pub_sub_Index s) i")
    case (Some b)
    then have "a = b" "s' = s" using assms(2) by (simp_all add: getLocalHost_def)
    then show ?thesis using assms(1) index_host [OF assms(1), of i b] Some by simp
  next
    case None
    let ?a = "lp_next s"
    let ?s = "s\<lparr>lp_hosts := (lp_hosts s)(?a \<mapsto> LocalHost_new t i), lp_next := Suc ?a,
      local_pub_sub_Index := hm_set i ?a (local_pub_sub_Index s)\<rparr>"
    have e: "a = ?a" "s' = ?s" using assms(2) None unfolding getLocalHost_def Let_def by auto
    have lt: "lp_hosts s b = Some h \<Longrightarrow> b < ?a" for b h using assms(1) by (auto simp: lp_inv_def hosts_ok_def)
    have fresh: "lp_hosts s ?a = None" using lt [of ?a] by (cases "lp_hosts s ?a") auto
    have b: "host_pubs ?s = host_pubs s" "host_subs ?s = host_subs s"
      using fresh by (auto simp: host_pubs_def host_subs_def LocalHost_new_def fun_eq_iff)
    have "hosts_ok ?s"
    proof -
      have "hm_get (hm_set i ?a (local_pub_sub_Index s)) j = Some b \<longleftrightarrow>
          (\<exists>h. ((lp_hosts s)(?a \<mapsto> LocalHost_new t i)) b = Some h \<and> lh_id h = j)" for j b
        using index_host [OF assms(1), of j b] index_host [OF assms(1), of i b] None fresh
        by (auto simp: LocalHost_new_def)
      moreover have "hm_wf (hm_set i ?a (local_pub_sub_Index s))" using inv_idx_wf(3) [OF assms(1)] by simp
      moreover have "b < Suc ?a \<and> distinct (activePublications h) \<and> distinct (activeSubscriptions h)"
        if "((lp_hosts s)(?a \<mapsto> LocalHost_new t i)) b = Some h" for b h
        using that lt inv_distinct [OF assms(1)] by (fastforce simp: LocalHost_new_def split: if_splits)
      ultimately show ?thesis by (simp add: hosts_ok_def)
    qed
    moreover have "pubs_ok ?s" "subs_ok ?s" using assms(1) b unfolding lp_inv_def pubs_ok_def subs_ok_def by simp_all
    ultimately have "lp_inv ?s" using assms(1) by (simp add: lp_inv_def)
    then show ?thesis using e b fresh by (auto simp: LocalHost_new_def live_host_def)
  qed
  then show "lp_inv s'" "host_pubs s' = host_pubs s" "host_subs s' = host_subs s" "lp_out s' = lp_out s" "lp_gc s' = lp_gc s"
    "activePublicationIndex s' = activePublicationIndex s" "activeSubscriptionIndex s' = activeSubscriptionIndex s"
    "\<exists>h. lp_hosts s' a = Some h \<and> lh_id h = i" "\<And>b. live_host s b \<Longrightarrow> lp_hosts s' b = lp_hosts s b" by blast+
  then show "live_host s' a" by (auto simp: live_host_def)
qed

subsection \<open>Requests\<close>

definition request_RVFID :: "globalconf \<Rightarrow> byte \<Rightarrow> bitvec" where
  "request_RVFID gc strategy = (if strategy = DOMAIN_LOCAL then defaultRV_dl gc else \<lparr>bv_max = 255, bv_data = replicate 8 0\<rparr>)"

lemma request_RVFID_fid: "gc_wf gc \<Longrightarrow> is_fid (request_RVFID gc strategy)"
  by (simp add: request_RVFID_def gc_wf_def) (simp add: is_fid_def)

lemma request_fullID_ok:
  assumes "short_id ID" "short_id prefixID" "ID \<noteq> [] \<or> prefixID \<noteq> []"
  shows "id_ok (request_fullID ID prefixID)"
proof (cases "ID = []")
  case True
  have "substring (- 8) 8 ([] :: bstr) = []" by (simp add: substring_def)
  then show ?thesis using True assms by (auto simp: request_fullID_def id_ok_def short_id_def)
next
  case False
  then have "8 \<le> length ID" using assms(1) by (auto simp: short_id_def intro: dvd_imp_le)
  then have "length (request_fullID ID prefixID) = length prefixID + 8"
    using last_fragment_eq [of ID] by (auto simp: request_fullID_def last_fragment_def)
  moreover have "length prefixID \<le> 2040" using assms(2) by (auto simp: short_id_def elim!: dvdE)
  ultimately show ?thesis using assms(2) by (auto simp: id_ok_def short_id_def)
qed

lemma push_request_eq:
  assumes "pk_data p = cells (app_request type ID prefixID strategy) @ ys" "short_id ID" "short_id prefixID"
  shows "push_request type a p s = do {
     (forward, s') \<leftarrow> handleLocalRequest type a ID prefixID strategy (request_RVFID (lp_gc s) strategy) s;
     if forward then publishReqToRV p (request_RVFID (lp_gc s) strategy) s' else Some s' }"
proof -
  let ?l = "\<lambda>x. u8 (length x div 8)"
  have d: "pk_data p = cells ([type, ?l ID] @ ID @ [?l prefixID] @ prefixID @ [strategy]) @ ys"
    using assms(1) by (simp add: app_request_def id_bytes_def)
  note u = short_id_u8 [OF assms(2)] short_id_u8 [OF assms(3)]
  have r1: "rd8 p 1 = Some (?l ID)" by (rule rd8_skip [of p "[type]"]) (simp_all add: d)
  have r2: "rdn p 2 (length ID) = Some ID" by (rule rdn_skip [of p "[type, ?l ID]"]) (simp_all add: d)
  have r3: "rd8 p (2 + length ID) = Some (?l prefixID)" by (rule rd8_skip [of p "[type, ?l ID] @ ID"]) (simp_all add: d)
  have r4: "rdn p (3 + length ID) (length prefixID) = Some prefixID"
    by (rule rdn_skip [of p "[type, ?l ID] @ ID @ [?l prefixID]"]) (simp_all add: d)
  have r5: "rd8 p (3 + length ID + length prefixID) = Some strategy"
    by (rule rd8_skip [of p "[type, ?l ID] @ ID @ [?l prefixID] @ prefixID"]) (simp_all add: d)
  show ?thesis
    unfolding push_request_def r1 Option.bind.simps u r2 r3 r4 r5 bv_new_fid_len Let_def request_RVFID_def by (rule refl)
qed

lemma request_push_aux:
  assumes "lp_inv s" "in_port \<noteq> 2" "pk_data p = cells (app_request type ID prefixID strategy) @ ys"
    and "short_id ID" "short_id prefixID" "ID \<noteq> [] \<or> prefixID \<noteq> []" "type \<noteq> DISCONNECT" "type \<noteq> PUBLISH_DATA"
  shows "\<exists>s'. LocalProxy_push in_port p s = Some s' \<and> lp_inv s' \<and> lp_gc s' = lp_gc s \<and>
    (let a = sender in_port p s; x = request_fullID ID prefixID in
       host_pubs s' = (if accepts_pub s x strategy then books_pub type a x (host_pubs s) else host_pubs s) \<and>
       host_subs s' = (if accepts_sub s x strategy then books_sub type a x (host_subs s) else host_subs s) \<and>
       lp_out s' = lp_out s @
         (if node_pubs s' \<noteq> node_pubs s \<or> node_subs s' \<noteq> node_subs s \<and> forwards_subscription strategy
          then [rv_out (lp_gc s) (request_RVFID (lp_gc s) strategy) p] else []))"
proof -
  obtain a s1 where g: "getLocalHost (sender_type in_port) (sender_id in_port p) s = (a, s1)" by force
  note ok = getLocalHost_ok [OF assms(1) g]
  have a: "sender in_port p s = a" using g by (simp add: sender_def)
  have t: "rd8 p 0 = Some type" by (rule rd8_skip [of p "[]"]) (simp_all add: assms(3) app_request_def)
  let ?x = "request_fullID ID prefixID" and ?fid = "request_RVFID (lp_gc s) strategy"
  note fid = request_RVFID_fid [OF inv_gc [OF assms(1)], of strategy]
  have acc: "accepts_pub s1 ?x strategy = accepts_pub s ?x strategy" "accepts_sub s1 ?x strategy = accepts_sub s ?x strategy"
    using ok(6,7) by (simp_all add: accepts_pub_def accepts_sub_def)
  note np = node_cong(1) [OF ok(2)] and ns = node_cong(2) [OF ok(3)]
  from handleLocalRequest_ok [OF ok(1,10) refl request_fullID_ok [OF assms(4-6)] fid, of type strategy, unfolded acc ok(2,3,4) np ns]
  obtain b s2 where h: "handleLocalRequest type a ID prefixID strategy ?fid s1 = Some (b, s2)" "lp_inv s2" "lp_out s2 = lp_out s"
    "lp_frame s1 s2" and
    books: "host_pubs s2 = (if accepts_pub s ?x strategy then books_pub type a ?x (host_pubs s) else host_pubs s)"
      "host_subs s2 = (if accepts_sub s ?x strategy then books_sub type a ?x (host_subs s) else host_subs s)" and
    b: "b \<longleftrightarrow> node_pubs s2 \<noteq> node_pubs s \<or> (node_subs s2 \<noteq> node_subs s \<and> forwards_subscription strategy)" by blast
  have gc: "lp_gc s2 = lp_gc s" using h(4) ok(5) by (simp add: lp_frame_def)
  have push: "LocalProxy_push in_port p s = (if b then publishReqToRV p ?fid s2 else Some s2)"
    using LocalProxy_push_app [OF assms(2), of p s] g t assms(7,8) push_request_eq [OF assms(3-5), of a s1] h(1) ok(5) by simp
  define s3 where "s3 = (if b then s2\<lparr>lp_out := lp_out s @ [rv_out (lp_gc s) ?fid p]\<rparr> else s2)"
  have r: "LocalProxy_push in_port p s = Some s3"
    using push publishReqToRV_eq [of s2 ?fid p] fid gc h(3) inv_gc [OF h(2)] by (cases b) (simp_all add: s3_def)
  have s3: "lp_inv s3" "lp_gc s3 = lp_gc s" "host_pubs s3 = host_pubs s2" "host_subs s3 = host_subs s2"
    "lp_out s3 = lp_out s @ (if b then [rv_out (lp_gc s) ?fid p] else [])"
    using h(2,3) gc by (simp_all add: s3_def)
  show ?thesis unfolding Let_def a
    by (rule exI [of _ s3], intro conjI r s3(1,2))
      (simp_all only: s3(3-5) books node_cong(1) [OF s3(3)] node_cong(2) [OF s3(4)] b)
qed

subsection \<open>Data from the network and from applications\<close>

lemma pk_pull_prefix: "pk_data p = cells pre @ ys \<Longrightarrow> n = length pre \<Longrightarrow> pk_pull n p = Some (p\<lparr>pk_data := ys\<rparr>)"
  by (simp add: pk_pull_def)

lemma push_network_eq:
  assumes "pk_data p = cells (net_bytes IDs) @ ys" "ids_ok IDs"
  shows "LocalProxy_push 2 p s = (if IDs = [notificationIID (lp_gc s)] then handleRVNotification (p\<lparr>pk_data := ys\<rparr>) s
     else handleNetworkPublication IDs (p\<lparr>pk_data := ys\<rparr>) s)"
proof -
  have n: "rd8 p 0 = Some (u8 (length IDs))" by (rule rd8_skip [of p "[]"]) (simp_all add: assms(1) net_bytes_def)
  have r: "read_ids (unat (u8 (length IDs))) p 1 = Some (IDs, 1 + length (ids_bytes IDs))"
    using read_ids_bytes [of IDs p "[u8 (length IDs)]" ys] assms ids_ok_u8 [OF assms(2)] by (simp add: ids_ok_def net_bytes_def)
  have q: "pk_pull (1 + length (ids_bytes IDs)) p = Some (p\<lparr>pk_data := ys\<rparr>)"
    by (rule pk_pull_prefix [OF assms(1)]) (simp add: net_bytes_def)
  have "length IDs = 1 \<and> IDs ! 0 = notificationIID (lp_gc s) \<longleftrightarrow> IDs = [notificationIID (lp_gc s)]"
    by (cases IDs) auto
  then show ?thesis unfolding LocalProxy_push_def push_network_def n Option.bind.simps r prod.case q by simp
qed

definition own_fid :: "byte \<Rightarrow> bool" where
  "own_fid strategy \<longleftrightarrow> strategy = IMPLICIT_RENDEZVOUS \<or> strategy = LINK_LOCAL"

lemma push_data_eq:
  assumes "pk_data p = cells (app_data x strategy fid) @ ys" "short_id x"
    and "length fid = (if own_fid strategy then FID_LEN else 0)"
  shows "push_data a p s = (let q = p\<lparr>pk_data := ys\<rparr> in
     if strategy = IMPLICIT_RENDEZVOUS \<and> x = notificationIID (lp_gc s) then handleRVNotification q s
     else if own_fid strategy then handleUserPublicationFID x (fid_of_bytes fid) q a s
     else if strategy = BROADCAST_IF then handleUserPublicationFID x (bv_negate \<lparr>bv_max = 255, bv_data = replicate 8 0\<rparr>) q a s
     else handleUserPublication x q a s)"
proof -
  let ?l = "u8 (length x div 8)"
  have d: "pk_data p = cells ([PUBLISH_DATA, ?l] @ x @ [strategy] @ fid) @ ys"
    using assms(1) by (simp add: app_data_def id_bytes_def)
  note u = short_id_u8 [OF assms(2)]
  have r1: "rd8 p 1 = Some ?l" by (rule rd8_skip [of p "[PUBLISH_DATA]"]) (simp_all add: d)
  have r2: "rdn p 2 (length x) = Some x" by (rule rdn_skip [of p "[PUBLISH_DATA, ?l]"]) (simp_all add: d)
  have r3: "rd8 p (2 + length x) = Some strategy" by (rule rd8_skip [of p "[PUBLISH_DATA, ?l] @ x"]) (simp_all add: d)
  have r4: "rdn p (3 + length x) (length fid) = Some fid"
    by (rule rdn_skip [of p "[PUBLISH_DATA, ?l] @ x @ [strategy]"]) (simp_all add: d)
  have q: "pk_pull (3 + length x + length fid) p = Some (p\<lparr>pk_data := ys\<rparr>)"
    by (rule pk_pull_prefix [OF d]) simp
  have own: "rdn p (3 + length x) FID_LEN = Some fid" "pk_pull (3 + length x + FID_LEN) p = Some (p\<lparr>pk_data := ys\<rparr>)" if "own_fid strategy"
    using r4 q assms(3) that by simp_all
  have other: "pk_pull (3 + length x) p = Some (p\<lparr>pk_data := ys\<rparr>)" if "\<not> own_fid strategy" using q assms(3) that by simp
  show ?thesis
  proof (cases "own_fid strategy")
    case True
    then show ?thesis unfolding push_data_def r1 Option.bind.simps u r2 r3
      using own [OF True] by (auto simp: own_fid_def)
  next
    case False
    then show ?thesis unfolding push_data_def r1 Option.bind.simps u r2 r3 bv_new_fid_len
      using other [OF False] by (auto simp: own_fid_def)
  qed
qed

lemma broadcast_fid: "is_fid (bv_negate \<lparr>bv_max = 255, bv_data = replicate 8 0\<rparr>)"
  by code_simp

subsection \<open>Acceptable packets\<close>

text \<open>
  A packet of the network carries identifiers, a packet of an application or element is a
  disconnection, published data or a request for a non-empty identifier; and a notification in
  either is well formed.
\<close>

definition network_packet_ok :: "globalconf \<Rightarrow> packet \<Rightarrow> bool" where
  "network_packet_ok gc p \<longleftrightarrow> (\<exists>IDs ys. ids_ok IDs \<and> pk_data p = cells (net_bytes IDs) @ ys \<and>
     (IDs = [notificationIID gc] \<longrightarrow> note_ok ys))"

definition data_packet_ok :: "globalconf \<Rightarrow> packet \<Rightarrow> bool" where
  "data_packet_ok gc p \<longleftrightarrow> (\<exists>x strategy fid ys. short_id x \<and> pk_data p = cells (app_data x strategy fid) @ ys \<and>
     length fid = (if own_fid strategy then FID_LEN else 0) \<and>
     (strategy = IMPLICIT_RENDEZVOUS \<and> x = notificationIID gc \<longrightarrow> note_ok ys))"

definition request_packet_ok :: "packet \<Rightarrow> bool" where
  "request_packet_ok p \<longleftrightarrow> (\<exists>type ID prefixID strategy ys. type \<noteq> DISCONNECT \<and> type \<noteq> PUBLISH_DATA \<and>
     short_id ID \<and> short_id prefixID \<and> (ID \<noteq> [] \<or> prefixID \<noteq> []) \<and>
     pk_data p = cells (app_request type ID prefixID strategy) @ ys)"

definition disconnect_packet :: "packet \<Rightarrow> bool" where
  "disconnect_packet p \<longleftrightarrow> (\<exists>ys. pk_data p = cells [DISCONNECT] @ ys)"

definition lp_event_ok :: "nat \<times> packet \<Rightarrow> local_proxy \<Rightarrow> bool" where
  "lp_event_ok e s \<longleftrightarrow> (case e of (in_port, p) \<Rightarrow>
     if in_port = 2 then network_packet_ok (lp_gc s) p
     else disconnect_packet p \<or> data_packet_ok (lp_gc s) p \<or> request_packet_ok p)"

definition lp_step :: "nat \<times> packet \<Rightarrow> local_proxy \<Rightarrow> local_proxy option" where
  "lp_step e s = LocalProxy_push (fst e) (snd e) s"

lemma disconnect_push_aux:
  assumes "lp_inv s" "in_port \<noteq> 2" "disconnect_packet p"
    and "getLocalHost (sender_type in_port) (sender_id in_port p) s = (a, s1)" "lp_hosts s1 a = Some h"
  shows "\<exists>s'. LocalProxy_push in_port p s = Some s' \<and> lp_inv s' \<and> lp_gc s' = lp_gc s \<and>
    lp_hosts s' = (lp_hosts s1)(a := None) \<and> local_pub_sub_Index s' = hm_erase (lh_id h) (local_pub_sub_Index s1) \<and>
    lp_out s' = lp_out s @ all_goodbyes s1 a h"
proof -
  note ok = getLocalHost_ok [OF assms(1,4)]
  obtain ys where d: "pk_data p = cells [DISCONNECT] @ ys" using assms(3) by (auto simp: disconnect_packet_def)
  have t: "rd8 p 0 = Some DISCONNECT" by (rule rd8_skip [of p "[]"]) (simp_all add: d)
  from disconnect_aux [OF ok(1) assms(5)] show ?thesis
    using LocalProxy_push_app [OF assms(2), of p s] assms(4) t ok(4,5) by simp
qed

lemma data_push_eq:
  assumes "lp_inv s" "in_port \<noteq> 2" "pk_data p = cells (app_data x strategy fid) @ ys"
    and "getLocalHost (sender_type in_port) (sender_id in_port p) s = (a, s1)"
  shows "LocalProxy_push in_port p s = push_data a p s1"
proof -
  have t: "rd8 p 0 = Some PUBLISH_DATA" by (rule rd8_skip [of p "[]"]) (simp_all add: assms(3) app_data_def)
  show ?thesis using LocalProxy_push_app [OF assms(2), of p s] assms(4) t by simp
qed

lemma lp_safe_step:
  assumes "lp_inv s" "lp_event_ok e s"
  shows "\<exists>s'. lp_step e s = Some s' \<and> lp_inv s'"
proof -
  obtain in_port p where e: "e = (in_port, p)" by (cases e)
  have nt: "\<exists>s'. handleRVNotification q s = Some s' \<and> lp_inv s'" if "note_ok (pk_data q)" "lp_inv s" for q s
    using handleRVNotification_ok [OF that(2,1)] by (auto simp: keeps_books_def)
  show ?thesis
  proof (cases "in_port = 2")
    case True
    then obtain IDs ys where d: "ids_ok IDs" "pk_data p = cells (net_bytes IDs) @ ys" "IDs = [notificationIID (lp_gc s)] \<longrightarrow> note_ok ys"
      using assms(2) e by (auto simp: lp_event_ok_def network_packet_ok_def)
    show ?thesis using push_network_eq [OF d(2,1), of s] nt [of "p\<lparr>pk_data := ys\<rparr>" s] d(3) assms(1) True e
        handleNetworkPublication_ok [OF assms(1), of IDs "p\<lparr>pk_data := ys\<rparr>"]
      by (auto simp: lp_step_def)
  next
    case False
    obtain a s1 where g: "getLocalHost (sender_type in_port) (sender_id in_port p) s = (a, s1)" by force
    note ok = getLocalHost_ok [OF assms(1) g]
    from assms(2) e False consider "disconnect_packet p" | "data_packet_ok (lp_gc s) p" | "request_packet_ok p"
      by (auto simp: lp_event_ok_def)
    then show ?thesis
    proof cases
      case 1
      from ok(8) obtain h where "lp_hosts s1 a = Some h" by blast
      from disconnect_push_aux [OF assms(1) False 1 g this] show ?thesis using e by (auto simp: lp_step_def)
    next
      case 2
      then obtain x strategy fid ys where d: "short_id x" "pk_data p = cells (app_data x strategy fid) @ ys"
        "length fid = (if own_fid strategy then FID_LEN else 0)"
        "strategy = IMPLICIT_RENDEZVOUS \<and> x = notificationIID (lp_gc s1) \<longrightarrow> note_ok ys"
        using ok(5) by (auto simp: data_packet_ok_def)
      let ?q = "p\<lparr>pk_data := ys\<rparr>"
      have fid: "is_fid (fid_of_bytes fid)" if "own_fid strategy" using fid_of_bytes_fid d(3) that by simp
      have up: "\<exists>s'. handleUserPublication x ?q a s1 = Some s' \<and> lp_inv s'"
        using handleUserPublication_ok [OF ok(1), of x ?q a] ok(1) by (auto split: option.splits prod.splits)
      have upf: "\<exists>s'. handleUserPublicationFID x f ?q a s1 = Some s' \<and> lp_inv s'" if "is_fid f" for f
        using handleUserPublicationFID_ok [OF ok(1) that, of x a ?q] ok(1) by auto
      have "\<exists>s'. push_data a p s1 = Some s' \<and> lp_inv s'"
        unfolding push_data_eq [OF d(2,1,3)] Let_def
        using nt [of ?q s1] d(4) ok(1) up upf [OF fid] upf [OF broadcast_fid] by auto
      then show ?thesis using data_push_eq [OF assms(1) False d(2) g] e by (simp add: lp_step_def)
    next
      case 3
      then obtain type ID prefixID strategy ys where d: "pk_data p = cells (app_request type ID prefixID strategy) @ ys"
        "short_id ID" "short_id prefixID" "ID \<noteq> [] \<or> prefixID \<noteq> []" "type \<noteq> DISCONNECT" "type \<noteq> PUBLISH_DATA"
        unfolding request_packet_ok_def by blast
      from request_push_aux [OF assms(1) False d] obtain s' where "LocalProxy_push in_port p s = Some s'" "lp_inv s'" by blast
      then show ?thesis using e by (simp add: lp_step_def)
    qed
  qed
qed

interpretation lpe: element lp_step lp_event_ok lp_inv
  by unfold_locales (rule lp_safe_step)

lemma configure_inv: "gc_wf gc \<Longrightarrow> lp_inv (LocalProxy_configure gc)"
  by (simp add: lp_inv_def hosts_ok_def pubs_ok_def subs_ok_def LocalProxy_configure_def host_pubs_def host_subs_def
      ap_hosts_def as_hosts_def)

text \<open>The clean-up frees every host once.\<close>

lemma cleanup_hosts:
  assumes "distinct (map snd m)" "\<forall>e \<in> set m. live_host s (snd e)"
  shows "fold_opt (\<lambda>(_, a). delete_host a) m s =
    Some (s\<lparr>lp_hosts := (\<lambda>a. if a \<in> snd ` set m then None else lp_hosts s a)\<rparr>)"
  using assms
proof (induction m arbitrary: s)
  case (Cons e m)
  obtain i a where e: "e = (i, a)" by (cases e)
  have "delete_host a s = Some (s\<lparr>lp_hosts := (lp_hosts s)(a := None)\<rparr>)"
    using Cons.prems(2) e by (auto simp: delete_host_def live_host_def)
  moreover have "\<forall>e \<in> set m. live_host (s\<lparr>lp_hosts := (lp_hosts s)(a := None)\<rparr>) (snd e)"
    using Cons.prems e by (auto simp: live_host_def image_iff)
  ultimately show ?case using Cons.IH [of "s\<lparr>lp_hosts := (lp_hosts s)(a := None)\<rparr>"] Cons.prems(1) e
    by (auto simp: fun_eq_iff intro!: local_proxy.equality)
qed simp

lemma cleanup_aux:
  assumes "lp_inv s"
  shows "\<exists>t. LocalProxy_cleanup True s = Some t \<and> lp_hosts t = (\<lambda>_. None) \<and> local_pub_sub_Index t = [] \<and>
    activePublicationIndex t = [] \<and> activeSubscriptionIndex t = []"
proof -
  let ?m = "local_pub_sub_Index s"
  note wf = inv_idx_wf(3) [OF assms]
  have get: "(\<exists>h. lp_hosts s a = Some h \<and> lh_id h = i)" if "(i, a) \<in> set ?m" for i a
    using index_host [OF assms] hm_in_get [OF wf that] by blast
  have "inj_on snd (set ?m)"
  proof (rule inj_onI)
    fix e e' assume "e \<in> set ?m" "e' \<in> set ?m" "snd e = snd e'"
    moreover obtain i a where "e = (i, a)" by (cases e)
    moreover obtain j b where "e' = (j, b)" by (cases e')
    ultimately show "e = e'" using get [of i a] get [of j b] by auto
  qed
  then have "distinct (map snd ?m)" using wf by (auto simp: hm_wf_def distinct_map)
  moreover have "\<forall>e \<in> set ?m. live_host s (snd e)" using get by (force simp: live_host_def)
  ultimately have f: "fold_opt (\<lambda>(_, a). delete_host a) ?m s =
      Some (s\<lparr>lp_hosts := (\<lambda>a. if a \<in> snd ` set ?m then None else lp_hosts s a)\<rparr>)" by (rule cleanup_hosts)
  have "a \<in> snd ` set ?m" if "lp_hosts s a = Some h" for a h
    using index_host [OF assms, of "lh_id h" a] that by (force dest: hm_get_in)
  then have "(if a \<in> snd ` set ?m then None else lp_hosts s a) = None" for a by (cases "lp_hosts s a") auto
  then have "(\<lambda>a. if a \<in> snd ` set ?m then None else lp_hosts s a) = (\<lambda>_. None)" by blast
  then show ?thesis using f by (simp add: LocalProxy_cleanup_def)
qed

lemma known_sender:
  assumes "hm_get (local_pub_sub_Index s) (sender_id in_port p) = Some a"
  shows "getLocalHost (sender_type in_port) (sender_id in_port p) s = (a, s)" "sender in_port p s = a"
  using assms by (simp_all add: getLocalHost_def sender_def)

lemma audience_sets:
  assumes "audience s IDs E m"
  shows "distinct (map fst m)" "fst ` set m = {a. a \<notin> E \<and> (\<exists>x \<in> set IDs. wants s a x)}"
    "\<forall>(a, x) \<in> set m. x \<in> set IDs \<and> wants s a x"
  using assms audience_keys [OF assms] audience_live(2,3) [OF assms]
  by (auto simp: audience_def hm_wf_def)

lemma ap_hosts_at: "ap_hosts (hm_get (activePublicationIndex s) x) = fst ` set (publishers_at s x)"
  by (simp add: ap_hosts_def publishers_at_def split: option.splits)

lemma one_started: "lp_inv s \<Longrightarrow> length (started (publishers_at s x)) \<le> 1"
  using inv_ap_ok [of s x] by (auto simp: publishers_at_def ap_ok_def split: option.splits)

subsection \<open>A notified publisher that leaves\<close>

lemma unpublish_silent_aux:
  assumes "lp_inv s" "in_port \<noteq> 2" "hm_get (local_pub_sub_Index s) (sender_id in_port p) = Some a"
    and "pk_data p = cells (app_request UNPUBLISH_INFO ID prefixID strategy) @ ys" "short_id ID" "short_id prefixID"
    and "x = request_fullID ID prefixID" "hm_get (publishers_at s x) a = Some START_PUBLISH" "b \<noteq> a"
    and "b \<in> fst ` set (publishers_at s x)" "accepts_pub s x strategy" "ID \<noteq> [] \<or> prefixID \<noteq> []"
  shows "\<exists>s'. LocalProxy_push in_port p s = Some s' \<and> lp_inv s' \<and> lp_out s' = lp_out s \<and>
    b \<in> fst ` set (publishers_at s' x) \<and> started (publishers_at s' x) = []"
proof -
  obtain ap where ap: "hm_get (activePublicationIndex s) x = Some ap" and pu: "publishers_at s x = ap_publishers ap"
    using assms(8) by (auto simp: publishers_at_def split: option.splits)
  obtain h where h: "lp_hosts s a = Some h" using index_host [OF assms(1)] assms(3) by blast
  have acc: "rv_strategy strategy" "ap_strategy ap = strategy" using assms(11) ap by (simp_all add: accepts_pub_def)
  have ne: "hm_erase a (ap_publishers ap) \<noteq> []" using assms(9,10) pu by (auto simp: hm_erase_Nil_iff)
  let ?s = "set_pub a (hs_erase x (activePublications h))
    (hm_set x (ap\<lparr>ap_publishers := hm_erase a (ap_publishers ap)\<rparr>) (activePublicationIndex s)) s"
  have r: "removeActivePublication a x strategy s = Some (False, ?s)"
    using removeActivePublication_eq [OF h, of x strategy] ap acc ne by (simp add: Let_def)
  have i: "lp_inv ?s"
    by (rule leave_pub [OF assms(1) h ap, of "ap\<lparr>ap_publishers := hm_erase a (ap_publishers ap)\<rparr>"])
      (use ap_ok_erase [OF inv_ap_ok [OF assms(1) ap] ne] ne in \<open>simp_all add: fst_hm_erase\<close>)
  have t: "rd8 p 0 = Some UNPUBLISH_INFO" by (rule rd8_skip [of p "[]"]) (simp_all add: assms(4) app_request_def)
  have "LocalProxy_push in_port p s = Some ?s"
    using LocalProxy_push_app [OF assms(2), of p s] known_sender(1) [OF assms(3)] t push_request_eq [OF assms(4-6), of a s] r
    by (simp add: handleLocalRequest_def Let_def assms(7) [symmetric])
  moreover have "publishers_at ?s x = hm_erase a (publishers_at s x)" by (simp add: publishers_at_def ap)
  moreover have "started (hm_erase a (publishers_at s x)) = []"
    using started_erase [of "ap_publishers ap" a] assms(8) inv_ap_ok [OF assms(1) ap] pu by (simp add: ap_ok_def)
  moreover have "b \<in> fst ` set (hm_erase a (publishers_at s x))" using assms(9,10) by (simp add: fst_hm_erase)
  ultimately show ?thesis using i by auto
qed

subsection \<open>Reading past a notification\<close>

lemma read_ids_bound: "read_ids n p i = Some (xs, j) \<Longrightarrow> i + n \<le> j \<and> (0 < n \<longrightarrow> j \<le> length (pk_data p))"
proof (induction n arbitrary: i xs j)
  case (Suc n)
  then obtain l y ys where r: "rd8 p i = Some l" "rdn p (i + 1) (unat l * 8) = Some y"
    "read_ids n p (i + 1 + unat l * 8) = Some (ys, j)" by (auto simp: bind_eq_Some_conv)
  have "i + 1 + unat l * 8 \<le> length (pk_data p)" using r(2) by (simp add: rdn_def split: if_splits)
  with Suc.IH [OF r(3)] r(3) show ?case by (cases n) auto
qed simp

lemma update_ba_overread_aux:
  assumes "pk_data p = cells (UPDATE_BA # rvfid @ tmfid)" "length rvfid = FID_LEN" "length tmfid = FID_LEN" "64 \<le> unat (hd rvfid)"
  shows "handleRVNotification p s = None"
proof -
  obtain n rest where rv: "rvfid = n # rest" using assms(2) by (cases rvfid) auto
  have r1: "rd8 p 1 = Some n" by (rule rd8_skip [of p "[UPDATE_BA]" _ "cells (rest @ tmfid)"]) (simp_all add: assms(1) rv)
  have "read_ids (unat n) p 2 = None"
  proof (cases "read_ids (unat n) p 2")
    case (Some r)
    then obtain xs j where "read_ids (unat n) p 2 = Some (xs, j)" by (cases r) auto
    from read_ids_bound [OF this] show ?thesis using assms by (simp add: rv)
  qed
  then show ?thesis by (cases "rd8 p 0") (simp_all add: handleRVNotification_def r1 [unfolded One_nat_def])
qed

subsection \<open>The wire\<close>

text \<open>An identifier of 32 fragments or more arrives shortened: its length was cut to a byte first.\<close>

lemma long_id_aux:
  assumes "short_id x" "256 \<le> length x" "is_fid FID" "pk_data q = drop FID_LEN (pk_data (remote_packet [x] FID p))"
  shows "read_ids 1 q 1 = Some ([take (length x mod 256) x], 2 + length x mod 256)" "take (length x mod 256) x \<noteq> x"
proof -
  let ?k = "length x mod 256"
  have k8: "8 dvd ?k" using assms(1) by (auto simp: short_id_def intro: dvd_mod)
  have k: "?k \<le> length x" by simp
  have ul: "unat (u8 (length x)) = ?k" by (simp add: u8_def unat_of_nat take_bit_eq_mod)
  have u: "unat (u8 (?k div 8)) = ?k div 8" by (rule unat_u8) (use mod_less_divisor [of 256 "length x"] in linarith)
  have u1: "unat (u8 (Suc 0)) = 1" by (simp add: u8_def)
  have "pk_data (remote_packet [x] FID p) = cells (fid_bytes FID) @ cells ([u8 1, u8 (?k div 8)] @ x) @ pk_data p"
    using length_fid_bytes [OF assms(3)] by (simp add: remote_packet_def Let_def u1 wire_id_def ul)
  then have d: "pk_data q = cells ([u8 1, u8 (?k div 8)] @ take ?k x) @ cells (drop ?k x) @ pk_data p"
    using assms(4) length_fid_bytes [OF assms(3)] by (simp flip: cells_append)
  have "rd8 q 1 = Some (u8 (?k div 8))" by (rule rd8_skip [of q "[u8 1]" _ "cells (take ?k x) @ cells (drop ?k x) @ pk_data p"]) (simp_all add: d)
  moreover have "rdn q 2 ?k = Some (take ?k x)"
    by (rule rdn_skip [of q "[u8 1, u8 (?k div 8)]" "take ?k x"]) (simp_all add: d min_absorb2)
  ultimately show "read_ids 1 q 1 = Some ([take ?k x], 2 + ?k)" using u k8 by (simp add: numeral_2_eq_2)
  have "?k < length x" using assms(2) mod_less_divisor [of 256 "length x"] by linarith
  then show "take ?k x \<noteq> x" using k by (metis length_take min_absorb2 nat_neq_iff)
qed

subsection \<open>An example node\<close>

text \<open>
  Application 7 publishes a scope and an item in it, application 9 publishes the same item, application
  11 subscribes to the scope and application 13 to the item; then 7 is told to publish.
\<close>

definition ex_scope :: bstr where "ex_scope = replicate 8 1"
definition ex_item :: bstr where "ex_item = replicate 8 2"

definition ex_app :: "32 word \<Rightarrow> bstr \<Rightarrow> nat \<times> packet" where
  "ex_app i bs = (0, \<lparr>pk_data = cells bs, pk_anno = Some i\<rparr>)"

definition ex_fid_bytes :: bstr where "ex_fid_bytes = replicate 31 0 @ [128]"

definition ex_note :: "bstr \<Rightarrow> packet" where
  "ex_note bs = of_bytes (net_bytes [notificationIID ex_gc] @ bs)"

definition ex_events :: "(nat \<times> packet) list" where
  "ex_events = [ex_app 7 (app_request PUBLISH_SCOPE ex_scope [] DOMAIN_LOCAL),
     ex_app 7 (app_request PUBLISH_INFO ex_item ex_scope DOMAIN_LOCAL),
     ex_app 9 (app_request PUBLISH_INFO ex_item ex_scope DOMAIN_LOCAL),
     ex_app 11 (app_request SUBSCRIBE_SCOPE ex_scope [] DOMAIN_LOCAL),
     ex_app 13 (app_request SUBSCRIBE_INFO ex_item ex_scope DOMAIN_LOCAL),
     (2, ex_note (note_bytes START_PUBLISH [ex_scope @ ex_item] @ ex_fid_bytes))]"

lemma ex_app_ok:
  "type \<noteq> DISCONNECT \<Longrightarrow> type \<noteq> PUBLISH_DATA \<Longrightarrow> short_id ID \<Longrightarrow> short_id prefixID \<Longrightarrow> ID \<noteq> [] \<or> prefixID \<noteq> [] \<Longrightarrow>
   lp_event_ok (ex_app i (app_request type ID prefixID strategy)) s"
proof -
  assume a: "type \<noteq> DISCONNECT" "type \<noteq> PUBLISH_DATA" "short_id ID" "short_id prefixID" "ID \<noteq> [] \<or> prefixID \<noteq> []"
  have "request_packet_ok \<lparr>pk_data = cells (app_request type ID prefixID strategy), pk_anno = Some i\<rparr>"
    unfolding request_packet_ok_def
    by (rule exI [of _ type], rule exI [of _ ID], rule exI [of _ prefixID], rule exI [of _ strategy], rule exI [of _ "[]"])
      (use a in simp)
  then show ?thesis by (simp add: lp_event_ok_def ex_app_def)
qed

lemma ex_ids_ok: "short_id ex_scope" "short_id ex_item" "short_id (ex_scope @ ex_item)" "ids_ok [ex_scope @ ex_item]"
    "ids_ok [notificationIID ex_gc]"
  by (simp_all add: ex_scope_def ex_item_def short_id_def ids_ok_def ex_gc_def)

lemma ex_nonempty: "ex_scope \<noteq> []" "ex_item \<noteq> []"
  by (simp_all add: ex_scope_def ex_item_def)

lemma ex_note_ok: "type \<noteq> UPDATE_BA \<Longrightarrow> ids_ok IDs \<Longrightarrow> length fid = 32 \<Longrightarrow> lp_gc s = ex_gc \<Longrightarrow>
    lp_event_ok (2, ex_note (note_bytes type IDs @ fid)) s"
  unfolding lp_event_ok_def network_packet_ok_def
  by (simp, intro exI [of _ "[notificationIID ex_gc]"] exI [of _ "cells (note_bytes type IDs @ fid)"])
    (force simp: ex_note_def of_bytes_def ex_ids_ok note_ok_def)

definition ex_lp :: local_proxy where
  "ex_lp = (case fold_opt lp_step ex_events (LocalProxy_configure ex_gc) of Some s \<Rightarrow> s | None \<Rightarrow> LocalProxy_configure ex_gc)"

text \<open>Requests keep the configuration.\<close>

lemma ex_step_gc:
  assumes "lp_inv s" "lp_step (ex_app i (app_request type ID prefixID strategy)) s = Some s'"
    and "type \<noteq> DISCONNECT" "type \<noteq> PUBLISH_DATA" "short_id ID" "short_id prefixID" "ID \<noteq> [] \<or> prefixID \<noteq> []"
  shows "lp_gc s' = lp_gc s"
proof -
  let ?p = "snd (ex_app i (app_request type ID prefixID strategy))"
  have "pk_data ?p = cells (app_request type ID prefixID strategy) @ []" by (simp add: ex_app_def)
  from request_push_aux [OF assms(1) _ this assms(5-7,3,4), of 0] assms(2) show ?thesis
    by (auto simp: lp_step_def ex_app_def Let_def)
qed

lemma ex_lp_run_ok: "run_ok lp_step lp_event_ok ex_events (LocalProxy_configure ex_gc)"
proof -
  have more: "run_ok lp_step lp_event_ok (ex_app i (app_request type ID prefixID strategy) # es) s"
    if "lp_inv s" "lp_gc s = ex_gc" "type \<noteq> DISCONNECT" "type \<noteq> PUBLISH_DATA" "short_id ID" "short_id prefixID" "ID \<noteq> [] \<or> prefixID \<noteq> []"
      and "\<And>s. lp_inv s \<Longrightarrow> lp_gc s = ex_gc \<Longrightarrow> run_ok lp_step lp_event_ok es s" for i type ID prefixID strategy es s
  proof -
    note ok = ex_app_ok [OF that(3-7), of i strategy s]
    from lp_safe_step [OF that(1) ok] obtain s' where
      s': "lp_step (ex_app i (app_request type ID prefixID strategy)) s = Some s'" "lp_inv s'" by blast
    have "lp_gc s' = ex_gc" using ex_step_gc [OF that(1) s'(1) that(3-7)] that(2) by simp
    with s' that(8) ok show ?thesis by simp
  qed
  have last: "run_ok lp_step lp_event_ok [(2, ex_note (note_bytes START_PUBLISH [ex_scope @ ex_item] @ ex_fid_bytes))] s"
    if "lp_gc s = ex_gc" for s
    using ex_note_ok [of START_PUBLISH "[ex_scope @ ex_item]" ex_fid_bytes s] that ex_ids_ok
    by (auto simp: ex_fid_bytes_def split: option.splits)
  have "lp_gc (LocalProxy_configure ex_gc) = ex_gc" by (simp add: LocalProxy_configure_def)
  then show ?thesis unfolding ex_events_def
    by (intro more configure_inv ex_gc_wf last) (simp_all add: ex_ids_ok ex_nonempty)
qed

lemma ex_lp_run: "fold_opt lp_step ex_events (LocalProxy_configure ex_gc) = Some ex_lp" "lp_inv ex_lp"
proof -
  from lpe.safe_run [OF configure_inv [OF ex_gc_wf] ex_lp_run_ok] obtain s where
    "fold_opt lp_step ex_events (LocalProxy_configure ex_gc) = Some s" "lp_inv s" by blast
  then show "fold_opt lp_step ex_events (LocalProxy_configure ex_gc) = Some ex_lp" "lp_inv ex_lp" by (simp_all add: ex_lp_def)
qed

lemma ex_lp_index: "hm_get (local_pub_sub_Index ex_lp) 7 = Some 0" "hm_get (local_pub_sub_Index ex_lp) 9 = Some 1"
    "lp_gc ex_lp = ex_gc" "publishers_at ex_lp (ex_scope @ ex_item) = [(0, START_PUBLISH), (1, STOP_PUBLISH)]"
  by code_simp+

subsection \<open>Properties\<close>

text \<open>
  C5. From its configuration on, a dispatcher fed acceptable packets (requests for non-empty
  identifiers, data, notifications, disconnections, packets of the network) handles every one of them
  without undefined behaviour. All the while a host is in the entry of a publication or subscription
  exactly when that is in the host's own set, at most one publisher of a publication is on,
  and the clean-up afterwards frees every host, each exactly once.
\<close>

theorem dispatcher_runs_safely:
  assumes "gc_wf gc" and "run_ok lp_step lp_event_ok es (LocalProxy_configure gc)"
  shows "\<exists>s. fold_opt lp_step es (LocalProxy_configure gc) = Some s \<and> lp_inv s \<and>
    (\<forall>x a. a \<in> ap_hosts (hm_get (activePublicationIndex s) x) \<longleftrightarrow> x \<in> host_pubs s a) \<and>
    (\<forall>x a. a \<in> as_hosts (hm_get (activeSubscriptionIndex s) x) \<longleftrightarrow> x \<in> host_subs s a) \<and>
    (\<forall>x. length (started (publishers_at s x)) \<le> 1) \<and>
    (\<exists>t. LocalProxy_cleanup True s = Some t \<and> lp_hosts t = (\<lambda>_. None))"
proof -
  from lpe.safe_run [OF configure_inv [OF assms(1)] assms(2)] obtain s where
    s: "fold_opt lp_step es (LocalProxy_configure gc) = Some s" "lp_inv s" by blast
  with cleanup_aux [OF s(2)] show ?thesis
    using publisher_iff [OF s(2)] subscriber_iff [OF s(2)] one_started [OF s(2)] by blast
qed

lemma dispatcher_runs_safely_witness:
  "\<exists>s. fold_opt lp_step ex_events (LocalProxy_configure ex_gc) = Some s \<and> lp_inv s"
  using dispatcher_runs_safely [OF ex_gc_wf ex_lp_run_ok] by blast



text \<open>
  C10. A host that disconnects leaves no trace: it is gone from every publication and subscription,
  the other hosts keep theirs, and the invariant holds. The rendezvous element is told of each
  publication and subscription the host was the last of, items first, then scopes, the deepest
  first; and where the host was the publisher that was on, the next publisher is told to start.
\<close>

theorem dispatcher_disconnect:
  assumes "lp_inv s" and "in_port \<noteq> 2" and "disconnect_packet p"
    and "hm_get (local_pub_sub_Index s) (sender_id in_port p) = Some a" and "lp_hosts s a = Some h"
  shows "\<exists>s'. LocalProxy_push in_port p s = Some s' \<and> lp_inv s' \<and> \<not> live_host s' a \<and>
    host_pubs s' = (host_pubs s)(a := {}) \<and> host_subs s' = (host_subs s)(a := {}) \<and>
    (\<forall>x. a \<notin> ap_hosts (hm_get (activePublicationIndex s') x) \<and> a \<notin> as_hosts (hm_get (activeSubscriptionIndex s') x)) \<and>
    lp_out s' = lp_out s @ concat (map (item_pub_goodbye s a) (activePublications h)) @
      concat (map (item_sub_goodbye s a) (activeSubscriptions h)) @
      by_level (scope_pub_goodbye s a) 256 (activePublications h) @
      by_level (scope_sub_goodbye s a) 256 (activeSubscriptions h)"
proof -
  from disconnect_push_aux [OF assms(1-3) known_sender(1) [OF assms(4)] assms(5)] obtain s' where
    s': "LocalProxy_push in_port p s = Some s'" "lp_inv s'" "lp_hosts s' = (lp_hosts s)(a := None)"
    "lp_out s' = lp_out s @ all_goodbyes s a h" by blast
  have b: "host_pubs s' = (host_pubs s)(a := {})" "host_subs s' = (host_subs s)(a := {})"
    using s'(3) by (auto simp: host_pubs_def host_subs_def fun_eq_iff)
  then have "\<forall>x. a \<notin> ap_hosts (hm_get (activePublicationIndex s') x) \<and> a \<notin> as_hosts (hm_get (activeSubscriptionIndex s') x)"
    using publisher_iff [OF s'(2)] subscriber_iff [OF s'(2)] by simp
  moreover have "\<not> live_host s' a" using s'(3) by (simp add: live_host_def)
  ultimately show ?thesis using s' b by (auto simp: all_goodbyes_def)
qed

lemma dispatcher_disconnect_witness:
  "\<exists>s'. LocalProxy_push 0 (snd (ex_app 7 [DISCONNECT])) ex_lp = Some s' \<and> lp_inv s' \<and> \<not> live_host s' 0"
proof -
  obtain h where h: "lp_hosts ex_lp 0 = Some h" using index_host [OF ex_lp_run(2)] ex_lp_index(1) by blast
  have "disconnect_packet (snd (ex_app 7 [DISCONNECT]))" by (simp add: disconnect_packet_def ex_app_def)
  moreover have "hm_get (local_pub_sub_Index ex_lp) (sender_id 0 (snd (ex_app 7 [DISCONNECT]))) = Some 0"
    using ex_lp_index(1) by (simp add: sender_id_def ex_app_def)
  ultimately show ?thesis using dispatcher_disconnect [OF ex_lp_run(2) _ _ _ h, of 0] by fastforce
qed

text \<open>
  C11. Data from the network goes to exactly the hosts of the node that subscribe to one of its
  identifiers or to the father of one, once each and unchanged, under one of the identifiers the
  host is subscribed to.
\<close>

theorem network_data_delivered:
  assumes "lp_inv s" and "pk_data p = cells (net_bytes IDs) @ ys" and "ids_ok IDs" and "IDs \<noteq> [notificationIID (lp_gc s)]"
  shows "\<exists>m. distinct (map fst m) \<and> fst ` set m = {a. \<exists>x \<in> set IDs. wants s a x} \<and>
    (\<forall>(a, x) \<in> set m. x \<in> set IDs \<and> wants s a x) \<and>
    LocalProxy_push 2 p s = Some (s\<lparr>lp_out := lp_out s @ map (\<lambda>(a, x). host_out s a (data_packet x (p\<lparr>pk_data := ys\<rparr>))) m\<rparr>)"
proof -
  from handleNetworkPublication_ok [OF assms(1), of IDs "p\<lparr>pk_data := ys\<rparr>"] obtain m where
    m: "audience s IDs {} m" and e: "handleNetworkPublication IDs (p\<lparr>pk_data := ys\<rparr>) s =
      Some (s\<lparr>lp_out := lp_out s @ map (\<lambda>(a, x). host_out s a (data_packet x (p\<lparr>pk_data := ys\<rparr>))) m\<rparr>)" by blast
  have "LocalProxy_push 2 p s = handleNetworkPublication IDs (p\<lparr>pk_data := ys\<rparr>) s"
    using push_network_eq [OF assms(2,3), of s] assms(4) by simp
  with e audience_sets [OF m] show ?thesis by auto
qed

lemma network_data_delivered_witness:
  "\<exists>m. fst ` set m = {a. \<exists>x \<in> {ex_scope @ ex_item}. wants ex_lp a x} \<and>
    LocalProxy_push 2 (of_bytes (net_bytes [ex_scope @ ex_item] @ [42])) ex_lp =
      Some (ex_lp\<lparr>lp_out := lp_out ex_lp @ map (\<lambda>(a, x). host_out ex_lp a (data_packet x (of_bytes [42]))) m\<rparr>)"
proof -
  have ne: "[ex_scope @ ex_item] \<noteq> [notificationIID (lp_gc ex_lp)]" unfolding ex_lp_index(3) by code_simp
  have d: "pk_data (of_bytes (net_bytes [ex_scope @ ex_item] @ [42])) = cells (net_bytes [ex_scope @ ex_item]) @ [Some 42]"
    by (simp add: of_bytes_def)
  have q: "(of_bytes (net_bytes [ex_scope @ ex_item] @ [42]))\<lparr>pk_data := [Some 42]\<rparr> = of_bytes [42]" by (simp add: of_bytes_def)
  from network_data_delivered [OF ex_lp_run(2) d ex_ids_ok(4) ne] obtain m where
    m: "fst ` set m = {a. \<exists>x \<in> set [ex_scope @ ex_item]. wants ex_lp a x}"
    "LocalProxy_push 2 (of_bytes (net_bytes [ex_scope @ ex_item] @ [42])) ex_lp =
      Some (ex_lp\<lparr>lp_out := lp_out ex_lp @ map (\<lambda>(a, x). host_out ex_lp a (data_packet x (of_bytes [42]))) m\<rparr>)"
    unfolding q by blast
  from m(1) have "fst ` set m = {a. \<exists>x \<in> {ex_scope @ ex_item}. wants ex_lp a x}" by simp
  with m(2) show ?thesis by blast
qed

text \<open>
  C12. Data an application publishes for its publication (or, in fragments, for a child of it) goes to
  the network, under all identifiers known for it, exactly when the publication's forwarding
  identifier is set and is not the node's own; and to exactly the other hosts of the node that
  subscribe to one of the identifiers or its father, once each. The publisher itself never gets
  it back. Data for no publication is dropped.
\<close>

theorem published_data_routed:
  assumes "lp_inv s" and "in_port \<noteq> 2" and "hm_get (local_pub_sub_Index s) (sender_id in_port p) = Some a"
    and "pk_data p = cells (app_data x strategy []) @ ys" and "short_id x" and "\<not> own_fid strategy" and "strategy \<noteq> BROADCAST_IF"
  shows "case publication_of_data x s of
      None \<Rightarrow> LocalProxy_push in_port p s = Some s
    | Some (ap, IDs) \<Rightarrow> \<exists>m :: (lh_addr, bstr) htab. distinct (map fst m) \<and> fst ` set m = {b. b \<noteq> a \<and> (\<exists>y \<in> set IDs. wants s b y)} \<and>
        LocalProxy_push in_port p s = Some (s\<lparr>lp_out := lp_out s @
          (if \<not> bv_zero (ap_FID ap) \<and> \<not> bv_eq (ap_FID ap) (iLID (lp_gc s))
           then [(2, remote_packet IDs (ap_FID ap) (p\<lparr>pk_data := ys\<rparr>))] else []) @
          map (\<lambda>(b, _). host_out s b (data_packet x (p\<lparr>pk_data := ys\<rparr>))) m\<rparr>)"
proof -
  have e: "LocalProxy_push in_port p s = handleUserPublication x (p\<lparr>pk_data := ys\<rparr>) a s"
    using data_push_eq [OF assms(1,2,4) known_sender(1) [OF assms(3)]] push_data_eq [OF assms(4,5), of a s] assms(6,7)
    by (auto simp: Let_def own_fid_def)
  show ?thesis
  proof (cases "publication_of_data x s")
    case (Some api)
    obtain ap IDs where api: "api = (ap, IDs)" by (cases api)
    from handleUserPublication_ok [OF assms(1), of x "p\<lparr>pk_data := ys\<rparr>" a] Some api obtain m where
      m: "audience s IDs {a} m" and r: "handleUserPublication x (p\<lparr>pk_data := ys\<rparr>) a s = Some (s\<lparr>lp_out := lp_out s @
        (if remote_subscribers s (ap_FID ap) then [(2, remote_packet IDs (ap_FID ap) (p\<lparr>pk_data := ys\<rparr>))] else []) @
        map (\<lambda>(b, _). host_out s b (data_packet x (p\<lparr>pk_data := ys\<rparr>))) m\<rparr>)" by auto
    have fs: "fst ` set m = {b. b \<noteq> a \<and> (\<exists>y \<in> set IDs. wants s b y)}" using audience_sets(2) [OF m] by simp
    show ?thesis unfolding Some api option.case prod.case
      by (intro exI [of _ m] conjI) (use e r fs audience_sets(1) [OF m] in \<open>simp_all add: remote_subscribers_def\<close>)
  qed (use e in \<open>simp add: handleUserPublication_def\<close>)
qed

lemma published_data_routed_witness:
  "\<exists>ap IDs. publication_of_data (ex_scope @ ex_item) ex_lp = Some (ap, IDs) \<and>
    (\<exists>s'. LocalProxy_push 0 (snd (ex_app 7 (app_data (ex_scope @ ex_item) DOMAIN_LOCAL [] @ [42]))) ex_lp = Some s')"
proof -
  let ?p = "snd (ex_app 7 (app_data (ex_scope @ ex_item) DOMAIN_LOCAL [] @ [42]))"
  have "publication_of_data (ex_scope @ ex_item) ex_lp \<noteq> None" by code_simp
  then obtain ap IDs where pub: "publication_of_data (ex_scope @ ex_item) ex_lp = Some (ap, IDs)" by auto
  have "hm_get (local_pub_sub_Index ex_lp) (sender_id 0 ?p) = Some 0"
    using ex_lp_index(1) by (simp add: sender_id_def ex_app_def)
  moreover have "pk_data ?p = cells (app_data (ex_scope @ ex_item) DOMAIN_LOCAL []) @ [Some 42]" by (simp add: ex_app_def)
  ultimately show ?thesis using published_data_routed [OF ex_lp_run(2) _ _ _ ex_ids_ok(3), of 0 ?p 0 DOMAIN_LOCAL "[Some 42]"] pub
    by (auto simp: own_fid_def)
qed

text \<open>
  The rendezvous element's notification to start publishing turns on exactly one publisher: none if
  one of the publishers of the item, under any of its identifiers, is on already, and
  otherwise the first publisher of the first identifier that has one, which is told under that
  identifier. The books stay as they were.
\<close>

theorem start_notification:
  assumes "lp_inv s" and "pk_data p = cells (net_bytes [notificationIID (lp_gc s)] @ note_bytes START_PUBLISH IDs @ fid) @ ys"
    and "ids_ok IDs" and "length fid = FID_LEN"
  shows "\<exists>s'. LocalProxy_push 2 p s = Some s' \<and> lp_inv s' \<and> host_pubs s' = host_pubs s \<and> host_subs s' = host_subs s \<and>
    (if \<exists>x \<in> set IDs. started (publishers_at s x) \<noteq> []
     then lp_out s' = lp_out s \<and> publishers_at s' = publishers_at s
     else (case first_started s IDs of
       None \<Rightarrow> lp_out s' = lp_out s \<and> publishers_at s' = publishers_at s
     | Some (a, x) \<Rightarrow> lp_out s' = lp_out s @ [host_out s a (of_bytes (event_bytes START_PUBLISH x))] \<and>
         publishers_at s' = (publishers_at s)(x := hm_set a START_PUBLISH (publishers_at s x))))"
proof -
  let ?N = "notificationIID (lp_gc s)" and ?q = "p\<lparr>pk_data := cells (note_bytes START_PUBLISH IDs @ fid) @ ys\<rparr>"
  have "length ?N = 16" using inv_gc [OF assms(1)] by (simp add: gc_wf_def)
  then have ids: "ids_ok [?N]" by (simp add: ids_ok_def short_id_def)
  have d: "pk_data p = cells (net_bytes [?N]) @ cells (note_bytes START_PUBLISH IDs @ fid) @ ys" using assms(2) by simp
  have "LocalProxy_push 2 p s = handleRVNotification ?q s" using push_network_eq [OF d ids, of s] by simp
  moreover from start_notification_aux [OF assms(1) _ assms(3,4), of ?q ys] obtain s' where
    "handleRVNotification ?q s = Some s'" "same_books s s'" and
    "(if \<exists>x \<in> set IDs. started (publishers_at s x) \<noteq> []
     then lp_out s' = lp_out s \<and> publishers_at s' = publishers_at s
     else (case first_started s IDs of
       None \<Rightarrow> lp_out s' = lp_out s \<and> publishers_at s' = publishers_at s
     | Some (a, x) \<Rightarrow> lp_out s' = lp_out s @ [host_out s a (of_bytes (event_bytes START_PUBLISH x))] \<and>
         publishers_at s' = (publishers_at s)(x := hm_set a START_PUBLISH (publishers_at s x))))" by auto
  ultimately show ?thesis unfolding same_books_def by (intro exI [of _ s']) simp
qed

lemma start_notification_witness:
  "\<exists>s'. LocalProxy_push 2 (ex_note (note_bytes START_PUBLISH [ex_scope @ ex_item] @ ex_fid_bytes)) ex_lp = Some s' \<and>
    lp_out s' = lp_out ex_lp"
proof -
  let ?p = "ex_note (note_bytes START_PUBLISH [ex_scope @ ex_item] @ ex_fid_bytes)"
  have d: "pk_data ?p = cells (net_bytes [notificationIID (lp_gc ex_lp)] @ note_bytes START_PUBLISH [ex_scope @ ex_item] @ ex_fid_bytes) @ []"
    by (simp add: ex_note_def of_bytes_def ex_lp_index(3))
  have "started (publishers_at ex_lp (ex_scope @ ex_item)) \<noteq> []" by (simp add: ex_lp_index(4) started_Cons)
  then show ?thesis using start_notification [OF ex_lp_run(2) d ex_ids_ok(4)] by (auto simp: ex_fid_bytes_def)
qed

text \<open>
  C37. A publisher that is on and unpublishes its item hands over to nobody: no packet goes out and none
  of the remaining publishers is on. (One that disconnects does hand over.)
\<close>

theorem unpublish_hands_over_to_nobody:
  assumes "lp_inv s" and "in_port \<noteq> 2" and "hm_get (local_pub_sub_Index s) (sender_id in_port p) = Some a"
    and "pk_data p = cells (app_request UNPUBLISH_INFO ID prefixID strategy) @ ys" and "short_id ID" and "short_id prefixID"
    and "x = request_fullID ID prefixID" and "hm_get (publishers_at s x) a = Some START_PUBLISH" and "b \<noteq> a"
    and "b \<in> fst ` set (publishers_at s x)" and "accepts_pub s x strategy" and "ID \<noteq> [] \<or> prefixID \<noteq> []"
  shows "\<exists>s'. LocalProxy_push in_port p s = Some s' \<and> lp_inv s' \<and> lp_out s' = lp_out s \<and>
    b \<in> fst ` set (publishers_at s' x) \<and> started (publishers_at s' x) = []"
  by (rule unpublish_silent_aux [OF assms])

lemma unpublish_hands_over_to_nobody_witness:
  "\<exists>s'. LocalProxy_push 0 (snd (ex_app 7 (app_request UNPUBLISH_INFO ex_item ex_scope DOMAIN_LOCAL))) ex_lp = Some s' \<and>
    started (publishers_at s' (ex_scope @ ex_item)) = []"
proof -
  let ?p = "snd (ex_app 7 (app_request UNPUBLISH_INFO ex_item ex_scope DOMAIN_LOCAL))"
  have a: "hm_get (local_pub_sub_Index ex_lp) (sender_id 0 ?p) = Some 0"
    using ex_lp_index(1) by (simp add: sender_id_def ex_app_def)
  have d: "pk_data ?p = cells (app_request UNPUBLISH_INFO ex_item ex_scope DOMAIN_LOCAL) @ []" by (simp add: ex_app_def)
  have x: "ex_scope @ ex_item = request_fullID ex_item ex_scope" by (simp add: request_fullID_def ex_item_def)
  have acc: "accepts_pub ex_lp (ex_scope @ ex_item) DOMAIN_LOCAL" by code_simp
  show ?thesis using unpublish_hands_over_to_nobody [OF ex_lp_run(2) _ a d ex_ids_ok(2,1) x, of 1] acc ex_nonempty
    by (auto simp: ex_lp_index(4) hm_get_def)
qed

text \<open>
  An update of the identifiers of the domain is read as if a list of identifiers came first, whose
  size is the first byte of the new identifier: when that byte is 64 or more, the packet is read past
  its end.
\<close>

theorem domain_update_overread:
  assumes "lp_inv s" and "pk_data p = cells (net_bytes [notificationIID (lp_gc s)] @ UPDATE_BA # rvfid @ tmfid)"
    and "length rvfid = FID_LEN" and "length tmfid = FID_LEN" and "64 \<le> unat (hd rvfid)"
  shows "LocalProxy_push 2 p s = None"
proof -
  let ?N = "notificationIID (lp_gc s)" and ?q = "p\<lparr>pk_data := cells (UPDATE_BA # rvfid @ tmfid)\<rparr>"
  have "length ?N = 16" using inv_gc [OF assms(1)] by (simp add: gc_wf_def)
  then have ids: "ids_ok [?N]" by (simp add: ids_ok_def short_id_def)
  have "pk_data p = cells (net_bytes [?N]) @ cells (UPDATE_BA # rvfid @ tmfid)" using assms(2) by simp
  from push_network_eq [OF this ids, of s] update_ba_overread_aux [of ?q, OF _ assms(3-5)] show ?thesis by simp
qed

lemma domain_update_overread_witness:
  "LocalProxy_push 2 (ex_note (UPDATE_BA # (64 # replicate 31 0) @ replicate 32 0)) ex_lp = None"
  by (rule domain_update_overread [OF ex_lp_run(2), of _ "64 # replicate 31 0" "replicate 32 0"]) (simp_all add: ex_note_def of_bytes_def ex_lp_index(3))

text \<open>
  An identifier of 32 fragments or more is cut on its way to another node: its length in bytes
  is cut to a byte before it is divided into fragments, and the other node reads a shorter identifier.
\<close>

theorem long_identifier_cut:
  assumes "short_id x" and "256 \<le> length x" and "is_fid FID"
    and "pushDataToRemoteSubscribers [x] FID p s = Some s'" and "lp_out s' = lp_out s @ [(2, r)]"
    and "pk_data q = drop FID_LEN (pk_data r)"
  shows "read_ids 1 q 1 = Some ([take (length x mod 256) x], 2 + length x mod 256) \<and> take (length x mod 256) x \<noteq> x"
proof -
  have "r = remote_packet [x] FID p" using pushDataToRemoteSubscribers_eq [OF assms(3), of "[x]" p s] assms(4,5) by auto
  then show ?thesis using long_id_aux [OF assms(1-3), of q p] assms(6) by simp
qed

lemma long_identifier_cut_witness:
  "read_ids 1 (of_bytes ([1, 1] @ replicate 264 7)) 1 = Some ([replicate 8 7], 10)"
proof -
  let ?x = "replicate 264 7 :: bstr" and ?fid = "ex_fid 8" and ?p = "of_bytes []"
  let ?r = "remote_packet [?x] ?fid ?p"
  have "pk_data ?r = cells (fid_bytes ?fid) @ cells ([1, 1] @ ?x)"
    using length_fid_bytes [OF ex_fid_ok] by (simp add: remote_packet_def wire_id_def of_bytes_def u8_def Let_def)
  then have q: "pk_data (of_bytes ([1, 1] @ ?x)) = drop FID_LEN (pk_data ?r)"
    using length_fid_bytes [OF ex_fid_ok [of 8]] by (simp add: of_bytes_def)
  have x: "short_id ?x" "256 \<le> length ?x" by (simp_all add: short_id_def)
  from long_identifier_cut [OF x ex_fid_ok pushDataToRemoteSubscribers_eq [OF ex_fid_ok, of _ _ ?p ex_lp] _ q]
  show ?thesis by simp
qed

text \<open>
  Data published with a forwarding identifier of the application's own goes to exactly the other
  hosts of the node that subscribe to it under one of its known identifiers, once each; and to the network
  under all these identifiers, unless the node has subscribers and the identifier is the one to
  the topology manager.
\<close>

theorem own_identifier_data_routed:
  assumes "lp_inv s" and "in_port \<noteq> 2" and "hm_get (local_pub_sub_Index s) (sender_id in_port p) = Some a"
    and "pk_data p = cells (app_data x strategy fid) @ ys" and "short_id x" and "own_fid strategy" and "length fid = FID_LEN"
    and "x \<noteq> notificationIID (lp_gc s)" and "IDs = known_siblings x s @ [x]" and "q = p\<lparr>pk_data := ys\<rparr>"
  shows "\<exists>m :: (lh_addr, bstr) htab. distinct (map fst m) \<and> fst ` set m = {b. b \<noteq> a \<and> (\<exists>y \<in> set IDs. wants s b y)} \<and>
    LocalProxy_push in_port p s = Some (s\<lparr>lp_out := lp_out s @
      (if m = [] \<or> bv_zero (TMFID (lp_gc s)) \<or> \<not> bv_eq (fid_of_bytes fid) (TMFID (lp_gc s))
       then [(2, remote_packet IDs (fid_of_bytes fid) q)] else []) @
      map (\<lambda>(b, _). host_out s b (data_packet x q)) m\<rparr>)"
proof -
  have f: "is_fid (fid_of_bytes fid)" using fid_of_bytes_fid assms(7) by blast
  have "LocalProxy_push in_port p s = handleUserPublicationFID x (fid_of_bytes fid) q a s"
    using data_push_eq [OF assms(1,2,4) known_sender(1) [OF assms(3)]] push_data_eq [OF assms(4,5), of a s] assms(6,7,8,10)
    by (auto simp: Let_def)
  moreover from handleUserPublicationFID_ok [OF assms(1) f, of x a q] obtain m where
    m: "audience s IDs {a} m" and "handleUserPublicationFID x (fid_of_bytes fid) q a s = Some (s\<lparr>lp_out := lp_out s @
      (if m = [] \<or> bv_zero (TMFID (lp_gc s)) \<or> \<not> bv_eq (fid_of_bytes fid) (TMFID (lp_gc s))
       then [(2, remote_packet IDs (fid_of_bytes fid) q)] else []) @
      map (\<lambda>(b, _). host_out s b (data_packet x q)) m\<rparr>)" unfolding assms(9) by blast
  moreover have "fst ` set m = {b. b \<noteq> a \<and> (\<exists>y \<in> set IDs. wants s b y)}" using audience_sets(2) [OF m] by simp
  ultimately show ?thesis using audience_sets(1) [OF m] by (intro exI [of _ m]) simp
qed

lemma own_identifier_data_routed_witness:
  "\<exists>s'. LocalProxy_push 0 (snd (ex_app 7 (app_data (ex_scope @ ex_item) LINK_LOCAL ex_fid_bytes @ [42]))) ex_lp = Some s'"
proof -
  let ?p = "snd (ex_app 7 (app_data (ex_scope @ ex_item) LINK_LOCAL ex_fid_bytes @ [42]))"
  have a: "hm_get (local_pub_sub_Index ex_lp) (sender_id 0 ?p) = Some 0"
    using ex_lp_index(1) by (simp add: sender_id_def ex_app_def)
  have d: "pk_data ?p = cells (app_data (ex_scope @ ex_item) LINK_LOCAL ex_fid_bytes) @ [Some 42]" by (simp add: ex_app_def)
  have n: "ex_scope @ ex_item \<noteq> notificationIID (lp_gc ex_lp)" unfolding ex_lp_index(3) by code_simp
  have l: "length ex_fid_bytes = FID_LEN" by (simp add: ex_fid_bytes_def)
  have o: "own_fid LINK_LOCAL" by (simp add: own_fid_def)
  from own_identifier_data_routed [OF ex_lp_run(2) _ a d ex_ids_ok(3) o l n refl refl] show ?thesis by auto
qed

text \<open>
  A notification that scopes were published or unpublished reaches, for each of their identifiers,
  exactly the hosts that subscribe to the father scope, once each; nothing else changes.
\<close>

theorem scope_notification:
  assumes "lp_inv s" and "type \<in> {SCOPE_PUBLISHED, SCOPE_UNPUBLISHED}" and "ids_ok IDs"
    and "pk_data p = cells (net_bytes [notificationIID (lp_gc s)] @ note_bytes type IDs) @ ys"
  shows "\<exists>aud. (\<forall>x. distinct (aud x) \<and> set (aud x) = {a. father_of x \<in> host_subs s a \<and> sub_scope s (father_of x)}) \<and>
    LocalProxy_push 2 p s = Some (s\<lparr>lp_out := lp_out s @
      concat (map (\<lambda>x. map (\<lambda>a. host_out s a (of_bytes (event_bytes type x))) (aud x)) IDs)\<rparr>)"
proof -
  let ?N = "notificationIID (lp_gc s)" and ?q = "p\<lparr>pk_data := cells (note_bytes type IDs) @ ys\<rparr>"
  have "length ?N = 16" using inv_gc [OF assms(1)] by (simp add: gc_wf_def)
  then have ids: "ids_ok [?N]" by (simp add: ids_ok_def short_id_def)
  have d: "pk_data p = cells (net_bytes [?N]) @ cells (note_bytes type IDs) @ ys" using assms(4) by simp
  have dq: "pk_data ?q = cells (note_bytes type IDs) @ ys" by simp
  note r = note_parse [OF dq assms(3)]
  have short: "\<forall>x \<in> set IDs. short_id x" using assms(3) by (simp add: ids_ok_def)
  have "LocalProxy_push 2 p s = handleRVNotification ?q s" using push_network_eq [OF d ids, of s] by simp
  also have "\<dots> = fold_opt (notify_scope type) IDs s" using r assms(2) by (auto simp: handleRVNotification_def)
  finally have "LocalProxy_push 2 p s = Some (s\<lparr>lp_out := lp_out s @
      concat (map (\<lambda>x. map (\<lambda>a. host_out s a (of_bytes (event_bytes type x))) (findActiveSubscriptions x [] s)) IDs)\<rparr>)"
    using notify_scopes_ok [OF assms(1) short, of type] by simp
  then show ?thesis using findActiveSubscriptions_ok [OF assms(1)]
    by (intro exI [of _ "\<lambda>x. findActiveSubscriptions x [] s"]) (simp add: sub_scope_def)
qed

lemma scope_notification_witness:
  "\<exists>os. LocalProxy_push 2 (ex_note (note_bytes SCOPE_PUBLISHED [ex_scope @ ex_item])) ex_lp = Some (ex_lp\<lparr>lp_out := os\<rparr>)"
proof -
  have d: "pk_data (ex_note (note_bytes SCOPE_PUBLISHED [ex_scope @ ex_item])) =
      cells (net_bytes [notificationIID (lp_gc ex_lp)] @ note_bytes SCOPE_PUBLISHED [ex_scope @ ex_item]) @ []"
    by (simp add: ex_note_def of_bytes_def ex_lp_index(3))
  from scope_notification [OF ex_lp_run(2) _ ex_ids_ok(4) d] show ?thesis by auto
qed

text \<open>
  A notification to start publishing renews the forwarding identifier of the first identifier whose
  publisher is on and leaves the publications under the identifiers after it as they were: their data
  keeps going along the old identifier.
\<close>

theorem start_notification_stops_early:
  assumes "lp_inv s" and "pk_data p = cells (net_bytes [notificationIID (lp_gc s)] @ note_bytes START_PUBLISH (x # IDs) @ fid) @ ys"
    and "ids_ok (x # IDs)" and "length fid = FID_LEN" and "hm_get (activePublicationIndex s) x = Some ap"
    and "started (ap_publishers ap) \<noteq> []"
  shows "\<exists>s'. LocalProxy_push 2 p s = Some s' \<and>
    hm_get (activePublicationIndex s') x = Some (ap\<lparr>ap_allKnownIDs := x # IDs, ap_FID := fid_of_bytes fid\<rparr>) \<and>
    (\<forall>y. y \<noteq> x \<longrightarrow> hm_get (activePublicationIndex s') y = hm_get (activePublicationIndex s) y)"
proof -
  let ?N = "notificationIID (lp_gc s)"
  let ?q = "p\<lparr>pk_data := cells (note_bytes START_PUBLISH (x # IDs) @ fid) @ ys\<rparr>"
  have "length ?N = 16" using inv_gc [OF assms(1)] by (simp add: gc_wf_def)
  then have ids: "ids_ok [?N]" by (simp add: ids_ok_def short_id_def)
  have d: "pk_data p = cells (net_bytes [?N]) @ cells (note_bytes START_PUBLISH (x # IDs) @ fid) @ ys" using assms(2) by simp
  have dq: "pk_data ?q = cells (note_bytes START_PUBLISH (x # IDs)) @ cells fid @ ys" by simp
  note r = note_parse [OF dq assms(3)]
  have f: "rdn ?q (2 + length (ids_bytes (x # IDs))) FID_LEN = Some fid"
    by (rule rdn_skip [of ?q "note_bytes START_PUBLISH (x # IDs)"]) (simp_all add: assms(4) note_bytes_def)
  have "\<exists>e \<in> set (ap_publishers ap). snd e = START_PUBLISH"
    using assms(6) by (auto simp: started_def filter_empty_conv)
  then have sk: "start_known (fid_of_bytes fid) (x # IDs) (x # IDs) s =
      (True, put_pub x (ap\<lparr>ap_allKnownIDs := x # IDs, ap_FID := fid_of_bytes fid\<rparr>) s)"
    using assms(5) by (auto simp: Let_def)
  have "LocalProxy_push 2 p s = handleRVNotification ?q s" using push_network_eq [OF d ids, of s] by simp
  also have "\<dots> = Some (put_pub x (ap\<lparr>ap_allKnownIDs := x # IDs, ap_FID := fid_of_bytes fid\<rparr>) s)"
    unfolding handleRVNotification_def r Option.bind.simps prod.case f sk Let_def by simp
  finally show ?thesis by simp
qed

lemma start_notification_stops_early_witness:
  "\<exists>s'. LocalProxy_push 2 (ex_note (note_bytes START_PUBLISH [ex_scope @ ex_item, ex_scope] @ ex_fid_bytes)) ex_lp = Some s' \<and>
    hm_get (activePublicationIndex s') ex_scope = hm_get (activePublicationIndex ex_lp) ex_scope"
proof -
  let ?p = "ex_note (note_bytes START_PUBLISH [ex_scope @ ex_item, ex_scope] @ ex_fid_bytes)"
  have d: "pk_data ?p = cells (net_bytes [notificationIID (lp_gc ex_lp)] @
      note_bytes START_PUBLISH [ex_scope @ ex_item, ex_scope] @ ex_fid_bytes) @ []"
    by (simp add: ex_note_def of_bytes_def ex_lp_index(3))
  obtain ap where ap: "hm_get (activePublicationIndex ex_lp) (ex_scope @ ex_item) = Some ap" "ap_publishers ap = [(0, START_PUBLISH), (1, STOP_PUBLISH)]"
    using ex_lp_index(4) by (auto simp: publishers_at_def split: option.splits)
  have ids: "ids_ok [ex_scope @ ex_item, ex_scope]" using ex_ids_ok by (simp add: ids_ok_def)
  have l: "length ex_fid_bytes = FID_LEN" by (simp add: ex_fid_bytes_def)
  have st: "started (ap_publishers ap) \<noteq> []" by (simp add: ap(2) started_Cons)
  have "ex_scope \<noteq> ex_scope @ ex_item" using ex_nonempty by simp
  with start_notification_stops_early [OF ex_lp_run(2) d ids l ap(1) st] show ?thesis by blast
qed

end
