(* ===== verification/BA_Forwarder.thy ===== *)
theory BA_Forwarder
  imports BA_GlobalConf
begin

text \<open>
  The forwarding element (\<^verbatim>\<open>src/forwarder.cc\<close>): the LIPSIN forwarding table, its
  configuration, and \<^verbatim>\<open>push\<close>, which sends a packet over every link whose identifier
  is contained in the packet's forwarding identifier, over Ethernet or over UDP/IP.

  Click's Internet checksum functions are parameters (\<open>click_env\<close>): both return the two
  checksum bytes in the order they are stored.
\<close>

subsection \<open>State\<close>

record fwd_entry =
  fe_src :: "bstr option"
  fe_dst :: "bstr option"
  fe_src_ip :: "bstr option"
  fe_dst_ip :: "bstr option"
  fe_port :: int
  fe_LID :: bitvec

record forwarder =
  fw_gc :: globalconf
  fw_id :: "32 word"
  fw_proto_type :: bstr
  fw_number_of_links :: int
  fwTable :: "fwd_entry list"
  fw_out :: "(int \<times> packet) list"

record click_env =
  in_cksum :: "cell list \<Rightarrow> byte \<times> byte"
  in_cksum_pseudohdr :: "byte \<times> byte \<Rightarrow> cell list \<Rightarrow> nat \<Rightarrow> byte \<times> byte"

abbreviation (input) MAC_LEN :: nat where "MAC_LEN \<equiv> 6"

subsection \<open>Configuration\<close>

text \<open>
  A link of the configuration line, as \<^verbatim>\<open>cp_integer\<close>,
  \<^verbatim>\<open>cp_ethernet_address\<close> or \<^verbatim>\<open>cp_ip_address\<close> (Click) read it: the
  port, the source and destination address and the string of the link identifier.
\<close>

record link_conf =
  lc_port :: int
  lc_src :: bstr
  lc_dst :: bstr
  lc_lid :: string

definition new_fwd_entry :: "bool \<Rightarrow> link_conf \<Rightarrow> fwd_entry option" where
  "new_fwd_entry mac l = do {
     lid \<leftarrow> parse_bits (lc_lid l);
     Some (if mac
       then \<lparr>fe_src = Some (lc_src l), fe_dst = Some (lc_dst l), fe_src_ip = None, fe_dst_ip = None,
             fe_port = lc_port l, fe_LID = lid\<rparr>
       else \<lparr>fe_src = None, fe_dst = None, fe_src_ip = Some (lc_src l), fe_dst_ip = Some (lc_dst l),
             fe_port = lc_port l, fe_LID = lid\<rparr>)
   }"

text \<open>
  The number of links is read from the line and not compared with the links that follow:
  an argument that is not there is undefined.
\<close>

definition Forwarder_configure :: "globalconf \<Rightarrow> int \<Rightarrow> link_conf list \<Rightarrow> forwarder option" where
  "Forwarder_configure gc number_of_links links =
     (if nat number_of_links \<le> length links then do {
        tbl \<leftarrow> all_some (map (new_fwd_entry (use_mac gc)) (take (nat number_of_links) links));
        Some \<lparr>fw_gc = gc, fw_id = 0, fw_proto_type = [0x08, 0x0a], fw_number_of_links = number_of_links,
              fwTable = tbl, fw_out = []\<rparr>
      } else None)"

definition Forwarder_cleanup :: "bool \<Rightarrow> forwarder \<Rightarrow> forwarder option" where
  "Forwarder_cleanup configured fw = (if configured
     then (if nat (fw_number_of_links fw) \<le> length (fwTable fw)
           then Some (fw\<lparr>fwTable := drop (nat (fw_number_of_links fw)) (fwTable fw)\<rparr>) else None)
     else Some fw)"

subsection \<open>Headers\<close>

definition be16 :: "nat \<Rightarrow> bstr" where
  "be16 n = [u8 (n div 256), u8 n]"

text \<open>The IPv4 header the element writes; the checksum bytes are filled in afterwards.\<close>

definition ip_header :: "nat \<Rightarrow> nat \<Rightarrow> bstr \<Rightarrow> bstr \<Rightarrow> bstr" where
  "ip_header len ident src dst =
     [0x45, 0] @ be16 len @ be16 ident @ [0, 0] @ [250, 17] @ [0, 0] @ src @ dst"

definition udp_header :: "nat \<Rightarrow> bstr" where
  "udp_header len = be16 55555 @ be16 55555 @ be16 len @ [0, 0]"

text \<open>
  \<^verbatim>\<open>ip_sum = click_in_cksum(ip, 20)\<close>, then the UDP checksum over the
  \<open>len\<close> bytes from the UDP header on.
\<close>

definition set_checksums :: "click_env \<Rightarrow> packet \<Rightarrow> packet option" where
  "set_checksums env p = do {
     p \<leftarrow> pk_poke 10 [0, 0] p;
     let c = in_cksum env (take 20 (pk_data p));
     p \<leftarrow> pk_poke 10 [fst c, snd c] p;
     p \<leftarrow> pk_poke 26 [0, 0] p;
     let len = (length (pk_data p) - 20) mod 65536;
     let csum = in_cksum env (take len (drop 20 (pk_data p)));
     let u = in_cksum_pseudohdr env csum (take 20 (pk_data p)) len;
     pk_poke 26 [fst u, snd u] p
   }"

subsection \<open>Matching\<close>

text \<open>\<^verbatim>\<open>andVector = FID & *fe->LID; andVector == *fe->LID\<close>.\<close>

definition fid_matches :: "bitvec \<Rightarrow> bitvec \<Rightarrow> bool option" where
  "fid_matches fid lid = do { andVector \<leftarrow> bv_and fid lid; Some (bv_eq andVector lid) }"

fun match_links :: "bitvec \<Rightarrow> fwd_entry list \<Rightarrow> fwd_entry list option" where
  "match_links fid [] = Some []"
| "match_links fid (fe # es) = do {
     m \<leftarrow> fid_matches fid (fe_LID fe);
     rest \<leftarrow> match_links fid es;
     Some (if m then fe # rest else rest)
   }"

text \<open>
  Packets from the network are not sent back over the link they came from: the packet's source and
  destination are compared with the entry's.
\<close>

definition from_this_link :: "bool \<Rightarrow> packet \<Rightarrow> fwd_entry \<Rightarrow> bool option" where
  "from_this_link mac p fe = (if mac then do {
       src \<leftarrow> rdn p MAC_LEN MAC_LEN;
       dst \<leftarrow> rdn p 0 MAC_LEN;
       fdst \<leftarrow> fe_dst fe;
       fsrc \<leftarrow> fe_src fe;
       Some (src = fdst \<and> dst = fsrc)
     } else do {
       src \<leftarrow> rdn p 12 4;
       dst \<leftarrow> rdn p 16 4;
       fdst \<leftarrow> fe_dst_ip fe;
       fsrc \<leftarrow> fe_src_ip fe;
       Some (src = fdst \<and> dst = fsrc)
     })"

fun match_links_net :: "bool \<Rightarrow> bitvec \<Rightarrow> packet \<Rightarrow> fwd_entry list \<Rightarrow> fwd_entry list option" where
  "match_links_net mac fid p [] = Some []"
| "match_links_net mac fid p (fe # es) = do {
     m \<leftarrow> fid_matches fid (fe_LID fe);
     back \<leftarrow> (if m then from_this_link mac p fe else Some False);
     rest \<leftarrow> match_links_net mac fid p es;
     Some (if m \<and> \<not> back then fe # rest else rest)
   }"

subsection \<open>Sending\<close>

text \<open>A packet of the local proxy, wrapped for the link; each is sent on a copy of its own.\<close>

definition send_local :: "click_env \<Rightarrow> packet \<Rightarrow> fwd_entry \<Rightarrow> forwarder \<Rightarrow> forwarder option" where
  "send_local env p fe fw = (if use_mac (fw_gc fw) then do {
       dst \<leftarrow> fe_dst fe;
       src \<leftarrow> fe_src fe;
       np \<leftarrow> pk_push 14 (dst @ src @ fw_proto_type fw) p;
       Some (fw\<lparr>fw_out := fw_out fw @ [(fe_port fe, np)]\<rparr>)
     } else do {
       src \<leftarrow> fe_src_ip fe;
       dst \<leftarrow> fe_dst_ip fe;
       let len = length (pk_data p) + 28;
       np \<leftarrow> pk_push 28 (ip_header len (unat (fw_id fw)) src dst @ udp_header ((len - 20) mod 65536)) p;
       np \<leftarrow> set_checksums env np;
       Some (fw\<lparr>fw_id := fw_id fw + 1, fw_out := fw_out fw @ [(fe_port fe, np)]\<rparr>)
     })"

text \<open>A packet of the network, its addresses rewritten in place for the next link.\<close>

definition send_net :: "click_env \<Rightarrow> packet \<Rightarrow> fwd_entry \<Rightarrow> forwarder \<Rightarrow> forwarder option" where
  "send_net env p fe fw = (if use_mac (fw_gc fw) then do {
       dst \<leftarrow> fe_dst fe;
       src \<leftarrow> fe_src fe;
       np \<leftarrow> pk_poke 0 dst p;
       np \<leftarrow> pk_poke MAC_LEN src np;
       Some (fw\<lparr>fw_out := fw_out fw @ [(fe_port fe, np)]\<rparr>)
     } else do {
       src \<leftarrow> fe_src_ip fe;
       dst \<leftarrow> fe_dst_ip fe;
       np \<leftarrow> pk_poke 12 (src @ dst) p;
       np \<leftarrow> pk_poke 1 [0] np;
       np \<leftarrow> pk_poke 6 [0, 0] np;
       np \<leftarrow> pk_poke 8 [250] np;
       np \<leftarrow> set_checksums env np;
       Some (fw\<lparr>fw_out := fw_out fw @ [(fe_port fe, np)]\<rparr>)
     })"

definition Forwarder_push :: "click_env \<Rightarrow> nat \<Rightarrow> packet \<Rightarrow> forwarder \<Rightarrow> forwarder option" where
  "Forwarder_push env in_port p fw =
     (if in_port = 0 then do {
        b \<leftarrow> rdn p 0 FID_LEN;
        out_links \<leftarrow> match_links (fid_of_bytes b) (fwTable fw);
        fold_opt (send_local env p) out_links fw
      } else do {
        let mac = use_mac (fw_gc fw);
        let hdr = (if mac then 14 else 28);
        b \<leftarrow> rdn p hdr FID_LEN;
        let fid = fid_of_bytes b;
        let broadcast = bv_zero (bv_negate (bv_copy fid));
        out_links \<leftarrow> (if broadcast then Some [] else match_links_net mac fid p (fwTable fw));
        pushLocally \<leftarrow> fid_matches fid (iLID (fw_gc fw));
        fw \<leftarrow> (if broadcast then Some fw else fold_opt (send_net env p) out_links fw);
        if pushLocally then do {
          lp \<leftarrow> pk_pull (hdr + FID_LEN) p;
          Some (fw\<lparr>fw_out := fw_out fw @ [(0, lp)]\<rparr>)
        } else Some fw
      })"

subsection \<open>Well-formed forwarding tables\<close>

definition addr_ok :: "nat \<Rightarrow> bstr option \<Rightarrow> bool" where
  "addr_ok n a = (case a of None \<Rightarrow> False | Some b \<Rightarrow> length b = n)"

definition entry_wf :: "bool \<Rightarrow> fwd_entry \<Rightarrow> bool" where
  "entry_wf mac fe \<longleftrightarrow> is_fid (fe_LID fe) \<and>
     (if mac then addr_ok 6 (fe_src fe) \<and> addr_ok 6 (fe_dst fe)
      else addr_ok 4 (fe_src_ip fe) \<and> addr_ok 4 (fe_dst_ip fe))"

definition fw_wf :: "forwarder \<Rightarrow> bool" where
  "fw_wf fw \<longleftrightarrow> gc_wf (fw_gc fw) \<and> length (fw_proto_type fw) = 2 \<and>
     (\<forall>fe \<in> set (fwTable fw). entry_wf (use_mac (fw_gc fw)) fe)"

lemma addr_ok_Some: "addr_ok n a \<Longrightarrow> \<exists>b. a = Some b \<and> length b = n"
  by (auto simp: addr_ok_def split: option.splits)

lemma all_some_Some_iff: "all_some xs = Some ys \<longleftrightarrow> xs = map Some ys"
  by (induction xs arbitrary: ys rule: all_some.induct) (auto simp: map_eq_Cons_conv)

definition link_conf_ok :: "bool \<Rightarrow> link_conf \<Rightarrow> bool" where
  "link_conf_ok mac l \<longleftrightarrow> length (lc_lid l) = 256 \<and>
     length (lc_src l) = (if mac then 6 else 4) \<and> length (lc_dst l) = (if mac then 6 else 4)"

lemma new_fwd_entry_wf:
  assumes "link_conf_ok mac l"
  shows "\<exists>fe. new_fwd_entry mac l = Some fe \<and> entry_wf mac fe \<and> fe_port fe = lc_port l"
proof -
  obtain v where "parse_bits (lc_lid l) = Some v" "is_fid v"
    using parse_bits_correct [of "lc_lid l"] assms by (auto simp: link_conf_ok_def)
  then show ?thesis using assms by (auto simp: new_fwd_entry_def entry_wf_def addr_ok_def link_conf_ok_def)
qed

lemma Forwarder_configure_wf:
  assumes "gc_wf gc" and "nat n = length links" and "\<forall>l \<in> set links. link_conf_ok (use_mac gc) l"
  shows "\<exists>fw. Forwarder_configure gc n links = Some fw \<and> fw_wf fw \<and> fw_gc fw = gc \<and>
    map fe_port (fwTable fw) = map lc_port links"
proof -
  let ?f = "new_fwd_entry (use_mac gc)"
  obtain tbl where tbl: "all_some (map ?f links) = Some tbl"
    using all_some_map_ex [of links ?f] new_fwd_entry_wf assms(3) by metis
  then have eq: "map ?f links = map Some tbl" by (simp add: all_some_Some_iff)
  then have len: "length tbl = length links" by (metis length_map)
  have nth: "i < length links \<Longrightarrow> ?f (links ! i) = Some (tbl ! i)" for i
    using eq len by (metis nth_map)
  have good: "entry_wf (use_mac gc) (tbl ! i) \<and> fe_port (tbl ! i) = lc_port (links ! i)"
    if "i < length links" for i
    using nth [OF that] new_fwd_entry_wf [of "use_mac gc" "links ! i"] assms(3) that by auto
  have "map fe_port tbl = map lc_port links"
    by (rule nth_equalityI) (use good len in auto)
  moreover have "\<forall>fe \<in> set tbl. entry_wf (use_mac gc) fe"
    using good len by (metis in_set_conv_nth)
  ultimately show ?thesis
    using tbl assms(1,2) by (auto simp: Forwarder_configure_def fw_wf_def)
qed

subsection \<open>Matching is containment of the link identifier\<close>

lemma fid_matches_eq: "is_fid fid \<Longrightarrow> is_fid lid \<Longrightarrow> fid_matches fid lid = Some (lid_in_fid lid fid)"
  using fid_and_eq [of fid lid] by (auto simp: fid_matches_def)

lemma match_links_filter:
  assumes "is_fid fid" and "\<forall>fe \<in> set es. is_fid (fe_LID fe)"
  shows "match_links fid es = Some (filter (\<lambda>fe. lid_in_fid (fe_LID fe) fid) es)"
  using assms(2) by (induction es) (simp_all add: fid_matches_eq assms(1))

text \<open>The link a packet of the network came over (in the mode of the table).\<close>

definition came_over :: "bool \<Rightarrow> packet \<Rightarrow> fwd_entry \<Rightarrow> bool" where
  "came_over mac p fe = (if mac
     then rdn p 6 6 = fe_dst fe \<and> rdn p 0 6 = fe_src fe
     else rdn p 12 4 = fe_dst_ip fe \<and> rdn p 16 4 = fe_src_ip fe)"

definition net_header :: "bool \<Rightarrow> nat" where
  "net_header mac = (if mac then 14 else 28)"

text \<open>A packet whose link header and forwarding identifier are there and were written.\<close>

definition net_packet :: "bool \<Rightarrow> packet \<Rightarrow> bstr \<Rightarrow> bitvec \<Rightarrow> cell list \<Rightarrow> bool" where
  "net_packet mac p hdr fid rest \<longleftrightarrow> length hdr = net_header mac \<and> is_fid fid \<and>
     pk_data p = cells hdr @ cells (fid_bytes fid) @ rest"

lemma rdn_cells_prefix:
  assumes "pk_data p = cells hdr @ ys" and "i + n \<le> length hdr"
  shows "rdn p i n = Some (take n (drop i hdr))"
proof -
  have "take n (drop i (pk_data p)) = cells (take n (drop i hdr))"
    using assms by (simp add: take_cells drop_cells)
  then show ?thesis using assms by (simp add: rdn_def)
qed

lemma from_this_link_eq:
  assumes "net_packet mac p hdr fid rest" and "entry_wf mac fe"
  shows "from_this_link mac p fe = Some (came_over mac p fe)"
proof -
  have hdr: "pk_data p = cells hdr @ (cells (fid_bytes fid) @ rest)" "length hdr = net_header mac"
    using assms(1) by (simp_all add: net_packet_def)
  note rd = rdn_cells_prefix [OF hdr(1)]
  show ?thesis
  proof (cases mac)
    case True
    then obtain d s where "fe_dst fe = Some d" "fe_src fe = Some s"
      using assms(2) addr_ok_Some by (fastforce simp: entry_wf_def)
    with True hdr(2) rd [of 6 6] rd [of 0 6] show ?thesis
      by (simp add: from_this_link_def came_over_def net_header_def)
  next
    case False
    then obtain d s where "fe_dst_ip fe = Some d" "fe_src_ip fe = Some s"
      using assms(2) addr_ok_Some by (fastforce simp: entry_wf_def)
    with False hdr(2) rd [of 12 4] rd [of 16 4] show ?thesis
      by (simp add: from_this_link_def came_over_def net_header_def)
  qed
qed

lemma match_links_net_filter:
  assumes "net_packet mac p hdr fid rest" and "\<forall>fe \<in> set es. entry_wf mac fe"
  shows "match_links_net mac fid p es =
    Some (filter (\<lambda>fe. lid_in_fid (fe_LID fe) fid \<and> \<not> came_over mac p fe) es)"
  using assms(2)
proof (induction es)
  case (Cons fe es)
  then have fe: "entry_wf mac fe" by simp
  then have "fid_matches fid (fe_LID fe) = Some (lid_in_fid (fe_LID fe) fid)"
    using assms(1) by (simp add: fid_matches_eq net_packet_def entry_wf_def)
  with Cons from_this_link_eq [OF assms(1) fe] show ?case by auto
qed simp

subsection \<open>Sending over the matching links\<close>

definition mac_frame :: "bstr \<Rightarrow> fwd_entry \<Rightarrow> packet \<Rightarrow> packet" where
  "mac_frame proto fe p = p\<lparr>pk_data := cells (the (fe_dst fe) @ the (fe_src fe) @ proto) @ pk_data p\<rparr>"

lemma send_local_mac:
  assumes "use_mac (fw_gc fw)" "entry_wf True fe" "length (fw_proto_type fw) = 2"
  shows "send_local env p fe fw =
    Some (fw\<lparr>fw_out := fw_out fw @ [(fe_port fe, mac_frame (fw_proto_type fw) fe p)]\<rparr>)"
  using assms addr_ok_Some [of 6 "fe_src fe"] addr_ok_Some [of 6 "fe_dst fe"]
  by (auto simp: send_local_def entry_wf_def pk_push_def mac_frame_def)

lemma fold_send_local_mac:
  assumes "use_mac (fw_gc fw)" "\<forall>fe \<in> set es. entry_wf True fe" "length (fw_proto_type fw) = 2"
  shows "fold_opt (send_local env p) es fw =
    Some (fw\<lparr>fw_out := fw_out fw @ map (\<lambda>fe. (fe_port fe, mac_frame (fw_proto_type fw) fe p)) es\<rparr>)"
  using assms by (induction es arbitrary: fw) (simp_all add: send_local_mac)

definition mac_relay :: "fwd_entry \<Rightarrow> packet \<Rightarrow> packet" where
  "mac_relay fe p = p\<lparr>pk_data := cells (the (fe_dst fe) @ the (fe_src fe)) @ drop 12 (pk_data p)\<rparr>"

lemma send_net_mac:
  assumes "use_mac (fw_gc fw)" "entry_wf True fe" "12 \<le> length (pk_data p)"
  shows "send_net env p fe fw = Some (fw\<lparr>fw_out := fw_out fw @ [(fe_port fe, mac_relay fe p)]\<rparr>)"
  using assms addr_ok_Some [of 6 "fe_src fe"] addr_ok_Some [of 6 "fe_dst fe"]
  by (auto simp: send_net_def entry_wf_def pk_poke_def mac_relay_def)

lemma fold_send_net_mac:
  assumes "use_mac (fw_gc fw)" "\<forall>fe \<in> set es. entry_wf True fe" "12 \<le> length (pk_data p)"
  shows "fold_opt (send_net env p) es fw =
    Some (fw\<lparr>fw_out := fw_out fw @ map (\<lambda>fe. (fe_port fe, mac_relay fe p)) es\<rparr>)"
  using assms by (induction es arbitrary: fw) (simp_all add: send_net_mac)

text \<open>Over IP, what is kept of every packet whatever the checksum functions compute.\<close>

lemma nth_poke:
  assumes "i + length bs \<le> length xs" and "k < length xs"
  shows "(take i xs @ cells bs @ drop (i + length bs) xs) ! k =
    (if i \<le> k \<and> k < i + length bs then Some (bs ! (k - i)) else xs ! k)"
proof -
  consider "k < i" | "i \<le> k" "k < i + length bs" | "i + length bs \<le> k" by linarith
  then show ?thesis
  proof cases
    case 1
    then show ?thesis using assms by (simp add: nth_append)
  next
    case 2
    then have "k - i < length bs" by linarith
    with 2 show ?thesis using assms by (simp add: nth_append cells_def)
  next
    case 3
    then have "\<not> k - i < length bs" by linarith
    with 3 show ?thesis using assms by (simp add: nth_append)
  qed
qed

lemma pk_poke_ok: "i + length bs \<le> length (pk_data p) \<Longrightarrow> \<exists>q. pk_poke i bs p = Some q \<and>
  length (pk_data q) = length (pk_data p) \<and> pk_anno q = pk_anno p \<and>
  (\<forall>k < length (pk_data p). pk_data q ! k = (if i \<le> k \<and> k < i + length bs then Some (bs ! (k - i)) else pk_data p ! k))"
  by (simp add: pk_poke_def nth_poke)

lemma pk_poke_two: "i + 2 \<le> length (pk_data p) \<Longrightarrow> \<exists>q. pk_poke i [a, b] p = Some q \<and>
  length (pk_data q) = length (pk_data p) \<and>
  (\<forall>k < length (pk_data p). k \<notin> {i, Suc i} \<longrightarrow> pk_data q ! k = pk_data p ! k)"
  using pk_poke_ok [of i "[a, b]" p] by force

lemma set_checksums_ok:
  assumes "28 \<le> length (pk_data p)"
  shows "\<exists>q. set_checksums env p = Some q \<and> length (pk_data q) = length (pk_data p) \<and>
    (\<forall>k < length (pk_data p). k \<notin> {10, 11, 26, 27} \<longrightarrow> pk_data q ! k = pk_data p ! k)"
proof -
  from assms pk_poke_two [of 10 p 0 0] obtain p1 where p1: "pk_poke 10 [0, 0] p = Some p1"
    "length (pk_data p1) = length (pk_data p)"
    "\<forall>k < length (pk_data p). k \<notin> {10, Suc 10} \<longrightarrow> pk_data p1 ! k = pk_data p ! k" by auto
  let ?c = "in_cksum env (take 20 (pk_data p1))"
  from assms p1(2) pk_poke_two [of 10 p1 "fst ?c" "snd ?c"] obtain p2 where
    p2: "pk_poke 10 [fst ?c, snd ?c] p1 = Some p2" "length (pk_data p2) = length (pk_data p)"
    "\<forall>k < length (pk_data p). k \<notin> {10, Suc 10} \<longrightarrow> pk_data p2 ! k = pk_data p1 ! k" by auto
  from assms p2(2) pk_poke_two [of 26 p2 0 0] obtain p3 where p3: "pk_poke 26 [0, 0] p2 = Some p3"
    "length (pk_data p3) = length (pk_data p)"
    "\<forall>k < length (pk_data p). k \<notin> {26, Suc 26} \<longrightarrow> pk_data p3 ! k = pk_data p2 ! k" by auto
  let ?len = "(length (pk_data p3) - 20) mod 65536"
  let ?u = "in_cksum_pseudohdr env (in_cksum env (take ?len (drop 20 (pk_data p3)))) (take 20 (pk_data p3)) ?len"
  from assms p3(2) pk_poke_two [of 26 p3 "fst ?u" "snd ?u"] obtain p4 where
    p4: "pk_poke 26 [fst ?u, snd ?u] p3 = Some p4" "length (pk_data p4) = length (pk_data p)"
    "\<forall>k < length (pk_data p). k \<notin> {26, Suc 26} \<longrightarrow> pk_data p4 ! k = pk_data p3 ! k" by auto
  have "set_checksums env p = Some p4"
    using p1(1) p2(1) p3(1) p4(1) by (simp add: set_checksums_def Let_def)
  with p4(2,3) p3(3) p2(3) p1(3) show ?thesis by auto
qed


lemma u8_less: "u8 250 = 250" "u8 17 = 17"
  by (simp_all add: u8_def)

text \<open>What an IP packet of the element carries: addresses, time to live, and everything after the headers.\<close>

definition ip_frame_of :: "fwd_entry \<Rightarrow> cell list \<Rightarrow> packet \<Rightarrow> bool" where
  "ip_frame_of fe payload q \<longleftrightarrow> length (pk_data q) = 28 + length payload \<and> drop 28 (pk_data q) = payload \<and>
     rdn q 12 4 = fe_src_ip fe \<and> rdn q 16 4 = fe_dst_ip fe \<and> rd8 q 8 = Some 250"

lemma ip_frame_keep:
  assumes "length (pk_data q) = length d" "28 \<le> length d"
    and "\<forall>k < length d. k \<notin> {10, 11, 26, 27} \<longrightarrow> pk_data q ! k = d ! k"
  shows "drop 28 (pk_data q) = drop 28 d" "take 4 (drop 12 (pk_data q)) = take 4 (drop 12 d)"
    "take 4 (drop 16 (pk_data q)) = take 4 (drop 16 d)" "pk_data q ! 8 = d ! 8"
proof -
  show "drop 28 (pk_data q) = drop 28 d"
    by (rule nth_equalityI) (use assms in auto)
  show "take 4 (drop 12 (pk_data q)) = take 4 (drop 12 d)"
    by (rule nth_equalityI) (use assms in auto)
  show "take 4 (drop 16 (pk_data q)) = take 4 (drop 16 d)"
    by (rule nth_equalityI) (use assms in auto)
  show "pk_data q ! 8 = d ! 8" using assms by simp
qed

lemma send_local_ip:
  assumes "\<not> use_mac (fw_gc fw)" "entry_wf False fe"
  shows "\<exists>q. send_local env p fe fw =
      Some (fw\<lparr>fw_id := fw_id fw + 1, fw_out := fw_out fw @ [(fe_port fe, q)]\<rparr>) \<and>
    ip_frame_of fe (pk_data p) q"
proof -
  obtain s d where a: "fe_src_ip fe = Some s" "length s = 4" "fe_dst_ip fe = Some d" "length d = 4"
    using assms(2) addr_ok_Some [of 4 "fe_src_ip fe"] addr_ok_Some [of 4 "fe_dst_ip fe"]
    by (auto simp: entry_wf_def)
  let ?len = "length (pk_data p) + 28"
  define hdr where "hdr = ip_header ?len (unat (fw_id fw)) s d @ udp_header ((?len - 20) mod 65536)"
  have hl: "length hdr = 28" using a by (simp add: hdr_def ip_header_def udp_header_def be16_def)
  define np where "np = p\<lparr>pk_data := cells hdr @ pk_data p\<rparr>"
  have push: "pk_push 28 hdr p = Some np" by (simp add: pk_push_def hl np_def)
  have npl: "length (pk_data np) = ?len" by (simp add: np_def hl)
  obtain q where q: "set_checksums env np = Some q" "length (pk_data q) = length (pk_data np)"
    "\<forall>k < length (pk_data np). k \<notin> {10, 11, 26, 27} \<longrightarrow> pk_data q ! k = pk_data np ! k"
    using set_checksums_ok [of np env] npl by auto
  have "28 \<le> length (pk_data np)" using npl by simp
  note keep = ip_frame_keep [OF q(2) this q(3)]
  have dat: "drop 28 (pk_data np) = pk_data p" by (simp add: np_def hl)
  have hs: "take 4 (drop 12 (pk_data np)) = cells s" "take 4 (drop 16 (pk_data np)) = cells d"
    "pk_data np ! 8 = Some 250"
    using a by (simp_all add: np_def hdr_def ip_header_def be16_def)
  have "ip_frame_of fe (pk_data p) q"
    unfolding ip_frame_of_def rdn_def rd8_def keep dat hs q(2) npl a by simp
  moreover have "send_local env p fe fw =
      Some (fw\<lparr>fw_id := fw_id fw + 1, fw_out := fw_out fw @ [(fe_port fe, q)]\<rparr>)"
    using assms(1) a push q(1) by (simp add: send_local_def Let_def hdr_def)
  ultimately show ?thesis by blast
qed

lemma fold_send_local_ip:
  assumes "\<not> use_mac (fw_gc fw)" "\<forall>fe \<in> set es. entry_wf False fe"
  shows "\<exists>qs. fold_opt (send_local env p) es fw =
      Some (fw\<lparr>fw_id := fw_id fw + of_nat (length es), fw_out := fw_out fw @ zip (map fe_port es) qs\<rparr>) \<and>
    list_all2 (\<lambda>fe q. ip_frame_of fe (pk_data p) q) es qs"
  using assms
proof (induction es arbitrary: fw)
  case Nil
  then show ?case by simp
next
  case (Cons fe es)
  from send_local_ip [of fw fe env p] Cons.prems obtain q where
    q: "send_local env p fe fw = Some (fw\<lparr>fw_id := fw_id fw + 1, fw_out := fw_out fw @ [(fe_port fe, q)]\<rparr>)"
    "ip_frame_of fe (pk_data p) q" by auto
  let ?fw = "fw\<lparr>fw_id := fw_id fw + 1, fw_out := fw_out fw @ [(fe_port fe, q)]\<rparr>"
  from Cons.IH [of ?fw] Cons.prems obtain qs where
    "fold_opt (send_local env p) es ?fw =
      Some (?fw\<lparr>fw_id := fw_id ?fw + of_nat (length es), fw_out := fw_out ?fw @ zip (map fe_port es) qs\<rparr>)"
    "list_all2 (\<lambda>fe q. ip_frame_of fe (pk_data p) q) es qs" by auto
  with q have "fold_opt (send_local env p) (fe # es) fw =
      Some (fw\<lparr>fw_id := fw_id fw + of_nat (length (fe # es)), fw_out := fw_out fw @ zip (map fe_port (fe # es)) (q # qs)\<rparr>)
    \<and> list_all2 (\<lambda>fe q. ip_frame_of fe (pk_data p) q) (fe # es) (q # qs)"
    by (simp add: algebra_simps)
  then show ?case by blast
qed

lemma send_net_ip:
  assumes "\<not> use_mac (fw_gc fw)" "entry_wf False fe" "28 \<le> length (pk_data p)"
  shows "\<exists>q. send_net env p fe fw = Some (fw\<lparr>fw_out := fw_out fw @ [(fe_port fe, q)]\<rparr>) \<and>
    ip_frame_of fe (drop 28 (pk_data p)) q"
proof -
  obtain s d where a: "fe_src_ip fe = Some s" "length s = 4" "fe_dst_ip fe = Some d" "length d = 4"
    using assms(2) addr_ok_Some [of 4 "fe_src_ip fe"] addr_ok_Some [of 4 "fe_dst_ip fe"]
    by (auto simp: entry_wf_def)
  let ?n = "length (pk_data p)"
  from pk_poke_ok [of 12 "s @ d" p] a assms(3) obtain p1 where p1: "pk_poke 12 (s @ d) p = Some p1"
    "length (pk_data p1) = ?n"
    "\<forall>k < ?n. pk_data p1 ! k = (if 12 \<le> k \<and> k < 20 then Some ((s @ d) ! (k - 12)) else pk_data p ! k)"
    by auto
  from pk_poke_ok [of 1 "[0]" p1] p1(2) assms(3) obtain p2 where p2: "pk_poke 1 [0] p1 = Some p2"
    "length (pk_data p2) = ?n" "\<forall>k < ?n. k \<noteq> 1 \<longrightarrow> pk_data p2 ! k = pk_data p1 ! k" by force
  from pk_poke_two [of 6 p2 0 0] p2(2) assms(3) obtain p3 where p3: "pk_poke 6 [0, 0] p2 = Some p3"
    "length (pk_data p3) = ?n" "\<forall>k < ?n. k \<notin> {6, Suc 6} \<longrightarrow> pk_data p3 ! k = pk_data p2 ! k" by auto
  from pk_poke_ok [of 8 "[250]" p3] p3(2) assms(3) obtain p4 where p4: "pk_poke 8 [250] p3 = Some p4"
    "length (pk_data p4) = ?n"
    "\<forall>k < ?n. pk_data p4 ! k = (if 8 \<le> k \<and> k < 9 then Some ([250] ! (k - 8)) else pk_data p3 ! k)" by auto
  obtain q where q: "set_checksums env p4 = Some q" "length (pk_data q) = length (pk_data p4)"
    "\<forall>k < length (pk_data p4). k \<notin> {10, 11, 26, 27} \<longrightarrow> pk_data q ! k = pk_data p4 ! k"
    using set_checksums_ok [of p4 env] p4(2) assms(3) by auto
  have "28 \<le> length (pk_data p4)" using p4(2) assms(3) by simp
  note keep = ip_frame_keep [OF q(2) this q(3)]
  have high: "pk_data p4 ! k = pk_data p1 ! k" if "9 \<le> k" "k < ?n" for k
    using that p2(3) p3(3) p4(3) by simp
  have dat: "drop 28 (pk_data p4) = drop 28 (pk_data p)"
    by (rule nth_equalityI) (use p4(2) high p1(3) in auto)
  have s12: "take 4 (drop 12 (pk_data p4)) = cells s"
    by (rule nth_equalityI) (use p4(2) high p1(3) a assms(3) in \<open>auto simp: cells_def nth_append\<close>)
  have d16: "take 4 (drop 16 (pk_data p4)) = cells d"
    by (rule nth_equalityI) (use p4(2) high p1(3) a assms(3) in \<open>auto simp: cells_def nth_append\<close>)
  have ttl: "pk_data p4 ! 8 = Some 250" using p4(3) assms(3) by simp
  have "ip_frame_of fe (drop 28 (pk_data p)) q"
    unfolding ip_frame_of_def rdn_def rd8_def keep dat s12 d16 ttl q(2) p4(2) a using assms(3) by simp
  moreover have "send_net env p fe fw = Some (fw\<lparr>fw_out := fw_out fw @ [(fe_port fe, q)]\<rparr>)"
    using assms(1) a p1(1) p2(1) p3(1) p4(1) q(1) by (simp add: send_net_def)
  ultimately show ?thesis by blast
qed

lemma fold_send_net_ip:
  assumes "\<not> use_mac (fw_gc fw)" "\<forall>fe \<in> set es. entry_wf False fe" "28 \<le> length (pk_data p)"
  shows "\<exists>qs. fold_opt (send_net env p) es fw =
      Some (fw\<lparr>fw_out := fw_out fw @ zip (map fe_port es) qs\<rparr>) \<and>
    list_all2 (\<lambda>fe q. ip_frame_of fe (drop 28 (pk_data p)) q) es qs"
  using assms
proof (induction es arbitrary: fw)
  case Nil
  then show ?case by simp
next
  case (Cons fe es)
  from send_net_ip [of fw fe p env] Cons.prems obtain q where
    q: "send_net env p fe fw = Some (fw\<lparr>fw_out := fw_out fw @ [(fe_port fe, q)]\<rparr>)"
    "ip_frame_of fe (drop 28 (pk_data p)) q" by auto
  let ?fw = "fw\<lparr>fw_out := fw_out fw @ [(fe_port fe, q)]\<rparr>"
  from Cons.IH [of ?fw] Cons.prems obtain qs where
    "fold_opt (send_net env p) es ?fw = Some (?fw\<lparr>fw_out := fw_out ?fw @ zip (map fe_port es) qs\<rparr>)"
    "list_all2 (\<lambda>fe q. ip_frame_of fe (drop 28 (pk_data p)) q) es qs" by auto
  with q have "fold_opt (send_net env p) (fe # es) fw =
      Some (fw\<lparr>fw_out := fw_out fw @ zip (map fe_port (fe # es)) (q # qs)\<rparr>)
    \<and> list_all2 (\<lambda>fe q. ip_frame_of fe (drop 28 (pk_data p)) q) (fe # es) (q # qs)"
    by simp
  then show ?case by blast
qed

subsection \<open>Correctness of push\<close>

definition link_frame :: "forwarder \<Rightarrow> packet \<Rightarrow> fwd_entry \<Rightarrow> int \<times> packet \<Rightarrow> bool" where
  "link_frame fw p fe out \<longleftrightarrow> fst out = fe_port fe \<and>
     (if use_mac (fw_gc fw) then snd out = mac_frame (fw_proto_type fw) fe p
      else ip_frame_of fe (pk_data p) (snd out))"

definition link_relay :: "forwarder \<Rightarrow> packet \<Rightarrow> fwd_entry \<Rightarrow> int \<times> packet \<Rightarrow> bool" where
  "link_relay fw p fe out \<longleftrightarrow> fst out = fe_port fe \<and>
     (if use_mac (fw_gc fw) then snd out = mac_relay fe p
      else ip_frame_of fe (drop 28 (pk_data p)) (snd out))"

definition all_ones :: "bitvec \<Rightarrow> bool" where
  "all_ones fid \<longleftrightarrow> (\<forall>i < 256. bv_bit fid i)"

lemma fid_broadcast: "is_fid fid \<Longrightarrow> bv_zero (bv_negate (bv_copy fid)) = all_ones fid"
  using fid_negate [OF fid_copy [of fid]] bv_copy_bit [OF fid_wf, of fid]
  by (simp add: fid_zero all_ones_def fid_nwords)

lemma list_all2_zip_ports:
  "list_all2 P es qs \<Longrightarrow> list_all2 (\<lambda>fe out. fst out = fe_port fe \<and> P fe (snd out)) es (zip (map fe_port es) qs)"
  by (induction rule: list_all2_induct) auto

lemma list_all2_map_self: "(\<And>x. x \<in> set xs \<Longrightarrow> P x (f x)) \<Longrightarrow> list_all2 P xs (map f xs)"
  by (induction xs) auto

lemma forwarder_push_local_aux:
  assumes "fw_wf fw" and "is_fid fid" and "pk_data p = cells (fid_bytes fid) @ rest"
  shows "\<exists>fw' outs. Forwarder_push env 0 p fw = Some fw' \<and> fw_out fw' = fw_out fw @ outs \<and>
    fwTable fw' = fwTable fw \<and> fw_gc fw' = fw_gc fw \<and>
    list_all2 (link_frame fw p) (filter (\<lambda>fe. lid_in_fid (fe_LID fe) fid) (fwTable fw)) outs"
proof -
  let ?links = "filter (\<lambda>fe. lid_in_fid (fe_LID fe) fid) (fwTable fw)"
  let ?mac = "use_mac (fw_gc fw)"
  have tbl: "\<forall>fe \<in> set (fwTable fw). is_fid (fe_LID fe)" "\<forall>fe \<in> set ?links. entry_wf ?mac fe"
    "length (fw_proto_type fw) = 2"
    using assms(1) by (auto simp: fw_wf_def entry_wf_def)
  have "rdn p 0 32 = Some (fid_bytes fid)"
    using rdn_cells_prefix [OF assms(3), of 0 32] length_fid_bytes [OF assms(2)] by simp
  then have push: "Forwarder_push env 0 p fw = fold_opt (send_local env p) ?links fw"
    using match_links_filter [OF assms(2) tbl(1)] fid_of_fid_bytes [OF assms(2)]
    by (simp add: Forwarder_push_def)
  show ?thesis
  proof (cases ?mac)
    case True
    with fold_send_local_mac [of fw ?links env p] tbl have
      "Forwarder_push env 0 p fw = Some (fw\<lparr>fw_out := fw_out fw @
         map (\<lambda>fe. (fe_port fe, mac_frame (fw_proto_type fw) fe p)) ?links\<rparr>)"
      by (simp add: push)
    moreover have "list_all2 (link_frame fw p) ?links
        (map (\<lambda>fe. (fe_port fe, mac_frame (fw_proto_type fw) fe p)) ?links)"
      by (rule list_all2_map_self) (simp add: link_frame_def True)
    ultimately show ?thesis by fastforce
  next
    case False
    with fold_send_local_ip [of fw ?links env p] tbl obtain qs where
      "Forwarder_push env 0 p fw = Some (fw\<lparr>fw_id := fw_id fw + of_nat (length ?links),
         fw_out := fw_out fw @ zip (map fe_port ?links) qs\<rparr>)"
      "list_all2 (\<lambda>fe q. ip_frame_of fe (pk_data p) q) ?links qs"
      by (auto simp: push)
    with list_all2_zip_ports [OF this(2)] False show ?thesis
      by (fastforce simp: link_frame_def [abs_def])
  qed
qed

lemma fold_send_net_relay:
  assumes "\<forall>fe \<in> set es. entry_wf (use_mac (fw_gc fw)) fe" and "12 \<le> length (pk_data p)"
    and "\<not> use_mac (fw_gc fw) \<Longrightarrow> 28 \<le> length (pk_data p)"
  shows "\<exists>fw1 outs. fold_opt (send_net env p) es fw = Some fw1 \<and>
      fw_out fw1 = fw_out fw @ outs \<and> list_all2 (link_relay fw p) es outs"
proof (cases "use_mac (fw_gc fw)")
  case True
  have "list_all2 (link_relay fw p) es (map (\<lambda>fe. (fe_port fe, mac_relay fe p)) es)"
    by (rule list_all2_map_self) (simp add: link_relay_def True)
  then show ?thesis using fold_send_net_mac [of fw es p env] assms True by simp
next
  case False
  then obtain qs where
    r: "fold_opt (send_net env p) es fw = Some (fw\<lparr>fw_out := fw_out fw @ zip (map fe_port es) qs\<rparr>)"
    and q: "list_all2 (\<lambda>fe q. ip_frame_of fe (drop 28 (pk_data p)) q) es qs"
    using fold_send_net_ip [of fw es p env] assms by auto
  have "list_all2 (link_relay fw p) es (zip (map fe_port es) qs)"
    using list_all2_zip_ports [OF q] False by (simp add: link_relay_def [abs_def])
  with r show ?thesis by simp
qed

lemma forwarder_push_network_aux:
  assumes "fw_wf fw" and "net_packet (use_mac (fw_gc fw)) p hdr fid rest" and "in_port \<noteq> 0"
  shows "\<exists>fw' outs. Forwarder_push env in_port p fw = Some fw' \<and>
    fw_out fw' = fw_out fw @ outs @
      (if lid_in_fid (iLID (fw_gc fw)) fid then [(0, p\<lparr>pk_data := rest\<rparr>)] else []) \<and>
    list_all2 (link_relay fw p) (if all_ones fid then [] else
      filter (\<lambda>fe. lid_in_fid (fe_LID fe) fid \<and> \<not> came_over (use_mac (fw_gc fw)) p fe) (fwTable fw)) outs"
proof -
  let ?mac = "use_mac (fw_gc fw)"
  let ?sel = "filter (\<lambda>fe. lid_in_fid (fe_LID fe) fid \<and> \<not> came_over ?mac p fe) (fwTable fw)"
  let ?links = "if all_ones fid then [] else ?sel"
  define loc where "loc = (if lid_in_fid (iLID (fw_gc fw)) fid then [(0::int, p\<lparr>pk_data := rest\<rparr>)] else [])"
  have fid: "is_fid fid" and hdr: "length hdr = net_header ?mac"
    and dat: "pk_data p = cells hdr @ (cells (fid_bytes fid) @ rest)"
    using assms(2) by (simp_all add: net_packet_def)
  have tbl: "\<forall>fe \<in> set (fwTable fw). entry_wf ?mac fe" and il: "is_fid (iLID (fw_gc fw))"
    using assms(1) by (auto simp: fw_wf_def gc_wf_def)
  have lens: "12 \<le> length (pk_data p)" "\<not> ?mac \<Longrightarrow> 28 \<le> length (pk_data p)"
    using dat hdr by (auto simp: net_header_def split: if_splits)
  have lb: "length (fid_bytes fid) = 32" by (rule length_fid_bytes [OF fid])
  have rd: "rdn p (if ?mac then 14 else 28) 32 = Some (fid_bytes fid)"
    using rdn_skip [OF dat] hdr lb by (simp add: net_header_def)
  have pull: "pk_pull ((if ?mac then 14 else 28) + 32) p = Some (p\<lparr>pk_data := rest\<rparr>)"
    using dat hdr lb by (auto simp: pk_pull_def net_header_def)
  have links: "(if all_ones fid then Some [] else match_links_net ?mac fid p (fwTable fw)) = Some ?links"
    using match_links_net_filter [OF assms(2) tbl] by simp
  have wfl: "\<forall>fe \<in> set ?links. entry_wf ?mac fe" using tbl by auto
  have "\<exists>fw1 outs. fold_opt (send_net env p) ?links fw = Some fw1 \<and>
      fw_out fw1 = fw_out fw @ outs \<and> list_all2 (link_relay fw p) ?links outs"
    by (rule fold_send_net_relay [OF wfl lens])
  then obtain fw1 outs where fw1: "fold_opt (send_net env p) ?links fw = Some fw1"
    "fw_out fw1 = fw_out fw @ outs" "list_all2 (link_relay fw p) ?links outs"
    by blast
  have skip: "(if all_ones fid then Some fw else fold_opt (send_net env p) ?links fw) = Some fw1"
    using fw1(1) by (cases "all_ones fid") auto
  have local: "fid_matches fid (iLID (fw_gc fw)) = Some (lid_in_fid (iLID (fw_gc fw)) fid)"
    by (rule fid_matches_eq [OF fid il])
  have "Forwarder_push env in_port p fw = Some (fw1\<lparr>fw_out := fw_out fw1 @ loc\<rparr>)"
    unfolding Forwarder_push_def Let_def loc_def
    by (simp only: assms(3) if_False rd bind.bind_lunit fid_of_fid_bytes [OF fid]
        fid_broadcast [OF fid] links local skip pull)
       simp
  moreover have "fw_out (fw1\<lparr>fw_out := fw_out fw1 @ loc\<rparr>) = fw_out fw @ outs @ loc"
    using fw1(2) by simp
  ultimately show ?thesis using fw1(3) unfolding loc_def by blast
qed

text \<open>
  C26. A packet the local proxy hands to the forwarder leaves over exactly the links of the table
  whose link identifier is contained in the forwarding identifier the packet starts with, in table
  order and once each; every copy is the packet behind the link's Ethernet header, or behind an
  IP/UDP header with the link's addresses and a time to live of 250.
\<close>

theorem forwarder_push_local:
  assumes "fw_wf fw" and "is_fid fid" and "pk_data p = cells (fid_bytes fid) @ rest"
  shows "\<exists>fw' outs. Forwarder_push env 0 p fw = Some fw' \<and> fw_out fw' = fw_out fw @ outs \<and>
    fwTable fw' = fwTable fw \<and> fw_gc fw' = fw_gc fw \<and>
    list_all2 (link_frame fw p) (filter (\<lambda>fe. lid_in_fid (fe_LID fe) fid) (fwTable fw)) outs"
  using assms by (rule forwarder_push_local_aux)

text \<open>
  C4. A packet from the network (a link header, the forwarding identifier, the rest) is relayed over
  exactly the links whose identifier the packet's identifier contains, except the link it came over,
  and over none when all bits of the identifier are set (link broadcast); it is handed to the local
  proxy, without its headers and after the relayed copies, exactly when the identifier contains the
  node's internal link identifier.
\<close>

theorem forwarder_push_network:
  assumes "fw_wf fw" and "net_packet (use_mac (fw_gc fw)) p hdr fid rest" and "in_port \<noteq> 0"
  shows "\<exists>fw' outs. Forwarder_push env in_port p fw = Some fw' \<and>
    fw_out fw' = fw_out fw @ outs @
      (if lid_in_fid (iLID (fw_gc fw)) fid then [(0, p\<lparr>pk_data := rest\<rparr>)] else []) \<and>
    list_all2 (link_relay fw p) (if all_ones fid then [] else
      filter (\<lambda>fe. lid_in_fid (fe_LID fe) fid \<and> \<not> came_over (use_mac (fw_gc fw)) p fe) (fwTable fw)) outs"
  using assms by (rule forwarder_push_network_aux)

subsection \<open>Runs of the element\<close>

lemma send_local_frame: "send_local env p fe fw = Some fw' \<Longrightarrow>
  fw_gc fw' = fw_gc fw \<and> fwTable fw' = fwTable fw \<and> fw_proto_type fw' = fw_proto_type fw"
  by (auto simp: send_local_def Let_def split: if_splits Option.bind_splits)

lemma send_net_frame: "send_net env p fe fw = Some fw' \<Longrightarrow>
  fw_gc fw' = fw_gc fw \<and> fwTable fw' = fwTable fw \<and> fw_proto_type fw' = fw_proto_type fw"
  by (auto simp: send_net_def split: if_splits Option.bind_splits)

lemma fold_send_local_frame: "fold_opt (send_local env p) es fw = Some fw' \<Longrightarrow>
  fw_gc fw' = fw_gc fw \<and> fwTable fw' = fwTable fw \<and> fw_proto_type fw' = fw_proto_type fw"
  by (erule fold_opt_inv [where I = "\<lambda>_ s. fw_gc s = fw_gc fw \<and> fwTable s = fwTable fw \<and> fw_proto_type s = fw_proto_type fw"])
     (auto dest: send_local_frame)

lemma fold_send_net_frame: "fold_opt (send_net env p) es fw = Some fw' \<Longrightarrow>
  fw_gc fw' = fw_gc fw \<and> fwTable fw' = fwTable fw \<and> fw_proto_type fw' = fw_proto_type fw"
  by (erule fold_opt_inv [where I = "\<lambda>_ s. fw_gc s = fw_gc fw \<and> fwTable s = fwTable fw \<and> fw_proto_type s = fw_proto_type fw"])
     (auto dest: send_net_frame)

lemma Forwarder_push_frame: "Forwarder_push env port p fw = Some fw' \<Longrightarrow>
  fw_gc fw' = fw_gc fw \<and> fwTable fw' = fwTable fw \<and> fw_proto_type fw' = fw_proto_type fw"
  by (auto simp: Forwarder_push_def Let_def split: if_splits Option.bind_splits
      dest: fold_send_local_frame fold_send_net_frame)

lemma Forwarder_push_wf: "fw_wf fw \<Longrightarrow> Forwarder_push env port p fw = Some fw' \<Longrightarrow> fw_wf fw'"
  using Forwarder_push_frame [of env port p fw fw'] by (simp add: fw_wf_def)

text \<open>An acceptable packet: long enough for its headers, and with those bytes written.\<close>

definition fw_event_ok :: "nat \<times> packet \<Rightarrow> forwarder \<Rightarrow> bool" where
  "fw_event_ok ev fw = (let n = (if fst ev = 0 then 32 else net_header (use_mac (fw_gc fw)) + 32) in
     n \<le> length (pk_data (snd ev)) \<and> list_all (\<lambda>c. c \<noteq> None) (take n (pk_data (snd ev))))"

definition fw_step :: "click_env \<Rightarrow> nat \<times> packet \<Rightarrow> forwarder \<Rightarrow> forwarder option" where
  "fw_step env ev fw = Forwarder_push env (fst ev) (snd ev) fw"

lemma written_cells: "list_all (\<lambda>c. c \<noteq> None) xs \<Longrightarrow> \<exists>bs. xs = cells bs"
proof (induction xs)
  case Nil
  show ?case by (rule exI [of _ "[]"]) simp
next
  case (Cons c xs)
  then obtain bs b where "xs = cells bs" "c = Some b" by auto
  then have "c # xs = cells (b # bs)" by simp
  then show ?case by blast
qed

lemma written_prefix:
  assumes "n \<le> length d" and "list_all (\<lambda>c. c \<noteq> None) (take n d)"
  shows "\<exists>bs. length bs = n \<and> d = cells bs @ drop n d"
proof -
  obtain bs where bs: "take n d = cells bs" using written_cells assms(2) by blast
  have "length (take n d) = n" using assms(1) by simp
  then have "length bs = n" unfolding bs by simp
  then show ?thesis using bs append_take_drop_id [of n d] by metis
qed

lemma fw_safe_step:
  assumes "fw_wf fw" and "fw_event_ok ev fw"
  shows "\<exists>fw'. fw_step env ev fw = Some fw' \<and> fw_wf fw'"
proof (cases ev)
  case (Pair port p)
  have "\<exists>fw'. Forwarder_push env port p fw = Some fw'"
  proof (cases "port = 0")
    case True
    then obtain bs where "length bs = 32" "pk_data p = cells bs @ drop 32 (pk_data p)"
      using assms(2) written_prefix [of 32 "pk_data p"] by (auto simp: fw_event_ok_def Pair)
    then have "is_fid (fid_of_bytes bs)" "pk_data p = cells (fid_bytes (fid_of_bytes bs)) @ drop 32 (pk_data p)"
      by (simp_all add: fid_of_bytes_fid fid_bytes_of_bytes)
    from forwarder_push_local_aux [OF assms(1) this] True show ?thesis by blast
  next
    case False
    let ?h = "net_header (use_mac (fw_gc fw))"
    obtain bs where bs: "length bs = ?h + 32" "pk_data p = cells bs @ drop (?h + 32) (pk_data p)"
      using assms(2) written_prefix [of "?h + 32" "pk_data p"] False by (auto simp: fw_event_ok_def Pair Let_def)
    let ?f = "drop ?h bs"
    have f: "length ?f = 32" using bs(1) by simp
    have "cells bs = cells (take ?h bs) @ cells ?f" by (metis append_take_drop_id cells_append)
    then have "net_packet (use_mac (fw_gc fw)) p (take ?h bs) (fid_of_bytes ?f) (drop (?h + 32) (pk_data p))"
      using bs f by (simp add: net_packet_def fid_of_bytes_fid fid_bytes_of_bytes)
    from forwarder_push_network_aux [OF assms(1) this False] show ?thesis by blast
  qed
  then show ?thesis using Forwarder_push_wf [OF assms(1)] by (auto simp: fw_step_def Pair)
qed

interpretation fwd: element "fw_step env" fw_event_ok fw_wf for env
  by unfold_locales (rule fw_safe_step)

text \<open>
  C24. A configured forwarder fed any sequence of packets, from the local proxy or the network, each
  holding its link header and forwarding identifier, handles every one of them: no null address, no
  read or write outside a packet and no failing bit-vector assertion, and its table stays well formed.
\<close>

theorem forwarder_runs_safely:
  assumes "gc_wf gc" and "nat n = length links" and "\<forall>l \<in> set links. link_conf_ok (use_mac gc) l"
    and "Forwarder_configure gc n links = Some fw" and "run_ok (fw_step env) fw_event_ok evs fw"
  shows "\<exists>fw'. fold_opt (fw_step env) evs fw = Some fw' \<and> fw_wf fw'"
proof -
  have "fw_wf fw" using Forwarder_configure_wf [OF assms(1-3)] assms(4) by auto
  then show ?thesis using assms(5) by (rule fwd.safe_run)
qed

subsection \<open>A concrete node\<close>

definition ex_entry :: "int \<Rightarrow> 32 word \<Rightarrow> byte \<Rightarrow> fwd_entry" where
  "ex_entry port lid peer = \<lparr>fe_src = Some [0, 0, 0, 0, 0, 1], fe_dst = Some [0, 0, 0, 0, 0, peer],
     fe_src_ip = None, fe_dst_ip = None, fe_port = port, fe_LID = ex_fid lid\<rparr>"

definition ex_fw :: forwarder where
  "ex_fw = \<lparr>fw_gc = ex_gc, fw_id = 0, fw_proto_type = [8, 10], fw_number_of_links = 2,
     fwTable = [ex_entry 1 1 2, ex_entry 2 2 3], fw_out = []\<rparr>"

definition ex_env :: click_env where
  "ex_env = \<lparr>in_cksum = (\<lambda>_. (0, 0)), in_cksum_pseudohdr = (\<lambda>_ _ _. (0, 0))\<rparr>"

lemma ex_fw_wf: "fw_wf ex_fw"
proof -
  have "use_mac ex_gc" by (simp add: ex_gc_def)
  then show ?thesis
    by (simp add: fw_wf_def ex_fw_def ex_gc_wf ex_entry_def entry_wf_def ex_fid_ok addr_ok_def)
qed

definition ex_local :: packet where
  "ex_local = of_bytes (fid_bytes (ex_fid 5) @ [42])"

definition ex_net :: packet where
  "ex_net = of_bytes ([0, 0, 0, 0, 0, 1] @ [0, 0, 0, 0, 0, 3] @ [8, 10] @ fid_bytes (ex_fid 11) @ [42])"

theorem forwarder_push_local_witness:
  "\<exists>fw' outs. Forwarder_push ex_env 0 ex_local ex_fw = Some fw' \<and> fw_out fw' = fw_out ex_fw @ outs \<and>
    fwTable fw' = fwTable ex_fw \<and> fw_gc fw' = fw_gc ex_fw \<and>
    list_all2 (link_frame ex_fw ex_local)
      (filter (\<lambda>fe. lid_in_fid (fe_LID fe) (ex_fid 5)) (fwTable ex_fw)) outs"
  by (rule forwarder_push_local [OF ex_fw_wf ex_fid_ok, of _ _ "[Some 42]"])
     (simp add: ex_local_def of_bytes_def)

theorem forwarder_push_network_witness:
  "\<exists>fw' outs. Forwarder_push ex_env 2 ex_net ex_fw = Some fw' \<and>
    fw_out fw' = fw_out ex_fw @ outs @
      (if lid_in_fid (iLID (fw_gc ex_fw)) (ex_fid 11) then [(0, ex_net\<lparr>pk_data := [Some 42]\<rparr>)] else []) \<and>
    list_all2 (link_relay ex_fw ex_net) (if all_ones (ex_fid 11) then [] else
      filter (\<lambda>fe. lid_in_fid (fe_LID fe) (ex_fid 11) \<and> \<not> came_over (use_mac (fw_gc ex_fw)) ex_net fe)
        (fwTable ex_fw)) outs"
  by (rule forwarder_push_network [OF ex_fw_wf, of _ "[0, 0, 0, 0, 0, 1] @ [0, 0, 0, 0, 0, 3] @ [8, 10]"])
     (simp_all add: ex_net_def of_bytes_def net_packet_def ex_fid_ok ex_fw_def ex_gc_def net_header_def)

definition ex_links :: "link_conf list" where
  "ex_links = [\<lparr>lc_port = 1, lc_src = [0, 0, 0, 0, 0, 1], lc_dst = [0, 0, 0, 0, 0, 2],
     lc_lid = replicate 255 (CHR ''0'') @ ''1''\<rparr>]"

definition ex_configured :: forwarder where
  "ex_configured = the (Forwarder_configure ex_gc 1 ex_links)"

theorem forwarder_runs_safely_witness:
  "\<exists>fw'. fold_opt (fw_step ex_env) [(0, ex_local), (0, ex_local)] ex_configured = Some fw' \<and> fw_wf fw'"
proof (rule forwarder_runs_safely [OF ex_gc_wf, of 1 ex_links])
  show ok: "\<forall>l \<in> set ex_links. link_conf_ok (use_mac ex_gc) l"
    by (simp add: ex_links_def link_conf_ok_def ex_gc_def)
  have len: "nat 1 = length ex_links" by (simp add: ex_links_def)
  show "nat 1 = length ex_links" by (rule len)
  obtain fw where fw: "Forwarder_configure ex_gc 1 ex_links = Some fw" "fw_wf fw"
    using Forwarder_configure_wf [OF ex_gc_wf len ok] by blast
  then show "Forwarder_configure ex_gc 1 ex_links = Some ex_configured"
    by (simp add: ex_configured_def)
  have ev: "fw_event_ok (0, ex_local) s" for s
    by (simp add: fw_event_ok_def ex_local_def of_bytes_def length_fid_bytes ex_fid_ok cells_def list_all_iff)
  show "run_ok (fw_step ex_env) fw_event_ok [(0, ex_local), (0, ex_local)] ex_configured"
    by (simp add: ev split: option.splits)
qed

end
