(* ===== verification/BA_Network.thy ===== *)
theory BA_Network
  imports BA_NBLibrary BA_Topology_Safe BA_LocalRV_Safe BA_LocalProxy_Safe BA_Forwarder
begin

text \<open>
  The components put together. What one puts out is what the next is given: an application's library, the
  netlink elements, the dispatcher of its node, the forwarders between, the dispatcher of another node and
  the rendezvous element or the library of an application there. Nothing of the code is modelled here; the
  definitions say which packets a forwarder puts out, how a packet travels over a chain of forwarders, when
  an identifier leads along the chain and when the forwarders are wired as the topology file says. The
  properties follow a request, data and the topology manager's message to start along the whole way. Links
  are taken not to lose or change packets, and a node's elements to handle one packet at a time.
\<close>

subsection \<open>Through the network\<close>

text \<open>
  What a forwarder puts out on a port for a packet it is given; and how a packet travels: a node is the
  port its forwarder gets the packet on and the forwarder; what leaves over the link to the next node
  arrives there, and what the last node puts out on port 0 is for its dispatcher.
\<close>

definition puts_out :: "click_env \<Rightarrow> nat \<Rightarrow> packet \<Rightarrow> forwarder \<Rightarrow> int \<Rightarrow> packet \<Rightarrow> bool" where
  "puts_out env in_port p fw port q \<longleftrightarrow>
     (\<exists>fw' outs. Forwarder_push env in_port p fw = Some fw' \<and> fw_out fw' = fw_out fw @ outs \<and> (port, q) \<in> set outs)"

inductive travels :: "click_env \<Rightarrow> (nat \<times> forwarder \<times> fwd_entry) list \<Rightarrow> nat \<times> forwarder \<Rightarrow> packet \<Rightarrow> packet \<Rightarrow> bool" for env where
  arrives: "puts_out env in_port p fw 0 q \<Longrightarrow> travels env [] (in_port, fw) p q"
| relayed: "puts_out env in_port p fw (fe_port fe) r \<Longrightarrow> travels env trail dest r q \<Longrightarrow>
    travels env ((in_port, fw, fe) # trail) dest p q"

text \<open>
  A chain of nodes the identifier leads along: every hop goes over a link of the node's table that the
  identifier contains, and not straight back over the link before it; the last node's own
  identifier is contained too.
\<close>

definition leads_over :: "bitvec \<Rightarrow> forwarder \<Rightarrow> fwd_entry \<Rightarrow> bool" where
  "leads_over fid fw fe \<longleftrightarrow> fw_wf fw \<and> use_mac (fw_gc fw) \<and> fe \<in> set (fwTable fw) \<and> lid_in_fid (fe_LID fe) fid"

definition back_over :: "fwd_entry \<Rightarrow> fwd_entry \<Rightarrow> bool" where
  "back_over fe fe' \<longleftrightarrow> fe_dst fe' = fe_src fe \<and> fe_src fe' = fe_dst fe"

fun leads_along :: "bitvec \<Rightarrow> fwd_entry \<Rightarrow> (nat \<times> forwarder \<times> fwd_entry) list \<Rightarrow> nat \<times> forwarder \<Rightarrow> bool" where
  "leads_along fid fe [] (in_port, fw) \<longleftrightarrow> in_port \<noteq> 0 \<and> fw_wf fw \<and> use_mac (fw_gc fw) \<and> lid_in_fid (iLID (fw_gc fw)) fid"
| "leads_along fid fe ((in_port, fw, fe') # trail) dest \<longleftrightarrow>
     in_port \<noteq> 0 \<and> leads_over fid fw fe' \<and> \<not> back_over fe fe' \<and> leads_along fid fe' trail dest"

definition framed :: "fwd_entry \<Rightarrow> bitvec \<Rightarrow> cell list \<Rightarrow> packet \<Rightarrow> bool" where
  "framed fe fid body p \<longleftrightarrow> (\<exists>proto. length proto = 2 \<and>
     pk_data p = cells (the (fe_dst fe) @ the (fe_src fe) @ proto) @ cells (fid_bytes fid) @ body)"

lemma mac_entry: "entry_wf True fe \<Longrightarrow> \<exists>d s. fe_dst fe = Some d \<and> fe_src fe = Some s \<and> length d = 6 \<and> length s = 6"
  using addr_ok_Some [of 6 "fe_dst fe"] addr_ok_Some [of 6 "fe_src fe"] by (auto simp: entry_wf_def)

lemma link_mac:
  "use_mac (fw_gc fw) \<Longrightarrow> link_relay fw p fe out \<longleftrightarrow> out = (fe_port fe, mac_relay fe p)"
  "use_mac (fw_gc fw) \<Longrightarrow> link_frame fw p fe out \<longleftrightarrow> out = (fe_port fe, mac_frame (fw_proto_type fw) fe p)"
  by (cases out; simp add: link_relay_def link_frame_def)+

lemma framed_packet:
  assumes "framed fe fid body p" "entry_wf True fe" "is_fid fid"
  shows "\<exists>hdr. net_packet True p hdr fid body" "entry_wf True fe' \<Longrightarrow> came_over True p fe' = back_over fe fe'"
    "framed fe' fid body (mac_relay fe' p)"
proof -
  obtain d s where a: "fe_dst fe = Some d" "fe_src fe = Some s" "length d = 6" "length s = 6" using mac_entry [OF assms(2)] by blast
  with assms(1) obtain proto where p: "length proto = 2" "pk_data p = cells (d @ s @ proto) @ cells (fid_bytes fid) @ body"
    by (auto simp: framed_def)
  show "\<exists>hdr. net_packet True p hdr fid body"
    by (rule exI [of _ "d @ s @ proto"]) (use p a assms(3) in \<open>simp add: net_packet_def net_header_def\<close>)
  have r: "rdn p 0 6 = Some d" "rdn p 6 6 = Some s"
    by (rule rdn_skip [of p "[]" d], use p a in simp_all) (rule rdn_skip [of p d s], use p a in simp_all)
  show "came_over True p fe' = back_over fe fe'" using r a by (auto simp: came_over_def back_over_def)
  show "framed fe' fid body (mac_relay fe' p)"
    unfolding framed_def by (rule exI [of _ proto]) (use p a in \<open>simp add: mac_relay_def\<close>)
qed

lemma list_all2_member: "list_all2 P xs ys \<Longrightarrow> x \<in> set xs \<Longrightarrow> \<exists>y \<in> set ys. P x y"
  by (induction rule: list_all2_induct) auto

lemma travel_on:
  assumes "leads_along fid fe trail dest" "framed fe fid body p" "entry_wf True fe" "is_fid fid" "trail = [] \<or> \<not> all_ones fid"
  shows "\<exists>q. travels env trail dest p q \<and> pk_data q = body"
  using assms
proof (induction trail arbitrary: fe p)
  case Nil
  obtain in_port fw where d: "dest = (in_port, fw)" by (cases dest)
  with Nil.prems(1) have n: "in_port \<noteq> 0" "fw_wf fw" "use_mac (fw_gc fw)" "lid_in_fid (iLID (fw_gc fw)) fid" by simp_all
  obtain hdr where h: "net_packet True p hdr fid body" using framed_packet(1) [OF Nil.prems(2-4)] by blast
  from forwarder_push_network_aux [OF n(2) _ n(1), of p hdr fid body env] h n(3,4) obtain fw' outs where
    "Forwarder_push env in_port p fw = Some fw'" "fw_out fw' = fw_out fw @ outs @ [(0, p\<lparr>pk_data := body\<rparr>)]" by auto
  then have "puts_out env in_port p fw 0 (p\<lparr>pk_data := body\<rparr>)" unfolding puts_out_def by fastforce
  then show ?case using travels.arrives d by (intro exI [of _ "p\<lparr>pk_data := body\<rparr>"]) simp
next
  case (Cons hop trail)
  obtain in_port fw fe' where hop: "hop = (in_port, fw, fe')" by (cases hop)
  from Cons.prems(1) hop have n: "in_port \<noteq> 0" "leads_over fid fw fe'" "\<not> back_over fe fe'" "leads_along fid fe' trail dest" by simp_all
  then have f: "fw_wf fw" "use_mac (fw_gc fw)" "fe' \<in> set (fwTable fw)" "lid_in_fid (fe_LID fe') fid" by (simp_all add: leads_over_def)
  then have w: "entry_wf True fe'" by (auto simp: fw_wf_def)
  note fp = framed_packet [OF Cons.prems(2-4)]
  obtain hdr where h: "net_packet True p hdr fid body" using fp(1) by blast
  have na: "\<not> all_ones fid" using Cons.prems(5) by simp
  let ?links = "filter (\<lambda>fe. lid_in_fid (fe_LID fe) fid \<and> \<not> came_over True p fe) (fwTable fw)"
  have mem: "fe' \<in> set ?links" using f fp(2) [OF w] n(3) by simp
  from forwarder_push_network_aux [OF f(1) _ n(1), of p hdr fid body env] h f(2) na obtain fw' outs loc where
    o: "Forwarder_push env in_port p fw = Some fw'" "fw_out fw' = fw_out fw @ outs @ loc" "list_all2 (link_relay fw p) ?links outs" by auto
  from list_all2_member [OF o(3) mem] have "(fe_port fe', mac_relay fe' p) \<in> set outs" by (simp add: link_mac f(2))
  then have "puts_out env in_port p fw (fe_port fe') (mac_relay fe' p)" using o(1,2) unfolding puts_out_def by fastforce
  moreover from Cons.IH [OF n(4) fp(3) w Cons.prems(4)] na obtain q where "travels env trail dest (mac_relay fe' p) q" "pk_data q = body" by blast
  ultimately show ?case using travels.relayed hop by blast
qed

text \<open>From the dispatcher of one node to that of another.\<close>

lemma travel:
  assumes "leads_over fid fw fe" "leads_along fid fe trail dest" "is_fid fid" "trail = [] \<or> \<not> all_ones fid"
    and "pk_data p = cells (fid_bytes fid) @ body"
  shows "\<exists>q. travels env ((0, fw, fe) # trail) dest p q \<and> pk_data q = body"
proof -
  from assms(1) have f: "fw_wf fw" "use_mac (fw_gc fw)" "fe \<in> set (fwTable fw)" "lid_in_fid (fe_LID fe) fid" by (simp_all add: leads_over_def)
  then have w: "entry_wf True fe" "length (fw_proto_type fw) = 2" by (auto simp: fw_wf_def)
  from forwarder_push_local_aux [OF f(1) assms(3,5), of env] obtain fw' outs where
    o: "Forwarder_push env 0 p fw = Some fw'" "fw_out fw' = fw_out fw @ outs"
    "list_all2 (link_frame fw p) (filter (\<lambda>fe. lid_in_fid (fe_LID fe) fid) (fwTable fw)) outs" by blast
  have "fe \<in> set (filter (\<lambda>fe. lid_in_fid (fe_LID fe) fid) (fwTable fw))" using f(3,4) by simp
  from list_all2_member [OF o(3) this] have "(fe_port fe, mac_frame (fw_proto_type fw) fe p) \<in> set outs" by (simp add: link_mac f(2))
  then have po: "puts_out env 0 p fw (fe_port fe) (mac_frame (fw_proto_type fw) fe p)" using o(1,2) unfolding puts_out_def by blast
  have "framed fe fid body (mac_frame (fw_proto_type fw) fe p)"
    unfolding framed_def by (rule exI [of _ "fw_proto_type fw"]) (simp add: w(2) mac_frame_def assms(5))
  from travel_on [OF assms(2) this w(1) assms(3,4)] po travels.relayed show ?thesis by blast
qed

subsection \<open>A request on its way\<close>

lemma request_error_None:
  assumes "request_error type ID prefixID = None" "type \<in> request_types" "length ID < 2048" "length prefixID < 2048"
  shows "short_id ID" "short_id prefixID" "ID \<noteq> [] \<or> prefixID \<noteq> []" "type \<noteq> DISCONNECT" "type \<noteq> PUBLISH_DATA"
  using assms by (auto simp: request_error_def short_id_def request_types_def about_item_def split: if_splits)

lemma library_request_arrives:
  assumes "type \<in> request_types" "request_error type ID prefixID = None" "sock_fd ba \<noteq> -1"
  shows "\<exists>d. lib_request type ID prefixID strategy str_opt ba = (Sent, ba\<lparr>ba_sent := ba_sent ba @ [d]\<rparr>) \<and>
    FromNetlink_selected d = Some (Some
      \<lparr>pk_data = cells (app_request type ID prefixID strategy) @ cells (opt_bytes str_opt), pk_anno = Some (ba_pid ba)\<rparr>)"
  using lib_request_eq [OF assms(1), of ID prefixID strategy str_opt ba] assms(2,3)
    library_datagram [of "length (app_request type ID prefixID strategy @ opt_bytes str_opt)" ba
      "cells (app_request type ID prefixID strategy) @ cells (opt_bytes str_opt)"]
  by (simp add: lib_sendmsg_def) (rule exI, rule conjI, rule refl, assumption)

text \<open>The request as the rendezvous element of a node reads it.\<close>

definition request_of :: "globalconf \<Rightarrow> byte \<Rightarrow> bstr \<Rightarrow> bstr \<Rightarrow> byte \<Rightarrow> request" where
  "request_of gc type ID prefixID strategy =
     \<lparr>rq_node = nodeID gc, rq_type = type, rq_ID = ID, rq_prefixID = prefixID, rq_strategy = strategy\<rparr>"

lemma request_parsed:
  assumes "gc_wf gc" "short_id ID" "short_id prefixID"
    and "pk_data p = cells (event_bytes PUBLISHED_DATA (nodeRVScope gc)) @ cells (app_request type ID prefixID strategy) @ ys"
  shows "parse_request p = Some (Some (request_of gc type ID prefixID strategy))"
proof (rule parse_request_bytes)
  show "pk_data p = cells (request_bytes (RVScope gc) (request_of gc type ID prefixID strategy)) @ ys"
    using assms(1,4) by (simp add: request_bytes_def request_of_def event_bytes_def id_bytes_def app_request_def gc_wf_def)
qed (use assms in \<open>simp_all add: gc_wf_def request_of_def short_id_def\<close>)

lemma singleton_table:
  assumes "distinct (map fst m)" "fst ` set m = {b}"
  shows "\<exists>y. m = [(b, y)]"
proof (cases m)
  case (Cons e m')
  then have "fst e = b" "\<forall>e' \<in> set m'. fst e' = b" using assms(2) by auto
  then have "m' = []" using assms(1) Cons by (cases m') auto
  then show ?thesis using Cons \<open>fst e = b\<close> by (cases e) auto
qed (use assms in auto)

text \<open>Data of the network with one identifier, which one host of the node wants.\<close>

lemma delivered_to_one:
  assumes "lp_inv s" "pk_data p = cells (net_bytes [x]) @ ys" "short_id x" "x \<noteq> notificationIID (lp_gc s)"
    and "{c. wants s c x} = {b}"
  shows "LocalProxy_push 2 p s = Some (s\<lparr>lp_out := lp_out s @ [host_out s b (data_packet x (p\<lparr>pk_data := ys\<rparr>))]\<rparr>)"
proof -
  from handleNetworkPublication_ok [OF assms(1), of "[x]" "p\<lparr>pk_data := ys\<rparr>"] obtain m where
    m: "audience s [x] {} m" and e: "handleNetworkPublication [x] (p\<lparr>pk_data := ys\<rparr>) s =
      Some (s\<lparr>lp_out := lp_out s @ map (\<lambda>(a, x). host_out s a (data_packet x (p\<lparr>pk_data := ys\<rparr>))) m\<rparr>)" by blast
  have "fst ` set m = {b}" using audience_sets(2) [OF m] assms(5) by simp
  from singleton_table [OF audience_sets(1) [OF m] this] obtain y where y: "m = [(b, y)]" by blast
  then have "y = x" using audience_sets(3) [OF m] by simp
  moreover have "ids_ok [x]" using assms(3) by (simp add: ids_ok_def)
  ultimately show ?thesis using push_network_eq [OF assms(2), of s] e y assms(4) by simp
qed

text \<open>The rendezvous element, on port 1, is the only one of its node that hears of an identifier.\<close>

definition rendezvous_hears :: "local_proxy \<Rightarrow> bstr \<Rightarrow> bool" where
  "rendezvous_hears s x \<longleftrightarrow> (\<exists>b. {c. wants s c x} = {b} \<and> host_key s b = Some (CLICK_ELEMENT, 1))"

lemma remote_request:
  assumes "lp_inv s" "lp_inv s2" "gc = lp_gc s" "is_fid RVFID" "short_id ID" "short_id prefixID" "rendezvous_hears s2 (nodeRVScope gc)"
    and "leads_over RVFID fw fe" "leads_along RVFID fe trail dest" "trail = [] \<or> \<not> all_ones RVFID"
    and "pk_data q = cells (fid_bytes RVFID @ net_bytes [nodeRVScope gc]) @ cells (app_request type ID prefixID strategy) @ ys"
  shows "\<exists>q' r'. travels env ((0, fw, fe) # trail) dest q q' \<and>
    LocalProxy_push 2 q' s2 = Some (s2\<lparr>lp_out := lp_out s2 @ [(1, r')]\<rparr>) \<and>
    parse_request r' = Some (Some (request_of gc type ID prefixID strategy))"
proof -
  have gc: "gc_wf gc" "gc_wf (lp_gc s2)" using inv_gc [OF assms(1)] inv_gc [OF assms(2)] assms(3) by simp_all
  let ?x = "nodeRVScope gc" and ?body = "cells (app_request type ID prefixID strategy) @ ys"
  have x: "short_id ?x" "?x \<noteq> notificationIID (lp_gc s2)" using gc by (simp add: gc_wf_def short_id_def, simp add: gc_wf_def numeral_eq_Suc)
  obtain b where b: "{c. wants s2 c ?x} = {b}" "host_key s2 b = Some (CLICK_ELEMENT, 1)"
    using assms(7) by (auto simp: rendezvous_hears_def)
  have "pk_data q = cells (fid_bytes RVFID) @ (cells (net_bytes [?x]) @ ?body)" using assms(11) by simp
  from travel [OF assms(8,9,4,10) this, of env] obtain q' where
    q': "travels env ((0, fw, fe) # trail) dest q q'" "pk_data q' = cells (net_bytes [?x]) @ ?body" by blast
  let ?r = "data_packet ?x (q'\<lparr>pk_data := ?body\<rparr>)"
  have "LocalProxy_push 2 q' s2 = Some (s2\<lparr>lp_out := lp_out s2 @ [(1, ?r)]\<rparr>)"
    using delivered_to_one [OF assms(2) q'(2) x b(1)] b(2) by (simp add: host_out_def)
  moreover have "parse_request ?r = Some (Some (request_of gc type ID prefixID strategy))"
    by (rule request_parsed [OF gc(1) assms(5,6)]) (simp add: data_packet_def)
  ultimately show ?thesis using q'(1) by blast
qed

lemma quiet_or_one:
  "out = old @ (if silent then [] else [(a, b)]) \<Longrightarrow> P a b \<Longrightarrow>
   if silent then out = old else \<exists>a b. out = old @ [(a, b)] \<and> P a b"
  by auto

text \<open>
  A packet for the network is read as a request by the rendezvous element behind every chain of
  forwarders that the identifier leads along.
\<close>

definition read_afar :: "globalconf \<Rightarrow> bitvec \<Rightarrow> packet \<Rightarrow> request \<Rightarrow> bool" where
  "read_afar gc RVFID q r \<longleftrightarrow> (\<forall>env fw fe trail dest s2. lp_inv s2 \<and> rendezvous_hears s2 (nodeRVScope gc) \<and>
     leads_over RVFID fw fe \<and> leads_along RVFID fe trail dest \<and> (trail = [] \<or> \<not> all_ones RVFID) \<longrightarrow>
     (\<exists>q' r'. travels env ((0, fw, fe) # trail) dest q q' \<and>
        LocalProxy_push 2 q' s2 = Some (s2\<lparr>lp_out := lp_out s2 @ [(1, r')]\<rparr>) \<and> parse_request r' = Some (Some r)))"

text \<open>
  C7. A request an application makes through the library arrives at the rendezvous element as the request it is.
  A call the library accepts is one datagram, which the dispatcher records; and when it changes what the node as
  a whole publishes or subscribes to, the dispatcher passes on one packet. If the node has its own rendezvous
  element, that packet is read there as the request, of this node, with the type, identifiers and
  strategy of the call. Otherwise it travels, over every chain of forwarders that the
  identifier of the domain's rendezvous node leads along, to that node's dispatcher, which hands
  it to its rendezvous element; and that reads the same request.
\<close>

theorem request_reaches_rendezvous:
  assumes "lp_inv s" and "type \<in> request_types" and "request_error type ID prefixID = None"
    and "length ID < 2048" and "length prefixID < 2048" and "sock_fd ba \<noteq> -1"
    and "gc = lp_gc s" and "RVFID = request_RVFID gc strategy" and "r = request_of gc type ID prefixID strategy"
  shows "\<exists>d p s'. lib_request type ID prefixID strategy str_opt ba = (Sent, ba\<lparr>ba_sent := ba_sent ba @ [d]\<rparr>) \<and>
    FromNetlink_selected d = Some (Some p) \<and> LocalProxy_push 0 p s = Some s' \<and>
    (if node_pubs s' = node_pubs s \<and> (node_subs s' = node_subs s \<or> \<not> forwards_subscription strategy) then lp_out s' = lp_out s
     else \<exists>port q. lp_out s' = lp_out s @ [(port, q)] \<and>
       (if bv_zero RVFID \<or> bv_eq RVFID (iLID gc) then port = 1 \<and> parse_request q = Some (Some r)
        else port = 2 \<and> read_afar gc RVFID q r))"
proof -
  let ?ys = "cells (opt_bytes str_opt)"
  note ok = request_error_None [OF assms(3,2,4,5)]
  note gc = inv_gc [OF assms(1), folded assms(7)]
  have f: "is_fid RVFID" unfolding assms(8) by (rule request_RVFID_fid [OF gc])
  from library_request_arrives [OF assms(2,3,6), of strategy str_opt] obtain d p where
    d: "lib_request type ID prefixID strategy str_opt ba = (Sent, ba\<lparr>ba_sent := ba_sent ba @ [d]\<rparr>)"
    "FromNetlink_selected d = Some (Some p)" and p: "pk_data p = cells (app_request type ID prefixID strategy) @ ?ys" by auto
  from request_push_aux [OF assms(1) _ p ok, of 0] obtain s' where
    s': "LocalProxy_push 0 p s = Some s'" and o: "lp_out s' = lp_out s @
      (if node_pubs s' \<noteq> node_pubs s \<or> node_subs s' \<noteq> node_subs s \<and> forwards_subscription strategy
       then [rv_out gc RVFID p] else [])" unfolding Let_def assms(7,8) by auto
  let ?own = "bv_zero RVFID \<or> bv_eq RVFID (iLID gc)"
  obtain port q where q: "rv_out gc RVFID p = (port, q)" by (cases "rv_out gc RVFID p")
  have own: "port = 1 \<and> parse_request q = Some (Some r)" if ?own
    using q that request_parsed [OF gc ok(1,2), of q type strategy ?ys] p assms(9) by (auto simp: rv_out_def)
  have far: "port = 2" "pk_data q = cells (fid_bytes RVFID @ net_bytes [nodeRVScope gc]) @ cells (app_request type ID prefixID strategy) @ ?ys"
    if "\<not> ?own" using q that p by (auto simp: rv_out_def)
  let ?quiet = "node_pubs s' = node_pubs s \<and> (node_subs s' = node_subs s \<or> \<not> forwards_subscription strategy)"
  have out: "lp_out s' = lp_out s @ (if ?quiet then [] else [(port, q)])" using o q by auto
  have afar: "read_afar gc RVFID q r" if "\<not> ?own"
    unfolding read_afar_def using remote_request [OF assms(1) _ assms(7) f ok(1,2) _ _ _ _ far(2) [OF that]] assms(9) by blast
  have "if ?own then port = 1 \<and> parse_request q = Some (Some r) else port = 2 \<and> read_afar gc RVFID q r"
    using own far(1) afar by (cases ?own) simp_all
  with out have "if ?quiet then lp_out s' = lp_out s
     else \<exists>port q. lp_out s' = lp_out s @ [(port, q)] \<and>
       (if ?own then port = 1 \<and> parse_request q = Some (Some r) else port = 2 \<and> read_afar gc RVFID q r)"
    by (intro quiet_or_one)
  then show ?thesis using d s' by blast
qed

subsection \<open>Data on its way\<close>

text \<open>What the applications of a node are sent of the packets its dispatcher puts out.\<close>

definition to_applications :: "(nat \<times> packet) list \<Rightarrow> (32 word \<times> cell list) list" where
  "to_applications outs = ToNetlink_drain (foldl (\<lambda>q p. ToNetlink_push p q) [] (map snd (filter (\<lambda>out. fst out = 0) outs)))"

lemma to_application:
  assumes "(0, p) \<in> set outs" "pk_anno p = Some pid" "pk_data p = cells (event_bytes type x) @ ys" "short_id x"
  shows "\<exists>d. (pid, d) \<in> set (to_applications outs) \<and> getEvent d Event_new = Some
    \<lparr>ev_type = type, ev_id = x, ev_data = (if type = PUBLISHED_DATA then Some ys else None), ev_buffer = Some d\<rparr>"
proof -
  let ?h = "nlmsghdr 4 0 1 (cells (bytes_of_word 0)) 9999" and ?q = "(0 :: nat, p)"
  have "p \<in> set (map snd (filter (\<lambda>out. fst out = 0) outs))"
    unfolding set_map set_filter by (rule image_eqI [of _ _ ?q]) (use assms(1) in simp_all)
  then have "(pid, ?h @ pk_data p) \<in> set (to_applications outs)"
    unfolding to_applications_def push_drain set_map by (intro image_eqI [of _ _ p]) (simp_all add: assms(2))
  moreover have "length ?h = 16" by (simp add: length_nlmsghdr)
  from getEvent_message [OF assms(4) this] have "getEvent (?h @ pk_data p) Event_new = Some
    \<lparr>ev_type = type, ev_id = x, ev_data = (if type = PUBLISHED_DATA then Some ys else None), ev_buffer = Some (?h @ pk_data p)\<rparr>"
    unfolding assms(3) .
  ultimately show ?thesis by blast
qed

lemma library_data_arrives:
  assumes "8 dvd length x" "sock_fd ba \<noteq> -1"
  shows "\<exists>d. lib_publish_data x strategy str_opt data ba = Some (Sent, ba\<lparr>ba_sent := ba_sent ba @ [d]\<rparr>) \<and>
    FromNetlink_selected d = Some (Some \<lparr>pk_data = cells (app_data x strategy (opt_bytes str_opt)) @ data, pk_anno = Some (ba_pid ba)\<rparr>)"
proof -
  let ?d = "lib_header (length (app_data x strategy (opt_bytes str_opt)) + length data) ba @
      cells (app_data x strategy (opt_bytes str_opt)) @ data"
  show ?thesis
    by (rule exI [of _ ?d]) (simp add: lib_publish_data_eq [OF assms(1)] lib_sendmsg_def assms(2) library_datagram)
qed

text \<open>Data of the network reaches an application that wants one of its identifiers.\<close>

lemma network_to_application:
  assumes "lp_inv s" "pk_data q = cells (net_bytes IDs) @ data" "ids_ok IDs" "IDs \<noteq> [notificationIID (lp_gc s)]"
    and "y \<in> set IDs" "wants s b y" "host_key s b = Some (LOCAL_PROCESS, pid)"
  shows "\<exists>outs d z. LocalProxy_push 2 q s = Some (s\<lparr>lp_out := lp_out s @ outs\<rparr>) \<and> (pid, d) \<in> set (to_applications outs) \<and>
    z \<in> set IDs \<and> wants s b z \<and>
    getEvent d Event_new = Some \<lparr>ev_type = PUBLISHED_DATA, ev_id = z, ev_data = Some data, ev_buffer = Some d\<rparr>"
proof -
  let ?p = "q\<lparr>pk_data := data\<rparr>"
  from handleNetworkPublication_ok [OF assms(1), of IDs ?p] obtain m where
    m: "audience s IDs {} m" and e: "handleNetworkPublication IDs ?p s =
      Some (s\<lparr>lp_out := lp_out s @ map (\<lambda>(a, x). host_out s a (data_packet x ?p)) m\<rparr>)" by blast
  have push: "LocalProxy_push 2 q s = handleNetworkPublication IDs ?p s"
    using push_network_eq [OF assms(2,3), of s] assms(4) by simp
  have "b \<in> fst ` set m" using audience_sets(2) [OF m] assms(5,6) by blast
  then obtain z where z: "(b, z) \<in> set m" by auto
  then have zz: "z \<in> set IDs" "wants s b z" using audience_sets(3) [OF m] by auto
  then have sz: "short_id z" using assms(3) by (simp add: ids_ok_def)
  let ?o = "(data_packet z ?p)\<lparr>pk_anno := Some pid\<rparr>"
  have "(0, ?o) \<in> set (map (\<lambda>(a, x). host_out s a (data_packet x ?p)) m)"
    unfolding set_map by (rule image_eqI [OF _ z]) (simp add: host_out_def assms(7))
  from to_application [OF this _ _ sz, of pid PUBLISHED_DATA data] obtain d where
    "(pid, d) \<in> set (to_applications (map (\<lambda>(a, x). host_out s a (data_packet x ?p)) m))"
    "getEvent d Event_new = Some \<lparr>ev_type = PUBLISHED_DATA, ev_id = z, ev_data = Some data, ev_buffer = Some d\<rparr>"
    by (auto simp: data_packet_def)
  then show ?thesis using push e zz
    by (intro exI [of _ "map (\<lambda>(a, x). host_out s a (data_packet x ?p)) m"] exI [of _ d] exI [of _ z]) simp
qed

text \<open>
  C8. Data crosses the network unchanged. An application that publishes data through the library for a publication
  with a forwarding identifier of other nodes sends one datagram; its dispatcher puts one packet
  for the network out, and over every chain of forwarders that the identifier leads along the packet arrives
  at the last node's dispatcher; there, every application that wants one of the publication's
  identifiers is sent a datagram that the library reads as published data, with an
  identifier the application wants and exactly the bytes that were published.
\<close>

theorem data_reaches_subscribers:
  assumes "lp_inv s" and "hm_get (local_pub_sub_Index s) (ba_pid ba) = Some a" and "sock_fd ba \<noteq> -1"
    and "short_id x" and "\<not> own_fid strategy" and "strategy \<noteq> BROADCAST_IF"
    and "publication_of_data x s = Some (ap, IDs)" and "ids_ok IDs" and "\<forall>y \<in> set IDs. length y < 256" and "FID = ap_FID ap"
    and "is_fid FID" and "\<not> bv_zero FID" and "\<not> bv_eq FID (iLID (lp_gc s))"
    and "leads_over FID fw fe" and "leads_along FID fe trail dest" and "trail = [] \<or> \<not> all_ones FID"
    and "lp_inv s2" and "IDs \<noteq> [notificationIID (lp_gc s2)]"
  shows "\<exists>d p outs q q' outs2. lib_publish_data x strategy None data ba = Some (Sent, ba\<lparr>ba_sent := ba_sent ba @ [d]\<rparr>) \<and>
    FromNetlink_selected d = Some (Some p) \<and>
    LocalProxy_push 0 p s = Some (s\<lparr>lp_out := lp_out s @ outs\<rparr>) \<and> (2, q) \<in> set outs \<and>
    travels env ((0, fw, fe) # trail) dest q q' \<and>
    LocalProxy_push 2 q' s2 = Some (s2\<lparr>lp_out := lp_out s2 @ outs2\<rparr>) \<and>
    (\<forall>b pid y. y \<in> set IDs \<and> wants s2 b y \<and> host_key s2 b = Some (LOCAL_PROCESS, pid) \<longrightarrow>
      (\<exists>d2 z. (pid, d2) \<in> set (to_applications outs2) \<and> z \<in> set IDs \<and> wants s2 b z \<and>
        getEvent d2 Event_new = Some \<lparr>ev_type = PUBLISHED_DATA, ev_id = z, ev_data = Some data, ev_buffer = Some d2\<rparr>))"
proof -
  have x8: "8 dvd length x" using assms(4) by (simp add: short_id_def)
  let ?p = "\<lparr>pk_data = cells (app_data x strategy []) @ data, pk_anno = Some (ba_pid ba)\<rparr>"
  from library_data_arrives [OF x8 assms(3), of strategy None data] obtain d where
    d: "lib_publish_data x strategy None data ba = Some (Sent, ba\<lparr>ba_sent := ba_sent ba @ [d]\<rparr>)"
    "FromNetlink_selected d = Some (Some ?p)" by (auto simp: opt_bytes_def)
  let ?r = "?p\<lparr>pk_data := data\<rparr>"
  have dat: "pk_data ?p = cells (app_data x strategy []) @ data" by simp
  have "hm_get (local_pub_sub_Index s) (sender_id 0 ?p) = Some a" using assms(2) by (simp add: sender_id_def)
  then have e: "LocalProxy_push 0 ?p s = handleUserPublication x ?r a s"
    using data_push_eq [OF assms(1) _ dat known_sender(1)] push_data_eq [OF dat assms(4), of a s] assms(5,6)
    by (auto simp: Let_def own_fid_def)
  from handleUserPublication_ok [OF assms(1), of x ?r a, unfolded assms(7) option.case prod.case, folded assms(10)] obtain m :: "(lh_addr, bstr) htab" where
    up: "handleUserPublication x ?r a s = Some (s\<lparr>lp_out := lp_out s @
      (if remote_subscribers s FID then [(2, remote_packet IDs FID ?r)] else []) @
      map (\<lambda>(b, _). host_out s b (data_packet x ?r)) m\<rparr>)" by blast
  have rs: "remote_subscribers s FID" using assms(12,13) by (simp add: remote_subscribers_def)
  let ?q = "remote_packet IDs FID ?r"
  have "pk_data ?q = cells (fid_bytes FID) @ (cells (net_bytes IDs) @ data)"
    using remote_packet_eq [OF assms(8,9,11), of ?r] by simp
  from travel [OF assms(14,15,11,16) this, of env] obtain q' where
    q': "travels env ((0, fw, fe) # trail) dest ?q q'" "pk_data q' = cells (net_bytes IDs) @ data" by blast
  from handleNetworkPublication_ok [OF assms(17), of IDs "q'\<lparr>pk_data := data\<rparr>"] push_network_eq [OF q'(2) assms(8), of s2] assms(18)
  obtain outs2 where o2: "LocalProxy_push 2 q' s2 = Some (s2\<lparr>lp_out := lp_out s2 @ outs2\<rparr>)" by auto
  have same: "outs2 = outs" if "LocalProxy_push 2 q' s2 = Some (s2\<lparr>lp_out := lp_out s2 @ outs\<rparr>)" for outs
  proof -
    have "lp_out (s2\<lparr>lp_out := lp_out s2 @ outs2\<rparr>) = lp_out (s2\<lparr>lp_out := lp_out s2 @ outs\<rparr>)" using that o2 by simp
    then show ?thesis by simp
  qed
  have got: "\<exists>d2 z. (pid, d2) \<in> set (to_applications outs2) \<and> z \<in> set IDs \<and> wants s2 b z \<and>
        getEvent d2 Event_new = Some \<lparr>ev_type = PUBLISHED_DATA, ev_id = z, ev_data = Some data, ev_buffer = Some d2\<rparr>"
    if "y \<in> set IDs" "wants s2 b y" "host_key s2 b = Some (LOCAL_PROCESS, pid)" for b pid y
    using network_to_application [OF assms(17) q'(2) assms(8,18) that] same by blast
  let ?outs = "(2, ?q) # map (\<lambda>(b, _). host_out s b (data_packet x ?r)) m"
  have push: "LocalProxy_push 0 ?p s = Some (s\<lparr>lp_out := lp_out s @ ?outs\<rparr>)" using e up rs by simp
  have mem: "(2, ?q) \<in> set ?outs" by simp
  show ?thesis
    by (intro exI conjI, rule d(1), rule d(2), rule push, rule mem, rule q'(1), rule o2, intro allI impI, elim conjE, rule got)
qed

subsection \<open>Forwarders as the topology says\<close>

text \<open>
  A forwarder's link is wired as an identifier of the topology file when it has its bits; a chain of
  nodes is wired as a route when its links are those of the route's edges and the last node's own
  identifier is the destination's internal link. Packets are not sent straight back.
\<close>

definition wired :: "bitvec \<Rightarrow> string \<Rightarrow> bool" where
  "wired lid s \<longleftrightarrow> (\<forall>i < 256. bv_bit lid i = text_bit s i)"

definition wired_link :: "forwarder \<Rightarrow> fwd_entry \<Rightarrow> string \<Rightarrow> bool" where
  "wired_link fw fe s \<longleftrightarrow> fw_wf fw \<and> use_mac (fw_gc fw) \<and> fe \<in> set (fwTable fw) \<and> wired (fe_LID fe) s"

fun wired_along :: "string list \<Rightarrow> string \<Rightarrow> fwd_entry \<Rightarrow> (nat \<times> forwarder \<times> fwd_entry) list \<Rightarrow> nat \<times> forwarder \<Rightarrow> bool" where
  "wired_along [] internal fe [] (in_port, fw) \<longleftrightarrow> in_port \<noteq> 0 \<and> fw_wf fw \<and> use_mac (fw_gc fw) \<and> wired (iLID (fw_gc fw)) internal"
| "wired_along (l # ls) internal fe ((in_port, fw, fe') # trail) dest \<longleftrightarrow>
     in_port \<noteq> 0 \<and> wired_link fw fe' l \<and> \<not> back_over fe fe' \<and> wired_along ls internal fe' trail dest"
| "wired_along _ _ _ _ _ \<longleftrightarrow> False"

lemma wired_leads_along:
  assumes "wired_along ls internal fe trail dest" "\<forall>l \<in> set ls \<union> {internal}. \<forall>i < 256. text_bit l i \<longrightarrow> bv_bit fid i"
  shows "leads_along fid fe trail dest"
  using assms
  by (induction ls internal fe trail dest rule: wired_along.induct)
    (auto simp: leads_over_def wired_link_def wired_def lid_in_fid_def)

definition wired_route :: "igraph \<Rightarrow> bstr \<Rightarrow> bstr \<Rightarrow> forwarder \<Rightarrow> fwd_entry \<Rightarrow> (nat \<times> forwarder \<times> fwd_entry) list \<Rightarrow> nat \<times> forwarder \<Rightarrow> bool" where
  "wired_route g source destination fw fe trail dest \<longleftrightarrow>
     (case map (\<lambda>e. ig_LID g ! e) (path_edges g (route g source destination)) of
        [] \<Rightarrow> False
      | l # ls \<Rightarrow> wired_link fw fe l \<and> wired_along ls (ig_iLID g ! vertex g destination) fe trail dest)"

text \<open>The identifier of a route, or of several, leads along it.\<close>

lemma wired_route_leads:
  assumes "wired_route g source destination fw fe trail dest" "\<forall>i < 256. route_bits g source destination i \<longrightarrow> bv_bit fid i"
  shows "leads_over fid fw fe" "leads_along fid fe trail dest"
proof -
  let ?ls = "map (\<lambda>e. ig_LID g ! e) (path_edges g (route g source destination))"
  obtain l ls where l: "?ls = l # ls" "wired_link fw fe l" "wired_along ls (ig_iLID g ! vertex g destination) fe trail dest"
    using assms(1) by (auto simp: wired_route_def split: list.splits)
  have "text_bit k i \<Longrightarrow> i < 256 \<Longrightarrow> bv_bit fid i" if "k \<in> set ?ls \<union> {ig_iLID g ! vertex g destination}" for k i
    using assms(2) that by (auto simp: route_bits_def)
  then have b: "\<forall>k \<in> set (l # ls) \<union> {ig_iLID g ! vertex g destination}. \<forall>i < 256. text_bit k i \<longrightarrow> bv_bit fid i"
    unfolding l(1) by blast
  then show "leads_over fid fw fe" using l(2) by (auto simp: leads_over_def wired_link_def wired_def lid_in_fid_def)
  show "leads_along fid fe trail dest" by (rule wired_leads_along [OF l(3)]) (use b in auto)
qed

subsection \<open>A start message on its way\<close>

text \<open>The forwarding identifier and the known identifiers a publication has.\<close>

definition goes_by :: "local_proxy \<Rightarrow> bstr \<Rightarrow> (bitvec \<times> bstr list) option" where
  "goes_by s x = map_option (\<lambda>ap. (ap_FID ap, ap_allKnownIDs ap)) (hm_get (activePublicationIndex s) x)"

lemma start_known_stores:
  assumes "start_known FID IDs xs s = (False, s')"
  shows "goes_by s' y = (if y \<in> set xs \<and> goes_by s y \<noteq> None then Some (FID, IDs) else goes_by s y)"
  using assms
proof (induction FID IDs xs s rule: start_known.induct)
  case (2 FID IDs x xs s)
  show ?case
  proof (cases "hm_get (activePublicationIndex s) x")
    case None
    then show ?thesis using 2(1) [OF None] 2(3) by (auto simp: goes_by_def)
  next
    case (Some ap)
    let ?s = "put_pub x (ap\<lparr>ap_allKnownIDs := IDs, ap_FID := FID\<rparr>) s"
    have n: "\<not> (\<exists>e \<in> set (ap_publishers ap). snd e = START_PUBLISH)" "start_known FID IDs xs ?s = (False, s')"
      using 2(3) Some by (auto simp: Let_def split: if_splits)
    have "goes_by ?s z = (if z = x then Some (FID, IDs) else goes_by s z)" for z by (simp add: goes_by_def)
    then show ?thesis using 2(2) [OF Some refl n] Some by (auto simp: goes_by_def)
  qed
qed simp

lemma goes_by_out [simp]: "goes_by (s\<lparr>lp_out := os\<rparr>) = goes_by s"
  by (simp add: goes_by_def fun_eq_iff)

lemma send_to_host_goes_by: "send_to_host a p s = Some s' \<Longrightarrow> goes_by s' = goes_by s"
  by (auto simp: send_to_host_def lp_send_def split: Option.bind_splits if_splits)

lemma start_first_keeps: "start_first xs s = Some s' \<Longrightarrow> goes_by s' = goes_by s"
proof (induction xs arbitrary: s)
  case (Cons x xs)
  show ?case
  proof (cases "publishers_at s x")
    case Nil
    then show ?thesis using Cons by (auto simp: publishers_at_def split: option.splits list.splits)
  next
    case (Cons e pubs)
    then obtain ap where ap: "hm_get (activePublicationIndex s) x = Some ap" "ap_publishers ap = e # pubs"
      by (auto simp: publishers_at_def split: option.splits)
    have g: "goes_by (put_pub x (ap\<lparr>ap_publishers := ps\<rparr>) s) = goes_by s" for ps
      using ap(1) by (auto simp: goes_by_def fun_eq_iff)
    show ?thesis using Cons.prems ap g
      by (auto simp: sendNotificationLocally_def Let_def split: prod.splits Option.bind_splits dest!: send_to_host_goes_by)
  qed
qed simp

lemma start_stores:
  assumes "lp_inv s" "pk_data p = cells (note_bytes START_PUBLISH IDs @ fid) @ ys" "ids_ok IDs" "length fid = FID_LEN"
    and "\<forall>x \<in> set IDs. started (publishers_at s x) = []" "handleRVNotification p s = Some s'"
  shows "\<forall>y \<in> set IDs. goes_by s y \<noteq> None \<longrightarrow> goes_by s' y = Some (fid_of_bytes fid, IDs)"
proof -
  have d: "pk_data p = cells (note_bytes START_PUBLISH IDs) @ cells fid @ ys" using assms(2) by simp
  note r = note_parse [OF d assms(3)]
  have f: "rdn p (2 + length (ids_bytes IDs)) FID_LEN = Some fid"
    by (rule rdn_skip [of p "note_bytes START_PUBLISH IDs"]) (simp_all add: d assms(4) note_bytes_def)
  have fid: "is_fid (fid_of_bytes fid)" using fid_of_bytes_fid assms(4) by blast
  obtain b s1 where sk: "start_known (fid_of_bytes fid) IDs IDs s = (b, s1)" by force
  from start_known_ok [OF assms(1) fid sk] assms(5) have "\<not> b" by blast
  then have "start_first IDs s1 = Some s'" "start_known (fid_of_bytes fid) IDs IDs s = (False, s1)"
    using assms(6) r f sk by (simp_all add: handleRVNotification_def)
  then show ?thesis using start_first_keeps start_known_stores by auto
qed

text \<open>
  The dispatcher of the topology manager's node: nobody there but the manager publishes or wants the
  notifications of the node it writes to.
\<close>

definition passes_notifications :: "local_proxy \<Rightarrow> lh_addr \<Rightarrow> bstr \<Rightarrow> bool" where
  "passes_notifications s a node \<longleftrightarrow> hm_get (activePublicationIndex s) resp_bin_prefix_id = None \<and>
     (\<forall>b. b \<noteq> a \<longrightarrow> \<not> wants s b (resp_bin_prefix_id @ node)) \<and> nodeID (lp_gc s) \<noteq> node"

lemma father_of_append: "length y = 8 \<Longrightarrow> father_of (x @ y) = x"
  by (simp add: father_of_def substring_def)

lemma response_leaves:
  assumes "lp_inv s" "hm_get (local_pub_sub_Index s) (sender_id 0 p) = Some a" "passes_notifications s a node" "length node = 8"
    and "is_fid FID" "pk_data p = cells (app_data (resp_bin_prefix_id @ node) IMPLICIT_RENDEZVOUS (fid_bytes FID)) @ ys"
  shows "\<exists>q. LocalProxy_push 0 p s = Some (s\<lparr>lp_out := lp_out s @ [(2, q)]\<rparr>) \<and>
    pk_data q = cells (fid_bytes FID) @ cells (net_bytes [resp_bin_prefix_id @ node]) @ ys"
proof -
  let ?x = "resp_bin_prefix_id @ node" and ?q = "p\<lparr>pk_data := ys\<rparr>"
  have x: "short_id ?x" "length ?x < 256" using assms(4) by (simp_all add: short_id_def resp_prefix)
  have own: "own_fid IMPLICIT_RENDEZVOUS" by (simp add: own_fid_def)
  have l: "length (fid_bytes FID) = FID_LEN" by (rule length_fid_bytes [OF assms(5)])
  have n: "?x \<noteq> notificationIID (lp_gc s)"
    using inv_gc [OF assms(1)] assms(3) by (auto simp: gc_wf_def passes_notifications_def resp_prefix)
  have "LocalProxy_push 0 p s = handleUserPublicationFID ?x (fid_of_bytes (fid_bytes FID)) ?q a s"
    using data_push_eq [OF assms(1) _ assms(6) known_sender(1) [OF assms(2)]] push_data_eq [OF assms(6) x(1), of a s] l n own
    by (simp add: Let_def)
  then have e: "LocalProxy_push 0 p s = handleUserPublicationFID ?x FID ?q a s" using fid_of_fid_bytes [OF assms(5)] by simp
  have k: "known_siblings ?x s = []"
    using assms(3) father_of_append [OF assms(4)] by (simp add: known_siblings_def passes_notifications_def)
  from handleUserPublicationFID_ok [OF assms(1,5), of ?x a ?q, unfolded k append_Nil] obtain m :: "(lh_addr, bstr) htab" where
    m: "audience s [?x] {a} m" and h: "handleUserPublicationFID ?x FID ?q a s = Some (s\<lparr>lp_out := lp_out s @
      (if m = [] \<or> bv_zero (TMFID (lp_gc s)) \<or> \<not> bv_eq FID (TMFID (lp_gc s)) then [(2, remote_packet [?x] FID ?q)] else []) @
      map (\<lambda>(b, _). host_out s b (data_packet ?x ?q)) m\<rparr>)" by blast
  have "fst ` set m = {}" using audience_sets(2) [OF m] assms(3) by (auto simp: passes_notifications_def)
  then have "m = []" by simp
  moreover have "ids_ok [?x]" using x by (simp add: ids_ok_def)
  from remote_packet_eq [OF this _ assms(5), of ?q] have "pk_data (remote_packet [?x] FID ?q) = cells (fid_bytes FID) @ cells (net_bytes [?x]) @ ys"
    using x(2) by simp
  ultimately show ?thesis using e h by auto
qed

text \<open>
  C9. What the topology manager decides takes effect. Its message to a publisher to start, sent through the
  library along the route to the publisher's node, leaves its own node as one packet, travels over every
  chain of forwarders wired as that route, and reaches the publisher's dispatcher; there, when no
  publisher of the item is on yet, the first publisher of the first of the identifiers is sent one
  event to start, which the library reads as such, and every publication of the identifiers
  now goes by the forwarding identifier and under the identifiers of the message.
\<close>

theorem start_reaches_publisher:
  assumes "topology_ok g" and "node \<in> set (ig_NODEID g)" and "route_fid g TM node to_node" and "is_fid FID" and "ids_ok IDs"
    and "m = response_message ba node (fid_bytes to_node) (publisher_response (cells (u8 (length IDs) # ids_bytes IDs)) (Some FID))"
    and "lp_inv sT" and "hm_get (local_pub_sub_Index sT) (ba_pid ba) = Some a" and "passes_notifications sT a node"
    and "wired_route g TM node fw fe trail dest" and "trail = [] \<or> \<not> all_ones to_node"
    and "lp_inv s" and "nodeID (lp_gc s) = node" and "\<forall>x \<in> set IDs. started (publishers_at s x) = []"
    and "first_started s IDs = Some (b, x)" and "host_key s b = Some (LOCAL_PROCESS, pid)"
  shows "\<exists>p q q' s' out d. FromNetlink_selected m = Some (Some p) \<and>
    LocalProxy_push 0 p sT = Some (sT\<lparr>lp_out := lp_out sT @ [(2, q)]\<rparr>) \<and>
    travels env ((0, fw, fe) # trail) dest q q' \<and>
    LocalProxy_push 2 q' s = Some s' \<and> lp_inv s' \<and> lp_out s' = lp_out s @ [out] \<and> to_applications [out] = [(pid, d)] \<and>
    getEvent d Event_new = Some \<lparr>ev_type = START_PUBLISH, ev_id = x, ev_data = None, ev_buffer = Some d\<rparr> \<and>
    (\<forall>y \<in> set IDs. goes_by s y \<noteq> None \<longrightarrow> goes_by s' y = Some (FID, IDs))"
proof -
  let ?x = "resp_bin_prefix_id @ node"
  let ?ys = "cells (note_bytes START_PUBLISH IDs @ fid_bytes FID)"
  let ?p = "\<lparr>pk_data = cells (app_data ?x IMPLICIT_RENDEZVOUS (fid_bytes to_node)) @ ?ys, pk_anno = Some (ba_pid ba)\<rparr>"
  have n8: "length node = 8" using assms(1,2) by (auto simp: topology_ok_def)
  have tn: "is_fid to_node" "\<forall>i < 256. route_bits g TM node i \<longrightarrow> bv_bit to_node i" using assms(3) by (auto simp: route_fid_def)
  have p: "FromNetlink_selected m = Some (Some ?p)"
    unfolding assms(6) response_message_def library_datagram by (simp add: publisher_response_def note_bytes_def)
  have "hm_get (local_pub_sub_Index sT) (sender_id 0 ?p) = Some a" using assms(8) by (simp add: sender_id_def)
  from response_leaves [OF assms(7) this assms(9) n8 tn(1), of ?ys] obtain q where
    q: "LocalProxy_push 0 ?p sT = Some (sT\<lparr>lp_out := lp_out sT @ [(2, q)]\<rparr>)" "pk_data q = cells (fid_bytes to_node) @ cells (net_bytes [?x]) @ ?ys" by auto
  from travel [OF wired_route_leads [OF assms(10) tn(2)] tn(1) assms(11) q(2), of env] obtain q' where
    q': "travels env ((0, fw, fe) # trail) dest q q'" "pk_data q' = cells (net_bytes [?x]) @ ?ys" by blast
  have nid: "?x = notificationIID (lp_gc s)" using inv_gc [OF assms(12)] assms(13) by (simp add: gc_wf_def resp_prefix)
  have "ids_ok [?x]" using n8 by (simp add: ids_ok_def short_id_def resp_prefix)
  from push_network_eq [OF q'(2) this, of s] nid have h: "LocalProxy_push 2 q' s = handleRVNotification (q'\<lparr>pk_data := ?ys\<rparr>) s" by simp
  have f: "length (fid_bytes FID) = FID_LEN" by (rule length_fid_bytes [OF assms(4)])
  have dq: "pk_data (q'\<lparr>pk_data := ?ys\<rparr>) = cells (note_bytes START_PUBLISH IDs @ fid_bytes FID) @ []" by simp
  have non: "\<not> (\<exists>x \<in> set IDs. started (publishers_at s x) \<noteq> [])" using assms(14) by blast
  let ?out = "host_out s b (of_bytes (event_bytes START_PUBLISH x))"
  from start_notification_aux [OF assms(12) dq assms(5) f] obtain s' where
    s': "handleRVNotification (q'\<lparr>pk_data := ?ys\<rparr>) s = Some s'" "same_books s s'" "lp_out s' = lp_out s @ [?out]"
    unfolding if_not_P [OF non] assms(15) by auto
  have st: "\<forall>y \<in> set IDs. goes_by s y \<noteq> None \<longrightarrow> goes_by s' y = Some (FID, IDs)"
    using start_stores [OF assms(12) dq assms(5) f assms(14) s'(1)] fid_of_fid_bytes [OF assms(4)] by simp
  have "x \<in> set IDs" using assms(15) by (auto simp: first_started_def split: list.splits dest: filter_eq_ConsD)
  then have sx: "short_id x" using assms(5) by (simp add: ids_ok_def)
  let ?o = "(of_bytes (event_bytes START_PUBLISH x))\<lparr>pk_anno := Some pid\<rparr>"
  have o: "?out = (0, ?o)" using assms(16) by (simp add: host_out_def)
  from to_application [of ?o "[?out]" pid START_PUBLISH x "[]"] sx obtain d where
    d: "(pid, d) \<in> set (to_applications [?out])" "getEvent d Event_new = Some
      \<lparr>ev_type = START_PUBLISH, ev_id = x, ev_data = None, ev_buffer = Some d\<rparr>" unfolding o by (auto simp: of_bytes_def)
  have one: "to_applications [?out] = [(pid, d)]" using d(1) unfolding o by (simp add: to_applications_def push_drain ToNetlink_push_def drain_eq)
  have inv: "lp_inv s'" using s'(2) by (simp add: same_books_def)
  show ?thesis
    by (intro exI conjI, rule p, rule q(1), rule q'(1), rule trans [OF h s'(1)], rule inv, rule s'(3), rule one, rule d(2), rule st)
qed

subsection \<open>Start of a node\<close>

text \<open>The dispatcher after the packet of the rendezvous element.\<close>

lemma startup_packet:
  assumes "gc_wf gc" "LocalRV_initialize gc = Some rv"
  shows "\<exists>p. BA_InfoGraph.rv.rv_out rv = [p] \<and>
    pk_data p = cells (app_request SUBSCRIBE_SCOPE (RVScope gc) [] IMPLICIT_RENDEZVOUS) @ replicate 88 None"
proof -
  obtain h rv1 where g: "getRemoteHost (nodeID gc) \<lparr>rv_gc = gc, rv_localProxy = [], rv_scopes = (\<lambda>_. None), rv_items = (\<lambda>_. None),
       rv_next = 0, pub_sub_Index = [], scopeIndex = [], pubIndex = [], rv_msgs = [], rv_out = []\<rparr> = (h, rv1)" by force
  have sc: "RVScope gc = replicate 8 255" using assms(1) by (simp add: gc_wf_def)
  show ?thesis using assms(2) g by (auto simp: LocalRV_initialize_def pk_make_def app_request_def id_bytes_def sc u8_def)
qed

lemma startup_push:
  assumes "gc_wf gc" "pk_data p = cells (app_request SUBSCRIBE_SCOPE (RVScope gc) [] IMPLICIT_RENDEZVOUS) @ ys"
  shows "\<exists>s. LocalProxy_push 1 p (LocalProxy_configure gc) = Some s \<and> lp_inv s \<and> lp_out s = [] \<and> lp_gc s = gc \<and>
    host_key s 0 = Some (CLICK_ELEMENT, 1) \<and> host_subs s = (\<lambda>a. if a = 0 then {RVScope gc} else {})"
proof -
  have sc: "RVScope gc = replicate 8 255" using assms(1) by (simp add: gc_wf_def)
  have ok: "short_id (RVScope gc)" "RVScope gc \<noteq> []" by (simp_all add: sc short_id_def)
  have t: "rd8 p 0 = Some SUBSCRIBE_SCOPE" by (rule rd8_skip [of p "[]"]) (simp_all add: assms(2) app_request_def)
  from request_push_aux [OF configure_inv [OF assms(1)] _ assms(2) ok(1) short_id_Nil, of 1] ok(2) obtain s where
    s: "LocalProxy_push 1 p (LocalProxy_configure gc) = Some s" "lp_inv s" "lp_gc s = gc" by (auto simp: LocalProxy_configure_def)
  let ?h = "LocalHost_new CLICK_ELEMENT 1\<lparr>activeSubscriptions := [RVScope gc]\<rparr>"
  have e: "\<exists>idx. LocalProxy_push 1 p (LocalProxy_configure gc) = Some ((LocalProxy_configure gc)\<lparr>lp_hosts := [0 \<mapsto> ?h], lp_next := 1,
      local_pub_sub_Index := [(1, 0)], activeSubscriptionIndex := idx\<rparr>)"
    using t by (simp add: LocalProxy_push_app push_request_eq [OF assms(2) ok(1) short_id_Nil] sender_type_def sender_id_def getLocalHost_def
      LocalProxy_configure_def handleLocalRequest_def storeActiveSubscription_def host_add_sub_def upd_host_def put_sub_def forwards_subscription_def
      Let_def ActiveSubscription_new_def LocalHost_new_def request_fullID_def sc hs_insert_def)
  then obtain idx where "s = (LocalProxy_configure gc)\<lparr>lp_hosts := [0 \<mapsto> ?h], lp_next := 1,
      local_pub_sub_Index := [(1, 0)], activeSubscriptionIndex := idx\<rparr>" using s(1) by auto
  then have "lp_out s = []" "host_key s 0 = Some (CLICK_ELEMENT, 1)" "host_subs s = (\<lambda>a. if a = 0 then {RVScope gc} else {})"
    by (simp_all add: LocalProxy_configure_def host_key_def host_subs_def LocalHost_new_def fun_eq_iff)
  then show ?thesis using s by blast
qed

lemma startup_hears:
  assumes "gc_wf gc" "host_key s 0 = Some (CLICK_ELEMENT, 1)" "host_subs s = (\<lambda>a. if a = 0 then {RVScope gc} else {})" "gc_wf gc'"
  shows "rendezvous_hears s (nodeRVScope gc')"
proof -
  have "father_of (nodeRVScope gc') = RVScope gc"
    using assms(1,4) father_of_append [of "nodeID gc'" "RVScope gc'"] by (simp add: gc_wf_def)
  then have "{c. wants s c (nodeRVScope gc')} = {0}" by (auto simp: wants_def assms(3))
  then show ?thesis using assms(2) by (auto simp: rendezvous_hears_def)
qed

text \<open>
  C22. The parts of a node that starts find each other. The packet the rendezvous element sends when it is
  initialised makes the dispatcher, on its port 1, take it as the only host that wants what is published
  under the rendezvous scope: the requests of every node, and of no other kind of data, from then on. Nothing is
  put out.
\<close>

theorem startup_wires_rendezvous:
  assumes "gc_wf gc" and "LocalRV_initialize gc = Some rv"
  shows "\<exists>p s. BA_InfoGraph.rv.rv_out rv = [p] \<and> LocalProxy_push 1 p (LocalProxy_configure gc) = Some s \<and> lp_inv s \<and> lp_out s = [] \<and>
    (\<forall>gc'. gc_wf gc' \<longrightarrow> rendezvous_hears s (nodeRVScope gc')) \<and>
    (\<forall>a x. wants s a x \<longleftrightarrow> a = 0 \<and> (x = RVScope gc \<or> father_of x = RVScope gc))"
proof -
  from startup_packet [OF assms] obtain p where
    p: "BA_InfoGraph.rv.rv_out rv = [p]" "pk_data p = cells (app_request SUBSCRIBE_SCOPE (RVScope gc) [] IMPLICIT_RENDEZVOUS) @ replicate 88 None"
    by blast
  from startup_push [OF assms(1) p(2)] obtain s where
    s: "LocalProxy_push 1 p (LocalProxy_configure gc) = Some s" "lp_inv s" "lp_out s = []" "host_key s 0 = Some (CLICK_ELEMENT, 1)"
    and w: "host_subs s = (\<lambda>a. if a = 0 then {RVScope gc} else {})" by blast
  have wants: "wants s a x \<longleftrightarrow> a = 0 \<and> (x = RVScope gc \<or> father_of x = RVScope gc)" for a x by (simp add: wants_def w)
  then show ?thesis using p(1) s startup_hears [OF assms(1) s(4) w] by blast
qed

subsection \<open>Examples\<close>

definition ex_far_gc :: globalconf where
  "ex_far_gc = ex_gc\<lparr>defaultRV_dl := ex_fid 1\<rparr>"

definition ex_far_fw :: forwarder where
  "ex_far_fw = ex_fw\<lparr>fw_gc := ex_gc\<lparr>iLID := ex_fid 1\<rparr>\<rparr>"

lemma ex_far_gc_wf: "gc_wf ex_far_gc"
  using ex_gc_wf ex_fid_ok by (simp add: gc_wf_def ex_far_gc_def)

lemma ex_far_way: "leads_over (ex_fid 1) ex_fw (ex_entry 1 1 2)" "leads_along (ex_fid 1) (ex_entry 1 1 2) [] (1, ex_far_fw)"
  subgoal using ex_fw_wf by (simp add: leads_over_def) (simp add: ex_fw_def ex_gc_def ex_entry_def lid_in_fid_def)
  subgoal using ex_fw_wf by (simp add: ex_far_fw_def lid_in_fid_def) (auto simp: fw_wf_def ex_fw_def ex_gc_def gc_wf_def ex_fid_ok)
  done

definition ex_call_packet :: packet where
  "ex_call_packet = the (the (FromNetlink_selected (last (ba_sent (snd
     (lib_request PUBLISH_SCOPE ex_scope [] DOMAIN_LOCAL None ex_ba))))))"

lemma ex_call_out: "map_option lp_out (LocalProxy_push 0 ex_call_packet (LocalProxy_configure ex_far_gc)) \<noteq> Some []"
  by code_simp

lemma ex_hub: "\<exists>hub. lp_inv hub \<and> rendezvous_hears hub (nodeRVScope ex_far_gc) \<and> lp_gc hub = ex_gc"
proof -
  obtain rv where "LocalRV_initialize ex_gc = Some rv" using ex_rv0_eq by blast
  from startup_packet [OF ex_gc_wf this] obtain p :: packet where
    "pk_data p = cells (app_request SUBSCRIBE_SCOPE (RVScope ex_gc) [] IMPLICIT_RENDEZVOUS) @ replicate 88 None" by blast
  from startup_push [OF ex_gc_wf this] startup_hears [OF ex_gc_wf _ _ ex_far_gc_wf] show ?thesis by blast
qed

theorem request_reaches_rendezvous_witness:
  "\<exists>d p s' q hub q' r'. lib_request PUBLISH_SCOPE ex_scope [] DOMAIN_LOCAL None ex_ba = (Sent, ex_ba\<lparr>ba_sent := [d]\<rparr>) \<and>
     FromNetlink_selected d = Some (Some p) \<and> LocalProxy_push 0 p (LocalProxy_configure ex_far_gc) = Some s' \<and> lp_out s' = [(2, q)] \<and>
     lp_inv hub \<and> travels ex_env [(0, ex_fw, ex_entry 1 1 2)] (1, ex_far_fw) q q' \<and>
     LocalProxy_push 2 q' hub = Some (hub\<lparr>lp_out := lp_out hub @ [(1, r')]\<rparr>) \<and>
     parse_request r' = Some (Some (request_of ex_far_gc PUBLISH_SCOPE ex_scope [] DOMAIN_LOCAL))"
proof -
  let ?s = "LocalProxy_configure ex_far_gc"
  have gc: "lp_gc ?s = ex_far_gc" "lp_out ?s = []" by (simp_all add: LocalProxy_configure_def)
  have f: "request_RVFID ex_far_gc DOMAIN_LOCAL = ex_fid 1" by (simp add: request_RVFID_def ex_far_gc_def)
  have e: "request_error PUBLISH_SCOPE ex_scope [] = None" by code_simp
  have nl: "\<not> (bv_zero (ex_fid 1) \<or> bv_eq (ex_fid 1) (iLID ex_far_gc))" by code_simp
  from request_reaches_rendezvous [OF configure_inv [OF ex_far_gc_wf] _ e _ _ _ gc(1) [symmetric] f [symmetric] refl, of ex_ba None]
  obtain d p s' where
    d: "lib_request PUBLISH_SCOPE ex_scope [] DOMAIN_LOCAL None ex_ba = (Sent, ex_ba\<lparr>ba_sent := ba_sent ex_ba @ [d]\<rparr>)"
      "FromNetlink_selected d = Some (Some p)" "LocalProxy_push 0 p ?s = Some s'" and
    o: "lp_out s' = lp_out ?s \<or> (\<exists>q. lp_out s' = lp_out ?s @ [(2, q)] \<and>
      read_afar ex_far_gc (ex_fid 1) q (request_of ex_far_gc PUBLISH_SCOPE ex_scope [] DOMAIN_LOCAL))"
    using nl by (auto simp: request_types_def ex_ba_def ex_scope_def split: if_splits)
  have "p = ex_call_packet" by (simp add: ex_call_packet_def d(1,2))
  then have "lp_out s' \<noteq> []" using ex_call_out d(3) by auto
  then obtain q where q: "lp_out s' = [(2, q)]" "read_afar ex_far_gc (ex_fid 1) q (request_of ex_far_gc PUBLISH_SCOPE ex_scope [] DOMAIN_LOCAL)"
    using o gc(2) by auto
  obtain hub where hub: "lp_inv hub" "rendezvous_hears hub (nodeRVScope ex_far_gc)" using ex_hub by blast
  from q(2) hub ex_far_way obtain q' r' where "travels ex_env [(0, ex_fw, ex_entry 1 1 2)] (1, ex_far_fw) q q'"
    "LocalProxy_push 2 q' hub = Some (hub\<lparr>lp_out := lp_out hub @ [(1, r')]\<rparr>)"
    "parse_request r' = Some (Some (request_of ex_far_gc PUBLISH_SCOPE ex_scope [] DOMAIN_LOCAL))"
    unfolding read_afar_def by blast
  then show ?thesis using d q(1) hub(1) by (auto simp: ex_ba_def)
qed

theorem startup_wires_rendezvous_witness:
  "\<exists>p s. BA_InfoGraph.rv.rv_out ex_rv0 = [p] \<and> LocalProxy_push 1 p (LocalProxy_configure ex_gc) = Some s \<and>
     rendezvous_hears s (nodeRVScope ex_far_gc)"
  using startup_wires_rendezvous [OF ex_gc_wf ex_rv0_eq] ex_far_gc_wf by blast

definition ex_F :: bitvec where "ex_F = fid_of_bytes ex_fid_bytes"

definition ex_hop :: "bitvec \<Rightarrow> fwd_entry" where "ex_hop F = (ex_entry 1 1 2)\<lparr>fe_LID := F\<rparr>"
definition ex_first :: "bitvec \<Rightarrow> forwarder" where "ex_first F = ex_fw\<lparr>fwTable := [ex_hop F]\<rparr>"
definition ex_last :: "bitvec \<Rightarrow> forwarder" where "ex_last F = ex_fw\<lparr>fw_gc := ex_gc\<lparr>iLID := F\<rparr>\<rparr>"

lemma ex_nodes_wf: "is_fid F \<Longrightarrow> fw_wf (ex_first F) \<and> use_mac (fw_gc (ex_first F)) \<and> ex_hop F \<in> set (fwTable (ex_first F))"
    "is_fid F \<Longrightarrow> fw_wf (ex_last F) \<and> use_mac (fw_gc (ex_last F)) \<and> iLID (fw_gc (ex_last F)) = F"
  using ex_fw_wf by (auto simp: fw_wf_def ex_first_def ex_last_def ex_fw_def ex_hop_def entry_wf_def ex_gc_def gc_wf_def)

lemma ex_hop_leads: "is_fid F \<Longrightarrow> leads_over F (ex_first F) (ex_hop F)" "is_fid F \<Longrightarrow> leads_along F (ex_hop F) [] (1, ex_last F)"
  using ex_nodes_wf by (simp_all add: leads_over_def ex_hop_def lid_in_fid_def)

lemma ex_F_ok: "is_fid ex_F" "\<not> bv_zero ex_F" "\<not> bv_eq ex_F (iLID ex_gc)"
  unfolding is_fid_def by code_simp+

lemma ex_lp_publication: "map_option (\<lambda>(ap, IDs). (ap_FID ap, IDs)) (publication_of_data (ex_scope @ ex_item) ex_lp) = Some (ex_F, [ex_scope @ ex_item])"
  by code_simp

lemma ex_lp_subscriber: "host_key ex_lp 2 = Some (LOCAL_PROCESS, 11)" "wants ex_lp 2 (ex_scope @ ex_item)"
  by code_simp+

theorem data_reaches_subscribers_witness:
  "\<exists>d p q q' outs outs2 d2. lib_publish_data (ex_scope @ ex_item) DOMAIN_LOCAL None [Some 42] ex_ba = Some (Sent, ex_ba\<lparr>ba_sent := [d]\<rparr>) \<and>
     FromNetlink_selected d = Some (Some p) \<and> LocalProxy_push 0 p ex_lp = Some (ex_lp\<lparr>lp_out := lp_out ex_lp @ outs\<rparr>) \<and> (2, q) \<in> set outs \<and>
     travels ex_env [(0, ex_first ex_F, ex_hop ex_F)] (1, ex_last ex_F) q q' \<and>
     LocalProxy_push 2 q' ex_lp = Some (ex_lp\<lparr>lp_out := lp_out ex_lp @ outs2\<rparr>) \<and> (11, d2) \<in> set (to_applications outs2) \<and>
     getEvent d2 Event_new = Some \<lparr>ev_type = PUBLISHED_DATA, ev_id = ex_scope @ ex_item, ev_data = Some [Some 42], ev_buffer = Some d2\<rparr>"
proof -
  let ?x = "ex_scope @ ex_item"
  obtain ap where ap: "publication_of_data ?x ex_lp = Some (ap, [?x])" "ex_F = ap_FID ap" using ex_lp_publication by auto
  have x: "short_id ?x" "length ?x < 256" by (simp_all add: short_id_def ex_scope_def ex_item_def)
  have ids: "ids_ok [?x]" "\<forall>y \<in> set [?x]. length y < 256" using x by (simp_all add: ids_ok_def)
  have st: "\<not> own_fid DOMAIN_LOCAL" "DOMAIN_LOCAL \<noteq> BROADCAST_IF" by (simp_all add: own_fid_def)
  have i: "hm_get (local_pub_sub_Index ex_lp) (ba_pid ex_ba) = Some 0" "sock_fd ex_ba \<noteq> -1" "ba_sent ex_ba = []"
    using ex_lp_index(1) by (simp_all add: ex_ba_def)
  have n: "[?x] \<noteq> [notificationIID (lp_gc ex_lp)]" unfolding ex_lp_index(3) by code_simp
  have l: "\<not> bv_eq ex_F (iLID (lp_gc ex_lp))" unfolding ex_lp_index(3) by (rule ex_F_ok(3))
  from data_reaches_subscribers [OF ex_lp_run(2) i(1,2) x(1) st ap(1) ids ap(2) ex_F_ok(1,2) l
      ex_hop_leads [OF ex_F_ok(1)] _ ex_lp_run(2) n, of "[Some 42]" ex_env]
  obtain d p outs q q' outs2 where
    r: "lib_publish_data ?x DOMAIN_LOCAL None [Some 42] ex_ba = Some (Sent, ex_ba\<lparr>ba_sent := ba_sent ex_ba @ [d]\<rparr>)"
      "FromNetlink_selected d = Some (Some p)" "LocalProxy_push 0 p ex_lp = Some (ex_lp\<lparr>lp_out := lp_out ex_lp @ outs\<rparr>)" "(2, q) \<in> set outs"
      "travels ex_env [(0, ex_first ex_F, ex_hop ex_F)] (1, ex_last ex_F) q q'"
      "LocalProxy_push 2 q' ex_lp = Some (ex_lp\<lparr>lp_out := lp_out ex_lp @ outs2\<rparr>)" and
    w: "\<forall>b pid y. y \<in> set [?x] \<and> wants ex_lp b y \<and> host_key ex_lp b = Some (LOCAL_PROCESS, pid) \<longrightarrow>
      (\<exists>d2 z. (pid, d2) \<in> set (to_applications outs2) \<and> z \<in> set [?x] \<and> wants ex_lp b z \<and>
        getEvent d2 Event_new = Some \<lparr>ev_type = PUBLISHED_DATA, ev_id = z, ev_data = Some [Some 42], ev_buffer = Some d2\<rparr>)" by auto
  have "?x \<in> set [?x] \<and> wants ex_lp 2 ?x \<and> host_key ex_lp 2 = Some (LOCAL_PROCESS, 11)" using ex_lp_subscriber by simp
  with w obtain d2 z where "(11, d2) \<in> set (to_applications outs2)" "z \<in> set [?x]"
    "getEvent d2 Event_new = Some \<lparr>ev_type = PUBLISHED_DATA, ev_id = z, ev_data = Some [Some 42], ev_buffer = Some d2\<rparr>" by blast
  then show ?thesis using r i(3) by (intro exI conjI) (assumption | simp)+
qed

subsubsection \<open>A start message\<close>

definition ex_gc_at :: "bstr \<Rightarrow> globalconf" where
  "ex_gc_at node = ex_gc\<lparr>nodeID := node, nodeRVScope := replicate 8 255 @ node, nodeTMScope := replicate 7 255 @ [254] @ node,
     notificationIID := replicate 7 255 @ [253] @ node\<rparr>"

definition ex_booked :: "bstr \<Rightarrow> local_proxy" where
  "ex_booked node = the (LocalProxy_push 0 (snd (ex_app 7 (app_request PUBLISH_SCOPE ex_scope [] DOMAIN_LOCAL))) (LocalProxy_configure (ex_gc_at node)))"

lemma ex_gc_at_wf: "length node = 8 \<Longrightarrow> gc_wf (ex_gc_at node)"
  using ex_gc_wf by (simp add: gc_wf_def ex_gc_at_def ex_gc_def)

lemma ex_booked_ok:
  assumes "length node = 8"
  shows "lp_inv (ex_booked node)" "lp_gc (ex_booked node) = ex_gc_at node" "host_subs (ex_booked node) = (\<lambda>_. {})"
proof -
  have d: "pk_data (snd (ex_app 7 (app_request PUBLISH_SCOPE ex_scope [] DOMAIN_LOCAL))) = cells (app_request PUBLISH_SCOPE ex_scope [] DOMAIN_LOCAL) @ []"
    by (simp add: ex_app_def)
  have "host_subs (LocalProxy_configure gc) = (\<lambda>_. {})" for gc by (simp add: LocalProxy_configure_def host_subs_def fun_eq_iff)
  then show "lp_inv (ex_booked node)" "lp_gc (ex_booked node) = ex_gc_at node" "host_subs (ex_booked node) = (\<lambda>_. {})"
    using request_push_aux [OF configure_inv [OF ex_gc_at_wf [OF assms]] _ d ex_ids_ok(1) short_id_Nil, of 0] ex_nonempty
    by (auto simp: ex_booked_def Let_def books_sub_def LocalProxy_configure_def)
qed

lemma ex_booked_facts: "hm_get (local_pub_sub_Index (ex_booked (ex_node 65))) 7 = Some 0"
    "hm_get (activePublicationIndex (ex_booked (ex_node 65))) resp_bin_prefix_id = None"
    "publishers_at (ex_booked (ex_node 66)) ex_scope = [(0, STOP_PUBLISH)]" "host_key (ex_booked (ex_node 66)) 0 = Some (LOCAL_PROCESS, 7)"
  by code_simp+

lemma ex_route: "map (\<lambda>e. ig_LID ex_topology ! e) (path_edges ex_topology (route ex_topology (ex_node 65) (ex_node 66))) = [ex_lid 4]"
    "ig_iLID ex_topology ! vertex ex_topology (ex_node 66) = ex_lid 1"
  by code_simp+

lemma ex_wired: "wired (ex_fid 16) (ex_lid 4)" "wired (ex_fid 2) (ex_lid 1)"
  by code_simp+

lemma ex_route_fid: "route_fid ex_topology (ex_node 65) (ex_node 66) (ex_fid 18)"
proof -
  let ?es = "path_edges ex_topology (route ex_topology (ex_node 65) (ex_node 66))"
  have "(\<exists>e \<in> set ?es. text_bit (ig_LID ex_topology ! e) i) \<longleftrightarrow> (\<exists>l \<in> set (map (\<lambda>e. ig_LID ex_topology ! e) ?es). text_bit l i)" for i by simp
  then have b: "route_bits ex_topology (ex_node 65) (ex_node 66) i \<longleftrightarrow> text_bit (ex_lid 4) i \<or> text_bit (ex_lid 1) i" for i
    unfolding route_bits_def ex_route by simp
  have "\<forall>i < 256. bv_bit (ex_fid 18) i = (bv_bit (ex_fid 16) i \<or> bv_bit (ex_fid 2) i)" by code_simp
  then show ?thesis using ex_wired by (simp add: route_fid_def ex_fid_ok b wired_def)
qed

lemma ex_wired_route: "wired_route ex_topology (ex_node 65) (ex_node 66) (ex_first (ex_fid 16)) (ex_hop (ex_fid 16)) [] (1, ex_last (ex_fid 2))"
  using ex_wired ex_nodes_wf [OF ex_fid_ok] by (simp add: wired_route_def ex_route wired_link_def) (simp add: ex_hop_def)

theorem start_reaches_publisher_witness:
  "\<exists>p q q' s' out d m. m = response_message ex_ba (ex_node 66) (fid_bytes (ex_fid 18))
       (publisher_response (cells (u8 (length [ex_scope]) # ids_bytes [ex_scope])) (Some (ex_fid 5))) \<and>
     FromNetlink_selected m = Some (Some p) \<and>
     LocalProxy_push 0 p (ex_booked (ex_node 65)) = Some ((ex_booked (ex_node 65))\<lparr>lp_out := lp_out (ex_booked (ex_node 65)) @ [(2, q)]\<rparr>) \<and>
     travels ex_env [(0, ex_first (ex_fid 16), ex_hop (ex_fid 16))] (1, ex_last (ex_fid 2)) q q' \<and>
     LocalProxy_push 2 q' (ex_booked (ex_node 66)) = Some s' \<and> to_applications [out] = [(7, d)] \<and>
     getEvent d Event_new = Some \<lparr>ev_type = START_PUBLISH, ev_id = ex_scope, ev_data = None, ev_buffer = Some d\<rparr>"
proof -
  have n: "length (ex_node 65) = 8" "length (ex_node 66) = 8" by (simp_all add: ex_node_def)
  have v: "ex_node 66 \<in> set (ig_NODEID ex_topology)" using ex_nodes by simp
  have ids: "ids_ok [ex_scope]" using ex_ids_ok(1) by (simp add: ids_ok_def)
  note T = ex_booked_ok [OF n(1)] and P = ex_booked_ok [OF n(2)]
  have i: "hm_get (local_pub_sub_Index (ex_booked (ex_node 65))) (ba_pid ex_ba) = Some 0" using ex_booked_facts(1) by (simp add: ex_ba_def)
  have "nodeID (ex_gc_at (ex_node 65)) \<noteq> ex_node 66" by code_simp
  then have pn: "passes_notifications (ex_booked (ex_node 65)) 0 (ex_node 66)"
    by (simp add: passes_notifications_def ex_booked_facts(2) wants_def T(2,3))
  have d: "nodeID (lp_gc (ex_booked (ex_node 66))) = ex_node 66" by (simp add: P(2) ex_gc_at_def)
  have st: "\<forall>x \<in> set [ex_scope]. started (publishers_at (ex_booked (ex_node 66)) x) = []" by (simp add: ex_booked_facts(3) started_def)
  have fs: "first_started (ex_booked (ex_node 66)) [ex_scope] = Some (0, ex_scope)" by (simp add: first_started_def ex_booked_facts(3))
  from start_reaches_publisher [OF ex_topology_ok v ex_route_fid ex_fid_ok [of 5] ids refl T(1) i pn ex_wired_route _ P(1) d st fs ex_booked_facts(4), of ex_env]
  show ?thesis by blast
qed

end
