(* ===== verification/BA_Deployment.thy ===== *)
theory BA_Deployment
  imports BA_Network
begin

text \<open>
  The deployment tool, \<^verbatim>\<open>deployment/network.cpp\<close>, \<^verbatim>\<open>deployment/graph_representation.cpp\<close> and
  \<^verbatim>\<open>deployment/deploy.cpp\<close>: identifiers for the links and nodes of a domain, its graph, the identifiers from every node
  to the rendezvous node and to the topology manager, the addresses of the interfaces, and the configuration file
  of every node, as the arguments of the elements in it. The domain is what the parser has read. Random numbers,
  igraph and the answers of the nodes are parameters.
\<close>

subsection \<open>The domain\<close>

record connection =
  nc_src_label :: bstr
  nc_dst_label :: bstr
  nc_src_if :: bstr
  nc_dst_if :: bstr
  nc_src_ip :: bstr
  nc_dst_ip :: bstr
  nc_src_mac :: bstr
  nc_dst_mac :: bstr
  nc_in_pt :: string
  nc_out_pt :: string
  nc_lnk_type :: string
  nc_LID :: bitvec
  nc_mtu :: int
  nc_rate :: string
  nc_delay :: string
  nc_priority :: int
  nc_rate_lim :: int

record ns3_application =
  app_name :: string
  app_start :: string
  app_stop :: string
  app_attributes :: "(string \<times> string) list"

record network_node =
  nn_testbed_ip :: string
  nn_label :: bstr
  nn_running_mode :: string
  nn_operating_system :: string
  nn_type :: string
  nn_isRV :: bool
  nn_isTM :: bool
  nn_iLid :: bitvec
  nn_FID_to_RV :: bitvec
  nn_FID_to_TM :: bitvec
  nn_connections :: "connection list"
  nn_applications :: "ns3_application list"

text \<open>
  The nodes with a role are kept as their index among the nodes, \<open>None\<close> being the null pointer. The
  constructor leaves \<^verbatim>\<open>sudo\<close> unset: \<open>None\<close>.
\<close>

record domain =
  network_nodes :: "network_node list"
  TM_node :: "nat option"
  RV_node :: "nat option"
  number_of_nodes :: nat
  number_of_pl_nodes :: nat
  number_of_connections :: nat
  number_of_p_connections :: nat
  ba_id_len :: int
  dm_fid_len :: nat
  click_home :: string
  write_conf :: string
  dm_user :: string
  sudo :: "bool option"
  overlay_mode :: string

definition new_node :: network_node where
  "new_node = \<lparr>nn_testbed_ip = [], nn_label = [], nn_running_mode = [], nn_operating_system = [], nn_type = [], nn_isRV = False, nn_isTM = False,
     nn_iLid = bv_empty, nn_FID_to_RV = bv_empty, nn_FID_to_TM = bv_empty, nn_connections = [], nn_applications = []\<rparr>"

definition new_domain :: domain where
  "new_domain = \<lparr>network_nodes = [], TM_node = None, RV_node = None, number_of_nodes = 0, number_of_pl_nodes = 0,
     number_of_connections = 0, number_of_p_connections = 0, ba_id_len = 0, dm_fid_len = 0, click_home = [], write_conf = [],
     dm_user = [], sudo = None, overlay_mode = []\<rparr>"

definition multilayer :: "domain \<Rightarrow> bool" where
  "multilayer dm \<longleftrightarrow> overlay_mode dm = ''mac_ml''"

subsection \<open>Link identifiers\<close>

text \<open>
  \<^verbatim>\<open>rand()\<close> is a parameter: the sequence of numbers it returns and how many were taken. The
  loop that draws an identifier until it is a new one need not end: \<open>None\<close>.
\<close>

definition exists_lid :: "bitvec list \<Rightarrow> bitvec \<Rightarrow> bool" where
  "exists_lid LIDs LID \<longleftrightarrow> (\<exists>l \<in> set LIDs. bv_eq l LID)"

fun random_bits :: "(nat \<Rightarrow> nat) \<Rightarrow> nat \<Rightarrow> nat \<Rightarrow> nat \<Rightarrow> bitvec \<Rightarrow> bitvec" where
  "random_bits rnd n len 0 LID = LID"
| "random_bits rnd n len (Suc k) LID = random_bits rnd (n + 1) len k (set_bit_at (int (rnd n mod len)) True LID)"

partial_function (option) draw_LID :: "(nat \<Rightarrow> nat) \<Rightarrow> nat \<Rightarrow> nat \<Rightarrow> bitvec list \<Rightarrow> nat \<Rightarrow> (bitvec \<times> nat) option" where
  "draw_LID rnd len number_of_bits LIDs n = do {
     LID \<leftarrow> bv_new (int len);
     let LID = random_bits rnd n len number_of_bits LID;
     if exists_lid LIDs LID then draw_LID rnd len number_of_bits LIDs (n + number_of_bits)
     else Some (LID, n + number_of_bits)
   }"

definition calculateLID :: "(nat \<Rightarrow> nat) \<Rightarrow> nat \<Rightarrow> nat \<Rightarrow> bitvec list \<times> nat \<Rightarrow> (bitvec list \<times> nat) option" where
  "calculateLID rnd fid_len index st = (case st of (LIDs, n) \<Rightarrow>
     if fid_len = 0 then None
     else do {
       let number_of_bits = index div (fid_len * 8) + 1;
       (LID, n) \<leftarrow> draw_LID rnd (fid_len * 8) number_of_bits LIDs n;
       Some (LIDs[index := LID], n)
     })"

text \<open>The identifiers are handed out in the order of the nodes, each followed by its connections.\<close>

definition take_LID :: "bitvec list \<Rightarrow> nat \<Rightarrow> bitvec option" where
  "take_LID LIDs LIDCounter = (if LIDCounter < length LIDs then Some (LIDs ! LIDCounter) else None)"

fun assign_connections :: "bool \<Rightarrow> nat \<Rightarrow> bitvec list \<Rightarrow> connection list \<Rightarrow> nat \<Rightarrow> (connection list \<times> nat) option" where
  "assign_connections mac_ml fid_len LIDs [] c = Some ([], c)"
| "assign_connections mac_ml fid_len LIDs (nc # ncs) c = do {
     (LID, c) \<leftarrow> (if mac_ml \<and> nc_lnk_type nc \<noteq> ''pp''
       then do { z \<leftarrow> bv_new_bit (int (fid_len * 8)) False; Some (z, c) }
       else do { LID \<leftarrow> take_LID LIDs c; Some (LID, c + 1) });
     (ncs, c) \<leftarrow> assign_connections mac_ml fid_len LIDs ncs c;
     Some (nc\<lparr>nc_LID := LID\<rparr> # ncs, c)
   }"

fun assign_nodes :: "bool \<Rightarrow> nat \<Rightarrow> bitvec list \<Rightarrow> network_node list \<Rightarrow> nat \<Rightarrow> (network_node list \<times> nat) option" where
  "assign_nodes mac_ml fid_len LIDs [] c = Some ([], c)"
| "assign_nodes mac_ml fid_len LIDs (nn # nns) c = do {
     (ilid, c) \<leftarrow> (if mac_ml \<and> nn_type nn \<noteq> ''PN'' then Some (nn_iLid nn, c)
       else do { LID \<leftarrow> take_LID LIDs c; Some (LID, c + 1) });
     (ncs, c) \<leftarrow> assign_connections mac_ml fid_len LIDs (nn_connections nn) c;
     (nns, c) \<leftarrow> assign_nodes mac_ml fid_len LIDs nns c;
     Some (nn\<lparr>nn_iLid := ilid, nn_connections := ncs\<rparr> # nns, c)
   }"

definition assignLIDs :: "(nat \<Rightarrow> nat) \<Rightarrow> domain \<Rightarrow> domain option" where
  "assignLIDs rnd dm = do {
     let totalLIDs = (if multilayer dm then number_of_pl_nodes dm + number_of_p_connections dm
       else number_of_nodes dm + number_of_connections dm);
     (LIDs, n) \<leftarrow> fold_opt (calculateLID rnd (dm_fid_len dm)) [0..<totalLIDs] (replicate totalLIDs bv_empty, 0);
     (nns, c) \<leftarrow> assign_nodes (multilayer dm) (dm_fid_len dm) LIDs (network_nodes dm) 0;
     Some (dm\<lparr>network_nodes := nns\<rparr>)
   }"

subsection \<open>The graph\<close>

text \<open>
  What is put into igraph: vertices numbered in the order they are added, edges in the order they are
  added, and their attributes; an attribute that was not set is the empty string. The library's answers, the
  shortest path and the edge between two vertices, are parameters of what is asked of it.
\<close>

record topology =
  tp_NODEID :: "bstr list"
  tp_iLID :: "string list"
  tp_NTYPE :: "string list"
  tp_edges :: "(nat \<times> nat) list"
  tp_LID :: "string list"
  tp_LTYPE :: "string list"
  tp_index :: "(bstr, nat) htab"

record igraph_lib =
  get_shortest_paths :: "topology \<Rightarrow> nat \<Rightarrow> nat \<Rightarrow> nat list"
  get_eid :: "topology \<Rightarrow> nat \<Rightarrow> nat \<Rightarrow> nat option"

definition find_or_add :: "bstr \<Rightarrow> topology \<Rightarrow> nat \<times> topology" where
  "find_or_add label tp = (case hm_get (tp_index tp) label of
     Some v \<Rightarrow> (v, tp)
   | None \<Rightarrow> let v = length (tp_NODEID tp) in
       (v, tp\<lparr>tp_NODEID := tp_NODEID tp @ [label], tp_iLID := tp_iLID tp @ [[]], tp_NTYPE := tp_NTYPE tp @ [[]],
              tp_index := hm_find_insert label v (tp_index tp)\<rparr>))"

definition add_connection :: "bool \<Rightarrow> bool \<Rightarrow> connection \<Rightarrow> topology \<Rightarrow> topology option" where
  "add_connection mac_ml unconnected nc tp = do {
     let (source, tp) = find_or_add (nc_src_label nc) tp;
     let (destination, tp) = find_or_add (nc_dst_label nc) tp;
     if unconnected then Some tp
     else do {
       lid \<leftarrow> bv_to_string (nc_LID nc);
       Some (tp\<lparr>tp_edges := tp_edges tp @ [(source, destination)], tp_LID := tp_LID tp @ [lid],
                tp_LTYPE := tp_LTYPE tp @ [if mac_ml then nc_lnk_type nc else []]\<rparr>)
     }
   }"

text \<open>A node without connections gets one to itself for the time, so that its vertex is made.\<close>

definition new_connection :: connection where
  "new_connection = \<lparr>nc_src_label = [], nc_dst_label = [], nc_src_if = [], nc_dst_if = [], nc_src_ip = [], nc_dst_ip = [],
     nc_src_mac = [], nc_dst_mac = [], nc_in_pt = [], nc_out_pt = [], nc_lnk_type = [], nc_LID = bv_empty, nc_mtu = 0,
     nc_rate = [], nc_delay = [], nc_priority = 0, nc_rate_lim = 0\<rparr>"

definition pseudo_connection :: "bstr \<Rightarrow> connection" where
  "pseudo_connection label = new_connection\<lparr>nc_src_label := label, nc_dst_label := label\<rparr>"

definition add_connections :: "bool \<Rightarrow> network_node \<Rightarrow> topology \<Rightarrow> topology option" where
  "add_connections mac_ml nn tp = (if nn_connections nn = []
     then add_connection mac_ml True (pseudo_connection (nn_label nn)) tp
     else fold_opt (add_connection mac_ml False) (nn_connections nn) tp)"

definition set_attributes :: "bool \<Rightarrow> network_node \<Rightarrow> topology \<Rightarrow> topology option" where
  "set_attributes mac_ml nn tp = (case hm_get (tp_index tp) (nn_label nn) of
     None \<Rightarrow> Some tp
   | Some v \<Rightarrow> do {
       ilid \<leftarrow> bv_to_string (nn_iLid nn);
       Some (tp\<lparr>tp_iLID := (tp_iLID tp)[v := ilid],
                tp_NTYPE := (if mac_ml then (tp_NTYPE tp)[v := nn_type nn] else tp_NTYPE tp)\<rparr>)
     })"

definition empty_topology :: topology where
  "empty_topology = \<lparr>tp_NODEID = [], tp_iLID = [], tp_NTYPE = [], tp_edges = [], tp_LID = [], tp_LTYPE = [], tp_index = []\<rparr>"

definition buildIGraphTopology :: "domain \<Rightarrow> topology option" where
  "buildIGraphTopology dm = do {
     tp \<leftarrow> fold_opt (add_connections (multilayer dm)) (network_nodes dm) empty_topology;
     fold_opt (set_attributes (multilayer dm)) (network_nodes dm) tp
   }"

subsection \<open>The identifiers to the rendezvous node and the topology manager\<close>

text \<open>
  A string of igraph's is read for as many characters as an identifier has bits; its terminating zero is
  the last that can be read.
\<close>

definition or_text :: "nat \<Rightarrow> string \<Rightarrow> bitvec \<Rightarrow> bitvec option" where
  "or_text n s result = (if length s + 1 < n then None else Some (set_ones (take n (s @ [CHR 0x00])) result))"

fun or_path :: "igraph_lib \<Rightarrow> nat \<Rightarrow> topology \<Rightarrow> nat list \<Rightarrow> bitvec \<Rightarrow> bitvec option" where
  "or_path lib n tp (u # v # vs) result = do {
     eid \<leftarrow> get_eid lib tp u v;
     result \<leftarrow> (if eid < length (tp_LID tp) then or_text n (tp_LID tp ! eid) result else None);
     or_path lib n tp (v # vs) result
   }"
| "or_path lib n tp _ result = Some result"

definition domain_calculateFID :: "igraph_lib \<Rightarrow> domain \<Rightarrow> topology \<Rightarrow> bstr \<Rightarrow> bstr \<Rightarrow> bitvec option" where
  "domain_calculateFID lib dm tp source destination = do {
     let n = dm_fid_len dm * 8;
     result \<leftarrow> bv_new (int n);
     case hm_get (tp_index tp) source of
       None \<Rightarrow> Some result
     | Some from \<Rightarrow>
         if multilayer dm \<and> take 1 (tp_NTYPE tp ! from) \<noteq> ''P'' then Some result
         else (case hm_get (tp_index tp) destination of
             None \<Rightarrow> Some result
           | Some to \<Rightarrow> do {
               result \<leftarrow> or_path lib n tp (get_shortest_paths lib tp from to) result;
               or_text n (tp_iLID tp ! to) result
             })
   }"

definition role_label :: "domain \<Rightarrow> nat option \<Rightarrow> bstr option" where
  "role_label dm role = (case role of None \<Rightarrow> None
     | Some i \<Rightarrow> if i < length (network_nodes dm) then Some (nn_label (network_nodes dm ! i)) else None)"

definition calculateRVFIDs :: "igraph_lib \<Rightarrow> topology \<Rightarrow> domain \<Rightarrow> domain option" where
  "calculateRVFIDs lib tp dm = do {
     RVLabel \<leftarrow> role_label dm (RV_node dm);
     nns \<leftarrow> all_some (map (\<lambda>nn. map_option (\<lambda>fid. nn\<lparr>nn_FID_to_RV := fid\<rparr>)
       (domain_calculateFID lib dm tp (nn_label nn) RVLabel)) (network_nodes dm));
     Some (dm\<lparr>network_nodes := nns\<rparr>)
   }"

definition calculateTMFIDs :: "igraph_lib \<Rightarrow> topology \<Rightarrow> domain \<Rightarrow> domain option" where
  "calculateTMFIDs lib tp dm = do {
     TMLabel \<leftarrow> role_label dm (TM_node dm);
     nns \<leftarrow> all_some (map (\<lambda>nn. map_option (\<lambda>fid. nn\<lparr>nn_FID_to_TM := fid\<rparr>)
       (domain_calculateFID lib dm tp (nn_label nn) TMLabel)) (network_nodes dm));
     Some (dm\<lparr>network_nodes := nns\<rparr>)
   }"

subsection \<open>Addresses\<close>

text \<open>
  An interface's address is asked of the node once, over ssh (\<open>ask\<close>, a parameter: what the
  command's output has in the place of the address, if it has any), unless the file gives it.
\<close>

abbreviation (input) zero_mac :: bstr where
  "zero_mac \<equiv> [48, 48, 58, 48, 48, 58, 48, 48, 58, 48, 48, 58, 48, 48, 58, 48, 48]"

definition learn_mac :: "bool \<Rightarrow> (bstr \<Rightarrow> bstr \<Rightarrow> bstr option) \<Rightarrow> bstr \<Rightarrow> bstr \<Rightarrow> bstr \<Rightarrow> (bstr, bstr) htab \<Rightarrow> bstr \<times> (bstr, bstr) htab" where
  "learn_mac no_remote ask label ifname mac mac_addresses = (case hm_get mac_addresses (label @ ifname) of
     Some mac \<Rightarrow> (mac, mac_addresses)
   | None \<Rightarrow>
       let mac = (if mac = [] \<and> \<not> no_remote then (case ask label ifname of Some a \<Rightarrow> a | None \<Rightarrow> mac)
                  else if mac \<noteq> [] then mac else zero_mac) in
       (mac, hm_set (label @ ifname) mac mac_addresses))"

definition discover_connection :: "bool \<Rightarrow> (bstr \<Rightarrow> bstr \<Rightarrow> bstr option) \<Rightarrow> string \<Rightarrow> string \<Rightarrow> connection \<Rightarrow> (bstr, bstr) htab \<Rightarrow> connection \<times> (bstr, bstr) htab" where
  "discover_connection no_remote ask mode type nc tbl =
     (if mode \<notin> {''mac'', ''mac_ml'', ''mac_qos''} then (nc, tbl)
      else if mode = ''mac_ml'' \<and> (type \<noteq> ''PN'' \<or> nc_src_if nc = []) then (nc, tbl)
      else let (mac, tbl) = learn_mac no_remote ask (nc_src_label nc) (nc_src_if nc) (nc_src_mac nc) tbl;
               nc = nc\<lparr>nc_src_mac := mac\<rparr> in
        if mode = ''mac_ml'' \<and> (type \<noteq> ''PN'' \<or> nc_dst_if nc = []) then (nc, tbl)
        else let (mac, tbl) = learn_mac no_remote ask (nc_dst_label nc) (nc_dst_if nc) (nc_dst_mac nc) tbl in
          (nc\<lparr>nc_dst_mac := mac\<rparr>, tbl))"

fun discover_connections :: "bool \<Rightarrow> (bstr \<Rightarrow> bstr \<Rightarrow> bstr option) \<Rightarrow> string \<Rightarrow> string \<Rightarrow> connection list \<Rightarrow> (bstr, bstr) htab \<Rightarrow> connection list \<times> (bstr, bstr) htab" where
  "discover_connections no_remote ask mode type [] tbl = ([], tbl)"
| "discover_connections no_remote ask mode type (nc # ncs) tbl =
     (let (nc, tbl) = discover_connection no_remote ask mode type nc tbl;
          (ncs, tbl) = discover_connections no_remote ask mode type ncs tbl in (nc # ncs, tbl))"

fun discover_nodes :: "bool \<Rightarrow> (bstr \<Rightarrow> bstr \<Rightarrow> bstr option) \<Rightarrow> string \<Rightarrow> network_node list \<Rightarrow> (bstr, bstr) htab \<Rightarrow> network_node list" where
  "discover_nodes no_remote ask mode [] tbl = []"
| "discover_nodes no_remote ask mode (nn # nns) tbl =
     (let (ncs, tbl) = discover_connections no_remote ask mode (nn_type nn) (nn_connections nn) tbl in
      nn\<lparr>nn_connections := ncs\<rparr> # discover_nodes no_remote ask mode nns tbl)"

definition discoverMacAddresses :: "bool \<Rightarrow> (bstr \<Rightarrow> bstr \<Rightarrow> bstr option) \<Rightarrow> domain \<Rightarrow> domain" where
  "discoverMacAddresses no_remote ask dm =
     dm\<lparr>network_nodes := discover_nodes no_remote ask (overlay_mode dm) (network_nodes dm) []\<rparr>"

subsection \<open>The files for Click\<close>

text \<open>
  What the configuration file of a node says: the arguments of its elements, and which device is
  behind which port of the forwarder. The names of the queues, counters and classifiers between and the options
  that add counters and a control socket are left out.
\<close>

datatype device = Interface bstr | Raw_Socket

record node_conf =
  cf_globalconf :: conf_args
  cf_number_of_links :: nat
  cf_links :: "(nat \<times> bstr \<times> bstr \<times> string) list"
  cf_to_device :: "(nat \<times> device) list"
  cf_from_device :: "(device \<times> nat) list"
  cf_priorities :: "int list option"

fun findOffset :: "bstr list \<Rightarrow> bstr \<Rightarrow> nat option" where
  "findOffset [] x = None"
| "findOffset (u # us) x = (if u = x then Some 0 else map_option Suc (findOffset us x))"

definition unique_port :: "bstr list \<Rightarrow> bstr \<Rightarrow> nat \<times> bstr list" where
  "unique_port unique x = (case findOffset unique x of
     None \<Rightarrow> (length (unique @ [x]), unique @ [x]) | Some offset \<Rightarrow> (offset + 1, unique))"

text \<open>One line for every connection: for interfaces, and for raw sockets.\<close>

fun write_mac_links :: "bool \<Rightarrow> connection list \<Rightarrow> bstr list \<Rightarrow> ((nat \<times> bstr \<times> bstr \<times> string) list \<times> bstr list) option" where
  "write_mac_links mac_ml [] unique_ifaces = Some ([], unique_ifaces)"
| "write_mac_links mac_ml (nc # ncs) unique_ifaces = do {
     let dst_mac = (if mac_ml \<and> nc_lnk_type nc \<noteq> ''pp'' then zero_mac else nc_dst_mac nc);
     let (port, unique_ifaces) = unique_port unique_ifaces (nc_src_if nc);
     lid \<leftarrow> bv_to_string (nc_LID nc);
     (ls, unique_ifaces) \<leftarrow> write_mac_links mac_ml ncs unique_ifaces;
     Some ((port, nc_src_mac nc, dst_mac, lid) # ls, unique_ifaces)
   }"

fun write_ip_links :: "connection list \<Rightarrow> bstr list \<Rightarrow> ((nat \<times> bstr \<times> bstr \<times> string) list \<times> bstr list) option" where
  "write_ip_links [] unique_srcips = Some ([], unique_srcips)"
| "write_ip_links (nc # ncs) unique_srcips = do {
     let (port, unique_srcips) = unique_port unique_srcips (nc_src_ip nc);
     lid \<leftarrow> bv_to_string (nc_LID nc);
     (ls, unique_srcips) \<leftarrow> write_ip_links ncs unique_srcips;
     Some ((port, nc_src_ip nc, nc_dst_ip nc, lid) # ls, unique_srcips)
   }"

text \<open>With quality of service every connection has a port of its own; they are gathered by interface, a
  \<^verbatim>\<open>std::map\<close> in the order of the names.\<close>

type_synonym ifmap = "(bstr \<times> (nat \<times> int \<times> int) list) list"

fun ifmap_push :: "bstr \<Rightarrow> nat \<times> int \<times> int \<Rightarrow> ifmap \<Rightarrow> ifmap" where
  "ifmap_push k v [] = [(k, [v])]"
| "ifmap_push k v ((k', vs) # m) =
     (if k < k' then (k, [v]) # (k', vs) # m else if k = k' then (k, vs @ [v]) # m else (k', vs) # ifmap_push k v m)"

fun write_qos_links :: "nat \<Rightarrow> connection list \<Rightarrow> ifmap \<Rightarrow> ((nat \<times> bstr \<times> bstr \<times> string) list \<times> ifmap) option" where
  "write_qos_links j [] m = Some ([], m)"
| "write_qos_links j (nc # ncs) m = do {
     let m = ifmap_push (nc_src_if nc) (j + 1, nc_priority nc, nc_rate_lim nc) m;
     lid \<leftarrow> bv_to_string (nc_LID nc);
     (ls, m) \<leftarrow> write_qos_links (j + 1) ncs m;
     Some ((j + 1, nc_src_mac nc, nc_dst_mac nc, lid) # ls, m)
   }"

definition write_globalconf :: "domain \<Rightarrow> network_node \<Rightarrow> conf_args option" where
  "write_globalconf dm nn = do {
     rv \<leftarrow> bv_to_string (nn_FID_to_RV nn);
     tm \<leftarrow> bv_to_string (nn_FID_to_TM nn);
     ilid \<leftarrow> bv_to_string (nn_iLid nn);
     Some \<lparr>ca_mode = overlay_mode dm, ca_nodeid = nn_label nn, ca_defaultrv = rv, ca_ilid = ilid, ca_tmfid = tm\<rparr>
   }"

definition writeClickFile :: "domain \<Rightarrow> network_node \<Rightarrow> node_conf option" where
  "writeClickFile dm nn = do {
     gc \<leftarrow> write_globalconf dm nn;
     let conf = (\<lambda>ls out inp prios. \<lparr>cf_globalconf = gc, cf_number_of_links = length (nn_connections nn), cf_links = ls,
       cf_to_device = out, cf_from_device = inp, cf_priorities = prios\<rparr>);
     if overlay_mode dm = ''mac_qos'' then do {
       (ls, m) \<leftarrow> write_qos_links 0 (nn_connections nn) [];
       Some (conf ls (concat (map (\<lambda>(k, vs). map (\<lambda>v. (fst v, Interface k)) vs) m))
         (map (\<lambda>i. (Interface (fst (m ! i)), i + 1)) [0..<length m])
         (Some (concat (map (\<lambda>(k, vs). map (\<lambda>v. fst (snd v)) vs) m) @ [-1])))
     } else do {
       (ls, unique_ifaces) \<leftarrow> (if overlay_mode dm = ''mac'' \<or> multilayer dm \<and> nn_type nn = ''PN''
         then write_mac_links (multilayer dm) (nn_connections nn) []
         else do { (ls, _) \<leftarrow> write_ip_links (nn_connections nn) []; Some (ls, []) });
       if overlay_mode dm = ''mac'' \<or> multilayer dm
       then Some (conf ls (map (\<lambda>j. (j + 1, Interface (unique_ifaces ! j))) [0..<length unique_ifaces])
         (map (\<lambda>j. (Interface (unique_ifaces ! j), j + 1)) [0..<length unique_ifaces]) None)
       else Some (conf ls [(1, Raw_Socket)] [(Raw_Socket, 1)] None)
     }
   }"

definition writeClickFiles :: "domain \<Rightarrow> node_conf list option" where
  "writeClickFiles dm = all_some (map (writeClickFile dm) (network_nodes dm))"

subsection \<open>A whole deployment\<close>

text \<open>What \<^verbatim>\<open>deploy.cpp\<close> does between reading the domain and copying the files.\<close>

definition deploy :: "bool \<Rightarrow> (nat \<Rightarrow> nat) \<Rightarrow> igraph_lib \<Rightarrow> (bstr \<Rightarrow> bstr \<Rightarrow> bstr option) \<Rightarrow> domain \<Rightarrow> (domain \<times> topology \<times> node_conf list) option" where
  "deploy no_discover rnd lib ask dm = do {
     dm \<leftarrow> assignLIDs rnd dm;
     tp \<leftarrow> buildIGraphTopology dm;
     dm \<leftarrow> calculateRVFIDs lib tp dm;
     dm \<leftarrow> calculateTMFIDs lib tp dm;
     let dm = discoverMacAddresses no_discover ask dm;
     confs \<leftarrow> writeClickFiles dm;
     Some (dm, tp, confs)
   }"

end
