(* ===== verification/BA_Parser.thy ===== *)
theory BA_Parser
  imports BA_Deployment
begin

text \<open>
  The parser of the deployment tool, \<^verbatim>\<open>deployment/parser.cpp\<close>: from the settings of a configuration file to the
  domain of \<open>BA_Deployment\<close>, for the testbed, for the simulator and for PlanetLab. The library that reads the file is a
  parameter.
\<close>

subsection \<open>The configuration file\<close>

text \<open>
  libconfig: a setting is a value, a list of settings or a group of named ones. Looking a value up
  by name and type finds it or does not; the operator that takes a name throws, one exception if there
  is no such setting and another if the setting is no group; reading a setting as a number or a string
  throws if it is none. What a function of the parser comes to: what it has built, -1
  (\<open>Failed\<close>), or an exception that nobody catches (\<open>Aborted\<close>).
\<close>

datatype 'a found = Found 'a | Not_Found | Wrong_Type

record 'a libconfig =
  lookup_string :: "'a \<Rightarrow> string \<Rightarrow> string option"
  lookup_int :: "'a \<Rightarrow> string \<Rightarrow> int option"
  lookup_bool :: "'a \<Rightarrow> string \<Rightarrow> bool option"
  member :: "'a \<Rightarrow> string \<Rightarrow> 'a found"
  getLength :: "'a \<Rightarrow> nat"
  element :: "'a \<Rightarrow> nat \<Rightarrow> 'a"
  as_int :: "'a \<Rightarrow> int option"
  as_string :: "'a \<Rightarrow> string option"

datatype parse_failure = Failed | Aborted

fun and_then :: "'e + 'a \<Rightarrow> ('a \<Rightarrow> 'e + 'b) \<Rightarrow> 'e + 'b" where
  "and_then (Inl e) f = Inl e"
| "and_then (Inr x) f = f x"

fun parse_each :: "('b \<Rightarrow> 's \<Rightarrow> 'e + 's) \<Rightarrow> 'b list \<Rightarrow> 's \<Rightarrow> 'e + 's" where
  "parse_each f [] s = Inr s"
| "parse_each f (x # xs) s = and_then (f x s) (parse_each f xs)"

definition text_bytes :: "string \<Rightarrow> bstr" where
  "text_bytes s = map of_char s"

definition given :: "'a option \<Rightarrow> 'a \<Rightarrow> 'a" where
  "given x d = (case x of None \<Rightarrow> d | Some v \<Rightarrow> v)"

definition mandatory :: "'a option \<Rightarrow> ('a \<Rightarrow> parse_failure + 'b) \<Rightarrow> parse_failure + 'b" where
  "mandatory x f = (case x of None \<Rightarrow> Inl Failed | Some v \<Rightarrow> f v)"

definition elements :: "'a libconfig \<Rightarrow> 'a \<Rightarrow> 'a list" where
  "elements lib s = map (element lib s) [0..<getLength lib s]"

subsection \<open>The whole domain's settings\<close>

text \<open>
  The two lengths are looked up so that a missing one is noticed; for the rest
  \<^verbatim>\<open>lookupValue\<close> is used, which throws nothing: a missing one is not. The last character of an
  empty string is undefined. A negative length is not followed further.
\<close>

definition mandatory_length :: "'a libconfig \<Rightarrow> 'a \<Rightarrow> string \<Rightarrow> (int \<Rightarrow> parse_failure + 'b) \<Rightarrow> parse_failure + 'b" where
  "mandatory_length lib root name f = (case member lib root name of Not_Found \<Rightarrow> Inl Failed | Wrong_Type \<Rightarrow> Inl Aborted
     | Found s \<Rightarrow> (case as_int lib s of None \<Rightarrow> Inl Aborted | Some n \<Rightarrow> f n))"

definition slashed :: "string \<Rightarrow> parse_failure + string" where
  "slashed s = (if s = [] then Inl Aborted else Inr (if last s \<noteq> CHR ''/'' then s @ ''/'' else s))"

definition getGlobalDomainParameters :: "'a libconfig \<Rightarrow> (string \<Rightarrow> bool) \<Rightarrow> 'a \<Rightarrow> domain \<Rightarrow> parse_failure + domain" where
  "getGlobalDomainParameters lib dir_exists root dm =
     mandatory_length lib root ''BLACKADDER_ID_LENGTH'' (\<lambda>ba_len.
     mandatory_length lib root ''LIPSIN_ID_LENGTH'' (\<lambda>fid_len. if fid_len < 0 then Inl Aborted else
     and_then (slashed (given (lookup_string lib root ''CLICK_HOME'') (click_home dm))) (\<lambda>home.
     and_then (slashed (given (lookup_string lib root ''WRITE_CONF'') (write_conf dm))) (\<lambda>dir.
       if CHR 0x22 \<in> set dir \<or> \<not> dir_exists dir then Inl Failed
       else Inr (dm\<lparr>ba_id_len := ba_len, dm_fid_len := nat fid_len, click_home := home, write_conf := dir,
         dm_user := given (lookup_string lib root ''USER'') (dm_user dm),
         sudo := (case lookup_bool lib root ''SUDO'' of None \<Rightarrow> sudo dm | b \<Rightarrow> b),
         overlay_mode := given (lookup_string lib root ''OVERLAY_MODE'') (overlay_mode dm)\<rparr>)))))"

definition getNS3GlobalDomainParameters :: "'a libconfig \<Rightarrow> 'a \<Rightarrow> domain \<Rightarrow> parse_failure + domain" where
  "getNS3GlobalDomainParameters lib root dm =
     mandatory_length lib root ''BLACKADDER_ID_LENGTH'' (\<lambda>ba_len.
     mandatory_length lib root ''LIPSIN_ID_LENGTH'' (\<lambda>fid_len. if fid_len < 0 then Inl Aborted else
       Inr (dm\<lparr>ba_id_len := ba_len, dm_fid_len := nat fid_len, write_conf := given (lookup_string lib root ''WRITE_CONF'') (write_conf dm)\<rparr>)))"

subsection \<open>Connections\<close>

definition destination_label :: "'a libconfig \<Rightarrow> domain \<Rightarrow> 'a \<Rightarrow> (bstr \<Rightarrow> parse_failure + 'b) \<Rightarrow> parse_failure + 'b" where
  "destination_label lib dm c f = mandatory (lookup_string lib c ''to'') (\<lambda>l.
     if int (length l) \<noteq> ba_id_len dm then Inl Failed else f (text_bytes l))"

definition source_end :: "'a libconfig \<Rightarrow> string \<Rightarrow> 'a \<Rightarrow> connection \<Rightarrow> parse_failure + connection" where
  "source_end lib mode c nc =
     (if mode = ''mac'' \<or> mode = ''mac_qos'' then
        mandatory (lookup_string lib c ''src_if'') (\<lambda>i. Inr (nc\<lparr>nc_src_if := text_bytes i\<rparr>))
      else if mode = ''mac_ml'' then (case lookup_string lib c ''out_pt'' of Some p \<Rightarrow> Inr (nc\<lparr>nc_out_pt := p\<rparr>)
        | None \<Rightarrow> mandatory (lookup_string lib c ''src_if'') (\<lambda>i. Inr (nc\<lparr>nc_src_if := text_bytes i\<rparr>)))
      else mandatory (lookup_string lib c ''src_ip'') (\<lambda>i. Inr (nc\<lparr>nc_src_ip := text_bytes i\<rparr>)))"

definition destination_end :: "'a libconfig \<Rightarrow> string \<Rightarrow> 'a \<Rightarrow> connection \<Rightarrow> parse_failure + connection" where
  "destination_end lib mode c nc =
     (if mode = ''mac'' \<or> mode = ''mac_qos'' then
        mandatory (lookup_string lib c ''dst_if'') (\<lambda>i. Inr (nc\<lparr>nc_dst_if := text_bytes i\<rparr>))
      else if mode = ''mac_ml'' then (case lookup_string lib c ''in_pt'' of Some p \<Rightarrow> Inr (nc\<lparr>nc_in_pt := p\<rparr>)
        | None \<Rightarrow> Inr (case lookup_string lib c ''dst_if'' of Some i \<Rightarrow> nc\<lparr>nc_dst_if := text_bytes i\<rparr> | None \<Rightarrow> nc))
      else mandatory (lookup_string lib c ''dst_ip'') (\<lambda>i. Inr (nc\<lparr>nc_dst_ip := text_bytes i\<rparr>)))"

definition hardcoded_macs :: "'a libconfig \<Rightarrow> 'a \<Rightarrow> connection \<Rightarrow> connection" where
  "hardcoded_macs lib c nc =
     (let nc = (case lookup_string lib c ''src_mac'' of Some a \<Rightarrow> nc\<lparr>nc_src_mac := text_bytes a\<rparr> | None \<Rightarrow> nc) in
      case lookup_string lib c ''dst_mac'' of Some a \<Rightarrow> nc\<lparr>nc_dst_mac := text_bytes a\<rparr> | None \<Rightarrow> nc)"

definition link_type :: "connection \<Rightarrow> string" where
  "link_type nc = (if nc_src_if nc \<noteq> [] \<and> nc_dst_if nc \<noteq> [] \<or> nc_src_mac nc \<noteq> [] \<and> nc_dst_mac nc \<noteq> [] then ''pp''
     else if nc_out_pt nc \<noteq> [] \<and> nc_in_pt nc \<noteq> [] then ''oo'' else ''cl'')"

definition addConnection :: "'a libconfig \<Rightarrow> 'a \<Rightarrow> network_node \<times> domain \<Rightarrow> parse_failure + network_node \<times> domain" where
  "addConnection lib c st = (case st of (nn, dm) \<Rightarrow>
     destination_label lib dm c (\<lambda>dst.
     and_then (source_end lib (overlay_mode dm) c (new_connection\<lparr>nc_src_label := nn_label nn, nc_dst_label := dst\<rparr>)) (\<lambda>nc.
     and_then (destination_end lib (overlay_mode dm) c nc) (\<lambda>nc.
       let nc = (if overlay_mode dm = ''mac'' \<or> overlay_mode dm = ''mac_qos'' then hardcoded_macs lib c nc else nc);
           (nc, dm) = (if multilayer dm
             then (hardcoded_macs lib c (nc\<lparr>nc_lnk_type := link_type nc\<rparr>),
                   if link_type nc = ''pp'' then dm\<lparr>number_of_p_connections := number_of_p_connections dm + 1\<rparr> else dm)
             else (nc, dm));
           nc = nc\<lparr>nc_priority := given (lookup_int lib c ''priority'') 0, nc_rate_lim := given (lookup_int lib c ''rate_lim'') 1250000000\<rparr> in
       Inr (nn\<lparr>nn_connections := nn_connections nn @ [nc]\<rparr>, dm\<lparr>number_of_connections := number_of_connections dm + 1\<rparr>)))))"

definition addNS3Connection :: "'a libconfig \<Rightarrow> 'a \<Rightarrow> network_node \<times> domain \<Rightarrow> parse_failure + network_node \<times> domain" where
  "addNS3Connection lib c st = (case st of (nn, dm) \<Rightarrow>
     destination_label lib dm c (\<lambda>dst.
     mandatory (lookup_int lib c ''Mtu'') (\<lambda>mtu.
     mandatory (lookup_string lib c ''DataRate'') (\<lambda>rate.
     mandatory (lookup_string lib c ''Delay'') (\<lambda>delay.
       let nc = new_connection\<lparr>nc_src_label := nn_label nn, nc_dst_label := dst, nc_mtu := mtu, nc_rate := rate, nc_delay := delay\<rparr> in
       Inr (nn\<lparr>nn_connections := nn_connections nn @ [nc]\<rparr>, dm\<lparr>number_of_connections := number_of_connections dm + 1\<rparr>))))))"

subsection \<open>Applications of the simulator\<close>

text \<open>
  \<^verbatim>\<open>find\<close> returns -1 when there is nothing to be found, and \<^verbatim>\<open>substr\<close> goes to the end for a negative
  number of characters.
\<close>

definition find_from :: "char \<Rightarrow> string \<Rightarrow> nat \<Rightarrow> int" where
  "find_from c s start = (let k = start + length (takeWhile (\<lambda>d. d \<noteq> c) (drop start s)) in if k < length s then int k else -1)"

definition substr :: "string \<Rightarrow> nat \<Rightarrow> int \<Rightarrow> string" where
  "substr s pos count = (if count < 0 then drop pos s else take (nat count) (drop pos s))"

lemma find_from_bounds: "find_from c s start \<noteq> -1 \<Longrightarrow> int start \<le> find_from c s start \<and> find_from c s start < int (length s)"
  by (auto simp: find_from_def Let_def split: if_splits)

function parse_attributes :: "string \<Rightarrow> nat \<Rightarrow> (string \<times> string) list" where
  "parse_attributes s start =
     (let index1 = find_from (CHR ''='') s start;
          index2 = find_from (CHR '','') s start in
      (substr s start (index1 - int start), substr s (nat (index1 + 1)) (index2 - index1 - 1)) #
      (if index1 \<noteq> -1 \<and> index2 \<noteq> -1 then parse_attributes s (nat (index2 + 1)) else []))"
  by pat_completeness auto
termination
  by (relation "measure (\<lambda>(s, start). length s - start)") (auto dest!: find_from_bounds)

declare parse_attributes.simps [simp del]

definition addNS3Application :: "'a libconfig \<Rightarrow> 'a \<Rightarrow> network_node \<Rightarrow> parse_failure + network_node" where
  "addNS3Application lib a nn =
     mandatory (lookup_string lib a ''name'') (\<lambda>name.
     mandatory (lookup_string lib a ''start'') (\<lambda>start.
     mandatory (lookup_string lib a ''stop'') (\<lambda>stop.
       let attributes = (case lookup_string lib a ''attributes'' of None \<Rightarrow> [] | Some s \<Rightarrow> parse_attributes s 0) in
       Inr (nn\<lparr>nn_applications := nn_applications nn @
         [\<lparr>app_name = name, app_start = start, app_stop = stop, app_attributes = attributes\<rparr>]\<rparr>))))"

subsection \<open>Nodes\<close>

text \<open>A node without a label is let through, with the empty one.\<close>

definition node_label :: "'a libconfig \<Rightarrow> domain \<Rightarrow> 'a \<Rightarrow> (network_node \<Rightarrow> parse_failure + 'b) \<Rightarrow> parse_failure + 'b" where
  "node_label lib dm node f = (case lookup_string lib node ''label'' of None \<Rightarrow> f new_node
     | Some l \<Rightarrow> if int (length l) \<noteq> ba_id_len dm then Inl Failed else f (new_node\<lparr>nn_label := text_bytes l\<rparr>))"

definition operating_system :: "'a libconfig \<Rightarrow> string \<Rightarrow> string \<Rightarrow> 'a \<Rightarrow> (string \<Rightarrow> parse_failure + 'b) \<Rightarrow> parse_failure + 'b" where
  "operating_system lib mode rmode node f = (case lookup_string lib node ''operating_system'' of
     None \<Rightarrow> f ''Linux''
   | Some os \<Rightarrow>
       if os \<noteq> ''Linux'' \<and> os \<noteq> ''FreeBSD'' \<and> os \<noteq> ''Darwin'' then Inl Failed
       else if (os = ''FreeBSD'' \<or> os = ''Darwin'') \<and> mode \<noteq> ''mac'' then Inl Failed
       else if os = ''Darwin'' \<and> rmode \<noteq> ''user'' then Inl Failed
       else f os)"

text \<open>The node that is being read will have the index the vector has room for next.\<close>

definition set_role :: "'a libconfig \<Rightarrow> 'a \<Rightarrow> network_node \<times> domain \<Rightarrow> parse_failure + network_node \<times> domain" where
  "set_role lib r st = (case as_string lib r of None \<Rightarrow> Inl Aborted | Some role \<Rightarrow>
     and_then (case st of (nn, dm) \<Rightarrow>
        if role = ''RV'' then (if RV_node dm = None
          then Inr (nn\<lparr>nn_isRV := True\<rparr>, dm\<lparr>RV_node := Some (length (network_nodes dm))\<rparr>) else Inl Failed)
        else Inr (nn, dm)) (\<lambda>(nn, dm).
        if role = ''TM'' then (if TM_node dm = None
          then Inr (nn\<lparr>nn_isTM := True\<rparr>, dm\<lparr>TM_node := Some (length (network_nodes dm))\<rparr>) else Inl Failed)
        else Inr (nn, dm)))"

definition set_roles :: "'a libconfig \<Rightarrow> 'a \<Rightarrow> network_node \<times> domain \<Rightarrow> parse_failure + network_node \<times> domain" where
  "set_roles lib node st = (case member lib node ''role'' of Wrong_Type \<Rightarrow> Inl Aborted | Not_Found \<Rightarrow> Inr st
     | Found roles \<Rightarrow> if getLength lib roles > 2 then Inl Failed else parse_each (set_role lib) (elements lib roles) st)"

definition push_node :: "network_node \<times> domain \<Rightarrow> domain" where
  "push_node st = (case st of (nn, dm) \<Rightarrow> dm\<lparr>network_nodes := network_nodes dm @ [nn]\<rparr>)"

definition roles_and_connections :: "'a libconfig \<Rightarrow> 'a \<Rightarrow> network_node \<times> domain \<Rightarrow> parse_failure + domain" where
  "roles_and_connections lib node st = and_then (set_roles lib node st) (\<lambda>st.
     case member lib node ''connections'' of Wrong_Type \<Rightarrow> Inl Aborted | Not_Found \<Rightarrow> Inr (push_node st)
       | Found cs \<Rightarrow> and_then (parse_each (addConnection lib) (elements lib cs) st) (\<lambda>st. Inr (push_node st)))"

definition addNode :: "'a libconfig \<Rightarrow> 'a \<Rightarrow> domain \<Rightarrow> parse_failure + domain" where
  "addNode lib node dm =
     node_label lib dm node (\<lambda>nn.
     mandatory (lookup_string lib node ''testbed_ip'') (\<lambda>ip.
     mandatory (lookup_string lib node ''running_mode'') (\<lambda>running_mode.
       if running_mode = ''kernel'' \<and> overlay_mode dm \<noteq> ''mac'' then Inl Failed
       else operating_system lib (overlay_mode dm) running_mode node (\<lambda>os.
       let type = (if lookup_string lib node ''label'' = None then [] else given (lookup_string lib node ''type'') []) in
       roles_and_connections lib node (nn\<lparr>nn_type := type, nn_testbed_ip := ip, nn_running_mode := running_mode, nn_operating_system := os\<rparr>, dm)))))"

definition addNS3Node :: "'a libconfig \<Rightarrow> 'a \<Rightarrow> domain \<Rightarrow> parse_failure + domain" where
  "addNS3Node lib node dm =
     node_label lib dm node (\<lambda>nn.
     and_then (set_roles lib node (nn, dm)) (\<lambda>st.
     case member lib node ''connections'' of Wrong_Type \<Rightarrow> Inl Aborted | Not_Found \<Rightarrow> Inr (push_node st)
       | Found cs \<Rightarrow> and_then (parse_each (addNS3Connection lib) (elements lib cs) st) (\<lambda>(nn, dm).
         case member lib node ''applications'' of Wrong_Type \<Rightarrow> Inl Aborted | Not_Found \<Rightarrow> Inr (push_node (nn, dm))
           | Found apps \<Rightarrow> and_then (parse_each (addNS3Application lib) (elements lib apps) nn) (\<lambda>nn. Inr (push_node (nn, dm))))))"

definition addPlanetLabNode :: "'a libconfig \<Rightarrow> 'a \<Rightarrow> domain \<Rightarrow> parse_failure + domain" where
  "addPlanetLabNode lib node dm =
     mandatory (lookup_string lib node ''testbed_ip'') (\<lambda>ip.
     and_then (set_roles lib node (new_node\<lparr>nn_testbed_ip := ip\<rparr>, dm)) (\<lambda>st. Inr (push_node st)))"

subsection \<open>Domains\<close>

text \<open>
  The file, once it can be read, is its root setting. In a multilayer domain a missing list of nodes is
  reported as success.
\<close>

definition found_then :: "parse_failure + 'b \<Rightarrow> 'a found \<Rightarrow> ('a \<Rightarrow> parse_failure + 'b) \<Rightarrow> parse_failure + 'b" where
  "found_then absent s f = (case s of Found x \<Rightarrow> f x | Not_Found \<Rightarrow> absent | Wrong_Type \<Rightarrow> Inl Aborted)"

definition network_list :: "'a libconfig \<Rightarrow> 'a \<Rightarrow> string \<Rightarrow> parse_failure + 'b \<Rightarrow> ('a \<Rightarrow> parse_failure + 'b) \<Rightarrow> parse_failure + 'b" where
  "network_list lib root name absent f =
     found_then absent (member lib root ''network'') (\<lambda>n. found_then absent (member lib n name) f)"

definition buildNetworkDomain :: "'a libconfig \<Rightarrow> (string \<Rightarrow> bool) \<Rightarrow> 'a option \<Rightarrow> parse_failure + domain" where
  "buildNetworkDomain lib dir_exists file =
     mandatory file (\<lambda>root.
     and_then (getGlobalDomainParameters lib dir_exists root new_domain) (\<lambda>dm.
       if overlay_mode dm \<noteq> ''mac_ml'' then
         network_list lib root ''nodes'' (Inl Failed) (\<lambda>nodes.
           parse_each (addNode lib) (elements lib nodes) (dm\<lparr>number_of_nodes := getLength lib nodes\<rparr>))
       else
         network_list lib root ''ol_nodes'' (Inr dm) (\<lambda>ol_nodes.
         network_list lib root ''pl_nodes'' (Inr dm) (\<lambda>pl_nodes.
           parse_each (addNode lib) (elements lib ol_nodes @ elements lib pl_nodes)
             (dm\<lparr>number_of_pl_nodes := getLength lib pl_nodes, number_of_nodes := getLength lib ol_nodes + getLength lib pl_nodes\<rparr>)))))"

definition buildNS3NetworkDomain :: "'a libconfig \<Rightarrow> 'a option \<Rightarrow> parse_failure + domain" where
  "buildNS3NetworkDomain lib file =
     mandatory file (\<lambda>root.
     and_then (getNS3GlobalDomainParameters lib root new_domain) (\<lambda>dm.
       network_list lib root ''nodes'' (Inl Failed) (\<lambda>nodes.
         parse_each (addNS3Node lib) (elements lib nodes) (dm\<lparr>number_of_nodes := getLength lib nodes\<rparr>))))"

definition buildPlanetLabDomain :: "'a libconfig \<Rightarrow> 'a option \<Rightarrow> parse_failure + domain" where
  "buildPlanetLabDomain lib file =
     mandatory file (\<lambda>root.
       network_list lib root ''nodes'' (Inl Failed) (\<lambda>nodes.
         parse_each (addPlanetLabNode lib) (elements lib nodes) (new_domain\<lparr>number_of_nodes := getLength lib nodes\<rparr>)))"

end
