(* ===== verification/BA_Deployment_Safe.thy ===== *)
theory BA_Deployment_Safe
  imports BA_Deployment
begin

text \<open>
  What a deployment comes to. The identifiers (\<open>own_bits\<close>), the graph (\<open>built\<close>), the identifiers of the
  routes (\<open>exact_way\<close>), the files (\<open>written\<close>), the forwarders that start from them (\<open>start_ok\<close>), and how
  they are wired to each other (\<open>cabled\<close>); with the lemmas of \<open>BA_Network\<close>, that a request from every node arrives.
\<close>

subsection \<open>Identifiers of one bit\<close>

definition one_bit :: "nat \<Rightarrow> bitvec" where
  "one_bit i = set_bit_at (int i) True (the (bv_new 256))"

lemma one_bit_fid: "is_fid (one_bit i)"
  using bv_new_fid fid_set_bit by (auto simp: one_bit_def)

lemma bit_one_bit: "i < 256 \<Longrightarrow> j < 256 \<Longrightarrow> bv_bit (one_bit i) j \<longleftrightarrow> j = i"
proof -
  assume a: "i < 256" "j < 256"
  obtain z where z: "bv_new 256 = Some z" "is_fid z" "\<forall>i < 256. \<not> bv_bit z i" using bv_new_fid by blast
  have d: "i div 32 < length (bv_data z)" "j div 32 < length (bv_data z)" using a z(2) by (simp_all add: is_fid_def less_mult_imp_div_less)
  then show ?thesis using bit_set_bit_at [of i z j True] z a by (auto simp: one_bit_def)
qed

lemma one_bit_inj: "i < 256 \<Longrightarrow> j < 256 \<Longrightarrow> one_bit i = one_bit j \<longleftrightarrow> i = j"
  using bit_one_bit [of i i] bit_one_bit [of j i] by auto

lemma one_bit_eq: "i < 256 \<Longrightarrow> j < 256 \<Longrightarrow> bv_eq (one_bit i) (one_bit j) \<longleftrightarrow> i = j"
  using fid_eq_iff [OF one_bit_fid one_bit_fid] one_bit_inj by simp

lemma one_bit_not_empty: "\<not> bv_eq bv_empty (one_bit i)"
  using fid_max [OF one_bit_fid [of i]] by (simp add: bv_eq_def bv_empty_def)

text \<open>The vector of identifiers while it is being filled: \<open>ks\<close> are the bits given out, in order.\<close>

definition lids_of :: "nat \<Rightarrow> nat list \<Rightarrow> bitvec list" where
  "lids_of tot ks = map one_bit ks @ replicate (tot - length ks) bv_empty"

lemma exists_lids_of:
  "set ks \<subseteq> {..<256} \<Longrightarrow> i < 256 \<Longrightarrow> exists_lid (lids_of tot ks) (one_bit i) \<longleftrightarrow> i \<in> set ks"
  using one_bit_eq one_bit_not_empty by (fastforce simp: exists_lid_def lids_of_def)

text \<open>A sequence of numbers in which every bit position comes up again and again.\<close>

definition fair :: "(nat \<Rightarrow> nat) \<Rightarrow> bool" where
  "fair rnd \<longleftrightarrow> (\<forall>i < 256. \<forall>n. \<exists>m \<ge> n. rnd m mod 256 = i)"

lemma draw_step:
  "draw_LID rnd 256 1 LIDs n = (let LID = one_bit (rnd n mod 256) in
     if exists_lid LIDs LID then draw_LID rnd 256 1 LIDs (n + 1) else Some (LID, n + 1))"
proof -
  obtain z where "bv_new 256 = Some z" using bv_new_fid by blast
  then show ?thesis by (subst draw_LID.simps) (simp add: one_bit_def Let_def)
qed

lemma draw_returns:
  assumes "set ks \<subseteq> {..<256}" "rnd (n + d) mod 256 \<notin> set ks"
  shows "\<exists>i n'. draw_LID rnd 256 1 (lids_of tot ks) n = Some (one_bit i, n') \<and> i < 256 \<and> i \<notin> set ks"
  using assms(2)
proof (induction d arbitrary: n)
  case 0
  then show ?case using exists_lids_of [OF assms(1)] by (subst draw_step) (auto simp: Let_def)
next
  case (Suc d)
  show ?case
  proof (cases "rnd n mod 256 \<in> set ks")
    case True
    then show ?thesis using Suc exists_lids_of [OF assms(1)] by (subst draw_step) (auto simp: Let_def)
  next
    case False
    then show ?thesis using exists_lids_of [OF assms(1)] by (subst draw_step) (auto simp: Let_def)
  qed
qed

lemma calculate_returns:
  assumes "fair rnd" "set ks \<subseteq> {..<256}" "distinct ks" "length ks < tot" "length ks < 256"
  shows "\<exists>i n'. calculateLID rnd 32 (length ks) (lids_of tot ks, n) = Some (lids_of tot (ks @ [i]), n') \<and> i < 256 \<and> i \<notin> set ks"
proof -
  have "card (set ks) < card {..<256::nat}" using assms(3,5) by (simp add: distinct_card)
  then obtain i where "i < 256" "i \<notin> set ks" using assms(2) by (metis card_mono lessThan_iff linorder_not_less List.finite_set subsetI)
  then obtain m where "n \<le> m" "rnd m mod 256 \<notin> set ks" using assms(1) unfolding fair_def by metis
  then have "rnd (n + (m - n)) mod 256 \<notin> set ks" by simp
  from draw_returns [where rnd = rnd and n = n and d = "m - n", OF assms(2) this, of tot] obtain j n' where
    j: "draw_LID rnd 256 1 (lids_of tot ks) n = Some (one_bit j, n')" "j < 256" "j \<notin> set ks" by blast
  have "(lids_of tot ks)[length ks := one_bit j] = lids_of tot (ks @ [j])"
    using assms(4) by (cases "tot - length ks") (auto simp: lids_of_def list_update_append Suc_diff_Suc)
  then show ?thesis using j assms(5) by (intro exI [of _ j] exI [of _ n']) (simp add: calculateLID_def Let_def)
qed

lemma calculate_all:
  assumes "fair rnd" "n \<le> 256" "n \<le> tot"
  shows "\<exists>ks m. fold_opt (calculateLID rnd 32) [0..<n] (lids_of tot [], 0) = Some (lids_of tot ks, m) \<and>
    length ks = n \<and> distinct ks \<and> set ks \<subseteq> {..<256}"
  using assms(2,3)
proof (induction n)
  case 0
  then show ?case by (intro exI [of _ "[]"]) simp
next
  case (Suc n)
  then obtain ks m where ks: "fold_opt (calculateLID rnd 32) [0..<n] (lids_of tot [], 0) = Some (lids_of tot ks, m)"
    "length ks = n" "distinct ks" "set ks \<subseteq> {..<256}" by auto
  from calculate_returns [OF assms(1) ks(4,3), of tot m] Suc.prems ks(2) obtain i m' where
    i: "calculateLID rnd 32 n (lids_of tot ks, m) = Some (lids_of tot (ks @ [i]), m')" "i < 256" "i \<notin> set ks" by auto
  show ?case
    by (rule exI [of _ "ks @ [i]"]) (use ks i in \<open>auto simp: fold_opt_append\<close>)
qed

subsection \<open>Identifiers given out\<close>

text \<open>What identifiers are given to, and what is left of a domain without them.\<close>

definition node_has_lid :: "bool \<Rightarrow> network_node \<Rightarrow> bool" where
  "node_has_lid mac_ml nn \<longleftrightarrow> \<not> (mac_ml \<and> nn_type nn \<noteq> ''PN'')"

definition has_lid :: "bool \<Rightarrow> connection \<Rightarrow> bool" where
  "has_lid mac_ml nc \<longleftrightarrow> \<not> (mac_ml \<and> nc_lnk_type nc \<noteq> ''pp'')"

definition node_lids :: "bool \<Rightarrow> network_node \<Rightarrow> bitvec list" where
  "node_lids mac_ml nn = (if node_has_lid mac_ml nn then [nn_iLid nn] else []) @ map nc_LID (filter (has_lid mac_ml) (nn_connections nn))"

definition bare_connection :: "connection \<Rightarrow> connection" where
  "bare_connection nc = nc\<lparr>nc_LID := bv_empty\<rparr>"

definition bare_node :: "network_node \<Rightarrow> network_node" where
  "bare_node nn = nn\<lparr>nn_iLid := bv_empty, nn_connections := map bare_connection (nn_connections nn)\<rparr>"

definition no_lid :: bitvec where
  "no_lid = the (bv_new_bit 256 False)"

lemma no_lid_new: "bv_new_bit 256 False = Some no_lid"
  unfolding no_lid_def by code_simp

lemma has_bare [simp]: "has_lid m (bare_connection nc) = has_lid m nc" "node_has_lid m (bare_node nn) = node_has_lid m nn"
  by (simp_all add: has_lid_def bare_connection_def node_has_lid_def bare_node_def)

lemma has_set_lid [simp]: "has_lid m (nc\<lparr>nc_LID := l\<rparr>) = has_lid m nc"
  by (simp add: has_lid_def)

lemma bare_set_lid [simp]: "bare_connection (nc\<lparr>nc_LID := l\<rparr>) = bare_connection nc"
  by (simp add: bare_connection_def)

lemma take_nth: "c < length xs \<Longrightarrow> take (Suc n) (drop c xs) = xs ! c # take n (drop (Suc c) xs)"
  by (simp add: Cons_nth_drop_Suc [symmetric])

lemma assign_connections_ok:
  assumes "c + length (filter (has_lid m) ncs) \<le> length LIDs"
  shows "\<exists>ncs'. assign_connections m 32 LIDs ncs c = Some (ncs', c + length (filter (has_lid m) ncs)) \<and>
    map bare_connection ncs' = map bare_connection ncs \<and>
    map nc_LID (filter (has_lid m) ncs') = take (length (filter (has_lid m) ncs)) (drop c LIDs) \<and>
    (\<forall>nc \<in> set ncs'. \<not> has_lid m nc \<longrightarrow> nc_LID nc = no_lid)"
  using assms
proof (induction ncs arbitrary: c)
  case (Cons nc ncs)
  show ?case
  proof (cases "has_lid m nc")
    case True
    then obtain ncs' where r: "assign_connections m 32 LIDs ncs (Suc c) = Some (ncs', Suc c + length (filter (has_lid m) ncs))"
      "map bare_connection ncs' = map bare_connection ncs"
      "map nc_LID (filter (has_lid m) ncs') = take (length (filter (has_lid m) ncs)) (drop (Suc c) LIDs)"
      "\<forall>nc \<in> set ncs'. \<not> has_lid m nc \<longrightarrow> nc_LID nc = no_lid" using Cons.IH [of "Suc c"] Cons.prems by auto
    have c: "c < length LIDs" using Cons.prems True by simp
    have t: "\<not> (m \<and> nc_lnk_type nc \<noteq> ''pp'')" using True by (simp add: has_lid_def)
    have "assign_connections m 32 LIDs (nc # ncs) c =
        Some (nc\<lparr>nc_LID := LIDs ! c\<rparr> # ncs', c + length (filter (has_lid m) (nc # ncs)))"
      using r(1) c t True by (cases m) (simp_all add: take_LID_def)
    moreover have "map nc_LID (filter (has_lid m) (nc\<lparr>nc_LID := LIDs ! c\<rparr> # ncs')) = take (length (filter (has_lid m) (nc # ncs))) (drop c LIDs)"
      using True r(3) take_nth [OF c] by simp
    ultimately show ?thesis using r(2,4) True by (intro exI [of _ "nc\<lparr>nc_LID := LIDs ! c\<rparr> # ncs'"]) auto
  next
    case False
    then obtain ncs' where r: "assign_connections m 32 LIDs ncs c = Some (ncs', c + length (filter (has_lid m) ncs))"
      "map bare_connection ncs' = map bare_connection ncs"
      "map nc_LID (filter (has_lid m) ncs') = take (length (filter (has_lid m) ncs)) (drop c LIDs)"
      "\<forall>nc \<in> set ncs'. \<not> has_lid m nc \<longrightarrow> nc_LID nc = no_lid" using Cons.IH [of c] Cons.prems by auto
    have t: "m \<and> nc_lnk_type nc \<noteq> ''pp''" using False by (simp add: has_lid_def)
    have "assign_connections m 32 LIDs (nc # ncs) c = Some (nc\<lparr>nc_LID := no_lid\<rparr> # ncs', c + length (filter (has_lid m) (nc # ncs)))"
      using r(1) t False by (simp add: no_lid_new)
    then show ?thesis using r False by (intro exI [of _ "nc\<lparr>nc_LID := no_lid\<rparr> # ncs'"]) auto
  qed
qed simp

lemma length_node_lids: "length (node_lids m nn) = (if node_has_lid m nn then 1 else 0) + length (filter (has_lid m) (nn_connections nn))"
  by (simp add: node_lids_def)

definition optical_unlabelled :: "bool \<Rightarrow> network_node \<Rightarrow> bool" where
  "optical_unlabelled m nn \<longleftrightarrow> (\<forall>nc \<in> set (nn_connections nn). \<not> has_lid m nc \<longrightarrow> nc_LID nc = no_lid)"

lemma assign_nodes_ok:
  assumes "c + length (concat (map (node_lids m) nns)) \<le> length LIDs" "\<forall>nn \<in> set nns. \<not> node_has_lid m nn \<longrightarrow> nn_iLid nn = bv_empty"
  shows "\<exists>nns'. assign_nodes m 32 LIDs nns c = Some (nns', c + length (concat (map (node_lids m) nns))) \<and>
    map bare_node nns' = map bare_node nns \<and>
    concat (map (node_lids m) nns') = take (length (concat (map (node_lids m) nns))) (drop c LIDs) \<and>
    (\<forall>nn \<in> set nns'. optical_unlabelled m nn)"
  using assms
proof (induction nns arbitrary: c)
  case (Cons nn nns)
  let ?i = "if node_has_lid m nn then 1 else 0" and ?f = "filter (has_lid m) (nn_connections nn)"
  let ?ilid = "if node_has_lid m nn then LIDs ! c else nn_iLid nn"
  let ?k = "?i + length ?f" and ?r = "length (concat (map (node_lids m) nns))"
  have l: "length (concat (map (node_lids m) (nn # nns))) = ?k + ?r" using length_node_lids [of m nn] by simp
  have b: "c + ?i + length ?f \<le> length LIDs" "c + ?k + ?r \<le> length LIDs" "node_has_lid m nn \<Longrightarrow> c < length LIDs"
    using Cons.prems(1) unfolding l by (auto split: if_splits)
  from assign_connections_ok [OF b(1)] obtain ncs' where
    n: "assign_connections m 32 LIDs (nn_connections nn) (c + ?i) = Some (ncs', c + ?k)"
    "map bare_connection ncs' = map bare_connection (nn_connections nn)"
    "map nc_LID (filter (has_lid m) ncs') = take (length ?f) (drop (c + ?i) LIDs)"
    "\<forall>nc \<in> set ncs'. \<not> has_lid m nc \<longrightarrow> nc_LID nc = no_lid" by (auto simp: add.assoc)
  from Cons.IH [OF b(2)] Cons.prems(2) obtain nns' where
    r: "assign_nodes m 32 LIDs nns (c + ?k) = Some (nns', c + ?k + ?r)" "map bare_node nns' = map bare_node nns"
    "concat (map (node_lids m) nns') = take ?r (drop (c + ?k) LIDs)" "\<forall>nn \<in> set nns'. optical_unlabelled m nn" by auto
  let ?nn = "nn\<lparr>nn_iLid := ?ilid, nn_connections := ncs'\<rparr>"
  have i: "(if m \<and> nn_type nn \<noteq> ''PN'' then Some (nn_iLid nn, c) else do { LID \<leftarrow> take_LID LIDs c; Some (LID, c + 1) }) = Some (?ilid, c + ?i)"
    using b(3) by (auto simp: node_has_lid_def take_LID_def)
  have h: "node_has_lid m ?nn = node_has_lid m nn" by (simp add: node_has_lid_def)
  have lids: "node_lids m ?nn = take ?k (drop c LIDs)"
    using b(3) n(3) take_nth [of c LIDs "length ?f"] by (simp add: node_lids_def h)
  have "bare_node ?nn = bare_node nn" using n(2) Cons.prems(2) by (simp add: bare_node_def)
  moreover have "assign_nodes m 32 LIDs (nn # nns) c = Some (?nn # nns', c + (?k + ?r))"
    unfolding assign_nodes.simps i using n(1) r(1) by (simp add: add.assoc)
  moreover have "concat (map (node_lids m) (?nn # nns')) = take (?k + ?r) (drop c LIDs)"
    unfolding list.map concat.simps lids r(3) take_add drop_drop by (simp only: add.commute [of ?k c])
  moreover have "optical_unlabelled m ?nn" using n(4) by (simp add: optical_unlabelled_def)
  ultimately show ?case unfolding l using r(2,4) by (intro exI [of _ "?nn # nns'"]) simp
qed simp

definition identifier_count :: "domain \<Rightarrow> nat" where
  "identifier_count dm = length (concat (map (node_lids (multilayer dm)) (network_nodes dm)))"

text \<open>A domain as it is read: identifiers of 32 bytes, the nodes and connections counted, no identifiers yet.\<close>

definition counted :: "domain \<Rightarrow> bool" where
  "counted dm \<longleftrightarrow> dm_fid_len dm = 32 \<and>
     (if multilayer dm then number_of_pl_nodes dm + number_of_p_connections dm else number_of_nodes dm + number_of_connections dm) =
       identifier_count dm \<and>
     (\<forall>nn \<in> set (network_nodes dm). nn_iLid nn = bv_empty)"

lemma lids_of_take: "length ks = n \<Longrightarrow> take n (drop 0 (lids_of n ks)) = map one_bit ks" "length (lids_of n ks) = max n (length ks)"
  by (auto simp: lids_of_def)

lemma no_lid_bits: "is_fid no_lid" "i < 256 \<Longrightarrow> \<not> bv_bit no_lid i"
proof -
  have d: "no_lid = \<lparr>bv_max = 255, bv_data = replicate 8 0\<rparr>" unfolding no_lid_def by code_simp
  show "is_fid no_lid" unfolding d is_fid_def by simp
  have "i div 32 < 8 \<Longrightarrow> replicate 8 (0 :: 32 word) ! (i div 32) = 0" by (rule nth_replicate)
  then show "i < 256 \<Longrightarrow> \<not> bv_bit no_lid i" unfolding d bv_bit_def by (simp add: less_mult_imp_div_less)
qed

lemma identifiers_are_distinct_aux:
  assumes "fair rnd" and "counted dm" and "identifier_count dm \<le> 256"
  shows "\<exists>nns ks. assignLIDs rnd dm = Some (dm\<lparr>network_nodes := nns\<rparr>) \<and> map bare_node nns = map bare_node (network_nodes dm) \<and>
    concat (map (node_lids (multilayer dm)) nns) = map one_bit ks \<and> distinct ks \<and> set ks \<subseteq> {..<256} \<and>
    (\<forall>nn \<in> set nns. \<forall>nc \<in> set (nn_connections nn). \<not> has_lid (multilayer dm) nc \<longrightarrow> (\<forall>fid. lid_in_fid (nc_LID nc) fid))"
proof -
  let ?n = "identifier_count dm" and ?m = "multilayer dm"
  have c: "dm_fid_len dm = 32" "\<forall>nn \<in> set (network_nodes dm). nn_iLid nn = bv_empty"
    "(if ?m then number_of_pl_nodes dm + number_of_p_connections dm else number_of_nodes dm + number_of_connections dm) = ?n"
    using assms(2) unfolding counted_def by blast+
  from calculate_all [OF assms(1,3) order_refl] obtain ks r where
    ks: "fold_opt (calculateLID rnd 32) [0..<?n] (lids_of ?n [], 0) = Some (lids_of ?n ks, r)" "length ks = ?n" "distinct ks" "set ks \<subseteq> {..<256}"
    by blast
  have "0 + length (concat (map (node_lids ?m) (network_nodes dm))) \<le> length (lids_of ?n ks)"
    using ks(2) by (simp add: lids_of_take identifier_count_def)
  from assign_nodes_ok [OF this] c(2) obtain nns where
    nns: "assign_nodes ?m 32 (lids_of ?n ks) (network_nodes dm) 0 = Some (nns, ?n)" "map bare_node nns = map bare_node (network_nodes dm)"
    "concat (map (node_lids ?m) nns) = take ?n (drop 0 (lids_of ?n ks))" "\<forall>nn \<in> set nns. optical_unlabelled ?m nn"
    by (auto simp: identifier_count_def)
  have r: "replicate ?n bv_empty = lids_of ?n []" by (simp add: lids_of_def)
  have a: "assignLIDs rnd dm = Some (dm\<lparr>network_nodes := nns\<rparr>)"
    unfolding assignLIDs_def c(1,3) Let_def r using ks(1) nns(1) by simp
  have z: "lid_in_fid no_lid fid" for fid using no_lid_bits(2) by (simp add: lid_in_fid_def)
  show ?thesis
    by (intro exI [of _ nns] exI [of _ ks] conjI)
      (use a nns(2-4) ks(2-4) z lids_of_take(1) [OF ks(2)] in \<open>simp_all add: optical_unlabelled_def\<close>)
qed

text \<open>
  C31. Every link and node of a domain gets an identifier of its own. With at most 256 of them, and random
  numbers in which every remainder comes up again and again, assigning the identifiers ends; each has one bit of 256,
  no two the same; and nothing else about the domain changes. In a multilayer domain the connections that
  are not between packet nodes are given the identifier of no bit, which every forwarding identifier
  contains.
\<close>

theorem identifiers_are_distinct:
  assumes "fair rnd" and "counted dm" and "identifier_count dm \<le> 256"
  shows "\<exists>nns ks. assignLIDs rnd dm = Some (dm\<lparr>network_nodes := nns\<rparr>) \<and> map bare_node nns = map bare_node (network_nodes dm) \<and>
    concat (map (node_lids (multilayer dm)) nns) = map one_bit ks \<and> distinct ks \<and> set ks \<subseteq> {..<256} \<and>
    (\<forall>nn \<in> set nns. \<forall>nc \<in> set (nn_connections nn). \<not> has_lid (multilayer dm) nc \<longrightarrow> (\<forall>fid. lid_in_fid (nc_LID nc) fid))"
  by (rule identifiers_are_distinct_aux [OF assms])

subsection \<open>The graph that is built\<close>

definition vertex_of :: "topology \<Rightarrow> bstr \<Rightarrow> nat" where
  "vertex_of tp l = the (hm_get (tp_index tp) l)"

definition lid_text :: "bitvec \<Rightarrow> string" where
  "lid_text v = map (\<lambda>i. if bv_bit v (255 - i) then CHR ''1'' else CHR ''0'') [0..<256]"

lemma lid_text_facts [simp]: "length (lid_text v) = 256" "i < 256 \<Longrightarrow> text_bit (lid_text v) i = bv_bit v i"
  by (simp_all add: lid_text_def text_bit_def)

lemma to_lid_text: "is_fid v \<Longrightarrow> bv_to_string v = Some (lid_text v)"
  by (simp add: bv_to_string_fid lid_text_def)

text \<open>The graph of the connections added so far, with the vertices they need.\<close>

definition index_ok :: "topology \<Rightarrow> bool" where
  "index_ok tp \<longleftrightarrow> distinct (tp_NODEID tp) \<and> length (tp_iLID tp) = length (tp_NODEID tp) \<and>
     (\<forall>l v. hm_get (tp_index tp) l = Some v \<longleftrightarrow> v < length (tp_NODEID tp) \<and> tp_NODEID tp ! v = l)"

definition edge_of :: "topology \<Rightarrow> connection \<Rightarrow> nat \<times> nat" where
  "edge_of tp nc = (vertex_of tp (nc_src_label nc), vertex_of tp (nc_dst_label nc))"

definition graph_of :: "connection list \<Rightarrow> topology \<Rightarrow> bool" where
  "graph_of cs tp \<longleftrightarrow> index_ok tp \<and> (\<forall>nc \<in> set cs. {nc_src_label nc, nc_dst_label nc} \<subseteq> set (tp_NODEID tp)) \<and>
     tp_edges tp = map (edge_of tp) cs \<and> tp_LID tp = map (\<lambda>nc. lid_text (nc_LID nc)) cs"

lemma index_known:
  assumes "index_ok tp" "l \<in> set (tp_NODEID tp)"
  shows "hm_get (tp_index tp) l = Some (vertex_of tp l) \<and> vertex_of tp l < length (tp_NODEID tp) \<and> tp_NODEID tp ! vertex_of tp l = l"
proof -
  obtain v where v: "v < length (tp_NODEID tp)" "tp_NODEID tp ! v = l" using assms(2) by (auto simp: in_set_conv_nth)
  then have "hm_get (tp_index tp) l = Some v" using assms(1) by (simp add: index_ok_def)
  then show ?thesis using v by (simp add: vertex_of_def)
qed

lemma index_unknown:
  assumes "index_ok tp"
  shows "hm_get (tp_index tp) l = None \<longleftrightarrow> l \<notin> set (tp_NODEID tp)"
proof (cases "hm_get (tp_index tp) l")
  case None
  then show ?thesis using index_known [OF assms, of l] by auto
next
  case (Some v)
  then have "v < length (tp_NODEID tp)" "tp_NODEID tp ! v = l" using assms by (simp_all add: index_ok_def)
  then show ?thesis using Some by auto
qed

lemma find_or_add_ok:
  assumes "graph_of cs tp"
  shows "\<exists>tp'. find_or_add l tp = (vertex_of tp' l, tp') \<and> graph_of cs tp' \<and> set (tp_NODEID tp') = insert l (set (tp_NODEID tp)) \<and>
    (\<forall>l' \<in> set (tp_NODEID tp). vertex_of tp' l' = vertex_of tp l') \<and> tp_edges tp' = tp_edges tp"
proof (cases "hm_get (tp_index tp) l")
  case (Some v)
  then have "l \<in> set (tp_NODEID tp)" using assms index_unknown [of tp l] by (auto simp: graph_of_def)
  then show ?thesis using Some assms by (intro exI [of _ tp]) (auto simp: find_or_add_def vertex_of_def)
next
  case None
  let ?v = "length (tp_NODEID tp)"
  let ?tp = "tp\<lparr>tp_NODEID := tp_NODEID tp @ [l], tp_iLID := tp_iLID tp @ [[]], tp_NTYPE := tp_NTYPE tp @ [[]],
              tp_index := hm_find_insert l ?v (tp_index tp)\<rparr>"
  have i: "index_ok tp" and l: "l \<notin> set (tp_NODEID tp)" using assms None index_unknown [of tp l] by (auto simp: graph_of_def)
  have g: "hm_get (tp_index ?tp) l' = (if l' = l then Some ?v else hm_get (tp_index tp) l')" for l'
    using None by (simp add: hm_find_insert_def)
  have iff: "hm_get (tp_index ?tp) l' = Some v \<longleftrightarrow> v < length (tp_NODEID ?tp) \<and> tp_NODEID ?tp ! v = l'" for l' v
  proof (cases "v < ?v")
    case True
    then have "tp_NODEID tp ! v \<in> set (tp_NODEID tp)" by simp
    then show ?thesis using i True l unfolding g index_ok_def by (auto simp: nth_append)
  next
    case False
    then show ?thesis using i unfolding g index_ok_def by (auto simp: nth_append)
  qed
  have i': "index_ok ?tp" using i l iff unfolding index_ok_def by simp
  have same: "vertex_of ?tp l' = vertex_of tp l'" if "l' \<in> set (tp_NODEID tp)" for l'
    using that l g unfolding vertex_of_def by auto
  have "graph_of cs ?tp" using assms i' same unfolding graph_of_def by (auto simp: edge_of_def)
  moreover have "find_or_add l tp = (vertex_of ?tp l, ?tp)" unfolding vertex_of_def g using None by (simp add: find_or_add_def Let_def)
  ultimately show ?thesis using same by (intro exI [of _ ?tp]) simp
qed

lemma add_connection_ok:
  assumes "graph_of cs tp" "is_fid (nc_LID nc)"
  shows "\<exists>tp'. add_connection mac_ml False nc tp = Some tp' \<and> graph_of (cs @ [nc]) tp' \<and>
    set (tp_NODEID tp') = set (tp_NODEID tp) \<union> {nc_src_label nc, nc_dst_label nc}"
proof -
  from find_or_add_ok [OF assms(1), of "nc_src_label nc"] obtain tp1 where
    a: "find_or_add (nc_src_label nc) tp = (vertex_of tp1 (nc_src_label nc), tp1)" "graph_of cs tp1"
    "set (tp_NODEID tp1) = insert (nc_src_label nc) (set (tp_NODEID tp))" by blast
  from find_or_add_ok [OF a(2), of "nc_dst_label nc"] obtain tp2 where
    b: "find_or_add (nc_dst_label nc) tp1 = (vertex_of tp2 (nc_dst_label nc), tp2)" "graph_of cs tp2"
    "set (tp_NODEID tp2) = insert (nc_dst_label nc) (set (tp_NODEID tp1))"
    "\<forall>l' \<in> set (tp_NODEID tp1). vertex_of tp2 l' = vertex_of tp1 l'" by blast
  have v: "vertex_of tp1 (nc_src_label nc) = vertex_of tp2 (nc_src_label nc)" using a(3) b(4) by simp
  let ?tp = "tp2\<lparr>tp_edges := tp_edges tp2 @ [edge_of tp2 nc], tp_LID := tp_LID tp2 @ [lid_text (nc_LID nc)],
                tp_LTYPE := tp_LTYPE tp2 @ [if mac_ml then nc_lnk_type nc else []]\<rparr>"
  have "add_connection mac_ml False nc tp = Some ?tp"
    using to_lid_text [OF assms(2)] by (simp add: add_connection_def a(1) b(1) v edge_of_def)
  moreover have "edge_of ?tp = edge_of tp2" by (simp add: fun_eq_iff edge_of_def vertex_of_def)
  then have "graph_of (cs @ [nc]) ?tp" using b(2,3) a(3) by (auto simp: graph_of_def index_ok_def)
  ultimately show ?thesis using a(3) b(3) by (intro exI [of _ ?tp]) auto
qed

lemma fold_connections_ok:
  assumes "graph_of cs tp" "\<forall>nc \<in> set ncs. is_fid (nc_LID nc)"
  shows "\<exists>tp'. fold_opt (add_connection mac_ml False) ncs tp = Some tp' \<and> graph_of (cs @ ncs) tp' \<and>
    set (tp_NODEID tp') = set (tp_NODEID tp) \<union> nc_src_label ` set ncs \<union> nc_dst_label ` set ncs"
  using assms
proof (induction ncs arbitrary: cs tp)
  case (Cons nc ncs)
  from add_connection_ok [OF Cons.prems(1), of nc mac_ml] Cons.prems(2) obtain tp1 where
    a: "add_connection mac_ml False nc tp = Some tp1" "graph_of (cs @ [nc]) tp1"
    "set (tp_NODEID tp1) = set (tp_NODEID tp) \<union> {nc_src_label nc, nc_dst_label nc}" by auto
  from Cons.IH [OF a(2)] Cons.prems(2) obtain tp2 where
    "fold_opt (add_connection mac_ml False) ncs tp1 = Some tp2" "graph_of ((cs @ [nc]) @ ncs) tp2"
    "set (tp_NODEID tp2) = set (tp_NODEID tp1) \<union> nc_src_label ` set ncs \<union> nc_dst_label ` set ncs" by auto
  then show ?case using a by (intro exI [of _ tp2]) auto
qed simp

lemma add_node_ok:
  assumes "graph_of cs tp" "\<forall>nc \<in> set (nn_connections nn). is_fid (nc_LID nc) \<and> nc_src_label nc = nn_label nn"
  shows "\<exists>tp'. add_connections mac_ml nn tp = Some tp' \<and> graph_of (cs @ nn_connections nn) tp' \<and>
    set (tp_NODEID tp') = set (tp_NODEID tp) \<union> {nn_label nn} \<union> nc_dst_label ` set (nn_connections nn)"
proof (cases "nn_connections nn = []")
  case True
  from find_or_add_ok [OF assms(1), of "nn_label nn"] obtain tp1 where
    a: "find_or_add (nn_label nn) tp = (vertex_of tp1 (nn_label nn), tp1)" "graph_of cs tp1"
    "set (tp_NODEID tp1) = insert (nn_label nn) (set (tp_NODEID tp))" by blast
  from find_or_add_ok [OF a(2), of "nn_label nn"] obtain tp2 where
    b: "find_or_add (nn_label nn) tp1 = (vertex_of tp2 (nn_label nn), tp2)" "graph_of cs tp2"
    "set (tp_NODEID tp2) = insert (nn_label nn) (set (tp_NODEID tp1))" by blast
  have "add_connections mac_ml nn tp = Some tp2"
    using True a(1) b(1) by (simp add: add_connections_def add_connection_def pseudo_connection_def)
  then show ?thesis using True a(3) b(2,3) by (intro exI [of _ tp2]) auto
next
  case False
  from fold_connections_ok [OF assms(1), of "nn_connections nn" mac_ml] assms(2) obtain tp' where
    "fold_opt (add_connection mac_ml False) (nn_connections nn) tp = Some tp'" "graph_of (cs @ nn_connections nn) tp'"
    "set (tp_NODEID tp') = set (tp_NODEID tp) \<union> nc_src_label ` set (nn_connections nn) \<union> nc_dst_label ` set (nn_connections nn)" by auto
  moreover have "nc_src_label ` set (nn_connections nn) = {nn_label nn}" using assms(2) False by (cases "nn_connections nn") auto
  ultimately show ?thesis using False by (simp add: add_connections_def)
qed

definition all_connections :: "network_node list \<Rightarrow> connection list" where
  "all_connections nns = concat (map nn_connections nns)"

text \<open>A labelled domain: identifiers of 256 bits everywhere, and every connection starts at its node.\<close>

definition labelled :: "network_node list \<Rightarrow> bool" where
  "labelled nns \<longleftrightarrow> (\<forall>nn \<in> set nns. is_fid (nn_iLid nn) \<and> (\<forall>nc \<in> set (nn_connections nn). is_fid (nc_LID nc) \<and> nc_src_label nc = nn_label nn))"

lemma add_nodes_graph:
  assumes "graph_of cs tp" "labelled nns"
  shows "\<exists>tp'. fold_opt (add_connections mac_ml) nns tp = Some tp' \<and> graph_of (cs @ all_connections nns) tp' \<and>
    set (tp_NODEID tp') = set (tp_NODEID tp) \<union> nn_label ` set nns \<union> nc_dst_label ` set (all_connections nns)"
  using assms
proof (induction nns arbitrary: cs tp)
  case (Cons nn nns)
  from add_node_ok [OF Cons.prems(1), of nn mac_ml] Cons.prems(2) obtain tp1 where
    a: "add_connections mac_ml nn tp = Some tp1" "graph_of (cs @ nn_connections nn) tp1"
    "set (tp_NODEID tp1) = set (tp_NODEID tp) \<union> {nn_label nn} \<union> nc_dst_label ` set (nn_connections nn)" by (auto simp: labelled_def)
  have "labelled nns" using Cons.prems(2) by (simp add: labelled_def)
  from Cons.IH [OF a(2) this] obtain tp2 where
    "fold_opt (add_connections mac_ml) nns tp1 = Some tp2" "graph_of ((cs @ nn_connections nn) @ all_connections nns) tp2"
    "set (tp_NODEID tp2) = set (tp_NODEID tp1) \<union> nn_label ` set nns \<union> nc_dst_label ` set (all_connections nns)" by blast
  then show ?case using a by (intro exI [of _ tp2]) (auto simp: all_connections_def)
qed (simp add: all_connections_def)

definition mapped :: "network_node list \<Rightarrow> bool" where
  "mapped nns \<longleftrightarrow> distinct (map nn_label nns) \<and> (\<forall>nc \<in> set (all_connections nns). nc_dst_label nc \<in> nn_label ` set nns)"

text \<open>The graph of a domain: a vertex for every node, an edge for every connection, with their identifiers as text.\<close>

definition built :: "network_node list \<Rightarrow> topology \<Rightarrow> bool" where
  "built nns tp \<longleftrightarrow> graph_of (all_connections nns) tp \<and> set (tp_NODEID tp) = nn_label ` set nns \<and>
     (\<forall>nn \<in> set nns. tp_iLID tp ! vertex_of tp (nn_label nn) = lid_text (nn_iLid nn))"

lemma attributes_ok:
  assumes "graph_of cs tp" "distinct (map nn_label nns)" "nn_label ` set nns \<subseteq> set (tp_NODEID tp)" "labelled nns"
  shows "\<exists>tp'. fold_opt (set_attributes False) nns tp = Some tp' \<and> graph_of cs tp' \<and> tp_NODEID tp' = tp_NODEID tp \<and> tp_index tp' = tp_index tp \<and>
    (\<forall>nn \<in> set nns. tp_iLID tp' ! vertex_of tp (nn_label nn) = lid_text (nn_iLid nn)) \<and>
    (\<forall>l \<in> set (tp_NODEID tp). l \<notin> nn_label ` set nns \<longrightarrow> tp_iLID tp' ! vertex_of tp l = tp_iLID tp ! vertex_of tp l)"
  using assms
proof (induction nns arbitrary: tp)
  case (Cons nn nns)
  have i: "index_ok tp" using Cons.prems(1) by (simp add: graph_of_def)
  let ?v = "vertex_of tp (nn_label nn)"
  have k: "hm_get (tp_index tp) (nn_label nn) = Some ?v" "?v < length (tp_iLID tp)" "tp_NODEID tp ! ?v = nn_label nn"
    using index_known [OF i, of "nn_label nn"] Cons.prems(3) i by (auto simp: index_ok_def)
  have f: "is_fid (nn_iLid nn)" using Cons.prems(4) by (simp add: labelled_def)
  let ?tp = "tp\<lparr>tp_iLID := (tp_iLID tp)[?v := lid_text (nn_iLid nn)]\<rparr>"
  have s: "set_attributes False nn tp = Some ?tp" using k(1) to_lid_text [OF f] by (simp add: set_attributes_def)
  have ve: "vertex_of ?tp = vertex_of tp" by (simp add: vertex_of_def fun_eq_iff)
  have g: "graph_of cs ?tp"
    using Cons.prems(1) by (simp add: graph_of_def index_ok_def edge_of_def vertex_of_def)
  have p: "distinct (map nn_label nns)" "nn_label ` set nns \<subseteq> set (tp_NODEID ?tp)" "labelled nns" using Cons.prems by (auto simp: labelled_def)
  from Cons.IH [OF g p] obtain tp' where
    r: "fold_opt (set_attributes False) nns ?tp = Some tp'" "graph_of cs tp'" "tp_NODEID tp' = tp_NODEID tp" "tp_index tp' = tp_index tp"
    "\<forall>nn \<in> set nns. tp_iLID tp' ! vertex_of tp (nn_label nn) = lid_text (nn_iLid nn)"
    "\<forall>l \<in> set (tp_NODEID tp). l \<notin> nn_label ` set nns \<longrightarrow> tp_iLID tp' ! vertex_of tp l = tp_iLID ?tp ! vertex_of tp l"
    unfolding ve by auto
  have new: "nn_label nn \<notin> nn_label ` set nns" "nn_label nn \<in> set (tp_NODEID tp)" using Cons.prems(2,3) by auto
  have "tp_iLID tp' ! ?v = lid_text (nn_iLid nn)" using r(6) new k(2) by simp
  moreover have "tp_iLID tp' ! vertex_of tp l = tp_iLID tp ! vertex_of tp l"
    if l: "l \<in> set (tp_NODEID tp)" "l \<notin> nn_label ` set (nn # nns)" for l
  proof -
    have "?v \<noteq> vertex_of tp l" using index_known [OF i l(1)] k(3) l(2) by auto
    then show ?thesis using r(6) l by simp
  qed
  ultimately show ?case using s r by (intro exI [of _ tp']) simp
qed simp

lemma empty_graph: "graph_of [] empty_topology"
  by (simp add: graph_of_def index_ok_def empty_topology_def)

lemma build_ok:
  assumes "labelled (network_nodes dm)" "mapped (network_nodes dm)" "\<not> multilayer dm"
  shows "\<exists>tp. buildIGraphTopology dm = Some tp \<and> built (network_nodes dm) tp"
proof -
  let ?nns = "network_nodes dm"
  from add_nodes_graph [OF empty_graph assms(1), of False] obtain tp1 where
    a: "fold_opt (add_connections False) ?nns empty_topology = Some tp1" "graph_of (all_connections ?nns) tp1"
    "set (tp_NODEID tp1) = nn_label ` set ?nns \<union> nc_dst_label ` set (all_connections ?nns)" by (auto simp: empty_topology_def)
  have n: "set (tp_NODEID tp1) = nn_label ` set ?nns" using a(3) assms(2) by (auto simp: mapped_def)
  have d: "distinct (map nn_label ?nns)" using assms(2) by (simp add: mapped_def)
  from attributes_ok [OF a(2) d _ assms(1)] n obtain tp where
    b: "fold_opt (set_attributes False) ?nns tp1 = Some tp" "graph_of (all_connections ?nns) tp" "tp_NODEID tp = tp_NODEID tp1" "tp_index tp = tp_index tp1"
    "\<forall>nn \<in> set ?nns. tp_iLID tp ! vertex_of tp1 (nn_label nn) = lid_text (nn_iLid nn)" by auto
  have "vertex_of tp = vertex_of tp1" using b(4) by (simp add: vertex_of_def fun_eq_iff)
  then have "built ?nns tp" using b n by (simp add: built_def)
  moreover have "buildIGraphTopology dm = Some tp" using a(1) b(1) assms(3) by (simp add: buildIGraphTopology_def)
  ultimately show ?thesis by blast
qed

subsection \<open>The library's answers about it\<close>

fun along :: "(nat \<times> nat) list \<Rightarrow> nat list \<Rightarrow> bool" where
  "along es (u # v # vs) \<longleftrightarrow> (u, v) \<in> set es \<and> along es (v # vs)"
| "along es _ \<longleftrightarrow> True"

text \<open>
  The documented behaviour of igraph: a shortest path is empty or leads from the one vertex to the other
  over edges, visiting no vertex twice; the edge between two neighbours is one that joins them.
\<close>

definition igraph_law :: "igraph_lib \<Rightarrow> topology \<Rightarrow> bool" where
  "igraph_law lib tp \<longleftrightarrow>
     (\<forall>u < length (tp_NODEID tp). \<forall>v < length (tp_NODEID tp). let p = get_shortest_paths lib tp u v in
        distinct p \<and> set p \<subseteq> {..<length (tp_NODEID tp)} \<and> along (tp_edges tp) p \<and> (p \<noteq> [] \<longrightarrow> hd p = u \<and> last p = v)) \<and>
     (\<forall>u v. (u, v) \<in> set (tp_edges tp) \<longrightarrow> (\<exists>e < length (tp_edges tp). get_eid lib tp u v = Some e \<and> tp_edges tp ! e = (u, v)))"

text \<open>The same graph, written to the topology file and read by the topology manager.\<close>

definition igraph_of :: "igraph_lib \<Rightarrow> topology \<Rightarrow> igraph" where
  "igraph_of lib tp = \<lparr>ig_NODEID = tp_NODEID tp, ig_iLID = tp_iLID tp, ig_LID = tp_LID tp,
     ig_path = get_shortest_paths lib tp, ig_eid = get_eid lib tp\<rparr>"

lemma built_facts:
  assumes "built nns tp"
  shows "index_ok tp" "length (tp_LID tp) = length (tp_edges tp)" "length (tp_iLID tp) = length (tp_NODEID tp)" "distinct (tp_NODEID tp)"
    "\<forall>s \<in> set (tp_LID tp). length s = 256"
  using assms by (auto simp: built_def graph_of_def index_ok_def)

lemma built_ilid:
  assumes "built nns tp" "s \<in> set (tp_iLID tp)"
  shows "length s = 256"
proof -
  note f = built_facts [OF assms(1)]
  obtain v where v: "v < length (tp_NODEID tp)" "s = tp_iLID tp ! v" using assms(2) f(3) by (auto simp: in_set_conv_nth)
  then have "tp_NODEID tp ! v \<in> nn_label ` set nns" using assms(1) nth_mem [OF v(1)] by (simp add: built_def)
  then obtain nn where nn: "nn \<in> set nns" "tp_NODEID tp ! v = nn_label nn" by auto
  have "hm_get (tp_index tp) (nn_label nn) = Some v" using f(1) v(1) nn(2) by (simp add: index_ok_def)
  then have "vertex_of tp (nn_label nn) = v" by (simp add: vertex_of_def)
  then show ?thesis using assms(1) nn(1) v(2) by (auto simp: built_def)
qed

lemma along_joined:
  assumes "igraph_law lib tp" "length (tp_LID tp) = length (tp_edges tp)" "along (tp_edges tp) p"
  shows "joined (igraph_of lib tp) p"
  using assms(3)
proof (induction p rule: induct_list012)
  case (3 u v vs)
  then obtain e where "get_eid lib tp u v = Some e" "e < length (tp_edges tp)" using assms(1) unfolding igraph_law_def by fastforce
  then show ?case using 3 assms(2) by (simp add: igraph_of_def)
qed simp_all

lemma deployed_topology:
  assumes "built nns tp" "igraph_law lib tp" "\<forall>nn \<in> set nns. length (nn_label nn) = 8" "length (tp_NODEID tp) < UINT_MAX"
  shows "topology_ok (igraph_of lib tp)"
proof -
  note f = built_facts [OF assms(1)]
  have "path_law (igraph_of lib tp) u v (get_shortest_paths lib tp u v)" if uv: "u < length (tp_NODEID tp)" "v < length (tp_NODEID tp)" for u v
  proof -
    let ?p = "get_shortest_paths lib tp u v"
    have l: "distinct ?p" "set ?p \<subseteq> {..<length (tp_NODEID tp)}" "along (tp_edges tp) ?p" "?p \<noteq> [] \<longrightarrow> hd ?p = u \<and> last ?p = v"
      using assms(2) uv unfolding igraph_law_def Let_def by blast+
    have "length ?p \<le> length (tp_NODEID tp)" using card_mono [OF _ l(2)] distinct_card [OF l(1)] by simp
    then show ?thesis using l along_joined [OF assms(2) f(2) l(3)] by (simp add: path_law_def igraph_of_def)
  qed
  moreover have "\<forall>s \<in> set (tp_iLID tp) \<union> set (tp_LID tp). length s = 256" using f(5) built_ilid [OF assms(1)] by blast
  moreover have "\<forall>x \<in> set (tp_NODEID tp). length x = 8" using assms(1,3) by (auto simp: built_def)
  ultimately show ?thesis unfolding topology_ok_def using f(3,4) assms(4) by (simp add: igraph_of_def)
qed

subsection \<open>The identifiers to a node\<close>

lemma vertex_same:
  assumes "built nns tp" "l \<in> set (tp_NODEID tp)"
  shows "vertex (igraph_of lib tp) l = vertex_of tp l"
proof -
  note f = built_facts [OF assms(1)]
  have v: "vertex (igraph_of lib tp) l < length (tp_NODEID tp)" "tp_NODEID tp ! vertex (igraph_of lib tp) l = l"
    using vertex_ok [of l "igraph_of lib tp"] assms(2) by (simp_all add: igraph_of_def)
  note k = index_known [OF f(1) assms(2)]
  show ?thesis using nth_eq_iff_index_eq [OF f(4) v(1), of "vertex_of tp l"] v(2) k by metis
qed

lemma or_text_ok: "length s = 256 \<Longrightarrow> is_fid r \<Longrightarrow> or_text 256 s r = Some (set_ones s r)"
  by (simp add: or_text_def)

lemma or_path_ok:
  assumes "built nns tp" "igraph_law lib tp" "along (tp_edges tp) p" "is_fid r"
  shows "\<exists>r'. or_path lib 256 tp p r = Some r' \<and> is_fid r' \<and>
    (\<forall>i < 256. bv_bit r' i = (bv_bit r i \<or> (\<exists>e \<in> set (path_edges (igraph_of lib tp) p). text_bit (tp_LID tp ! e) i)))"
  using assms(3,4)
proof (induction p arbitrary: r rule: induct_list012)
  case (3 u v vs)
  note f = built_facts [OF assms(1)]
  obtain e where e: "get_eid lib tp u v = Some e" "e < length (tp_LID tp)"
    using assms(2) 3(3) f(2) unfolding igraph_law_def by fastforce
  have l: "length (tp_LID tp ! e) = 256" using f(5) e(2) by simp
  have a: "along (tp_edges tp) (v # vs)" using 3(3) by simp
  note s = set_ones_fid [OF 3(4) l]
  from "3.IH"(2) [OF a s(1)] obtain r2 where r2: "or_path lib 256 tp (v # vs) (set_ones (tp_LID tp ! e) r) = Some r2" "is_fid r2"
    "\<forall>i < 256. bv_bit r2 i = (bv_bit (set_ones (tp_LID tp ! e) r) i \<or> (\<exists>e \<in> set (path_edges (igraph_of lib tp) (v # vs)). text_bit (tp_LID tp ! e) i))"
    by blast
  have "or_path lib 256 tp (u # v # vs) r = Some r2" using e r2(1) or_text_ok [OF l 3(4)] by simp
  moreover have "path_edges (igraph_of lib tp) (u # v # vs) = e # path_edges (igraph_of lib tp) (v # vs)" using e(1) by (simp add: igraph_of_def)
  ultimately show ?case using r2(2,3) s(2) by (intro exI [of _ r2]) auto
qed auto

lemma law_path:
  assumes "igraph_law lib tp" "u < length (tp_NODEID tp)" "v < length (tp_NODEID tp)"
  shows "distinct (get_shortest_paths lib tp u v)" "set (get_shortest_paths lib tp u v) \<subseteq> {..<length (tp_NODEID tp)}"
    "along (tp_edges tp) (get_shortest_paths lib tp u v)"
    "get_shortest_paths lib tp u v \<noteq> [] \<Longrightarrow> hd (get_shortest_paths lib tp u v) = u \<and> last (get_shortest_paths lib tp u v) = v"
  using assms unfolding igraph_law_def Let_def by blast+

lemma domain_fid_ok:
  assumes "built nns tp" "igraph_law lib tp" "dm_fid_len dm = 32" "\<not> multilayer dm"
    and "source \<in> nn_label ` set nns" "destination \<in> nn_label ` set nns"
  shows "\<exists>f. domain_calculateFID lib dm tp source destination = Some f \<and> route_fid (igraph_of lib tp) source destination f"
proof -
  note f = built_facts [OF assms(1)]
  have m: "source \<in> set (tp_NODEID tp)" "destination \<in> set (tp_NODEID tp)" using assms(1,5,6) by (simp_all add: built_def)
  note ks = index_known [OF f(1) m(1)] and kd = index_known [OF f(1) m(2)]
  let ?g = "igraph_of lib tp"
  let ?p = "get_shortest_paths lib tp (vertex_of tp source) (vertex_of tp destination)" and ?i = "tp_iLID tp ! vertex_of tp destination"
  obtain z where z: "bv_new 256 = Some z" "is_fid z" "\<forall>i < 256. \<not> bv_bit z i" using bv_new_fid by blast
  have a: "along (tp_edges tp) ?p" using law_path(3) [OF assms(2)] ks kd by blast
  from or_path_ok [OF assms(1,2) a z(2)] obtain r where r: "or_path lib 256 tp ?p z = Some r" "is_fid r"
    "\<forall>i < 256. bv_bit r i = (bv_bit z i \<or> (\<exists>e \<in> set (path_edges ?g ?p). text_bit (tp_LID tp ! e) i))" by blast
  have l: "length ?i = 256" using built_ilid [OF assms(1)] kd f(3) by simp
  note s = set_ones_fid [OF r(2) l]
  have "domain_calculateFID lib dm tp source destination = Some (set_ones ?i r)"
    using assms(3,4) z(1) r(1) ks kd or_text_ok [OF l r(2)] by (simp add: domain_calculateFID_def)
  moreover have "route ?g source destination = ?p" unfolding route_def vertex_same [OF assms(1) m(1)] vertex_same [OF assms(1) m(2)]
    by (simp add: igraph_of_def)
  then have "route_fid ?g source destination (set_ones ?i r)"
    using s r(3) z(3) vertex_same [OF assms(1) m(2), of lib]
    by (simp add: route_fid_def route_bits_def) (simp add: igraph_of_def)
  ultimately show ?thesis by blast
qed

subsection \<open>Identifiers and their owners\<close>

text \<open>The identifiers of a domain have one bit each, no two the same.\<close>

definition own_bits :: "network_node list \<Rightarrow> bool" where
  "own_bits nns \<longleftrightarrow> (\<exists>ks. concat (map (node_lids False) nns) = map one_bit ks \<and> distinct ks \<and> set ks \<subseteq> {..<256})"

lemma node_lids_False [simp]: "node_lids False nn = nn_iLid nn # map nc_LID (nn_connections nn)"
  by (simp add: node_lids_def node_has_lid_def has_lid_def)

lemma own_bits_one:
  assumes "own_bits nns" "l \<in> set (concat (map (node_lids False) nns))"
  shows "\<exists>k < 256. l = one_bit k"
proof -
  obtain ks where ks: "concat (map (node_lids False) nns) = map one_bit ks" "set ks \<subseteq> {..<256}" using assms(1) by (auto simp: own_bits_def)
  have "l \<in> one_bit ` set ks" using assms(2) unfolding ks(1) by simp
  then show ?thesis using ks(2) by auto
qed

lemma own_bits_contained:
  assumes "own_bits nns" "l \<in> set (concat (map (node_lids False) nns))" "is_fid f"
    and "L \<subseteq> set (concat (map (node_lids False) nns))" "\<forall>i < 256. bv_bit f i \<longleftrightarrow> (\<exists>l \<in> L. bv_bit l i)"
  shows "lid_in_fid l f \<longleftrightarrow> l \<in> L"
proof -
  obtain k where k: "k < 256" "l = one_bit k" using own_bits_one [OF assms(1,2)] by blast
  have "lid_in_fid l f \<longleftrightarrow> bv_bit f k" using k bit_one_bit by (auto simp: lid_in_fid_def)
  also have "\<dots> \<longleftrightarrow> (\<exists>l \<in> L. bv_bit l k)" using assms(5) k(1) by blast
  also have "\<dots> \<longleftrightarrow> l \<in> L"
  proof
    assume "\<exists>l \<in> L. bv_bit l k"
    then obtain l' where l': "l' \<in> L" "bv_bit l' k" by blast
    then obtain k' where "k' < 256" "l' = one_bit k'" using own_bits_one [OF assms(1)] assms(4) by blast
    then show "l \<in> L" using l' k bit_one_bit [of k' k] by auto
  qed (use k bit_one_bit [of k k] in blast)
  finally show ?thesis .
qed

lemma own_bits_distinct: "own_bits nns \<Longrightarrow> distinct (concat (map (node_lids False) nns))"
proof -
  assume "own_bits nns"
  then obtain ks where ks: "concat (map (node_lids False) nns) = map one_bit ks" "distinct ks" "set ks \<subseteq> {..<256}"
    by (auto simp: own_bits_def)
  have "inj_on one_bit (set ks)"
  proof (rule inj_onI)
    fix x y assume "x \<in> set ks" "y \<in> set ks" "one_bit x = one_bit y"
    then show "x = y" using ks(3) one_bit_inj [of x y] by auto
  qed
  then show ?thesis unfolding ks(1) using ks(2) by (simp add: distinct_map)
qed

subsection \<open>Addresses found\<close>

text \<open>
  The addresses of the interfaces: those of the file, where it has any, are theirs, and a node that is
  asked tells them.
\<close>

definition macs_given :: "(bstr \<Rightarrow> bstr \<Rightarrow> bstr) \<Rightarrow> connection \<Rightarrow> bool" where
  "macs_given adr nc \<longleftrightarrow> nc_src_mac nc \<in> {[], adr (nc_src_label nc) (nc_src_if nc)} \<and> nc_dst_mac nc \<in> {[], adr (nc_dst_label nc) (nc_dst_if nc)}"

definition addressed :: "(bstr \<Rightarrow> bstr \<Rightarrow> bstr) \<Rightarrow> connection \<Rightarrow> connection" where
  "addressed adr nc = nc\<lparr>nc_src_mac := adr (nc_src_label nc) (nc_src_if nc), nc_dst_mac := adr (nc_dst_label nc) (nc_dst_if nc)\<rparr>"

definition learnt :: "(bstr \<Rightarrow> bstr \<Rightarrow> bstr) \<Rightarrow> (bstr, bstr) htab \<Rightarrow> bool" where
  "learnt adr tbl \<longleftrightarrow> (\<forall>l i a. length l = 8 \<and> hm_get tbl (l @ i) = Some a \<longrightarrow> a = adr l i)"

lemma learn_mac_ok:
  assumes "learnt adr tbl" "length l = 8" "mac \<in> {[], adr l i}" "ask l i = Some (adr l i)"
  shows "\<exists>tbl'. learn_mac False ask l i mac tbl = (adr l i, tbl') \<and> learnt adr tbl'"
proof (cases "hm_get tbl (l @ i)")
  case None
  have "learnt adr (hm_set (l @ i) (adr l i) tbl)" using assms(1,2) by (auto simp: learnt_def)
  then show ?thesis using None assms(3,4) by (auto simp: learn_mac_def Let_def)
next
  case (Some a)
  then show ?thesis using assms(1,2) by (auto simp: learn_mac_def learnt_def)
qed

lemma discover_connection_ok:
  assumes "learnt adr tbl" "macs_given adr nc" "length (nc_src_label nc) = 8" "length (nc_dst_label nc) = 8" "\<forall>l i. ask l i = Some (adr l i)"
  shows "\<exists>tbl'. discover_connection False ask ''mac'' type nc tbl = (addressed adr nc, tbl') \<and> learnt adr tbl'"
proof -
  from learn_mac_ok [OF assms(1,3), of "nc_src_mac nc" "nc_src_if nc" ask] assms(2,5) obtain tbl1 where
    a: "learn_mac False ask (nc_src_label nc) (nc_src_if nc) (nc_src_mac nc) tbl = (adr (nc_src_label nc) (nc_src_if nc), tbl1)" "learnt adr tbl1"
    by (auto simp: macs_given_def)
  from learn_mac_ok [OF a(2) assms(4), of "nc_dst_mac nc" "nc_dst_if nc" ask] assms(2,5) obtain tbl2 where
    "learn_mac False ask (nc_dst_label nc) (nc_dst_if nc) (nc_dst_mac nc) tbl1 = (adr (nc_dst_label nc) (nc_dst_if nc), tbl2)" "learnt adr tbl2"
    by (auto simp: macs_given_def)
  then show ?thesis using a by (simp add: discover_connection_def addressed_def)
qed

lemma discover_connections_ok:
  assumes "learnt adr tbl" "\<forall>nc \<in> set ncs. macs_given adr nc \<and> length (nc_src_label nc) = 8 \<and> length (nc_dst_label nc) = 8" "\<forall>l i. ask l i = Some (adr l i)"
  shows "\<exists>tbl'. discover_connections False ask ''mac'' type ncs tbl = (map (addressed adr) ncs, tbl') \<and> learnt adr tbl'"
  using assms(1,2)
proof (induction ncs arbitrary: tbl)
  case (Cons nc ncs)
  from discover_connection_ok [OF Cons.prems(1) _ _ _ assms(3), of nc type] Cons.prems(2) obtain tbl1 where
    a: "discover_connection False ask ''mac'' type nc tbl = (addressed adr nc, tbl1)" "learnt adr tbl1" by auto
  from Cons.IH [OF a(2)] Cons.prems(2) obtain tbl2 where
    "discover_connections False ask ''mac'' type ncs tbl1 = (map (addressed adr) ncs, tbl2)" "learnt adr tbl2" by auto
  then show ?case using a by simp
qed simp

lemma discover_nodes_ok:
  assumes "learnt adr tbl" "\<forall>nc \<in> set (all_connections nns). macs_given adr nc \<and> length (nc_src_label nc) = 8 \<and> length (nc_dst_label nc) = 8"
    and "\<forall>l i. ask l i = Some (adr l i)"
  shows "discover_nodes False ask ''mac'' nns tbl = map (\<lambda>nn. nn\<lparr>nn_connections := map (addressed adr) (nn_connections nn)\<rparr>) nns"
  using assms(1,2)
proof (induction nns arbitrary: tbl)
  case (Cons nn nns)
  from discover_connections_ok [OF Cons.prems(1) _ assms(3), of "nn_connections nn" "nn_type nn"] Cons.prems(2) obtain tbl1 where
    a: "discover_connections False ask ''mac'' (nn_type nn) (nn_connections nn) tbl = (map (addressed adr) (nn_connections nn), tbl1)" "learnt adr tbl1"
    by (auto simp: all_connections_def)
  from Cons.IH [OF a(2)] Cons.prems(2) have
    "discover_nodes False ask ''mac'' nns tbl1 = map (\<lambda>nn. nn\<lparr>nn_connections := map (addressed adr) (nn_connections nn)\<rparr>) nns"
    by (auto simp: all_connections_def)
  then show ?case using a by simp
qed simp

subsection \<open>The lines of the forwarder\<close>

lemma findOffset_in: "x \<in> set us \<Longrightarrow> \<exists>i < length us. findOffset us x = Some i \<and> us ! i = x"
proof (induction us)
  case (Cons u us)
  show ?case
  proof (cases "u = x")
    case False
    with Cons obtain i where "i < length us" "findOffset us x = Some i" "us ! i = x" by auto
    then show ?thesis using False by (intro exI [of _ "Suc i"]) simp
  qed (auto intro: exI [of _ 0])
qed simp

lemma findOffset_None: "findOffset us x = None \<longleftrightarrow> x \<notin> set us"
  by (induction us) auto

lemma findOffset_append: "findOffset us x = Some i \<Longrightarrow> findOffset (us @ vs) x = Some i"
proof (induction us arbitrary: i)
  case (Cons u us)
  then show ?case by (cases "u = x"; cases "findOffset us x") (simp_all)
qed simp

lemma findOffset_last: "x \<notin> set us \<Longrightarrow> findOffset (us @ x # vs) x = Some (length us)"
  by (induction us) auto

definition mac_line :: "bstr list \<Rightarrow> connection \<Rightarrow> nat \<times> bstr \<times> bstr \<times> string" where
  "mac_line ifaces nc = (Suc (the (findOffset ifaces (nc_src_if nc))), nc_src_mac nc, nc_dst_mac nc, lid_text (nc_LID nc))"

lemma write_mac_links_ok:
  assumes "\<forall>nc \<in> set ncs. is_fid (nc_LID nc)" "distinct us"
  shows "\<exists>vs. write_mac_links False ncs us = Some (map (mac_line (us @ vs)) ncs, us @ vs) \<and>
    set (us @ vs) = set us \<union> nc_src_if ` set ncs \<and> distinct (us @ vs)"
  using assms
proof (induction ncs arbitrary: us)
  case (Cons nc ncs)
  let ?i = "nc_src_if nc"
  have lid: "bv_to_string (nc_LID nc) = Some (lid_text (nc_LID nc))" using Cons.prems(1) by (simp add: to_lid_text)
  show ?case
  proof (cases "?i \<in> set us")
    case True
    then obtain k where k: "findOffset us ?i = Some k" using findOffset_in by blast
    from Cons.IH [of us] Cons.prems obtain vs where v: "write_mac_links False ncs us = Some (map (mac_line (us @ vs)) ncs, us @ vs)"
      "set (us @ vs) = set us \<union> nc_src_if ` set ncs" "distinct (us @ vs)" by auto
    show ?thesis
      by (rule exI [of _ vs]) (use True k v lid findOffset_append [OF k, of vs] in \<open>auto simp: unique_port_def mac_line_def\<close>)
  next
    case False
    then have n: "findOffset us ?i = None" by (simp add: findOffset_None)
    from Cons.IH [of "us @ [?i]"] Cons.prems False obtain vs where v: "write_mac_links False ncs (us @ [?i]) =
        Some (map (mac_line ((us @ [?i]) @ vs)) ncs, (us @ [?i]) @ vs)"
      "set ((us @ [?i]) @ vs) = set (us @ [?i]) \<union> nc_src_if ` set ncs" "distinct ((us @ [?i]) @ vs)" by auto
    show ?thesis
      by (rule exI [of _ "?i # vs"]) (use False n v lid findOffset_last [OF False, of vs] in \<open>auto simp: unique_port_def mac_line_def\<close>)
  qed
qed simp

subsection \<open>A node that starts\<close>

text \<open>
  The elements configured with what the file says; Click's reading of an Ethernet address is a parameter.
\<close>

definition parse_links :: "(bstr \<Rightarrow> bstr option) \<Rightarrow> (nat \<times> bstr \<times> bstr \<times> string) list \<Rightarrow> link_conf list option" where
  "parse_links ether ls = all_some (map (\<lambda>(port, src, dst, lid). do {
     s \<leftarrow> ether src; d \<leftarrow> ether dst; Some \<lparr>lc_port = int port, lc_src = s, lc_dst = d, lc_lid = lid\<rparr> }) ls)"

definition start_forwarder :: "(bstr \<Rightarrow> bstr option) \<Rightarrow> node_conf \<Rightarrow> forwarder option" where
  "start_forwarder ether conf = do {
     r \<leftarrow> GlobalConf_configure (Some (cf_globalconf conf));
     gc \<leftarrow> (case r of Inr gc \<Rightarrow> Some gc | Inl _ \<Rightarrow> None);
     ls \<leftarrow> parse_links ether (cf_links conf);
     Forwarder_configure gc (int (cf_number_of_links conf)) ls
   }"

definition addresses_ok :: "(bstr \<Rightarrow> bstr option) \<Rightarrow> (bstr \<Rightarrow> bstr \<Rightarrow> bstr) \<Rightarrow> bstr set \<Rightarrow> bool" where
  "addresses_ok ether adr L \<longleftrightarrow> (\<forall>l \<in> L. \<forall>i. \<exists>a. ether (adr l i) = Some a \<and> length a = 6) \<and>
     (\<forall>l \<in> L. \<forall>l' \<in> L. \<forall>i i'. ether (adr l i) = ether (adr l' i') \<longrightarrow> l = l')"

lemma address_of: "addresses_ok ether adr L \<Longrightarrow> l \<in> L \<Longrightarrow> \<exists>a. ether (adr l i) = Some a \<and> length a = 6"
  unfolding addresses_ok_def by (drule conjunct1, drule (1) bspec, erule spec)

lemma addresses_apart: "addresses_ok ether adr L \<Longrightarrow> l \<in> L \<Longrightarrow> l' \<in> L \<Longrightarrow> ether (adr l i) = ether (adr l' i') \<Longrightarrow> l = l'"
  unfolding addresses_ok_def by (drule conjunct2, drule (1) bspec, drule (1) bspec, drule spec, drule spec, erule (1) mp)

definition wire_entry :: "(bstr \<Rightarrow> bstr option) \<Rightarrow> (bstr \<Rightarrow> bstr \<Rightarrow> bstr) \<Rightarrow> bstr list \<Rightarrow> connection \<Rightarrow> fwd_entry" where
  "wire_entry ether adr ifaces nc = \<lparr>fe_src = ether (adr (nc_src_label nc) (nc_src_if nc)), fe_dst = ether (adr (nc_dst_label nc) (nc_dst_if nc)),
     fe_src_ip = None, fe_dst_ip = None, fe_port = int (Suc (the (findOffset ifaces (nc_src_if nc)))), fe_LID = nc_LID nc\<rparr>"

lemma parse_lid_text: "is_fid v \<Longrightarrow> parse_bits (lid_text v) = Some v"
proof -
  assume v: "is_fid v"
  obtain r where r: "parse_bits (lid_text v) = Some r" "is_fid r" "\<forall>i < 256. bv_bit r i = (lid_text v ! (255 - i) = CHR ''1'')"
    using parse_bits_correct [of "lid_text v"] by auto
  have "bv_bit r i = bv_bit v i" if "i < 256" for i
    using r(3) that lid_text_facts(2) [OF that, of v] by (simp add: text_bit_def)
  then show ?thesis using fid_eq_bits [OF r(2) v] fid_eq_iff [OF r(2) v] r(1) by simp
qed

lemma addressed_entry:
  assumes "addresses_ok ether adr L" "is_fid (nc_LID nc)" "{nc_src_label nc, nc_dst_label nc} \<subseteq> L"
  shows "\<exists>l. (case mac_line ifaces (addressed adr nc) of (port, src, dst, lid) \<Rightarrow> do {
       s \<leftarrow> ether src; d \<leftarrow> ether dst; Some \<lparr>lc_port = int port, lc_src = s, lc_dst = d, lc_lid = lid\<rparr> }) = Some l \<and>
     new_fwd_entry True l = Some (wire_entry ether adr ifaces nc)"
proof -
  have "nc_src_label nc \<in> L" "nc_dst_label nc \<in> L" using assms(3) by simp_all
  then obtain a b where "ether (adr (nc_src_label nc) (nc_src_if nc)) = Some a" "ether (adr (nc_dst_label nc) (nc_dst_if nc)) = Some b"
    using address_of [OF assms(1)] by blast
  then show ?thesis using parse_lid_text [OF assms(2)]
    by (simp add: mac_line_def addressed_def new_fwd_entry_def wire_entry_def)
qed

lemma parse_all:
  assumes "addresses_ok ether adr L" "\<forall>nc \<in> set ncs. is_fid (nc_LID nc) \<and> {nc_src_label nc, nc_dst_label nc} \<subseteq> L"
  shows "\<exists>ls. parse_links ether (map (mac_line ifaces) (map (addressed adr) ncs)) = Some ls \<and> length ls = length ncs \<and>
    map (new_fwd_entry True) ls = map Some (map (wire_entry ether adr ifaces) ncs)"
  using assms(2)
proof (induction ncs)
  case (Cons nc ncs)
  then obtain ls where ls: "parse_links ether (map (mac_line ifaces) (map (addressed adr) ncs)) = Some ls" "length ls = length ncs"
    "map (new_fwd_entry True) ls = map Some (map (wire_entry ether adr ifaces) ncs)" by auto
  from addressed_entry [OF assms(1), of nc ifaces] Cons.prems obtain l where
    l: "(case mac_line ifaces (addressed adr nc) of (port, src, dst, lid) \<Rightarrow> do {
       s \<leftarrow> ether src; d \<leftarrow> ether dst; Some \<lparr>lc_port = int port, lc_src = s, lc_dst = d, lc_lid = lid\<rparr> }) = Some l"
     "new_fwd_entry True l = Some (wire_entry ether adr ifaces nc)" by auto
  have "parse_links ether (map (mac_line ifaces) (map (addressed adr) (nc # ncs))) = Some (l # ls)"
    using l(1) ls(1) unfolding parse_links_def by simp
  then show ?case using l(2) ls(2,3) by (intro exI [of _ "l # ls"]) simp
qed (simp add: parse_links_def)

text \<open>A domain that makes sense, whatever identifiers it has.\<close>

definition sound :: "(bstr \<Rightarrow> bstr \<Rightarrow> bstr) \<Rightarrow> network_node list \<Rightarrow> bool" where
  "sound adr nns \<longleftrightarrow> distinct (map nn_label nns) \<and> (\<forall>nn \<in> set nns. length (nn_label nn) = 8 \<and>
     (\<forall>nc \<in> set (nn_connections nn). nc_src_label nc = nn_label nn \<and> nc_dst_label nc \<in> nn_label ` set nns \<and> macs_given adr nc))"

definition domain_ok :: "(bstr \<Rightarrow> bstr \<Rightarrow> bstr) \<Rightarrow> domain \<Rightarrow> bool" where
  "domain_ok adr dm \<longleftrightarrow> overlay_mode dm = ''mac'' \<and> counted dm \<and> identifier_count dm \<le> 256 \<and> sound adr (network_nodes dm) \<and>
     (\<exists>i < length (network_nodes dm). RV_node dm = Some i) \<and> (\<exists>i < length (network_nodes dm). TM_node dm = Some i)"

lemma bare_fields [simp]:
  "nn_label (bare_node nn) = nn_label nn" "nn_connections (bare_node nn) = map bare_connection (nn_connections nn)"
  "nc_src_label (bare_connection nc) = nc_src_label nc" "nc_dst_label (bare_connection nc) = nc_dst_label nc"
  "macs_given adr (bare_connection nc) = macs_given adr nc" "nc_src_if (bare_connection nc) = nc_src_if nc"
  "nc_dst_if (bare_connection nc) = nc_dst_if nc"
  by (simp_all add: bare_node_def bare_connection_def macs_given_def)

lemma sound_bare: "sound adr (map bare_node nns) = sound adr nns"
  by (simp add: sound_def image_image o_def)

lemma sound_same: "map bare_node nns' = map bare_node nns \<Longrightarrow> sound adr nns' = sound adr nns"
  using sound_bare [of adr nns'] sound_bare [of adr nns] by simp

lemma sound_mapped: "sound adr nns \<Longrightarrow> mapped nns"
  by (auto simp: sound_def mapped_def all_connections_def)

definition finish :: "(bstr \<Rightarrow> bitvec) \<Rightarrow> (bstr \<Rightarrow> bitvec) \<Rightarrow> (bstr \<Rightarrow> bstr \<Rightarrow> bstr) \<Rightarrow> network_node \<Rightarrow> network_node" where
  "finish F G adr nn = nn\<lparr>nn_FID_to_RV := F (nn_label nn), nn_FID_to_TM := G (nn_label nn),
     nn_connections := map (addressed adr) (nn_connections nn)\<rparr>"

definition file_of :: "(bstr \<Rightarrow> bitvec) \<Rightarrow> (bstr \<Rightarrow> bitvec) \<Rightarrow> (bstr \<Rightarrow> bstr \<Rightarrow> bstr) \<Rightarrow> network_node \<Rightarrow> bstr list \<Rightarrow> node_conf" where
  "file_of F G adr nn vs = \<lparr>cf_globalconf = \<lparr>ca_mode = ''mac'', ca_nodeid = nn_label nn, ca_defaultrv = lid_text (F (nn_label nn)),
       ca_ilid = lid_text (nn_iLid nn), ca_tmfid = lid_text (G (nn_label nn))\<rparr>,
     cf_number_of_links = length (nn_connections nn), cf_links = map (mac_line vs) (map (addressed adr) (nn_connections nn)),
     cf_to_device = map (\<lambda>j. (j + 1, Interface (vs ! j))) [0..<length vs],
     cf_from_device = map (\<lambda>j. (Interface (vs ! j), j + 1)) [0..<length vs], cf_priorities = None\<rparr>"

lemma addressed_fields [simp]: "nc_LID (addressed adr nc) = nc_LID nc" "nc_src_if (addressed adr nc) = nc_src_if nc"
  "nc_dst_if (addressed adr nc) = nc_dst_if nc" "nc_src_label (addressed adr nc) = nc_src_label nc" "nc_dst_label (addressed adr nc) = nc_dst_label nc"
  by (simp_all add: addressed_def)

lemma finish_fields [simp]: "nn_label (finish F G adr nn) = nn_label nn" "nn_iLid (finish F G adr nn) = nn_iLid nn"
  "nn_connections (finish F G adr nn) = map (addressed adr) (nn_connections nn)"
  "nn_FID_to_RV (finish F G adr nn) = F (nn_label nn)" "nn_FID_to_TM (finish F G adr nn) = G (nn_label nn)"
  by (simp_all add: finish_def)

lemma writeClickFile_ok:
  assumes "overlay_mode dm = ''mac''" "is_fid (F (nn_label nn))" "is_fid (G (nn_label nn))" "is_fid (nn_iLid nn)" "\<forall>nc \<in> set (nn_connections nn). is_fid (nc_LID nc)"
  shows "\<exists>vs. writeClickFile dm (finish F G adr nn) = Some (file_of F G adr nn vs) \<and> distinct vs \<and> set vs = nc_src_if ` set (nn_connections nn)"
proof -
  from write_mac_links_ok [of "map (addressed adr) (nn_connections nn)" "[]"] assms(5) obtain vs where
    v: "write_mac_links False (map (addressed adr) (nn_connections nn)) [] = Some (map (mac_line vs) (map (addressed adr) (nn_connections nn)), vs)"
    "set vs = nc_src_if ` set (nn_connections nn)" "distinct vs" by (auto simp: image_image)
  have "writeClickFile dm (finish F G adr nn) = Some (file_of F G adr nn vs)"
    using assms(1-4) v(1) by (simp add: writeClickFile_def write_globalconf_def to_lid_text multilayer_def file_of_def)
  then show ?thesis using v(2,3) by blast
qed

lemma multilayer_nodes [simp]: "multilayer (dm\<lparr>network_nodes := x\<rparr>) = multilayer dm"
  by (simp add: multilayer_def)

lemma calculateFID_nodes [simp]: "domain_calculateFID lib (dm\<lparr>network_nodes := x\<rparr>) = domain_calculateFID lib dm"
  by (intro ext) (unfold domain_calculateFID_def multilayer_nodes, simp)

lemma all_fids:
  assumes "\<forall>nn \<in> set nns. calc (nn_label nn) = Some (F (nn_label nn))"
  shows "all_some (map (\<lambda>nn. map_option (f nn) (calc (nn_label nn))) nns) = Some (map (\<lambda>nn. f nn (F (nn_label nn))) nns)"
  by (rule all_some_map_conv) (use assms in simp)

lemma labels_finish: "nn_label ` set (map f nns) = nn_label ` set nns" if "\<And>nn. nn_label (f nn) = nn_label nn"
  using that by (auto simp: image_image)

text \<open>What a deployment comes to: the domain with its identifiers, its graph, and the files.\<close>

definition deployed :: "igraph_lib \<Rightarrow> (bstr \<Rightarrow> bstr \<Rightarrow> bstr) \<Rightarrow> network_node list \<Rightarrow> bstr \<Rightarrow> bstr \<Rightarrow> topology \<Rightarrow> (bstr \<Rightarrow> bitvec) \<Rightarrow> (bstr \<Rightarrow> bitvec) \<Rightarrow> bool" where
  "deployed lib adr nns rv tm tp F G \<longleftrightarrow> sound adr nns \<and> labelled nns \<and> own_bits nns \<and> built nns tp \<and>
     (\<forall>l \<in> nn_label ` set nns. route_fid (igraph_of lib tp) l rv (F l) \<and> route_fid (igraph_of lib tp) l tm (G l))"

definition written :: "(bstr \<Rightarrow> bitvec) \<Rightarrow> (bstr \<Rightarrow> bitvec) \<Rightarrow> (bstr \<Rightarrow> bstr \<Rightarrow> bstr) \<Rightarrow> network_node \<Rightarrow> node_conf \<Rightarrow> bool" where
  "written F G adr nn conf \<longleftrightarrow> (\<exists>vs. conf = file_of F G adr nn vs \<and> distinct vs \<and> set vs = nc_src_if ` set (nn_connections nn))"

lemma connection_of_node:
  assumes "sound adr nns" "nc \<in> set (all_connections nns)"
  shows "\<exists>nn \<in> set nns. nc \<in> set (nn_connections nn) \<and> nc_src_label nc = nn_label nn"
    "\<exists>nn \<in> set nns. nc_dst_label nc = nn_label nn" "length (nc_src_label nc) = 8" "length (nc_dst_label nc) = 8" "macs_given adr nc"
proof -
  obtain nn where nn: "nn \<in> set nns" "nc \<in> set (nn_connections nn)" using assms(2) by (auto simp: all_connections_def)
  have s: "length (nn_label nn) = 8" "nc_src_label nc = nn_label nn" "nc_dst_label nc \<in> nn_label ` set nns" "macs_given adr nc"
    using assms(1) nn by (auto simp: sound_def)
  then show "\<exists>nn \<in> set nns. nc \<in> set (nn_connections nn) \<and> nc_src_label nc = nn_label nn" "length (nc_src_label nc) = 8" "macs_given adr nc"
    using nn by auto
  obtain nn' where "nn' \<in> set nns" "nc_dst_label nc = nn_label nn'" using s(3) by blast
  then show "\<exists>nn \<in> set nns. nc_dst_label nc = nn_label nn" "length (nc_dst_label nc) = 8" using assms(1) by (auto simp: sound_def)
qed

lemma own_bits_labelled: "own_bits nns \<Longrightarrow> sound adr nns \<Longrightarrow> labelled nns"
  unfolding labelled_def
proof (intro ballI conjI)
  fix nn assume a: "own_bits nns" "sound adr nns" "nn \<in> set nns"
  have fid: "is_fid l" if "l \<in> set (node_lids False nn)" for l
  proof -
    have "l \<in> set (concat (map (node_lids False) nns))" using that a(3) by (simp only: set_concat set_map) blast
    then obtain k where "l = one_bit k" using own_bits_one [OF a(1)] by blast
    then show ?thesis using one_bit_fid by simp
  qed
  show "is_fid (nn_iLid nn)" by (rule fid) simp
  fix nc assume nc: "nc \<in> set (nn_connections nn)"
  show "is_fid (nc_LID nc)" by (rule fid) (use nc in simp)
  show "nc_src_label nc = nn_label nn" using a(2,3) nc by (simp add: sound_def)
qed

lemma fids_ok:
  assumes "built nns tp" "igraph_law lib tp" "dm_fid_len dm = 32" "\<not> multilayer dm" "to \<in> nn_label ` set nns"
  shows "\<exists>F. \<forall>l \<in> nn_label ` set nns. domain_calculateFID lib dm tp l to = Some (F l) \<and> route_fid (igraph_of lib tp) l to (F l)"
  by (rule bchoice) (use domain_fid_ok [OF assms(1-4) _ assms(5)] in blast)

lemma write_all:
  assumes "overlay_mode dm = ''mac''" "labelled nns" "\<forall>nn \<in> set nns. is_fid (F (nn_label nn)) \<and> is_fid (G (nn_label nn))"
  shows "\<exists>confs. all_some (map (writeClickFile dm) (map (finish F G adr) nns)) = Some confs \<and> list_all2 (written F G adr) nns confs"
  using assms(2,3)
proof (induction nns)
  case (Cons nn nns)
  then have n: "is_fid (F (nn_label nn))" "is_fid (G (nn_label nn))" "is_fid (nn_iLid nn)" "\<forall>nc \<in> set (nn_connections nn). is_fid (nc_LID nc)"
    by (simp_all add: labelled_def)
  from writeClickFile_ok [OF assms(1), of F nn G adr, OF n] obtain vs where
    "writeClickFile dm (finish F G adr nn) = Some (file_of F G adr nn vs)" "distinct vs" "set vs = nc_src_if ` set (nn_connections nn)" by blast
  then have "writeClickFile dm (finish F G adr nn) = Some (file_of F G adr nn vs)" "written F G adr nn (file_of F G adr nn vs)"
    unfolding written_def by blast+
  moreover from Cons obtain confs where "all_some (map (writeClickFile dm) (map (finish F G adr) nns)) = Some confs" "list_all2 (written F G adr) nns confs"
    by (auto simp: labelled_def)
  ultimately show ?case by auto
qed simp

lemma deploy_ok:
  assumes "domain_ok adr dm" "fair rnd" "\<forall>l i. ask l i = Some (adr l i)" "\<forall>tp. igraph_law lib tp"
    and "RV_node dm = Some rv" "TM_node dm = Some tm"
  shows "\<exists>nns tp F G confs. deploy False rnd lib ask dm = Some (dm\<lparr>network_nodes := map (finish F G adr) nns\<rparr>, tp, confs) \<and>
    map bare_node nns = map bare_node (network_nodes dm) \<and>
    deployed lib adr nns (nn_label (network_nodes dm ! rv)) (nn_label (network_nodes dm ! tm)) tp F G \<and>
    list_all2 (written F G adr) nns confs"
proof -
  let ?nns = "network_nodes dm"
  have d: "overlay_mode dm = ''mac''" "counted dm" "identifier_count dm \<le> 256" "sound adr ?nns" "rv < length ?nns" "tm < length ?nns"
    using assms(1,5,6) unfolding domain_ok_def by auto
  have m: "\<not> multilayer dm" "multilayer dm = False" using d(1) by (simp_all add: multilayer_def)
  from identifiers_are_distinct_aux [OF assms(2) d(2,3)] obtain nns ks where
    a: "assignLIDs rnd dm = Some (dm\<lparr>network_nodes := nns\<rparr>)" "map bare_node nns = map bare_node ?nns" and
    ks: "concat (map (node_lids False) nns) = map one_bit ks" "distinct ks" "set ks \<subseteq> {..<256}" unfolding m(2) by blast
  have own: "own_bits nns" unfolding own_bits_def using ks by blast
  have s: "sound adr nns" using sound_same [OF a(2)] d(4) by simp
  note lab = own_bits_labelled [OF own s]
  let ?dm = "dm\<lparr>network_nodes := nns\<rparr>"
  from build_ok [of ?dm] lab sound_mapped [OF s] m(1) obtain tp where tp: "buildIGraphTopology ?dm = Some tp" "built nns tp" by auto
  have labs: "map nn_label nns = map nn_label ?nns" using arg_cong [OF a(2), of "map nn_label"] by (simp add: o_def)
  have len: "length nns = length ?nns" using arg_cong [OF labs, of length] by simp
  have at: "nn_label (nns ! i) = nn_label (?nns ! i)" if "i < length ?nns" for i
    using arg_cong [OF labs, of "\<lambda>xs. xs ! i"] that len by simp
  let ?rv = "nn_label (?nns ! rv)" and ?tm = "nn_label (?nns ! tm)"
  have mem: "?rv \<in> nn_label ` set nns" "?tm \<in> nn_label ` set nns"
    using at [OF d(5)] at [OF d(6)] d(5,6) len by (metis image_eqI nth_mem)+
  have law: "igraph_law lib tp" using assms(4) by blast
  have fl: "dm_fid_len dm = 32" using d(2) by (simp add: counted_def)
  from fids_ok [OF tp(2) law fl m(1) mem(1)] obtain F where
    F: "\<forall>l \<in> nn_label ` set nns. domain_calculateFID lib dm tp l ?rv = Some (F l) \<and> route_fid (igraph_of lib tp) l ?rv (F l)" by blast
  from fids_ok [OF tp(2) law fl m(1) mem(2)] obtain G where
    G: "\<forall>l \<in> nn_label ` set nns. domain_calculateFID lib dm tp l ?tm = Some (G l) \<and> route_fid (igraph_of lib tp) l ?tm (G l)" by blast
  let ?nns1 = "map (\<lambda>nn. nn\<lparr>nn_FID_to_RV := F (nn_label nn)\<rparr>) nns"
  have r1: "role_label ?dm (RV_node ?dm) = Some ?rv" using assms(5) d(5) len at [OF d(5)] by (simp add: role_label_def)
  have rv: "calculateRVFIDs lib tp ?dm = Some (dm\<lparr>network_nodes := ?nns1\<rparr>)"
    unfolding calculateRVFIDs_def r1 using F all_fids [of nns "\<lambda>l. domain_calculateFID lib dm tp l ?rv" F "\<lambda>nn fid. nn\<lparr>nn_FID_to_RV := fid\<rparr>"] by simp
  let ?nns2 = "map (\<lambda>nn. nn\<lparr>nn_FID_to_TM := G (nn_label nn)\<rparr>) ?nns1"
  have r2: "role_label (dm\<lparr>network_nodes := ?nns1\<rparr>) (TM_node (dm\<lparr>network_nodes := ?nns1\<rparr>)) = Some ?tm"
    using assms(6) d(6) len at [OF d(6)] by (simp add: role_label_def)
  have tm: "calculateTMFIDs lib tp (dm\<lparr>network_nodes := ?nns1\<rparr>) = Some (dm\<lparr>network_nodes := ?nns2\<rparr>)"
    unfolding calculateTMFIDs_def r2 using G all_fids [of ?nns1 "\<lambda>l. domain_calculateFID lib dm tp l ?tm" G "\<lambda>nn fid. nn\<lparr>nn_FID_to_TM := fid\<rparr>"] by simp
  have c2: "all_connections ?nns2 = all_connections nns" by (simp add: all_connections_def o_def)
  have len8: "length (nc_src_label nc) = 8 \<and> length (nc_dst_label nc) = 8 \<and> macs_given adr nc" if "nc \<in> set (all_connections nns)" for nc
    using connection_of_node [OF s that] by auto
  have "discover_nodes False ask ''mac'' ?nns2 [] = map (\<lambda>nn. nn\<lparr>nn_connections := map (addressed adr) (nn_connections nn)\<rparr>) ?nns2"
    by (rule discover_nodes_ok [OF _ _ assms(3)]) (use len8 c2 in \<open>auto simp: learnt_def\<close>)
  then have disc: "discoverMacAddresses False ask (dm\<lparr>network_nodes := ?nns2\<rparr>) = dm\<lparr>network_nodes := map (finish F G adr) nns\<rparr>"
    by (simp add: discoverMacAddresses_def d(1) finish_def o_def)
  have fid: "\<forall>nn \<in> set nns. is_fid (F (nn_label nn)) \<and> is_fid (G (nn_label nn))" using F G by (simp add: route_fid_def)
  from write_all [of "dm\<lparr>network_nodes := map (finish F G adr) nns\<rparr>" nns F G adr, OF _ lab fid] d(1) obtain confs where
    w: "writeClickFiles (dm\<lparr>network_nodes := map (finish F G adr) nns\<rparr>) = Some confs" "list_all2 (written F G adr) nns confs"
    by (auto simp: writeClickFiles_def)
  have "deploy False rnd lib ask dm = Some (dm\<lparr>network_nodes := map (finish F G adr) nns\<rparr>, tp, confs)"
    by (simp add: deploy_def a(1) tp(1) rv tm disc w(1) Let_def del: map_map)
  moreover have "deployed lib adr nns ?rv ?tm tp F G" using s lab own tp(2) F G by (simp add: deployed_def)
  ultimately show ?thesis using a(2) w(2) by blast
qed

subsection \<open>Where packets with these identifiers go\<close>

text \<open>The connections of a route, and the bits of the identifier that was made for it.\<close>

lemma path_edges_in:
  assumes "igraph_law lib tp" "along (tp_edges tp) p" "e \<in> set (path_edges (igraph_of lib tp) p)"
  shows "e < length (tp_edges tp)"
  using assms(2,3)
proof (induction p rule: induct_list012)
  case (3 u v vs)
  then obtain e' where e': "get_eid lib tp u v = Some e'" "e' < length (tp_edges tp)" using assms(1) unfolding igraph_law_def by fastforce
  then show ?case using 3 by (auto simp: igraph_of_def)
qed simp_all

lemma built_lids:
  assumes "built nns tp" "e < length (all_connections nns)" "i < 256"
  shows "text_bit (tp_LID tp ! e) i = bv_bit (nc_LID (all_connections nns ! e)) i"
  using assms by (simp add: built_def graph_of_def)

definition way_of :: "igraph_lib \<Rightarrow> topology \<Rightarrow> bstr \<Rightarrow> bstr \<Rightarrow> nat list" where
  "way_of lib tp l to = path_edges (igraph_of lib tp) (route (igraph_of lib tp) l to)"

lemma label_known: "built nns tp \<Longrightarrow> l \<in> nn_label ` set nns \<Longrightarrow> l \<in> set (tp_NODEID tp)"
  by (simp add: built_def)

lemma route_path:
  assumes "built nns tp" "l \<in> nn_label ` set nns" "to \<in> nn_label ` set nns"
  shows "route (igraph_of lib tp) l to = get_shortest_paths lib tp (vertex_of tp l) (vertex_of tp to)"
  unfolding route_def vertex_same [OF assms(1) label_known [OF assms(1,2)]] vertex_same [OF assms(1) label_known [OF assms(1,3)]]
  by (simp add: igraph_of_def)

lemma way_in:
  assumes "built nns tp" "igraph_law lib tp" "l \<in> nn_label ` set nns" "to \<in> nn_label ` set nns" "e \<in> set (way_of lib tp l to)"
  shows "e < length (all_connections nns)"
proof -
  have i: "index_ok tp" using built_facts(1) [OF assms(1)] .
  note v = index_known [OF i label_known [OF assms(1,3)]] index_known [OF i label_known [OF assms(1,4)]]
  have "along (tp_edges tp) (get_shortest_paths lib tp (vertex_of tp l) (vertex_of tp to))"
    by (rule law_path(3) [OF assms(2)]) (use v in blast)+
  from path_edges_in [OF assms(2) this] assms(5) have "e < length (tp_edges tp)"
    unfolding way_of_def route_path [OF assms(1,3,4)] by blast
  then show ?thesis using assms(1) by (simp add: built_def graph_of_def)
qed

definition way_lids :: "network_node list \<Rightarrow> nat list \<Rightarrow> bstr \<Rightarrow> bitvec set" where
  "way_lids nns es to = (\<lambda>e. nc_LID (all_connections nns ! e)) ` set es \<union> {nn_iLid nn | nn. nn \<in> set nns \<and> nn_label nn = to}"

lemma fid_of_way:
  assumes "built nns tp" "igraph_law lib tp" "l \<in> nn_label ` set nns" "to \<in> nn_label ` set nns" "distinct (map nn_label nns)"
    and "route_fid (igraph_of lib tp) l to f"
  shows "\<forall>i < 256. bv_bit f i \<longleftrightarrow> (\<exists>x \<in> way_lids nns (way_of lib tp l to) to. bv_bit x i)"
proof (intro allI impI)
  fix i :: nat assume i: "i < 256"
  obtain nn where nn: "nn \<in> set nns" "nn_label nn = to" using assms(4) by blast
  have uniq: "nn' = nn" if "nn' \<in> set nns" "nn_label nn' = to" for nn'
    using inj_onD [OF distinct_map [THEN iffD1, OF assms(5), THEN conjunct2]] that nn by metis
  have only: "{nn_iLid nn' | nn'. nn' \<in> set nns \<and> nn_label nn' = to} = {nn_iLid nn}" using nn uniq by blast
  have il: "tp_iLID tp ! vertex_of tp to = lid_text (nn_iLid nn)" using assms(1) nn unfolding built_def by blast
  have "bv_bit f i \<longleftrightarrow> route_bits (igraph_of lib tp) l to i" using assms(6) i by (simp add: route_fid_def)
  also have "\<dots> \<longleftrightarrow> (\<exists>e \<in> set (way_of lib tp l to). text_bit (tp_LID tp ! e) i) \<or> text_bit (tp_iLID tp ! vertex_of tp to) i"
    using vertex_same [OF assms(1) label_known [OF assms(1,4)], of lib] by (simp add: route_bits_def way_of_def) (simp add: igraph_of_def)
  also have "\<dots> \<longleftrightarrow> (\<exists>e \<in> set (way_of lib tp l to). bv_bit (nc_LID (all_connections nns ! e)) i) \<or> bv_bit (nn_iLid nn) i"
    using built_lids [OF assms(1) way_in [OF assms(1-4)] i] i by (simp add: il)
  also have "\<dots> \<longleftrightarrow> (\<exists>x \<in> way_lids nns (way_of lib tp l to) to. bv_bit x i)" unfolding way_lids_def only by auto
  finally show "bv_bit f i \<longleftrightarrow> (\<exists>x \<in> way_lids nns (way_of lib tp l to) to. bv_bit x i)" .
qed

lemma lids_in_concat: "set (concat (map (node_lids False) nns)) = nn_iLid ` set nns \<union> nc_LID ` set (all_connections nns)"
  by (auto simp: all_connections_def)

lemma lids_apart:
  assumes "own_bits nns" "nn \<in> set nns"
  shows "nn_iLid nn \<notin> nc_LID ` set (all_connections nns)" "nn' \<in> set nns \<Longrightarrow> nn_iLid nn' = nn_iLid nn \<longleftrightarrow> nn' = nn"
proof -
  obtain xs ys where s: "nns = xs @ nn # ys" using assms(2) by (auto dest: split_list)
  have d: "distinct (concat (map (node_lids False) (xs @ nn # ys)))" using own_bits_distinct [OF assms(1)] unfolding s .
  then show "nn_iLid nn \<notin> nc_LID ` set (all_connections nns)" unfolding s all_connections_def by auto
  show "nn' \<in> set nns \<Longrightarrow> nn_iLid nn' = nn_iLid nn \<longleftrightarrow> nn' = nn" using d unfolding s by auto
qed

lemma distinct_lids: "own_bits nns \<Longrightarrow> distinct (map nc_LID (all_connections nns))"
proof -
  assume "own_bits nns"
  then have "distinct (concat (map (node_lids False) nns))" by (rule own_bits_distinct)
  then show ?thesis
  proof (induction nns)
    case (Cons nn nns)
    then have "distinct (node_lids False nn @ concat (map (node_lids False) nns))" by (simp only: list.map concat.simps)
    then have d: "distinct (node_lids False nn)" "distinct (concat (map (node_lids False) nns))"
      "set (node_lids False nn) \<inter> set (concat (map (node_lids False) nns)) = {}" by (simp_all only: distinct_append)
    have "nc_LID ` set (nn_connections nn) \<inter> nc_LID ` set (all_connections nns) = {}"
      using d(3) unfolding lids_in_concat by auto
    moreover have "all_connections (nn # nns) = nn_connections nn @ all_connections nns" by (simp add: all_connections_def)
    ultimately show ?case using d(1) Cons.IH [OF d(2)] by simp
  qed (simp add: all_connections_def)
qed

lemma exact_way:
  assumes "own_bits nns" "built nns tp" "igraph_law lib tp" "distinct (map nn_label nns)" "l \<in> nn_label ` set nns" "to \<in> nn_label ` set nns"
    and "route_fid (igraph_of lib tp) l to f"
  shows "e < length (all_connections nns) \<Longrightarrow> lid_in_fid (nc_LID (all_connections nns ! e)) f \<longleftrightarrow> e \<in> set (way_of lib tp l to)"
    and "nn \<in> set nns \<Longrightarrow> lid_in_fid (nn_iLid nn) f \<longleftrightarrow> nn_label nn = to"
proof -
  let ?L = "way_lids nns (way_of lib tp l to) to"
  have fid: "is_fid f" using assms(7) by (simp add: route_fid_def)
  note w = way_in [OF assms(2,3,5,6)]
  have sub: "?L \<subseteq> set (concat (map (node_lids False) nns))" using w unfolding way_lids_def lids_in_concat by auto
  have iff: "x \<in> set (concat (map (node_lids False) nns)) \<Longrightarrow> lid_in_fid x f \<longleftrightarrow> x \<in> ?L" for x
    by (rule own_bits_contained [OF assms(1) _ fid sub fid_of_way [OF assms(2,3,5,6,4,7)]])
  note apart = lids_apart [OF assms(1)]
  {
    assume e: "e < length (all_connections nns)"
    let ?x = "nc_LID (all_connections nns ! e)"
    have m: "?x \<in> nc_LID ` set (all_connections nns)" using e by simp
    have na: "?x \<noteq> nn_iLid nn" if "nn \<in> set nns" for nn using apart(1) [OF that] m by auto
    have "?x \<in> ?L \<longleftrightarrow> (\<exists>e' \<in> set (way_of lib tp l to). ?x = nc_LID (all_connections nns ! e'))"
      using na unfolding way_lids_def by auto
    also have "\<dots> \<longleftrightarrow> e \<in> set (way_of lib tp l to)"
    proof
      assume "\<exists>e' \<in> set (way_of lib tp l to). ?x = nc_LID (all_connections nns ! e')"
      then obtain e' where e': "e' \<in> set (way_of lib tp l to)" "?x = nc_LID (all_connections nns ! e')" by blast
      then have "e = e'" using nth_eq_iff_index_eq [OF distinct_lids [OF assms(1)], of e e'] e w [OF e'(1)] by simp
      then show "e \<in> set (way_of lib tp l to)" using e'(1) by simp
    qed blast
    finally show "lid_in_fid ?x f \<longleftrightarrow> e \<in> set (way_of lib tp l to)" using iff m unfolding lids_in_concat by blast
  }
  assume nn: "nn \<in> set nns"
  have "nn_iLid nn \<in> ?L \<longleftrightarrow> nn_label nn = to"
  proof -
    have "nn_iLid nn \<noteq> nc_LID (all_connections nns ! e)" if "e \<in> set (way_of lib tp l to)" for e
      using apart(1) [OF nn] w [OF that] by (metis image_eqI nth_mem)
    note na = this
    show ?thesis
    proof
      assume "nn_iLid nn \<in> ?L"
      then obtain nn' where "nn' \<in> set nns" "nn_label nn' = to" "nn_iLid nn' = nn_iLid nn" unfolding way_lids_def using na by auto
      then show "nn_label nn = to" using apart(2) [OF nn, of nn'] by simp
    qed (use nn in \<open>auto simp: way_lids_def\<close>)
  qed
  then show "lid_in_fid (nn_iLid nn) f \<longleftrightarrow> nn_label nn = to" using iff nn unfolding lids_in_concat by blast
qed

lemma deployed_size:
  assumes "built nns tp" "distinct (map nn_label nns)"
  shows "length (tp_NODEID tp) = length nns"
proof -
  have "length (tp_NODEID tp) = card (set (tp_NODEID tp))" using distinct_card [OF built_facts(4) [OF assms(1)]] by simp
  also have "\<dots> = card (set (map nn_label nns))" using assms(1) by (simp add: built_def)
  finally show ?thesis using distinct_card [OF assms(2)] by simp
qed

lemma same_length: "map bare_node nns = map bare_node nns' \<Longrightarrow> length nns = length nns'"
  by (metis length_map)

lemma nodes_counted: "length (network_nodes dm) \<le> identifier_count dm" if "\<not> multilayer dm"
proof -
  have "length nns \<le> length (concat (map (node_lids False) nns))" for nns :: "network_node list" by (induction nns) auto
  then show ?thesis using that by (simp add: identifier_count_def)
qed

lemma finish_lids: "map nc_LID (all_connections (map (finish F G adr) nns)) = map nc_LID (all_connections nns)"
  by (induction nns) (auto simp: all_connections_def)

lemma nth_finish_lid: "e < length (all_connections nns) \<Longrightarrow>
    nc_LID (all_connections (map (finish F G adr) nns) ! e) = nc_LID (all_connections nns ! e)"
  using arg_cong [OF finish_lids [of F G adr nns], of "\<lambda>xs. xs ! e"] arg_cong [OF finish_lids [of F G adr nns], of length] by simp

text \<open>The node with a role, and the links and nodes an identifier names.\<close>

definition leads_exactly :: "igraph_lib \<Rightarrow> topology \<Rightarrow> network_node list \<Rightarrow> bitvec \<Rightarrow> bstr \<Rightarrow> bstr \<Rightarrow> bool" where
  "leads_exactly lib tp nns fid source destination \<longleftrightarrow>
     (\<forall>e < length (all_connections nns). lid_in_fid (nc_LID (all_connections nns ! e)) fid \<longleftrightarrow> e \<in> set (way_of lib tp source destination)) \<and>
     (\<forall>nn \<in> set nns. lid_in_fid (nn_iLid nn) fid \<longleftrightarrow> nn_label nn = destination)"

lemma leads_finish: "leads_exactly lib tp (map (finish F G adr) nns) = leads_exactly lib tp nns"
  using nth_finish_lid [of _ nns F G adr] arg_cong [OF finish_lids [of F G adr nns], of length]
  by (simp add: fun_eq_iff leads_exactly_def)

text \<open>
  C15. The identifiers a deployment writes lead exactly where they should. For a domain that makes sense, in
  mac mode with at most 256 links and nodes, the deployment ends with a file for every node and a
  topology the topology manager can work with; and every node's identifier to the rendezvous node (and to the
  topology manager) contains the identifiers of the links of the shortest route and of no other link of the
  network, and the internal identifier of that node and of no other.
\<close>

theorem default_identifiers_lead_exactly:
  assumes "domain_ok adr dm" and "fair rnd" and "\<forall>l i. ask l i = Some (adr l i)" and "\<forall>tp. igraph_law lib tp"
    and "RV_node dm = Some rv" and "TM_node dm = Some tm"
  shows "\<exists>nns tp confs. deploy False rnd lib ask dm = Some (dm\<lparr>network_nodes := nns\<rparr>, tp, confs) \<and>
    length confs = length (network_nodes dm) \<and> topology_ok (igraph_of lib tp) \<and>
    (\<forall>nn \<in> set nns. leads_exactly lib tp nns (nn_FID_to_RV nn) (nn_label nn) (nn_label (network_nodes dm ! rv)) \<and>
       leads_exactly lib tp nns (nn_FID_to_TM nn) (nn_label nn) (nn_label (network_nodes dm ! tm)))"
proof -
  let ?rv = "nn_label (network_nodes dm ! rv)" and ?tm = "nn_label (network_nodes dm ! tm)"
  from deploy_ok [OF assms] obtain nns tp F G confs where
    d: "deploy False rnd lib ask dm = Some (dm\<lparr>network_nodes := map (finish F G adr) nns\<rparr>, tp, confs)"
    "map bare_node nns = map bare_node (network_nodes dm)" and
    p: "deployed lib adr nns ?rv ?tm tp F G" and w: "list_all2 (written F G adr) nns confs" by blast
  have law: "igraph_law lib tp" using assms(4) by blast
  from p have q: "sound adr nns" "own_bits nns" "built nns tp"
    "\<forall>l \<in> nn_label ` set nns. route_fid (igraph_of lib tp) l ?rv (F l) \<and> route_fid (igraph_of lib tp) l ?tm (G l)"
    unfolding deployed_def by blast+
  have dl: "distinct (map nn_label nns)" "\<forall>nn \<in> set nns. length (nn_label nn) = 8" using q(1) by (simp_all add: sound_def)
  have m: "\<not> multilayer dm" "identifier_count dm \<le> 256" using assms(1) by (simp_all add: domain_ok_def multilayer_def)
  have n: "length nns = length (network_nodes dm)" by (rule same_length [OF d(2)])
  have "length (tp_NODEID tp) < UINT_MAX" using deployed_size [OF q(3) dl(1)] nodes_counted [OF m(1)] m(2) n by simp
  from deployed_topology [OF q(3) law dl(2) this] have top: "topology_ok (igraph_of lib tp)" .
  have labs: "map nn_label nns = map nn_label (network_nodes dm)" using arg_cong [OF d(2), of "map nn_label"] by (simp add: o_def)
  have "rv < length (network_nodes dm)" "tm < length (network_nodes dm)" using assms(1,5,6) unfolding domain_ok_def by auto
  then have mem: "?rv \<in> nn_label ` set nns" "?tm \<in> nn_label ` set nns"
    unfolding set_map [symmetric] labs by simp_all
  have ex: "leads_exactly lib tp nns f l to"
    if "l \<in> nn_label ` set nns" "to \<in> nn_label ` set nns" "route_fid (igraph_of lib tp) l to f" for l to f
    unfolding leads_exactly_def using exact_way [OF q(2,3) law dl(1) that] by blast
  have "leads_exactly lib tp (map (finish F G adr) nns) (nn_FID_to_RV nn) (nn_label nn) ?rv \<and>
      leads_exactly lib tp (map (finish F G adr) nns) (nn_FID_to_TM nn) (nn_label nn) ?tm"
    if "nn \<in> set (map (finish F G adr) nns)" for nn
  proof -
    from that obtain n0 where n0: "n0 \<in> set nns" "nn = finish F G adr n0" by auto
    then have l: "nn_label n0 \<in> nn_label ` set nns" by blast
    show ?thesis unfolding leads_finish n0(2) finish_fields using ex [OF l mem(1)] ex [OF l mem(2)] q(4) l by blast
  qed
  then show ?thesis using d(1) top list_all2_lengthD [OF w] n
    by (intro exI [of _ "map (finish F G adr) nns"] exI [of _ tp] exI [of _ confs]) simp
qed

subsection \<open>The nodes at work\<close>

lemma start_ok:
  assumes "written F G adr nn conf" "addresses_ok ether adr L" "is_fid (F (nn_label nn))" "is_fid (G (nn_label nn))" "is_fid (nn_iLid nn)"
    and "\<forall>nc \<in> set (nn_connections nn). is_fid (nc_LID nc) \<and> {nc_src_label nc, nc_dst_label nc} \<subseteq> L" "length (nn_label nn) = 8"
  shows "\<exists>fw vs. start_forwarder ether conf = Some fw \<and> fw_wf fw \<and> use_mac (fw_gc fw) \<and> nodeID (fw_gc fw) = nn_label nn \<and>
    defaultRV_dl (fw_gc fw) = F (nn_label nn) \<and> TMFID (fw_gc fw) = G (nn_label nn) \<and> iLID (fw_gc fw) = nn_iLid nn \<and>
    fwTable fw = map (wire_entry ether adr vs) (nn_connections nn) \<and> conf = file_of F G adr nn vs \<and> distinct vs \<and>
    set vs = nc_src_if ` set (nn_connections nn)"
proof -
  from assms(1) obtain vs where vs: "conf = file_of F G adr nn vs" "distinct vs" "set vs = nc_src_if ` set (nn_connections nn)"
    unfolding written_def by blast
  have ca: "conf_args_ok (cf_globalconf conf)" using assms(7) by (simp add: vs(1) file_of_def conf_args_ok_def)
  have t: "lid_text v \<noteq> []" for v by (simp add: lid_text_def)
  from GlobalConf_configure_ok [OF ca] obtain gc where
    gc: "GlobalConf_configure (Some (cf_globalconf conf)) = Some (Inr gc)" "gc_wf gc" "nodeID gc = nn_label nn" "use_mac gc"
    "defaultRV_dl gc = F (nn_label nn)" "TMFID gc = G (nn_label nn)" "iLID gc = nn_iLid nn"
    using parse_lid_text assms(3-5) t by (auto simp: vs(1) file_of_def)
  from parse_all [OF assms(2,6), of vs] obtain ls where
    ls: "parse_links ether (cf_links conf) = Some ls" "length ls = length (nn_connections nn)"
    "map (new_fwd_entry True) ls = map Some (map (wire_entry ether adr vs) (nn_connections nn))"
    by (auto simp: vs(1) file_of_def)
  let ?tbl = "map (wire_entry ether adr vs) (nn_connections nn)"
  have tbl: "all_some (map (new_fwd_entry True) ls) = Some ?tbl" unfolding all_some_Some_iff by (rule ls(3))
  have c: "cf_number_of_links conf = length ls" using ls(2) by (simp add: vs(1) file_of_def)
  let ?fw = "\<lparr>fw_gc = gc, fw_id = 0, fw_proto_type = [0x08, 0x0a], fw_number_of_links = int (length ls), fwTable = ?tbl, fw_out = []\<rparr>"
  have "start_forwarder ether conf = Some ?fw"
    using gc(1,4) ls(1) tbl by (simp add: start_forwarder_def Forwarder_configure_def c)
  moreover have "entry_wf True (wire_entry ether adr vs nc)" if "nc \<in> set (nn_connections nn)" for nc
  proof -
    have "nc_src_label nc \<in> L" "nc_dst_label nc \<in> L" using assms(6) that by simp_all
    then obtain a b where "ether (adr (nc_src_label nc) (nc_src_if nc)) = Some a" "length a = 6"
      "ether (adr (nc_dst_label nc) (nc_dst_if nc)) = Some b" "length b = 6" using address_of [OF assms(2)] by blast
    then show ?thesis using assms(6) that by (simp add: entry_wf_def wire_entry_def addr_ok_def)
  qed
  then have "fw_wf ?fw" using gc(2,4) by (auto simp: fw_wf_def)
  ultimately show ?thesis using gc vs by (intro exI [of _ ?fw] exI [of _ vs]) simp
qed

text \<open>
  What is wired to what. A packet a node puts out on the port of one of its links leaves by the device
  the file has behind the port, and enters the node at the other end on the port that its file has
  behind the device there.
\<close>

definition started :: "(bstr \<Rightarrow> bstr option) \<Rightarrow> network_node list \<Rightarrow> node_conf list \<Rightarrow> bstr \<Rightarrow> forwarder \<Rightarrow> bool" where
  "started ether nns confs l fw \<longleftrightarrow> (\<exists>i < length nns. nn_label (nns ! i) = l \<and> start_forwarder ether (confs ! i) = Some fw)"

definition link_to :: "network_node list \<Rightarrow> node_conf list \<Rightarrow> fwd_entry \<Rightarrow> nat \<Rightarrow> bstr \<Rightarrow> bool" where
  "link_to nns confs fe p l \<longleftrightarrow> (\<exists>i < length nns. \<exists>j < length nns. \<exists>nc \<in> set (nn_connections (nns ! i)).
     nc_LID nc = fe_LID fe \<and> (nat (fe_port fe), Interface (nc_src_if nc)) \<in> set (cf_to_device (confs ! i)) \<and>
     nc_dst_label nc = l \<and> nn_label (nns ! j) = l \<and> (Interface (nc_dst_if nc), p) \<in> set (cf_from_device (confs ! j)))"

fun cabled :: "(bstr \<Rightarrow> bstr option) \<Rightarrow> network_node list \<Rightarrow> node_conf list \<Rightarrow> fwd_entry \<Rightarrow> (nat \<times> forwarder \<times> fwd_entry) list \<Rightarrow> nat \<times> forwarder \<Rightarrow> bstr \<Rightarrow> bool" where
  "cabled ether nns confs fe [] (p, fw) l \<longleftrightarrow> link_to nns confs fe p l \<and> started ether nns confs l fw"
| "cabled ether nns confs fe ((p, fw, fe') # trail) dest l \<longleftrightarrow>
     (\<exists>l'. link_to nns confs fe p l' \<and> started ether nns confs l' fw) \<and> cabled ether nns confs fe' trail dest l"

definition both_ways :: "network_node list \<Rightarrow> bool" where
  "both_ways nns \<longleftrightarrow> (\<forall>nn \<in> set nns. \<forall>nc \<in> set (nn_connections nn). \<forall>nn' \<in> set nns.
     nn_label nn' = nc_dst_label nc \<longrightarrow> nc_dst_if nc \<in> nc_src_if ` set (nn_connections nn'))"

lemma both_ways_bare: "both_ways (map bare_node nns) = both_ways nns"
  by (simp add: both_ways_def image_image o_def)

lemma offset_port:
  "x \<in> set vs \<Longrightarrow> (Suc (the (findOffset vs x)), Interface x) \<in> set (map (\<lambda>j. (j + 1, Interface (vs ! j))) [0..<length vs])"
  "x \<in> set vs \<Longrightarrow> (Interface x, Suc (the (findOffset vs x))) \<in> set (map (\<lambda>j. (Interface (vs ! j), j + 1)) [0..<length vs])"
  using findOffset_in [of x vs] by force+

subsection \<open>Along a route\<close>

text \<open>The forwarder of a node that was started, and the entry it has for a connection.\<close>

definition running :: "(bstr \<Rightarrow> bstr option) \<Rightarrow> igraph_lib \<Rightarrow> (bstr \<Rightarrow> bstr \<Rightarrow> bstr) \<Rightarrow> network_node list \<Rightarrow> bstr \<Rightarrow> bstr \<Rightarrow> topology \<Rightarrow> (bstr \<Rightarrow> bitvec) \<Rightarrow> (bstr \<Rightarrow> bitvec) \<Rightarrow> node_conf list \<Rightarrow> bool" where
  "running ether lib adr nns rv tm tp F G confs \<longleftrightarrow> deployed lib adr nns rv tm tp F G \<and> list_all2 (written F G adr) nns confs \<and>
     addresses_ok ether adr (nn_label ` set nns) \<and> both_ways nns"

definition forwarder_of :: "(bstr \<Rightarrow> bitvec) \<Rightarrow> network_node \<Rightarrow> forwarder \<Rightarrow> bool" where
  "forwarder_of F nn fw \<longleftrightarrow> fw_wf fw \<and> use_mac (fw_gc fw) \<and> nodeID (fw_gc fw) = nn_label nn \<and> defaultRV_dl (fw_gc fw) = F (nn_label nn) \<and>
     iLID (fw_gc fw) = nn_iLid nn"

lemma running_node:
  assumes "running ether lib adr nns rv tm tp F G confs" "i < length nns"
  shows "\<exists>fw vs. start_forwarder ether (confs ! i) = Some fw \<and> forwarder_of F (nns ! i) fw \<and>
    fwTable fw = map (wire_entry ether adr vs) (nn_connections (nns ! i)) \<and> confs ! i = file_of F G adr (nns ! i) vs \<and>
    set vs = nc_src_if ` set (nn_connections (nns ! i))"
proof -
  let ?nn = "nns ! i"
  have m: "?nn \<in> set nns" using assms(2) by simp
  have d: "sound adr nns" "labelled nns" "is_fid (F (nn_label ?nn))" "is_fid (G (nn_label ?nn))" "addresses_ok ether adr (nn_label ` set nns)"
    using assms(1) m by (simp_all add: running_def deployed_def route_fid_def)
  have w: "written F G adr ?nn (confs ! i)" using assms by (simp add: running_def list_all2_nthD)
  have "is_fid (nn_iLid ?nn)" "length (nn_label ?nn) = 8"
    "\<forall>nc \<in> set (nn_connections ?nn). is_fid (nc_LID nc) \<and> {nc_src_label nc, nc_dst_label nc} \<subseteq> nn_label ` set nns"
    using d(1,2) m unfolding labelled_def sound_def by auto
  from start_ok [OF w d(5,3,4) this(1,3,2)] show ?thesis unfolding forwarder_of_def by blast
qed

lemma running_started:
  assumes "running ether lib adr nns rv tm tp F G confs" "nn \<in> set nns"
  shows "\<exists>fw. started ether (map (finish F G adr) nns) confs (nn_label nn) fw \<and> forwarder_of F nn fw"
proof -
  obtain i where i: "i < length nns" "nns ! i = nn" using assms(2) by (auto simp: in_set_conv_nth)
  from running_node [OF assms(1) i(1)] obtain fw where "start_forwarder ether (confs ! i) = Some fw" "forwarder_of F nn fw"
    unfolding i(2) by blast
  moreover from this have "started ether (map (finish F G adr) nns) confs (nn_label nn) fw"
    unfolding started_def by (intro exI [of _ i]) (use i in simp)
  ultimately show ?thesis by blast
qed

lemma running_hop:
  assumes "running ether lib adr nns rv tm tp F G confs" "nn \<in> set nns" "nc \<in> set (nn_connections nn)"
  shows "\<exists>fw fe p. started ether (map (finish F G adr) nns) confs (nn_label nn) fw \<and> forwarder_of F nn fw \<and>
    fe \<in> set (fwTable fw) \<and> fe_LID fe = nc_LID nc \<and> fe_src fe = ether (adr (nn_label nn) (nc_src_if nc)) \<and>
    fe_dst fe = ether (adr (nc_dst_label nc) (nc_dst_if nc)) \<and> p \<noteq> 0 \<and> link_to (map (finish F G adr) nns) confs fe p (nc_dst_label nc)"
proof -
  obtain i where i: "i < length nns" "nns ! i = nn" using assms(2) by (auto simp: in_set_conv_nth)
  from running_node [OF assms(1) i(1)] obtain fw vs where
    fw: "start_forwarder ether (confs ! i) = Some fw" "forwarder_of F nn fw" "fwTable fw = map (wire_entry ether adr vs) (nn_connections nn)"
    "confs ! i = file_of F G adr nn vs" "set vs = nc_src_if ` set (nn_connections nn)" unfolding i(2) by blast
  have s: "sound adr nns" "both_ways nns" using assms(1) by (simp_all add: running_def deployed_def)
  have src: "nc_src_label nc = nn_label nn" "nc_dst_label nc \<in> nn_label ` set nns" using s(1) assms(2,3) by (auto simp: sound_def)
  then obtain j where j: "j < length nns" "nn_label (nns ! j) = nc_dst_label nc" by (auto simp: in_set_conv_nth)
  from running_node [OF assms(1) j(1)] obtain us where
    us: "confs ! j = file_of F G adr (nns ! j) us" "set us = nc_src_if ` set (nn_connections (nns ! j))" by blast
  have "nns ! j \<in> set nns" using j(1) by simp
  then have "nc_dst_if nc \<in> set us" using s(2) assms(2,3) j(2) us(2) unfolding both_ways_def by blast
  note inp = offset_port(2) [OF this]
  have "nc_src_if nc \<in> set vs" using fw(5) assms(3) by simp
  note out = offset_port(1) [OF this]
  let ?fe = "wire_entry ether adr vs nc" and ?p = "Suc (the (findOffset us (nc_dst_if nc)))"
  have lk: "link_to (map (finish F G adr) nns) confs ?fe ?p (nc_dst_label nc)"
  proof -
    have o: "(nat (fe_port ?fe), Interface (nc_src_if (addressed adr nc))) \<in> set (cf_to_device (confs ! i))"
      using out by (simp add: fw(4) file_of_def wire_entry_def nat_add_distrib)
    have n: "(Interface (nc_dst_if (addressed adr nc)), ?p) \<in> set (cf_from_device (confs ! j))" using inp by (simp add: us(1) file_of_def)
    have "addressed adr nc \<in> set (nn_connections (map (finish F G adr) nns ! i))" "nc_LID (addressed adr nc) = fe_LID ?fe"
      "nc_dst_label (addressed adr nc) = nc_dst_label nc" "nn_label (map (finish F G adr) nns ! j) = nc_dst_label nc"
      using i j assms(3) by (simp_all add: wire_entry_def)
    then show ?thesis using o n i(1) j(1) unfolding link_to_def length_map by blast
  qed
  have st: "started ether (map (finish F G adr) nns) confs (nn_label nn) fw" using i fw(1) by (auto simp: started_def)
  have "?fe \<in> set (fwTable fw)" using fw(3) assms(3) by simp
  moreover have "fe_LID ?fe = nc_LID nc" "fe_src ?fe = ether (adr (nn_label nn) (nc_src_if nc))"
    "fe_dst ?fe = ether (adr (nc_dst_label nc) (nc_dst_if nc))" using src(1) by (simp_all add: wire_entry_def)
  ultimately show ?thesis using st fw(2) lk by blast
qed

lemma edge_connection:
  assumes "built nns tp" "igraph_law lib tp" "(u, v) \<in> set (tp_edges tp)" "sound adr nns"
  shows "\<exists>e nn nc. get_eid lib tp u v = Some e \<and> e < length (all_connections nns) \<and> nc = all_connections nns ! e \<and> nn \<in> set nns \<and>
    nc \<in> set (nn_connections nn) \<and> u < length (tp_NODEID tp) \<and> v < length (tp_NODEID tp) \<and>
    nn_label nn = tp_NODEID tp ! u \<and> nc_dst_label nc = tp_NODEID tp ! v"
proof -
  obtain e where e: "e < length (tp_edges tp)" "get_eid lib tp u v = Some e" "tp_edges tp ! e = (u, v)"
    using assms(2,3) unfolding igraph_law_def by blast
  let ?nc = "all_connections nns ! e"
  have len: "e < length (all_connections nns)" "edge_of tp ?nc = (u, v)" using assms(1) e by (simp_all add: built_def graph_of_def)
  then have m: "?nc \<in> set (all_connections nns)" by simp
  from connection_of_node(1) [OF assms(4) m] obtain nn where nn: "nn \<in> set nns" "?nc \<in> set (nn_connections nn)" "nc_src_label ?nc = nn_label nn" by blast
  have k: "nc_src_label ?nc \<in> set (tp_NODEID tp)" "nc_dst_label ?nc \<in> set (tp_NODEID tp)" using assms(1) m by (auto simp: built_def graph_of_def)
  note v = index_known [OF built_facts(1) [OF assms(1)] k(1)] index_known [OF built_facts(1) [OF assms(1)] k(2)]
  have "vertex_of tp (nc_src_label ?nc) = u" "vertex_of tp (nc_dst_label ?nc) = v" using len(2) by (simp_all add: edge_of_def)
  then show ?thesis using e(2) len(1) nn v by (intro exI [of _ e] exI [of _ nn] exI [of _ ?nc]) simp
qed

lemma along_vertices:
  assumes "built nns tp" "igraph_law lib tp" "sound adr nns" "along (tp_edges tp) (v # v' # vs)"
  shows "\<forall>w \<in> set (v' # vs). w < length (tp_NODEID tp)"
  using assms(4)
proof (induction vs arbitrary: v v')
  case Nil
  then show ?case using edge_connection [OF assms(1,2) _ assms(3), of v v'] by auto
next
  case (Cons w vs)
  then show ?case using edge_connection [OF assms(1,2) _ assms(3), of v v'] by auto
qed

lemma trail_exists:
  assumes run: "running ether lib adr nns rv tm tp F G confs" and law: "igraph_law lib tp" and dest: "rv \<in> nn_label ` set nns"
    and fid: "\<forall>nn \<in> set nns. nn_label nn = rv \<longrightarrow> lid_in_fid (nn_iLid nn) f"
    and "link_to (map (finish F G adr) nns) confs fe p (tp_NODEID tp ! v)" "p \<noteq> 0" "l0 \<in> nn_label ` set nns" "fe_src fe = ether (adr l0 i0)" "v < length (tp_NODEID tp)"
    and "distinct (v # vs)" "l0 \<notin> (\<lambda>w. tp_NODEID tp ! w) ` set vs" "along (tp_edges tp) (v # vs)" "last (v # vs) = vertex_of tp rv"
    and "\<forall>e \<in> set (path_edges (igraph_of lib tp) (v # vs)). lid_in_fid (nc_LID (all_connections nns ! e)) f"
  shows "\<exists>trail dst. cabled ether (map (finish F G adr) nns) confs fe trail dst rv \<and> leads_along f fe trail dst"
  using assms(5-)
proof (induction vs arbitrary: fe p l0 i0 v)
  case Nil
  have b: "built nns tp" using run by (simp add: running_def deployed_def)
  have "tp_NODEID tp ! v = rv" using Nil.prems(9) index_known [OF built_facts(1) [OF b] label_known [OF b dest]] by simp
  moreover obtain nn where nn: "nn \<in> set nns" "nn_label nn = rv" using dest by blast
  moreover from running_started [OF run nn(1)] obtain fw where "started ether (map (finish F G adr) nns) confs rv fw" "forwarder_of F nn fw"
    unfolding nn(2) by blast
  ultimately show ?case using Nil.prems(1,2) fid by (intro exI [of _ "[]"] exI [of _ "(p, fw)"]) (simp add: forwarder_of_def)
next
  case (Cons v' vs)
  have b: "built nns tp" and s: "sound adr nns" and ad: "addresses_ok ether adr (nn_label ` set nns)" using run by (simp_all add: running_def deployed_def)
  have "(v, v') \<in> set (tp_edges tp)" using Cons.prems(8) by simp
  from edge_connection [OF b law this s] obtain e nn nc where
    e: "get_eid lib tp v v' = Some e" "nc = all_connections nns ! e" "nn \<in> set nns" "nc \<in> set (nn_connections nn)" "v' < length (tp_NODEID tp)"
    "nn_label nn = tp_NODEID tp ! v" "nc_dst_label nc = tp_NODEID tp ! v'" by blast
  from running_hop [OF run e(3,4)] obtain fw fe' p' where
    h: "started ether (map (finish F G adr) nns) confs (nn_label nn) fw" "forwarder_of F nn fw"
    "fe' \<in> set (fwTable fw)" "fe_LID fe' = nc_LID nc" "fe_src fe' = ether (adr (nn_label nn) (nc_src_if nc))"
    "fe_dst fe' = ether (adr (nc_dst_label nc) (nc_dst_if nc))" "p' \<noteq> 0" "link_to (map (finish F G adr) nns) confs fe' p' (nc_dst_label nc)"
    by blast
  have pe: "path_edges (igraph_of lib tp) (v # v' # vs) = e # path_edges (igraph_of lib tp) (v' # vs)" using e(1) by (simp add: igraph_of_def)
  have "l0 \<noteq> nc_dst_label nc" using Cons.prems(7) e(7) by auto
  moreover have "nc_dst_label nc \<in> nn_label ` set nns" using s e(3,4) by (simp add: sound_def)
  ultimately have nb: "\<not> back_over fe fe'"
    using addresses_apart [OF ad Cons.prems(3), of "nc_dst_label nc" i0 "nc_dst_if nc"] Cons.prems(4) h(6) by (auto simp: back_over_def)
  have lo: "leads_over f fw fe'"
    using h(2,3,4) Cons.prems(10) e(2) unfolding pe by (simp add: leads_over_def forwarder_of_def)
  have nx: "nn_label nn \<notin> (\<lambda>w. tp_NODEID tp ! w) ` set vs"
  proof
    assume "nn_label nn \<in> (\<lambda>w. tp_NODEID tp ! w) ` set vs"
    then obtain w where w: "w \<in> set vs" "tp_NODEID tp ! w = tp_NODEID tp ! v" using e(6) by auto
    have "w < length (tp_NODEID tp)" using along_vertices [OF b law s Cons.prems(8)] w(1) by simp
    then have "w = v" using w(2) nth_eq_iff_index_eq [OF built_facts(4) [OF b]] Cons.prems(5) by blast
    then show False using Cons.prems(6) w(1) by auto
  qed
  have "\<exists>trail dst. cabled ether (map (finish F G adr) nns) confs fe' trail dst rv \<and> leads_along f fe' trail dst"
    by (rule Cons.IH [of fe' p' v' "nn_label nn" "nc_src_if nc"])
      (use h(5,7,8) e(3,5,7) nx Cons.prems(6,8,9,10) pe in simp_all)
  then obtain trail dst where "cabled ether (map (finish F G adr) nns) confs fe' trail dst rv" "leads_along f fe' trail dst" by blast
  moreover have "link_to (map (finish F G adr) nns) confs fe p (nn_label nn)" using Cons.prems(1) e(6) by simp
  ultimately show ?case using h(1) Cons.prems(2) lo nb
    by (intro exI [of _ "(p, fw, fe') # trail"] exI [of _ dst]) auto
qed

lemma path_edges_Cons: "get_eid lib tp u v = Some e \<Longrightarrow>
    path_edges (igraph_of lib tp) (u # v # vs) = e # path_edges (igraph_of lib tp) (v # vs)"
  by (simp add: igraph_of_def)

lemma whole_way:
  assumes run: "running ether lib adr nns rv tm tp F G confs" and law: "igraph_law lib tp"
    and "nn \<in> set nns" "rv \<in> nn_label ` set nns" "nn_label nn \<noteq> rv" "route (igraph_of lib tp) (nn_label nn) rv \<noteq> []"
  shows "\<exists>fw fe trail dst. started ether (map (finish F G adr) nns) confs (nn_label nn) fw \<and> forwarder_of F nn fw \<and>
    leads_over (F (nn_label nn)) fw fe \<and> cabled ether (map (finish F G adr) nns) confs fe trail dst rv \<and>
    leads_along (F (nn_label nn)) fe trail dst \<and> \<not> all_ones (F (nn_label nn))"
proof -
  let ?l = "nn_label nn"
  have b: "built nns tp" and s: "sound adr nns" and own: "own_bits nns"
    using run by (simp_all add: running_def deployed_def)
  have l: "?l \<in> nn_label ` set nns" using assms(3) by blast
  have rf: "route_fid (igraph_of lib tp) ?l rv (F ?l)" using run l unfolding running_def deployed_def by blast
  have dl: "distinct (map nn_label nns)" using s by (simp add: sound_def)
  note ex = exact_way [OF own b law dl l assms(4) rf]
  note i = built_facts(1) [OF b]
  note kl = index_known [OF i label_known [OF b l]] and kr = index_known [OF i label_known [OF b assms(4)]]
  let ?p = "get_shortest_paths lib tp (vertex_of tp ?l) (vertex_of tp rv)"
  have rt: "route (igraph_of lib tp) ?l rv = ?p" by (rule route_path [OF b l assms(4)])
  have p: "distinct ?p" "along (tp_edges tp) ?p" "hd ?p = vertex_of tp ?l" "last ?p = vertex_of tp rv"
    using law_path [OF law, of "vertex_of tp ?l" "vertex_of tp rv"] kl kr assms(6) unfolding rt by blast+
  have ne: "vertex_of tp ?l \<noteq> vertex_of tp rv" using kl kr assms(5) by auto
  obtain v vs where pv: "?p = vertex_of tp ?l # v # vs"
    using p(3,4) ne assms(6) unfolding rt by (cases ?p rule: remdups_adj.cases) auto
  have uv: "(vertex_of tp ?l, v) \<in> set (tp_edges tp)" using p(2) unfolding pv by simp
  from edge_connection [OF b law uv s] obtain e nn' nc where
    e: "get_eid lib tp (vertex_of tp ?l) v = Some e" "e < length (all_connections nns)" "nc = all_connections nns ! e" "nn' \<in> set nns"
    "nc \<in> set (nn_connections nn')" "v < length (tp_NODEID tp)"
    "nn_label nn' = tp_NODEID tp ! vertex_of tp ?l" "nc_dst_label nc = tp_NODEID tp ! v" by blast
  have "nn' = nn" using inj_onD [OF distinct_map [THEN iffD1, OF dl, THEN conjunct2], of nn' nn] e(4,7) assms(3) kl by simp
  with e(4,5) have nc: "nn \<in> set nns" "nc \<in> set (nn_connections nn)" by simp_all
  from running_hop [OF run nc] obtain fw fe q where
    h: "started ether (map (finish F G adr) nns) confs ?l fw" "forwarder_of F nn fw" "fe \<in> set (fwTable fw)" "fe_LID fe = nc_LID nc"
    "fe_src fe = ether (adr ?l (nc_src_if nc))" "q \<noteq> 0" "link_to (map (finish F G adr) nns) confs fe q (nc_dst_label nc)" by blast
  have way: "way_of lib tp ?l rv = e # path_edges (igraph_of lib tp) (v # vs)"
    unfolding way_of_def rt pv by (rule path_edges_Cons [OF e(1)])
  have on: "lid_in_fid (nc_LID (all_connections nns ! e')) (F ?l)" if "e' \<in> set (way_of lib tp ?l rv)" for e'
    using ex(1) [OF way_in [OF b law l assms(4) that]] that by simp
  have lo: "leads_over (F ?l) fw fe"
    using h(2-4) on [of e] e(3) way by (simp add: leads_over_def forwarder_of_def)
  have fid: "\<forall>nn \<in> set nns. nn_label nn = rv \<longrightarrow> lid_in_fid (nn_iLid nn) (F ?l)" using ex(2) by blast
  have lks: "\<forall>e \<in> set (path_edges (igraph_of lib tp) (v # vs)). lid_in_fid (nc_LID (all_connections nns ! e)) (F ?l)"
    using on way by simp
  have lk: "link_to (map (finish F G adr) nns) confs fe q (tp_NODEID tp ! v)" using h(7) e(8) by simp
  have nx: "?l \<notin> (\<lambda>w. tp_NODEID tp ! w) ` set vs"
  proof
    assume "?l \<in> (\<lambda>w. tp_NODEID tp ! w) ` set vs"
    then obtain w where w: "w \<in> set vs" "tp_NODEID tp ! w = ?l" by auto
    have "w < length (tp_NODEID tp)" using along_vertices [OF b law s] p(2) w(1) unfolding pv by fastforce
    then have "w = vertex_of tp ?l" using w(2) kl nth_eq_iff_index_eq [OF built_facts(4) [OF b]] by metis
    then show False using p(1) w(1) unfolding pv by auto
  qed
  have "\<exists>trail dst. cabled ether (map (finish F G adr) nns) confs fe trail dst rv \<and> leads_along (F ?l) fe trail dst"
    by (rule trail_exists [OF run law assms(4) fid lk h(6) l h(5) e(6) _ nx _ _ lks]) (use p(1,2,4) in \<open>simp_all add: pv\<close>)
  moreover have "\<not> all_ones (F ?l)" using ex(2) [OF assms(3)] assms(5) by (auto simp: lid_in_fid_def all_ones_def)
  ultimately show ?thesis using h(1,2) lo by blast
qed

text \<open>
  C13. In a deployed network the requests of every node reach the rendezvous node. Deploy a domain that makes
  sense, and start on every node the forwarder its file describes: from every node other than the rendezvous
  node that has a route to it, a packet that a dispatcher puts out for the node's default identifier
  (\<open>read_afar\<close>, what every request becomes) travels over the forwarders of the network, each wired to the next
  as the files say, to the rendezvous node; and once the rendezvous element there is up, its dispatcher
  hands over the packet and the element reads the request.
\<close>

theorem deployed_requests_arrive:
  assumes "domain_ok adr dm" and "fair rnd" and "\<forall>l i. ask l i = Some (adr l i)" and "\<forall>tp. igraph_law lib tp"
    and "addresses_ok ether adr (nn_label ` set (network_nodes dm))" and "both_ways (network_nodes dm)"
    and "RV_node dm = Some rv" and "RVLabel = nn_label (network_nodes dm ! rv)"
    and "nn \<in> set (network_nodes dm)" and "nn_label nn \<noteq> RVLabel"
  shows "\<exists>nns tp confs fw gc. deploy False rnd lib ask dm = Some (dm\<lparr>network_nodes := nns\<rparr>, tp, confs) \<and>
    started ether nns confs (nn_label nn) fw \<and> gc = fw_gc fw \<and> gc_wf gc \<and> nodeID gc = nn_label nn \<and>
    (route (igraph_of lib tp) (nn_label nn) RVLabel \<noteq> [] \<longrightarrow>
      (\<forall>env q r s2. read_afar gc (defaultRV_dl gc) q r \<and> lp_inv s2 \<and> rendezvous_hears s2 (nodeRVScope gc) \<longrightarrow>
        (\<exists>fe trail dst q' r'. cabled ether nns confs fe trail dst RVLabel \<and> travels env ((0, fw, fe) # trail) dst q q' \<and>
          LocalProxy_push 2 q' s2 = Some (s2\<lparr>lp_out := lp_out s2 @ [(1, r')]\<rparr>) \<and> parse_request r' = Some (Some r))))"
proof -
  from assms(1) obtain tm where tm: "TM_node dm = Some tm" unfolding domain_ok_def by blast
  let ?tm = "nn_label (network_nodes dm ! tm)"
  from deploy_ok [OF assms(1-4,7) tm] obtain nns tp F G confs where
    d: "deploy False rnd lib ask dm = Some (dm\<lparr>network_nodes := map (finish F G adr) nns\<rparr>, tp, confs)"
    "map bare_node nns = map bare_node (network_nodes dm)" "deployed lib adr nns RVLabel ?tm tp F G" "list_all2 (written F G adr) nns confs"
    unfolding assms(8) by blast
  have law: "igraph_law lib tp" using assms(4) by blast
  have "both_ways nns" using assms(6) both_ways_bare [of nns] both_ways_bare [of "network_nodes dm"] d(2) by simp
  moreover have labs: "map nn_label nns = map nn_label (network_nodes dm)" using arg_cong [OF d(2), of "map nn_label"] by (simp add: o_def)
  ultimately have run: "running ether lib adr nns RVLabel ?tm tp F G confs"
    using d(3,4) assms(5) unfolding running_def set_map [symmetric] labs by simp
  have "rv < length (network_nodes dm)" using assms(1,7) unfolding domain_ok_def by auto
  then have mem: "RVLabel \<in> nn_label ` set nns" "nn_label nn \<in> nn_label ` set nns"
    using assms(8,9) unfolding set_map [symmetric] labs by simp_all
  then obtain n where n: "n \<in> set nns" "nn_label n = nn_label nn" by auto
  let ?nns = "map (finish F G adr) nns"
  show ?thesis
  proof (cases "route (igraph_of lib tp) (nn_label nn) RVLabel = []")
    case True
    from running_started [OF run n(1)] obtain fw where "started ether ?nns confs (nn_label nn) fw" "forwarder_of F n fw" unfolding n(2) by blast
    then show ?thesis using d(1) True n(2)
      by (intro exI [of _ ?nns] exI [of _ tp] exI [of _ confs] exI [of _ fw] exI [of _ "fw_gc fw"]) (simp add: forwarder_of_def fw_wf_def)
  next
    case False
    from whole_way [OF run law n(1) mem(1)] assms(10) False obtain fw fe trail dst where
      w: "started ether ?nns confs (nn_label nn) fw" "forwarder_of F n fw" "leads_over (F (nn_label nn)) fw fe"
      "cabled ether ?nns confs fe trail dst RVLabel" "leads_along (F (nn_label nn)) fe trail dst" "\<not> all_ones (F (nn_label nn))"
      unfolding n(2) by blast
    have f: "defaultRV_dl (fw_gc fw) = F (nn_label nn)" "nodeID (fw_gc fw) = nn_label nn" "gc_wf (fw_gc fw)"
      using w(2) n(2) by (simp_all add: forwarder_of_def fw_wf_def)
    have "\<exists>q' r'. travels env ((0, fw, fe) # trail) dst q q' \<and>
        LocalProxy_push 2 q' s2 = Some (s2\<lparr>lp_out := lp_out s2 @ [(1, r')]\<rparr>) \<and> parse_request r' = Some (Some r)"
      if "read_afar (fw_gc fw) (defaultRV_dl (fw_gc fw)) q r" "lp_inv s2" "rendezvous_hears s2 (nodeRVScope (fw_gc fw))" for env q r s2
      using that w(3,5,6) unfolding read_afar_def f(1) by blast
    then show ?thesis using d(1) w(1,4) f(2,3)
      by (intro exI [of _ ?nns] exI [of _ tp] exI [of _ confs] exI [of _ fw] exI [of _ "fw_gc fw"]) blast
  qed
qed

subsection \<open>An example\<close>

text \<open>Two nodes with a link each way; the first is the rendezvous node and the topology manager.\<close>

definition ex_link :: "byte \<Rightarrow> byte \<Rightarrow> connection" where
  "ex_link a b = new_connection\<lparr>nc_src_label := ex_node a, nc_dst_label := ex_node b, nc_src_if := [101, a], nc_dst_if := [101, b]\<rparr>"

definition ex_station :: "byte \<Rightarrow> byte \<Rightarrow> network_node" where
  "ex_station a b = new_node\<lparr>nn_label := ex_node a, nn_connections := [ex_link a b]\<rparr>"

definition ex_domain :: domain where
  "ex_domain = new_domain\<lparr>network_nodes := [ex_station 65 66, ex_station 66 65], TM_node := Some 0, RV_node := Some 0, number_of_nodes := 2,
     number_of_connections := 2, ba_id_len := 8, dm_fid_len := 32, overlay_mode := ''mac''\<rparr>"

definition ex_lib :: igraph_lib where
  "ex_lib = \<lparr>get_shortest_paths = (\<lambda>tp u v. if u = v then [u] else if (u, v) \<in> set (tp_edges tp) then [u, v] else []),
     get_eid = (\<lambda>tp u v. if (u, v) \<in> set (tp_edges tp) then Some (length (takeWhile (\<lambda>e. e \<noteq> (u, v)) (tp_edges tp))) else None)\<rparr>"

definition ex_adr :: "bstr \<Rightarrow> bstr \<Rightarrow> bstr" where "ex_adr l i = l"

definition ex_ether :: "bstr \<Rightarrow> bstr option" where "ex_ether a = Some (take 6 (a @ replicate 6 0))"

lemma ex_fair: "fair (\<lambda>n. n)"
  unfolding fair_def
proof (intro allI impI)
  fix i n :: nat assume "i < 256"
  then show "\<exists>m \<ge> n. m mod 256 = i" by (intro exI [of _ "n * 256 + i"]) simp
qed

lemma ex_asked: "\<forall>l i. (\<lambda>l i. Some (ex_adr l i)) l i = Some (ex_adr l i)"
  by simp

lemma takeWhile_finds: "x \<in> set xs \<Longrightarrow> length (takeWhile (\<lambda>y. y \<noteq> x) xs) < length xs \<and> xs ! length (takeWhile (\<lambda>y. y \<noteq> x) xs) = x"
  by (induction xs) auto

lemma ex_law: "\<forall>tp. igraph_law ex_lib tp"
  using takeWhile_finds by (force simp: igraph_law_def ex_lib_def Let_def)

lemma ex_sound: "sound ex_adr (network_nodes ex_domain)"
  by (simp add: sound_def ex_domain_def new_domain_def ex_station_def new_node_def ex_link_def new_connection_def macs_given_def ex_node_def)

lemma ex_count: "identifier_count ex_domain = 4"
  by (simp add: identifier_count_def ex_domain_def new_domain_def ex_station_def new_node_def multilayer_def node_lids_def node_has_lid_def has_lid_def)

lemma ex_counted: "counted ex_domain"
  unfolding counted_def ex_count by (simp add: ex_domain_def new_domain_def ex_station_def new_node_def multilayer_def)

lemma ex_domain_ok: "domain_ok ex_adr ex_domain"
  using ex_sound ex_counted ex_count by (simp add: domain_ok_def ex_domain_def new_domain_def)

lemma ex_both_ways: "both_ways (network_nodes ex_domain)"
  by (simp add: both_ways_def ex_domain_def new_domain_def ex_station_def new_node_def ex_link_def new_connection_def ex_node_def)

lemma ex_addresses: "addresses_ok ex_ether ex_adr (nn_label ` set (network_nodes ex_domain))"
  by (simp add: addresses_ok_def ex_ether_def ex_adr_def ex_domain_def new_domain_def ex_station_def new_node_def ex_node_def numeral_eq_Suc)

lemma ex_roles: "RV_node ex_domain = Some 0" "TM_node ex_domain = Some 0"
  by (simp_all add: ex_domain_def new_domain_def)

theorem identifiers_are_distinct_witness:
  "\<exists>nns k1 k2 k3 k4. assignLIDs (\<lambda>n. n) ex_domain = Some (ex_domain\<lparr>network_nodes := nns\<rparr>) \<and>
    concat (map (node_lids False) nns) = [one_bit k1, one_bit k2, one_bit k3, one_bit k4] \<and> distinct [k1, k2, k3, k4]"
proof -
  have m: "multilayer ex_domain = False" by (simp add: multilayer_def ex_domain_def new_domain_def)
  have c: "identifier_count ex_domain \<le> 256" by (simp add: ex_count)
  from identifiers_are_distinct [OF ex_fair ex_counted c] obtain nns ks where
    a: "assignLIDs (\<lambda>n. n) ex_domain = Some (ex_domain\<lparr>network_nodes := nns\<rparr>)" "map bare_node nns = map bare_node (network_nodes ex_domain)" and
    k: "concat (map (node_lids False) nns) = map one_bit ks" "distinct ks" unfolding m by blast
  have l: "length (concat (map (node_lids False) nns)) = length (concat (map (node_lids False) (map bare_node nns)))" for nns
    by (induction nns) (simp_all add: node_lids_def bare_node_def filter_map o_def node_has_lid_def)
  have "length (concat (map (node_lids False) nns)) = 4" using l [of nns] l [of "network_nodes ex_domain"] a(2) ex_count m
    by (simp add: identifier_count_def)
  then have "length ks = 4" using k(1) by simp
  then obtain k1 k2 k3 k4 where "ks = [k1, k2, k3, k4]" by (auto simp: numeral_eq_Suc length_Suc_conv)
  then show ?thesis using a(1) k by (intro exI [of _ nns] exI [of _ k1] exI [of _ k2] exI [of _ k3] exI [of _ k4]) simp
qed

theorem default_identifiers_lead_exactly_witness:
  "\<exists>nns tp c1 c2. deploy False (\<lambda>n. n) ex_lib (\<lambda>l i. Some (ex_adr l i)) ex_domain = Some (ex_domain\<lparr>network_nodes := nns\<rparr>, tp, [c1, c2]) \<and>
    topology_ok (igraph_of ex_lib tp) \<and>
    list_all (\<lambda>nn. leads_exactly ex_lib tp nns (nn_FID_to_RV nn) (nn_label nn) (ex_node 65)) nns"
proof -
  have l: "nn_label (network_nodes ex_domain ! 0) = ex_node 65" "length (network_nodes ex_domain) = 2"
    by (simp_all add: ex_domain_def new_domain_def ex_station_def new_node_def)
  from default_identifiers_lead_exactly [OF ex_domain_ok ex_fair ex_asked ex_law ex_roles] obtain nns tp confs where
    d: "deploy False (\<lambda>n. n) ex_lib (\<lambda>l i. Some (ex_adr l i)) ex_domain = Some (ex_domain\<lparr>network_nodes := nns\<rparr>, tp, confs)" "length confs = 2"
      "topology_ok (igraph_of ex_lib tp)" "\<forall>nn \<in> set nns. leads_exactly ex_lib tp nns (nn_FID_to_RV nn) (nn_label nn) (ex_node 65)"
    unfolding l by blast
  from d(2) obtain c1 c2 where "confs = [c1, c2]" by (auto simp: numeral_eq_Suc length_Suc_conv)
  then show ?thesis using d(1,3,4) unfolding list_all_iff by blast
qed

lemma ex_deployed_route:
  assumes "deploy False (\<lambda>n. n) ex_lib (\<lambda>l i. Some (ex_adr l i)) ex_domain = Some (dm, tp, confs)"
  shows "route (igraph_of ex_lib tp) (ex_node 66) (ex_node 65) \<noteq> []"
proof -
  from deploy_ok [OF ex_domain_ok ex_fair ex_asked ex_law ex_roles] obtain nns F G where
    b: "map bare_node nns = map bare_node (network_nodes ex_domain)" "built nns tp" unfolding assms deployed_def by auto
  have labs: "map nn_label nns = [ex_node 65, ex_node 66]" using arg_cong [OF b(1), of "map nn_label"] by (simp add: o_def ex_domain_def new_domain_def ex_station_def new_node_def)
  have "map (\<lambda>nc. (nc_src_label nc, nc_dst_label nc)) (concat (map nn_connections nns)) =
      map (\<lambda>nc. (nc_src_label nc, nc_dst_label nc)) (concat (map nn_connections (map bare_node nns)))"
    by (induction nns) (simp_all add: bare_node_def bare_connection_def o_def)
  then have "(ex_node 66, ex_node 65) \<in> (\<lambda>nc. (nc_src_label nc, nc_dst_label nc)) ` set (all_connections nns)"
    unfolding b(1) all_connections_def set_map [symmetric] by (simp add: ex_domain_def new_domain_def ex_station_def new_node_def ex_link_def new_connection_def)
  then obtain nc where nc: "nc \<in> set (all_connections nns)" "nc_src_label nc = ex_node 66" "nc_dst_label nc = ex_node 65" by auto
  have "(vertex_of tp (ex_node 66), vertex_of tp (ex_node 65)) = edge_of tp nc" using nc(2,3) by (simp add: edge_of_def)
  then have "(vertex_of tp (ex_node 66), vertex_of tp (ex_node 65)) \<in> set (tp_edges tp)"
    using b(2) nc(1) by (simp add: built_def graph_of_def)
  moreover have "ex_node 66 \<in> nn_label ` set nns" "ex_node 65 \<in> nn_label ` set nns" unfolding set_map [symmetric] labs by simp_all
  ultimately show ?thesis unfolding route_path [OF b(2) \<open>ex_node 66 \<in> _\<close> \<open>ex_node 65 \<in> _\<close>] by (simp add: ex_lib_def)
qed

lemma ex_request_out:
  assumes "gc_wf gc"
  shows "\<exists>q. read_afar gc (defaultRV_dl gc) q (request_of gc PUBLISH_SCOPE ex_scope [] DOMAIN_LOCAL)"
proof -
  let ?q = "\<lparr>pk_data = cells (fid_bytes (defaultRV_dl gc) @ net_bytes [nodeRVScope gc]) @
    cells (app_request PUBLISH_SCOPE ex_scope [] DOMAIN_LOCAL), pk_anno = None\<rparr>"
  have s: "short_id ex_scope" "short_id []" by (simp_all add: short_id_def ex_scope_def)
  have f: "is_fid (defaultRV_dl gc)" using assms by (simp add: gc_wf_def)
  have l: "gc = lp_gc (LocalProxy_configure gc)" by (simp add: LocalProxy_configure_def)
  show ?thesis unfolding read_afar_def
    using remote_request [OF configure_inv [OF assms] _ l f s, of _ _ _ _ _ ?q PUBLISH_SCOPE DOMAIN_LOCAL "[]"] by (intro exI [of _ ?q]) simp
qed

theorem deployed_requests_arrive_witness:
  "\<exists>nns tp confs fw gc q r hub fe trail dst q' r'. deploy False (\<lambda>n. n) ex_lib (\<lambda>l i. Some (ex_adr l i)) ex_domain =
      Some (ex_domain\<lparr>network_nodes := nns\<rparr>, tp, confs) \<and>
    started ex_ether nns confs (ex_node 66) fw \<and> gc = fw_gc fw \<and> nodeID gc = ex_node 66 \<and>
    r = request_of gc PUBLISH_SCOPE ex_scope [] DOMAIN_LOCAL \<and> cabled ex_ether nns confs fe trail dst (ex_node 65) \<and>
    travels ex_env ((0, fw, fe) # trail) dst q q' \<and>
    LocalProxy_push 2 q' hub = Some (hub\<lparr>lp_out := lp_out hub @ [(1, r')]\<rparr>) \<and> parse_request r' = Some (Some r)"
proof -
  have rv: "ex_node 65 = nn_label (network_nodes ex_domain ! 0)" by (simp add: ex_domain_def new_domain_def ex_station_def new_node_def)
  have m: "ex_station 66 65 \<in> set (network_nodes ex_domain)" "nn_label (ex_station 66 65) = ex_node 66" by (simp_all add: ex_domain_def new_domain_def ex_station_def new_node_def)
  have ne: "nn_label (ex_station 66 65) \<noteq> ex_node 65" by (simp add: ex_station_def new_node_def ex_node_def)
  from deployed_requests_arrive [OF ex_domain_ok ex_fair ex_asked ex_law ex_addresses ex_both_ways ex_roles(1) rv m(1) ne] obtain nns tp confs fw where
    d: "deploy False (\<lambda>n. n) ex_lib (\<lambda>l i. Some (ex_adr l i)) ex_domain = Some (ex_domain\<lparr>network_nodes := nns\<rparr>, tp, confs)"
      "started ex_ether nns confs (ex_node 66) fw" "gc_wf (fw_gc fw)" "nodeID (fw_gc fw) = ex_node 66" and
    a: "route (igraph_of ex_lib tp) (ex_node 66) (ex_node 65) \<noteq> [] \<longrightarrow>
      (\<forall>env q r s2. read_afar (fw_gc fw) (defaultRV_dl (fw_gc fw)) q r \<and> lp_inv s2 \<and> rendezvous_hears s2 (nodeRVScope (fw_gc fw)) \<longrightarrow>
        (\<exists>fe trail dst q' r'. cabled ex_ether nns confs fe trail dst (ex_node 65) \<and> travels env ((0, fw, fe) # trail) dst q q' \<and>
          LocalProxy_push 2 q' s2 = Some (s2\<lparr>lp_out := lp_out s2 @ [(1, r')]\<rparr>) \<and> parse_request r' = Some (Some r)))"
    unfolding m(2) by blast
  obtain q where q: "read_afar (fw_gc fw) (defaultRV_dl (fw_gc fw)) q (request_of (fw_gc fw) PUBLISH_SCOPE ex_scope [] DOMAIN_LOCAL)"
    using ex_request_out [OF d(3)] by blast
  obtain rv where "LocalRV_initialize ex_gc = Some rv" using ex_rv0_eq by blast
  from startup_packet [OF ex_gc_wf this] obtain p :: packet where
    "pk_data p = cells (app_request SUBSCRIBE_SCOPE (RVScope ex_gc) [] IMPLICIT_RENDEZVOUS) @ replicate 88 None" by blast
  from startup_push [OF ex_gc_wf this] startup_hears [OF ex_gc_wf _ _ d(3)] obtain hub where
    "lp_inv hub" "rendezvous_hears hub (nodeRVScope (fw_gc fw))" by blast
  then show ?thesis using a ex_deployed_route [OF d(1)] q d(1,2,4) by blast
qed

end
