(* ===== verification/BA_Parser_Safe.thy ===== *)
theory BA_Parser_Safe
  imports BA_Parser BA_Deployment_Safe
begin

text \<open>
  What the parser makes of a file: the books it keeps (\<open>books\<close>) while nodes and connections are read, the domain that
  results, which files make a domain that \<open>BA_Deployment_Safe\<close> shows to work, and the attributes of the simulator's
  applications.
\<close>

subsection \<open>What reading a connection and a node does\<close>

named_theorems parse_defs

lemmas [parse_defs] = mandatory_def found_then_def network_list_def

lemma and_then_Inr: "and_then m f = Inr y \<longleftrightarrow> (\<exists>x. m = Inr x \<and> f x = Inr y)"
  by (cases m) auto

lemma mandatory_Inr: "mandatory x f = Inr y \<longleftrightarrow> (\<exists>v. x = Some v \<and> f v = Inr y)"
  by (cases x) (auto simp: mandatory_def)

lemma network_list_Inr: "network_list lib root name absent f = Inr y \<longleftrightarrow>
    (\<exists>n l. member lib root ''network'' = Found n \<and> member lib n name = Found l \<and> f l = Inr y) \<or>
    absent = Inr y \<and> (member lib root ''network'' = Not_Found \<or> (\<exists>n. member lib root ''network'' = Found n \<and> member lib n name = Not_Found))"
  by (auto simp: network_list_def found_then_def split: found.splits)

lemma parse_each_inv:
  assumes "parse_each f xs s = Inr s'" "P s" "\<forall>x s s'. P s \<longrightarrow> f x s = Inr s' \<longrightarrow> P s'"
  shows "P s'"
  using assms(1,2) by (induction xs arbitrary: s) (use assms(3) in \<open>auto simp: and_then_Inr\<close>)

text \<open>A connection read for a node, in a mode; and the books of the domain while a node is being read.\<close>

definition read_connection :: "domain \<Rightarrow> network_node \<Rightarrow> connection \<Rightarrow> bool" where
  "read_connection dm nn nc \<longleftrightarrow> nc_src_label nc = nn_label nn \<and> int (length (nc_dst_label nc)) = ba_id_len dm \<and>
     (\<not> multilayer dm \<longrightarrow> nc_lnk_type nc = [])"

definition read_node :: "domain \<Rightarrow> network_node \<Rightarrow> bool" where
  "read_node dm nn \<longleftrightarrow> (nn_label nn = [] \<or> int (length (nn_label nn)) = ba_id_len dm) \<and> nn_iLid nn = bv_empty \<and>
     (\<forall>nc \<in> set (nn_connections nn). read_connection dm nn nc)"

definition is_pp :: "connection \<Rightarrow> bool" where
  "is_pp nc \<longleftrightarrow> nc_lnk_type nc = ''pp''"

definition same_settings :: "domain \<Rightarrow> domain \<Rightarrow> bool" where
  "same_settings dm dm' \<longleftrightarrow> ba_id_len dm' = ba_id_len dm \<and> dm_fid_len dm' = dm_fid_len dm \<and> overlay_mode dm' = overlay_mode dm \<and>
     number_of_nodes dm' = number_of_nodes dm \<and> number_of_pl_nodes dm' = number_of_pl_nodes dm"

definition role_of :: "(network_node \<Rightarrow> bool) \<Rightarrow> network_node list \<Rightarrow> nat option \<Rightarrow> bool" where
  "role_of is nns r \<longleftrightarrow> (\<forall>i < length nns. is (nns ! i) \<longleftrightarrow> r = Some i) \<and> (\<forall>i. r = Some i \<longrightarrow> i < length nns)"

definition books :: "network_node list \<Rightarrow> domain \<Rightarrow> bool" where
  "books nns dm \<longleftrightarrow> number_of_connections dm = length (all_connections nns) \<and>
     number_of_p_connections dm = length (filter is_pp (all_connections nns)) \<and> (\<forall>nn \<in> set nns. read_node dm nn) \<and>
     role_of nn_isRV nns (RV_node dm) \<and> role_of nn_isTM nns (TM_node dm)"

lemma source_end_fields: "source_end lib mode c nc = Inr nc' \<Longrightarrow>
    nc_src_label nc' = nc_src_label nc \<and> nc_dst_label nc' = nc_dst_label nc \<and> nc_lnk_type nc' = nc_lnk_type nc"
  by (auto simp: source_end_def mandatory_Inr split: if_splits option.splits)

lemma destination_end_fields: "destination_end lib mode c nc = Inr nc' \<Longrightarrow>
    nc_src_label nc' = nc_src_label nc \<and> nc_dst_label nc' = nc_dst_label nc \<and> nc_lnk_type nc' = nc_lnk_type nc"
  by (auto simp: destination_end_def mandatory_Inr split: if_splits option.splits)

lemma hardcoded_fields: "nc_src_label (hardcoded_macs lib c nc) = nc_src_label nc" "nc_dst_label (hardcoded_macs lib c nc) = nc_dst_label nc"
    "nc_lnk_type (hardcoded_macs lib c nc) = nc_lnk_type nc"
  by (auto simp: hardcoded_macs_def Let_def split: option.splits)

lemma destination_label_Inr: "destination_label lib dm c f = Inr y \<longleftrightarrow>
    (\<exists>l. lookup_string lib c ''to'' = Some l \<and> int (length l) = ba_id_len dm \<and> f (text_bytes l) = Inr y)"
  by (auto simp: destination_label_def mandatory_Inr)

lemma multilayer_update [simp]: "multilayer (dm\<lparr>number_of_connections := x\<rparr>) = multilayer dm"
    "multilayer (dm\<lparr>number_of_p_connections := x\<rparr>) = multilayer dm"
  by (simp_all add: multilayer_def)

lemma addConnection_ok:
  assumes "addConnection lib c (nn, dm) = Inr (nn', dm')"
  shows "\<exists>nc. nn' = nn\<lparr>nn_connections := nn_connections nn @ [nc]\<rparr> \<and> read_connection dm nn nc \<and>
    dm' = dm\<lparr>number_of_connections := number_of_connections dm + 1, number_of_p_connections := number_of_p_connections dm + (if is_pp nc then 1 else 0)\<rparr>"
proof -
  let ?mode = "overlay_mode dm"
  from assms obtain l nc1 nc2 where
    l: "int (length l) = ba_id_len dm" "source_end lib ?mode c (new_connection\<lparr>nc_src_label := nn_label nn, nc_dst_label := text_bytes l\<rparr>) = Inr nc1"
    "destination_end lib ?mode c nc1 = Inr nc2" and
    e: "(let nc = (if ?mode = ''mac'' \<or> ?mode = ''mac_qos'' then hardcoded_macs lib c nc2 else nc2);
           (nc, dm) = (if multilayer dm
             then (hardcoded_macs lib c (nc\<lparr>nc_lnk_type := link_type nc\<rparr>),
                   if link_type nc = ''pp'' then dm\<lparr>number_of_p_connections := number_of_p_connections dm + 1\<rparr> else dm)
             else (nc, dm));
           nc = nc\<lparr>nc_priority := given (lookup_int lib c ''priority'') 0, nc_rate_lim := given (lookup_int lib c ''rate_lim'') 1250000000\<rparr> in
       Inr (nn\<lparr>nn_connections := nn_connections nn @ [nc]\<rparr>, dm\<lparr>number_of_connections := number_of_connections dm + 1\<rparr>)) = 
       (Inr (nn', dm') :: parse_failure + network_node \<times> domain)"
    unfolding addConnection_def prod.case destination_label_Inr and_then_Inr by blast
  have f: "nc_src_label nc2 = nn_label nn" "nc_dst_label nc2 = text_bytes l" "nc_lnk_type nc2 = []"
    using source_end_fields [OF l(2)] destination_end_fields [OF l(3)] by (simp_all add: new_connection_def)
  show ?thesis
  proof (cases "multilayer dm")
    case True
    then have m: "?mode \<noteq> ''mac''" "?mode \<noteq> ''mac_qos''" by (simp_all add: multilayer_def)
    let ?nc = "(hardcoded_macs lib c (nc2\<lparr>nc_lnk_type := link_type nc2\<rparr>))\<lparr>nc_priority := given (lookup_int lib c ''priority'') 0,
      nc_rate_lim := given (lookup_int lib c ''rate_lim'') 1250000000\<rparr>"
    show ?thesis using e True m f l(1)
      by (intro exI [of _ ?nc]) (auto simp: Let_def read_connection_def hardcoded_fields is_pp_def text_bytes_def split: if_splits)
  next
    case False
    let ?nc = "(if ?mode = ''mac'' \<or> ?mode = ''mac_qos'' then hardcoded_macs lib c nc2 else nc2)\<lparr>nc_priority := given (lookup_int lib c ''priority'') 0,
      nc_rate_lim := given (lookup_int lib c ''rate_lim'') 1250000000\<rparr>"
    show ?thesis using e False f l(1)
      by (intro exI [of _ ?nc]) (auto simp: Let_def read_connection_def hardcoded_fields is_pp_def text_bytes_def)
  qed
qed

definition being_read :: "domain \<Rightarrow> network_node list \<Rightarrow> network_node \<times> domain \<Rightarrow> bool" where
  "being_read dm0 nns st \<longleftrightarrow> books (nns @ [fst st]) (snd st) \<and> network_nodes (snd st) = nns \<and> same_settings dm0 (snd st)"

lemma read_same: "same_settings dm dm' \<Longrightarrow> read_connection dm' = read_connection dm" "same_settings dm dm' \<Longrightarrow> read_node dm' = read_node dm"
  by (auto simp: same_settings_def read_node_def read_connection_def multilayer_def fun_eq_iff)

lemma same_trans: "same_settings a b \<Longrightarrow> same_settings b c \<Longrightarrow> same_settings a c"
  by (simp add: same_settings_def)

lemma all_connections_append [simp]: "all_connections (nns @ [nn]) = all_connections nns @ nn_connections nn"
  by (simp add: all_connections_def)

lemma role_fresh: "role_of is nns None \<longleftrightarrow> (\<forall>x \<in> set nns. \<not> is x)"
  by (simp add: role_of_def all_set_conv_all_nth)

lemma role_append: "role_of is (nns @ [nn]) r \<longleftrightarrow> (if is nn then r = Some (length nns) \<and> (\<forall>x \<in> set nns. \<not> is x)
    else role_of is nns r)"
proof (cases "is nn")
  case True
  have "role_of is (nns @ [nn]) r \<longleftrightarrow> r = Some (length nns) \<and> (\<forall>i < length nns. \<not> is (nns ! i))"
    using True by (auto simp: role_of_def nth_append less_Suc_eq all_conj_distrib)
  then show ?thesis using True by (simp add: all_set_conv_all_nth)
next
  case False
  then show ?thesis by (auto simp: role_of_def nth_append less_Suc_eq)
qed

lemma set_role_ok:
  assumes "being_read dm0 nns st" "set_role lib r st = Inr st'"
  shows "being_read dm0 nns st'"
proof -
  obtain nn dm where st: "st = (nn, dm)" by force
  obtain role where role: "as_string lib r = Some role" using assms(2) by (auto simp: set_role_def split: option.splits)
  have b: "books (nns @ [nn]) dm" "network_nodes dm = nns" "same_settings dm0 dm" using assms(1) by (simp_all add: being_read_def st)
  have rd: "read_connection (dm\<lparr>RV_node := x\<rparr>) = read_connection dm" "read_connection (dm\<lparr>TM_node := x\<rparr>) = read_connection dm"
    "read_node (dm\<lparr>RV_node := x\<rparr>) = read_node dm" "read_node (dm\<lparr>TM_node := x\<rparr>) = read_node dm" for x
    by (auto simp: fun_eq_iff read_node_def read_connection_def multilayer_def)
  have rn: "read_node dm (nn\<lparr>nn_isRV := x\<rparr>) = read_node dm nn" "read_node dm (nn\<lparr>nn_isTM := x\<rparr>) = read_node dm nn" for x
    by (auto simp: read_node_def read_connection_def)
  consider "role = ''RV''" "RV_node dm = None" "st' = (nn\<lparr>nn_isRV := True\<rparr>, dm\<lparr>RV_node := Some (length nns)\<rparr>)"
    | "role = ''TM''" "TM_node dm = None" "st' = (nn\<lparr>nn_isTM := True\<rparr>, dm\<lparr>TM_node := Some (length nns)\<rparr>)" | "st' = st"
    using assms(2) b(2) by (auto simp: set_role_def st role split: if_splits)
  then show ?thesis
    by cases (use b assms(1) in \<open>auto simp: being_read_def books_def same_settings_def rd rn role_append role_fresh st split: if_splits\<close>)
qed

lemma addConnection_reads:
  assumes "being_read dm0 nns st" "addConnection lib c st = Inr st'"
  shows "being_read dm0 nns st'"
proof -
  obtain nn dm nn' dm' where st: "st = (nn, dm)" "st' = (nn', dm')" by force
  from addConnection_ok [OF assms(2) [unfolded st]] obtain nc where
    nc: "nn' = nn\<lparr>nn_connections := nn_connections nn @ [nc]\<rparr>" "read_connection dm nn nc" and
    dm': "dm' = dm\<lparr>number_of_connections := number_of_connections dm + 1,
      number_of_p_connections := number_of_p_connections dm + (if is_pp nc then 1 else 0)\<rparr>" by blast
  have b: "books (nns @ [nn]) dm" "network_nodes dm = nns" "same_settings dm0 dm" using assms(1) by (simp_all add: being_read_def st)
  have s: "same_settings dm dm'" by (simp add: same_settings_def dm')
  have n: "read_connection dm nn' = read_connection dm nn" by (simp add: fun_eq_iff read_connection_def nc(1))
  have "read_node dm nn'" using b(1) nc n by (auto simp: books_def read_node_def)
  then have "books (nns @ [nn']) dm'" using b(1) nc(1)
    unfolding books_def read_same(2) [OF s] by (simp add: dm' role_append)
  then show ?thesis using b same_trans [OF b(3) s] by (simp add: being_read_def st dm')
qed

lemma set_roles_ok:
  assumes "being_read dm0 nns st" "set_roles lib node st = Inr st'"
  shows "being_read dm0 nns st'"
proof (cases "member lib node ''role''")
  case (Found roles)
  then have "parse_each (set_role lib) (elements lib roles) st = Inr st'" using assms(2) by (simp add: set_roles_def split: if_splits)
  from parse_each_inv [where P = "being_read dm0 nns", OF this assms(1)] set_role_ok [of dm0 nns _ lib] show ?thesis by blast
qed (use assms in \<open>simp_all add: set_roles_def\<close>)

lemma node_label_Inr:
  assumes "node_label lib dm node f = Inr y"
  shows "\<exists>l. (l = [] \<or> int (length l) = ba_id_len dm) \<and> f (new_node\<lparr>nn_label := l\<rparr>) = Inr y"
proof (cases "lookup_string lib node ''label''")
  case None
  have "new_node\<lparr>nn_label := []\<rparr> = new_node" by (simp add: new_node_def)
  then show ?thesis using assms None by (intro exI [of _ "[]"]) (simp add: node_label_def)
next
  case (Some l)
  then show ?thesis using assms by (intro exI [of _ "text_bytes l"]) (simp add: node_label_def text_bytes_def split: if_splits)
qed

lemma guard_Inr: "(if c then Inl e else m) = Inr y \<Longrightarrow> m = Inr y"
  by (cases c) simp_all

lemma operating_system_Inr:
  assumes "operating_system lib mode r node f = Inr y"
  shows "\<exists>os. f os = Inr y"
proof (cases "lookup_string lib node ''operating_system''")
  case (Some os)
  show ?thesis by (rule exI [of _ os], use assms in \<open>simp only: operating_system_def Some option.case\<close>) (drule guard_Inr)+
qed (use assms in \<open>auto simp: operating_system_def\<close>)

lemma start_reading:
  assumes "books (network_nodes dm) dm" "nn_label nn = [] \<or> int (length (nn_label nn)) = ba_id_len dm" "nn_iLid nn = bv_empty"
    "nn_connections nn = []" "\<not> nn_isRV nn" "\<not> nn_isTM nn"
  shows "being_read dm (network_nodes dm) (nn, dm)"
  using assms by (simp add: being_read_def books_def read_node_def role_append same_settings_def)

lemma pushed:
  assumes "being_read dm (network_nodes dm) st"
  shows "books (network_nodes (push_node st)) (push_node st)" "same_settings dm (push_node st)"
    "length (network_nodes (push_node st)) = Suc (length (network_nodes dm))"
proof -
  obtain nn dm' where st: "st = (nn, dm')" by force
  have "read_node (dm'\<lparr>network_nodes := x\<rparr>) = read_node dm'" for x
    by (auto simp: fun_eq_iff read_node_def read_connection_def multilayer_def)
  then show "books (network_nodes (push_node st)) (push_node st)" "same_settings dm (push_node st)"
    "length (network_nodes (push_node st)) = Suc (length (network_nodes dm))"
    using assms by (simp_all add: being_read_def books_def push_node_def st same_settings_def)
qed

lemma addNode_ok:
  assumes "addNode lib node dm = Inr dm'" "books (network_nodes dm) dm"
  shows "books (network_nodes dm') dm' \<and> same_settings dm dm' \<and> length (network_nodes dm') = Suc (length (network_nodes dm))"
proof -
  from node_label_Inr [OF assms(1) [unfolded addNode_def]] obtain l ip rmode where
    l: "l = [] \<or> int (length l) = ba_id_len dm" and
    o: "operating_system lib (overlay_mode dm) rmode node (\<lambda>os.
       let type = (if lookup_string lib node ''label'' = None then [] else given (lookup_string lib node ''type'') []) in
       roles_and_connections lib node (new_node\<lparr>nn_label := l, nn_type := type, nn_testbed_ip := ip, nn_running_mode := rmode, nn_operating_system := os\<rparr>, dm)) = Inr dm'"
    unfolding mandatory_Inr by (blast dest: guard_Inr)
  from operating_system_Inr [OF o] obtain os nn where
    n: "nn = new_node\<lparr>nn_label := l, nn_type := (if lookup_string lib node ''label'' = None then [] else given (lookup_string lib node ''type'') []),
      nn_testbed_ip := ip, nn_running_mode := rmode, nn_operating_system := os\<rparr>" and
    r: "roles_and_connections lib node (nn, dm) = Inr dm'"
    unfolding Let_def by blast
  from r obtain st where st0: "set_roles lib node (nn, dm) = Inr st" and
    c: "(case member lib node ''connections'' of Wrong_Type \<Rightarrow> Inl Aborted | Not_Found \<Rightarrow> Inr (push_node st)
         | Found cs \<Rightarrow> and_then (parse_each (addConnection lib) (elements lib cs) st) (\<lambda>st. Inr (push_node st))) = Inr dm'"
    unfolding roles_and_connections_def and_then_Inr by blast
  have "being_read dm (network_nodes dm) (nn, dm)"
    by (rule start_reading [OF assms(2)]) (use l in \<open>simp_all add: n new_node_def\<close>)
  note st = set_roles_ok [OF this st0]
  have "\<exists>st'. dm' = push_node st' \<and> being_read dm (network_nodes dm) st'"
  proof (cases "member lib node ''connections''")
    case (Found cs)
    with c obtain st' where "parse_each (addConnection lib) (elements lib cs) st = Inr st'" "dm' = push_node st'" by (auto simp: and_then_Inr)
    from parse_each_inv [where P = "being_read dm (network_nodes dm)", OF this(1) st] this(2) addConnection_reads [of dm "network_nodes dm" _ lib] show ?thesis by blast
  next
    case Not_Found
    then show ?thesis using c st by (intro exI [of _ st]) simp
  qed (use c in simp)
  then show ?thesis using pushed by auto
qed

subsection \<open>The domain that was read\<close>

lemma nodes_read:
  assumes "parse_each (addNode lib) ns dm = Inr dm'" "books (network_nodes dm) dm"
  shows "books (network_nodes dm') dm' \<and> same_settings dm dm' \<and> length (network_nodes dm') = length (network_nodes dm) + length ns"
  using assms
proof (induction ns arbitrary: dm)
  case (Cons n ns)
  then obtain dm1 where dm1: "addNode lib n dm = Inr dm1" "parse_each (addNode lib) ns dm1 = Inr dm'" by (auto simp: and_then_Inr)
  note a = addNode_ok [OF dm1(1) Cons.prems(2)]
  from Cons.IH [OF dm1(2)] a same_trans show ?case by fastforce
qed (simp add: same_settings_def)

lemma no_books: "network_nodes dm = [] \<Longrightarrow> number_of_connections dm = 0 \<Longrightarrow> number_of_p_connections dm = 0 \<Longrightarrow>
    RV_node dm = None \<Longrightarrow> TM_node dm = None \<Longrightarrow> books [] dm"
  by (simp add: books_def all_connections_def role_of_def)

lemma global_parameters:
  assumes "getGlobalDomainParameters lib dir_exists root new_domain = Inr dm"
  shows "books [] dm \<and> network_nodes dm = [] \<and> overlay_mode dm = given (lookup_string lib root ''OVERLAY_MODE'') [] \<and>
    number_of_nodes dm = 0 \<and> number_of_pl_nodes dm = 0"
proof -
  have m: "mandatory_length lib root name f = Inr y \<Longrightarrow> \<exists>n. f n = Inr y" for name and f :: "int \<Rightarrow> parse_failure + domain" and y
    by (auto simp: mandatory_length_def split: found.splits option.splits)
  from assms obtain b f home dir where
    "dm = new_domain\<lparr>ba_id_len := b, dm_fid_len := f, click_home := home, write_conf := dir,
         dm_user := given (lookup_string lib root ''USER'') (dm_user new_domain),
         sudo := (case lookup_bool lib root ''SUDO'' of None \<Rightarrow> sudo new_domain | b \<Rightarrow> b),
         overlay_mode := given (lookup_string lib root ''OVERLAY_MODE'') (overlay_mode new_domain)\<rparr>"
    unfolding getGlobalDomainParameters_def by (auto simp: and_then_Inr split: if_splits dest!: m)
  then show ?thesis by (simp add: new_domain_def no_books)
qed

lemma configuration_read:
  assumes "buildNetworkDomain lib dir_exists file = Inr dm"
  shows "books (network_nodes dm) dm \<and> (overlay_mode dm \<noteq> ''mac_ml'' \<longrightarrow> number_of_nodes dm = length (network_nodes dm)) \<and>
    (\<exists>root. file = Some root \<and> overlay_mode dm = given (lookup_string lib root ''OVERLAY_MODE'') [])"
proof -
  from assms obtain root dm0 where f: "file = Some root" and g: "getGlobalDomainParameters lib dir_exists root new_domain = Inr dm0" and
    e: "(if overlay_mode dm0 \<noteq> ''mac_ml'' then
         network_list lib root ''nodes'' (Inl Failed) (\<lambda>nodes.
           parse_each (addNode lib) (elements lib nodes) (dm0\<lparr>number_of_nodes := getLength lib nodes\<rparr>))
       else
         network_list lib root ''ol_nodes'' (Inr dm0) (\<lambda>ol_nodes.
         network_list lib root ''pl_nodes'' (Inr dm0) (\<lambda>pl_nodes.
           parse_each (addNode lib) (elements lib ol_nodes @ elements lib pl_nodes)
             (dm0\<lparr>number_of_pl_nodes := getLength lib pl_nodes, number_of_nodes := getLength lib ol_nodes + getLength lib pl_nodes\<rparr>)))) = Inr dm"
    unfolding buildNetworkDomain_def mandatory_Inr and_then_Inr by blast
  note g0 = global_parameters [OF g]
  have rd: "read_node (dm0\<lparr>number_of_nodes := x\<rparr>) = read_node dm0" "read_node (dm0\<lparr>number_of_pl_nodes := y, number_of_nodes := x\<rparr>) = read_node dm0" for x y
    by (auto simp: fun_eq_iff read_node_def read_connection_def multilayer_def)
  have b: "books [] (dm0\<lparr>number_of_nodes := x\<rparr>)" "books [] (dm0\<lparr>number_of_pl_nodes := y, number_of_nodes := x\<rparr>)" for x y
    using g0 by (simp_all add: books_def)
  show ?thesis
  proof (cases "overlay_mode dm0 = ''mac_ml''")
    case False
    then obtain nodes where n: "parse_each (addNode lib) (elements lib nodes) (dm0\<lparr>number_of_nodes := getLength lib nodes\<rparr>) = Inr dm"
      using e by (auto simp: network_list_Inr)
    have "books (network_nodes (dm0\<lparr>number_of_nodes := getLength lib nodes\<rparr>)) (dm0\<lparr>number_of_nodes := getLength lib nodes\<rparr>)" using b(1) g0 by simp
    from nodes_read [OF n this] f g0 show ?thesis by (simp add: same_settings_def elements_def)
  next
    case True
    then consider ol pl where "parse_each (addNode lib) (elements lib ol @ elements lib pl)
        (dm0\<lparr>number_of_pl_nodes := getLength lib pl, number_of_nodes := getLength lib ol + getLength lib pl\<rparr>) = Inr dm" | "dm = dm0"
      using e by (auto simp: network_list_Inr)
    then show ?thesis
    proof cases
      case (1 ol pl)
      let ?dm = "dm0\<lparr>number_of_pl_nodes := getLength lib pl, number_of_nodes := getLength lib ol + getLength lib pl\<rparr>"
      have "books (network_nodes ?dm) ?dm" using b(2) g0 by simp
      from nodes_read [OF 1 this] True f g0 show ?thesis by (simp add: same_settings_def)
    qed (use f g0 True in simp)
  qed
qed

lemma counted_mac:
  assumes "books nns dm" "nns = network_nodes dm" "number_of_nodes dm = length nns" "\<not> multilayer dm"
  shows "identifier_count dm = length nns + length (all_connections nns)" "counted dm \<longleftrightarrow> dm_fid_len dm = 32"
proof -
  have "length (concat (map (node_lids False) ns)) = length ns + length (all_connections ns)" for ns
    by (induction ns) (simp_all add: node_lids_def node_has_lid_def has_lid_def all_connections_def)
  then show i: "identifier_count dm = length nns + length (all_connections nns)" using assms(2,4) by (simp add: identifier_count_def)
  show "counted dm \<longleftrightarrow> dm_fid_len dm = 32"
    using assms i by (auto simp: counted_def books_def read_node_def)
qed

lemma has_lid_ml: "has_lid True = is_pp" "node_has_lid True nn \<longleftrightarrow> nn_type nn = ''PN''"
  by (simp_all add: fun_eq_iff has_lid_def is_pp_def node_has_lid_def)

lemma counted_ml:
  assumes "books nns dm" "nns = network_nodes dm" "multilayer dm"
  shows "counted dm \<longleftrightarrow> dm_fid_len dm = 32 \<and> length (filter (\<lambda>nn. nn_type nn = ''PN'') nns) = number_of_pl_nodes dm"
proof -
  have "length (concat (map (node_lids True) ns)) = length (filter (\<lambda>nn. nn_type nn = ''PN'') ns) + length (filter is_pp (all_connections ns))" for ns
    by (induction ns) (simp_all add: node_lids_def has_lid_ml all_connections_def)
  then have "identifier_count dm = length (filter (\<lambda>nn. nn_type nn = ''PN'') nns) + length (filter is_pp (all_connections nns))"
    using assms(2,3) by (simp add: identifier_count_def)
  then show ?thesis using assms by (auto simp: counted_def books_def read_node_def)
qed

text \<open>
  C30. What is read makes a domain. Whenever the parser succeeds, every connection starts at its node and
  ends at a label of the configured length, a node's label has that length too unless it was left out,
  the connections (and those between packet nodes) are counted, at most one node has the role of the
  rendezvous node and it is the one remembered, and the same for the topology manager. The number of identifiers
  the deployment will make is the number it gives out; in a multilayer domain only if the nodes of
  the list of packet nodes are those of the type of packet nodes.
\<close>

theorem configuration_gives_domain:
  assumes "buildNetworkDomain lib dir_exists file = Inr dm" and "nns = network_nodes dm"
  shows "(\<forall>nn \<in> set nns. (nn_label nn = [] \<or> int (length (nn_label nn)) = ba_id_len dm) \<and>
      (\<forall>nc \<in> set (nn_connections nn). nc_src_label nc = nn_label nn \<and> int (length (nc_dst_label nc)) = ba_id_len dm)) \<and>
    number_of_connections dm = length (all_connections nns) \<and> number_of_p_connections dm = length (filter is_pp (all_connections nns)) \<and>
    role_of nn_isRV nns (RV_node dm) \<and> role_of nn_isTM nns (TM_node dm) \<and>
    (counted dm \<longleftrightarrow> dm_fid_len dm = 32 \<and>
       (multilayer dm \<longrightarrow> length (filter (\<lambda>nn. nn_type nn = ''PN'') nns) = number_of_pl_nodes dm))"
proof -
  note r = configuration_read [OF assms(1), folded assms(2)]
  have "counted dm \<longleftrightarrow> dm_fid_len dm = 32 \<and> (multilayer dm \<longrightarrow> length (filter (\<lambda>nn. nn_type nn = ''PN'') nns) = number_of_pl_nodes dm)"
  proof (cases "multilayer dm")
    case True
    then show ?thesis using counted_ml [of nns dm] r assms(2) by simp
  next
    case False
    then show ?thesis using counted_mac(2) [of nns dm] r assms(2) by (simp add: multilayer_def)
  qed
  then show ?thesis using r by (auto simp: books_def read_node_def read_connection_def)
qed

text \<open>
  C14. Which files deploy. A file that is read, for mac mode with labels of eight bytes and identifiers of 32, gives a domain
  that makes sense (from which \<open>deploy\<close> makes a network that works) exactly when it has at most 256 nodes and
  connections, the labels are there and distinct, every connection ends at a node of the file, the addresses it gives are
  the interfaces', and both roles are taken.
\<close>

theorem configuration_deploys:
  assumes "buildNetworkDomain lib dir_exists file = Inr dm" and "nns = network_nodes dm"
    and "overlay_mode dm = ''mac''" and "ba_id_len dm = 8" and "dm_fid_len dm = 32"
  shows "domain_ok adr dm \<longleftrightarrow> length nns + length (all_connections nns) \<le> 256 \<and> distinct (map nn_label nns) \<and> [] \<notin> nn_label ` set nns \<and>
    (\<forall>nc \<in> set (all_connections nns). nc_dst_label nc \<in> nn_label ` set nns \<and> macs_given adr nc) \<and>
    RV_node dm \<noteq> None \<and> TM_node dm \<noteq> None"
proof -
  note r = configuration_read [OF assms(1), folded assms(2)]
  have m: "\<not> multilayer dm" "overlay_mode dm \<noteq> ''mac_ml''" using assms(3) by (simp_all add: multilayer_def)
  have n: "number_of_nodes dm = length nns" using r m(2) by simp
  have b: "books nns dm" using r by simp
  note c = counted_mac [OF b assms(2) n m(1)]
  have roles: "(\<exists>i < length nns. RV_node dm = Some i) \<longleftrightarrow> RV_node dm \<noteq> None" "(\<exists>i < length nns. TM_node dm = Some i) \<longleftrightarrow> TM_node dm \<noteq> None"
    using b by (auto simp: books_def role_of_def)
  have s: "\<forall>nn \<in> set nns. (nn_label nn = [] \<or> length (nn_label nn) = 8) \<and> (\<forall>nc \<in> set (nn_connections nn). nc_src_label nc = nn_label nn)"
    using b assms(4) by (auto simp: books_def read_node_def read_connection_def)
  have l: "[] \<notin> nn_label ` set nns \<longleftrightarrow> (\<forall>nn \<in> set nns. length (nn_label nn) = 8)"
    using s by force
  have "sound adr nns \<longleftrightarrow> distinct (map nn_label nns) \<and> [] \<notin> nn_label ` set nns \<and>
      (\<forall>nc \<in> set (all_connections nns). nc_dst_label nc \<in> nn_label ` set nns \<and> macs_given adr nc)"
    unfolding l using s by (auto simp: sound_def all_connections_def)
  then show ?thesis unfolding domain_ok_def using c assms(3,5) roles assms(2) by auto
qed

text \<open>
  A file without an overlay mode is accepted, although the option is mandatory: the option is looked up in the way that
  does not throw. Everything is made for the empty mode, and no node starts: the configuration written for it
  is refused.
\<close>

theorem missing_mode_stops_nodes:
  assumes "buildNetworkDomain lib dir_exists (Some root) = Inr dm" and "lookup_string lib root ''OVERLAY_MODE'' = None"
    and "writeClickFile (dm\<lparr>network_nodes := nns\<rparr>) nn = Some conf"
  shows "overlay_mode dm = [] \<and> GlobalConf_configure (Some (cf_globalconf conf)) = Some (Inl Wrong_Mode)"
proof -
  have m: "overlay_mode dm = []" using configuration_read [OF assms(1)] assms(2) by (simp add: given_def)
  from assms(3) have "ca_mode (cf_globalconf conf) = []"
    by (auto simp: writeClickFile_def write_globalconf_def m multilayer_def Let_def split: bind_splits)
  then show ?thesis using m by (simp add: GlobalConf_configure_def)
qed

subsection \<open>Attributes written and read\<close>

fun attribute_text :: "(string \<times> string) list \<Rightarrow> string" where
  "attribute_text [] = []"
| "attribute_text [(n, v)] = n @ ''='' @ v"
| "attribute_text ((n, v) # as) = n @ ''='' @ v @ '','' @ attribute_text as"

lemma find_from_at:
  assumes "c \<notin> set xs"
  shows "find_from c (pre @ xs @ c # ys) (length pre) = int (length pre + length xs)"
proof -
  have "takeWhile (\<lambda>d. d \<noteq> c) (xs @ c # ys) = xs" using assms by (induction xs) auto
  then show ?thesis by (simp add: find_from_def)
qed

lemma find_from_none: "c \<notin> set xs \<Longrightarrow> find_from c (pre @ xs) (length pre) = -1"
proof -
  assume "c \<notin> set xs"
  then have "length (takeWhile (\<lambda>d. d \<noteq> c) xs) = length xs" by (induction xs) auto
  then show ?thesis by (simp add: find_from_def Let_def del: takeWhile_eq_all_conv)
qed

lemma substr_between: "substr (pre @ xs @ ys) (length pre) (int (length xs)) = xs"
  by (simp add: substr_def)

definition plain_attribute :: "string \<times> string \<Rightarrow> bool" where
  "plain_attribute a \<longleftrightarrow> CHR ''='' \<notin> set (fst a) \<and> CHR '','' \<notin> set (fst a) \<and> CHR '','' \<notin> set (snd a)"

lemma parse_text_at:
  assumes "as \<noteq> []" "\<forall>a \<in> set as. plain_attribute a"
  shows "parse_attributes (pre @ attribute_text as) (length pre) = as"
  using assms
proof (induction as arbitrary: pre rule: attribute_text.induct)
  case (2 n v)
  have p: "CHR ''='' \<notin> set n" "CHR '','' \<notin> set (n @ ''='' @ v)" using 2 by (simp_all add: plain_attribute_def)
  have e: "find_from CHR ''='' (pre @ n @ ''='' @ v) (length pre) = int (length pre + length n)" using find_from_at [OF p(1), of pre v] by simp
  have c: "find_from CHR '','' (pre @ n @ ''='' @ v) (length pre) = -1" by (rule find_from_none [OF p(2)])
  have "substr (pre @ n @ ''='' @ v) (length pre) (int (length n)) = n" by (rule substr_between)
  moreover have "substr (pre @ n @ ''='' @ v) (nat (int (length pre + length n) + 1)) (- 1 - int (length pre + length n) - 1) = v"
    by (simp add: substr_def nat_add_distrib)
  ultimately show ?case by (subst parse_attributes.simps) (simp only: attribute_text.simps e c Let_def; simp)
next
  case (3 n v a as)
  let ?t = "attribute_text (a # as)"
  have p: "CHR ''='' \<notin> set n" "CHR '','' \<notin> set (n @ ''='' @ v)" using 3(3) by (simp_all add: plain_attribute_def)
  let ?s = "pre @ n @ ''='' @ v @ '','' @ ?t"
  have e: "find_from CHR ''='' ?s (length pre) = int (length pre + length n)" using find_from_at [OF p(1), of pre "v @ '','' @ ?t"] by simp
  have c: "find_from CHR '','' ?s (length pre) = int (length pre + length n + 1 + length v)"
    using find_from_at [OF p(2), of pre ?t] by simp
  have n: "substr ?s (length pre) (int (length n)) = n" by (rule substr_between)
  have v: "substr ?s (nat (int (length pre + length n) + 1)) (int (length pre + length n + 1 + length v) - int (length pre + length n) - 1) = v"
    using substr_between [of "pre @ n @ ''=''" v "'','' @ ?t"] by (simp add: nat_add_distrib)
  have r: "parse_attributes ?s (nat (int (length pre + length n + 1 + length v) + 1)) = a # as"
    using 3(1) [of "pre @ n @ ''='' @ v @ '',''"] 3(3) by (simp add: nat_add_distrib)
  have "attribute_text ((n, v) # a # as) = n @ ''='' @ v @ '','' @ ?t" by simp
  then show ?case by (subst parse_attributes.simps) (use n v r e c in \<open>simp add: Let_def\<close>)
qed simp

lemma attributes_roundtrip:
  assumes "as \<noteq> []" "\<forall>a \<in> set as. plain_attribute a"
  shows "parse_attributes (attribute_text as) 0 = as"
  using parse_text_at [OF assms, of "[]"] by simp

subsection \<open>An example\<close>

text \<open>Settings as libconfig has them, and the file of the example domain.\<close>

datatype ex_setting = Text string | Number int | Many "ex_setting list" | Group "(string \<times> ex_setting) list"

fun ex_member :: "ex_setting \<Rightarrow> string \<Rightarrow> ex_setting found" where
  "ex_member (Group kvs) k = (case map_of kvs k of None \<Rightarrow> Not_Found | Some v \<Rightarrow> Found v)"
| "ex_member _ k = Wrong_Type"

fun ex_text :: "ex_setting \<Rightarrow> string option" where "ex_text (Text t) = Some t" | "ex_text _ = None"
fun ex_number :: "ex_setting \<Rightarrow> int option" where "ex_number (Number n) = Some n" | "ex_number _ = None"
fun ex_many :: "ex_setting \<Rightarrow> ex_setting list" where "ex_many (Many s) = s" | "ex_many _ = []"

definition ex_libconfig :: "ex_setting libconfig" where
  "ex_libconfig = \<lparr>lookup_string = (\<lambda>s k. case ex_member s k of Found v \<Rightarrow> ex_text v | _ \<Rightarrow> None),
     lookup_int = (\<lambda>s k. case ex_member s k of Found v \<Rightarrow> ex_number v | _ \<Rightarrow> None), lookup_bool = (\<lambda>s k. None),
     member = ex_member, getLength = (\<lambda>s. length (ex_many s)), element = (\<lambda>s i. ex_many s ! i), as_int = ex_number, as_string = ex_text\<rparr>"

definition ex_node_setting :: "string \<Rightarrow> string \<Rightarrow> (string \<times> ex_setting) list \<Rightarrow> ex_setting" where
  "ex_node_setting l to opts = Group ([(''label'', Text l), (''testbed_ip'', Text ''10.0.0.1''), (''running_mode'', Text ''user''),
     (''connections'', Many [Group [(''to'', Text to), (''src_if'', Text ''eth0''), (''dst_if'', Text ''eth0''),
       (''src_ip'', Text ''10.0.0.1''), (''dst_ip'', Text ''10.0.0.2'')]])] @ opts)"

definition ex_file :: "(string \<times> ex_setting) list \<Rightarrow> ex_setting" where
  "ex_file opts = Group ([(''BLACKADDER_ID_LENGTH'', Number 8), (''LIPSIN_ID_LENGTH'', Number 32), (''CLICK_HOME'', Text ''/opt''),
     (''WRITE_CONF'', Text ''/tmp''), (''network'', Group [(''nodes'', Many [
       ex_node_setting ''AAAAAAAA'' ''BBBBBBBB'' [(''role'', Many [Text ''RV'', Text ''TM''])], ex_node_setting ''BBBBBBBB'' ''AAAAAAAA'' []])])] @ opts)"

definition ex_read :: "(string \<times> ex_setting) list \<Rightarrow> domain" where
  "ex_read opts = (case buildNetworkDomain ex_libconfig (\<lambda>d. True) (Some (ex_file opts)) of Inr dm \<Rightarrow> dm | Inl _ \<Rightarrow> new_domain)"

definition ex_mac :: "(string \<times> ex_setting) list" where "ex_mac = [(''OVERLAY_MODE'', Text ''mac'')]"

lemma ex_reads: "buildNetworkDomain ex_libconfig (\<lambda>d. True) (Some (ex_file ex_mac)) = Inr (ex_read ex_mac)"
    "buildNetworkDomain ex_libconfig (\<lambda>d. True) (Some (ex_file [])) = Inr (ex_read [])"
  by code_simp+

lemma ex_read_fields: "overlay_mode (ex_read ex_mac) = ''mac''" "ba_id_len (ex_read ex_mac) = 8" "dm_fid_len (ex_read ex_mac) = 32"
    "length (network_nodes (ex_read ex_mac)) = 2" "length (all_connections (network_nodes (ex_read ex_mac))) = 2"
    "map nn_label (network_nodes (ex_read ex_mac)) = [ex_node 65, ex_node 66]"
    "map nc_dst_label (all_connections (network_nodes (ex_read ex_mac))) = [ex_node 66, ex_node 65]"
    "map (\<lambda>nc. (nc_src_mac nc, nc_dst_mac nc)) (all_connections (network_nodes (ex_read ex_mac))) = [([], []), ([], [])]"
    "RV_node (ex_read ex_mac) = Some 0" "TM_node (ex_read ex_mac) = Some 0"
  by code_simp+

theorem configuration_gives_domain_witness:
  "number_of_connections (ex_read ex_mac) = 2 \<and> role_of nn_isRV (network_nodes (ex_read ex_mac)) (Some 0) \<and> counted (ex_read ex_mac)"
proof -
  have "\<not> multilayer (ex_read ex_mac)" by (simp add: multilayer_def ex_read_fields(1))
  then show ?thesis using configuration_gives_domain [OF ex_reads(1) refl] unfolding ex_read_fields by blast
qed

theorem configuration_deploys_witness: "domain_ok ex_adr (ex_read ex_mac)"
proof -
  let ?nns = "network_nodes (ex_read ex_mac)"
  have l: "nn_label ` set ?nns = {ex_node 65, ex_node 66}" unfolding set_map [symmetric] ex_read_fields by simp
  have d: "distinct (map nn_label ?nns)" unfolding ex_read_fields by (simp add: ex_node_def)
  have "nc_dst_label ` set (all_connections ?nns) \<subseteq> {ex_node 65, ex_node 66}" unfolding set_map [symmetric] ex_read_fields by simp
  moreover have "(\<lambda>nc. (nc_src_mac nc, nc_dst_mac nc)) ` set (all_connections ?nns) \<subseteq> {([], [])}" unfolding set_map [symmetric] ex_read_fields by simp
  ultimately have "\<forall>nc \<in> set (all_connections ?nns). nc_dst_label nc \<in> nn_label ` set ?nns \<and> macs_given ex_adr nc"
    unfolding l by (auto simp: macs_given_def)
  moreover have "[] \<notin> nn_label ` set ?nns" unfolding l by (simp add: ex_node_def)
  ultimately show ?thesis
    using configuration_deploys [OF ex_reads(1) refl ex_read_fields(1-3), of ex_adr] ex_read_fields(4,5,9,10) d by simp
qed

theorem missing_mode_stops_nodes_witness:
  "\<exists>conf. writeClickFile ((ex_read [])\<lparr>network_nodes := []\<rparr>) (new_node\<lparr>nn_label := ex_node 65, nn_iLid := no_lid, nn_FID_to_RV := no_lid, nn_FID_to_TM := no_lid\<rparr>) = Some conf \<and>
    overlay_mode (ex_read []) = [] \<and> GlobalConf_configure (Some (cf_globalconf conf)) = Some (Inl Wrong_Mode)"
proof -
  let ?nn = "new_node\<lparr>nn_label := ex_node 65, nn_iLid := no_lid, nn_FID_to_RV := no_lid, nn_FID_to_TM := no_lid\<rparr>"
  have n: "lookup_string ex_libconfig (ex_file []) ''OVERLAY_MODE'' = None" by code_simp
  have m: "overlay_mode (ex_read []) = []" by code_simp
  obtain conf where c: "writeClickFile ((ex_read [])\<lparr>network_nodes := []\<rparr>) ?nn = Some conf"
    by (simp add: writeClickFile_def write_globalconf_def to_lid_text [OF no_lid_bits(1)] m multilayer_def new_node_def)
  show ?thesis using missing_mode_stops_nodes [OF ex_reads(2) n c] c by blast
qed

end
