(* ===== verification/BA_QoSPacket.thy ===== *)
theory BA_QoSPacket
  imports BA_Forwarder BA_Wire
begin

text \<open>
  The packets of the quality-of-service extension. \<^verbatim>\<open>lib/qos/bytearray.cpp\<close>: an array of bytes with
  reading and writing of up to 64 bits at any bit position. \<^verbatim>\<open>src/tm_ext/lsmpacket.cc\<close> and its library
  version \<^verbatim>\<open>lib/qos/lsmpacket.cpp\<close>: link-state reports. \<^verbatim>\<open>lib/qos/metadatapacket.cpp\<close>: the
  values of an information item. What is written is read back, for the element's reports and the metadata;
  the library's reports cannot be read.
\<close>

subsection \<open>Byte arrays\<close>

text \<open>
  \<^verbatim>\<open>lib/qos/bytearray.cpp\<close> (the Click element's copy \<^verbatim>\<open>src/tm_ext/bytearray.cc\<close> differs
  in comments and loops written out). An array is its contents. \<^verbatim>\<open>new byte[n]\<close> leaves
  whatever the memory held: what it held is an argument, \<open>fresh\<close>, by index in the array. \<open>None\<close> is undefined: an access
  outside the array, or a shift by more than the width of an int.
\<close>

type_synonym bytearray = bstr

definition ByteArray_new :: "nat \<Rightarrow> bytearray" where
  "ByteArray_new len = replicate len 0"

definition ba_at :: "bytearray \<Rightarrow> nat \<Rightarrow> byte option" where
  "ba_at a i = (if i < length a then Some (a ! i) else None)"

definition ba_put :: "nat \<Rightarrow> byte \<Rightarrow> bytearray \<Rightarrow> bytearray option" where
  "ba_put i b a = (if i < length a then Some (a[i := b]) else None)"

definition ba_zero :: "bytearray \<Rightarrow> bytearray" where
  "ba_zero a = map (\<lambda>_. 0) a"

definition ba_one :: "bytearray \<Rightarrow> bytearray" where
  "ba_one a = map (\<lambda>_. 1) a"

definition ba_zero_range :: "nat \<Rightarrow> nat \<Rightarrow> nat \<Rightarrow> bytearray \<Rightarrow> bytearray" where
  "ba_zero_range len from to a =
     (let (from, to) = (if from > to then (to, from) else (from, to)) in
      if to > len then a else fold (\<lambda>i a. a[i := 0]) [from..<to] a)"

definition ba_extend :: "nat \<Rightarrow> (nat \<Rightarrow> byte) \<Rightarrow> bytearray \<Rightarrow> bytearray" where
  "ba_extend ext_size fresh a = a @ map fresh [length a..<length a + ext_size]"

text \<open>\<^verbatim>\<open>pretend\<close> clears the new front while \<^verbatim>\<open>size\<close> is still the old one.\<close>

definition ba_pretend :: "nat \<Rightarrow> (nat \<Rightarrow> byte) \<Rightarrow> bytearray \<Rightarrow> bytearray" where
  "ba_pretend ext_size fresh a = ba_zero_range (length a) 0 ext_size (map fresh [0..<ext_size] @ a)"

subsubsection \<open>Bits\<close>

definition getLowMask :: "nat \<Rightarrow> 64 word option" where
  "getLowMask num = (if num > 64 then Some 0 else if num > 31 then None
     else Some (fold (\<lambda>i res. res OR ucast (push_bit i 1 :: byte)) [0..<num] 0))"

definition setBits8 :: "byte \<Rightarrow> nat \<Rightarrow> nat \<Rightarrow> nat \<Rightarrow> bytearray \<Rightarrow> bytearray option" where
  "setBits8 b lownum offset_bytes offsetbits a =
     (if lownum > 8 \<or> offsetbits > 8 then Some a
      else if a \<noteq> [] \<and> offset_bytes > length a - 1 then Some a
      else if lownum div 8 + offset_bytes > length a then Some a
      else do {
        low \<leftarrow> getLowMask lownum;
        let mask = (ucast low :: byte);
        let b = push_bit (8 - lownum) (b AND mask);
        let mask = push_bit (8 - lownum) mask;
        if lownum + offsetbits \<le> 8 then do {
          let b = drop_bit offsetbits b;
          let mask = NOT (drop_bit offsetbits mask);
          x \<leftarrow> ba_at a offset_bytes;
          ba_put offset_bytes (x AND mask OR b) a
        }
        else do {
          let b2 = drop_bit offsetbits (push_bit 8 (ucast b :: 16 word));
          let mask2 = NOT (drop_bit offsetbits (push_bit 8 (ucast mask :: 16 word)));
          let mask2a = (ucast (drop_bit 8 mask2) :: byte);
          let mask2b = (ucast (mask2 AND 0x00FF) :: byte);
          let b2a = (ucast (drop_bit 8 b2) :: byte);
          let b2b = (ucast (b2 AND 0x00FF) :: byte);
          x \<leftarrow> ba_at a offset_bytes;
          a \<leftarrow> ba_put offset_bytes (x AND mask2a) a;
          y \<leftarrow> ba_at a (offset_bytes + 1);
          a \<leftarrow> ba_put (offset_bytes + 1) (y AND mask2b) a;
          x \<leftarrow> ba_at a offset_bytes;
          a \<leftarrow> ba_put offset_bytes (x OR b2a) a;
          y \<leftarrow> ba_at a (offset_bytes + 1);
          ba_put (offset_bytes + 1) (y OR b2b) a
        }
      })"

text \<open>
  The loop over the bytes of a 64-bit value; the bits that do not fill a byte are handled at \<^verbatim>\<open>i == 0\<close> only,
  where the loop starts for more than 56 bits.
\<close>

fun setBits64_loop :: "64 word \<Rightarrow> nat \<Rightarrow> nat \<Rightarrow> nat list \<Rightarrow> nat \<Rightarrow> nat \<Rightarrow> bytearray \<Rightarrow> bytearray option" where
  "setBits64_loop b lownum to [] offset_bytes offsetbits a = Some a"
| "setBits64_loop b lownum to (i # is) offset_bytes offsetbits a =
     (if i = 0 \<and> lownum mod 8 > 0 then do {
        let bits = lownum mod 8;
        a \<leftarrow> setBits8 (ucast (drop_bit ((to - 1) * 8) b)) bits offset_bytes offsetbits a;
        let offsetbits = offsetbits + bits;
        if offsetbits > 8 then setBits64_loop b lownum to is (offset_bytes + 1) (offsetbits mod 8) a
        else setBits64_loop b lownum to is offset_bytes offsetbits a
      }
      else do {
        a \<leftarrow> setBits8 (ucast (drop_bit ((8 - 1) * 8) (push_bit (i * 8) b))) 8 offset_bytes offsetbits a;
        setBits64_loop b lownum to is (offset_bytes + 1) offsetbits a
      })"

definition setBits64 :: "64 word \<Rightarrow> nat \<Rightarrow> nat \<Rightarrow> nat \<Rightarrow> bytearray \<Rightarrow> bytearray option" where
  "setBits64 b lownum offset_bytes offsetbits a =
     (if lownum div 8 + offset_bytes > length a then Some a
      else if lownum > 64 then None
      else let to = (lownum + 7) div 8 in setBits64_loop b lownum to [8 - to..<8] offset_bytes offsetbits a)"

fun setBytes_loop :: "bstr \<Rightarrow> nat \<Rightarrow> nat \<Rightarrow> bytearray \<Rightarrow> bytearray option" where
  "setBytes_loop [] offset_bytes offsetbits a = Some a"
| "setBytes_loop (b # bs) offset_bytes offsetbits a = do {
     a \<leftarrow> (if offsetbits = 0 then ba_put offset_bytes b a else setBits8 b 8 offset_bytes offsetbits a);
     setBytes_loop bs (offset_bytes + 1) offsetbits a
   }"

definition setBytes :: "bstr \<Rightarrow> nat \<Rightarrow> nat \<Rightarrow> bytearray \<Rightarrow> bytearray option" where
  "setBytes bs offset_bytes offsetbits a =
     (if length bs + offset_bytes > length a then Some a else setBytes_loop bs offset_bytes offsetbits a)"

text \<open>\<^verbatim>\<open>append\<close>: extends, then copies.\<close>

definition ba_append :: "bstr \<Rightarrow> (nat \<Rightarrow> byte) \<Rightarrow> bytearray \<Rightarrow> bytearray option" where
  "ba_append ext_data fresh a = setBytes ext_data (length a) 0 (ba_extend (length ext_data) fresh a)"

text \<open>\<^verbatim>\<open>setBytes\<close> of a string counts in a \<^verbatim>\<open>uint8_t\<close>: a loop that may not end.\<close>

partial_function (option) setStr_loop :: "bstr \<Rightarrow> byte \<Rightarrow> nat \<Rightarrow> nat \<Rightarrow> bytearray \<Rightarrow> bytearray option" where
  "setStr_loop str i offset_bytes offsetbits a =
     (if unat i < length str then do {
        a \<leftarrow> setBits8 (str ! unat i) 8 offset_bytes offsetbits a;
        setStr_loop str (i + 1) (offset_bytes + 1) offsetbits a
      } else Some a)"

declare setStr_loop.simps [code]

definition setStr :: "bstr \<Rightarrow> nat \<Rightarrow> nat \<Rightarrow> bytearray \<Rightarrow> bytearray option" where
  "setStr str offset_bytes offsetbits a =
     (if length str + offset_bytes > length a then Some a else setStr_loop str 0 offset_bytes offsetbits a)"

definition getBits8_ORLESS :: "nat \<Rightarrow> nat \<Rightarrow> nat \<Rightarrow> bytearray \<Rightarrow> byte option" where
  "getBits8_ORLESS num offset_bytes offsetbits a =
     (if num > 8 then Some 0
      else if num + offsetbits \<le> 8 then do {
        res \<leftarrow> ba_at a offset_bytes;
        Some (drop_bit (8 - num) (push_bit offsetbits res))
      }
      else if num + offsetbits > 16 then None
      else do {
        res \<leftarrow> ba_at a offset_bytes;
        let res = drop_bit offsetbits (push_bit offsetbits res);
        let res = push_bit (num + offsetbits - 8) res;
        y \<leftarrow> ba_at a (offset_bytes + 1);
        Some (res OR drop_bit (16 - num - offsetbits) y)
      })"

fun getBits_loop :: "nat \<Rightarrow> nat list \<Rightarrow> nat \<Rightarrow> nat \<Rightarrow> bytearray \<Rightarrow> 64 word \<Rightarrow> 64 word option" where
  "getBits_loop num [] offset_bytes offsetbits a res = Some res"
| "getBits_loop num (i # is) offset_bytes offsetbits a res =
     (if i = 0 \<and> num mod 8 > 0 then do {
        let bits = num mod 8;
        r \<leftarrow> getBits8_ORLESS bits offset_bytes offsetbits a;
        let offsetbits = offsetbits + bits;
        if offsetbits > 8 then getBits_loop num is (offset_bytes + 1) (offsetbits mod 8) a (ucast r)
        else getBits_loop num is offset_bytes offsetbits a (ucast r)
      }
      else do {
        r \<leftarrow> getBits8_ORLESS 8 offset_bytes offsetbits a;
        getBits_loop num is (offset_bytes + 1) offsetbits a (push_bit 8 res OR ucast r)
      })"

definition getBits :: "nat \<Rightarrow> nat \<Rightarrow> nat \<Rightarrow> bytearray \<Rightarrow> 64 word option" where
  "getBits num offset_bytes offsetbits a = getBits_loop num [0..<(num + 7) div 8] offset_bytes offsetbits a 0"

fun getStr_loop :: "nat \<Rightarrow> nat \<Rightarrow> nat \<Rightarrow> bytearray \<Rightarrow> bstr option" where
  "getStr_loop 0 offset_bytes offsetbits a = Some []"
| "getStr_loop (Suc n) offset_bytes offsetbits a = do {
     c \<leftarrow> getBits8_ORLESS 8 offset_bytes offsetbits a;
     cs \<leftarrow> getStr_loop n (offset_bytes + 1) offsetbits a;
     Some (c # cs)
   }"

definition getStrBytes :: "byte \<Rightarrow> nat \<Rightarrow> nat \<Rightarrow> bytearray \<Rightarrow> bstr option" where
  "getStrBytes num offset_bytes offsetbits a =
     (if unat num + offset_bytes > length a then Some [] else getStr_loop (unat num) offset_bytes offsetbits a)"

subsubsection \<open>Operators\<close>

text \<open>\<^verbatim>\<open>operator+\<close> copies \<^verbatim>\<open>size\<close> bytes of the right operand, the length of the left one.\<close>

definition ba_plus :: "(nat \<Rightarrow> byte) \<Rightarrow> bytearray \<Rightarrow> bytearray \<Rightarrow> bytearray option" where
  "ba_plus fresh a b = (if length b < length a then None
     else Some (a @ take (length a) b @ map fresh [2 * length a..<length a + length b]))"

definition ba_equal :: "bytearray \<Rightarrow> bytearray \<Rightarrow> bool" where
  "ba_equal a b \<longleftrightarrow> length a = length b \<and> (\<forall>i < length a. a ! i = b ! i)"

subsection \<open>What the bit operations do\<close>

text \<open>The bits of an array in the order they are written: the most significant of a byte first.\<close>

definition ba_bit :: "bytearray \<Rightarrow> nat \<Rightarrow> bool" where
  "ba_bit a j = bit (a ! (j div 8)) (7 - j mod 8)"

lemma getLowMask_eq: "l \<le> 8 \<Longrightarrow> map_option ucast (getLowMask l) = Some (mask l :: byte)"
proof -
  have "\<forall>l < 9. map_option ucast (getLowMask l) = Some (mask l :: byte)" by code_simp
  then show "l \<le> 8 \<Longrightarrow> ?thesis" by simp
qed

lemma one_byte_bits:
  fixes x b :: byte
  assumes "l + ob \<le> 8" "k < 8"
  shows "bit (x AND NOT (drop_bit ob (push_bit (8 - l) (mask l))) OR drop_bit ob (push_bit (8 - l) (b AND mask l))) k =
    (if 8 - l - ob \<le> k \<and> k < 8 - ob then bit b (ob + k + l - 8) else bit x k)"
  using assms by (auto simp: bit_simps)

lemma two_byte_bits:
  fixes x b :: byte
  assumes "8 < l + ob" "l \<le> 8" "ob \<le> 8" "k < 8"
  shows "bit (x AND ucast (drop_bit 8 (NOT (drop_bit ob (push_bit 8 (ucast (push_bit (8 - l) (mask l) :: byte) :: 16 word))))) OR
      ucast (drop_bit 8 (drop_bit ob (push_bit 8 (ucast (push_bit (8 - l) (b AND mask l)) :: 16 word))))) k =
    (if k < 8 - ob then bit b (ob + k + l - 8) else bit x k)"
    and "bit (x AND ucast (NOT (drop_bit ob (push_bit 8 (ucast (push_bit (8 - l) (mask l) :: byte) :: 16 word))) AND 0x00FF) OR
      ucast (drop_bit ob (push_bit 8 (ucast (push_bit (8 - l) (b AND mask l)) :: 16 word)) AND 0x00FF)) k =
    (if 16 - l - ob \<le> k then bit b (ob + k + l - 16) else bit x k)"
proof -
  have ff: "(0x00FF :: 16 word) = mask 8" by (simp add: mask_eq_decr_exp)
  show "bit (x AND ucast (drop_bit 8 (NOT (drop_bit ob (push_bit 8 (ucast (push_bit (8 - l) (mask l) :: byte) :: 16 word))))) OR
      ucast (drop_bit 8 (drop_bit ob (push_bit 8 (ucast (push_bit (8 - l) (b AND mask l)) :: 16 word))))) k =
    (if k < 8 - ob then bit b (ob + k + l - 8) else bit x k)"
    using assms by (auto simp: bit_simps)
  show "bit (x AND ucast (NOT (drop_bit ob (push_bit 8 (ucast (push_bit (8 - l) (mask l) :: byte) :: 16 word))) AND 0x00FF) OR
      ucast (drop_bit ob (push_bit 8 (ucast (push_bit (8 - l) (b AND mask l)) :: 16 word)) AND 0x00FF)) k =
    (if 16 - l - ob \<le> k then bit b (ob + k + l - 16) else bit x k)"
    using assms unfolding ff by (auto simp: bit_simps)
qed

lemma bit_at: "ba_bit a (8 * d + m) = bit (a ! d) (7 - m)" if "m < 8"
  using that by (simp add: ba_bit_def)

lemma setBits8_ok:
  assumes "0 < l" "l \<le> 8" "ob \<le> 8" "8 * off + ob + l \<le> 8 * length a"
  shows "\<exists>a'. setBits8 b l off ob a = Some a' \<and> length a' = length a \<and>
    (\<forall>j < 8 * length a. ba_bit a' j =
      (if 8 * off + ob \<le> j \<and> j < 8 * off + ob + l then bit b (8 * off + ob + l - 1 - j) else ba_bit a j))"
proof -
  obtain low where low: "getLowMask l = Some low" "ucast low = (mask l :: byte)" using getLowMask_eq [OF assms(2)] by auto
  have off: "off < length a" "(length a - Suc 0 < off) = False" "(length a < l div 8 + off) = False" using assms by auto
  show ?thesis
  proof (cases "l + ob \<le> 8")
    case True
    let ?X = "a ! off AND NOT (drop_bit ob (push_bit (8 - l) (mask l))) OR drop_bit ob (push_bit (8 - l) (b AND mask l))"
    have e: "setBits8 b l off ob a = Some (a[off := ?X])"
      using assms(2,3) off low True by (simp add: setBits8_def ba_at_def ba_put_def Let_def)
    have "ba_bit (a[off := ?X]) j = (if 8 * off + ob \<le> j \<and> j < 8 * off + ob + l then bit b (8 * off + ob + l - 1 - j) else ba_bit a j)"
      if "j < 8 * length a" for j
    proof -
      define d m where "d = j div 8" "m = j mod 8"
      then have j: "j = 8 * d + m" "m < 8" by simp_all
      show ?thesis
      proof (cases "d = off")
        case True
        have "ba_bit (a[off := ?X]) j = bit ?X (7 - m)" using j off(1) True by (simp add: bit_at)
        also have "\<dots> = (if 8 - l - ob \<le> 7 - m \<and> 7 - m < 8 - ob then bit b (ob + (7 - m) + l - 8) else bit (a ! off) (7 - m))"
          by (rule one_byte_bits [OF \<open>l + ob \<le> 8\<close>]) simp
        also have "\<dots> = (if 8 * off + ob \<le> j \<and> j < 8 * off + ob + l then bit b (8 * off + ob + l - 1 - j) else ba_bit a j)"
        proof -
          have c: "(8 - l - ob \<le> 7 - m \<and> 7 - m < 8 - ob) = (8 * off + ob \<le> j \<and> j < 8 * off + ob + l)"
            using j True assms(1) \<open>l + ob \<le> 8\<close> by auto
          have "8 * off + ob \<le> j \<Longrightarrow> j < 8 * off + ob + l \<Longrightarrow> ob + (7 - m) + l - 8 = 8 * off + ob + l - 1 - j" using j True by simp
          then show ?thesis unfolding c using j True by (simp add: bit_at)
        qed
        finally show ?thesis .
      next
        case False
        then have n: "\<not> (8 * off + ob \<le> j \<and> j < 8 * off + ob + l)" using j \<open>l + ob \<le> 8\<close> by auto
        show ?thesis unfolding if_not_P [OF n] using False j by (simp add: bit_at)
      qed
    qed
    then show ?thesis using e by simp
  next
    case False
    then have g: "8 < l + ob" by simp
    have off1: "off + 1 < length a" using assms(4) g by simp
    let ?X = "a ! off AND ucast (drop_bit 8 (NOT (drop_bit ob (push_bit 8 (ucast (push_bit (8 - l) (mask l) :: byte) :: 16 word))))) OR
      ucast (drop_bit 8 (drop_bit ob (push_bit 8 (ucast (push_bit (8 - l) (b AND mask l)) :: 16 word))))"
    let ?Y = "a ! (off + 1) AND ucast (NOT (drop_bit ob (push_bit 8 (ucast (push_bit (8 - l) (mask l) :: byte) :: 16 word))) AND 0x00FF) OR
      ucast (drop_bit ob (push_bit 8 (ucast (push_bit (8 - l) (b AND mask l)) :: 16 word)) AND 0x00FF)"
    let ?a = "a[off := ?X, off + 1 := ?Y]"
    have e: "setBits8 b l off ob a = Some ?a"
      using assms(2,3) off off1 low False by (simp add: setBits8_def ba_at_def ba_put_def Let_def list_update_swap)
    have "ba_bit ?a j = (if 8 * off + ob \<le> j \<and> j < 8 * off + ob + l then bit b (8 * off + ob + l - 1 - j) else ba_bit a j)"
      if "j < 8 * length a" for j
    proof -
      define d m where "d = j div 8" "m = j mod 8"
      then have j: "j = 8 * d + m" "m < 8" by simp_all
      consider "d = off" | "d = off + 1" | "d \<noteq> off" "d \<noteq> off + 1" by blast
      then show ?thesis
      proof cases
        case 1
        have "ba_bit ?a j = bit ?X (7 - m)" using j off(1) 1 by (simp add: bit_at)
        also have "\<dots> = (if 7 - m < 8 - ob then bit b (ob + (7 - m) + l - 8) else bit (a ! off) (7 - m))"
          by (rule two_byte_bits(1) [OF g assms(2,3)]) simp
        also have "\<dots> = (if 8 * off + ob \<le> j \<and> j < 8 * off + ob + l then bit b (8 * off + ob + l - 1 - j) else ba_bit a j)"
        proof -
          have c: "(7 - m < 8 - ob) = (8 * off + ob \<le> j \<and> j < 8 * off + ob + l)" using j 1 g by auto
          have "8 * off + ob \<le> j \<Longrightarrow> j < 8 * off + ob + l \<Longrightarrow> ob + (7 - m) + l - 8 = 8 * off + ob + l - 1 - j" using j 1 by simp
          then show ?thesis unfolding c using j 1 by (simp add: bit_at)
        qed
        finally show ?thesis .
      next
        case 2
        have "ba_bit ?a j = bit ?Y (7 - m)" unfolding j(1) bit_at [OF j(2)] using off1 2 by simp
        also have "\<dots> = (if 16 - l - ob \<le> 7 - m then bit b (ob + (7 - m) + l - 16) else bit (a ! (off + 1)) (7 - m))"
          by (rule two_byte_bits(2) [OF g assms(2,3)]) simp
        also have "\<dots> = (if 8 * off + ob \<le> j \<and> j < 8 * off + ob + l then bit b (8 * off + ob + l - 1 - j) else ba_bit a j)"
        proof -
          have c: "(16 - l - ob \<le> 7 - m) = (8 * off + ob \<le> j \<and> j < 8 * off + ob + l)" using j 2 g assms(2,3) by auto
          have "8 * off + ob \<le> j \<Longrightarrow> j < 8 * off + ob + l \<Longrightarrow> ob + (7 - m) + l - 16 = 8 * off + ob + l - 1 - j" using j 2 by simp
          moreover have "ba_bit a j = bit (a ! (off + 1)) (7 - m)" unfolding j(1) bit_at [OF j(2)] using 2 by simp
          ultimately show ?thesis unfolding c by simp
        qed
        finally show ?thesis .
      next
        case 3
        then have n: "\<not> (8 * off + ob \<le> j \<and> j < 8 * off + ob + l)" using j assms(2,3) by auto
        show ?thesis unfolding if_not_P [OF n] using 3 j by (simp add: bit_at)
      qed
    qed
    then show ?thesis using e by (intro exI [of _ ?a]) simp
  qed
qed

text \<open>What is read: the bits at the position, the first of them the most significant.\<close>

lemma getBits8_ok:
  assumes "0 < n" "n \<le> 8" "ob \<le> 8" "8 * off + ob + n \<le> 8 * length a"
  shows "\<exists>r. getBits8_ORLESS n off ob a = Some r \<and> (\<forall>k. bit r k \<longleftrightarrow> k < n \<and> ba_bit a (8 * off + ob + n - 1 - k))"
proof (cases "n + ob \<le> 8")
  case True
  have off: "off < length a" using assms by simp
  have e: "getBits8_ORLESS n off ob a = Some (drop_bit (8 - n) (push_bit ob (a ! off)))"
    using assms(2) True off by (simp add: getBits8_ORLESS_def ba_at_def)
  have "bit (drop_bit (8 - n) (push_bit ob (a ! off))) k \<longleftrightarrow> k < n \<and> ba_bit a (8 * off + ob + n - 1 - k)" for k
  proof (cases "k < n")
    case k: True
    have i: "8 * off + ob + n - 1 - k = 8 * off + (ob + n - 1 - k)" "ob + n - 1 - k < 8" using k True by auto
    have "bit (drop_bit (8 - n) (push_bit ob (a ! off))) k \<longleftrightarrow> bit (a ! off) (8 - n + k - ob)" using k True assms(2) by (auto simp: bit_simps)
    moreover have "8 - n + k - ob = 7 - (ob + n - 1 - k)" using k True by simp
    ultimately show ?thesis using k unfolding i(1) bit_at [OF i(2)] by simp
  qed (use assms(2) in \<open>auto simp: bit_simps\<close>)
  then show ?thesis using e by simp
next
  case False
  then have g: "8 < n + ob" by simp
  have off: "off < length a" "off + 1 < length a" using assms(4) g by auto
  let ?r = "push_bit (n + ob - 8) (drop_bit ob (push_bit ob (a ! off))) OR drop_bit (16 - n - ob) (a ! (off + 1))"
  have e: "getBits8_ORLESS n off ob a = Some ?r"
    using assms(2,3) g off by (simp add: getBits8_ORLESS_def ba_at_def Let_def)
  have "bit ?r k \<longleftrightarrow> k < n \<and> ba_bit a (8 * off + ob + n - 1 - k)" for k
  proof -
    consider "n \<le> k" | "n + ob - 8 \<le> k" "k < n" | "k < n + ob - 8" by linarith
    then show ?thesis
    proof cases
      case 1
      then show ?thesis using g assms(2,3) by (auto simp: bit_simps dest: bit_imp_le_length)
    next
      case 2
      have i: "8 * off + ob + n - 1 - k = 8 * off + (ob + n - 1 - k)" "ob + n - 1 - k < 8" using 2 g by auto
      have j: "7 - (ob + n - 1 - k) = k - (n + ob - 8)" using 2 g by simp
      have h: "\<not> bit (a ! (off + 1)) (16 - n - ob + k)" using 2 g assms(2,3) by (auto dest: bit_imp_le_length)
      show ?thesis using 2 g assms(2,3) h unfolding i(1) bit_at [OF i(2)] j by (auto simp: bit_simps)
    next
      case 3
      have i: "8 * off + ob + n - 1 - k = 8 * (off + 1) + (ob + n - 9 - k)" "ob + n - 9 - k < 8" using 3 g assms(2,3) by auto
      have j: "7 - (ob + n - 9 - k) = 16 - n - ob + k" using 3 g assms(2,3) by simp
      show ?thesis using 3 g assms(2,3) unfolding i(1) bit_at [OF i(2)] j by (auto simp: bit_simps)
    qed
  qed
  then show ?thesis using e by blast
qed

text \<open>
  Bits written are the bits read. Up to eight bits written at any bit position inside an array are what a
  read of as many bits there returns, whether they lie in one byte or across two, and every other bit of
  the array is unchanged.
\<close>

theorem bits_roundtrip:
  assumes "0 < l" and "l \<le> 8" and "ob \<le> 8" and "8 * off + ob + l \<le> 8 * length a"
  shows "\<exists>a'. setBits8 b l off ob a = Some a' \<and> length a' = length a \<and> getBits8_ORLESS l off ob a' = Some (b AND mask l) \<and>
    (\<forall>j < 8 * length a. \<not> (8 * off + ob \<le> j \<and> j < 8 * off + ob + l) \<longrightarrow> ba_bit a' j = ba_bit a j)"
proof -
  from setBits8_ok [OF assms, of b] obtain a' where
    s: "setBits8 b l off ob a = Some a'" "length a' = length a" and
    w: "\<forall>j < 8 * length a. ba_bit a' j =
      (if 8 * off + ob \<le> j \<and> j < 8 * off + ob + l then bit b (8 * off + ob + l - 1 - j) else ba_bit a j)" by blast
  from getBits8_ok [OF assms(1-3), of off a'] s(2) assms(4) obtain r where
    r: "getBits8_ORLESS l off ob a' = Some r" "\<forall>k. bit r k \<longleftrightarrow> k < l \<and> ba_bit a' (8 * off + ob + l - 1 - k)" by auto
  have "bit r k = bit (b AND mask l) k" for k
  proof (cases "k < l")
    case True
    then have "8 * off + ob + l - 1 - k < 8 * length a" "8 * off + ob \<le> 8 * off + ob + l - 1 - k" "8 * off + ob + l - 1 - k < 8 * off + ob + l"
      "8 * off + ob + l - 1 - (8 * off + ob + l - 1 - k) = k" using assms(1,4) by auto
    then have "ba_bit a' (8 * off + ob + l - 1 - k) = bit b k" using w by simp
    then show ?thesis using True r(2) assms(2) by (auto simp: bit_simps)
  qed (use r(2) in \<open>simp add: bit_simps\<close>)
  then have "r = b AND mask l" by (intro bit_eqI) simp
  then show ?thesis using s r(1) w by auto
qed

subsection \<open>Lists of values\<close>

text \<open>\<^verbatim>\<open>std::map<uint8_t, uint16_t>\<close>: sorted by key; an assignment inserts or replaces.\<close>

type_synonym qos_list = "(byte \<times> 16 word) list"

fun qos_set :: "byte \<Rightarrow> 16 word \<Rightarrow> qos_list \<Rightarrow> qos_list" where
  "qos_set k v [] = [(k, v)]"
| "qos_set k v ((k', v') # q) =
     (if k < k' then (k, v) # (k', v') # q else if k = k' then (k, v) # q else (k', v') # qos_set k v q)"

abbreviation (input) QoS_ITEM_SIZE :: nat where "QoS_ITEM_SIZE \<equiv> 3"

text \<open>The loops that write the items of a list and read them back into one.\<close>

fun write_items :: "qos_list \<Rightarrow> nat \<Rightarrow> bytearray \<Rightarrow> bytearray option" where
  "write_items [] bytepos a = Some a"
| "write_items ((k, v) # q) bytepos a = do {
     a \<leftarrow> ba_put bytepos k a;
     a \<leftarrow> setBits64 (ucast v) 16 (bytepos + 1) 0 a;
     write_items q (bytepos + 3) a
   }"

fun read_items :: "nat \<Rightarrow> nat \<Rightarrow> bytearray \<Rightarrow> qos_list \<Rightarrow> qos_list option" where
  "read_items 0 offset a q = Some q"
| "read_items (Suc n) offset a q = do {
     k \<leftarrow> ba_at a offset;
     v \<leftarrow> getBits 16 (offset + 1) 0 a;
     read_items n (offset + QoS_ITEM_SIZE) a (qos_set k (ucast v) q)
   }"

subsection \<open>Link-state packets\<close>

text \<open>
  \<^verbatim>\<open>LSMPacket\<close> of the Click element (\<^verbatim>\<open>src/tm_ext/lsmpacket.cc\<close>): type, name of the node,
  number of links, and for each link its identifier, the number of its values and the values.
\<close>

abbreviation (input) CONST_HDR_LEN :: nat where "CONST_HDR_LEN \<equiv> 1 + NODEID_LEN + 1"
abbreviation (input) QoS_REPORT :: byte where "QoS_REPORT \<equiv> 107"

definition lsm_getType :: "bytearray \<Rightarrow> byte option" where
  "lsm_getType p = ba_at p 0"

definition lsm_getRepLen :: "bytearray \<Rightarrow> byte option" where
  "lsm_getRepLen p = ba_at p (NODEID_LEN + 1)"

definition lsm_setType :: "byte \<Rightarrow> bytearray \<Rightarrow> bytearray option" where
  "lsm_setType type p = ba_put 0 type p"

definition lsm_setRepLen :: "byte \<Rightarrow> bytearray \<Rightarrow> bytearray option" where
  "lsm_setRepLen len p = ba_put (NODEID_LEN + 1) len p"

definition lsm_setNodeId :: "bstr \<Rightarrow> bytearray \<Rightarrow> bytearray option" where
  "lsm_setNodeId name p = setStr name 1 0 p"

definition lsm_getNodeId :: "bytearray \<Rightarrow> bstr option" where
  "lsm_getNodeId p = getStrBytes (u8 NODEID_LEN) 1 0 p"

definition LSMPacket_new :: "(nat \<Rightarrow> byte) \<Rightarrow> bytearray option" where
  "LSMPacket_new fresh = do {
     p \<leftarrow> lsm_setType QoS_REPORT (ba_extend CONST_HDR_LEN fresh []);
     lsm_setRepLen 0 p
   }"

definition lsm_setData :: "bstr \<Rightarrow> int \<Rightarrow> (nat \<Rightarrow> byte) \<Rightarrow> bytearray \<Rightarrow> bytearray option" where
  "lsm_setData data len fresh p = (if len < 0 then Some p
     else if nat len > length data then None
     else setBytes (take (nat len) data) 0 0 (ba_extend (nat len) fresh []))"

text \<open>The offset of a link is a \<^verbatim>\<open>uint16_t\<close>; it is \<^verbatim>\<open>-1\<close> for an index beyond the number of links.\<close>

fun link_offset_loop :: "nat \<Rightarrow> 16 word \<Rightarrow> bytearray \<Rightarrow> 16 word option" where
  "link_offset_loop 0 offset p = Some offset"
| "link_offset_loop (Suc index) offset p = do {
     let offset = offset + 32;
     n \<leftarrow> ba_at p (unat offset);
     link_offset_loop index (offset + ucast n * 3 + 1) p
   }"

definition lsm_getLinkOffset :: "nat \<Rightarrow> bytearray \<Rightarrow> int option" where
  "lsm_getLinkOffset index p = do {
     len \<leftarrow> lsm_getRepLen p;
     if index > unat len then Some (-1)
     else do { offset \<leftarrow> link_offset_loop index (word_of_nat CONST_HDR_LEN) p; Some (uint offset) }
   }"

definition lsm_getStatusListLen :: "nat \<Rightarrow> bytearray \<Rightarrow> int option" where
  "lsm_getStatusListLen index p = do {
     offset \<leftarrow> lsm_getLinkOffset index p;
     if offset = -1 then Some (-1)
     else do { n \<leftarrow> ba_at p (nat offset + FID_LEN); Some (uint n) }
   }"

text \<open>The bits of the identifier, eight to a byte; the byte is not reset, its old bits are shifted out.\<close>

fun put_bits :: "bitvec \<Rightarrow> nat list \<Rightarrow> byte \<Rightarrow> nat \<Rightarrow> nat \<Rightarrow> bytearray \<Rightarrow> (nat \<times> bytearray) option" where
  "put_bits bv [] byte bitpos bytepos p = Some (bytepos, p)"
| "put_bits bv (i # is) byte bitpos bytepos p = do {
     bit \<leftarrow> bv_get (int i) bv;
     let byte = push_bit 1 byte OR (if bit then 1 else 0);
     if bitpos + 1 = 8 then do {
       p \<leftarrow> ba_put bytepos byte p;
       put_bits bv is byte 0 (bytepos + 1) p
     }
     else put_bits bv is byte (bitpos + 1) bytepos p
   }"

definition lsm_appendLinkStatus :: "(nat \<Rightarrow> byte) \<Rightarrow> bitvec \<Rightarrow> qos_list \<Rightarrow> bytearray \<Rightarrow> bytearray option" where
  "lsm_appendLinkStatus fresh bv q p = do {
     len \<leftarrow> lsm_getRepLen p;
     let bytepos = length p;
     let p = ba_extend (FID_LEN + 1 + length q * QoS_ITEM_SIZE) fresh p;
     (bytepos, p) \<leftarrow> put_bits bv [0..<nat (bv_size bv)] 0 0 bytepos p;
     p \<leftarrow> ba_put bytepos (u8 (length q)) p;
     p \<leftarrow> write_items q (bytepos + 1) p;
     lsm_setRepLen (len + 1) p
   }"

fun get_bits :: "nat list \<Rightarrow> nat \<Rightarrow> bytearray \<Rightarrow> bitvec \<Rightarrow> bitvec option" where
  "get_bits [] bytepos p bv = Some bv"
| "get_bits (i # is) bytepos p bv = do {
     b \<leftarrow> getBits8_ORLESS 1 bytepos (i mod 8) p;
     bv \<leftarrow> bv_set (int i) (b \<noteq> 0) bv;
     get_bits is (if (i + 1) mod 8 = 0 then bytepos + 1 else bytepos) p bv
   }"

definition lsm_getLid :: "nat \<Rightarrow> bytearray \<Rightarrow> bitvec option" where
  "lsm_getLid index p = do {
     len \<leftarrow> lsm_getRepLen p;
     if index > unat len then Some bv_empty
     else do {
       bv \<leftarrow> bv_new (int (FID_LEN * 8));
       offset \<leftarrow> lsm_getLinkOffset index p;
       get_bits [0..<FID_LEN * 8] (nat offset) p bv
     }
   }"

definition lsm_getLinkStatus :: "nat \<Rightarrow> bytearray \<Rightarrow> qos_list option" where
  "lsm_getLinkStatus index p = do {
     len \<leftarrow> lsm_getRepLen p;
     if index > unat len then Some []
     else do {
       offset \<leftarrow> lsm_getLinkOffset index p;
       len \<leftarrow> lsm_getStatusListLen index p;
       if len = 0 then Some [] else read_items (nat len) (nat offset + FID_LEN + 1) p []
     }
   }"

subsection \<open>The library's link-state packets\<close>

text \<open>
  In \<^verbatim>\<open>lib/qos/lsmpacket.cpp\<close> the identifier is a string, and the position is not moved past it.
\<close>

definition lib_appendLinkStatus :: "(nat \<Rightarrow> byte) \<Rightarrow> bstr \<Rightarrow> qos_list \<Rightarrow> bytearray \<Rightarrow> bytearray option" where
  "lib_appendLinkStatus fresh lid q p = do {
     len \<leftarrow> lsm_getRepLen p;
     let bytepos = length p;
     let p = ba_extend (FID_LEN + 1 + length q * QoS_ITEM_SIZE) fresh p;
     p \<leftarrow> setStr lid bytepos 0 p;
     p \<leftarrow> ba_put bytepos (u8 (length q)) p;
     p \<leftarrow> write_items q (bytepos + 1) p;
     lsm_setRepLen (len + 1) p
   }"

definition lib_getLid_RAW :: "nat \<Rightarrow> bytearray \<Rightarrow> bstr option" where
  "lib_getLid_RAW index p = do {
     len \<leftarrow> lsm_getRepLen p;
     if index > unat len then Some []
     else do {
       offset \<leftarrow> lsm_getLinkOffset index p;
       getStrBytes (u8 FID_LEN) (nat offset) 0 p
     }
   }"

subsection \<open>Metadata packets\<close>

text \<open>\<^verbatim>\<open>lib/qos/metadatapacket.cpp\<close>: type, identifier behind its length, number of values, values.\<close>

abbreviation (input) MD_HDR_LEN :: nat where "MD_HDR_LEN \<equiv> 3"
abbreviation (input) QoS_METADATA :: byte where "QoS_METADATA \<equiv> 108"

definition MetaDataPacket_new :: "byte \<Rightarrow> (nat \<Rightarrow> byte) \<Rightarrow> bytearray option" where
  "MetaDataPacket_new idlen fresh = do {
     let p = ba_extend (unat idlen * PURSUIT_ID_LEN + MD_HDR_LEN) fresh [];
     p \<leftarrow> ba_put 0 QoS_METADATA p;
     p \<leftarrow> ba_put 1 idlen p;
     ba_put (PURSUIT_ID_LEN * unat idlen + 2) 0 p
   }"

definition MetaDataPacket_sized :: "nat \<Rightarrow> (nat \<Rightarrow> byte) \<Rightarrow> bytearray option" where
  "MetaDataPacket_sized datalen fresh = ba_put 0 QoS_METADATA (ba_extend (MD_HDR_LEN + datalen) fresh [])"

definition md_getIDLen :: "bytearray \<Rightarrow> byte option" where
  "md_getIDLen p = ba_at p 1"

text \<open>The length in bytes is passed as a \<^verbatim>\<open>uint8_t\<close>.\<close>

definition md_getID_RAW :: "bytearray \<Rightarrow> bstr option" where
  "md_getID_RAW p = do { idlen \<leftarrow> md_getIDLen p; getStrBytes (u8 (unat idlen * PURSUIT_ID_LEN)) 2 0 p }"

definition md_getItemNum :: "bytearray \<Rightarrow> byte option" where
  "md_getItemNum p = do { idlen \<leftarrow> md_getIDLen p; ba_at p (MD_HDR_LEN + unat idlen * PURSUIT_ID_LEN - 1) }"

text \<open>
  An index out of range gives the empty pair. The offset is a \<^verbatim>\<open>uint16_t\<close>.
\<close>

definition md_getItem :: "int \<Rightarrow> bytearray \<Rightarrow> (byte \<times> 16 word) option" where
  "md_getItem index p = do {
     num \<leftarrow> md_getItemNum p;
     if index < 0 \<or> index > uint num then Some (0, 0)
     else do {
       idlen \<leftarrow> md_getIDLen p;
       let offset = (word_of_int (int MD_HDR_LEN + uint idlen * int PURSUIT_ID_LEN + index * int QoS_ITEM_SIZE) :: 16 word);
       k \<leftarrow> ba_at p (unat offset);
       v \<leftarrow> getBits 16 (unat (offset + 1)) 0 p;
       Some (k, ucast v)
     }
   }"

definition md_getIIStatus :: "bytearray \<Rightarrow> qos_list option" where
  "md_getIIStatus p = do {
     idlen \<leftarrow> md_getIDLen p;
     len \<leftarrow> md_getItemNum p;
     if len = 0 then Some [] else read_items (unat len) (MD_HDR_LEN + unat idlen * PURSUIT_ID_LEN) p []
   }"

definition md_setIDLen :: "byte \<Rightarrow> bytearray \<Rightarrow> bytearray option" where
  "md_setIDLen len p = ba_put 1 len p"

definition md_setID :: "bstr \<Rightarrow> bytearray \<Rightarrow> bytearray option" where
  "md_setID i p = do { p \<leftarrow> md_setIDLen (u8 (length i div PURSUIT_ID_LEN)) p; setStr i 2 0 p }"

definition md_setItemNum :: "byte \<Rightarrow> bytearray \<Rightarrow> bytearray option" where
  "md_setItemNum num p = do { idlen \<leftarrow> md_getIDLen p; ba_put (MD_HDR_LEN + unat idlen * PURSUIT_ID_LEN - 1) num p }"

definition md_setItem :: "int \<Rightarrow> byte \<Rightarrow> 16 word \<Rightarrow> bytearray \<Rightarrow> bytearray option" where
  "md_setItem index key val p = do {
     num \<leftarrow> md_getItemNum p;
     if index < 0 \<or> index > uint num then Some p
     else do {
       idlen \<leftarrow> md_getIDLen p;
       let offset = (word_of_int (int MD_HDR_LEN + uint idlen * int PURSUIT_ID_LEN + index * int QoS_ITEM_SIZE) :: 16 word);
       p \<leftarrow> ba_put (unat offset) key p;
       setBits64 (ucast val) 16 (unat (offset + 1)) 0 p
     }
   }"

definition md_appendIIStatus :: "qos_list \<Rightarrow> (nat \<Rightarrow> byte) \<Rightarrow> bytearray \<Rightarrow> bytearray option" where
  "md_appendIIStatus q fresh p = do {
     idlen \<leftarrow> md_getIDLen p;
     let bytepos = MD_HDR_LEN + unat idlen * PURSUIT_ID_LEN - 1;
     let p = ba_extend (length q * QoS_ITEM_SIZE) fresh p;
     p \<leftarrow> ba_put bytepos (u8 (length q)) p;
     write_items q (bytepos + 1) p
   }"

subsection \<open>Whole bytes\<close>

lemma byte_mask: "getLowMask 8 = Some 255"
  by code_simp

lemma setBits8_byte: "off < length a \<Longrightarrow> setBits8 b 8 off 0 a = Some (a[off := b])"
proof -
  assume off: "off < length a"
  have m: "(ucast (255 :: 64 word) :: byte) = - 1" by simp
  have f: "(length a - Suc 0 < off) = False" "(length a < Suc off) = False" using off by auto
  have z: "(- 256 :: byte) = 0" "(255 :: byte) = - 1" by simp_all
  show ?thesis using off f by (simp add: setBits8_def byte_mask m ba_at_def ba_put_def Let_def z)
qed

lemma setBits64_16:
  assumes "off + 1 < length a"
  shows "setBits64 (ucast (v :: 16 word)) 16 off 0 a = Some (a[off := ucast (drop_bit 8 v), off + 1 := ucast v])"
proof -
  have l: "[8 - (16 + 7) div 8..<8] = [6, 7 :: nat]" by (simp add: upt_rec)
  have hi: "ucast (drop_bit 56 (push_bit 48 (ucast v :: 64 word))) = (ucast (drop_bit 8 v) :: byte)"
    by (rule bit_eqI) (auto simp: bit_simps)
  have lo: "ucast (drop_bit 56 (push_bit 56 (ucast v :: 64 word))) = (ucast v :: byte)"
    by (rule bit_eqI) (auto simp: bit_simps)
  show ?thesis using assms by (simp add: setBits64_def Let_def upt_rec setBits8_byte hi lo)
qed

lemma getBits8_byte: "off < length a \<Longrightarrow> getBits8_ORLESS 8 off 0 a = Some (a ! off)"
  by (simp add: getBits8_ORLESS_def ba_at_def)

lemma getBits_16:
  assumes "off + 1 < length a" "a ! off = ucast (drop_bit 8 v)" "a ! (off + 1) = ucast (v :: 16 word)"
  shows "\<exists>w. getBits 16 off 0 a = Some w \<and> ucast w = v"
proof -
  have "ucast (push_bit 8 (ucast (ucast (drop_bit 8 v) :: byte) :: 64 word) OR ucast (ucast v :: byte)) = v"
    by (rule bit_eqI) (auto simp: bit_simps)
  then show ?thesis using assms by (simp add: getBits_def upt_rec getBits8_byte)
qed

text \<open>A string shorter than 256 bytes is written as it is.\<close>

lemma setStr_loop_ok:
  assumes "length str < 256" "n \<le> length str" "off + length str \<le> length a + n"
  shows "setStr_loop str (word_of_nat n) off 0 a = Some (take off a @ drop n str @ drop (off + length str - n) a)"
  using assms(2,3)
proof (induction "length str - n" arbitrary: n off a)
  case 0
  then have "n = length str" by simp
  then show ?case using assms(1) by (subst setStr_loop.simps) (simp add: unat_of_nat)
next
  case (Suc k)
  then have n: "n < length str" "k = length str - Suc n" by auto
  have u: "unat (word_of_nat n :: byte) = n" using n assms(1) by (simp add: unat_of_nat)
  have off: "off < length a" using Suc.prems n by simp
  have w: "(word_of_nat n + 1 :: byte) = word_of_nat (Suc n)" by simp
  have "setStr_loop str (word_of_nat n) off 0 a = setStr_loop str (word_of_nat (Suc n)) (off + 1) 0 (a[off := str ! n])"
    by (subst setStr_loop.simps) (simp add: u n(1) setBits8_byte [OF off] w del: of_nat_Suc)
  also have "\<dots> = Some (take (off + 1) (a[off := str ! n]) @ drop (Suc n) str @ drop (off + 1 + length str - Suc n) (a[off := str ! n]))"
    using n Suc.prems by (intro Suc.hyps(1)) auto
  also have "take (off + 1) (a[off := str ! n]) = take off a @ [str ! n]" using off by (simp add: take_Suc_conv_app_nth)
  also have "drop (off + 1 + length str - Suc n) (a[off := str ! n]) = drop (off + length str - n) a" using n off by simp
  finally show ?case using n(1) by (simp add: Cons_nth_drop_Suc [symmetric])
qed

lemma setStr_ok:
  assumes "length str < 256" "a = pre @ old @ post" "length old = length str" "off = length pre"
  shows "setStr str off 0 a = Some (pre @ str @ post)"
  using setStr_loop_ok [OF assms(1), of 0 off a] assms(2-4) by (simp add: setStr_def)

lemma getStr_loop_ok: "off + n \<le> length a \<Longrightarrow> getStr_loop n off 0 a = Some (take n (drop off a))"
proof (induction n arbitrary: off)
  case (Suc n)
  then have "take (Suc n) (drop off a) = a ! off # take n (drop (off + 1) a)" by (simp add: Cons_nth_drop_Suc [symmetric])
  then show ?case using Suc by (simp add: getBits8_byte)
qed simp

lemma getStrBytes_ok: "unat n + off \<le> length a \<Longrightarrow> getStrBytes n off 0 a = Some (take (unat n) (drop off a))"
  by (simp add: getStrBytes_def getStr_loop_ok)

text \<open>A longer one is written without end.\<close>

lemma setStr_loop_returns:
  assumes "setStr_loop str i off ob a = Some y"
  shows "length str < 256"
proof (rule setStr_loop.raw_induct [where P = "\<lambda>str i off ob a y. length str < 256", OF _ assms])
  fix rec str and i :: byte and off ob a y
  assume ih: "\<And>str i off ob a y. rec str i off ob a = Some y \<Longrightarrow> length str < 256"
    and step: "(if unat i < length str then Option.bind (setBits8 (str ! unat i) 8 off ob a) (rec str (i + 1) (off + 1) ob) else Some a) = Some y"
  have "unat i < 256" using unsigned_less [of i] by simp
  then show "length str < 256" using ih step by (cases "unat i < length str") (auto split: Option.bind_splits)
qed

subsection \<open>Values\<close>

definition item_bytes :: "qos_list \<Rightarrow> bstr" where
  "item_bytes q = concat (map (\<lambda>(k, v). [k, ucast (drop_bit 8 v), ucast v]) q)"

definition qos_ok :: "qos_list \<Rightarrow> bool" where
  "qos_ok q \<longleftrightarrow> sorted_wrt (<) (map fst q) \<and> length q < 256"

lemma item_bytes_simps [simp]: "item_bytes [] = []" "item_bytes ((k, v) # q) = k # ucast (drop_bit 8 v) # ucast v # item_bytes q"
  by (simp_all add: item_bytes_def)

lemma length_item_bytes [simp]: "length (item_bytes q) = 3 * length q"
  by (induction q) (auto simp: item_bytes_def)

lemma write_items_ok:
  assumes "a = pre @ old @ post" "length old = 3 * length q" "pos = length pre"
  shows "write_items q pos a = Some (pre @ item_bytes q @ post)"
  using assms
proof (induction q arbitrary: a pre old pos)
  case (Cons e q)
  obtain k v where e: "e = (k, v)" by (cases e)
  obtain x y z old' where o: "old = x # y # z # old'" 
  proof -
    have "length old = Suc (Suc (Suc (3 * length q)))" using Cons.prems(2) by simp
    then show ?thesis using that by (auto simp: length_Suc_conv)
  qed
  let ?hi = "ucast (drop_bit 8 v) :: byte" and ?lo = "ucast v :: byte"
  have p: "ba_put pos k a = Some (pre @ k # y # z # old' @ post)" using Cons.prems o by (simp add: ba_put_def)
  have s: "setBits64 (ucast v) 16 (pos + 1) 0 (pre @ k # y # z # old' @ post) = Some (pre @ k # ?hi # ?lo # old' @ post)"
    using Cons.prems(3) by (subst setBits64_16) (simp_all add: list_update_append)
  show ?case using Cons.IH [of "pre @ k # ?hi # ?lo # old' @ post" "pre @ [k, ?hi, ?lo]" old' "pos + 3"] Cons.prems o e p s by simp
qed simp

lemma qos_set_last: "\<forall>e \<in> set q. fst e < k \<Longrightarrow> qos_set k v q = q @ [(k, v)]"
  by (induction q) auto

lemma read_items_ok:
  assumes "a = pre @ item_bytes q @ post" "pos = length pre" "sorted_wrt (<) (map fst (acc @ q))"
  shows "read_items (length q) pos a acc = Some (acc @ q)"
  using assms
proof (induction q arbitrary: pre pos acc)
  case (Cons e q)
  obtain k v where e: "e = (k, v)" by (cases e)
  have a: "a = (pre @ [k, ucast (drop_bit 8 v), ucast v]) @ item_bytes q @ post" using Cons.prems(1) e by simp
  have k: "ba_at a pos = Some k" using a Cons.prems(2) by (simp add: ba_at_def)
  have n: "a ! (pos + 1) = ucast (drop_bit 8 v)" "a ! (pos + 1 + 1) = ucast v" using a Cons.prems(2) by (simp_all add: nth_append)
  have l: "pos + 1 + 1 < length a" using a Cons.prems(2) by simp
  from getBits_16 [OF l n] obtain w where w: "getBits 16 (pos + 1) 0 a = Some w" "ucast w = v" by blast
  have s: "qos_set k v acc = acc @ [(k, v)]" using Cons.prems(3) e by (intro qos_set_last) (auto simp: sorted_wrt_append)
  have "read_items (length q) (pos + 3) a (acc @ [(k, v)]) = Some ((acc @ [(k, v)]) @ q)"
    by (rule Cons.IH [OF a]) (use Cons.prems e in simp_all)
  then show ?case using k w s e by simp
qed simp

subsection \<open>Link identifiers in packets\<close>

definition lid_bytes :: "bitvec \<Rightarrow> bstr" where
  "lid_bytes bv = map (\<lambda>j. horner_sum of_bool 2 (map (\<lambda>k. bv_bit bv (8 * j + 7 - k)) [0..<8])) [0..<32]"

lemma length_lid_bytes [simp]: "length (lid_bytes bv) = 32"
  by (simp add: lid_bytes_def)

lemma bit_lid_bytes: "j < 32 \<Longrightarrow> bit (lid_bytes bv ! j) k \<longleftrightarrow> k < 8 \<and> bv_bit bv (8 * j + 7 - k)"
  by (auto simp: lid_bytes_def bit_horner_sum_bit_iff)

lemma ba_bit_lid_bytes: "i < 256 \<Longrightarrow> ba_bit (lid_bytes bv) i = bv_bit bv i"
proof -
  assume "i < 256"
  then have "i div 8 < 32" by simp
  moreover have "8 * (i div 8) + 7 - (7 - i mod 8) = i" by simp
  moreover have "7 - i mod 8 < 8" by arith
  ultimately show ?thesis by (simp add: ba_bit_def bit_lid_bytes)
qed

lemma fid_get: "is_fid bv \<Longrightarrow> i < 256 \<Longrightarrow> bv_get (int i) bv = Some (bv_bit bv i)"
  by (simp add: bv_get_bit fid_len)

lemma put_bits_byte:
  assumes "is_fid bv" "j < 32" "pos < length p"
  shows "put_bits bv ([8 * j..<8 * j + 8] @ is) byte 0 pos p = put_bits bv is (lid_bytes bv ! j) 0 (pos + 1) (p[pos := lid_bytes bv ! j])"
proof -
  have u: "[8 * j..<8 * j + 8] = [8 * j, 8 * j + 1, 8 * j + 2, 8 * j + 3, 8 * j + 4, 8 * j + 5, 8 * j + 6, 8 * j + 7]"
    by (simp add: upt_rec)
  define f where "f = (\<lambda>(w :: byte) i. push_bit 1 w OR (if bv_bit bv i then 1 else 0))"
  have g: "bv_get (int i) bv = Some (bv_bit bv i)" if "i < 8 * j + 8" for i
    by (rule fid_get [OF assms(1)]) (use assms(2) that in simp)
  have fb: "bit (f w i) k = (if k = 0 then bv_bit bv i else bit w (k - 1))" if "k < 8" for w i k
    unfolding f_def bit_or_iff bit_push_bit_iff using that by (auto simp: bit_1_iff possible_bit_word)
  let ?b = "f (f (f (f (f (f (f (f byte (8 * j)) (8 * j + 1)) (8 * j + 2)) (8 * j + 3)) (8 * j + 4)) (8 * j + 5)) (8 * j + 6)) (8 * j + 7)"
  have b: "?b = lid_bytes bv ! j"
  proof (rule bit_eqI)
    fix k assume "possible_bit TYPE(byte) k"
    then have "k < 8" by (simp add: possible_bit_word)
    then have "k \<in> {0, 1, 2, 3, 4, 5, 6, 7}" by auto
    then show "bit ?b k = bit (lid_bytes bv ! j) k"
      using assms(2) by (elim insertE emptyE) (simp_all add: bit_lid_bytes fb add.commute)
  qed
  have st: "put_bits bv (i # xs) w n pos p = put_bits bv xs (f w i) (n + 1) pos p" if "i < 8 * j + 8" "n < 7" for i xs w n
    using g [OF that(1)] that(2) by (simp add: f_def Let_def)
  have en: "put_bits bv (i # xs) w n pos p = put_bits bv xs (f w i) 0 (pos + 1) (p[pos := f w i])" if "i < 8 * j + 8" "n = 7" for i xs w n
    using g [OF that(1)] assms(3) that(2) by (simp add: f_def Let_def ba_put_def)
  have "put_bits bv ([8 * j..<8 * j + 8] @ is) byte 0 pos p = put_bits bv is ?b 0 (pos + 1) (p[pos := ?b])"
    unfolding u append_Cons append_Nil by (simp del: put_bits.simps add: st en)
  then show ?thesis unfolding b .
qed

lemma put_bits_ok:
  assumes "is_fid bv" "j \<le> 32" "p = pre @ old @ post" "length old = 32 - j" "pos = length pre"
  shows "put_bits bv [8 * j..<256] byte 0 pos p = Some (pos + (32 - j), pre @ drop j (lid_bytes bv) @ post)"
  using assms(2-5)
proof (induction "32 - j" arbitrary: j p pre old pos byte)
  case (Suc n)
  then have j: "j < 32" "n = 32 - Suc j" by auto
  obtain x old' where o: "old = x # old'" "length old' = 32 - Suc j" using Suc.prems(3) j by (cases old) auto
  have s: "[8 * j..<256] = [8 * j..<8 * j + 8] @ [8 * Suc j..<256]"
    using upt_add_eq_append [of "8 * j" "8 * j + 8" "256 - (8 * j + 8)"] j(1) by (simp add: add.commute)
  let ?w = "lid_bytes bv ! j"
  have "pos < length p" using Suc.prems(2,4) o by simp
  from put_bits_byte [OF assms(1) j(1) this, of "[8 * Suc j..<256]" byte] have
    "put_bits bv [8 * j..<256] byte 0 pos p = put_bits bv [8 * Suc j..<256] ?w 0 (pos + 1) (p[pos := ?w])" using s by simp
  also have "\<dots> = Some (pos + 1 + (32 - Suc j), (pre @ [?w]) @ drop (Suc j) (lid_bytes bv) @ post)"
    by (rule Suc.hyps(1) [OF j(2), of _ _ old']) (use j Suc.prems o in \<open>simp_all add: list_update_append\<close>)
  finally show ?case using j(1) by (simp add: Cons_nth_drop_Suc [symmetric])
qed simp

lemma get_bits_ok:
  assumes "8 * off + 256 \<le> 8 * length p" "is_fid bv" "i \<le> 256" "\<forall>j < i. bv_bit bv j = ba_bit p (8 * off + j)"
  shows "\<exists>r. get_bits [i..<256] (off + i div 8) p bv = Some r \<and> is_fid r \<and> (\<forall>j < 256. bv_bit r j = ba_bit p (8 * off + j))"
  using assms(2-4)
proof (induction "256 - i" arbitrary: i bv)
  case (Suc n)
  then have i: "i < 256" "n = 256 - Suc i" by auto
  have pos: "8 * (off + i div 8) + i mod 8 = 8 * off + i" by simp
  have "8 * (off + i div 8) + i mod 8 + 1 \<le> 8 * length p" unfolding pos using assms(1) i by simp
  from getBits8_ok [OF _ _ _ this] obtain b where
    b: "getBits8_ORLESS 1 (off + i div 8) (i mod 8) p = Some b" "\<forall>k. bit b k \<longleftrightarrow> k < 1 \<and> ba_bit p (8 * (off + i div 8) + i mod 8 + 1 - 1 - k)"
    by auto
  have "(b \<noteq> 0) = ba_bit p (8 * off + i)"
  proof -
    have "b \<noteq> 0 \<longleftrightarrow> (\<exists>k. bit b k)" by (metis bit_0_eq bit_eqI bot_apply bot_bool_def)
    then show ?thesis using b(2) by (simp add: pos add.commute)
  qed
  then have s: "bv_set (int i) (b \<noteq> 0) bv = Some (set_bit_at (int i) (ba_bit p (8 * off + i)) bv)"
    using bv_set_ok [of i bv "b \<noteq> 0"] Suc.prems(1) i(1) by (simp add: fid_len)
  let ?bv = "set_bit_at (int i) (ba_bit p (8 * off + i)) bv"
  have nx: "(if (i + 1) mod 8 = 0 then off + i div 8 + 1 else off + i div 8) = off + Suc i div 8"
    by (simp add: div_Suc)
  have "\<forall>j < Suc i. bv_bit ?bv j = ba_bit p (8 * off + j)"
  proof (intro allI impI)
    fix j assume "j < Suc i"
    have "bv_bit ?bv j = (if j = i then ba_bit p (8 * off + i) else bv_bit bv j)"
      using Suc.prems(1) i(1) \<open>j < Suc i\<close> by (intro bit_set_bit_at) (auto simp: is_fid_def)
    then show "bv_bit ?bv j = ba_bit p (8 * off + j)" using Suc.prems(3) \<open>j < Suc i\<close> by auto
  qed
  then obtain r where "get_bits [Suc i..<256] (off + Suc i div 8) p ?bv = Some r" "is_fid r" "\<forall>j < 256. bv_bit r j = ba_bit p (8 * off + j)"
    using Suc.hyps(1) [OF i(2), of ?bv] fid_set_bit [OF Suc.prems(1)] i(1) by auto
  then show ?case using b(1) s nx i(1) by (simp add: upt_conv_Cons)
qed simp

text \<open>An identifier read where its bytes lie is the identifier.\<close>

lemma get_lid:
  assumes "is_fid bv" "p = pre @ lid_bytes bv @ post"
  shows "Option.bind (bv_new 256) (get_bits [0..<256] (length pre) p) = Some bv"
proof -
  obtain v where v: "bv_new 256 = Some v" "is_fid v" using bv_new_fid by blast
  from get_bits_ok [of "length pre" p v 0] v(2) assms(2) obtain r where
    r: "get_bits [0..<256] (length pre) p v = Some r" "is_fid r" "\<forall>j < 256. bv_bit r j = ba_bit p (8 * length pre + j)" by auto
  have "ba_bit p (8 * length pre + j) = bv_bit bv j" if "j < 256" for j
  proof -
    have "(8 * length pre + j) div 8 = length pre + j div 8" "j div 8 < 32" using that by auto
    then show ?thesis using ba_bit_lid_bytes [OF that, of bv] assms(2) by (simp add: ba_bit_def nth_append)
  qed
  then have "r = bv" using fid_eq_bits [OF r(2) assms(1)] fid_eq_iff [OF r(2) assms(1)] r(3) by simp
  then show ?thesis using v(1) r(1) by simp
qed

subsection \<open>Reports\<close>

text \<open>
  The packet of \<^verbatim>\<open>LinkMon::report\<close>: a new one, the name of the node, and the status of every link.
\<close>

definition link_report :: "(nat \<Rightarrow> byte) \<Rightarrow> bstr \<Rightarrow> (bitvec \<times> qos_list) list \<Rightarrow> bytearray option" where
  "link_report fresh name links = do {
     pkt \<leftarrow> LSMPacket_new fresh;
     pkt \<leftarrow> lsm_setNodeId name pkt;
     fold_opt (\<lambda>(lid, status). lsm_appendLinkStatus fresh lid status) links pkt
   }"

definition link_bytes :: "bitvec \<times> qos_list \<Rightarrow> bstr" where
  "link_bytes l = lid_bytes (fst l) @ u8 (length (snd l)) # item_bytes (snd l)"

definition report_bytes :: "bstr \<Rightarrow> (bitvec \<times> qos_list) list \<Rightarrow> bstr" where
  "report_bytes name links = QoS_REPORT # name @ u8 (length links) # concat (map link_bytes links)"

definition link_ok :: "bitvec \<times> qos_list \<Rightarrow> bool" where
  "link_ok l \<longleftrightarrow> is_fid (fst l) \<and> qos_ok (snd l)"

lemma length_link_bytes [simp]: "length (link_bytes l) = 33 + 3 * length (snd l)"
  by (simp add: link_bytes_def)

lemma new_report:
  assumes "length name = 8"
  shows "\<exists>p. LSMPacket_new fresh = Some p \<and> lsm_setNodeId name p = Some (report_bytes name [])"
proof -
  have m: "map fresh [0..<10] = fresh 0 # map fresh [1..<9] @ [fresh 9]" by (simp add: upt_rec numeral_eq_Suc)
  have "LSMPacket_new fresh = Some ([QoS_REPORT] @ map fresh [1..<9] @ [0])"
    by (simp add: LSMPacket_new_def lsm_setType_def lsm_setRepLen_def ba_put_def ba_extend_def m list_update_append)
  moreover have "lsm_setNodeId name ([QoS_REPORT] @ map fresh [1..<9] @ [0]) = Some ([QoS_REPORT] @ name @ [0])"
    unfolding lsm_setNodeId_def
    by (rule setStr_ok [of name "[QoS_REPORT] @ map fresh [1..<9] @ [0]" "[QoS_REPORT]" "map fresh [1..<9]" "[0]" 1]) (use assms in simp_all)
  ultimately show ?thesis by (auto simp: report_bytes_def u8_def)
qed

lemma append_report:
  assumes "length name = 8" "link_ok l" "length links < 255"
  shows "(case l of (lid, status) \<Rightarrow> lsm_appendLinkStatus fresh lid status) (report_bytes name links) =
    Some (report_bytes name (links @ [l]))"
proof -
  obtain lid q where l: "l = (lid, q)" by (cases l)
  have fid: "is_fid lid" and q: "length q < 256" using assms(2) l by (simp_all add: link_ok_def qos_ok_def)
  let ?p = "report_bytes name links" and ?n = "u8 (length links)"
  let ?front = "QoS_REPORT # name @ ?n # concat (map link_bytes links)"
  obtain new where new: "ba_extend (33 + 3 * length q) fresh ?p = ?front @ new" "length new = 33 + 3 * length q"
    by (simp add: ba_extend_def report_bytes_def)
  define old x rest where "old = take 32 new" "x = new ! 32" "rest = drop 33 new"
  have n: "new = old @ x # rest" "length old = 32" "length rest = 3 * length q"
    using new(2) id_take_nth_drop [of 32 new] by (simp_all add: old_x_rest_def)
  have r: "lsm_getRepLen ?p = Some ?n" using assms(1) by (simp add: lsm_getRepLen_def ba_at_def report_bytes_def nth_append)
  have b: "put_bits lid [0..<256] 0 0 (length ?p) (?front @ old @ x # rest) =
      Some (length ?p + 32, ?front @ lid_bytes lid @ x # rest)"
    using put_bits_ok [OF fid, of 0 _ ?front old "x # rest" "length ?p" 0] n(2) by (simp add: report_bytes_def)
  have c: "ba_put (length ?p + 32) (u8 (length q)) (?front @ lid_bytes lid @ x # rest) =
      Some (?front @ lid_bytes lid @ u8 (length q) # rest)"
    by (simp add: ba_put_def report_bytes_def list_update_append)
  have w: "write_items q (length ?p + 33) (?front @ lid_bytes lid @ u8 (length q) # rest) =
      Some (?front @ lid_bytes lid @ u8 (length q) # item_bytes q)"
    using write_items_ok [where a = "(?front @ lid_bytes lid @ [u8 (length q)]) @ rest @ []" and q = q, OF refl n(3)]
    by (simp add: report_bytes_def)
  have s: "lsm_setRepLen (?n + 1) (?front @ lid_bytes lid @ u8 (length q) # item_bytes q) = Some (report_bytes name (links @ [(lid, q)]))"
    using assms(1) by (simp add: lsm_setRepLen_def ba_put_def report_bytes_def list_update_append link_bytes_def l u8_def add.commute)
  have z: "nat (bv_size lid) = 256" using fid by (simp add: bv_size_def is_fid_def)
  show ?thesis
    unfolding l prod.case lsm_appendLinkStatus_def using r new(1) n(1) b c w s z by (simp add: Let_def mult.commute add.commute)
qed

lemma report_ok:
  assumes "length name = 8" "\<forall>l \<in> set links. link_ok l" "length links < 256"
  shows "link_report fresh name links = Some (report_bytes name links)"
proof -
  have "fold_opt (\<lambda>(lid, status). lsm_appendLinkStatus fresh lid status) more (report_bytes name done) = Some (report_bytes name (done @ more))"
    if "\<forall>l \<in> set more. link_ok l" "length done + length more < 256" for more "done"
    using that
  proof (induction more arbitrary: "done")
    case (Cons l more)
    then show ?case using append_report [OF assms(1), of l "done" fresh] by simp
  qed simp
  from this [of links "[]"] show ?thesis using new_report [OF assms(1), of fresh] assms(2,3) by (auto simp: link_report_def)
qed

subsection \<open>Reading a report\<close>

lemma link_offset_ok:
  assumes "p = pre @ concat (map link_bytes ls) @ post" "offset = word_of_nat (length pre)" "length p < 65536"
    and "\<forall>l \<in> set ls. length (snd l) < 256"
  shows "link_offset_loop (length ls) offset p = Some (word_of_nat (length pre + length (concat (map link_bytes ls))))"
  using assms
proof (induction ls arbitrary: pre offset)
  case (Cons l ls)
  let ?n = "length (snd l)"
  have p: "p = (pre @ link_bytes l) @ concat (map link_bytes ls) @ post" using Cons.prems(1) by simp
  have len: "length pre + 33 + 3 * ?n \<le> length p" unfolding p by simp
  have o: "unat (offset + 32) = length pre + 32"
    using Cons.prems(2,3) len by (simp add: unat_word_ariths unat_of_nat)
  have "p = (pre @ lid_bytes (fst l)) @ u8 ?n # item_bytes (snd l) @ concat (map link_bytes ls) @ post"
    using p by (simp add: link_bytes_def)
  then have x: "ba_at p (unat (offset + 32)) = Some (u8 ?n)"
    unfolding o by (simp add: ba_at_def nth_append)
  have n: "(ucast (u8 ?n) :: 16 word) = word_of_nat ?n"
    using Cons.prems(4) by (simp add: u8_def unsigned_of_nat take_bit_nat_eq_self)
  have w: "offset + 32 + ucast (u8 ?n) * 3 + 1 = word_of_nat (length (pre @ link_bytes l))"
    using Cons.prems(2) by (simp add: n algebra_simps)
  show ?case using Cons.IH [OF p w Cons.prems(3)] Cons.prems(4) x by (simp add: Let_def add.assoc)
qed simp

lemma read_report:
  assumes "length name = 8" "\<forall>l \<in> set links. link_ok l" "length links < 256" "length (report_bytes name links) < 65536"
  shows "lsm_getType (report_bytes name links) = Some QoS_REPORT \<and> lsm_getNodeId (report_bytes name links) = Some name \<and>
    map_option unat (lsm_getRepLen (report_bytes name links)) = Some (length links) \<and>
    (\<forall>i < length links. lsm_getLid i (report_bytes name links) = Some (fst (links ! i)) \<and>
      lsm_getLinkStatus i (report_bytes name links) = Some (snd (links ! i)))"
proof -
  let ?p = "report_bytes name links"
  have r: "lsm_getRepLen ?p = Some (u8 (length links))" "unat (u8 (length links)) = length links"
    using assms(1,3) by (simp_all add: lsm_getRepLen_def ba_at_def report_bytes_def nth_append unat_u8)
  have t: "lsm_getType ?p = Some QoS_REPORT" by (simp add: lsm_getType_def ba_at_def report_bytes_def)
  have nm: "lsm_getNodeId ?p = Some name"
    using assms(1) by (simp add: lsm_getNodeId_def getStrBytes_ok unat_u8 report_bytes_def)
  have l: "lsm_getLid i ?p = Some (fst (links ! i)) \<and> lsm_getLinkStatus i ?p = Some (snd (links ! i))" if i: "i < length links" for i
  proof -
    let ?l = "links ! i" and ?front = "QoS_REPORT # name @ [u8 (length links)]"
    let ?pre = "?front @ concat (map link_bytes (take i links))" and ?post = "concat (map link_bytes (drop (Suc i) links))"
    have ok: "is_fid (fst ?l)" "qos_ok (snd ?l)" using assms(2) i by (auto simp: link_ok_def)
    have s: "concat (map link_bytes links) = concat (map link_bytes (take i links)) @ link_bytes ?l @ ?post"
      using arg_cong [OF id_take_nth_drop [OF i], of "\<lambda>ls. concat (map link_bytes ls)"] by simp
    have p: "?p = ?pre @ link_bytes ?l @ ?post" unfolding report_bytes_def s by simp
    have hdr: "length ?front = 10" using assms(1) by simp
    have "link_offset_loop (length (take i links)) 10 ?p = Some (word_of_nat (length ?front + length (concat (map link_bytes (take i links)))))"
      by (rule link_offset_ok [of _ _ _ "link_bytes ?l @ ?post"])
        (use p assms hdr in \<open>auto simp: link_ok_def qos_ok_def dest!: in_set_takeD\<close>)
    then have loop: "link_offset_loop i (word_of_nat CONST_HDR_LEN) ?p = Some (word_of_nat (length ?pre))" using i by (simp add: min_def)
    have n: "length ?pre < 65536" using assms(4) unfolding p by simp
    have "uint (word_of_nat (length ?pre) :: 16 word) = int (length ?pre)"
      unfolding uint_nat unat_of_nat using n by (simp only: len_num1 len_num0 len_bit0 len_bit1) simp
    moreover have ni: "(i > length links) = False" using i by simp
    moreover define m where "m = length ?pre"
    ultimately have off: "lsm_getLinkOffset i ?p = Some (int m)"
      unfolding lsm_getLinkOffset_def r(1) bind.simps by (simp only: r(2) ni if_False bind.simps loop)
    have lid: "?p = ?pre @ lid_bytes (fst ?l) @ u8 (length (snd ?l)) # item_bytes (snd ?l) @ ?post" unfolding p by (simp add: link_bytes_def)
    from get_lid [OF ok(1) this, folded m_def] have gl: "lsm_getLid i ?p = Some (fst ?l)" using r i off by (simp add: lsm_getLid_def)
    have "ba_at ?p (m + 32) = Some (u8 (length (snd ?l)))" unfolding lid m_def by (simp add: ba_at_def nth_append)
    moreover have "uint (u8 (length (snd ?l))) = int (length (snd ?l))" unfolding uint_nat using ok(2) by (simp add: unat_u8 qos_ok_def)
    ultimately have len: "lsm_getStatusListLen i ?p = Some (int (length (snd ?l)))" using off by (simp add: lsm_getStatusListLen_def)
    have items: "?p = (?pre @ lid_bytes (fst ?l) @ [u8 (length (snd ?l))]) @ item_bytes (snd ?l) @ ?post" by (rule trans [OF lid]) simp
    have "m + 33 = length (?pre @ lid_bytes (fst ?l) @ [u8 (length (snd ?l))])" by (simp add: m_def)
    from read_items_ok [OF items this, of "[]"] ok(2) have "read_items (length (snd ?l)) (33 + m) ?p [] = Some (snd ?l)"
      by (simp add: qos_ok_def add.commute)
    then have "lsm_getLinkStatus i ?p = Some (snd ?l)" using r i off len by (simp add: lsm_getLinkStatus_def)
    then show ?thesis using gl by blast
  qed
  show ?thesis using t nm r l by simp
qed

text \<open>
  C33. A report of the link monitor says what it was made of. However many links (fewer than 256, in less than
  64 KiB) and values, and whatever the memory held before, the packet that is built has the report's type and
  the node's name, counts the links, and for every link gives back its identifier and exactly its
  list of values.
\<close>

theorem link_report_roundtrip:
  assumes "length name = 8" and "\<forall>l \<in> set links. link_ok l" and "length links < 256"
    and "length (report_bytes name links) < 65536"
  shows "\<exists>p. link_report fresh name links = Some p \<and> lsm_getType p = Some QoS_REPORT \<and> lsm_getNodeId p = Some name \<and>
    map_option unat (lsm_getRepLen p) = Some (length links) \<and>
    (\<forall>i < length links. lsm_getLid i p = Some (fst (links ! i)) \<and> lsm_getLinkStatus i p = Some (snd (links ! i)))"
  using report_ok [OF assms(1-3), of fresh] read_report [OF assms] by blast

subsection \<open>The library's reports\<close>

text \<open>
  The library's version of the packet cannot be read. It does not step over the link identifier it has
  just written: the number of values and the values are written over the identifier's first bytes, and where
  the reader looks for the number of values lies a byte nothing has written, whatever the memory held.
\<close>

theorem library_report_unreadable:
  assumes "length name = 8" and "length lid = 32" and "length q \<le> 10"
  shows "\<exists>p p'. LSMPacket_new fresh = Some p \<and>
    Option.bind (lsm_setNodeId name p) (lib_appendLinkStatus fresh lid q) = Some p' \<and>
    lib_getLid_RAW 0 p' = Some (u8 (length q) # item_bytes q @ drop (1 + 3 * length q) lid) \<and>
    lsm_getStatusListLen 0 p' = Some (uint (fresh 42))"
proof -
  let ?n = "1 + 3 * length q"
  from new_report [OF assms(1), of fresh] obtain p where
    p: "LSMPacket_new fresh = Some p" "lsm_setNodeId name p = Some (report_bytes name [])" by blast
  let ?h = "QoS_REPORT # name @ [0]" and ?new = "map fresh [10..<43 + 3 * length q]"
  have h: "report_bytes name [] = ?h" by (simp add: report_bytes_def u8_def)
  have e: "ba_extend (33 + 3 * length q) fresh ?h = ?h @ ?new" using assms(1) by (simp add: ba_extend_def)
  have n: "?new = map fresh [10..<42] @ fresh 42 # map fresh [43..<43 + 3 * length q]"
    using upt_add_eq_append [of 10 42 "1 + 3 * length q"] by (simp add: upt_conv_Cons del: upt_Suc)
  let ?tail = "fresh 42 # map fresh [43..<43 + 3 * length q]"
  have s: "setStr lid (length ?h) 0 (?h @ ?new) = Some (?h @ lid @ ?tail)"
    unfolding n by (rule setStr_ok [of _ _ _ "map fresh [10..<42]"]) (use assms(2) in simp_all)
  obtain x rest where x: "lid = x # rest" "length rest = 31" using assms(2) by (cases lid) auto
  have c: "ba_put (length ?h) (u8 (length q)) (?h @ lid @ ?tail) = Some (?h @ u8 (length q) # rest @ ?tail)"
    using x by (simp add: ba_put_def list_update_append)
  have cut: "rest @ ?tail = take (3 * length q) rest @ drop (3 * length q) rest @ ?tail"
    by (simp only: append_assoc [symmetric] append_take_drop_id)
  have w: "write_items q (length ?h + 1) (?h @ u8 (length q) # rest @ ?tail) =
      Some (?h @ u8 (length q) # item_bytes q @ drop (3 * length q) rest @ ?tail)"
    using write_items_ok [where a = "(?h @ [u8 (length q)]) @ take (3 * length q) rest @ drop (3 * length q) rest @ ?tail" and q = q, OF refl]
      x(2) assms(3) unfolding cut by simp
  let ?p = "QoS_REPORT # name @ 1 # u8 (length q) # item_bytes q @ drop (3 * length q) rest @ ?tail"
  have f: "lib_appendLinkStatus fresh lid q ?h = Some ?p"
    using e s c w assms(1) unfolding lib_appendLinkStatus_def
    by (simp add: Let_def lsm_getRepLen_def lsm_setRepLen_def ba_at_def ba_put_def nth_append list_update_append mult.commute add.commute)
  have o: "lsm_getLinkOffset 0 ?p = Some 10" "lsm_getRepLen ?p = Some 1"
    using assms(1) by (simp_all add: lsm_getLinkOffset_def lsm_getRepLen_def ba_at_def nth_append)
  have len: "length (u8 (length q) # item_bytes q @ drop (3 * length q) rest) = 32" using x(2) assms(3) by simp
  have l: "lib_getLid_RAW 0 ?p = Some (u8 (length q) # item_bytes q @ drop (3 * length q) rest)"
    using o len assms(1) by (simp add: lib_getLid_RAW_def getStrBytes_ok u8_def)
  have "ba_at ?p 42 = Some (fresh 42)" using len assms(1) x(2) by (simp add: ba_at_def nth_append nth_Cons')
  then have g: "lsm_getStatusListLen 0 ?p = Some (uint (fresh 42))" using o by (simp add: lsm_getStatusListLen_def)
  show ?thesis using p f l g unfolding h x(1) by auto
qed

subsection \<open>Metadata\<close>

lemma unat_half:
  assumes "n + 1 < 65536"
  shows "unat (word_of_nat n :: 16 word) = n" "unat (word_of_nat n + 1 :: 16 word) = n + 1"
proof -
  have u: "unat (word_of_nat k :: 16 word) = k" if "k < 65536" for k using that by (simp add: unat_of_nat)
  show "unat (word_of_nat n :: 16 word) = n" using assms by (intro u) simp
  have "unat (word_of_nat (n + 1) :: 16 word) = n + 1" by (rule u [OF assms])
  then show "unat (word_of_nat n + 1 :: 16 word) = n + 1" by (simp add: add.commute)
qed

definition md_bytes :: "bstr \<Rightarrow> qos_list \<Rightarrow> bstr" where
  "md_bytes i q = QoS_METADATA # u8 (length i div 8) # i @ u8 (length q) # item_bytes q"

text \<open>
  Metadata packets say what they were made of. A packet made for an identifier of fewer than 32
  fragments, given the identifier and a list of values, has the identifier, the number of values, the
  list, and each of the values at its index.
\<close>

theorem metadata_roundtrip:
  assumes "8 dvd length x" and "length x < 256" and "qos_ok q"
  shows "\<exists>p p1 p2. MetaDataPacket_new (u8 (length x div 8)) fresh = Some p \<and> md_setID x p = Some p1 \<and>
    md_appendIIStatus q fresh p1 = Some p2 \<and> md_getID_RAW p2 = Some x \<and> map_option unat (md_getItemNum p2) = Some (length q) \<and>
    md_getIIStatus p2 = Some q \<and> (\<forall>k < length q. md_getItem (int k) p2 = Some (q ! k))"
proof -
  let ?l = "u8 (length x div 8)" and ?i = "length x"
  have l: "unat ?l * 8 = ?i" "8 * unat ?l = ?i" using short_id_u8 [of x] assms(1,2) by (simp_all add: short_id_def)
  have q: "length q < 256" "sorted_wrt (<) (map fst q)" using assms(3) by (simp_all add: qos_ok_def)
  define mm where "mm = map fresh [2..<?i + 2]"
  have lm: "length mm = ?i" by (simp add: mm_def del: upt_Suc)
  have m: "map fresh [0..<?i + 3] = fresh 0 # fresh 1 # mm @ [fresh (?i + 2)]"
  proof -
    have "[0..<?i + 3] = 0 # 1 # [2..<?i + 3]"
      using upt_conv_Cons [of 0 "?i + 3"] upt_conv_Cons [of 1 "?i + 3"] by (simp add: numeral_2_eq_2 del: upt_Suc)
    moreover have "[2..<?i + 3] = [2..<?i + 2] @ [?i + 2]" using upt_Suc_append [of 2 "?i + 2"] by (simp add: eval_nat_numeral)
    ultimately show ?thesis by (simp add: mm_def del: upt_Suc)
  qed
  have new: "MetaDataPacket_new ?l fresh = Some (QoS_METADATA # ?l # mm @ [0])"
    by (simp add: MetaDataPacket_new_def ba_extend_def l m lm ba_put_def Let_def list_update_append del: upt_Suc)
  have s: "setStr x 2 0 (QoS_METADATA # ?l # mm @ [0]) = Some (md_bytes x [])"
    using setStr_ok [OF assms(2), of "QoS_METADATA # ?l # mm @ [0]" "[QoS_METADATA, ?l]" mm "[0]" 2] lm by (simp add: md_bytes_def u8_def)
  have i: "md_setID x (QoS_METADATA # ?l # mm @ [0]) = Some (md_bytes x [])"
    using s by (simp add: md_setID_def md_setIDLen_def ba_put_def)
  let ?new = "map fresh [?i + 3..<?i + 3 + 3 * length q]"
  have lx: "length (md_bytes x []) = ?i + 3" by (simp add: md_bytes_def)
  have e: "ba_extend (length q * 3) fresh (md_bytes x []) = QoS_METADATA # ?l # x @ 0 # ?new"
    unfolding ba_extend_def lx by (simp add: md_bytes_def u8_def mult.commute del: upt_Suc)
  have w: "write_items q (Suc (Suc (Suc ?i))) (QoS_METADATA # ?l # x @ u8 (length q) # ?new) = Some (md_bytes x q)"
    using write_items_ok [where a = "(QoS_METADATA # ?l # x @ [u8 (length q)]) @ ?new @ []" and q = q and pos = "Suc (Suc (Suc ?i))", OF refl]
    by (simp add: md_bytes_def del: upt_Suc)
  have idl: "md_getIDLen (md_bytes x q) = Some ?l" for q by (simp add: md_getIDLen_def md_bytes_def ba_at_def)
  have a: "md_appendIIStatus q fresh (md_bytes x []) = Some (md_bytes x q)"
    using e w by (simp add: md_appendIIStatus_def idl l ba_put_def list_update_append Let_def)
  have num: "md_getItemNum (md_bytes x q) = Some (u8 (length q))" "unat (u8 (length q)) = length q"
    subgoal unfolding md_getItemNum_def idl bind.simps by (simp add: l ba_at_def md_bytes_def nth_append)
    subgoal using q by (simp add: unat_u8)
    done
  have raw: "md_getID_RAW (md_bytes x q) = Some x"
    unfolding md_getID_RAW_def idl bind.simps l using assms(2) by (simp add: getStrBytes_ok unat_u8 md_bytes_def)
  have z: "u8 (length q) = 0 \<longleftrightarrow> q = []"
  proof
    assume "u8 (length q) = 0"
    then show "q = []" using num(2) by simp
  qed (simp add: u8_def)
  have "read_items (length q) (?i + 3) (md_bytes x q) [] = Some q"
    using read_items_ok [of "md_bytes x q" "QoS_METADATA # ?l # x @ [u8 (length q)]" q "[]" "?i + 3" "[]"] q(2) by (simp add: md_bytes_def)
  then have st: "md_getIIStatus (md_bytes x q) = Some q"
    unfolding md_getIIStatus_def idl num(1) bind.simps num(2) l by (simp add: z add.commute)
  have it: "md_getItem (int k) (md_bytes x q) = Some (q ! k)" if k: "k < length q" for k
  proof -
    let ?o = "?i + 3 + 3 * k"
    obtain key v where kv: "q ! k = (key, v)" by (cases "q ! k")
    have "q = take k q @ (key, v) # drop (Suc k) q" using id_take_nth_drop [OF k] kv by simp
    then have "item_bytes q = item_bytes (take k q) @ [key, ucast (drop_bit 8 v), ucast v] @ item_bytes (drop (Suc k) q)"
      by (metis (no_types, lifting) append.assoc append_Cons append_Nil concat_append item_bytes_def item_bytes_simps(2) map_append)
    then have b: "md_bytes x q = (QoS_METADATA # ?l # x @ u8 (length q) # item_bytes (take k q)) @
        [key, ucast (drop_bit 8 v), ucast v] @ item_bytes (drop (Suc k) q)" by (simp add: md_bytes_def)
    have len: "length (QoS_METADATA # ?l # x @ u8 (length q) # item_bytes (take k q)) = ?o" using k by (simp add: min_def)
    have at: "md_bytes x q ! ?o = key" "md_bytes x q ! (?o + 1) = ucast (drop_bit 8 v)" "md_bytes x q ! (?o + 1 + 1) = ucast v"
      unfolding b nth_append len by simp_all
    have sz: "?o + 2 < length (md_bytes x q)" unfolding b length_append len by simp
    have "uint ?l * 8 = int (unat ?l * 8)" by simp
    then have ui: "uint ?l * 8 = int ?i" unfolding l(1) .
    have off: "(word_of_int (int MD_HDR_LEN + uint ?l * int PURSUIT_ID_LEN + int k * int QoS_ITEM_SIZE) :: 16 word) = word_of_nat ?o"
      using ui by (simp add: algebra_simps)
    have "?o + 1 < 65536" using assms(2) q(1) k by linarith
    note un = unat_half [OF this]
    from getBits_16 [of "?o + 1" "md_bytes x q" v] at sz obtain w where w: "getBits 16 (?o + 1) 0 (md_bytes x q) = Some w" "ucast w = v" by auto
    have nk: "\<not> (int k < 0 \<or> int k > uint (u8 (length q)))" 
    proof -
      have "uint (u8 (length q)) = int (unat (u8 (length q)))" by simp
      then show ?thesis unfolding num(2) using k by simp
    qed
    show ?thesis unfolding md_getItem_def idl num bind.simps if_not_P [OF nk] Let_def off un using at sz w kv by (simp add: ba_at_def)
  qed
  show ?thesis using new i a raw num st it by auto
qed

text \<open>
  An identifier of 32 fragments or more is never written. The loop counts its characters in a byte: with 256
  or more of them it starts over again and again, so if the packet has room for the identifier the call does
  not return.
\<close>

theorem long_identifier_never_written:
  assumes "256 \<le> length x" and "length x + 2 \<le> length p" and "2 \<le> length p"
  shows "md_setID x p = None"
proof -
  have "setStr_loop x 0 2 0 p' = None" for p'
    using setStr_loop_returns [of x 0 2 0 p'] assms(1) by (cases "setStr_loop x 0 2 0 p'") auto
  then show ?thesis using assms(2,3) by (auto simp: md_setID_def md_setIDLen_def ba_put_def setStr_def)
qed

subsection \<open>Witnesses\<close>

definition ex_report_links :: "(bitvec \<times> qos_list) list" where
  "ex_report_links = [(ex_fid 5, [(4, 7), (10, 1)])]"

theorem link_report_roundtrip_witness:
  "\<exists>p. link_report (\<lambda>_. 0) [48, 48, 48, 48, 48, 48, 48, 49] ex_report_links = Some p \<and>
    lsm_getNodeId p = Some [48, 48, 48, 48, 48, 48, 48, 49] \<and> lsm_getLid 0 p = Some (ex_fid 5) \<and> lsm_getLinkStatus 0 p = Some [(4, 7), (10, 1)]"
proof -
  have "\<forall>l \<in> set ex_report_links. link_ok l" by (simp add: ex_report_links_def link_ok_def qos_ok_def ex_fid_ok)
  from link_report_roundtrip [of "[48, 48, 48, 48, 48, 48, 48, 49]", OF _ this, of "\<lambda>_. 0"] show ?thesis
    by (auto simp: ex_report_links_def report_bytes_def)
qed

theorem library_report_unreadable_witness:
  "\<exists>p p'. LSMPacket_new (\<lambda>_. 0) = Some p \<and>
    Option.bind (lsm_setNodeId [48, 48, 48, 48, 48, 48, 48, 49] p) (lib_appendLinkStatus (\<lambda>_. 0) (replicate 32 9) [(4, 7)]) = Some p' \<and>
    lib_getLid_RAW 0 p' = Some ([1, 4, 0, 7] @ replicate 28 9) \<and> lsm_getStatusListLen 0 p' = Some 0"
  using library_report_unreadable [of "[48, 48, 48, 48, 48, 48, 48, 49]" "replicate 32 9" "[(4, 7)]" "\<lambda>_. 0"] by (simp add: u8_def)

theorem metadata_roundtrip_witness:
  "\<exists>p p1 p2. MetaDataPacket_new 2 (\<lambda>_. 0) = Some p \<and> md_setID (replicate 16 7) p = Some p1 \<and>
    md_appendIIStatus [(4, 7), (10, 1)] (\<lambda>_. 0) p1 = Some p2 \<and> md_getID_RAW p2 = Some (replicate 16 7) \<and>
    md_getIIStatus p2 = Some [(4, 7), (10, 1)]"
  using metadata_roundtrip [of "replicate 16 7" "[(4, 7), (10, 1)]" "\<lambda>_. 0"] by (auto simp: qos_ok_def u8_def)

end
