(* ===== verification/BA_LinkMon.thy ===== *)
theory BA_LinkMon
  imports BA_QoSPacket BA_LocalProxy_Safe
begin

text \<open>
  The link monitor, \<^verbatim>\<open>src/tm_ext/linkmon.hh\<close> and \<^verbatim>\<open>src/tm_ext/linkmon.cc\<close>, with the packets it makes
  for the dispatcher, \<^verbatim>\<open>src/tm_ext/ba_api.cc\<close>. It keeps the status of the links of the forwarder and
  publishes it as data of the node's item under the monitoring scope.
\<close>

subsection \<open>Packets for the dispatcher\<close>

text \<open>
  \<^verbatim>\<open>src/tm_ext/ba_api.cc\<close>. With a prefix, the prefix is written where the dispatcher reads the identifier
  and the identifier where it reads the prefix; the callers pass them that way round. Without one,
  \<^verbatim>\<open>prefix.length()\<close> bytes, of a prefix too short to count, are left unwritten.
\<close>

definition bapi_makepacket :: "byte \<Rightarrow> bstr \<Rightarrow> bstr \<Rightarrow> byte \<Rightarrow> packet" where
  "bapi_makepacket type prefix i strategy =
     (let id_len = u8 (length i div PURSUIT_ID_LEN); prefix_len = u8 (length prefix div PURSUIT_ID_LEN) in
      \<lparr>pk_data = (if prefix_len > 0 then cells ([type, prefix_len] @ prefix @ [id_len] @ i)
          else cells ([type, id_len] @ i @ [prefix_len]) @ replicate (length prefix) None) @ cells [strategy],
        pk_anno = None\<rparr>)"

definition bapi_publish_scope :: "bstr \<Rightarrow> bstr \<Rightarrow> byte \<Rightarrow> packet" where
  "bapi_publish_scope prefix i strategy = bapi_makepacket PUBLISH_SCOPE prefix i strategy"

definition bapi_publish_info :: "bstr \<Rightarrow> bstr \<Rightarrow> byte \<Rightarrow> packet" where
  "bapi_publish_info prefix i strategy = bapi_makepacket PUBLISH_INFO prefix i strategy"

definition bapi_unpublish_scope :: "bstr \<Rightarrow> bstr \<Rightarrow> byte \<Rightarrow> packet" where
  "bapi_unpublish_scope prefix i strategy = bapi_makepacket UNPUBLISH_SCOPE prefix i strategy"

definition bapi_unpublish_info :: "bstr \<Rightarrow> bstr \<Rightarrow> byte \<Rightarrow> packet" where
  "bapi_unpublish_info prefix i strategy = bapi_makepacket UNPUBLISH_INFO prefix i strategy"

text \<open>The length of the data is a \<^verbatim>\<open>uint16_t\<close>.\<close>

definition bapi_publish_data :: "bstr \<Rightarrow> bstr \<Rightarrow> byte \<Rightarrow> bstr \<Rightarrow> 16 word \<Rightarrow> packet option" where
  "bapi_publish_data prefix i strategy data datalen =
     (if unat datalen > length data then None
      else Some \<lparr>pk_data = cells ([PUBLISH_DATA, u8 ((length prefix + length i) div PURSUIT_ID_LEN)] @ (prefix @ i) @ [strategy] @
             take (unat datalen) data), pk_anno = None\<rparr>)"

subsection \<open>The link monitor\<close>

text \<open>
  \<^verbatim>\<open>src/tm_ext/linkmon.cc\<close>. Which links are monitored depends on the elements the router has and on
  their handlers: \<open>found\<close> tells for which entries of the forwarder's table every one of them was found.
  The readings of the handlers are arguments of \<open>LinkMon_poll\<close>: the integers
  \<^verbatim>\<open>atoi\<close> makes of the texts of the queue and the counters, and the rate of the shaper in whole
  kbit/s after its unit is converted. The timers fire from outside.
\<close>

abbreviation (input) TM_LSM_SCOPE_SUFFIX :: byte where "TM_LSM_SCOPE_SUFFIX \<equiv> 0xfb"
abbreviation (input) QoS_CAPACITY_M :: byte where "QoS_CAPACITY_M \<equiv> 1"
abbreviation (input) QoS_QUEUELEN :: byte where "QoS_QUEUELEN \<equiv> 4"
abbreviation (input) QoS_NETTYPE :: byte where "QoS_NETTYPE \<equiv> 10"
abbreviation (input) QoS_INRATE_K :: byte where "QoS_INRATE_K \<equiv> 13"
abbreviation (input) QoS_OUTRATE_K :: byte where "QoS_OUTRATE_K \<equiv> 14"
abbreviation (input) QoS_PRIO :: byte where "QoS_PRIO \<equiv> 15"
abbreviation (input) QoS_BS_LIM_K :: byte where "QoS_BS_LIM_K \<equiv> 16"
abbreviation (input) QoS_BS_LIM_M :: byte where "QoS_BS_LIM_M \<equiv> 17"
abbreviation (input) NT_ETH :: "16 word" where "NT_ETH \<equiv> 1"

record link_mon =
  lm_gc :: globalconf
  lm_LSM_SCOPE :: bstr
  lm_active :: bool
  lm_links :: "(bitvec \<times> qos_list) list"
  lm_confPrio :: "int list"
  lm_out :: "packet list"

definition LinkMon_configure :: "globalconf \<Rightarrow> int list \<Rightarrow> link_mon" where
  "LinkMon_configure gc prios = \<lparr>lm_gc = gc, lm_LSM_SCOPE = replicate (PURSUIT_ID_LEN - 1) 0xff @ [TM_LSM_SCOPE_SUFFIX],
     lm_active = False, lm_links = [], lm_confPrio = butlast prios, lm_out = []\<rparr>"

fun monitored_links :: "(fwd_entry \<Rightarrow> bool) \<Rightarrow> int list \<Rightarrow> nat \<Rightarrow> fwd_entry list \<Rightarrow> (bitvec \<times> qos_list) list option" where
  "monitored_links found confPrio i [] = Some []"
| "monitored_links found confPrio i (fe # fwt) = do {
     ls \<leftarrow> monitored_links found confPrio (i + 1) fwt;
     if found fe then
       (if i < length confPrio
        then Some ((fe_LID fe, qos_set QoS_PRIO (word_of_int (confPrio ! i)) (qos_set QoS_CAPACITY_M 100 (qos_set QoS_NETTYPE NT_ETH []))) # ls)
        else None)
     else Some ls
   }"

definition lm_send :: "packet \<Rightarrow> link_mon \<Rightarrow> link_mon" where
  "lm_send p s = s\<lparr>lm_out := lm_out s @ [p]\<rparr>"

definition LinkMon_announce :: "link_mon \<Rightarrow> link_mon" where
  "LinkMon_announce s = lm_send (bapi_publish_info (nodeID (lm_gc s)) (lm_LSM_SCOPE s) DOMAIN_LOCAL)
     (lm_send (bapi_publish_scope [] (lm_LSM_SCOPE s) DOMAIN_LOCAL) s)"

definition LinkMon_initialize :: "(fwd_entry \<Rightarrow> bool) \<Rightarrow> forwarder \<Rightarrow> link_mon \<Rightarrow> link_mon option" where
  "LinkMon_initialize found fw s = do {
     ls \<leftarrow> monitored_links found (lm_confPrio s) 0 (fwTable fw);
     Some (LinkMon_announce (s\<lparr>lm_links := lm_links s @ ls\<rparr>))
   }"

definition LinkMon_cleanup :: "link_mon \<Rightarrow> link_mon" where
  "LinkMon_cleanup s = lm_send (bapi_unpublish_info (nodeID (lm_gc s)) (lm_LSM_SCOPE s) DOMAIN_LOCAL) s"

definition LinkMon_push :: "packet \<Rightarrow> link_mon \<Rightarrow> link_mon option" where
  "LinkMon_push p s = do {
     type \<leftarrow> rd8 p 0;
     Some (if type = START_PUBLISH then s\<lparr>lm_active := True\<rparr>
           else if type = STOP_PUBLISH then s\<lparr>lm_active := False\<rparr> else s)
   }"

text \<open>The name of the node goes through a C string.\<close>

definition LinkMon_report :: "(nat \<Rightarrow> byte) \<Rightarrow> link_mon \<Rightarrow> link_mon option" where
  "LinkMon_report fresh s = (if \<not> lm_active s
     then Some (LinkMon_announce (lm_send (bapi_unpublish_info (nodeID (lm_gc s)) (lm_LSM_SCOPE s) DOMAIN_LOCAL) s))
     else if lm_links s = [] then Some s
     else do {
       pkt \<leftarrow> link_report fresh (takeWhile (\<lambda>c. c \<noteq> 0) (nodeID (lm_gc s))) (lm_links s);
       p \<leftarrow> bapi_publish_data (lm_LSM_SCOPE s) (nodeID (lm_gc s)) DOMAIN_LOCAL pkt (word_of_nat (length pkt));
       Some (lm_send p s)
     })"

record readings =
  rd_queue :: "int option"
  rd_in :: "int option"
  rd_shaper :: "nat option"
  rd_outC :: "int option"

definition qos_erase :: "byte \<Rightarrow> qos_list \<Rightarrow> qos_list" where
  "qos_erase k q = filter (\<lambda>e. fst e \<noteq> k) q"

definition c_div :: "int \<Rightarrow> int \<Rightarrow> int" where
  "c_div a b = sgn a * sgn b * (\<bar>a\<bar> div \<bar>b\<bar>)"

definition shaper_status :: "nat option \<Rightarrow> qos_list \<Rightarrow> qos_list option" where
  "shaper_status bwval q = (case bwval of
       None \<Rightarrow> Some q
     | Some v \<Rightarrow> if v < 65536 then Some (qos_erase QoS_BS_LIM_M (qos_set QoS_BS_LIM_K (word_of_nat v) q))
         else if v div 1000 < 65536 then Some (qos_erase QoS_BS_LIM_K (qos_set QoS_BS_LIM_M (word_of_nat (v div 1000)) q))
         else None)"

definition counter_status :: "byte \<Rightarrow> int option \<Rightarrow> qos_list \<Rightarrow> qos_list" where
  "counter_status k reading q = (case reading of None \<Rightarrow> q | Some n \<Rightarrow> qos_set k (word_of_int n) q)"

definition Link_update :: "readings \<Rightarrow> bitvec \<times> qos_list \<Rightarrow> (bitvec \<times> qos_list) option" where
  "Link_update r l = do {
     let status = counter_status QoS_QUEUELEN (rd_queue r) (snd l);
     let status = counter_status QoS_INRATE_K (map_option (\<lambda>n. c_div n 1000) (rd_in r)) status;
     status \<leftarrow> shaper_status (rd_shaper r) status;
     Some (fst l, counter_status QoS_OUTRATE_K (map_option (\<lambda>n. c_div n 1000) (rd_outC r)) status)
   }"

fun update_links :: "readings list \<Rightarrow> (bitvec \<times> qos_list) list \<Rightarrow> (bitvec \<times> qos_list) list option" where
  "update_links (r # rs) (l # ls) = do { l \<leftarrow> Link_update r l; ls \<leftarrow> update_links rs ls; Some (l # ls) }"
| "update_links _ ls = Some ls"

definition LinkMon_poll :: "readings list \<Rightarrow> link_mon \<Rightarrow> link_mon option" where
  "LinkMon_poll rs s = do { ls \<leftarrow> update_links rs (lm_links s); Some (s\<lparr>lm_links := ls\<rparr>) }"

subsection \<open>What the monitor keeps\<close>

lemma qos_set_keys: "fst ` set (qos_set k v q) = insert k (fst ` set q)"
  by (induction k v q rule: qos_set.induct) auto

lemma qos_set_sorted: "sorted_wrt (<) (map fst q) \<Longrightarrow> sorted_wrt (<) (map fst (qos_set k v q))"
proof (induction k v q rule: qos_set.induct)
  case (2 k v k' v' q)
  show ?case
  proof (cases "k < k'")
    case True
    then show ?thesis using 2(2) by auto
  next
    case False
    have keys: "set (map fst (qos_set k v q)) = insert k (set (map fst q))" using qos_set_keys [of k v q] by simp
    show ?thesis using False 2 keys by (cases "k = k'") auto
  qed
qed simp

lemma qos_erase_keeps: "sorted_wrt (<) (map fst q) \<Longrightarrow> sorted_wrt (<) (map fst (qos_erase k q))" "fst ` set (qos_erase k q) \<subseteq> fst ` set q"
  by (auto simp: qos_erase_def sorted_wrt_map intro: sorted_wrt_filter)

definition monitor_keys :: "byte set" where
  "monitor_keys = {QoS_CAPACITY_M, QoS_QUEUELEN, QoS_NETTYPE, QoS_INRATE_K, QoS_OUTRATE_K, QoS_PRIO, QoS_BS_LIM_K, QoS_BS_LIM_M}"

definition status_ok :: "qos_list \<Rightarrow> bool" where
  "status_ok q \<longleftrightarrow> sorted_wrt (<) (map fst q) \<and> fst ` set q \<subseteq> monitor_keys"

lemma status_length: "status_ok q \<Longrightarrow> length q \<le> 8"
proof -
  assume q: "status_ok q"
  have "distinct (map fst q)" using q strict_sorted_iff [of "map fst q"] by (simp add: status_ok_def)
  then have "length q = card (set (map fst q))" using distinct_card [of "map fst q"] by simp
  also have "\<dots> \<le> card monitor_keys" using q by (intro card_mono) (auto simp: status_ok_def monitor_keys_def)
  also have "\<dots> = 8" by (simp add: monitor_keys_def)
  finally show ?thesis .
qed

lemma status_set: "status_ok q \<Longrightarrow> k \<in> monitor_keys \<Longrightarrow> status_ok (qos_set k v q)"
  using qos_set_sorted [of q k v] qos_set_keys [of k v q] by (simp add: status_ok_def)

lemma status_erase: "status_ok q \<Longrightarrow> status_ok (qos_erase k q)"
  using qos_erase_keeps(1) [of q k] qos_erase_keeps(2) [of k q] by (auto simp: status_ok_def)

lemma shaper_status_ok: "shaper_status v q = Some q' \<Longrightarrow> status_ok q \<Longrightarrow> status_ok q'"
  by (auto simp: shaper_status_def split: option.splits if_splits intro!: status_erase status_set simp: monitor_keys_def)

definition monitor_inv :: "link_mon \<Rightarrow> bool" where
  "monitor_inv s \<longleftrightarrow> gc_wf (lm_gc s) \<and> 0 \<notin> set (nodeID (lm_gc s)) \<and> lm_LSM_SCOPE s = replicate 7 0xff @ [0xfb] \<and>
     length (lm_links s) < 256 \<and> (\<forall>l \<in> set (lm_links s). is_fid (fst l) \<and> status_ok (snd l))"

lemma counter_status_ok: "status_ok q \<Longrightarrow> k \<in> monitor_keys \<Longrightarrow> status_ok (counter_status k n q)"
  by (auto simp: counter_status_def status_set split: option.split)

lemma update_ok: "Link_update r l = Some l' \<Longrightarrow> status_ok (snd l) \<Longrightarrow> fst l' = fst l \<and> status_ok (snd l')"
  by (auto simp: Link_update_def Let_def split: Option.bind_splits intro!: counter_status_ok elim!: shaper_status_ok)
    (simp_all add: monitor_keys_def)

lemma update_links_ok:
  assumes "\<forall>l \<in> set ls. is_fid (fst l) \<and> status_ok (snd l)" "update_links rs ls = Some ls'"
  shows "length ls' = length ls" "\<forall>l \<in> set ls'. is_fid (fst l) \<and> status_ok (snd l)"
proof -
  have "length ls' = length ls \<and> (\<forall>l \<in> set ls'. is_fid (fst l) \<and> status_ok (snd l))"
    using assms
  proof (induction rs ls arbitrary: ls' rule: update_links.induct)
    case (1 r rs l ls)
    then show ?case using update_ok [of r l] by (force split: Option.bind_splits)
  qed auto
  then show "length ls' = length ls" "\<forall>l \<in> set ls'. is_fid (fst l) \<and> status_ok (snd l)" by blast+
qed

subsection \<open>Runs of the monitor\<close>

datatype monitor_event = Told packet | Report_Timer "nat \<Rightarrow> byte" | Poll_Timer "readings list"

fun monitor_step :: "monitor_event \<Rightarrow> link_mon \<Rightarrow> link_mon option" where
  "monitor_step (Told p) s = LinkMon_push p s"
| "monitor_step (Report_Timer fresh) s = LinkMon_report fresh s"
| "monitor_step (Poll_Timer rs) s = LinkMon_poll rs s"

text \<open>A packet from the dispatcher has a type; no shaper is set to 65536 Mbit/s or more.\<close>

fun monitor_event_ok :: "monitor_event \<Rightarrow> link_mon \<Rightarrow> bool" where
  "monitor_event_ok (Told p) s = (rd8 p 0 \<noteq> None)"
| "monitor_event_ok (Report_Timer fresh) s = True"
| "monitor_event_ok (Poll_Timer rs) s = (\<forall>r \<in> set rs. case rd_shaper r of None \<Rightarrow> True | Some v \<Rightarrow> v < 65536000)"

lemma name_whole: "0 \<notin> set x \<Longrightarrow> takeWhile (\<lambda>c. c \<noteq> 0) x = x"
  by (auto simp: takeWhile_eq_all_conv)

lemma report_length: "(\<forall>l \<in> set ls. length (snd l) \<le> 8) \<Longrightarrow> length (concat (map link_bytes ls)) \<le> 57 * length ls"
  by (induction ls) auto

lemma monitored_ok: "monitor_inv s \<Longrightarrow> l \<in> set (lm_links s) \<Longrightarrow> link_ok l"
  using status_length [of "snd l"] by (auto simp: monitor_inv_def link_ok_def qos_ok_def status_ok_def)

lemma active_report:
  assumes "monitor_inv s" "lm_active s" "lm_links s \<noteq> []"
  shows "\<exists>p pkt. LinkMon_report fresh s = Some (lm_send p s) \<and>
    pkt = report_bytes (nodeID (lm_gc s)) (lm_links s) \<and> link_report fresh (nodeID (lm_gc s)) (lm_links s) = Some pkt \<and> length pkt < 65536 \<and>
    pk_data p = cells (app_data (lm_LSM_SCOPE s @ nodeID (lm_gc s)) DOMAIN_LOCAL []) @ cells pkt"
proof -
  let ?n = "nodeID (lm_gc s)" and ?ls = "lm_links s"
  have i: "length ?n = 8" "0 \<notin> set ?n" "length (lm_LSM_SCOPE s) = 8" "length ?ls < 256"
    using assms(1) by (simp_all add: monitor_inv_def gc_wf_def)
  have st: "\<forall>l \<in> set ?ls. length (snd l) \<le> 8" using assms(1) status_length by (auto simp: monitor_inv_def)
  have ok: "\<forall>l \<in> set ?ls. link_ok l" using monitored_ok [OF assms(1)] by blast
  let ?pkt = "report_bytes ?n ?ls"
  have sz: "length ?pkt < 65536" using report_length [OF st] i by (simp add: report_bytes_def)
  have r: "link_report fresh ?n ?ls = Some ?pkt" by (rule report_ok [OF i(1) ok i(4)])
  have u: "unat (word_of_nat (length ?pkt) :: 16 word) = length ?pkt" using sz by (simp add: unat_of_nat)
  let ?p = "\<lparr>pk_data = cells ([PUBLISH_DATA, u8 ((8 + 8) div 8)] @ (lm_LSM_SCOPE s @ ?n) @ [DOMAIN_LOCAL] @ ?pkt), pk_anno = None\<rparr>"
  have "LinkMon_report fresh s = Some (lm_send ?p s)"
    using assms(2,3) r u i by (simp add: LinkMon_report_def name_whole bapi_publish_data_def)
  moreover have "pk_data ?p = cells (app_data (lm_LSM_SCOPE s @ ?n) DOMAIN_LOCAL []) @ cells ?pkt"
    using i by (simp add: app_data_def id_bytes_def)
  ultimately show ?thesis using r sz by blast
qed

lemma monitor_safe_step:
  assumes "monitor_inv s" "monitor_event_ok e s"
  shows "\<exists>s'. monitor_step e s = Some s' \<and> monitor_inv s'"
proof (cases e)
  case (Told p)
  then show ?thesis using assms by (auto simp: LinkMon_push_def monitor_inv_def)
next
  case (Report_Timer fresh)
  consider "\<not> lm_active s" | "lm_links s = []" "lm_active s" | "lm_active s" "lm_links s \<noteq> []" by blast
  then show ?thesis
  proof cases
    case 3
    from active_report [OF assms(1) 3, of fresh] show ?thesis using Report_Timer assms(1) by (auto simp: monitor_inv_def lm_send_def)
  qed (use Report_Timer assms(1) in \<open>auto simp: LinkMon_report_def LinkMon_announce_def lm_send_def monitor_inv_def\<close>)
next
  case (Poll_Timer rs)
  have "\<exists>l'. Link_update r l = Some l'" if "r \<in> set rs" for r l
  proof -
    have "\<exists>q'. shaper_status (rd_shaper r) q = Some q'" for q
      using assms(2) Poll_Timer that by (auto simp: shaper_status_def split: option.splits)
    then obtain q' where "shaper_status (rd_shaper r)
        (counter_status QoS_INRATE_K (map_option (\<lambda>n. c_div n 1000) (rd_in r)) (counter_status QoS_QUEUELEN (rd_queue r) (snd l))) = Some q'"
      by blast
    then show ?thesis by (simp add: Link_update_def Let_def)
  qed
  then have "\<exists>ls'. update_links rs ls = Some ls'" for ls
  proof (induction rs arbitrary: ls)
    case (Cons r rs)
    then show ?case
    proof (cases ls)
      case ls: (Cons l ls0)
      obtain l' where "Link_update r l = Some l'" using Cons.prems [of r l] by auto
      moreover obtain ls' where "update_links rs ls0 = Some ls'" using Cons by fastforce
      ultimately show ?thesis using ls by simp
    qed simp
  qed simp
  then obtain ls' where ls': "update_links rs (lm_links s) = Some ls'" by blast
  have "\<forall>l \<in> set (lm_links s). is_fid (fst l) \<and> status_ok (snd l)" using assms(1) by (simp add: monitor_inv_def)
  from update_links_ok [OF this ls'] have "monitor_inv (s\<lparr>lm_links := ls'\<rparr>)" using assms(1) by (simp add: monitor_inv_def)
  then show ?thesis using Poll_Timer ls' by (simp add: LinkMon_poll_def)
qed

interpretation lme: element monitor_step monitor_event_ok monitor_inv
  by unfold_locales (rule monitor_safe_step)

text \<open>The monitor right after it is initialised.\<close>

lemma monitored_links_ok:
  assumes "i + length fwt \<le> length confPrio" "\<forall>fe \<in> set fwt. is_fid (fe_LID fe)"
  shows "\<exists>ls. monitored_links found confPrio i fwt = Some ls \<and> length ls \<le> length fwt \<and> (\<forall>l \<in> set ls. is_fid (fst l) \<and> status_ok (snd l)) \<and>
    map fst ls = map fe_LID (filter found fwt)"
  using assms
proof (induction found confPrio i fwt rule: monitored_links.induct)
  case (2 found confPrio i fe fwt)
  then obtain ls where ls: "monitored_links found confPrio (i + 1) fwt = Some ls" "length ls \<le> length fwt"
    "\<forall>l \<in> set ls. is_fid (fst l) \<and> status_ok (snd l)" "map fst ls = map fe_LID (filter found fwt)" by auto
  have "status_ok (qos_set QoS_PRIO v (qos_set QoS_CAPACITY_M 100 (qos_set QoS_NETTYPE NT_ETH [])))" for v
    by (intro status_set) (simp_all add: monitor_keys_def status_ok_def)
  then show ?case using ls 2(2,3) by auto
qed simp

lemma initialize_ok:
  assumes "gc_wf gc" "0 \<notin> set (nodeID gc)" "fw_wf fw" "length (fwTable fw) < 256" "length (fwTable fw) < length prios"
  shows "\<exists>s. LinkMon_initialize found fw (LinkMon_configure gc prios) = Some s \<and> monitor_inv s \<and> \<not> lm_active s \<and> lm_gc s = gc \<and>
    map fst (lm_links s) = map fe_LID (filter found (fwTable fw)) \<and>
    lm_out s = [bapi_publish_scope [] (lm_LSM_SCOPE s) DOMAIN_LOCAL, bapi_publish_info (nodeID gc) (lm_LSM_SCOPE s) DOMAIN_LOCAL]"
proof -
  have "\<forall>fe \<in> set (fwTable fw). is_fid (fe_LID fe)" using assms(3) by (auto simp: fw_wf_def entry_wf_def)
  moreover have "0 + length (fwTable fw) \<le> length (butlast prios)" using assms(5) by simp
  ultimately obtain ls where
    ls: "monitored_links found (butlast prios) 0 (fwTable fw) = Some ls" "length ls \<le> length (fwTable fw)"
    "\<forall>l \<in> set ls. is_fid (fst l) \<and> status_ok (snd l)" "map fst ls = map fe_LID (filter found (fwTable fw))"
    using monitored_links_ok [of 0 "fwTable fw" "butlast prios" found] by blast
  then show ?thesis using assms(1,2,4)
    by (simp add: LinkMon_initialize_def LinkMon_configure_def LinkMon_announce_def lm_send_def monitor_inv_def)
qed

lemma monitor_keeps:
  assumes "monitor_step e s = Some s'"
  shows "lm_gc s' = lm_gc s" "map fst (lm_links s') = map fst (lm_links s)"
proof -
  have u: "update_links rs ls = Some ls' \<Longrightarrow> map fst ls' = map fst ls" for rs ls ls'
    by (induction rs ls arbitrary: ls' rule: update_links.induct)
      (auto simp: Link_update_def Let_def split: Option.bind_splits)
  have "lm_gc s' = lm_gc s \<and> map fst (lm_links s') = map fst (lm_links s)"
    using assms u by (cases e) (auto simp: LinkMon_push_def LinkMon_report_def LinkMon_announce_def lm_send_def LinkMon_poll_def
      split: Option.bind_splits if_splits)
  then show "lm_gc s' = lm_gc s" "map fst (lm_links s') = map fst (lm_links s)" by blast+
qed


subsection \<open>Witnesses\<close>

definition ex_monitor_gc :: globalconf where
  "ex_monitor_gc = (let n = [48, 48, 48, 48, 48, 48, 48, 49] in ex_gc\<lparr>nodeID := n, nodeRVScope := RVScope ex_gc @ n,
     nodeTMScope := TMScope ex_gc @ n, notificationIID := replicate 7 255 @ [253] @ n\<rparr>)"


end
