(* ===== verification/BA_TMQoS.thy ===== *)
theory BA_TMQoS
  imports BA_Topology_Safe BA_QoSPacket
begin

text \<open>
  The topology manager's extension for quality of service: the cache of the items' metadata
  \<^verbatim>\<open>TopologyManager/tm_qos.cpp\<close>, the planes of weights of \<^verbatim>\<open>TopologyManager/tm_graph.cpp\<close> and
  \<^verbatim>\<open>TopologyManager/tm_igraph.cpp\<close> that follow the link monitors' reports, the routes computed with them, and
  the branches of \<^verbatim>\<open>TopologyManager/tm.cpp\<close> that use them. \<open>None\<close> is undefined behaviour or an
  uncaught exception, as elsewhere. Parameters are SHA-1, the clock, igraph's weighted shortest paths
  and what the machine makes of a number that is not a byte.
\<close>

subsection \<open>The cache of metadata\<close>

text \<open>
  \<^verbatim>\<open>std::map\<close>: entries in the order of their keys. Times are in seconds; every function that reads the
  clock has the readings as arguments, in the order it takes them. SHA-1 is a parameter.
\<close>

fun map_put :: "'k :: linorder \<Rightarrow> 'v \<Rightarrow> ('k \<times> 'v) list \<Rightarrow> ('k \<times> 'v) list" where
  "map_put k v [] = [(k, v)]"
| "map_put k v ((k', v') # m) =
     (if k < k' then (k, v) # (k', v') # m else if k = k' then (k, v) # m else (k', v') # map_put k v m)"

record meta_content =
  mc_qos :: qos_list
  mc_querying :: bool
  mc_querytime :: int
  mc_created :: int

definition MetaDataContent :: meta_content where
  "MetaDataContent = \<lparr>mc_qos = [], mc_querying = False, mc_querytime = 0, mc_created = 0\<rparr>"

record meta_cache =
  ii_meta :: "(bstr, meta_content) htab"
  last_non_lazy_update :: int

abbreviation (input) EXPIRATION_TIME :: int where "EXPIRATION_TIME \<equiv> 600"
abbreviation (input) QUERY_EXP_TIME :: int where "QUERY_EXP_TIME \<equiv> 1"
abbreviation (input) NON_LAZY_INT :: int where "NON_LAZY_INT \<equiv> 3600"
abbreviation (input) DEFAULT_QOS_PRIO :: "16 word" where "DEFAULT_QOS_PRIO \<equiv> 0"
abbreviation (input) QoS_PRIO :: byte where "QoS_PRIO \<equiv> 15"
abbreviation (input) MAX_PRIO :: nat where "MAX_PRIO \<equiv> 100"

definition IIMetaCache_new :: "int \<Rightarrow> meta_cache" where
  "IIMetaCache_new now = \<lparr>ii_meta = [], last_non_lazy_update = now\<rparr>"

definition mc_exists :: "bstr \<Rightarrow> meta_cache \<Rightarrow> bool" where
  "mc_exists ii mc \<longleftrightarrow> hm_get (ii_meta mc) ii \<noteq> None"

definition quering :: "bstr \<Rightarrow> meta_cache \<Rightarrow> bool" where
  "quering ii mc \<longleftrightarrow> (case hm_get (ii_meta mc) ii of None \<Rightarrow> False | Some e \<Rightarrow> mc_querying e)"

text \<open>
  The last fragment of an identifier and what is before it; a shorter identifier makes
  \<^verbatim>\<open>substr\<close> throw.
\<close>

definition split_id :: "bstr \<Rightarrow> (bstr \<times> bstr) option" where
  "split_id ii = (if length ii < PURSUIT_ID_LEN then None
     else Some (drop (length ii - PURSUIT_ID_LEN) ii, take (length ii - PURSUIT_ID_LEN) ii))"

definition getQoSID :: "(bstr \<Rightarrow> bstr) \<Rightarrow> bstr \<Rightarrow> bstr option" where
  "getQoSID sha1 ii = do { (item_last, _) \<leftarrow> split_id ii; Some (take PURSUIT_ID_LEN (sha1 item_last)) }"

definition qos_unsubscribe :: "bstr \<Rightarrow> bstr \<Rightarrow> blackadder \<Rightarrow> blackadder" where
  "qos_unsubscribe i prefix ba = snd (lib_unsubscribe_info i prefix DOMAIN_LOCAL None ba)"

text \<open>What is done with an entry that may have to go: whether it goes, and the socket.\<close>

definition clean_entry :: "int \<Rightarrow> bstr \<Rightarrow> meta_content \<Rightarrow> blackadder \<Rightarrow> (bool \<times> blackadder) option" where
  "clean_entry now ii e ba =
     (if mc_created e > 0 then Some (now - mc_created e > EXPIRATION_TIME, ba)
      else if mc_querying e \<and> now - mc_querytime e > QUERY_EXP_TIME then do {
        (item_id, item_pre) \<leftarrow> split_id ii;
        Some (True, qos_unsubscribe item_id item_pre ba)
      }
      else Some (False, ba))"

fun clean_entries :: "int \<Rightarrow> (bstr, meta_content) htab \<Rightarrow> blackadder \<Rightarrow> ((bstr, meta_content) htab \<times> blackadder) option" where
  "clean_entries now [] ba = Some ([], ba)"
| "clean_entries now ((ii, e) # m) ba = do {
     (gone, ba) \<leftarrow> clean_entry now ii e ba;
     (m, ba) \<leftarrow> clean_entries now m ba;
     Some (if gone then m else (ii, e) # m, ba)
   }"

definition cleanAllExpired :: "int \<Rightarrow> meta_cache \<times> blackadder \<Rightarrow> (meta_cache \<times> blackadder) option" where
  "cleanAllExpired now st = (case st of (mc, ba) \<Rightarrow> do {
     (m, ba) \<leftarrow> clean_entries now (ii_meta mc) ba;
     Some (mc\<lparr>ii_meta := m\<rparr>, ba)
   })"

definition checkClean :: "int \<Rightarrow> bstr \<Rightarrow> meta_cache \<times> blackadder \<Rightarrow> (meta_cache \<times> blackadder) option" where
  "checkClean now ii st = (case st of (mc, ba) \<Rightarrow> (case hm_get (ii_meta mc) ii of None \<Rightarrow> Some (mc, ba)
     | Some e \<Rightarrow> do {
         (gone, ba) \<leftarrow> clean_entry now ii e ba;
         Some (if gone then mc\<lparr>ii_meta := hm_erase ii (ii_meta mc)\<rparr> else mc, ba)
       }))"

definition clean_before :: "int \<Rightarrow> int \<Rightarrow> int \<Rightarrow> bstr \<Rightarrow> meta_cache \<times> blackadder \<Rightarrow> (meta_cache \<times> blackadder) option" where
  "clean_before now1 now2 now3 ii st = do {
     st \<leftarrow> (if now1 - last_non_lazy_update (fst st) > NON_LAZY_INT then cleanAllExpired now2 st else Some st);
     checkClean now3 ii st
   }"

definition getIIMeta :: "int \<Rightarrow> int \<Rightarrow> int \<Rightarrow> bstr \<Rightarrow> meta_cache \<times> blackadder \<Rightarrow> (qos_list option \<times> meta_cache \<times> blackadder) option" where
  "getIIMeta now1 now2 now3 ii st = do {
     (mc, ba) \<leftarrow> clean_before now1 now2 now3 ii st;
     Some (map_option mc_qos (hm_get (ii_meta mc) ii), mc, ba)
   }"

text \<open>The entry is read before it is asked whether there is one.\<close>

definition getIIQoSPrio :: "int \<Rightarrow> int \<Rightarrow> int \<Rightarrow> bstr \<Rightarrow> meta_cache \<times> blackadder \<Rightarrow> (16 word \<times> meta_cache \<times> blackadder) option" where
  "getIIQoSPrio now1 now2 now3 ii st = do {
     (mc, ba) \<leftarrow> clean_before now1 now2 now3 ii st;
     e \<leftarrow> hm_get (ii_meta mc) ii;
     Some (if mc_querying e then DEFAULT_QOS_PRIO
       else (case map_of (mc_qos e) QoS_PRIO of None \<Rightarrow> DEFAULT_QOS_PRIO | Some p \<Rightarrow> p), mc, ba)
   }"

definition addMetaItem :: "int \<Rightarrow> bstr \<Rightarrow> meta_cache \<Rightarrow> meta_cache" where
  "addMetaItem now ii mc = mc\<lparr>ii_meta := map_put ii
     (MetaDataContent\<lparr>mc_qos := [(QoS_PRIO, 99)], mc_querying := False, mc_created := now\<rparr>) (ii_meta mc)\<rparr>"

definition sendQueryIfNeeded :: "(bstr \<Rightarrow> bstr) \<Rightarrow> int \<Rightarrow> int \<Rightarrow> int \<Rightarrow> bstr \<Rightarrow> meta_cache \<times> blackadder \<Rightarrow> (bool \<times> meta_cache \<times> blackadder) option" where
  "sendQueryIfNeeded sha1 now1 now2 now3 ii st = do {
     (mc, ba) \<leftarrow> checkClean now1 ii st;
     if mc_exists ii mc then Some (False, mc, ba)
     else do {
       qos_id \<leftarrow> getQoSID sha1 ii;
       (_, qos_prefix) \<leftarrow> split_id ii;
       let mc = addMetaItem now2 (qos_prefix @ qos_id) mc;
       let ba = snd (lib_subscribe_info qos_id qos_prefix DOMAIN_LOCAL None ba);
       Some (True, mc\<lparr>ii_meta := map_put ii (MetaDataContent\<lparr>mc_querying := True, mc_querytime := now3\<rparr>) (ii_meta mc)\<rparr>, ba)
     }
   }"

definition meta_update :: "(bstr \<Rightarrow> bstr) \<Rightarrow> int \<Rightarrow> bstr \<Rightarrow> qos_list \<Rightarrow> meta_cache \<times> blackadder \<Rightarrow> (meta_cache \<times> blackadder) option" where
  "meta_update sha1 now ii meta st = (case st of (mc, ba) \<Rightarrow> (case hm_get (ii_meta mc) ii of None \<Rightarrow> Some (mc, ba)
     | Some e \<Rightarrow> do {
         let m = map_put ii (e\<lparr>mc_qos := meta, mc_querying := False, mc_created := now\<rparr>) (ii_meta mc);
         qos_id \<leftarrow> getQoSID sha1 ii;
         (_, qos_prefix) \<leftarrow> split_id ii;
         let ba = qos_unsubscribe qos_id qos_prefix ba;
         Some (mc\<lparr>ii_meta := hm_erase (qos_prefix @ qos_id) m\<rparr>, ba)
       }))"

subsection \<open>Planes of weights\<close>

text \<open>
  For every class of priority the weights of all edges. The numbers igraph keeps for an edge are by the
  type of value; \<open>None\<close> is one that was not set. What converting such a number to a byte gives, when it is none
  that fits, is up to the machine: \<open>u8_of\<close> is a parameter. The four extensions are flags.
\<close>

record tm_qos =
  tq_extension :: "bool list"
  qlwm :: "(byte, int list) htab"
  edge_QoS :: "nat \<Rightarrow> byte \<Rightarrow> 16 word option"

abbreviation (input) SUPPORT_SIZE :: nat where "SUPPORT_SIZE \<equiv> 4"
abbreviation (input) EXT_QOS :: int where "EXT_QOS \<equiv> 1"

definition TMgraph_new :: tm_qos where
  "TMgraph_new = \<lparr>tq_extension = replicate SUPPORT_SIZE False, qlwm = [], edge_QoS = (\<lambda>_ _. None)\<rparr>"

definition getExten :: "int \<Rightarrow> tm_qos \<Rightarrow> bool option" where
  "getExten idx q = (if idx < 0 \<or> idx > int SUPPORT_SIZE then Some False
     else if nat idx < length (tq_extension q) then Some (tq_extension q ! nat idx) else None)"

definition setExten :: "int \<Rightarrow> tm_qos \<Rightarrow> tm_qos option" where
  "setExten idx q = (if idx < 0 \<or> idx > int SUPPORT_SIZE then Some q
     else if nat idx < length (tq_extension q) then Some (q\<lparr>tq_extension := (tq_extension q)[nat idx := True]\<rparr>) else None)"

definition isQoSMapOk :: "tm_qos \<Rightarrow> bool" where
  "isQoSMapOk q \<longleftrightarrow> hm_get (qlwm q) 0 \<noteq> None"

fun nearest_class :: "byte \<Rightarrow> byte list \<Rightarrow> byte \<times> int \<Rightarrow> byte" where
  "nearest_class prio [] st = fst st"
| "nearest_class prio (k # ks) (netprio, mindist) =
     (if k > prio then nearest_class prio ks (netprio, mindist)
      else if uint prio - uint k < mindist then nearest_class prio ks (k, uint prio - uint k)
      else nearest_class prio ks (netprio, mindist))"

definition getWeightKeyForIIPrio :: "byte \<Rightarrow> tm_qos \<Rightarrow> byte" where
  "getWeightKeyForIIPrio prio q = (if hm_get (qlwm q) prio \<noteq> None then prio else nearest_class prio (map fst (qlwm q)) (0, 10000))"

definition createNewQoSLinkPrioMap :: "(16 word option \<Rightarrow> byte) \<Rightarrow> nat \<Rightarrow> byte \<Rightarrow> tm_qos \<Rightarrow> tm_qos" where
  "createNewQoSLinkPrioMap u8_of numedges map_prio q = q\<lparr>qlwm := map_put map_prio
     (map (\<lambda>eid. let ep = u8_of (edge_QoS q eid QoS_PRIO) in uint (if map_prio \<ge> ep then of_nat MAX_PRIO - ep else 255 :: byte)) [0..<numedges])
     (qlwm q)\<rparr>"

text \<open>
  A link that the tables do not have is given the first edge's number; without an edge, igraph
  fails. A status without a priority is read past the end.
\<close>

definition store_status :: "nat \<Rightarrow> qos_list \<Rightarrow> tm_qos \<Rightarrow> tm_qos" where
  "store_status eid status q = q\<lparr>edge_QoS := (edge_QoS q)(eid := (\<lambda>k. case map_of status k of Some v \<Rightarrow> Some v | None \<Rightarrow> edge_QoS q eid k))\<rparr>"

definition updateLinkState :: "(16 word option \<Rightarrow> byte) \<Rightarrow> nat \<Rightarrow> string \<Rightarrow> qos_list \<Rightarrow> tm_graph \<times> tm_qos \<Rightarrow> (tm_graph \<times> tm_qos) option" where
  "updateLinkState u8_of numedges lid status st = (case st of (t, q) \<Rightarrow> do {
     let (eid, t) = (case hm_get (reverse_edge_index t) lid of Some e \<Rightarrow> (e, t)
       | None \<Rightarrow> (0, t\<lparr>reverse_edge_index := hm_find_insert lid 0 (reverse_edge_index t)\<rparr>));
     if eid \<ge> numedges then None
     else do {
       let q = store_status eid status q;
       prio \<leftarrow> map_of status QoS_PRIO;
       let lp = (ucast prio :: byte);
       let q = (if hm_get (qlwm q) lp = None then createNewQoSLinkPrioMap u8_of numedges lp q else q);
       Some (t, q\<lparr>qlwm := map (\<lambda>(p, vec). (p, vec[eid := if p < lp then 255 else int MAX_PRIO - uint lp])) (qlwm q)\<rparr>)
     }
   })"

text \<open>\<^verbatim>\<open>handleLSMUpdate\<close>, for the packet of a link monitor.\<close>

definition lsm_getLidStr :: "nat \<Rightarrow> bytearray \<Rightarrow> string option" where
  "lsm_getLidStr index p = do {
     len \<leftarrow> lsm_getRepLen p;
     if index > unat len then Some [] else do { bv \<leftarrow> lsm_getLid index p; bv_to_string bv }
   }"

definition handleLSMUpdate :: "(16 word option \<Rightarrow> byte) \<Rightarrow> nat \<Rightarrow> bytearray \<Rightarrow> tm_graph \<times> tm_qos \<Rightarrow> (tm_graph \<times> tm_qos) option" where
  "handleLSMUpdate u8_of numedges pkt st = do {
     len \<leftarrow> lsm_getRepLen pkt;
     fold_opt (\<lambda>i st. do {
       lid \<leftarrow> lsm_getLidStr i pkt;
       status \<leftarrow> lsm_getLinkStatus i pkt;
       updateLinkState u8_of numedges lid status st
     }) [0..<unat len] st
   }"

subsection \<open>Weighted routes\<close>

text \<open>
  \<open>wpath weights u v\<close> is \<^verbatim>\<open>igraph_get_shortest_paths_dijkstra\<close>: the edges of the lightest path. The code is
  that for igraph 0.6; the number of hops is the number of edges there, and one for a node to itself.
\<close>

fun or_edges :: "tm_graph \<Rightarrow> nat list \<Rightarrow> bitvec \<Rightarrow> bitvec option" where
  "or_edges t [] resultFID = Some resultFID"
| "or_edges t (eid # es) resultFID = do {
     lid \<leftarrow> hm_get (edge_LID t) eid;
     r \<leftarrow> bv_or resultFID lid;
     or_edges t es (bv_store resultFID r)
   }"

definition calculateFID_weighted_path :: "(nat \<Rightarrow> nat \<Rightarrow> nat list) \<Rightarrow> tm_graph \<Rightarrow> bstr \<Rightarrow> bstr \<Rightarrow> bitvec \<Rightarrow> (bitvec \<times> nat) option" where
  "calculateFID_weighted_path wpath t source destination resultFID = do {
     from \<leftarrow> hm_get (reverse_node_index t) source;
     to \<leftarrow> hm_get (reverse_node_index t) destination;
     let temp_ev = wpath from to;
     resultFID \<leftarrow> or_edges t temp_ev resultFID;
     let hops = (if source = destination then 1 else numberOfHops temp_ev);
     ilid \<leftarrow> hm_get (nodeID_iLID t) destination;
     r \<leftarrow> bv_or resultFID ilid;
     Some (bv_store resultFID r, hops)
   }"

fun best_publisher_weighted :: "(nat \<Rightarrow> nat \<Rightarrow> nat list) \<Rightarrow> tm_graph \<Rightarrow> bstr \<Rightarrow> bstr list \<Rightarrow> nat \<times> bstr \<times> bitvec \<times> bitvec \<Rightarrow> (nat \<times> bstr \<times> bitvec \<times> bitvec) option" where
  "best_publisher_weighted wpath t str2 [] st = Some st"
| "best_publisher_weighted wpath t str2 (str1 # publishers) (minimumNumberOfHops, bestPublisher, bestFID, resultFID) = do {
     (resultFID, hops) \<leftarrow> calculateFID_weighted_path wpath t str1 str2 (bv_clear resultFID);
     best_publisher_weighted wpath t str2 publishers
       (if minimumNumberOfHops > hops then (hops, str1, bv_store bestFID resultFID, resultFID)
        else (minimumNumberOfHops, bestPublisher, bestFID, resultFID))
   }"

definition serve_subscriber_weighted :: "(nat \<Rightarrow> nat \<Rightarrow> nat list) \<Rightarrow> tm_graph \<Rightarrow> bstr list \<Rightarrow> bstr \<Rightarrow> tm_result \<times> bstr \<times> bitvec \<times> bitvec \<Rightarrow> (tm_result \<times> bstr \<times> bitvec \<times> bitvec) option" where
  "serve_subscriber_weighted wpath t publishers subscriber st = (case st of (result, bestPublisher, bestFID, resultFID) \<Rightarrow> do {
     (minimumNumberOfHops, bestPublisher, bestFID, resultFID) \<leftarrow>
       best_publisher_weighted wpath t subscriber publishers (UINT_MAX, bestPublisher, bestFID, resultFID);
     existing \<leftarrow> hm_get result bestPublisher;
     result \<leftarrow> (case existing of
       Some existingFID \<Rightarrow>
         if minimumNumberOfHops = UINT_MAX then Some (hm_set bestPublisher (Some (bv_copy bestFID)) result)
         else do { f \<leftarrow> bv_or existingFID bestFID; Some (hm_set bestPublisher (Some (bv_store existingFID f)) result) }
     | None \<Rightarrow> Some (hm_set bestPublisher (Some (bv_copy bestFID)) result));
     Some (result, bestPublisher, bestFID, resultFID)
   })"

definition calculateFID_weighted :: "(nat \<Rightarrow> nat \<Rightarrow> nat list) \<Rightarrow> tm_graph \<Rightarrow> bstr list \<Rightarrow> bstr list \<Rightarrow> tm_result option" where
  "calculateFID_weighted wpath t publishers subscribers = do {
     resultFID \<leftarrow> bv_new (int (FID_LEN * 8));
     bestFID \<leftarrow> bv_new (int (FID_LEN * 8));
     let result = map (\<lambda>publ. (publ, None)) publishers;
     (result, _) \<leftarrow> fold_opt (serve_subscriber_weighted wpath t publishers) subscribers (result, [], bestFID, resultFID);
     Some result
   }"

subsection \<open>Requests under quality of service\<close>

text \<open>
  \<^verbatim>\<open>handleRequest\<close> and the event loop with the extension: the clock is read up to three times for the query and three times for
  the priority, and handed in as lists. A class that has no plane would be an uninitialised vector.
\<close>

record tm_state =
  ts_graph :: tm_graph
  ts_qos :: tm_qos
  ts_cache :: meta_cache
  ts_ba :: blackadder

definition match_priority :: "(bstr \<Rightarrow> bstr) \<Rightarrow> (nat \<Rightarrow> int) \<Rightarrow> bstr \<Rightarrow> meta_cache \<times> blackadder \<Rightarrow> (16 word \<times> meta_cache \<times> blackadder) option" where
  "match_priority sha1 clock ids st = do {
     (added, st) \<leftarrow> sendQueryIfNeeded sha1 (clock 0) (clock 1) (clock 2) ids st;
     if added then Some (DEFAULT_QOS_PRIO, st) else getIIQoSPrio (clock 3) (clock 4) (clock 5) ids st
   }"

definition qos_calculateFID :: "igraph \<Rightarrow> (int list \<Rightarrow> nat \<Rightarrow> nat \<Rightarrow> nat list) \<Rightarrow> (bstr \<Rightarrow> bstr) \<Rightarrow> (nat \<Rightarrow> int) \<Rightarrow> bstr list \<Rightarrow> bstr list \<Rightarrow> bstr \<Rightarrow> tm_state \<Rightarrow> (tm_result \<times> tm_state) option" where
  "qos_calculateFID g dijkstra sha1 clock publishers subscribers ids s = do {
     qos \<leftarrow> getExten EXT_QOS (ts_qos s);
     if qos \<and> isQoSMapOk (ts_qos s) then do {
       (prio, mc, ba) \<leftarrow> match_priority sha1 clock ids (ts_cache s, ts_ba s);
       let netprio = getWeightKeyForIIPrio (ucast prio) (ts_qos s);
       weights \<leftarrow> hm_get (qlwm (ts_qos s)) netprio;
       result \<leftarrow> calculateFID_weighted (dijkstra weights) (ts_graph s) publishers subscribers;
       Some (result, s\<lparr>ts_cache := mc, ts_ba := ba\<rparr>)
     } else do {
       result \<leftarrow> calculateFID g (ts_graph s) publishers subscribers;
       Some (result, s)
     }
   }"

definition qos_handle_match :: "igraph \<Rightarrow> (int list \<Rightarrow> nat \<Rightarrow> nat \<Rightarrow> nat list) \<Rightarrow> (bstr \<Rightarrow> bstr) \<Rightarrow> (nat \<Rightarrow> int) \<Rightarrow> packet \<Rightarrow> nat \<Rightarrow> tm_state \<Rightarrow> tm_state option" where
  "qos_handle_match g dijkstra sha1 clock request request_len s = do {
     no_publishers \<leftarrow> rd8 request 2;
     publishers \<leftarrow> read_nodes (unat no_publishers) request 3;
     let n1 = unat no_publishers * PURSUIT_ID_LEN;
     no_subscribers \<leftarrow> rd8 request (3 + n1);
     subscribers \<leftarrow> read_nodes (unat no_subscribers) request (4 + n1);
     let ids_index = 4 + n1 + unat no_subscribers * PURSUIT_ID_LEN;
     if request_len < ids_index then None else do {
       let ids_size = request_len - ids_index;
       no_ids \<leftarrow> rd8 request ids_index;
       IDLen \<leftarrow> rd8 request (ids_index + 1);
       ids \<leftarrow> rdc request (ids_index + 2) ids_size;
       ids_str \<leftarrow> rdn \<lparr>pk_data = ids, pk_anno = None\<rparr> 0 (unat IDLen * PURSUIT_ID_LEN);
       (result, s) \<leftarrow> qos_calculateFID g dijkstra sha1 clock (std_set publishers) (std_set subscribers) ids_str s;
       response_ids \<leftarrow> rdc request ids_index (request_len - ids_index);
       ba \<leftarrow> fold_opt (notify_publisher g (ts_graph s) response_ids) result (ts_ba s);
       Some (s\<lparr>ts_ba := ba\<rparr>)
     }
   }"

text \<open>Metadata of an item: the packet as it came.\<close>

definition handleIIMetaData :: "(bstr \<Rightarrow> bstr) \<Rightarrow> (nat \<Rightarrow> int) \<Rightarrow> bytearray \<Rightarrow> tm_state \<Rightarrow> tm_state option" where
  "handleIIMetaData sha1 clock pkt s = do {
     ii \<leftarrow> md_getID_RAW pkt;
     meta \<leftarrow> md_getIIStatus pkt;
     (mc, ba) \<leftarrow> meta_update sha1 (clock 0) ii meta (ts_cache s, ts_ba s);
     Some (s\<lparr>ts_cache := mc, ts_ba := ba\<rparr>)
   }"

definition qos_handleRequest :: "igraph \<Rightarrow> (int list \<Rightarrow> nat \<Rightarrow> nat \<Rightarrow> nat list) \<Rightarrow> (bstr \<Rightarrow> bstr) \<Rightarrow> (nat \<Rightarrow> int) \<Rightarrow> cell list \<Rightarrow> cell list \<Rightarrow> tm_state \<Rightarrow> tm_state option" where
  "qos_handleRequest g dijkstra sha1 clock data slack s = (let request = \<lparr>pk_data = data @ slack, pk_anno = None\<rparr> in do {
     request_type \<leftarrow> rd8 request 0;
     strategy \<leftarrow> rd8 request 1;
     if request_type = QoS_METADATA then do {
       pkt \<leftarrow> all_some data;
       handleIIMetaData sha1 clock pkt s
     }
     else if request_type = MATCH_PUB_SUBS then qos_handle_match g dijkstra sha1 clock request (length data) s
     else if request_type = SCOPE_PUBLISHED \<or> request_type = SCOPE_UNPUBLISHED
     then map_option (\<lambda>ba. s\<lparr>ts_ba := ba\<rparr>) (handle_scope g (ts_graph s) request_type request (length data) (ts_ba s))
     else Some s
   })"

definition lsm_bin_scope :: bstr where
  "lsm_bin_scope = hex_to_chararray (replicate (PURSUIT_ID_LEN * 2 - 1) 70 @ [66])"

definition qos_event :: "igraph \<Rightarrow> (int list \<Rightarrow> nat \<Rightarrow> nat \<Rightarrow> nat list) \<Rightarrow> (bstr \<Rightarrow> bstr) \<Rightarrow> (16 word option \<Rightarrow> byte) \<Rightarrow> (nat \<Rightarrow> int) \<Rightarrow> cell list \<Rightarrow> cell list \<Rightarrow> tm_state \<Rightarrow> tm_state option option" where
  "qos_event g dijkstra sha1 u8_of clock d slack s = do {
     ev \<leftarrow> getEvent d Event_new;
     if ev_type ev = UNDEF_EVENT then Some None
     else if length (ev_id ev) < PURSUIT_ID_LEN then None
     else if ev_type ev = PUBLISHED_DATA then do {
       data \<leftarrow> ev_data ev;
       qos \<leftarrow> getExten EXT_QOS (ts_qos s);
       if take PURSUIT_ID_LEN (ev_id ev) = lsm_bin_scope \<and> qos then do {
         pkt \<leftarrow> all_some data;
         (t, q) \<leftarrow> handleLSMUpdate u8_of (length (ig_LID g)) pkt (ts_graph s, ts_qos s);
         Some (Some (s\<lparr>ts_graph := t, ts_qos := q\<rparr>))
       }
       else map_option Some (qos_handleRequest g dijkstra sha1 clock data slack s)
     } else Some (Some s)
   }"

end
