(* ===== verification/BA_TMQoS_Safe.thy ===== *)
theory BA_TMQoS_Safe
  imports BA_TMQoS
begin

text \<open>
  What the extension for quality of service is worth. \<open>planes_ok\<close> says that every plane of weights is what the links'
  priorities make it, and the reports of the link monitor keep it; \<open>cache_ok\<close> is the invariant of the cache, and
  \<open>told\<close> what is known of an item at a time. The lightest paths are a \<open>route_source\<close> like the shortest ones
  of \<open>BA_Topology_Safe\<close>, so the choice of publishers and their identifiers is proved once for both. Without
  the extension the manager is the one of \<open>BA_TopologyManager\<close>.
\<close>

subsection \<open>The planes follow the reports\<close>

lemma get_map_put [simp, htab]: "hm_get (map_put k v m) k' = (if k' = k then Some v else hm_get m k')"
  by (induction k v m rule: map_put.induct) (auto simp: hm_get_def)

lemma keys_map_put: "fst ` set (map_put k v m) = insert k (fst ` set m)"
  by (induction k v m rule: map_put.induct) auto

lemma map_put_in: "(k', v') \<in> set (map_put k v m) \<Longrightarrow> (k', v') = (k, v) \<or> (k', v') \<in> set m"
  by (induction k v m rule: map_put.induct) (auto split: if_splits)

definition prio_of :: "(16 word option \<Rightarrow> byte) \<Rightarrow> tm_qos \<Rightarrow> nat \<Rightarrow> byte" where
  "prio_of u8_of q e = u8_of (edge_QoS q e QoS_PRIO)"

text \<open>The weight of a link in a plane: what is missing to the highest priority, unless the link is for a better class.\<close>

definition plane_weight :: "byte \<Rightarrow> byte \<Rightarrow> int" where
  "plane_weight p r = (if p < r then 255 else 100 - uint r)"

definition planes_ok :: "(16 word option \<Rightarrow> byte) \<Rightarrow> nat \<Rightarrow> tm_qos \<Rightarrow> bool" where
  "planes_ok u8_of n q \<longleftrightarrow> (\<forall>(p, ws) \<in> set (qlwm q). ws = map (\<lambda>e. plane_weight p (prio_of u8_of q e)) [0..<n])"

definition prios_ok :: "(16 word option \<Rightarrow> byte) \<Rightarrow> nat \<Rightarrow> tm_qos \<Rightarrow> bool" where
  "prios_ok u8_of n q \<longleftrightarrow> (\<forall>e < n. prio_of u8_of q e \<le> 100)"

definition fits_byte :: "(16 word option \<Rightarrow> byte) \<Rightarrow> bool" where
  "fits_byte u8_of \<longleftrightarrow> (\<forall>v. unat v < 256 \<longrightarrow> u8_of (Some v) = ucast v)"

definition edges_known :: "igraph \<Rightarrow> tm_graph \<Rightarrow> bool" where
  "edges_known g t \<longleftrightarrow> (\<forall>s e. hm_get (reverse_edge_index t) s = Some e \<longrightarrow> e < length (ig_LID g) \<and> ig_LID g ! e = s)"

lemma u8_minus: "ep \<le> (100 :: byte) \<Longrightarrow> uint (of_nat 100 - ep) = 100 - uint ep"
proof -
  assume "ep \<le> (100 :: byte)"
  then have "uint ((100 :: byte) - ep) = uint (100 :: byte) - uint ep" by (simp only: uint_minus_simple_alt)
  then show ?thesis by simp
qed

lemma store_prio:
  assumes "fits_byte u8_of" "map_of status QoS_PRIO = Some v" "unat v < 256"
  shows "prio_of u8_of (store_status e status q) = (prio_of u8_of q)(e := ucast v)"
  using assms by (auto simp: fun_eq_iff prio_of_def store_status_def fits_byte_def)

lemma updateLinkState_ok:
  assumes "planes_ok u8_of n q" "prios_ok u8_of n q" "fits_byte u8_of" "hm_get (reverse_edge_index t) lid = Some e" "e < n"
    and "map_of status QoS_PRIO = Some v" "unat v \<le> 100"
  shows "\<exists>q'. updateLinkState u8_of n lid status (t, q) = Some (t, q') \<and> planes_ok u8_of n q' \<and> prios_ok u8_of n q' \<and>
    prio_of u8_of q' = (prio_of u8_of q)(e := ucast v) \<and> tq_extension q' = tq_extension q \<and>
    fst ` set (qlwm q') = insert (ucast v) (fst ` set (qlwm q))"
proof -
  let ?lp = "ucast v :: byte" and ?q1 = "store_status e status q"
  let ?q2 = "if hm_get (qlwm ?q1) ?lp = None then createNewQoSLinkPrioMap u8_of n ?lp ?q1 else ?q1"
  let ?f = "\<lambda>(p, vec). (p, vec[e := if p < ?lp then 255 else int 100 - uint ?lp])"
  let ?q' = "?q2\<lparr>qlwm := map ?f (qlwm ?q2)\<rparr>"
  have v: "unat v < 256" "?lp \<le> 100"
    using assms(7) by (simp_all add: word_le_nat_alt unsigned_ucast_eq take_bit_nat_eq_self)
  have p1: "prio_of u8_of ?q1 = (prio_of u8_of q)(e := ?lp)" by (rule store_prio [OF assms(3,6) v(1)])
  have same: "edge_QoS ?q2 = edge_QoS ?q1" "edge_QoS ?q' = edge_QoS ?q1" by (simp_all add: createNewQoSLinkPrioMap_def)
  have pr: "prio_of u8_of ?q2 = prio_of u8_of ?q1" "prio_of u8_of ?q' = prio_of u8_of ?q1" unfolding prio_of_def same by simp_all
  have ok: "prios_ok u8_of n ?q1" using assms(2) v(2) by (simp add: prios_ok_def p1)
  have old: "ws[e := plane_weight p ?lp] = map (\<lambda>e. plane_weight p (prio_of u8_of ?q1 e)) [0..<n]" if "(p, ws) \<in> set (qlwm ?q2)" for p ws
  proof -
    have "(p, ws) \<in> set (qlwm q) \<or> ws = map (\<lambda>e. plane_weight p (prio_of u8_of ?q1 e)) [0..<n]"
    proof (cases "(p, ws) \<in> set (qlwm ?q1)")
      case True
      then show ?thesis by (simp add: store_status_def)
    next
      case False
      then have n: "hm_get (qlwm ?q1) ?lp = None" using that by (auto split: if_splits)
      let ?w = "\<lambda>eid. let ep = u8_of (edge_QoS ?q1 eid QoS_PRIO) in uint (if ?lp \<ge> ep then of_nat MAX_PRIO - ep else 255 :: byte)"
      have "(p, ws) = (?lp, map ?w [0..<n])" using that n map_put_in False by (fastforce simp: createNewQoSLinkPrioMap_def)
      moreover have "?w eid = plane_weight ?lp (prio_of u8_of ?q1 eid)" if "eid < n" for eid
      proof -
        have "prio_of u8_of ?q1 eid \<le> 100" using ok that by (simp add: prios_ok_def)
        from u8_minus [OF this] show ?thesis by (auto simp: plane_weight_def prio_of_def Let_def not_le)
      qed
      ultimately show ?thesis by simp
    qed
    then show ?thesis
    proof
      assume "(p, ws) \<in> set (qlwm q)"
      then have ws: "ws = map (\<lambda>e. plane_weight p (prio_of u8_of q e)) [0..<n]" using assms(1) by (auto simp: planes_ok_def)
      show ?thesis by (rule nth_equalityI) (auto simp: ws p1 nth_list_update)
    next
      assume ws: "ws = map (\<lambda>e. plane_weight p (prio_of u8_of ?q1 e)) [0..<n]"
      show ?thesis by (rule nth_equalityI) (auto simp: ws p1 nth_list_update)
    qed
  qed
  have "planes_ok u8_of n ?q'" unfolding planes_ok_def pr
  proof (intro ballI)
    fix x assume "x \<in> set (qlwm ?q')"
    then obtain p ws where x: "(p, ws) \<in> set (qlwm ?q2)" "x = ?f (p, ws)" by auto
    then show "case x of (p, ws) \<Rightarrow> ws = map (\<lambda>e. plane_weight p (prio_of u8_of ?q1 e)) [0..<n]"
      using old [OF x(1)] by (simp add: plane_weight_def cong: if_cong)
  qed
  moreover have "prios_ok u8_of n ?q'" using ok unfolding prios_ok_def pr .
  moreover have "updateLinkState u8_of n lid status (t, q) = Some (t, ?q')"
    using assms(4-6) by (simp add: updateLinkState_def Let_def)
  moreover have "fst ` set (qlwm ?q2) = insert ?lp (fst ` set (qlwm q))"
    using hm_get_None_fst [of "qlwm ?q1" ?lp] by (auto simp: createNewQoSLinkPrioMap_def keys_map_put store_status_def)
  then have "fst ` set (qlwm ?q') = insert ?lp (fst ` set (qlwm q))" by (simp add: image_image case_prod_unfold)
  moreover have "tq_extension ?q' = tq_extension q" by (simp add: createNewQoSLinkPrioMap_def store_status_def)
  ultimately show ?thesis using p1 pr(2) by (intro exI [of _ ?q']) simp
qed

definition report_link :: "tm_graph \<Rightarrow> bitvec \<times> qos_list \<Rightarrow> nat" where
  "report_link t l = the (hm_get (reverse_edge_index t) (the (bv_to_string (fst l))))"

definition report_prio :: "bitvec \<times> qos_list \<Rightarrow> 16 word" where
  "report_prio l = the (map_of (snd l) QoS_PRIO)"

definition reportable :: "igraph \<Rightarrow> tm_graph \<Rightarrow> bitvec \<times> qos_list \<Rightarrow> bool" where
  "reportable g t l \<longleftrightarrow> (\<exists>s e v. bv_to_string (fst l) = Some s \<and> hm_get (reverse_edge_index t) s = Some e \<and> e < length (ig_LID g) \<and>
     map_of (snd l) QoS_PRIO = Some v \<and> unat v \<le> 100)"

definition set_prios :: "tm_graph \<Rightarrow> (bitvec \<times> qos_list) list \<Rightarrow> (nat \<Rightarrow> byte) \<Rightarrow> nat \<Rightarrow> byte" where
  "set_prios t links f = foldl (\<lambda>f l. f(report_link t l := ucast (report_prio l))) f links"

lemma links_ok:
  assumes "planes_ok u8_of n q" "prios_ok u8_of n q" "fits_byte u8_of" "\<forall>l \<in> set links. reportable g t l" "n = length (ig_LID g)"
    and "\<forall>i < length links. lsm_getLidStr (k + i) p = bv_to_string (fst (links ! i)) \<and> lsm_getLinkStatus (k + i) p = Some (snd (links ! i))"
  shows "\<exists>q'. fold_opt (\<lambda>i st. do {
       lid \<leftarrow> lsm_getLidStr i p;
       status \<leftarrow> lsm_getLinkStatus i p;
       updateLinkState u8_of n lid status st
     }) [k..<k + length links] (t, q) = Some (t, q') \<and> planes_ok u8_of n q' \<and> prios_ok u8_of n q' \<and>
    prio_of u8_of q' = set_prios t links (prio_of u8_of q) \<and> tq_extension q' = tq_extension q \<and>
    fst ` set (qlwm q') = (\<lambda>l. ucast (report_prio l)) ` set links \<union> fst ` set (qlwm q)"
  using assms(1,2,4,6)
proof (induction links arbitrary: k q)
  case (Cons l links)
  from Cons.prems(3) obtain s e v where
    l: "bv_to_string (fst l) = Some s" "hm_get (reverse_edge_index t) s = Some e" "e < n" "map_of (snd l) QoS_PRIO = Some v" "unat v \<le> 100"
    unfolding assms(5) by (auto simp: reportable_def)
  from updateLinkState_ok [OF Cons.prems(1,2) assms(3) l(2-5)] obtain q1 where
    q1: "updateLinkState u8_of n s (snd l) (t, q) = Some (t, q1)" "planes_ok u8_of n q1" "prios_ok u8_of n q1"
    "prio_of u8_of q1 = (prio_of u8_of q)(e := ucast v)" "tq_extension q1 = tq_extension q" "fst ` set (qlwm q1) = insert (ucast v) (fst ` set (qlwm q))" by blast
  have "\<forall>i < length links. lsm_getLidStr (Suc k + i) p = bv_to_string (fst (links ! i)) \<and> lsm_getLinkStatus (Suc k + i) p = Some (snd (links ! i))"
    using Cons.prems(4) by fastforce
  from Cons.IH [OF q1(2,3) _ this] Cons.prems(3) obtain q' where
    q': "fold_opt (\<lambda>i st. do {
       lid \<leftarrow> lsm_getLidStr i p;
       status \<leftarrow> lsm_getLinkStatus i p;
       updateLinkState u8_of n lid status st
     }) [Suc k..<Suc k + length links] (t, q1) = Some (t, q')" "planes_ok u8_of n q'" "prios_ok u8_of n q'"
    "prio_of u8_of q' = set_prios t links (prio_of u8_of q1)" "tq_extension q' = tq_extension q1"
    "fst ` set (qlwm q') = (\<lambda>l. ucast (report_prio l)) ` set links \<union> fst ` set (qlwm q1)" by auto
  have r: "report_link t l = e" "report_prio l = v" using l by (simp_all add: report_link_def report_prio_def)
  have first: "lsm_getLidStr k p = Some s" "lsm_getLinkStatus k p = Some (snd l)" using Cons.prems(4) l(1) by force+
  have u: "[k..<k + length (l # links)] = k # [Suc k..<Suc k + length links]" by (simp add: upt_conv_Cons del: upt_Suc)
  show ?case unfolding u by (rule exI [of _ q']) (use q' q1 r first in \<open>simp add: set_prios_def del: upt_Suc\<close>)
qed (simp add: set_prios_def)

subsection \<open>The cache\<close>

text \<open>Its keys are in order; so it is a table like the hash tables.\<close>

definition map_wf :: "('k :: linorder, 'v) htab \<Rightarrow> bool" where
  "map_wf m \<longleftrightarrow> sorted_wrt (<) (hm_keys m)"

lemma map_wf_hm [intro]: "map_wf m \<Longrightarrow> hm_wf m"
  by (simp add: map_wf_def hm_wf_def strict_sorted_iff)

lemma map_wf_put [simp]: "map_wf m \<Longrightarrow> map_wf (map_put k v m)"
  by (induction k v m rule: map_put.induct) (auto simp: map_wf_def keys_map_put)

lemma map_wf_filter [simp]: "map_wf m \<Longrightarrow> map_wf (filter P m)"
  by (simp add: map_wf_def sorted_wrt_map sorted_wrt_filter)

lemma map_wf_erase [simp]: "map_wf m \<Longrightarrow> map_wf (hm_erase k m)"
  by (simp add: hm_erase_def)

interpretation meta_map: hash_table hm_get map_put hm_erase "\<lambda>m. m" map_wf
proof
  show "\<And>m k v. map_wf m \<Longrightarrow> (k, v) \<in> set m \<longleftrightarrow> hm_get m k = Some v" by (drule map_wf_hm) (auto simp: hm_wf_def hm_get_def)
  show "\<And>m. map_wf m \<Longrightarrow> distinct (hm_keys m)" by (simp add: map_wf_def strict_sorted_iff)
qed simp_all

lemma in_erase: "e \<in> set (hm_erase k m) \<Longrightarrow> e \<in> set m"
  by (simp add: hm_erase_def)

text \<open>The identifier of an item below a scope: two fragments or more.\<close>

definition item_id :: "bstr \<Rightarrow> bool" where
  "item_id x \<longleftrightarrow> 8 dvd length x \<and> 16 \<le> length x"

definition last_id :: "bstr \<Rightarrow> bstr" where
  "last_id x = drop (length x - 8) x"

definition prefix_id :: "bstr \<Rightarrow> bstr" where
  "prefix_id x = take (length x - 8) x"

text \<open>Where the metadata of an item is published.\<close>

definition meta_id :: "(bstr \<Rightarrow> bstr) \<Rightarrow> bstr \<Rightarrow> bstr" where
  "meta_id sha1 x = prefix_id x @ take 8 (sha1 (last_id x))"

text \<open>A request about an item, as it leaves the manager.\<close>

definition info_request :: "byte \<Rightarrow> bstr \<Rightarrow> blackadder \<Rightarrow> cell list" where
  "info_request type x ba = lib_header (length (app_request type (last_id x) (prefix_id x) DOMAIN_LOCAL)) ba @
     cells (app_request type (last_id x) (prefix_id x) DOMAIN_LOCAL)"

definition cache_ok :: "meta_cache \<Rightarrow> bool" where
  "cache_ok mc \<longleftrightarrow> map_wf (ii_meta mc) \<and> (\<forall>k \<in> set (hm_keys (ii_meta mc)). item_id k)"

lemma cached_item: "cache_ok mc \<Longrightarrow> hm_get (ii_meta mc) x = Some e \<Longrightarrow> item_id x"
  unfolding cache_ok_def by (metis hm_get_None_iff option.distinct(1))

definition sha1_ok :: "(bstr \<Rightarrow> bstr) \<Rightarrow> bool" where
  "sha1_ok sha1 \<longleftrightarrow> (\<forall>s. length (sha1 s) = 20)"

text \<open>An entry that has to go: metadata of more than ten minutes, or a question of more than a second.\<close>

definition outdated :: "int \<Rightarrow> meta_content \<Rightarrow> bool" where
  "outdated now e \<longleftrightarrow> (if mc_created e > 0 then now - mc_created e > EXPIRATION_TIME
     else mc_querying e \<and> now - mc_querytime e > QUERY_EXP_TIME)"

lemma info_request_sends [simp]: "info_request type x (sends ms ba) = info_request type x ba"
  by (simp add: info_request_def lib_header_def sends_def)

lemma sends_sends [simp]: "sends ms (sends ns ba) = sends (ns @ ms) ba"
  by (simp add: sends_def)

lemma sends_Nil [simp]: "sends [] ba = ba"
  by (simp add: sends_def)

lemma sock_sends [simp]: "sock_fd (sends ms ba) = sock_fd ba"
  by (simp add: sends_def)

lemma item_parts:
  assumes "item_id x"
  shows "length (last_id x) = 8" "8 dvd length (prefix_id x)" "prefix_id x \<noteq> []" "split_id x = Some (last_id x, prefix_id x)"
    "prefix_id x @ last_id x = x" "last_id x \<noteq> []"
  using assms by (auto simp: item_id_def last_id_def prefix_id_def split_id_def dvd_minus_self)

lemma meta_id_parts:
  assumes "item_id x" "sha1_ok sha1"
  shows "item_id (meta_id sha1 x)" "last_id (meta_id sha1 x) = take 8 (sha1 (last_id x))" "prefix_id (meta_id sha1 x) = prefix_id x"
    "getQoSID sha1 x = Some (take 8 (sha1 (last_id x)))"
proof -
  have "length (take 8 (sha1 (last_id x))) = 8" using assms(2) by (simp add: sha1_ok_def)
  with assms(1) item_parts [OF assms(1)] show "item_id (meta_id sha1 x)" "last_id (meta_id sha1 x) = take 8 (sha1 (last_id x))"
    "prefix_id (meta_id sha1 x) = prefix_id x" "getQoSID sha1 x = Some (take 8 (sha1 (last_id x)))"
    by (auto simp: item_id_def meta_id_def last_id_def prefix_id_def getQoSID_def)
qed

lemma unsubscribe_sends:
  assumes "item_id x" "sock_fd ba \<noteq> -1"
  shows "qos_unsubscribe (last_id x) (prefix_id x) ba = sends [info_request UNSUBSCRIBE_INFO x ba] ba"
proof -
  have "lib_request UNSUBSCRIBE_INFO = lib_unsubscribe_info" by (simp add: lib_request_def fun_eq_iff)
  then show ?thesis using lib_request_eq [of UNSUBSCRIBE_INFO "last_id x" "prefix_id x" DOMAIN_LOCAL None ba] item_parts [OF assms(1)] assms(2)
    by (simp add: qos_unsubscribe_def request_types_def request_error_def opt_bytes_def lib_sendmsg_def sends_def info_request_def)
qed

lemma subscribe_sends:
  assumes "item_id x" "sock_fd ba \<noteq> -1"
  shows "snd (lib_subscribe_info (last_id x) (prefix_id x) DOMAIN_LOCAL None ba) = sends [info_request SUBSCRIBE_INFO x ba] ba"
proof -
  have "lib_request SUBSCRIBE_INFO = lib_subscribe_info" by (simp add: lib_request_def fun_eq_iff)
  then show ?thesis using lib_request_eq [of SUBSCRIBE_INFO "last_id x" "prefix_id x" DOMAIN_LOCAL None ba] item_parts [OF assms(1)] assms(2)
    by (simp add: request_types_def request_error_def opt_bytes_def lib_sendmsg_def sends_def info_request_def)
qed

text \<open>What leaves when an entry goes.\<close>

definition farewell :: "int \<Rightarrow> bstr \<Rightarrow> meta_content \<Rightarrow> blackadder \<Rightarrow> cell list list" where
  "farewell now x e ba = (if outdated now e \<and> mc_created e \<le> 0 then [info_request UNSUBSCRIBE_INFO x ba] else [])"

lemma clean_entry_eq:
  assumes "item_id x" "sock_fd ba \<noteq> -1"
  shows "clean_entry now x e ba = Some (outdated now e, sends (farewell now x e ba) ba)"
  using unsubscribe_sends [OF assms] item_parts(4) [OF assms(1)] by (auto simp: clean_entry_def farewell_def outdated_def)

lemma clean_entries_eq:
  assumes "\<forall>k \<in> set (hm_keys m). item_id k" "sock_fd ba \<noteq> -1"
  shows "\<exists>ms. clean_entries now m ba = Some (filter (\<lambda>(x, e). \<not> outdated now e) m, sends ms ba)"
  using assms
proof (induction now m ba rule: clean_entries.induct)
  case (2 now x e m ba)
  have c: "clean_entry now x e ba = Some (outdated now e, sends (farewell now x e ba) ba)" by (rule clean_entry_eq) (use 2 in auto)
  have "\<exists>ms. clean_entries now m (sends (farewell now x e ba) ba) = Some (filter (\<lambda>(x, e). \<not> outdated now e) m, sends ms (sends (farewell now x e ba) ba))"
    by (rule "2.IH" [OF c refl]) (use 2 in auto)
  then show ?case using c by auto
qed (auto intro: exI [of _ "[]"])

definition live :: "int \<Rightarrow> meta_content option \<Rightarrow> meta_content option" where
  "live now e = (case e of None \<Rightarrow> None | Some e \<Rightarrow> if outdated now e then None else Some e)"

lemma live_simps [simp]: "live now None = None" "live now (Some e) = (if outdated now e then None else Some e)"
  by (simp_all add: live_def)

lemma get_filter: "map_wf m \<Longrightarrow> hm_get (filter (\<lambda>(x, e). \<not> outdated now e) m) x = live now (hm_get m x)"
proof (induction m)
  case (Cons y m)
  obtain k e where y: "y = (k, e)" by (cases y)
  have m: "map_wf m" "k \<notin> fst ` set m" using Cons.prems by (auto simp: map_wf_def y)
  then have "hm_get m k = None" by (simp add: hm_get_None_fst)
  then show ?case using Cons.IH [OF m(1)] by (auto simp: hm_get_def y live_def split: option.splits)
qed simp

lemma cleanAllExpired_ok:
  assumes "cache_ok mc" "sock_fd ba \<noteq> -1"
  shows "\<exists>mc' ms. cleanAllExpired now (mc, ba) = Some (mc', sends ms ba) \<and> cache_ok mc' \<and>
    last_non_lazy_update mc' = last_non_lazy_update mc \<and> (\<forall>x. hm_get (ii_meta mc') x = live now (hm_get (ii_meta mc) x))"
proof -
  from clean_entries_eq [of "ii_meta mc" ba now] assms obtain ms where
    ms: "clean_entries now (ii_meta mc) ba = Some (filter (\<lambda>(x, e). \<not> outdated now e) (ii_meta mc), sends ms ba)" by (auto simp: cache_ok_def)
  show ?thesis using ms assms(1) get_filter [of "ii_meta mc" now]
    by (intro exI [of _ "mc\<lparr>ii_meta := filter (\<lambda>(x, e). \<not> outdated now e) (ii_meta mc)\<rparr>"] exI [of _ ms])
      (auto simp: cleanAllExpired_def cache_ok_def)
qed

lemma checkClean_ok:
  assumes "cache_ok mc" "sock_fd ba \<noteq> -1"
  shows "\<exists>mc'. checkClean now x (mc, ba) = Some (mc', sends (case hm_get (ii_meta mc) x of None \<Rightarrow> [] | Some e \<Rightarrow> farewell now x e ba) ba) \<and>
    cache_ok mc' \<and> last_non_lazy_update mc' = last_non_lazy_update mc \<and>
    (\<forall>y. hm_get (ii_meta mc') y = (if y = x then live now (hm_get (ii_meta mc) x) else hm_get (ii_meta mc) y))"
proof (cases "hm_get (ii_meta mc) x")
  case None
  then show ?thesis using assms by (intro exI [of _ mc]) (simp add: checkClean_def)
next
  case (Some e)
  then have "item_id x" by (rule cached_item [OF assms(1)])
  from clean_entry_eq [OF this assms(2)] Some assms(1) show ?thesis
    by (intro exI [of _ "if outdated now e then mc\<lparr>ii_meta := hm_erase x (ii_meta mc)\<rparr> else mc"])
      (auto simp: checkClean_def cache_ok_def dest!: in_erase)
qed

text \<open>The operations on the cache. \<open>told now mc x\<close> is what is known of an item at a time.\<close>

definition told :: "int \<Rightarrow> meta_cache \<Rightarrow> bstr \<Rightarrow> meta_content option" where
  "told now mc x = live now (hm_get (ii_meta mc) x)"

definition query_messages :: "(bstr \<Rightarrow> bstr) \<Rightarrow> bstr \<Rightarrow> meta_content option \<Rightarrow> blackadder \<Rightarrow> cell list list" where
  "query_messages sha1 x e ba = (if e \<noteq> None \<and> mc_created (the e) \<le> 0 then [info_request UNSUBSCRIBE_INFO x ba] else []) @
     [info_request SUBSCRIBE_INFO (meta_id sha1 x) ba]"

text \<open>An item nothing is known of is asked about: the metadata's identifier is subscribed to.\<close>

lemma query_sent:
  assumes "cache_ok mc" "sock_fd ba \<noteq> -1" "item_id x" "sha1_ok sha1" "told now1 mc x = None"
  shows "\<exists>mc'. sendQueryIfNeeded sha1 now1 now2 now3 x (mc, ba) =
      Some (True, mc', sends (query_messages sha1 x (hm_get (ii_meta mc) x) ba) ba) \<and> cache_ok mc' \<and>
    last_non_lazy_update mc' = last_non_lazy_update mc \<and>
    (\<forall>y. hm_get (ii_meta mc') y = (if y = x then Some (MetaDataContent\<lparr>mc_querying := True, mc_querytime := now3\<rparr>)
       else if y = meta_id sha1 x then Some (MetaDataContent\<lparr>mc_qos := [(QoS_PRIO, 99)], mc_created := now2\<rparr>)
       else hm_get (ii_meta mc) y))"
proof -
  let ?e = "hm_get (ii_meta mc) x" and ?y = "meta_id sha1 x"
  define ms where "ms = (case ?e of None \<Rightarrow> [] | Some e \<Rightarrow> farewell now1 x e ba)"
  from checkClean_ok [OF assms(1,2), of now1 x, folded ms_def] obtain mc1 where
    c: "checkClean now1 x (mc, ba) = Some (mc1, sends ms ba)" "cache_ok mc1" "last_non_lazy_update mc1 = last_non_lazy_update mc"
    "\<forall>y. hm_get (ii_meta mc1) y = (if y = x then live now1 ?e else hm_get (ii_meta mc) y)" by auto
  have out: "?e = Some e \<Longrightarrow> outdated now1 e" for e using assms(5) by (auto simp: told_def split: if_splits)
  then have ms: "ms @ [info_request SUBSCRIBE_INFO ?y ba] = query_messages sha1 x ?e ba"
    by (cases ?e) (simp_all add: ms_def query_messages_def farewell_def)
  note q = meta_id_parts [OF assms(3,4)] and i = item_parts [OF assms(3)]
  have sub: "snd (lib_subscribe_info (take 8 (sha1 (last_id x))) (prefix_id x) DOMAIN_LOCAL None (sends ms ba)) =
      sends (query_messages sha1 x ?e ba) ba"
    using subscribe_sends [OF q(1), of "sends ms ba", unfolded q(2,3)] assms(2) ms by simp
  let ?mc = "mc1\<lparr>ii_meta := map_put x (MetaDataContent\<lparr>mc_querying := True, mc_querytime := now3\<rparr>)
     (map_put ?y (MetaDataContent\<lparr>mc_qos := [(QoS_PRIO, 99)], mc_created := now2\<rparr>) (ii_meta mc1))\<rparr>"
  have "\<not> mc_exists x mc1" using c(4) assms(5) by (simp add: mc_exists_def told_def)
  then have "sendQueryIfNeeded sha1 now1 now2 now3 x (mc, ba) = Some (True, ?mc, sends (query_messages sha1 x ?e ba) ba)"
    using sub by (simp add: sendQueryIfNeeded_def c(1) q(4) i(4) Let_def addMetaItem_def meta_id_def MetaDataContent_def)
  moreover have "cache_ok ?mc" using c(2) q(1) assms(3) by (auto simp: cache_ok_def keys_map_put)
  ultimately show ?thesis using c(3,4) assms(5) by (intro exI [of _ ?mc]) (auto simp: MetaDataContent_def)
qed

lemma query_not_sent:
  assumes "cache_ok mc" "sock_fd ba \<noteq> -1" "told now1 mc x = Some e"
  shows "sendQueryIfNeeded sha1 now1 now2 now3 x (mc, ba) = Some (False, mc, ba)"
proof -
  have e: "hm_get (ii_meta mc) x = Some e" "\<not> outdated now1 e"
    using assms(3) by (auto simp: told_def live_def split: option.splits if_splits)
  have "checkClean now1 x (mc, ba) = Some (mc, ba)"
    using clean_entry_eq [OF cached_item [OF assms(1) e(1)] assms(2)] e by (simp add: checkClean_def farewell_def)
  then show ?thesis using e(1) by (simp add: sendQueryIfNeeded_def mc_exists_def)
qed

definition prio_in :: "meta_content \<Rightarrow> 16 word" where
  "prio_in e = (if mc_querying e then DEFAULT_QOS_PRIO else case map_of (mc_qos e) QoS_PRIO of None \<Rightarrow> DEFAULT_QOS_PRIO | Some p \<Rightarrow> p)"

lemma outdated_later: "outdated now e \<Longrightarrow> now \<le> now' \<Longrightarrow> outdated now' e"
  by (auto simp: outdated_def split: if_splits)

text \<open>The priority of an item that is known; the end of the map is read if it has just gone.\<close>

lemma getIIQoSPrio_ok:
  assumes "cache_ok mc" "sock_fd ba \<noteq> -1" "now2 \<le> now3"
  shows "case told now3 mc x of
      None \<Rightarrow> getIIQoSPrio now1 now2 now3 x (mc, ba) = None
    | Some e \<Rightarrow> \<exists>mc' ms. getIIQoSPrio now1 now2 now3 x (mc, ba) = Some (prio_in e, mc', sends ms ba) \<and> cache_ok mc' \<and>
        last_non_lazy_update mc' = last_non_lazy_update mc \<and> hm_get (ii_meta mc') x = Some e"
proof -
  let ?all = "now1 - last_non_lazy_update mc > NON_LAZY_INT"
  obtain mc1 ms where a: "(if ?all then cleanAllExpired now2 (mc, ba) else Some (mc, ba)) = Some (mc1, sends ms ba)" "cache_ok mc1"
    "last_non_lazy_update mc1 = last_non_lazy_update mc"
    "hm_get (ii_meta mc1) x = (if ?all then live now2 (hm_get (ii_meta mc) x) else hm_get (ii_meta mc) x)"
  proof (cases ?all)
    case True
    then show ?thesis using cleanAllExpired_ok [OF assms(1,2), of now2] that by auto
  next
    case False
    then show ?thesis using that [of mc "[]"] assms(1) by simp
  qed
  have l: "live now3 (hm_get (ii_meta mc1) x) = told now3 mc x"
    using a(4) outdated_later [OF _ assms(3)] by (cases "hm_get (ii_meta mc) x") (auto simp: told_def)
  from checkClean_ok [OF a(2), of "sends ms ba" now3 x] assms(2) obtain mc2 ns where
    c: "checkClean now3 x (mc1, sends ms ba) = Some (mc2, sends ns (sends ms ba))" "cache_ok mc2" "last_non_lazy_update mc2 = last_non_lazy_update mc1"
    "hm_get (ii_meta mc2) x = told now3 mc x" by (auto simp: l)
  have "clean_before now1 now2 now3 x (mc, ba) = Some (mc2, sends (ms @ ns) ba)"
    using a(1) c(1) by (simp add: clean_before_def)
  then show ?thesis using a(3) c(2-4) by (auto simp: getIIQoSPrio_def prio_in_def split: option.splits)
qed

lemma meta_update_ok:
  assumes "cache_ok mc" "sock_fd ba \<noteq> -1" "item_id x" "sha1_ok sha1" "hm_get (ii_meta mc) x = Some e" "meta_id sha1 x \<noteq> x"
  shows "\<exists>mc'. meta_update sha1 now x q (mc, ba) = Some (mc', sends [info_request UNSUBSCRIBE_INFO (meta_id sha1 x) ba] ba) \<and> cache_ok mc' \<and>
    last_non_lazy_update mc' = last_non_lazy_update mc \<and>
    (\<forall>y. hm_get (ii_meta mc') y = (if y = x then Some (e\<lparr>mc_qos := q, mc_querying := False, mc_created := now\<rparr>)
      else if y = meta_id sha1 x then None else hm_get (ii_meta mc) y))"
proof -
  note q = meta_id_parts [OF assms(3,4)] and i = item_parts [OF assms(3)]
  let ?m = "map_put x (e\<lparr>mc_qos := q, mc_querying := False, mc_created := now\<rparr>) (ii_meta mc)"
  let ?mc = "mc\<lparr>ii_meta := hm_erase (meta_id sha1 x) ?m\<rparr>"
  have "meta_update sha1 now x q (mc, ba) = Some (?mc, sends [info_request UNSUBSCRIBE_INFO (meta_id sha1 x) ba] ba)"
    using unsubscribe_sends [OF q(1) assms(2), unfolded q(2,3)] by (simp add: meta_update_def assms(5) q(4) i(4) meta_id_def Let_def)
  moreover have "cache_ok ?mc" using assms(1,3) by (auto simp: cache_ok_def dest!: in_erase map_put_in)
  ultimately show ?thesis using assms(6) by (intro exI [of _ ?mc]) auto
qed

subsection \<open>Classes of priority\<close>

definition classes :: "tm_qos \<Rightarrow> byte set" where
  "classes q = fst ` set (qlwm q)"

lemma nearest_class_ok:
  assumes "st = (c0, m0)" "m0 \<le> uint p - uint c0 \<or> m0 = 10000 \<and> c0 = 0" "uint p - uint c0 \<le> m0" "c0 \<le> p"
  shows "nearest_class p ks st \<in> insert c0 (set ks) \<and> nearest_class p ks st \<le> p \<and> c0 \<le> nearest_class p ks st \<and>
    (\<forall>k \<in> set ks. k \<le> p \<longrightarrow> k \<le> nearest_class p ks st)"
  using assms
proof (induction ks arbitrary: st c0 m0)
  case (Cons k ks)
  consider "p < k" | "k \<le> p" "uint p - uint k < m0" | "k \<le> p" "\<not> uint p - uint k < m0" by (meson not_le)
  then show ?case
  proof cases
    case 1
    then show ?thesis using Cons.IH [OF refl Cons.prems(2-4)] Cons.prems(1) by (auto simp: not_le [symmetric])
  next
    case 2
    from Cons.IH [OF refl _ _ 2(1), of "uint p - uint k"] have ih: "nearest_class p ks (k, uint p - uint k) \<in> insert k (set ks)"
      "nearest_class p ks (k, uint p - uint k) \<le> p" "k \<le> nearest_class p ks (k, uint p - uint k)"
      "\<forall>k' \<in> set ks. k' \<le> p \<longrightarrow> k' \<le> nearest_class p ks (k, uint p - uint k)" by auto
    have "c0 \<le> k" using 2(2) Cons.prems(2) by (auto simp: word_le_def)
    then show ?thesis using ih 2 Cons.prems(1) by auto
  next
    case 3
    have "k \<le> c0" using 3(2) Cons.prems(3) by (auto simp: word_le_def)
    then show ?thesis using Cons.IH [OF refl Cons.prems(2-4)] 3 Cons.prems(1) by (auto intro: order_trans)
  qed
qed auto

text \<open>The class an item is carried in: the best of those there are that is not better than its priority.\<close>

lemma class_ok:
  assumes "isQoSMapOk q" "c = getWeightKeyForIIPrio p q"
  shows "c \<in> classes q" "c \<le> p" "\<forall>k \<in> classes q. k \<le> p \<longrightarrow> k \<le> c"
proof -
  have z: "0 \<in> classes q" using assms(1) by (simp add: isQoSMapOk_def classes_def hm_get_None_fst)
  have "c \<in> classes q \<and> c \<le> p \<and> (\<forall>k \<in> classes q. k \<le> p \<longrightarrow> k \<le> c)"
  proof (cases "hm_get (qlwm q) p = None")
    case True
    then have c: "c = nearest_class p (map fst (qlwm q)) (0, 10000)" using assms(2) by (simp add: getWeightKeyForIIPrio_def)
    have b: "uint p \<le> 10000" using uint_bounded [of p] by simp
    from nearest_class_ok [OF refl, of 10000 p 0 "map fst (qlwm q)"] b have
      "c \<in> insert 0 (classes q) \<and> c \<le> p \<and> (\<forall>k \<in> classes q. k \<le> p \<longrightarrow> k \<le> c)" unfolding c classes_def by simp
    then show ?thesis using z by auto
  next
    case False
    then show ?thesis using assms(2) by (auto simp: getWeightKeyForIIPrio_def classes_def hm_get_None_fst)
  qed
  then show "c \<in> classes q" "c \<le> p" "\<forall>k \<in> classes q. k \<le> p \<longrightarrow> k \<le> c" by blast+
qed

definition class_weights :: "(16 word option \<Rightarrow> byte) \<Rightarrow> nat \<Rightarrow> tm_qos \<Rightarrow> byte \<Rightarrow> int list" where
  "class_weights u8_of n q c = map (\<lambda>e. plane_weight c (prio_of u8_of q e)) [0..<n]"

lemma class_plane:
  assumes "planes_ok u8_of n q" "c \<in> classes q"
  shows "hm_get (qlwm q) c = Some (class_weights u8_of n q c)"
proof -
  from assms(2) obtain ws where ws: "hm_get (qlwm q) c = Some ws" unfolding classes_def by (metis hm_get_None_fst not_None_eq)
  then have "(c, ws) \<in> set (qlwm q)" by (simp add: hm_get_def map_of_SomeD)
  then show ?thesis using assms(1) ws by (auto simp: planes_ok_def class_weights_def)
qed

subsection \<open>Lightest paths\<close>

text \<open>
  \<open>ends e\<close> are the two vertices of an edge (\<^verbatim>\<open>igraph_edge\<close>). Documented behaviour of the graph library: between
  vertices that are connected it gives a path of least weight, without a vertex twice; otherwise none.
\<close>

fun walk :: "(nat \<Rightarrow> nat \<times> nat) \<Rightarrow> nat \<Rightarrow> nat \<Rightarrow> nat list \<Rightarrow> nat \<Rightarrow> bool" where
  "walk ends n u [] v \<longleftrightarrow> u = v"
| "walk ends n u (e # es) v \<longleftrightarrow> e < n \<and> fst (ends e) = u \<and> walk ends n (snd (ends e)) es v"

definition weight :: "int list \<Rightarrow> nat list \<Rightarrow> int" where
  "weight ws es = sum_list (map (\<lambda>e. ws ! e) es)"

definition lightest :: "(nat \<Rightarrow> nat \<times> nat) \<Rightarrow> int list \<Rightarrow> nat \<Rightarrow> nat \<Rightarrow> nat list \<Rightarrow> bool" where
  "lightest ends ws u v es \<longleftrightarrow> (if \<exists>es'. walk ends (length ws) u es' v
     then walk ends (length ws) u es v \<and> (\<forall>es'. walk ends (length ws) u es' v \<longrightarrow> weight ws es \<le> weight ws es') else es = [])"

definition dijkstra_law :: "(nat \<Rightarrow> nat \<times> nat) \<Rightarrow> nat \<Rightarrow> nat \<Rightarrow> (int list \<Rightarrow> nat \<Rightarrow> nat \<Rightarrow> nat list) \<Rightarrow> bool" where
  "dijkstra_law ends nv ne dijkstra \<longleftrightarrow> (\<forall>ws u v. length ws = ne \<and> (\<forall>w \<in> set ws. 0 \<le> w) \<and> u < nv \<and> v < nv \<longrightarrow>
     lightest ends ws u v (dijkstra ws u v) \<and> length (dijkstra ws u v) < nv)"

lemma walk_edges: "walk ends n u es v \<Longrightarrow> \<forall>e \<in> set es. e < n"
  by (induction es arbitrary: u) auto

definition edges_in :: "nat \<Rightarrow> nat \<Rightarrow> (nat \<Rightarrow> nat \<Rightarrow> nat list) \<Rightarrow> bool" where
  "edges_in nv ne wpath \<longleftrightarrow> (\<forall>u < nv. \<forall>v < nv. (\<forall>e \<in> set (wpath u v). e < ne) \<and> length (wpath u v) < nv)"

lemma dijkstra_edges:
  assumes "dijkstra_law ends nv n dijkstra" "\<forall>w \<in> set ws. 0 \<le> w" "length ws = n"
  shows "edges_in nv n (dijkstra ws)"
  unfolding edges_in_def
proof (intro allI impI)
  fix u v assume "u < nv" "v < nv"
  then have l: "lightest ends ws u v (dijkstra ws u v)" "length (dijkstra ws u v) < nv" using assms unfolding dijkstra_law_def by blast+
  have "\<forall>e \<in> set (dijkstra ws u v). e < n"
  proof (cases "\<exists>es'. walk ends (length ws) u es' v")
    case True
    then have "walk ends n u (dijkstra ws u v) v" using l(1) assms(3) by (simp add: lightest_def)
    then show ?thesis by (rule walk_edges)
  next
    case False
    then show ?thesis using l(1) by (simp add: lightest_def)
  qed
  then show "(\<forall>e \<in> set (dijkstra ws u v). e < n) \<and> length (dijkstra ws u v) < nv" using l(2) by blast
qed

lemma class_weights_nonneg: "prios_ok u8_of n q \<Longrightarrow> \<forall>w \<in> set (class_weights u8_of n q c). 0 \<le> w"
  by (auto simp: class_weights_def plane_weight_def prios_ok_def word_le_def)

subsection \<open>Weighted identifiers\<close>

definition wroute :: "igraph \<Rightarrow> (nat \<Rightarrow> nat \<Rightarrow> nat list) \<Rightarrow> bstr \<Rightarrow> bstr \<Rightarrow> nat list" where
  "wroute g wpath source destination = wpath (vertex g source) (vertex g destination)"

definition whops :: "igraph \<Rightarrow> (nat \<Rightarrow> nat \<Rightarrow> nat list) \<Rightarrow> bstr \<Rightarrow> bstr \<Rightarrow> nat" where
  "whops g wpath s p = (if p = s then 1 else numberOfHops (wroute g wpath p s))"

definition wroute_bits :: "igraph \<Rightarrow> (nat \<Rightarrow> nat \<Rightarrow> nat list) \<Rightarrow> bstr \<Rightarrow> bstr \<Rightarrow> nat \<Rightarrow> bool" where
  "wroute_bits g wpath source destination i \<longleftrightarrow>
     (\<exists>e \<in> set (wroute g wpath source destination). text_bit (ig_LID g ! e) i) \<or> text_bit (ig_iLID g ! vertex g destination) i"

lemma or_edges_ok:
  assumes "tables_ok g t" "\<forall>e \<in> set es. e < length (ig_LID g)" "is_fid r"
  shows "\<exists>r'. or_edges t es r = Some r' \<and> has_bits r' (\<lambda>i. bv_bit r i \<or> (\<exists>e \<in> set es. text_bit (ig_LID g ! e) i))"
  using assms(2,3)
proof (induction es arbitrary: r)
  case Nil
  then show ?case by (simp add: has_bits_def)
next
  case (Cons e es)
  then obtain l where l: "hm_get (edge_LID t) e = Some l" "is_lid l (ig_LID g ! e)" using assms(1) by (auto simp: tables_ok_def)
  from fid_or_lid [OF Cons.prems(2) l(2)] obtain r1 where r1: "bv_or r l = Some r1" "is_fid r1" "bv_store r r1 = r1"
    "\<forall>i < 256. bv_bit r1 i = (bv_bit r i \<or> text_bit (ig_LID g ! e) i)" by blast
  from Cons.IH [OF _ r1(2)] Cons.prems(1) obtain r2 where
    "or_edges t es r1 = Some r2" "has_bits r2 (\<lambda>i. bv_bit r1 i \<or> (\<exists>e \<in> set es. text_bit (ig_LID g ! e) i))" by auto
  then show ?case using l(1) r1 by (intro exI [of _ r2]) (auto simp: has_bits_def)
qed

lemma calculateFID_weighted_path_ok:
  assumes "topology_ok g" "tables_ok g t" "p \<in> set (ig_NODEID g)" "s \<in> set (ig_NODEID g)" "is_fid r"
    and "edges_in (length (ig_NODEID g)) (length (ig_LID g)) wpath"
  shows "\<exists>f. calculateFID_weighted_path wpath t p s (bv_clear r) = Some (f, whops g wpath s p) \<and> has_bits f (wroute_bits g wpath p s)"
proof -
  note vp = vertex_ok [OF assms(3)] and vs = vertex_ok [OF assms(4)]
  have i: "hm_get (reverse_node_index t) p = Some (vertex g p)" "hm_get (reverse_node_index t) s = Some (vertex g s)"
    using assms(2) vp vs unfolding tables_ok_def by metis+
  obtain l where l: "hm_get (nodeID_iLID t) s = Some l" "is_lid l (ig_iLID g ! vertex g s)"
    using assms(2) vs unfolding tables_ok_def by metis
  have "\<forall>e \<in> set (wroute g wpath p s). e < length (ig_LID g)" using assms(6) vp(1) vs(1) unfolding edges_in_def wroute_def by blast
  from or_edges_ok [OF assms(2) this] clear_fid [OF assms(5)] obtain r1 where
    r1: "or_edges t (wroute g wpath p s) (bv_clear r) = Some r1" "is_fid r1"
    "\<forall>i < 256. bv_bit r1 i = (\<exists>e \<in> set (wroute g wpath p s). text_bit (ig_LID g ! e) i)" unfolding has_bits_def by blast
  from fid_or_lid [OF r1(2) l(2)] obtain f where f: "bv_or r1 l = Some f" "is_fid f" "bv_store r1 f = f"
    "\<forall>i < 256. bv_bit f i = (bv_bit r1 i \<or> text_bit (ig_iLID g ! vertex g s) i)" by blast
  have "has_bits f (wroute_bits g wpath p s)" using f r1(3) by (simp add: has_bits_def wroute_bits_def)
  then show ?thesis using i l r1(1) f by (simp add: calculateFID_weighted_path_def wroute_def whops_def Let_def)
qed

text \<open>The lightest paths are a source of routes too.\<close>

definition weighted_nodes :: "igraph \<Rightarrow> tm_graph \<Rightarrow> (nat \<Rightarrow> nat \<Rightarrow> nat list) \<Rightarrow> bstr set" where
  "weighted_nodes g t wpath = (if edges_in (length (ig_NODEID g)) (length (ig_LID g)) wpath then known_nodes g t else {})"

interpretation weighted: route_source "calculateFID_weighted_path wpath t" "weighted_nodes g t wpath" "whops g wpath" "wroute_bits g wpath" for g t wpath
proof
  show "\<exists>f. calculateFID_weighted_path wpath t p s (bv_clear r) = Some (f, whops g wpath s p) \<and> has_bits f (wroute_bits g wpath p s)"
    if "p \<in> weighted_nodes g t wpath" "s \<in> weighted_nodes g t wpath" "is_fid r" for p s r
    using that calculateFID_weighted_path_ok [of g t p s r wpath] by (simp add: weighted_nodes_def in_known split: if_splits)
qed (simp add: weighted_nodes_def no_empty_node)

lemma best_publisher_weighted_is: "best_publisher_weighted wpath t s ps st = best_of (calculateFID_weighted_path wpath t) s ps st"
proof (induction ps arbitrary: st)
  case (Cons p ps)
  then show ?case by (cases st) simp
qed simp

lemma calculateFID_weighted_is: "calculateFID_weighted wpath t = all_of (calculateFID_weighted_path wpath t)"
proof -
  have "serve_subscriber_weighted wpath t = serve_of (calculateFID_weighted_path wpath t)"
    by (intro ext) (simp add: serve_subscriber_weighted_def serve_of_def best_publisher_weighted_is)
  then show ?thesis by (intro ext) (simp add: calculateFID_weighted_def all_of_def)
qed

lemma calculateFID_weighted_ok:
  assumes "topology_ok g" "tables_ok g t" "edges_in (length (ig_NODEID g)) (length (ig_LID g)) wpath"
    and "set publishers \<subseteq> set (ig_NODEID g)" "set subs \<subseteq> set (ig_NODEID g)" "\<forall>s \<in> set subs. reached (whops g wpath) publishers s"
  shows "\<exists>res. calculateFID_weighted wpath t publishers subs = Some res \<and> result_by (whops g wpath) (wroute_bits g wpath) publishers subs res"
  unfolding calculateFID_weighted_is
  by (rule weighted.all_ok [where g = g]) (use assms in \<open>simp_all add: weighted_nodes_def\<close>)

subsection \<open>Routes of a class\<close>

lemma length_class_weights [simp]: "length (class_weights u8_of n q c) = n"
  by (simp add: class_weights_def)

lemma nth_class_weights: "e < n \<Longrightarrow> class_weights u8_of n q c ! e = plane_weight c (prio_of u8_of q e)"
  by (simp add: class_weights_def)

definition class_route :: "(16 word option \<Rightarrow> byte) \<Rightarrow> nat \<Rightarrow> tm_qos \<Rightarrow> byte \<Rightarrow> (int list \<Rightarrow> nat \<Rightarrow> nat \<Rightarrow> nat list) \<Rightarrow> nat \<Rightarrow> nat \<Rightarrow> nat list" where
  "class_route u8_of n q c dijkstra = dijkstra (class_weights u8_of n q c)"

lemma class_route_lightest:
  assumes "dijkstra_law ends nv n dijkstra" "prios_ok u8_of n q" "u < nv" "v < nv"
  shows "lightest ends (class_weights u8_of n q c) u v (class_route u8_of n q c dijkstra u v)"
  using assms class_weights_nonneg [OF assms(2), of c] length_class_weights unfolding dijkstra_law_def class_route_def by blast

lemma lightestD:
  assumes "lightest ends ws u v r" "walk ends n u es v" "length ws = n"
  shows "walk ends n u r v" "weight ws r \<le> weight ws es"
  using assms by (auto simp: lightest_def split: if_splits)

lemma vertex_inj: "x \<in> set (ig_NODEID g) \<Longrightarrow> y \<in> set (ig_NODEID g) \<Longrightarrow> vertex g x = vertex g y \<Longrightarrow> x = y"
  by (metis vertex_ok(2))

text \<open>A publisher and a subscriber that are joined by links.\<close>

definition connected :: "igraph \<Rightarrow> (nat \<Rightarrow> nat \<times> nat) \<Rightarrow> bstr list \<Rightarrow> bstr \<Rightarrow> bool" where
  "connected g ends publishers s \<longleftrightarrow> (\<exists>p \<in> set publishers. \<exists>es. walk ends (length (ig_LID g)) (vertex g p) es (vertex g s))"

lemma connected_reached:
  assumes "topology_ok g" "dijkstra_law ends (length (ig_NODEID g)) (length (ig_LID g)) dijkstra" "prios_ok u8_of (length (ig_LID g)) q"
    and "set publishers \<subseteq> set (ig_NODEID g)" "s \<in> set (ig_NODEID g)" "connected g ends publishers s"
  shows "reached (whops g (class_route u8_of (length (ig_LID g)) q c dijkstra)) publishers s"
proof -
  let ?n = "length (ig_LID g)" and ?w = "class_route u8_of (length (ig_LID g)) q c dijkstra"
  from assms(6) obtain p es where p: "p \<in> set publishers" "walk ends ?n (vertex g p) es (vertex g s)" by (auto simp: connected_def)
  then have pn: "p \<in> set (ig_NODEID g)" using assms(4) by blast
  note v = vertex_ok(1) [OF pn] vertex_ok(1) [OF assms(5)]
  have "whops g ?w s p < UINT_MAX"
  proof (cases "p = s")
    case False
    have "walk ends ?n (vertex g p) (wroute g ?w p s) (vertex g s)"
      unfolding wroute_def by (rule lightestD(1) [OF class_route_lightest [OF assms(2,3) v] p(2) length_class_weights])
    then have "wroute g ?w p s \<noteq> []" using False vertex_inj [OF pn assms(5)] by (cases "wroute g ?w p s") auto
    moreover have "length (wroute g ?w p s) < length (ig_NODEID g)"
      using dijkstra_edges [OF assms(2) class_weights_nonneg [OF assms(3)] length_class_weights] v by (auto simp: edges_in_def wroute_def class_route_def)
    moreover have "length (ig_NODEID g) < UINT_MAX" using assms(1) by (simp add: topology_ok_def)
    ultimately show ?thesis using False by (simp add: whops_def numberOfHops_def Let_def)
  qed (simp add: whops_def)
  then show ?thesis using p(1) by (auto simp: reached_def)
qed

text \<open>
  C19. A match under quality of service is answered along the lightest routes of the item's class. The class is the
  best of those the planes have that is not better than the item's priority; in its plane a link
  weighs what its priority lacks to 100, and 255 if the link is reserved for better classes. Each
  subscriber counts for the first publisher with the fewest links on its lightest route (one, if they are the same node) and a
  publisher's identifier has exactly the bits of the links on its own routes and its
  subscribers' internal links.
\<close>

theorem qos_match_routes:
  assumes "topology_ok g" "tables_ok g (ts_graph s)" "dijkstra_law ends (length (ig_NODEID g)) (length (ig_LID g)) dijkstra"
    and "getExten EXT_QOS (ts_qos s) = Some True" "isQoSMapOk (ts_qos s)"
    and "planes_ok u8_of (length (ig_LID g)) (ts_qos s)" "prios_ok u8_of (length (ig_LID g)) (ts_qos s)"
    and "match_priority sha1 clock ids (ts_cache s, ts_ba s) = Some (prio, mc, ba)"
    and "set pubs \<subseteq> set (ig_NODEID g)" "set subs \<subseteq> set (ig_NODEID g)" "\<forall>x \<in> set subs. connected g ends pubs x"
  shows "\<exists>c result path. c \<in> classes (ts_qos s) \<and> c \<le> ucast prio \<and> (\<forall>k \<in> classes (ts_qos s). k \<le> ucast prio \<longrightarrow> k \<le> c) \<and>
    (\<forall>u < length (ig_NODEID g). \<forall>v < length (ig_NODEID g).
       lightest ends (map (\<lambda>e. plane_weight c (prio_of u8_of (ts_qos s) e)) [0..<length (ig_LID g)]) u v (path u v)) \<and>
    qos_calculateFID g dijkstra sha1 clock pubs subs ids s = Some (result, s\<lparr>ts_cache := mc, ts_ba := ba\<rparr>) \<and>
    map fst result = pubs \<and>
    (\<forall>p \<in> set pubs. \<exists>entry. hm_get result p = Some entry \<and>
       (entry = None \<longleftrightarrow> (\<forall>x \<in> set subs. nearest_by (whops g path) pubs x \<noteq> p)) \<and>
       (\<forall>FID. entry = Some FID \<longrightarrow> is_fid FID \<and> (\<forall>i < 256. bv_bit FID i \<longleftrightarrow>
          (\<exists>x \<in> set subs. nearest_by (whops g path) pubs x = p \<and> wroute_bits g path p x i))))"
proof -
  let ?n = "length (ig_LID g)" and ?q = "ts_qos s"
  define c where "c = getWeightKeyForIIPrio (ucast prio) ?q"
  note cl = class_ok [OF assms(5) c_def]
  let ?w = "class_route u8_of ?n ?q c dijkstra"
  have ed: "edges_in (length (ig_NODEID g)) ?n ?w" unfolding class_route_def
    by (rule dijkstra_edges [OF assms(3) class_weights_nonneg [OF assms(7)] length_class_weights])
  have "\<forall>x \<in> set subs. reached (whops g ?w) pubs x" using connected_reached [OF assms(1,3,7,9)] assms(10,11) by blast
  from calculateFID_weighted_ok [OF assms(1,2) ed assms(9,10) this] obtain res where
    res: "calculateFID_weighted ?w (ts_graph s) pubs subs = Some res" "result_by (whops g ?w) (wroute_bits g ?w) pubs subs res" by blast
  have calc: "qos_calculateFID g dijkstra sha1 clock pubs subs ids s = Some (res, s\<lparr>ts_cache := mc, ts_ba := ba\<rparr>)"
    using assms(4,5,8) class_plane [OF assms(6) cl(1)] res(1) by (simp add: qos_calculateFID_def c_def class_route_def)
  have e: "\<exists>entry. hm_get res p = Some entry \<and> (entry = None \<longleftrightarrow> (\<forall>x \<in> set subs. nearest_by (whops g ?w) pubs x \<noteq> p)) \<and>
       (\<forall>FID. entry = Some FID \<longrightarrow> is_fid FID \<and> (\<forall>i < 256. bv_bit FID i \<longleftrightarrow>
          (\<exists>x \<in> set subs. nearest_by (whops g ?w) pubs x = p \<and> wroute_bits g ?w p x i)))" if "p \<in> set pubs" for p
  proof -
    have "entry_by (whops g ?w) (wroute_bits g ?w) pubs subs p (hm_get res p)" using res(2) that by (simp add: result_by_def)
    then show ?thesis by (auto simp: entry_by_def has_bits_def split: option.splits)
  qed
  have l: "\<forall>u < length (ig_NODEID g). \<forall>v < length (ig_NODEID g).
       lightest ends (map (\<lambda>e. plane_weight c (prio_of u8_of ?q e)) [0..<?n]) u v (?w u v)"
    using class_route_lightest [OF assms(3,7)] unfolding class_weights_def by blast
  show ?thesis
    by (rule exI [of _ c], rule exI [of _ res], rule exI [of _ ?w], intro conjI cl(1,2) l calc ballI [OF e])
      (use cl(3) res(2) in \<open>simp_all add: result_by_def\<close>)
qed

lemma weight_Cons [simp]: "weight ws [] = 0" "weight ws (e # es) = ws ! e + weight ws es"
  by (simp_all add: weight_def)

lemma weight_member:
  assumes "e \<in> set es" "\<forall>e \<in> set es. 0 \<le> ws ! e"
  shows "ws ! e \<le> weight ws es"
  using assms
proof (induction es)
  case (Cons x es)
  have "0 \<le> weight ws es" using Cons.prems(2) by (auto simp: weight_def intro!: sum_list_nonneg)
  then show ?case using Cons by auto
qed simp

lemma weight_bound: "\<forall>e \<in> set es. ws ! e \<le> b \<Longrightarrow> weight ws es \<le> b * int (length es)"
  by (induction es) (auto simp: algebra_simps)

lemma plane_weight_bounds:
  assumes "r \<le> 100"
  shows "0 \<le> plane_weight c r" "r \<le> c \<Longrightarrow> plane_weight c r \<le> 100" "c < r \<Longrightarrow> plane_weight c r = 255"
  using assms by (simp_all add: plane_weight_def word_le_def word_less_def)


lemma weight_const: "\<forall>e \<in> set es. ws ! e = b \<Longrightarrow> weight ws es = b * int (length es)"
  by (induction es) (auto simp: algebra_simps)


text \<open>The edge of a link identifier, in the tables that were read from a file whose identifiers are distinct texts of bits.\<close>

definition lids_ok :: "igraph \<Rightarrow> bool" where
  "lids_ok g \<longleftrightarrow> distinct (ig_LID g) \<and> (\<forall>s \<in> set (ig_LID g). set s \<subseteq> {CHR ''0'', CHR ''1''})"

lemma add_nodes_edges: "fold_opt (add_node g) is t = Some t' \<Longrightarrow> reverse_edge_index t' = reverse_edge_index t"
proof (induction "is" arbitrary: t)
  case (Cons i "is")
  then obtain t1 where t1: "add_node g i t = Some t1" "fold_opt (add_node g) is t1 = Some t'" by (auto split: option.splits)
  then have "reverse_edge_index t1 = reverse_edge_index t" by (auto simp: add_node_def split: bind_splits)
  then show ?case using Cons.IH [OF t1(2)] by simp
qed simp

lemma add_edges_index:
  assumes "fold_opt (add_edge g) [0..<n] t = Some t'" "n \<le> length (ig_LID g)" "distinct (ig_LID g)" "reverse_edge_index t = []"
  shows "hm_keys (reverse_edge_index t') = take n (ig_LID g) \<and> (\<forall>e < n. hm_get (reverse_edge_index t') (ig_LID g ! e) = Some e)"
  using assms(1,2)
proof (induction n arbitrary: t')
  case 0
  then show ?case using assms(4) by simp
next
  case (Suc n)
  then obtain t1 where t1: "fold_opt (add_edge g) [0..<n] t = Some t1" "add_edge g n t1 = Some t'"
    by (auto simp: fold_opt_append split: option.splits bind_splits)
  have ih: "hm_keys (reverse_edge_index t1) = take n (ig_LID g)" "\<forall>e < n. hm_get (reverse_edge_index t1) (ig_LID g ! e) = Some e"
    using Suc.IH [OF t1(1)] Suc.prems(2) by simp_all
  let ?s = "ig_LID g ! n"
  have new: "?s \<notin> set (take n (ig_LID g))" "\<forall>e < n. ig_LID g ! e \<noteq> ?s"
    using assms(3) Suc.prems(2) by (auto simp: in_set_conv_nth nth_eq_iff_index_eq)
  then have "hm_get (reverse_edge_index t1) ?s = None" by (simp add: hm_get_None_iff ih(1))
  then have r: "reverse_edge_index t' = hm_set ?s n (reverse_edge_index t1)"
    using t1(2) by (auto simp: add_edge_def hm_find_insert_def split: bind_splits)
  show ?case using new ih Suc.prems(2) by (auto simp: r keys_hm_set_new take_Suc_conv_app_nth less_Suc_eq)
qed

lemma readTopology_edges:
  assumes "readTopology g TM = Some t" "lids_ok g" "e < length (ig_LID g)"
  shows "hm_get (reverse_edge_index t) (ig_LID g ! e) = Some e"
proof -
  from assms(1) obtain t1 where "reverse_edge_index t1 = []" "fold_opt (add_edge g) [0..<length (ig_LID g)] t1 = Some t"
    by (auto simp: readTopology_def Let_def split: bind_splits dest!: add_nodes_edges)
  from add_edges_index [OF this(2) order_refl _ this(1)] assms(2,3) show ?thesis by (simp add: lids_ok_def)
qed

lemma lid_as_text:
  assumes "has_bits bv (text_bit s)" "length s = 256" "set s \<subseteq> {CHR ''0'', CHR ''1''}"
  shows "bv_to_string bv = Some s"
proof -
  have "map (\<lambda>i. if bv_bit bv (255 - i) then CHR ''1'' else CHR ''0'') [0..<256] = s"
  proof (rule nth_equalityI)
    fix i assume "i < length (map (\<lambda>i. if bv_bit bv (255 - i) then CHR ''1'' else CHR ''0'') [0..<256])"
    then have i: "i < 256" by simp
    then have "s ! i \<in> {CHR ''0'', CHR ''1''}" using assms(3) nth_mem [of i s] unfolding assms(2) by blast
    moreover have "bv_bit bv (255 - i) = (s ! i = CHR ''1'')" using assms(1) i by (simp add: has_bits_def text_bit_def)
    ultimately show "map (\<lambda>i. if bv_bit bv (255 - i) then CHR ''1'' else CHR ''0'') [0..<256] ! i = s ! i" using i by auto
  qed (simp add: assms(2))
  with bv_to_string_fid assms(1) show ?thesis by (simp add: has_bits_def)
qed

definition reports :: "igraph \<Rightarrow> (bitvec \<Rightarrow> nat) \<Rightarrow> bitvec \<times> qos_list \<Rightarrow> bool" where
  "reports g eid l \<longleftrightarrow> eid (fst l) < length (ig_LID g) \<and> has_bits (fst l) (text_bit (ig_LID g ! eid (fst l))) \<and>
     (\<exists>v. map_of (snd l) QoS_PRIO = Some v \<and> unat v \<le> 100)"

lemma reports_reportable:
  assumes "topology_ok g" "lids_ok g" "readTopology g TM = Some t" "reports g eid l"
  shows "reportable g t l" "report_link t l = eid (fst l)"
proof -
  let ?s = "ig_LID g ! eid (fst l)"
  have e: "eid (fst l) < length (ig_LID g)" using assms(4) by (simp add: reports_def)
  then have "length ?s = 256" "set ?s \<subseteq> {CHR ''0'', CHR ''1''}"
    using assms(1,2) nth_mem [OF e] unfolding topology_ok_def lids_ok_def by blast+
  then have "bv_to_string (fst l) = Some ?s" using assms(4) lid_as_text by (simp add: reports_def)
  with readTopology_edges [OF assms(3,2) e] assms(4) show "reportable g t l" "report_link t l = eid (fst l)"
    by (auto simp: reportable_def reports_def report_link_def)
qed



text \<open>
  C36. A question that is not answered is never taken back. If no metadata has come when the item is matched again,
  more than a second after the question, the manager unsubscribes from the item itself, which it never subscribed to, and
  subscribes to the metadata's identifier a second time.
\<close>

theorem unanswered_query_is_not_taken_back:
  assumes "cache_ok mc" "sock_fd ba \<noteq> -1" "item_id x" "sha1_ok sha1"
    and "hm_get (ii_meta mc) x = None" "later 0 - first 2 > 1"
  shows "\<exists>mc1 mc2. match_priority sha1 first x (mc, ba) = Some (0, mc1, sends [info_request SUBSCRIBE_INFO (meta_id sha1 x) ba] ba) \<and>
    match_priority sha1 later x (mc1, sends [info_request SUBSCRIBE_INFO (meta_id sha1 x) ba] ba) =
      Some (0, mc2, sends [info_request SUBSCRIBE_INFO (meta_id sha1 x) ba, info_request UNSUBSCRIBE_INFO x ba,
        info_request SUBSCRIBE_INFO (meta_id sha1 x) ba] ba)"
proof -
  let ?sub = "info_request SUBSCRIBE_INFO (meta_id sha1 x) ba"
  from query_sent [OF assms(1-4), of "first 0" "first 1" "first 2"] assms(5) obtain mc1 where
    q1: "sendQueryIfNeeded sha1 (first 0) (first 1) (first 2) x (mc, ba) = Some (True, mc1, sends [?sub] ba)" "cache_ok mc1"
    "hm_get (ii_meta mc1) x = Some (MetaDataContent\<lparr>mc_querying := True, mc_querytime := first 2\<rparr>)"
    by (auto simp: told_def query_messages_def)
  have "told (later 0) mc1 x = None" using assms(6) by (simp add: told_def q1(3) outdated_def MetaDataContent_def)
  from query_sent [OF q1(2) _ assms(3,4) this, of "sends [?sub] ba" "later 1" "later 2"] assms(2) obtain mc2 where
    "sendQueryIfNeeded sha1 (later 0) (later 1) (later 2) x (mc1, sends [?sub] ba) =
      Some (True, mc2, sends [?sub, info_request UNSUBSCRIBE_INFO x ba, ?sub] ba)"
    by (auto simp: query_messages_def q1(3) MetaDataContent_def)
  then show ?thesis using q1(1) by (intro exI [of _ mc1] exI [of _ mc2]) (simp add: match_priority_def)
qed

text \<open>
  Metadata that runs out between the question whether there is any and the reading of its priority is read past the
  end of the map.
\<close>

theorem expiry_between_readings:
  assumes "cache_ok mc" "sock_fd ba \<noteq> -1" "told (clock 0) mc x = Some e" "clock 4 \<le> clock 5" "told (clock 5) mc x = None"
  shows "match_priority sha1 clock x (mc, ba) = None"
  using query_not_sent [OF assms(1-3), of sha1 "clock 1" "clock 2"] getIIQoSPrio_ok [OF assms(1,2,4), of "clock 3" x] assms(5)
  by (simp add: match_priority_def)

subsection \<open>Without the extension\<close>

text \<open>
  Without the extension the manager is the one of \<open>BA_TopologyManager\<close>: the same answers, and nothing else
  changes. Only a packet of metadata is looked at in any case.
\<close>

lemma bind_map_cong: "(\<And>y. f y = map_option h (g y)) \<Longrightarrow> Option.bind x f = map_option h (Option.bind x g)"
  by (cases x) simp_all

lemma if_map_cong: "(\<not> b \<Longrightarrow> x = map_option h y) \<Longrightarrow> (if b then None else x) = map_option h (if b then None else y)"
  by simp

lemma off_calculateFID:
  "tq_extension (ts_qos s) = replicate SUPPORT_SIZE False \<Longrightarrow>
   qos_calculateFID g dijkstra sha1 clock ps ss ids s = map_option (\<lambda>r. (r, s)) (calculateFID g (ts_graph s) ps ss)"
  by (cases "calculateFID g (ts_graph s) ps ss") (simp_all add: qos_calculateFID_def getExten_def)

lemma off_handle_match:
  assumes "tq_extension (ts_qos s) = replicate SUPPORT_SIZE False"
  shows "qos_handle_match g dijkstra sha1 clock request n s = map_option (\<lambda>ba. s\<lparr>ts_ba := ba\<rparr>) (handle_match g (ts_graph s) request n (ts_ba s))"
proof -
  have c: "Option.bind (map_option (\<lambda>r. (r, s)) x) (\<lambda>(r, s'). h r s') = Option.bind x (\<lambda>r. h r s)" for h and x :: "tm_result option"
    by (cases x) simp_all
  have m: "Option.bind x (\<lambda>ba. Some (s\<lparr>ts_ba := ba\<rparr>)) = map_option (\<lambda>ba. s\<lparr>ts_ba := ba\<rparr>) x" for x by (cases x) simp_all
  show ?thesis
    unfolding qos_handle_match_def handle_match_def off_calculateFID [OF assms] Let_def c m
    by (intro bind_map_cong if_map_cong refl)
qed

lemma off_handleRequest:
  assumes "tq_extension (ts_qos s) = replicate SUPPORT_SIZE False" "take 1 (data @ slack) \<noteq> [Some QoS_METADATA]"
  shows "qos_handleRequest g dijkstra sha1 clock data slack s =
    map_option (\<lambda>ba. s\<lparr>ts_ba := ba\<rparr>) (handleRequest g (ts_graph s) data slack (ts_ba s))"
proof -
  have t: "rd8 \<lparr>pk_data = data @ slack, pk_anno = None\<rparr> 0 \<noteq> Some QoS_METADATA"
    using assms(2) by (cases "data @ slack") (auto simp: rd8_def)
  let ?p = "\<lparr>pk_data = data @ slack, pk_anno = None\<rparr>"
  show ?thesis
  proof (cases "rd8 ?p 0")
    case (Some type)
    then have n: "type \<noteq> QoS_METADATA" using t by simp
    show ?thesis
      by (cases "rd8 ?p 1") (use n in \<open>simp_all add: qos_handleRequest_def handleRequest_def Let_def Some off_handle_match [OF assms(1)]\<close>)
  qed (simp add: qos_handleRequest_def handleRequest_def)
qed

theorem extension_off_is_plain:
  assumes "tq_extension (ts_qos s) = replicate SUPPORT_SIZE False"
    and "\<And>ev data. getEvent d Event_new = Some ev \<Longrightarrow> ev_data ev = Some data \<Longrightarrow> take 1 (data @ slack) \<noteq> [Some QoS_METADATA]"
  shows "qos_event g dijkstra sha1 u8_of clock d slack s =
    map_option (map_option (\<lambda>ba. s\<lparr>ts_ba := ba\<rparr>)) (tm_event g (ts_graph s) d slack (ts_ba s))"
proof (cases "getEvent d Event_new")
  case (Some ev)
  have q: "getExten EXT_QOS (ts_qos s) = Some False" using assms(1) by (simp add: getExten_def)
  show ?thesis
  proof (cases "ev_data ev")
    case None
    then show ?thesis using Some by (simp add: qos_event_def tm_event_def)
  next
    case (Some data)
    note r = off_handleRequest [OF assms(1) assms(2) [OF \<open>getEvent d Event_new = Some ev\<close> Some]]
    show ?thesis using \<open>getEvent d Event_new = Some ev\<close> Some
      by (simp add: qos_event_def tm_event_def q r option.map_comp comp_def)
  qed
qed (simp add: qos_event_def tm_event_def)

subsection \<open>An example\<close>

text \<open>
  Four nodes in a line, \<open>0 - 1 - 2 - 3\<close>, and a link straight from the first to the last that is reserved for the
  classes from 50 on. All links lead to the right.
\<close>

definition ex_ends :: "nat \<Rightarrow> nat \<times> nat" where
  "ex_ends e = [(0, 3), (0, 1), (1, 2), (2, 3)] ! e"

definition ex_dijkstra :: "int list \<Rightarrow> nat \<Rightarrow> nat \<Rightarrow> nat list" where
  "ex_dijkstra ws u v = (if u = 0 \<and> v = 3 \<and> ws ! 0 \<le> ws ! 1 + ws ! 2 + ws ! 3 then [0] else [Suc u..<Suc v])"

definition ex_qtopology :: igraph where
  "ex_qtopology = \<lparr>ig_NODEID = [ex_node 65, ex_node 66, ex_node 67, ex_node 68],
     ig_iLID = map ex_lid [0, 1, 2, 3], ig_LID = map ex_lid [4, 5, 6, 7],
     ig_path = (\<lambda>u v. if u = 0 \<and> v = 3 then [0, 3] else [u..<Suc v]),
     ig_eid = (\<lambda>u v. map_of [((0, 3), 0), ((0, 1), 1), ((1, 2), 2), ((2, 3), 3)] (u, v))\<rparr>"

definition ex_u8 :: "16 word option \<Rightarrow> byte" where
  "ex_u8 v = (case v of None \<Rightarrow> 0 | Some w \<Rightarrow> ucast w)"

definition ex_qos :: tm_qos where
  "ex_qos = \<lparr>tq_extension = [False, True, False, False], qlwm = [(0, [255, 100, 100, 100]), (50, [50, 100, 100, 100])],
     edge_QoS = (\<lambda>e k. if k = QoS_PRIO then Some (if e = 0 then 50 else 0) else None)\<rparr>"

lemma four: "P 0 \<Longrightarrow> P 1 \<Longrightarrow> P 2 \<Longrightarrow> P 3 \<Longrightarrow> e < 4 \<Longrightarrow> P (e :: nat)"
  by (simp add: numeral_eq_Suc less_Suc_eq) auto

lemma ex_walk:
  assumes "walk ex_ends 4 u es v" "v < 4" "\<forall>e < 4. 0 \<le> ws ! e"
  shows "u \<le> v \<and> weight ws (ex_dijkstra ws u v) \<le> weight ws es"
  using assms(1)
proof (induction es arbitrary: u)
  case Nil
  then show ?case by (simp add: ex_dijkstra_def)
next
  case (Cons e es)
  have nn: "0 \<le> ws ! 0" "0 \<le> ws ! 1" "0 \<le> ws ! 2" "0 \<le> ws ! 3" using assms(3) by simp_all
  have e: "e < 4" and u: "u = fst (ex_ends e)" and w: "walk ex_ends 4 (snd (ex_ends e)) es v" using Cons.prems by auto
  note ih = Cons.IH [OF w]
  have "v = 0 \<or> v = 1 \<or> v = 2 \<or> v = 3" using assms(2) by linarith
  moreover have "e = 0 \<or> e = 1 \<or> e = 2 \<or> e = 3" using e by linarith
  ultimately show ?case using ih nn unfolding u
    by (elim disjE; simp add: ex_ends_def ex_dijkstra_def upt_rec numeral_eq_Suc)
qed


lemma ex_route_walk: "u \<le> v \<Longrightarrow> v < 4 \<Longrightarrow> walk ex_ends 4 u (ex_dijkstra ws u v) v"
proof -
  assume uv: "u \<le> v" "v < 4"
  have up: "walk ex_ends 4 u [Suc u..<Suc (u + k)] (u + k)" if "u + k < 4" for u k
    using that
  proof (induction k arbitrary: u)
    case (Suc k)
    have "u = 0 \<or> u = 1 \<or> u = 2" using Suc.prems by linarith
    then have "Suc u < 4" "ex_ends (Suc u) = (u, Suc u)" by (auto simp: ex_ends_def numeral_eq_Suc)
    then show ?case using Suc.IH [of "Suc u"] Suc.prems by (simp add: upt_conv_Cons del: upt_Suc)
  qed simp
  from up [of u "v - u"] uv show ?thesis by (auto simp: ex_dijkstra_def ex_ends_def simp del: upt_Suc)
qed

lemma ex_dijkstra_law: "dijkstra_law ex_ends 4 4 ex_dijkstra"
  unfolding dijkstra_law_def
proof (intro allI impI)
  fix ws :: "int list" and u v :: nat
  assume a: "length ws = 4 \<and> (\<forall>w \<in> set ws. 0 \<le> w) \<and> u < 4 \<and> v < 4"
  then have n: "\<forall>e < 4. 0 \<le> ws ! e" by (metis nth_mem)
  have w: "walk ex_ends 4 u es v \<Longrightarrow> u \<le> v \<and> weight ws (ex_dijkstra ws u v) \<le> weight ws es" for es
    using a n by (intro ex_walk) auto
  have "lightest ex_ends ws u v (ex_dijkstra ws u v)"
  proof (cases "\<exists>es. walk ex_ends 4 u es v")
    case True
    then show ?thesis using a w ex_route_walk by (auto simp: lightest_def)
  next
    case False
    then have "\<not> u \<le> v" using ex_route_walk a by blast
    then show ?thesis using False a by (auto simp: lightest_def ex_dijkstra_def)
  qed
  then show "lightest ex_ends ws u v (ex_dijkstra ws u v) \<and> length (ex_dijkstra ws u v) < 4"
    using a by (auto simp: ex_dijkstra_def)
qed

lemma ex_qtopology_ok: "topology_ok ex_qtopology"
proof -
  let ?g = ex_qtopology
  have p: "\<forall>u \<in> set [0..<4]. \<forall>v \<in> set [0..<4]. path_law ?g u v (ig_path ?g u v)" by code_simp
  have n: "length (ig_NODEID ?g) = 4" "length (ig_iLID ?g) = length (ig_NODEID ?g)" "distinct (ig_NODEID ?g)"
    "\<forall>x \<in> set (ig_NODEID ?g). length x = 8" by code_simp+
  have l: "\<forall>s \<in> set (ig_iLID ?g) \<union> set (ig_LID ?g). length s = 256"
    by (auto simp: ex_qtopology_def ex_lid_def)
  show ?thesis unfolding topology_ok_def using p n l by simp
qed

lemma ex_sizes [simp]: "length (ig_NODEID ex_qtopology) = 4" "length (ig_LID ex_qtopology) = 4"
  by (simp_all add: ex_qtopology_def)

lemma ex_prio: "prio_of ex_u8 ex_qos e = (if e = 0 then 50 else 0)"
  by (simp add: prio_of_def ex_u8_def ex_qos_def)

lemma ex_planes: "planes_ok ex_u8 4 ex_qos" "prios_ok ex_u8 4 ex_qos" "0 \<in> classes ex_qos" "isQoSMapOk ex_qos"
  subgoal by (simp add: planes_ok_def ex_prio plane_weight_def upt_rec numeral_eq_Suc) (simp add: ex_qos_def)
  subgoal by (simp add: prios_ok_def ex_prio)
  subgoal by (simp add: classes_def ex_qos_def)
  subgoal by (simp add: isQoSMapOk_def ex_qos_def hm_get_def)
  done

lemma ex_class: "getWeightKeyForIIPrio 20 ex_qos = 0"
  by (simp add: getWeightKeyForIIPrio_def ex_qos_def hm_get_def)



definition ex_item :: bstr where
  "ex_item = replicate 16 7"

definition ex_sha1 :: "bstr \<Rightarrow> bstr" where
  "ex_sha1 s = take 20 (1 # s @ replicate 19 0)"

definition ex_tm :: "meta_cache \<Rightarrow> tm_graph \<Rightarrow> tm_state" where
  "ex_tm mc t = \<lparr>ts_graph = t, ts_qos = ex_qos, ts_cache = mc, ts_ba = ex_ba\<rparr>"

definition ex_cache :: meta_cache where
  "ex_cache = \<lparr>ii_meta = [(ex_item, MetaDataContent\<lparr>mc_qos := [(QoS_PRIO, 60)], mc_created := 100\<rparr>)], last_non_lazy_update = 90\<rparr>"

theorem qos_match_routes_witness:
  "\<exists>t result. readTopology ex_qtopology (ex_node 65) = Some t \<and>
     qos_calculateFID ex_qtopology ex_dijkstra ex_sha1 (\<lambda>_. 150) [ex_node 65] [ex_node 68] ex_item (ex_tm ex_cache t) = Some (result, ex_tm ex_cache t) \<and>
     map fst result = [ex_node 65]"
proof -
  from readTopology_ok [OF ex_qtopology_ok] obtain t where t: "readTopology ex_qtopology (ex_node 65) = Some t" "tables_ok ex_qtopology t" by blast
  have v: "vertex ex_qtopology (ex_node 65) = 0" "vertex ex_qtopology (ex_node 68) = 3" by code_simp+
  have n: "set [ex_node 65] \<subseteq> set (ig_NODEID ex_qtopology)" "set [ex_node 68] \<subseteq> set (ig_NODEID ex_qtopology)" by (simp_all add: ex_qtopology_def)
  have c: "\<forall>x \<in> set [ex_node 68]. connected ex_qtopology ex_ends [ex_node 65] x"
    using v by (auto simp: connected_def ex_ends_def intro!: exI [of _ "[0]"])
  have m: "match_priority ex_sha1 (\<lambda>_. 150) ex_item (ts_cache (ex_tm ex_cache t), ts_ba (ex_tm ex_cache t)) = Some (60, ex_cache, ex_ba)"
    unfolding ex_tm_def tm_state.select_convs by code_simp
  have s: "(ex_tm ex_cache t)\<lparr>ts_cache := ex_cache, ts_ba := ex_ba\<rparr> = ex_tm ex_cache t" by (simp add: ex_tm_def)
  have q: "getExten EXT_QOS (ts_qos (ex_tm ex_cache t)) = Some True" by (simp add: ex_tm_def getExten_def ex_qos_def)
  have "tables_ok ex_qtopology (ts_graph (ex_tm ex_cache t))" "isQoSMapOk (ts_qos (ex_tm ex_cache t))"
    "planes_ok ex_u8 (length (ig_LID ex_qtopology)) (ts_qos (ex_tm ex_cache t))" "prios_ok ex_u8 (length (ig_LID ex_qtopology)) (ts_qos (ex_tm ex_cache t))"
    using t(2) ex_planes by (simp_all add: ex_tm_def)
  from qos_match_routes [OF ex_qtopology_ok this(1) _ q this(2-4) m n c, of ex_dijkstra, unfolded s ex_sizes, OF ex_dijkstra_law]
  obtain result where "qos_calculateFID ex_qtopology ex_dijkstra ex_sha1 (\<lambda>_. 150) [ex_node 65] [ex_node 68] ex_item (ex_tm ex_cache t) =
      Some (result, ex_tm ex_cache t)" "map fst result = [ex_node 65]"
    by (elim exE conjE) (rule that, assumption+)
  then show ?thesis using t(1) by (intro exI conjI)
qed

definition ex_tables :: tm_graph where
  "ex_tables = \<lparr>tm_nodeID = ex_node 65, reverse_node_index = [], nodeID_iLID = [], vertex_iLID = [], reverse_edge_index = [], edge_LID = []\<rparr>"

lemma ex_item_ok: "item_id ex_item" "length ex_item < 256" "sha1_ok ex_sha1" "meta_id ex_sha1 ex_item \<noteq> ex_item" "cache_ok (IIMetaCache_new 40)"
  subgoal by (simp add: item_id_def ex_item_def)
  subgoal by (simp add: ex_item_def)
  subgoal by (simp add: sha1_ok_def ex_sha1_def min_def)
  subgoal
  proof
    assume "meta_id ex_sha1 ex_item = ex_item"
    then have "meta_id ex_sha1 ex_item ! 8 = ex_item ! 8" by simp
    then show False by (simp add: meta_id_def prefix_id_def ex_item_def nth_append ex_sha1_def)
  qed
  subgoal by (simp add: cache_ok_def IIMetaCache_new_def map_wf_def)
  done


theorem unanswered_query_is_not_taken_back_witness:
  "\<exists>mc1 ba1 mc2. match_priority ex_sha1 (\<lambda>_. 50) ex_item (IIMetaCache_new 40, ex_ba) = Some (0, mc1, ba1) \<and>
    match_priority ex_sha1 (\<lambda>_. 52) ex_item (mc1, ba1) = Some (0, mc2, sends [info_request SUBSCRIBE_INFO (meta_id ex_sha1 ex_item) ex_ba,
      info_request UNSUBSCRIBE_INFO ex_item ex_ba, info_request SUBSCRIBE_INFO (meta_id ex_sha1 ex_item) ex_ba] ex_ba)"
proof -
  have "sock_fd ex_ba \<noteq> -1" by (simp add: ex_ba_def)
  from unanswered_query_is_not_taken_back [OF ex_item_ok(5) this ex_item_ok(1,3), of "\<lambda>_. 52" "\<lambda>_. 50"] show ?thesis
    by (auto simp: IIMetaCache_new_def)
qed

definition ex_reports :: "(bitvec \<times> qos_list) list" where
  "ex_reports = [(ex_fid 16, [(QoS_PRIO, 50)]), (ex_fid 32, [(QoS_PRIO, 0)])]"

lemma ex_fid_lid:
  assumes "k < 32"
  shows "has_bits (ex_fid (2 ^ k)) (text_bit (ex_lid k))"
proof -
  have "bv_bit (ex_fid (2 ^ k)) i = text_bit (ex_lid k) i" if i: "i < 256" for i
  proof -
    have t: "text_bit (ex_lid k) i \<longleftrightarrow> i = k" using i assms by (auto simp: text_bit_def ex_lid_def nth_append nth_Cons')
    have "[w, 0, 0, 0, 0, 0, 0, 0] ! n = (if n = 0 then w else 0)" if "n < 8" for w :: "32 word" and n
      using that by (simp add: nth_Cons')
    moreover have "i div 32 < 8" using i by (simp add: less_mult_imp_div_less)
    ultimately have "bv_bit (ex_fid (2 ^ k)) i \<longleftrightarrow> i div 32 = 0 \<and> i mod 32 = k"
      using assms by (auto simp: bv_bit_def ex_fid_def bit_simps)
    moreover have "i div 32 = 0 \<and> i mod 32 = k \<longleftrightarrow> i = k" using assms by auto
    ultimately show ?thesis using t by simp
  qed
  then show ?thesis by (simp add: has_bits_def ex_fid_ok)
qed

definition ex_eid :: "bitvec \<Rightarrow> nat" where
  "ex_eid bv = (if bv = ex_fid 16 then 0 else 1)"


end
